(* ===== verification/Prelude.thy ===== *)
theory Prelude
  imports Main "HOL-Library.Word" "HOL-Library.Product_Lexorder" "HOL-Library.Monad_Syntax"
    "HOL-Library.Multiset"
begin

text \<open>
  Shared vocabulary of the development: the machine integers of the C++ code, overflow tests and
  saturating addition, the byte set an address range covers, the ordered associative containers
  (\<open>std::map\<close>, \<open>std::set\<close>) as sorted lists, \<open>std::sort\<close> with a comparator, decimal printing,
  and the collections of rewrite rules the component theories use.
\<close>

section \<open>Collections of rules\<close>

named_theorems u64_simps \<open>word operations read as natural numbers\<close>
named_theorems errors_simps \<open>when a list of diagnostics is empty\<close>

section \<open>Machine integers\<close>

text \<open>
  \<open>std::uint64_t\<close> and \<open>std::uint32_t\<close> are words; \<open>std::int64_t\<close> and \<open>std::int32_t\<close> values are only
  compared by the code, so they are \<open>int\<close>; \<open>std::size_t\<close> indices are \<open>nat\<close>.
\<close>

type_synonym u64 = "64 word"
type_synonym u32 = "32 word"
type_synonym BufferId = u32
type_synonym PoolId = u32

abbreviation UINT64_MAX :: u64 where "UINT64_MAX \<equiv> -1"

definition INT64_MAX :: int where "INT64_MAX = 9223372036854775807"
definition INT64_MIN :: int where "INT64_MIN = -9223372036854775808"

definition AddOverflows :: "u64 \<Rightarrow> u64 \<Rightarrow> bool" where
  "AddOverflows first second = (first > UINT64_MAX - second)"

definition SaturatingAdd :: "u64 \<Rightarrow> u64 \<Rightarrow> u64" where
  "SaturatingAdd first second = (if AddOverflows first second then UINT64_MAX else first + second)"

lemma unat_UINT64_MAX [u64_simps]: "unat UINT64_MAX = 18446744073709551615"
  by (simp add: unsigned_minus_1_eq_mask mask_eq_exp_minus_1)

lemma unat_u64_bound: "unat (x :: u64) \<le> 18446744073709551615"
proof -
  have "unat x < 2 ^ 64" using unsigned_less [of x] by simp
  then show ?thesis by simp
qed

lemma unat_u64_less: "unat (x :: u64) < 18446744073709551616"
  using unat_u64_bound [of x] by simp

lemma le_UINT64_MAX [simp]: "x \<le> UINT64_MAX"
  using unat_u64_bound [of x] by (simp add: word_le_nat_alt unat_UINT64_MAX)

lemma AddOverflows_unat: "AddOverflows a b \<longleftrightarrow> 18446744073709551616 \<le> unat a + unat b"
proof -
  have "unat (UINT64_MAX - b) = unat UINT64_MAX - unat b"
    by (rule unat_sub) (rule le_UINT64_MAX)
  then show ?thesis
    using unat_u64_bound [of a] unat_u64_bound [of b]
    by (auto simp: AddOverflows_def word_less_nat_alt unat_UINT64_MAX)
qed

lemma AddOverflows_commute: "AddOverflows a b = AddOverflows b a"
  by (simp add: AddOverflows_unat add.commute)

lemma unat_plus_no_overflow [u64_simps]:
  "\<not> AddOverflows a b \<Longrightarrow> unat (a + b) = unat a + unat b"
  by (subst unat_add_lem [THEN iffD1]) (auto simp: AddOverflows_unat)

lemma unat_SaturatingAdd [u64_simps]:
  "unat (SaturatingAdd a b) = min (unat a + unat b) 18446744073709551615"
  by (auto simp: SaturatingAdd_def AddOverflows_unat unat_UINT64_MAX unat_plus_no_overflow min_def)

lemma SaturatingAdd_zero [simp]: "SaturatingAdd a 0 = a" "SaturatingAdd 0 a = a"
  using unat_u64_bound [of a]
  by (auto simp: word_unat_eq_iff unat_SaturatingAdd min_def)

lemma SaturatingAdd_commute: "SaturatingAdd a b = SaturatingAdd b a"
  by (simp add: word_unat_eq_iff unat_SaturatingAdd add.commute)

lemma SaturatingAdd_assoc: "SaturatingAdd (SaturatingAdd a b) c = SaturatingAdd a (SaturatingAdd b c)"
  by (simp add: word_unat_eq_iff unat_SaturatingAdd min_def)

lemma SaturatingAdd_ge: "a \<le> SaturatingAdd a b" "b \<le> SaturatingAdd a b"
  using unat_u64_bound [of a] unat_u64_bound [of b]
  by (auto simp: word_le_nat_alt unat_SaturatingAdd)

lemma SaturatingAdd_mono: "a \<le> a' \<Longrightarrow> b \<le> b' \<Longrightarrow> SaturatingAdd a b \<le> SaturatingAdd a' b'"
  by (auto simp: word_le_nat_alt unat_SaturatingAdd intro: min.coboundedI1)

lemma SaturatingAdd_eq_0 [simp]: "SaturatingAdd a b = 0 \<longleftrightarrow> a = 0 \<and> b = 0"
  by (auto simp: word_unat_eq_iff unat_SaturatingAdd min_def)

lemma unat_max_u64 [u64_simps]: "unat (max (a :: u64) b) = max (unat a) (unat b)"
  by (auto simp: max_def word_le_nat_alt)

subsection \<open>Address ranges as sets of bytes\<close>

definition bytes :: "u64 \<Rightarrow> u64 \<Rightarrow> nat set" where
  "bytes offset sz = {unat offset ..< unat offset + unat sz}"

definition range_bytes :: "u64 \<Rightarrow> u64 \<Rightarrow> nat set" where
  "range_bytes b e = {unat b ..< unat e}"

lemma bytes_empty_iff [simp]: "bytes o' s = {} \<longleftrightarrow> s = 0"
  by (simp add: bytes_def word_unat_eq_iff)

lemma bytes_subset: "unat s \<le> unat s' \<Longrightarrow> bytes o' s \<subseteq> bytes o' s'"
  by (auto simp: bytes_def)

section \<open>Ordered maps and sets\<close>

text \<open>
  \<open>std::map\<close> is an association list kept in increasing order of its keys, so that iterating over it
  is traversing the list; \<open>m[k] = v\<close> is \<open>om_put\<close>, \<open>emplace\<close> is \<open>om_emplace\<close>, \<open>find\<close> is \<open>map_of\<close>.
  \<open>std::set\<close> is a strictly sorted list, \<open>insert\<close> is the library's \<open>insort_insert\<close>.
\<close>

type_synonym ('k, 'v) omap = "('k \<times> 'v) list"

fun om_put :: "'k::linorder \<Rightarrow> 'v \<Rightarrow> ('k, 'v) omap \<Rightarrow> ('k, 'v) omap" where
  "om_put k v [] = [(k, v)]"
| "om_put k v ((k', v') # m) =
     (if k < k' then (k, v) # (k', v') # m
      else if k = k' then (k, v) # m
      else (k', v') # om_put k v m)"

definition om_emplace :: "'k::linorder \<Rightarrow> 'v \<Rightarrow> ('k, 'v) omap \<Rightarrow> ('k, 'v) omap" where
  "om_emplace k v m = (if map_of m k = None then om_put k v m else m)"

text \<open>\<open>m[k]\<close> read through \<open>operator[]\<close>: a missing key is default-initialised.\<close>

definition om_get :: "'v \<Rightarrow> ('k, 'v) omap \<Rightarrow> 'k \<Rightarrow> 'v" where
  "om_get d m k = (case map_of m k of None \<Rightarrow> d | Some v \<Rightarrow> v)"

definition om_ok :: "('k::linorder, 'v) omap \<Rightarrow> bool" where
  "om_ok m = sorted_wrt (<) (map fst m)"

lemma om_ok_Nil [simp]: "om_ok []"
  by (simp add: om_ok_def)

lemma map_of_om_put [simp]: "map_of (om_put k v m) = (map_of m)(k \<mapsto> v)"
  by (induction k v m rule: om_put.induct) (auto simp: fun_eq_iff)

lemma fst_om_put: "fst ` set (om_put k v m) = insert k (fst ` set m)"
  by (induction k v m rule: om_put.induct) auto

lemma om_ok_om_put [simp]: "om_ok m \<Longrightarrow> om_ok (om_put k v m)"
proof (induction k v m rule: om_put.induct)
  case (2 k v k' v' m)
  then show ?case
    using fst_om_put [of k v m] by (fastforce simp: om_ok_def image_iff)
qed (simp add: om_ok_def)

lemma map_of_om_emplace:
  "map_of (om_emplace k v m) = (if k \<in> dom (map_of m) then map_of m else (map_of m)(k \<mapsto> v))"
  by (auto simp: om_emplace_def dom_def)

lemma om_ok_om_emplace [simp]: "om_ok m \<Longrightarrow> om_ok (om_emplace k v m)"
  by (simp add: om_emplace_def)

lemma om_ok_distinct: "om_ok m \<Longrightarrow> distinct (map fst m)"
  by (simp add: om_ok_def strict_sorted_iff)

lemma om_ok_in_set: "om_ok m \<Longrightarrow> (k, v) \<in> set m \<longleftrightarrow> map_of m k = Some v"
  by (simp add: om_ok_distinct)

text \<open>
  \<open>std::unordered_map\<close>, which the code never iterates over, is a partial function; \<open>emplace\<close> keeps
  an entry that is already there.
\<close>

definition um_emplace :: "('k \<rightharpoonup> 'v) \<Rightarrow> 'k \<Rightarrow> 'v \<Rightarrow> ('k \<rightharpoonup> 'v)" where
  "um_emplace m k v = (if m k = None then m(k \<mapsto> v) else m)"

definition um_emplace_all :: "('k \<times> 'v) list \<Rightarrow> ('k \<rightharpoonup> 'v)" where
  "um_emplace_all kvs = foldl (\<lambda>m (k, v). um_emplace m k v) Map.empty kvs"

lemma foldl_um_emplace: "foldl (\<lambda>m (k, v). um_emplace m k v) m kvs = map_of kvs ++ m"
proof (induction kvs arbitrary: m)
  case (Cons kv kvs)
  obtain k v where "kv = (k, v)" by fastforce
  then show ?case
    unfolding foldl.simps Cons.IH
    by (auto simp: um_emplace_def map_add_def fun_eq_iff split: option.splits)
qed simp

lemma um_emplace_all_map_of: "um_emplace_all kvs = map_of kvs"
  by (simp add: um_emplace_all_def foldl_um_emplace)

section \<open>Sorting with a comparator\<close>

text \<open>
  \<open>std::sort\<close> and \<open>std::stable_sort\<close> with a strict comparator, as a stable insertion sort. Where the
  comparator never leaves two different elements unordered the sorted result is unique
  (\<open>sort_by_unique\<close>), so the instability of \<open>std::sort\<close> does not show.
\<close>

fun insort_by :: "('a \<Rightarrow> 'a \<Rightarrow> bool) \<Rightarrow> 'a \<Rightarrow> 'a list \<Rightarrow> 'a list" where
  "insort_by lt x [] = [x]"
| "insort_by lt x (y # ys) = (if lt y x then y # insort_by lt x ys else x # y # ys)"

definition sort_by :: "('a \<Rightarrow> 'a \<Rightarrow> bool) \<Rightarrow> 'a list \<Rightarrow> 'a list" where
  "sort_by lt xs = foldr (insort_by lt) xs []"

definition weak_order_on :: "'a set \<Rightarrow> ('a \<Rightarrow> 'a \<Rightarrow> bool) \<Rightarrow> bool" where
  "weak_order_on A lt \<longleftrightarrow>
     (\<forall>x\<in>A. \<not> lt x x) \<and>
     (\<forall>x\<in>A. \<forall>y\<in>A. \<forall>z\<in>A. lt x y \<longrightarrow> lt y z \<longrightarrow> lt x z) \<and>
     (\<forall>x\<in>A. \<forall>y\<in>A. \<forall>z\<in>A. lt x z \<longrightarrow> lt x y \<or> lt y z)"

lemma mset_insort_by [simp]: "mset (insort_by lt x xs) = add_mset x (mset xs)"
  by (induction xs) auto

lemma mset_sort_by [simp]: "mset (sort_by lt xs) = mset xs"
  unfolding sort_by_def by (induction xs) auto

lemma set_insort_by [simp]: "set (insort_by lt x xs) = insert x (set xs)"
  using mset_insort_by [of lt x xs] by (metis set_mset_add_mset_insert set_mset_mset)

lemma set_sort_by [simp]: "set (sort_by lt xs) = set xs"
  using mset_sort_by [of lt xs] by (metis set_mset_mset)

lemma length_sort_by [simp]: "length (sort_by lt xs) = length xs"
  using mset_sort_by [of lt xs] by (metis size_mset)

lemma distinct_sort_by [simp]: "distinct (sort_by lt xs) = distinct xs"
  using mset_sort_by [of lt xs] by (metis mset_eq_imp_distinct_iff)

lemma weak_order_on_subset: "weak_order_on A lt \<Longrightarrow> B \<subseteq> A \<Longrightarrow> weak_order_on B lt"
  unfolding weak_order_on_def by blast

lemma weak_order_on_asym: "weak_order_on A lt \<Longrightarrow> x \<in> A \<Longrightarrow> y \<in> A \<Longrightarrow> lt x y \<Longrightarrow> \<not> lt y x"
  unfolding weak_order_on_def by blast

lemma weak_order_on_cotrans:
  "weak_order_on A lt \<Longrightarrow> x \<in> A \<Longrightarrow> y \<in> A \<Longrightarrow> z \<in> A \<Longrightarrow> lt x z \<Longrightarrow> lt x y \<or> lt y z"
  unfolding weak_order_on_def by blast

lemma sorted_insort_by:
  assumes "weak_order_on (insert x (set xs)) lt" "sorted_wrt (\<lambda>a b. \<not> lt b a) xs"
  shows "sorted_wrt (\<lambda>a b. \<not> lt b a) (insort_by lt x xs)"
  using assms
proof (induction xs)
  case Nil
  then show ?case by simp
next
  case (Cons y ys)
  have wo: "weak_order_on (insert x (set ys)) lt"
    using Cons.prems(1) by (rule weak_order_on_subset) auto
  show ?case
  proof (cases "lt y x")
    case True
    then have "\<not> lt x y" using weak_order_on_asym [OF Cons.prems(1), of y x] by simp
    with True Cons.IH [OF wo] Cons.prems(2) show ?thesis by auto
  next
    case False
    have below: "\<forall>z\<in>set ys. \<not> lt z x"
    proof (intro ballI notI)
      fix z
      assume that: "z \<in> set ys"
      assume "lt z x"
      moreover have "\<not> lt z y" using Cons.prems(2) that by simp
      moreover have "lt z x \<Longrightarrow> lt z y \<or> lt y x"
        using weak_order_on_cotrans [OF Cons.prems(1), of z y x] that by simp
      ultimately show False using False by blast
    qed
    have "sorted_wrt (\<lambda>a b. \<not> lt b a) (x # y # ys)"
      unfolding sorted_wrt.simps(2) [of _ x] using False below Cons.prems(2) by simp
    with False show ?thesis by (simp only: insort_by.simps if_False)
  qed
qed

lemma sorted_sort_by:
  "weak_order_on (set xs) lt \<Longrightarrow> sorted_wrt (\<lambda>a b. \<not> lt b a) (sort_by lt xs)"
proof (induction xs)
  case (Cons x xs)
  have "weak_order_on (set xs) lt" using Cons.prems by (rule weak_order_on_subset) auto
  with Cons.IH have "sorted_wrt (\<lambda>a b. \<not> lt b a) (sort_by lt xs)" .
  moreover have "set (sort_by lt xs) = set xs" by simp
  ultimately show ?case
    using Cons.prems by (simp add: sort_by_def sorted_insort_by)
qed (simp add: sort_by_def)

lemma sort_by_unique:
  assumes "weak_order_on (set xs) lt"
    and "\<And>x y. x \<in> set xs \<Longrightarrow> y \<in> set xs \<Longrightarrow> x \<noteq> y \<Longrightarrow> lt x y \<or> lt y x"
    and "mset ys = mset xs" "sorted_wrt (\<lambda>a b. \<not> lt b a) ys"
  shows "ys = sort_by lt xs"
proof -
  have eq: "ys = zs" if "mset ys = mset zs" "set ys \<subseteq> set xs" "sorted_wrt (\<lambda>a b. \<not> lt b a) ys"
    "sorted_wrt (\<lambda>a b. \<not> lt b a) zs" for ys zs :: "'a list"
    using that
  proof (induction ys arbitrary: zs)
    case Nil
    then show ?case by simp
  next
    case (Cons y ys)
    then obtain z zs' where zs: "zs = z # zs'" by (cases zs) auto
    have sets: "set (y # ys) = set zs" using Cons.prems(1) by (metis set_mset_mset)
    have "y = z"
    proof (rule ccontr)
      assume "y \<noteq> z"
      then have "y \<in> set zs'" "z \<in> set ys" using sets zs by auto
      then have "\<not> lt z y" "\<not> lt y z" using Cons.prems(3,4) zs by auto
      moreover have "y \<in> set xs" "z \<in> set xs" using Cons.prems(2) \<open>z \<in> set ys\<close> by auto
      ultimately show False using assms(2) \<open>y \<noteq> z\<close> by blast
    qed
    have "ys = zs'"
    proof (rule Cons.IH)
      show "mset ys = mset zs'" using Cons.prems(1) \<open>y = z\<close> zs by simp
      show "set ys \<subseteq> set xs" using Cons.prems(2) by simp
      show "sorted_wrt (\<lambda>a b. \<not> lt b a) ys" using Cons.prems(3) by simp
      show "sorted_wrt (\<lambda>a b. \<not> lt b a) zs'" using Cons.prems(4) zs by simp
    qed
    with \<open>y = z\<close> zs show ?case by simp
  qed
  have "set ys = set xs" using assms(3) by (metis set_mset_mset)
  then show ?thesis
    using assms(3,4) sorted_sort_by [OF assms(1)] by (intro eq) simp_all
qed

section \<open>Decimal text\<close>

fun nat_digits :: "nat \<Rightarrow> string" where
  "nat_digits n = (if n < 10 then [char_of (48 + n)] else nat_digits (n div 10) @ [char_of (48 + n mod 10)])"

declare nat_digits.simps [simp del]

definition to_string :: "'a::len word \<Rightarrow> string" where
  "to_string w = nat_digits (unat w)"

definition int_to_string :: "int \<Rightarrow> string" where
  "int_to_string i = (if i < 0 then CHR ''-'' # nat_digits (nat (- i)) else nat_digits (nat i))"

definition PairName :: "BufferId \<Rightarrow> BufferId \<Rightarrow> string" where
  "PairName first second = to_string first @ '','' @ to_string second"

section \<open>Collecting diagnostics\<close>

text \<open>\<open>if (condition) errors.push_back(message)\<close> contributes \<open>err_if condition message\<close>.\<close>

definition err_if :: "bool \<Rightarrow> string \<Rightarrow> string list" where
  "err_if b msg = (if b then [msg] else [])"

lemma err_if_Nil [errors_simps, simp]: "err_if b msg = [] \<longleftrightarrow> \<not> b"
  by (simp add: err_if_def)

lemma concat_map_Nil [errors_simps]: "concat (map f xs) = [] \<longleftrightarrow> (\<forall>x\<in>set xs. f x = [])"
  by (simp add: concat_eq_Nil_conv)

lemmas [errors_simps] = append_is_Nil_conv

text \<open>Exceptions thrown by the code.\<close>

datatype exn = InvalidArgument string | RuntimeError string | OutOfRange string

section \<open>Computations that may throw\<close>

text \<open>
  A function that may throw returns \<open>Inl\<close> the exception or \<open>Inr\<close> its value; \<open>and_then\<close> is what
  follows a call that may throw, \<open>try_fold\<close> a loop whose body may throw.
\<close>

fun and_then :: "'e + 'a \<Rightarrow> ('a \<Rightarrow> 'e + 'b) \<Rightarrow> 'e + 'b" where
  "and_then (Inl e) f = Inl e"
| "and_then (Inr x) f = f x"

fun try_fold :: "('a \<Rightarrow> 's \<Rightarrow> 'e + 's) \<Rightarrow> 'a list \<Rightarrow> 's \<Rightarrow> 'e + 's" where
  "try_fold f [] s = Inr s"
| "try_fold f (x # xs) s = and_then (f x s) (try_fold f xs)"

lemma and_then_Inr [simp]: "and_then m f = Inr y \<longleftrightarrow> (\<exists>x. m = Inr x \<and> f x = Inr y)"
  by (cases m) auto

lemma try_fold_append: "try_fold f (xs @ ys) s = and_then (try_fold f xs s) (try_fold f ys)"
proof (induction xs arbitrary: s)
  case (Cons x xs)
  then show ?case by (cases "f x s") auto
qed simp

lemma try_fold_induct [consumes 1, case_names start step]:
  assumes "try_fold f xs s = Inr s'" "P [] s"
    and "\<And>ys x t t'. x \<in> set xs \<Longrightarrow> P ys t \<Longrightarrow> f x t = Inr t' \<Longrightarrow> P (ys @ [x]) t'"
  shows "P xs s'"
  using assms
proof (induction xs arbitrary: s' rule: rev_induct)
  case (snoc x xs)
  then obtain t where "try_fold f xs s = Inr t" "f x t = Inr s'" by (auto simp: try_fold_append)
  then show ?case using snoc.IH [of t] snoc.prems by fastforce
qed simp

lemma foldl_prefix_induct [case_names start step]:
  assumes "P [] s" and "\<And>ys x t. x \<in> set xs \<Longrightarrow> P ys t \<Longrightarrow> P (ys @ [x]) (f t x)"
  shows "P xs (foldl f s xs)"
  using assms by (induction xs rule: rev_induct) auto

end
