(* ===== verification/Model.thy ===== *)
theory Model
  imports Prelude
begin

text \<open>
  The portable problem model of \<^verbatim>\<open>src/dsa/model/model.h\<close> and \<^verbatim>\<open>model.cpp\<close>: buffers with half-open
  live intervals, memory pools, hard constraints, pins, reuse penalties, the PyPTO structure, the
  objective, placements, solutions and results. Every struct is a record with its fields in the
  order of the source, every enum a datatype with the source's constructors.
\<close>

section \<open>Buffers and pools\<close>

definition kDefaultPool :: PoolId where "kDefaultPool = 0"

record Interval =
  lower :: int
  upper :: int

definition Overlaps :: "Interval \<Rightarrow> Interval \<Rightarrow> bool" where
  "Overlaps i other \<longleftrightarrow> lower i < upper other \<and> lower other < upper i"

record AddressRange =
  range_begin :: u64
  range_end :: u64

record BankGeometry =
  bank_size :: u64
  num_banks :: u32

record Buffer =
  buf_id :: BufferId
  buf_name :: string
  buf_size :: u64
  alignment :: u64
  live_intervals :: "Interval list"
  allowed_pools :: "PoolId list"

record Pool =
  pool_id :: PoolId
  pool_name :: string
  capacity :: "u64 option"
  reserved_ranges :: "AddressRange list"
  bank_geometry :: "BankGeometry option"

section \<open>Hard constraints\<close>

record Colocation =
  col_first :: BufferId
  col_second :: BufferId

datatype SeparationReason =
  Sep_kGeneric | Sep_kPipelineStage | Sep_kTargetHazard | Sep_kSemanticNoAlias | Sep_kCrossPipe

record Separation =
  sep_first :: BufferId
  sep_second :: BufferId
  sep_reasons :: "SeparationReason list"

record TemporalExclusion =
  ex_first :: BufferId
  ex_second :: BufferId

record PinnedAllocation =
  pin_buffer :: BufferId
  pin_pool :: PoolId
  pin_offset :: u64
  exclusive_for_all_time :: bool

section \<open>Costs and compiler structure\<close>

datatype ReusePenaltyReason =
  Pen_kGeneric | Pen_kPipelineSerialization | Pen_kLoadMotionSerialization | Pen_kCrossPipe
  | Pen_kCrossCore | Pen_kEventBudget

record ReusePenalty =
  pen_first :: BufferId
  pen_second :: BufferId
  pen_cost :: u64
  pen_reason :: ReusePenaltyReason

record CostModel =
  reuse_penalties :: "ReusePenalty list"

record PyptoAliasClass =
  alias_buffer :: BufferId
  alias_members :: "string list"

record PyptoPipelineMember =
  member_buffer :: BufferId
  member_stage :: int
  member_residue :: u32

record PyptoPipelineGroup =
  group_id :: int
  group_pool :: PoolId
  slot_size :: u64
  depth :: u32
  effective_depth :: u32
  group_members :: "PyptoPipelineMember list"

record PyptoStructure =
  alias_classes :: "PyptoAliasClass list"
  pipeline_groups :: "PyptoPipelineGroup list"

section \<open>Objectives\<close>

datatype ObjectiveMetric = kCapacityOverflow | kTotalPeak | kMaxPeak | kReuseCost | kBankCost

datatype ObjectiveAggregation = kLexicographic

record ObjectiveSpec =
  aggregation :: ObjectiveAggregation
  terms :: "ObjectiveMetric list"

section \<open>Problems, solutions, results\<close>

record DsaProblem =
  buffers :: "Buffer list"
  pools :: "Pool list"
  colocations :: "Colocation list"
  separations :: "Separation list"
  temporal_exclusions :: "TemporalExclusion list"
  pinned_allocations :: "PinnedAllocation list"
  cost_model :: "CostModel option"
  pypto_structure :: "PyptoStructure option"
  objective :: ObjectiveSpec

definition FindBuffer :: "DsaProblem \<Rightarrow> BufferId \<Rightarrow> Buffer option" where
  "FindBuffer problem i = find (\<lambda>buffer. buf_id buffer = i) (buffers problem)"

definition FindPool :: "DsaProblem \<Rightarrow> PoolId \<Rightarrow> Pool option" where
  "FindPool problem i = find (\<lambda>pool. pool_id pool = i) (pools problem)"

record Placement =
  pl_pool :: PoolId
  pl_offset :: u64

record DsaSolution =
  placements :: "(BufferId, Placement) omap"

definition Find :: "DsaSolution \<Rightarrow> BufferId \<Rightarrow> Placement option" where
  "Find solution i = map_of (placements solution) i"

record ObjectiveValue =
  peak_by_pool :: "(PoolId, u64) omap"
  total_peak :: u64
  max_peak :: u64
  reuse_cost :: u64
  bank_cost :: u64

definition ObjectiveValue_default :: ObjectiveValue where
  "ObjectiveValue_default =
     \<lparr>peak_by_pool = [], total_peak = 0, max_peak = 0, reuse_cost = 0, bank_cost = 0\<rparr>"

datatype SolveStatus =
  kFeasible | kInfeasibleProven | kBestEffortNoFit | kTimeout | kUnsupported | kInvalidProblem

record DsaResult =
  status :: SolveStatus
  solution :: "DsaSolution option"
  res_objective :: ObjectiveValue
  solver_metrics :: "string \<rightharpoonup> u64"
  diagnostics :: "string list"

definition DsaResult_default :: DsaResult where
  "DsaResult_default =
     \<lparr>status = kUnsupported, solution = None, res_objective = ObjectiveValue_default,
      solver_metrics = Map.empty, diagnostics = []\<rparr>"

section \<open>Names and standard objectives\<close>

fun SolveStatus_ToString :: "SolveStatus \<Rightarrow> string" where
  "SolveStatus_ToString kFeasible = ''feasible''"
| "SolveStatus_ToString kInfeasibleProven = ''infeasible_proven''"
| "SolveStatus_ToString kBestEffortNoFit = ''best_effort_no_fit''"
| "SolveStatus_ToString kTimeout = ''timeout''"
| "SolveStatus_ToString kUnsupported = ''unsupported''"
| "SolveStatus_ToString kInvalidProblem = ''invalid_problem''"

fun SeparationReason_ToString :: "SeparationReason \<Rightarrow> string" where
  "SeparationReason_ToString Sep_kGeneric = ''generic''"
| "SeparationReason_ToString Sep_kPipelineStage = ''pipeline_stage''"
| "SeparationReason_ToString Sep_kTargetHazard = ''target_hazard''"
| "SeparationReason_ToString Sep_kSemanticNoAlias = ''semantic_no_alias''"
| "SeparationReason_ToString Sep_kCrossPipe = ''cross_pipe''"

fun ObjectiveMetric_ToString :: "ObjectiveMetric \<Rightarrow> string" where
  "ObjectiveMetric_ToString kCapacityOverflow = ''capacity_overflow''"
| "ObjectiveMetric_ToString kTotalPeak = ''total_peak''"
| "ObjectiveMetric_ToString kMaxPeak = ''max_peak''"
| "ObjectiveMetric_ToString kReuseCost = ''reuse_cost''"
| "ObjectiveMetric_ToString kBankCost = ''bank_cost''"

fun ObjectiveAggregation_ToString :: "ObjectiveAggregation \<Rightarrow> string" where
  "ObjectiveAggregation_ToString kLexicographic = ''lexicographic''"

definition MinimizePeakObjective :: ObjectiveSpec where
  "MinimizePeakObjective = \<lparr>aggregation = kLexicographic, terms = [kTotalPeak, kMaxPeak]\<rparr>"

definition FitThenMinimizeReuseCostObjective :: ObjectiveSpec where
  "FitThenMinimizeReuseCostObjective =
     \<lparr>aggregation = kLexicographic, terms = [kCapacityOverflow, kReuseCost]\<rparr>"

section \<open>Enumerations in the order of their underlying values\<close>

text \<open>
  The enums are \<open>enum class : uint8_t\<close>; \<open>std::set\<close> orders them by their value, which is the order of
  their declaration.
\<close>

fun metric_value :: "ObjectiveMetric \<Rightarrow> nat" where
  "metric_value kCapacityOverflow = 0"
| "metric_value kTotalPeak = 1"
| "metric_value kMaxPeak = 2"
| "metric_value kReuseCost = 3"
| "metric_value kBankCost = 4"

lemma metric_value_inject [simp]: "metric_value a = metric_value b \<longleftrightarrow> a = b"
  by (cases a; cases b) auto

instantiation ObjectiveMetric :: linorder
begin
definition less_eq_ObjectiveMetric where
  "(a :: ObjectiveMetric) \<le> b \<longleftrightarrow> metric_value a \<le> metric_value b"
definition less_ObjectiveMetric where
  "(a :: ObjectiveMetric) < b \<longleftrightarrow> metric_value a < metric_value b"
instance
  by standard (auto simp: less_eq_ObjectiveMetric_def less_ObjectiveMetric_def)
end

section \<open>Lookup lemmas\<close>

lemma FindBuffer_SomeD:
  "FindBuffer problem i = Some b \<Longrightarrow> b \<in> set (buffers problem) \<and> buf_id b = i"
  by (auto simp: FindBuffer_def find_Some_iff)

lemma FindBuffer_None_iff: "FindBuffer problem i = None \<longleftrightarrow> i \<notin> buf_id ` set (buffers problem)"
  by (auto simp: FindBuffer_def find_None_iff)

lemma FindPool_SomeD: "FindPool problem i = Some q \<Longrightarrow> q \<in> set (pools problem) \<and> pool_id q = i"
  by (auto simp: FindPool_def find_Some_iff)

lemma FindPool_None_iff: "FindPool problem i = None \<longleftrightarrow> i \<notin> pool_id ` set (pools problem)"
  by (auto simp: FindPool_def find_None_iff)

lemma find_distinct_key:
  "distinct (map f xs) \<Longrightarrow> x \<in> set xs \<Longrightarrow> find (\<lambda>y. f y = f x) xs = Some x"
proof (induction xs)
  case (Cons a xs)
  then have "f a = f x \<Longrightarrow> a = x" by (auto simp: rev_image_eqI)
  with Cons show ?case by auto
qed simp

lemma FindBuffer_in_set:
  "distinct (map buf_id (buffers problem)) \<Longrightarrow> b \<in> set (buffers problem) \<Longrightarrow>
   FindBuffer problem (buf_id b) = Some b"
  unfolding FindBuffer_def by (rule find_distinct_key)

lemma FindPool_in_set:
  "distinct (map pool_id (pools problem)) \<Longrightarrow> q \<in> set (pools problem) \<Longrightarrow>
   FindPool problem (pool_id q) = Some q"
  unfolding FindPool_def by (rule find_distinct_key)

end
