(* ===== verification/Union_Find.thy ===== *)
theory Union_Find
  imports Prelude
begin

text \<open>
  \<open>class DisjointSet\<close>, the union-find structure with path compression that
  \<^verbatim>\<open>validator.cpp\<close>, \<^verbatim>\<open>placement_engine.cpp\<close> and \<^verbatim>\<open>reuse_geometry.cpp\<close> each define in the same
  way. The state is the vector \<open>parent_\<close>. \<open>Find\<close> is recursive and writes the compressed parent
  back, so it returns the root together with the new vector. The interface the clients rely on is
  the locale \<open>partition\<close>; the structure is its interpretation.
\<close>

section \<open>The structure\<close>

definition ds_init :: "nat \<Rightarrow> nat list" where
  "ds_init n = [0..<n]"

text \<open>
  One unit of fuel per link followed. A vector of length \<open>n\<close> whose links lead to a root never has a
  path of more than \<open>n - 1\<close> links, so \<open>length parent\<close> units are enough (\<open>ds_find_unfold\<close>).
\<close>

fun ds_find_fuel :: "nat \<Rightarrow> nat list \<Rightarrow> nat \<Rightarrow> nat \<times> nat list" where
  "ds_find_fuel 0 parent v = (v, parent)"
| "ds_find_fuel (Suc fuel) parent v =
     (if parent ! v \<noteq> v
      then (let (root, parent') = ds_find_fuel fuel parent (parent ! v);
                parent'' = parent'[v := root]
            in (parent'' ! v, parent''))
      else (parent ! v, parent))"

definition ds_find :: "nat list \<Rightarrow> nat \<Rightarrow> nat \<times> nat list" where
  "ds_find parent v = ds_find_fuel (length parent) parent v"

definition ds_union :: "nat list \<Rightarrow> nat \<Rightarrow> nat \<Rightarrow> nat list" where
  "ds_union parent first second =
     (let (first_root, parent1) = ds_find parent first;
          (second_root, parent2) = ds_find parent1 second
      in if first_root \<noteq> second_root then parent2[second_root := first_root] else parent2)"

section \<open>Distance to the root\<close>

text \<open>\<open>ds_dist p n i\<close>: following \<open>n\<close> links from \<open>i\<close> arrives at a root, and not earlier.\<close>

primrec ds_dist :: "nat list \<Rightarrow> nat \<Rightarrow> nat \<Rightarrow> bool" where
  "ds_dist p 0 i \<longleftrightarrow> p ! i = i"
| "ds_dist p (Suc n) i \<longleftrightarrow> p ! i \<noteq> i \<and> ds_dist p n (p ! i)"

definition ds_ok :: "nat list \<Rightarrow> bool" where
  "ds_ok p \<longleftrightarrow> (\<forall>i<length p. p ! i < length p \<and> (\<exists>n. ds_dist p n i))"

text \<open>The root of an index, without the fuel and the compression.\<close>

definition ds_rep :: "nat list \<Rightarrow> nat \<Rightarrow> nat" where
  "ds_rep p i = ((!) p ^^ length p) i"

lemma ds_dist_unique: "ds_dist p n i \<Longrightarrow> ds_dist p m i \<Longrightarrow> n = m"
proof (induction n arbitrary: m i)
  case 0
  then show ?case by (cases m) auto
next
  case (Suc n)
  then show ?case by (cases m) auto
qed

lemma ds_ok_link: "ds_ok p \<Longrightarrow> i < length p \<Longrightarrow> p ! i < length p"
  by (simp add: ds_ok_def)

lemma ds_dist_below:
  "ds_dist p n i \<Longrightarrow> ds_ok p \<Longrightarrow> i < length p \<Longrightarrow> k \<le> n \<Longrightarrow> \<exists>j<length p. ds_dist p k j"
proof (induction n arbitrary: i)
  case 0
  then show ?case by auto
next
  case (Suc n)
  show ?case
  proof (cases "k = Suc n")
    case True
    with Suc.prems show ?thesis by blast
  next
    case False
    then show ?thesis using Suc.IH [of "p ! i"] Suc.prems ds_ok_link [of p i] by auto
  qed
qed

lemma ds_dist_less_length:
  assumes "ds_dist p n i" "ds_ok p" "i < length p"
  shows "n < length p"
proof -
  define d where "d j = (THE k. ds_dist p k j)" for j
  have d: "d j = k" if "ds_dist p k j" for j k
    unfolding d_def using that by (auto intro: ds_dist_unique)
  have "{0..n} \<subseteq> d ` {0..<length p}"
  proof
    fix k assume "k \<in> {0..n}"
    then obtain j where "j < length p" "ds_dist p k j" using ds_dist_below [OF assms] by auto
    then show "k \<in> d ` {0..<length p}" by (auto intro!: image_eqI [where x = j] simp: d)
  qed
  then have "card {0..n} \<le> card {0..<length p}"
    by (meson card_image_le card_mono finite_atLeastLessThan finite_imageI le_trans)
  then show ?thesis by simp
qed

lemma ds_induct [consumes 2, case_names root link]:
  assumes "ds_ok p" "i < length p"
    and root: "\<And>i. i < length p \<Longrightarrow> p ! i = i \<Longrightarrow> P i"
    and link: "\<And>i. i < length p \<Longrightarrow> p ! i \<noteq> i \<Longrightarrow> P (p ! i) \<Longrightarrow> P i"
  shows "P i"
proof -
  obtain n where "ds_dist p n i" using assms(1,2) by (auto simp: ds_ok_def)
  then show ?thesis using assms(2)
  proof (induction n arbitrary: i)
    case 0
    then show ?case using root by simp
  next
    case (Suc n)
    then show ?case using link ds_ok_link [OF assms(1)] by auto
  qed
qed

section \<open>The root of an index\<close>

lemma funpow_at_root: "p ! i = i \<Longrightarrow> ((!) p ^^ n) i = i"
  by (induction n) auto

lemma funpow_dist: "ds_dist p n i \<Longrightarrow> n \<le> m \<Longrightarrow> ((!) p ^^ m) i = ((!) p ^^ n) i"
proof (induction n arbitrary: i m)
  case 0
  then show ?case by (simp add: funpow_at_root)
next
  case (Suc n)
  then obtain m' where "m = Suc m'" "n \<le> m'" by (cases m) auto
  moreover have "((!) p ^^ m') (p ! i) = ((!) p ^^ n) (p ! i)"
    using Suc.IH [of "p ! i" m'] Suc.prems(1) \<open>n \<le> m'\<close> by simp
  ultimately show ?case by (simp only: funpow_Suc_right o_apply)
qed

lemma ds_rep_root [simp]: "p ! i = i \<Longrightarrow> ds_rep p i = i"
  by (simp add: ds_rep_def funpow_at_root)

lemma ds_rep_link:
  assumes "ds_ok p" "i < length p"
  shows "ds_rep p (p ! i) = ds_rep p i"
proof -
  obtain n where n: "ds_dist p n i" using assms by (auto simp: ds_ok_def)
  then have "n < length p" using assms ds_dist_less_length by blast
  have "ds_rep p (p ! i) = ((!) p ^^ Suc (length p)) i"
    by (simp del: funpow.simps add: ds_rep_def funpow_Suc_right)
  also have "\<dots> = ds_rep p i"
    using n \<open>n < length p\<close> funpow_dist [OF n, of "length p"] funpow_dist [OF n, of "Suc (length p)"]
    by (simp del: funpow.simps add: ds_rep_def)
  finally show ?thesis .
qed

lemma ds_rep_is_root:
  assumes "ds_ok p" "i < length p"
  shows "ds_rep p i < length p \<and> p ! ds_rep p i = ds_rep p i"
  using assms
proof (induction rule: ds_induct)
  case (link i)
  then show ?case using ds_rep_link [OF assms(1) link(1)] by simp
qed simp

lemma ds_rep_idem: "ds_ok p \<Longrightarrow> i < length p \<Longrightarrow> ds_rep p (ds_rep p i) = ds_rep p i"
  by (simp add: ds_rep_is_root)

lemma ds_rep_nonroot: "ds_ok p \<Longrightarrow> i < length p \<Longrightarrow> p ! i \<noteq> i \<Longrightarrow> ds_rep p i \<noteq> i"
  using ds_rep_is_root by metis

section \<open>Path compression keeps the classes\<close>

definition compressed :: "nat list \<Rightarrow> nat list \<Rightarrow> bool" where
  "compressed p p' \<longleftrightarrow>
     length p' = length p \<and> (\<forall>i<length p. p' ! i = p ! i \<or> p' ! i = ds_rep p i)"

lemma compressed_refl [simp]: "compressed p p"
  by (simp add: compressed_def)

lemma compressed_dist:
  assumes "compressed p p'" "ds_ok p" "i < length p"
  shows "\<exists>n. ds_dist p' n i"
  using assms(2,3)
proof (induction rule: ds_induct)
  case (root i)
  then have "ds_dist p' 0 i" using assms(1) by (auto simp: compressed_def)
  then show ?case ..
next
  case (link i)
  then obtain n where n: "ds_dist p' n (p ! i)" by blast
  have r: "p' ! ds_rep p i = ds_rep p i"
    using ds_rep_is_root [OF assms(2) link(1)] ds_rep_idem [OF assms(2) link(1)] assms(1)
    by (metis compressed_def)
  have "p' ! i = p ! i \<or> p' ! i = ds_rep p i" using assms(1) link(1) by (auto simp: compressed_def)
  then have "ds_dist p' (Suc n) i \<or> ds_dist p' (Suc 0) i"
    using n r link ds_rep_nonroot [OF assms(2) link(1,2)] by auto
  then show ?case by blast
qed

lemma compressed_ok:
  assumes "compressed p p'" "ds_ok p"
  shows "ds_ok p'"
  unfolding ds_ok_def
proof (intro allI impI conjI)
  fix i assume "i < length p'"
  then have i: "i < length p" using assms(1) by (simp add: compressed_def)
  then have "p' ! i = p ! i \<or> p' ! i = ds_rep p i" using assms(1) by (simp add: compressed_def)
  moreover have "length p' = length p" using assms(1) by (simp add: compressed_def)
  ultimately show "p' ! i < length p'"
    using ds_rep_is_root [OF assms(2) i] ds_ok_link [OF assms(2) i] by auto
  show "\<exists>n. ds_dist p' n i" using compressed_dist [OF assms i] .
qed

lemma compressed_rep:
  assumes "compressed p p'" "ds_ok p" "i < length p"
  shows "ds_rep p' i = ds_rep p i"
  using assms(2,3)
proof (induction rule: ds_induct)
  case (root i)
  then have "p' ! i = i" using assms(1) by (auto simp: compressed_def)
  with root show ?case by simp
next
  case (link i)
  have ok': "ds_ok p'" and len: "i < length p'"
    using assms compressed_ok link by (auto simp: compressed_def)
  have r: "p' ! ds_rep p i = ds_rep p i"
    using ds_rep_is_root [OF assms(2) link(1)] ds_rep_idem [OF assms(2) link(1)] assms(1)
    by (metis compressed_def)
  have "p' ! i = p ! i \<or> p' ! i = ds_rep p i" using assms(1) link(1) by (auto simp: compressed_def)
  then have "ds_rep p' (p' ! i) = ds_rep p i"
    using link.IH ds_rep_link [OF assms(2) link(1)] r by auto
  then show ?case by (simp add: ds_rep_link [OF ok' len])
qed

section \<open>Find and Union\<close>

lemma ds_find_fuel_spec:
  assumes "ds_dist p n v" "n < fuel" "ds_ok p" "v < length p"
  shows "fst (ds_find_fuel fuel p v) = ds_rep p v \<and> compressed p (snd (ds_find_fuel fuel p v))"
  using assms
proof (induction fuel arbitrary: n v)
  case 0
  then show ?case by simp
next
  case (Suc fuel)
  show ?case
  proof (cases "p ! v = v")
    case True
    then show ?thesis by simp
  next
    case False
    then obtain m where m: "n = Suc m" "ds_dist p m (p ! v)" using Suc.prems(1) by (cases n) auto
    obtain r p' where find: "ds_find_fuel fuel p (p ! v) = (r, p')" by fastforce
    have "r = ds_rep p v" "compressed p p'"
      using Suc.IH [OF m(2)] Suc.prems m ds_ok_link [of p v] ds_rep_link [of p v] find by auto
    then show ?thesis
      using find False Suc.prems(4) by (auto simp: compressed_def nth_list_update)
  qed
qed

lemma ds_find_spec:
  assumes "ds_ok p" "v < length p"
  shows "fst (ds_find p v) = ds_rep p v" "compressed p (snd (ds_find p v))"
proof -
  obtain n where "ds_dist p n v" using assms by (auto simp: ds_ok_def)
  with assms show "fst (ds_find p v) = ds_rep p v" "compressed p (snd (ds_find p v))"
    using ds_find_fuel_spec ds_dist_less_length unfolding ds_find_def by blast+
qed

text \<open>The fuel is enough: \<open>ds_find\<close> satisfies the recursion of the source, with no bound.\<close>

lemma ds_find_fuel_stable:
  assumes "ds_dist p n v" "n < fuel" "n < fuel'"
  shows "ds_find_fuel fuel p v = ds_find_fuel fuel' p v"
  using assms
proof (induction fuel arbitrary: n v fuel')
  case 0
  then show ?case by simp
next
  case (Suc fuel)
  then obtain f where f: "fuel' = Suc f" by (cases fuel') auto
  show ?case
  proof (cases "p ! v = v")
    case True
    then show ?thesis using f by simp
  next
    case False
    then obtain m where "n = Suc m" "ds_dist p m (p ! v)" using Suc.prems(1) by (cases n) auto
    then have "ds_find_fuel fuel p (p ! v) = ds_find_fuel f p (p ! v)"
      using Suc.prems f by (intro Suc.IH) auto
    with False f show ?thesis by simp
  qed
qed

lemma ds_find_unfold:
  assumes "ds_ok p" "v < length p"
  shows "ds_find p v =
     (if p ! v \<noteq> v
      then (let (root, p') = ds_find p (p ! v); p'' = p'[v := root] in (p'' ! v, p''))
      else (p ! v, p))"
proof (cases "p ! v = v")
  case True
  have "ds_dist p 0 v" using True by simp
  then have "ds_find p v = ds_find_fuel (Suc 0) p v"
    unfolding ds_find_def using assms by (intro ds_find_fuel_stable) auto
  with True show ?thesis by simp
next
  case False
  obtain m where m: "ds_dist p m (p ! v)" using assms ds_ok_link by (auto simp: ds_ok_def)
  then have "ds_dist p (Suc m) v" using False by simp
  then have "Suc m < length p" using assms ds_dist_less_length by blast
  have "ds_find p v = ds_find_fuel (Suc (length p)) p v"
    unfolding ds_find_def using \<open>ds_dist p (Suc m) v\<close> \<open>Suc m < length p\<close>
    by (intro ds_find_fuel_stable) auto
  with False show ?thesis by (simp add: ds_find_def)
qed

lemma ds_link_roots:
  assumes "ds_ok p" "a < length p" "b < length p" "p ! a = a" "p ! b = b" "a \<noteq> b"
  shows "ds_ok (p[b := a])"
    and "i < length p \<Longrightarrow> ds_rep (p[b := a]) i = (if ds_rep p i = b then a else ds_rep p i)"
proof -
  let ?p = "p[b := a]"
  have a: "ds_dist ?p 0 a" using assms by simp
  then have b: "ds_dist ?p (Suc 0) b" using assms by simp
  have dist: "\<exists>n. ds_dist ?p n i" if "i < length p" for i
    using assms(1) that
  proof (induction rule: ds_induct)
    case (root i)
    show ?case
    proof (cases "i = b")
      case True
      with b show ?thesis by blast
    next
      case False
      then have "ds_dist ?p 0 i" using root by simp
      then show ?thesis ..
    qed
  next
    case (link i)
    then obtain n where "ds_dist ?p n (p ! i)" by blast
    moreover have "i \<noteq> b" using link assms by auto
    ultimately have "ds_dist ?p (Suc n) i" using link by simp
    then show ?case ..
  qed
  show ok: "ds_ok ?p"
    unfolding ds_ok_def using dist assms ds_ok_link [OF assms(1)] by (auto simp: nth_list_update)
  show "ds_rep ?p i = (if ds_rep p i = b then a else ds_rep p i)" if "i < length p"
    using assms(1) that
  proof (induction rule: ds_induct)
    case (root i)
    show ?case
    proof (cases "i = b")
      case True
      have "ds_rep ?p b = ds_rep ?p (?p ! b)"
        using ds_rep_link [OF ok, of b] assms(3) by simp
      also have "\<dots> = a" using assms by simp
      finally show ?thesis using True root by simp
    next
      case False
      then show ?thesis using root by simp
    qed
  next
    case (link i)
    have "i \<noteq> b" using link assms by auto
    then have "ds_rep ?p i = ds_rep ?p (p ! i)"
      using ds_rep_link [OF ok, of i] link(1) by simp
    then show ?case using link.IH ds_rep_link [OF assms(1) link(1)] by simp
  qed
qed

lemma ds_union_spec:
  assumes "ds_ok p" "a < length p" "b < length p"
  shows "ds_ok (ds_union p a b) \<and> length (ds_union p a b) = length p \<and>
    (\<forall>i<length p. ds_rep (ds_union p a b) i =
       (if ds_rep p i = ds_rep p b then ds_rep p a else ds_rep p i))"
proof -
  obtain ra p1 where f1: "ds_find p a = (ra, p1)" by fastforce
  then have ra: "ra = ds_rep p a" and c1: "compressed p p1"
    using ds_find_spec [OF assms(1,2)] by auto
  have ok1: "ds_ok p1" and l1: "length p1 = length p"
    using compressed_ok [OF c1 assms(1)] c1 by (auto simp: compressed_def)
  obtain rb p2 where f2: "ds_find p1 b = (rb, p2)" by fastforce
  then have rb: "rb = ds_rep p b" and c2: "compressed p1 p2"
    using ds_find_spec [OF ok1, of b] l1 assms(3) compressed_rep [OF c1 assms(1,3)] by auto
  have ok2: "ds_ok p2" and l2: "length p2 = length p"
    using compressed_ok [OF c2 ok1] c2 l1 by (auto simp: compressed_def)
  have rep2: "ds_rep p2 i = ds_rep p i" if "i < length p" for i
    using compressed_rep [OF c2 ok1] compressed_rep [OF c1 assms(1)] that l1 by simp
  have rroots: "p2 ! ra = ra" "p2 ! rb = rb" "ra < length p" "rb < length p"
    using ds_rep_is_root [OF ok2] ds_rep_is_root [OF assms(1)] rep2 assms(2,3) ra rb l2
    by (metis)+
  show ?thesis
  proof (cases "ra = rb")
    case True
    then have "ds_union p a b = p2" using f1 f2 by (simp add: ds_union_def)
    then show ?thesis using ok2 l2 rep2 ra rb True by auto
  next
    case False
    then have eq: "ds_union p a b = p2[rb := ra]" using f1 f2 by (simp add: ds_union_def)
    show ?thesis
      unfolding eq using ds_link_roots [OF ok2, of ra rb] rroots False l2 rep2 ra rb by auto
  qed
qed

lemma ds_init_spec: "ds_ok (ds_init n) \<and> length (ds_init n) = n \<and> (\<forall>i<n. ds_rep (ds_init n) i = i)"
proof -
  have "ds_dist (ds_init n) 0 i" if "i < n" for i using that by (simp add: ds_init_def)
  then show ?thesis by (auto simp: ds_ok_def ds_init_def intro: exI [where x = 0])
qed

section \<open>The interface: a partition of the indices\<close>

text \<open>
  What the clients use: the class of an index is named by its representative, \<open>find\<close> returns it and
  changes no class, \<open>union\<close> merges two classes. \<open>invar s n\<close> says that \<open>s\<close> partitions \<open>{0..<n}\<close>.
\<close>

locale partition =
  fixes init :: "nat \<Rightarrow> 's"
    and find_root :: "'s \<Rightarrow> nat \<Rightarrow> nat \<times> 's"
    and union :: "'s \<Rightarrow> nat \<Rightarrow> nat \<Rightarrow> 's"
    and rep :: "'s \<Rightarrow> nat \<Rightarrow> nat"
    and invar :: "'s \<Rightarrow> nat \<Rightarrow> bool"
  assumes invar_init: "invar (init n) n"
    and rep_init: "i < n \<Longrightarrow> rep (init n) i = i"
    and rep_less: "invar s n \<Longrightarrow> i < n \<Longrightarrow> rep s i < n"
    and rep_rep: "invar s n \<Longrightarrow> i < n \<Longrightarrow> rep s (rep s i) = rep s i"
    and find_rep: "invar s n \<Longrightarrow> i < n \<Longrightarrow> fst (find_root s i) = rep s i"
    and find_invar: "invar s n \<Longrightarrow> i < n \<Longrightarrow> invar (snd (find_root s i)) n"
    and find_keeps: "invar s n \<Longrightarrow> i < n \<Longrightarrow> j < n \<Longrightarrow> rep (snd (find_root s i)) j = rep s j"
    and union_invar: "invar s n \<Longrightarrow> a < n \<Longrightarrow> b < n \<Longrightarrow> invar (union s a b) n"
    and union_rep: "invar s n \<Longrightarrow> a < n \<Longrightarrow> b < n \<Longrightarrow> i < n \<Longrightarrow>
      rep (union s a b) i = (if rep s i = rep s b then rep s a else rep s i)"
begin

definition union_all :: "'s \<Rightarrow> (nat \<times> nat) list \<Rightarrow> 's" where
  "union_all s ps = foldl (\<lambda>s (a, b). union s a b) s ps"

text \<open>The roots of a list of indices, looked up one after the other.\<close>

fun find_all :: "'s \<Rightarrow> nat list \<Rightarrow> nat list \<times> 's" where
  "find_all s [] = ([], s)"
| "find_all s (i # is) =
     (let (r, s1) = find_root s i; (rs, s2) = find_all s1 is in (r # rs, s2))"

lemma find_all_spec:
  "invar s n \<Longrightarrow> set is \<subseteq> {0..<n} \<Longrightarrow>
   fst (find_all s is) = map (rep s) is \<and> invar (snd (find_all s is)) n \<and>
   (\<forall>j<n. rep (snd (find_all s is)) j = rep s j)"
proof (induction "is" arbitrary: s)
  case Nil
  then show ?case by simp
next
  case (Cons i "is")
  obtain r s1 where f: "find_root s i = (r, s1)" by fastforce
  have i: "i < n" using Cons.prems by simp
  have "r = rep s i" "invar s1 n" "\<forall>j<n. rep s1 j = rep s j"
    using find_rep [OF Cons.prems(1) i] find_invar [OF Cons.prems(1) i]
      find_keeps [OF Cons.prems(1) i] f by auto
  moreover obtain rs s2 where g: "find_all s1 is = (rs, s2)" by fastforce
  ultimately have "rs = map (rep s1) is" "invar s2 n" "\<forall>j<n. rep s2 j = rep s j" "r = rep s i"
    "map (rep s1) is = map (rep s) is"
    using Cons.IH [of s1] Cons.prems(2) by auto
  then show ?case using f g by simp
qed

lemma union_all_invar:
  "invar s n \<Longrightarrow> set ps \<subseteq> {0..<n} \<times> {0..<n} \<Longrightarrow> invar (union_all s ps) n"
  unfolding union_all_def by (induction ps arbitrary: s) (auto simp: union_invar)

lemma union_all_merges:
  "invar s n \<Longrightarrow> set ps \<subseteq> {0..<n} \<times> {0..<n} \<Longrightarrow> i < n \<Longrightarrow> j < n \<Longrightarrow>
   rep s i = rep s j \<or> (i, j) \<in> set ps \<Longrightarrow> rep (union_all s ps) i = rep (union_all s ps) j"
proof (induction ps arbitrary: s)
  case Nil
  then show ?case by (simp add: union_all_def)
next
  case (Cons p ps)
  obtain a b where p: "p = (a, b)" by fastforce
  have ab: "a < n" "b < n" using Cons.prems(2) p by auto
  have eq: "union_all s (p # ps) = union_all (union s a b) ps" using p by (simp add: union_all_def)
  show ?case
    unfolding eq
    by (rule Cons.IH) (use Cons.prems ab p union_invar union_rep in auto)
qed

lemma union_all_only:
  assumes "sym E" "trans E" "set ps \<subseteq> E" "set ps \<subseteq> {0..<n} \<times> {0..<n}"
  shows "invar s n \<Longrightarrow> \<forall>i<n. (i, rep s i) \<in> E \<Longrightarrow> i < n \<Longrightarrow> (i, rep (union_all s ps) i) \<in> E"
  using assms(3,4)
proof (induction ps arbitrary: s)
  case Nil
  then show ?case by (simp add: union_all_def)
next
  case (Cons p ps)
  obtain a b where p: "p = (a, b)" by fastforce
  have ab: "a < n" "b < n" "(a, b) \<in> E" using Cons.prems p by auto
  have eq: "union_all s (p # ps) = union_all (union s a b) ps" using p by (simp add: union_all_def)
  have "(j, rep (union s a b) j) \<in> E" if "j < n" for j
  proof (cases "rep s j = rep s b")
    case True
    have "(j, rep s b) \<in> E" "(rep s b, b) \<in> E" "(b, a) \<in> E" "(a, rep s a) \<in> E"
      using Cons.prems(2) ab that True symD [OF assms(1)] by metis+
    then have "(j, rep s a) \<in> E" by (meson transD [OF assms(2)])
    then show ?thesis using union_rep [OF Cons.prems(1) ab(1,2) that] True by simp
  next
    case False
    then show ?thesis using union_rep [OF Cons.prems(1) ab(1,2) that] Cons.prems(2) that by simp
  qed
  then show ?case
    unfolding eq using Cons.prems union_invar [OF Cons.prems(1) ab(1,2)] by (intro Cons.IH) auto
qed

text \<open>After merging all pairs, two indices share a root exactly when the pairs connect them.\<close>

theorem union_all_closure:
  assumes ps: "set ps \<subseteq> {0..<n} \<times> {0..<n}" and "i < n" "j < n"
  shows "rep (union_all (init n) ps) i = rep (union_all (init n) ps) j \<longleftrightarrow>
    (i, j) \<in> (set ps \<union> (set ps)\<inverse>)\<^sup>*"
    (is "?eq i j \<longleftrightarrow> _ \<in> ?E")
proof
  have symE: "sym ?E" by (intro sym_rtrancl) (auto simp: sym_def)
  have "(k, rep (union_all (init n) ps) k) \<in> ?E" if "k < n" for k
    using symE trans_rtrancl ps invar_init that
    by (intro union_all_only [where n = n]) (auto simp: rep_init)
  note to_rep = this
  assume "?eq i j"
  then have "(rep (union_all (init n) ps) i, j) \<in> ?E"
    using to_rep [OF assms(3)] symE by (auto dest: symD)
  with to_rep [OF assms(2)] show "(i, j) \<in> ?E" by (rule rtrancl_trans)
next
  assume "(i, j) \<in> ?E"
  then have "?eq i j \<and> j < n"
  proof (induction rule: rtrancl_induct)
    case base
    show ?case using assms(2) by simp
  next
    case (step y z)
    have "z < n" using step(2) ps by auto
    moreover have "?eq y z"
      using step(2) ps step.IH \<open>z < n\<close> union_all_merges [OF invar_init ps, of y z]
        union_all_merges [OF invar_init ps, of z y] by auto
    ultimately show ?case using step.IH by simp
  qed
  then show "?eq i j" ..
qed

end

interpretation ds: partition ds_init ds_find ds_union ds_rep "\<lambda>p n. ds_ok p \<and> length p = n"
proof
  fix p :: "nat list" and n i j a b :: nat
  show "ds_ok (ds_init n) \<and> length (ds_init n) = n" using ds_init_spec by blast
  show "i < n \<Longrightarrow> ds_rep (ds_init n) i = i" using ds_init_spec by blast
  assume p: "ds_ok p \<and> length p = n"
  show "i < n \<Longrightarrow> ds_rep p i < n" using ds_rep_is_root p by blast
  show "i < n \<Longrightarrow> ds_rep p (ds_rep p i) = ds_rep p i" using ds_rep_idem p by blast
  show "i < n \<Longrightarrow> fst (ds_find p i) = ds_rep p i" using ds_find_spec p by blast
  show "i < n \<Longrightarrow> ds_ok (snd (ds_find p i)) \<and> length (snd (ds_find p i)) = n"
    using ds_find_spec(2) [of p i] compressed_ok [of p "snd (ds_find p i)"] p
    by (auto simp: compressed_def)
  show "i < n \<Longrightarrow> j < n \<Longrightarrow> ds_rep (snd (ds_find p i)) j = ds_rep p j"
    using ds_find_spec(2) [of p i] compressed_rep p by blast
  assume ab: "a < n" "b < n"
  show "ds_ok (ds_union p a b) \<and> length (ds_union p a b) = n"
    using ds_union_spec p ab by blast
  show "i < n \<Longrightarrow> ds_rep (ds_union p a b) i =
      (if ds_rep p i = ds_rep p b then ds_rep p a else ds_rep p i)"
    using ds_union_spec p ab by blast
qed

section \<open>A vector that represents a given partition\<close>

text \<open>\<open>ds_of n rp p\<close>: \<open>p\<close> is a valid parent vector over \<open>n\<close> indices with the roots \<open>rp\<close>.\<close>

definition ds_of :: "nat \<Rightarrow> (nat \<Rightarrow> nat) \<Rightarrow> nat list \<Rightarrow> bool" where
  "ds_of n rp p \<longleftrightarrow> ds_ok p \<and> length p = n \<and> (\<forall>i<n. ds_rep p i = rp i)"

lemma ds_of_find:
  assumes "ds_of n rp p" "i < n"
  obtains p' where "ds_find p i = (rp i, p')" "ds_of n rp p'"
proof -
  have ok: "ds_ok p \<and> length p = n" using assms(1) by (simp add: ds_of_def)
  show thesis
    using that [of "snd (ds_find p i)"] ds.find_rep [OF ok assms(2)] ds.find_invar [OF ok assms(2)]
      ds.find_keeps [OF ok assms(2)] assms
    by (cases "ds_find p i") (auto simp: ds_of_def)
qed

lemma ds_of_rep_less: "ds_of n rp p \<Longrightarrow> i < n \<Longrightarrow> rp i < n"
  using ds.rep_less [of p n i] by (auto simp: ds_of_def)

lemma ds_of_rep_rep: "ds_of n rp p \<Longrightarrow> i < n \<Longrightarrow> rp (rp i) = rp i"
  using ds.rep_rep [of p n i] ds_of_rep_less [of n rp p i] by (auto simp: ds_of_def)

end
