(* ===== verification/Validator.thy ===== *)
theory Validator
  imports Model Union_Find
begin

text \<open>
  \<^verbatim>\<open>src/dsa/model/validator.cpp\<close>: structural validation of a problem, validation of a solution
  against every hard constraint, and the recomputation of the objective. Each \<open>push_back\<close> of a
  message is an element of the returned list, in the order of the source; an empty list means
  valid. What the functions promise is stated and proved in \<^verbatim>\<open>Validator_Spec\<close>.
\<close>

section \<open>Overlap tests\<close>

definition LifetimesOverlap :: "Buffer \<Rightarrow> Buffer \<Rightarrow> bool" where
  "LifetimesOverlap first second =
     list_ex (\<lambda>i. list_ex (\<lambda>j. Overlaps i j) (live_intervals second)) (live_intervals first)"

definition HaveTemporalConflict :: "DsaProblem \<Rightarrow> Buffer \<Rightarrow> Buffer \<Rightarrow> bool" where
  "HaveTemporalConflict problem first second =
     (if list_ex (\<lambda>e. (ex_first e = buf_id first \<and> ex_second e = buf_id second) \<or>
                      (ex_first e = buf_id second \<and> ex_second e = buf_id first))
           (temporal_exclusions problem)
      then False else LifetimesOverlap first second)"

definition AddressRangesOverlap :: "u64 \<Rightarrow> u64 \<Rightarrow> u64 \<Rightarrow> u64 \<Rightarrow> bool" where
  "AddressRangesOverlap first_offset first_size second_offset second_size =
     (if first_size = 0 \<or> second_size = 0 then False
      else if AddOverflows first_offset first_size \<or> AddOverflows second_offset second_size
      then True
      else first_offset < second_offset + second_size \<and> second_offset < first_offset + first_size)"

definition PoolAllowed :: "Buffer \<Rightarrow> PoolId \<Rightarrow> bool" where
  "PoolAllowed buffer pool = List.member (allowed_pools buffer) pool"

definition BufferIndices :: "DsaProblem \<Rightarrow> (BufferId \<rightharpoonup> nat)" where
  "BufferIndices problem =
     um_emplace_all (zip (map buf_id (buffers problem)) [0..<length (buffers problem)])"

section \<open>Extents of colocation classes\<close>

definition union_colocations :: "(BufferId \<rightharpoonup> nat) \<Rightarrow> Colocation list \<Rightarrow> nat list \<Rightarrow> nat list" where
  "union_colocations indices cs parent =
     foldl (\<lambda>p c. case (indices (col_first c), indices (col_second c)) of
                    (Some first, Some second) \<Rightarrow> ds_union p first second
                  | _ \<Rightarrow> p) parent cs"

text \<open>First loop: the maximum size per root. Second loop: the maximum of the root of each buffer.\<close>

fun extents_by_root :: "(nat \<times> u64) list \<Rightarrow> nat list \<Rightarrow> u64 list \<Rightarrow> u64 list \<times> nat list" where
  "extents_by_root [] parent ext = (ext, parent)"
| "extents_by_root ((index, sz) # rest) parent ext =
     (let (root, parent') = ds_find parent index
      in extents_by_root rest parent' (ext[root := max (ext ! root) sz]))"

fun extents_by_buffer :: "nat list \<Rightarrow> nat list \<Rightarrow> u64 list \<Rightarrow> u64 list \<times> nat list" where
  "extents_by_buffer [] parent ext = ([], parent)"
| "extents_by_buffer (index # rest) parent ext =
     (let (root, parent') = ds_find parent index;
          (es, parent'') = extents_by_buffer rest parent' ext
      in (ext ! root # es, parent''))"

definition AllocationClassExtents ::
  "DsaProblem \<Rightarrow> (BufferId \<rightharpoonup> nat) \<Rightarrow> nat list \<Rightarrow> u64 list \<times> nat list" where
  "AllocationClassExtents problem indices colocs =
     (let n = length (buffers problem);
          parent1 = union_colocations indices (colocations problem) colocs;
          (extent_by_root, parent2) =
            extents_by_root (zip [0..<n] (map buf_size (buffers problem))) parent1 (replicate n 0)
      in extents_by_buffer [0..<n] parent2 extent_by_root)"

section \<open>ValidateProblem\<close>

subsection \<open>Pools\<close>

definition exceeds :: "u64 \<Rightarrow> u64 option \<Rightarrow> bool" where
  "exceeds x cap = (case cap of None \<Rightarrow> False | Some c \<Rightarrow> c < x)"

definition validate_reserved_range :: "Pool \<Rightarrow> AddressRange \<Rightarrow> string list" where
  "validate_reserved_range pool rng =
     err_if (range_begin rng \<ge> range_end rng)
       (''pool '' @ to_string (pool_id pool) @ '' has an empty or inverted reserved range'') @
     err_if (exceeds (range_end rng) (capacity pool))
       (''pool '' @ to_string (pool_id pool) @ '' reserved range exceeds capacity'')"

definition invalid_bank :: "BankGeometry option \<Rightarrow> bool" where
  "invalid_bank g = (case g of None \<Rightarrow> False | Some b \<Rightarrow> bank_size b = 0 \<or> num_banks b = 0)"

fun validate_pools :: "PoolId set \<Rightarrow> Pool list \<Rightarrow> string list" where
  "validate_pools ids [] = []"
| "validate_pools ids (pool # rest) =
     err_if (pool_id pool \<in> ids) (''duplicate pool id '' @ to_string (pool_id pool)) @
     concat (map (validate_reserved_range pool) (reserved_ranges pool)) @
     err_if (invalid_bank (bank_geometry pool))
       (''pool '' @ to_string (pool_id pool) @ '' has invalid bank geometry'') @
     validate_pools (insert (pool_id pool) ids) rest"

subsection \<open>Buffers\<close>

fun validate_allowed_pools :: "BufferId \<Rightarrow> PoolId set \<Rightarrow> PoolId set \<Rightarrow> PoolId list \<Rightarrow> string list" where
  "validate_allowed_pools b pool_ids allowed [] = []"
| "validate_allowed_pools b pool_ids allowed (pool # rest) =
     err_if (pool \<in> allowed) (''buffer '' @ to_string b @ '' repeats an allowed pool'') @
     err_if (pool \<notin> pool_ids)
       (''buffer '' @ to_string b @ '' references unknown pool '' @ to_string pool) @
     validate_allowed_pools b pool_ids (insert pool allowed) rest"

fun validate_buffers :: "PoolId set \<Rightarrow> BufferId set \<Rightarrow> string set \<Rightarrow> Buffer list \<Rightarrow> string list" where
  "validate_buffers pool_ids ids names [] = []"
| "validate_buffers pool_ids ids names (buffer # rest) =
     (let b = buf_id buffer; name = buf_name buffer in
      err_if (b \<in> ids) (''duplicate buffer id '' @ to_string b) @
      err_if (name \<noteq> [] \<and> name \<in> names)
        (''duplicate buffer name '' @ [CHR 0x27] @ name @ [CHR 0x27]) @
      err_if (buf_size buffer = 0) (''buffer '' @ to_string b @ '' has zero size'') @
      err_if (alignment buffer = 0) (''buffer '' @ to_string b @ '' alignment is zero'') @
      err_if (live_intervals buffer = []) (''buffer '' @ to_string b @ '' has no lifetime intervals'') @
      concat (map (\<lambda>i. err_if (lower i \<ge> upper i)
                 (''buffer '' @ to_string b @ '' has an empty or inverted lifetime interval''))
               (live_intervals buffer)) @
      err_if (allowed_pools buffer = []) (''buffer '' @ to_string b @ '' has no allowed pools'') @
      validate_allowed_pools b pool_ids {} (allowed_pools buffer) @
      validate_buffers pool_ids (insert b ids) (if name \<noteq> [] then insert name names else names) rest)"

subsection \<open>Relations between buffers\<close>

definition both_known :: "BufferId set \<Rightarrow> BufferId \<Rightarrow> BufferId \<Rightarrow> bool" where
  "both_known ids first second \<longleftrightarrow> first \<in> ids \<and> second \<in> ids"

definition ordered_pair :: "'a::linorder \<Rightarrow> 'a \<Rightarrow> 'a \<times> 'a" where
  "ordered_pair first second = (min first second, max first second)"

definition validate_colocations :: "BufferId set \<Rightarrow> Colocation list \<Rightarrow> string list" where
  "validate_colocations ids cs =
     concat (map (\<lambda>c. err_if (\<not> both_known ids (col_first c) (col_second c))
         (''colocation references an unknown buffer: '' @ PairName (col_first c) (col_second c))) cs)"

definition colocated_pairs :: "BufferId set \<Rightarrow> Colocation list \<Rightarrow> (BufferId \<times> BufferId) set" where
  "colocated_pairs ids cs =
     set (map (\<lambda>c. ordered_pair (col_first c) (col_second c))
           (filter (\<lambda>c. both_known ids (col_first c) (col_second c)) cs))"

fun validate_reasons :: "Separation \<Rightarrow> SeparationReason set \<Rightarrow> SeparationReason list \<Rightarrow> string list" where
  "validate_reasons c seen [] = []"
| "validate_reasons c seen (reason # rest) =
     err_if (reason \<in> seen)
       (''separation repeats reason '' @ [CHR 0x27] @ SeparationReason_ToString reason @ [CHR 0x27] @
        '' for buffers '' @ PairName (sep_first c) (sep_second c)) @
     validate_reasons c (insert reason seen) rest"

definition validate_separation ::
  "BufferId set \<Rightarrow> (BufferId \<times> BufferId) set \<Rightarrow> Separation \<Rightarrow> string list" where
  "validate_separation ids colocated c =
     (if \<not> both_known ids (sep_first c) (sep_second c)
      then [''separation references an unknown buffer: '' @ PairName (sep_first c) (sep_second c)]
      else err_if (sep_first c = sep_second c \<or> ordered_pair (sep_first c) (sep_second c) \<in> colocated)
             (''separation contradicts colocation for buffers '' @
              PairName (sep_first c) (sep_second c)) @
           validate_reasons c {} (sep_reasons c))"

definition validate_exclusion :: "BufferId set \<Rightarrow> TemporalExclusion \<Rightarrow> string list" where
  "validate_exclusion ids e =
     (if \<not> both_known ids (ex_first e) (ex_second e)
      then [''temporal exclusion references an unknown buffer: '' @ PairName (ex_first e) (ex_second e)]
      else err_if (ex_first e = ex_second e) ''temporal exclusion references the same buffer twice'')"

subsection \<open>Pinned allocations\<close>

text \<open>
  The source computes \<open>pinned.offset % buffer->alignment\<close> also when the alignment is zero, which is
  undefined in C++ (see \<open>pinned_modulo_by_zero\<close> below). The model takes the value HOL gives to
  \<open>x mod 0\<close>; the buffer loop has rejected the problem by then.
\<close>

definition validate_pinned_range :: "DsaProblem \<Rightarrow> PinnedAllocation \<Rightarrow> Buffer \<Rightarrow> string list" where
  "validate_pinned_range problem pinned buffer =
     (if AddOverflows (pin_offset pinned) (buf_size buffer)
      then [''buffer '' @ to_string (pin_buffer pinned) @ '' pinned address range overflows uint64'']
      else case FindPool problem (pin_pool pinned) of
        None \<Rightarrow> []
      | Some pool \<Rightarrow>
          err_if (exceeds (pin_offset pinned + buf_size buffer) (capacity pool))
            (''buffer '' @ to_string (pin_buffer pinned) @ '' pinned address exceeds pool capacity'') @
          concat (map (\<lambda>reserved.
              err_if (AddressRangesOverlap (pin_offset pinned) (buf_size buffer)
                        (range_begin reserved) (range_end reserved - range_begin reserved))
                (''buffer '' @ to_string (pin_buffer pinned) @
                 '' pinned address overlaps a reserved range'')) (reserved_ranges pool)))"

fun validate_pinned :: "DsaProblem \<Rightarrow> BufferId set \<Rightarrow> PinnedAllocation list \<Rightarrow> string list" where
  "validate_pinned problem pinned_ids [] = []"
| "validate_pinned problem pinned_ids (pinned # rest) =
     (case FindBuffer problem (pin_buffer pinned) of
        None \<Rightarrow> (''pinned allocation references unknown buffer '' @ to_string (pin_buffer pinned)) #
                 validate_pinned problem pinned_ids rest
      | Some buffer \<Rightarrow>
          err_if (pin_buffer pinned \<in> pinned_ids)
            (''buffer '' @ to_string (pin_buffer pinned) @ '' is pinned more than once'') @
          err_if (FindPool problem (pin_pool pinned) = None \<or> \<not> PoolAllowed buffer (pin_pool pinned))
            (''buffer '' @ to_string (pin_buffer pinned) @ '' is pinned to a disallowed pool'') @
          err_if (pin_offset pinned mod alignment buffer \<noteq> 0)
            (''buffer '' @ to_string (pin_buffer pinned) @ '' has a misaligned pinned offset'') @
          validate_pinned_range problem pinned buffer @
          validate_pinned problem (insert (pin_buffer pinned) pinned_ids) rest)"

text \<open>The inputs on which the modulo of the loop above is by zero.\<close>

definition pinned_modulo_by_zero :: "DsaProblem \<Rightarrow> bool" where
  "pinned_modulo_by_zero problem =
     list_ex (\<lambda>pinned. case FindBuffer problem (pin_buffer pinned) of
                          None \<Rightarrow> False | Some buffer \<Rightarrow> alignment buffer = 0)
       (pinned_allocations problem)"

subsection \<open>Costs and compiler structure\<close>

definition validate_costs :: "BufferId set \<Rightarrow> CostModel option \<Rightarrow> string list" where
  "validate_costs ids cm =
     (case cm of None \<Rightarrow> []
      | Some m \<Rightarrow> concat (map (\<lambda>p. err_if (\<not> both_known ids (pen_first p) (pen_second p))
          (''reuse penalty references an unknown buffer: '' @ PairName (pen_first p) (pen_second p)))
          (reuse_penalties m)))"

fun validate_alias_classes :: "BufferId set \<Rightarrow> BufferId set \<Rightarrow> PyptoAliasClass list \<Rightarrow> string list" where
  "validate_alias_classes ids seen [] = []"
| "validate_alias_classes ids seen (ac # rest) =
     err_if (alias_buffer ac \<notin> ids)
       (''PyPTO alias class references unknown buffer '' @ to_string (alias_buffer ac)) @
     err_if (alias_buffer ac \<in> seen)
       (''PyPTO alias structure repeats buffer '' @ to_string (alias_buffer ac)) @
     err_if (alias_members ac = [])
       (''PyPTO alias class for buffer '' @ to_string (alias_buffer ac) @ '' has no members'') @
     validate_alias_classes ids (insert (alias_buffer ac) seen) rest"

definition group_name :: "PyptoPipelineGroup \<Rightarrow> string" where
  "group_name g = int_to_string (group_id g) @ '' in pool '' @ to_string (group_pool g)"

definition validate_member ::
  "DsaProblem \<Rightarrow> PyptoPipelineGroup \<Rightarrow> PyptoPipelineMember \<Rightarrow> string list" where
  "validate_member problem g m =
     (case FindBuffer problem (member_buffer m) of
        None \<Rightarrow> [''PyPTO pipeline group '' @ group_name g @ '' references unknown buffer '' @
                   to_string (member_buffer m)]
      | Some buffer \<Rightarrow>
          err_if (\<not> PoolAllowed buffer (group_pool g))
            (''PyPTO pipeline member '' @ to_string (member_buffer m) @
             '' does not allow group pool '' @ to_string (group_pool g)) @
          err_if (buf_size buffer > slot_size g)
            (''PyPTO pipeline member '' @ to_string (member_buffer m) @ '' exceeds group slot size'')) @
     err_if (member_stage m < 0) ''PyPTO pipeline member has a negative stage'' @
     err_if (member_residue m \<ge> effective_depth g)
       ''PyPTO pipeline member residue exceeds effective depth''"

text \<open>The member loop, with the final \<open>residue_by_stage\<close>, whose size is compared with the depth.\<close>

fun validate_members ::
  "DsaProblem \<Rightarrow> PyptoPipelineGroup \<Rightarrow> (BufferId \<times> int) set \<Rightarrow> (int, u32) omap \<Rightarrow>
   PyptoPipelineMember list \<Rightarrow> string list \<times> (int, u32) omap" where
  "validate_members problem g seen residues [] = ([], residues)"
| "validate_members problem g seen residues (m # rest) =
     (let (errs, residues') =
            validate_members problem g (insert (member_buffer m, member_stage m) seen)
              (om_emplace (member_stage m) (member_residue m) residues) rest
      in (validate_member problem g m @
          err_if ((member_buffer m, member_stage m) \<in> seen)
            (''PyPTO pipeline group '' @ group_name g @ '' repeats a buffer/stage member'') @
          err_if (case map_of residues (member_stage m) of
                    None \<Rightarrow> False | Some r \<Rightarrow> r \<noteq> member_residue m)
            ''PyPTO pipeline stage maps to multiple residues'' @ errs,
          residues'))"

fun validate_groups ::
  "DsaProblem \<Rightarrow> (PoolId \<times> int) set \<Rightarrow> PyptoPipelineGroup list \<Rightarrow> string list" where
  "validate_groups problem seen [] = []"
| "validate_groups problem seen (g # rest) =
     (let (member_errors, residue_by_stage) = validate_members problem g {} [] (group_members g) in
      err_if (group_id g < 0) ''PyPTO pipeline group id must be non-negative'' @
      err_if ((group_pool g, group_id g) \<in> seen) (''duplicate PyPTO pipeline group '' @ group_name g) @
      err_if (FindPool problem (group_pool g) = None)
        (''PyPTO pipeline group '' @ group_name g @ '' references an unknown pool'') @
      err_if (slot_size g = 0) (''PyPTO pipeline group '' @ group_name g @ '' has zero slot size'') @
      err_if (depth g = 0) (''PyPTO pipeline group '' @ group_name g @ '' has zero depth'') @
      err_if (effective_depth g = 0 \<or> effective_depth g > depth g)
        (''PyPTO pipeline group '' @ group_name g @ '' has invalid effective depth'') @
      err_if (group_members g = []) (''PyPTO pipeline group '' @ group_name g @ '' has no members'') @
      member_errors @
      err_if (length residue_by_stage \<noteq> unat (depth g))
        (''PyPTO pipeline group '' @ group_name g @ '' depth does not match its distinct stages'') @
      validate_groups problem (insert (group_pool g, group_id g) seen) rest)"

definition validate_pypto :: "DsaProblem \<Rightarrow> BufferId set \<Rightarrow> string list" where
  "validate_pypto problem ids =
     (case pypto_structure problem of None \<Rightarrow> []
      | Some s \<Rightarrow> validate_alias_classes ids {} (alias_classes s) @
                  validate_groups problem {} (pipeline_groups s))"

fun validate_terms :: "ObjectiveMetric set \<Rightarrow> ObjectiveMetric list \<Rightarrow> string list" where
  "validate_terms seen [] = []"
| "validate_terms seen (metric # rest) =
     err_if (metric \<in> seen)
       (''objective repeats metric '' @ [CHR 0x27] @ ObjectiveMetric_ToString metric @ [CHR 0x27]) @
     validate_terms (insert metric seen) rest"

definition ValidateProblem :: "DsaProblem \<Rightarrow> string list" where
  "ValidateProblem problem =
     (let pool_ids = set (map pool_id (pools problem));
          buffer_ids = set (map buf_id (buffers problem));
          colocated = colocated_pairs buffer_ids (colocations problem)
      in validate_pools {} (pools problem) @
         err_if (pools problem = []) ''problem has no pools'' @
         validate_buffers pool_ids {} {} (buffers problem) @
         validate_colocations buffer_ids (colocations problem) @
         concat (map (validate_separation buffer_ids colocated) (separations problem)) @
         concat (map (validate_exclusion buffer_ids) (temporal_exclusions problem)) @
         validate_pinned problem {} (pinned_allocations problem) @
         validate_costs buffer_ids (cost_model problem) @
         validate_pypto problem buffer_ids @
         err_if (terms (objective problem) = []) ''objective has no terms'' @
         validate_terms {} (terms (objective problem)))"

section \<open>ValidateSolution\<close>

definition validate_placement_entry :: "DsaProblem \<Rightarrow> BufferId \<times> Placement \<Rightarrow> string list" where
  "validate_placement_entry problem entry =
     (case entry of (i, placement) \<Rightarrow>
        err_if (FindBuffer problem i = None) (''solution contains unknown buffer '' @ to_string i) @
        err_if (FindPool problem (pl_pool placement) = None)
          (''solution references unknown pool '' @ to_string (pl_pool placement)))"

definition validate_buffer_placement :: "DsaProblem \<Rightarrow> DsaSolution \<Rightarrow> Buffer \<Rightarrow> string list" where
  "validate_buffer_placement problem sol buffer =
     (case Find sol (buf_id buffer) of
        None \<Rightarrow> [''buffer '' @ to_string (buf_id buffer) @ '' has no placement'']
      | Some placement \<Rightarrow>
          err_if (\<not> PoolAllowed buffer (pl_pool placement))
            (''buffer '' @ to_string (buf_id buffer) @ '' is placed in a disallowed pool'') @
          err_if (pl_offset placement mod alignment buffer \<noteq> 0)
            (''buffer '' @ to_string (buf_id buffer) @ '' violates alignment'') @
          (if AddOverflows (pl_offset placement) (buf_size buffer)
           then [''buffer '' @ to_string (buf_id buffer) @ '' address range overflows uint64'']
           else case FindPool problem (pl_pool placement) of
             None \<Rightarrow> []
           | Some pool \<Rightarrow>
               err_if (exceeds (pl_offset placement + buf_size buffer) (capacity pool))
                 (''buffer '' @ to_string (buf_id buffer) @ '' exceeds pool capacity'') @
               concat (map (\<lambda>reserved.
                   err_if (AddressRangesOverlap (pl_offset placement) (buf_size buffer)
                             (range_begin reserved) (range_end reserved - range_begin reserved))
                     (''buffer '' @ to_string (buf_id buffer) @ '' overlaps a reserved range''))
                 (reserved_ranges pool))))"

definition validate_colocated_placement :: "DsaSolution \<Rightarrow> Colocation \<Rightarrow> string list" where
  "validate_colocated_placement sol c =
     (case (Find sol (col_first c), Find sol (col_second c)) of
        (Some first, Some second) \<Rightarrow>
          err_if (pl_pool first \<noteq> pl_pool second \<or> pl_offset first \<noteq> pl_offset second)
            (''colocated buffers '' @ PairName (col_first c) (col_second c) @
             '' do not share a placement'')
      | _ \<Rightarrow> [])"

definition validate_pair ::
  "DsaProblem \<Rightarrow> DsaSolution \<Rightarrow> BufferId set \<Rightarrow> u64 list \<Rightarrow> nat \<Rightarrow> nat \<Rightarrow> string list" where
  "validate_pair problem sol exclusive_pins extents i j =
     (let first_buffer = buffers problem ! i; second_buffer = buffers problem ! j;
          must_not_reuse = (HaveTemporalConflict problem first_buffer second_buffer \<or>
             buf_id first_buffer \<in> exclusive_pins \<or> buf_id second_buffer \<in> exclusive_pins)
      in if \<not> must_not_reuse then []
         else case (Find sol (buf_id first_buffer), Find sol (buf_id second_buffer)) of
           (Some first, Some second) \<Rightarrow>
             err_if (pl_pool first = pl_pool second \<and>
                     AddressRangesOverlap (pl_offset first) (extents ! i) (pl_offset second) (extents ! j))
               (''lifetime-overlapping buffers '' @ PairName (buf_id first_buffer) (buf_id second_buffer) @
                '' overlap in address'')
         | _ \<Rightarrow> [])"

definition index_pairs :: "nat \<Rightarrow> (nat \<times> nat) list" where
  "index_pairs n = concat (map (\<lambda>i. map (Pair i) [Suc i..<n]) [0..<n])"

fun validate_pairs ::
  "DsaProblem \<Rightarrow> DsaSolution \<Rightarrow> BufferId set \<Rightarrow> u64 list \<Rightarrow> nat list \<Rightarrow> (nat \<times> nat) list \<Rightarrow> string list" where
  "validate_pairs problem sol exclusive_pins extents parent [] = []"
| "validate_pairs problem sol exclusive_pins extents parent ((i, j) # rest) =
     (let (ri, parent1) = ds_find parent i; (rj, parent2) = ds_find parent1 j
      in (if ri = rj then [] else validate_pair problem sol exclusive_pins extents i j) @
         validate_pairs problem sol exclusive_pins extents parent2 rest)"

definition validate_separated ::
  "DsaProblem \<Rightarrow> DsaSolution \<Rightarrow> (BufferId \<rightharpoonup> nat) \<Rightarrow> u64 list \<Rightarrow> Separation \<Rightarrow> string list" where
  "validate_separated problem sol indices extents c =
     (case (FindBuffer problem (sep_first c), FindBuffer problem (sep_second c),
            Find sol (sep_first c), Find sol (sep_second c),
            indices (sep_first c), indices (sep_second c)) of
        (Some _, Some _, Some first, Some second, Some i, Some j) \<Rightarrow>
          err_if (pl_pool first = pl_pool second \<and>
                  AddressRangesOverlap (pl_offset first) (extents ! i) (pl_offset second) (extents ! j))
            (''separated buffers '' @ PairName (sep_first c) (sep_second c) @ '' overlap in address'')
      | _ \<Rightarrow> [])"

definition validate_pin_respected :: "DsaSolution \<Rightarrow> PinnedAllocation \<Rightarrow> string list" where
  "validate_pin_respected sol pinned =
     (case Find sol (pin_buffer pinned) of
        None \<Rightarrow> []
      | Some placement \<Rightarrow>
          err_if (pl_pool placement \<noteq> pin_pool pinned \<or> pl_offset placement \<noteq> pin_offset pinned)
            (''buffer '' @ to_string (pin_buffer pinned) @ '' violates its pinned placement''))"

definition exclusive_pin_ids :: "DsaProblem \<Rightarrow> BufferId set" where
  "exclusive_pin_ids problem =
     set (map pin_buffer (filter exclusive_for_all_time (pinned_allocations problem)))"

definition ValidateSolution :: "DsaProblem \<Rightarrow> DsaSolution \<Rightarrow> string list" where
  "ValidateSolution problem sol =
     (let errors = ValidateProblem problem in
      if errors \<noteq> [] then errors
      else
        let n = length (buffers problem);
            indices = BufferIndices problem;
            (allocation_extents, colocs) = AllocationClassExtents problem indices (ds_init n);
            exclusive_pins = exclusive_pin_ids problem
        in concat (map (validate_placement_entry problem) (placements sol)) @
           concat (map (validate_buffer_placement problem sol) (buffers problem)) @
           concat (map (validate_colocated_placement sol) (colocations problem)) @
           validate_pairs problem sol exclusive_pins allocation_extents colocs (index_pairs n) @
           concat (map (validate_separated problem sol indices allocation_extents) (separations problem)) @
           concat (map (validate_pin_respected sol) (pinned_allocations problem)))"

section \<open>The objective\<close>

definition raise_peak :: "(PoolId, u64) omap \<Rightarrow> PoolId \<Rightarrow> u64 \<Rightarrow> (PoolId, u64) omap" where
  "raise_peak peaks pool range_top = om_put pool (max (om_get 0 peaks pool) range_top) peaks"

definition reserved_peaks :: "Pool list \<Rightarrow> (PoolId, u64) omap" where
  "reserved_peaks ps =
     foldl (\<lambda>m pool. foldl (\<lambda>m reserved. raise_peak m (pool_id pool) (range_end reserved)) m
              (reserved_ranges pool)) [] ps"

definition buffer_peaks ::
  "DsaSolution \<Rightarrow> Buffer list \<Rightarrow> (PoolId, u64) omap \<Rightarrow> (PoolId, u64) omap" where
  "buffer_peaks sol bs peaks =
     foldl (\<lambda>m buffer. case Find sol (buf_id buffer) of
                          None \<Rightarrow> m
                        | Some placement \<Rightarrow>
                            if AddOverflows (pl_offset placement) (buf_size buffer) then m
                            else raise_peak m (pl_pool placement) (pl_offset placement + buf_size buffer))
       peaks bs"

definition penalty_active ::
  "DsaProblem \<Rightarrow> DsaSolution \<Rightarrow> (BufferId \<rightharpoonup> nat) \<Rightarrow> u64 list \<Rightarrow> bool \<Rightarrow> ReusePenalty \<Rightarrow> bool" where
  "penalty_active problem sol indices extents intentionally_colocated penalty =
     (case (FindBuffer problem (pen_first penalty), FindBuffer problem (pen_second penalty),
            Find sol (pen_first penalty), Find sol (pen_second penalty),
            indices (pen_first penalty), indices (pen_second penalty)) of
        (Some first_buffer, Some second_buffer, Some first, Some second, Some i, Some j) \<Rightarrow>
          pl_pool first = pl_pool second \<and> \<not> intentionally_colocated \<and>
          \<not> HaveTemporalConflict problem first_buffer second_buffer \<and>
          AddressRangesOverlap (pl_offset first) (extents ! i) (pl_offset second) (extents ! j)
      | _ \<Rightarrow> False)"

fun penalties_cost ::
  "DsaProblem \<Rightarrow> DsaSolution \<Rightarrow> (BufferId \<rightharpoonup> nat) \<Rightarrow> u64 list \<Rightarrow> nat list \<Rightarrow> u64 \<Rightarrow>
   ReusePenalty list \<Rightarrow> u64" where
  "penalties_cost problem sol indices extents parent cost [] = cost"
| "penalties_cost problem sol indices extents parent cost (penalty # rest) =
     (let (intentionally_colocated, parent') =
            (case (indices (pen_first penalty), indices (pen_second penalty)) of
               (Some i, Some j) \<Rightarrow>
                 (let (ri, parent1) = ds_find parent i; (rj, parent2) = ds_find parent1 j
                  in (ri = rj, parent2))
             | _ \<Rightarrow> (False, parent))
      in penalties_cost problem sol indices extents parent'
           (if penalty_active problem sol indices extents intentionally_colocated penalty
            then SaturatingAdd cost (pen_cost penalty) else cost) rest)"

definition EvaluateObjective :: "DsaProblem \<Rightarrow> DsaSolution \<Rightarrow> ObjectiveValue" where
  "EvaluateObjective problem sol =
     (let peaks = buffer_peaks sol (buffers problem) (reserved_peaks (pools problem));
          n = length (buffers problem);
          cost = (case cost_model problem of
                    None \<Rightarrow> 0
                  | Some m \<Rightarrow>
                      let indices = BufferIndices problem;
                          (extents, colocs) = AllocationClassExtents problem indices (ds_init n)
                      in penalties_cost problem sol indices extents colocs 0 (reuse_penalties m))
      in \<lparr>peak_by_pool = peaks,
          total_peak = foldl (\<lambda>t (_, peak). SaturatingAdd t peak) 0 peaks,
          max_peak = foldl (\<lambda>t (_, peak). max t peak) 0 peaks,
          reuse_cost = cost,
          bank_cost = 0\<rparr>)"

definition pool_overflow :: "ObjectiveValue \<Rightarrow> Pool \<Rightarrow> u64" where
  "pool_overflow obj pool =
     (case capacity pool of
        None \<Rightarrow> 0
      | Some cap \<Rightarrow> (let peak = om_get 0 (peak_by_pool obj) (pool_id pool)
                     in if peak \<le> cap then 0 else peak - cap))"

fun EvaluateObjectiveMetric :: "DsaProblem \<Rightarrow> ObjectiveValue \<Rightarrow> ObjectiveMetric \<Rightarrow> u64" where
  "EvaluateObjectiveMetric problem obj kCapacityOverflow =
     foldl (\<lambda>overflow pool. SaturatingAdd overflow (pool_overflow obj pool)) 0 (pools problem)"
| "EvaluateObjectiveMetric problem obj kTotalPeak = total_peak obj"
| "EvaluateObjectiveMetric problem obj kMaxPeak = max_peak obj"
| "EvaluateObjectiveMetric problem obj kReuseCost = reuse_cost obj"
| "EvaluateObjectiveMetric problem obj kBankCost = bank_cost obj"

end
