(* ===== verification/Validator_Spec.thy ===== *)
theory Validator_Spec
  imports Validator
begin

text \<open>
  What \<^verbatim>\<open>validator.cpp\<close> promises. \<open>well_formed\<close> and \<open>valid_solution\<close> are the declarative meaning of
  "no diagnostics": the first from the fields of the problem, the second from the byte sets the
  buffers occupy and the closure of the colocations. The validators are shown to be sound and
  complete for them, and the recomputed objective is characterised.
\<close>

section \<open>Overlap of address ranges\<close>

lemma AddressRangesOverlap_bytes:
  assumes "\<not> AddOverflows o1 s1" "\<not> AddOverflows o2 s2"
  shows "AddressRangesOverlap o1 s1 o2 s2 \<longleftrightarrow> bytes o1 s1 \<inter> bytes o2 s2 \<noteq> {}"
proof (cases "s1 = 0 \<or> s2 = 0")
  case True
  then show ?thesis by (auto simp: AddressRangesOverlap_def bytes_def)
next
  case False
  then have pos: "0 < unat s1" "0 < unat s2" by (auto simp: unat_gt_0)
  have "AddressRangesOverlap o1 s1 o2 s2 \<longleftrightarrow>
    unat o1 < unat o2 + unat s2 \<and> unat o2 < unat o1 + unat s1"
    using assms False by (simp add: AddressRangesOverlap_def word_less_nat_alt u64_simps)
  also have "\<dots> \<longleftrightarrow> bytes o1 s1 \<inter> bytes o2 s2 \<noteq> {}"
  proof
    assume "unat o1 < unat o2 + unat s2 \<and> unat o2 < unat o1 + unat s1"
    then have "max (unat o1) (unat o2) \<in> bytes o1 s1 \<inter> bytes o2 s2"
      using pos by (auto simp: bytes_def max_def)
    then show "bytes o1 s1 \<inter> bytes o2 s2 \<noteq> {}" by blast
  qed (auto simp: bytes_def)
  finally show ?thesis .
qed

lemma AddressRangesOverlap_False:
  "\<not> AddressRangesOverlap o1 s1 o2 s2 \<longleftrightarrow>
   s1 = 0 \<or> s2 = 0 \<or>
   (\<not> AddOverflows o1 s1 \<and> \<not> AddOverflows o2 s2 \<and> bytes o1 s1 \<inter> bytes o2 s2 = {})"
  using AddressRangesOverlap_bytes [of o1 s1 o2 s2] by (auto simp: AddressRangesOverlap_def)

lemma AddressRangesOverlap_commute:
  "AddressRangesOverlap o1 s1 o2 s2 = AddressRangesOverlap o2 s2 o1 s1"
  by (auto simp: AddressRangesOverlap_def)

lemma AddressRangesOverlap_mono:
  assumes "AddressRangesOverlap o1 s1 o2 s2" "s1 \<le> s1'" "s2 \<le> s2'"
  shows "AddressRangesOverlap o1 s1' o2 s2'"
proof -
  have le: "unat s1 \<le> unat s1'" "unat s2 \<le> unat s2'"
    using assms(2,3) by (simp_all add: word_le_nat_alt)
  show ?thesis
  proof (rule ccontr)
    assume "\<not> ?thesis"
    then have "s1' = 0 \<or> s2' = 0 \<or>
      (\<not> AddOverflows o1 s1' \<and> \<not> AddOverflows o2 s2' \<and> bytes o1 s1' \<inter> bytes o2 s2' = {})"
      by (simp add: AddressRangesOverlap_False)
    moreover have "s1 \<noteq> 0" "s2 \<noteq> 0" using assms(1) by (auto simp: AddressRangesOverlap_def)
    then have "s1' \<noteq> 0" "s2' \<noteq> 0" using le by (auto simp: word_unat_eq_iff)
    ultimately have "\<not> AddOverflows o1 s1" "\<not> AddOverflows o2 s2" "bytes o1 s1 \<inter> bytes o2 s2 = {}"
      using le bytes_subset [OF le(1), of o1] bytes_subset [OF le(2), of o2]
      by (auto simp: AddOverflows_unat)
    then show False using assms(1) AddressRangesOverlap_bytes [of o1 s1 o2 s2] by blast
  qed
qed

lemma reserved_overlap:
  assumes "range_begin r \<le> range_end r" "\<not> AddOverflows o' s"
  shows "AddressRangesOverlap o' s (range_begin r) (range_end r - range_begin r) \<longleftrightarrow>
    bytes o' s \<inter> range_bytes (range_begin r) (range_end r) \<noteq> {}"
proof -
  have sub: "unat (range_end r - range_begin r) = unat (range_end r) - unat (range_begin r)"
    using assms(1) by (rule unat_sub)
  have "unat (range_begin r) \<le> unat (range_end r)" using assms(1) by (simp add: word_le_nat_alt)
  then have eq: "bytes (range_begin r) (range_end r - range_begin r) =
      range_bytes (range_begin r) (range_end r)"
    and no: "\<not> AddOverflows (range_begin r) (range_end r - range_begin r)"
    using unat_u64_less [of "range_end r"] by (auto simp: bytes_def range_bytes_def sub AddOverflows_unat)
  show ?thesis using AddressRangesOverlap_bytes [OF assms(2) no] by (simp add: eq)
qed

lemma exceeds_iff [simp]: "exceeds x cap \<longleftrightarrow> (\<exists>c. cap = Some c \<and> c < x)"
  by (auto simp: exceeds_def split: option.splits)

lemma PoolAllowed_iff [simp]: "PoolAllowed b q \<longleftrightarrow> q \<in> set (allowed_pools b)"
  by (simp add: PoolAllowed_def)

section \<open>Well-formed problems\<close>

definition wf_pool :: "Pool \<Rightarrow> bool" where
  "wf_pool q \<longleftrightarrow>
     (\<forall>r\<in>set (reserved_ranges q). range_begin r < range_end r \<and>
        (\<forall>c. capacity q = Some c \<longrightarrow> range_end r \<le> c)) \<and>
     (\<forall>g. bank_geometry q = Some g \<longrightarrow> bank_size g \<noteq> 0 \<and> num_banks g \<noteq> 0)"

definition wf_buffer :: "PoolId set \<Rightarrow> Buffer \<Rightarrow> bool" where
  "wf_buffer pool_ids b \<longleftrightarrow>
     buf_size b \<noteq> 0 \<and> alignment b \<noteq> 0 \<and>
     live_intervals b \<noteq> [] \<and> (\<forall>i\<in>set (live_intervals b). lower i < upper i) \<and>
     allowed_pools b \<noteq> [] \<and> distinct (allowed_pools b) \<and> set (allowed_pools b) \<subseteq> pool_ids"

definition buffer_ids :: "DsaProblem \<Rightarrow> BufferId set" where
  "buffer_ids p = buf_id ` set (buffers p)"

definition wf_separation :: "DsaProblem \<Rightarrow> Separation \<Rightarrow> bool" where
  "wf_separation p c \<longleftrightarrow>
     sep_first c \<in> buffer_ids p \<and> sep_second c \<in> buffer_ids p \<and> sep_first c \<noteq> sep_second c \<and>
     (\<forall>k\<in>set (colocations p). {col_first k, col_second k} \<noteq> {sep_first c, sep_second c}) \<and>
     distinct (sep_reasons c)"

definition wf_pinned :: "DsaProblem \<Rightarrow> PinnedAllocation \<Rightarrow> bool" where
  "wf_pinned p a \<longleftrightarrow>
     (\<exists>b q. FindBuffer p (pin_buffer a) = Some b \<and> FindPool p (pin_pool a) = Some q \<and>
        pin_pool a \<in> set (allowed_pools b) \<and> unat (alignment b) dvd unat (pin_offset a) \<and>
        unat (pin_offset a) + unat (buf_size b) < 18446744073709551616 \<and>
        (\<forall>c. capacity q = Some c \<longrightarrow> unat (pin_offset a) + unat (buf_size b) \<le> unat c) \<and>
        (\<forall>r\<in>set (reserved_ranges q).
           bytes (pin_offset a) (buf_size b) \<inter> range_bytes (range_begin r) (range_end r) = {}))"

definition wf_group :: "DsaProblem \<Rightarrow> PyptoPipelineGroup \<Rightarrow> bool" where
  "wf_group p g \<longleftrightarrow>
     0 \<le> group_id g \<and> group_pool g \<in> pool_id ` set (pools p) \<and> slot_size g \<noteq> 0 \<and> depth g \<noteq> 0 \<and>
     effective_depth g \<noteq> 0 \<and> effective_depth g \<le> depth g \<and> group_members g \<noteq> [] \<and>
     (\<forall>m\<in>set (group_members g).
        (\<exists>b. FindBuffer p (member_buffer m) = Some b \<and> group_pool g \<in> set (allowed_pools b) \<and>
           buf_size b \<le> slot_size g) \<and>
        0 \<le> member_stage m \<and> member_residue m < effective_depth g) \<and>
     distinct (map (\<lambda>m. (member_buffer m, member_stage m)) (group_members g)) \<and>
     (\<forall>m\<in>set (group_members g). \<forall>m'\<in>set (group_members g).
        member_stage m = member_stage m' \<longrightarrow> member_residue m = member_residue m') \<and>
     card (member_stage ` set (group_members g)) = unat (depth g)"

definition wf_pypto :: "DsaProblem \<Rightarrow> PyptoStructure \<Rightarrow> bool" where
  "wf_pypto p s \<longleftrightarrow>
     (\<forall>a\<in>set (alias_classes s). alias_buffer a \<in> buffer_ids p \<and> alias_members a \<noteq> []) \<and>
     distinct (map alias_buffer (alias_classes s)) \<and>
     (\<forall>g\<in>set (pipeline_groups s). wf_group p g) \<and>
     distinct (map (\<lambda>g. (group_pool g, group_id g)) (pipeline_groups s))"

definition well_formed :: "DsaProblem \<Rightarrow> bool" where
  "well_formed p \<longleftrightarrow>
     pools p \<noteq> [] \<and> distinct (map pool_id (pools p)) \<and> (\<forall>q\<in>set (pools p). wf_pool q) \<and>
     distinct (map buf_id (buffers p)) \<and>
     distinct (filter (\<lambda>n. n \<noteq> []) (map buf_name (buffers p))) \<and>
     (\<forall>b\<in>set (buffers p). wf_buffer (pool_id ` set (pools p)) b) \<and>
     (\<forall>c\<in>set (colocations p). col_first c \<in> buffer_ids p \<and> col_second c \<in> buffer_ids p) \<and>
     (\<forall>c\<in>set (separations p). wf_separation p c) \<and>
     (\<forall>e\<in>set (temporal_exclusions p).
        ex_first e \<in> buffer_ids p \<and> ex_second e \<in> buffer_ids p \<and> ex_first e \<noteq> ex_second e) \<and>
     distinct (map pin_buffer (pinned_allocations p)) \<and>
     (\<forall>a\<in>set (pinned_allocations p). wf_pinned p a) \<and>
     (\<forall>m. cost_model p = Some m \<longrightarrow> (\<forall>k\<in>set (reuse_penalties m).
        pen_first k \<in> buffer_ids p \<and> pen_second k \<in> buffer_ids p)) \<and>
     (\<forall>s. pypto_structure p = Some s \<longrightarrow> wf_pypto p s) \<and>
     terms (objective p) \<noteq> [] \<and> distinct (terms (objective p))"

section \<open>ValidateProblem decides well-formedness\<close>

lemma validate_reserved_range_Nil:
  "validate_reserved_range q r = [] \<longleftrightarrow>
   range_begin r < range_end r \<and> (\<forall>c. capacity q = Some c \<longrightarrow> range_end r \<le> c)"
  by (auto simp: validate_reserved_range_def not_le not_less)

lemma invalid_bank_iff:
  "invalid_bank g \<longleftrightarrow> (\<exists>b. g = Some b \<and> (bank_size b = 0 \<or> num_banks b = 0))"
  by (auto simp: invalid_bank_def split: option.splits)

lemma validate_pools_Nil:
  "validate_pools ids qs = [] \<longleftrightarrow>
   distinct (map pool_id qs) \<and> ids \<inter> pool_id ` set qs = {} \<and> (\<forall>q\<in>set qs. wf_pool q)"
  by (induction qs arbitrary: ids)
    (auto simp: errors_simps validate_reserved_range_Nil invalid_bank_iff wf_pool_def)

lemma validate_allowed_pools_Nil:
  "validate_allowed_pools b pool_ids seen qs = [] \<longleftrightarrow>
   distinct qs \<and> seen \<inter> set qs = {} \<and> set qs \<subseteq> pool_ids"
  by (induction qs arbitrary: seen) (auto simp: errors_simps)

lemma validate_buffers_Nil:
  "validate_buffers pool_ids ids names bs = [] \<longleftrightarrow>
   distinct (map buf_id bs) \<and> ids \<inter> buf_id ` set bs = {} \<and>
   distinct (filter (\<lambda>n. n \<noteq> []) (map buf_name bs)) \<and>
   names \<inter> {n \<in> buf_name ` set bs. n \<noteq> []} = {} \<and>
   (\<forall>b\<in>set bs. wf_buffer pool_ids b)"
proof (induction bs arbitrary: ids names)
  case (Cons b bs)
  have "wf_buffer pool_ids b \<longleftrightarrow>
     buf_size b \<noteq> 0 \<and> alignment b \<noteq> 0 \<and> live_intervals b \<noteq> [] \<and>
     (\<forall>i\<in>set (live_intervals b). \<not> upper i \<le> lower i) \<and> allowed_pools b \<noteq> [] \<and>
     validate_allowed_pools (buf_id b) pool_ids {} (allowed_pools b) = []"
    by (auto simp: wf_buffer_def validate_allowed_pools_Nil not_le)
  then show ?case
    by (simp only: validate_buffers.simps Let_def errors_simps Cons.IH list.simps set_simps)
      (auto simp: image_iff)
qed simp

lemma both_known_iff: "both_known (buffer_ids p) a b \<longleftrightarrow> a \<in> buffer_ids p \<and> b \<in> buffer_ids p"
  by (simp add: both_known_def)

lemma ordered_pair_eq_iff: "ordered_pair a b = ordered_pair c d \<longleftrightarrow> {a, b} = {c, d}"
  by (auto simp: ordered_pair_def doubleton_eq_iff min_def max_def split: if_splits)

lemma validate_reasons_Nil:
  "validate_reasons c seen rs = [] \<longleftrightarrow> distinct rs \<and> seen \<inter> set rs = {}"
  by (induction rs arbitrary: seen) (auto simp: errors_simps)

lemma validate_separation_Nil:
  "validate_separation (buffer_ids p) (colocated_pairs (buffer_ids p) (colocations p)) c = [] \<longleftrightarrow>
   wf_separation p c"
proof (cases "both_known (buffer_ids p) (sep_first c) (sep_second c)")
  case True
  have "ordered_pair (sep_first c) (sep_second c) \<in> colocated_pairs (buffer_ids p) (colocations p) \<longleftrightarrow>
     (\<exists>k\<in>set (colocations p). {col_first k, col_second k} = {sep_first c, sep_second c})"
    using True
    by (auto simp: colocated_pairs_def image_iff ordered_pair_eq_iff both_known_def doubleton_eq_iff)
  with True show ?thesis
    by (auto simp: validate_separation_def wf_separation_def validate_reasons_Nil both_known_def
        errors_simps)
qed (auto simp: validate_separation_def wf_separation_def both_known_def)

lemma mod_zero_dvd: "(x :: u64) mod a = 0 \<longleftrightarrow> unat a dvd unat x"
  by (auto simp: word_unat_eq_iff unat_mod mod_eq_0_iff_dvd)

lemma AddOverflows_less: "\<not> AddOverflows a b \<longleftrightarrow> unat a + unat b < 18446744073709551616"
  by (simp add: AddOverflows_unat not_le)

lemma validate_pinned_range_Nil:
  assumes "FindPool p (pin_pool a) = Some q" "wf_pool q"
  shows "validate_pinned_range p a b = [] \<longleftrightarrow>
    unat (pin_offset a) + unat (buf_size b) < 18446744073709551616 \<and>
    (\<forall>c. capacity q = Some c \<longrightarrow> unat (pin_offset a) + unat (buf_size b) \<le> unat c) \<and>
    (\<forall>r\<in>set (reserved_ranges q).
       bytes (pin_offset a) (buf_size b) \<inter> range_bytes (range_begin r) (range_end r) = {})"
proof (cases "AddOverflows (pin_offset a) (buf_size b)")
  case True
  then show ?thesis by (auto simp: validate_pinned_range_def AddOverflows_unat)
next
  case False
  have "range_begin r \<le> range_end r" if "r \<in> set (reserved_ranges q)" for r
    using assms(2) that by (auto simp: wf_pool_def)
  then show ?thesis
    using False assms(1)
    by (auto simp: validate_pinned_range_def errors_simps reserved_overlap AddOverflows_unat
        not_less word_le_nat_alt u64_simps)
qed

lemma validate_pinned_Nil:
  assumes "\<forall>q\<in>set (pools p). wf_pool q"
  shows "validate_pinned p seen as = [] \<longleftrightarrow>
    distinct (map pin_buffer as) \<and> seen \<inter> pin_buffer ` set as = {} \<and> (\<forall>a\<in>set as. wf_pinned p a)"
proof (induction as arbitrary: seen)
  case (Cons a as)
  show ?case
  proof (cases "FindBuffer p (pin_buffer a)")
    case None
    then show ?thesis by (simp add: wf_pinned_def)
  next
    case (Some b)
    show ?thesis
    proof (cases "FindPool p (pin_pool a)")
      case None
      with Some show ?thesis by (simp add: wf_pinned_def errors_simps)
    next
      case q: (Some q)
      then have "wf_pool q" using assms FindPool_SomeD by blast
      then show ?thesis
        using Some q Cons.IH
        by (auto simp: wf_pinned_def errors_simps validate_pinned_range_Nil mod_zero_dvd)
    qed
  qed
qed simp

lemma validate_costs_Nil:
  "validate_costs ids cm = [] \<longleftrightarrow>
   (\<forall>m. cm = Some m \<longrightarrow> (\<forall>k\<in>set (reuse_penalties m). pen_first k \<in> ids \<and> pen_second k \<in> ids))"
  by (auto simp: validate_costs_def errors_simps both_known_def split: option.splits)

lemma validate_alias_classes_Nil:
  "validate_alias_classes ids seen acs = [] \<longleftrightarrow>
   (\<forall>a\<in>set acs. alias_buffer a \<in> ids \<and> alias_members a \<noteq> []) \<and>
   distinct (map alias_buffer acs) \<and> seen \<inter> alias_buffer ` set acs = {}"
  by (induction acs arbitrary: seen) (auto simp: errors_simps)

lemma validate_member_Nil:
  "validate_member p g m = [] \<longleftrightarrow>
   (\<exists>b. FindBuffer p (member_buffer m) = Some b \<and> group_pool g \<in> set (allowed_pools b) \<and>
      buf_size b \<le> slot_size g) \<and>
   0 \<le> member_stage m \<and> member_residue m < effective_depth g"
  by (auto simp: validate_member_def errors_simps not_less not_le split: option.splits)

lemma validate_members_residues:
  "om_ok residues \<Longrightarrow> om_ok (snd (validate_members p g seen residues ms)) \<and>
   fst ` set (snd (validate_members p g seen residues ms)) =
     fst ` set residues \<union> member_stage ` set ms"
proof (induction ms arbitrary: seen residues)
  case (Cons m ms)
  have "fst ` set (om_emplace (member_stage m) (member_residue m) residues) =
      insert (member_stage m) (fst ` set residues)"
    by (auto simp: om_emplace_def fst_om_put map_of_eq_None_iff)
  with Cons show ?case by (simp add: Let_def split_beta)
qed simp

lemma validate_members_Nil:
  "fst (validate_members p g seen residues ms) = [] \<longleftrightarrow>
   (\<forall>m\<in>set ms. validate_member p g m = []) \<and>
   distinct (map (\<lambda>m. (member_buffer m, member_stage m)) ms) \<and>
   seen \<inter> (\<lambda>m. (member_buffer m, member_stage m)) ` set ms = {} \<and>
   (\<forall>m\<in>set ms. map_of residues (member_stage m) \<in> {None, Some (member_residue m)}) \<and>
   (\<forall>m\<in>set ms. \<forall>m'\<in>set ms. member_stage m = member_stage m' \<longrightarrow> member_residue m = member_residue m')"
proof (induction ms arbitrary: seen residues)
  case (Cons m ms)
  let ?res = "om_emplace (member_stage m) (member_residue m) residues"
  have res: "(\<forall>k\<in>set ms. map_of ?res (member_stage k) \<in> {None, Some (member_residue k)}) \<longleftrightarrow>
     (\<forall>k\<in>set ms. map_of residues (member_stage k) \<in> {None, Some (member_residue k)}) \<and>
     (\<forall>k\<in>set ms. member_stage m = member_stage k \<longrightarrow> member_residue m = member_residue k)"
    if "map_of residues (member_stage m) \<in> {None, Some (member_residue m)}"
  proof -
    have upd: "map_of ?res = (map_of residues)(member_stage m \<mapsto> member_residue m)"
      using that by (auto simp: map_of_om_emplace fun_eq_iff dom_def)
    have "map_of ?res (member_stage k) \<in> {None, Some (member_residue k)} \<longleftrightarrow>
        map_of residues (member_stage k) \<in> {None, Some (member_residue k)} \<and>
        (member_stage m = member_stage k \<longrightarrow> member_residue m = member_residue k)" for k
      unfolding upd by (cases "member_stage m = member_stage k") (use that in auto)
    then show ?thesis by blast
  qed
  have head: "\<not> (case map_of residues (member_stage m) of None \<Rightarrow> False | Some r \<Rightarrow> r \<noteq> member_residue m) \<longleftrightarrow>
      map_of residues (member_stage m) \<in> {None, Some (member_residue m)}"
    by (auto split: option.splits)
  let ?same = "\<lambda>k k'. member_stage k = member_stage k' \<longrightarrow> member_residue k = member_residue k'"
  have same: "(\<forall>k\<in>set (m # ms). \<forall>k'\<in>set (m # ms). ?same k k') \<longleftrightarrow>
      (\<forall>k\<in>set ms. ?same m k) \<and> (\<forall>k\<in>set ms. \<forall>k'\<in>set ms. ?same k k')"
    by (metis set_ConsD list.set_intros)
  show ?case
  proof (cases "map_of residues (member_stage m) \<in> {None, Some (member_residue m)}")
    case True
    show ?thesis
      unfolding validate_members.simps Let_def split_beta fst_conv errors_simps head
        Cons.IH [of "insert (member_buffer m, member_stage m) seen" ?res] res [OF True] same
      using True by (simp only: list.map distinct.simps set_map err_if_Nil list.set ball_simps image_insert) blast
  next
    case False
    then show ?thesis
      unfolding validate_members.simps Let_def split_beta fst_conv errors_simps head
      by (simp only: list.set ball_simps) blast
  qed
qed simp

lemma validate_groups_Nil:
  "validate_groups p seen gs = [] \<longleftrightarrow>
   (\<forall>g\<in>set gs. wf_group p g) \<and> distinct (map (\<lambda>g. (group_pool g, group_id g)) gs) \<and>
   seen \<inter> (\<lambda>g. (group_pool g, group_id g)) ` set gs = {}"
proof (induction gs arbitrary: seen)
  case (Cons g gs)
  let ?r = "validate_members p g {} [] (group_members g)"
  have "om_ok (snd ?r) \<and> fst ` set (snd ?r) = member_stage ` set (group_members g)"
    using validate_members_residues [of "[]" p g "{}" "group_members g"] by simp
  then have "length (snd ?r) = card (member_stage ` set (group_members g))"
    by (metis distinct_card length_map om_ok_distinct set_map)
  then have wf: "wf_group p g \<longleftrightarrow>
     0 \<le> group_id g \<and> FindPool p (group_pool g) \<noteq> None \<and> slot_size g \<noteq> 0 \<and> depth g \<noteq> 0 \<and>
     \<not> (effective_depth g = 0 \<or> depth g < effective_depth g) \<and> group_members g \<noteq> [] \<and>
     fst ?r = [] \<and> length (snd ?r) = unat (depth g)"
    unfolding wf_group_def validate_members_Nil validate_member_Nil FindPool_None_iff
    by (auto simp: not_less)
  show ?case
    unfolding validate_groups.simps Let_def split_beta errors_simps
      Cons.IH [of "insert (group_pool g, group_id g) seen"]
    using wf by (auto simp: not_less)
qed simp

lemma validate_terms_Nil: "validate_terms seen ts = [] \<longleftrightarrow> distinct ts \<and> seen \<inter> set ts = {}"
  by (induction ts arbitrary: seen) (auto simp: errors_simps)

lemma validate_pypto_Nil:
  "validate_pypto p (buffer_ids p) = [] \<longleftrightarrow> (\<forall>s. pypto_structure p = Some s \<longrightarrow> wf_pypto p s)"
  by (auto simp: validate_pypto_def wf_pypto_def errors_simps validate_alias_classes_Nil
      validate_groups_Nil split: option.splits)

lemma ValidateProblem_Nil: "ValidateProblem p = [] \<longleftrightarrow> well_formed p"
proof -
  have ids: "set (map buf_id (buffers p)) = buffer_ids p" by (simp add: buffer_ids_def)
  have col: "validate_colocations (buffer_ids p) (colocations p) = [] \<longleftrightarrow>
     (\<forall>c\<in>set (colocations p). col_first c \<in> buffer_ids p \<and> col_second c \<in> buffer_ids p)"
    by (auto simp: validate_colocations_def errors_simps both_known_def)
  have exc: "(\<forall>e\<in>set (temporal_exclusions p). validate_exclusion (buffer_ids p) e = []) \<longleftrightarrow>
     (\<forall>e\<in>set (temporal_exclusions p).
        ex_first e \<in> buffer_ids p \<and> ex_second e \<in> buffer_ids p \<and> ex_first e \<noteq> ex_second e)"
    by (auto simp: validate_exclusion_def both_known_def)
  show ?thesis
    unfolding ValidateProblem_def Let_def ids errors_simps validate_pools_Nil validate_buffers_Nil
      col validate_separation_Nil exc validate_costs_Nil validate_pypto_Nil validate_terms_Nil
      well_formed_def
    by (auto simp: validate_pinned_Nil)
qed

section \<open>Colocation classes\<close>

text \<open>Two buffers belong to one physical allocation when a chain of colocations connects them.\<close>

definition coloc_pairs :: "DsaProblem \<Rightarrow> (BufferId \<times> BufferId) set" where
  "coloc_pairs p = (\<lambda>c. (col_first c, col_second c)) ` set (colocations p)"

definition same_class :: "DsaProblem \<Rightarrow> BufferId \<Rightarrow> BufferId \<Rightarrow> bool" where
  "same_class p a b \<longleftrightarrow> (a, b) \<in> (coloc_pairs p \<union> (coloc_pairs p)\<inverse>)\<^sup>*"

definition class_extent :: "DsaProblem \<Rightarrow> BufferId \<Rightarrow> u64" where
  "class_extent p i = Max (buf_size ` {b \<in> set (buffers p). same_class p i (buf_id b)})"

lemma same_class_refl [simp]: "same_class p a a"
  by (simp add: same_class_def)

lemma same_class_sym: "same_class p a b \<Longrightarrow> same_class p b a"
  unfolding same_class_def by (metis (no_types) converse_Un converse_converse rtrancl_converseI sup_commute)

lemma same_class_trans: "same_class p a b \<Longrightarrow> same_class p b c \<Longrightarrow> same_class p a c"
  unfolding same_class_def by (rule rtrancl_trans)

lemma same_class_colocation:
  "c \<in> set (colocations p) \<Longrightarrow> same_class p (col_first c) (col_second c)"
  unfolding same_class_def coloc_pairs_def by auto

lemma well_formedD:
  assumes "well_formed p"
  shows "distinct (map pool_id (pools p))" "distinct (map buf_id (buffers p))"
    "\<And>q. q \<in> set (pools p) \<Longrightarrow> wf_pool q"
    "\<And>b. b \<in> set (buffers p) \<Longrightarrow> wf_buffer (pool_id ` set (pools p)) b"
    "\<And>c. c \<in> set (colocations p) \<Longrightarrow> col_first c \<in> buffer_ids p \<and> col_second c \<in> buffer_ids p"
    "\<And>c. c \<in> set (separations p) \<Longrightarrow> wf_separation p c"
    "distinct (map pin_buffer (pinned_allocations p))"
    "\<And>a. a \<in> set (pinned_allocations p) \<Longrightarrow> wf_pinned p a"
  using assms by (auto simp: well_formed_def)

subsection \<open>Indices\<close>

lemma zip_map_index: "zip (map f xs) [0..<length xs] = map (\<lambda>i. (f (xs ! i), i)) [0..<length xs]"
  by (rule nth_equalityI) auto

lemma BufferIndices_Some:
  assumes "distinct (map buf_id (buffers p))"
  shows "BufferIndices p a = Some i \<longleftrightarrow> i < length (buffers p) \<and> buf_id (buffers p ! i) = a"
proof -
  have "distinct (map fst (zip (map buf_id (buffers p)) [0..<length (buffers p)]))"
    using assms by simp
  then have "BufferIndices p a = Some i \<longleftrightarrow>
      (a, i) \<in> set (zip (map buf_id (buffers p)) [0..<length (buffers p)])"
    unfolding BufferIndices_def um_emplace_all_map_of by (rule map_of_eq_Some_iff)
  then show ?thesis unfolding zip_map_index by auto
qed

lemma BufferIndices_nth:
  "distinct (map buf_id (buffers p)) \<Longrightarrow> i < length (buffers p) \<Longrightarrow>
   BufferIndices p (buf_id (buffers p ! i)) = Some i"
  by (simp add: BufferIndices_Some)

lemma BufferIndices_known:
  assumes "distinct (map buf_id (buffers p))" "a \<in> buffer_ids p"
  obtains i where "BufferIndices p a = Some i" "i < length (buffers p)" "buf_id (buffers p ! i) = a"
proof -
  obtain i where "i < length (buffers p)" "buf_id (buffers p ! i) = a"
    using assms(2) by (auto simp: buffer_ids_def in_set_conv_nth)
  then show thesis using that BufferIndices_nth [OF assms(1)] by auto
qed

lemma FindBuffer_nth:
  "distinct (map buf_id (buffers p)) \<Longrightarrow> i < length (buffers p) \<Longrightarrow>
   FindBuffer p (buf_id (buffers p ! i)) = Some (buffers p ! i)"
  by (rule FindBuffer_in_set) auto

subsection \<open>The union-find vector represents the classes\<close>

definition coloc_indices :: "DsaProblem \<Rightarrow> (nat \<times> nat) list" where
  "coloc_indices p =
     map (\<lambda>c. (the (BufferIndices p (col_first c)), the (BufferIndices p (col_second c)))) (colocations p)"

lemma union_colocations_eq:
  assumes "\<forall>c\<in>set cs. indices (col_first c) \<noteq> None \<and> indices (col_second c) \<noteq> None"
  shows "union_colocations indices cs parent =
    ds.union_all parent (map (\<lambda>c. (the (indices (col_first c)), the (indices (col_second c)))) cs)"
  using assms unfolding union_colocations_def ds.union_all_def
  by (induction cs arbitrary: parent) auto

definition class_root :: "DsaProblem \<Rightarrow> nat \<Rightarrow> nat" where
  "class_root p i =
     ds_rep (union_colocations (BufferIndices p) (colocations p) (ds_init (length (buffers p)))) i"

lemma BufferIndices_colocation:
  assumes "well_formed p" "c \<in> set (colocations p)"
  obtains u v where "BufferIndices p (col_first c) = Some u" "buf_id (buffers p ! u) = col_first c"
    "u < length (buffers p)" "BufferIndices p (col_second c) = Some v"
    "buf_id (buffers p ! v) = col_second c" "v < length (buffers p)"
  using well_formedD(5) [OF assms] BufferIndices_known [OF well_formedD(2) [OF assms(1)]] by metis

lemma coloc_indices_range:
  assumes "well_formed p"
  shows "set (coloc_indices p) \<subseteq> {0..<length (buffers p)} \<times> {0..<length (buffers p)}"
proof
  fix x assume "x \<in> set (coloc_indices p)"
  then obtain c where c: "c \<in> set (colocations p)"
    "x = (the (BufferIndices p (col_first c)), the (BufferIndices p (col_second c)))"
    by (auto simp: coloc_indices_def)
  obtain u v where "BufferIndices p (col_first c) = Some u" "u < length (buffers p)"
    "BufferIndices p (col_second c) = Some v" "v < length (buffers p)"
    using BufferIndices_colocation [OF assms c(1)] by metis
  with c(2) show "x \<in> {0..<length (buffers p)} \<times> {0..<length (buffers p)}" by simp
qed

lemma union_colocations_coloc_indices:
  assumes "well_formed p"
  shows "union_colocations (BufferIndices p) (colocations p) parent =
    ds.union_all parent (coloc_indices p)"
  unfolding coloc_indices_def
proof (rule union_colocations_eq, intro ballI)
  fix c assume "c \<in> set (colocations p)"
  from BufferIndices_colocation [OF assms this]
  show "BufferIndices p (col_first c) \<noteq> None \<and> BufferIndices p (col_second c) \<noteq> None" by auto
qed

lemma ds_of_class_root:
  assumes "well_formed p"
  shows "ds_of (length (buffers p)) (class_root p)
    (union_colocations (BufferIndices p) (colocations p) (ds_init (length (buffers p))))"
  using ds.union_all_invar [OF ds.invar_init coloc_indices_range [OF assms]]
  by (simp add: ds_of_def class_root_def union_colocations_coloc_indices [OF assms])

lemma class_root_eq_iff:
  assumes wf: "well_formed p" and i: "i < length (buffers p)" and j: "j < length (buffers p)"
  shows "class_root p i = class_root p j \<longleftrightarrow>
    same_class p (buf_id (buffers p ! i)) (buf_id (buffers p ! j))"
proof -
  let ?n = "length (buffers p)" and ?f = "\<lambda>i. buf_id (buffers p ! i)"
  let ?E = "set (coloc_indices p) \<union> (set (coloc_indices p))\<inverse>"
  let ?R = "coloc_pairs p \<union> (coloc_pairs p)\<inverse>"
  note d = well_formedD(2) [OF wf]
  have 1: "class_root p i = class_root p j \<longleftrightarrow> (i, j) \<in> ?E\<^sup>*"
    using ds.union_all_closure [OF coloc_indices_range [OF wf] i j]
    by (simp add: class_root_def union_colocations_coloc_indices [OF wf])
  have to: "(?f a, ?f b) \<in> ?R" if "(a, b) \<in> ?E" for a b
  proof -
    have "(?f a, ?f b) \<in> coloc_pairs p" if ab: "(a, b) \<in> set (coloc_indices p)" for a b
    proof -
      obtain c where c: "c \<in> set (colocations p)" "a = the (BufferIndices p (col_first c))"
        "b = the (BufferIndices p (col_second c))"
        using ab by (auto simp: coloc_indices_def)
      obtain x y where "BufferIndices p (col_first c) = Some x" "?f x = col_first c"
        "BufferIndices p (col_second c) = Some y" "?f y = col_second c"
        using BufferIndices_colocation [OF wf c(1)] by metis
      then show ?thesis using c by (auto simp: coloc_pairs_def)
    qed
    then show ?thesis using that by auto
  qed
  have lift: "\<exists>b<?n. y = ?f b \<and> (a, b) \<in> ?E" if ay: "(?f a, y) \<in> ?R" "a < ?n" for a y
  proof -
    obtain c where c: "c \<in> set (colocations p)"
      "(?f a, y) = (col_first c, col_second c) \<or> (y, ?f a) = (col_first c, col_second c)"
      using ay(1) by (auto simp: coloc_pairs_def)
    obtain u v where uv: "BufferIndices p (col_first c) = Some u" "?f u = col_first c" "u < ?n"
      "BufferIndices p (col_second c) = Some v" "?f v = col_second c" "v < ?n"
      using BufferIndices_colocation [OF wf c(1)] by metis
    have mem: "(u, v) \<in> set (coloc_indices p)"
      unfolding coloc_indices_def using c(1) uv by (force intro: image_eqI [where x = c])
    have inj: "x = z" if "x < ?n" "z < ?n" "?f x = ?f z" for x z
      using d that by (simp add: distinct_conv_nth) metis
    from c(2) show ?thesis
    proof
      assume "(?f a, y) = (col_first c, col_second c)"
      then show ?thesis using uv mem inj [of a u] ay(2) by auto
    next
      assume "(y, ?f a) = (col_first c, col_second c)"
      then show ?thesis using uv mem inj [of a v] ay(2) by auto
    qed
  qed
  have "(i, j) \<in> ?E\<^sup>* \<Longrightarrow> (?f i, ?f j) \<in> ?R\<^sup>*"
  proof (induction rule: rtrancl_induct)
    case (step y z)
    from step.IH to [OF step(2)] show ?case by (rule rtrancl_into_rtrancl)
  qed simp
  moreover have "(?f i, y) \<in> ?R\<^sup>* \<Longrightarrow> \<exists>b<?n. y = ?f b \<and> (i, b) \<in> ?E\<^sup>*" for y
  proof (induction rule: rtrancl_induct)
    case base
    show ?case using i by blast
  next
    case (step y z)
    then obtain b where "b < ?n" "y = ?f b" "(i, b) \<in> ?E\<^sup>*" by blast
    with step(2) lift [of b z] show ?case by (meson rtrancl_into_rtrancl)
  qed
  moreover have "x = z" if "x < ?n" "z < ?n" "?f x = ?f z" for x z
    using d that by (simp add: distinct_conv_nth) metis
  ultimately have "(i, j) \<in> ?E\<^sup>* \<longleftrightarrow> (?f i, ?f j) \<in> ?R\<^sup>*" using j by metis
  then show ?thesis using 1 by (simp add: same_class_def)
qed

subsection \<open>AllocationClassExtents computes the maximum size of each class\<close>

lemma Max_insert_max:
  "finite S \<Longrightarrow> Max (insert (max (a :: 'a::linorder) b) S) = Max (insert a (insert b S))"
  by (cases "S = {}") (simp_all add: max.assoc)

lemma extents_by_root_spec:
  assumes "ds_of n rp parent" "\<forall>(i, sz)\<in>set xs. i < n" "length ext = n"
  shows "\<exists>ext' parent'. extents_by_root xs parent ext = (ext', parent') \<and> ds_of n rp parent' \<and>
    length ext' = n \<and>
    (\<forall>r<n. ext' ! r = Max (insert (ext ! r) {sz. \<exists>i. (i, sz) \<in> set xs \<and> rp i = r}))"
  using assms
proof (induction xs arbitrary: parent ext)
  case Nil
  then show ?case by simp
next
  case (Cons x xs)
  obtain i sz where x: "x = (i, sz)" by fastforce
  have i: "i < n" using Cons.prems(2) x by auto
  obtain p' where f: "ds_find parent i = (rp i, p')" "ds_of n rp p'"
    using ds_of_find [OF Cons.prems(1) i] by blast
  let ?ext = "ext[rp i := max (ext ! rp i) sz]"
  obtain ext' parent' where IH: "extents_by_root xs p' ?ext = (ext', parent')" "ds_of n rp parent'"
    "length ext' = n"
    "\<forall>r<n. ext' ! r = Max (insert (?ext ! r) {sz. \<exists>i. (i, sz) \<in> set xs \<and> rp i = r})"
    using Cons.IH [OF f(2), of ?ext] Cons.prems(2,3) by auto
  have "ext' ! r = Max (insert (ext ! r) {s. \<exists>k. (k, s) \<in> set (x # xs) \<and> rp k = r})" if "r < n" for r
  proof -
    let ?S = "{s. \<exists>k. (k, s) \<in> set xs \<and> rp k = r}"
    have "finite ?S" by (rule finite_subset [of _ "snd ` set xs"]) force+
    show ?thesis
    proof (cases "rp i = r")
      case True
      then have "{s. \<exists>k. (k, s) \<in> set (x # xs) \<and> rp k = r} = insert sz ?S" using x by auto
      then show ?thesis
        using IH(4) that True Cons.prems(3) Max_insert_max [OF \<open>finite ?S\<close>, of "ext ! r" sz] by simp
    next
      case False
      then have "{s. \<exists>k. (k, s) \<in> set (x # xs) \<and> rp k = r} = ?S" using x by auto
      then show ?thesis using IH(4) that False Cons.prems(3) by simp
    qed
  qed
  then show ?case using x f(1) IH by auto
qed

lemma extents_by_buffer_spec:
  assumes "ds_of n rp parent" "\<forall>i\<in>set is. i < n"
  shows "\<exists>parent'. extents_by_buffer is parent ext = (map (\<lambda>i. ext ! rp i) is, parent') \<and>
    ds_of n rp parent'"
  using assms
proof (induction "is" arbitrary: parent)
  case (Cons i "is")
  obtain p' where f: "ds_find parent i = (rp i, p')" "ds_of n rp p'"
    using ds_of_find [of n rp parent i] Cons.prems by auto
  then show ?case using Cons.IH [of p'] Cons.prems(2) by auto
qed simp

text \<open>The extent of each buffer's class, as a vector indexed like the buffers.\<close>

definition class_extents :: "DsaProblem \<Rightarrow> u64 list" where
  "class_extents p = map (\<lambda>b. class_extent p (buf_id b)) (buffers p)"

lemma AllocationClassExtents_spec:
  assumes wf: "well_formed p"
  shows "\<exists>colocs. AllocationClassExtents p (BufferIndices p) (ds_init (length (buffers p))) =
      (class_extents p, colocs) \<and> ds_of (length (buffers p)) (class_root p) colocs"
proof -
  let ?n = "length (buffers p)" and ?bs = "buffers p"
  let ?p1 = "union_colocations (BufferIndices p) (colocations p) (ds_init ?n)"
  have d1: "ds_of ?n (class_root p) ?p1" by (rule ds_of_class_root [OF wf])
  have range: "\<forall>(i, sz)\<in>set (zip [0..<?n] (map buf_size ?bs)). i < ?n" by (auto dest: set_zip_leftD)
  obtain ext p2 where e: "extents_by_root (zip [0..<?n] (map buf_size ?bs)) ?p1 (replicate ?n 0) = (ext, p2)"
    "ds_of ?n (class_root p) p2" "length ext = ?n"
    "\<forall>r<?n. ext ! r = Max (insert (replicate ?n 0 ! r)
       {sz. \<exists>i. (i, sz) \<in> set (zip [0..<?n] (map buf_size ?bs)) \<and> class_root p i = r})"
    using extents_by_root_spec [OF d1 range, of "replicate ?n 0"] by auto
  obtain p3 where b: "extents_by_buffer [0..<?n] p2 ext = (map (\<lambda>i. ext ! class_root p i) [0..<?n], p3)"
    "ds_of ?n (class_root p) p3"
    using extents_by_buffer_spec [OF e(2), of "[0..<?n]" ext] by auto
  have "ext ! class_root p i = class_extent p (buf_id (?bs ! i))" if i: "i < ?n" for i
  proof -
    have r: "class_root p i < ?n" by (rule ds_of_rep_less [OF d1 i])
    have set_eq: "{sz. \<exists>k. (k, sz) \<in> set (zip [0..<?n] (map buf_size ?bs)) \<and> class_root p k = class_root p i} =
        buf_size ` {b \<in> set ?bs. same_class p (buf_id (?bs ! i)) (buf_id b)}" (is "?A = ?B")
    proof -
      have "zip [0..<?n] (map buf_size ?bs) = map (\<lambda>k. (k, buf_size (?bs ! k))) [0..<?n]"
        by (rule nth_equalityI) auto
      then have "?A = {sz. \<exists>k<?n. sz = buf_size (?bs ! k) \<and> class_root p k = class_root p i}"
        by (fastforce simp: image_iff)
      also have "\<dots> = ?B"
        using class_root_eq_iff [OF wf] i same_class_sym
        by (auto simp: in_set_conv_nth image_iff)
      finally show ?thesis .
    qed
    have "buf_size (?bs ! i) \<in> ?B" using i by auto
    then have "Max (insert 0 ?B) = Max ?B" by (subst Max_insert) (auto simp: max_def)
    moreover have "ext ! class_root p i = Max (insert (replicate ?n 0 ! class_root p i) ?A)"
      using e(4) r by blast
    ultimately show ?thesis using r unfolding class_extent_def set_eq by simp
  qed
  then have "map (\<lambda>i. ext ! class_root p i) [0..<?n] = class_extents p"
    unfolding class_extents_def by (intro nth_equalityI) auto
  then show ?thesis using e(1) b by (simp add: AllocationClassExtents_def Let_def)
qed

section \<open>Valid solutions\<close>

text \<open>
  Two ranges are apart when neither runs past the end of the 64-bit address space and they share no
  byte. \<open>fits_buffer\<close> is what a single buffer needs of its placement, \<open>must_not_share\<close> when two
  buffers of different classes may not share bytes.
\<close>

definition apart :: "u64 \<Rightarrow> u64 \<Rightarrow> u64 \<Rightarrow> u64 \<Rightarrow> bool" where
  "apart o1 s1 o2 s2 \<longleftrightarrow> \<not> AddOverflows o1 s1 \<and> \<not> AddOverflows o2 s2 \<and> bytes o1 s1 \<inter> bytes o2 s2 = {}"

definition fits_buffer :: "DsaProblem \<Rightarrow> Buffer \<Rightarrow> Placement \<Rightarrow> bool" where
  "fits_buffer p b pl \<longleftrightarrow>
     pl_pool pl \<in> set (allowed_pools b) \<and> unat (alignment b) dvd unat (pl_offset pl) \<and>
     unat (pl_offset pl) + unat (buf_size b) < 18446744073709551616 \<and>
     (\<forall>q. FindPool p (pl_pool pl) = Some q \<longrightarrow>
        (\<forall>c. capacity q = Some c \<longrightarrow> unat (pl_offset pl) + unat (buf_size b) \<le> unat c) \<and>
        (\<forall>r\<in>set (reserved_ranges q).
           bytes (pl_offset pl) (buf_size b) \<inter> range_bytes (range_begin r) (range_end r) = {}))"

definition must_not_share :: "DsaProblem \<Rightarrow> Buffer \<Rightarrow> Buffer \<Rightarrow> bool" where
  "must_not_share p b b' \<longleftrightarrow>
     HaveTemporalConflict p b b' \<or> buf_id b \<in> exclusive_pin_ids p \<or> buf_id b' \<in> exclusive_pin_ids p"

definition placed_apart :: "DsaProblem \<Rightarrow> DsaSolution \<Rightarrow> BufferId \<Rightarrow> BufferId \<Rightarrow> bool" where
  "placed_apart p s a b \<longleftrightarrow>
     (\<forall>pa pb. Find s a = Some pa \<longrightarrow> Find s b = Some pb \<longrightarrow> pl_pool pa = pl_pool pb \<longrightarrow>
        apart (pl_offset pa) (class_extent p a) (pl_offset pb) (class_extent p b))"

definition valid_solution :: "DsaProblem \<Rightarrow> DsaSolution \<Rightarrow> bool" where
  "valid_solution p s \<longleftrightarrow>
     (\<forall>(i, pl)\<in>set (placements s). i \<in> buffer_ids p \<and> pl_pool pl \<in> pool_id ` set (pools p)) \<and>
     (\<forall>b\<in>set (buffers p). \<exists>pl. Find s (buf_id b) = Some pl \<and> fits_buffer p b pl) \<and>
     (\<forall>c\<in>set (colocations p). Find s (col_first c) = Find s (col_second c)) \<and>
     (\<forall>b\<in>set (buffers p). \<forall>b'\<in>set (buffers p).
        must_not_share p b b' \<longrightarrow> \<not> same_class p (buf_id b) (buf_id b') \<longrightarrow>
        placed_apart p s (buf_id b) (buf_id b')) \<and>
     (\<forall>c\<in>set (separations p). placed_apart p s (sep_first c) (sep_second c)) \<and>
     (\<forall>a\<in>set (pinned_allocations p).
        Find s (pin_buffer a) = Some \<lparr>pl_pool = pin_pool a, pl_offset = pin_offset a\<rparr>)"

lemma class_extent_pos:
  assumes "well_formed p" "b \<in> set (buffers p)"
  shows "class_extent p (buf_id b) \<noteq> 0" "buf_size b \<le> class_extent p (buf_id b)"
proof -
  let ?S = "buf_size ` {b' \<in> set (buffers p). same_class p (buf_id b) (buf_id b')}"
  have "finite ?S" by simp
  moreover have "buf_size b \<in> ?S" using assms(2) by auto
  ultimately show le: "buf_size b \<le> class_extent p (buf_id b)" by (simp add: class_extent_def)
  show "class_extent p (buf_id b) \<noteq> 0"
    using le well_formedD(4) [OF assms] by (auto simp: wf_buffer_def)
qed

lemma not_overlap_apart:
  "s1 \<noteq> 0 \<Longrightarrow> s2 \<noteq> 0 \<Longrightarrow> \<not> AddressRangesOverlap o1 s1 o2 s2 \<longleftrightarrow> apart o1 s1 o2 s2"
  by (auto simp: AddressRangesOverlap_False apart_def)

lemma apart_commute: "apart o1 s1 o2 s2 = apart o2 s2 o1 s1"
  by (auto simp: apart_def)

lemma placed_apart_commute: "placed_apart p s a b = placed_apart p s b a"
  unfolding placed_apart_def using apart_commute by metis

lemma LifetimesOverlap_iff:
  "LifetimesOverlap b b' \<longleftrightarrow>
   (\<exists>i\<in>set (live_intervals b). \<exists>j\<in>set (live_intervals b'). lower i < upper j \<and> lower j < upper i)"
  by (auto simp: LifetimesOverlap_def list_ex_iff Overlaps_def)

lemma HaveTemporalConflict_commute: "HaveTemporalConflict p b b' = HaveTemporalConflict p b' b"
proof -
  have "LifetimesOverlap b b' = LifetimesOverlap b' b" by (auto simp: LifetimesOverlap_iff)
  then show ?thesis by (auto simp: HaveTemporalConflict_def list_ex_iff)
qed

lemma must_not_share_commute: "must_not_share p b b' = must_not_share p b' b"
  using HaveTemporalConflict_commute by (auto simp: must_not_share_def)

subsection \<open>The parts of ValidateSolution\<close>

lemma validate_placement_entry_Nil:
  "(\<forall>e\<in>set (placements s). validate_placement_entry p e = []) \<longleftrightarrow>
   (\<forall>(i, pl)\<in>set (placements s). i \<in> buffer_ids p \<and> pl_pool pl \<in> pool_id ` set (pools p))"
  by (auto simp: validate_placement_entry_def FindBuffer_None_iff FindPool_None_iff buffer_ids_def)

lemma validate_buffer_placement_Nil:
  assumes "well_formed p"
  shows "validate_buffer_placement p s b = [] \<longleftrightarrow> (\<exists>pl. Find s (buf_id b) = Some pl \<and> fits_buffer p b pl)"
proof (cases "Find s (buf_id b)")
  case None
  then show ?thesis by (simp add: validate_buffer_placement_def)
next
  case (Some pl)
  have ranges: "range_begin r \<le> range_end r"
    if "FindPool p i = Some q" "r \<in> set (reserved_ranges q)" for i q r
    using FindPool_SomeD [OF that(1)] well_formedD(3) [OF assms] that(2) by (fastforce simp: wf_pool_def)
  show ?thesis
  proof (cases "AddOverflows (pl_offset pl) (buf_size b)")
    case True
    then show ?thesis
      using Some by (auto simp: validate_buffer_placement_def fits_buffer_def AddOverflows_unat errors_simps)
  next
    case False
    have plus: "unat (pl_offset pl + buf_size b) = unat (pl_offset pl) + unat (buf_size b)"
      by (rule unat_plus_no_overflow [OF False])
    have fit: "unat (pl_offset pl) + unat (buf_size b) < 18446744073709551616"
      using False by (simp add: AddOverflows_less)
    note res = reserved_overlap [OF ranges False]
    show ?thesis
      using Some fit
      by (cases "FindPool p (pl_pool pl)")
        (auto simp: validate_buffer_placement_def fits_buffer_def errors_simps mod_zero_dvd False res
          not_less word_le_nat_alt plus)
  qed
qed

lemma validate_colocated_placement_Nil:
  "validate_colocated_placement s c = [] \<longleftrightarrow>
   (Find s (col_first c) \<noteq> None \<longrightarrow> Find s (col_second c) \<noteq> None \<longrightarrow>
      Find s (col_first c) = Find s (col_second c))"
  by (auto simp: validate_colocated_placement_def split: option.splits)

lemma class_extents_nth [simp]:
  "i < length (buffers p) \<Longrightarrow> class_extents p ! i = class_extent p (buf_id (buffers p ! i))"
  by (simp add: class_extents_def)

lemma validate_pair_Nil:
  assumes "well_formed p" "i < length (buffers p)" "j < length (buffers p)"
  shows "validate_pair p s (exclusive_pin_ids p) (class_extents p) i j = [] \<longleftrightarrow>
    (must_not_share p (buffers p ! i) (buffers p ! j) \<longrightarrow>
     placed_apart p s (buf_id (buffers p ! i)) (buf_id (buffers p ! j)))"
proof -
  have "class_extent p (buf_id (buffers p ! k)) \<noteq> 0" if "k < length (buffers p)" for k
    using class_extent_pos(1) [OF assms(1)] that by simp
  then show ?thesis
    using assms(2,3)
    by (auto simp: validate_pair_def must_not_share_def placed_apart_def Let_def not_overlap_apart
        split: option.splits)
qed

lemma set_index_pairs: "set (index_pairs n) = {(i, j). i < j \<and> j < n}"
  by (force simp: index_pairs_def)

lemma validate_pairs_Nil:
  assumes "ds_of n rp parent" "\<forall>(i, j)\<in>set ps. i < n \<and> j < n"
  shows "validate_pairs p s ex ext parent ps = [] \<longleftrightarrow>
    (\<forall>(i, j)\<in>set ps. rp i \<noteq> rp j \<longrightarrow> validate_pair p s ex ext i j = [])"
  using assms
proof (induction ps arbitrary: parent)
  case (Cons x ps)
  obtain i j where x: "x = (i, j)" by fastforce
  then have ij: "i < n" "j < n" using Cons.prems(2) by auto
  obtain p1 where f1: "ds_find parent i = (rp i, p1)" "ds_of n rp p1"
    using ds_of_find [OF Cons.prems(1) ij(1)] by blast
  obtain p2 where f2: "ds_find p1 j = (rp j, p2)" "ds_of n rp p2"
    using ds_of_find [OF f1(2) ij(2)] by blast
  show ?case using x f1(1) f2 Cons.IH [OF f2(2)] Cons.prems(2) by (auto simp: Let_def)
qed simp

lemma validate_separated_Nil:
  assumes "well_formed p" "c \<in> set (separations p)"
  shows "validate_separated p s (BufferIndices p) (class_extents p) c = [] \<longleftrightarrow>
    placed_apart p s (sep_first c) (sep_second c)"
proof -
  have "sep_first c \<in> buffer_ids p" "sep_second c \<in> buffer_ids p"
    using well_formedD(6) [OF assms] by (auto simp: wf_separation_def)
  then obtain i j where ij: "BufferIndices p (sep_first c) = Some i" "i < length (buffers p)"
    "buf_id (buffers p ! i) = sep_first c" "BufferIndices p (sep_second c) = Some j"
    "j < length (buffers p)" "buf_id (buffers p ! j) = sep_second c"
    using BufferIndices_known [OF well_formedD(2) [OF assms(1)]] by metis
  have fb: "FindBuffer p (sep_first c) = Some (buffers p ! i)"
    "FindBuffer p (sep_second c) = Some (buffers p ! j)"
    using FindBuffer_nth [OF well_formedD(2) [OF assms(1)]] ij by metis+
  have "class_extent p (sep_first c) \<noteq> 0" "class_extent p (sep_second c) \<noteq> 0"
    using class_extent_pos(1) [OF assms(1)] ij by (metis nth_mem)+
  then show ?thesis
    using ij fb
    by (auto simp: validate_separated_def placed_apart_def not_overlap_apart split: option.splits)
qed

lemma validate_pin_respected_Nil:
  "validate_pin_respected s a = [] \<longleftrightarrow>
   Find s (pin_buffer a) \<in> {None, Some \<lparr>pl_pool = pin_pool a, pl_offset = pin_offset a\<rparr>}"
  by (auto simp: validate_pin_respected_def split: option.splits)

lemma wf_pinned_known: "wf_pinned p a \<Longrightarrow> pin_buffer a \<in> buffer_ids p"
  by (auto simp: wf_pinned_def buffer_ids_def dest!: FindBuffer_SomeD intro: rev_image_eqI)

lemma ValidateSolution_unfold:
  assumes "well_formed p"
  shows "ValidateSolution p s = [] \<longleftrightarrow>
     (\<forall>(i, pl)\<in>set (placements s). i \<in> buffer_ids p \<and> pl_pool pl \<in> pool_id ` set (pools p)) \<and>
     (\<forall>b\<in>set (buffers p). \<exists>pl. Find s (buf_id b) = Some pl \<and> fits_buffer p b pl) \<and>
     (\<forall>c\<in>set (colocations p). validate_colocated_placement s c = []) \<and>
     (\<forall>i<length (buffers p). \<forall>j<length (buffers p). i < j \<longrightarrow> class_root p i \<noteq> class_root p j \<longrightarrow>
        must_not_share p (buffers p ! i) (buffers p ! j) \<longrightarrow>
        placed_apart p s (buf_id (buffers p ! i)) (buf_id (buffers p ! j))) \<and>
     (\<forall>c\<in>set (separations p). placed_apart p s (sep_first c) (sep_second c)) \<and>
     (\<forall>a\<in>set (pinned_allocations p). validate_pin_respected s a = [])"
proof -
  obtain colocs where e: "AllocationClassExtents p (BufferIndices p) (ds_init (length (buffers p))) =
      (class_extents p, colocs)" and d: "ds_of (length (buffers p)) (class_root p) colocs"
    using AllocationClassExtents_spec [OF assms] by blast
  have valid: "ValidateProblem p = []" using assms by (simp add: ValidateProblem_Nil)
  have pairs: "validate_pairs p s (exclusive_pin_ids p) (class_extents p) colocs
        (index_pairs (length (buffers p))) = [] \<longleftrightarrow>
     (\<forall>i<length (buffers p). \<forall>j<length (buffers p). i < j \<longrightarrow> class_root p i \<noteq> class_root p j \<longrightarrow>
        must_not_share p (buffers p ! i) (buffers p ! j) \<longrightarrow>
        placed_apart p s (buf_id (buffers p ! i)) (buf_id (buffers p ! j)))"
    by (subst validate_pairs_Nil [OF d]) (auto simp: set_index_pairs validate_pair_Nil [OF assms])
  have sep: "(\<forall>c\<in>set (separations p). validate_separated p s (BufferIndices p) (class_extents p) c = []) \<longleftrightarrow>
     (\<forall>c\<in>set (separations p). placed_apart p s (sep_first c) (sep_second c))"
    using validate_separated_Nil [OF assms] by blast
  show ?thesis
    by (simp add: ValidateSolution_def valid Let_def e errors_simps pairs sep
        validate_placement_entry_Nil validate_buffer_placement_Nil [OF assms])
qed

lemma ValidateSolution_Nil: "ValidateSolution p s = [] \<longleftrightarrow> well_formed p \<and> valid_solution p s"
proof (cases "well_formed p")
  case False
  then show ?thesis by (simp add: ValidateSolution_def Let_def ValidateProblem_Nil)
next
  case True
  let ?n = "length (buffers p)" and ?bs = "buffers p"
  have pairs: "(\<forall>i<?n. \<forall>j<?n. i < j \<longrightarrow> class_root p i \<noteq> class_root p j \<longrightarrow>
        must_not_share p (?bs ! i) (?bs ! j) \<longrightarrow> placed_apart p s (buf_id (?bs ! i)) (buf_id (?bs ! j))) \<longleftrightarrow>
     (\<forall>b\<in>set ?bs. \<forall>b'\<in>set ?bs. must_not_share p b b' \<longrightarrow>
        \<not> same_class p (buf_id b) (buf_id b') \<longrightarrow> placed_apart p s (buf_id b) (buf_id b'))"
    (is "?L \<longleftrightarrow> ?R")
  proof
    assume L: ?L
    have "placed_apart p s (buf_id (?bs ! i)) (buf_id (?bs ! j))"
      if ij: "i < ?n" "j < ?n" "must_not_share p (?bs ! i) (?bs ! j)"
        "\<not> same_class p (buf_id (?bs ! i)) (buf_id (?bs ! j))" for i j
    proof (cases i j rule: linorder_cases)
      case equal
      with ij(4) show ?thesis by simp
    next
      case less
      with L ij show ?thesis by (simp add: class_root_eq_iff [OF True])
    next
      case greater
      have "must_not_share p (?bs ! j) (?bs ! i)" "\<not> same_class p (buf_id (?bs ! j)) (buf_id (?bs ! i))"
        using ij(3,4) must_not_share_commute same_class_sym by blast+
      with L ij(1,2) greater have "placed_apart p s (buf_id (?bs ! j)) (buf_id (?bs ! i))"
        by (simp add: class_root_eq_iff [OF True])
      then show ?thesis by (simp add: placed_apart_commute)
    qed
    then show ?R by (auto simp: in_set_conv_nth)
  next
    assume ?R
    then show ?L by (simp add: class_root_eq_iff [OF True])
  qed
  show ?thesis
  proof (cases "\<forall>b\<in>set ?bs. \<exists>pl. Find s (buf_id b) = Some pl \<and> fits_buffer p b pl")
    case False
    then show ?thesis unfolding ValidateSolution_unfold [OF True] valid_solution_def by blast
  next
    case placed: True
    then have some: "Find s a \<noteq> None" if "a \<in> buffer_ids p" for a using that by (auto simp: buffer_ids_def)
    have col: "validate_colocated_placement s c = [] \<longleftrightarrow> Find s (col_first c) = Find s (col_second c)"
      if "c \<in> set (colocations p)" for c
      using some well_formedD(5) [OF True that] by (simp add: validate_colocated_placement_Nil)
    have pin: "validate_pin_respected s a = [] \<longleftrightarrow>
        Find s (pin_buffer a) = Some \<lparr>pl_pool = pin_pool a, pl_offset = pin_offset a\<rparr>"
      if "a \<in> set (pinned_allocations p)" for a
    proof -
      have "pin_buffer a \<in> buffer_ids p"
        by (rule wf_pinned_known [OF well_formedD(8) [OF True that]])
      then have "Find s (pin_buffer a) \<noteq> None" by (rule some)
      then show ?thesis unfolding validate_pin_respected_Nil by auto
    qed
    have cols: "(\<forall>c\<in>set (colocations p). validate_colocated_placement s c = []) \<longleftrightarrow>
        (\<forall>c\<in>set (colocations p). Find s (col_first c) = Find s (col_second c))"
      using col by blast
    have pins: "(\<forall>a\<in>set (pinned_allocations p). validate_pin_respected s a = []) \<longleftrightarrow>
        (\<forall>a\<in>set (pinned_allocations p).
           Find s (pin_buffer a) = Some \<lparr>pl_pool = pin_pool a, pl_offset = pin_offset a\<rparr>)"
      using pin by blast
    show ?thesis
      unfolding ValidateSolution_unfold [OF True] valid_solution_def pairs cols pins
      using True by blast
  qed
qed

end
