(* ===== verification/Objective_Spec.thy ===== *)
theory Objective_Spec
  imports Validator_Spec
begin

text \<open>
  The objective recomputed by \<open>EvaluateObjective\<close> and read by \<open>EvaluateObjectiveMetric\<close>: the peak of
  a pool is the largest end offset of a reserved range or a placed buffer in it, the totals are the
  saturating sum and the maximum of the peaks, the reuse cost is the saturating sum of the active
  penalties, and the capacity overflow is zero exactly when every peak fits its pool.
\<close>

section \<open>Peaks\<close>

definition reserved_tops :: "Pool \<Rightarrow> (PoolId \<times> u64) list" where
  "reserved_tops pool = map (\<lambda>r. (pool_id pool, range_end r)) (reserved_ranges pool)"

definition buffer_tops :: "DsaSolution \<Rightarrow> Buffer \<Rightarrow> (PoolId \<times> u64) list" where
  "buffer_tops s b =
     (case Find s (buf_id b) of
        None \<Rightarrow> []
      | Some pl \<Rightarrow> if AddOverflows (pl_offset pl) (buf_size b) then []
                   else [(pl_pool pl, pl_offset pl + buf_size b)])"

definition all_tops :: "DsaProblem \<Rightarrow> DsaSolution \<Rightarrow> (PoolId \<times> u64) list" where
  "all_tops p s = concat (map reserved_tops (pools p)) @ concat (map (buffer_tops s) (buffers p))"

definition pool_peak :: "DsaProblem \<Rightarrow> DsaSolution \<Rightarrow> PoolId \<Rightarrow> u64" where
  "pool_peak p s k = Max (insert 0 {t. (k, t) \<in> set (all_tops p s)})"

definition raise_peaks :: "(PoolId, u64) omap \<Rightarrow> (PoolId \<times> u64) list \<Rightarrow> (PoolId, u64) omap" where
  "raise_peaks m ts = foldl (\<lambda>m (k, t). raise_peak m k t) m ts"

lemma raise_peaks_append: "raise_peaks m (xs @ ys) = raise_peaks (raise_peaks m xs) ys"
  by (simp add: raise_peaks_def)

lemma raise_peaks_concat:
  "raise_peaks m (concat xss) = foldl (\<lambda>m xs. raise_peaks m xs) m xss"
  by (induction xss arbitrary: m) (simp_all add: raise_peaks_append, simp add: raise_peaks_def)

lemma foldl_map': "foldl f a (map g xs) = foldl (\<lambda>a x. f a (g x)) a xs"
  by (induction xs arbitrary: a) simp_all

lemma reserved_peaks_tops: "reserved_peaks qs = raise_peaks [] (concat (map reserved_tops qs))"
  unfolding reserved_peaks_def raise_peaks_concat foldl_map'
  by (simp add: raise_peaks_def reserved_tops_def foldl_map')

lemma buffer_peaks_tops: "buffer_peaks s bs m = raise_peaks m (concat (map (buffer_tops s) bs))"
proof -
  have "(case Find s (buf_id b) of None \<Rightarrow> m
       | Some pl \<Rightarrow> if AddOverflows (pl_offset pl) (buf_size b) then m
          else raise_peak m (pl_pool pl) (pl_offset pl + buf_size b)) = raise_peaks m (buffer_tops s b)"
    for m b by (auto simp: buffer_tops_def raise_peaks_def split: option.splits)
  then show ?thesis unfolding buffer_peaks_def raise_peaks_concat foldl_map' by simp
qed

lemma om_get_raise_peak:
  "om_get 0 (raise_peak m q t) k = (if k = q then max (om_get 0 m q) t else om_get 0 m k)"
  by (auto simp: raise_peak_def om_get_def)

lemma om_get_raise_peaks:
  "om_get 0 (raise_peaks m ts) k = Max (insert (om_get 0 m k) {t. (k, t) \<in> set ts})"
proof (induction ts arbitrary: m)
  case Nil
  then show ?case by (simp add: raise_peaks_def)
next
  case (Cons x ts)
  obtain q t where x: "x = (q, t)" by fastforce
  have step: "raise_peaks m (x # ts) = raise_peaks (raise_peak m q t) ts"
    by (simp add: raise_peaks_def x)
  have fin: "finite {t. (k, t) \<in> set ts}" by (rule finite_subset [of _ "snd ` set ts"]) force+
  show ?case
  proof (cases "k = q")
    case True
    then have "{t'. (k, t') \<in> set (x # ts)} = insert t {t. (k, t) \<in> set ts}" using x by auto
    then show ?thesis
      unfolding step Cons.IH om_get_raise_peak using True Max_insert_max [OF fin] by simp
  next
    case False
    then have "{t'. (k, t') \<in> set (x # ts)} = {t. (k, t) \<in> set ts}" using x by auto
    then show ?thesis unfolding step Cons.IH om_get_raise_peak using False by simp
  qed
qed

lemma om_ok_raise_peaks: "om_ok m \<Longrightarrow> om_ok (raise_peaks m ts)"
  unfolding raise_peaks_def by (induction ts arbitrary: m) (auto simp: raise_peak_def)

lemma fst_raise_peaks: "fst ` set (raise_peaks m ts) = fst ` set m \<union> fst ` set ts"
proof (induction ts arbitrary: m)
  case Nil
  then show ?case by (simp add: raise_peaks_def)
next
  case (Cons x ts)
  have "raise_peaks m (x # ts) = raise_peaks (raise_peak m (fst x) (snd x)) ts"
    by (simp add: raise_peaks_def split_beta)
  with Cons show ?case by (simp add: raise_peak_def fst_om_put)
qed

lemma peak_by_pool_eq: "peak_by_pool (EvaluateObjective p s) = raise_peaks [] (all_tops p s)"
  by (simp add: EvaluateObjective_def Let_def reserved_peaks_tops buffer_peaks_tops
      raise_peaks_append all_tops_def)

lemma peak_by_pool_get: "om_get 0 (peak_by_pool (EvaluateObjective p s)) k = pool_peak p s k"
  unfolding peak_by_pool_eq om_get_raise_peaks pool_peak_def by (simp add: om_get_def)

lemma om_ok_peak_by_pool: "om_ok (peak_by_pool (EvaluateObjective p s))"
  by (simp add: peak_by_pool_eq om_ok_raise_peaks)

lemma finite_tops [simp]: "finite {t. (k, t) \<in> set ts}"
  by (rule finite_subset [of _ "snd ` set ts"]) force+

lemma pool_peak_ge: "(k, t) \<in> set (all_tops p s) \<Longrightarrow> t \<le> pool_peak p s k"
  by (simp add: pool_peak_def)

lemma pool_peak_le_iff: "pool_peak p s k \<le> c \<longleftrightarrow> (\<forall>t. (k, t) \<in> set (all_tops p s) \<longrightarrow> t \<le> c)"
  by (auto simp: pool_peak_def)

lemma in_all_tops:
  "(k, t) \<in> set (all_tops p s) \<longleftrightarrow>
   (\<exists>q\<in>set (pools p). \<exists>r\<in>set (reserved_ranges q). k = pool_id q \<and> t = range_end r) \<or>
   (\<exists>b\<in>set (buffers p). \<exists>pl. Find s (buf_id b) = Some pl \<and> \<not> AddOverflows (pl_offset pl) (buf_size b) \<and>
      k = pl_pool pl \<and> t = pl_offset pl + buf_size b)"
proof -
  have "(k, t) \<in> set (buffer_tops s b) \<longleftrightarrow>
     (\<exists>pl. Find s (buf_id b) = Some pl \<and> \<not> AddOverflows (pl_offset pl) (buf_size b) \<and>
        k = pl_pool pl \<and> t = pl_offset pl + buf_size b)" for b
    by (cases "Find s (buf_id b)") (auto simp: buffer_tops_def)
  moreover have "(k, t) \<in> set (reserved_tops q) \<longleftrightarrow>
     (\<exists>r\<in>set (reserved_ranges q). k = pool_id q \<and> t = range_end r)" for q
    by (auto simp: reserved_tops_def)
  ultimately show ?thesis by (simp add: all_tops_def)
qed

section \<open>Totals\<close>

lemma unat_foldl_SaturatingAdd:
  "unat (foldl (\<lambda>t x. SaturatingAdd t (f x)) c xs) =
   min (unat c + sum_list (map (\<lambda>x. unat (f x)) xs)) 18446744073709551615"
proof (induction xs arbitrary: c)
  case Nil
  then show ?case using unat_u64_bound [of c] by simp
next
  case (Cons x xs)
  then show ?case by (simp add: u64_simps min_def)
qed

lemma foldl_max_ge: "c \<le> foldl (\<lambda>t x. max t (f x)) c xs"
  for f :: "'a \<Rightarrow> 'b::linorder"
  by (induction xs arbitrary: c) (auto, meson max.cobounded1 order_trans)

lemma foldl_max_eq: "foldl (\<lambda>t x. max t (f x)) c xs = Max (insert c (f ` set xs))"
  for f :: "'a \<Rightarrow> 'b::linorder"
proof (induction xs arbitrary: c)
  case (Cons x xs)
  have "Max (insert (max c (f x)) (f ` set xs)) = Max (insert c (insert (f x) (f ` set xs)))"
    by (rule Max_insert_max) simp
  with Cons show ?case by simp
qed simp

lemma total_peak_unat:
  "unat (total_peak (EvaluateObjective p s)) =
   min (sum_list (map (\<lambda>(k, t). unat t) (peak_by_pool (EvaluateObjective p s)))) 18446744073709551615"
proof -
  have "(\<lambda>t (k, peak). SaturatingAdd t peak) = (\<lambda>t (e :: PoolId \<times> u64). SaturatingAdd t (snd e))"
    by (auto simp: fun_eq_iff)
  then show ?thesis by (simp add: EvaluateObjective_def Let_def split_beta' unat_foldl_SaturatingAdd)
qed

lemma max_peak_eq:
  "max_peak (EvaluateObjective p s) = Max (insert 0 (snd ` set (peak_by_pool (EvaluateObjective p s))))"
proof -
  have "(\<lambda>t (k, peak). max t peak) = (\<lambda>t (e :: PoolId \<times> u64). max t (snd e))"
    by (auto simp: fun_eq_iff)
  then show ?thesis by (simp add: EvaluateObjective_def Let_def foldl_max_eq)
qed

section \<open>Reuse cost\<close>

text \<open>
  A penalty is paid when its buffers are in different classes of the same pool, can follow each
  other in time, and the byte ranges of their classes overlap.
\<close>

definition pays :: "DsaProblem \<Rightarrow> DsaSolution \<Rightarrow> ReusePenalty \<Rightarrow> bool" where
  "pays p s k =
     (case (FindBuffer p (pen_first k), FindBuffer p (pen_second k),
            Find s (pen_first k), Find s (pen_second k)) of
        (Some b1, Some b2, Some pl1, Some pl2) \<Rightarrow>
          pl_pool pl1 = pl_pool pl2 \<and> \<not> same_class p (pen_first k) (pen_second k) \<and>
          \<not> HaveTemporalConflict p b1 b2 \<and>
          AddressRangesOverlap (pl_offset pl1) (class_extent p (pen_first k))
            (pl_offset pl2) (class_extent p (pen_second k))
      | _ \<Rightarrow> False)"

definition penalties_of :: "DsaProblem \<Rightarrow> ReusePenalty list" where
  "penalties_of p = (case cost_model p of None \<Rightarrow> [] | Some m \<Rightarrow> reuse_penalties m)"

lemma penalties_cost_eq:
  assumes wf: "well_formed p" and "ds_of (length (buffers p)) (class_root p) parent"
    and "\<forall>k\<in>set ks. pen_first k \<in> buffer_ids p \<and> pen_second k \<in> buffer_ids p"
  shows "penalties_cost p s (BufferIndices p) (class_extents p) parent cost ks =
    foldl (\<lambda>c k. SaturatingAdd c (pen_cost k)) cost (filter (pays p s) ks)"
  using assms(2,3)
proof (induction ks arbitrary: parent cost)
  case (Cons k ks)
  note d = well_formedD(2) [OF wf]
  obtain i where i: "BufferIndices p (pen_first k) = Some i" "i < length (buffers p)"
    "buf_id (buffers p ! i) = pen_first k"
    using BufferIndices_known [OF d, of "pen_first k"] Cons.prems(2) by auto
  obtain j where j: "BufferIndices p (pen_second k) = Some j" "j < length (buffers p)"
    "buf_id (buffers p ! j) = pen_second k"
    using BufferIndices_known [OF d, of "pen_second k"] Cons.prems(2) by auto
  obtain p1 where f1: "ds_find parent i = (class_root p i, p1)"
    "ds_of (length (buffers p)) (class_root p) p1"
    using ds_of_find [OF Cons.prems(1) i(2)] by blast
  obtain p2 where f2: "ds_find p1 j = (class_root p j, p2)"
    "ds_of (length (buffers p)) (class_root p) p2"
    using ds_of_find [OF f1(2) j(2)] by blast
  have root: "class_root p i = class_root p j \<longleftrightarrow> same_class p (pen_first k) (pen_second k)"
    using class_root_eq_iff [OF wf i(2) j(2)] i(3) j(3) by simp
  have active: "penalty_active p s (BufferIndices p) (class_extents p)
      (same_class p (pen_first k) (pen_second k)) k = pays p s k"
    using i j by (auto simp: penalty_active_def pays_def split: option.splits)
  have "penalties_cost p s (BufferIndices p) (class_extents p) parent cost (k # ks) =
      penalties_cost p s (BufferIndices p) (class_extents p) p2
        (if pays p s k then SaturatingAdd cost (pen_cost k) else cost) ks"
    using i(1) j(1) f1(1) f2(1) by (simp add: root active)
  then show ?case using Cons.IH [OF f2(2)] Cons.prems(2) by simp
qed simp

lemma reuse_cost_eq:
  assumes "well_formed p"
  shows "reuse_cost (EvaluateObjective p s) =
    foldl (\<lambda>c k. SaturatingAdd c (pen_cost k)) 0 (filter (pays p s) (penalties_of p))"
proof (cases "cost_model p")
  case None
  then show ?thesis by (simp add: EvaluateObjective_def Let_def penalties_of_def)
next
  case (Some m)
  obtain colocs where e: "AllocationClassExtents p (BufferIndices p) (ds_init (length (buffers p))) =
      (class_extents p, colocs)" and d: "ds_of (length (buffers p)) (class_root p) colocs"
    using AllocationClassExtents_spec [OF assms] by blast
  have "\<forall>k\<in>set (reuse_penalties m). pen_first k \<in> buffer_ids p \<and> pen_second k \<in> buffer_ids p"
    using assms Some by (simp add: well_formed_def)
  then show ?thesis
    using Some penalties_cost_eq [OF assms d]
    by (simp add: EvaluateObjective_def Let_def e penalties_of_def)
qed

lemma reuse_cost_unat:
  assumes "well_formed p"
  shows "unat (reuse_cost (EvaluateObjective p s)) =
    min (sum_list (map (\<lambda>k. unat (pen_cost k)) (filter (pays p s) (penalties_of p)))) 18446744073709551615"
  by (simp add: reuse_cost_eq [OF assms] unat_foldl_SaturatingAdd)

section \<open>Capacity overflow\<close>

lemma foldl_SaturatingAdd_0:
  "foldl (\<lambda>t x. SaturatingAdd t (f x)) c xs = 0 \<longleftrightarrow> c = 0 \<and> (\<forall>x\<in>set xs. f x = 0)"
  by (induction xs arbitrary: c) auto

lemma capacity_overflow_0_iff:
  "EvaluateObjectiveMetric p (EvaluateObjective p s) kCapacityOverflow = 0 \<longleftrightarrow>
   (\<forall>q\<in>set (pools p). \<forall>c. capacity q = Some c \<longrightarrow> pool_peak p s (pool_id q) \<le> c)"
  by (auto simp: foldl_SaturatingAdd_0 pool_overflow_def peak_by_pool_get Let_def split: option.splits)

lemma capacity_overflow_unat:
  "unat (EvaluateObjectiveMetric p (EvaluateObjective p s) kCapacityOverflow) =
   min (\<Sum>q\<leftarrow>pools p. case capacity q of None \<Rightarrow> 0
                       | Some c \<Rightarrow> unat (pool_peak p s (pool_id q)) - unat c) 18446744073709551615"
proof -
  have "unat (pool_overflow (EvaluateObjective p s) q) =
      (case capacity q of None \<Rightarrow> 0 | Some c \<Rightarrow> unat (pool_peak p s (pool_id q)) - unat c)" for q
    by (auto simp: pool_overflow_def Let_def peak_by_pool_get word_le_nat_alt unat_sub not_le
        split: option.splits)
  then show ?thesis by (simp add: unat_foldl_SaturatingAdd)
qed

text \<open>A valid solution fits: every peak is within its pool.\<close>

lemma valid_solution_peak_le:
  assumes wf: "well_formed p" and v: "valid_solution p s"
    and q: "q \<in> set (pools p)" "capacity q = Some c"
  shows "pool_peak p s (pool_id q) \<le> c"
  unfolding pool_peak_le_iff in_all_tops
proof (intro allI impI, elim disjE bexE exE conjE)
  fix t q' r
  assume "q' \<in> set (pools p)" "r \<in> set (reserved_ranges q')" "pool_id q = pool_id q'" "t = range_end r"
  moreover have "q = q'"
    using FindPool_in_set [OF well_formedD(1) [OF wf]] q(1) calculation by (metis option.inject)
  ultimately show "t \<le> c" using well_formedD(3) [OF wf q(1)] q(2) by (simp add: wf_pool_def)
next
  fix t b pl
  assume b: "b \<in> set (buffers p)" "Find s (buf_id b) = Some pl"
    "\<not> AddOverflows (pl_offset pl) (buf_size b)" "pool_id q = pl_pool pl"
    "t = pl_offset pl + buf_size b"
  have "fits_buffer p b pl" using v b by (auto simp: valid_solution_def)
  moreover have "FindPool p (pl_pool pl) = Some q"
    using FindPool_in_set [OF well_formedD(1) [OF wf] q(1)] b(4) by simp
  ultimately show "t \<le> c" using q(2) b(3,5) by (simp add: fits_buffer_def word_le_nat_alt u64_simps)
qed

lemma valid_solution_no_overflow:
  "well_formed p \<Longrightarrow> valid_solution p s \<Longrightarrow>
   EvaluateObjectiveMetric p (EvaluateObjective p s) kCapacityOverflow = 0"
  unfolding capacity_overflow_0_iff using valid_solution_peak_le by blast

section \<open>Dropping the capacities\<close>

text \<open>
  \<open>PlaceWithOrder\<close> validates against the problem without capacities and compares the peaks itself.
  Together the two checks are the validation of the problem as given.
\<close>

definition without_capacities :: "DsaProblem \<Rightarrow> DsaProblem" where
  "without_capacities p = p\<lparr>pools := map (\<lambda>q. q\<lparr>capacity := None\<rparr>) (pools p)\<rparr>"

lemma without_capacities_simps [simp]:
  "buffers (without_capacities p) = buffers p" "colocations (without_capacities p) = colocations p"
  "separations (without_capacities p) = separations p"
  "temporal_exclusions (without_capacities p) = temporal_exclusions p"
  "pinned_allocations (without_capacities p) = pinned_allocations p"
  "cost_model (without_capacities p) = cost_model p"
  "pypto_structure (without_capacities p) = pypto_structure p"
  "objective (without_capacities p) = objective p"
  "map pool_id (pools (without_capacities p)) = map pool_id (pools p)"
  "pool_id ` set (pools (without_capacities p)) = pool_id ` set (pools p)"
  by (auto simp: without_capacities_def image_image)

lemma find_map: "find P (map f xs) = map_option f (find (P \<circ> f) xs)"
  by (induction xs) auto

lemma FindPool_without_capacities:
  "FindPool (without_capacities p) i = map_option (\<lambda>q. q\<lparr>capacity := None\<rparr>) (FindPool p i)"
  by (simp add: FindPool_def without_capacities_def find_map comp_def)

lemma FindBuffer_without_capacities [simp]: "FindBuffer (without_capacities p) = FindBuffer p"
  by (simp add: FindBuffer_def fun_eq_iff)

lemma without_capacities_classes [simp]:
  "buffer_ids (without_capacities p) = buffer_ids p"
  "same_class (without_capacities p) = same_class p"
  "class_extent (without_capacities p) = class_extent p"
  "exclusive_pin_ids (without_capacities p) = exclusive_pin_ids p"
  "HaveTemporalConflict (without_capacities p) = HaveTemporalConflict p"
  "must_not_share (without_capacities p) = must_not_share p"
  "placed_apart (without_capacities p) = placed_apart p"
  by (simp_all add: buffer_ids_def same_class_def coloc_pairs_def class_extent_def
      exclusive_pin_ids_def HaveTemporalConflict_def must_not_share_def placed_apart_def fun_eq_iff)

lemma well_formed_without_capacities: "well_formed p \<Longrightarrow> well_formed (without_capacities p)"
proof -
  assume wf: "well_formed p"
  have "wf_pool (q\<lparr>capacity := None\<rparr>)" if "q \<in> set (pools p)" for q
    using well_formedD(3) [OF wf that] by (auto simp: wf_pool_def)
  moreover have "wf_pinned (without_capacities p) a" if "a \<in> set (pinned_allocations p)" for a
    using well_formedD(8) [OF wf that] by (auto simp: wf_pinned_def FindPool_without_capacities)
  moreover have "wf_separation (without_capacities p) = wf_separation p"
    by (simp add: wf_separation_def fun_eq_iff)
  moreover have "wf_pypto (without_capacities p) = wf_pypto p"
    by (simp add: wf_pypto_def wf_group_def fun_eq_iff)
  ultimately show ?thesis
    using wf unfolding well_formed_def without_capacities_simps without_capacities_classes
    by (auto simp: without_capacities_def)
qed

lemma fits_buffer_capacities:
  assumes wf: "well_formed p" and b: "b \<in> set (buffers p)" "Find s (buf_id b) = Some pl"
    and fits: "fits_buffer (without_capacities p) b pl"
    and cap: "\<And>q c. q \<in> set (pools p) \<Longrightarrow> capacity q = Some c \<Longrightarrow> pool_peak p s (pool_id q) \<le> c"
  shows "fits_buffer p b pl"
proof -
  have "unat (pl_offset pl) + unat (buf_size b) \<le> unat c"
    if q: "FindPool p (pl_pool pl) = Some q" "capacity q = Some c" for q c
  proof -
    have no: "\<not> AddOverflows (pl_offset pl) (buf_size b)"
      using fits by (simp add: fits_buffer_def AddOverflows_less)
    have "(pool_id q, pl_offset pl + buf_size b) \<in> set (all_tops p s)"
      unfolding in_all_tops using b no FindPool_SomeD [OF q(1)] by blast
    then have "pl_offset pl + buf_size b \<le> c"
      using pool_peak_ge cap [of q c] FindPool_SomeD [OF q(1)] q(2) by fastforce
    then show ?thesis by (simp add: word_le_nat_alt unat_plus_no_overflow [OF no])
  qed
  then show ?thesis using fits by (auto simp: fits_buffer_def FindPool_without_capacities)
qed

lemma valid_solution_capacities:
  assumes wf: "well_formed p" and v: "valid_solution (without_capacities p) s"
    and cap: "\<And>q c. q \<in> set (pools p) \<Longrightarrow> capacity q = Some c \<Longrightarrow> pool_peak p s (pool_id q) \<le> c"
  shows "valid_solution p s"
  using v fits_buffer_capacities [OF wf _ _ _ cap]
  unfolding valid_solution_def without_capacities_simps without_capacities_classes by blast

lemma valid_solution_without_capacities:
  "valid_solution p s \<Longrightarrow> valid_solution (without_capacities p) s"
  unfolding valid_solution_def without_capacities_simps without_capacities_classes
  by (fastforce simp: fits_buffer_def FindPool_without_capacities)

end
