(* ===== verification/Fit.thy ===== *)
theory Fit
  imports Objective_Spec
begin

text \<open>
  Address arithmetic of the placement engine (\<^verbatim>\<open>placement_engine.cpp\<close>, lines 57-85 and 203-257;
  \<open>AlignUp\<close> is repeated in \<^verbatim>\<open>reuse_penalty_search.cpp\<close>): alignment, the merged alignment of a class,
  and the two policies that choose an offset between blocked ranges. What a policy owes the engine
  is the locale \<open>fit_policy\<close>.
\<close>

section \<open>Definitions\<close>

record FitRequest =
  fit_size :: u64
  fit_alignment :: u64

definition LeastCommonMultiple :: "u64 \<Rightarrow> u64 \<Rightarrow> u64 option" where
  "LeastCommonMultiple first second =
     (let divisor = of_nat (gcd (unat first) (unat second));
          reduced = first div divisor
      in if reduced > UINT64_MAX div second then None else Some (reduced * second))"

definition AlignUp :: "u64 \<Rightarrow> u64 \<Rightarrow> u64 option" where
  "AlignUp value align =
     (if align \<le> 1 then Some value
      else let remainder = value mod align in
        if remainder = 0 then Some value
        else let delta = align - remainder in
          if AddOverflows value delta then None else Some (value + delta))"

definition sort_ranges :: "AddressRange list \<Rightarrow> AddressRange list" where
  "sort_ranges = sort_key (\<lambda>r. (range_begin r, range_end r))"

subsection \<open>First fit\<close>

definition first_fit_finish :: "FitRequest \<Rightarrow> u64 \<Rightarrow> u64 option" where
  "first_fit_finish request candidate =
     (if AddOverflows candidate (fit_size request) then None else Some candidate)"

fun first_fit_scan :: "FitRequest \<Rightarrow> u64 \<Rightarrow> AddressRange list \<Rightarrow> u64 option" where
  "first_fit_scan request candidate [] = first_fit_finish request candidate"
| "first_fit_scan request candidate (blocked # rest) =
     (if AddOverflows candidate (fit_size request) then None
      else if range_begin blocked \<ge> candidate + fit_size request
      then first_fit_finish request candidate
      else if range_end blocked > candidate
      then (case AlignUp (range_end blocked) (fit_alignment request) of
              None \<Rightarrow> None
            | Some candidate' \<Rightarrow> first_fit_scan request candidate' rest)
      else first_fit_scan request candidate rest)"

definition FindFirstFit :: "FitRequest \<Rightarrow> AddressRange list \<Rightarrow> u64 option" where
  "FindFirstFit request blocked_ranges =
     (case AlignUp 0 (fit_alignment request) of
        None \<Rightarrow> None
      | Some candidate \<Rightarrow> first_fit_scan request candidate (sort_ranges blocked_ranges))"

subsection \<open>Best fit\<close>

definition best_fit_finish :: "FitRequest \<Rightarrow> u64 option \<Rightarrow> u64 \<Rightarrow> u64 option" where
  "best_fit_finish request best_offset free_begin =
     (case best_offset of
        Some offset \<Rightarrow> Some offset
      | None \<Rightarrow>
          (case AlignUp free_begin (fit_alignment request) of
             None \<Rightarrow> None
           | Some candidate \<Rightarrow>
               if AddOverflows candidate (fit_size request) then None else Some candidate))"

definition best_fit_update ::
  "FitRequest \<Rightarrow> u64 option \<times> u64 \<Rightarrow> u64 \<Rightarrow> AddressRange \<Rightarrow> u64 option \<times> u64" where
  "best_fit_update request best candidate blocked =
     (case best of (best_offset, best_chunk_size) \<Rightarrow>
        if candidate \<le> range_begin blocked \<and> fit_size request \<le> range_begin blocked - candidate
        then (let chunk_size = range_begin blocked - candidate in
              if (case best_offset of
                    None \<Rightarrow> True
                  | Some offset \<Rightarrow> chunk_size < best_chunk_size \<or>
                                   (chunk_size = best_chunk_size \<and> candidate < offset))
              then (Some candidate, chunk_size) else best)
        else best)"

fun best_fit_scan ::
  "FitRequest \<Rightarrow> u64 option \<times> u64 \<Rightarrow> u64 \<Rightarrow> AddressRange list \<Rightarrow> u64 option" where
  "best_fit_scan request best free_begin [] = best_fit_finish request (fst best) free_begin"
| "best_fit_scan request best free_begin (blocked # rest) =
     (if range_end blocked \<le> free_begin then best_fit_scan request best free_begin rest
      else if range_begin blocked > free_begin
      then (case AlignUp free_begin (fit_alignment request) of
              None \<Rightarrow> None
            | Some candidate \<Rightarrow>
                best_fit_scan request (best_fit_update request best candidate blocked)
                  (max free_begin (range_end blocked)) rest)
      else best_fit_scan request best (max free_begin (range_end blocked)) rest)"

definition FindBestFit :: "FitRequest \<Rightarrow> AddressRange list \<Rightarrow> u64 option" where
  "FindBestFit request blocked_ranges =
     best_fit_scan request (None, UINT64_MAX) 0 (sort_ranges blocked_ranges)"

section \<open>Alignment\<close>

definition aligned_to :: "u64 \<Rightarrow> u64 \<Rightarrow> bool" where
  "aligned_to align x \<longleftrightarrow> unat align dvd unat x"

lemma nat_align_up_eq:
  fixes v a :: nat
  assumes "0 < a"
  shows "v + (a - v mod a) = a * Suc (v div a)"
proof -
  have "v mod a \<le> a" using mod_less_divisor [OF assms, of v] by simp
  then have "v + (a - v mod a) = (v - v mod a) + a" by simp
  then show ?thesis by (simp add: minus_mod_eq_mult_div)
qed

lemma nat_align_up_least:
  fixes v a x :: nat
  assumes "v mod a \<noteq> 0" "a dvd x" "v \<le> x"
  shows "v + (a - v mod a) \<le> x"
proof -
  obtain k where x: "x = a * k" using assms(2) by blast
  have a: "0 < a" using assms(1,2,3) by (cases a) auto
  have v: "v = a * (v div a) + v mod a" by simp
  have "a * (v div a) < a * k"
    using assms(1,3) x v by (metis add.right_neutral le_neq_implies_less mod_mult_self1_is_0
        mult.commute nat_le_iff_add order.strict_trans1 zero_less_iff_neq_zero le_add1 mod_mult_self2_is_0)
  then have "Suc (v div a) \<le> k" using a by simp
  then have "a * Suc (v div a) \<le> x" unfolding x by (rule mult_le_mono2)
  then show ?thesis by (simp only: nat_align_up_eq [OF a])
qed

lemma AlignUp_cases:
  assumes "align \<noteq> 0"
  shows "(\<exists>w. AlignUp v align = Some w \<and> aligned_to align w \<and> v \<le> w \<and>
            (\<forall>x. aligned_to align x \<longrightarrow> v \<le> x \<longrightarrow> w \<le> x)) \<or>
         (AlignUp v align = None \<and> (\<forall>x. aligned_to align x \<longrightarrow> \<not> v \<le> x))"
proof -
  have pos: "0 < unat align" using assms by (simp add: unat_gt_0)
  show ?thesis
  proof (cases "align \<le> 1")
    case True
    then have "unat align = 1" using pos by (simp add: word_le_nat_alt)
    with True show ?thesis by (auto simp: AlignUp_def aligned_to_def)
  next
    case big: False
    show ?thesis
    proof (cases "v mod align = 0")
      case True
      then have "aligned_to align v" by (simp add: aligned_to_def mod_zero_dvd)
      with big True show ?thesis by (auto simp: AlignUp_def)
    next
      case False
      then have r: "unat v mod unat align \<noteq> 0" by (simp add: word_unat_eq_iff unat_mod)
      have delta: "unat (align - v mod align) = unat align - unat v mod unat align"
        by (subst unat_sub) (simp_all add: unat_mod word_le_nat_alt less_imp_le pos)
      have least: "unat v + (unat align - unat v mod unat align) \<le> unat x"
        if "aligned_to align x" "v \<le> x" for x
        using nat_align_up_least [OF r] that by (simp add: aligned_to_def word_le_nat_alt)
      show ?thesis
      proof (cases "AddOverflows v (align - v mod align)")
        case True
        then have "18446744073709551616 \<le> unat v + (unat align - unat v mod unat align)"
          by (simp add: AddOverflows_unat delta)
        then have "\<not> v \<le> x" if "aligned_to align x" for x
          using least [OF that] unat_u64_less [of x] by auto
        with big False True show ?thesis by (auto simp: AlignUp_def Let_def)
      next
        case no: False
        let ?w = "v + (align - v mod align)"
        have w: "unat ?w = unat v + (unat align - unat v mod unat align)"
          using no by (simp add: u64_simps delta)
        have "aligned_to align ?w"
          unfolding aligned_to_def w nat_align_up_eq [OF pos] by simp
        moreover have "v \<le> ?w" by (simp add: word_le_nat_alt w)
        moreover have "\<forall>x. aligned_to align x \<longrightarrow> v \<le> x \<longrightarrow> ?w \<le> x"
          using least by (simp add: word_le_nat_alt w)
        ultimately show ?thesis using big False no by (auto simp: AlignUp_def Let_def)
      qed
    qed
  qed
qed

lemma AlignUp_Some:
  assumes "align \<noteq> 0" "AlignUp v align = Some w"
  shows "aligned_to align w" "v \<le> w" "aligned_to align x \<Longrightarrow> v \<le> x \<Longrightarrow> w \<le> x"
  using AlignUp_cases [OF assms(1), of v] assms(2) by auto

lemma AlignUp_None:
  "align \<noteq> 0 \<Longrightarrow> AlignUp v align = None \<Longrightarrow> aligned_to align x \<Longrightarrow> \<not> v \<le> x"
  using AlignUp_cases [of align v] by auto

lemma AlignUp_0 [simp]: "AlignUp 0 align = Some 0"
  by (simp add: AlignUp_def)

lemma aligned_to_0 [simp]: "aligned_to align 0"
  by (simp add: aligned_to_def)

lemma AlignUp_aligned:
  assumes "align \<noteq> 0" "aligned_to align v"
  shows "AlignUp v align = Some v"
  using assms by (simp add: AlignUp_def aligned_to_def mod_zero_dvd)

lemma LeastCommonMultiple_cases:
  assumes "a \<noteq> 0" "b \<noteq> 0"
  shows "LeastCommonMultiple a b =
    (if lcm (unat a) (unat b) < 18446744073709551616 then Some (of_nat (lcm (unat a) (unat b))) else None)"
proof -
  let ?a = "unat a" and ?b = "unat b"
  let ?g = "gcd ?a ?b"
  have pos: "0 < ?a" "0 < ?b" using assms by (simp_all add: unat_gt_0)
  have "?g \<le> ?a" using pos by (simp add: gcd_le1_nat)
  then have g: "unat (of_nat ?g :: u64) = ?g"
    using unat_u64_less [of a] by (simp add: unat_of_nat)
  have red: "unat (a div of_nat ?g) = ?a div ?g" by (simp add: unat_div g)
  have lcm: "lcm ?a ?b = (?a div ?g) * ?b" by (simp add: lcm_nat_def div_mult_swap mult.commute)
  have cond: "a div of_nat ?g > UINT64_MAX div b \<longleftrightarrow> \<not> lcm ?a ?b < 18446744073709551616"
  proof -
    have "a div of_nat ?g > UINT64_MAX div b \<longleftrightarrow> 18446744073709551615 div ?b < ?a div ?g"
      by (simp add: word_less_nat_alt unat_div g unat_UINT64_MAX)
    also have "\<dots> \<longleftrightarrow> 18446744073709551615 < (?a div ?g) * ?b"
      using pos(2) by (simp add: div_less_iff_less_mult)
    finally show ?thesis unfolding lcm by auto
  qed
  have "(a div of_nat ?g) * b = of_nat (lcm ?a ?b)" if "lcm ?a ?b < 18446744073709551616"
  proof -
    have "unat ((a div of_nat ?g) * b) = (?a div ?g) * ?b"
      using that by (subst unat_mult_lem [THEN iffD1]) (simp_all add: red lcm)
    then have "unat ((a div of_nat ?g) * b) = unat (of_nat (lcm ?a ?b) :: u64)"
      using that unfolding lcm [symmetric] by (simp only: unat_of_nat) simp
    then show ?thesis by (simp only: word_unat_eq_iff)
  qed
  then show ?thesis using cond by (auto simp: LeastCommonMultiple_def Let_def)
qed

section \<open>What a fit is\<close>

text \<open>
  An offset fits a request between blocked ranges when it is aligned, its bytes stay inside the
  address space, and none of them is blocked.
\<close>

definition fits :: "FitRequest \<Rightarrow> AddressRange list \<Rightarrow> u64 \<Rightarrow> bool" where
  "fits request blocked offset \<longleftrightarrow>
     aligned_to (fit_alignment request) offset \<and>
     \<not> AddOverflows offset (fit_size request) \<and>
     (\<forall>r\<in>set blocked. bytes offset (fit_size request) \<inter> range_bytes (range_begin r) (range_end r) = {})"

lemma range_below_disjoint: "e \<le> o' \<Longrightarrow> bytes o' s \<inter> range_bytes b e = {}"
  by (auto simp: bytes_def range_bytes_def word_le_nat_alt)

lemma range_above_disjoint:
  "\<not> AddOverflows o' s \<Longrightarrow> o' + s \<le> b \<Longrightarrow> bytes o' s \<inter> range_bytes b e = {}"
  by (auto simp: bytes_def range_bytes_def word_le_nat_alt u64_simps)

lemma disjoint_range_cases:
  assumes "s \<noteq> 0" "\<not> AddOverflows o' s" "bytes o' s \<inter> range_bytes b e = {}" "b < e"
  shows "e \<le> o' \<or> o' + s \<le> b"
proof (rule ccontr)
  assume "\<not> ?thesis"
  then have "unat o' < unat e" "unat b < unat o' + unat s"
    using assms(2) by (simp_all add: not_le word_less_nat_alt u64_simps)
  moreover have "unat b < unat e" "0 < unat s" using assms(1,4) by (simp_all add: word_less_nat_alt unat_gt_0)
  ultimately have "max (unat o') (unat b) \<in> bytes o' s \<inter> range_bytes b e"
    by (auto simp: bytes_def range_bytes_def)
  with assms(3) show False by blast
qed

locale fit_policy =
  fixes find_fit :: "FitRequest \<Rightarrow> AddressRange list \<Rightarrow> u64 option"
  assumes fit_sound:
    "fit_alignment request \<noteq> 0 \<Longrightarrow> find_fit request blocked = Some offset \<Longrightarrow> fits request blocked offset"

section \<open>First fit finds the lowest fit\<close>

lemma set_sort_ranges [simp]: "set (sort_ranges rs) = set rs"
  by (simp add: sort_ranges_def)

lemma sorted_sort_ranges: "sorted_wrt (\<lambda>r r'. range_begin r \<le> range_begin r') (sort_ranges rs)"
proof -
  have "sorted (map (\<lambda>r. (range_begin r, range_end r)) (sort_ranges rs))"
    unfolding sort_ranges_def by (rule sorted_sort_key)
  then have "sorted_wrt (\<lambda>r r'. (range_begin r, range_end r) \<le> (range_begin r', range_end r')) (sort_ranges rs)"
    by (simp add: sorted_wrt_map)
  then show ?thesis by (rule sorted_wrt_mono_rel [rotated]) (auto simp: less_eq_prod_def)
qed

lemma fits_set_cong: "set rs = set rs' \<Longrightarrow> fits request rs o' = fits request rs' o'"
  by (simp add: fits_def)

lemma first_fit_scan_sound:
  assumes "fit_alignment request \<noteq> 0"
    and "first_fit_scan request candidate rs = Some o'"
    and "sorted_wrt (\<lambda>r r'. range_begin r \<le> range_begin r') rs"
    and "aligned_to (fit_alignment request) candidate"
  shows "candidate \<le> o' \<and> fits request rs o'"
  using assms(2-4)
proof (induction rs arbitrary: candidate)
  case Nil
  then show ?case by (auto simp: fits_def first_fit_finish_def split: if_splits)
next
  case (Cons r rs)
  have no: "\<not> AddOverflows candidate (fit_size request)" using Cons.prems(1) by (auto split: if_splits)
  consider (stop) "range_begin r \<ge> candidate + fit_size request" "o' = candidate"
    | (bump) c where "range_end r > candidate" "AlignUp (range_end r) (fit_alignment request) = Some c"
        "first_fit_scan request c rs = Some o'"
    | (skip) "range_end r \<le> candidate" "first_fit_scan request candidate rs = Some o'"
    using Cons.prems(1) no
    by (auto simp: first_fit_finish_def not_less split: if_splits option.splits)
  then show ?case
  proof cases
    case stop
    have "candidate + fit_size request \<le> range_begin r'" if "r' \<in> set (r # rs)" for r'
      using that stop(1) Cons.prems(2) by auto
    then show ?thesis
      using stop(2) no Cons.prems(3) range_above_disjoint [OF no] by (simp add: fits_def)
  next
    case bump
    then have "aligned_to (fit_alignment request) c" "range_end r \<le> c"
      using AlignUp_Some [OF assms(1)] by blast+
    then have "c \<le> o' \<and> fits request rs o'" using Cons.IH [OF bump(3)] Cons.prems(2) by simp
    moreover have "range_end r \<le> o'" using \<open>range_end r \<le> c\<close> calculation by (meson order_trans)
    ultimately show ?thesis
      using bump(1) range_below_disjoint by (auto simp: fits_def)
  next
    case skip
    then have "candidate \<le> o' \<and> fits request rs o'" using Cons.IH [OF skip(2)] Cons.prems(2,3) by simp
    moreover have "range_end r \<le> o'" using skip(1) calculation by (meson order_trans)
    ultimately show ?thesis using range_below_disjoint by (auto simp: fits_def)
  qed
qed

lemma first_fit_scan_least:
  assumes "fit_alignment request \<noteq> 0" "fit_size request \<noteq> 0"
    and "\<forall>r\<in>set rs. range_begin r < range_end r"
    and "fits request rs x" "candidate \<le> x"
  shows "\<exists>o'. first_fit_scan request candidate rs = Some o' \<and> o' \<le> x"
  using assms(3-5)
proof (induction rs arbitrary: candidate)
  case Nil
  then have "\<not> AddOverflows candidate (fit_size request)"
    by (auto simp: fits_def AddOverflows_unat word_le_nat_alt)
  then show ?case using Nil by (simp add: first_fit_finish_def)
next
  case (Cons r rs)
  have x: "\<not> AddOverflows x (fit_size request)" "fits request rs x"
    using Cons.prems(2) by (auto simp: fits_def)
  have no: "\<not> AddOverflows candidate (fit_size request)"
    using x(1) Cons.prems(3) by (auto simp: AddOverflows_unat word_le_nat_alt)
  show ?case
  proof (cases "range_begin r \<ge> candidate + fit_size request")
    case True
    then show ?thesis using no Cons.prems(3) by (simp add: first_fit_finish_def)
  next
    case reach: False
    show ?thesis
    proof (cases "range_end r > candidate")
      case True
      have "range_end r \<le> x \<or> x + fit_size request \<le> range_begin r"
        using disjoint_range_cases [OF assms(2) x(1)] Cons.prems(1,2) by (auto simp: fits_def)
      moreover have "\<not> x + fit_size request \<le> range_begin r"
        using reach Cons.prems(3) no x(1) by (auto simp: word_le_nat_alt u64_simps)
      ultimately have "range_end r \<le> x" by blast
      moreover have "aligned_to (fit_alignment request) x" using Cons.prems(2) by (simp add: fits_def)
      ultimately obtain c where "AlignUp (range_end r) (fit_alignment request) = Some c" "c \<le> x"
        using AlignUp_None [OF assms(1)] AlignUp_Some(3) [OF assms(1)] by (metis not_None_eq)
      then show ?thesis using no reach True Cons.IH [of c] Cons.prems(1) x(2) by auto
    next
      case False
      then show ?thesis using no reach Cons.IH [of candidate] Cons.prems x(2) by auto
    qed
  qed
qed

lemma FindFirstFit_sound:
  "fit_alignment request \<noteq> 0 \<Longrightarrow> FindFirstFit request blocked = Some o' \<Longrightarrow> fits request blocked o'"
  unfolding FindFirstFit_def
  using first_fit_scan_sound [of request 0 "sort_ranges blocked" o'] sorted_sort_ranges
    fits_set_cong [OF set_sort_ranges] by simp

lemma FindFirstFit_least:
  assumes "fit_alignment request \<noteq> 0" "fit_size request \<noteq> 0"
    and "\<forall>r\<in>set blocked. range_begin r < range_end r" "fits request blocked x"
  shows "\<exists>o'. FindFirstFit request blocked = Some o' \<and> o' \<le> x"
  unfolding FindFirstFit_def
  using first_fit_scan_least [OF assms(1,2), of "sort_ranges blocked" x 0] assms(3,4)
    fits_set_cong [OF set_sort_ranges] by simp

interpretation first_fit: fit_policy FindFirstFit
  by unfold_locales (rule FindFirstFit_sound)

section \<open>Best fit\<close>

lemma best_fit_update_cases:
  "best_fit_update request best candidate r = best \<or>
   (candidate \<le> range_begin r \<and> fit_size request \<le> range_begin r - candidate \<and>
    best_fit_update request best candidate r = (Some candidate, range_begin r - candidate))"
  by (auto simp: best_fit_update_def Let_def split: prod.splits option.splits)

lemma gap_no_overflow:
  assumes "c \<le> b" "s \<le> b - c"
  shows "\<not> AddOverflows c s" "c + s \<le> b"
proof -
  have "unat c + unat s \<le> unat b"
    using assms by (simp add: word_le_nat_alt unat_sub)
  then show "\<not> AddOverflows c s" "c + s \<le> b"
    using unat_u64_less [of b] by (simp_all add: AddOverflows_unat word_le_nat_alt u64_simps)
qed

lemma best_fit_scan_sound:
  assumes al: "fit_alignment request \<noteq> 0"
    and "best_fit_scan request best free_begin rs = Some o'"
    and "sorted_wrt (\<lambda>r r'. range_begin r \<le> range_begin r') rs"
    and "\<forall>r\<in>set seen. range_end r \<le> free_begin"
    and "\<forall>o'. fst best = Some o' \<longrightarrow> fits request (seen @ rs) o'"
  shows "fits request (seen @ rs) o'"
  using assms(2-5)
proof (induction rs arbitrary: best free_begin seen)
  case Nil
  show ?case
  proof (cases "fst best")
    case None
    then obtain c where "AlignUp free_begin (fit_alignment request) = Some c"
      "\<not> AddOverflows c (fit_size request)" "o' = c"
      using Nil.prems(1) by (auto simp: best_fit_finish_def split: option.splits if_splits)
    moreover have "range_end r \<le> c" if "r \<in> set seen" for r
      using AlignUp_Some(2) [OF al calculation(1)] Nil.prems(3) that by (meson order_trans)
    ultimately show ?thesis
      using AlignUp_Some(1) [OF al] range_below_disjoint by (auto simp: fits_def)
  next
    case (Some b)
    then show ?thesis using Nil.prems by (simp add: best_fit_finish_def)
  qed
next
  case (Cons r rs)
  have seen: "\<forall>r'\<in>set (seen @ [r]). range_end r' \<le> max free_begin (range_end r)"
    using Cons.prems(3) by (auto simp: le_max_iff_disj)
  consider (skip) "range_end r \<le> free_begin" "best_fit_scan request best free_begin rs = Some o'"
    | (gap) c where "range_end r > free_begin" "range_begin r > free_begin"
        "AlignUp free_begin (fit_alignment request) = Some c"
        "best_fit_scan request (best_fit_update request best c r) (max free_begin (range_end r)) rs = Some o'"
    | (over) "range_end r > free_begin" "range_begin r \<le> free_begin"
        "best_fit_scan request best (max free_begin (range_end r)) rs = Some o'"
    using Cons.prems(1) by (auto simp: not_le not_less split: if_splits option.splits)
  then show ?case
  proof cases
    case skip
    then have "\<forall>r'\<in>set (seen @ [r]). range_end r' \<le> free_begin" using Cons.prems(3) by auto
    with Cons.IH [OF skip(2) _ this] Cons.prems(2,4) have "fits request ((seen @ [r]) @ rs) o'" by simp
    then show ?thesis by simp
  next
    case over
    then show ?thesis
      using Cons.IH [OF over(3) _ seen] Cons.prems(2,4) by simp
  next
    case gap
    have c: "aligned_to (fit_alignment request) c" "free_begin \<le> c" using AlignUp_Some [OF al gap(3)] by blast+
    have "fits request ((seen @ [r]) @ rs) c" if "c \<le> range_begin r" "fit_size request \<le> range_begin r - c"
    proof -
      note no = gap_no_overflow [OF that]
      have "bytes c (fit_size request) \<inter> range_bytes (range_begin r') (range_end r') = {}"
        if r': "r' \<in> set ((seen @ [r]) @ rs)" for r'
      proof (cases "r' \<in> set seen")
        case True
        then have "range_end r' \<le> c" using Cons.prems(3) c(2) by (meson order_trans)
        then show ?thesis by (rule range_below_disjoint)
      next
        case False
        then have "range_begin r \<le> range_begin r'" using r' Cons.prems(2) by auto
        then show ?thesis using range_above_disjoint [OF no(1)] no(2) by (meson order_trans)
      qed
      then show ?thesis using c(1) no(1) by (simp add: fits_def)
    qed
    then have "\<forall>x. fst (best_fit_update request best c r) = Some x \<longrightarrow> fits request ((seen @ [r]) @ rs) x"
      using best_fit_update_cases [of request best c r] Cons.prems(4) by auto
    then show ?thesis
      using Cons.IH [OF gap(4) _ seen] Cons.prems(2) by simp
  qed
qed

lemma FindBestFit_sound:
  "fit_alignment request \<noteq> 0 \<Longrightarrow> FindBestFit request blocked = Some o' \<Longrightarrow> fits request blocked o'"
  unfolding FindBestFit_def
  using best_fit_scan_sound [of request "(None, UINT64_MAX)" 0 "sort_ranges blocked" o' "[]"]
    sorted_sort_ranges fits_set_cong [OF set_sort_ranges] by simp

interpretation best_fit: fit_policy FindBestFit
  by unfold_locales (rule FindBestFit_sound)

end
