(* ===== verification/Placement.thy ===== *)
theory Placement
  imports Objective_Spec Fit
begin

text \<open>
  \<^verbatim>\<open>src/dsa/algorithms/placement_engine.cpp\<close>: colocation classes are merged into super buffers
  (\<open>Prepare\<close>), ordered (\<open>SortedSuperOrder\<close>) and placed one after the other between the ranges that
  block them (\<open>PlaceWithOrder\<close>); \<open>BuildPlacementSearchSpace\<close> is the conflict graph the ordering
  searches work on. What the engine guarantees is proved in \<^verbatim>\<open>Prepare_Spec\<close> and \<^verbatim>\<open>Placement_Spec\<close>.
\<close>

section \<open>Super buffers\<close>

record SuperBuffer =
  sb_root :: nat
  sb_representative :: BufferId
  sb_members :: "nat list"
  sb_size :: u64
  sb_alignment :: u64
  sb_live_intervals :: "Interval list"
  sb_allowed_pools :: "PoolId list"
  sb_pinned :: "PinnedAllocation option"
  sb_pinned_exclusive :: bool
  sb_placed_pool :: PoolId
  sb_offset :: u64

record PreparedProblem =
  supers :: "SuperBuffer list"
  id_to_super :: "BufferId \<rightharpoonup> nat"
  super_separations :: "(nat \<times> nat) set"
  prepare_errors :: "string list"
  flexible_pools :: bool

definition SuperBuffersConflict :: "DsaProblem \<Rightarrow> SuperBuffer \<Rightarrow> SuperBuffer \<Rightarrow> bool" where
  "SuperBuffersConflict problem first second =
     list_ex (\<lambda>i. list_ex (\<lambda>j. HaveTemporalConflict problem (buffers problem ! i) (buffers problem ! j))
       (sb_members second)) (sb_members first)"

text \<open>\<open>std::set_intersection\<close> on two sorted ranges.\<close>

fun set_intersection :: "'a::linorder list \<Rightarrow> 'a list \<Rightarrow> 'a list" where
  "set_intersection [] ys = []"
| "set_intersection (x # xs) [] = []"
| "set_intersection (x # xs) (y # ys) =
     (if x < y then set_intersection xs (y # ys)
      else if y < x then set_intersection (x # xs) ys
      else x # set_intersection xs ys)"

definition IntersectPools :: "PoolId list \<Rightarrow> PoolId list \<Rightarrow> PoolId list" where
  "IntersectPools first second = set_intersection (sort first) (sort second)"

section \<open>Prepare\<close>

definition new_super :: "nat \<Rightarrow> Buffer \<Rightarrow> SuperBuffer" where
  "new_super root buffer =
     \<lparr>sb_root = root, sb_representative = buf_id buffer, sb_members = [], sb_size = 0, sb_alignment = 1,
      sb_live_intervals = [], sb_allowed_pools = allowed_pools buffer, sb_pinned = None,
      sb_pinned_exclusive = False, sb_placed_pool = kDefaultPool, sb_offset = 0\<rparr>"

text \<open>One buffer joins the super buffer of its class; the merged alignment may overflow.\<close>

definition absorb_member :: "nat \<Rightarrow> Buffer \<Rightarrow> bool \<Rightarrow> SuperBuffer \<Rightarrow> SuperBuffer \<times> string list" where
  "absorb_member index buffer inserted super =
     (let merged_alignment = LeastCommonMultiple (sb_alignment super) (alignment buffer) in
      (super\<lparr>sb_members := sb_members super @ [index],
             sb_representative := min (sb_representative super) (buf_id buffer),
             sb_size := max (sb_size super) (buf_size buffer),
             sb_alignment := (case merged_alignment of None \<Rightarrow> sb_alignment super | Some a \<Rightarrow> a),
             sb_live_intervals := sb_live_intervals super @ live_intervals buffer,
             sb_allowed_pools := (if inserted then sb_allowed_pools super
                else IntersectPools (sb_allowed_pools super) (allowed_pools buffer))\<rparr>,
       err_if (merged_alignment = None) ''colocation class alignment overflows uint64''))"

fun prepare_supers ::
  "DsaProblem \<Rightarrow> nat list \<Rightarrow> nat list \<Rightarrow> (nat \<rightharpoonup> nat) \<Rightarrow> SuperBuffer list \<Rightarrow> string list \<Rightarrow>
   SuperBuffer list \<times> string list" where
  "prepare_supers problem [] sets root_to_super ss errors = (ss, errors)"
| "prepare_supers problem (i # rest) sets root_to_super ss errors =
     (let (root, sets') = ds_find sets i;
          buffer = buffers problem ! i;
          inserted = (root_to_super root = None);
          root_to_super' = um_emplace root_to_super root (length ss);
          ss' = (if inserted then ss @ [new_super root buffer] else ss);
          k = the (root_to_super' root);
          (super, errs) = absorb_member i buffer inserted (ss' ! k)
      in prepare_supers problem rest sets' root_to_super' (ss'[k := super]) (errors @ errs))"

definition super_pool_errors :: "SuperBuffer list \<Rightarrow> string list" where
  "super_pool_errors ss =
     concat (map (\<lambda>s. err_if (sb_allowed_pools s = []) ''colocation class has no common allowed pool'') ss)"

definition super_pools_flexible :: "SuperBuffer list \<Rightarrow> bool" where
  "super_pools_flexible ss = list_ex (\<lambda>s. 1 < length (sb_allowed_pools s)) ss"

definition index_members ::
  "DsaProblem \<Rightarrow> (BufferId \<rightharpoonup> nat) \<Rightarrow> nat \<times> SuperBuffer \<Rightarrow> (BufferId \<rightharpoonup> nat)" where
  "index_members problem m entry =
     (case entry of (k, s) \<Rightarrow> foldl (\<lambda>m i. m(buf_id (buffers problem ! i) \<mapsto> k)) m (sb_members s))"

definition index_supers :: "DsaProblem \<Rightarrow> SuperBuffer list \<Rightarrow> (BufferId \<rightharpoonup> nat)" where
  "index_supers problem ss = foldl (index_members problem) Map.empty (zip [0..<length ss] ss)"

definition incompatible_pin :: "PinnedAllocation \<Rightarrow> PinnedAllocation option \<Rightarrow> bool" where
  "incompatible_pin pinned old =
     (case old of None \<Rightarrow> False
      | Some q \<Rightarrow> pin_pool q \<noteq> pin_pool pinned \<or> pin_offset q \<noteq> pin_offset pinned)"

fun prepare_pins ::
  "(BufferId \<rightharpoonup> nat) \<Rightarrow> PinnedAllocation list \<Rightarrow> SuperBuffer list \<Rightarrow> string list \<Rightarrow>
   SuperBuffer list \<times> string list" where
  "prepare_pins ids [] ss errors = (ss, errors)"
| "prepare_pins ids (pinned # rest) ss errors =
     (let k = the (ids (pin_buffer pinned)); super = ss ! k in
      if incompatible_pin pinned (sb_pinned super)
      then prepare_pins ids rest ss (errors @ [''colocated buffers have incompatible pinned placements''])
      else prepare_pins ids rest
             (ss[k := super\<lparr>sb_pinned := Some pinned,
                            sb_pinned_exclusive := sb_pinned_exclusive super \<or> exclusive_for_all_time pinned\<rparr>])
             errors)"

fun prepare_separations ::
  "(BufferId \<rightharpoonup> nat) \<Rightarrow> Separation list \<Rightarrow> (nat \<times> nat) set \<Rightarrow> string list \<Rightarrow>
   (nat \<times> nat) set \<times> string list" where
  "prepare_separations ids [] seps errors = (seps, errors)"
| "prepare_separations ids (c # rest) seps errors =
     (let first = the (ids (sep_first c)); second = the (ids (sep_second c)) in
      if first = second
      then prepare_separations ids rest seps (errors @ [''separation lies within a colocation class''])
      else prepare_separations ids rest (insert (ordered_pair first second) seps) errors)"

text \<open>
  \<open>at\<close> throws when the key is missing; after a successful \<open>ValidateProblem\<close> every key looked up below
  is present, so \<open>the\<close> is applied to a value.
\<close>

definition Prepare :: "DsaProblem \<Rightarrow> PreparedProblem" where
  "Prepare problem =
     (let errors = ValidateProblem problem in
      if errors \<noteq> []
      then \<lparr>supers = [], id_to_super = Map.empty, super_separations = {}, prepare_errors = errors,
            flexible_pools = False\<rparr>
      else
        let id_to_index = BufferIndices problem;
            sets = foldl (\<lambda>parent c. ds_union parent (the (id_to_index (col_first c)))
                                                      (the (id_to_index (col_second c))))
                     (ds_init (length (buffers problem))) (colocations problem);
            (ss, errors1) = prepare_supers problem [0..<length (buffers problem)] sets Map.empty [] [];
            errors2 = errors1 @ super_pool_errors ss;
            ids = index_supers problem ss;
            (ss', errors3) = prepare_pins ids (pinned_allocations problem) ss errors2;
            (seps, errors4) = prepare_separations ids (separations problem) {} errors3
        in \<lparr>supers = ss', id_to_super = ids, super_separations = seps, prepare_errors = errors4,
            flexible_pools = super_pools_flexible ss\<rparr>)"

definition Separated :: "PreparedProblem \<Rightarrow> nat \<Rightarrow> nat \<Rightarrow> bool" where
  "Separated prepared first second = (ordered_pair first second \<in> super_separations prepared)"

section \<open>The order of placement\<close>

datatype PlacementStrategy = kFirstFit | kXlaSpatialBestFit

definition LifetimeHull :: "SuperBuffer \<Rightarrow> int \<times> int" where
  "LifetimeHull super =
     foldl (\<lambda>(lo, hi) i. (min lo (lower i), max hi (upper i))) (INT64_MAX, INT64_MIN)
       (sb_live_intervals super)"

definition LifetimeDuration :: "SuperBuffer \<Rightarrow> u64" where
  "LifetimeDuration super =
     (case LifetimeHull super of (lo, hi) \<Rightarrow> (of_int hi :: u64) - of_int lo)"

text \<open>\<open>std::min_element\<close> on the lower bounds; a live interval exists in every prepared class.\<close>

definition first_lower :: "SuperBuffer \<Rightarrow> int" where
  "first_lower super = Min (set (map lower (sb_live_intervals super)))"

definition priority_rank :: "PreparedProblem \<Rightarrow> BufferId list \<Rightarrow> (nat \<rightharpoonup> nat)" where
  "priority_rank prepared priority =
     foldl (\<lambda>m (i, b). case id_to_super prepared b of None \<Rightarrow> m | Some k \<Rightarrow> um_emplace m k i)
       Map.empty (zip [0..<length priority] priority)"

definition default_before :: "PlacementStrategy \<Rightarrow> SuperBuffer \<Rightarrow> SuperBuffer \<Rightarrow> bool" where
  "default_before strategy first second =
     (if sb_size first \<noteq> sb_size second then sb_size first > sb_size second
      else if strategy = kXlaSpatialBestFit
      then (if LifetimeDuration first \<noteq> LifetimeDuration second
            then LifetimeDuration first > LifetimeDuration second
            else sb_representative first < sb_representative second)
      else if first_lower first \<noteq> first_lower second then first_lower first < first_lower second
      else sb_representative first < sb_representative second)"

definition super_before ::
  "SuperBuffer list \<Rightarrow> (nat \<rightharpoonup> nat) \<Rightarrow> PlacementStrategy \<Rightarrow> nat \<Rightarrow> nat \<Rightarrow> bool" where
  "super_before ss rank strategy first second =
     (let default = default_before strategy (ss ! first) (ss ! second) in
      case (rank first, rank second) of
        (None, None) \<Rightarrow> default
      | (None, Some _) \<Rightarrow> False
      | (Some _, None) \<Rightarrow> True
      | (Some i, Some j) \<Rightarrow> if i \<noteq> j then i < j else default)"

definition SortedSuperOrder :: "PreparedProblem \<Rightarrow> BufferId list \<Rightarrow> PlacementStrategy \<Rightarrow> nat list" where
  "SortedSuperOrder prepared priority strategy =
     sort_by (super_before (supers prepared) (priority_rank prepared priority) strategy)
       [0..<length (supers prepared)]"

definition DefaultPlacementOrder :: "DsaProblem \<Rightarrow> BufferId list" where
  "DefaultPlacementOrder problem =
     (let prepared = Prepare problem in
      if prepare_errors prepared \<noteq> [] \<or> flexible_pools prepared then []
      else map (\<lambda>k. sb_representative (supers prepared ! k)) (SortedSuperOrder prepared [] kFirstFit))"

section \<open>The search space of the ordering solvers\<close>

record PlacementSearchNode =
  node_representative :: BufferId
  node_name :: string
  node_members :: "BufferId list"
  node_size :: u64
  node_alignment :: u64
  node_pool :: PoolId
  node_pinned :: bool
  node_conflicts :: "BufferId list"

record PlacementSearchSpace =
  nodes :: "PlacementSearchNode list"
  space_errors :: "string list"
  space_flexible_pools :: bool

definition super_pool :: "SuperBuffer \<Rightarrow> PoolId" where
  "super_pool super = (case sb_pinned super of Some pinned \<Rightarrow> pin_pool pinned
                       | None \<Rightarrow> hd (sb_allowed_pools super))"

definition search_node :: "DsaProblem \<Rightarrow> SuperBuffer \<Rightarrow> PlacementSearchNode" where
  "search_node problem super =
     \<lparr>node_representative = sb_representative super,
      node_name = (case FindBuffer problem (sb_representative super) of
                     None \<Rightarrow> [] | Some b \<Rightarrow> buf_name b),
      node_members = map (\<lambda>i. buf_id (buffers problem ! i)) (sb_members super),
      node_size = sb_size super, node_alignment = sb_alignment super, node_pool = super_pool super,
      node_pinned = (sb_pinned super \<noteq> None), node_conflicts = []\<rparr>"

definition node_blocks :: "DsaProblem \<Rightarrow> PreparedProblem \<Rightarrow> nat \<Rightarrow> nat \<Rightarrow> bool" where
  "node_blocks problem prepared first second =
     (let a = supers prepared ! first; b = supers prepared ! second in
      SuperBuffersConflict problem a b \<or> Separated prepared first second \<or>
      sb_pinned_exclusive a \<or> sb_pinned_exclusive b)"

definition add_conflict :: "BufferId \<Rightarrow> PlacementSearchNode \<Rightarrow> PlacementSearchNode" where
  "add_conflict b node = node\<lparr>node_conflicts := node_conflicts node @ [b]\<rparr>"

definition link_nodes ::
  "DsaProblem \<Rightarrow> PreparedProblem \<Rightarrow> PlacementSearchNode list \<Rightarrow> nat \<times> nat \<Rightarrow> PlacementSearchNode list" where
  "link_nodes problem prepared ns pair =
     (case pair of (i, j) \<Rightarrow>
        if node_pool (ns ! i) \<noteq> node_pool (ns ! j) then ns
        else if \<not> node_blocks problem prepared i j then ns
        else (let ns' = ns[i := add_conflict (sb_representative (supers prepared ! j)) (ns ! i)]
              in ns'[j := add_conflict (sb_representative (supers prepared ! i)) (ns' ! j)]))"

definition BuildPlacementSearchSpace :: "DsaProblem \<Rightarrow> PlacementSearchSpace" where
  "BuildPlacementSearchSpace problem =
     (let prepared = Prepare problem in
      if prepare_errors prepared \<noteq> [] \<or> flexible_pools prepared
      then \<lparr>nodes = [], space_errors = prepare_errors prepared,
            space_flexible_pools = flexible_pools prepared\<rparr>
      else \<lparr>nodes = foldl (link_nodes problem prepared) (map (search_node problem) (supers prepared))
                     (index_pairs (length (supers prepared))),
            space_errors = prepare_errors prepared, space_flexible_pools = flexible_pools prepared\<rparr>)"

section \<open>PlaceWithOrder\<close>

definition find_fit :: "PlacementStrategy \<Rightarrow> FitRequest \<Rightarrow> AddressRange list \<Rightarrow> u64 option" where
  "find_fit strategy = (if strategy = kXlaSpatialBestFit then FindBestFit else FindFirstFit)"

text \<open>The state of the placement loop: the super buffers, the placed indices, the solution so far.\<close>

record PlaceState =
  ps_supers :: "SuperBuffer list"
  ps_placed :: "nat list"
  ps_solution :: DsaSolution

definition blocked_ranges :: "DsaProblem \<Rightarrow> PreparedProblem \<Rightarrow> PlaceState \<Rightarrow> nat \<Rightarrow> Pool \<Rightarrow> AddressRange list" where
  "blocked_ranges problem prepared st index pool =
     (let current = ps_supers st ! index in
      reserved_ranges pool @
      concat (map (\<lambda>other_index.
          let other = ps_supers st ! other_index in
          if sb_placed_pool other \<noteq> super_pool current then []
          else if SuperBuffersConflict problem current other \<or> Separated prepared index other_index \<or>
                  sb_pinned_exclusive current \<or> sb_pinned_exclusive other
          then [\<lparr>range_begin = sb_offset other, range_end = sb_offset other + sb_size other\<rparr>]
          else []) (ps_placed st)))"

definition choose_offset ::
  "DsaProblem \<Rightarrow> PreparedProblem \<Rightarrow> PlacementStrategy \<Rightarrow> PlaceState \<Rightarrow> nat \<Rightarrow> Pool \<Rightarrow>
   (SolveStatus \<times> string) + u64" where
  "choose_offset problem prepared strategy st index pool =
     (let current = ps_supers st ! index in
      case sb_pinned current of
        Some pinned \<Rightarrow>
          if AddOverflows (pin_offset pinned) (sb_size current)
          then Inl (kInvalidProblem, ''pinned colocation class address range overflows uint64'')
          else Inr (pin_offset pinned)
      | None \<Rightarrow>
          (case find_fit strategy \<lparr>fit_size = sb_size current, fit_alignment = sb_alignment current\<rparr>
                  (blocked_ranges problem prepared st index pool) of
             None \<Rightarrow> Inl (kBestEffortNoFit, ''address arithmetic overflow while placing buffer class'')
           | Some offset \<Rightarrow> Inr offset))"

definition record_placement ::
  "DsaProblem \<Rightarrow> Placement \<Rightarrow> nat list \<Rightarrow> (BufferId, Placement) omap \<Rightarrow> (BufferId, Placement) omap" where
  "record_placement problem placement members m =
     foldl (\<lambda>m i. om_put (buf_id (buffers problem ! i)) placement m) m members"

definition place_super ::
  "DsaProblem \<Rightarrow> PreparedProblem \<Rightarrow> PlacementStrategy \<Rightarrow> PlaceState \<Rightarrow> nat \<Rightarrow>
   (SolveStatus \<times> string) + PlaceState" where
  "place_super problem prepared strategy st index =
     (let current = ps_supers st ! index; pool_id = super_pool current in
      case FindPool problem pool_id of
        None \<Rightarrow> Inl (kInvalidProblem, ''placement references an unknown pool'')
      | Some pool \<Rightarrow>
          (case choose_offset problem prepared strategy st index pool of
             Inl e \<Rightarrow> Inl e
           | Inr offset \<Rightarrow>
               Inr \<lparr>ps_supers = (ps_supers st)[index :=
                      current\<lparr>sb_placed_pool := pool_id, sb_offset := offset\<rparr>],
                    ps_placed = ps_placed st @ [index],
                    ps_solution = \<lparr>placements =
                      record_placement problem \<lparr>pl_pool = pool_id, pl_offset = offset\<rparr>
                        (sb_members current) (placements (ps_solution st))\<rparr>\<rparr>))"

fun place_supers ::
  "DsaProblem \<Rightarrow> PreparedProblem \<Rightarrow> PlacementStrategy \<Rightarrow> PlaceState \<Rightarrow> nat list \<Rightarrow>
   (SolveStatus \<times> string) + PlaceState" where
  "place_supers problem prepared strategy st [] = Inr st"
| "place_supers problem prepared strategy st (index # rest) =
     (case place_super problem prepared strategy st index of
        Inl e \<Rightarrow> Inl e
      | Inr st' \<Rightarrow> place_supers problem prepared strategy st' rest)"

definition pinned_first :: "SuperBuffer list \<Rightarrow> nat list \<Rightarrow> nat list" where
  "pinned_first ss order =
     filter (\<lambda>k. sb_pinned (ss ! k) \<noteq> None) order @ filter (\<lambda>k. sb_pinned (ss ! k) = None) order"

definition over_capacity_message :: "ObjectiveValue \<Rightarrow> Pool \<Rightarrow> string list" where
  "over_capacity_message obj pool =
     (case (capacity pool, map_of (peak_by_pool obj) (pool_id pool)) of
        (Some cap, Some peak) \<Rightarrow>
          err_if (peak > cap)
            (''pool '' @ to_string (pool_id pool) @ '' peak '' @ to_string peak @
             '' exceeds capacity '' @ to_string cap)
      | _ \<Rightarrow> [])"

definition finish_placement :: "DsaProblem \<Rightarrow> DsaSolution \<Rightarrow> DsaResult" where
  "finish_placement problem sol =
     (let structural_errors = ValidateSolution (without_capacities problem) sol;
          obj = EvaluateObjective problem sol
      in if structural_errors \<noteq> []
         then DsaResult_default\<lparr>status := kInfeasibleProven, solution := Some sol, res_objective := obj,
                diagnostics := structural_errors\<rparr>
         else let messages = concat (map (over_capacity_message obj) (pools problem))
              in DsaResult_default\<lparr>status := (if messages \<noteq> [] then kBestEffortNoFit else kFeasible),
                   solution := Some sol, res_objective := obj, diagnostics := messages\<rparr>)"

definition PlaceWithOrder :: "DsaProblem \<Rightarrow> BufferId list \<Rightarrow> PlacementStrategy \<Rightarrow> DsaResult" where
  "PlaceWithOrder problem priority strategy =
     (let prepared = Prepare problem in
      if prepare_errors prepared \<noteq> []
      then DsaResult_default\<lparr>status := kInvalidProblem, diagnostics := prepare_errors prepared\<rparr>
      else if flexible_pools prepared
      then DsaResult_default\<lparr>status := kUnsupported,
             diagnostics := [''first-fit does not support flexible pool assignment'']\<rparr>
      else let order = pinned_first (supers prepared) (SortedSuperOrder prepared priority strategy)
           in case place_supers problem prepared strategy
                     \<lparr>ps_supers = supers prepared, ps_placed = [], ps_solution = \<lparr>placements = []\<rparr>\<rparr> order of
                Inl (st, message) \<Rightarrow> DsaResult_default\<lparr>status := st, diagnostics := [message]\<rparr>
              | Inr st \<Rightarrow> finish_placement problem (ps_solution st))"

end
