(* ===== verification/Prepare_Spec.thy ===== *)
theory Prepare_Spec
  imports Placement
begin

text \<open>
  What \<open>Prepare\<close> builds: when it reports no error, the super buffers are exactly the colocation
  classes, with the merged size, alignment, lifetimes and pools of their members, the pins of the
  members agree, and the separations are carried over to the classes.
\<close>

section \<open>Intersections\<close>

lemma set_set_intersection:
  "sorted xs \<Longrightarrow> sorted ys \<Longrightarrow> set (set_intersection xs ys) = set xs \<inter> set ys"
  by (induction xs ys rule: set_intersection.induct) (auto simp: not_less dest: order_antisym)

lemma set_IntersectPools [simp]: "set (IntersectPools xs ys) = set xs \<inter> set ys"
  by (simp add: IntersectPools_def set_set_intersection)

section \<open>Classes\<close>

definition member_ids :: "DsaProblem \<Rightarrow> SuperBuffer \<Rightarrow> BufferId set" where
  "member_ids p s = (\<lambda>i. buf_id (buffers p ! i)) ` set (sb_members s)"

text \<open>The class of a root among the buffers seen so far, without its pins.\<close>

definition super_of :: "DsaProblem \<Rightarrow> nat list \<Rightarrow> SuperBuffer \<Rightarrow> bool" where
  "super_of p seen s \<longleftrightarrow>
     sb_members s = filter (\<lambda>i. class_root p i = sb_root s) seen \<and> sb_members s \<noteq> [] \<and>
     sb_representative s = Min (member_ids p s) \<and>
     sb_size s = Max ((\<lambda>i. buf_size (buffers p ! i)) ` set (sb_members s)) \<and>
     sb_live_intervals s = concat (map (\<lambda>i. live_intervals (buffers p ! i)) (sb_members s)) \<and>
     set (sb_allowed_pools s) = (\<Inter>i\<in>set (sb_members s). set (allowed_pools (buffers p ! i)))"

definition merged_alignment :: "DsaProblem \<Rightarrow> SuperBuffer \<Rightarrow> bool" where
  "merged_alignment p s \<longleftrightarrow>
     unat (sb_alignment s) = Lcm ((\<lambda>i. unat (alignment (buffers p ! i))) ` set (sb_members s))"

definition unpinned :: "SuperBuffer \<Rightarrow> bool" where
  "unpinned s \<longleftrightarrow> sb_pinned s = None \<and> \<not> sb_pinned_exclusive s"

definition supers_inv ::
  "DsaProblem \<Rightarrow> nat list \<Rightarrow> (nat \<rightharpoonup> nat) \<Rightarrow> SuperBuffer list \<Rightarrow> string list \<Rightarrow> bool" where
  "supers_inv p seen r2s ss errors \<longleftrightarrow>
     (\<forall>k<length ss. super_of p seen (ss ! k) \<and> unpinned (ss ! k) \<and>
        (errors = [] \<longrightarrow> merged_alignment p (ss ! k))) \<and>
     (\<forall>r k. r2s r = Some k \<longleftrightarrow> k < length ss \<and> sb_root (ss ! k) = r) \<and>
     (\<forall>i\<in>set seen. r2s (class_root p i) \<noteq> None)"

lemma absorb_member_simps:
  "sb_root (fst (absorb_member i b ins s)) = sb_root s"
  "sb_members (fst (absorb_member i b ins s)) = sb_members s @ [i]"
  "sb_representative (fst (absorb_member i b ins s)) = min (sb_representative s) (buf_id b)"
  "sb_size (fst (absorb_member i b ins s)) = max (sb_size s) (buf_size b)"
  "sb_live_intervals (fst (absorb_member i b ins s)) = sb_live_intervals s @ live_intervals b"
  "unpinned (fst (absorb_member i b ins s)) = unpinned s"
  "set (sb_allowed_pools (fst (absorb_member i b ins s))) =
     (if ins then set (sb_allowed_pools s) else set (sb_allowed_pools s) \<inter> set (allowed_pools b))"
  "sb_alignment (fst (absorb_member i b ins s)) =
     (case LeastCommonMultiple (sb_alignment s) (alignment b) of None \<Rightarrow> sb_alignment s | Some a \<Rightarrow> a)"
  "snd (absorb_member i b ins s) = [] \<longleftrightarrow> LeastCommonMultiple (sb_alignment s) (alignment b) \<noteq> None"
  by (auto simp: absorb_member_def Let_def unpinned_def)

lemma merged_alignment_nonzero:
  assumes wf: "well_formed p" and "merged_alignment p s" "\<forall>i\<in>set (sb_members s). i < length (buffers p)"
  shows "sb_alignment s \<noteq> 0"
proof -
  have "0 \<notin> (\<lambda>i. unat (alignment (buffers p ! i))) ` set (sb_members s)"
  proof
    assume "0 \<in> (\<lambda>i. unat (alignment (buffers p ! i))) ` set (sb_members s)"
    then obtain i where i: "i \<in> set (sb_members s)" "unat (alignment (buffers p ! i)) = 0" by auto
    then have "buffers p ! i \<in> set (buffers p)" using assms(3) by simp
    from well_formedD(4) [OF wf this] show False using i(2) by (simp add: wf_buffer_def word_unat_eq_iff)
  qed
  then have "Lcm ((\<lambda>i. unat (alignment (buffers p ! i))) ` set (sb_members s)) \<noteq> 0"
    by (subst Lcm_0_iff_nat) auto
  then show ?thesis using assms(2) by (auto simp: merged_alignment_def)
qed

lemma absorb_alignment:
  assumes "sb_alignment s \<noteq> 0" "alignment b \<noteq> 0" "snd (absorb_member i b ins s) = []"
  shows "unat (sb_alignment (fst (absorb_member i b ins s))) = lcm (unat (sb_alignment s)) (unat (alignment b))"
proof -
  let ?l = "lcm (unat (sb_alignment s)) (unat (alignment b))"
  have "LeastCommonMultiple (sb_alignment s) (alignment b) \<noteq> None"
    using assms(3) by (simp add: absorb_member_simps)
  then have lt: "?l < 18446744073709551616"
    and eq: "LeastCommonMultiple (sb_alignment s) (alignment b) = Some (of_nat ?l)"
    unfolding LeastCommonMultiple_cases [OF assms(1,2)] by (auto split: if_splits)
  have "unat (of_nat ?l :: u64) = ?l" using lt by (simp only: unat_of_nat) simp
  then show ?thesis by (simp add: absorb_member_simps eq)
qed

lemma super_of_other:
  assumes "super_of p seen s" "class_root p i \<noteq> sb_root s"
  shows "super_of p (seen @ [i]) s"
proof -
  have "filter (\<lambda>j. class_root p j = sb_root s) (seen @ [i]) = filter (\<lambda>j. class_root p j = sb_root s) seen"
    using assms(2) by simp
  then show ?thesis using assms(1) unfolding super_of_def by metis
qed

lemma super_of_new:
  assumes "\<forall>j\<in>set seen. class_root p j \<noteq> class_root p i"
  shows "super_of p (seen @ [i]) (fst (absorb_member i (buffers p ! i) True
      (new_super (class_root p i) (buffers p ! i))))"
proof -
  have "filter (\<lambda>j. class_root p j = class_root p i) seen = []" using assms by (simp add: filter_empty_conv)
  then show ?thesis
    unfolding super_of_def member_ids_def absorb_member_simps
    by (simp add: new_super_def max_def)
qed

lemma super_of_absorb:
  assumes "super_of p seen s" "class_root p i = sb_root s"
  shows "super_of p (seen @ [i]) (fst (absorb_member i (buffers p ! i) False s))"
proof -
  let ?f = "\<lambda>i. buf_id (buffers p ! i)" and ?g = "\<lambda>i. buf_size (buffers p ! i)" and ?M = "set (sb_members s)"
  have s: "sb_members s = filter (\<lambda>i. class_root p i = sb_root s) seen" "sb_members s \<noteq> []"
    "sb_representative s = Min (?f ` ?M)" "sb_size s = Max (?g ` ?M)"
    "sb_live_intervals s = concat (map (\<lambda>i. live_intervals (buffers p ! i)) (sb_members s))"
    "set (sb_allowed_pools s) = (\<Inter>i\<in>?M. set (allowed_pools (buffers p ! i)))"
    using assms(1) unfolding super_of_def member_ids_def by blast+
  have ne: "?f ` ?M \<noteq> {}" "?g ` ?M \<noteq> {}" using s(2) by simp_all
  let ?s = "fst (absorb_member i (buffers p ! i) False s)"
  have M: "sb_members ?s = sb_members s @ [i]" by (rule absorb_member_simps)
  have "sb_members ?s = filter (\<lambda>i. class_root p i = sb_root ?s) (seen @ [i])"
    unfolding M absorb_member_simps(1) using s(1) assms(2) by simp
  moreover have "sb_representative ?s = Min (?f ` set (sb_members ?s))"
    unfolding M absorb_member_simps(3) s(3) using ne(1) by (simp add: min.commute)
  moreover have "sb_size ?s = Max (?g ` set (sb_members ?s))"
    unfolding M absorb_member_simps(4) s(4) using ne(2) by (simp add: max.commute)
  moreover have "sb_live_intervals ?s = concat (map (\<lambda>i. live_intervals (buffers p ! i)) (sb_members ?s))"
    unfolding M absorb_member_simps(5) s(5) by simp
  moreover have "set (sb_allowed_pools ?s) = (\<Inter>i\<in>set (sb_members ?s). set (allowed_pools (buffers p ! i)))"
    unfolding M absorb_member_simps(7) using s(6) by auto
  moreover have "sb_members ?s \<noteq> []" unfolding M by simp
  ultimately show ?thesis unfolding super_of_def member_ids_def by (intro conjI)
qed

lemma supers_invD:
  assumes "supers_inv p seen r2s ss errors"
  shows "j < length ss \<Longrightarrow> super_of p seen (ss ! j)" "j < length ss \<Longrightarrow> unpinned (ss ! j)"
    "j < length ss \<Longrightarrow> errors = [] \<Longrightarrow> merged_alignment p (ss ! j)"
    "r2s r = Some j \<longleftrightarrow> j < length ss \<and> sb_root (ss ! j) = r"
    "i \<in> set seen \<Longrightarrow> r2s (class_root p i) \<noteq> None"
  using assms unfolding supers_inv_def by blast+

lemma supers_invI:
  assumes "\<And>j. j < length ss \<Longrightarrow> super_of p seen (ss ! j) \<and> unpinned (ss ! j) \<and>
      (errors = [] \<longrightarrow> merged_alignment p (ss ! j))"
    and "\<And>r j. r2s r = Some j \<longleftrightarrow> j < length ss \<and> sb_root (ss ! j) = r"
    and "\<And>i. i \<in> set seen \<Longrightarrow> r2s (class_root p i) \<noteq> None"
  shows "supers_inv p seen r2s ss errors"
  using assms unfolding supers_inv_def by blast

lemma supers_inv_new:
  assumes inv: "supers_inv p seen r2s ss errors" and none: "r2s (class_root p i) = None"
    and bi: "alignment (buffers p ! i) \<noteq> 0"
    and res: "res = absorb_member i (buffers p ! i) True (new_super (class_root p i) (buffers p ! i))"
  shows "supers_inv p (seen @ [i]) (r2s(class_root p i \<mapsto> length ss)) (ss @ [fst res]) (errors @ snd res)"
proof (rule supers_invI)
  let ?new = "new_super (class_root p i) (buffers p ! i)"
  have root: "sb_root (fst res) = class_root p i" by (simp add: res absorb_member_simps new_super_def)
  fix j assume j: "j < length (ss @ [fst res])"
  show "super_of p (seen @ [i]) ((ss @ [fst res]) ! j) \<and> unpinned ((ss @ [fst res]) ! j) \<and>
      (errors @ snd res = [] \<longrightarrow> merged_alignment p ((ss @ [fst res]) ! j))"
  proof (cases "j < length ss")
    case True
    then have "class_root p i \<noteq> sb_root (ss ! j)"
      using supers_invD(4) [OF inv, of "class_root p i" j] none by auto
    from super_of_other [OF supers_invD(1) [OF inv True] this] show ?thesis
      using supers_invD(2,3) [OF inv True] True by (simp add: nth_append)
  next
    case False
    then have j: "(ss @ [fst res]) ! j = fst res" using j by (simp add: nth_append)
    have "\<forall>j\<in>set seen. class_root p j \<noteq> class_root p i" using supers_invD(5) [OF inv] none by metis
    from super_of_new [OF this] have so: "super_of p (seen @ [i]) (fst res)" by (simp only: res)
    have one: "sb_alignment ?new = 1" "sb_members ?new = []" "unpinned ?new"
      by (simp_all add: new_super_def unpinned_def)
    have "merged_alignment p (fst res)" if "snd res = []"
      using absorb_alignment [of ?new "buffers p ! i" i True] that bi
      unfolding merged_alignment_def res absorb_member_simps(2) by (simp add: one)
    then show ?thesis unfolding j using so one(3) by (simp add: res absorb_member_simps(6))
  qed
next
  fix r j
  have root: "sb_root (fst res) = class_root p i" by (simp add: res absorb_member_simps new_super_def)
  show "(r2s(class_root p i \<mapsto> length ss)) r = Some j \<longleftrightarrow>
      j < length (ss @ [fst res]) \<and> sb_root ((ss @ [fst res]) ! j) = r"
  proof (cases "r = class_root p i")
    case True
    have "sb_root (ss ! j) \<noteq> r" if "j < length ss" using supers_invD(4) [OF inv, of r j] none that True by auto
    then show ?thesis using True root by (auto simp: nth_append less_Suc_eq)
  next
    case False
    then show ?thesis
      using supers_invD(4) [OF inv, of r j] root by (auto simp: nth_append less_Suc_eq)
  qed
next
  fix j assume "j \<in> set (seen @ [i])"
  then show "(r2s(class_root p i \<mapsto> length ss)) (class_root p j) \<noteq> None"
    using supers_invD(5) [OF inv, of j] by auto
qed

lemma supers_inv_absorb:
  assumes wf: "well_formed p" and inv: "supers_inv p seen r2s ss errors"
    and seen: "\<forall>j\<in>set seen. j < length (buffers p)" and k: "r2s (class_root p i) = Some k"
    and bi: "alignment (buffers p ! i) \<noteq> 0"
    and res: "res = absorb_member i (buffers p ! i) False (ss ! k)"
  shows "supers_inv p (seen @ [i]) r2s (ss[k := fst res]) (errors @ snd res)"
proof (rule supers_invI)
  have kss: "k < length ss" "sb_root (ss ! k) = class_root p i" using supers_invD(4) [OF inv] k by auto
  fix j assume j: "j < length (ss[k := fst res])"
  show "super_of p (seen @ [i]) (ss[k := fst res] ! j) \<and> unpinned (ss[k := fst res] ! j) \<and>
      (errors @ snd res = [] \<longrightarrow> merged_alignment p (ss[k := fst res] ! j))"
  proof (cases "j = k")
    case False
    then have jss: "j < length ss" using j by simp
    have "class_root p i \<noteq> sb_root (ss ! j)"
      using supers_invD(4) [OF inv, of "class_root p i" j] k jss False by auto
    from super_of_other [OF supers_invD(1) [OF inv jss] this] show ?thesis
      using supers_invD(2,3) [OF inv jss] False by simp
  next
    case True
    have so: "super_of p (seen @ [i]) (fst res)"
      unfolding res by (rule super_of_absorb [OF supers_invD(1) [OF inv kss(1)]]) (simp add: kss)
    have "merged_alignment p (fst res)" if e: "errors @ snd res = []"
    proof -
      have m: "merged_alignment p (ss ! k)" using supers_invD(3) [OF inv kss(1)] e by simp
      have "\<forall>i\<in>set (sb_members (ss ! k)). i < length (buffers p)"
        using supers_invD(1) [OF inv kss(1)] seen by (simp add: super_of_def)
      from merged_alignment_nonzero [OF wf m this] have "sb_alignment (ss ! k) \<noteq> 0" .
      from absorb_alignment [OF this bi, of i False] show ?thesis
        using e m unfolding merged_alignment_def res absorb_member_simps(2)
        by (simp add: lcm.commute)
    qed
    then show ?thesis
      using True kss(1) so supers_invD(2) [OF inv kss(1)] by (simp add: res absorb_member_simps(6))
  qed
next
  have kss: "k < length ss" "sb_root (ss ! k) = class_root p i" using supers_invD(4) [OF inv] k by auto
  fix r j
  have "sb_root (ss[k := fst res] ! j) = sb_root (ss ! j)" if "j < length ss"
    using that by (cases "j = k") (simp_all add: res absorb_member_simps(1))
  then show "r2s r = Some j \<longleftrightarrow> j < length (ss[k := fst res]) \<and> sb_root (ss[k := fst res] ! j) = r"
    using supers_invD(4) [OF inv, of r j] by auto
next
  fix j assume "j \<in> set (seen @ [i])"
  then show "r2s (class_root p j) \<noteq> None" using supers_invD(5) [OF inv, of j] k by auto
qed

lemma prepare_supers_spec:
  assumes wf: "well_formed p"
    and "supers_inv p seen r2s ss errors" "ds_of (length (buffers p)) (class_root p) sets"
    and "\<forall>j\<in>set (seen @ rest). j < length (buffers p)"
    and "prepare_supers p rest sets r2s ss errors = (ss', errors')"
  shows "\<exists>r2s'. supers_inv p (seen @ rest) r2s' ss' errors'"
  using assms(2-5)
proof (induction rest arbitrary: seen r2s ss errors sets)
  case Nil
  then show ?case by auto
next
  case (Cons i rest)
  obtain sets' where f: "ds_find sets i = (class_root p i, sets')"
    "ds_of (length (buffers p)) (class_root p) sets'"
    using ds_of_find [OF Cons.prems(2), of i] Cons.prems(3) by auto
  have bi: "alignment (buffers p ! i) \<noteq> 0"
    using well_formedD(4) [OF wf, of "buffers p ! i"] Cons.prems(3) by (simp add: wf_buffer_def)
  show ?case
  proof (cases "r2s (class_root p i)")
    case None
    let ?res = "absorb_member i (buffers p ! i) True (new_super (class_root p i) (buffers p ! i))"
    have "prepare_supers p rest sets' (r2s(class_root p i \<mapsto> length ss)) (ss @ [fst ?res])
        (errors @ snd ?res) = (ss', errors')"
      using Cons.prems(4) None by (simp add: f(1) split_beta um_emplace_def Let_def)
    from Cons.IH [OF supers_inv_new [OF Cons.prems(1) None bi refl] f(2) _ this]
    show ?thesis using Cons.prems(3) by simp
  next
    case (Some k)
    let ?res = "absorb_member i (buffers p ! i) False (ss ! k)"
    have "prepare_supers p rest sets' r2s (ss[k := fst ?res]) (errors @ snd ?res) = (ss', errors')"
      using Cons.prems(4) Some by (simp add: f(1) split_beta um_emplace_def Let_def)
    from Cons.IH [OF supers_inv_absorb [OF wf Cons.prems(1) _ Some bi refl] f(2) _ this]
    show ?thesis using Cons.prems(3) by simp
  qed
qed

section \<open>The index of the classes\<close>

lemma foldl_map_update:
  "foldl (\<lambda>m i. m(f i \<mapsto> k)) m is = (\<lambda>a. if a \<in> f ` set is then Some k else m a)"
  by (induction "is" arbitrary: m) (auto simp: fun_eq_iff)

lemma index_supers_Some:
  assumes "\<And>i j. i < length ss \<Longrightarrow> j < length ss \<Longrightarrow> i \<noteq> j \<Longrightarrow>
      member_ids p (ss ! i) \<inter> member_ids p (ss ! j) = {}"
  shows "index_supers p ss a = Some k \<longleftrightarrow> k < length ss \<and> a \<in> member_ids p (ss ! k)"
  using assms
proof (induction ss arbitrary: k rule: rev_induct)
  case Nil
  then show ?case by (simp add: index_supers_def)
next
  case (snoc s ss)
  have IH: "index_supers p ss a = Some k \<longleftrightarrow> k < length ss \<and> a \<in> member_ids p (ss ! k)" for k
  proof (rule snoc.IH)
    fix i j assume "i < length ss" "j < length ss" "i \<noteq> j"
    then show "member_ids p (ss ! i) \<inter> member_ids p (ss ! j) = {}"
      using snoc.prems [of i j] by (simp add: nth_append)
  qed
  have step: "index_supers p (ss @ [s]) a =
      (if a \<in> member_ids p s then Some (length ss) else index_supers p ss a)"
    by (simp add: index_supers_def index_members_def foldl_map_update member_ids_def)
  have "a \<notin> member_ids p (ss ! i)" if "i < length ss" "a \<in> member_ids p s" for i
    using snoc.prems [of i "length ss"] that by (auto simp: nth_append)
  then show ?case using IH by (auto simp: step nth_append less_Suc_eq)
qed

section \<open>Pins\<close>

definition pinned_as :: "PinnedAllocation \<Rightarrow> PinnedAllocation \<Rightarrow> bool" where
  "pinned_as a q \<longleftrightarrow> pin_pool q = pin_pool a \<and> pin_offset q = pin_offset a"

text \<open>The super buffer after the pins \<open>done\<close> of the classes were merged into it.\<close>

definition pins_inv ::
  "(BufferId \<rightharpoonup> nat) \<Rightarrow> SuperBuffer list \<Rightarrow> PinnedAllocation list \<Rightarrow> SuperBuffer list \<Rightarrow> bool" where
  "pins_inv ids ss0 as ss \<longleftrightarrow>
     length ss = length ss0 \<and>
     (\<forall>k<length ss. \<exists>q x. ss ! k = (ss0 ! k)\<lparr>sb_pinned := q, sb_pinned_exclusive := x\<rparr>) \<and>
     (\<forall>k<length ss. (\<forall>a\<in>set as. ids (pin_buffer a) = Some k \<longrightarrow>
          (\<exists>q. sb_pinned (ss ! k) = Some q \<and> pinned_as a q)) \<and>
        (\<forall>q. sb_pinned (ss ! k) = Some q \<longrightarrow> q \<in> set as \<and> ids (pin_buffer q) = Some k) \<and>
        (sb_pinned_exclusive (ss ! k) \<longleftrightarrow>
           (\<exists>a\<in>set as. ids (pin_buffer a) = Some k \<and> exclusive_for_all_time a)))"

lemma pins_inv_step:
  assumes "pins_inv ids ss0 as ss" "ids (pin_buffer a) = Some k" "k < length ss"
    and "\<not> incompatible_pin a (sb_pinned (ss ! k))"
  shows "pins_inv ids ss0 (as @ [a])
    (ss[k := (ss ! k)\<lparr>sb_pinned := Some a,
        sb_pinned_exclusive := sb_pinned_exclusive (ss ! k) \<or> exclusive_for_all_time a\<rparr>])"
    (is "pins_inv _ _ _ (ss[k := ?s])")
proof -
  have compat: "pinned_as a q" if "sb_pinned (ss ! k) = Some q" for q
    using assms(4) that by (simp add: incompatible_pin_def pinned_as_def)
  have inv: "\<exists>q x. ss ! j = (ss0 ! j)\<lparr>sb_pinned := q, sb_pinned_exclusive := x\<rparr>"
    "b \<in> set as \<Longrightarrow> ids (pin_buffer b) = Some j \<Longrightarrow> \<exists>q. sb_pinned (ss ! j) = Some q \<and> pinned_as b q"
    "sb_pinned (ss ! j) = Some q \<Longrightarrow> q \<in> set as \<and> ids (pin_buffer q) = Some j"
    "sb_pinned_exclusive (ss ! j) \<longleftrightarrow>
       (\<exists>a\<in>set as. ids (pin_buffer a) = Some j \<and> exclusive_for_all_time a)"
    if "j < length ss" for j b q
    using assms(1) that unfolding pins_inv_def by blast+
  have base: "\<exists>q x. ss[k := ?s] ! j = (ss0 ! j)\<lparr>sb_pinned := q, sb_pinned_exclusive := x\<rparr>" if "j < length ss" for j
  proof (cases "j = k")
    case True
    obtain q x where "ss ! k = (ss0 ! k)\<lparr>sb_pinned := q, sb_pinned_exclusive := x\<rparr>" using inv(1) assms(3) by blast
    then have "ss[k := ?s] ! j = (ss0 ! j)\<lparr>sb_pinned := Some a,
        sb_pinned_exclusive := x \<or> exclusive_for_all_time a\<rparr>"
      using True assms(3) by simp
    then show ?thesis by blast
  qed (use inv(1) that in simp)
  have pins: "\<exists>q. sb_pinned (ss[k := ?s] ! j) = Some q \<and> pinned_as b q"
    if jb: "j < length ss" "b \<in> set (as @ [a])" "ids (pin_buffer b) = Some j" for j b
  proof (cases "j = k")
    case True
    have "pinned_as b a"
    proof (cases "b = a")
      case False
      then obtain q where "sb_pinned (ss ! k) = Some q" "pinned_as b q" using inv(2) [of j b] jb True by auto
      then show ?thesis using compat by (simp add: pinned_as_def)
    qed (simp add: pinned_as_def)
    then show ?thesis using True assms(3) by simp
  next
    case False
    then have "b \<in> set as" using that assms(2) by auto
    then show ?thesis using inv(2) [of j b] that False by simp
  qed
  have own: "q \<in> set (as @ [a]) \<and> ids (pin_buffer q) = Some j"
    if "j < length ss" "sb_pinned (ss[k := ?s] ! j) = Some q" for j q
    using that inv(3) [of j q] assms(2,3) by (cases "j = k") auto
  have excl: "sb_pinned_exclusive (ss[k := ?s] ! j) \<longleftrightarrow>
      (\<exists>a\<in>set (as @ [a]). ids (pin_buffer a) = Some j \<and> exclusive_for_all_time a)" if "j < length ss" for j
    using that inv(4) [of j] assms(2,3) by (cases "j = k") auto
  show ?thesis
    using assms(1) base pins own excl unfolding pins_inv_def by simp
qed

lemma prepare_pins_errors: "prepare_pins ids as ss errors = (ss', []) \<Longrightarrow> errors = []"
  by (induction ids as ss errors rule: prepare_pins.induct) (auto simp: Let_def split: if_splits)

lemma prepare_pins_spec:
  assumes "pins_inv ids ss0 done ss" "\<forall>a\<in>set as. \<exists>k<length ss0. ids (pin_buffer a) = Some k"
    and "prepare_pins ids as ss errors = (ss', [])"
  shows "pins_inv ids ss0 (done @ as) ss'"
  using assms
proof (induction as arbitrary: "done" ss errors)
  case Nil
  then show ?case by simp
next
  case (Cons a as)
  obtain k where k: "ids (pin_buffer a) = Some k" "k < length ss0" using Cons.prems(2) by auto
  have len: "length ss = length ss0" using Cons.prems(1) by (simp add: pins_inv_def)
  have ok: "\<not> incompatible_pin a (sb_pinned (ss ! k))"
    using Cons.prems(3) k(1) prepare_pins_errors by (fastforce split: if_splits)
  have k': "k < length ss" using k len by simp
  have "prepare_pins ids as (ss[k := (ss ! k)\<lparr>sb_pinned := Some a,
      sb_pinned_exclusive := sb_pinned_exclusive (ss ! k) \<or> exclusive_for_all_time a\<rparr>]) errors = (ss', [])"
    using Cons.prems(3) k(1) ok by (simp add: Let_def)
  from Cons.IH [OF pins_inv_step [OF Cons.prems(1) k(1) k' ok] _ this] Cons.prems(2)
  show ?case by simp
qed

section \<open>Separations\<close>

lemma prepare_separations_spec:
  "prepare_separations ids cs seps errors = (seps', []) \<Longrightarrow>
   errors = [] \<and>
   seps' = seps \<union> (\<lambda>c. ordered_pair (the (ids (sep_first c))) (the (ids (sep_second c)))) ` set cs \<and>
   (\<forall>c\<in>set cs. the (ids (sep_first c)) \<noteq> the (ids (sep_second c)))"
  by (induction ids cs seps errors rule: prepare_separations.induct) (auto simp: Let_def split: if_splits)

section \<open>The prepared problem\<close>

lemma union_colocations_at:
  assumes "well_formed p"
  shows "foldl (\<lambda>parent c. ds_union parent (the (BufferIndices p (col_first c)))
      (the (BufferIndices p (col_second c)))) parent (colocations p) =
    union_colocations (BufferIndices p) (colocations p) parent"
proof -
  have "foldl (\<lambda>parent c. ds_union parent (the (BufferIndices p (col_first c)))
      (the (BufferIndices p (col_second c)))) parent cs =
    ds.union_all parent (map (\<lambda>c. (the (BufferIndices p (col_first c)), the (BufferIndices p (col_second c)))) cs)"
    for cs
    unfolding ds.union_all_def by (induction cs arbitrary: parent) simp_all
  then show ?thesis by (simp add: union_colocations_coloc_indices [OF assms] coloc_indices_def)
qed

text \<open>What a super buffer is, over the declarative classes of the problem.\<close>

definition class_members :: "DsaProblem \<Rightarrow> SuperBuffer \<Rightarrow> Buffer set" where
  "class_members p s = (\<lambda>i. buffers p ! i) ` set (sb_members s)"

definition is_class :: "DsaProblem \<Rightarrow> SuperBuffer \<Rightarrow> bool" where
  "is_class p s \<longleftrightarrow>
     sb_members s \<noteq> [] \<and> (\<forall>i\<in>set (sb_members s). i < length (buffers p)) \<and> distinct (sb_members s) \<and>
     (\<forall>b\<in>class_members p s. \<forall>b'\<in>set (buffers p).
        b' \<in> class_members p s \<longleftrightarrow> same_class p (buf_id b) (buf_id b')) \<and>
     sb_representative s = Min (buf_id ` class_members p s) \<and>
     (\<forall>b\<in>class_members p s. sb_size s = class_extent p (buf_id b)) \<and>
     unat (sb_alignment s) = Lcm ((\<lambda>b. unat (alignment b)) ` class_members p s) \<and>
     sb_live_intervals s = concat (map (\<lambda>i. live_intervals (buffers p ! i)) (sb_members s)) \<and>
     set (sb_allowed_pools s) = (\<Inter>b\<in>class_members p s. set (allowed_pools b)) \<and>
     sb_allowed_pools s \<noteq> []"

definition is_pinned_class :: "DsaProblem \<Rightarrow> SuperBuffer \<Rightarrow> bool" where
  "is_pinned_class p s \<longleftrightarrow>
     (\<forall>a\<in>set (pinned_allocations p). pin_buffer a \<in> member_ids p s \<longrightarrow>
        (\<exists>q. sb_pinned s = Some q \<and> pinned_as a q)) \<and>
     (\<forall>q. sb_pinned s = Some q \<longrightarrow> q \<in> set (pinned_allocations p) \<and> pin_buffer q \<in> member_ids p s) \<and>
     (sb_pinned_exclusive s \<longleftrightarrow>
        (\<exists>a\<in>set (pinned_allocations p). pin_buffer a \<in> member_ids p s \<and> exclusive_for_all_time a))"

definition prepared_ok :: "DsaProblem \<Rightarrow> PreparedProblem \<Rightarrow> bool" where
  "prepared_ok p P \<longleftrightarrow>
     (\<forall>s\<in>set (supers P). is_class p s \<and> is_pinned_class p s) \<and>
     (\<forall>i<length (supers P). \<forall>j<length (supers P). i \<noteq> j \<longrightarrow>
        member_ids p (supers P ! i) \<inter> member_ids p (supers P ! j) = {}) \<and>
     (\<forall>b\<in>buffer_ids p. \<exists>k<length (supers P). b \<in> member_ids p (supers P ! k)) \<and>
     (\<forall>a k. id_to_super P a = Some k \<longleftrightarrow> k < length (supers P) \<and> a \<in> member_ids p (supers P ! k)) \<and>
     (\<forall>i j. Separated P i j \<longleftrightarrow>
        (\<exists>c\<in>set (separations p). \<exists>u v. id_to_super P (sep_first c) = Some u \<and>
           id_to_super P (sep_second c) = Some v \<and> {u, v} = {i, j})) \<and>
     (\<forall>c\<in>set (separations p). id_to_super P (sep_first c) \<noteq> id_to_super P (sep_second c)) \<and>
     (flexible_pools P \<longleftrightarrow> (\<exists>s\<in>set (supers P). 1 < length (sb_allowed_pools s)))"

lemma supers_inv_classes:
  assumes wf: "well_formed p" and inv: "supers_inv p [0..<length (buffers p)] r2s ss []"
    and k: "k < length ss" and pools: "sb_allowed_pools (ss ! k) \<noteq> []"
  shows "is_class p (ss ! k)"
proof -
  let ?s = "ss ! k" and ?n = "length (buffers p)"
  have so: "super_of p [0..<?n] ?s" and al: "merged_alignment p ?s"
    using supers_invD(1,3) [OF inv k] by simp_all
  have mem: "sb_members ?s = filter (\<lambda>i. class_root p i = sb_root ?s) [0..<?n]" "sb_members ?s \<noteq> []"
    using so unfolding super_of_def by blast+
  have range: "\<forall>i\<in>set (sb_members ?s). i < ?n" by (simp add: mem(1))
  have inj: "i = j" if "i < ?n" "j < ?n" "buffers p ! i = buffers p ! j" for i j
    using that well_formedD(2) [OF wf] nth_eq_iff_index_eq by (metis length_map nth_map)
  have same: "b' \<in> class_members p ?s \<longleftrightarrow> same_class p (buf_id b) (buf_id b')"
    if bb: "b \<in> class_members p ?s" "b' \<in> set (buffers p)" for b b'
  proof -
    obtain i where i: "i \<in> set (sb_members ?s)" "b = buffers p ! i"
      using bb(1) by (auto simp: class_members_def)
    obtain j where j: "j < ?n" "b' = buffers p ! j" using bb(2) by (auto simp: in_set_conv_nth)
    have "i < ?n" "class_root p i = sb_root ?s" using i(1) unfolding mem(1) by auto
    moreover have "b' \<in> class_members p ?s \<longleftrightarrow> j \<in> set (sb_members ?s)"
      using inj range j by (auto simp: class_members_def)
    moreover have "j \<in> set (sb_members ?s) \<longleftrightarrow> class_root p j = sb_root ?s" using j(1) by (simp add: mem(1))
    ultimately show ?thesis using class_root_eq_iff [OF wf, of i j] i(2) j by auto
  qed
  have sub: "class_members p ?s \<subseteq> set (buffers p)" using range by (auto simp: class_members_def)
  have extent: "sb_size ?s = class_extent p (buf_id b)" if "b \<in> class_members p ?s" for b
  proof -
    have "class_members p ?s = {b' \<in> set (buffers p). same_class p (buf_id b) (buf_id b')}"
      using same [OF that] sub by blast
    moreover have "sb_size ?s = Max (buf_size ` class_members p ?s)"
      using so unfolding super_of_def class_members_def image_image by blast
    ultimately show ?thesis by (simp add: class_extent_def)
  qed
  have ids: "buf_id ` class_members p ?s = member_ids p ?s"
    by (simp add: class_members_def member_ids_def image_image)
  have so': "sb_representative ?s = Min (buf_id ` class_members p ?s)"
    "sb_live_intervals ?s = concat (map (\<lambda>i. live_intervals (buffers p ! i)) (sb_members ?s))"
    "set (sb_allowed_pools ?s) = (\<Inter>b\<in>class_members p ?s. set (allowed_pools b))"
    using so unfolding ids super_of_def by (blast, blast, simp add: class_members_def)
  have al': "unat (sb_alignment ?s) = Lcm ((\<lambda>b. unat (alignment b)) ` class_members p ?s)"
    using al by (simp add: merged_alignment_def class_members_def image_image)
  have dist: "distinct (sb_members ?s)" by (simp add: mem(1))
  have same': "\<forall>b\<in>class_members p ?s. \<forall>b'\<in>set (buffers p).
      b' \<in> class_members p ?s \<longleftrightarrow> same_class p (buf_id b) (buf_id b')"
    and extent': "\<forall>b\<in>class_members p ?s. sb_size ?s = class_extent p (buf_id b)"
    using same extent by blast+
  show ?thesis
    unfolding is_class_def using mem(2) range dist same' so' extent' al' pools by (intro conjI)
qed

lemma Prepare_unfold:
  assumes "prepare_errors (Prepare p) = []"
  obtains r2s ss ids ss' seps where "well_formed p"
    "supers_inv p [0..<length (buffers p)] r2s ss []" "\<forall>s\<in>set ss. sb_allowed_pools s \<noteq> []"
    "ids = index_supers p ss" "prepare_pins ids (pinned_allocations p) ss [] = (ss', [])"
    "prepare_separations ids (separations p) {} [] = (seps, [])"
    "Prepare p = \<lparr>supers = ss', id_to_super = ids, super_separations = seps, prepare_errors = [],
       flexible_pools = super_pools_flexible ss\<rparr>"
proof -
  let ?n = "length (buffers p)"
  have wf: "well_formed p"
    using assms ValidateProblem_Nil [of p] by (auto simp: Prepare_def Let_def split: if_splits)
  have v: "ValidateProblem p = []" using wf by (simp add: ValidateProblem_Nil)
  let ?sets = "union_colocations (BufferIndices p) (colocations p) (ds_init ?n)"
  obtain ss e1 where s: "prepare_supers p [0..<?n] ?sets Map.empty [] [] = (ss, e1)" by fastforce
  obtain ss' e3 where s': "prepare_pins (index_supers p ss) (pinned_allocations p) ss
      (e1 @ super_pool_errors ss) = (ss', e3)" by fastforce
  obtain seps e4 where sp: "prepare_separations (index_supers p ss) (separations p) {} e3 = (seps, e4)"
    by fastforce
  have P: "Prepare p = \<lparr>supers = ss', id_to_super = index_supers p ss, super_separations = seps,
      prepare_errors = e4, flexible_pools = super_pools_flexible ss\<rparr>"
    by (simp add: Prepare_def Let_def v union_colocations_at [OF wf] s s' sp)
  have e4: "e4 = []" using assms by (simp add: P)
  have e3: "e3 = []" using prepare_separations_spec sp unfolding e4 by blast
  have "e1 @ super_pool_errors ss = []" using prepare_pins_errors s' unfolding e3 by blast
  then have e1: "e1 = []" "super_pool_errors ss = []" by simp_all
  have "supers_inv p [] Map.empty [] []" by (simp add: supers_inv_def)
  from prepare_supers_spec [OF wf this ds_of_class_root [OF wf] _ s] e1
  obtain r2s where "supers_inv p [0..<?n] r2s ss []" by auto
  moreover have "\<forall>s\<in>set ss. sb_allowed_pools s \<noteq> []" using e1(2) by (simp add: super_pool_errors_def)
  ultimately show thesis using that [of r2s ss "index_supers p ss" ss' seps] wf P s' sp e1 e3 e4 by simp
qed

lemma pinned_supers:
  assumes "pins_inv ids ss as ss'" "k < length ss"
  obtains q x where "ss' ! k = (ss ! k)\<lparr>sb_pinned := q, sb_pinned_exclusive := x\<rparr>"
  using assms unfolding pins_inv_def by metis

lemma is_class_pins [simp]:
  "is_class p (s\<lparr>sb_pinned := q, sb_pinned_exclusive := x\<rparr>) = is_class p s"
  "member_ids p (s\<lparr>sb_pinned := q, sb_pinned_exclusive := x\<rparr>) = member_ids p s"
  by (simp_all add: is_class_def class_members_def member_ids_def)

lemma classes_disjoint:
  assumes wf: "well_formed p" and inv: "supers_inv p [0..<length (buffers p)] r2s ss []"
    and ij: "i < length ss" "j < length ss" "i \<noteq> j"
  shows "member_ids p (ss ! i) \<inter> member_ids p (ss ! j) = {}"
proof (rule ccontr)
  assume "\<not> ?thesis"
  then obtain u v where uv: "u \<in> set (sb_members (ss ! i))" "v \<in> set (sb_members (ss ! j))"
    "buf_id (buffers p ! u) = buf_id (buffers p ! v)" by (auto simp: member_ids_def)
  have "super_of p [0..<length (buffers p)] (ss ! i)" "super_of p [0..<length (buffers p)] (ss ! j)"
    using supers_invD(1) [OF inv] ij by blast+
  then have "u < length (buffers p)" "v < length (buffers p)"
    "class_root p u = sb_root (ss ! i)" "class_root p v = sb_root (ss ! j)"
    using uv by (auto simp: super_of_def)
  moreover have "u = v"
    using uv(3) calculation(1,2) well_formedD(2) [OF wf] nth_eq_iff_index_eq by (metis length_map nth_map)
  ultimately have "sb_root (ss ! i) = sb_root (ss ! j)" by simp
  then have "r2s (sb_root (ss ! i)) = Some i \<and> r2s (sb_root (ss ! i)) = Some j"
    using supers_invD(4) [OF inv] ij by metis
  then show False using ij(3) by (metis option.inject)
qed

lemma classes_cover:
  assumes inv: "supers_inv p [0..<length (buffers p)] r2s ss []" and a: "a \<in> buffer_ids p"
  shows "\<exists>k<length ss. a \<in> member_ids p (ss ! k)"
proof -
  obtain i where i: "i < length (buffers p)" "buf_id (buffers p ! i) = a"
    using a by (auto simp: buffer_ids_def in_set_conv_nth)
  obtain k where k: "r2s (class_root p i) = Some k" using supers_invD(5) [OF inv, of i] i(1) by auto
  then have "k < length ss" "sb_root (ss ! k) = class_root p i" using supers_invD(4) [OF inv] by auto
  moreover have "i \<in> set (sb_members (ss ! k))"
    using supers_invD(1) [OF inv calculation(1)] calculation(2) i(1) unfolding super_of_def by simp
  ultimately show ?thesis using i(2) by (auto simp: member_ids_def)
qed

lemma ordered_pair_image_iff:
  "ordered_pair i j \<in> (\<lambda>c. ordered_pair (f c) (g c)) ` A \<longleftrightarrow> (\<exists>c\<in>A. {f c, g c} = {i, j})"
  by (auto simp: image_iff ordered_pair_eq_iff insert_commute)

lemma Prepare_ok:
  assumes "prepare_errors (Prepare p) = []"
  shows "well_formed p \<and> prepared_ok p (Prepare p)"
proof -
  obtain r2s ss ids ss' seps where wf: "well_formed p"
    and inv: "supers_inv p [0..<length (buffers p)] r2s ss []" and pools: "\<forall>s\<in>set ss. sb_allowed_pools s \<noteq> []"
    and ids: "ids = index_supers p ss"
    and pins: "prepare_pins ids (pinned_allocations p) ss [] = (ss', [])"
    and seps: "prepare_separations ids (separations p) {} [] = (seps, [])"
    and P: "Prepare p = \<lparr>supers = ss', id_to_super = ids, super_separations = seps, prepare_errors = [],
       flexible_pools = super_pools_flexible ss\<rparr>"
    by (rule Prepare_unfold [OF assms])
  have idx: "ids a = Some k \<longleftrightarrow> k < length ss \<and> a \<in> member_ids p (ss ! k)" for a k
    unfolding ids by (rule index_supers_Some) (rule classes_disjoint [OF wf inv])
  have known: "\<exists>k<length ss. ids a = Some k" if "a \<in> buffer_ids p" for a
    using classes_cover [OF inv that] idx by blast
  have "pins_inv ids ss [] ss"
  proof -
    have "\<exists>q x. ss ! k = (ss ! k)\<lparr>sb_pinned := q, sb_pinned_exclusive := x\<rparr>" for k
      by (intro exI [of _ "sb_pinned (ss ! k)"] exI [of _ "sb_pinned_exclusive (ss ! k)"]) simp
    then show ?thesis using supers_invD(2) [OF inv] by (simp add: pins_inv_def unpinned_def)
  qed
  from prepare_pins_spec [OF this _ pins] known wf_pinned_known well_formedD(8) [OF wf]
  have pinv: "pins_inv ids ss (pinned_allocations p) ss'" by simp
  then have len: "length ss' = length ss" by (simp add: pins_inv_def)
  have mem: "member_ids p (ss' ! k) = member_ids p (ss ! k)" "is_class p (ss' ! k)"
    "sb_allowed_pools (ss' ! k) = sb_allowed_pools (ss ! k)"
    if k: "k < length ss" for k
  proof -
    obtain q x where "ss' ! k = (ss ! k)\<lparr>sb_pinned := q, sb_pinned_exclusive := x\<rparr>"
      using pinned_supers [OF pinv k] by blast
    moreover have "is_class p (ss ! k)" by (rule supers_inv_classes [OF wf inv k]) (use pools k in simp)
    ultimately show "member_ids p (ss' ! k) = member_ids p (ss ! k)" "is_class p (ss' ! k)"
      "sb_allowed_pools (ss' ! k) = sb_allowed_pools (ss ! k)" by simp_all
  qed
  have pin: "is_pinned_class p (ss' ! k)" if k: "k < length ss" for k
    using pinv k len idx mem(1) [OF k] unfolding pins_inv_def is_pinned_class_def by simp
  have ids': "ids a = Some k \<longleftrightarrow> k < length ss' \<and> a \<in> member_ids p (ss' ! k)" for a k
    using idx mem(1) len by auto
  have sp: "seps = (\<lambda>c. ordered_pair (the (ids (sep_first c))) (the (ids (sep_second c)))) ` set (separations p)"
    "\<forall>c\<in>set (separations p). the (ids (sep_first c)) \<noteq> the (ids (sep_second c))"
    using prepare_separations_spec [OF seps] by auto
  have sk: "ids (sep_first c) = Some (the (ids (sep_first c)))" "ids (sep_second c) = Some (the (ids (sep_second c)))"
    if c: "c \<in> set (separations p)" for c
  proof -
    have "sep_first c \<in> buffer_ids p" "sep_second c \<in> buffer_ids p"
      using well_formedD(6) [OF wf c] by (simp_all add: wf_separation_def)
    from known [OF this(1)] known [OF this(2)]
    show "ids (sep_first c) = Some (the (ids (sep_first c)))"
      "ids (sep_second c) = Some (the (ids (sep_second c)))" by auto
  qed
  have sep: "Separated (Prepare p) i j \<longleftrightarrow>
        (\<exists>c\<in>set (separations p). \<exists>u v. ids (sep_first c) = Some u \<and>
           ids (sep_second c) = Some v \<and> {u, v} = {i, j})" for i j
  proof -
    have "(\<exists>u v. ids (sep_first c) = Some u \<and> ids (sep_second c) = Some v \<and> {u, v} = {i, j}) \<longleftrightarrow>
        {the (ids (sep_first c)), the (ids (sep_second c))} = {i, j}" if "c \<in> set (separations p)" for c
      by (subst sk(1) [OF that], subst sk(2) [OF that]) simp
    then show ?thesis
      unfolding Separated_def P PreparedProblem.select_convs sp(1) ordered_pair_image_iff
      by (rule bex_cong [OF refl, symmetric])
  qed
  have flex: "super_pools_flexible ss \<longleftrightarrow> (\<exists>s\<in>set ss'. 1 < length (sb_allowed_pools s))"
  proof -
    have "map sb_allowed_pools ss' = map sb_allowed_pools ss"
      by (rule nth_equalityI) (use mem(3) len in auto)
    then have "sb_allowed_pools ` set ss' = sb_allowed_pools ` set ss" by (metis set_map)
    then have "(\<exists>q\<in>sb_allowed_pools ` set ss. 1 < length q) \<longleftrightarrow>
        (\<exists>q\<in>sb_allowed_pools ` set ss'. 1 < length q)" by (simp only:)
    then show ?thesis by (simp add: super_pools_flexible_def list_ex_iff)
  qed
  have disj: "\<forall>i<length ss'. \<forall>j<length ss'. i \<noteq> j \<longrightarrow> member_ids p (ss' ! i) \<inter> member_ids p (ss' ! j) = {}"
    using classes_disjoint [OF wf inv] mem(1) len by simp
  have cover: "\<forall>b\<in>buffer_ids p. \<exists>k<length ss'. b \<in> member_ids p (ss' ! k)"
    using classes_cover [OF inv] mem(1) len by metis
  have cls: "\<forall>s\<in>set ss'. is_class p s \<and> is_pinned_class p s"
    using mem(2) pin len by (metis in_set_conv_nth)
  have sepdiff: "\<forall>c\<in>set (separations p). ids (sep_first c) \<noteq> ids (sep_second c)" using sp(2) by metis
  have "prepared_ok p (Prepare p)"
  proof -
    have "supers (Prepare p) = ss'" "id_to_super (Prepare p) = ids"
      "flexible_pools (Prepare p) = super_pools_flexible ss" by (simp_all add: P)
    note eq = this
    show ?thesis
      unfolding prepared_ok_def eq
    proof (intro conjI)
      show "\<forall>a k. ids a = Some k \<longleftrightarrow> k < length ss' \<and> a \<in> member_ids p (ss' ! k)" using ids' by blast
      show "\<forall>i j. Separated (Prepare p) i j \<longleftrightarrow> (\<exists>c\<in>set (separations p). \<exists>u v.
          ids (sep_first c) = Some u \<and> ids (sep_second c) = Some v \<and> {u, v} = {i, j})" using sep by blast
    qed (rule cls disj cover sepdiff flex)+
  qed
  then show ?thesis using wf by blast
qed

end
