(* ===== verification/Placement_Spec.thy ===== *)
theory Placement_Spec
  imports Prepare_Spec
begin

text \<open>
  Correctness of \<open>PlaceWithOrder\<close>. The loop keeps an invariant: every placed class sits in its pool,
  every class that is not pinned is aligned, inside the address space, off the reserved ranges and
  apart from every placed class it may not share bytes with. So only pins can make the engine's
  placement structurally invalid, and \<open>kInfeasibleProven\<close> is a proof that no placement exists.
\<close>

section \<open>Policies\<close>

interpretation engine: fit_policy "find_fit strategy" for strategy
  by unfold_locales (auto simp: find_fit_def FindFirstFit_sound FindBestFit_sound split: if_splits)

section \<open>Blocking classes\<close>

definition blocks :: "DsaProblem \<Rightarrow> PreparedProblem \<Rightarrow> nat \<Rightarrow> nat \<Rightarrow> bool" where
  "blocks p P i j \<longleftrightarrow>
     SuperBuffersConflict p (supers P ! i) (supers P ! j) \<or> Separated P i j \<or>
     sb_pinned_exclusive (supers P ! i) \<or> sb_pinned_exclusive (supers P ! j)"

lemma SuperBuffersConflict_iff:
  "SuperBuffersConflict p s t \<longleftrightarrow> (\<exists>b\<in>class_members p s. \<exists>b'\<in>class_members p t. HaveTemporalConflict p b b')"
  by (auto simp: SuperBuffersConflict_def list_ex_iff class_members_def)

lemma SuperBuffersConflict_commute: "SuperBuffersConflict p s t = SuperBuffersConflict p t s"
  unfolding SuperBuffersConflict_iff using HaveTemporalConflict_commute by metis

lemma Separated_commute: "Separated P i j = Separated P j i"
  by (simp add: Separated_def ordered_pair_def min.commute max.commute)

lemma blocks_commute: "blocks p P i j = blocks p P j i"
  unfolding blocks_def using SuperBuffersConflict_commute Separated_commute by metis

section \<open>The loop invariant\<close>

definition moved :: "SuperBuffer \<Rightarrow> SuperBuffer \<Rightarrow> bool" where
  "moved s t \<longleftrightarrow> t = s\<lparr>sb_placed_pool := sb_placed_pool t, sb_offset := sb_offset t\<rparr>"

lemma moved_simps:
  assumes "moved s t"
  shows "sb_members t = sb_members s" "sb_size t = sb_size s" "sb_alignment t = sb_alignment s"
    "sb_pinned t = sb_pinned s" "sb_pinned_exclusive t = sb_pinned_exclusive s"
    "super_pool t = super_pool s" "sb_allowed_pools t = sb_allowed_pools s"
    "SuperBuffersConflict p t u = SuperBuffersConflict p s u"
    "SuperBuffersConflict p u t = SuperBuffersConflict p u s"
proof -
  from assms obtain q x where t: "t = s\<lparr>sb_placed_pool := q, sb_offset := x\<rparr>" by (auto simp: moved_def)
  show "sb_members t = sb_members s" "sb_size t = sb_size s" "sb_alignment t = sb_alignment s"
    "sb_pinned t = sb_pinned s" "sb_pinned_exclusive t = sb_pinned_exclusive s"
    "super_pool t = super_pool s" "sb_allowed_pools t = sb_allowed_pools s"
    "SuperBuffersConflict p t u = SuperBuffersConflict p s u"
    "SuperBuffersConflict p u t = SuperBuffersConflict p u s"
    by (simp_all add: t super_pool_def SuperBuffersConflict_def split: option.splits)
qed

text \<open>What the loop established for a placed class and for two of them.\<close>

definition placed_class :: "DsaProblem \<Rightarrow> SuperBuffer \<Rightarrow> bool" where
  "placed_class p s \<longleftrightarrow>
     sb_placed_pool s = super_pool s \<and> \<not> AddOverflows (sb_offset s) (sb_size s) \<and>
     (\<forall>a. sb_pinned s = Some a \<longrightarrow> sb_offset s = pin_offset a) \<and>
     (sb_pinned s = None \<longrightarrow> aligned_to (sb_alignment s) (sb_offset s) \<and>
        (\<forall>q. FindPool p (super_pool s) = Some q \<longrightarrow>
           (\<forall>r\<in>set (reserved_ranges q).
              bytes (sb_offset s) (sb_size s) \<inter> range_bytes (range_begin r) (range_end r) = {})))"

definition kept_apart :: "DsaProblem \<Rightarrow> PreparedProblem \<Rightarrow> SuperBuffer list \<Rightarrow> nat \<Rightarrow> nat \<Rightarrow> bool" where
  "kept_apart p P ss i j \<longleftrightarrow>
     (sb_pinned (supers P ! i) = None \<or> sb_pinned (supers P ! j) = None) \<longrightarrow> blocks p P i j \<longrightarrow>
     super_pool (supers P ! i) = super_pool (supers P ! j) \<longrightarrow>
     apart (sb_offset (ss ! i)) (sb_size (ss ! i)) (sb_offset (ss ! j)) (sb_size (ss ! j))"

definition super_placement :: "SuperBuffer \<Rightarrow> Placement" where
  "super_placement s = \<lparr>pl_pool = sb_placed_pool s, pl_offset = sb_offset s\<rparr>"

definition place_inv :: "DsaProblem \<Rightarrow> PreparedProblem \<Rightarrow> PlaceState \<Rightarrow> bool" where
  "place_inv p P st \<longleftrightarrow>
     length (ps_supers st) = length (supers P) \<and>
     (\<forall>k<length (supers P). moved (supers P ! k) (ps_supers st ! k)) \<and>
     (\<forall>k\<in>set (ps_placed st). k < length (supers P) \<and> placed_class p (ps_supers st ! k)) \<and>
     (\<forall>i\<in>set (ps_placed st). \<forall>j\<in>set (ps_placed st). i \<noteq> j \<longrightarrow> kept_apart p P (ps_supers st) i j) \<and>
     om_ok (placements (ps_solution st)) \<and>
     (\<forall>a pl. Find (ps_solution st) a = Some pl \<longleftrightarrow>
        (\<exists>k\<in>set (ps_placed st). a \<in> member_ids p (supers P ! k) \<and> pl = super_placement (ps_supers st ! k)))"

lemma om_ok_record_placement: "om_ok m \<Longrightarrow> om_ok (record_placement p pl is m)"
  unfolding record_placement_def by (induction "is" arbitrary: m) auto

lemma map_of_record_placement:
  "map_of (record_placement p pl is m) a =
    (if a \<in> (\<lambda>i. buf_id (buffers p ! i)) ` set is then Some pl else map_of m a)"
  unfolding record_placement_def by (induction "is" arbitrary: m) auto

lemma range_bytes_bytes:
  "\<not> AddOverflows o' s \<Longrightarrow> range_bytes o' (o' + s) = bytes o' s"
  by (simp add: range_bytes_def bytes_def unat_plus_no_overflow)

lemma kept_apart_commute: "kept_apart p P ss i j = kept_apart p P ss j i"
  unfolding kept_apart_def using blocks_commute [of p P i j] apart_commute by metis

text \<open>A chosen offset is what the invariant asks of the class placed next.\<close>

lemma choose_offset_pinned:
  assumes "choose_offset p P strategy st k pool = Inr offset" "sb_pinned (ps_supers st ! k) = Some a"
  shows "offset = pin_offset a" "\<not> AddOverflows offset (sb_size (ps_supers st ! k))"
  using assms by (auto simp: choose_offset_def Let_def split: if_splits)

lemma choose_offset_free:
  assumes "choose_offset p P strategy st k pool = Inr offset" "sb_pinned (ps_supers st ! k) = None"
    and "sb_alignment (ps_supers st ! k) \<noteq> 0"
  shows "fits \<lparr>fit_size = sb_size (ps_supers st ! k), fit_alignment = sb_alignment (ps_supers st ! k)\<rparr>
    (blocked_ranges p P st k pool) offset"
proof (rule engine.fit_sound)
  show "fit_alignment \<lparr>fit_size = sb_size (ps_supers st ! k), fit_alignment = sb_alignment (ps_supers st ! k)\<rparr> \<noteq> 0"
    using assms(3) by simp
  show "find_fit strategy \<lparr>fit_size = sb_size (ps_supers st ! k), fit_alignment = sb_alignment (ps_supers st ! k)\<rparr>
    (blocked_ranges p P st k pool) = Some offset"
    using assms(1,2) by (auto simp: choose_offset_def Let_def split: option.splits)
qed

lemma blocked_by_placed:
  assumes inv: "place_inv p P st" and k: "k < length (supers P)" and j: "j \<in> set (ps_placed st)"
    and "blocks p P k j" "super_pool (supers P ! k) = super_pool (supers P ! j)"
  shows "\<lparr>range_begin = sb_offset (ps_supers st ! j),
      range_end = sb_offset (ps_supers st ! j) + sb_size (ps_supers st ! j)\<rparr>
    \<in> set (blocked_ranges p P st k pool)"
proof -
  have jl: "j < length (supers P)" "placed_class p (ps_supers st ! j)"
    using inv j unfolding place_inv_def by blast+
  have m: "moved (supers P ! k) (ps_supers st ! k)" "moved (supers P ! j) (ps_supers st ! j)"
    using inv k jl(1) unfolding place_inv_def by blast+
  have "sb_placed_pool (ps_supers st ! j) = super_pool (ps_supers st ! k)"
    using jl(2) assms(5) by (simp add: placed_class_def moved_simps [OF m(1)] moved_simps [OF m(2)])
  moreover have "SuperBuffersConflict p (ps_supers st ! k) (ps_supers st ! j) \<or> Separated P k j \<or>
      sb_pinned_exclusive (ps_supers st ! k) \<or> sb_pinned_exclusive (ps_supers st ! j)"
    using assms(4) by (simp add: blocks_def moved_simps [OF m(1)] moved_simps [OF m(2)])
  ultimately show ?thesis using j unfolding blocked_ranges_def by (auto simp: Let_def)
qed

lemma place_superE:
  assumes "place_super p P strategy st k = Inr st'"
  obtains pool offset where "FindPool p (super_pool (ps_supers st ! k)) = Some pool"
    "choose_offset p P strategy st k pool = Inr offset"
    "ps_supers st' = (ps_supers st)[k := (ps_supers st ! k)\<lparr>sb_placed_pool := super_pool (ps_supers st ! k),
        sb_offset := offset\<rparr>]"
    "ps_placed st' = ps_placed st @ [k]"
    "placements (ps_solution st') = record_placement p
        \<lparr>pl_pool = super_pool (ps_supers st ! k), pl_offset = offset\<rparr> (sb_members (ps_supers st ! k))
        (placements (ps_solution st))"
  using assms by (auto simp: place_super_def Let_def split: option.splits sum.splits)

lemma prepared_okD:
  assumes "prepared_ok p P"
  shows "k < length (supers P) \<Longrightarrow> is_class p (supers P ! k)"
    "k < length (supers P) \<Longrightarrow> is_pinned_class p (supers P ! k)"
    "i < length (supers P) \<Longrightarrow> j < length (supers P) \<Longrightarrow> i \<noteq> j \<Longrightarrow>
      member_ids p (supers P ! i) \<inter> member_ids p (supers P ! j) = {}"
    "b \<in> buffer_ids p \<Longrightarrow> \<exists>k<length (supers P). b \<in> member_ids p (supers P ! k)"
    "id_to_super P a = Some k \<longleftrightarrow> k < length (supers P) \<and> a \<in> member_ids p (supers P ! k)"
    "Separated P i j \<longleftrightarrow>
        (\<exists>c\<in>set (separations p). \<exists>u v. id_to_super P (sep_first c) = Some u \<and>
           id_to_super P (sep_second c) = Some v \<and> {u, v} = {i, j})"
    "c \<in> set (separations p) \<Longrightarrow> id_to_super P (sep_first c) \<noteq> id_to_super P (sep_second c)"
    "flexible_pools P \<longleftrightarrow> (\<exists>s\<in>set (supers P). 1 < length (sb_allowed_pools s))"
  using assms unfolding prepared_ok_def by (auto 0 0)

lemma is_class_alignment:
  assumes wf: "well_formed p" and c: "is_class p s"
  shows "sb_alignment s \<noteq> 0" "b \<in> class_members p s \<Longrightarrow> unat (alignment b) dvd unat (sb_alignment s)"
    "class_members p s \<subseteq> set (buffers p)" "class_members p s \<noteq> {}" "finite (class_members p s)"
proof -
  show sub: "class_members p s \<subseteq> set (buffers p)" and ne: "class_members p s \<noteq> {}"
    and fin: "finite (class_members p s)"
    using c unfolding is_class_def by (auto simp: class_members_def)
  have al: "unat (sb_alignment s) = Lcm ((\<lambda>b. unat (alignment b)) ` class_members p s)"
    using c unfolding is_class_def by blast
  show "b \<in> class_members p s \<Longrightarrow> unat (alignment b) dvd unat (sb_alignment s)"
    unfolding al by (rule dvd_Lcm) blast
  have "0 \<notin> (\<lambda>b. unat (alignment b)) ` class_members p s"
  proof
    assume "0 \<in> (\<lambda>b. unat (alignment b)) ` class_members p s"
    then obtain b where b: "b \<in> class_members p s" "unat (alignment b) = 0" by auto
    then have "b \<in> set (buffers p)" using sub by blast
    from well_formedD(4) [OF wf this] show False using b(2) by (simp add: wf_buffer_def word_unat_eq_iff)
  qed
  then have "Lcm ((\<lambda>b. unat (alignment b)) ` class_members p s) \<noteq> 0" using fin by (subst Lcm_0_iff_nat) auto
  then show "sb_alignment s \<noteq> 0" using al by auto
qed

lemma moved_pos: "moved s t \<Longrightarrow> moved s (t\<lparr>sb_placed_pool := q, sb_offset := x\<rparr>)"
  unfolding moved_def by (drule arg_cong [where f = "\<lambda>t. t\<lparr>sb_placed_pool := q, sb_offset := x\<rparr>"]) simp

lemma place_inv_step:
  assumes wf: "well_formed p" and ok: "prepared_ok p P" and inv: "place_inv p P st"
    and k: "k < length (supers P)" "k \<notin> set (ps_placed st)"
    and order: "sb_pinned (supers P ! k) \<noteq> None \<Longrightarrow> \<forall>j\<in>set (ps_placed st). sb_pinned (supers P ! j) \<noteq> None"
    and step: "place_super p P strategy st k = Inr st'"
  shows "place_inv p P st'"
proof -
  obtain pool offset where s: "FindPool p (super_pool (ps_supers st ! k)) = Some pool"
    "choose_offset p P strategy st k pool = Inr offset"
    "ps_supers st' = (ps_supers st)[k := (ps_supers st ! k)\<lparr>sb_placed_pool := super_pool (ps_supers st ! k),
        sb_offset := offset\<rparr>]"
    "ps_placed st' = ps_placed st @ [k]"
    "placements (ps_solution st') = record_placement p
        \<lparr>pl_pool = super_pool (ps_supers st ! k), pl_offset = offset\<rparr> (sb_members (ps_supers st ! k))
        (placements (ps_solution st))"
    using place_superE [OF step] by blast
  let ?t = "(ps_supers st ! k)\<lparr>sb_placed_pool := super_pool (ps_supers st ! k), sb_offset := offset\<rparr>"
  have len: "length (ps_supers st) = length (supers P)" using inv by (simp add: place_inv_def)
  have mv: "moved (supers P ! j) (ps_supers st ! j)" if "j < length (supers P)" for j
    using inv that by (simp add: place_inv_def)
  note mk = moved_simps [OF mv [OF k(1)]]
  have nth: "ps_supers st' ! j = (if j = k then ?t else ps_supers st ! j)" if "j < length (supers P)" for j
    using that len by (simp add: s(3))
  have tk: "ps_supers st' ! k = ?t" using nth [OF k(1)] by simp
  have mvt: "moved (supers P ! k) ?t" by (rule moved_pos [OF mv [OF k(1)]])
  note mt = moved_simps [OF mvt]
  have placed: "j < length (supers P)" "placed_class p (ps_supers st ! j)" if "j \<in> set (ps_placed st)" for j
    using inv that unfolding place_inv_def by blast+
  have al: "sb_alignment (ps_supers st ! k) \<noteq> 0"
    using is_class_alignment(1) [OF wf prepared_okD(1) [OF ok k(1)]] mk by simp
  have free: "fits \<lparr>fit_size = sb_size (supers P ! k), fit_alignment = sb_alignment (supers P ! k)\<rparr>
      (blocked_ranges p P st k pool) offset" if "sb_pinned (supers P ! k) = None"
    using choose_offset_free [OF s(2) _ al] that by (simp add: mk)
  have no: "\<not> AddOverflows offset (sb_size (supers P ! k))"
    using choose_offset_pinned(2) [OF s(2)] free mk by (cases "sb_pinned (supers P ! k)") (auto simp: fits_def)
  have res: "r \<in> set (blocked_ranges p P st k pool)" if "r \<in> set (reserved_ranges pool)" for r
    using that by (simp add: blocked_ranges_def Let_def)
  have new: "placed_class p ?t"
    using choose_offset_pinned(1) [OF s(2)] free no s(1) res mk mt
    by (auto simp: placed_class_def fits_def super_pool_def split: option.splits)
  have pair: "kept_apart p P (ps_supers st') j k" if j: "j \<in> set (ps_placed st)" for j
    unfolding kept_apart_def
  proof (intro impI)
    assume un: "sb_pinned (supers P ! j) = None \<or> sb_pinned (supers P ! k) = None"
      and bl: "blocks p P j k" and same: "super_pool (supers P ! j) = super_pool (supers P ! k)"
    have unk: "sb_pinned (supers P ! k) = None" using un order j by blast
    have jk: "j \<noteq> k" using j k(2) by blast
    let ?j = "ps_supers st ! j"
    have noj: "\<not> AddOverflows (sb_offset ?j) (sb_size ?j)" using placed(2) [OF j] by (simp add: placed_class_def)
    have "bytes offset (sb_size (supers P ! k)) \<inter> range_bytes (sb_offset ?j) (sb_offset ?j + sb_size ?j) = {}"
      using free [OF unk] blocked_by_placed [OF inv k(1) j, of pool] bl same blocks_commute [of p P j k]
      unfolding fits_def by fastforce
    then show "apart (sb_offset (ps_supers st' ! j)) (sb_size (ps_supers st' ! j))
        (sb_offset (ps_supers st' ! k)) (sb_size (ps_supers st' ! k))"
      using no noj jk nth [OF placed(1) [OF j]] tk mt(2)
      by (simp add: apart_def range_bytes_bytes [OF noj] Int_commute)
  qed
  have pairs: "kept_apart p P (ps_supers st') i j"
    if ij: "i \<in> set (ps_placed st')" "j \<in> set (ps_placed st')" "i \<noteq> j" for i j
  proof -
    consider "i = k" "j \<in> set (ps_placed st)" | "j = k" "i \<in> set (ps_placed st)"
      | "i \<in> set (ps_placed st)" "j \<in> set (ps_placed st)" using ij s(4) by auto
    then show ?thesis
    proof cases
      case 3
      then have "kept_apart p P (ps_supers st) i j" using inv ij(3) unfolding place_inv_def by blast
      moreover have "i \<noteq> k" "j \<noteq> k" using 3 k(2) by blast+
      ultimately show ?thesis
        using nth [OF placed(1) [OF 3(1)]] nth [OF placed(1) [OF 3(2)]] by (simp add: kept_apart_def)
    qed (use pair kept_apart_commute in blast)+
  qed
  have sol: "Find (ps_solution st') a = Some pl \<longleftrightarrow>
      (\<exists>i\<in>set (ps_placed st'). a \<in> member_ids p (supers P ! i) \<and> pl = super_placement (ps_supers st' ! i))" for a pl
  proof (cases "a \<in> member_ids p (supers P ! k)")
    case True
    have only: "i = k" if i: "i \<in> set (ps_placed st')" "a \<in> member_ids p (supers P ! i)" for i
    proof (rule ccontr)
      assume "i \<noteq> k"
      then have "i < length (supers P)" using i(1) placed(1) s(4) by auto
      from prepared_okD(3) [OF ok this k(1) \<open>i \<noteq> k\<close>] show False using i(2) True by blast
    qed
    have "k \<in> set (ps_placed st')" by (simp add: s(4))
    then have "(\<exists>i\<in>set (ps_placed st'). a \<in> member_ids p (supers P ! i) \<and>
        pl = super_placement (ps_supers st' ! i)) \<longleftrightarrow> pl = super_placement (ps_supers st' ! k)"
      using only True by blast
    moreover have "Find (ps_solution st') a = Some (super_placement ?t)"
      using True by (simp add: Find_def s(5) map_of_record_placement member_ids_def mk super_placement_def)
    ultimately show ?thesis unfolding tk by (metis option.inject)
  next
    case False
    then have "Find (ps_solution st') a = Find (ps_solution st) a"
      by (simp add: Find_def s(5) map_of_record_placement member_ids_def mk)
    moreover have "Find (ps_solution st) a = Some pl \<longleftrightarrow>
        (\<exists>i\<in>set (ps_placed st). a \<in> member_ids p (supers P ! i) \<and> pl = super_placement (ps_supers st ! i))"
      using inv unfolding place_inv_def by blast
    moreover have "ps_supers st' ! i = ps_supers st ! i" if "i \<in> set (ps_placed st)" for i
      using nth [OF placed(1) [OF that]] that k(2) by auto
    ultimately show ?thesis using False s(4) by auto
  qed
  show ?thesis
    unfolding place_inv_def
  proof (intro conjI)
    show "length (ps_supers st') = length (supers P)" by (simp add: s(3) len)
    show "\<forall>j<length (supers P). moved (supers P ! j) (ps_supers st' ! j)" using nth mv mvt by simp
    show "\<forall>j\<in>set (ps_placed st'). j < length (supers P) \<and> placed_class p (ps_supers st' ! j)"
      using nth placed new tk k by (auto simp: s(4))
    show "\<forall>i\<in>set (ps_placed st'). \<forall>j\<in>set (ps_placed st'). i \<noteq> j \<longrightarrow> kept_apart p P (ps_supers st') i j"
      using pairs by blast
    show "om_ok (placements (ps_solution st'))"
      using inv by (simp add: s(5) om_ok_record_placement place_inv_def)
    show "\<forall>a pl. Find (ps_solution st') a = Some pl \<longleftrightarrow> (\<exists>i\<in>set (ps_placed st').
        a \<in> member_ids p (supers P ! i) \<and> pl = super_placement (ps_supers st' ! i))" using sol by blast
  qed
qed

lemma place_supers_inv:
  assumes wf: "well_formed p" and ok: "prepared_ok p P"
    and "place_inv p P st" "set rest \<subseteq> {..<length (supers P)}" "distinct (ps_placed st @ rest)"
    and "sorted_wrt (\<lambda>i j. sb_pinned (supers P ! j) \<noteq> None \<longrightarrow> sb_pinned (supers P ! i) \<noteq> None)
      (ps_placed st @ rest)"
    and "place_supers p P strategy st rest = Inr st'"
  shows "place_inv p P st' \<and> ps_placed st' = ps_placed st @ rest"
  using assms(3-7)
proof (induction rest arbitrary: st)
  case Nil
  then show ?case by simp
next
  case (Cons k rest)
  obtain st1 where s1: "place_super p P strategy st k = Inr st1" "place_supers p P strategy st1 rest = Inr st'"
    using Cons.prems(5) by (auto split: sum.splits)
  have pl: "ps_placed st1 = ps_placed st @ [k]" using place_superE [OF s1(1)] by metis
  have inv: "place_inv p P st1"
    by (rule place_inv_step [OF wf ok Cons.prems(1) _ _ _ s1(1)])
      (use Cons.prems(2-4) in \<open>auto simp: sorted_wrt_append\<close>)
  show ?case
    using Cons.IH [OF inv _ _ _ s1(2)] Cons.prems(2-4) unfolding pl by simp
qed

lemma sorted_wrt_all: "\<forall>x\<in>set xs. \<forall>y\<in>set xs. R x y \<Longrightarrow> sorted_wrt R xs"
  by (induction xs) auto

lemma pinned_first_sorted:
  "sorted_wrt (\<lambda>i j. sb_pinned (ss ! j) \<noteq> None \<longrightarrow> sb_pinned (ss ! i) \<noteq> None) (pinned_first ss order)"
  unfolding pinned_first_def sorted_wrt_append by (intro conjI sorted_wrt_all ballI) auto

lemma pinned_first_perm: "mset (pinned_first ss order) = mset order"
  unfolding pinned_first_def by (induction order) auto

definition initial_state :: "PreparedProblem \<Rightarrow> PlaceState" where
  "initial_state P = \<lparr>ps_supers = supers P, ps_placed = [], ps_solution = \<lparr>placements = []\<rparr>\<rparr>"

lemma place_all_inv:
  assumes "prepare_errors (Prepare p) = []"
    and "place_supers p (Prepare p) strategy (initial_state (Prepare p))
      (pinned_first (supers (Prepare p)) (SortedSuperOrder (Prepare p) priority strategy)) = Inr st"
  shows "place_inv p (Prepare p) st \<and> set (ps_placed st) = {..<length (supers (Prepare p))}"
proof -
  let ?P = "Prepare p"
  let ?order = "pinned_first (supers ?P) (SortedSuperOrder ?P priority strategy)"
  have ok: "well_formed p" "prepared_ok p ?P" using Prepare_ok [OF assms(1)] by auto
  have perm: "mset ?order = mset [0..<length (supers ?P)]"
    by (simp add: pinned_first_perm SortedSuperOrder_def)
  have set: "set ?order = {..<length (supers ?P)}"
    using perm by (metis atLeast_upt lessThan_atLeast0 set_mset_mset)
  have dist: "distinct ?order" using perm mset_eq_imp_distinct_iff by fastforce
  have "place_inv p ?P (initial_state ?P)"
    by (simp add: place_inv_def initial_state_def Find_def moved_def)
  from place_supers_inv [OF ok this, of ?order strategy st] assms(2) set dist
    pinned_first_sorted [of "supers ?P" "SortedSuperOrder ?P priority strategy"]
  show ?thesis by (simp add: initial_state_def)
qed

section \<open>Classes of the problem and super buffers\<close>

lemma member_ids_class: "member_ids p s = buf_id ` class_members p s"
  by (simp add: member_ids_def class_members_def image_image)

lemma is_class_closed:
  assumes "well_formed p" "is_class p s" "b \<in> class_members p s" "b' \<in> set (buffers p)"
  shows "b' \<in> class_members p s \<longleftrightarrow> same_class p (buf_id b) (buf_id b')"
  using assms unfolding is_class_def by blast

lemma is_class_extent: "is_class p s \<Longrightarrow> b \<in> class_members p s \<Longrightarrow> sb_size s = class_extent p (buf_id b)"
  unfolding is_class_def by blast

lemma member_of_class:
  assumes "prepared_ok p P" "b \<in> set (buffers p)" "distinct (map buf_id (buffers p))"
  obtains k where "k < length (supers P)" "b \<in> class_members p (supers P ! k)"
proof -
  have "buf_id b \<in> buffer_ids p" using assms(2) by (simp add: buffer_ids_def)
  then obtain k where k: "k < length (supers P)" "buf_id b \<in> member_ids p (supers P ! k)"
    using prepared_okD(4) [OF assms(1)] by blast
  then obtain b' where b': "b' \<in> class_members p (supers P ! k)" "buf_id b' = buf_id b"
    by (auto simp: member_ids_class)
  moreover have "b' \<in> set (buffers p)"
    using b'(1) prepared_okD(1) [OF assms(1) k(1)] by (auto simp: is_class_def class_members_def)
  ultimately have "b' = b" using assms(2,3) by (metis FindBuffer_in_set option.inject)
  then show thesis using that k(1) b'(1) by blast
qed

text \<open>A valid solution gives all members of a class one placement.\<close>

lemma valid_same_class:
  assumes "valid_solution p s" "same_class p a b"
  shows "Find s a = Find s b"
  using assms(2) unfolding same_class_def
proof (induction rule: rtrancl_induct)
  case (step y z)
  have "Find s x = Find s w" if "(x, w) \<in> coloc_pairs p" for x w
    using assms(1) that by (auto simp: valid_solution_def coloc_pairs_def)
  then have "Find s y = Find s z" using step(2) by auto
  then show ?case using step.IH by simp
qed simp

section \<open>Only pins can fail\<close>

text \<open>
  The pins leave room for a placement: every member of a pinned class fits at the pin, and two pinned
  classes that block each other in one pool are apart.
\<close>

definition pins_consistent :: "DsaProblem \<Rightarrow> PreparedProblem \<Rightarrow> bool" where
  "pins_consistent p P \<longleftrightarrow>
     (\<forall>s\<in>set (supers P). \<forall>a. sb_pinned s = Some a \<longrightarrow>
        (\<forall>b\<in>class_members p s. fits_buffer (without_capacities p) b
           \<lparr>pl_pool = pin_pool a, pl_offset = pin_offset a\<rparr>)) \<and>
     (\<forall>i<length (supers P). \<forall>j<length (supers P). \<forall>a b. i \<noteq> j \<longrightarrow> blocks p P i j \<longrightarrow>
        sb_pinned (supers P ! i) = Some a \<longrightarrow> sb_pinned (supers P ! j) = Some b \<longrightarrow>
        pin_pool a = pin_pool b \<longrightarrow>
        apart (pin_offset a) (sb_size (supers P ! i)) (pin_offset b) (sb_size (supers P ! j)))"

text \<open>The engine's placement of a whole prepared problem.\<close>

definition engine_output :: "DsaProblem \<Rightarrow> PreparedProblem \<Rightarrow> PlaceState \<Rightarrow> bool" where
  "engine_output p P st \<longleftrightarrow>
     well_formed p \<and> prepared_ok p P \<and> \<not> flexible_pools P \<and> place_inv p P st \<and>
     set (ps_placed st) = {..<length (supers P)}"

lemma engine_outputD:
  assumes "engine_output p P st" and k: "k < length (supers P)"
  shows "moved (supers P ! k) (ps_supers st ! k)" "placed_class p (ps_supers st ! k)"
    "is_class p (supers P ! k)" "is_pinned_class p (supers P ! k)"
    "a \<in> member_ids p (supers P ! k) \<Longrightarrow> Find (ps_solution st) a = Some (super_placement (ps_supers st ! k))"
proof -
  have inv: "place_inv p P st" "k \<in> set (ps_placed st)" and ok: "prepared_ok p P"
    using assms by (simp_all add: engine_output_def)
  show "moved (supers P ! k) (ps_supers st ! k)" "placed_class p (ps_supers st ! k)"
    using inv k unfolding place_inv_def by blast+
  show "is_class p (supers P ! k)" "is_pinned_class p (supers P ! k)"
    using prepared_okD(1,2) [OF ok k] .
  show "a \<in> member_ids p (supers P ! k) \<Longrightarrow>
      Find (ps_solution st) a = Some (super_placement (ps_supers st ! k))"
    using inv unfolding place_inv_def by blast
qed

lemma engine_pools:
  assumes out: "engine_output p P st" and k: "k < length (supers P)" and b: "b \<in> class_members p (supers P ! k)"
    and "sb_pinned (supers P ! k) = None"
  shows "super_pool (supers P ! k) \<in> set (allowed_pools b)"
proof -
  have c: "is_class p (supers P ! k)" by (rule engine_outputD(3) [OF out k])
  then have "sb_allowed_pools (supers P ! k) \<noteq> []" unfolding is_class_def by blast
  then have "super_pool (supers P ! k) \<in> set (sb_allowed_pools (supers P ! k))"
    using assms(4) by (simp add: super_pool_def)
  also have "\<dots> = (\<Inter>b\<in>class_members p (supers P ! k). set (allowed_pools b))"
    using c unfolding is_class_def by blast
  finally show ?thesis using b by blast
qed

lemma engine_apart:
  assumes out: "engine_output p P st" and pins: "pins_consistent p P"
    and ij: "i < length (supers P)" "j < length (supers P)" "i \<noteq> j" "blocks p P i j"
    and pool: "sb_placed_pool (ps_supers st ! i) = sb_placed_pool (ps_supers st ! j)"
  shows "apart (sb_offset (ps_supers st ! i)) (sb_size (supers P ! i))
    (sb_offset (ps_supers st ! j)) (sb_size (supers P ! j))"
proof -
  note mi = moved_simps [OF engine_outputD(1) [OF out ij(1)]]
  note mj = moved_simps [OF engine_outputD(1) [OF out ij(2)]]
  have pi: "placed_class p (ps_supers st ! i)" and pj: "placed_class p (ps_supers st ! j)"
    using engine_outputD(2) [OF out] ij by blast+
  have same: "super_pool (supers P ! i) = super_pool (supers P ! j)"
    using pool pi pj by (simp add: placed_class_def mi mj)
  show ?thesis
  proof (cases "sb_pinned (supers P ! i) = None \<or> sb_pinned (supers P ! j) = None")
    case True
    have "kept_apart p P (ps_supers st) i j"
      using out ij by (simp add: engine_output_def place_inv_def)
    then show ?thesis using True ij(4) same by (simp add: kept_apart_def mi mj)
  next
    case False
    then obtain a b where ab: "sb_pinned (supers P ! i) = Some a" "sb_pinned (supers P ! j) = Some b" by auto
    then have "pin_pool a = pin_pool b" using same by (simp add: super_pool_def)
    then have "apart (pin_offset a) (sb_size (supers P ! i)) (pin_offset b) (sb_size (supers P ! j))"
      using pins ij ab unfolding pins_consistent_def by blast
    then show ?thesis using pi pj ab by (simp add: placed_class_def mi mj)
  qed
qed

lemma fits_buffer_without_capacities:
  "fits_buffer (without_capacities p) b pl \<longleftrightarrow>
     pl_pool pl \<in> set (allowed_pools b) \<and> unat (alignment b) dvd unat (pl_offset pl) \<and>
     unat (pl_offset pl) + unat (buf_size b) < 18446744073709551616 \<and>
     (\<forall>q. FindPool p (pl_pool pl) = Some q \<longrightarrow> (\<forall>r\<in>set (reserved_ranges q).
        bytes (pl_offset pl) (buf_size b) \<inter> range_bytes (range_begin r) (range_end r) = {}))"
  unfolding fits_buffer_def FindPool_without_capacities by (cases "FindPool p (pl_pool pl)") simp_all

lemma engine_fits:
  assumes out: "engine_output p P st" and pins: "pins_consistent p P"
    and k: "k < length (supers P)" and b: "b \<in> class_members p (supers P ! k)"
  shows "fits_buffer (without_capacities p) b (super_placement (ps_supers st ! k))"
proof (cases "sb_pinned (supers P ! k)")
  case (Some a)
  have "super_placement (ps_supers st ! k) = \<lparr>pl_pool = pin_pool a, pl_offset = pin_offset a\<rparr>"
    using engine_outputD(2) [OF out k] Some
    by (simp add: placed_class_def moved_simps [OF engine_outputD(1) [OF out k]] super_placement_def super_pool_def)
  then show ?thesis using pins k b Some unfolding pins_consistent_def by (metis nth_mem)
next
  case None
  let ?t = "ps_supers st ! k" and ?s = "supers P ! k"
  have wf: "well_formed p" using out by (simp add: engine_output_def)
  have c: "is_class p ?s" by (rule engine_outputD(3) [OF out k])
  note m = moved_simps [OF engine_outputD(1) [OF out k]]
  have pc: "sb_placed_pool ?t = super_pool ?s" "\<not> AddOverflows (sb_offset ?t) (sb_size ?s)"
    "aligned_to (sb_alignment ?s) (sb_offset ?t)"
    "\<And>q r. FindPool p (super_pool ?s) = Some q \<Longrightarrow> r \<in> set (reserved_ranges q) \<Longrightarrow>
       bytes (sb_offset ?t) (sb_size ?s) \<inter> range_bytes (range_begin r) (range_end r) = {}"
    using engine_outputD(2) [OF out k] None by (auto simp: placed_class_def m)
  have bb: "b \<in> set (buffers p)" using is_class_alignment(3) [OF wf c] b by blast
  have "sb_size ?s = class_extent p (buf_id b)" using c b unfolding is_class_def by blast
  then have le: "unat (buf_size b) \<le> unat (sb_size ?s)"
    using class_extent_pos(2) [OF wf bb] by (simp add: word_le_nat_alt)
  have "unat (alignment b) dvd unat (sb_offset ?t)"
    using is_class_alignment(2) [OF wf c b] pc(3) unfolding aligned_to_def by (rule dvd_trans)
  moreover have "unat (sb_offset ?t) + unat (buf_size b) < 18446744073709551616"
    using pc(2) le by (simp add: AddOverflows_less)
  moreover have "bytes (sb_offset ?t) (buf_size b) \<inter> range_bytes (range_begin r) (range_end r) = {}"
    if "FindPool p (super_pool ?s) = Some q" "r \<in> set (reserved_ranges q)" for q r
    using pc(4) [OF that] bytes_subset [OF le] by blast
  ultimately show ?thesis
    using engine_pools [OF out k b None] pc(1)
    unfolding fits_buffer_without_capacities by (simp add: super_placement_def)
qed

lemma engine_class_of:
  assumes out: "engine_output p P st" and b: "b \<in> set (buffers p)"
  obtains k where "k < length (supers P)" "b \<in> class_members p (supers P ! k)"
    "Find (ps_solution st) (buf_id b) = Some (super_placement (ps_supers st ! k))"
    "sb_size (supers P ! k) = class_extent p (buf_id b)"
proof -
  have "prepared_ok p P" "distinct (map buf_id (buffers p))"
    using out well_formedD(2) by (auto simp: engine_output_def)
  then obtain k where k: "k < length (supers P)" "b \<in> class_members p (supers P ! k)"
    using member_of_class b by blast
  moreover have "sb_size (supers P ! k) = class_extent p (buf_id b)"
    using engine_outputD(3) [OF out k(1)] k(2) unfolding is_class_def by blast
  moreover have "buf_id b \<in> member_ids p (supers P ! k)" using k(2) by (simp add: member_ids_class)
  ultimately show thesis using that engine_outputD(5) [OF out k(1)] by blast
qed

lemma same_class_same_super:
  assumes ok: "well_formed p" "prepared_ok p P" and b: "b \<in> set (buffers p)" "b' \<in> set (buffers p)"
    and k: "i < length (supers P)" "b \<in> class_members p (supers P ! i)"
      "j < length (supers P)" "b' \<in> class_members p (supers P ! j)"
  shows "i = j \<longleftrightarrow> same_class p (buf_id b) (buf_id b')"
proof
  assume "i = j"
  then show "same_class p (buf_id b) (buf_id b')"
    using is_class_closed [OF ok(1) prepared_okD(1) [OF ok(2) k(1)] k(2) b(2)] k(4) by blast
next
  assume "same_class p (buf_id b) (buf_id b')"
  then have "b' \<in> class_members p (supers P ! i)"
    using is_class_closed [OF ok(1) prepared_okD(1) [OF ok(2) k(1)] k(2) b(2)] by blast
  then have "buf_id b' \<in> member_ids p (supers P ! i) \<inter> member_ids p (supers P ! j)"
    using k(4) by (simp add: member_ids_class)
  then show "i = j" using prepared_okD(3) [OF ok(2) k(1,3)] by blast
qed

lemma must_not_share_blocks:
  assumes ok: "prepared_ok p P" and "must_not_share p b b'"
    and k: "i < length (supers P)" "b \<in> class_members p (supers P ! i)"
      "j < length (supers P)" "b' \<in> class_members p (supers P ! j)"
  shows "blocks p P i j"
proof -
  have excl: "sb_pinned_exclusive (supers P ! k)"
    if k: "k < length (supers P)" "c \<in> class_members p (supers P ! k)" "buf_id c \<in> exclusive_pin_ids p" for k c
  proof -
    have "buf_id c \<in> member_ids p (supers P ! k)" using k(2) by (simp add: member_ids_class)
    then show ?thesis
      using prepared_okD(2) [OF ok k(1)] k(3) unfolding is_pinned_class_def by (auto simp: exclusive_pin_ids_def)
  qed
  have "SuperBuffersConflict p (supers P ! i) (supers P ! j)" if "HaveTemporalConflict p b b'"
    using that k by (auto simp: SuperBuffersConflict_iff)
  then show ?thesis
    using assms(2) excl [OF k(1,2)] excl [OF k(3,4)] unfolding must_not_share_def blocks_def by blast
qed

lemma engine_placed_apart:
  assumes out: "engine_output p P st" and pins: "pins_consistent p P"
    and b: "b \<in> set (buffers p)" "b' \<in> set (buffers p)"
    and blk: "\<And>i j. i < length (supers P) \<Longrightarrow> b \<in> class_members p (supers P ! i) \<Longrightarrow>
      j < length (supers P) \<Longrightarrow> b' \<in> class_members p (supers P ! j) \<Longrightarrow> i \<noteq> j \<and> blocks p P i j"
  shows "placed_apart p (ps_solution st) (buf_id b) (buf_id b')"
proof -
  obtain i where i: "i < length (supers P)" "b \<in> class_members p (supers P ! i)"
    "Find (ps_solution st) (buf_id b) = Some (super_placement (ps_supers st ! i))"
    "sb_size (supers P ! i) = class_extent p (buf_id b)"
    using engine_class_of [OF out b(1)] by blast
  obtain j where j: "j < length (supers P)" "b' \<in> class_members p (supers P ! j)"
    "Find (ps_solution st) (buf_id b') = Some (super_placement (ps_supers st ! j))"
    "sb_size (supers P ! j) = class_extent p (buf_id b')"
    using engine_class_of [OF out b(2)] by blast
  have "i \<noteq> j" "blocks p P i j" using blk [OF i(1,2) j(1,2)] by auto
  from engine_apart [OF out pins i(1) j(1) this] show ?thesis
    using i(3,4) j(3,4) by (simp add: placed_apart_def super_placement_def)
qed

lemma engine_valid:
  assumes out: "engine_output p P st" and pins: "pins_consistent p P"
  shows "valid_solution (without_capacities p) (ps_solution st)"
proof -
  let ?s = "ps_solution st"
  have ok: "well_formed p" "prepared_ok p P" and inv: "place_inv p P st"
    using out by (simp_all add: engine_output_def)
  note d = well_formedD(2) [OF ok(1)]
  have fits: "\<exists>pl. Find ?s (buf_id b) = Some pl \<and> fits_buffer (without_capacities p) b pl"
    if "b \<in> set (buffers p)" for b
    using engine_class_of [OF out that] engine_fits [OF out pins] by metis
  have entries: "i \<in> buffer_ids p \<and> pl_pool pl \<in> pool_id ` set (pools p)"
    if "(i, pl) \<in> set (placements ?s)" for i pl
  proof -
    have "Find ?s i = Some pl"
      using that inv om_ok_in_set by (fastforce simp: place_inv_def Find_def)
    then obtain k where "k < length (supers P)" "i \<in> member_ids p (supers P ! k)"
      using inv unfolding place_inv_def by blast
    then obtain b where b: "b \<in> set (buffers p)" "buf_id b = i"
      using is_class_alignment(3) [OF ok(1) prepared_okD(1) [OF ok(2)]] by (force simp: member_ids_class)
    have "fits_buffer (without_capacities p) b pl"
      using fits [OF b(1)] \<open>Find ?s i = Some pl\<close> b(2) by simp
    then have "pl_pool pl \<in> set (allowed_pools b)" by (simp add: fits_buffer_def)
    then show ?thesis
      using well_formedD(4) [OF ok(1) b(1)] b by (auto simp: wf_buffer_def buffer_ids_def)
  qed
  have cols: "Find ?s (col_first c) = Find ?s (col_second c)" if c: "c \<in> set (colocations p)" for c
  proof -
    obtain b b' where b: "b \<in> set (buffers p)" "buf_id b = col_first c" "b' \<in> set (buffers p)"
      "buf_id b' = col_second c"
      using well_formedD(5) [OF ok(1) c] by (auto simp: buffer_ids_def)
    obtain i where i: "i < length (supers P)" "b \<in> class_members p (supers P ! i)"
      "Find ?s (buf_id b) = Some (super_placement (ps_supers st ! i))"
      using engine_class_of [OF out b(1)] by blast
    obtain j where j: "j < length (supers P)" "b' \<in> class_members p (supers P ! j)"
      "Find ?s (buf_id b') = Some (super_placement (ps_supers st ! j))"
      using engine_class_of [OF out b(3)] by blast
    have "i = j"
      using same_class_same_super [OF ok b(1,3) i(1,2) j(1,2)] same_class_colocation [OF c] b by simp
    then show ?thesis using i(3) j(3) b by simp
  qed
  have share: "placed_apart p ?s (buf_id b) (buf_id b')"
    if bb: "b \<in> set (buffers p)" "b' \<in> set (buffers p)" "must_not_share p b b'"
      "\<not> same_class p (buf_id b) (buf_id b')" for b b'
    by (rule engine_placed_apart [OF out pins bb(1,2)])
      (use same_class_same_super [OF ok bb(1,2)] must_not_share_blocks [OF ok(2) bb(3)] bb(4) in blast)
  have seps: "placed_apart p ?s (sep_first c) (sep_second c)" if c: "c \<in> set (separations p)" for c
  proof -
    obtain b b' where b: "b \<in> set (buffers p)" "buf_id b = sep_first c" "b' \<in> set (buffers p)"
      "buf_id b' = sep_second c"
      using well_formedD(6) [OF ok(1) c] by (auto simp: wf_separation_def buffer_ids_def)
    have "i \<noteq> j \<and> blocks p P i j"
      if ij: "i < length (supers P)" "b \<in> class_members p (supers P ! i)"
        "j < length (supers P)" "b' \<in> class_members p (supers P ! j)" for i j
    proof -
      have "id_to_super P (sep_first c) = Some i" "id_to_super P (sep_second c) = Some j"
        using prepared_okD(5) [OF ok(2)] ij b(2,4) by (metis imageI member_ids_class)+
      note ids = this
      have "Separated P i j" unfolding prepared_okD(6) [OF ok(2)] using c ids by blast
      then show ?thesis using prepared_okD(7) [OF ok(2) c] ids unfolding blocks_def by auto
    qed
    from engine_placed_apart [OF out pins b(1,3) this] show ?thesis using b by simp
  qed
  have pinned: "Find ?s (pin_buffer a) = Some \<lparr>pl_pool = pin_pool a, pl_offset = pin_offset a\<rparr>"
    if a: "a \<in> set (pinned_allocations p)" for a
  proof -
    have "pin_buffer a \<in> buffer_ids p" by (rule wf_pinned_known [OF well_formedD(8) [OF ok(1) a]])
    then obtain k where k: "k < length (supers P)" "pin_buffer a \<in> member_ids p (supers P ! k)"
      using prepared_okD(4) [OF ok(2)] by blast
    obtain q where q: "sb_pinned (supers P ! k) = Some q" "pinned_as a q"
      using prepared_okD(2) [OF ok(2) k(1)] a k(2) unfolding is_pinned_class_def by blast
    have "placed_class p (ps_supers st ! k)" by (rule engine_outputD(2) [OF out k(1)])
    then show ?thesis
      using q engine_outputD(5) [OF out k]
      by (simp add: placed_class_def moved_simps [OF engine_outputD(1) [OF out k(1)]] super_placement_def
          super_pool_def pinned_as_def)
  qed
  show ?thesis
    unfolding valid_solution_def without_capacities_simps without_capacities_classes
    using entries fits cols share seps pinned by blast
qed

text \<open>Any valid solution, and any problem without pins, makes the pins consistent.\<close>

lemma valid_pins_consistent:
  assumes ok: "well_formed p" "prepared_ok p P" and v: "valid_solution (without_capacities p) s"
  shows "pins_consistent p P"
proof -
  have at_pin: "Find s (buf_id b) = Some \<lparr>pl_pool = pin_pool a, pl_offset = pin_offset a\<rparr>"
    if k: "k < length (supers P)" "sb_pinned (supers P ! k) = Some a" "b \<in> class_members p (supers P ! k)"
    for k a b
  proof -
    have a: "a \<in> set (pinned_allocations p)" "pin_buffer a \<in> member_ids p (supers P ! k)"
      using prepared_okD(2) [OF ok(2) k(1)] k(2) unfolding is_pinned_class_def by blast+
    obtain b' where b': "b' \<in> class_members p (supers P ! k)" "buf_id b' = pin_buffer a"
      using a(2) by (auto simp: member_ids_class)
    have "b \<in> set (buffers p)" using k(3) is_class_alignment(3) [OF ok(1) prepared_okD(1) [OF ok(2) k(1)]] by blast
    then have "same_class p (buf_id b') (buf_id b)"
      using is_class_closed [OF ok(1) prepared_okD(1) [OF ok(2) k(1)] b'(1)] k(3) by blast
    then have "Find s (buf_id b') = Find s (buf_id b)"
      using valid_same_class [OF v] by simp
    then show ?thesis using v a(1) b'(2) by (simp add: valid_solution_def)
  qed
  have fit: "fits_buffer (without_capacities p) b \<lparr>pl_pool = pin_pool a, pl_offset = pin_offset a\<rparr>"
    if k: "k < length (supers P)" "sb_pinned (supers P ! k) = Some a" "b \<in> class_members p (supers P ! k)"
    for k a b
  proof -
    have "b \<in> set (buffers p)" using k(3) is_class_alignment(3) [OF ok(1) prepared_okD(1) [OF ok(2) k(1)]] by blast
    then obtain pl where "Find s (buf_id b) = Some pl" "fits_buffer (without_capacities p) b pl"
      using v by (auto simp: valid_solution_def)
    then show ?thesis using at_pin [OF k] by simp
  qed
  have ap: "apart (pin_offset a) (sb_size (supers P ! i)) (pin_offset a') (sb_size (supers P ! j))"
    if ij: "i < length (supers P)" "j < length (supers P)" "i \<noteq> j" "blocks p P i j"
      "sb_pinned (supers P ! i) = Some a" "sb_pinned (supers P ! j) = Some a'" "pin_pool a = pin_pool a'"
    for i j a a'
  proof -
    note ci = prepared_okD(1) [OF ok(2) ij(1)] and cj = prepared_okD(1) [OF ok(2) ij(2)]
    have conclude: ?thesis
      if bb: "b \<in> class_members p (supers P ! i)" "b' \<in> class_members p (supers P ! j)"
        "placed_apart p s (buf_id b) (buf_id b')" for b b'
    proof -
      have "sb_size (supers P ! i) = class_extent p (buf_id b)"
        "sb_size (supers P ! j) = class_extent p (buf_id b')"
        by (rule is_class_extent [OF ci bb(1)], rule is_class_extent [OF cj bb(2)])
      then show ?thesis
        using bb(3) at_pin [OF ij(1,5) bb(1)] at_pin [OF ij(2,6) bb(2)] ij(7) by (simp add: placed_apart_def)
    qed
    have mns: ?thesis
      if bb: "b \<in> class_members p (supers P ! i)" "b' \<in> class_members p (supers P ! j)" "must_not_share p b b'"
      for b b'
    proof (rule conclude [OF bb(1,2)])
      have mem: "b \<in> set (buffers p)" "b' \<in> set (buffers p)"
        using bb(1,2) is_class_alignment(3) [OF ok(1)] ci cj by blast+
      moreover have "\<not> same_class p (buf_id b) (buf_id b')"
        using same_class_same_super [OF ok mem ij(1) bb(1) ij(2) bb(2)] ij(3) by blast
      ultimately show "placed_apart p s (buf_id b) (buf_id b')"
        using v bb(3) by (simp add: valid_solution_def)
    qed
    have excl: "\<exists>b\<in>class_members p (supers P ! k). buf_id b \<in> exclusive_pin_ids p"
      if k: "k < length (supers P)" "sb_pinned_exclusive (supers P ! k)" for k
    proof -
      obtain e where "e \<in> set (pinned_allocations p)" "pin_buffer e \<in> member_ids p (supers P ! k)"
        "exclusive_for_all_time e"
        using prepared_okD(2) [OF ok(2) k(1)] k(2) unfolding is_pinned_class_def by blast
      moreover from this(2) obtain b where "b \<in> class_members p (supers P ! k)" "buf_id b = pin_buffer e"
        by (auto simp: member_ids_class)
      ultimately show ?thesis by (intro bexI [of _ b]) (simp_all add: exclusive_pin_ids_def)
    qed
    obtain b0 b1 where b01: "b0 \<in> class_members p (supers P ! i)" "b1 \<in> class_members p (supers P ! j)"
      using is_class_alignment(4) [OF ok(1) ci] is_class_alignment(4) [OF ok(1) cj] by blast
    from ij(4) show ?thesis
      unfolding blocks_def
    proof (elim disjE)
      assume "SuperBuffersConflict p (supers P ! i) (supers P ! j)"
      then show ?thesis using mns by (auto simp: SuperBuffersConflict_iff must_not_share_def)
    next
      assume "sb_pinned_exclusive (supers P ! i)"
      then show ?thesis using excl [OF ij(1)] mns b01(2) by (auto simp: must_not_share_def)
    next
      assume "sb_pinned_exclusive (supers P ! j)"
      then show ?thesis using excl [OF ij(2)] mns b01(1) by (auto simp: must_not_share_def)
    next
      assume "Separated P i j"
      then obtain c u w where c: "c \<in> set (separations p)" "id_to_super P (sep_first c) = Some u"
        "id_to_super P (sep_second c) = Some w" "{u, w} = {i, j}"
        using prepared_okD(6) [OF ok(2)] by blast
      have "sep_first c \<in> member_ids p (supers P ! u)" "sep_second c \<in> member_ids p (supers P ! w)"
        using prepared_okD(5) [OF ok(2)] c by blast+
      then obtain x y where xy: "x \<in> class_members p (supers P ! u)" "buf_id x = sep_first c"
        "y \<in> class_members p (supers P ! w)" "buf_id y = sep_second c"
        by (auto simp: member_ids_class)
      have ap: "placed_apart p s (sep_first c) (sep_second c)"
        using v c(1) by (simp add: valid_solution_def)
      from c(4) have "u = i \<and> w = j \<or> u = j \<and> w = i" by (auto simp: doubleton_eq_iff)
      then show ?thesis
      proof (elim disjE conjE)
        assume "u = i" "w = j"
        then show ?thesis using conclude [of x y] xy ap by simp
      next
        assume "u = j" "w = i"
        then show ?thesis using conclude [of y x] xy ap placed_apart_commute [of p s "sep_first c"] by simp
      qed
    qed
  qed
  have "\<forall>s\<in>set (supers P). \<forall>a. sb_pinned s = Some a \<longrightarrow> (\<forall>b\<in>class_members p s.
      fits_buffer (without_capacities p) b \<lparr>pl_pool = pin_pool a, pl_offset = pin_offset a\<rparr>)"
    using fit by (metis in_set_conv_nth)
  then show ?thesis unfolding pins_consistent_def using ap by simp
qed

lemma unpinned_consistent:
  assumes "prepared_ok p P" "pinned_allocations p = []"
  shows "pins_consistent p P"
proof -
  have "sb_pinned (supers P ! k) = None" if "k < length (supers P)" for k
    using prepared_okD(2) [OF assms(1) that] assms(2) by (auto simp: is_pinned_class_def)
  then have "\<forall>s\<in>set (supers P). sb_pinned s = None" by (auto simp: in_set_conv_nth)
  then show ?thesis unfolding pins_consistent_def by simp
qed

section \<open>The result of the engine\<close>

lemma over_capacity_message_Nil:
  "over_capacity_message (EvaluateObjective p s) q = [] \<longleftrightarrow>
   (\<forall>c. capacity q = Some c \<longrightarrow> pool_peak p s (pool_id q) \<le> c)"
proof (cases "map_of (peak_by_pool (EvaluateObjective p s)) (pool_id q)")
  case None
  then have "pool_peak p s (pool_id q) = 0" by (simp add: peak_by_pool_get [symmetric] om_get_def)
  then show ?thesis using None by (auto simp: over_capacity_message_def split: option.splits)
next
  case (Some peak)
  then have "pool_peak p s (pool_id q) = peak" by (simp add: peak_by_pool_get [symmetric] om_get_def)
  then show ?thesis using Some by (auto simp: over_capacity_message_def not_less split: option.splits)
qed

lemma over_capacity_messages_Nil:
  "concat (map (over_capacity_message (EvaluateObjective p s)) (pools p)) = [] \<longleftrightarrow>
   EvaluateObjectiveMetric p (EvaluateObjective p s) kCapacityOverflow = 0"
  unfolding capacity_overflow_0_iff errors_simps over_capacity_message_Nil ..

lemma structure_and_peaks:
  assumes "well_formed p"
  shows "ValidateSolution p s = [] \<longleftrightarrow>
    ValidateSolution (without_capacities p) s = [] \<and>
    EvaluateObjectiveMetric p (EvaluateObjective p s) kCapacityOverflow = 0"
  using assms valid_solution_capacities [OF assms] well_formed_without_capacities
    valid_solution_without_capacities valid_solution_no_overflow
  unfolding ValidateSolution_Nil capacity_overflow_0_iff by blast

lemma finish_placement_cases:
  "ValidateSolution (without_capacities p) s \<noteq> [] \<Longrightarrow> status (finish_placement p s) = kInfeasibleProven"
  "ValidateSolution (without_capacities p) s = [] \<Longrightarrow>
   EvaluateObjectiveMetric p (EvaluateObjective p s) kCapacityOverflow \<noteq> 0 \<Longrightarrow>
   status (finish_placement p s) = kBestEffortNoFit"
  "well_formed p \<Longrightarrow> ValidateSolution p s = [] \<Longrightarrow> status (finish_placement p s) = kFeasible"
  "solution (finish_placement p s) = Some s"
  "res_objective (finish_placement p s) = EvaluateObjective p s"
  using over_capacity_messages_Nil [of p s] structure_and_peaks [of p s]
  by (auto simp: finish_placement_def Let_def simp del: EvaluateObjectiveMetric.simps concat_eq_Nil_conv)

lemma finish_placement_feasible:
  assumes "well_formed p"
  shows "status (finish_placement p s) = kFeasible \<longleftrightarrow> ValidateSolution p s = []"
  using finish_placement_cases(1-3) [of p s] structure_and_peaks [OF assms, of s] assms
  by (metis SolveStatus.distinct(1,3))

text \<open>Every outcome of \<open>PlaceWithOrder\<close>.\<close>

lemma place_error_status:
  "place_supers p P strategy st order = Inl e \<Longrightarrow> fst e \<in> {kInvalidProblem, kBestEffortNoFit}"
proof (induction order arbitrary: st)
  case (Cons k order)
  have "fst e \<in> {kInvalidProblem, kBestEffortNoFit}" if "place_super p P strategy st k = Inl e"
    using that by (auto simp: place_super_def choose_offset_def Let_def split: option.splits sum.splits if_splits)
  with Cons show ?case by (auto split: sum.splits)
qed simp

lemma PlaceWithOrder_cases:
  obtains (invalid) "prepare_errors (Prepare p) \<noteq> []" "status (PlaceWithOrder p priority strategy) = kInvalidProblem"
      "solution (PlaceWithOrder p priority strategy) = None"
  | (unsupported) "prepare_errors (Prepare p) = []" "flexible_pools (Prepare p)"
      "status (PlaceWithOrder p priority strategy) = kUnsupported"
      "solution (PlaceWithOrder p priority strategy) = None"
  | (stuck) "prepare_errors (Prepare p) = []" "\<not> flexible_pools (Prepare p)"
      "status (PlaceWithOrder p priority strategy) \<in> {kInvalidProblem, kBestEffortNoFit}"
      "solution (PlaceWithOrder p priority strategy) = None"
  | (placed) st where "engine_output p (Prepare p) st"
      "PlaceWithOrder p priority strategy = finish_placement p (ps_solution st)"
proof -
  let ?P = "Prepare p"
  let ?order = "pinned_first (supers ?P) (SortedSuperOrder ?P priority strategy)"
  have init: "\<lparr>ps_supers = supers ?P, ps_placed = [], ps_solution = \<lparr>placements = []\<rparr>\<rparr> = initial_state ?P"
    by (simp add: initial_state_def)
  show thesis
  proof (cases "prepare_errors ?P = []")
    case False
    then show ?thesis using invalid by (simp add: PlaceWithOrder_def DsaResult_default_def Let_def)
  next
    case ok: True
    show ?thesis
    proof (cases "flexible_pools ?P")
      case True
      then show ?thesis using unsupported ok by (simp add: PlaceWithOrder_def DsaResult_default_def Let_def)
    next
      case rigid: False
      show ?thesis
      proof (cases "place_supers p ?P strategy (initial_state ?P) ?order")
        case (Inl e)
        moreover have "fst e \<in> {kInvalidProblem, kBestEffortNoFit}" by (rule place_error_status [OF Inl])
        ultimately show ?thesis
          using stuck ok rigid
          by (cases e) (simp add: PlaceWithOrder_def init DsaResult_default_def Let_def)
      next
        case (Inr st)
        have "engine_output p ?P st"
          using place_all_inv [OF ok Inr] Prepare_ok [OF ok] rigid by (simp add: engine_output_def)
        then show ?thesis using placed [of st] ok rigid Inr by (simp add: PlaceWithOrder_def init Let_def)
      qed
    qed
  qed
qed

lemma PlaceWithOrder_feasible:
  assumes "status (PlaceWithOrder p priority strategy) = kFeasible"
  shows "\<exists>s. solution (PlaceWithOrder p priority strategy) = Some s \<and> ValidateSolution p s = [] \<and>
    res_objective (PlaceWithOrder p priority strategy) = EvaluateObjective p s"
proof (cases p priority strategy rule: PlaceWithOrder_cases)
  case (placed st)
  then have "ValidateSolution p (ps_solution st) = []"
    using assms finish_placement_feasible by (simp add: engine_output_def)
  then show ?thesis using placed(2) by (simp add: finish_placement_cases(4,5))
qed (use assms in auto)

lemma PlaceWithOrder_structure:
  assumes "status (PlaceWithOrder p priority strategy) = kInfeasibleProven"
  shows "\<not> pins_consistent p (Prepare p) \<and> well_formed p \<and> prepared_ok p (Prepare p)"
proof (cases p priority strategy rule: PlaceWithOrder_cases)
  case (placed st)
  have wf: "well_formed p" "prepared_ok p (Prepare p)" using placed(1) by (simp_all add: engine_output_def)
  have "\<not> pins_consistent p (Prepare p)"
  proof
    assume "pins_consistent p (Prepare p)"
    from engine_valid [OF placed(1) this]
    have v: "ValidateSolution (without_capacities p) (ps_solution st) = []"
      by (simp add: ValidateSolution_Nil well_formed_without_capacities wf)
    show False
      using finish_placement_cases(2) [OF v] finish_placement_cases(3) [OF wf(1)]
        structure_and_peaks [OF wf(1), of "ps_solution st"] v assms placed(2) by fastforce
  qed
  then show ?thesis using wf by blast
qed (use assms in auto)

lemma PlaceWithOrder_infeasible:
  assumes "status (PlaceWithOrder p priority strategy) = kInfeasibleProven"
  shows "\<not> valid_solution p s"
  using PlaceWithOrder_structure [OF assms] valid_pins_consistent valid_solution_without_capacities by blast

lemma PlaceWithOrder_unpinned:
  assumes "pinned_allocations p = []"
  shows "status (PlaceWithOrder p priority strategy) \<noteq> kInfeasibleProven"
  using PlaceWithOrder_structure unpinned_consistent assms by blast

end
