(* ===== verification/Reuse_Search.thy ===== *)
theory Reuse_Search
  imports Placement_Spec
begin

text \<open>
  \<^verbatim>\<open>src/dsa/algorithms/reuse_penalty_search.cpp\<close>: the normalised search view of the reuse-penalty
  solvers. Nodes are colocation classes, hard neighbours are the conflicts of the placement search
  space, and the penalties between two classes are added up to one soft weight.
\<close>

type_synonym ReuseNodePair = "nat \<times> nat"

record ReusePenaltySearchSpace =
  placement :: PlacementSearchSpace
  node_by_buffer :: "BufferId \<rightharpoonup> nat"
  hard_neighbors :: "nat list list"
  soft_weights :: "(ReuseNodePair, u64) omap"
  soft_neighbors :: "(nat \<times> u64) list list"

definition CanonicalNodePair :: "nat \<Rightarrow> nat \<Rightarrow> ReuseNodePair" where
  "CanonicalNodePair first second = (if first < second then (first, second) else (second, first))"

abbreviation search_nodes :: "ReusePenaltySearchSpace \<Rightarrow> PlacementSearchNode list" where
  "search_nodes search \<equiv> nodes (placement search)"

section \<open>Building the search space\<close>

definition index_representatives :: "PlacementSearchNode list \<Rightarrow> (BufferId \<rightharpoonup> nat)" where
  "index_representatives ns = um_emplace_all (zip (map node_representative ns) [0..<length ns])"

definition index_node_members :: "PlacementSearchNode list \<Rightarrow> (BufferId \<rightharpoonup> nat)" where
  "index_node_members ns =
     um_emplace_all (concat (map (\<lambda>(i, n). map (\<lambda>m. (m, i)) (node_members n)) (zip [0..<length ns] ns)))"

text \<open>A set of indices is a strictly sorted list.\<close>

definition conflict_neighbors :: "(BufferId \<rightharpoonup> nat) \<Rightarrow> PlacementSearchNode \<Rightarrow> nat list" where
  "conflict_neighbors by_rep node =
     foldl (\<lambda>s r. case by_rep r of None \<Rightarrow> s | Some i \<Rightarrow> insort_insert i s) [] (node_conflicts node)"

definition add_soft_weight ::
  "PlacementSearchNode list \<Rightarrow> (BufferId \<rightharpoonup> nat) \<Rightarrow> nat list list \<Rightarrow> (ReuseNodePair, u64) omap \<Rightarrow>
   ReusePenalty \<Rightarrow> (ReuseNodePair, u64) omap" where
  "add_soft_weight ns by_buffer hard weights penalty =
     (case (by_buffer (pen_first penalty), by_buffer (pen_second penalty)) of
        (Some first, Some second) \<Rightarrow>
          if first = second then weights
          else if node_pool (ns ! first) \<noteq> node_pool (ns ! second) \<or> second \<in> set (hard ! first)
          then weights
          else (let pair = CanonicalNodePair first second
                in om_put pair (SaturatingAdd (om_get 0 weights pair) (pen_cost penalty)) weights)
      | _ \<Rightarrow> weights)"

definition link_soft ::
  "(nat \<times> u64) list list \<Rightarrow> ReuseNodePair \<times> u64 \<Rightarrow> (nat \<times> u64) list list" where
  "link_soft adj entry =
     (case entry of ((i, j), weight) \<Rightarrow>
        (let adj' = adj[i := (adj ! i) @ [(j, weight)]] in adj'[j := (adj' ! j) @ [(i, weight)]]))"

definition BuildReusePenaltySearchSpace :: "DsaProblem \<Rightarrow> ReusePenaltySearchSpace" where
  "BuildReusePenaltySearchSpace problem =
     (let space = BuildPlacementSearchSpace problem in
      if space_errors space \<noteq> [] \<or> space_flexible_pools space
      then \<lparr>placement = space, node_by_buffer = Map.empty, hard_neighbors = [], soft_weights = [],
            soft_neighbors = []\<rparr>
      else
        let ns = nodes space;
            by_rep = index_representatives ns;
            by_buffer = index_node_members ns;
            hard = map (conflict_neighbors by_rep) ns;
            weights = (case cost_model problem of None \<Rightarrow> []
                       | Some m \<Rightarrow> foldl (add_soft_weight ns by_buffer hard) [] (reuse_penalties m))
        in \<lparr>placement = space, node_by_buffer = by_buffer, hard_neighbors = hard,
            soft_weights = weights,
            soft_neighbors = foldl link_soft (replicate (length ns) []) weights\<rparr>)"

definition DefaultReuseNodeOrder :: "DsaProblem \<Rightarrow> ReusePenaltySearchSpace \<Rightarrow> nat list" where
  "DefaultReuseNodeOrder problem search =
     (let by_rep = index_representatives (search_nodes search)
      in List.map_filter by_rep (DefaultPlacementOrder problem))"

section \<open>Placing one node\<close>

definition FitsReuseNodeAt ::
  "DsaProblem \<Rightarrow> ReusePenaltySearchSpace \<Rightarrow> bool list \<Rightarrow> u64 list \<Rightarrow> nat \<Rightarrow> u64 \<Rightarrow> bool" where
  "FitsReuseNodeAt problem search placed offsets current offset =
     (let node = search_nodes search ! current in
      if AddOverflows offset (node_size node) then False
      else case FindPool problem (node_pool node) of
        None \<Rightarrow> False
      | Some pool \<Rightarrow>
          if exceeds (offset + node_size node) (capacity pool) then False
          else if list_ex (\<lambda>r. AddressRangesOverlap offset (node_size node) (range_begin r)
                                 (range_end r - range_begin r)) (reserved_ranges pool) then False
          else \<not> list_ex (\<lambda>other. placed ! other \<and>
                    node_pool (search_nodes search ! other) = node_pool node \<and>
                    AddressRangesOverlap offset (node_size node) (offsets ! other)
                      (node_size (search_nodes search ! other)))
                 (hard_neighbors search ! current))"

definition IncrementalReuseCost ::
  "ReusePenaltySearchSpace \<Rightarrow> bool list \<Rightarrow> u64 list \<Rightarrow> nat \<Rightarrow> u64 \<Rightarrow> u64" where
  "IncrementalReuseCost search placed offsets current offset =
     (let node = search_nodes search ! current in
      foldl (\<lambda>cost (other, weight).
          if placed ! other \<and>
             AddressRangesOverlap offset (node_size node) (offsets ! other)
               (node_size (search_nodes search ! other))
          then SaturatingAdd cost weight else cost) 0 (soft_neighbors search ! current))"

definition support_top :: "ReusePenaltySearchSpace \<Rightarrow> bool list \<Rightarrow> u64 list \<Rightarrow> nat \<Rightarrow> u64 list" where
  "support_top search placed offsets other =
     (if placed ! other \<and> \<not> AddOverflows (offsets ! other) (node_size (search_nodes search ! other))
      then [offsets ! other + node_size (search_nodes search ! other)] else [])"

definition canonical_candidates ::
  "DsaProblem \<Rightarrow> ReusePenaltySearchSpace \<Rightarrow> bool list \<Rightarrow> u64 list \<Rightarrow> nat \<Rightarrow> bool \<Rightarrow> u64 list" where
  "canonical_candidates problem search placed offsets current include_soft_supports =
     [0] @
     (case FindPool problem (node_pool (search_nodes search ! current)) of
        None \<Rightarrow> [] | Some pool \<Rightarrow> map range_end (reserved_ranges pool)) @
     concat (map (support_top search placed offsets) (hard_neighbors search ! current)) @
     (if include_soft_supports
      then concat (map (\<lambda>(other, weight). support_top search placed offsets other)
                    (soft_neighbors search ! current)) else [])"

text \<open>
  The two \<open>std::set\<close>s of the source: the candidates, then the aligned candidates in increasing order.
\<close>

definition CanonicalOffsetsForNode ::
  "DsaProblem \<Rightarrow> ReusePenaltySearchSpace \<Rightarrow> bool list \<Rightarrow> u64 list \<Rightarrow> nat \<Rightarrow> bool \<Rightarrow> u64 list" where
  "CanonicalOffsetsForNode problem search placed offsets current include_soft_supports =
     sort (remdups (List.map_filter (\<lambda>c. AlignUp c (node_alignment (search_nodes search ! current)))
       (canonical_candidates problem search placed offsets current include_soft_supports)))"

section \<open>Solutions from node offsets\<close>

definition ExpandReuseNodeSolution :: "ReusePenaltySearchSpace \<Rightarrow> u64 list \<Rightarrow> DsaSolution" where
  "ExpandReuseNodeSolution search offsets =
     \<lparr>placements = foldl (\<lambda>m (index, node).
        foldl (\<lambda>m member. om_emplace member \<lparr>pl_pool = node_pool node, pl_offset = offsets ! index\<rparr> m)
          m (node_members node))
        [] (zip [0..<length (search_nodes search)] (search_nodes search))\<rparr>"

definition BuildValidatedReuseResult ::
  "DsaProblem \<Rightarrow> ReusePenaltySearchSpace \<Rightarrow> u64 list \<Rightarrow> SolveStatus \<Rightarrow> DsaResult" where
  "BuildValidatedReuseResult problem search offsets st =
     (let sol = ExpandReuseNodeSolution search offsets;
          errors = ValidateSolution problem sol
      in if errors \<noteq> []
         then DsaResult_default\<lparr>status := kInvalidProblem,
                diagnostics := ''DSA-RP algorithm produced an invalid placement'' # errors\<rparr>
         else DsaResult_default\<lparr>status := st, solution := Some sol,
                res_objective := EvaluateObjective problem sol\<rparr>)"

text \<open>The set of promoted pairs is iterated in increasing order.\<close>

definition WithPromotedReuseEdges ::
  "DsaProblem \<Rightarrow> ReusePenaltySearchSpace \<Rightarrow> ReuseNodePair list \<Rightarrow> DsaProblem" where
  "WithPromotedReuseEdges problem search promoted =
     problem\<lparr>separations := separations problem @
       map (\<lambda>(i, j). \<lparr>sep_first = node_representative (search_nodes search ! i),
                      sep_second = node_representative (search_nodes search ! j),
                      sep_reasons = [Sep_kGeneric]\<rparr>) promoted\<rparr>"

end
