(* ===== verification/Canonical_Search.thy ===== *)
theory Canonical_Search
  imports Reuse_Search "HOL-Library.List_Lexorder"
begin

text \<open>
  \<^verbatim>\<open>src/dsa/algorithms/canonical_exact_search.cpp\<close>: branch and bound over canonical placements, pool
  by pool. Within a pool the nodes are appended in increasing order of (offset, representative), and
  every offset is zero, a reserved-range end or the aligned top of a placed neighbour.
\<close>

type_synonym Score = "u64 list"

text \<open>\<open>std::vector\<close> compares lexicographically.\<close>

fun score_less :: "Score \<Rightarrow> Score \<Rightarrow> bool" where
  "score_less xs [] = False"
| "score_less [] (y # ys) = True"
| "score_less (x # xs) (y # ys) = (x < y \<or> (x = y \<and> score_less xs ys))"

lemma score_less_iff [simp]: "score_less xs ys \<longleftrightarrow> xs < ys"
  by (induction xs ys rule: score_less.induct) auto

record CanonicalExactSearchOptions =
  node_limit :: u64
  stop_after_first :: bool
  incumbent_offsets :: "u64 list option"

record CanonicalExactSearchResult =
  ces_status :: SolveStatus
  ces_offsets :: "u64 list option"
  ces_search_nodes :: u64
  ces_candidate_branches :: u64
  ces_bound_prunes :: u64

record PoolSearchResult =
  psr_status :: SolveStatus
  psr_offsets :: "u64 list"
  psr_search_nodes :: u64
  psr_candidate_branches :: u64
  psr_bound_prunes :: u64

fun metric_score :: "u64 \<Rightarrow> u64 \<Rightarrow> ObjectiveMetric \<Rightarrow> u64" where
  "metric_score cost peak kCapacityOverflow = 0"
| "metric_score cost peak kBankCost = 0"
| "metric_score cost peak kReuseCost = cost"
| "metric_score cost peak kTotalPeak = peak"
| "metric_score cost peak kMaxPeak = peak"

definition PoolScore :: "DsaProblem \<Rightarrow> u64 \<Rightarrow> u64 \<Rightarrow> Score" where
  "PoolScore problem cost peak = map (metric_score cost peak) (terms (objective problem))"

definition ReservedPeak :: "DsaProblem \<Rightarrow> PoolId \<Rightarrow> u64" where
  "ReservedPeak problem i =
     (case FindPool problem i of None \<Rightarrow> 0
      | Some pool \<Rightarrow> foldl (\<lambda>peak r. max peak (range_end r)) 0 (reserved_ranges pool))"

definition PoolReuseCost :: "ReusePenaltySearchSpace \<Rightarrow> PoolId \<Rightarrow> u64 list \<Rightarrow> u64" where
  "PoolReuseCost search pool offsets =
     foldl (\<lambda>cost ((i, j), weight).
         if node_pool (search_nodes search ! i) = pool \<and>
            AddressRangesOverlap (offsets ! i) (node_size (search_nodes search ! i))
              (offsets ! j) (node_size (search_nodes search ! j))
         then SaturatingAdd cost weight else cost) 0 (soft_weights search)"

section \<open>The state of one pool's search\<close>

record CanonicalState =
  cs_placed :: "bool list"
  cs_offsets :: "u64 list"
  cs_best_offsets :: "u64 list"
  cs_best_score :: Score
  cs_found :: bool
  cs_limit_hit :: bool
  cs_search_nodes :: u64
  cs_candidate_branches :: u64
  cs_bound_prunes :: u64

definition pool_nodes :: "ReusePenaltySearchSpace \<Rightarrow> PoolId \<Rightarrow> nat list" where
  "pool_nodes search pool =
     sort_by (\<lambda>i j. node_representative (search_nodes search ! i) < node_representative (search_nodes search ! j))
       (filter (\<lambda>i. node_pool (search_nodes search ! i) = pool) [0..<length (search_nodes search)])"

fun incumbent_fits ::
  "DsaProblem \<Rightarrow> ReusePenaltySearchSpace \<Rightarrow> u64 list \<Rightarrow> bool list \<Rightarrow> nat list \<Rightarrow> bool" where
  "incumbent_fits problem search incumbent seeded [] = True"
| "incumbent_fits problem search incumbent seeded (node # rest) =
     (if \<not> FitsReuseNodeAt problem search seeded incumbent node (incumbent ! node) then False
      else incumbent_fits problem search incumbent (seeded[node := True]) rest)"

definition usable_incumbent ::
  "DsaProblem \<Rightarrow> ReusePenaltySearchSpace \<Rightarrow> PoolId \<Rightarrow> CanonicalExactSearchOptions \<Rightarrow> u64 list option" where
  "usable_incumbent problem search pool options =
     (if stop_after_first options then None
      else case incumbent_offsets options of
        None \<Rightarrow> None
      | Some incumbent \<Rightarrow>
          if length incumbent = length (search_nodes search) \<and>
             incumbent_fits problem search incumbent (replicate (length (search_nodes search)) False)
               (pool_nodes search pool)
          then Some incumbent else None)"

definition initial_search ::
  "DsaProblem \<Rightarrow> ReusePenaltySearchSpace \<Rightarrow> PoolId \<Rightarrow> CanonicalExactSearchOptions \<Rightarrow> CanonicalState" where
  "initial_search problem search pool options =
     (let n = length (search_nodes search);
          st = \<lparr>cs_placed = replicate n False, cs_offsets = replicate n 0, cs_best_offsets = replicate n 0,
                cs_best_score = replicate (length (terms (objective problem))) UINT64_MAX,
                cs_found = False, cs_limit_hit = False, cs_search_nodes = 0, cs_candidate_branches = 0,
                cs_bound_prunes = 0\<rparr>
      in case usable_incumbent problem search pool options of
           None \<Rightarrow> st
         | Some incumbent \<Rightarrow>
             (let peak = foldl (\<lambda>peak i. max peak (incumbent ! i + node_size (search_nodes search ! i)))
                           (ReservedPeak problem pool) (pool_nodes search pool)
              in st\<lparr>cs_found := True, cs_best_offsets := incumbent,
                    cs_best_score := PoolScore problem (PoolReuseCost search pool incumbent) peak\<rparr>))"

record Branch =
  br_cost :: u64
  br_offset :: u64
  br_representative :: BufferId
  br_node :: nat

definition after_last :: "(u64 \<times> BufferId) option \<Rightarrow> u64 \<Rightarrow> BufferId \<Rightarrow> bool" where
  "after_last prev offset representative =
     (case prev of None \<Rightarrow> True
      | Some (o', r) \<Rightarrow> \<not> (offset < o' \<or> (offset = o' \<and> representative \<le> r)))"

definition branches_of ::
  "DsaProblem \<Rightarrow> ReusePenaltySearchSpace \<Rightarrow> nat list \<Rightarrow> CanonicalState \<Rightarrow> (u64 \<times> BufferId) option \<Rightarrow> Branch list" where
  "branches_of problem search ns st prev =
     concat (map (\<lambda>current.
         if cs_placed st ! current then []
         else map (\<lambda>offset. \<lparr>br_cost = IncrementalReuseCost search (cs_placed st) (cs_offsets st) current offset,
                             br_offset = offset,
                             br_representative = node_representative (search_nodes search ! current),
                             br_node = current\<rparr>)
              (filter (\<lambda>offset. after_last prev offset (node_representative (search_nodes search ! current)) \<and>
                         FitsReuseNodeAt problem search (cs_placed st) (cs_offsets st) current offset)
                (CanonicalOffsetsForNode problem search (cs_placed st) (cs_offsets st) current True))) ns)"

definition sorted_branches ::
  "DsaProblem \<Rightarrow> ReusePenaltySearchSpace \<Rightarrow> nat list \<Rightarrow> CanonicalState \<Rightarrow> (u64 \<times> BufferId) option \<Rightarrow> Branch list" where
  "sorted_branches problem search ns st prev =
     sort_key (\<lambda>b. (br_cost b, br_offset b, br_representative b)) (branches_of problem search ns st prev)"

definition search_stopped :: "CanonicalExactSearchOptions \<Rightarrow> CanonicalState \<Rightarrow> bool" where
  "search_stopped options st \<longleftrightarrow> cs_limit_hit st \<or> (stop_after_first options \<and> cs_found st)"

section \<open>The search\<close>

text \<open>
  \<open>Search\<close> recurses once per node placed, so the number of nodes left to place is the recursion
  bound: \<open>left\<close> is \<open>nodes_.size() - depth\<close>. The branch loop threads the state and stops as the source
  does; the counters are 64-bit.
\<close>

fun canonical_branches ::
  "(u64 \<Rightarrow> u64 \<Rightarrow> (u64 \<times> BufferId) option \<Rightarrow> CanonicalState \<Rightarrow> CanonicalState) \<Rightarrow>
   CanonicalExactSearchOptions \<Rightarrow> ReusePenaltySearchSpace \<Rightarrow> u64 \<Rightarrow> u64 \<Rightarrow> Branch list \<Rightarrow>
   CanonicalState \<Rightarrow> CanonicalState" where
  "canonical_branches rec options search cost peak [] st = st"
| "canonical_branches rec options search cost peak (b # rest) st =
     (let st1 = st\<lparr>cs_candidate_branches := cs_candidate_branches st + 1,
                  cs_placed := (cs_placed st)[br_node b := True],
                  cs_offsets := (cs_offsets st)[br_node b := br_offset b]\<rparr>;
          st2 = rec (SaturatingAdd cost (br_cost b))
                  (max peak (br_offset b + node_size (search_nodes search ! br_node b)))
                  (Some (br_offset b, br_representative b)) st1;
          st3 = st2\<lparr>cs_placed := (cs_placed st2)[br_node b := False]\<rparr>
      in if search_stopped options st3 then st3
         else canonical_branches rec options search cost peak rest st3)"

definition search_entry ::
  "CanonicalExactSearchOptions \<Rightarrow> DsaProblem \<Rightarrow> u64 \<Rightarrow> u64 \<Rightarrow> CanonicalState \<Rightarrow> CanonicalState + CanonicalState" where
  "search_entry options problem cost peak st =
     (if search_stopped options st then Inl st
      else if node_limit options \<noteq> 0 \<and> cs_search_nodes st \<ge> node_limit options
      then Inl (st\<lparr>cs_limit_hit := True\<rparr>)
      else let st1 = st\<lparr>cs_search_nodes := cs_search_nodes st + 1\<rparr> in
        if cs_found st1 \<and> \<not> score_less (PoolScore problem cost peak) (cs_best_score st1)
        then Inl (st1\<lparr>cs_bound_prunes := cs_bound_prunes st1 + 1\<rparr>)
        else Inr st1)"

fun canonical_search ::
  "DsaProblem \<Rightarrow> ReusePenaltySearchSpace \<Rightarrow> CanonicalExactSearchOptions \<Rightarrow> nat list \<Rightarrow> nat \<Rightarrow>
   u64 \<Rightarrow> u64 \<Rightarrow> (u64 \<times> BufferId) option \<Rightarrow> CanonicalState \<Rightarrow> CanonicalState" where
  "canonical_search problem search options ns 0 cost peak prev st =
     (case search_entry options problem cost peak st of
        Inl st' \<Rightarrow> st'
      | Inr st' \<Rightarrow> st'\<lparr>cs_found := True, cs_best_score := PoolScore problem cost peak,
                       cs_best_offsets := cs_offsets st'\<rparr>)"
| "canonical_search problem search options ns (Suc left) cost peak prev st =
     (case search_entry options problem cost peak st of
        Inl st' \<Rightarrow> st'
      | Inr st' \<Rightarrow> canonical_branches (canonical_search problem search options ns left) options search
                     cost peak (sorted_branches problem search ns st' prev) st')"

definition run_pool_search ::
  "DsaProblem \<Rightarrow> ReusePenaltySearchSpace \<Rightarrow> PoolId \<Rightarrow> CanonicalExactSearchOptions \<Rightarrow> PoolSearchResult" where
  "run_pool_search problem search pool options =
     (let ns = pool_nodes search pool;
          st = canonical_search problem search options ns (length ns) 0 (ReservedPeak problem pool) None
                 (initial_search problem search pool options)
      in \<lparr>psr_status = (if cs_limit_hit st then kTimeout
                        else if \<not> cs_found st then kInfeasibleProven else kFeasible),
          psr_offsets = (if cs_found st then cs_best_offsets st else []),
          psr_search_nodes = cs_search_nodes st, psr_candidate_branches = cs_candidate_branches st,
          psr_bound_prunes = cs_bound_prunes st\<rparr>)"

section \<open>All pools\<close>

definition add_counters :: "PoolSearchResult \<Rightarrow> CanonicalExactSearchResult \<Rightarrow> CanonicalExactSearchResult" where
  "add_counters r result =
     result\<lparr>ces_search_nodes := SaturatingAdd (ces_search_nodes result) (psr_search_nodes r),
            ces_candidate_branches := SaturatingAdd (ces_candidate_branches result) (psr_candidate_branches r),
            ces_bound_prunes := SaturatingAdd (ces_bound_prunes result) (psr_bound_prunes r)\<rparr>"

definition take_pool_offsets ::
  "ReusePenaltySearchSpace \<Rightarrow> PoolId \<Rightarrow> u64 list \<Rightarrow> u64 list \<Rightarrow> u64 list" where
  "take_pool_offsets search pool found offsets =
     map (\<lambda>i. if node_pool (search_nodes search ! i) = pool then found ! i else offsets ! i)
       [0..<length offsets]"

fun search_pools ::
  "DsaProblem \<Rightarrow> ReusePenaltySearchSpace \<Rightarrow> CanonicalExactSearchOptions \<Rightarrow> Pool list \<Rightarrow> u64 list \<Rightarrow> bool \<Rightarrow>
   CanonicalExactSearchResult \<Rightarrow> CanonicalExactSearchResult" where
  "search_pools problem search options [] offsets any_timeout result =
     result\<lparr>ces_status := (if any_timeout then kTimeout else kFeasible), ces_offsets := Some offsets\<rparr>"
| "search_pools problem search options (pool # rest) offsets any_timeout result =
     (if \<not> list_ex (\<lambda>node. node_pool node = pool_id pool) (search_nodes search)
      then search_pools problem search options rest offsets any_timeout result
      else
        let r = run_pool_search problem search (pool_id pool) options;
            result' = add_counters r result;
            timed_out = (psr_status r = kTimeout \<and> psr_offsets r \<noteq> [])
        in if \<not> timed_out \<and> psr_status r \<noteq> kFeasible
           then result'\<lparr>ces_status := psr_status r\<rparr>
           else search_pools problem search options rest
                  (take_pool_offsets search (pool_id pool) (psr_offsets r) offsets)
                  (any_timeout \<or> timed_out) result')"

definition CanonicalExactSearchResult_default :: CanonicalExactSearchResult where
  "CanonicalExactSearchResult_default =
     \<lparr>ces_status = kUnsupported, ces_offsets = None, ces_search_nodes = 0, ces_candidate_branches = 0,
      ces_bound_prunes = 0\<rparr>"

definition RunCanonicalExactSearch ::
  "DsaProblem \<Rightarrow> ReusePenaltySearchSpace \<Rightarrow> CanonicalExactSearchOptions \<Rightarrow> CanonicalExactSearchResult" where
  "RunCanonicalExactSearch problem search options =
     (if space_errors (placement search) \<noteq> []
      then CanonicalExactSearchResult_default\<lparr>ces_status := kInvalidProblem\<rparr>
      else if space_flexible_pools (placement search)
      then CanonicalExactSearchResult_default\<lparr>ces_status := kUnsupported\<rparr>
      else search_pools problem search options (pools problem)
             (replicate (length (search_nodes search)) 0) False CanonicalExactSearchResult_default)"

end
