(* ===== verification/Solvers.thy ===== *)
theory Solvers
  imports Canonical_Search
begin

text \<open>
  The solver interface (\<^verbatim>\<open>solver.h\<close>, \<^verbatim>\<open>solver.cpp\<close>) and the heuristic solvers built on the placement
  engine: first fit (\<^verbatim>\<open>first_fit_solver.cpp\<close>), the XLA heap policy (\<^verbatim>\<open>xla_heap_solver.cpp\<close>) and the
  ordering local search (\<^verbatim>\<open>local_search_solver.cpp\<close>).
\<close>

section \<open>Compatibility\<close>

record SolverCapabilities =
  cap_multi_interval :: bool
  cap_reuse_cost :: bool
  cap_bank_cost :: bool
  cap_colocations :: bool
  cap_separations :: bool
  cap_temporal_exclusions :: bool
  cap_pinned_allocations :: bool
  cap_reserved_ranges :: bool
  cap_multi_pool :: bool
  cap_flexible_pool_assignment :: bool
  cap_lexicographic_objective :: bool
  cap_capacity_objective :: bool
  cap_peak_objective :: bool

definition SolverCapabilities_default :: SolverCapabilities where
  "SolverCapabilities_default =
     \<lparr>cap_multi_interval = False, cap_reuse_cost = False, cap_bank_cost = False,
      cap_colocations = False, cap_separations = False, cap_temporal_exclusions = False,
      cap_pinned_allocations = False, cap_reserved_ranges = False, cap_multi_pool = False,
      cap_flexible_pool_assignment = False, cap_lexicographic_objective = False,
      cap_capacity_objective = False, cap_peak_objective = False\<rparr>"

record SolverCompatibility =
  required_features :: "string list"
  unsupported_features :: "string list"
  unsupported_objectives :: "string list"

definition StructurallyCompatible :: "SolverCompatibility \<Rightarrow> bool" where
  "StructurallyCompatible r = (unsupported_features r = [])"

definition ObjectiveCompatible :: "SolverCompatibility \<Rightarrow> bool" where
  "ObjectiveCompatible r = (unsupported_objectives r = [])"

definition Compatible :: "SolverCompatibility \<Rightarrow> bool" where
  "Compatible r = (StructurallyCompatible r \<and> ObjectiveCompatible r)"

definition AddUnique :: "'a list \<Rightarrow> 'a \<Rightarrow> 'a list" where
  "AddUnique values v = (if List.member values v then values else values @ [v])"

definition RequireFeature :: "bool \<Rightarrow> bool \<Rightarrow> string \<Rightarrow> SolverCompatibility \<Rightarrow> SolverCompatibility" where
  "RequireFeature present supported name report =
     (if \<not> present then report
      else report\<lparr>required_features := AddUnique (required_features report) name,
                  unsupported_features := (if supported then unsupported_features report
                     else AddUnique (unsupported_features report) name)\<rparr>)"

fun supports_metric :: "SolverCapabilities \<Rightarrow> ObjectiveMetric \<Rightarrow> bool" where
  "supports_metric c kCapacityOverflow = cap_capacity_objective c"
| "supports_metric c kTotalPeak = cap_peak_objective c"
| "supports_metric c kMaxPeak = cap_peak_objective c"
| "supports_metric c kReuseCost = cap_reuse_cost c"
| "supports_metric c kBankCost = cap_bank_cost c"

definition has_reuse_penalties :: "DsaProblem \<Rightarrow> bool" where
  "has_reuse_penalties problem =
     (case cost_model problem of None \<Rightarrow> False | Some m \<Rightarrow> reuse_penalties m \<noteq> [])"

definition structural_report :: "DsaProblem \<Rightarrow> SolverCapabilities \<Rightarrow> SolverCompatibility" where
  "structural_report problem c =
     fold (\<lambda>(present, supported, name). RequireFeature present supported name)
       [(list_ex (\<lambda>b. 1 < length (live_intervals b)) (buffers problem), cap_multi_interval c, ''multi_interval''),
        (colocations problem \<noteq> [], cap_colocations c, ''colocations''),
        (separations problem \<noteq> [], cap_separations c, ''separations''),
        (temporal_exclusions problem \<noteq> [], cap_temporal_exclusions c, ''temporal_exclusions''),
        (pinned_allocations problem \<noteq> [], cap_pinned_allocations c, ''pinned_allocations''),
        (list_ex (\<lambda>q. reserved_ranges q \<noteq> []) (pools problem), cap_reserved_ranges c, ''reserved_ranges''),
        (1 < length (pools problem), cap_multi_pool c, ''multi_pool''),
        (list_ex (\<lambda>b. 1 < length (allowed_pools b)) (buffers problem), cap_flexible_pool_assignment c,
         ''flexible_pool_assignment'')]
       \<lparr>required_features = [], unsupported_features = [], unsupported_objectives = []\<rparr>"

definition CheckSolverCompatibility :: "DsaProblem \<Rightarrow> SolverCapabilities \<Rightarrow> SolverCompatibility" where
  "CheckSolverCompatibility problem c =
     (let report = structural_report problem c;
          req1 = (if has_reuse_penalties problem
                  then AddUnique (required_features report) ''reuse_penalties'' else required_features report);
          req2 = (if list_ex (\<lambda>q. bank_geometry q \<noteq> None) (pools problem)
                  then AddUnique req1 ''bank_geometry'' else req1);
          obj1 = (if aggregation (objective problem) = kLexicographic \<and> \<not> cap_lexicographic_objective c
                  then AddUnique [] ''aggregation:lexicographic'' else []);
          obj2 = foldl (\<lambda>os m. if supports_metric c m then os
                               else AddUnique os (''metric:'' @ ObjectiveMetric_ToString m))
                   obj1 (terms (objective problem))
      in report\<lparr>required_features := req2, unsupported_objectives := obj2\<rparr>)"

definition incompatible_result :: "string \<Rightarrow> DsaProblem \<Rightarrow> string list \<Rightarrow> DsaResult" where
  "incompatible_result name problem messages =
     (let validation = ValidateProblem problem in
      if validation \<noteq> [] then DsaResult_default\<lparr>status := kInvalidProblem, diagnostics := validation\<rparr>
      else DsaResult_default\<lparr>status := kUnsupported, diagnostics := messages\<rparr>)"

definition feature_messages :: "string \<Rightarrow> SolverCompatibility \<Rightarrow> string list" where
  "feature_messages name r =
     map (\<lambda>f. name @ '' does not support feature '' @ [CHR 0x27] @ f @ [CHR 0x27]) (unsupported_features r)"

definition objective_messages :: "string \<Rightarrow> SolverCompatibility \<Rightarrow> string list" where
  "objective_messages name r =
     map (\<lambda>f. name @ '' does not support objective '' @ [CHR 0x27] @ f @ [CHR 0x27]) (unsupported_objectives r)"

definition add_diagnostics :: "string list \<Rightarrow> DsaResult \<Rightarrow> DsaResult" where
  "add_diagnostics ms r = r\<lparr>diagnostics := diagnostics r @ ms\<rparr>"

section \<open>First fit\<close>

definition FirstFit_Capabilities :: SolverCapabilities where
  "FirstFit_Capabilities = SolverCapabilities_default
     \<lparr>cap_multi_interval := True, cap_colocations := True, cap_separations := True,
      cap_temporal_exclusions := True, cap_pinned_allocations := True, cap_reserved_ranges := True,
      cap_multi_pool := True, cap_reuse_cost := True, cap_lexicographic_objective := True,
      cap_capacity_objective := True, cap_peak_objective := True\<rparr>"

definition EarliestBirth :: "DsaProblem \<Rightarrow> PlacementSearchNode \<Rightarrow> int" where
  "EarliestBirth problem node =
     foldl (\<lambda>birth member. case FindBuffer problem member of
                None \<Rightarrow> birth
              | Some buffer \<Rightarrow> foldl (\<lambda>birth i. min birth (lower i)) birth (live_intervals buffer))
       INT64_MAX (node_members node)"

definition FirstFit_ResultScore :: "DsaProblem \<Rightarrow> DsaResult \<Rightarrow> Score" where
  "FirstFit_ResultScore problem r =
     (if status r = kFeasible then 0 else 1) #
     map (EvaluateObjectiveMetric problem (res_objective r)) (terms (objective problem))"

definition baseline_messages :: "SolverCompatibility \<Rightarrow> string list" where
  "baseline_messages r =
     map (\<lambda>f. ''first_fit provides a structural baseline but does not optimize '' @ [CHR 0x27] @ f @ [CHR 0x27])
       (unsupported_objectives r)"

definition representatives_of :: "ReusePenaltySearchSpace \<Rightarrow> nat list \<Rightarrow> BufferId list" where
  "representatives_of search is = map (\<lambda>i. node_representative (search_nodes search ! i)) is"

definition birth_order :: "DsaProblem \<Rightarrow> ReusePenaltySearchSpace \<Rightarrow> nat list" where
  "birth_order problem search =
     sort_key (\<lambda>i. (EarliestBirth problem (search_nodes search ! i), node_representative (search_nodes search ! i)))
       [0..<length (search_nodes search)]"

definition incident_weights :: "ReusePenaltySearchSpace \<Rightarrow> u64 list" where
  "incident_weights search =
     foldl (\<lambda>ws ((i, j), weight).
         let ws' = ws[i := SaturatingAdd (ws ! i) weight] in ws'[j := SaturatingAdd (ws' ! j) weight])
       (replicate (length (search_nodes search)) 0) (soft_weights search)"

definition soft_weight_order :: "ReusePenaltySearchSpace \<Rightarrow> nat list \<Rightarrow> nat list" where
  "soft_weight_order search is =
     sort_key (\<lambda>i. (UINT64_MAX - incident_weights search ! i, UINT64_MAX - node_size (search_nodes search ! i),
                    node_representative (search_nodes search ! i))) is"

definition first_fit_orders :: "DsaProblem \<Rightarrow> ReusePenaltySearchSpace \<Rightarrow> BufferId list list" where
  "first_fit_orders problem search =
     (let births = birth_order problem search in
      foldl AddUnique []
        [DefaultPlacementOrder problem, representatives_of search births,
         representatives_of search (soft_weight_order search births)])"

text \<open>The first order seeds the result; later ones replace it when their score is smaller.\<close>

fun best_of_orders ::
  "DsaProblem \<Rightarrow> nat \<Rightarrow> BufferId list list \<Rightarrow> DsaResult \<times> Score \<times> nat \<Rightarrow> DsaResult \<times> Score \<times> nat" where
  "best_of_orders problem index [] best = best"
| "best_of_orders problem index (order # rest) (result, best_score, selected) =
     (let candidate = PlaceWithOrder problem order kFirstFit;
          score = FirstFit_ResultScore problem candidate
      in best_of_orders problem (Suc index) rest
           (if index = 0 \<or> score_less score best_score then (candidate, score, index)
            else (result, best_score, selected)))"

definition FirstFit_Solve :: "DsaProblem \<Rightarrow> DsaResult" where
  "FirstFit_Solve problem =
     (let compatibility = CheckSolverCompatibility problem FirstFit_Capabilities in
      if \<not> StructurallyCompatible compatibility
      then incompatible_result ''first_fit'' problem (feature_messages ''first_fit'' compatibility)
      else if \<not> has_reuse_penalties problem
      then add_diagnostics (baseline_messages compatibility) (PlaceWithOrder problem [] kFirstFit)
      else
        let search = BuildReusePenaltySearchSpace problem in
        if space_errors (placement search) \<noteq> [] \<or> space_flexible_pools (placement search)
        then add_diagnostics (baseline_messages compatibility) (PlaceWithOrder problem [] kFirstFit)
        else
          let unique_orders = first_fit_orders problem search;
              (result, best_score, selected) = best_of_orders problem 0 unique_orders (DsaResult_default, [], 0)
          in add_diagnostics
               (''first_fit generated penalty-blind placements in size, birth, and soft-incident-weight order and selected by the declared objective''
                # baseline_messages compatibility)
               (result\<lparr>solver_metrics := (solver_metrics result)
                  (''first_fit_orders_evaluated'' \<mapsto> of_nat (length unique_orders),
                   ''first_fit_selected_order'' \<mapsto> of_nat selected)\<rparr>))"

section \<open>The XLA heap policy\<close>

definition XlaHeap_Capabilities :: SolverCapabilities where
  "XlaHeap_Capabilities = SolverCapabilities_default
     \<lparr>cap_colocations := True, cap_lexicographic_objective := True, cap_capacity_objective := True,
      cap_peak_objective := True\<rparr>"

definition XlaHeap_Solve :: "DsaProblem \<Rightarrow> DsaResult" where
  "XlaHeap_Solve problem =
     (let compatibility = CheckSolverCompatibility problem XlaHeap_Capabilities in
      if \<not> Compatible compatibility
      then incompatible_result ''xla_heap'' problem
             (feature_messages ''xla_heap'' compatibility @ objective_messages ''xla_heap'' compatibility)
      else add_diagnostics [''xla_heap uses OpenXLA spatial decreasing-size/best-fit policy'']
             (PlaceWithOrder problem [] kXlaSpatialBestFit))"

end
