(* ===== verification/Order_Search.thy ===== *)
theory Order_Search
  imports Solvers
begin

text \<open>
  Iterated local search over placement orders, the loop that
  \<^verbatim>\<open>src/dsa/algorithms/local_search_solver.cpp\<close> and
  \<^verbatim>\<open>src/dsa/algorithms/pypto_structured_search_solver.cpp\<close> share line by line. The random move is a
  parameter; it may fail to return, so the loop lives in the option monad. It returns when the move
  does, places at most \<open>max_iterations\<close> orders, keeps every order a permutation of the first one when the
  move does, and never loses the score of the first order.
\<close>

record LocalSearchOptions =
  ls_seed :: u64
  ls_max_iterations :: nat
  ls_restarts :: nat
  ls_stagnation_limit :: nat

text \<open>A random move on an order; \<open>None\<close> is a call that does not return.\<close>

type_synonym 'g OrderMove = "BufferId list \<Rightarrow> 'g \<Rightarrow> (BufferId list \<times> 'g) option"

definition keeps_order :: "'g OrderMove \<Rightarrow> BufferId list \<Rightarrow> bool" where
  "keeps_order mv seed \<longleftrightarrow>
     (\<forall>order g order' g'. mset order = mset seed \<longrightarrow> mv order g = Some (order', g') \<longrightarrow> mset order' = mset seed)"

definition total_move :: "'g OrderMove \<Rightarrow> bool" where
  "total_move mv \<longleftrightarrow> (\<forall>order g. \<exists>r. mv order g = Some r)"

definition LocalSearch_ResultScore :: "DsaProblem \<Rightarrow> DsaResult \<Rightarrow> Score" where
  "LocalSearch_ResultScore problem r =
     (if solution r = None \<or> (status r \<noteq> kFeasible \<and> status r \<noteq> kBestEffortNoFit)
      then replicate (length (terms (objective problem))) UINT64_MAX
      else map (EvaluateObjectiveMetric problem (res_objective r)) (terms (objective problem)))"

fun apply_moves ::
  "'g OrderMove \<Rightarrow> nat \<Rightarrow> BufferId list \<Rightarrow> 'g \<Rightarrow> (BufferId list \<times> 'g) option" where
  "apply_moves mv 0 order g = Some (order, g)"
| "apply_moves mv (Suc n) order g =
     do { (order', g') \<leftarrow> mv order g; apply_moves mv n order' g' }"

section \<open>The search\<close>

text \<open>A result with its order and score.\<close>

type_synonym Scored = "DsaResult \<times> BufferId list \<times> Score"

record 'g LocalState =
  lo_best :: Scored
  lo_current :: Scored
  lo_evaluated :: nat
  lo_stagnation :: nat
  lo_random :: 'g

definition evaluate_order :: "DsaProblem \<Rightarrow> BufferId list \<Rightarrow> Scored" where
  "evaluate_order problem order =
     (let r = PlaceWithOrder problem order kFirstFit in (r, order, LocalSearch_ResultScore problem r))"

definition scored_score :: "Scored \<Rightarrow> Score" where "scored_score s = snd (snd s)"
definition scored_order :: "Scored \<Rightarrow> BufferId list" where "scored_order s = fst (snd s)"

definition update_best :: "Scored \<Rightarrow> Scored \<Rightarrow> Scored" where
  "update_best best s = (if score_less (scored_score s) (scored_score best) then s else best)"

definition try_candidate :: "Scored \<Rightarrow> 'g \<Rightarrow> 'g LocalState \<Rightarrow> 'g LocalState" where
  "try_candidate s g st =
     (if score_less (scored_score s) (scored_score (lo_current st))
      then st\<lparr>lo_current := s, lo_best := update_best (lo_best st) s, lo_stagnation := 0,
              lo_evaluated := lo_evaluated st + 1, lo_random := g\<rparr>
      else st\<lparr>lo_stagnation := lo_stagnation st + 1, lo_evaluated := lo_evaluated st + 1, lo_random := g\<rparr>)"

text \<open>Perturbed restart from an order: used for restarts and for the repair of a stagnating search.\<close>

definition jump ::
  "'g OrderMove \<Rightarrow> DsaProblem \<Rightarrow> nat \<Rightarrow> 'g LocalState \<Rightarrow> 'g LocalState option" where
  "jump mv problem divisor st =
     (let order = scored_order (lo_best st) in
      do {
        (order', g) \<leftarrow> apply_moves mv (max 2 (length order div divisor)) order (lo_random st);
        let s = evaluate_order problem order';
        Some (st\<lparr>lo_current := s, lo_best := update_best (lo_best st) s,
                 lo_evaluated := lo_evaluated st + 1, lo_stagnation := 0, lo_random := g\<rparr>)
      })"

definition climb_step ::
  "'g OrderMove \<Rightarrow> DsaProblem \<Rightarrow> LocalSearchOptions \<Rightarrow> nat \<Rightarrow> 'g LocalState \<Rightarrow> 'g LocalState option" where
  "climb_step mv problem options restart_end st =
     do {
       (order, g) \<leftarrow> mv (scored_order (lo_current st)) (lo_random st);
       let st1 = try_candidate (evaluate_order problem order) g st;
       if ls_stagnation_limit options \<noteq> 0 \<and> lo_stagnation st1 \<ge> ls_stagnation_limit options \<and>
          lo_evaluated st1 < restart_end
       then jump mv problem 10 st1 else Some st1
     }"

partial_function (option) climb ::
  "'g OrderMove \<Rightarrow> DsaProblem \<Rightarrow> LocalSearchOptions \<Rightarrow> nat \<Rightarrow> 'g LocalState \<Rightarrow> 'g LocalState option" where
  "climb mv problem options restart_end st =
     (if lo_evaluated st < restart_end
      then Option.bind (climb_step mv problem options restart_end st) (climb mv problem options restart_end)
      else Some st)"

declare climb.simps [code]

definition restart_budget :: "nat \<Rightarrow> nat \<Rightarrow> nat" where
  "restart_budget remaining_budget remaining_restarts =
     remaining_budget div remaining_restarts + (if remaining_budget mod remaining_restarts = 0 then 0 else 1)"

text \<open>The restart loop; the argument counts the restarts that remain.\<close>

fun restart_loop ::
  "'g OrderMove \<Rightarrow> DsaProblem \<Rightarrow> LocalSearchOptions \<Rightarrow> nat \<Rightarrow> 'g LocalState \<Rightarrow> 'g LocalState option" where
  "restart_loop mv problem options 0 st = Some st"
| "restart_loop mv problem options (Suc remaining) st =
     (if lo_evaluated st < ls_max_iterations options
      then (let restart_end = lo_evaluated st +
                  restart_budget (ls_max_iterations options - lo_evaluated st) (Suc remaining);
                st0 = st\<lparr>lo_current := lo_best st, lo_stagnation := 0\<rparr>
            in do {
              st1 \<leftarrow> (if Suc remaining = ls_restarts options then Some st0 else jump mv problem 8 st0);
              st2 \<leftarrow> climb mv problem options restart_end st1;
              restart_loop mv problem options remaining st2
            })
      else Some st)"

section \<open>Sequences of moves\<close>

lemma keeps_orderD:
  "keeps_order mv seed \<Longrightarrow> mset order = mset seed \<Longrightarrow> mv order g = Some (order', g') \<Longrightarrow> mset order' = mset seed"
  unfolding keeps_order_def by blast

lemma total_moveD: "total_move mv \<Longrightarrow> \<exists>order' g'. mv order g = Some (order', g')"
  unfolding total_move_def by (metis prod.collapse)

lemma apply_moves_perm:
  assumes "keeps_order mv seed"
  shows "mset order = mset seed \<Longrightarrow> apply_moves mv n order g = Some (order', g') \<Longrightarrow> mset order' = mset seed"
  by (induction n arbitrary: order g)
    (auto split: bind_splits prod.splits dest: keeps_orderD [OF assms])

lemma apply_moves_total: "total_move mv \<Longrightarrow> \<exists>r. apply_moves mv n order g = Some r"
proof (induction n arbitrary: order g)
  case (Suc n)
  obtain o' g' where "mv order g = Some (o', g')"
    using total_moveD [OF Suc.prems] by blast
  then show ?case using Suc by simp
qed simp

section \<open>The search terminates and never loses the baseline\<close>

lemma jump_total: "total_move mv \<Longrightarrow> \<exists>st'. jump mv problem d st = Some st'"
  using apply_moves_total [of mv "max 2 (length (scored_order (lo_best st)) div d)" "scored_order (lo_best st)"
      "lo_random st"]
  by (auto simp: jump_def Let_def)

lemma jump_evaluated: "jump mv problem d st = Some st' \<Longrightarrow> lo_evaluated st' = lo_evaluated st + 1"
  by (auto simp: jump_def Let_def split: bind_splits prod.splits)

lemma try_candidate_evaluated [simp]: "lo_evaluated (try_candidate s g st) = lo_evaluated st + 1"
  by (simp add: try_candidate_def)

lemma climb_step_evaluated:
  assumes "climb_step mv problem options e st = Some st'" "lo_evaluated st < e"
  shows "lo_evaluated st < lo_evaluated st' \<and> lo_evaluated st' \<le> e"
  using assms jump_evaluated
  by (fastforce simp: climb_step_def Let_def split: bind_splits prod.splits if_splits)

lemma climb_step_total: "total_move mv \<Longrightarrow> \<exists>st'. climb_step mv problem options e st = Some st'"
proof -
  assume total: "total_move mv"
  obtain order g where "mv (scored_order (lo_current st)) (lo_random st) = Some (order, g)"
    using total_moveD [OF total] by blast
  then show ?thesis using jump_total [OF total] by (simp add: climb_step_def Let_def)
qed

lemma climb_total: "total_move mv \<Longrightarrow> \<exists>st'. climb mv problem options e st = Some st'"
proof (induction "e - lo_evaluated st" arbitrary: st rule: less_induct)
  case less
  show ?case
  proof (cases "lo_evaluated st < e")
    case True
    obtain st1 where s1: "climb_step mv problem options e st = Some st1"
      using climb_step_total [OF less.prems] by blast
    then have "e - lo_evaluated st1 < e - lo_evaluated st"
      using climb_step_evaluated [OF s1 True] True by linarith
    from less.hyps [OF this less.prems] show ?thesis using True s1 by (subst climb.simps) simp
  next
    case False
    then show ?thesis by (subst climb.simps) simp
  qed
qed

lemma climb_induct:
  assumes "climb mv problem options e st = Some st'" "Q st"
    and "\<And>st st1. Q st \<Longrightarrow> lo_evaluated st < e \<Longrightarrow> climb_step mv problem options e st = Some st1 \<Longrightarrow> Q st1"
  shows "Q st'"
  using assms(1,2)
proof (induction "e - lo_evaluated st" arbitrary: st rule: less_induct)
  case less
  show ?case
  proof (cases "lo_evaluated st < e")
    case True
    obtain st1 where s1: "climb_step mv problem options e st = Some st1" "climb mv problem options e st1 = Some st'"
      using less.prems(1) True by (subst (asm) climb.simps) (auto split: bind_splits)
    have "e - lo_evaluated st1 < e - lo_evaluated st"
      using climb_step_evaluated [OF s1(1) True] True by linarith
    from less.hyps [OF this s1(2) assms(3) [OF less.prems(2) True s1(1)]] show ?thesis .
  next
    case False
    then show ?thesis using less.prems by (subst (asm) climb.simps) simp
  qed
qed

lemma restart_loop_total: "total_move mv \<Longrightarrow> \<exists>st'. restart_loop mv problem options n st = Some st'"
proof (induction n arbitrary: st)
  case (Suc n)
  let ?st0 = "st\<lparr>lo_current := lo_best st, lo_stagnation := 0\<rparr>"
  obtain st1 where "(if Suc n = ls_restarts options then Some ?st0 else jump mv problem 8 ?st0) = Some st1"
    using jump_total [OF Suc.prems, of problem 8 ?st0] by (cases "Suc n = ls_restarts options") auto
  moreover obtain st2 where "climb mv problem options (lo_evaluated st +
      restart_budget (ls_max_iterations options - lo_evaluated st) (Suc n)) st1 = Some st2"
    using climb_total [OF Suc.prems] by blast
  moreover obtain st3 where "restart_loop mv problem options n st2 = Some st3" using Suc by blast
  ultimately show ?case by (simp add: Let_def)
qed simp

text \<open>The best and the current order are permutations of the seed, and the best score only improves.\<close>

definition good_scored :: "DsaProblem \<Rightarrow> BufferId list \<Rightarrow> Scored \<Rightarrow> bool" where
  "good_scored problem seed s \<longleftrightarrow> (\<exists>order. mset order = mset seed \<and> s = evaluate_order problem order)"

definition good_state :: "DsaProblem \<Rightarrow> BufferId list \<Rightarrow> 'g LocalState \<Rightarrow> bool" where
  "good_state problem seed st \<longleftrightarrow>
     good_scored problem seed (lo_best st) \<and> good_scored problem seed (lo_current st) \<and>
     scored_score (lo_best st) \<le> scored_score (evaluate_order problem seed)"

lemma evaluate_order_simps [simp]:
  "scored_order (evaluate_order problem order) = order"
  "fst (evaluate_order problem order) = PlaceWithOrder problem order kFirstFit"
  "scored_score (evaluate_order problem order) =
     LocalSearch_ResultScore problem (PlaceWithOrder problem order kFirstFit)"
  by (simp_all add: evaluate_order_def scored_order_def scored_score_def Let_def)

lemma good_scored_order: "good_scored problem seed s \<Longrightarrow> mset (scored_order s) = mset seed"
  by (auto simp: good_scored_def)

lemma good_evaluate: "mset order = mset seed \<Longrightarrow> good_scored problem seed (evaluate_order problem order)"
  by (auto simp: good_scored_def)

lemma update_best_good:
  "good_scored problem seed b \<Longrightarrow> good_scored problem seed s \<Longrightarrow> good_scored problem seed (update_best b s)"
  "scored_score (update_best b s) \<le> scored_score b"
  by (simp_all add: update_best_def less_imp_le)

lemma good_state_update:
  assumes "good_state problem seed st" "good_scored problem seed s"
  shows "good_scored problem seed (update_best (lo_best st) s)"
    "scored_score (update_best (lo_best st) s) \<le> scored_score (evaluate_order problem seed)"
    "good_scored problem seed (lo_best st)" "good_scored problem seed (lo_current st)"
    "scored_score (lo_best st) \<le> scored_score (evaluate_order problem seed)"
  using assms update_best_good(1) order_trans [OF update_best_good(2)]
  unfolding good_state_def by blast+

lemma jump_good:
  assumes "jump mv problem d st = Some st'" "keeps_order mv seed" "good_state problem seed st"
  shows "good_state problem seed st'"
proof -
  obtain order g where m: "apply_moves mv (max 2 (length (scored_order (lo_best st)) div d))
      (scored_order (lo_best st)) (lo_random st) = Some (order, g)"
    and st': "st' = st\<lparr>lo_current := evaluate_order problem order,
        lo_best := update_best (lo_best st) (evaluate_order problem order),
        lo_evaluated := lo_evaluated st + 1, lo_stagnation := 0, lo_random := g\<rparr>"
    using assms(1) by (auto simp: jump_def Let_def split: bind_splits prod.splits)
  have "mset order = mset seed"
    using apply_moves_perm [OF assms(2) _ m] assms(3) good_scored_order unfolding good_state_def by blast
  from good_state_update [OF assms(3) good_evaluate [OF this]] good_evaluate [OF this]
  show ?thesis unfolding st' by (simp add: good_state_def)
qed

lemma climb_step_good:
  assumes "climb_step mv problem options e st = Some st'" "keeps_order mv seed" "good_state problem seed st"
  shows "good_state problem seed st'"
proof -
  obtain order g where m: "mv (scored_order (lo_current st)) (lo_random st) = Some (order, g)"
    using assms(1) by (auto simp: climb_step_def split: bind_splits)
  let ?st1 = "try_candidate (evaluate_order problem order) g st"
  have "mset order = mset seed"
    using keeps_orderD [OF assms(2) _ m] assms(3) good_scored_order unfolding good_state_def by blast
  from good_state_update [OF assms(3) good_evaluate [OF this]] good_evaluate [OF this]
  have 1: "good_state problem seed ?st1" by (simp add: good_state_def try_candidate_def)
  have "st' = ?st1 \<or> jump mv problem 10 ?st1 = Some st'"
    using assms(1) m by (auto simp: climb_step_def Let_def split: if_splits)
  then show ?thesis using 1 jump_good [OF _ assms(2)] by blast
qed

lemma restart_loop_good:
  assumes "restart_loop mv problem options n st = Some st'" "keeps_order mv seed" "good_state problem seed st"
  shows "good_state problem seed st'"
  using assms(1,3)
proof (induction n arbitrary: st)
  case (Suc n)
  show ?case
  proof (cases "lo_evaluated st < ls_max_iterations options")
    case True
    let ?st0 = "st\<lparr>lo_current := lo_best st, lo_stagnation := 0\<rparr>"
    let ?e = "lo_evaluated st + restart_budget (ls_max_iterations options - lo_evaluated st) (Suc n)"
    obtain st1 st2 where s: "(if Suc n = ls_restarts options then Some ?st0 else jump mv problem 8 ?st0) = Some st1"
      "climb mv problem options ?e st1 = Some st2" "restart_loop mv problem options n st2 = Some st'"
      using Suc.prems(1) True by (auto simp: Let_def split: bind_splits)
    have 0: "good_state problem seed ?st0" using Suc.prems(2) by (simp add: good_state_def)
    have 1: "good_state problem seed st1"
      using s(1) 0 jump_good [OF _ assms(2) 0] by (auto split: if_splits)
    have "good_state problem seed st2"
      by (rule climb_induct [where Q = "good_state problem seed", OF s(2) 1])
        (rule climb_step_good [OF _ assms(2)])
    then show ?thesis using Suc.IH s(3) by blast
  next
    case False
    then show ?thesis using Suc.prems by simp
  qed
qed simp

text \<open>The decoder budget: at most \<open>max_iterations\<close> orders are placed.\<close>

lemma restart_budget_le: "0 < r \<Longrightarrow> restart_budget b r \<le> b"
proof -
  assume r: "0 < r"
  show ?thesis
  proof (cases "b mod r = 0")
    case True
    then show ?thesis by (simp add: restart_budget_def)
  next
    case False
    then have "b div r < b" using r
      by (metis bot_nat_0.not_eq_extremum div_le_dividend div_less_dividend le_neq_implies_less mod_by_1
          mod_0 nat_neq_iff less_one)
    then show ?thesis by (simp add: restart_budget_def)
  qed
qed

lemma restart_budget_pos: "0 < r \<Longrightarrow> 0 < b \<Longrightarrow> 0 < restart_budget b r"
  by (auto simp: restart_budget_def div_eq_0_iff)

lemma climb_evaluated:
  assumes "climb mv problem options e st = Some st'" "lo_evaluated st \<le> e"
  shows "lo_evaluated st' \<le> e"
  by (rule climb_induct [where Q = "\<lambda>st. lo_evaluated st \<le> e", OF assms]) (use climb_step_evaluated in blast)

lemma restart_loop_evaluated:
  assumes "restart_loop mv problem options n st = Some st'" "lo_evaluated st \<le> ls_max_iterations options"
  shows "lo_evaluated st' \<le> ls_max_iterations options"
  using assms
proof (induction n arbitrary: st)
  case (Suc n)
  show ?case
  proof (cases "lo_evaluated st < ls_max_iterations options")
    case True
    let ?st0 = "st\<lparr>lo_current := lo_best st, lo_stagnation := 0\<rparr>"
    let ?b = "restart_budget (ls_max_iterations options - lo_evaluated st) (Suc n)"
    obtain st1 st2 where s: "(if Suc n = ls_restarts options then Some ?st0 else jump mv problem 8 ?st0) = Some st1"
      "climb mv problem options (lo_evaluated st + ?b) st1 = Some st2" "restart_loop mv problem options n st2 = Some st'"
      using Suc.prems(1) True by (auto simp: Let_def split: bind_splits)
    have b: "0 < ?b" "?b \<le> ls_max_iterations options - lo_evaluated st"
      using restart_budget_pos restart_budget_le True by simp_all
    have "lo_evaluated st1 \<le> lo_evaluated st + 1"
      using s(1) jump_evaluated [of mv problem 8 ?st0 st1] by (auto split: if_splits)
    then have "lo_evaluated st2 \<le> lo_evaluated st + ?b" using climb_evaluated [OF s(2)] b(1) by simp
    then show ?thesis using Suc.IH [OF s(3)] b(2) True by simp
  next
    case False
    then show ?thesis using Suc.prems by simp
  qed
qed simp

text \<open>The result of a whole search.\<close>

lemma restart_loop_result:
  assumes run: "restart_loop mv problem options n
      \<lparr>lo_best = evaluate_order problem seed, lo_current = evaluate_order problem seed, lo_evaluated = 1,
       lo_stagnation = 0, lo_random = g\<rparr> = Some st"
    and mv: "keeps_order mv seed"
  obtains order where "mset order = mset seed" "lo_best st = evaluate_order problem order"
    "LocalSearch_ResultScore problem (PlaceWithOrder problem order kFirstFit)
       \<le> LocalSearch_ResultScore problem (PlaceWithOrder problem seed kFirstFit)"
proof -
  have "good_state problem seed st"
    by (rule restart_loop_good [OF run mv]) (simp add: good_state_def good_evaluate)
  then show thesis using that by (auto simp: good_state_def good_scored_def)
qed

lemma restart_loop_budget:
  assumes "restart_loop mv problem options n
      \<lparr>lo_best = b, lo_current = c, lo_evaluated = 1, lo_stagnation = 0, lo_random = g\<rparr> = Some st"
    and "1 \<le> ls_max_iterations options"
  shows "lo_evaluated st \<le> ls_max_iterations options"
  using restart_loop_evaluated [OF assms(1)] assms(2) by simp

end
