(* ===== verification/Local_Search.thy ===== *)
theory Local_Search
  imports Order_Search
begin

text \<open>
  \<^verbatim>\<open>src/dsa/algorithms/local_search_solver.cpp\<close>: the iterated local search with the generic moves. The
  random engine and its index distribution are a parameter; the rejection loop that draws a second,
  different index ends only if the source eventually draws one (\<open>fair_source\<close>), so the solver is a
  partial function in the option monad, proved total for fair sources.
\<close>

text \<open>
  \<open>draw_index n\<close> is \<open>uniform_int_distribution(0, n - 1)\<close> applied to the engine, \<open>draw_word\<close> is one
  call of the engine, \<open>seed_random\<close> constructs it.
\<close>

record 'g RandomSource =
  draw_index :: "nat \<Rightarrow> 'g \<Rightarrow> nat \<times> 'g"
  draw_word :: "'g \<Rightarrow> u64 \<times> 'g"
  seed_random :: "u64 \<Rightarrow> 'g"

section \<open>Moves\<close>

partial_function (option) redraw ::
  "'g RandomSource \<Rightarrow> nat \<Rightarrow> nat \<Rightarrow> nat \<Rightarrow> 'g \<Rightarrow> (nat \<times> 'g) option" where
  "redraw R n first second g =
     (if second \<noteq> first then Some (second, g)
      else redraw R n first (fst (draw_index R n g)) (snd (draw_index R n g)))"

declare redraw.simps [code]

definition move_swap :: "nat \<Rightarrow> nat \<Rightarrow> 'a list \<Rightarrow> 'a list" where
  "move_swap i j xs = xs[i := xs ! j, j := xs ! i]"

definition move_insert :: "nat \<Rightarrow> nat \<Rightarrow> 'a list \<Rightarrow> 'a list" where
  "move_insert i j xs = take i xs @ xs ! j # drop i (take j xs) @ drop (Suc j) xs"

definition move_reverse :: "nat \<Rightarrow> nat \<Rightarrow> 'a list \<Rightarrow> 'a list" where
  "move_reverse i j xs = take i xs @ rev (drop i (take (Suc j) xs)) @ drop (Suc j) xs"

definition apply_move :: "nat \<Rightarrow> nat \<Rightarrow> nat \<Rightarrow> 'a list \<Rightarrow> 'a list" where
  "apply_move kind i j xs =
     (if kind = 0 then move_swap i j xs else if kind = 1 then move_insert i j xs else move_reverse i j xs)"

definition ApplyRandomMove ::
  "'g RandomSource \<Rightarrow> BufferId list \<Rightarrow> 'g \<Rightarrow> (BufferId list \<times> 'g) option" where
  "ApplyRandomMove R order g =
     (if length order < 2 then Some (order, g)
      else do {
        let (first, g1) = draw_index R (length order) g;
        let (second, g2) = draw_index R (length order) g1;
        (second, g3) \<leftarrow> redraw R (length order) first second g2;
        let (i, j) = ordered_pair first second;
        let (w, g4) = draw_word R g3;
        Some (apply_move (unat w mod 3) i j order, g4)
      })"

definition LocalSearch_Capabilities :: SolverCapabilities where
  "LocalSearch_Capabilities = SolverCapabilities_default
     \<lparr>cap_multi_interval := True, cap_reuse_cost := True, cap_colocations := True, cap_separations := True,
      cap_temporal_exclusions := True, cap_pinned_allocations := True, cap_reserved_ranges := True,
      cap_multi_pool := True, cap_lexicographic_objective := True, cap_capacity_objective := True,
      cap_peak_objective := True\<rparr>"

definition LocalSearch_Solve ::
  "'g RandomSource \<Rightarrow> LocalSearchOptions \<Rightarrow> DsaProblem \<Rightarrow> DsaResult option" where
  "LocalSearch_Solve R options problem =
     (let compatibility = CheckSolverCompatibility problem LocalSearch_Capabilities in
      if \<not> Compatible compatibility
      then Some (incompatible_result ''local_search'' problem
             (feature_messages ''local_search'' compatibility @ objective_messages ''local_search'' compatibility))
      else
        let seed_order = DefaultPlacementOrder problem;
            best = evaluate_order problem seed_order
        in if status (fst best) \<in> {kInvalidProblem, kUnsupported, kInfeasibleProven} then Some (fst best)
           else if length seed_order < 2 \<or> ls_max_iterations options \<le> 1 \<or> ls_restarts options = 0
           then Some (add_diagnostics
             [''local search evaluated 1 placement order with seed '' @ to_string (ls_seed options)] (fst best))
           else do {
             st \<leftarrow> restart_loop (ApplyRandomMove R) problem options (ls_restarts options)
                     \<lparr>lo_best = best, lo_current = best, lo_evaluated = 1, lo_stagnation = 0,
                      lo_random = seed_random R (ls_seed options)\<rparr>;
             Some (add_diagnostics
               [''local search evaluated '' @ nat_digits (lo_evaluated st) @
                '' placement orders with seed '' @ to_string (ls_seed options)] (fst (lo_best st)))
           })"

section \<open>Moves permute the order\<close>

lemma mset_move_swap: "i < length xs \<Longrightarrow> j < length xs \<Longrightarrow> mset (move_swap i j xs) = mset xs"
  unfolding move_swap_def by (rule mset_swap)

lemma split_at_two:
  assumes "i < j" "j < length xs"
  shows "xs = take i xs @ drop i (take j xs) @ xs ! j # drop (Suc j) xs"
proof -
  have "take j xs = take i xs @ drop i (take j xs)"
    using assms(1) by (metis append_take_drop_id less_imp_le min.absorb1 take_take)
  then show ?thesis using id_take_nth_drop [OF assms(2)] by (metis append_assoc)
qed

lemma mset_move_insert: "i < j \<Longrightarrow> j < length xs \<Longrightarrow> mset (move_insert i j xs) = mset xs"
  using arg_cong [OF split_at_two, of i j xs mset] by (simp add: move_insert_def)

lemma mset_move_reverse: "i < j \<Longrightarrow> j < length xs \<Longrightarrow> mset (move_reverse i j xs) = mset xs"
proof -
  assume ij: "i < j" "j < length xs"
  have "xs = take i xs @ drop i (take (Suc j) xs) @ drop (Suc j) xs"
    using ij by (metis Suc_leI append_assoc append_take_drop_id less_SucI less_imp_le min.absorb1 take_take)
  from arg_cong [OF this, of mset] show ?thesis by (simp add: move_reverse_def)
qed

lemma mset_apply_move: "i < j \<Longrightarrow> j < length xs \<Longrightarrow> mset (apply_move kind i j xs) = mset xs"
  by (simp add: apply_move_def mset_move_swap mset_move_insert mset_move_reverse)

text \<open>What a random source must guarantee: draws are in range, and no value is drawn forever.\<close>

definition in_range_source :: "'g RandomSource \<Rightarrow> bool" where
  "in_range_source R \<longleftrightarrow> (\<forall>n g. 0 < n \<longrightarrow> fst (draw_index R n g) < n)"

definition fair_source :: "'g RandomSource \<Rightarrow> bool" where
  "fair_source R \<longleftrightarrow> (\<forall>n i g. 2 \<le> n \<longrightarrow>
     (\<exists>k. fst (draw_index R n (((\<lambda>g. snd (draw_index R n g)) ^^ k) g)) \<noteq> i))"

lemma redraw_different:
  "redraw R n first second g = Some r \<Longrightarrow>
   in_range_source R \<longrightarrow> 0 < n \<longrightarrow> second < n \<longrightarrow> fst r \<noteq> first \<and> fst r < n"
proof (erule redraw.raw_induct [where P = "\<lambda>R n first second g r.
    in_range_source R \<longrightarrow> 0 < n \<longrightarrow> second < n \<longrightarrow> fst r \<noteq> first \<and> fst r < n", rotated])
  fix rec and R :: "'a RandomSource" and n first second g r
  assume "\<And>(R :: 'a RandomSource) n first second g r. rec R n first second g = Some r \<Longrightarrow>
      in_range_source R \<longrightarrow> 0 < n \<longrightarrow> second < n \<longrightarrow> fst r \<noteq> first \<and> fst r < n"
    and "(if second \<noteq> first then Some (second, g)
      else rec R n first (fst (draw_index R n g)) (snd (draw_index R n g))) = Some r"
  then show "in_range_source R \<longrightarrow> 0 < n \<longrightarrow> second < n \<longrightarrow> fst r \<noteq> first \<and> fst r < n"
    by (auto simp: in_range_source_def split: if_splits)
qed

lemma redraw_total:
  assumes "fair_source R" "2 \<le> n"
  shows "\<exists>r. redraw R n first second g = Some r"
proof -
  let ?next = "\<lambda>g. snd (draw_index R n g)"
  obtain k where "fst (draw_index R n ((?next ^^ k) g)) \<noteq> first"
    using assms unfolding fair_source_def by blast
  then show ?thesis
  proof (induction k arbitrary: second g)
    case 0
    then show ?case
      by (subst redraw.simps, cases "second = first") (simp_all add: redraw.simps [of R n first "fst (draw_index R n g)"])
  next
    case (Suc k)
    have "(?next ^^ Suc k) g = (?next ^^ k) (?next g)" by (simp only: funpow_Suc_right comp_apply)
    with Suc.prems have "fst (draw_index R n ((?next ^^ k) (?next g))) \<noteq> first" by metis
    from Suc.IH [OF this] show ?case
      using redraw.simps [of R n first second g] by (cases "second = first") simp_all
  qed
qed

lemma ApplyRandomMove_perm:
  assumes "ApplyRandomMove R order g = Some (order', g')" "in_range_source R"
  shows "mset order' = mset order"
proof (cases "length order < 2")
  case True
  then show ?thesis using assms(1) by (simp add: ApplyRandomMove_def)
next
  case False
  let ?n = "length order"
  obtain first g1 where d1: "draw_index R ?n g = (first, g1)" by fastforce
  obtain sec g2 where d2: "draw_index R ?n g1 = (sec, g2)" by fastforce
  obtain s g3 where r: "redraw R ?n first sec g2 = Some (s, g3)"
    and o': "order' = apply_move (unat (fst (draw_word R g3)) mod 3) (min first s) (max first s) order"
    using assms(1) False
    by (auto simp: ApplyRandomMove_def d1 d2 Let_def ordered_pair_def split: bind_splits prod.splits)
  have "first < ?n" "sec < ?n"
    using assms(2) False d1 d2 unfolding in_range_source_def
    by (metis fst_conv length_greater_0_conv list.size(3) zero_less_numeral)+
  then have "s \<noteq> first" "s < ?n" using redraw_different [OF r] assms(2) False by auto
  then have "min first s < max first s" "max first s < ?n" using \<open>first < ?n\<close> by auto
  then show ?thesis unfolding o' by (rule mset_apply_move)
qed

lemma ApplyRandomMove_total:
  assumes "fair_source R"
  shows "\<exists>r. ApplyRandomMove R order g = Some r"
proof (cases "length order < 2")
  case False
  let ?n = "length order"
  obtain first g1 where d1: "draw_index R ?n g = (first, g1)" by fastforce
  obtain sec g2 where d2: "draw_index R ?n g1 = (sec, g2)" by fastforce
  obtain s g3 where "redraw R ?n first sec g2 = Some (s, g3)" using redraw_total [OF assms] False by fastforce
  then show ?thesis using False by (simp add: ApplyRandomMove_def d1 d2 Let_def split_beta)
qed (simp add: ApplyRandomMove_def)

lemma ApplyRandomMove_keeps: "in_range_source R \<Longrightarrow> keeps_order (ApplyRandomMove R) seed"
  unfolding keeps_order_def using ApplyRandomMove_perm by metis

lemma ApplyRandomMove_total_move: "fair_source R \<Longrightarrow> total_move (ApplyRandomMove R)"
  unfolding total_move_def by (intro allI ApplyRandomMove_total)

section \<open>The solver\<close>

text \<open>
  Whatever the random source, a returned result is the incompatibility report or the result of
  placing a permutation of the default order, with one more diagnostic, and its score is not larger
  than the score of the default order; a fair source always makes the solver return.
\<close>

lemma LocalSearch_Solve_total:
  assumes "fair_source R"
  shows "\<exists>r. LocalSearch_Solve R options problem = Some r"
proof -
  let ?best = "evaluate_order problem (DefaultPlacementOrder problem)"
  obtain st where "restart_loop (ApplyRandomMove R) problem options (ls_restarts options)
      \<lparr>lo_best = ?best, lo_current = ?best, lo_evaluated = 1, lo_stagnation = 0,
       lo_random = seed_random R (ls_seed options)\<rparr> = Some st"
    using restart_loop_total [OF ApplyRandomMove_total_move [OF assms]] by blast
  then show ?thesis by (auto simp: LocalSearch_Solve_def Let_def)
qed

lemma LocalSearch_Solve_cases:
  assumes "LocalSearch_Solve R options problem = Some r" "in_range_source R"
  obtains (incompatible) ms where
    "\<not> Compatible (CheckSolverCompatibility problem LocalSearch_Capabilities)"
    "r = incompatible_result ''local_search'' problem ms"
  | (placed) order ms where "Compatible (CheckSolverCompatibility problem LocalSearch_Capabilities)"
    "mset order = mset (DefaultPlacementOrder problem)"
    "r = add_diagnostics ms (PlaceWithOrder problem order kFirstFit)"
    "LocalSearch_ResultScore problem (PlaceWithOrder problem order kFirstFit)
       \<le> LocalSearch_ResultScore problem (PlaceWithOrder problem (DefaultPlacementOrder problem) kFirstFit)"
proof (cases "Compatible (CheckSolverCompatibility problem LocalSearch_Capabilities)")
  case False
  then have "\<exists>ms. r = incompatible_result ''local_search'' problem ms"
    using assms(1) by (auto simp: LocalSearch_Solve_def Let_def)
  then show ?thesis using incompatible [OF False] by blast
next
  case comp: True
  let ?seed = "DefaultPlacementOrder problem"
  let ?best = "evaluate_order problem ?seed"
  have keep: ?thesis if "r = add_diagnostics ms (fst ?best)" for ms
    using placed [OF comp refl] that by simp
  have nil: "add_diagnostics [] x = x" for x by (simp add: add_diagnostics_def)
  show ?thesis
  proof (cases "status (fst ?best) \<in> {kInvalidProblem, kUnsupported, kInfeasibleProven}")
    case True
    then have "r = add_diagnostics [] (fst ?best)"
      using assms(1) comp by (simp add: LocalSearch_Solve_def Let_def nil)
    then show ?thesis by (rule keep)
  next
    case st: False
    show ?thesis
    proof (cases "length ?seed < 2 \<or> ls_max_iterations options \<le> 1 \<or> ls_restarts options = 0")
      case True
      then show ?thesis
        using assms(1) comp st keep by (auto simp: LocalSearch_Solve_def Let_def)
    next
      case False
      let ?st0 = "\<lparr>lo_best = ?best, lo_current = ?best, lo_evaluated = 1, lo_stagnation = 0,
                      lo_random = seed_random R (ls_seed options)\<rparr>"
      obtain st where s: "restart_loop (ApplyRandomMove R) problem options (ls_restarts options) ?st0 = Some st"
        and r: "\<exists>ms. r = add_diagnostics ms (fst (lo_best st))"
        using assms(1) comp st False by (auto simp: LocalSearch_Solve_def Let_def split: bind_splits)
      from restart_loop_result [OF s ApplyRandomMove_keeps [OF assms(2)]] obtain order where
        "mset order = mset ?seed" "lo_best st = evaluate_order problem order"
        "LocalSearch_ResultScore problem (PlaceWithOrder problem order kFirstFit)
           \<le> LocalSearch_ResultScore problem (PlaceWithOrder problem ?seed kFirstFit)" .
      then show ?thesis using placed [OF comp, of order] r by auto
    qed
  qed
qed

end
