(* ===== verification/Solver_Spec.thy ===== *)
theory Solver_Spec
  imports Local_Search
begin

text \<open>
  The contract of \<open>DsaSolver::Solve\<close> (\<^verbatim>\<open>solver.h\<close>) as a locale, and its interpretation by the placement
  engine and the heuristic solvers: a feasible answer carries a valid solution, and an answer of
  proven infeasibility means that no valid solution exists.
\<close>

locale placing_solver =
  fixes solve :: "DsaProblem \<Rightarrow> DsaResult"
  assumes feasible_valid:
    "status (solve p) = kFeasible \<Longrightarrow> \<exists>s. solution (solve p) = Some s \<and> ValidateSolution p s = []"
begin

lemma feasible_well_formed: "status (solve p) = kFeasible \<Longrightarrow> well_formed p"
  using feasible_valid ValidateSolution_Nil by blast

text \<open>A feasible answer overflows no pool.\<close>

lemma feasible_within_capacity:
  assumes "status (solve p) = kFeasible"
  shows "\<exists>s. solution (solve p) = Some s \<and>
    EvaluateObjectiveMetric p (EvaluateObjective p s) kCapacityOverflow = 0"
  using feasible_valid [OF assms] structure_and_peaks [OF feasible_well_formed [OF assms]] by blast

end

locale ds_solver = placing_solver +
  assumes infeasible_sound: "status (solve p) = kInfeasibleProven \<Longrightarrow> \<not> valid_solution p s"
begin

lemma not_infeasible: "valid_solution p s \<Longrightarrow> status (solve p) \<noteq> kInfeasibleProven"
  using infeasible_sound by blast

end

text \<open>Two solvers that both meet the contract never contradict each other.\<close>

locale two_solvers = a: ds_solver solve_a + b: ds_solver solve_b
  for solve_a :: "DsaProblem \<Rightarrow> DsaResult" and solve_b :: "DsaProblem \<Rightarrow> DsaResult"
begin

lemma no_contradiction: "status (solve_a p) = kFeasible \<Longrightarrow> status (solve_b p) \<noteq> kInfeasibleProven"
  using a.feasible_valid b.infeasible_sound ValidateSolution_Nil by blast

end

section \<open>The placement engine\<close>

interpretation placement_engine: ds_solver "\<lambda>p. PlaceWithOrder p (order p) strategy" for order strategy
  by unfold_locales (use PlaceWithOrder_feasible PlaceWithOrder_infeasible in blast)+

section \<open>Results that are the engine's with more diagnostics and metrics\<close>

definition same_answer :: "DsaResult \<Rightarrow> DsaResult \<Rightarrow> bool" where
  "same_answer r r' \<longleftrightarrow> status r = status r' \<and> solution r = solution r' \<and> res_objective r = res_objective r'"

lemma same_answer_add_diagnostics [simp]: "same_answer (add_diagnostics ms r) r"
  by (simp add: same_answer_def add_diagnostics_def)

lemma incompatible_status: "status (incompatible_result name p ms) \<in> {kInvalidProblem, kUnsupported}"
  by (simp add: incompatible_result_def Let_def)

definition engine_answer :: "DsaProblem \<Rightarrow> DsaResult \<Rightarrow> bool" where
  "engine_answer p r \<longleftrightarrow>
     status r \<in> {kInvalidProblem, kUnsupported} \<or>
     (\<exists>order strategy. same_answer r (PlaceWithOrder p order strategy))"

lemma engine_answer_sound:
  assumes "engine_answer p r"
  shows "status r = kFeasible \<Longrightarrow> \<exists>s. solution r = Some s \<and> ValidateSolution p s = []"
    "status r = kInfeasibleProven \<Longrightarrow> \<not> valid_solution p s"
proof -
  consider "status r \<in> {kInvalidProblem, kUnsupported}"
    | order strategy where "same_answer r (PlaceWithOrder p order strategy)"
    using assms by (auto simp: engine_answer_def)
  note split = this
  show "\<exists>s. solution r = Some s \<and> ValidateSolution p s = []" if f: "status r = kFeasible"
    using split
  proof cases
    case 2
    then show ?thesis using placement_engine.feasible_valid [where order = "\<lambda>_. order" and strategy = strategy and p = p] f by (simp add: same_answer_def)
  qed (use f in simp)
  show "\<not> valid_solution p s" if f: "status r = kInfeasibleProven"
    using split
  proof cases
    case 2
    then show ?thesis using placement_engine.infeasible_sound [where order = "\<lambda>_. order" and strategy = strategy and p = p] f by (simp add: same_answer_def)
  qed (use f in simp)
qed

section \<open>The heuristic solvers\<close>

lemma engine_answer_intros:
  "engine_answer p (add_diagnostics ms (PlaceWithOrder p order strategy))"
  "engine_answer p (PlaceWithOrder p order strategy)"
  "engine_answer p (incompatible_result name p ms)"
  "engine_answer p r \<Longrightarrow> engine_answer p (add_diagnostics ms (r\<lparr>solver_metrics := m\<rparr>))"
  using incompatible_status [of name p ms]
  by (auto simp: engine_answer_def same_answer_def add_diagnostics_def)

lemma best_of_orders_engine:
  assumes "index \<noteq> 0 \<longrightarrow> engine_answer p (fst best)" "orders \<noteq> [] \<or> index \<noteq> 0"
  shows "engine_answer p (fst (best_of_orders p index orders best))"
  using assms
proof (induction p index orders best rule: best_of_orders.induct)
  case (2 p index order rest result best_score selected)
  have "engine_answer p (PlaceWithOrder p order kFirstFit)"
    by (auto simp: engine_answer_def same_answer_def)
  then show ?case using 2 by (auto simp: Let_def simp del: score_less.simps)
qed simp

lemma first_fit_orders_not_empty: "first_fit_orders p search \<noteq> []"
  by (simp add: first_fit_orders_def Let_def AddUnique_def)

lemma FirstFit_engine: "engine_answer p (FirstFit_Solve p)"
proof -
  let ?best = "best_of_orders p 0 (first_fit_orders p (BuildReusePenaltySearchSpace p)) (DsaResult_default, [], 0)"
  have "engine_answer p (fst ?best)"
    by (rule best_of_orders_engine) (simp_all add: first_fit_orders_not_empty)
  then show ?thesis
    unfolding FirstFit_Solve_def Let_def split_beta by (simp add: engine_answer_intros)
qed

lemma XlaHeap_engine: "engine_answer p (XlaHeap_Solve p)"
  unfolding XlaHeap_Solve_def Let_def by (simp add: engine_answer_intros)

text \<open>A call of the local search that does not return gives no answer.\<close>

definition returned :: "DsaResult option \<Rightarrow> DsaResult" where
  "returned r = (case r of None \<Rightarrow> DsaResult_default | Some r \<Rightarrow> r)"

lemma LocalSearch_engine:
  assumes "in_range_source R"
  shows "engine_answer p (returned (LocalSearch_Solve R options p))"
proof (cases "LocalSearch_Solve R options p")
  case None
  then show ?thesis by (simp add: engine_answer_def returned_def DsaResult_default_def)
next
  case (Some r)
  from Some assms show ?thesis
  proof (cases rule: LocalSearch_Solve_cases)
    case incompatible
    then show ?thesis using Some incompatible_status by (simp add: engine_answer_def returned_def)
  next
    case (placed order ms)
    then show ?thesis
      unfolding engine_answer_def using Some same_answer_add_diagnostics by (metis option.simps(5) returned_def)
  qed
qed

interpretation first_fit_solver: ds_solver FirstFit_Solve
  by unfold_locales (use engine_answer_sound [OF FirstFit_engine] in blast)+

interpretation xla_heap_solver: ds_solver XlaHeap_Solve
  by unfold_locales (use engine_answer_sound [OF XlaHeap_engine] in blast)+

interpretation first_fit_xla: two_solvers FirstFit_Solve XlaHeap_Solve
  by unfold_locales

lemma local_search_solver:
  "in_range_source R \<Longrightarrow> ds_solver (\<lambda>p. returned (LocalSearch_Solve R options p))"
  by unfold_locales (use engine_answer_sound [OF LocalSearch_engine] in blast)+

section \<open>Compatibility reports\<close>

lemma set_AddUnique [simp]: "set (AddUnique xs x) = insert x (set xs)"
  by (auto simp: AddUnique_def)

lemma distinct_AddUnique [simp]: "distinct xs \<Longrightarrow> distinct (AddUnique xs x)"
  by (simp add: AddUnique_def)

lemma AddUnique_not_Nil [simp]: "AddUnique xs x \<noteq> []"
  by (auto simp: AddUnique_def)

lemma RequireFeature_Nil:
  "unsupported_features (RequireFeature present supported name r) = [] \<longleftrightarrow>
   unsupported_features r = [] \<and> (present \<longrightarrow> supported)"
  by (simp add: RequireFeature_def)

text \<open>A problem is structurally compatible when every feature it uses is supported.\<close>

lemma structural_compatibility:
  "StructurallyCompatible (CheckSolverCompatibility p c) \<longleftrightarrow>
     ((\<exists>b\<in>set (buffers p). 1 < length (live_intervals b)) \<longrightarrow> cap_multi_interval c) \<and>
     (colocations p \<noteq> [] \<longrightarrow> cap_colocations c) \<and> (separations p \<noteq> [] \<longrightarrow> cap_separations c) \<and>
     (temporal_exclusions p \<noteq> [] \<longrightarrow> cap_temporal_exclusions c) \<and>
     (pinned_allocations p \<noteq> [] \<longrightarrow> cap_pinned_allocations c) \<and>
     ((\<exists>q\<in>set (pools p). reserved_ranges q \<noteq> []) \<longrightarrow> cap_reserved_ranges c) \<and>
     (1 < length (pools p) \<longrightarrow> cap_multi_pool c) \<and>
     ((\<exists>b\<in>set (buffers p). 1 < length (allowed_pools b)) \<longrightarrow> cap_flexible_pool_assignment c)"
  by (simp add: StructurallyCompatible_def CheckSolverCompatibility_def Let_def structural_report_def
      RequireFeature_Nil list_ex_iff)

end
