(* ===== verification/Penalty_Edges.thy ===== *)
theory Penalty_Edges
  imports Validator_Spec
begin

text \<open>
  The derivation of reuse penalties from a scheduled program
  (\<^verbatim>\<open>src/dsa/analysis/penalty_edge_derivation.h\<close> and \<^verbatim>\<open>.cpp\<close>): operations on streams, the dependency
  graph with its topological order and vector clocks, first writes and maximal accesses of a buffer,
  and the penalty edge of every pair of buffers whose lifetimes are disjoint but whose accesses are
  not ordered. Exceptions are values of \<open>exn\<close>; the loops that may throw are \<open>try_fold\<close>.
\<close>

section \<open>Scheduled programs\<close>

type_synonym OperationId = u32
type_synonym StreamId = u32

datatype AccessKind = kRead | kWrite

record ScheduledOperation =
  op_id :: OperationId
  op_stream :: StreamId
  issue_index :: u64
  schedule_time :: int

record ScheduledDependency =
  dep_before :: OperationId
  dep_after :: OperationId

record ScheduledBufferAccess =
  acc_buffer :: BufferId
  acc_operation :: OperationId
  acc_kind :: AccessKind

record ScheduledProgram =
  stream_count :: u32
  operations :: "ScheduledOperation list"
  cross_dependencies :: "ScheduledDependency list"
  accesses :: "ScheduledBufferAccess list"

record DerivedSyncAnchor =
  last_access :: OperationId
  first_write :: OperationId

record DerivedPenaltyEdge =
  edge_first :: BufferId
  edge_second :: BufferId
  edge_cost :: u64
  needed_syncs :: "DerivedSyncAnchor list"

record PenaltyEdgeDerivation =
  edges :: "DerivedPenaltyEdge list"
  lifetime_compatible_pairs :: nat
  ordered_pairs :: nat

record IndexedProgram =
  operation_index :: "OperationId \<rightharpoonup> nat"
  accesses_by_buffer :: "BufferId \<rightharpoonup> nat list"
  successors :: "nat list list"
  vector_clocks :: "u64 list list"

section \<open>Lifetimes\<close>

definition BufferLifetimeHull :: "Buffer \<Rightarrow> int \<times> int" where
  "BufferLifetimeHull buffer =
     foldl (\<lambda>(low, high) interval. (min low (lower interval), max high (upper interval)))
       (INT64_MAX, INT64_MIN) (live_intervals buffer)"

definition EarlierLifetime :: "Buffer \<Rightarrow> Buffer \<Rightarrow> bool" where
  "EarlierLifetime first second =
     (let (first_lower, first_upper) = BufferLifetimeHull first;
          (second_lower, second_upper) = BufferLifetimeHull second
      in first_upper \<le> second_lower)"

section \<open>Indexing the program\<close>

text \<open>The first loop: \<open>operation_index\<close> and the operations of every stream, in program order.\<close>

definition index_operation ::
  "ScheduledProgram \<Rightarrow> nat \<Rightarrow> (OperationId \<rightharpoonup> nat) \<times> nat list list \<Rightarrow>
   exn + (OperationId \<rightharpoonup> nat) \<times> nat list list" where
  "index_operation program index st =
     (let operation = operations program ! index; (by_id, by_stream) = st;
          stream = unat (op_stream operation)
      in if op_stream operation \<ge> stream_count program
         then Inl (InvalidArgument (''operation '' @ to_string (op_id operation) @
                '' references an unknown stream''))
         else if by_id (op_id operation) \<noteq> None
         then Inl (InvalidArgument (''duplicate operation id '' @ to_string (op_id operation)))
         else Inr (by_id(op_id operation \<mapsto> index),
                by_stream[stream := by_stream ! stream @ [index]]))"

definition index_operations ::
  "ScheduledProgram \<Rightarrow> exn + (OperationId \<rightharpoonup> nat) \<times> nat list list" where
  "index_operations program =
     try_fold (index_operation program) [0..<length (operations program)]
       (Map.empty, replicate (unat (stream_count program)) [])"

text \<open>The graph under construction: \<open>indexed.successors\<close> and \<open>indegree\<close>.\<close>

type_synonym graph = "nat list list \<times> nat list"

definition add_edge :: "ScheduledProgram \<Rightarrow> nat \<Rightarrow> nat \<Rightarrow> graph \<Rightarrow> exn + graph" where
  "add_edge program before after g =
     (let (succ, indegree) = g in
      if before = after then Inl (InvalidArgument ''scheduled dependency is a self edge'')
      else if schedule_time (operations program ! before) > schedule_time (operations program ! after)
      then Inl (InvalidArgument ''scheduled dependency violates temporal consistency'')
      else Inr (succ[before := succ ! before @ [after]], indegree[after := indegree ! after + 1]))"

definition issue_key :: "ScheduledProgram \<Rightarrow> nat \<Rightarrow> u64 \<times> OperationId" where
  "issue_key program index =
     (issue_index (operations program ! index), op_id (operations program ! index))"

fun chain_edges :: "ScheduledProgram \<Rightarrow> nat list \<Rightarrow> graph \<Rightarrow> exn + graph" where
  "chain_edges program (previous # current # rest) g =
     (if issue_index (operations program ! previous) = issue_index (operations program ! current)
      then Inl (InvalidArgument (''stream repeats issue index '' @
             to_string (issue_index (operations program ! current))))
      else and_then (add_edge program previous current g)
             (chain_edges program (current # rest)))"
| "chain_edges program [_] g = Inr g"
| "chain_edges program [] g = Inr g"

definition stream_edges :: "ScheduledProgram \<Rightarrow> nat list \<Rightarrow> graph \<Rightarrow> exn + graph" where
  "stream_edges program stream_operations =
     chain_edges program
       (sort_by (\<lambda>first second. issue_key program first < issue_key program second) stream_operations)"

definition cross_edge ::
  "ScheduledProgram \<Rightarrow> (OperationId \<rightharpoonup> nat) \<Rightarrow> ScheduledDependency \<Rightarrow> graph \<Rightarrow> exn + graph" where
  "cross_edge program by_id dependency g =
     (case (by_id (dep_before dependency), by_id (dep_after dependency)) of
        (Some before, Some after) \<Rightarrow> add_edge program before after g
      | _ \<Rightarrow> Inl (InvalidArgument ''scheduled dependency references an unknown operation''))"

text \<open>
  The topological order: \<open>ready\<close> is a priority queue with the least index on top, kept as a sorted
  list. One unit of fuel is one iteration of the loop; no operation is popped twice, so as many as
  there are operations are enough (\<open>topological_loop_drained\<close>).
\<close>

definition release :: "nat \<Rightarrow> nat list \<times> nat list \<Rightarrow> nat list \<times> nat list" where
  "release successor st =
     (let (indegree, ready) = st; left = indegree ! successor - 1
      in (indegree[successor := left], if left = 0 then insort successor ready else ready))"

fun topological_loop ::
  "nat \<Rightarrow> nat list list \<Rightarrow> nat list \<Rightarrow> nat list \<Rightarrow> nat list \<Rightarrow> nat list \<times> nat list" where
  "topological_loop (Suc fuel) succ indegree (current # ready) order =
     (let (indegree', ready') = fold release (succ ! current) (indegree, ready)
      in topological_loop fuel succ indegree' ready' (order @ [current]))"
| "topological_loop _ succ indegree ready order = (order, ready)"

definition topological_order :: "nat list list \<Rightarrow> nat list \<Rightarrow> nat list" where
  "topological_order succ indegree =
     fst (topological_loop (length indegree) succ indegree
       (filter (\<lambda>index. indegree ! index = 0) [0..<length indegree]) [])"

definition predecessors_of :: "nat list list \<Rightarrow> nat list list" where
  "predecessors_of succ =
     foldl (\<lambda>preds before.
         foldl (\<lambda>preds after. preds[after := preds ! after @ [before]]) preds (succ ! before))
       (replicate (length succ) []) [0..<length succ]"

definition operation_clock ::
  "ScheduledProgram \<Rightarrow> nat list list \<Rightarrow> nat \<Rightarrow> u64 list list \<Rightarrow> exn + u64 list list" where
  "operation_clock program preds index clocks =
     (let clock = foldl (\<lambda>clock predecessor. map2 max clock (clocks ! predecessor))
            (clocks ! index) (preds ! index);
          operation = operations program ! index;
          stream = unat (op_stream operation)
      in if issue_index operation = UINT64_MAX
         then Inl (InvalidArgument ''operation issue index cannot be UINT64_MAX'')
         else Inr (clocks[index := clock[stream := max (clock ! stream) (issue_index operation + 1)]]))"

definition index_access ::
  "DsaProblem \<Rightarrow> ScheduledProgram \<Rightarrow> (OperationId \<rightharpoonup> nat) \<Rightarrow> nat \<Rightarrow> (BufferId \<rightharpoonup> nat list) \<Rightarrow>
   exn + (BufferId \<rightharpoonup> nat list)" where
  "index_access problem program by_id access_index by_buffer =
     (let access = accesses program ! access_index; buffer = acc_buffer access in
      if FindBuffer problem buffer = None
      then Inl (InvalidArgument (''access references unknown buffer '' @ to_string buffer))
      else if by_id (acc_operation access) = None
      then Inl (InvalidArgument (''access references unknown operation '' @
             to_string (acc_operation access)))
      else Inr (by_buffer(buffer \<mapsto>
             (case by_buffer buffer of None \<Rightarrow> [] | Some indices \<Rightarrow> indices) @ [access_index])))"

definition require_access ::
  "(BufferId \<rightharpoonup> nat list) \<Rightarrow> Buffer \<Rightarrow> unit \<Rightarrow> exn + unit" where
  "require_access by_buffer buffer _ =
     (if by_buffer (buf_id buffer) = None
      then Inl (InvalidArgument (''buffer '' @ to_string (buf_id buffer) @
             '' has no scheduled accesses''))
      else Inr ())"

definition BuildIndex :: "DsaProblem \<Rightarrow> ScheduledProgram \<Rightarrow> exn + IndexedProgram" where
  "BuildIndex problem program =
     (let count = length (operations program) in
      if stream_count program = 0 then Inl (InvalidArgument ''scheduled program has no streams'')
      else if operations program = [] then Inl (InvalidArgument ''scheduled program has no operations'')
      else and_then (index_operations program) (\<lambda>(by_id, by_stream).
        and_then (try_fold (stream_edges program) by_stream (replicate count [], replicate count 0)) (\<lambda>g.
        and_then (try_fold (cross_edge program by_id) (cross_dependencies program) g) (\<lambda>(succ, indegree).
        let order = topological_order succ indegree in
        if length order \<noteq> count
        then Inl (InvalidArgument ''scheduled program dependency graph is cyclic'')
        else
        and_then (try_fold (operation_clock program (predecessors_of succ)) order
            (replicate count (replicate (unat (stream_count program)) 0))) (\<lambda>clocks.
        and_then (try_fold (index_access problem program by_id) [0..<length (accesses program)]
            Map.empty) (\<lambda>by_buffer.
        and_then (try_fold (require_access by_buffer) (buffers problem) ()) (\<lambda>_.
        Inr \<lparr>operation_index = by_id, accesses_by_buffer = by_buffer, successors = succ,
             vector_clocks = clocks\<rparr>)))))))"

section \<open>Order of accesses\<close>

definition Ordered :: "ScheduledProgram \<Rightarrow> IndexedProgram \<Rightarrow> nat \<Rightarrow> nat \<Rightarrow> bool" where
  "Ordered program indexed before after =
     (before = after \<or>
      vector_clocks indexed ! after ! unat (op_stream (operations program ! before))
        > issue_index (operations program ! before))"

text \<open>
  \<open>indexed.operation_index.at(program.accesses[access].operation)\<close>; \<open>BuildIndex\<close> has checked that
  every access names a known operation and every buffer has accesses, so \<open>at\<close> does not throw
  (\<open>indexed_access_op\<close>, \<open>indexed_accesses\<close>).
\<close>

definition access_op :: "ScheduledProgram \<Rightarrow> IndexedProgram \<Rightarrow> nat \<Rightarrow> nat" where
  "access_op program indexed access =
     the (operation_index indexed (acc_operation (accesses program ! access)))"

definition buffer_accesses :: "IndexedProgram \<Rightarrow> BufferId \<Rightarrow> nat list" where
  "buffer_accesses indexed buffer = the (accesses_by_buffer indexed buffer)"

definition defines_every_access :: "ScheduledProgram \<Rightarrow> IndexedProgram \<Rightarrow> nat list \<Rightarrow> nat \<Rightarrow> bool" where
  "defines_every_access program indexed accs candidate =
     list_all (\<lambda>access. Ordered program indexed (access_op program indexed candidate)
       (access_op program indexed access)) accs"

definition consider_first_write ::
  "ScheduledProgram \<Rightarrow> IndexedProgram \<Rightarrow> BufferId \<Rightarrow> nat \<Rightarrow> nat option \<Rightarrow> exn + nat option" where
  "consider_first_write program indexed buffer candidate found =
     (if acc_kind (accesses program ! candidate) \<noteq> kWrite then Inr found
      else if \<not> defines_every_access program indexed (buffer_accesses indexed buffer) candidate
      then Inr found
      else case found of
        None \<Rightarrow> Inr (Some candidate)
      | Some write \<Rightarrow>
          if acc_operation (accesses program ! write) \<noteq> acc_operation (accesses program ! candidate)
          then Inl (InvalidArgument (''buffer '' @ to_string buffer @
                 '' has multiple first-write operations''))
          else Inr (Some write))"

definition FirstWrite :: "ScheduledProgram \<Rightarrow> IndexedProgram \<Rightarrow> BufferId \<Rightarrow> exn + nat" where
  "FirstWrite program indexed buffer =
     and_then (try_fold (consider_first_write program indexed buffer)
         (buffer_accesses indexed buffer) None) (\<lambda>found.
       case found of
         None \<Rightarrow> Inl (InvalidArgument (''buffer '' @ to_string buffer @
                   '' has no first write that happens-before every access''))
       | Some write \<Rightarrow> Inr write)"

definition latest_of_stream ::
  "ScheduledProgram \<Rightarrow> IndexedProgram \<Rightarrow> (StreamId, nat) omap \<Rightarrow> nat \<Rightarrow> (StreamId, nat) omap" where
  "latest_of_stream program indexed last_by_stream access_index =
     (let stream = op_stream (operations program ! access_op program indexed access_index) in
      case map_of last_by_stream stream of
        None \<Rightarrow> om_emplace stream access_index last_by_stream
      | Some current \<Rightarrow>
          if issue_key program (access_op program indexed current)
               < issue_key program (access_op program indexed access_index)
          then om_put stream access_index last_by_stream
          else last_by_stream)"

definition MaximalAccesses :: "ScheduledProgram \<Rightarrow> IndexedProgram \<Rightarrow> BufferId \<Rightarrow> nat list" where
  "MaximalAccesses program indexed buffer =
     (let last_by_stream = foldl (latest_of_stream program indexed) [] (buffer_accesses indexed buffer);
          candidates = map snd last_by_stream
      in filter (\<lambda>candidate.
           \<not> list_ex (\<lambda>other. candidate \<noteq> other \<and>
               Ordered program indexed (access_op program indexed candidate)
                 (access_op program indexed other)) candidates) candidates)"

section \<open>The penalty edges\<close>

definition anchor_step ::
  "ScheduledProgram \<Rightarrow> IndexedProgram \<Rightarrow> u64 list list \<Rightarrow> nat \<Rightarrow> DerivedPenaltyEdge \<Rightarrow> nat \<Rightarrow>
   DerivedPenaltyEdge" where
  "anchor_step program indexed sync_cost first_write_op edge maximal_access =
     (let maximal_op = access_op program indexed maximal_access;
          cost = sync_cost ! unat (op_stream (operations program ! maximal_op))
                   ! unat (op_stream (operations program ! first_write_op))
      in if Ordered program indexed maximal_op first_write_op then edge
         else if cost = 0 then edge
         else edge\<lparr>edge_cost := SaturatingAdd (edge_cost edge) cost,
                needed_syncs := needed_syncs edge @
                  [\<lparr>last_access = op_id (operations program ! maximal_op),
                    first_write = op_id (operations program ! first_write_op)\<rparr>]\<rparr>)"

definition derive_pair ::
  "DsaProblem \<Rightarrow> ScheduledProgram \<Rightarrow> IndexedProgram \<Rightarrow> u64 list list \<Rightarrow>
   (BufferId \<rightharpoonup> nat) \<Rightarrow> (BufferId \<rightharpoonup> nat list) \<Rightarrow> PenaltyEdgeDerivation \<Rightarrow> nat \<times> nat \<Rightarrow>
   PenaltyEdgeDerivation" where
  "derive_pair problem program indexed sync_cost first_by_buffer maximal_by_buffer derivation pair =
     (let first = buffers problem ! fst pair; second = buffers problem ! snd pair;
          (earlier, later) = (if EarlierLifetime second first then (second, first) else (first, second))
      in if \<not> EarlierLifetime earlier later then derivation
         else
         let first_write_op = access_op program indexed (the (first_by_buffer (buf_id later)));
             edge = foldl (anchor_step program indexed sync_cost first_write_op)
               \<lparr>edge_first = min (buf_id earlier) (buf_id later),
                edge_second = max (buf_id earlier) (buf_id later), edge_cost = 0, needed_syncs = []\<rparr>
               (the (maximal_by_buffer (buf_id earlier)));
             counted = derivation
               \<lparr>lifetime_compatible_pairs := lifetime_compatible_pairs derivation + 1\<rparr>
         in if needed_syncs edge = []
            then counted\<lparr>ordered_pairs := ordered_pairs counted + 1\<rparr>
            else counted\<lparr>edges := edges counted @ [edge]\<rparr>)"

definition buffer_anchors ::
  "ScheduledProgram \<Rightarrow> IndexedProgram \<Rightarrow> Buffer \<Rightarrow> (BufferId \<rightharpoonup> nat) \<times> (BufferId \<rightharpoonup> nat list) \<Rightarrow>
   exn + (BufferId \<rightharpoonup> nat) \<times> (BufferId \<rightharpoonup> nat list)" where
  "buffer_anchors program indexed buffer st =
     and_then (FirstWrite program indexed (buf_id buffer)) (\<lambda>first_access.
       Inr (um_emplace (fst st) (buf_id buffer) first_access,
            um_emplace (snd st) (buf_id buffer) (MaximalAccesses program indexed (buf_id buffer))))"

definition DerivePenaltyEdges ::
  "DsaProblem \<Rightarrow> ScheduledProgram \<Rightarrow> u64 list list \<Rightarrow> exn + PenaltyEdgeDerivation" where
  "DerivePenaltyEdges problem program sync_cost =
     (if ValidateProblem problem \<noteq> []
      then Inl (InvalidArgument (''cannot derive penalties for an invalid DSA problem: '' @
             hd (ValidateProblem problem)))
      else if length sync_cost \<noteq> unat (stream_count program) \<or>
        list_ex (\<lambda>row. length row \<noteq> unat (stream_count program)) sync_cost
      then Inl (InvalidArgument ''synchronization-cost matrix does not match stream count'')
      else and_then (BuildIndex problem program) (\<lambda>indexed.
        and_then (try_fold (buffer_anchors program indexed) (buffers problem) (Map.empty, Map.empty))
          (\<lambda>(first_by_buffer, maximal_by_buffer).
        let derivation = foldl
              (derive_pair problem program indexed sync_cost first_by_buffer maximal_by_buffer)
              \<lparr>edges = [], lifetime_compatible_pairs = 0, ordered_pairs = 0\<rparr>
              (index_pairs (length (buffers problem)))
        in Inr (derivation\<lparr>edges := sort_by (\<lambda>first second.
              (edge_first first, edge_second first) < (edge_first second, edge_second second))
              (edges derivation)\<rparr>))))"

definition ApplyPenaltyEdgeDerivation ::
  "DsaProblem option \<Rightarrow> PenaltyEdgeDerivation \<Rightarrow> exn + DsaProblem" where
  "ApplyPenaltyEdgeDerivation problem derivation =
     (case problem of
        None \<Rightarrow> Inl (InvalidArgument ''problem must not be null'')
      | Some p \<Rightarrow>
          let model = (case cost_model p of None \<Rightarrow> \<lparr>reuse_penalties = []\<rparr> | Some m \<Rightarrow> m)
          in Inr (p\<lparr>cost_model := Some (model\<lparr>reuse_penalties := reuse_penalties model @
                 map (\<lambda>edge. \<lparr>pen_first = edge_first edge, pen_second = edge_second edge,
                        pen_cost = edge_cost edge, pen_reason = Pen_kGeneric\<rparr>)
                   (edges derivation)\<rparr>),
               objective := FitThenMinimizeReuseCostObjective\<rparr>))"

end
