(* ===== verification/Happens_Before.thy ===== *)
theory Happens_Before
  imports Penalty_Edges
begin

text \<open>
  What \<open>BuildIndex\<close> computes: the dependency graph of the scheduled program, its topological order
  and its vector clocks. \<open>Ordered\<close>, which compares one clock entry with an issue index, decides
  the happens-before relation of the program: reachability along stream order and cross
  dependencies.
\<close>

section \<open>The happens-before relation\<close>

definition program_step :: "ScheduledProgram \<Rightarrow> (nat \<times> nat) set" where
  "program_step program =
     {(i, j). i < length (operations program) \<and> j < length (operations program) \<and>
        (op_stream (operations program ! i) = op_stream (operations program ! j) \<and>
           issue_index (operations program ! i) < issue_index (operations program ! j) \<or>
         (\<exists>dependency\<in>set (cross_dependencies program).
            dep_before dependency = op_id (operations program ! i) \<and>
            dep_after dependency = op_id (operations program ! j)))}"

definition happens_before :: "ScheduledProgram \<Rightarrow> (nat \<times> nat) set" where
  "happens_before program = (program_step program)\<^sup>*"

section \<open>The graph\<close>

definition succ_rel :: "nat list list \<Rightarrow> (nat \<times> nat) set" where
  "succ_rel succ = {(i, j). i < length succ \<and> j \<in> set (succ ! i)}"

definition graph_ok :: "nat \<Rightarrow> graph \<Rightarrow> bool" where
  "graph_ok n g \<longleftrightarrow> length (fst g) = n \<and> length (snd g) = n \<and>
     (\<forall>i<n. set (fst g ! i) \<subseteq> {..<n}) \<and>
     (\<forall>j<n. snd g ! j = (\<Sum>i<n. count_list (fst g ! i) j))"

lemma graph_ok_initial: "graph_ok n (replicate n [], replicate n 0)"
  by (simp add: graph_ok_def)

lemma succ_rel_initial [simp]: "succ_rel (replicate n []) = {}"
  by (auto simp: succ_rel_def)

lemma sum_count_update:
  fixes succ :: "nat list list"
  assumes "b < n" "length succ = n"
  shows "(\<Sum>i<n. count_list (succ[b := succ ! b @ [a]] ! i) j) =
    (\<Sum>i<n. count_list (succ ! i) j) + (if j = a then 1 else 0)"
proof -
  let ?f = "\<lambda>i. count_list (succ ! i) j"
  have "(\<Sum>i<n. count_list (succ[b := succ ! b @ [a]] ! i) j) =
    (\<Sum>i<n. ?f i + (if i = b then (if j = a then 1 else 0) else 0))"
    by (rule sum.cong) (use assms in \<open>auto simp: nth_list_update\<close>)
  also have "\<dots> = (\<Sum>i<n. ?f i) + (if j = a then 1 else 0)"
    using assms by (simp add: sum.distrib)
  finally show ?thesis .
qed

lemma add_edge_graph:
  assumes "graph_ok n g" "b < n" "a < n" "add_edge program b a g = Inr g'"
  shows "graph_ok n g'" "succ_rel (fst g') = insert (b, a) (succ_rel (fst g))"
proof -
  obtain succ indegree where g: "g = (succ, indegree)" by fastforce
  then have g': "g' = (succ[b := succ ! b @ [a]], indegree[a := indegree ! a + 1])"
    using assms(4) by (auto simp: add_edge_def split: if_splits)
  have ok: "length succ = n" "length indegree = n" "\<forall>i<n. set (succ ! i) \<subseteq> {..<n}"
    "\<forall>j<n. indegree ! j = (\<Sum>i<n. count_list (succ ! i) j)"
    using assms(1) g by (simp_all add: graph_ok_def)
  show "graph_ok n g'"
    unfolding graph_ok_def g' fst_conv snd_conv sum_count_update [OF assms(2) ok(1)]
    using ok assms(2,3) by (auto simp: nth_list_update)
  show "succ_rel (fst g') = insert (b, a) (succ_rel (fst g))"
    using ok(1) assms(2) by (auto simp: succ_rel_def g g' nth_list_update split: if_splits)
qed

lemma add_edge_time:
  "add_edge program b a g = Inr g' \<Longrightarrow>
   schedule_time (operations program ! b) \<le> schedule_time (operations program ! a)"
  by (auto simp: add_edge_def split: if_splits prod.splits)

abbreviation chain_rel :: "nat list \<Rightarrow> (nat \<times> nat) set" where
  "chain_rel xs \<equiv> set (zip xs (tl xs))"

lemma chain_edges_graph:
  assumes "chain_edges program xs g = Inr g'" "graph_ok n g" "set xs \<subseteq> {..<n}"
  shows "graph_ok n g' \<and> succ_rel (fst g') = succ_rel (fst g) \<union> chain_rel xs \<and>
    successively (\<lambda>i j. issue_index (operations program ! i) \<noteq> issue_index (operations program ! j)) xs"
  using assms
proof (induction program xs g arbitrary: g' rule: chain_edges.induct)
  case (1 program i j rest g)
  then obtain h where h: "add_edge program i j g = Inr h"
    "chain_edges program (j # rest) h = Inr g'"
    "issue_index (operations program ! i) \<noteq> issue_index (operations program ! j)"
    by (auto split: if_splits)
  have hg: "graph_ok n h" "succ_rel (fst h) = insert (i, j) (succ_rel (fst g))"
    using add_edge_graph [OF "1.prems"(2) _ _ h(1)] "1.prems"(3) by auto
  have "graph_ok n g' \<and> succ_rel (fst g') = succ_rel (fst h) \<union> chain_rel (j # rest) \<and>
    successively (\<lambda>i j. issue_index (operations program ! i) \<noteq> issue_index (operations program ! j)) (j # rest)"
    by (rule "1.IH") (use h hg "1.prems" in auto)
  with hg h(3) show ?case by auto
qed auto

section \<open>The operations of every stream\<close>

lemma index_operations_index:
  assumes "index_operations program = Inr (by_id, by_stream)"
  defines "ops \<equiv> operations program"
  shows "\<forall>i<length ops. op_stream (ops ! i) < stream_count program"
    "\<forall>oid i. by_id oid = Some i \<longleftrightarrow> i < length ops \<and> op_id (ops ! i) = oid"
    "by_stream = map (\<lambda>s. filter (\<lambda>i. unat (op_stream (ops ! i)) = s) [0..<length ops])
       [0..<unat (stream_count program)]"
proof -
  let ?P = "\<lambda>xs st. (\<forall>i\<in>set xs. op_stream (ops ! i) < stream_count program) \<and>
    (\<forall>oid i. fst st oid = Some i \<longleftrightarrow> i \<in> set xs \<and> op_id (ops ! i) = oid) \<and>
    snd st = map (\<lambda>s. filter (\<lambda>i. unat (op_stream (ops ! i)) = s) xs) [0..<unat (stream_count program)]"
  have "?P [0..<length ops] (by_id, by_stream)"
    using assms(1) [unfolded index_operations_def, folded ops_def]
  proof (induction rule: try_fold_induct [where P = ?P])
    case start
    then show ?case by (simp add: map_replicate_const)
  next
    case (step xs i st st')
    obtain m bs where st: "st = (m, bs)" by fastforce
    have new: "op_stream (ops ! i) < stream_count program" "m (op_id (ops ! i)) = None"
      and st': "st' = (m(op_id (ops ! i) \<mapsto> i),
        bs[unat (op_stream (ops ! i)) := bs ! unat (op_stream (ops ! i)) @ [i]])"
      using step(3) by (auto simp: index_operation_def st Let_def ops_def split: if_splits)
    have lt: "unat (op_stream (ops ! i)) < unat (stream_count program)"
      using new(1) by (simp add: word_less_nat_alt)
    have "snd st' = map (\<lambda>s. filter (\<lambda>i. unat (op_stream (ops ! i)) = s) (xs @ [i])) [0..<unat (stream_count program)]"
      using step(2) lt by (intro nth_equalityI) (auto simp: st st' nth_list_update)
    moreover have "\<forall>oid j. fst st' oid = Some j \<longleftrightarrow> j \<in> set (xs @ [i]) \<and> op_id (ops ! j) = oid"
    proof (intro allI)
      fix oid j
      have m: "m oid = Some j \<longleftrightarrow> j \<in> set xs \<and> op_id (ops ! j) = oid" for oid j
        using step(2) st by simp
      have "m (op_id (ops ! i)) \<noteq> Some j" using new(2) by simp
      then show "fst st' oid = Some j \<longleftrightarrow> j \<in> set (xs @ [i]) \<and> op_id (ops ! j) = oid"
        using m by (auto simp: st')
    qed
    ultimately show ?case using step(2) new(1) by (simp add: st)
  qed
  then show "\<forall>i<length ops. op_stream (ops ! i) < stream_count program"
    "\<forall>oid i. by_id oid = Some i \<longleftrightarrow> i < length ops \<and> op_id (ops ! i) = oid"
    "by_stream = map (\<lambda>s. filter (\<lambda>i. unat (op_stream (ops ! i)) = s) [0..<length ops])
       [0..<unat (stream_count program)]"
    by auto
qed

text \<open>A sorted stream without a repeated issue index is strictly increasing.\<close>

abbreviation issue_less :: "ScheduledProgram \<Rightarrow> nat \<Rightarrow> nat \<Rightarrow> bool" where
  "issue_less program i j \<equiv> issue_index (operations program ! i) < issue_index (operations program ! j)"

lemma sorted_stream_strict:
  assumes "ys = sort_by (\<lambda>i j. issue_key program i < issue_key program j) xs"
    and "successively (\<lambda>i j. issue_index (operations program ! i) \<noteq> issue_index (operations program ! j)) ys"
  shows "sorted_wrt (issue_less program) ys"
proof -
  have "weak_order_on (set xs) (\<lambda>i j. issue_key program i < issue_key program j)"
    unfolding weak_order_on_def by (auto intro: less_trans)
  from sorted_sort_by [OF this] have "sorted_wrt (\<lambda>i j. \<not> issue_key program j < issue_key program i) ys"
    using assms(1) by simp
  then have "sorted_wrt (\<lambda>i j. issue_key program i \<le> issue_key program j) ys"
    by (simp add: not_less)
  then have "sorted_wrt (\<lambda>i j. issue_index (operations program ! i) \<le> issue_index (operations program ! j)) ys"
    by (rule sorted_wrt_mono_rel [rotated]) (auto simp: issue_key_def)
  then have "successively (\<lambda>i j. issue_index (operations program ! i) \<le> issue_index (operations program ! j)) ys"
    by (rule successively_if_sorted_wrt)
  then have "successively (issue_less program) ys"
    using assms(2) by (auto simp: successively_conv_nth order_less_le)
  then show ?thesis
    by (subst (asm) successively_conv_sorted_wrt) (auto intro!: transpI)
qed

lemma chain_rel_reach:
  assumes "j < length xs" "i \<le> j" "chain_rel xs \<subseteq> R"
  shows "(xs ! i, xs ! j) \<in> R\<^sup>*"
  using assms(2,1)
proof (induction j rule: dec_induct)
  case (step j)
  have "(xs ! j, xs ! Suc j) \<in> chain_rel xs"
    using step.prems by (auto simp: set_zip nth_tl intro!: exI [of _ j])
  then have "(xs ! j, xs ! Suc j) \<in> R" using assms(3) by blast
  with step show ?case by (meson Suc_lessD rtrancl.rtrancl_into_rtrancl)
qed simp

section \<open>The graph of the program\<close>

definition stream_chain :: "ScheduledProgram \<Rightarrow> nat list \<Rightarrow> nat list" where
  "stream_chain program xs = sort_by (\<lambda>i j. issue_key program i < issue_key program j) xs"

lemma set_stream_chain [simp]: "set (stream_chain program xs) = set xs"
  by (simp add: stream_chain_def)

lemma stream_edges_graph:
  assumes "try_fold (stream_edges program) streams g = Inr g'" "graph_ok n g"
    and "\<forall>xs\<in>set streams. set xs \<subseteq> {..<n}"
  shows "graph_ok n g' \<and>
    succ_rel (fst g') = succ_rel (fst g) \<union> (\<Union>xs\<in>set streams. chain_rel (stream_chain program xs)) \<and>
    (\<forall>xs\<in>set streams. sorted_wrt (issue_less program) (stream_chain program xs))"
  using assms(1)
proof (induction rule: try_fold_induct [where P = "\<lambda>streams g'. graph_ok n g' \<and>
    succ_rel (fst g') = succ_rel (fst g) \<union> (\<Union>xs\<in>set streams. chain_rel (stream_chain program xs)) \<and>
    (\<forall>xs\<in>set streams. sorted_wrt (issue_less program) (stream_chain program xs))"])
  case start
  then show ?case using assms(2) by simp
next
  case (step seen xs h h')
  have "chain_edges program (stream_chain program xs) h = Inr h'"
    using step(3) by (simp add: stream_edges_def stream_chain_def)
  from chain_edges_graph [OF this, of n] have
    "graph_ok n h'" "succ_rel (fst h') = succ_rel (fst h) \<union> chain_rel (stream_chain program xs)"
    "successively (\<lambda>i j. issue_index (operations program ! i) \<noteq> issue_index (operations program ! j))
       (stream_chain program xs)"
    using step(1,2) assms(3) by auto
  then show ?case
    using step(2) sorted_stream_strict [OF stream_chain_def] by auto
qed

lemma cross_edges_graph:
  assumes "try_fold (cross_edge program by_id) deps g = Inr g'" "graph_ok n g"
    and by_id: "\<forall>oid i. by_id oid = Some i \<longleftrightarrow> i < n \<and> op_id (operations program ! i) = oid"
  shows "graph_ok n g' \<and>
    succ_rel (fst g') = succ_rel (fst g) \<union> {(i, j). i < n \<and> j < n \<and> (\<exists>d\<in>set deps.
      dep_before d = op_id (operations program ! i) \<and> dep_after d = op_id (operations program ! j))}"
  using assms(1)
proof (induction rule: try_fold_induct [where P = "\<lambda>deps g'. graph_ok n g' \<and>
    succ_rel (fst g') = succ_rel (fst g) \<union> {(i, j). i < n \<and> j < n \<and> (\<exists>d\<in>set deps.
      dep_before d = op_id (operations program ! i) \<and> dep_after d = op_id (operations program ! j))}"])
  case start
  then show ?case using assms(2) by simp
next
  case (step seen d h h')
  obtain i j where ij: "by_id (dep_before d) = Some i" "by_id (dep_after d) = Some j"
    "add_edge program i j h = Inr h'"
    using step
    by (cases "by_id (dep_before d)"; cases "by_id (dep_after d)") (simp_all add: cross_edge_def)
  then have lt: "i < n" "j < n" using by_id by blast+
  have uniq: "i' = i" if "i' < n" "dep_before d = op_id (operations program ! i')" for i'
    using that ij(1) by_id by (metis option.inject)
  have uniq': "j' = j" if "j' < n" "dep_after d = op_id (operations program ! j')" for j'
    using that ij(2) by_id by (metis option.inject)
  have ids: "dep_before d = op_id (operations program ! i)" "dep_after d = op_id (operations program ! j)"
    using ij by_id by auto
  have h': "graph_ok n h'" "succ_rel (fst h') = insert (i, j) (succ_rel (fst h))"
    using add_edge_graph [OF _ lt ij(3)] step by auto
  have "{(i', j'). i' < n \<and> j' < n \<and> dep_before d = op_id (operations program ! i') \<and>
      dep_after d = op_id (operations program ! j')} = {(i, j)}"
    using lt ids uniq uniq' by blast
  moreover have "{(i, j). i < n \<and> j < n \<and> (\<exists>e\<in>set (seen @ [d]).
      dep_before e = op_id (operations program ! i) \<and> dep_after e = op_id (operations program ! j))} =
    {(i, j). i < n \<and> j < n \<and> (\<exists>e\<in>set seen.
      dep_before e = op_id (operations program ! i) \<and> dep_after e = op_id (operations program ! j))} \<union>
    {(i', j'). i' < n \<and> j' < n \<and> dep_before d = op_id (operations program ! i') \<and>
      dep_after d = op_id (operations program ! j')}"
    by auto
  ultimately show ?case using h' step by simp
qed

section \<open>The topological order\<close>

text \<open>
  While the loop runs, an indegree counts the edges from operations that have not been popped, an
  operation has been queued or popped exactly when its indegree is zero, and the predecessors of a
  popped operation were popped before it.
\<close>

definition topo_inv :: "nat \<Rightarrow> nat list list \<Rightarrow> nat list \<Rightarrow> nat list \<Rightarrow> nat list \<Rightarrow> bool" where
  "topo_inv n succ indegree ready order \<longleftrightarrow>
     length indegree = n \<and> distinct (order @ ready) \<and> set (order @ ready) \<subseteq> {..<n} \<and>
     (\<forall>j<n. indegree ! j = (\<Sum>i\<in>{..<n} - set order. count_list (succ ! i) j)) \<and>
     (\<forall>j<n. j \<in> set (order @ ready) \<longleftrightarrow> indegree ! j = 0) \<and>
     (\<forall>k<length order. \<forall>i. (i, order ! k) \<in> succ_rel succ \<longrightarrow> i \<in> set (take k order))"

text \<open>The inner loop: after the successors \<open>xs\<close> have been released.\<close>

lemma release_fold:
  assumes "length indegree = n" "set xs \<subseteq> {..<n}" "distinct ready"
    and "\<forall>j<n. count_list xs j \<le> indegree ! j"
    and "\<forall>j\<in>set ready. j < n \<and> indegree ! j = 0"
    and "fold release xs (indegree, ready) = (indegree', ready')"
  shows "length indegree' = n \<and> distinct ready' \<and>
    (\<forall>j<n. indegree' ! j = indegree ! j - count_list xs j) \<and>
    set ready' = set ready \<union> {j \<in> set xs. indegree' ! j = 0}"
  using assms
proof (induction xs arbitrary: indegree ready)
  case Nil
  then show ?case by simp
next
  case (Cons x xs)
  define left where "left = indegree ! x - 1"
  define indegree2 where "indegree2 = indegree[x := left]"
  define ready2 where "ready2 = (if left = 0 then insort x ready else ready)"
  have x: "x < n" "0 < indegree ! x" using Cons.prems by (auto dest: spec [of _ x])
  then have fresh: "x \<notin> set ready" using Cons.prems(5) by auto
  have "release x (indegree, ready) = (indegree2, ready2)"
    by (simp add: release_def Let_def left_def indegree2_def ready2_def)
  then have 2: "fold release xs (indegree2, ready2) = (indegree', ready')"
    using Cons.prems(6) by simp
  have zero: "x \<notin> set xs" if "left = 0"
  proof -
    have "count_list (x # xs) x \<le> indegree ! x" using Cons.prems(4) x(1) by blast
    then have "count_list xs x = 0" using that by (simp add: left_def)
    then show ?thesis by (simp add: count_list_0_iff)
  qed
  have IH: "length indegree' = n \<and> distinct ready' \<and>
    (\<forall>j<n. indegree' ! j = indegree2 ! j - count_list xs j) \<and>
    set ready' = set ready2 \<union> {j \<in> set xs. indegree' ! j = 0}"
  proof (rule Cons.IH [OF _ _ _ _ _ 2])
    show "length indegree2 = n" using Cons.prems(1) by (simp add: indegree2_def)
    show "set xs \<subseteq> {..<n}" using Cons.prems(2) by simp
    show "distinct ready2" using Cons.prems(3) fresh by (simp add: ready2_def distinct_insort)
    show "\<forall>j<n. count_list xs j \<le> indegree2 ! j"
      using Cons.prems(1,4) x by (auto simp: indegree2_def left_def nth_list_update dest: spec split: if_splits)
    show "\<forall>j\<in>set ready2. j < n \<and> indegree2 ! j = 0"
      using Cons.prems(1,5) x by (auto simp: indegree2_def ready2_def nth_list_update set_insort_key split: if_splits)
  qed
  have deg: "indegree' ! j = indegree ! j - count_list (x # xs) j" if "j < n" for j
    using IH that Cons.prems(1) x by (auto simp: indegree2_def left_def nth_list_update)
  have "indegree' ! x = left - count_list xs x"
    using IH x Cons.prems(1) by (simp add: indegree2_def)
  then have "indegree' ! x = 0 \<longleftrightarrow> left = 0 \<or> x \<in> set xs \<and> indegree' ! x = 0"
    using zero by (cases "x \<in> set xs") (auto simp: count_list_0_iff [symmetric])
  then have "set ready' = set ready \<union> {j \<in> set (x # xs). indegree' ! j = 0}"
    using IH by (auto simp: ready2_def set_insort_key)
  with IH deg show ?case by blast
qed

lemma topo_inv_step:
  assumes succ: "\<forall>i<n. set (succ ! i) \<subseteq> {..<n}" "length succ = n"
    and inv: "topo_inv n succ indegree (current # ready) order"
    and fold: "fold release (succ ! current) (indegree, ready) = (indegree', ready')"
  shows "topo_inv n succ indegree' ready' (order @ [current])"
proof -
  let ?c = "\<lambda>i j. count_list (succ ! i) j"
  have len: "length indegree = n" and dist: "distinct (order @ current # ready)"
    and sub: "set order \<subseteq> {..<n}" "current < n" "set ready \<subseteq> {..<n}"
    and deg: "\<And>j. j < n \<Longrightarrow> indegree ! j = (\<Sum>i\<in>{..<n} - set order. ?c i j)"
    and zero: "\<And>j. j < n \<Longrightarrow> j \<in> set order \<union> {current} \<union> set ready \<longleftrightarrow> indegree ! j = 0"
    and preds: "\<forall>k<length order. \<forall>i. (i, order ! k) \<in> succ_rel succ \<longrightarrow> i \<in> set (take k order)"
    using inv by (auto simp: topo_inv_def)
  have out: "current \<in> {..<n} - set order" using dist sub(2) by auto
  have split: "indegree ! j = ?c current j + (\<Sum>i\<in>{..<n} - set (order @ [current]). ?c i j)" if "j < n" for j
  proof -
    have "{..<n} - set order - {current} = {..<n} - set (order @ [current])" by auto
    then show ?thesis
      unfolding deg [OF that] using sum.remove [OF _ out, of "\<lambda>i. ?c i j"] by simp
  qed
  have rel: "length indegree' = n" "distinct ready'"
    "\<And>j. j < n \<Longrightarrow> indegree' ! j = indegree ! j - ?c current j"
    "set ready' = set ready \<union> {j \<in> set (succ ! current). indegree' ! j = 0}"
  proof -
    have "set (succ ! current) \<subseteq> {..<n}" using succ(1) sub(2) by blast
    moreover have "distinct ready" using dist by simp
    moreover have "\<forall>j<n. ?c current j \<le> indegree ! j" using split by simp
    moreover have "\<forall>j\<in>set ready. j < n \<and> indegree ! j = 0" using zero sub(3) by blast
    ultimately have "length indegree' = n \<and> distinct ready' \<and>
      (\<forall>j<n. indegree' ! j = indegree ! j - ?c current j) \<and>
      set ready' = set ready \<union> {j \<in> set (succ ! current). indegree' ! j = 0}"
      using fold by (rule release_fold [OF len])
    then show "length indegree' = n" "distinct ready'"
      "\<And>j. j < n \<Longrightarrow> indegree' ! j = indegree ! j - ?c current j"
      "set ready' = set ready \<union> {j \<in> set (succ ! current). indegree' ! j = 0}" by blast+
  qed
  have pos: "0 < indegree ! j" if "j \<in> set (succ ! current)" for j
  proof -
    have "j < n" using that succ(1) sub(2) by auto
    moreover have "?c current j \<noteq> 0" using that by (simp add: count_list_0_iff)
    ultimately show ?thesis using split [of j] by simp
  qed
  have nonzero: "j \<notin> set order \<union> {current} \<union> set ready" if "j \<in> set (succ ! current)" for j
    using zero [of j] pos [OF that] that succ(1) sub(2) by auto
  have "(i, current) \<in> succ_rel succ \<Longrightarrow> i \<in> set order" for i
  proof (rule ccontr)
    assume i: "(i, current) \<in> succ_rel succ" "i \<notin> set order"
    then have "i \<in> {..<n} - set order" "?c i current \<noteq> 0"
      using succ(2) by (auto simp: succ_rel_def count_list_0_iff)
    moreover have "(\<Sum>i\<in>{..<n} - set order. ?c i current) = 0"
      using deg [OF sub(2)] zero [OF sub(2)] by simp
    ultimately show False by (simp only: sum_eq_0_iff finite_Diff finite_lessThan)
  qed
  then have preds': "\<forall>k<length (order @ [current]). \<forall>i. (i, (order @ [current]) ! k) \<in> succ_rel succ \<longrightarrow>
      i \<in> set (take k (order @ [current]))"
    using preds by (auto simp: nth_append less_Suc_eq)
  have zero': "j \<in> set ((order @ [current]) @ ready') \<longleftrightarrow> indegree' ! j = 0" if "j < n" for j
  proof (cases "j \<in> set (succ ! current)")
    case True
    then show ?thesis using nonzero [OF True] rel(4) by auto
  next
    case False
    then have "?c current j = 0" by (simp add: count_list_0_iff)
    then show ?thesis using False zero [OF that] rel(3) [OF that] rel(4) by auto
  qed
  have "distinct ((order @ [current]) @ ready')" "set ((order @ [current]) @ ready') \<subseteq> {..<n}"
    using dist rel(2,4) nonzero sub succ(1) by auto
  then show ?thesis
    unfolding topo_inv_def using rel(1,3) split zero' preds' by auto
qed

lemma topological_loop_inv:
  assumes "\<forall>i<n. set (succ ! i) \<subseteq> {..<n}" "length succ = n"
    and "topo_inv n succ indegree ready order" "fuel = n - length order"
    and "topological_loop fuel succ indegree ready order = (order', ready')"
  shows "ready' = [] \<and> (\<exists>indegree'. topo_inv n succ indegree' [] order')"
  using assms
proof (induction fuel succ indegree ready order rule: topological_loop.induct [case_names step spent idle])
  case (step fuel succ' indegree current ready order)
  obtain indegree2 ready2 where fold: "fold release (succ' ! current) (indegree, ready) = (indegree2, ready2)"
    by fastforce
  show ?case
  proof (rule step.IH [OF refl fold [symmetric]])
    show "\<forall>i<n. set (succ' ! i) \<subseteq> {..<n}" by (rule step.prems(1))
    show "length succ' = n" by (rule step.prems(2))
    show "topo_inv n succ' indegree2 ready2 (order @ [current])"
      using topo_inv_step [OF step.prems(1,2,3) fold] .
    show "fuel = n - length (order @ [current])" using step.prems(4) by simp
    show "topological_loop fuel succ' indegree2 ready2 (order @ [current]) = (order', ready')"
      using step.prems(5) fold by simp
  qed
next
  case (spent succ' indegree ready order)
  have "distinct (order @ ready)" "set (order @ ready) \<subseteq> {..<n}"
    using spent.prems(3) by (simp_all add: topo_inv_def)
  then have "length (order @ ready) \<le> n"
    by (metis card_lessThan card_mono distinct_card finite_lessThan)
  then have "length ready = 0"
    using spent.prems(4) unfolding length_append by arith
  then have "ready = []" by simp
  with spent.prems show ?case by auto
next
  case (idle fuel succ' indegree order)
  then show ?case by auto
qed

text \<open>The fuel is enough: the loop always ends with an empty queue.\<close>

lemma topological_loop_drained:
  assumes "graph_ok n (succ, indegree)"
  shows "snd (topological_loop n succ indegree (filter (\<lambda>i. indegree ! i = 0) [0..<n]) []) = []"
    "\<exists>indegree'. topo_inv n succ indegree' [] (topological_order succ indegree)"
proof -
  have ok: "length succ = n" "length indegree = n" "\<forall>i<n. set (succ ! i) \<subseteq> {..<n}"
    "\<forall>j<n. indegree ! j = (\<Sum>i<n. count_list (succ ! i) j)"
    using assms by (simp_all add: graph_ok_def)
  let ?ready = "filter (\<lambda>i. indegree ! i = 0) [0..<n]"
  have inv: "topo_inv n succ indegree ?ready []"
    using ok by (auto simp: topo_inv_def)
  obtain order' ready' where loop: "topological_loop n succ indegree ?ready [] = (order', ready')"
    by fastforce
  from topological_loop_inv [OF ok(3,1) inv _ loop]
  have *: "ready' = []" "\<exists>indegree'. topo_inv n succ indegree' [] order'" by auto
  then show "snd (topological_loop n succ indegree ?ready []) = []" using loop by simp
  show "\<exists>indegree'. topo_inv n succ indegree' [] (topological_order succ indegree)"
    using * loop ok(2) by (simp add: topological_order_def)
qed

text \<open>The order is complete exactly when the graph has no cycle.\<close>

lemma topo_inv_complete_acyclic:
  assumes "topo_inv n succ indegree [] order" "length succ = n" "\<forall>i<n. set (succ ! i) \<subseteq> {..<n}"
  shows "length order = n \<longleftrightarrow> acyclic (succ_rel succ)"
proof
  have dist: "distinct order" and sub: "set order \<subseteq> {..<n}"
    and deg: "\<And>j. j < n \<Longrightarrow> indegree ! j = (\<Sum>i\<in>{..<n} - set order. count_list (succ ! i) j)"
    and zero: "\<And>j. j < n \<Longrightarrow> j \<in> set order \<longleftrightarrow> indegree ! j = 0"
    and preds: "\<And>k i. k < length order \<Longrightarrow> (i, order ! k) \<in> succ_rel succ \<Longrightarrow> i \<in> set (take k order)"
    using assms(1) by (auto simp: topo_inv_def)
  have rel: "succ_rel succ \<subseteq> {..<n} \<times> {..<n}" using assms(2,3) by (auto simp: succ_rel_def)
  {
    assume "length order = n"
    have "(i, j) \<in> (succ_rel succ)\<^sup>+ \<Longrightarrow> k < length order \<Longrightarrow> j = order ! k \<Longrightarrow> i \<in> set (take k order)" for i j k
    proof (induction arbitrary: k rule: trancl_induct)
      case (base y)
      then show ?case using preds by blast
    next
      case (step y z)
      then obtain l where "l < k" "y = order ! l" "l < length order"
        using preds [of k y] by (auto simp: in_set_conv_nth)
      then show ?case using step.IH [of l] set_take_subset_set_take [of l k order] step.prems by auto
    qed
    note earlier = this
    show "acyclic (succ_rel succ)"
    proof (rule acyclicI, intro allI notI)
      fix i
      assume cyc: "(i, i) \<in> (succ_rel succ)\<^sup>+"
      then have "i < n" using rel trancl_subset_Sigma by blast
      then have "i \<in> set order"
        using \<open>length order = n\<close> dist sub by (metis card_lessThan card_subset_eq distinct_card finite_lessThan lessThan_iff)
      then obtain k where "k < length order" "i = order ! k" by (metis in_set_conv_nth)
      moreover have "order ! k \<notin> set (take k order)"
        using dist \<open>k < length order\<close> by (auto simp: in_set_conv_nth distinct_conv_nth)
      ultimately show False using earlier [OF cyc] by blast
    qed
  }
  {
    assume acyc: "acyclic (succ_rel succ)"
    have fin: "finite (succ_rel succ)" using rel finite_subset by blast
    have "wf (succ_rel succ)" using acyc fin by (rule finite_acyclic_wf [rotated])
    then have "j < n \<longrightarrow> j \<in> set order" for j
    proof (induction j rule: wf_induct_rule)
      case (less j)
      show ?case
      proof
        assume "j < n"
        have "\<forall>i\<in>{..<n} - set order. count_list (succ ! i) j = 0"
          using less assms(2) by (auto simp: succ_rel_def count_list_0_iff)
        then show "j \<in> set order" using zero [OF \<open>j < n\<close>] deg [OF \<open>j < n\<close>] by simp
      qed
    qed
    then have "set order = {..<n}" using sub by auto
    then show "length order = n" using dist by (metis card_lessThan distinct_card)
  }
qed

section \<open>Vector clocks\<close>

lemma try_fold_prefix_induct [consumes 1, case_names start step]:
  assumes "try_fold f xs s = Inr s'" "P [] s"
    and "\<And>ys x zs t t'. xs = ys @ x # zs \<Longrightarrow> P ys t \<Longrightarrow> f x t = Inr t' \<Longrightarrow> P (ys @ [x]) t'"
  shows "P xs s'"
  using assms
proof (induction xs arbitrary: s' rule: rev_induct)
  case (snoc x xs)
  then obtain t where t: "try_fold f xs s = Inr t" "f x t = Inr s'" by (auto simp: try_fold_append)
  have "P xs t"
    by (rule snoc.IH [OF t(1) snoc.prems(2)]) (use snoc.prems(3) in force)
  then show ?case using snoc.prems(3) [of xs x "[]"] t(2) by simp
qed simp

lemma nth_update: "j < length xs \<Longrightarrow> xs[i := x] ! j = (if i = j then x else xs ! j)"
  by (auto simp: nth_list_update)

lemma predecessors_of_entry:
  assumes "length succ = n" "\<forall>i<n. set (succ ! i) \<subseteq> {..<n}"
  shows "length (predecessors_of succ) = n"
    "j < n \<Longrightarrow> i \<in> set (predecessors_of succ ! j) \<longleftrightarrow> (i, j) \<in> succ_rel succ"
proof -
  have inner: "length (foldl (\<lambda>preds after. preds[after := preds ! after @ [b]]) preds xs) = length preds \<and>
      (\<forall>j<length preds. set (foldl (\<lambda>preds after. preds[after := preds ! after @ [b]]) preds xs ! j) =
         set (preds ! j) \<union> (if j \<in> set xs then {b} else {}))" for preds :: "nat list list" and xs b
    by (induction xs rule: rev_induct) (auto simp: nth_update split: if_splits)
  let ?step = "\<lambda>preds before. foldl (\<lambda>preds after. preds[after := preds ! after @ [before]]) preds (succ ! before)"
  have "length (foldl ?step (replicate n []) bs) = n \<and>
    (\<forall>j<n. set (foldl ?step (replicate n []) bs ! j) = {i \<in> set bs. j \<in> set (succ ! i)})" for bs
    by (induction bs rule: rev_induct) (use inner in auto)
  from this [of "[0..<n]"] show "length (predecessors_of succ) = n"
    "j < n \<Longrightarrow> i \<in> set (predecessors_of succ ! j) \<longleftrightarrow> (i, j) \<in> succ_rel succ"
    using assms(1) by (auto simp: predecessors_of_def succ_rel_def)
qed

definition clock_exact ::
  "ScheduledProgram \<Rightarrow> (nat \<times> nat) set \<Rightarrow> u64 list list \<Rightarrow> nat \<Rightarrow> bool" where
  "clock_exact program R clocks v \<longleftrightarrow>
     (\<forall>s<unat (stream_count program). \<forall>x. x < unat (clocks ! v ! s) \<longleftrightarrow>
        (\<exists>u. (u, v) \<in> R\<^sup>* \<and> unat (op_stream (operations program ! u)) = s \<and>
           x \<le> unat (issue_index (operations program ! u))))"

lemma merge_clocks:
  assumes "length c = m" "\<forall>p\<in>set ps. length (clocks ! p) = m"
  shows "length (foldl (\<lambda>c p. map2 max c (clocks ! p)) c ps) = m \<and>
    (\<forall>s<m. \<forall>x. x < unat (foldl (\<lambda>c p. map2 max c (clocks ! p)) c ps ! s) \<longleftrightarrow>
       x < unat (c ! s) \<or> (\<exists>p\<in>set ps. x < unat (clocks ! p ! s :: u64)))"
  using assms(2)
  by (induction ps rule: rev_induct) (use assms(1) in \<open>auto simp: u64_simps less_max_iff_disj\<close>)

lemma operation_clocks_exact:
  assumes fold: "try_fold (operation_clock program (predecessors_of succ)) order
      (replicate n (replicate (unat (stream_count program)) 0)) = Inr clocks"
    and succ: "length succ = n" "\<forall>i<n. set (succ ! i) \<subseteq> {..<n}"
    and order: "distinct order" "set order \<subseteq> {..<n}"
      "\<forall>k<length order. \<forall>i. (i, order ! k) \<in> succ_rel succ \<longrightarrow> i \<in> set (take k order)"
    and streams: "\<forall>i<n. op_stream (operations program ! i) < stream_count program"
  shows "\<forall>v\<in>set order. clock_exact program (succ_rel succ) clocks v"
proof -
  let ?m = "unat (stream_count program)"
  let ?P = "\<lambda>ys clocks. length clocks = n \<and> (\<forall>v<n. length (clocks ! v) = ?m) \<and>
    (\<forall>v\<in>set ys. clock_exact program (succ_rel succ) clocks v) \<and>
    (\<forall>v<n. v \<notin> set ys \<longrightarrow> clocks ! v = replicate ?m 0)"
  have "?P order clocks"
    using fold
  proof (induction rule: try_fold_prefix_induct [where P = ?P])
    case start
    then show ?case by simp
  next
    case (step ys v zs clocks clocks')
    have v: "v < n" "v \<notin> set ys" using step(1) order by auto
    have preds: "(p, v) \<in> succ_rel succ \<Longrightarrow> p \<in> set ys" for p
      using order(3) [rule_format, of "length ys" p] step(1) by simp
    have len: "length clocks = n" "\<forall>v<n. length (clocks ! v) = ?m"
      and exact: "\<forall>v\<in>set ys. clock_exact program (succ_rel succ) clocks v"
      and fresh: "\<forall>v<n. v \<notin> set ys \<longrightarrow> clocks ! v = replicate ?m 0"
      using step(2) by auto
    let ?ps = "predecessors_of succ ! v"
    let ?o = "operations program ! v"
    define c where "c = foldl (\<lambda>c p. map2 max c (clocks ! p)) (clocks ! v) ?ps"
    have ps: "set ?ps = {p. (p, v) \<in> succ_rel succ}"
      using predecessors_of_entry(2) [OF succ v(1)] by blast
    have "\<forall>p\<in>set ?ps. length (clocks ! p) = ?m"
      using ps len(2) succ(1) by (auto simp: succ_rel_def)
    from merge_clocks [OF _ this, of "clocks ! v"] have c: "length c = ?m"
      "\<And>s x. s < ?m \<Longrightarrow> x < unat (c ! s) \<longleftrightarrow> (\<exists>p\<in>set ?ps. x < unat (clocks ! p ! s))"
      using len(2) fresh v by (auto simp: c_def)
    have max: "issue_index ?o \<noteq> UINT64_MAX"
      and clocks': "clocks' = clocks[v := c[unat (op_stream ?o) :=
        max (c ! unat (op_stream ?o)) (issue_index ?o + 1)]]"
      using step(3) by (auto simp: operation_clock_def c_def Let_def split: if_splits)
    have "issue_index ?o + 1 \<noteq> 0" using max by (metis add_eq_0_iff2)
    then have suc: "unat (issue_index ?o + 1) = Suc (unat (issue_index ?o))"
      using unatSuc [of "issue_index ?o"] by (simp add: add.commute)
    have stream: "unat (op_stream ?o) < ?m" using streams v(1) by (simp add: word_less_nat_alt)
    have reach: "(u, v) \<in> (succ_rel succ)\<^sup>* \<longleftrightarrow> u = v \<or> (\<exists>p. (u, p) \<in> (succ_rel succ)\<^sup>* \<and> (p, v) \<in> succ_rel succ)" for u
      by (auto intro: rtrancl.rtrancl_into_rtrancl elim: rtranclE)
    have new: "clock_exact program (succ_rel succ) clocks' v"
      unfolding clock_exact_def
    proof (intro allI impI)
      fix s x
      assume s: "s < ?m"
      have "x < unat (clocks' ! v ! s) \<longleftrightarrow> x < unat (c ! s) \<or>
        unat (op_stream ?o) = s \<and> x \<le> unat (issue_index ?o)"
        using v(1) len(1) c(1) s suc by (auto simp: clocks' nth_update u64_simps less_max_iff_disj)
      also have "x < unat (c ! s) \<longleftrightarrow> (\<exists>p u. (p, v) \<in> succ_rel succ \<and> (u, p) \<in> (succ_rel succ)\<^sup>* \<and>
          unat (op_stream (operations program ! u)) = s \<and> x \<le> unat (issue_index (operations program ! u)))"
        using c(2) [OF s] ps preds exact s by (fastforce simp: clock_exact_def)
      finally show "x < unat (clocks' ! v ! s) \<longleftrightarrow> (\<exists>u. (u, v) \<in> (succ_rel succ)\<^sup>* \<and>
          unat (op_stream (operations program ! u)) = s \<and> x \<le> unat (issue_index (operations program ! u)))"
        unfolding reach by blast
    qed
    have "clock_exact program (succ_rel succ) clocks' w" if "w \<in> set ys" for w
    proof -
      have "w \<noteq> v" using that v(2) by blast
      then have "clocks' ! w = clocks ! w" by (simp add: clocks')
      then show ?thesis using exact that by (simp add: clock_exact_def)
    qed
    moreover have "\<forall>w<n. length (clocks' ! w) = ?m"
      using len c(1) by (auto simp: clocks' nth_update)
    moreover have "\<forall>w<n. w \<notin> set (ys @ [v]) \<longrightarrow> clocks' ! w = replicate ?m 0"
      using fresh by (auto simp: clocks')
    moreover have "length clocks' = n" by (simp add: clocks' len(1))
    ultimately show ?case using new by auto
  qed
  then show ?thesis by blast
qed

section \<open>What an index is\<close>

text \<open>A successful \<open>BuildIndex\<close>, part by part.\<close>

definition indexed_ok :: "DsaProblem \<Rightarrow> ScheduledProgram \<Rightarrow> IndexedProgram \<Rightarrow> bool" where
  "indexed_ok problem program indexed \<longleftrightarrow>
     (let ops = operations program; n = length ops; R = succ_rel (successors indexed) in
      (\<forall>i<n. op_stream (ops ! i) < stream_count program) \<and>
      (\<forall>oid i. operation_index indexed oid = Some i \<longleftrightarrow> i < n \<and> op_id (ops ! i) = oid) \<and>
      R\<^sup>* = happens_before program \<and> acyclic R \<and>
      (\<forall>i<n. \<forall>j<n. op_stream (ops ! i) = op_stream (ops ! j) \<longrightarrow>
         issue_index (ops ! i) \<le> issue_index (ops ! j) \<longrightarrow> (i, j) \<in> R\<^sup>*) \<and>
      (\<forall>v<n. clock_exact program R (vector_clocks indexed) v) \<and>
      (\<forall>a<length (accesses program). operation_index indexed (acc_operation (accesses program ! a)) \<noteq> None) \<and>
      (\<forall>buffer\<in>set (buffers problem). accesses_by_buffer indexed (buf_id buffer) \<noteq> None) \<and>
      (\<forall>b. buffer_accesses indexed b = filter (\<lambda>a. acc_buffer (accesses program ! a) = b) [0..<length (accesses program)]
         \<or> accesses_by_buffer indexed b = None))"

lemma index_accesses_index:
  assumes "try_fold (index_access problem program by_id) xs Map.empty = Inr by_buffer"
  shows "(\<forall>a\<in>set xs. by_id (acc_operation (accesses program ! a)) \<noteq> None) \<and>
    (\<forall>b. by_buffer b = (let as = filter (\<lambda>a. acc_buffer (accesses program ! a) = b) xs in
       if as = [] then None else Some as))"
  using assms
proof (induction rule: try_fold_induct [where P = "\<lambda>xs by_buffer.
    (\<forall>a\<in>set xs. by_id (acc_operation (accesses program ! a)) \<noteq> None) \<and>
    (\<forall>b. by_buffer b = (let as = filter (\<lambda>a. acc_buffer (accesses program ! a) = b) xs in
       if as = [] then None else Some as))"])
  case start
  then show ?case by simp
next
  case (step seen a m m')
  let ?b = "acc_buffer (accesses program ! a)"
  have m': "m' = m(?b \<mapsto> (case m ?b of None \<Rightarrow> [] | Some indices \<Rightarrow> indices) @ [a])"
    and known: "by_id (acc_operation (accesses program ! a)) \<noteq> None"
    using step(3) by (simp_all add: index_access_def Let_def split: if_splits)
  have m: "m b = (let as = filter (\<lambda>a. acc_buffer (accesses program ! a) = b) seen in
       if as = [] then None else Some as)" for b
    using step(2) by blast
  have "m' b = (let as = filter (\<lambda>a. acc_buffer (accesses program ! a) = b) (seen @ [a]) in
       if as = [] then None else Some as)" for b
    by (cases "b = ?b") (simp_all add: m' m Let_def)
  with known step(2) show ?case by auto
qed

lemma require_accesses:
  "try_fold (require_access by_buffer) bs u = Inr v \<Longrightarrow> b \<in> set bs \<Longrightarrow> by_buffer (buf_id b) \<noteq> None"
  by (induction bs arbitrary: u) (auto simp: require_access_def split: if_splits)

lemma reachable_subset:
  assumes "R \<subseteq> S" "S \<subseteq> R\<^sup>*"
  shows "R\<^sup>* = S\<^sup>*"
  using assms by (meson rtrancl_mono rtrancl_subset subset_antisym rtrancl_subset_rtrancl)

theorem BuildIndex_indexed_ok:
  assumes "BuildIndex problem program = Inr indexed"
  shows "indexed_ok problem program indexed"
proof -
  let ?ops = "operations program"
  let ?n = "length ?ops"
  obtain by_id by_stream g succ indegree clocks by_buffer where
    parts: "index_operations program = Inr (by_id, by_stream)"
      "try_fold (stream_edges program) by_stream (replicate ?n [], replicate ?n 0) = Inr g"
      "try_fold (cross_edge program by_id) (cross_dependencies program) g = Inr (succ, indegree)"
      "length (topological_order succ indegree) = ?n"
      "try_fold (operation_clock program (predecessors_of succ)) (topological_order succ indegree)
         (replicate ?n (replicate (unat (stream_count program)) 0)) = Inr clocks"
      "try_fold (index_access problem program by_id) [0..<length (accesses program)] Map.empty = Inr by_buffer"
      "try_fold (require_access by_buffer) (buffers problem) () = Inr ()"
    and indexed: "indexed = \<lparr>operation_index = by_id, accesses_by_buffer = by_buffer,
      successors = succ, vector_clocks = clocks\<rparr>"
    using assms by (auto simp: BuildIndex_def Let_def split: if_splits prod.splits)
  note index = index_operations_index [OF parts(1)]
  have streams: "\<forall>xs\<in>set by_stream. set xs \<subseteq> {..<?n}" using index(3) by auto
  have g: "graph_ok ?n g"
    "succ_rel (fst g) = (\<Union>xs\<in>set by_stream. chain_rel (stream_chain program xs))"
    "\<forall>xs\<in>set by_stream. sorted_wrt (issue_less program) (stream_chain program xs)"
    using stream_edges_graph [OF parts(2) graph_ok_initial streams] by auto
  have final: "graph_ok ?n (succ, indegree)"
    "succ_rel succ = succ_rel (fst g) \<union> {(i, j). i < ?n \<and> j < ?n \<and> (\<exists>d\<in>set (cross_dependencies program).
      dep_before d = op_id (?ops ! i) \<and> dep_after d = op_id (?ops ! j))}"
    using cross_edges_graph [OF parts(3) g(1) index(2)] by auto
  then have succ: "length succ = ?n" "\<forall>i<?n. set (succ ! i) \<subseteq> {..<?n}"
    by (simp_all add: graph_ok_def)
  obtain deg where topo: "topo_inv ?n succ deg [] (topological_order succ indegree)"
    using topological_loop_drained(2) [OF final(1)] by blast
  let ?order = "topological_order succ indegree"
  have order: "distinct ?order" "set ?order \<subseteq> {..<?n}"
    "\<forall>k<length ?order. \<forall>i. (i, ?order ! k) \<in> succ_rel succ \<longrightarrow> i \<in> set (take k ?order)"
    using topo by (simp_all add: topo_inv_def)
  have all: "set ?order = {..<?n}"
    using order parts(4) by (metis card_lessThan card_subset_eq distinct_card finite_lessThan)
  let ?R = "succ_rel succ"
  have chains: "(i, j) \<in> ?R\<^sup>*"
    if ij: "i < ?n" "j < ?n" "op_stream (?ops ! i) = op_stream (?ops ! j)"
      "issue_index (?ops ! i) \<le> issue_index (?ops ! j)" for i j
  proof -
    define s where "s = unat (op_stream (?ops ! i))"
    define xs where "xs = filter (\<lambda>i. unat (op_stream (?ops ! i)) = s) [0..<?n]"
    have "s < unat (stream_count program)"
      using index(1) ij(1) by (simp add: s_def word_less_nat_alt)
    then have xs: "xs \<in> set by_stream" unfolding index(3) xs_def by auto
    let ?ys = "stream_chain program xs"
    have "i \<in> set ?ys" "j \<in> set ?ys" using ij by (auto simp: xs_def s_def)
    then obtain k l where kl: "k < length ?ys" "l < length ?ys" "?ys ! k = i" "?ys ! l = j"
      by (metis in_set_conv_nth)
    have "sorted_wrt (issue_less program) ?ys" using g(3) xs by blast
    then have "k \<le> l" using kl ij(4) by (metis leI not_le sorted_wrt_nth_less)
    moreover have "chain_rel ?ys \<subseteq> ?R" using g(2) xs final(2) by blast
    ultimately show ?thesis using chain_rel_reach [of l ?ys k] kl by blast
  qed
  have "?R \<subseteq> program_step program"
  proof
    fix e
    assume "e \<in> ?R"
    then consider xs where "xs \<in> set by_stream" "e \<in> chain_rel (stream_chain program xs)"
      | "e \<in> program_step program"
      unfolding final(2) g(2) program_step_def by blast
    then show "e \<in> program_step program"
    proof cases
      case 1
      let ?ys = "stream_chain program xs"
      obtain k where k: "Suc k < length ?ys" "e = (?ys ! k, ?ys ! Suc k)"
        using 1(2) by (auto simp: set_zip nth_tl less_diff_conv)
      have mem: "?ys ! k \<in> set xs" "?ys ! Suc k \<in> set xs"
        using k(1) nth_mem [of k ?ys] nth_mem [of "Suc k" ?ys] by simp_all
      obtain s where "set xs = {i. i < ?n \<and> unat (op_stream (?ops ! i)) = s}"
        using 1(1) index(3) by auto
      then have "?ys ! k < ?n" "?ys ! Suc k < ?n"
        "op_stream (?ops ! (?ys ! k)) = op_stream (?ops ! (?ys ! Suc k))"
        using mem by (auto simp: word_unat_eq_iff)
      moreover have "issue_less program (?ys ! k) (?ys ! Suc k)"
        using g(3) 1(1) k(1) sorted_wrt_nth_less [of "issue_less program" ?ys k "Suc k"] by simp
      ultimately show ?thesis using k(2) by (simp add: program_step_def)
    qed
  qed
  moreover have "program_step program \<subseteq> ?R\<^sup>*"
    using chains final(2) unfolding program_step_def by (auto intro: less_imp_le)
  ultimately have hb: "?R\<^sup>* = happens_before program"
    unfolding happens_before_def by (rule reachable_subset)
  have acyc: "acyclic ?R" using topo_inv_complete_acyclic [OF topo succ] parts(4) by simp
  have clocks: "\<forall>v<?n. clock_exact program ?R clocks v"
    using operation_clocks_exact [OF parts(5) succ order index(1)] all by auto
  note accs = index_accesses_index [OF parts(6)]
  have "\<forall>a<length (accesses program). by_id (acc_operation (accesses program ! a)) \<noteq> None"
    using accs by auto
  moreover have "\<forall>buffer\<in>set (buffers problem). by_buffer (buf_id buffer) \<noteq> None"
    using require_accesses [OF parts(7)] by blast
  moreover have "\<forall>b. buffer_accesses indexed b =
      filter (\<lambda>a. acc_buffer (accesses program ! a) = b) [0..<length (accesses program)] \<or> by_buffer b = None"
    using accs by (auto simp: buffer_accesses_def indexed Let_def)
  ultimately show ?thesis
    unfolding indexed_ok_def Let_def
    using index(1,2) hb acyc clocks chains by (simp add: indexed)
qed

text \<open>The parts, as facts.\<close>

lemma indexed_okD:
  assumes "indexed_ok problem program indexed"
  defines "ops \<equiv> operations program"
  shows indexed_op_stream: "i < length ops \<Longrightarrow> op_stream (ops ! i) < stream_count program"
    and indexed_operation_index: "operation_index indexed oid = Some i \<longleftrightarrow> i < length ops \<and> op_id (ops ! i) = oid"
    and indexed_happens_before: "(succ_rel (successors indexed))\<^sup>* = happens_before program"
    and indexed_acyclic: "acyclic (succ_rel (successors indexed))"
    and indexed_stream_order: "i < length ops \<Longrightarrow> j < length ops \<Longrightarrow> op_stream (ops ! i) = op_stream (ops ! j) \<Longrightarrow>
      issue_index (ops ! i) \<le> issue_index (ops ! j) \<Longrightarrow> (i, j) \<in> happens_before program"
    and indexed_clock: "v < length ops \<Longrightarrow> clock_exact program (succ_rel (successors indexed)) (vector_clocks indexed) v"
    and indexed_access_op: "a < length (accesses program) \<Longrightarrow>
      \<exists>i. operation_index indexed (acc_operation (accesses program ! a)) = Some i"
  using assms(1) unfolding indexed_ok_def Let_def ops_def by auto

lemma indexed_accesses:
  assumes "indexed_ok problem program indexed" "b \<in> set (buffers problem)"
  shows "buffer_accesses indexed (buf_id b) =
    filter (\<lambda>a. acc_buffer (accesses program ! a) = buf_id b) [0..<length (accesses program)]"
  using assms unfolding indexed_ok_def Let_def by blast

section \<open>The decision procedure\<close>

lemma happens_before_bounded: "(i, j) \<in> happens_before program \<Longrightarrow> i = j \<or>
    i < length (operations program) \<and> j < length (operations program)"
  unfolding happens_before_def by (induction rule: rtrancl_induct) (auto simp: program_step_def)

lemma Ordered_happens_before:
  assumes "indexed_ok problem program indexed" "i < length (operations program)"
    "j < length (operations program)"
  shows "Ordered program indexed i j \<longleftrightarrow> (i, j) \<in> happens_before program"
proof -
  let ?ops = "operations program"
  have hb: "(succ_rel (successors indexed))\<^sup>* = happens_before program"
    by (rule indexed_happens_before [OF assms(1)])
  have "unat (op_stream (?ops ! i)) < unat (stream_count program)"
    using indexed_op_stream [OF assms(1,2)] by (simp add: word_less_nat_alt)
  then have clock: "unat (issue_index (?ops ! i)) < unat (vector_clocks indexed ! j ! unat (op_stream (?ops ! i))) \<longleftrightarrow>
    (\<exists>u. (u, j) \<in> happens_before program \<and> op_stream (?ops ! u) = op_stream (?ops ! i) \<and>
       issue_index (?ops ! i) \<le> issue_index (?ops ! u))"
    using indexed_clock [OF assms(1,3)] hb
    by (simp add: clock_exact_def word_unat_eq_iff word_le_nat_alt)
  have via: "(i, j) \<in> happens_before program"
    if "(u, j) \<in> happens_before program" "op_stream (?ops ! u) = op_stream (?ops ! i)"
      "issue_index (?ops ! i) \<le> issue_index (?ops ! u)" for u
  proof -
    have "u < length ?ops" using happens_before_bounded [OF that(1)] assms(3) by auto
    then have "(i, u) \<in> happens_before program"
      using indexed_stream_order [OF assms(1,2)] that(2,3) by simp
    then show ?thesis using that(1) unfolding happens_before_def by (rule rtrancl_trans)
  qed
  have "(i, j) \<in> happens_before program \<longleftrightarrow> unat (issue_index (?ops ! i)) <
      unat (vector_clocks indexed ! j ! unat (op_stream (?ops ! i)))"
    unfolding clock using via by blast
  then show ?thesis
    unfolding Ordered_def word_less_nat_alt by (auto simp: happens_before_def)
qed

text \<open>Happens-before is a partial order on the operations of an indexed program.\<close>

lemma happens_before_antisym:
  assumes "indexed_ok problem program indexed" "(i, j) \<in> happens_before program" "(j, i) \<in> happens_before program"
  shows "i = j"
  using assms(2,3) indexed_acyclic [OF assms(1)]
  unfolding indexed_happens_before [OF assms(1), symmetric]
  by (meson acyclic_def rtranclD rtrancl_trancl_trancl)

lemma happens_before_trans:
  "(i, j) \<in> happens_before program \<Longrightarrow> (j, k) \<in> happens_before program \<Longrightarrow> (i, k) \<in> happens_before program"
  unfolding happens_before_def by (rule rtrancl_trans)

lemma happens_before_refl [simp]: "(i, i) \<in> happens_before program"
  by (simp add: happens_before_def)

end
