(* ===== verification/Penalty_Edges_Spec.thy ===== *)
theory Penalty_Edges_Spec
  imports Happens_Before
begin

text \<open>
  What the derived penalty edges mean: the first write of a buffer happens before all of its
  accesses, its maximal accesses are an antichain above all of them, and a pair of buffers with
  disjoint lifetimes has an edge exactly when some access of the earlier one is not ordered before
  some access of the later one.
\<close>

section \<open>Lifetimes\<close>

lemma LifetimeHull_bounds:
  "i \<in> set (live_intervals b) \<Longrightarrow> fst (BufferLifetimeHull b) \<le> lower i \<and> upper i \<le> snd (BufferLifetimeHull b)"
proof -
  have "fst (foldl (\<lambda>(low, high) interval. (min low (lower interval), max high (upper interval))) (l, h) is) \<le> l \<and>
    h \<le> snd (foldl (\<lambda>(low, high) interval. (min low (lower interval), max high (upper interval))) (l, h) is) \<and>
    (\<forall>i\<in>set is. fst (foldl (\<lambda>(low, high) interval. (min low (lower interval), max high (upper interval))) (l, h) is) \<le> lower i \<and>
       upper i \<le> snd (foldl (\<lambda>(low, high) interval. (min low (lower interval), max high (upper interval))) (l, h) is))"
    for l h and "is" :: "Interval list"
  proof (induction "is" arbitrary: l h)
    case (Cons x xs)
    from Cons.IH [of "min l (lower x)" "max h (upper x)"] show ?case by auto
  qed simp
  then show "i \<in> set (live_intervals b) \<Longrightarrow> ?thesis" by (simp add: BufferLifetimeHull_def)
qed

lemma EarlierLifetime_intervals:
  "EarlierLifetime b c \<Longrightarrow> i \<in> set (live_intervals b) \<Longrightarrow> j \<in> set (live_intervals c) \<Longrightarrow> upper i \<le> lower j"
  using LifetimeHull_bounds [of i b] LifetimeHull_bounds [of j c]
  by (auto simp: EarlierLifetime_def split_beta)

lemma EarlierLifetime_asym:
  assumes "well_formed p" "b \<in> set (buffers p)" "c \<in> set (buffers p)" "EarlierLifetime b c"
  shows "\<not> EarlierLifetime c b"
proof
  assume "EarlierLifetime c b"
  have ex: "\<exists>i. i \<in> set (live_intervals b) \<and> lower i < upper i" if "b \<in> set (buffers p)" for b
  proof -
    have "wf_buffer (pool_id ` set (pools p)) b" using assms(1) that by (simp add: well_formed_def)
    then have "live_intervals b \<noteq> []" "\<forall>i\<in>set (live_intervals b). lower i < upper i"
      by (simp_all add: wf_buffer_def)
    then show ?thesis using hd_in_set by blast
  qed
  obtain i j where "i \<in> set (live_intervals b)" "lower i < upper i" "j \<in> set (live_intervals c)" "lower j < upper j"
    using ex [OF assms(2)] ex [OF assms(3)] by blast
  then show False
    using EarlierLifetime_intervals [OF assms(4), of i j] EarlierLifetime_intervals [OF \<open>EarlierLifetime c b\<close>, of j i] by simp
qed

section \<open>First writes\<close>

abbreviation hb :: "ScheduledProgram \<Rightarrow> IndexedProgram \<Rightarrow> nat \<Rightarrow> nat \<Rightarrow> bool" where
  "hb program indexed a a' \<equiv>
     (access_op program indexed a, access_op program indexed a') \<in> happens_before program"

lemma access_op_known:
  assumes "indexed_ok problem program indexed" "a < length (accesses program)"
  shows "access_op program indexed a < length (operations program)"
    "op_id (operations program ! access_op program indexed a) = acc_operation (accesses program ! a)"
proof -
  obtain i where "operation_index indexed (acc_operation (accesses program ! a)) = Some i"
    using indexed_access_op [OF assms] by blast
  moreover from this have "access_op program indexed a = i" by (simp add: access_op_def)
  ultimately show "access_op program indexed a < length (operations program)"
    "op_id (operations program ! access_op program indexed a) = acc_operation (accesses program ! a)"
    using indexed_operation_index [OF assms(1), THEN iffD1] by blast+
qed

lemma Ordered_access:
  assumes "indexed_ok problem program indexed" "a < length (accesses program)" "a' < length (accesses program)"
  shows "Ordered program indexed (access_op program indexed a) (access_op program indexed a') \<longleftrightarrow> hb program indexed a a'"
  using assms access_op_known(1) Ordered_happens_before by blast

lemma FirstWrite_first:
  assumes ok: "indexed_ok problem program indexed" and b: "b \<in> set (buffers problem)"
    and "FirstWrite program indexed (buf_id b) = Inr w"
  shows "w \<in> set (buffer_accesses indexed (buf_id b))" "acc_kind (accesses program ! w) = kWrite"
    "a \<in> set (buffer_accesses indexed (buf_id b)) \<Longrightarrow> hb program indexed w a"
proof -
  let ?accs = "buffer_accesses indexed (buf_id b)"
  let ?P = "\<lambda>found. \<forall>w. found = Some w \<longrightarrow> w \<in> set ?accs \<and> acc_kind (accesses program ! w) = kWrite \<and>
    defines_every_access program indexed ?accs w"
  obtain found where "try_fold (consider_first_write program indexed (buf_id b)) ?accs None = Inr found"
    "found = Some w"
    using assms(3) by (auto simp: FirstWrite_def split: option.splits)
  moreover from this(1) have "?P found"
  proof (induction rule: try_fold_induct [where P = "\<lambda>_. ?P"])
    case start
    then show ?case by simp
  next
    case (step ys x t t')
    then show ?case by (auto simp: consider_first_write_def split: if_splits option.splits)
  qed
  ultimately have w: "w \<in> set ?accs" "acc_kind (accesses program ! w) = kWrite"
    "defines_every_access program indexed ?accs w" by auto
  then show "w \<in> set ?accs" "acc_kind (accesses program ! w) = kWrite" by simp_all
  assume "a \<in> set ?accs"
  moreover have "x < length (accesses program)" if "x \<in> set ?accs" for x
    using that indexed_accesses [OF ok b] by auto
  ultimately show "hb program indexed w a"
    using w Ordered_access [OF ok, of w a] by (auto simp: defines_every_access_def list_all_iff)
qed

section \<open>Maximal accesses\<close>

definition candidates_ok ::
  "ScheduledProgram \<Rightarrow> IndexedProgram \<Rightarrow> nat set \<Rightarrow> (StreamId, nat) omap \<Rightarrow> bool" where
  "candidates_ok program indexed as m \<longleftrightarrow>
     om_ok m \<and>
     (\<forall>s c. map_of m s = Some c \<longrightarrow> c \<in> as \<and> op_stream (operations program ! access_op program indexed c) = s) \<and>
     (\<forall>a\<in>as. \<exists>c. map_of m (op_stream (operations program ! access_op program indexed a)) = Some c \<and>
        issue_index (operations program ! access_op program indexed a) \<le>
        issue_index (operations program ! access_op program indexed c))"

lemma latest_of_stream_ok:
  assumes "candidates_ok program indexed as m"
  shows "candidates_ok program indexed (insert a as) (latest_of_stream program indexed m a)"
proof -
  let ?op = "\<lambda>a. operations program ! access_op program indexed a"
  have m: "om_ok m" "\<And>s c. map_of m s = Some c \<Longrightarrow> c \<in> as \<and> op_stream (?op c) = s"
    "\<And>a. a \<in> as \<Longrightarrow> \<exists>c. map_of m (op_stream (?op a)) = Some c \<and> issue_index (?op a) \<le> issue_index (?op c)"
    using assms by (auto simp: candidates_ok_def)
  show ?thesis
  proof (cases "map_of m (op_stream (?op a))")
    case None
    then have l: "latest_of_stream program indexed m a = om_put (op_stream (?op a)) a m"
      by (simp add: latest_of_stream_def om_emplace_def)
    show ?thesis
      unfolding candidates_ok_def l using m None by (auto split: if_splits) (metis option.distinct(1))
  next
    case (Some c)
    show ?thesis
    proof (cases "issue_key program (access_op program indexed c) < issue_key program (access_op program indexed a)")
      case True
      then have l: "latest_of_stream program indexed m a = om_put (op_stream (?op a)) a m"
        and le: "issue_index (?op c) \<le> issue_index (?op a)"
        using Some by (auto simp: latest_of_stream_def issue_key_def)
      have "\<exists>d. (if op_stream (?op x) = op_stream (?op a) then Some a else map_of m (op_stream (?op x))) = Some d \<and>
        issue_index (?op x) \<le> issue_index (?op d)" if "x \<in> insert a as" for x
        using that m(3) [of x] Some le by (auto intro: order_trans)
      then show ?thesis
        unfolding candidates_ok_def l using m(1,2) by (auto split: if_splits)
    next
      case False
      then have l: "latest_of_stream program indexed m a = m"
        and le: "issue_index (?op a) \<le> issue_index (?op c)"
        using Some by (auto simp: latest_of_stream_def issue_key_def)
      show ?thesis unfolding candidates_ok_def l using m le Some by auto
    qed
  qed
qed

lemma latest_of_streams_ok:
  "candidates_ok program indexed (set xs) (foldl (latest_of_stream program indexed) [] xs)"
proof (induction xs rule: rev_induct)
  case (snoc x xs)
  then show ?case using latest_of_stream_ok [of program indexed "set xs" _ x] by simp
qed (simp add: candidates_ok_def)

text \<open>In a finite partial order every element lies below a maximal one.\<close>

lemma finite_maximal_above:
  assumes "finite A" "x \<in> A" "\<And>x y z. R x y \<Longrightarrow> R y z \<Longrightarrow> R x z" "\<And>x. R x x"
    and "\<And>x y. x \<in> A \<Longrightarrow> y \<in> A \<Longrightarrow> R x y \<Longrightarrow> R y x \<Longrightarrow> x = y"
  shows "\<exists>m\<in>A. R x m \<and> (\<forall>y\<in>A. y \<noteq> m \<longrightarrow> \<not> R m y)"
  using assms(2)
proof (induction "card {y \<in> A. R x y}" arbitrary: x rule: less_induct)
  case less
  show ?case
  proof (cases "\<exists>y\<in>A. y \<noteq> x \<and> R x y")
    case True
    then obtain y where y: "y \<in> A" "y \<noteq> x" "R x y" by blast
    have "{z \<in> A. R y z} \<subset> {z \<in> A. R x z}"
      using y assms(3-5) less.prems by blast
    then have "card {z \<in> A. R y z} < card {z \<in> A. R x z}"
      using assms(1) by (simp add: psubset_card_mono)
    from less.hyps [OF this y(1)] show ?thesis using assms(3) y(3) by blast
  next
    case False
    then show ?thesis using less.prems assms(4) by blast
  qed
qed

lemma MaximalAccesses_maximal:
  assumes ok: "indexed_ok problem program indexed" and b: "b \<in> set (buffers problem)"
  defines "ms \<equiv> MaximalAccesses program indexed (buf_id b)"
  shows "set ms \<subseteq> set (buffer_accesses indexed (buf_id b))"
    "a \<in> set (buffer_accesses indexed (buf_id b)) \<Longrightarrow> \<exists>m\<in>set ms. hb program indexed a m"
    "m \<in> set ms \<Longrightarrow> m' \<in> set ms \<Longrightarrow> m \<noteq> m' \<Longrightarrow> \<not> hb program indexed m m'"
proof -
  let ?op = "\<lambda>a. operations program ! access_op program indexed a"
  let ?accs = "buffer_accesses indexed (buf_id b)"
  let ?last = "foldl (latest_of_stream program indexed) [] ?accs"
  let ?cs = "map snd ?last"
  have cand: "candidates_ok program indexed (set ?accs) ?last" by (rule latest_of_streams_ok)
  have in_cs: "c \<in> set ?cs \<longleftrightarrow> (\<exists>s. map_of ?last s = Some c)" for c
  proof -
    have "om_ok ?last" using cand by (simp add: candidates_ok_def)
    from om_ok_in_set [OF this, of _ c] show ?thesis by (simp add: image_iff) (metis fst_conv surj_pair snd_conv)
  qed
  have cs: "c \<in> set ?accs" "map_of ?last (op_stream (?op c)) = Some c" if c: "c \<in> set ?cs" for c
  proof -
    obtain s where "map_of ?last s = Some c" using c unfolding in_cs by blast
    moreover from this have "c \<in> set ?accs \<and> op_stream (?op c) = s"
      using cand unfolding candidates_ok_def by blast
    ultimately show "c \<in> set ?accs" "map_of ?last (op_stream (?op c)) = Some c" by blast+
  qed
  have bound: "a < length (accesses program)" if "a \<in> set ?accs" for a
    using that indexed_accesses [OF ok b] by auto
  have ordered: "Ordered program indexed (access_op program indexed c) (access_op program indexed d) \<longleftrightarrow> hb program indexed c d"
    if "c \<in> set ?cs" "d \<in> set ?cs" for c d
    using that cs(1) bound Ordered_access [OF ok] by blast
  have ms: "m \<in> set ms \<longleftrightarrow> m \<in> set ?cs \<and> (\<forall>c\<in>set ?cs. c \<noteq> m \<longrightarrow> \<not> hb program indexed m c)" for m
  proof -
    obtain cs where "cs = ?cs" by blast
    note cs_eq = this [symmetric]
    have "set ms = {c \<in> set cs. \<not> (\<exists>d\<in>set cs. c \<noteq> d \<and>
        Ordered program indexed (access_op program indexed c) (access_op program indexed d))}"
      unfolding ms_def MaximalAccesses_def Let_def set_filter list_ex_iff cs_eq by (rule refl)
    then have "m \<in> set ms \<longleftrightarrow> m \<in> set cs \<and> (\<forall>d\<in>set cs. d \<noteq> m \<longrightarrow>
        \<not> Ordered program indexed (access_op program indexed m) (access_op program indexed d))"
      by auto
    also have "\<dots> \<longleftrightarrow> m \<in> set cs \<and> (\<forall>d\<in>set cs. d \<noteq> m \<longrightarrow> \<not> hb program indexed m d)"
    proof (rule conj_cong [OF refl])
      assume "m \<in> set cs"
      show "(\<forall>d\<in>set cs. d \<noteq> m \<longrightarrow> \<not> Ordered program indexed (access_op program indexed m) (access_op program indexed d)) \<longleftrightarrow>
        (\<forall>d\<in>set cs. d \<noteq> m \<longrightarrow> \<not> hb program indexed m d)"
      proof (rule ball_cong [OF refl])
        fix d
        assume "d \<in> set cs"
        from ordered [unfolded cs_eq, OF \<open>m \<in> set cs\<close> this]
        show "(d \<noteq> m \<longrightarrow> \<not> Ordered program indexed (access_op program indexed m) (access_op program indexed d)) \<longleftrightarrow>
          (d \<noteq> m \<longrightarrow> \<not> hb program indexed m d)"
          by simp
      qed
    qed
    finally show ?thesis unfolding cs_eq .
  qed
  define C where "C = set ?cs"
  note ms_C = ms [folded C_def] and C = cs [folded C_def] and in_C = in_cs [folded C_def]
  have "finite C" by (simp add: C_def)
  show "set ms \<subseteq> set ?accs"
    by (rule subsetI, rule C(1), rule ms_C [THEN iffD1, THEN conjunct1])
  show "\<not> hb program indexed m m'" if "m \<in> set ms" "m' \<in> set ms" "m \<noteq> m'"
    using ms_C [THEN iffD1, THEN conjunct2, OF that(1)] ms_C [THEN iffD1, THEN conjunct1, OF that(2)] that(3)
    by metis
  assume a: "a \<in> set ?accs"
  then obtain c where c: "map_of ?last (op_stream (?op a)) = Some c" "issue_index (?op a) \<le> issue_index (?op c)"
    using cand by (auto simp: candidates_ok_def)
  then have "c \<in> C" "op_stream (?op c) = op_stream (?op a)"
    using cand unfolding in_C candidates_ok_def by blast+
  then have ac: "hb program indexed a c"
    using indexed_stream_order [OF ok] access_op_known(1) [OF ok] bound a C(1) c(2) by simp
  have "\<exists>m\<in>C. hb program indexed c m \<and> (\<forall>d\<in>C. d \<noteq> m \<longrightarrow> \<not> hb program indexed m d)"
  proof (rule finite_maximal_above)
    show "hb program indexed x y \<Longrightarrow> hb program indexed y z \<Longrightarrow> hb program indexed x z" for x y z
      by (rule happens_before_trans)
    fix x y
    assume "x \<in> C" "y \<in> C" "hb program indexed x y" "hb program indexed y x"
    then have "access_op program indexed x = access_op program indexed y"
      using happens_before_antisym [OF ok] by blast
    then show "x = y" using C(2) \<open>x \<in> C\<close> \<open>y \<in> C\<close> by (metis option.inject)
  qed (use \<open>c \<in> C\<close> \<open>finite C\<close> in auto)
  then show "\<exists>m\<in>set ms. hb program indexed a m"
  proof
    fix m
    assume "m \<in> C" and m: "hb program indexed c m \<and> (\<forall>d\<in>C. d \<noteq> m \<longrightarrow> \<not> hb program indexed m d)"
    then have "m \<in> set ms" using ms_C by simp
    moreover have "hb program indexed a m" using ac m happens_before_trans by blast
    ultimately show ?thesis ..
  qed
qed

section \<open>Penalty edges\<close>

lemma um_emplace_Some: "um_emplace m k v i = Some w \<longleftrightarrow> m i = Some w \<or> i = k \<and> m k = None \<and> v = w"
  by (auto simp: um_emplace_def)

lemma um_emplace_None: "um_emplace m k v i = None \<longleftrightarrow> i \<noteq> k \<and> m i = None"
  by (auto simp: um_emplace_def)

lemma buffer_anchors_index:
  assumes "try_fold (buffer_anchors program indexed) bs (Map.empty, Map.empty) = Inr (firsts, maxs)"
    "b \<in> set bs"
  shows "\<exists>w. firsts (buf_id b) = Some w \<and> FirstWrite program indexed (buf_id b) = Inr w"
    "maxs (buf_id b) = Some (MaximalAccesses program indexed (buf_id b))"
proof -
  let ?P = "\<lambda>xs st. (\<forall>b\<in>set xs. fst st (buf_id b) \<noteq> None \<and> snd st (buf_id b) \<noteq> None) \<and>
    (\<forall>i w. fst st i = Some w \<longrightarrow> FirstWrite program indexed i = Inr w) \<and>
    (\<forall>i ms. snd st i = Some ms \<longrightarrow> ms = MaximalAccesses program indexed i)"
  have "?P bs (firsts, maxs)"
    using assms(1)
  proof (induction rule: try_fold_induct [where P = ?P])
    case start
    then show ?case by simp
  next
    case (step ys x t t')
    then obtain w where "FirstWrite program indexed (buf_id x) = Inr w"
      "t' = (um_emplace (fst t) (buf_id x) w,
             um_emplace (snd t) (buf_id x) (MaximalAccesses program indexed (buf_id x)))"
      by (auto simp: buffer_anchors_def)
    with step show ?case by (auto simp: um_emplace_Some um_emplace_None)
  qed
  then show "\<exists>w. firsts (buf_id b) = Some w \<and> FirstWrite program indexed (buf_id b) = Inr w"
    "maxs (buf_id b) = Some (MaximalAccesses program indexed (buf_id b))"
    using assms(2) unfolding fst_conv snd_conv by blast+
qed

text \<open>The cost of one needed synchronisation, read from the anchor.\<close>

definition sync_cost_of :: "ScheduledProgram \<Rightarrow> u64 list list \<Rightarrow> nat \<Rightarrow> nat \<Rightarrow> u64" where
  "sync_cost_of program sync_cost before after =
     sync_cost ! unat (op_stream (operations program ! before)) ! unat (op_stream (operations program ! after))"

definition needed_anchor ::
  "ScheduledProgram \<Rightarrow> IndexedProgram \<Rightarrow> u64 list list \<Rightarrow> nat \<Rightarrow> nat \<Rightarrow> bool" where
  "needed_anchor program indexed sync_cost write m \<longleftrightarrow>
     \<not> Ordered program indexed (access_op program indexed m) write \<and>
     sync_cost_of program sync_cost (access_op program indexed m) write \<noteq> 0"

lemma anchor_steps:
  fixes program indexed sync_cost wr
  defines "step \<equiv> anchor_step program indexed sync_cost wr"
    and "op \<equiv> access_op program indexed"
  shows "edge_first (foldl step e ms) = edge_first e" "edge_second (foldl step e ms) = edge_second e"
    "needed_syncs (foldl step e ms) = needed_syncs e @
       map (\<lambda>m. \<lparr>last_access = op_id (operations program ! op m), first_write = op_id (operations program ! wr)\<rparr>)
         (filter (needed_anchor program indexed sync_cost wr) ms)"
    "edge_cost (foldl step e ms) = foldl SaturatingAdd (edge_cost e)
       (map (\<lambda>m. sync_cost_of program sync_cost (op m) wr) (filter (needed_anchor program indexed sync_cost wr) ms))"
  by (induction ms arbitrary: e)
    (simp_all add: step_def op_def anchor_step_def needed_anchor_def sync_cost_of_def Let_def)

lemma saturated_sum:
  "unat (foldl SaturatingAdd c cs) = min (unat c + sum_list (map unat cs)) 18446744073709551615"
  using unat_u64_bound [of c]
  by (induction cs arbitrary: c) (auto simp: unat_SaturatingAdd min_def add.assoc unat_u64_bound)

text \<open>The edge of a pair whose first buffer lives earlier.\<close>

definition pair_edge ::
  "ScheduledProgram \<Rightarrow> IndexedProgram \<Rightarrow> u64 list list \<Rightarrow> Buffer \<Rightarrow> Buffer \<Rightarrow> nat \<Rightarrow> DerivedPenaltyEdge" where
  "pair_edge program indexed sync_cost earlier later w =
     foldl (anchor_step program indexed sync_cost (access_op program indexed w))
       \<lparr>edge_first = min (buf_id earlier) (buf_id later),
        edge_second = max (buf_id earlier) (buf_id later), edge_cost = 0, needed_syncs = []\<rparr>
       (MaximalAccesses program indexed (buf_id earlier))"

definition pair_sorted :: "DsaProblem \<Rightarrow> nat \<times> nat \<Rightarrow> Buffer \<times> Buffer" where
  "pair_sorted problem pair =
     (let first = buffers problem ! fst pair; second = buffers problem ! snd pair
      in if EarlierLifetime second first then (second, first) else (first, second))"

text \<open>The edges found, before they are sorted.\<close>

lemma derive_pairs:
  fixes sync_cost :: "u64 list list"
  assumes firsts: "\<forall>b\<in>set (buffers problem). \<exists>w. firsts (buf_id b) = Some w \<and> FirstWrite program indexed (buf_id b) = Inr w"
    and maxs: "\<forall>b\<in>set (buffers problem). maxs (buf_id b) = Some (MaximalAccesses program indexed (buf_id b))"
    and "\<forall>pair\<in>set pairs. fst pair < length (buffers problem) \<and> snd pair < length (buffers problem)"
  defines "d \<equiv> foldl (derive_pair problem program indexed sync_cost firsts maxs)
      \<lparr>edges = [], lifetime_compatible_pairs = 0, ordered_pairs = 0\<rparr> pairs"
    and "found \<equiv> \<lambda>e. \<exists>pair\<in>set pairs. \<exists>earlier later w. pair_sorted problem pair = (earlier, later) \<and>
      EarlierLifetime earlier later \<and> FirstWrite program indexed (buf_id later) = Inr w \<and>
      e = pair_edge program indexed sync_cost earlier later w \<and> needed_syncs e \<noteq> []"
  shows "e \<in> set (edges d) \<longleftrightarrow> found e"
    "lifetime_compatible_pairs d = ordered_pairs d + length (edges d)"
proof -
  let ?f = "derive_pair problem program indexed sync_cost firsts maxs"
  let ?d = "\<lambda>pairs. foldl ?f \<lparr>edges = [], lifetime_compatible_pairs = 0, ordered_pairs = 0\<rparr> pairs"
  have "(e \<in> set (edges (?d pairs)) \<longleftrightarrow> (\<exists>pair\<in>set pairs. \<exists>earlier later w. pair_sorted problem pair = (earlier, later) \<and>
      EarlierLifetime earlier later \<and> FirstWrite program indexed (buf_id later) = Inr w \<and>
      e = pair_edge program indexed sync_cost earlier later w \<and> needed_syncs e \<noteq> [])) \<and>
    lifetime_compatible_pairs (?d pairs) = ordered_pairs (?d pairs) + length (edges (?d pairs))"
    using assms(3)
  proof (induction pairs rule: rev_induct)
    case Nil
    then show ?case by simp
  next
    case (snoc pair pairs)
    obtain earlier later where el: "pair_sorted problem pair = (earlier, later)" by fastforce
    have mem: "earlier \<in> set (buffers problem)" "later \<in> set (buffers problem)"
      using el snoc.prems by (auto simp: pair_sorted_def Let_def split: if_splits)
    obtain w where w: "firsts (buf_id later) = Some w" "FirstWrite program indexed (buf_id later) = Inr w"
      using firsts mem(2) by blast
    let ?e = "pair_edge program indexed sync_cost earlier later w"
    have step: "?f dd pair = (if \<not> EarlierLifetime earlier later then dd
        else if needed_syncs ?e = []
        then dd\<lparr>lifetime_compatible_pairs := lifetime_compatible_pairs dd + 1, ordered_pairs := ordered_pairs dd + 1\<rparr>
        else dd\<lparr>lifetime_compatible_pairs := lifetime_compatible_pairs dd + 1, edges := edges dd @ [?e]\<rparr>)" for dd
      using el w(1) maxs mem(1)
      by (simp add: derive_pair_def pair_sorted_def pair_edge_def Let_def split: if_splits)
    have "(\<exists>earlier later w. pair_sorted problem pair = (earlier, later) \<and>
      EarlierLifetime earlier later \<and> FirstWrite program indexed (buf_id later) = Inr w \<and>
      e = pair_edge program indexed sync_cost earlier later w \<and> needed_syncs e \<noteq> []) \<longleftrightarrow>
      EarlierLifetime earlier later \<and> needed_syncs ?e \<noteq> [] \<and> e = ?e"
      using el w(2) by auto
    moreover have "\<forall>pair\<in>set pairs. fst pair < length (buffers problem) \<and> snd pair < length (buffers problem)"
      using snoc.prems by simp
    note IH = snoc.IH [OF this]
    ultimately show ?case
      unfolding foldl_append foldl.simps step by (simp add: IH disj_commute)
  qed
  then show "e \<in> set (edges d) \<longleftrightarrow> found e"
    "lifetime_compatible_pairs d = ordered_pairs d + length (edges d)"
    unfolding d_def found_def by blast+
qed

section \<open>The derivation\<close>

lemma DerivePenaltyEdges_parts:
  assumes "DerivePenaltyEdges problem program sync_cost = Inr d"
  obtains indexed where "well_formed problem" "indexed_ok problem program indexed"
    "\<forall>b\<in>set (buffers problem). \<exists>w. FirstWrite program indexed (buf_id b) = Inr w"
    "\<forall>e. e \<in> set (edges d) \<longleftrightarrow> (\<exists>earlier\<in>set (buffers problem). \<exists>later\<in>set (buffers problem). \<exists>w.
        EarlierLifetime earlier later \<and> FirstWrite program indexed (buf_id later) = Inr w \<and>
        e = pair_edge program indexed sync_cost earlier later w \<and> needed_syncs e \<noteq> [])"
    "lifetime_compatible_pairs d = ordered_pairs d + length (edges d)"
proof -
  obtain indexed firsts maxs where parts: "ValidateProblem problem = []"
    "BuildIndex problem program = Inr indexed"
    "try_fold (buffer_anchors program indexed) (buffers problem) (Map.empty, Map.empty) = Inr (firsts, maxs)"
    and d: "d = (let derivation = foldl (derive_pair problem program indexed sync_cost firsts maxs)
        \<lparr>edges = [], lifetime_compatible_pairs = 0, ordered_pairs = 0\<rparr> (index_pairs (length (buffers problem)))
      in derivation\<lparr>edges := sort_by (\<lambda>first second.
        (edge_first first, edge_second first) < (edge_first second, edge_second second)) (edges derivation)\<rparr>)"
    using assms by (auto simp: DerivePenaltyEdges_def Let_def split: if_splits prod.splits)
  have wf: "well_formed problem" using parts(1) by (simp add: ValidateProblem_Nil)
  let ?bs = "buffers problem"
  have firsts: "\<forall>b\<in>set ?bs. \<exists>w. firsts (buf_id b) = Some w \<and> FirstWrite program indexed (buf_id b) = Inr w"
    and maxs: "\<forall>b\<in>set ?bs. maxs (buf_id b) = Some (MaximalAccesses program indexed (buf_id b))"
    using buffer_anchors_index [OF parts(3)] by blast+
  have range: "\<forall>pair\<in>set (index_pairs (length ?bs)). fst pair < length ?bs \<and> snd pair < length ?bs"
    by (auto simp: set_index_pairs)
  note found = derive_pairs [OF firsts maxs range, where sync_cost = sync_cost]
  have pairs: "(\<exists>pair\<in>set (index_pairs (length ?bs)). pair_sorted problem pair = (earlier, later) \<and> EarlierLifetime earlier later) \<longleftrightarrow>
    earlier \<in> set ?bs \<and> later \<in> set ?bs \<and> EarlierLifetime earlier later" for earlier later
  proof
    assume r: "earlier \<in> set ?bs \<and> later \<in> set ?bs \<and> EarlierLifetime earlier later"
    then obtain i j where ij: "i < length ?bs" "j < length ?bs" "?bs ! i = earlier" "?bs ! j = later"
      by (metis in_set_conv_nth)
    have "\<not> EarlierLifetime later earlier" using EarlierLifetime_asym [OF wf] r by blast
    moreover from this have "i \<noteq> j" using ij r by auto
    ultimately have "pair_sorted problem (min i j, max i j) = (earlier, later)"
      using ij r by (auto simp: pair_sorted_def Let_def min_def max_def)
    moreover have "(min i j, max i j) \<in> set (index_pairs (length ?bs))"
      using ij \<open>i \<noteq> j\<close> by (auto simp: set_index_pairs min_def max_def)
    ultimately show "\<exists>pair\<in>set (index_pairs (length ?bs)). pair_sorted problem pair = (earlier, later) \<and> EarlierLifetime earlier later"
      using r by blast
  next
    assume "\<exists>pair\<in>set (index_pairs (length ?bs)). pair_sorted problem pair = (earlier, later) \<and> EarlierLifetime earlier later"
    then obtain pair where pair: "pair \<in> {(i, j). i < j \<and> j < length ?bs}"
      "pair_sorted problem pair = (earlier, later)" "EarlierLifetime earlier later"
      unfolding set_index_pairs by blast
    obtain i j where "pair = (i, j)" by fastforce
    with pair have "i < length ?bs" "j < length ?bs" "pair_sorted problem (i, j) = (earlier, later)"
      "EarlierLifetime earlier later" by simp_all
    then show "earlier \<in> set ?bs \<and> later \<in> set ?bs \<and> EarlierLifetime earlier later"
      by (auto simp: pair_sorted_def Let_def split: if_splits)
  qed
  have "\<forall>e. e \<in> set (edges d) \<longleftrightarrow> (\<exists>earlier\<in>set ?bs. \<exists>later\<in>set ?bs. \<exists>w.
        EarlierLifetime earlier later \<and> FirstWrite program indexed (buf_id later) = Inr w \<and>
        e = pair_edge program indexed sync_cost earlier later w \<and> needed_syncs e \<noteq> [])"
    using found(1) pairs unfolding d Let_def by simp blast
  moreover have "lifetime_compatible_pairs d = ordered_pairs d + length (edges d)"
    using found(2) unfolding d Let_def by simp
  moreover have "\<forall>b\<in>set ?bs. \<exists>w. FirstWrite program indexed (buf_id b) = Inr w"
    using firsts by blast
  ultimately show thesis
    by (intro that [OF wf BuildIndex_indexed_ok [OF parts(2)]])
qed

lemma pair_edge_fields:
  "edge_first (pair_edge program indexed sync_cost earlier later w) = min (buf_id earlier) (buf_id later)"
  "edge_second (pair_edge program indexed sync_cost earlier later w) = max (buf_id earlier) (buf_id later)"
  "needed_syncs (pair_edge program indexed sync_cost earlier later w) =
     map (\<lambda>m. \<lparr>last_access = op_id (operations program ! access_op program indexed m),
              first_write = op_id (operations program ! access_op program indexed w)\<rparr>)
       (filter (needed_anchor program indexed sync_cost (access_op program indexed w))
          (MaximalAccesses program indexed (buf_id earlier)))"
  "unat (edge_cost (pair_edge program indexed sync_cost earlier later w)) =
     min (sum_list (map (\<lambda>m. unat (sync_cost_of program sync_cost (access_op program indexed m) (access_op program indexed w)))
       (filter (needed_anchor program indexed sync_cost (access_op program indexed w))
          (MaximalAccesses program indexed (buf_id earlier))))) 18446744073709551615"
  unfolding pair_edge_def anchor_steps saturated_sum by (simp_all add: comp_def)

text \<open>Operations are found by their ids, buffers by theirs.\<close>

definition accesses_of :: "ScheduledProgram \<Rightarrow> BufferId \<Rightarrow> nat set" where
  "accesses_of program b =
     {i. i < length (operations program) \<and>
        (\<exists>access\<in>set (accesses program). acc_buffer access = b \<and>
           acc_operation access = op_id (operations program ! i))}"

lemma accesses_of_indexed:
  assumes "indexed_ok problem program indexed" "b \<in> set (buffers problem)"
  shows "accesses_of program (buf_id b) = access_op program indexed ` set (buffer_accesses indexed (buf_id b))"
proof
  show "accesses_of program (buf_id b) \<subseteq> access_op program indexed ` set (buffer_accesses indexed (buf_id b))"
  proof
    fix i
    assume "i \<in> accesses_of program (buf_id b)"
    then obtain a where a: "i < length (operations program)" "a < length (accesses program)"
      "acc_buffer (accesses program ! a) = buf_id b"
      "acc_operation (accesses program ! a) = op_id (operations program ! i)"
      by (auto simp: accesses_of_def in_set_conv_nth)
    then have "access_op program indexed a = i"
      using indexed_operation_index [OF assms(1), of "op_id (operations program ! i)" i]
      by (simp add: access_op_def)
    then show "i \<in> access_op program indexed ` set (buffer_accesses indexed (buf_id b))"
      using a indexed_accesses [OF assms] by auto
  qed
  show "access_op program indexed ` set (buffer_accesses indexed (buf_id b)) \<subseteq> accesses_of program (buf_id b)"
    using indexed_accesses [OF assms] access_op_known [OF assms(1)] by (fastforce simp: accesses_of_def)
qed

text \<open>An anchor is needed for a pair exactly when some access is not ordered.\<close>

lemma unordered_iff_anchor:
  assumes ok: "indexed_ok problem program indexed"
    and b: "b \<in> set (buffers problem)" and c: "c \<in> set (buffers problem)"
    and w: "FirstWrite program indexed (buf_id c) = Inr w"
  shows "(\<exists>m\<in>set (MaximalAccesses program indexed (buf_id b)).
      \<not> Ordered program indexed (access_op program indexed m) (access_op program indexed w)) \<longleftrightarrow>
    (\<exists>i\<in>accesses_of program (buf_id b). \<exists>j\<in>accesses_of program (buf_id c). (i, j) \<notin> happens_before program)"
proof -
  let ?ms = "set (MaximalAccesses program indexed (buf_id b))"
  have bound: "a < length (accesses program)" if "a \<in> set (buffer_accesses indexed (buf_id d))" "d \<in> set (buffers problem)" for a d
    using that indexed_accesses [OF ok] by auto
  note max = MaximalAccesses_maximal [OF ok b]
  note first = FirstWrite_first [OF ok c w]
  have "(\<forall>m\<in>?ms. Ordered program indexed (access_op program indexed m) (access_op program indexed w)) \<longleftrightarrow>
    (\<forall>m\<in>?ms. hb program indexed m w)"
  proof (rule ball_cong [OF refl])
    fix m
    assume "m \<in> ?ms"
    then show "Ordered program indexed (access_op program indexed m) (access_op program indexed w) \<longleftrightarrow> hb program indexed m w"
      using Ordered_access [OF ok] bound [OF _ b] bound [OF first(1) c] max(1) by blast
  qed
  also have "\<dots> \<longleftrightarrow> (\<forall>i\<in>accesses_of program (buf_id b). \<forall>j\<in>accesses_of program (buf_id c). (i, j) \<in> happens_before program)"
    unfolding accesses_of_indexed [OF ok b] accesses_of_indexed [OF ok c]
  proof (intro iffI ballI)
    fix i j
    assume all: "\<forall>m\<in>?ms. hb program indexed m w"
      and "i \<in> access_op program indexed ` set (buffer_accesses indexed (buf_id b))"
      and "j \<in> access_op program indexed ` set (buffer_accesses indexed (buf_id c))"
    then obtain a a' where a: "a \<in> set (buffer_accesses indexed (buf_id b))" "i = access_op program indexed a"
      "a' \<in> set (buffer_accesses indexed (buf_id c))" "j = access_op program indexed a'" by blast
    obtain m where "m \<in> ?ms" "hb program indexed a m" using max(2) [OF a(1)] by blast
    then have "hb program indexed a w" using all happens_before_trans by blast
    then show "(i, j) \<in> happens_before program"
      unfolding a(2,4) using first(3) [OF a(3)] by (rule happens_before_trans)
  next
    fix m
    assume "\<forall>i\<in>access_op program indexed ` set (buffer_accesses indexed (buf_id b)).
        \<forall>j\<in>access_op program indexed ` set (buffer_accesses indexed (buf_id c)). (i, j) \<in> happens_before program"
      and "m \<in> ?ms"
    then show "hb program indexed m w" using max(1) first(1) by blast
  qed
  finally show ?thesis by blast
qed

section \<open>Applying a derivation\<close>

lemma ApplyPenaltyEdgeDerivation_well_formed:
  assumes "well_formed p" "ApplyPenaltyEdgeDerivation (Some p) d = Inr p'"
    "\<forall>e\<in>set (edges d). edge_first e \<in> buffer_ids p \<and> edge_second e \<in> buffer_ids p"
  shows "well_formed p'"
proof -
  have "\<exists>m. p' = p\<lparr>cost_model := Some m, objective := FitThenMinimizeReuseCostObjective\<rparr> \<and>
    (\<forall>k\<in>set (reuse_penalties m). pen_first k \<in> buffer_ids p \<and> pen_second k \<in> buffer_ids p)"
  proof -
    have known: "\<forall>m. cost_model p = Some m \<longrightarrow> (\<forall>k\<in>set (reuse_penalties m).
        pen_first k \<in> buffer_ids p \<and> pen_second k \<in> buffer_ids p)"
      using assms(1) by (simp add: well_formed_def)
    show ?thesis
    proof (cases "cost_model p")
      case None
      then show ?thesis
        using assms(2,3)
        by (intro exI [of _ "\<lparr>reuse_penalties =
            map (\<lambda>edge. \<lparr>pen_first = edge_first edge, pen_second = edge_second edge,
              pen_cost = edge_cost edge, pen_reason = Pen_kGeneric\<rparr>) (edges d)\<rparr>"])
          (auto simp: ApplyPenaltyEdgeDerivation_def)
    next
      case (Some m)
      then show ?thesis
        using known assms(2,3)
        by (intro exI [of _ "m\<lparr>reuse_penalties := reuse_penalties m @
            map (\<lambda>edge. \<lparr>pen_first = edge_first edge, pen_second = edge_second edge,
              pen_cost = edge_cost edge, pen_reason = Pen_kGeneric\<rparr>) (edges d)\<rparr>"])
          (auto simp: ApplyPenaltyEdgeDerivation_def)
    qed
  qed
  then obtain m where p': "p' = p\<lparr>cost_model := Some m, objective := FitThenMinimizeReuseCostObjective\<rparr>"
    and m: "\<forall>k\<in>set (reuse_penalties m). pen_first k \<in> buffer_ids p \<and> pen_second k \<in> buffer_ids p"
    by blast
  have "buffer_ids p' = buffer_ids p" "wf_separation p' = wf_separation p" "wf_pinned p' = wf_pinned p"
    "wf_pypto p' = wf_pypto p"
    by (simp_all add: p' fun_eq_iff buffer_ids_def wf_separation_def wf_pinned_def wf_pypto_def wf_group_def
        FindBuffer_def FindPool_def)
  then show ?thesis
    using assms(1) m unfolding well_formed_def
    by (simp add: p' FitThenMinimizeReuseCostObjective_def)
qed

end
