(* ===== verification/Penalty_Properties.thy ===== *)
theory Penalty_Properties
  imports Penalty_Edges_Spec Objective_Spec
begin

text \<open>
  The properties of the penalty-edge derivation: vector clocks decide happens-before, which pairs of
  buffers get an edge, what an edge contains, and what a zero reuse cost means for the schedule of
  the program once the derived edges are applied to the problem.
\<close>

section \<open>Example program\<close>

definition race_buffer :: "u32 \<Rightarrow> string \<Rightarrow> int \<Rightarrow> int \<Rightarrow> Buffer" where
  "race_buffer i n lo hi =
     \<lparr>buf_id = i, buf_name = n, buf_size = 32, alignment = 32,
      live_intervals = [\<lparr>lower = lo, upper = hi\<rparr>], allowed_pools = [0]\<rparr>"

definition race_problem :: DsaProblem where
  "race_problem =
     \<lparr>buffers = [race_buffer 7 ''w'' 4 6, race_buffer 3 ''x'' 0 2, race_buffer 5 ''y'' 2 4],
      pools = [\<lparr>pool_id = 0, pool_name = ''ub'', capacity = Some 64, reserved_ranges = [], bank_geometry = None\<rparr>],
      colocations = [], separations = [], temporal_exclusions = [], pinned_allocations = [],
      cost_model = None, pypto_structure = None, objective = MinimizePeakObjective\<rparr>"

definition race_operation :: "u32 \<Rightarrow> u32 \<Rightarrow> u64 \<Rightarrow> int \<Rightarrow> ScheduledOperation" where
  "race_operation i s k t = \<lparr>op_id = i, op_stream = s, issue_index = k, schedule_time = t\<rparr>"

definition race_access :: "u32 \<Rightarrow> u32 \<Rightarrow> AccessKind \<Rightarrow> ScheduledBufferAccess" where
  "race_access b i k = \<lparr>acc_buffer = b, acc_operation = i, acc_kind = k\<rparr>"

text \<open>Two streams: buffers 3 and 7 are used on stream 0 and 1, buffer 5 only on stream 0.\<close>

definition race_program :: ScheduledProgram where
  "race_program =
     \<lparr>stream_count = 2,
      operations = [race_operation 10 0 0 0, race_operation 11 1 0 1, race_operation 12 0 1 2,
        race_operation 13 0 2 3, race_operation 14 0 3 4],
      cross_dependencies = [\<lparr>dep_before = 10, dep_after = 11\<rparr>],
      accesses = [race_access 3 10 kWrite, race_access 3 11 kRead, race_access 5 12 kWrite,
        race_access 5 13 kRead, race_access 7 14 kWrite]\<rparr>"

definition race_costs :: "u64 list list" where
  "race_costs = [[1, 9], [4, 1]]"

definition race_derivation :: PenaltyEdgeDerivation where
  "race_derivation =
     \<lparr>edges = [\<lparr>edge_first = 3, edge_second = 5, edge_cost = 4, needed_syncs = [\<lparr>last_access = 11, first_write = 12\<rparr>]\<rparr>,
        \<lparr>edge_first = 3, edge_second = 7, edge_cost = 4, needed_syncs = [\<lparr>last_access = 11, first_write = 14\<rparr>]\<rparr>],
      lifetime_compatible_pairs = 3, ordered_pairs = 1\<rparr>"

lemma race_derived: "DerivePenaltyEdges race_problem race_program race_costs = Inr race_derivation"
  by code_simp


definition race_solution :: DsaSolution where
  "race_solution = \<lparr>placements =
     [(3, \<lparr>pl_pool = 0, pl_offset = 0\<rparr>), (5, \<lparr>pl_pool = 0, pl_offset = 32\<rparr>),
      (7, \<lparr>pl_pool = 0, pl_offset = 32\<rparr>)]\<rparr>"

section \<open>Happens before\<close>

text \<open>
  C8: the vector clocks of \<open>BuildIndex\<close> decide happens-before: \<open>Ordered\<close> answers for two operations
  exactly the reflexive and transitive closure of the stream order and the cross dependencies.
\<close>
theorem Ordered_decides_happens_before:
  assumes "BuildIndex problem program = Inr indexed"
    and "before < length (operations program)" "after < length (operations program)"
  shows "Ordered program indexed before after \<longleftrightarrow> (before, after) \<in> happens_before program"
  using assms by (intro Ordered_happens_before BuildIndex_indexed_ok)

definition race_index :: IndexedProgram where
  "race_index = (case BuildIndex race_problem race_program of Inr indexed \<Rightarrow> indexed)"

lemma race_indexed: "BuildIndex race_problem race_program = Inr race_index"
proof -
  have "case BuildIndex race_problem race_program of Inr _ \<Rightarrow> True | Inl _ \<Rightarrow> False" by code_simp
  then show ?thesis by (auto simp: race_index_def split: sum.splits)
qed

theorem Ordered_decides_happens_before_witness:
  "(0, 4) \<in> happens_before race_program \<and> (1, 4) \<notin> happens_before race_program"
proof -
  have "Ordered race_program race_index 0 4" "\<not> Ordered race_program race_index 1 4" by code_simp+
  moreover have "length (operations race_program) = 5" by code_simp
  ultimately show ?thesis
    using Ordered_decides_happens_before [OF race_indexed, of 0 4]
      Ordered_decides_happens_before [OF race_indexed, of 1 4] by simp
qed

section \<open>The edges\<close>

lemma member_le_sum_list_map: "x \<in> set xs \<Longrightarrow> f x \<le> (\<Sum>x\<leftarrow>xs. f x)" for f :: "'a \<Rightarrow> nat"
  by (simp add: member_le_sum_list)

text \<open>The edges of a derivation, as the pair of buffers they stand for.\<close>

definition has_edge :: "PenaltyEdgeDerivation \<Rightarrow> Buffer \<Rightarrow> Buffer \<Rightarrow> bool" where
  "has_edge d b c \<longleftrightarrow> (\<exists>e\<in>set (edges d). {edge_first e, edge_second e} = {buf_id b, buf_id c})"

definition race_free :: "ScheduledProgram \<Rightarrow> Buffer \<Rightarrow> Buffer \<Rightarrow> bool" where
  "race_free program b c \<longleftrightarrow>
     (\<forall>i\<in>accesses_of program (buf_id b). \<forall>j\<in>accesses_of program (buf_id c). (i, j) \<in> happens_before program)"

definition syncs_cost :: "ScheduledProgram \<Rightarrow> u64 list list \<Rightarrow> Buffer \<Rightarrow> Buffer \<Rightarrow> bool" where
  "syncs_cost program sync_cost b c \<longleftrightarrow>
     (\<forall>i\<in>accesses_of program (buf_id b). \<forall>j\<in>accesses_of program (buf_id c).
        (i, j) \<notin> happens_before program \<longrightarrow> sync_cost_of program sync_cost i j \<noteq> 0)"

text \<open>
  What the code looks at: the accesses of a buffer that no other access of the buffer follows, and its
  first write, which all accesses of the buffer follow. A paid race is a last access of the earlier
  buffer that is not ordered before the first write of the later one and whose synchronisation costs
  something.
\<close>

definition last_accesses :: "ScheduledProgram \<Rightarrow> Buffer \<Rightarrow> nat set" where
  "last_accesses program b =
     {i \<in> accesses_of program (buf_id b). \<forall>j\<in>accesses_of program (buf_id b).
        (i, j) \<in> happens_before program \<longrightarrow> j = i}"

definition first_accesses :: "ScheduledProgram \<Rightarrow> Buffer \<Rightarrow> nat set" where
  "first_accesses program b =
     {i \<in> accesses_of program (buf_id b). \<forall>j\<in>accesses_of program (buf_id b). (i, j) \<in> happens_before program}"

definition paid_race :: "ScheduledProgram \<Rightarrow> u64 list list \<Rightarrow> Buffer \<Rightarrow> Buffer \<Rightarrow> bool" where
  "paid_race program sync_cost b c \<longleftrightarrow>
     (\<exists>i\<in>last_accesses program b. \<exists>w\<in>first_accesses program c.
        (i, w) \<notin> happens_before program \<and> sync_cost_of program sync_cost i w \<noteq> 0)"

lemma last_accesses_maximal:
  assumes ok: "indexed_ok problem program indexed" and b: "b \<in> set (buffers problem)"
  shows "last_accesses program b = access_op program indexed ` set (MaximalAccesses program indexed (buf_id b))"
proof -
  note max = MaximalAccesses_maximal [OF ok b] and acc = accesses_of_indexed [OF ok b]
  note antisym = happens_before_antisym [OF ok]
  show ?thesis
  proof (intro equalityI subsetI)
    fix i
    assume "i \<in> last_accesses program b"
    then obtain a where a: "a \<in> set (buffer_accesses indexed (buf_id b))" "i = access_op program indexed a"
      and last: "\<forall>j\<in>accesses_of program (buf_id b). (i, j) \<in> happens_before program \<longrightarrow> j = i"
      by (auto simp: last_accesses_def acc)
    obtain m where m: "m \<in> set (MaximalAccesses program indexed (buf_id b))" "hb program indexed a m"
      using max(2) [OF a(1)] by blast
    then have "access_op program indexed m = i" using last max(1) acc a(2) by blast
    then show "i \<in> access_op program indexed ` set (MaximalAccesses program indexed (buf_id b))" using m(1) by blast
  next
    fix i
    assume "i \<in> access_op program indexed ` set (MaximalAccesses program indexed (buf_id b))"
    then obtain m where m: "m \<in> set (MaximalAccesses program indexed (buf_id b))" "i = access_op program indexed m" by blast
    have "j = i" if j: "j \<in> accesses_of program (buf_id b)" "(i, j) \<in> happens_before program" for j
    proof -
      obtain a where a: "a \<in> set (buffer_accesses indexed (buf_id b))" "j = access_op program indexed a"
        using j(1) acc by blast
      obtain m' where m': "m' \<in> set (MaximalAccesses program indexed (buf_id b))" "hb program indexed a m'"
        using max(2) [OF a(1)] by blast
      have "hb program indexed m m'" using j(2) m(2) a(2) m'(2) happens_before_trans by metis
      then have "m' = m" using max(3) m(1) m'(1) by blast
      then show ?thesis using antisym j(2) m'(2) m(2) a(2) by metis
    qed
    then show "i \<in> last_accesses program b" using m max(1) acc by (auto simp: last_accesses_def)
  qed
qed

lemma derivation_parts:
  assumes "DerivePenaltyEdges problem program sync_cost = Inr d" "c \<in> set (buffers problem)"
  obtains indexed w where "indexed_ok problem program indexed" "FirstWrite program indexed (buf_id c) = Inr w"
    "first_accesses program c = {access_op program indexed w}"
    "\<And>e. e \<in> set (edges d) \<longleftrightarrow> (\<exists>earlier\<in>set (buffers problem). \<exists>later\<in>set (buffers problem). \<exists>w.
        EarlierLifetime earlier later \<and> FirstWrite program indexed (buf_id later) = Inr w \<and>
        e = pair_edge program indexed sync_cost earlier later w \<and> needed_syncs e \<noteq> [])"
proof -
  obtain indexed where "well_formed problem" and ok: "indexed_ok problem program indexed"
    and firsts: "\<forall>b\<in>set (buffers problem). \<exists>w. FirstWrite program indexed (buf_id b) = Inr w"
    and edges: "\<forall>e. e \<in> set (edges d) \<longleftrightarrow> (\<exists>earlier\<in>set (buffers problem). \<exists>later\<in>set (buffers problem). \<exists>w.
        EarlierLifetime earlier later \<and> FirstWrite program indexed (buf_id later) = Inr w \<and>
        e = pair_edge program indexed sync_cost earlier later w \<and> needed_syncs e \<noteq> [])"
    and "lifetime_compatible_pairs d = ordered_pairs d + length (edges d)"
    by (rule DerivePenaltyEdges_parts [OF assms(1)])
  obtain w where w: "FirstWrite program indexed (buf_id c) = Inr w" using firsts assms(2) by blast
  note acc = accesses_of_indexed [OF ok assms(2)] and first = FirstWrite_first [OF ok assms(2) w]
  have "access_op program indexed w \<in> first_accesses program c" using first(1,3) acc by (simp add: first_accesses_def)
  moreover have "i = access_op program indexed w" if "i \<in> first_accesses program c" for i
    using that first(1,3) acc happens_before_antisym [OF ok] by (auto simp: first_accesses_def)
  ultimately have "first_accesses program c = {access_op program indexed w}" by blast
  then show thesis using that [OF ok w] edges by blast
qed

lemma derived_edge:
  assumes "DerivePenaltyEdges problem program sync_cost = Inr d"
    and b: "earlier \<in> set (buffers problem)" and c: "later \<in> set (buffers problem)"
    and early: "EarlierLifetime earlier later" and race: "paid_race program sync_cost earlier later"
  shows "\<exists>e\<in>set (edges d). edge_first e = min (buf_id earlier) (buf_id later) \<and>
    edge_second e = max (buf_id earlier) (buf_id later) \<and> edge_cost e \<noteq> 0"
proof -
  obtain indexed w where ok: "indexed_ok problem program indexed" and w: "FirstWrite program indexed (buf_id later) = Inr w"
    and first: "first_accesses program later = {access_op program indexed w}"
    and edges: "\<And>e. e \<in> set (edges d) \<longleftrightarrow> (\<exists>earlier\<in>set (buffers problem). \<exists>later\<in>set (buffers problem). \<exists>w.
        EarlierLifetime earlier later \<and> FirstWrite program indexed (buf_id later) = Inr w \<and>
        e = pair_edge program indexed sync_cost earlier later w \<and> needed_syncs e \<noteq> [])"
    by (rule derivation_parts [OF assms(1) c]) (rule that)
  let ?op = "access_op program indexed"
  obtain m where m: "m \<in> set (MaximalAccesses program indexed (buf_id earlier))"
    "(?op m, ?op w) \<notin> happens_before program" and cost: "sync_cost_of program sync_cost (?op m) (?op w) \<noteq> 0"
    using race unfolding paid_race_def last_accesses_maximal [OF ok b] first by blast
  have "?op m \<in> last_accesses program earlier" "?op w \<in> first_accesses program later"
    using m(1) first last_accesses_maximal [OF ok b] by auto
  then have "?op m < length (operations program)" "?op w < length (operations program)"
    by (simp_all add: last_accesses_def first_accesses_def accesses_of_def)
  then have "\<not> Ordered program indexed (?op m) (?op w)" using m(2) Ordered_happens_before [OF ok] by simp
  then have "needed_anchor program indexed sync_cost (?op w) m" using cost by (simp add: needed_anchor_def)
  let ?e = "pair_edge program indexed sync_cost earlier later w"
  let ?ms = "filter (needed_anchor program indexed sync_cost (?op w))
      (MaximalAccesses program indexed (buf_id earlier))"
  have m_needed: "m \<in> set ?ms" using m(1) \<open>needed_anchor _ _ _ _ m\<close> by simp
  then have "needed_syncs ?e \<noteq> []" unfolding pair_edge_fields by (auto simp: filter_empty_conv)
  then have "?e \<in> set (edges d)" using edges b c early w by blast
  moreover have "unat (edge_cost ?e) \<noteq> 0"
  proof -
    have "unat (sync_cost_of program sync_cost (?op m) (?op w)) \<le>
        (\<Sum>m\<leftarrow>?ms. unat (sync_cost_of program sync_cost (?op m) (?op w)))"
      using m_needed by (rule member_le_sum_list_map)
    moreover have "unat (sync_cost_of program sync_cost (?op m) (?op w)) \<noteq> 0"
      using cost by (simp add: unat_eq_zero)
    ultimately show ?thesis unfolding pair_edge_fields by simp
  qed
  moreover have "edge_first ?e = min (buf_id earlier) (buf_id later)"
    "edge_second ?e = max (buf_id earlier) (buf_id later)" by (rule pair_edge_fields)+
  ultimately show ?thesis by (metis unat_0)
qed

text \<open>Where every unordered pair of accesses costs something, a race is a paid race.\<close>

lemma paid_race_iff:
  assumes "DerivePenaltyEdges problem program sync_cost = Inr d"
    and b: "earlier \<in> set (buffers problem)" and c: "later \<in> set (buffers problem)"
    and syncs: "syncs_cost program sync_cost earlier later"
  shows "paid_race program sync_cost earlier later \<longleftrightarrow> \<not> race_free program earlier later"
proof
  assume "paid_race program sync_cost earlier later"
  then show "\<not> race_free program earlier later"
    by (auto simp: paid_race_def race_free_def last_accesses_def first_accesses_def)
next
  assume race: "\<not> race_free program earlier later"
  obtain indexed w where ok: "indexed_ok problem program indexed" and w: "FirstWrite program indexed (buf_id later) = Inr w"
    and first: "first_accesses program later = {access_op program indexed w}"
    and edges: "\<And>e. e \<in> set (edges d) \<longleftrightarrow> (\<exists>earlier\<in>set (buffers problem). \<exists>later\<in>set (buffers problem). \<exists>w.
        EarlierLifetime earlier later \<and> FirstWrite program indexed (buf_id later) = Inr w \<and>
        e = pair_edge program indexed sync_cost earlier later w \<and> needed_syncs e \<noteq> [])"
    by (rule derivation_parts [OF assms(1) c]) (rule that)
  obtain m where m: "m \<in> set (MaximalAccesses program indexed (buf_id earlier))"
    "\<not> Ordered program indexed (access_op program indexed m) (access_op program indexed w)"
    using race unordered_iff_anchor [OF ok b c w] unfolding race_free_def by blast
  let ?i = "access_op program indexed m" and ?w = "access_op program indexed w"
  have i: "?i \<in> last_accesses program earlier" using m(1) last_accesses_maximal [OF ok b] by simp
  have ops: "?i \<in> accesses_of program (buf_id earlier)" "?w \<in> accesses_of program (buf_id later)"
    using i first by (auto simp: last_accesses_def first_accesses_def)
  then have "(?i, ?w) \<notin> happens_before program"
    using m(2) Ordered_happens_before [OF ok] by (simp add: accesses_of_def)
  moreover from this have "sync_cost_of program sync_cost ?i ?w \<noteq> 0"
    using syncs ops unfolding syncs_cost_def by blast
  ultimately show "paid_race program sync_cost earlier later"
    using i first unfolding paid_race_def by blast
qed



lemma derived_well_formed:
  assumes "DerivePenaltyEdges problem program sync_cost = Inr d"
  shows "well_formed problem"
  using assms by (auto simp: DerivePenaltyEdges_def ValidateProblem_Nil split: if_splits)

lemma unordered_min_max: "{min a b, max a b} = {a, b :: u32}"
  by (auto simp: min_def max_def)

lemma known_buffer_id:
  "well_formed p \<Longrightarrow> b \<in> set (buffers p) \<Longrightarrow> c \<in> set (buffers p) \<Longrightarrow> buf_id b = buf_id c \<longleftrightarrow> b = c"
  using well_formedD(2) by (metis FindBuffer_in_set option.inject)

lemma has_edge_iff_paid_race:
  assumes "DerivePenaltyEdges problem program sync_cost = Inr d"
    and b: "earlier \<in> set (buffers problem)" and c: "later \<in> set (buffers problem)"
    and early: "EarlierLifetime earlier later"
  shows "has_edge d earlier later \<longleftrightarrow> paid_race program sync_cost earlier later"
proof
  note wf = derived_well_formed [OF assms(1)]
  obtain indexed w where ok: "indexed_ok problem program indexed" and w: "FirstWrite program indexed (buf_id later) = Inr w"
    and first: "first_accesses program later = {access_op program indexed w}"
    and edges: "\<And>e. e \<in> set (edges d) \<longleftrightarrow> (\<exists>earlier\<in>set (buffers problem). \<exists>later\<in>set (buffers problem). \<exists>w.
        EarlierLifetime earlier later \<and> FirstWrite program indexed (buf_id later) = Inr w \<and>
        e = pair_edge program indexed sync_cost earlier later w \<and> needed_syncs e \<noteq> [])"
    by (rule derivation_parts [OF assms(1) c]) (rule that)
  assume "has_edge d earlier later"
  then obtain e where e: "e \<in> set (edges d)" "{edge_first e, edge_second e} = {buf_id earlier, buf_id later}"
    unfolding has_edge_def by blast
  then obtain b' c' w' where bc: "b' \<in> set (buffers problem)" "c' \<in> set (buffers problem)" "EarlierLifetime b' c'"
    "FirstWrite program indexed (buf_id c') = Inr w'" "e = pair_edge program indexed sync_cost b' c' w'" "needed_syncs e \<noteq> []"
    using edges by blast
  have "edge_first e = min (buf_id b') (buf_id c')" "edge_second e = max (buf_id b') (buf_id c')"
    unfolding bc(5) by (rule pair_edge_fields)+
  then have "{buf_id b', buf_id c'} = {buf_id earlier, buf_id later}" using e(2) unordered_min_max by metis
  then have "b' = earlier \<and> c' = later \<or> b' = later \<and> c' = earlier"
    using known_buffer_id [OF wf] bc(1,2) b c by (metis doubleton_eq_iff)
  then have same: "b' = earlier" "c' = later" "w' = w"
    using bc(3,4) EarlierLifetime_asym [OF wf b c early] w by auto
  obtain m where m: "m \<in> set (MaximalAccesses program indexed (buf_id earlier))"
    "needed_anchor program indexed sync_cost (access_op program indexed w) m"
    using bc(6) unfolding bc(5) same pair_edge_fields by (auto simp: filter_empty_conv)
  let ?i = "access_op program indexed m" and ?w = "access_op program indexed w"
  have i: "?i \<in> last_accesses program earlier" "?w \<in> first_accesses program later"
    using m(1) last_accesses_maximal [OF ok b] first by simp_all
  then have "?i < length (operations program)" "?w < length (operations program)"
    by (simp_all add: last_accesses_def first_accesses_def accesses_of_def)
  then have "(?i, ?w) \<notin> happens_before program" "sync_cost_of program sync_cost ?i ?w \<noteq> 0"
    using m(2) Ordered_happens_before [OF ok] by (simp_all add: needed_anchor_def)
  then show "paid_race program sync_cost earlier later" using i unfolding paid_race_def by blast
next
  assume "paid_race program sync_cost earlier later"
  from derived_edge [OF assms this] show "has_edge d earlier later"
    unfolding has_edge_def by (metis unordered_min_max)
qed

section \<open>Zero reuse cost\<close>

lemma overlapping_pair_pays:
  assumes wf: "well_formed p" and valid: "valid_solution p s"
    and b: "b \<in> set (buffers p)" and c: "c \<in> set (buffers p)" and diff: "\<not> same_class p (buf_id b) (buf_id c)"
    and pl: "Find s (buf_id b) = Some pl1" "Find s (buf_id c) = Some pl2" "pl_pool pl1 = pl_pool pl2"
    and over: "AddressRangesOverlap (pl_offset pl1) (buf_size b) (pl_offset pl2) (buf_size c)"
    and k: "pen_first k = buf_id b" "pen_second k = buf_id c"
  shows "pays p s k"
proof -
  note ext = class_extent_pos [OF wf b] class_extent_pos [OF wf c]
  have over: "AddressRangesOverlap (pl_offset pl1) (class_extent p (buf_id b))
      (pl_offset pl2) (class_extent p (buf_id c))"
    by (rule AddressRangesOverlap_mono [OF over ext(2,4)])
  have "\<not> placed_apart p s (buf_id b) (buf_id c)"
    using over not_overlap_apart [OF ext(1,3)] pl by (auto simp: placed_apart_def)
  then have "\<not> must_not_share p b c" using valid b c diff unfolding valid_solution_def by blast
  then have "\<not> HaveTemporalConflict p b c" by (simp add: must_not_share_def)
  moreover note FindBuffer_in_set [OF well_formedD(2) [OF wf]]
  ultimately show ?thesis using b c pl diff over by (simp add: pays_def k)
qed

lemma paid_penalty_le_reuse_cost:
  assumes "pays p s k" "k \<in> set (penalties_of p)" "well_formed p"
  shows "pen_cost k \<le> reuse_cost (EvaluateObjective p s)"
proof -
  have "unat (pen_cost k) \<le> (\<Sum>k\<leftarrow>filter (pays p s) (penalties_of p). unat (pen_cost k))"
    using assms(1,2) by (intro member_le_sum_list_map) simp
  moreover have "unat (pen_cost k) \<le> 18446744073709551615" using unat_u64_bound [of "pen_cost k"] by simp
  ultimately show ?thesis by (simp add: word_le_nat_alt reuse_cost_unat [OF assms(3)])
qed

lemma applied_problem:
  assumes "ApplyPenaltyEdgeDerivation (Some p) d = Inr p'"
  shows "buffers p' = buffers p" "colocations p' = colocations p" "objective p' = FitThenMinimizeReuseCostObjective"
    "penalties_of p' = penalties_of p @ map (\<lambda>e. \<lparr>pen_first = edge_first e, pen_second = edge_second e,
       pen_cost = edge_cost e, pen_reason = Pen_kGeneric\<rparr>) (edges d)"
  using assms by (auto simp: ApplyPenaltyEdgeDerivation_def penalties_of_def Let_def split: option.splits)

text \<open>
  C29: for two buffers of which the first is dead before the second is born, the derivation makes a
  penalty edge exactly when there is a paid race: some last access of the earlier buffer does not happen
  before the first write of the later one, and the synchronisation of their streams has a cost other
  than zero (a hazard whose synchronisation is free gets no edge). Where the synchronisation of every
  unordered pair of their accesses costs something, that is exactly when some access of the earlier
  buffer is not ordered before some access of the later one.
\<close>
theorem edge_iff_race:
  assumes "DerivePenaltyEdges problem program sync_cost = Inr d"
    and "earlier \<in> set (buffers problem)" "later \<in> set (buffers problem)" "EarlierLifetime earlier later"
  shows "(has_edge d earlier later \<longleftrightarrow> paid_race program sync_cost earlier later) \<and>
    (syncs_cost program sync_cost earlier later \<longrightarrow>
      (has_edge d earlier later \<longleftrightarrow> \<not> race_free program earlier later))"
  using has_edge_iff_paid_race [OF assms] paid_race_iff [OF assms(1-3)] by blast


text \<open>
  C12: reuse at zero cost has no paid race. Take a solution that is valid for the problem with the derived
  edges applied and has zero reuse cost, and two buffers of different colocation classes, the first dead
  before the second is born, that share bytes in it. Then no last access of the earlier buffer that is
  unordered with the first write of the later one needs a synchronisation that costs something; and when
  the synchronisation of every unordered pair of their accesses costs something, every access of the
  earlier buffer happens before every access of the later one.
\<close>
theorem zero_cost_reuse_is_race_free:
  assumes "DerivePenaltyEdges problem program sync_cost = Inr d"
    and "ApplyPenaltyEdgeDerivation (Some problem) d = Inr problem'"
    and "ValidateSolution problem' s = []" "reuse_cost (EvaluateObjective problem' s) = 0"
    and "earlier \<in> set (buffers problem)" "later \<in> set (buffers problem)" "EarlierLifetime earlier later"
    and "\<not> same_class problem (buf_id earlier) (buf_id later)"
    and "Find s (buf_id earlier) = Some pl1" "Find s (buf_id later) = Some pl2" "pl_pool pl1 = pl_pool pl2"
    and "AddressRangesOverlap (pl_offset pl1) (buf_size earlier) (pl_offset pl2) (buf_size later)"
  shows "\<not> paid_race program sync_cost earlier later \<and>
    (syncs_cost program sync_cost earlier later \<longrightarrow> race_free program earlier later)"
proof -
  have "\<not> paid_race program sync_cost earlier later"
  proof
    assume race: "paid_race program sync_cost earlier later"
    note wf = derived_well_formed [OF assms(1)]
    obtain e where e: "e \<in> set (edges d)" "edge_first e = min (buf_id earlier) (buf_id later)"
      "edge_second e = max (buf_id earlier) (buf_id later)" "edge_cost e \<noteq> 0"
      using derived_edge [OF assms(1,5,6,7) race] by blast
    define k where "k = \<lparr>pen_first = edge_first e, pen_second = edge_second e, pen_cost = edge_cost e,
      pen_reason = Pen_kGeneric\<rparr>"
    note p' = applied_problem [OF assms(2)]
    have k_in: "k \<in> set (penalties_of problem')" using p'(4) e(1) unfolding k_def by force
    have ok: "well_formed problem'" "valid_solution problem' s"
      using assms(3) by (simp_all add: ValidateSolution_Nil)
    have diff: "\<not> same_class problem' (buf_id earlier) (buf_id later)"
      using assms(8) p'(2) by (simp add: same_class_def coloc_pairs_def)
    note overlap = overlapping_pair_pays [OF ok, unfolded p'(1)]
    have "pays problem' s k"
    proof (cases "buf_id earlier \<le> buf_id later")
      case True
      then show ?thesis
        by (intro overlap [OF assms(5,6) diff assms(9-12)]) (simp_all add: k_def e(2,3) min_def max_def)
    next
      case False
      then show ?thesis
        by (intro overlap [OF assms(6,5) _ assms(10,9) assms(11) [symmetric]])
          (use diff same_class_sym assms(12) AddressRangesOverlap_commute in
            \<open>auto simp: k_def e(2,3) min_def max_def\<close>)
    qed
    then have "pen_cost k \<le> reuse_cost (EvaluateObjective problem' s)"
      using k_in ok(1) by (rule paid_penalty_le_reuse_cost)
    then show False using assms(4) e(4) by (simp add: k_def)
  qed
  then show ?thesis using paid_race_iff [OF assms(1,5,6)] by blast
qed

lemma race_buffers:
  "race_buffer 3 ''x'' 0 2 \<in> set (buffers race_problem)" "race_buffer 5 ''y'' 2 4 \<in> set (buffers race_problem)"
  "EarlierLifetime (race_buffer 3 ''x'' 0 2) (race_buffer 5 ''y'' 2 4)"
  by (simp_all add: race_problem_def) code_simp

lemma race_syncs: "syncs_cost race_program race_costs b c"
proof -
  have "list_all (\<lambda>i. list_all (\<lambda>j. sync_cost_of race_program race_costs i j \<noteq> 0) [0..<5]) [0..<5]"
    by code_simp
  moreover have "length (operations race_program) = 5" by code_simp
  ultimately show ?thesis by (auto simp: syncs_cost_def accesses_of_def list_all_iff)
qed

theorem edge_iff_race_witness:
  "\<not> race_free race_program (race_buffer 3 ''x'' 0 2) (race_buffer 5 ''y'' 2 4)"
proof -
  have "has_edge race_derivation (race_buffer 3 ''x'' 0 2) (race_buffer 5 ''y'' 2 4)"
    by (simp add: has_edge_def race_derivation_def race_buffer_def)
  then show ?thesis using edge_iff_race [OF race_derived race_buffers] race_syncs by blast
qed


definition race_applied :: DsaProblem where
  "race_applied = (case ApplyPenaltyEdgeDerivation (Some race_problem) race_derivation of Inr p \<Rightarrow> p)"

theorem zero_cost_reuse_is_race_free_witness:
  "race_free race_program (race_buffer 5 ''y'' 2 4) (race_buffer 7 ''w'' 4 6)"
proof -
  have "ApplyPenaltyEdgeDerivation (Some race_problem) race_derivation = Inr race_applied"
    by (simp add: race_applied_def ApplyPenaltyEdgeDerivation_def Let_def split: option.splits)
  moreover have "ValidateSolution race_applied race_solution = []" by code_simp
  moreover have "reuse_cost (EvaluateObjective race_applied race_solution) = 0" by code_simp
  moreover have "race_buffer 7 ''w'' 4 6 \<in> set (buffers race_problem)" by (simp add: race_problem_def)
  moreover have "EarlierLifetime (race_buffer 5 ''y'' 2 4) (race_buffer 7 ''w'' 4 6)" by code_simp
  moreover have "\<not> same_class race_problem 5 7"
    by (simp add: same_class_def coloc_pairs_def race_problem_def)
  moreover have "Find race_solution 5 = Some \<lparr>pl_pool = 0, pl_offset = 32\<rparr>"
    "Find race_solution 7 = Some \<lparr>pl_pool = 0, pl_offset = 32\<rparr>" by code_simp+
  moreover have "AddressRangesOverlap 32 32 32 32" by code_simp
  ultimately show ?thesis
    using zero_cost_reuse_is_race_free [OF race_derived _ _ _ race_buffers(2)] race_syncs
    by (simp add: race_buffer_def)
qed

end
