(* ===== verification/Reuse_Geometry.thy ===== *)
theory Reuse_Geometry
  imports Fit
begin

text \<open>
  Reuse statistics and the sparse reference placement (\<^verbatim>\<open>src/dsa/analysis/reuse_geometry.h\<close> and
  \<^verbatim>\<open>.cpp\<close>): the colocation classes of a valid placement as movable nodes, the number of pairs and
  bytes of physical reuse between nodes that may share memory, and the passes that move one node at a
  time to reduce them. The counters of \<open>GeometryScore\<close> are 64-bit and wrap.
\<close>

section \<open>State\<close>

record ReuseGeometryStats =
  pair_count :: u64
  overlap_bytes :: u64

record SparseReferenceResult =
  sparse_solution :: DsaSolution
  sparse_initial :: ReuseGeometryStats
  sparse_final :: ReuseGeometryStats
  accepted_moves :: nat
  sparse_passes_done :: nat

record AllocationNode =
  an_members :: "nat list"
  an_pool :: PoolId
  an_offset :: u64
  an_size :: u64
  an_alignment :: u64
  an_movable :: bool
  an_pinned_offset :: "u64 option"

record GeometryScore =
  sc_pairs :: u64
  sc_bytes :: u64

definition score_before :: "GeometryScore \<Rightarrow> GeometryScore \<Rightarrow> bool" where
  "score_before first second = ((sc_pairs first, sc_bytes first) < (sc_pairs second, sc_bytes second))"

section \<open>Arithmetic\<close>

definition AlignUpOrMax :: "u64 \<Rightarrow> u64 \<Rightarrow> u64" where
  "AlignUpOrMax value align =
     (let remainder = value mod align in
      if remainder = 0 then value
      else let increment = align - remainder in
        if AddOverflows value increment then UINT64_MAX else value + increment)"

definition AlignDown :: "u64 \<Rightarrow> u64 \<Rightarrow> u64" where
  "AlignDown value align = value - value mod align"

definition geometry_lcm :: "u64 \<Rightarrow> u64 \<Rightarrow> exn + u64" where
  "geometry_lcm first second =
     (let divisor = of_nat (gcd (unat first) (unat second)) in
      if first div divisor > UINT64_MAX div second
      then Inl (InvalidArgument ''colocation alignment least common multiple overflows'')
      else Inr (first div divisor * second))"

definition OverlapBytes :: "u64 \<Rightarrow> u64 \<Rightarrow> u64 \<Rightarrow> u64 \<Rightarrow> u64" where
  "OverlapBytes first_offset first_size second_offset second_size =
     (if \<not> AddressRangesOverlap first_offset first_size second_offset second_size then 0
      else min (first_offset + first_size) (second_offset + second_size)
             - max first_offset second_offset)"

section \<open>Nodes\<close>

fun members_by_root ::
  "nat list \<Rightarrow> nat list \<Rightarrow> (nat, nat list) omap \<Rightarrow> (nat, nat list) omap" where
  "members_by_root [] parent m = m"
| "members_by_root (index # rest) parent m =
     (let (root, parent') = ds_find parent index
      in members_by_root rest parent' (om_put root (om_get [] m root @ [index]) m))"

definition add_class_member ::
  "DsaProblem \<Rightarrow> DsaSolution \<Rightarrow> (BufferId \<rightharpoonup> PinnedAllocation) \<Rightarrow> nat \<Rightarrow> AllocationNode \<Rightarrow>
   exn + AllocationNode" where
  "add_class_member problem sol pins member node =
     (let buffer = buffers problem ! member in
      if (case Find sol (buf_id buffer) of None \<Rightarrow> True
          | Some p \<Rightarrow> pl_pool p \<noteq> an_pool node \<or> pl_offset p \<noteq> an_offset node)
      then Inl (InvalidArgument ''colocation class does not share one placement'')
      else and_then (geometry_lcm (an_alignment node) (alignment buffer)) (\<lambda>merged.
        let node' = node\<lparr>an_size := max (an_size node) (buf_size buffer), an_alignment := merged\<rparr> in
        case pins (buf_id buffer) of
          None \<Rightarrow> Inr node'
        | Some pin \<Rightarrow>
            if an_pinned_offset node' \<noteq> None \<and> the (an_pinned_offset node') \<noteq> pin_offset pin
            then Inl (InvalidArgument ''colocation class has incompatible pinned offsets'')
            else Inr (node'\<lparr>an_movable := False, an_pinned_offset := Some (pin_offset pin)\<rparr>)))"

definition build_node ::
  "DsaProblem \<Rightarrow> DsaSolution \<Rightarrow> (BufferId \<rightharpoonup> PinnedAllocation) \<Rightarrow> nat list \<Rightarrow> exn + AllocationNode" where
  "build_node problem sol pins members =
     (case Find sol (buf_id (buffers problem ! hd members)) of
        None \<Rightarrow> Inl (InvalidArgument ''initial placement is incomplete'')
      | Some p \<Rightarrow>
          try_fold (add_class_member problem sol pins) members
            \<lparr>an_members = members, an_pool = pl_pool p, an_offset = pl_offset p, an_size = 0,
             an_alignment = 1, an_movable = True, an_pinned_offset = None\<rparr>)"

text \<open>
  \<open>indices.at\<close> throws for an unknown buffer; both callers have validated the placement, and with it
  the problem, so every colocation names known buffers.
\<close>

definition BuildNodes :: "DsaProblem \<Rightarrow> DsaSolution \<Rightarrow> exn + AllocationNode list" where
  "BuildNodes problem sol =
     (let indices = BufferIndices problem;
          n = length (buffers problem);
          colocs = foldl (\<lambda>parent c. ds_union parent (the (indices (col_first c)))
                                       (the (indices (col_second c))))
                     (ds_init n) (colocations problem);
          pins = um_emplace_all (map (\<lambda>pin. (pin_buffer pin, pin)) (pinned_allocations problem))
      in try_fold (\<lambda>(root, members) ns.
             and_then (build_node problem sol pins members) (\<lambda>node. Inr (ns @ [node])))
           (members_by_root [0..<n] colocs []) [])"

section \<open>Which nodes must stay apart\<close>

definition in_node :: "DsaProblem \<Rightarrow> AllocationNode \<Rightarrow> BufferId \<Rightarrow> bool" where
  "in_node problem node i = list_ex (\<lambda>member. buf_id (buffers problem ! member) = i) (an_members node)"

definition HasSeparation :: "DsaProblem \<Rightarrow> AllocationNode \<Rightarrow> AllocationNode \<Rightarrow> bool" where
  "HasSeparation problem first second =
     list_ex (\<lambda>c. (in_node problem first (sep_first c) \<and> in_node problem second (sep_second c)) \<or>
                  (in_node problem first (sep_second c) \<and> in_node problem second (sep_first c)))
       (separations problem)"

definition HasExclusivePin :: "DsaProblem \<Rightarrow> AllocationNode \<Rightarrow> bool" where
  "HasExclusivePin problem node =
     list_ex (\<lambda>pin. exclusive_for_all_time pin \<and>
                list_ex (\<lambda>member. buf_id (buffers problem ! member) = pin_buffer pin) (an_members node))
       (pinned_allocations problem)"

definition NodesHaveTemporalConflict :: "DsaProblem \<Rightarrow> AllocationNode \<Rightarrow> AllocationNode \<Rightarrow> bool" where
  "NodesHaveTemporalConflict problem first second =
     list_ex (\<lambda>i. list_ex (\<lambda>j. HaveTemporalConflict problem (buffers problem ! i) (buffers problem ! j))
                    (an_members second)) (an_members first)"

definition MustRemainDisjoint :: "DsaProblem \<Rightarrow> AllocationNode \<Rightarrow> AllocationNode \<Rightarrow> bool" where
  "MustRemainDisjoint problem first second =
     (HasExclusivePin problem first \<or> HasExclusivePin problem second \<or>
      HasSeparation problem first second \<or> NodesHaveTemporalConflict problem first second)"

definition BuildMustRemainDisjoint :: "DsaProblem \<Rightarrow> AllocationNode list \<Rightarrow> bool list list" where
  "BuildMustRemainDisjoint problem ns =
     foldl (\<lambda>m (i, j).
         let v = MustRemainDisjoint problem (ns ! i) (ns ! j);
             m' = m[i := (m ! i)[j := v]]
         in m'[j := (m' ! j)[i := v]])
       (replicate (length ns) (replicate (length ns) False)) (index_pairs (length ns))"

section \<open>Scores\<close>

definition PairScore ::
  "AllocationNode \<Rightarrow> u64 \<Rightarrow> AllocationNode \<Rightarrow> u64 \<Rightarrow> bool \<Rightarrow> GeometryScore" where
  "PairScore first first_offset second second_offset must_remain_disjoint =
     (if an_pool first \<noteq> an_pool second \<or> must_remain_disjoint then \<lparr>sc_pairs = 0, sc_bytes = 0\<rparr>
      else let shared = OverlapBytes first_offset (an_size first) second_offset (an_size second)
           in \<lparr>sc_pairs = (if shared = 0 then 0 else 1), sc_bytes = shared\<rparr>)"

definition add_score :: "GeometryScore \<Rightarrow> GeometryScore \<Rightarrow> GeometryScore" where
  "add_score score pair = \<lparr>sc_pairs = sc_pairs score + sc_pairs pair, sc_bytes = sc_bytes score + sc_bytes pair\<rparr>"

definition TotalScore :: "AllocationNode list \<Rightarrow> bool list list \<Rightarrow> GeometryScore" where
  "TotalScore ns must_remain_disjoint =
     foldl (\<lambda>score (i, j). add_score score
         (PairScore (ns ! i) (an_offset (ns ! i)) (ns ! j) (an_offset (ns ! j)) (must_remain_disjoint ! i ! j)))
       \<lparr>sc_pairs = 0, sc_bytes = 0\<rparr> (index_pairs (length ns))"

definition NodeScore :: "AllocationNode list \<Rightarrow> bool list list \<Rightarrow> nat \<Rightarrow> u64 \<Rightarrow> GeometryScore" where
  "NodeScore ns must_remain_disjoint node_index offset =
     foldl (\<lambda>score other.
         if other = node_index then score
         else add_score score (PairScore (ns ! node_index) offset (ns ! other) (an_offset (ns ! other))
                (must_remain_disjoint ! node_index ! other)))
       \<lparr>sc_pairs = 0, sc_bytes = 0\<rparr> [0..<length ns]"

section \<open>Moving one node\<close>

definition FitsAt ::
  "DsaProblem \<Rightarrow> AllocationNode list \<Rightarrow> bool list list \<Rightarrow> nat \<Rightarrow> u64 \<Rightarrow> bool" where
  "FitsAt problem ns must_remain_disjoint node_index offset =
     (let node = ns ! node_index in
      if offset mod an_alignment node \<noteq> 0 \<or> AddOverflows offset (an_size node) then False
      else case FindPool problem (an_pool node) of
        None \<Rightarrow> False
      | Some pool \<Rightarrow>
          (case capacity pool of
             None \<Rightarrow> False
           | Some cap \<Rightarrow>
               if offset + an_size node > cap then False
               else if list_ex (\<lambda>r. AddressRangesOverlap offset (an_size node) (range_begin r)
                        (range_end r - range_begin r)) (reserved_ranges pool) then False
               else \<not> list_ex (\<lambda>other. other \<noteq> node_index \<and> an_pool (ns ! other) = an_pool node \<and>
                        must_remain_disjoint ! node_index ! other \<and>
                        AddressRangesOverlap offset (an_size node) (an_offset (ns ! other))
                          (an_size (ns ! other))) [0..<length ns]))"

definition neighbor_offsets :: "AllocationNode \<Rightarrow> AllocationNode \<Rightarrow> u64 list" where
  "neighbor_offsets node placed =
     (if \<not> AddOverflows (an_offset placed) (an_size placed)
      then [AlignUpOrMax (an_offset placed + an_size placed) (an_alignment node)] else []) @
     (if an_offset placed \<ge> an_size node
      then [AlignDown (an_offset placed - an_size node) (an_alignment node)] else [])"

text \<open>The \<open>std::set\<close> of candidates, in increasing order.\<close>

definition CandidateOffsets :: "DsaProblem \<Rightarrow> AllocationNode list \<Rightarrow> nat \<Rightarrow> u64 list" where
  "CandidateOffsets problem ns node_index =
     (let node = ns ! node_index;
          basic = [an_offset node, 0];
          candidates = (case FindPool problem (an_pool node) of
             None \<Rightarrow> basic
           | Some pool \<Rightarrow>
               (case capacity pool of
                  None \<Rightarrow> basic
                | Some cap \<Rightarrow>
                    if an_size node > cap then basic
                    else basic @ [AlignDown (cap - an_size node) (an_alignment node)] @
                      concat (map (\<lambda>other.
                          if other = node_index \<or> an_pool (ns ! other) \<noteq> an_pool node then []
                          else neighbor_offsets node (ns ! other)) [0..<length ns]) @
                      concat (map (\<lambda>reserved.
                          [AlignUpOrMax (range_end reserved) (an_alignment node)] @
                          (if range_begin reserved \<ge> an_size node
                           then [AlignDown (range_begin reserved - an_size node) (an_alignment node)]
                           else [])) (reserved_ranges pool))))
      in sort (remdups candidates))"

section \<open>Results\<close>

definition NodesToSolution :: "DsaProblem \<Rightarrow> AllocationNode list \<Rightarrow> DsaSolution" where
  "NodesToSolution problem ns =
     \<lparr>placements = foldl (\<lambda>m node.
         foldl (\<lambda>m member. om_emplace (buf_id (buffers problem ! member))
             \<lparr>pl_pool = an_pool node, pl_offset = an_offset node\<rparr> m) m (an_members node)) [] ns\<rparr>"

definition EvaluateReuseGeometry :: "DsaProblem \<Rightarrow> DsaSolution \<Rightarrow> exn + ReuseGeometryStats" where
  "EvaluateReuseGeometry problem sol =
     (let errors = ValidateSolution problem sol in
      if errors \<noteq> [] then Inl (InvalidArgument (''invalid placement: '' @ hd errors))
      else and_then (BuildNodes problem sol) (\<lambda>ns.
        let score = TotalScore ns (BuildMustRemainDisjoint problem ns)
        in Inr \<lparr>pair_count = sc_pairs score, overlap_bytes = sc_bytes score\<rparr>))"

section \<open>The sparse reference placement\<close>

definition pass_order :: "AllocationNode list \<Rightarrow> bool list list \<Rightarrow> nat list" where
  "pass_order ns must_remain_disjoint =
     (let key = (\<lambda>i. let score = NodeScore ns must_remain_disjoint i (an_offset (ns ! i))
                     in (sc_pairs score, sc_bytes score, an_size (ns ! i)))
      in sort_by (\<lambda>first second. key first > key second) [0..<length ns])"

definition consider_offset ::
  "DsaProblem \<Rightarrow> AllocationNode list \<Rightarrow> bool list list \<Rightarrow> nat \<Rightarrow> GeometryScore \<times> u64 \<Rightarrow> u64 \<Rightarrow> GeometryScore \<times> u64" where
  "consider_offset problem ns must_remain_disjoint node_index st candidate =
     (let (best, best_offset) = st in
      if \<not> FitsAt problem ns must_remain_disjoint node_index candidate then st
      else let score = NodeScore ns must_remain_disjoint node_index candidate in
        if score_before score best \<or>
           (\<not> score_before best score \<and> \<not> score_before score best \<and> candidate < best_offset)
        then (score, candidate) else st)"

definition improve_node ::
  "DsaProblem \<Rightarrow> bool list list \<Rightarrow> AllocationNode list \<times> nat \<times> bool \<Rightarrow> nat \<Rightarrow>
   AllocationNode list \<times> nat \<times> bool" where
  "improve_node problem must_remain_disjoint st node_index =
     (let (ns, moves, changed) = st; node = ns ! node_index in
      if \<not> an_movable node then st
      else let current = NodeScore ns must_remain_disjoint node_index (an_offset node);
               (best, best_offset) = foldl (consider_offset problem ns must_remain_disjoint node_index)
                 (current, an_offset node) (CandidateOffsets problem ns node_index)
           in if score_before best current \<and> best_offset \<noteq> an_offset node
              then (ns[node_index := node\<lparr>an_offset := best_offset\<rparr>], moves + 1, True)
              else st)"

text \<open>The first argument counts the passes that are left.\<close>

fun sparse_passes ::
  "nat \<Rightarrow> DsaProblem \<Rightarrow> bool list list \<Rightarrow> nat \<Rightarrow> AllocationNode list \<Rightarrow> nat \<Rightarrow>
   AllocationNode list \<times> nat \<times> nat" where
  "sparse_passes 0 problem must_remain_disjoint pass ns moves = (ns, moves, pass)"
| "sparse_passes (Suc remaining) problem must_remain_disjoint pass ns moves =
     (let (ns', moves', changed) = foldl (improve_node problem must_remain_disjoint) (ns, moves, False)
            (pass_order ns must_remain_disjoint)
      in if changed then sparse_passes remaining problem must_remain_disjoint (pass + 1) ns' moves'
         else (ns', moves', pass + 1))"

definition stats_of :: "GeometryScore \<Rightarrow> ReuseGeometryStats" where
  "stats_of score = \<lparr>pair_count = sc_pairs score, overlap_bytes = sc_bytes score\<rparr>"

definition BuildSparseReferencePlacement ::
  "DsaProblem \<Rightarrow> DsaSolution \<Rightarrow> nat \<Rightarrow> exn + SparseReferenceResult" where
  "BuildSparseReferencePlacement problem initial max_passes =
     (let errors = ValidateSolution problem initial in
      if errors \<noteq> [] then Inl (InvalidArgument (''invalid initial placement: '' @ hd errors))
      else and_then (BuildNodes problem initial) (\<lambda>ns.
        let must_remain_disjoint = BuildMustRemainDisjoint problem ns;
            (ns', moves, done) = sparse_passes max_passes problem must_remain_disjoint 0 ns 0;
            sol = NodesToSolution problem ns';
            final_errors = ValidateSolution problem sol
        in if final_errors \<noteq> []
           then Inl (RuntimeError (''sparse reference produced an invalid placement: '' @ hd final_errors))
           else Inr \<lparr>sparse_solution = sol,
                  sparse_initial = stats_of (TotalScore ns must_remain_disjoint),
                  sparse_final = stats_of (TotalScore ns' must_remain_disjoint),
                  accepted_moves = moves, sparse_passes_done = done\<rparr>))"

end
