(* ===== verification/Csv.thy ===== *)
theory Csv
  imports Validator_Spec "HOL-Library.Char_ord"
begin

text \<open>
  The MiniMalloc CSV format (\<^verbatim>\<open>src/dsa/io/minimalloc_csv.h\<close> and \<^verbatim>\<open>.cpp\<close>). An input stream is the text
  it will deliver, an output stream the text written; the \<open>cctype\<close> functions are those of the C
  locale. A thrown \<open>std::runtime_error\<close> or \<open>std::invalid_argument\<close> is a value of \<open>exn\<close>, and what had
  been written before the exception is not part of the result. The two functions that open files are
  not modelled.
\<close>

section \<open>Characters and cells\<close>

definition newline :: char where "newline = CHR 0x0A"
definition quote :: char where "quote = CHR 0x22"
definition comma :: char where "comma = CHR 0x2C"

text \<open>Space, tab, line feed, vertical tab, form feed and carriage return.\<close>

definition isspace :: "char \<Rightarrow> bool" where
  "isspace c = (of_char c = (32::nat) \<or> (9 \<le> (of_char c :: nat) \<and> (of_char c :: nat) \<le> 13))"

definition tolower :: "char \<Rightarrow> char" where
  "tolower c = (if 65 \<le> (of_char c :: nat) \<and> (of_char c :: nat) \<le> 90
                then char_of (of_char c + 32 :: nat) else c)"

definition Trim :: "string \<Rightarrow> string" where
  "Trim text = rev (dropWhile isspace (rev (dropWhile isspace text)))"

definition Lowercase :: "string \<Rightarrow> string" where
  "Lowercase text = map tolower text"

definition csv_line_error :: "nat \<Rightarrow> string \<Rightarrow> exn" where
  "csv_line_error line_number what = RuntimeError (''CSV line '' @ nat_digits line_number @ what)"

text \<open>The loop of \<open>ParseCsvRow\<close>; its state is \<open>quoted\<close>, \<open>field\<close> and \<open>cells\<close>.\<close>

fun csv_scan :: "nat \<Rightarrow> string \<Rightarrow> bool \<Rightarrow> string \<Rightarrow> string list \<Rightarrow> exn + string list" where
  "csv_scan n [] quoted field cells =
     (if quoted then Inl (csv_line_error n '' has an unterminated quote'')
      else Inr (cells @ [Trim field]))"
| "csv_scan n (c # rest) True field cells =
     (if c = quote
      then (case rest of
              [] \<Rightarrow> csv_scan n [] False field cells
            | d # rest' \<Rightarrow>
                if d = quote then csv_scan n rest' True (field @ [quote]) cells
                else csv_scan n (d # rest') False field cells)
      else csv_scan n rest True (field @ [c]) cells)"
| "csv_scan n (c # rest) False field cells =
     (if c = comma then csv_scan n rest False [] (cells @ [Trim field])
      else if c = quote
      then (if Trim field \<noteq> [] then Inl (csv_line_error n '' has a quote inside an unquoted field'')
            else csv_scan n rest True [] cells)
      else csv_scan n rest False (field @ [c]) cells)"

definition ParseCsvRow :: "string \<Rightarrow> nat \<Rightarrow> exn + string list" where
  "ParseCsvRow line line_number = csv_scan line_number line False [] []"

section \<open>Integers\<close>

text \<open>\<open>std::from_chars\<close> in base ten on the whole text: no sign for the unsigned type, a minus for the signed one.\<close>

fun digits_value :: "nat \<Rightarrow> string \<Rightarrow> nat option" where
  "digits_value value [] = Some value"
| "digits_value value (c # rest) =
     (if 48 \<le> (of_char c :: nat) \<and> (of_char c :: nat) \<le> 57
      then digits_value (value * 10 + (of_char c - 48)) rest else None)"

definition parse_digits :: "string \<Rightarrow> nat option" where
  "parse_digits text = (if text = [] then None else digits_value 0 text)"

definition from_chars_u64 :: "string \<Rightarrow> u64 option" where
  "from_chars_u64 text =
     (case parse_digits text of
        None \<Rightarrow> None
      | Some v \<Rightarrow> if v < 18446744073709551616 then Some (of_nat v) else None)"

definition from_chars_i64 :: "string \<Rightarrow> int option" where
  "from_chars_i64 text =
     (case text of
        [] \<Rightarrow> None
      | c # rest \<Rightarrow>
          (case (if c = CHR ''-'' then map_option (\<lambda>v. - int v) (parse_digits rest)
                 else map_option int (parse_digits text)) of
             None \<Rightarrow> None
           | Some v \<Rightarrow> if INT64_MIN \<le> v \<and> v \<le> INT64_MAX then Some v else None))"

definition ParseInteger :: "(string \<Rightarrow> 'a option) \<Rightarrow> string \<Rightarrow> string \<Rightarrow> nat \<Rightarrow> exn + 'a" where
  "ParseInteger from_chars text column line_number =
     (case from_chars text of
        None \<Rightarrow> Inl (csv_line_error line_number ('' has invalid '' @ column @ '' value '' @ [CHR 0x27] @ text @ [CHR 0x27]))
      | Some value \<Rightarrow> Inr value)"

section \<open>Writing cells\<close>

definition EscapeCsv :: "string \<Rightarrow> string" where
  "EscapeCsv text =
     (if \<not> list_ex (\<lambda>c. c = comma \<or> c = quote \<or> c = newline \<or> c = CHR 0x0D) text then text
      else [quote] @ concat (map (\<lambda>c. if c = quote then [quote, c] else [c]) text) @ [quote])"

section \<open>Reading a document\<close>

record MiniMallocDocument =
  doc_problem :: DsaProblem
  doc_solution :: "DsaSolution option"

text \<open>The lines \<open>std::getline\<close> delivers: an unterminated last line counts unless it is empty.\<close>

fun getlines :: "string \<Rightarrow> string \<Rightarrow> string list" where
  "getlines line [] = (if line = [] then [] else [line])"
| "getlines line (c # rest) =
     (if c = newline then line # getlines [] rest else getlines (line @ [c]) rest)"

fun find_header :: "nat \<Rightarrow> string list \<Rightarrow> (nat \<times> string \<times> string list) option" where
  "find_header line_number [] = None"
| "find_header line_number (line # rest) =
     (if Trim line \<noteq> [] then Some (line_number + 1, line, rest)
      else find_header (line_number + 1) rest)"

text \<open>\<open>columns\<close> is a \<open>std::map\<close> that is never iterated.\<close>

fun index_columns :: "nat \<Rightarrow> string list \<Rightarrow> (string \<rightharpoonup> nat) \<Rightarrow> exn + (string \<rightharpoonup> nat)" where
  "index_columns i [] columns = Inr columns"
| "index_columns i (field # rest) columns =
     (let name = Lowercase (Trim field) in
      if columns name \<noteq> None
      then Inl (RuntimeError (''MiniMalloc CSV repeats column '' @ [CHR 0x27] @ name @ [CHR 0x27]))
      else index_columns (i + 1) rest (columns(name \<mapsto> i)))"

definition require_column :: "(string \<rightharpoonup> nat) \<Rightarrow> string \<Rightarrow> unit \<Rightarrow> exn + unit" where
  "require_column columns required _ =
     (if columns required = None
      then Inl (RuntimeError (''MiniMalloc CSV is missing required column '' @ [CHR 0x27] @ required @ [CHR 0x27]))
      else Inr ())"

definition csv_field :: "(string \<rightharpoonup> nat) \<Rightarrow> string list \<Rightarrow> nat \<Rightarrow> string \<Rightarrow> exn + string" where
  "csv_field columns cells line_number name =
     (case columns name of
        None \<Rightarrow> Inl (OutOfRange ''map::at'')
      | Some index \<Rightarrow>
          if index \<ge> length cells
          then Inl (csv_line_error line_number '' has fewer fields than the header'')
          else Inr (cells ! index))"

definition read_row ::
  "(string \<rightharpoonup> nat) \<Rightarrow> PoolId \<Rightarrow> nat \<Rightarrow> string \<Rightarrow> Buffer list \<times> (BufferId, Placement) omap \<Rightarrow>
   exn + Buffer list \<times> (BufferId, Placement) omap" where
  "read_row columns pool line_number line st =
     and_then (ParseCsvRow line line_number) (\<lambda>cells.
       let (bs, placed) = st; field = csv_field columns cells line_number in
       if length bs > 4294967295
       then Inl (RuntimeError ''MiniMalloc CSV has too many buffers for BufferId'')
       else
       and_then (field ''id'') (\<lambda>name.
       if name = [] then Inl (csv_line_error line_number '' has an empty id'')
       else
       and_then (field ''size'') (\<lambda>size_text.
       and_then (ParseInteger from_chars_u64 size_text ''size'' line_number) (\<lambda>sz.
       and_then (field ''lower'') (\<lambda>lower_text.
       and_then (ParseInteger from_chars_i64 lower_text ''lower'' line_number) (\<lambda>low.
       and_then (field ''upper'') (\<lambda>upper_text.
       and_then (ParseInteger from_chars_i64 upper_text ''upper'' line_number) (\<lambda>high.
       let buffer = \<lparr>buf_id = of_nat (length bs), buf_name = name, buf_size = sz, alignment = 1,
                     live_intervals = [\<lparr>lower = low, upper = high\<rparr>], allowed_pools = [pool]\<rparr> in
       if columns ''offset'' = None then Inr (bs @ [buffer], placed)
       else
       and_then (field ''offset'') (\<lambda>offset_text.
       and_then (ParseInteger from_chars_u64 offset_text ''offset'' line_number) (\<lambda>offset.
       Inr (bs @ [buffer], om_put (buf_id buffer) \<lparr>pl_pool = pool, pl_offset = offset\<rparr> placed)))))))))))"

fun read_rows ::
  "(string \<rightharpoonup> nat) \<Rightarrow> PoolId \<Rightarrow> nat \<Rightarrow> string list \<Rightarrow> Buffer list \<times> (BufferId, Placement) omap \<Rightarrow>
   exn + Buffer list \<times> (BufferId, Placement) omap" where
  "read_rows columns pool line_number [] st = Inr st"
| "read_rows columns pool line_number (line # rest) st =
     (if Trim line = [] then read_rows columns pool (line_number + 1) rest st
      else and_then (read_row columns pool (line_number + 1) line st)
             (read_rows columns pool (line_number + 1) rest))"

definition csv_pool :: "PoolId \<Rightarrow> Pool" where
  "csv_pool pool =
     \<lparr>pool_id = pool, pool_name = (if pool = kDefaultPool then ''default'' else to_string pool),
      capacity = None, reserved_ranges = [], bank_geometry = None\<rparr>"

definition csv_problem :: "PoolId \<Rightarrow> Buffer list \<Rightarrow> DsaProblem" where
  "csv_problem pool bs =
     \<lparr>buffers = bs, pools = [csv_pool pool], colocations = [], separations = [],
      temporal_exclusions = [], pinned_allocations = [], cost_model = None, pypto_structure = None,
      objective = MinimizePeakObjective\<rparr>"

definition ReadMiniMallocCsv :: "string \<Rightarrow> PoolId \<Rightarrow> exn + MiniMallocDocument" where
  "ReadMiniMallocCsv input pool =
     (case find_header 0 (getlines [] input) of
        None \<Rightarrow> Inl (RuntimeError ''MiniMalloc CSV is empty'')
      | Some (line_number, line, rest) \<Rightarrow>
          and_then (ParseCsvRow line line_number) (\<lambda>header.
          and_then (index_columns 0 header Map.empty) (\<lambda>columns.
          and_then (try_fold (require_column columns) [''id'', ''lower'', ''upper'', ''size''] ()) (\<lambda>_.
          and_then (read_rows columns pool line_number rest ([], [])) (\<lambda>(bs, placed).
          if bs = [] then Inl (RuntimeError ''MiniMalloc CSV contains no buffers'')
          else Inr \<lparr>doc_problem = csv_problem pool bs,
                 doc_solution = (if columns ''offset'' = None then None
                                 else Some \<lparr>placements = placed\<rparr>)\<rparr>)))))"

section \<open>Writing a document\<close>

definition row_text :: "DsaSolution option \<Rightarrow> Buffer \<Rightarrow> exn + string" where
  "row_text sol buffer =
     (if length (live_intervals buffer) \<noteq> 1 \<or> length (allowed_pools buffer) \<noteq> 1
      then Inl (InvalidArgument ''MiniMalloc CSV supports exactly one interval and one fixed pool per buffer'')
      else
      let name = (if buf_name buffer = [] then to_string (buf_id buffer) else buf_name buffer);
          text = EscapeCsv name @ [comma] @ int_to_string (lower (hd (live_intervals buffer))) @ [comma] @
            int_to_string (upper (hd (live_intervals buffer))) @ [comma] @ to_string (buf_size buffer)
      in case sol of
           None \<Rightarrow> Inr (text @ [newline])
         | Some s \<Rightarrow>
             (case Find s (buf_id buffer) of
                None \<Rightarrow> Inl (InvalidArgument (''solution has no placement for buffer '' @ to_string (buf_id buffer)))
              | Some p \<Rightarrow>
                  if pl_pool p \<noteq> hd (allowed_pools buffer)
                  then Inl (InvalidArgument ''solution pool cannot be represented in MiniMalloc CSV'')
                  else Inr (text @ [comma] @ to_string (pl_offset p) @ [newline])))"

definition WriteMiniMallocCsv :: "DsaProblem \<Rightarrow> DsaSolution option \<Rightarrow> exn + string" where
  "WriteMiniMallocCsv problem sol =
     try_fold (\<lambda>buffer output. and_then (row_text sol buffer) (\<lambda>row. Inr (output @ row)))
       (buffers problem)
       (''id,lower,upper,size'' @ (if sol = None then [] else '',offset'') @ [newline])"

end
