(* ===== verification/Csv_Spec.thy ===== *)
theory Csv_Spec
  imports Csv
begin

text \<open>
  The round trip of the CSV format: what \<open>WriteMiniMallocCsv\<close> writes, \<open>ReadMiniMallocCsv\<close> reads back,
  up to the parts of a problem the format does not hold (identifiers are renumbered by row, the
  alignment is one, the pool is the reader's argument). Cells are handled first, then rows, then
  the document.
\<close>

section \<open>Digits\<close>

definition digit :: "char \<Rightarrow> bool" where
  "digit c \<longleftrightarrow> 48 \<le> (of_char c :: nat) \<and> (of_char c :: nat) \<le> 57"

lemma digit_char: "k < 10 \<Longrightarrow> of_char (char_of (48 + k :: nat)) = 48 + k"
  by simp

lemma digits_value_append:
  "digits_value v (xs @ ys) = (case digits_value v xs of None \<Rightarrow> None | Some w \<Rightarrow> digits_value w ys)"
  by (induction v xs rule: digits_value.induct) auto

lemma nat_digits_digit: "c \<in> set (nat_digits n) \<Longrightarrow> digit c"
proof (induction n rule: nat_digits.induct)
  case (1 n)
  then show ?case
    by (subst (asm) (2) nat_digits.simps) (auto simp: digit_def split: if_splits)
qed

lemma nat_digits_nonempty [simp]: "nat_digits n \<noteq> []"
  by (subst nat_digits.simps) simp

lemma digits_value_nat_digits: "digits_value 0 (nat_digits n) = Some n"
proof (induction n rule: nat_digits.induct)
  case (1 n)
  then show ?case
    by (subst nat_digits.simps) (auto simp: digits_value_append)
qed

lemma parse_digits_nat_digits [simp]: "parse_digits (nat_digits n) = Some n"
  by (simp add: parse_digits_def digits_value_nat_digits)

lemma parse_u64 [simp]: "from_chars_u64 (to_string (w :: u64)) = Some w"
  using unat_u64_bound [of w] by (simp add: from_chars_u64_def to_string_def)

lemma digit_minus: "digit c \<Longrightarrow> c \<noteq> CHR ''-''"
  by (auto simp: digit_def)

lemma parse_i64:
  assumes "INT64_MIN \<le> z" "z \<le> INT64_MAX"
  shows "from_chars_i64 (int_to_string z) = Some z"
proof (cases "z < 0")
  case True
  then show ?thesis using assms by (simp add: from_chars_i64_def int_to_string_def)
next
  case False
  obtain c rest where c: "nat_digits (nat z) = c # rest" by (metis nat_digits_nonempty list.exhaust)
  then have "c \<noteq> CHR ''-''" using nat_digits_digit [of c "nat z"] digit_minus by simp
  then show ?thesis
    using False assms parse_digits_nat_digits [of "nat z"] c
    by (simp add: from_chars_i64_def int_to_string_def)
qed

section \<open>Cells\<close>

definition plain :: "string \<Rightarrow> bool" where
  "plain t \<longleftrightarrow> comma \<notin> set t \<and> quote \<notin> set t"

definition number_text :: "string \<Rightarrow> bool" where
  "number_text t \<longleftrightarrow> t \<noteq> [] \<and> (\<forall>c\<in>set t. digit c \<or> c = CHR ''-'')"

lemma number_texts [simp]: "number_text (to_string w)" "number_text (int_to_string z)"
  using nat_digits_digit by (auto simp: number_text_def to_string_def int_to_string_def)

lemma number_char:
  assumes "number_text t" "c \<in> set t"
  shows "c \<noteq> comma" "c \<noteq> quote" "c \<noteq> newline" "\<not> isspace c"
  using assms by (auto simp: number_text_def digit_def comma_def quote_def newline_def isspace_def)

lemma number_plain: "number_text t \<Longrightarrow> plain t" "number_text t \<Longrightarrow> newline \<notin> set t"
  unfolding plain_def using number_char by blast+

lemma Trim_no_space: "(\<And>c. c \<in> set t \<Longrightarrow> \<not> isspace c) \<Longrightarrow> Trim t = t"
  unfolding Trim_def by (metis dropWhile_eq_self_iff hd_in_set rev_rev_ident set_rev)

lemma Trim_number [simp]: "number_text t \<Longrightarrow> Trim t = t"
  by (rule Trim_no_space) (rule number_char)

lemma Trim_Nil: "Trim t = [] \<longleftrightarrow> (\<forall>c\<in>set t. isspace c)"
proof -
  have "dropWhile isspace (rev u) = [] \<longleftrightarrow> (\<forall>c\<in>set u. isspace c)" for u
    by (simp add: dropWhile_eq_Nil_conv)
  moreover have "(\<forall>c\<in>set (dropWhile isspace t). isspace c) \<longleftrightarrow> (\<forall>c\<in>set t. isspace c)"
    by (induction t) auto
  ultimately show ?thesis by (simp add: Trim_def)
qed

lemma scan_plain:
  "plain t \<Longrightarrow> csv_scan n (t @ rest) False f cells = csv_scan n rest False (f @ t) cells"
  by (induction t arbitrary: f) (auto simp: plain_def)

abbreviation escaped_body :: "string \<Rightarrow> string" where
  "escaped_body t \<equiv> concat (map (\<lambda>c. if c = quote then [quote, c] else [c]) t)"

lemma scan_quoted:
  "csv_scan n (escaped_body t @ quote # comma # rest) True f cells =
   csv_scan n (comma # rest) False (f @ t) cells"
  by (induction t arbitrary: f) (auto simp: comma_def quote_def)

lemma scan_escaped:
  assumes "Trim t = t"
  shows "csv_scan n (EscapeCsv t @ comma # rest) False [] cells = csv_scan n rest False [] (cells @ [t])"
proof (cases "list_ex (\<lambda>c. c = comma \<or> c = quote \<or> c = newline \<or> c = CHR 0x0D) t")
  case True
  then have "csv_scan n (EscapeCsv t @ comma # rest) False [] cells =
      csv_scan n (escaped_body t @ quote # comma # rest) True [] cells"
    by (simp add: EscapeCsv_def Trim_def comma_def quote_def)
  then show ?thesis using assms unfolding scan_quoted by simp
next
  case False
  then have "plain t" by (auto simp: plain_def list_ex_iff)
  then have "csv_scan n (t @ comma # rest) False [] cells = csv_scan n rest False [] (cells @ [t])"
    using assms by (simp add: scan_plain)
  then show ?thesis using False by (simp add: EscapeCsv_def)
qed

lemma scan_number:
  assumes "number_text t"
  shows "csv_scan n (t @ comma # rest) False [] cells = csv_scan n rest False [] (cells @ [t])"
    "csv_scan n t False [] cells = Inr (cells @ [t])"
  using scan_plain [OF number_plain(1) [OF assms], of n "comma # rest" "[]" cells]
    scan_plain [OF number_plain(1) [OF assms], of n "[]" "[]" cells] assms by simp_all

lemma EscapeCsv_newline: "newline \<notin> set t \<Longrightarrow> newline \<notin> set (EscapeCsv t)"
  by (auto simp: EscapeCsv_def quote_def newline_def)

section \<open>Rows\<close>

definition csv_name :: "Buffer \<Rightarrow> string" where
  "csv_name b = (if buf_name b = [] then to_string (buf_id b) else buf_name b)"

definition csv_offset :: "DsaSolution \<Rightarrow> Buffer \<Rightarrow> u64" where
  "csv_offset s b = pl_offset (the (Find s (buf_id b)))"

definition row_numbers :: "DsaSolution option \<Rightarrow> Buffer \<Rightarrow> string list" where
  "row_numbers sol b =
     [int_to_string (lower (hd (live_intervals b))), int_to_string (upper (hd (live_intervals b))),
      to_string (buf_size b)] @ (case sol of None \<Rightarrow> [] | Some s \<Rightarrow> [to_string (csv_offset s b)])"

definition row_line :: "DsaSolution option \<Rightarrow> Buffer \<Rightarrow> string" where
  "row_line sol b = EscapeCsv (csv_name b) @ concat (map (\<lambda>t. comma # t) (row_numbers sol b))"

lemma row_numbers_number: "t \<in> set (row_numbers sol b) \<Longrightarrow> number_text t"
  by (auto simp: row_numbers_def split: option.splits)

lemma row_text_line:
  "row_text sol b = Inr row \<Longrightarrow> row = row_line sol b @ [newline] \<and> length (live_intervals b) = 1"
  by (auto simp: row_text_def row_line_def row_numbers_def csv_name_def csv_offset_def Let_def
      split: if_splits option.splits)

lemma scan_numbers:
  assumes "number_text t" "\<forall>t\<in>set ts. number_text t"
  shows "csv_scan n (t @ concat (map (\<lambda>t. comma # t) ts)) False [] cells = Inr (cells @ t # ts)"
  using assms
proof (induction ts arbitrary: t cells)
  case Nil
  then show ?case by (simp add: scan_number(2))
next
  case (Cons u us)
  then show ?case by (simp add: scan_number(1))
qed

lemma parse_row_line:
  assumes "Trim (csv_name b) = csv_name b"
  shows "ParseCsvRow (row_line sol b) n = Inr (csv_name b # row_numbers sol b)"
proof -
  obtain t ts where ts: "row_numbers sol b = t # ts" by (simp add: row_numbers_def)
  then have "number_text t" "\<forall>t\<in>set ts. number_text t" using row_numbers_number [of _ sol b] by auto
  from scan_numbers [OF this, of n "[csv_name b]"] show ?thesis
    using scan_escaped [OF assms] by (simp add: ParseCsvRow_def row_line_def ts)
qed

lemma row_line_newline:
  assumes "newline \<notin> set (csv_name b)"
  shows "newline \<notin> set (row_line sol b)"
  using EscapeCsv_newline [OF assms] number_plain(2) [OF row_numbers_number, of _ sol b]
  by (auto simp: row_line_def newline_def comma_def)

lemma row_line_not_blank: "Trim (row_line sol b) \<noteq> []"
proof -
  have "comma \<in> set (row_line sol b)" by (simp add: row_line_def row_numbers_def)
  moreover have "\<not> isspace comma" by (simp add: comma_def isspace_def)
  ultimately show ?thesis unfolding Trim_Nil by blast
qed

section \<open>Documents\<close>

definition read_back :: "PoolId \<Rightarrow> nat \<Rightarrow> Buffer \<Rightarrow> Buffer" where
  "read_back pool i b =
     \<lparr>buf_id = of_nat i, buf_name = csv_name b, buf_size = buf_size b, alignment = 1,
      live_intervals = live_intervals b, allowed_pools = [pool]\<rparr>"

definition csv_document :: "PoolId \<Rightarrow> Buffer list \<Rightarrow> DsaSolution option \<Rightarrow> MiniMallocDocument" where
  "csv_document pool bs sol =
     \<lparr>doc_problem = csv_problem pool (map (\<lambda>(i, b). read_back pool i b) (enumerate 0 bs)),
      doc_solution = map_option (\<lambda>s. \<lparr>placements =
        map (\<lambda>(i, b). (of_nat i, \<lparr>pl_pool = pool, pl_offset = csv_offset s b\<rparr>)) (enumerate 0 bs)\<rparr>) sol\<rparr>"

definition csv_representable :: "Buffer \<Rightarrow> bool" where
  "csv_representable b \<longleftrightarrow>
     Trim (csv_name b) = csv_name b \<and> newline \<notin> set (csv_name b) \<and>
     (\<forall>i\<in>set (live_intervals b). INT64_MIN \<le> lower i \<and> lower i \<le> INT64_MAX \<and>
        INT64_MIN \<le> upper i \<and> upper i \<le> INT64_MAX)"

definition csv_columns :: "DsaSolution option \<Rightarrow> string \<rightharpoonup> nat" where
  "csv_columns sol =
     [''id'' \<mapsto> 0, ''lower'' \<mapsto> 1, ''upper'' \<mapsto> 2, ''size'' \<mapsto> 3] ++
     (if sol = None then Map.empty else [''offset'' \<mapsto> 4])"

lemma om_put_above: "\<forall>k'\<in>fst ` set m. k' < k \<Longrightarrow> om_put k v m = m @ [(k, v)]"
  by (induction k v m rule: om_put.induct) auto

lemma csv_name_nonempty: "csv_name b \<noteq> []"
  by (simp add: csv_name_def to_string_def)

lemma read_row_line:
  assumes "csv_representable b" "length (live_intervals b) = 1" "length bs < 4294967296"
  shows "read_row (csv_columns sol) pool n (row_line sol b) (bs, placed) =
    Inr (bs @ [read_back pool (length bs) b],
      case sol of None \<Rightarrow> placed
      | Some s \<Rightarrow> om_put (of_nat (length bs)) \<lparr>pl_pool = pool, pl_offset = csv_offset s b\<rparr> placed)"
proof -
  obtain i where i: "live_intervals b = [i]" using assms(2) by (cases "live_intervals b") auto
  then have bounds: "from_chars_i64 (int_to_string (lower i)) = Some (lower i)"
    "from_chars_i64 (int_to_string (upper i)) = Some (upper i)"
    using assms(1) parse_i64 by (simp_all add: csv_representable_def)
  have "ParseCsvRow (row_line sol b) n = Inr (csv_name b # row_numbers sol b)"
    using assms(1) by (intro parse_row_line) (simp add: csv_representable_def)
  then show ?thesis
    using assms(3) csv_name_nonempty [of b]
    by (cases sol) (simp_all add: read_row_def Let_def csv_field_def csv_columns_def row_numbers_def i
        bounds ParseInteger_def read_back_def)
qed

lemma read_row_lines:
  assumes "\<forall>b\<in>set bs. csv_representable b \<and> length (live_intervals b) = 1"
    and "length acc + length bs \<le> 4294967296" "\<forall>k\<in>fst ` set placed. unat k < length acc"
  shows "read_rows (csv_columns sol) pool n (map (row_line sol) bs) (acc, placed) =
    Inr (acc @ map (\<lambda>(i, b). read_back pool i b) (enumerate (length acc) bs),
      case sol of None \<Rightarrow> placed
      | Some s \<Rightarrow> placed @ map (\<lambda>(i, b). (of_nat i, \<lparr>pl_pool = pool, pl_offset = csv_offset s b\<rparr>))
          (enumerate (length acc) bs))"
  using assms
proof (induction bs arbitrary: acc placed n)
  case Nil
  then show ?case by (cases sol) simp_all
next
  case (Cons b bs)
  have len: "length acc < 4294967296" using Cons.prems(2) by simp
  then have id: "unat (of_nat (length acc) :: u32) = length acc" by (simp add: unat_of_nat)
  let ?acc = "acc @ [read_back pool (length acc) b]"
  let ?pl = "\<lambda>s. placed @ [(of_nat (length acc), \<lparr>pl_pool = pool, pl_offset = csv_offset s b\<rparr>)]"
  have put: "om_put (of_nat (length acc)) v placed = placed @ [(of_nat (length acc), v)]" for v
    using Cons.prems(3) id by (intro om_put_above) (auto simp: word_less_nat_alt)
  have row: "read_row (csv_columns sol) pool (Suc n) (row_line sol b) (acc, placed) =
      Inr (?acc, case sol of None \<Rightarrow> placed | Some s \<Rightarrow> ?pl s)"
    using read_row_line [of b acc sol pool "Suc n" placed] Cons.prems(1) len by (cases sol) (simp_all add: put)
  have keys: "\<forall>k\<in>fst ` set (case sol of None \<Rightarrow> placed | Some s \<Rightarrow> ?pl s). unat k < length ?acc"
    using Cons.prems(3) id by (cases sol) auto
  have bs: "\<forall>b\<in>set bs. csv_representable b \<and> length (live_intervals b) = 1"
    "length ?acc + length bs \<le> 4294967296" using Cons.prems(1,2) by auto
  show ?case
    using Cons.IH [OF bs keys, of "n + 1"] row by (cases sol) (simp_all add: row_line_not_blank)
qed

lemma getlines_line: "newline \<notin> set l \<Longrightarrow> getlines acc (l @ newline # rest) = (acc @ l) # getlines [] rest"
  by (induction l arbitrary: acc) auto

lemma getlines_lines:
  "\<forall>l\<in>set ls. newline \<notin> set l \<Longrightarrow> getlines [] (concat (map (\<lambda>l. l @ [newline]) ls)) = ls"
  by (induction ls) (simp_all add: getlines_line)

lemma written_rows:
  assumes "try_fold (\<lambda>b out. and_then (row_text sol b) (\<lambda>row. Inr (out @ row))) bs out = Inr text"
  shows "text = out @ concat (map (\<lambda>l. l @ [newline]) (map (row_line sol) bs)) \<and>
    (\<forall>b\<in>set bs. length (live_intervals b) = 1)"
  using assms
proof (induction bs arbitrary: out)
  case (Cons b bs)
  from Cons.prems obtain row where row: "row_text sol b = Inr row"
    "try_fold (\<lambda>b out. and_then (row_text sol b) (\<lambda>row. Inr (out @ row))) bs (out @ row) = Inr text"
    by (auto split: sum.splits)
  show ?case using Cons.IH [OF row(2)] row_text_line [OF row(1)] by auto
qed simp

definition csv_header :: "DsaSolution option \<Rightarrow> string" where
  "csv_header sol = ''id,lower,upper,size'' @ (if sol = None then [] else '',offset'')"

lemma column_names:
  "Lowercase (Trim ''id'') = ''id''" "Lowercase (Trim ''lower'') = ''lower''"
  "Lowercase (Trim ''upper'') = ''upper''" "Lowercase (Trim ''size'') = ''size''"
  "Lowercase (Trim ''offset'') = ''offset''"
  by code_simp+

definition header_names :: "DsaSolution option \<Rightarrow> string list" where
  "header_names sol = [''id'', ''lower'', ''upper'', ''size''] @ (if sol = None then [] else [''offset''])"

lemma header_columns: "index_columns 0 (header_names sol) Map.empty = Inr (csv_columns sol)"
  by (cases sol) (simp_all add: header_names_def column_names csv_columns_def eval_nat_numeral)

lemma csv_header_cases:
  "csv_header None = ''id,lower,upper,size''" "csv_header (Some s) = ''id,lower,upper,size,offset''"
  by (simp_all add: csv_header_def)

lemma header_parsed:
  "newline \<notin> set (csv_header sol)" "Trim (csv_header sol) \<noteq> []"
  "ParseCsvRow (csv_header sol) n = Inr (header_names sol)"
proof -
  have "newline \<notin> set ''id,lower,upper,size''" "newline \<notin> set ''id,lower,upper,size,offset''"
    by code_simp+
  then show "newline \<notin> set (csv_header sol)" by (metis csv_header_cases option.exhaust)
  have "Trim ''id,lower,upper,size'' \<noteq> []" "Trim ''id,lower,upper,size,offset'' \<noteq> []" by code_simp+
  then show "Trim (csv_header sol) \<noteq> []" by (metis csv_header_cases option.exhaust)
  have "ParseCsvRow ''id,lower,upper,size'' n = Inr [''id'', ''lower'', ''upper'', ''size'']"
    "ParseCsvRow ''id,lower,upper,size,offset'' n = Inr [''id'', ''lower'', ''upper'', ''size'', ''offset'']"
    by code_simp+
  then show "ParseCsvRow (csv_header sol) n = Inr (header_names sol)"
    by (cases sol) (simp_all only: csv_header_cases header_names_def simp_thms option.distinct if_True if_False
        append.simps append_Nil2)
qed

lemma written_document:
  assumes "WriteMiniMallocCsv p sol = Inr text" "\<forall>b\<in>set (buffers p). csv_representable b"
    and "buffers p \<noteq> []" "length (buffers p) \<le> 4294967296"
  shows "ReadMiniMallocCsv text pool = Inr (csv_document pool (buffers p) sol)"
proof -
  have written: "text = csv_header sol @ newline # concat (map (\<lambda>l. l @ [newline]) (map (row_line sol) (buffers p)))"
    and one: "\<forall>b\<in>set (buffers p). length (live_intervals b) = 1"
    using written_rows [OF assms(1) [unfolded WriteMiniMallocCsv_def]] by (simp_all add: csv_header_def)
  have "\<forall>l\<in>set (map (row_line sol) (buffers p)). newline \<notin> set l"
    using assms(2) by (auto simp: csv_representable_def intro: row_line_newline [THEN notE])
  then have lines: "getlines [] text = csv_header sol # map (row_line sol) (buffers p)"
    unfolding written by (simp only: getlines_line [OF header_parsed(1)] getlines_lines append_Nil)
  have rows: "read_rows (csv_columns sol) pool n (map (row_line sol) (buffers p)) ([], []) =
      Inr (map (\<lambda>(i, b). read_back pool i b) (enumerate 0 (buffers p)),
        case sol of None \<Rightarrow> []
        | Some s \<Rightarrow> map (\<lambda>(i, b). (of_nat i, \<lparr>pl_pool = pool, pl_offset = csv_offset s b\<rparr>)) (enumerate 0 (buffers p)))" for n
    using read_row_lines [of "buffers p" "[]" "[]" sol pool n] assms(2,4) one by (cases sol) simp_all
  have cols: "csv_columns sol ''id'' \<noteq> None" "csv_columns sol ''lower'' \<noteq> None" "csv_columns sol ''upper'' \<noteq> None"
    "csv_columns sol ''size'' \<noteq> None" "csv_columns sol ''offset'' = None \<longleftrightarrow> sol = None"
    by (cases sol; simp add: csv_columns_def)+
  have "enumerate 0 (buffers p) \<noteq> []" using assms(3) by (simp add: enumerate_eq_zip)
  then show ?thesis
    using cols rows
    by (cases sol) (simp_all add: ReadMiniMallocCsv_def lines header_parsed header_columns
        csv_document_def require_column_def)
qed

section \<open>What the reader delivers\<close>

lemma set_dropWhile_subset: "set (dropWhile P xs) \<subseteq> set xs"
  by (induction xs) auto

lemma Trim_suffix: "set (Trim t) \<subseteq> set t"
  unfolding Trim_def using set_dropWhile_subset by (metis set_rev subset_trans)

lemma dropWhile_idem: "dropWhile P (dropWhile P xs) = dropWhile P xs"
  by (induction xs) auto

lemma Trim_Trim [simp]: "Trim (Trim t) = Trim t"
proof -
  define u where "u = dropWhile isspace t"
  define v where "v = rev (dropWhile isspace (rev u))"
  have "dropWhile isspace v = v"
  proof (cases v)
    case (Cons c cs)
    then have "u \<noteq> []" unfolding v_def by auto
    have "u = v @ rev (takeWhile isspace (rev u))"
      unfolding v_def by (metis rev_append rev_rev_ident takeWhile_dropWhile_id)
    then have "hd u = c" using Cons by (metis append_Cons list.sel(1))
    moreover have "\<not> isspace (hd u)" using \<open>u \<noteq> []\<close> unfolding u_def by (simp add: hd_dropWhile)
    ultimately show ?thesis using Cons by simp
  qed simp
  moreover have "rev (dropWhile isspace (rev v)) = v" unfolding v_def by (simp add: dropWhile_idem)
  ultimately show ?thesis unfolding Trim_def u_def [symmetric] v_def [symmetric] by simp
qed

definition cell_of :: "char set \<Rightarrow> string \<Rightarrow> bool" where
  "cell_of cs t \<longleftrightarrow> Trim t = t \<and> set t \<subseteq> cs"

lemma cell_of_Trim: "set t \<subseteq> cs \<Longrightarrow> cell_of cs (Trim t)"
  using Trim_suffix [of t] by (auto simp: cell_of_def)

lemma csv_scan_cells:
  assumes "csv_scan n t q f cells = Inr cells'" "set t \<subseteq> cs" "set f \<subseteq> cs" "\<forall>t\<in>set cells. cell_of cs t"
  shows "\<forall>t\<in>set cells'. cell_of cs t"
  using assms
proof (induction n t q f cells rule: csv_scan.induct)
  case (1 n quoted field cells)
  then show ?case using cell_of_Trim [of field cs] by (auto split: if_splits)
next
  case (2 n c rest field cells)
  show ?case
  proof (cases "c = quote")
    case True
    show ?thesis
    proof (cases rest)
      case Nil
      then show ?thesis using 2(1) [OF True Nil] "2.prems" True by simp
    next
      case (Cons d rest')
      show ?thesis
      proof (cases "d = quote")
        case True
        then show ?thesis using 2(2) [OF \<open>c = quote\<close> Cons True] "2.prems" Cons \<open>c = quote\<close> by auto
      next
        case False
        then show ?thesis using 2(3) [OF \<open>c = quote\<close> Cons False] "2.prems" Cons \<open>c = quote\<close> by auto
      qed
    qed
  next
    case False
    then show ?thesis using 2(4) [OF False] "2.prems" by auto
  qed
next
  case (3 n c rest field cells)
  then show ?case using cell_of_Trim [of field cs] by (auto split: if_splits)
qed

lemma ParseCsvRow_cells: "ParseCsvRow line n = Inr cells \<Longrightarrow> t \<in> set cells \<Longrightarrow> cell_of (set line) t"
  unfolding ParseCsvRow_def using csv_scan_cells [of n line False "[]" "[]" cells "set line"] by auto

lemma getlines_newline: "l \<in> set (getlines acc t) \<Longrightarrow> newline \<notin> set acc \<Longrightarrow> newline \<notin> set l"
  by (induction acc t rule: getlines.induct) (auto split: if_splits)

lemma from_chars_i64_bounds: "from_chars_i64 t = Some z \<Longrightarrow> INT64_MIN \<le> z \<and> z \<le> INT64_MAX"
  unfolding from_chars_i64_def by (auto split: list.splits option.splits if_splits)

text \<open>A buffer as the reader builds it at row \<open>i\<close>.\<close>

definition read_buffer_ok :: "PoolId \<Rightarrow> nat \<Rightarrow> Buffer \<Rightarrow> bool" where
  "read_buffer_ok pool i b \<longleftrightarrow>
     buf_id b = of_nat i \<and> buf_name b \<noteq> [] \<and> alignment b = 1 \<and> length (live_intervals b) = 1 \<and>
     allowed_pools b = [pool] \<and> csv_representable b"

definition read_state_ok ::
  "bool \<Rightarrow> PoolId \<Rightarrow> Buffer list \<times> (BufferId, Placement) omap \<Rightarrow> bool" where
  "read_state_ok has_offset pool st \<longleftrightarrow>
     length (fst st) \<le> 4294967296 \<and> (\<forall>i<length (fst st). read_buffer_ok pool i (fst st ! i)) \<and>
     map fst (snd st) = (if has_offset then map of_nat [0..<length (fst st)] else []) \<and>
     (\<forall>x\<in>set (snd st). pl_pool (snd x) = pool)"

lemma ParseInteger_Inr: "ParseInteger f t column n = Inr v \<longleftrightarrow> f t = Some v"
  by (auto simp: ParseInteger_def split: option.splits)

lemma csv_field_Inr:
  "csv_field columns cells n name = Inr t \<longleftrightarrow> (\<exists>i. columns name = Some i \<and> i < length cells \<and> t = cells ! i)"
  by (auto simp: csv_field_def split: option.splits)

lemma read_state_extend:
  assumes "read_state_ok h pool (bs, placed)" "length bs \<le> 4294967295" "read_buffer_ok pool (length bs) b"
    and "if h then \<exists>offset. placed' = om_put (buf_id b) \<lparr>pl_pool = pool, pl_offset = offset\<rparr> placed
      else placed' = placed"
  shows "read_state_ok h pool (bs @ [b], placed')"
proof -
  let ?k = "of_nat (length bs) :: u32"
  have id: "buf_id b = ?k" using assms(3) by (simp add: read_buffer_ok_def)
  have put: "om_put ?k v placed = placed @ [(?k, v)]" if h for v
  proof (rule om_put_above)
    have "fst ` set placed = of_nat ` {0..<length bs}"
      using assms(1) that unfolding read_state_ok_def by (metis fst_conv list.set_map set_upt snd_conv)
    then show "\<forall>k'\<in>fst ` set placed. k' < ?k"
      using assms(2) by (auto simp: word_less_nat_alt unat_of_nat)
  qed
  show ?thesis
    using assms id put by (cases h) (auto simp: read_state_ok_def nth_append less_Suc_eq)
qed

lemma read_row_ok:
  assumes "read_row columns pool n line st = Inr st'" "newline \<notin> set line"
    and "read_state_ok (columns ''offset'' \<noteq> None) pool st"
  shows "read_state_ok (columns ''offset'' \<noteq> None) pool st'"
proof -
  obtain bs placed where st: "st = (bs, placed)" by fastforce
  have repr: "csv_representable \<lparr>buf_id = of_nat (length bs), buf_name = name, buf_size = sz, alignment = 1,
      live_intervals = [\<lparr>lower = low, upper = high\<rparr>], allowed_pools = [pool]\<rparr>"
    if "ParseCsvRow line n = Inr cells" "name \<in> set cells" "name \<noteq> []"
      "from_chars_i64 low_text = Some low" "from_chars_i64 high_text = Some high"
    for cells name sz low high low_text high_text
  proof -
    have "cell_of (set line) name" using ParseCsvRow_cells [OF that(1,2)] .
    then show ?thesis
      using assms(2) that(3) from_chars_i64_bounds [OF that(4)] from_chars_i64_bounds [OF that(5)]
      by (auto simp: cell_of_def csv_representable_def csv_name_def)
  qed
  obtain cells name sz low_text low high_text high placed' where
    st': "(bs @ [\<lparr>buf_id = of_nat (length bs), buf_name = name, buf_size = sz, alignment = 1,
      live_intervals = [\<lparr>lower = low, upper = high\<rparr>], allowed_pools = [pool]\<rparr>], placed') = st'"
    and row: "ParseCsvRow line n = Inr cells" "name \<in> set cells" "name \<noteq> []"
      "from_chars_i64 low_text = Some low" "from_chars_i64 high_text = Some high" "length bs \<le> 4294967295"
    and placed': "if columns ''offset'' \<noteq> None
      then \<exists>offset. placed' = om_put (of_nat (length bs)) \<lparr>pl_pool = pool, pl_offset = offset\<rparr> placed
      else placed' = placed"
  proof (cases "columns ''offset''")
    case None
    with assms(1) show thesis
      by (auto simp: read_row_def st Let_def ParseInteger_Inr csv_field_Inr split: if_split_asm)
        (rule that, rule sym, assumption+, rule nth_mem, assumption+, auto)
  next
    case (Some a)
    with assms(1) show thesis
      by (auto simp: read_row_def st Let_def ParseInteger_Inr csv_field_Inr split: if_split_asm)
        (rule that, rule sym, assumption+, rule nth_mem, assumption+, auto)
  qed
  show ?thesis unfolding st' [symmetric]
    by (rule read_state_extend [OF assms(3) [unfolded st] row(6)])
      (use row repr [OF row(1-5)] placed' in \<open>simp_all add: read_buffer_ok_def\<close>)
qed

lemma read_rows_ok:
  assumes "read_rows columns pool n ls st = Inr st'" "\<forall>l\<in>set ls. newline \<notin> set l"
    and "read_state_ok (columns ''offset'' \<noteq> None) pool st"
  shows "read_state_ok (columns ''offset'' \<noteq> None) pool st'"
  using assms
proof (induction columns pool n ls st rule: read_rows.induct)
  case (2 columns pool n line rest st)
  show ?case
  proof (cases "Trim line = []")
    case False
    obtain st1 where st1: "read_row columns pool (n + 1) line st = Inr st1"
      "read_rows columns pool (n + 1) rest st1 = Inr st'"
      using "2.prems"(1) False by (auto simp: and_then_Inr)
    have "read_state_ok (columns ''offset'' \<noteq> None) pool st1"
      using read_row_ok [OF st1(1)] "2.prems"(2,3) by simp
    then show ?thesis using "2.IH"(2) [OF False st1(2)] "2.prems"(2) by simp
  qed (use 2 in simp)
qed simp

definition read_document_ok :: "PoolId \<Rightarrow> MiniMallocDocument \<Rightarrow> bool" where
  "read_document_ok pool doc \<longleftrightarrow>
     (\<exists>bs. bs \<noteq> [] \<and> length bs \<le> 4294967296 \<and> doc_problem doc = csv_problem pool bs \<and>
        (\<forall>i<length bs. read_buffer_ok pool i (bs ! i)) \<and>
        (\<forall>s. doc_solution doc = Some s \<longrightarrow>
           map fst (placements s) = map buf_id bs \<and> (\<forall>x\<in>set (placements s). pl_pool (snd x) = pool)))"

lemma find_header_lines: "find_header n ls = Some (m, l, rest) \<Longrightarrow> set rest \<subseteq> set ls"
  by (induction n ls rule: find_header.induct) (auto split: if_splits)

lemma read_document:
  assumes "ReadMiniMallocCsv input pool = Inr doc"
  shows "read_document_ok pool doc"
proof -
  from assms obtain m l rest columns bs placed where
    h: "find_header 0 (getlines [] input) = Some (m, l, rest)"
    and rows: "read_rows columns pool m rest ([], []) = Inr (bs, placed)" and ne: "bs \<noteq> []"
    and doc: "doc = \<lparr>doc_problem = csv_problem pool bs,
      doc_solution = (if columns ''offset'' = None then None else Some \<lparr>placements = placed\<rparr>)\<rparr>"
    by (auto simp: ReadMiniMallocCsv_def and_then_Inr split: option.splits if_split_asm)
  have "\<forall>l\<in>set rest. newline \<notin> set l"
    using find_header_lines [OF h] getlines_newline [of _ "[]" input] by auto
  from read_rows_ok [OF rows this]
  have ok: "read_state_ok (columns ''offset'' \<noteq> None) pool (bs, placed)" by (simp add: read_state_ok_def)
  then have "map buf_id bs = map of_nat [0..<length bs]"
    by (intro nth_equalityI) (simp_all add: read_state_ok_def read_buffer_ok_def)
  then show ?thesis
    using ok ne unfolding read_document_ok_def doc by (intro exI [of _ bs]) (auto simp: read_state_ok_def)
qed

lemma write_rows_total:
  "\<forall>b\<in>set bs. \<exists>row. row_text sol b = Inr row \<Longrightarrow>
   \<exists>text. try_fold (\<lambda>b out. and_then (row_text sol b) (\<lambda>row. Inr (out @ row))) bs out = Inr text"
  by (induction bs arbitrary: out) auto

lemma read_document_buffer:
  assumes "read_buffer_ok pool i b"
  shows "read_back pool i b = b"
  using assms by (cases b) (simp add: read_back_def read_buffer_ok_def csv_name_def)

lemma read_document_placements:
  assumes "map fst (placements s) = map buf_id bs" "distinct (map buf_id bs)" "\<forall>x\<in>set (placements s). pl_pool (snd x) = pool"
    and "i < length bs"
  shows "Find s (buf_id (bs ! i)) = Some (snd (placements s ! i))"
    "placements s ! i = (buf_id (bs ! i), \<lparr>pl_pool = pool, pl_offset = csv_offset s (bs ! i)\<rparr>)"
proof -
  have len: "length (placements s) = length bs" using assms(1) by (rule map_eq_imp_length_eq)
  then have mem: "placements s ! i \<in> set (placements s)" using assms(4) by simp
  have key: "fst (placements s ! i) = buf_id (bs ! i)" using assms(1,4) len by (metis nth_map)
  then have "map_of (placements s) (buf_id (bs ! i)) = Some (snd (placements s ! i))"
    using assms(1,2) mem by (metis map_of_is_SomeI prod.collapse)
  then show find: "Find s (buf_id (bs ! i)) = Some (snd (placements s ! i))" by (simp add: Find_def)
  show "placements s ! i = (buf_id (bs ! i), \<lparr>pl_pool = pool, pl_offset = csv_offset s (bs ! i)\<rparr>)"
    using key find assms(3) mem by (simp add: csv_offset_def prod_eq_iff)
qed

lemma read_document_normal:
  assumes "read_document_ok pool doc"
  shows "\<exists>text. WriteMiniMallocCsv (doc_problem doc) (doc_solution doc) = Inr text \<and>
    ReadMiniMallocCsv text pool = Inr doc"
proof -
  obtain bs where bs: "bs \<noteq> []" "length bs \<le> 4294967296" "doc_problem doc = csv_problem pool bs"
    "\<forall>i<length bs. read_buffer_ok pool i (bs ! i)"
    "\<forall>s. doc_solution doc = Some s \<longrightarrow>
      map fst (placements s) = map buf_id bs \<and> (\<forall>x\<in>set (placements s). pl_pool (snd x) = pool)"
    using assms unfolding read_document_ok_def by blast
  have ids: "map buf_id bs = map of_nat [0..<length bs]"
    using bs(4) by (intro nth_equalityI) (simp_all add: read_buffer_ok_def)
  have dist: "distinct (map buf_id bs)"
    unfolding ids distinct_map
  proof (intro conjI inj_onI)
    fix i j
    assume ij: "i \<in> set [0..<length bs]" "j \<in> set [0..<length bs]" "(of_nat i :: u32) = of_nat j"
    have lt: "i < length bs" "j < length bs" using ij(1,2) by simp_all
    have same: "unat (of_nat k :: u32) = k" if "k < length bs" for k
      using that bs(2) by (simp add: unat_of_nat)
    have "i = unat (of_nat i :: u32)" by (rule same [OF lt(1), symmetric])
    also have "\<dots> = unat (of_nat j :: u32)" by (simp only: ij(3))
    also have "\<dots> = j" by (rule same [OF lt(2)])
    finally show "i = j" .
  qed simp
  have "\<exists>row. row_text (doc_solution doc) b = Inr row" if b: "b \<in> set bs" for b
  proof -
    obtain i where i: "i < length bs" "b = bs ! i" using b by (metis in_set_conv_nth)
    show ?thesis
    proof (cases "doc_solution doc")
      case (Some s)
      then have s: "map fst (placements s) = map buf_id bs" "\<forall>x\<in>set (placements s). pl_pool (snd x) = pool"
        using bs(5) by blast+
      have "Find s (buf_id b) = Some (snd (placements s ! i))" "pl_pool (snd (placements s ! i)) = pool"
        using read_document_placements [OF s(1) dist s(2) i(1)] i(2) by simp_all
      then show ?thesis using bs(4) i Some by (simp add: row_text_def read_buffer_ok_def Let_def)
    qed (use bs(4) i in \<open>simp add: row_text_def read_buffer_ok_def Let_def\<close>)
  qed
  then obtain written where written: "WriteMiniMallocCsv (doc_problem doc) (doc_solution doc) = Inr written"
    using write_rows_total [of bs "doc_solution doc"] bs(3)
    by (auto simp: WriteMiniMallocCsv_def csv_problem_def)
  have returned: "map (\<lambda>(i, b). read_back pool i b) (enumerate 0 bs) = bs"
    using bs(4) read_document_buffer by (intro nth_equalityI) (simp_all add: nth_enumerate_eq)
  have "csv_document pool bs (doc_solution doc) = doc"
  proof (cases "doc_solution doc")
    case (Some s)
    then have s: "map fst (placements s) = map buf_id bs" "\<forall>x\<in>set (placements s). pl_pool (snd x) = pool"
      using bs(5) by blast+
    have "map (\<lambda>(i, b). (of_nat i, \<lparr>pl_pool = pool, pl_offset = csv_offset s b\<rparr>)) (enumerate 0 bs) = placements s"
    proof (rule nth_equalityI)
      fix i
      assume "i < length (map (\<lambda>(i, b). (of_nat i :: u32, \<lparr>pl_pool = pool, pl_offset = csv_offset s b\<rparr>)) (enumerate 0 bs))"
      then have i: "i < length bs" by simp
      then show "map (\<lambda>(i, b). (of_nat i, \<lparr>pl_pool = pool, pl_offset = csv_offset s b\<rparr>)) (enumerate 0 bs) ! i =
          placements s ! i"
        using read_document_placements(2) [OF s(1) dist s(2) i] bs(4)
        by (simp add: nth_enumerate_eq read_buffer_ok_def)
    qed (use map_eq_imp_length_eq [OF s(1)] in simp)
    then show ?thesis using Some bs(3) returned by (cases doc; cases s) (simp add: csv_document_def)
  qed (use bs(3) returned in \<open>cases doc; simp add: csv_document_def\<close>)
  moreover have "ReadMiniMallocCsv written pool = Inr (csv_document pool bs (doc_solution doc))"
    using written_document [OF written] bs(1-4)
    by (simp add: csv_problem_def) (metis in_set_conv_nth read_buffer_ok_def)
  ultimately show ?thesis using written by metis
qed

section \<open>The properties\<close>

definition csv_example_problem :: DsaProblem where
  "csv_example_problem =
     csv_problem 3
       [\<lparr>buf_id = 40, buf_name = [CHR ''a'', comma, quote, CHR ''b'', quote], buf_size = 16, alignment = 8,
         live_intervals = [\<lparr>lower = - 2, upper = 4\<rparr>], allowed_pools = [3]\<rparr>,
        \<lparr>buf_id = 7, buf_name = [], buf_size = 120, alignment = 1,
         live_intervals = [\<lparr>lower = 0, upper = 10\<rparr>], allowed_pools = [3]\<rparr>]"

definition csv_example_solution :: DsaSolution where
  "csv_example_solution = \<lparr>placements =
     [(7, \<lparr>pl_pool = 3, pl_offset = 0\<rparr>), (40, \<lparr>pl_pool = 3, pl_offset = 1024\<rparr>)]\<rparr>"

definition csv_example_text :: string where
  "csv_example_text =
     ''id,lower,upper,size,offset'' @ [newline, quote] @ ''a,'' @ [quote, quote] @ ''b'' @
     [quote, quote, quote] @ '',-2,4,16,1024'' @ [newline] @ ''7,0,10,120,0'' @ [newline]"

lemma csv_example_written:
  "WriteMiniMallocCsv csv_example_problem (Some csv_example_solution) = Inr csv_example_text"
  by code_simp

lemma csv_example_representable:
  "\<forall>b\<in>set (buffers csv_example_problem). csv_representable b"
  "buffers csv_example_problem \<noteq> []" "length (buffers csv_example_problem) \<le> 4294967296"
proof -
  have "list_all csv_representable (buffers csv_example_problem)" by code_simp
  then show "\<forall>b\<in>set (buffers csv_example_problem). csv_representable b" by (simp add: list_all_iff)
qed (simp_all add: csv_example_problem_def csv_problem_def)

lemma csv_example_read:
  "ReadMiniMallocCsv csv_example_text pool =
   Inr (csv_document pool (buffers csv_example_problem) (Some csv_example_solution))"
  by (rule written_document [OF csv_example_written csv_example_representable])

text \<open>
  C9: what the CSV format keeps. When \<open>WriteMiniMallocCsv\<close> writes at least one and at most \<open>2 ^ 32\<close>
  buffers whose names are trimmed and free of newlines and whose interval bounds are 64-bit integers,
  \<open>ReadMiniMallocCsv\<close> accepts the text and gives \<open>csv_document\<close>: the buffers in the same order with the
  same size, the same live interval and, when a solution was written, the same offset, and the same
  name (commas and quotes included) or, for an empty name, the old identifier as text. The format does
  not hold the rest: identifiers become row numbers, the alignment is one, every buffer is in the pool
  given to the reader, and capacities, constraints, costs and the objective are gone.
\<close>
theorem csv_round_trip:
  assumes "WriteMiniMallocCsv p sol = Inr input" "\<forall>b\<in>set (buffers p). csv_representable b"
    and "buffers p \<noteq> []" "length (buffers p) \<le> 4294967296"
  shows "ReadMiniMallocCsv input pool = Inr (csv_document pool (buffers p) sol)"
  using assms by (rule written_document)

theorem csv_round_trip_witness:
  "ReadMiniMallocCsv csv_example_text 0 =
   Inr (csv_document 0 (buffers csv_example_problem) (Some csv_example_solution))"
  by (rule csv_round_trip [OF csv_example_written csv_example_representable])

text \<open>
  Reading normalises. Any document the reader accepts can be written, and reading the written
  text gives the same document again, problem and solution.
\<close>
theorem csv_read_write_read:
  assumes "ReadMiniMallocCsv input pool = Inr doc"
  shows "\<exists>written. WriteMiniMallocCsv (doc_problem doc) (doc_solution doc) = Inr written \<and>
    ReadMiniMallocCsv written pool = Inr doc"
  using assms by (intro read_document_normal read_document)

theorem csv_read_write_read_witness:
  "\<exists>doc written. WriteMiniMallocCsv (doc_problem doc) (doc_solution doc) = Inr written \<and>
    ReadMiniMallocCsv written 0 = Inr doc"
  using csv_read_write_read [OF csv_example_read] by blast

text \<open>
  Every document the reader accepts has the promised shape: at least one buffer, identifiers
  equal to the row numbers, names that are not empty, one interval of 64-bit bounds, alignment one,
  the reader's pool, and, with an offset column, exactly one placement per buffer in that pool.
\<close>
theorem csv_document_shape:
  assumes "ReadMiniMallocCsv input pool = Inr doc"
  shows "read_document_ok pool doc"
  using assms by (rule read_document)

theorem csv_document_shape_witness:
  "\<exists>doc. ReadMiniMallocCsv csv_example_text 9 = Inr doc \<and> read_document_ok 9 doc"
  using csv_document_shape [OF csv_example_read] csv_example_read by blast

definition newline_problem :: DsaProblem where
  "newline_problem =
     csv_problem 0 [\<lparr>buf_id = 0, buf_name = [CHR ''a'', newline, CHR ''b''], buf_size = 1, alignment = 1,
       live_intervals = [\<lparr>lower = 0, upper = 1\<rparr>], allowed_pools = [0]\<rparr>]"

definition newline_text :: string where
  "newline_text =
     ''id,lower,upper,size'' @ [newline, quote, CHR ''a'', newline, CHR ''b'', quote] @ '',0,1,1'' @ [newline]"

lemma newline_written: "WriteMiniMallocCsv newline_problem None = Inr newline_text"
  by code_simp

lemma scan_open_quote:
  "csv_scan n (escaped_body t) True f cells = Inl (csv_line_error n '' has an unterminated quote'')"
  by (induction t arbitrary: f) (auto simp: quote_def)

text \<open>The first line of a row whose name has a newline ends inside the quotes.\<close>

lemma newline_row:
  assumes "newline \<in> set (csv_name b)"
  obtains before after where "newline \<notin> set before"
    "row_line sol b = quote # escaped_body before @ newline # after"
proof -
  obtain before rest where split: "csv_name b = before @ newline # rest" "newline \<notin> set before"
    using split_list_first [OF assms] by blast
  have "newline \<noteq> quote" by (simp add: newline_def quote_def)
  then have "EscapeCsv (csv_name b) = quote # escaped_body before @ newline # escaped_body rest @ [quote]"
    unfolding EscapeCsv_def split(1) by simp
  then have "row_line sol b = quote # escaped_body before @ newline #
      (escaped_body rest @ [quote] @ concat (map (\<lambda>t. comma # t) (row_numbers sol b)))"
    by (simp add: row_line_def)
  then show thesis using that split(2) by blast
qed

lemma open_line_refused:
  "\<exists>e. read_row columns pool n (quote # escaped_body before) st = Inl e"
proof -
  have "ParseCsvRow (quote # escaped_body before) n = Inl (csv_line_error n '' has an unterminated quote'')"
    using scan_open_quote [of n before "[]" "[]"] by (simp add: ParseCsvRow_def Trim_def quote_def comma_def)
  then show ?thesis by (simp add: read_row_def)
qed

lemma open_line_not_blank: "Trim (quote # t) \<noteq> []"
  by (simp add: Trim_Nil quote_def isspace_def)

lemma read_rows_refused:
  "\<exists>e. read_rows columns pool n (ls @ (quote # escaped_body before) # rest) st = Inl e"
proof (induction ls arbitrary: n st)
  case Nil
  show ?case
    using open_line_refused [of columns pool "n + 1" before st] open_line_not_blank [of "escaped_body before"]
    by auto
next
  case (Cons l ls)
  then show ?case by (cases "Trim l = []"; cases "read_row columns pool (Suc n) l st") auto
qed

text \<open>
  C39: names with newlines do not survive. Whenever \<open>WriteMiniMallocCsv\<close> writes a problem in which some
  name has a newline (it puts the name in quotes), \<open>ReadMiniMallocCsv\<close> refuses the text: it splits the
  text into lines before it looks at quotes, and the first half of such a row is a line with an open
  quote.
\<close>
theorem csv_newline_refused:
  assumes "WriteMiniMallocCsv p sol = Inr input" "b \<in> set (buffers p)" "newline \<in> set (buf_name b)"
  shows "\<exists>e. ReadMiniMallocCsv input pool = Inl e"
proof -
  have "input = (csv_header sol @ [newline]) @ concat (map (\<lambda>l. l @ [newline]) (map (row_line sol) (buffers p)))"
    using written_rows [OF assms(1) [unfolded WriteMiniMallocCsv_def]] by (simp add: csv_header_def)
  note input = this
  have "newline \<in> set (csv_name b)" using assms(3) by (auto simp: csv_name_def)
  then obtain xs c ys where bs: "buffers p = xs @ c # ys" "newline \<in> set (csv_name c)"
    "\<forall>x\<in>set xs. newline \<notin> set (csv_name x)"
    using split_list_first_prop [of "buffers p" "\<lambda>b. newline \<in> set (csv_name b)"] assms(2) by blast
  obtain before after where row: "newline \<notin> set before" "row_line sol c = quote # escaped_body before @ newline # after"
    using newline_row [OF bs(2)] by blast
  have "newline \<noteq> quote" by (simp add: newline_def quote_def)
  then have open_line: "newline \<notin> set (quote # escaped_body before)" using row(1) by auto
  have lines: "getlines [] (concat (map (\<lambda>l. l @ [newline]) ls) @ t) = ls @ getlines [] t"
    if "\<forall>l\<in>set ls. newline \<notin> set l" for ls t
    using that by (induction ls) (simp_all add: getlines_line)
  let ?ls = "csv_header sol # map (row_line sol) xs"
  have plain: "\<forall>l\<in>set ?ls. newline \<notin> set l" using header_parsed(1) bs(3) row_line_newline by auto
  have "\<exists>t. input = concat (map (\<lambda>l. l @ [newline]) ?ls) @ (quote # escaped_body before) @ newline # t"
    unfolding input bs(1) by (simp add: row(2))
  then obtain t where "getlines [] input = ?ls @ (quote # escaped_body before) # getlines [] t"
    using lines [OF plain] getlines_line [OF open_line, of "[]"] by auto
  then have "find_header 0 (getlines [] input) =
      Some (1, csv_header sol, map (row_line sol) xs @ (quote # escaped_body before) # getlines [] t)"
    using header_parsed(2) by simp
  moreover obtain e where "read_rows (csv_columns sol) pool 1
      (map (row_line sol) xs @ (quote # escaped_body before) # getlines [] t) ([], []) = Inl e"
    using read_rows_refused by blast
  ultimately show ?thesis
    by (cases "try_fold (require_column (csv_columns sol)) [''id'', ''lower'', ''upper'', ''size''] ()")
      (simp_all add: ReadMiniMallocCsv_def header_parsed(3) header_columns del: try_fold.simps)
qed

theorem csv_newline_refused_witness: "\<exists>e. ReadMiniMallocCsv newline_text 0 = Inl e"
  by (rule csv_newline_refused [OF newline_written])
    (auto simp: newline_problem_def csv_problem_def)

end
