(* ===== verification/Search_Space.thy ===== *)
theory Search_Space
  imports Reuse_Search
begin

text \<open>
  The interface between the search view and the searches over it, as a locale: what every search
  relies on about nodes, hard and soft neighbours, and its interpretation by
  \<open>BuildReusePenaltySearchSpace\<close>. The second part characterises the hard neighbours and the soft
  weights of the built view by the classes and penalties of the problem.
\<close>

section \<open>The interface\<close>

abbreviation node_at :: "ReusePenaltySearchSpace \<Rightarrow> nat \<Rightarrow> PlacementSearchNode" where
  "node_at search i \<equiv> search_nodes search ! i"

abbreviation node_count :: "ReusePenaltySearchSpace \<Rightarrow> nat" where
  "node_count search \<equiv> length (search_nodes search)"

definition soft_links :: "nat \<Rightarrow> ReuseNodePair \<times> u64 \<Rightarrow> (nat \<times> u64) list" where
  "soft_links i entry =
     (case entry of ((a, b), w) \<Rightarrow> (if a = i then [(b, w)] else if b = i then [(a, w)] else []))"

locale search_space =
  fixes p :: DsaProblem and search :: ReusePenaltySearchSpace
  assumes node_size_pos: "i < node_count search \<Longrightarrow> node_size (node_at search i) \<noteq> 0"
    and node_alignment_pos: "i < node_count search \<Longrightarrow> node_alignment (node_at search i) \<noteq> 0"
    and representatives: "distinct (map node_representative (search_nodes search))"
    and hard_length: "length (hard_neighbors search) = node_count search"
    and soft_length: "length (soft_neighbors search) = node_count search"
    and hard_less: "i < node_count search \<Longrightarrow> j \<in> set (hard_neighbors search ! i) \<Longrightarrow> j < node_count search \<and> j \<noteq> i"
    and hard_sym: "i < node_count search \<Longrightarrow> j \<in> set (hard_neighbors search ! i) \<Longrightarrow> i \<in> set (hard_neighbors search ! j)"
    and soft_pair: "((i, j), w) \<in> set (soft_weights search) \<Longrightarrow>
      i < j \<and> j < node_count search \<and> node_pool (node_at search i) = node_pool (node_at search j)"
    and soft_neighbor: "i < node_count search \<Longrightarrow>
      soft_neighbors search ! i = concat (map (soft_links i) (soft_weights search))"
    and reserved: "i < node_count search \<Longrightarrow> FindPool p (node_pool (node_at search i)) = Some pool \<Longrightarrow>
      r \<in> set (reserved_ranges pool) \<Longrightarrow> range_begin r < range_end r"

section \<open>Linking the nodes\<close>

definition linked :: "DsaProblem \<Rightarrow> PreparedProblem \<Rightarrow> nat \<Rightarrow> nat \<Rightarrow> bool" where
  "linked p P i j \<longleftrightarrow>
     i \<noteq> j \<and> super_pool (supers P ! i) = super_pool (supers P ! j) \<and> blocks p P i j"

lemma linked_commute: "linked p P i j = linked p P j i"
  unfolding linked_def using blocks_commute by metis

definition linked_nodes :: "DsaProblem \<Rightarrow> PreparedProblem \<Rightarrow> (nat \<times> nat) set \<Rightarrow> PlacementSearchNode list \<Rightarrow> bool" where
  "linked_nodes p P ps ns \<longleftrightarrow>
     length ns = length (supers P) \<and>
     (\<forall>k<length ns. (ns ! k)\<lparr>node_conflicts := []\<rparr> = search_node p (supers P ! k) \<and>
        set (node_conflicts (ns ! k)) =
          {sb_representative (supers P ! j) | j. ((k, j) \<in> ps \<or> (j, k) \<in> ps) \<and> linked p P k j})"

lemma linked_node_fields:
  assumes "(n :: PlacementSearchNode)\<lparr>node_conflicts := []\<rparr> = search_node p s"
  shows "node_representative n = sb_representative s" "node_size n = sb_size s"
    "node_alignment n = sb_alignment s" "node_pool n = super_pool s"
    "node_members n = map (\<lambda>i. buf_id (buffers p ! i)) (sb_members s)"
  using assms by (cases n; simp add: search_node_def)+

lemma linked_nodes_step:
  assumes "linked_nodes p P ps ns" "i < j" "j < length (supers P)"
  shows "linked_nodes p P (insert (i, j) ps) (link_nodes p P ns (i, j))"
proof -
  have len: "length ns = length (supers P)" and nodes: "\<And>k. k < length ns \<Longrightarrow>
      (ns ! k)\<lparr>node_conflicts := []\<rparr> = search_node p (supers P ! k)"
    and conf: "\<And>k. k < length ns \<Longrightarrow> set (node_conflicts (ns ! k)) =
          {sb_representative (supers P ! j) | j. ((k, j) \<in> ps \<or> (j, k) \<in> ps) \<and> linked p P k j}"
    using assms(1) by (auto simp: linked_nodes_def)
  have pool: "node_pool (ns ! k) = super_pool (supers P ! k)" if "k < length ns" for k
    by (rule linked_node_fields(4) [OF nodes [OF that]])
  have lk: "linked p P i j \<longleftrightarrow> node_pool (ns ! i) = node_pool (ns ! j) \<and> node_blocks p P i j"
    using assms(2,3) len pool by (auto simp: linked_def blocks_def node_blocks_def Let_def)
  show ?thesis
  proof (cases "linked p P i j")
    case False
    then have "link_nodes p P ns (i, j) = ns" using lk by (auto simp: link_nodes_def)
    moreover have "((k, l) \<in> insert (i, j) ps \<or> (l, k) \<in> insert (i, j) ps) \<and> linked p P k l \<longleftrightarrow>
        ((k, l) \<in> ps \<or> (l, k) \<in> ps) \<and> linked p P k l" for k l
      using False linked_commute by auto
    ultimately show ?thesis using assms(1) by (simp add: linked_nodes_def)
  next
    case True
    define ns' where "ns' = ns[i := add_conflict (sb_representative (supers P ! j)) (ns ! i),
        j := add_conflict (sb_representative (supers P ! i)) (ns ! j)]"
    have "link_nodes p P ns (i, j) = ns'"
      using True lk assms(2) by (simp add: link_nodes_def ns'_def Let_def)
    moreover have "linked_nodes p P (insert (i, j) ps) ns'"
      unfolding linked_nodes_def
    proof (intro conjI allI impI)
      show "length ns' = length (supers P)" by (simp add: ns'_def len)
      fix k
      assume "k < length ns'"
      then have k: "k < length ns" by (simp add: ns'_def)
      have nth: "ns' ! k = (if k = j then add_conflict (sb_representative (supers P ! i)) (ns ! k)
          else if k = i then add_conflict (sb_representative (supers P ! j)) (ns ! k) else ns ! k)"
        using assms(2,3) len k by (auto simp: ns'_def nth_list_update)
      show "(ns' ! k)\<lparr>node_conflicts := []\<rparr> = search_node p (supers P ! k)"
        using nodes [OF k] by (auto simp: nth add_conflict_def)
      show "set (node_conflicts (ns' ! k)) = {sb_representative (supers P ! l) | l.
          ((k, l) \<in> insert (i, j) ps \<or> (l, k) \<in> insert (i, j) ps) \<and> linked p P k l}"
        using conf [OF k] True linked_commute [of p P i j] assms(2)
        by (auto simp: nth add_conflict_def)
    qed
    ultimately show ?thesis by simp
  qed
qed

lemma linked_nodes_all:
  "linked_nodes p P (set (index_pairs (length (supers P))))
     (foldl (link_nodes p P) (map (search_node p) (supers P)) (index_pairs (length (supers P))))"
proof -
  have "linked_nodes p P (set pairs) (foldl (link_nodes p P) (map (search_node p) (supers P)) pairs)"
    if "\<forall>(i, j)\<in>set pairs. i < j \<and> j < length (supers P)" for pairs
    using that
  proof (induction pairs rule: rev_induct)
    case Nil
    then show ?case by (auto simp: linked_nodes_def search_node_def)
  next
    case (snoc pair pairs)
    obtain i j where "pair = (i, j)" by fastforce
    then show ?case using snoc linked_nodes_step [of p P "set pairs" _ i j] by auto
  qed
  from this [of "index_pairs (length (supers P))"] show ?thesis by (auto simp: set_index_pairs)
qed

section \<open>The built view\<close>

definition searchable :: "DsaProblem \<Rightarrow> bool" where
  "searchable p \<longleftrightarrow> prepare_errors (Prepare p) = [] \<and> \<not> flexible_pools (Prepare p)"

abbreviation built :: "DsaProblem \<Rightarrow> ReusePenaltySearchSpace" where
  "built p \<equiv> BuildReusePenaltySearchSpace p"

lemma not_searchable_built: "\<not> searchable p \<Longrightarrow> search_nodes (built p) = []"
  "\<not> searchable p \<Longrightarrow> hard_neighbors (built p) = []" "\<not> searchable p \<Longrightarrow> soft_neighbors (built p) = []"
  "\<not> searchable p \<Longrightarrow> soft_weights (built p) = []"
  by (auto simp: searchable_def BuildReusePenaltySearchSpace_def BuildPlacementSearchSpace_def Let_def)

lemma searchable_built:
  assumes "searchable p"
  defines "ns \<equiv> search_nodes (built p)"
  shows "well_formed p" "prepared_ok p (Prepare p)" "linked_nodes p (Prepare p) {(i, j). i < j \<and> j < length ns} ns"
    "hard_neighbors (built p) = map (conflict_neighbors (index_representatives ns)) ns"
    "soft_weights (built p) = foldl (add_soft_weight ns (index_node_members ns) (hard_neighbors (built p))) []
      (case cost_model p of None \<Rightarrow> [] | Some m \<Rightarrow> reuse_penalties m)"
    "soft_neighbors (built p) = foldl link_soft (replicate (length ns) []) (soft_weights (built p))"
    "node_by_buffer (built p) = index_node_members ns"
proof -
  have e: "prepare_errors (Prepare p) = []" "\<not> flexible_pools (Prepare p)" using assms by (auto simp: searchable_def)
  show "well_formed p" "prepared_ok p (Prepare p)" using Prepare_ok [OF e(1)] by auto
  let ?ns = "foldl (link_nodes p (Prepare p)) (map (search_node p) (supers (Prepare p)))
      (index_pairs (length (supers (Prepare p))))"
  have space: "BuildPlacementSearchSpace p = \<lparr>nodes = ?ns, space_errors = [], space_flexible_pools = False\<rparr>"
    using e by (simp add: BuildPlacementSearchSpace_def Let_def)
  have ns: "ns = ?ns"
    unfolding ns_def by (simp add: BuildReusePenaltySearchSpace_def space Let_def)
  note all = linked_nodes_all [of p "Prepare p"]
  then have "length ns = length (supers (Prepare p))" by (simp add: linked_nodes_def ns)
  with all show "linked_nodes p (Prepare p) {(i, j). i < j \<and> j < length ns} ns"
    by (simp add: ns set_index_pairs)
  have "built p = \<lparr>placement = BuildPlacementSearchSpace p, node_by_buffer = index_node_members ns,
      hard_neighbors = map (conflict_neighbors (index_representatives ns)) ns,
      soft_weights = foldl (add_soft_weight ns (index_node_members ns)
         (map (conflict_neighbors (index_representatives ns)) ns)) []
        (case cost_model p of None \<Rightarrow> [] | Some m \<Rightarrow> reuse_penalties m),
      soft_neighbors = foldl link_soft (replicate (length ns) []) (foldl (add_soft_weight ns (index_node_members ns)
         (map (conflict_neighbors (index_representatives ns)) ns)) []
        (case cost_model p of None \<Rightarrow> [] | Some m \<Rightarrow> reuse_penalties m))\<rparr>"
    unfolding BuildReusePenaltySearchSpace_def space Let_def ns by (simp split: option.splits)
  then show "hard_neighbors (built p) = map (conflict_neighbors (index_representatives ns)) ns"
    "soft_weights (built p) = foldl (add_soft_weight ns (index_node_members ns) (hard_neighbors (built p))) []
      (case cost_model p of None \<Rightarrow> [] | Some m \<Rightarrow> reuse_penalties m)"
    "soft_neighbors (built p) = foldl link_soft (replicate (length ns) []) (soft_weights (built p))"
    "node_by_buffer (built p) = index_node_members ns"
    by simp_all
qed

lemma built_node:
  assumes "i < node_count (built p)"
  shows "searchable p" "i < length (supers (Prepare p))" "is_class p (supers (Prepare p) ! i)"
    "node_representative (node_at (built p) i) = sb_representative (supers (Prepare p) ! i)"
    "node_size (node_at (built p) i) = sb_size (supers (Prepare p) ! i)"
    "node_alignment (node_at (built p) i) = sb_alignment (supers (Prepare p) ! i)"
    "node_pool (node_at (built p) i) = super_pool (supers (Prepare p) ! i)"
    "set (node_members (node_at (built p) i)) = member_ids p (supers (Prepare p) ! i)"
proof -
  show s: "searchable p" using assms not_searchable_built(1) by force
  note b = searchable_built [OF s]
  show l: "i < length (supers (Prepare p))" using b(3) assms by (simp add: linked_nodes_def)
  show "is_class p (supers (Prepare p) ! i)" by (rule prepared_okD(1) [OF b(2) l])
  have n: "(node_at (built p) i)\<lparr>node_conflicts := []\<rparr> = search_node p (supers (Prepare p) ! i)"
    using b(3) assms by (simp add: linked_nodes_def)
  note f = linked_node_fields [OF n]
  show "node_representative (node_at (built p) i) = sb_representative (supers (Prepare p) ! i)"
    "node_size (node_at (built p) i) = sb_size (supers (Prepare p) ! i)"
    "node_alignment (node_at (built p) i) = sb_alignment (supers (Prepare p) ! i)"
    "node_pool (node_at (built p) i) = super_pool (supers (Prepare p) ! i)" by (rule f)+
  show "set (node_members (node_at (built p) i)) = member_ids p (supers (Prepare p) ! i)"
    unfolding f(5) by (simp add: member_ids_def)
qed

lemma node_count_supers: "searchable p \<Longrightarrow> node_count (built p) = length (supers (Prepare p))"
  using searchable_built(3) [of p] by (simp add: linked_nodes_def)

lemma class_representative:
  assumes "well_formed p" "is_class p s"
  shows "sb_representative s \<in> member_ids p s"
proof -
  have "sb_representative s = Min (buf_id ` class_members p s)" using assms(2) by (simp add: is_class_def)
  then show ?thesis
    using is_class_alignment(4,5) [OF assms] Min_in [of "buf_id ` class_members p s"]
    by (simp add: member_ids_class)
qed

lemma built_representatives: "distinct (map node_representative (search_nodes (built p)))"
  unfolding distinct_conv_nth
proof (intro allI impI)
  fix i j
  assume "i < length (map node_representative (search_nodes (built p)))"
    "j < length (map node_representative (search_nodes (built p)))" and ne: "i \<noteq> j"
  then have ij: "i < node_count (built p)" "j < node_count (built p)" by simp_all
  note b = searchable_built(1,2) [OF built_node(1) [OF ij(1)]]
  have "sb_representative (supers (Prepare p) ! i) \<in> member_ids p (supers (Prepare p) ! i)"
    "sb_representative (supers (Prepare p) ! j) \<in> member_ids p (supers (Prepare p) ! j)"
    using class_representative [OF b(1) built_node(3)] ij by blast+
  moreover have "member_ids p (supers (Prepare p) ! i) \<inter> member_ids p (supers (Prepare p) ! j) = {}"
    by (rule prepared_okD(3) [OF b(2) built_node(2) [OF ij(1)] built_node(2) [OF ij(2)] ne])
  ultimately show "map node_representative (search_nodes (built p)) ! i \<noteq> map node_representative (search_nodes (built p)) ! j"
    using ij built_node(4) by auto
qed

lemma same_representative:
  "i < node_count (built p) \<Longrightarrow> j < node_count (built p) \<Longrightarrow>
   node_representative (node_at (built p) i) = node_representative (node_at (built p) j) \<Longrightarrow> i = j"
  using nth_eq_iff_index_eq [OF built_representatives, of i p j] by simp

lemma index_representatives_Some:
  assumes "distinct (map node_representative ns)"
  shows "index_representatives ns r = Some i \<longleftrightarrow> i < length ns \<and> node_representative (ns ! i) = r"
proof -
  have "distinct (map fst (zip (map node_representative ns) [0..<length ns]))" using assms by simp
  then have "index_representatives ns r = Some i \<longleftrightarrow> (r, i) \<in> set (zip (map node_representative ns) [0..<length ns])"
    by (simp add: index_representatives_def um_emplace_all_map_of)
  then show ?thesis by (auto simp: in_set_zip intro!: exI [of _ i])
qed

lemma set_conflict_neighbors:
  "set (conflict_neighbors by_rep node) = {i. \<exists>r\<in>set (node_conflicts node). by_rep r = Some i}"
proof -
  have "set (foldl (\<lambda>s r. case by_rep r of None \<Rightarrow> s | Some i \<Rightarrow> insort_insert i s) acc rs) =
      set acc \<union> {i. \<exists>r\<in>set rs. by_rep r = Some i}" for rs and acc :: "nat list"
    by (induction rs arbitrary: acc) (auto simp: set_insort_insert split: option.splits)
  then show ?thesis by (simp add: conflict_neighbors_def)
qed

lemma built_hard:
  assumes "i < node_count (built p)"
  shows "set (hard_neighbors (built p) ! i) = {j. j < node_count (built p) \<and> linked p (Prepare p) i j}"
proof -
  have s: "searchable p" by (rule built_node(1) [OF assms])
  note b = searchable_built [OF s]
  let ?ns = "search_nodes (built p)"
  have conf: "set (node_conflicts (?ns ! i)) = {sb_representative (supers (Prepare p) ! j) | j.
      ((i, j) \<in> {(i, j). i < j \<and> j < length ?ns} \<or> (j, i) \<in> {(i, j). i < j \<and> j < length ?ns}) \<and> linked p (Prepare p) i j}"
    using b(3) assms by (simp add: linked_nodes_def)
  have rep: "r \<in> set (node_conflicts (?ns ! i)) \<longleftrightarrow>
      (\<exists>j<node_count (built p). linked p (Prepare p) i j \<and> node_representative (?ns ! j) = r)" for r
  proof
    assume "r \<in> set (node_conflicts (?ns ! i))"
    then obtain j where "i < j \<and> j < length ?ns \<or> j < i \<and> i < length ?ns" "linked p (Prepare p) i j"
      "r = sb_representative (supers (Prepare p) ! j)" unfolding conf by auto
    then show "\<exists>j<node_count (built p). linked p (Prepare p) i j \<and> node_representative (?ns ! j) = r"
      using built_node(4) [of j p] by (intro exI [of _ j]) auto
  next
    assume "\<exists>j<node_count (built p). linked p (Prepare p) i j \<and> node_representative (?ns ! j) = r"
    then obtain j where j: "j < node_count (built p)" "linked p (Prepare p) i j"
      "r = sb_representative (supers (Prepare p) ! j)" using built_node(4) by auto
    then have "i < j \<and> j < length ?ns \<or> j < i \<and> i < length ?ns"
      using assms unfolding linked_def by auto
    then show "r \<in> set (node_conflicts (?ns ! i))" unfolding conf using j by blast
  qed
  have "set (hard_neighbors (built p) ! i) =
      {j. \<exists>r\<in>set (node_conflicts (?ns ! i)). index_representatives ?ns r = Some j}"
    using assms by (simp add: b(4) set_conflict_neighbors)
  also have "\<dots> = {j. j < node_count (built p) \<and> linked p (Prepare p) i j}"
  proof (intro set_eqI iffI)
    fix j
    assume "j \<in> {j. \<exists>r\<in>set (node_conflicts (?ns ! i)). index_representatives ?ns r = Some j}"
    then obtain k where "j < node_count (built p)" "k < node_count (built p)" "linked p (Prepare p) i k"
      "node_representative (?ns ! k) = node_representative (?ns ! j)"
      using rep index_representatives_Some [OF built_representatives] by auto
    then show "j \<in> {j. j < node_count (built p) \<and> linked p (Prepare p) i j}"
      using same_representative by auto
  next
    fix j
    assume "j \<in> {j. j < node_count (built p) \<and> linked p (Prepare p) i j}"
    then have j: "j < node_count (built p)" "linked p (Prepare p) i j" by simp_all
    then have "node_representative (?ns ! j) \<in> set (node_conflicts (?ns ! i))"
      "index_representatives ?ns (node_representative (?ns ! j)) = Some j"
      using rep index_representatives_Some [OF built_representatives] by auto
    then show "j \<in> {j. \<exists>r\<in>set (node_conflicts (?ns ! i)). index_representatives ?ns r = Some j}" by auto
  qed
  finally show ?thesis .
qed

section \<open>Soft weights\<close>

lemma built_member:
  "index_node_members (search_nodes (built p)) a = Some i \<longleftrightarrow>
   i < node_count (built p) \<and> a \<in> member_ids p (supers (Prepare p) ! i)"
proof -
  let ?ns = "search_nodes (built p)"
  let ?kvs = "concat (map (\<lambda>(i, n). map (\<lambda>m. (m, i)) (node_members n)) (zip [0..<length ?ns] ?ns))"
  have mem: "(a, i) \<in> set ?kvs \<longleftrightarrow> i < length ?ns \<and> a \<in> member_ids p (supers (Prepare p) ! i)" for a i
    using built_node(8) [of i p] by (auto simp: in_set_zip intro!: bexI [of _ "(i, ?ns ! i)"] exI [of _ i])
  have one: "i = j" if "(a, i) \<in> set ?kvs" "(a, j) \<in> set ?kvs" for i j
  proof (rule ccontr)
    assume ne: "i \<noteq> j"
    have ij: "i < node_count (built p)" "j < node_count (built p)" "a \<in> member_ids p (supers (Prepare p) ! i)"
      "a \<in> member_ids p (supers (Prepare p) ! j)" using that mem by simp_all
    have "member_ids p (supers (Prepare p) ! i) \<inter> member_ids p (supers (Prepare p) ! j) = {}"
      by (rule prepared_okD(3) [OF searchable_built(2) [OF built_node(1) [OF ij(1)]]
          built_node(2) [OF ij(1)] built_node(2) [OF ij(2)] ne])
    then show False using ij(3,4) by blast
  qed
  have "map_of ?kvs a = Some i \<longleftrightarrow> (a, i) \<in> set ?kvs"
  proof
    assume "(a, i) \<in> set ?kvs"
    then obtain j where "map_of ?kvs a = Some j" using weak_map_of_SomeI by metis
    then show "map_of ?kvs a = Some i" using one map_of_SomeD \<open>(a, i) \<in> set ?kvs\<close> by metis
  qed (rule map_of_SomeD)
  then show ?thesis unfolding mem index_node_members_def um_emplace_all_map_of .
qed

definition soft_pair_ok :: "ReusePenaltySearchSpace \<Rightarrow> ReuseNodePair \<Rightarrow> bool" where
  "soft_pair_ok search pair \<longleftrightarrow>
     (case pair of (i, j) \<Rightarrow> i < j \<and> j < node_count search \<and>
        node_pool (node_at search i) = node_pool (node_at search j) \<and> j \<notin> set (hard_neighbors search ! i))"

lemma add_soft_weight_ok:
  fixes k :: ReusePenalty
  assumes "om_ok m" "\<forall>x\<in>set m. soft_pair_ok (built p) (fst x)"
  defines "m' \<equiv> add_soft_weight (search_nodes (built p)) (index_node_members (search_nodes (built p)))
    (hard_neighbors (built p)) m k"
  shows "om_ok m' \<and> (\<forall>x\<in>set m'. soft_pair_ok (built p) (fst x))"
proof -
  have sym: "j \<in> set (hard_neighbors (built p) ! i) \<longleftrightarrow> i \<in> set (hard_neighbors (built p) ! j)"
    if "i < node_count (built p)" "j < node_count (built p)" for i j
    using that linked_commute by (simp add: built_hard)
  have keys: "fst ` set (om_put q v m) = insert q (fst ` set m)" for q v by (rule fst_om_put)
  show ?thesis
    using assms(1,2) sym
    by (auto simp: m'_def add_soft_weight_def Let_def built_member CanonicalNodePair_def soft_pair_ok_def
        split: option.splits dest!: keys [THEN equalityD1, THEN subsetD, OF imageI])
qed

lemma built_soft_weights:
  "om_ok (soft_weights (built p)) \<and> (\<forall>x\<in>set (soft_weights (built p)). soft_pair_ok (built p) (fst x))"
proof (cases "searchable p")
  case True
  define add where "add = add_soft_weight (search_nodes (built p)) (index_node_members (search_nodes (built p)))
      (hard_neighbors (built p))"
  have step: "om_ok (add m k) \<and> (\<forall>x\<in>set (add m k). soft_pair_ok (built p) (fst x))"
    if "om_ok m" "\<forall>x\<in>set m. soft_pair_ok (built p) (fst x)" for m k
    using add_soft_weight_ok [OF that] by (simp add: add_def)
  have "om_ok (foldl add m ks) \<and> (\<forall>x\<in>set (foldl add m ks). soft_pair_ok (built p) (fst x))"
    if "om_ok m" "\<forall>x\<in>set m. soft_pair_ok (built p) (fst x)" for m ks
    using that
  proof (induction ks arbitrary: m)
    case (Cons k ks)
    from Cons.IH [of "add m k"] step [OF Cons.prems] show ?case by simp
  qed simp
  from this [of "[]"] show ?thesis unfolding searchable_built(5) [OF True] add_def [symmetric] by simp
qed (simp add: not_searchable_built)

lemma link_soft_neighbors:
  assumes "\<forall>((i, j), w)\<in>set ws. i < j \<and> j < length adj" "k < length adj"
  shows "foldl link_soft adj ws ! k = adj ! k @ concat (map (soft_links k) ws)"
    "length (foldl link_soft adj ws) = length adj"
proof -
  have "length (foldl link_soft adj ws) = length adj \<and>
    foldl link_soft adj ws ! k = adj ! k @ concat (map (soft_links k) ws)"
    using assms
  proof (induction ws arbitrary: adj)
    case (Cons x ws)
    obtain i j w where x: "x = ((i, j), w)" by (metis prod.exhaust)
    have ij: "i < j" "j < length adj" using Cons.prems(1) x by auto
    have "link_soft adj x ! k = adj ! k @ soft_links k x" "length (link_soft adj x) = length adj"
      using ij Cons.prems(2) by (auto simp: x link_soft_def soft_links_def Let_def nth_list_update)
    then show ?case using Cons.IH [of "link_soft adj x"] Cons.prems by simp
  qed simp
  then show "foldl link_soft adj ws ! k = adj ! k @ concat (map (soft_links k) ws)"
    "length (foldl link_soft adj ws) = length adj" by blast+
qed

lemma length_link_soft: "length (foldl link_soft adj ws) = length adj"
  by (induction ws arbitrary: adj) (auto simp: link_soft_def Let_def split: prod.splits)

interpretation built: search_space p "built p" for p
proof unfold_locales
  fix i
  assume i: "i < node_count (built p)"
  note b = searchable_built [OF built_node(1) [OF i]] and n = built_node [OF i]
  obtain c where c: "c \<in> class_members p (supers (Prepare p) ! i)"
    using is_class_alignment(4) [OF b(1) n(3)] by blast
  then have cb: "c \<in> set (buffers p)" using is_class_alignment(3) [OF b(1) n(3)] by blast
  show "node_size (node_at (built p) i) \<noteq> 0"
    unfolding n(5) is_class_extent [OF n(3) c] by (rule class_extent_pos(1) [OF b(1) cb])
  show "node_alignment (node_at (built p) i) \<noteq> 0"
    unfolding n(6) by (rule is_class_alignment(1) [OF b(1) n(3)])
  show "soft_neighbors (built p) ! i = concat (map (soft_links i) (soft_weights (built p)))"
    unfolding b(6)
    by (subst link_soft_neighbors(1)) (use built_soft_weights [of p] i in \<open>auto simp: soft_pair_ok_def\<close>)
next
  fix i j
  assume i: "i < node_count (built p)" and j: "j \<in> set (hard_neighbors (built p) ! i)"
  show less: "j < node_count (built p) \<and> j \<noteq> i" using j built_hard [OF i] by (auto simp: linked_def)
  show "i \<in> set (hard_neighbors (built p) ! j)"
    using j i less linked_commute by (simp add: built_hard)
next
  fix i pool r
  assume i: "i < node_count (built p)" and "FindPool p (node_pool (node_at (built p) i)) = Some pool"
    and r: "r \<in> set (reserved_ranges pool)"
  then have "pool \<in> set (pools p)" using FindPool_SomeD by blast
  then have "wf_pool pool" using well_formedD(3) [OF searchable_built(1) [OF built_node(1) [OF i]]] by blast
  then show "range_begin r < range_end r" using r by (simp add: wf_pool_def)
next
  fix i j w
  assume "((i, j), w) \<in> set (soft_weights (built p))"
  then show "i < j \<and> j < node_count (built p) \<and> node_pool (node_at (built p) i) = node_pool (node_at (built p) j)"
    using built_soft_weights [of p] by (auto simp: soft_pair_ok_def)
next
  show "length (hard_neighbors (built p)) = node_count (built p)"
    by (cases "searchable p") (simp_all add: searchable_built(4) not_searchable_built)
  show "length (soft_neighbors (built p)) = node_count (built p)"
    by (cases "searchable p") (simp_all add: searchable_built(6) not_searchable_built length_link_soft)
qed (rule built_representatives)

end
