(* ===== verification/Canonical_Spec.thy ===== *)
theory Canonical_Spec
  imports Search_Space Canonical_Search
begin

text \<open>
  Correctness of the canonical branch and bound of one pool. A vector of node offsets is legal when
  every node is aligned and fits beside all others. Pushing a node down to its highest support keeps
  a vector legal and raises neither cost nor peak (\<open>supported_below\<close>), so some best vector is
  supported at every node; the search reaches every supported vector that its bound does not prune.
\<close>

section \<open>Legal offset vectors\<close>

definition mark :: "nat \<Rightarrow> nat set \<Rightarrow> bool list" where
  "mark n D = map (\<lambda>i. i \<in> D) [0..<n]"

lemma mark_nth [simp]: "i < n \<Longrightarrow> mark n D ! i \<longleftrightarrow> i \<in> D"
  by (simp add: mark_def)

lemma length_mark [simp]: "length (mark n D) = n"
  by (simp add: mark_def)

lemma mark_update: "v < n \<Longrightarrow> (mark n D)[v := b] = mark n (if b then insert v D else D - {v})"
  by (rule nth_equalityI) (auto simp: mark_def nth_list_update)

definition pool_fits :: "DsaProblem \<Rightarrow> ReusePenaltySearchSpace \<Rightarrow> nat \<Rightarrow> u64 \<Rightarrow> bool" where
  "pool_fits p search i w \<longleftrightarrow>
     \<not> AddOverflows w (node_size (node_at search i)) \<and>
     (\<exists>pool. FindPool p (node_pool (node_at search i)) = Some pool \<and>
        \<not> exceeds (w + node_size (node_at search i)) (capacity pool) \<and>
        (\<forall>r\<in>set (reserved_ranges pool). \<not> AddressRangesOverlap w (node_size (node_at search i))
           (range_begin r) (range_end r - range_begin r)))"

definition overlap :: "ReusePenaltySearchSpace \<Rightarrow> nat \<Rightarrow> u64 \<Rightarrow> nat \<Rightarrow> u64 \<Rightarrow> bool" where
  "overlap search i w j w' \<longleftrightarrow>
     AddressRangesOverlap w (node_size (node_at search i)) w' (node_size (node_at search j))"

lemma overlap_commute: "overlap search i w j w' = overlap search j w' i w"
  by (simp add: overlap_def AddressRangesOverlap_commute)

definition legal :: "DsaProblem \<Rightarrow> ReusePenaltySearchSpace \<Rightarrow> nat set \<Rightarrow> u64 list \<Rightarrow> bool" where
  "legal p search D A \<longleftrightarrow>
     length A = node_count search \<and>
     (\<forall>i\<in>D. aligned_to (node_alignment (node_at search i)) (A ! i) \<and>
        FitsReuseNodeAt p search (mark (node_count search) D) A i (A ! i))"

definition one_pool :: "ReusePenaltySearchSpace \<Rightarrow> PoolId \<Rightarrow> nat set \<Rightarrow> bool" where
  "one_pool search pool D \<longleftrightarrow> (\<forall>i\<in>D. i < node_count search \<and> node_pool (node_at search i) = pool)"

text \<open>The cost of a set of nodes, and its highest byte.\<close>

definition entry_cost :: "ReusePenaltySearchSpace \<Rightarrow> nat set \<Rightarrow> u64 list \<Rightarrow> ReuseNodePair \<times> u64 \<Rightarrow> nat" where
  "entry_cost search D A entry =
     (case entry of ((i, j), w) \<Rightarrow>
        if i \<in> D \<and> j \<in> D \<and> overlap search i (A ! i) j (A ! j) then unat w else 0)"

definition soft_cost :: "ReusePenaltySearchSpace \<Rightarrow> nat set \<Rightarrow> u64 list \<Rightarrow> nat" where
  "soft_cost search D A = (\<Sum>entry\<leftarrow>soft_weights search. entry_cost search D A entry)"

definition pool_top :: "ReusePenaltySearchSpace \<Rightarrow> u64 \<Rightarrow> nat set \<Rightarrow> u64 list \<Rightarrow> u64" where
  "pool_top search base D A = Max (insert base ((\<lambda>i. A ! i + node_size (node_at search i)) ` D))"

definition saturated :: "nat \<Rightarrow> u64" where
  "saturated n = of_nat (min n 18446744073709551615)"

lemma unat_saturated: "unat (saturated n) = min n 18446744073709551615"
  by (simp add: saturated_def unat_of_nat)

lemma saturated_add: "SaturatingAdd (saturated a) (saturated b) = saturated (a + b)"
  by (simp add: word_unat_eq_iff unat_SaturatingAdd unat_saturated)

lemma saturated_word: "SaturatingAdd (saturated a) w = saturated (a + unat w)"
  by (simp add: word_unat_eq_iff unat_SaturatingAdd unat_saturated)

lemma saturated_0 [simp]: "saturated 0 = 0"
  by (simp add: saturated_def)

lemma saturated_mono: "a \<le> b \<Longrightarrow> saturated a \<le> saturated b"
  by (simp add: word_le_nat_alt unat_saturated)

definition vector_score :: "DsaProblem \<Rightarrow> ReusePenaltySearchSpace \<Rightarrow> PoolId \<Rightarrow> nat set \<Rightarrow> u64 list \<Rightarrow> Score" where
  "vector_score p search pool D A =
     PoolScore p (saturated (soft_cost search D A)) (pool_top search (ReservedPeak p pool) D A)"

lemma metric_score_mono: "c \<le> c' \<Longrightarrow> k \<le> k' \<Longrightarrow> metric_score c k m \<le> metric_score c' k' m"
  by (cases m) simp_all

lemma PoolScore_mono:
  assumes "c \<le> c'" "k \<le> k'"
  shows "PoolScore p c k \<le> PoolScore p c' k'"
proof -
  have "map (metric_score c k) ms \<le> map (metric_score c' k') ms" for ms
    using metric_score_mono [OF assms] by (induction ms) (auto simp: less_le)
  then show ?thesis by (simp add: PoolScore_def)
qed

text \<open>A node is supported when its offset is a canonical candidate of the nodes before it.\<close>

definition offset_key :: "ReusePenaltySearchSpace \<Rightarrow> u64 list \<Rightarrow> nat \<Rightarrow> u64 \<times> BufferId" where
  "offset_key search A i = (A ! i, node_representative (node_at search i))"

definition earlier :: "ReusePenaltySearchSpace \<Rightarrow> nat set \<Rightarrow> u64 list \<Rightarrow> nat \<Rightarrow> nat set" where
  "earlier search D A i = {j\<in>D. offset_key search A j < offset_key search A i}"

definition supported :: "DsaProblem \<Rightarrow> ReusePenaltySearchSpace \<Rightarrow> nat set \<Rightarrow> u64 list \<Rightarrow> nat \<Rightarrow> bool" where
  "supported p search D A i \<longleftrightarrow>
     (\<exists>c\<in>set (canonical_candidates p search (mark (node_count search) (earlier search D A i)) A i True).
        AlignUp c (node_alignment (node_at search i)) = Some (A ! i))"

section \<open>Facts about one search space\<close>

context search_space
begin

abbreviation "N \<equiv> node_count search"
abbreviation "sz i \<equiv> node_size (node_at search i)"
abbreviation "al i \<equiv> node_alignment (node_at search i)"

lemma fits_iff:
  assumes "v < N"
  shows "FitsReuseNodeAt p search (mark N D) A v w \<longleftrightarrow>
    pool_fits p search v w \<and>
    (\<forall>j\<in>set (hard_neighbors search ! v). j \<in> D \<longrightarrow>
       node_pool (node_at search j) = node_pool (node_at search v) \<longrightarrow> \<not> overlap search v w j (A ! j))"
proof -
  have "\<And>j. j \<in> set (hard_neighbors search ! v) \<Longrightarrow> mark N D ! j \<longleftrightarrow> j \<in> D"
    using hard_less [OF assms] by simp
  then show ?thesis
    by (auto simp: FitsReuseNodeAt_def pool_fits_def overlap_def Let_def list_ex_iff split: option.splits)
qed

lemma legalD:
  assumes "legal p search D A" "i \<in> D" "i < N"
  shows "aligned_to (al i) (A ! i)" "pool_fits p search i (A ! i)"
    "j \<in> set (hard_neighbors search ! i) \<Longrightarrow> j \<in> D \<Longrightarrow>
      node_pool (node_at search j) = node_pool (node_at search i) \<Longrightarrow> \<not> overlap search i (A ! i) j (A ! j)"
  using assms fits_iff [OF assms(3)] by (auto simp: legal_def)

lemma legalI:
  assumes "length A = N" "\<forall>i\<in>D. i < N"
    and "\<And>i. i \<in> D \<Longrightarrow> aligned_to (al i) (A ! i) \<and> pool_fits p search i (A ! i)"
    and "\<And>i j. i \<in> D \<Longrightarrow> j \<in> D \<Longrightarrow> j \<in> set (hard_neighbors search ! i) \<Longrightarrow>
      node_pool (node_at search j) = node_pool (node_at search i) \<Longrightarrow> \<not> overlap search i (A ! i) j (A ! j)"
  shows "legal p search D A"
  unfolding legal_def using assms fits_iff by blast

lemma pool_fits_no_overflow: "pool_fits p search i w \<Longrightarrow> \<not> AddOverflows w (sz i)"
  by (simp add: pool_fits_def)

lemma overlap_unat:
  assumes "i < N" "j < N" "\<not> AddOverflows w (sz i)" "\<not> AddOverflows w' (sz j)"
  shows "overlap search i w j w' \<longleftrightarrow> unat w < unat w' + unat (sz j) \<and> unat w' < unat w + unat (sz i)"
  using assms node_size_pos
  by (simp add: overlap_def AddressRangesOverlap_def word_less_nat_alt unat_plus_no_overflow)

lemma soft_neighborE:
  assumes "((a, b), w) \<in> set (soft_weights search)"
  shows "(b, w) \<in> set (soft_neighbors search ! a)" "(a, w) \<in> set (soft_neighbors search ! b)"
    "a < N" "b < N" "a \<noteq> b"
proof -
  show ab: "a < N" "b < N" "a \<noteq> b" using soft_pair [OF assms] by auto
  have "(b, w) \<in> set (soft_links a ((a, b), w))" "(a, w) \<in> set (soft_links b ((a, b), w))"
    using ab(3) by (simp_all add: soft_links_def)
  then show "(b, w) \<in> set (soft_neighbors search ! a)" "(a, w) \<in> set (soft_neighbors search ! b)"
    unfolding soft_neighbor [OF ab(1)] soft_neighbor [OF ab(2)] set_concat set_map using assms by blast+
qed

lemma soft_neighborD:
  assumes "i < N" "(j, w) \<in> set (soft_neighbors search ! i)"
  shows "((i, j), w) \<in> set (soft_weights search) \<or> ((j, i), w) \<in> set (soft_weights search)"
proof -
  obtain entry where e: "entry \<in> set (soft_weights search)" "(j, w) \<in> set (soft_links i entry)"
    using assms(2) unfolding soft_neighbor [OF assms(1)] by auto
  obtain a b v where "entry = ((a, b), v)" by (metis prod.exhaust)
  then show ?thesis using e by (auto simp: soft_links_def split: if_splits)
qed

lemma soft_neighbor_less: "i < N \<Longrightarrow> (j, w) \<in> set (soft_neighbors search ! i) \<Longrightarrow> j < N \<and> j \<noteq> i"
  using soft_neighborD soft_pair by fastforce

text \<open>The candidates of a node, as a set.\<close>

lemma set_candidates:
  assumes "i < N"
  shows "c \<in> set (canonical_candidates p search (mark N D) A i True) \<longleftrightarrow>
    c = 0 \<or> (\<exists>pool. FindPool p (node_pool (node_at search i)) = Some pool \<and> c \<in> range_end ` set (reserved_ranges pool)) \<or>
    (\<exists>j. (j \<in> set (hard_neighbors search ! i) \<or> j \<in> fst ` set (soft_neighbors search ! i)) \<and> j \<in> D \<and>
       \<not> AddOverflows (A ! j) (sz j) \<and> c = A ! j + sz j)"
proof -
  have less: "j < N" if "j \<in> set (hard_neighbors search ! i) \<or> j \<in> fst ` set (soft_neighbors search ! i)" for j
    using that hard_less [OF assms] soft_neighbor_less [OF assms] by auto
  have top: "c \<in> set (support_top search (mark N D) A j) \<longleftrightarrow> j \<in> D \<and> \<not> AddOverflows (A ! j) (sz j) \<and> c = A ! j + sz j"
    if "j < N" for j
    using that by (auto simp: support_top_def)
  have "c \<in> (\<Union>j\<in>set (hard_neighbors search ! i). set (support_top search (mark N D) A j)) \<union>
      (\<Union>x\<in>set (soft_neighbors search ! i). set (support_top search (mark N D) A (fst x))) \<longleftrightarrow>
    (\<exists>j. (j \<in> set (hard_neighbors search ! i) \<or> j \<in> fst ` set (soft_neighbors search ! i)) \<and> j \<in> D \<and>
       \<not> AddOverflows (A ! j) (sz j) \<and> c = A ! j + sz j)"
    using top less by blast
  then show ?thesis
    by (cases "FindPool p (node_pool (node_at search i))") (auto simp: canonical_candidates_def split_beta)
qed

section \<open>Lowering a node onto its highest support\<close>

text \<open>All supports of a node below its offset, aligned; zero is always one of them.\<close>

definition supports :: "nat set \<Rightarrow> u64 list \<Rightarrow> nat \<Rightarrow> u64 set" where
  "supports D A i =
     {w. w \<le> A ! i \<and> (\<exists>c\<in>set (canonical_candidates p search (mark N D) A i True). AlignUp c (al i) = Some w)}"

lemma supports_zero: "i < N \<Longrightarrow> 0 \<in> supports D A i"
  using set_candidates [of i 0 D A] by (auto simp: supports_def intro!: bexI [of _ 0])

lemma finite_supports: "finite (supports D A i)"
proof -
  have "supports D A i \<subseteq> (\<lambda>c. the (AlignUp c (al i))) ` set (canonical_candidates p search (mark N D) A i True)"
    by (force simp: supports_def)
  then show ?thesis by (rule finite_subset) simp
qed

lemma Max_supports: "i < N \<Longrightarrow> Max (supports D A i) \<in> supports D A i"
  using Max_in [OF finite_supports [of D A i]] supports_zero [of i D A] by blast

lemma lowered_supported:
  assumes i: "i < N" "i \<in> D" and D: "\<forall>j\<in>D. j < N" and max: "Max (supports D A i) = A ! i"
  shows "supported p search D A i"
proof -
  have "A ! i \<in> supports D A i" using Max_supports [OF i(1)] max by metis
  then obtain c where c: "c \<in> set (canonical_candidates p search (mark N D) A i True)"
    "AlignUp c (al i) = Some (A ! i)" by (auto simp: supports_def)
  have le: "c \<le> A ! i" by (rule AlignUp_Some(2) [OF node_alignment_pos [OF i(1)] c(2)])
  have "j \<in> earlier search D A i" if j: "j \<in> D" "\<not> AddOverflows (A ! j) (sz j)" "c = A ! j + sz j" for j
  proof -
    have "unat (A ! j) < unat c"
      using j(2,3) node_size_pos [of j] D j(1) by (simp add: unat_plus_no_overflow unat_gt_0)
    then have "A ! j < A ! i" using le by (simp add: word_less_nat_alt word_le_nat_alt)
    then show ?thesis using j(1) by (simp add: earlier_def offset_key_def)
  qed
  then have "c \<in> set (canonical_candidates p search (mark N (earlier search D A i)) A i True)"
    using c(1) unfolding set_candidates [OF i(1)] by blast
  then show ?thesis using c(2) unfolding supported_def by blast
qed

text \<open>Below the old offset and not below any support: nothing new is touched.\<close>

lemma lowered_overlap:
  assumes i: "i < N" "i \<in> D" "aligned_to (al i) (A ! i)" "\<not> AddOverflows (A ! i) (sz i)"
    and j: "j < N" "j \<in> D" "\<not> AddOverflows (A ! j) (sz j)"
      "j \<in> set (hard_neighbors search ! i) \<or> j \<in> fst ` set (soft_neighbors search ! i)"
    and w: "w = Max (supports D A i)" and over: "overlap search i w j (A ! j)"
  shows "overlap search i (A ! i) j (A ! j)"
proof -
  have w_in: "w \<in> supports D A i" unfolding w by (rule Max_supports [OF i(1)])
  then have "w \<le> A ! i" by (simp add: supports_def)
  then have le: "unat w \<le> unat (A ! i)" by (simp add: word_le_nat_alt)
  then have now: "\<not> AddOverflows w (sz i)" using i(4) by (simp add: AddOverflows_less)
  have touch: "unat w < unat (A ! j) + unat (sz j)" "unat (A ! j) < unat w + unat (sz i)"
    using over overlap_unat [OF i(1) j(1) now j(3)] by auto
  have "\<not> A ! j + sz j \<le> A ! i"
  proof
    assume top: "A ! j + sz j \<le> A ! i"
    have cand: "A ! j + sz j \<in> set (canonical_candidates p search (mark N D) A i True)"
      unfolding set_candidates [OF i(1)] using j by blast
    obtain u where u: "AlignUp (A ! j + sz j) (al i) = Some u"
      using AlignUp_None [OF node_alignment_pos [OF i(1)] _ i(3)] top by (cases "AlignUp (A ! j + sz j) (al i)") auto
    have "A ! j + sz j \<le> u" "u \<le> A ! i"
      using AlignUp_Some [OF node_alignment_pos [OF i(1)] u] i(3) top by blast+
    then have "u \<in> supports D A i" using cand u by (auto simp: supports_def)
    then have "u \<le> w" unfolding w by (rule Max_ge [OF finite_supports])
    then have "unat (A ! j + sz j) \<le> unat w" using \<open>A ! j + sz j \<le> u\<close> by (simp add: word_le_nat_alt)
    then show False using touch(1) j(3) by (simp add: unat_plus_no_overflow)
  qed
  then have "unat (A ! i) < unat (A ! j) + unat (sz j)"
    using j(3) by (simp add: word_le_nat_alt unat_plus_no_overflow)
  then show ?thesis using overlap_unat [OF i(1) j(1) i(4) j(3)] touch(2) le by simp
qed

lemma lowered_pool_fits:
  assumes i: "i < N" "i \<in> D" "aligned_to (al i) (A ! i)" "pool_fits p search i (A ! i)"
    and w: "w = Max (supports D A i)"
  shows "pool_fits p search i w"
proof -
  have w_in: "w \<in> supports D A i" unfolding w by (rule Max_supports [OF i(1)])
  then have "w \<le> A ! i" by (simp add: supports_def)
  then have le: "unat w \<le> unat (A ! i)" by (simp add: word_le_nat_alt)
  obtain pool where pool: "FindPool p (node_pool (node_at search i)) = Some pool"
    "\<not> exceeds (A ! i + sz i) (capacity pool)" "\<not> AddOverflows (A ! i) (sz i)"
    "\<forall>r\<in>set (reserved_ranges pool). \<not> AddressRangesOverlap (A ! i) (sz i) (range_begin r) (range_end r - range_begin r)"
    using i(4) by (auto simp: pool_fits_def)
  have now: "\<not> AddOverflows w (sz i)" using pool(3) le by (simp add: AddOverflows_less)
  have top: "w + sz i \<le> A ! i + sz i"
    using pool(3) now le by (simp add: word_le_nat_alt unat_plus_no_overflow)
  have "\<not> AddressRangesOverlap w (sz i) (range_begin r) (range_end r - range_begin r)"
    if r: "r \<in> set (reserved_ranges pool)" for r
  proof
    assume over: "AddressRangesOverlap w (sz i) (range_begin r) (range_end r - range_begin r)"
    have be: "range_begin r < range_end r" by (rule reserved [OF i(1) pool(1) r])
    have clash: "AddressRangesOverlap u (sz i) (range_begin r) (range_end r - range_begin r) \<longleftrightarrow>
        unat u < unat (range_end r) \<and> unat (range_begin r) < unat u + unat (sz i)"
      if "\<not> AddOverflows u (sz i)" for u
    proof -
      have "unat (range_end r - range_begin r) = unat (range_end r) - unat (range_begin r)"
        using be by (intro unat_sub) simp
      moreover have "range_end r - range_begin r \<noteq> 0" using be by auto
      ultimately have sub: "range_end r - range_begin r \<noteq> 0" "\<not> AddOverflows (range_begin r) (range_end r - range_begin r)"
        "range_begin r + (range_end r - range_begin r) = range_end r"
        using be unat_u64_bound [of "range_end r"]
        by (simp_all add: AddOverflows_less word_less_nat_alt unat_gt_0)
      then show ?thesis
        using that node_size_pos [OF i(1)]
        by (simp add: AddressRangesOverlap_def word_less_nat_alt unat_plus_no_overflow)
    qed
    have "\<not> range_end r \<le> A ! i"
    proof
      assume top: "range_end r \<le> A ! i"
      have cand: "range_end r \<in> set (canonical_candidates p search (mark N D) A i True)"
        unfolding set_candidates [OF i(1)] using r pool(1) by blast
      obtain u where u: "AlignUp (range_end r) (al i) = Some u"
        using AlignUp_None [OF node_alignment_pos [OF i(1)] _ i(3)] top by (cases "AlignUp (range_end r) (al i)") auto
      have "range_end r \<le> u" "u \<le> A ! i"
        using AlignUp_Some [OF node_alignment_pos [OF i(1)] u] i(3) top by blast+
      then have "u \<in> supports D A i" using cand u by (auto simp: supports_def)
      then have "u \<le> w" unfolding w by (rule Max_ge [OF finite_supports])
      then show False using over clash [OF now] \<open>range_end r \<le> u\<close> by (simp add: word_le_nat_alt)
    qed
    then have "AddressRangesOverlap (A ! i) (sz i) (range_begin r) (range_end r - range_begin r)"
      using over clash [OF now] clash [OF pool(3)] le by (simp add: word_le_nat_alt)
    then show False using pool(4) r by blast
  qed
  then show ?thesis
    using pool(1,2) now top by (auto simp: pool_fits_def)
qed

lemma lowered:
  assumes D: "one_pool search pool D" and legal: "legal p search D A" and i: "i \<in> D"
    and un: "\<not> supported p search D A i"
  defines "w \<equiv> Max (supports D A i)"
  shows "legal p search D (A[i := w])" "soft_cost search D (A[i := w]) \<le> soft_cost search D A"
    "pool_top search base D (A[i := w]) \<le> pool_top search base D A" "w < A ! i"
proof -
  have less: "\<forall>j\<in>D. j < N" and same: "\<And>j k. j \<in> D \<Longrightarrow> k \<in> D \<Longrightarrow> node_pool (node_at search j) = node_pool (node_at search k)"
    using D by (auto simp: one_pool_def)
  have len: "length A = N" using legal by (simp add: legal_def)
  have iN: "i < N" using less i by blast
  note leg = legalD [OF legal]
  have nov: "\<not> AddOverflows (A ! j) (sz j)" if "j \<in> D" for j
    using leg(2) [OF that] less that pool_fits_no_overflow by blast
  have w_in: "w \<in> supports D A i" unfolding w_def by (rule Max_supports [OF iN])
  have "w \<noteq> A ! i" using lowered_supported [OF iN i less] un by (auto simp: w_def)
  then show lt: "w < A ! i" using w_in by (auto simp: supports_def)
  have nth: "A[i := w] ! j = (if j = i then w else A ! j)" if "j \<in> D" for j
    using that less len by (auto simp: nth_list_update)
  have over: "overlap search i (A ! i) j (A ! j)"
    if "j \<in> D" "j \<in> set (hard_neighbors search ! i) \<or> j \<in> fst ` set (soft_neighbors search ! i)"
      "overlap search i w j (A ! j)" for j
    by (rule lowered_overlap [OF iN i leg(1) [OF i iN] nov [OF i] _ that(1) nov [OF that(1)] that(2) w_def [THEN meta_eq_to_obj_eq] that(3)])
      (use less that(1) in blast)
  have fits: "pool_fits p search i w"
    by (rule lowered_pool_fits [OF iN i leg(1) [OF i iN] leg(2) [OF i iN] w_def [THEN meta_eq_to_obj_eq]])
  show "legal p search D (A[i := w])"
  proof (rule legalI)
    fix k
    assume k: "k \<in> D"
    have "aligned_to (al i) w"
      using w_in AlignUp_Some(1) [OF node_alignment_pos [OF iN]] by (auto simp: supports_def)
    then show "aligned_to (al k) (A[i := w] ! k) \<and> pool_fits p search k (A[i := w] ! k)"
      using leg(1,2) [OF k] less k fits nth [OF k] by auto
  next
    fix k j
    assume kj: "k \<in> D" "j \<in> D" "j \<in> set (hard_neighbors search ! k)"
    have kN: "k < N" and jk: "j \<noteq> k" using less kj hard_less by blast+
    have "\<not> overlap search k (A ! k) j (A ! j)" by (rule leg(3) [OF kj(1) kN kj(3,2) same [OF kj(2,1)]])
    moreover have "k \<in> set (hard_neighbors search ! j)" by (rule hard_sym [OF kN kj(3)])
    ultimately show "\<not> overlap search k (A[i := w] ! k) j (A[i := w] ! j)"
      using over [of j] over [of k] kj jk overlap_commute by (auto simp: nth)
  qed (use len less in auto)
  show "soft_cost search D (A[i := w]) \<le> soft_cost search D A"
    unfolding soft_cost_def
  proof (rule sum_list_mono)
    fix entry
    assume e: "entry \<in> set (soft_weights search)"
    obtain a b v where ab: "entry = ((a, b), v)" by (metis prod.exhaust)
    note nb = soft_neighborE [OF e [unfolded ab]]
    have "overlap search a (A ! a) b (A ! b)"
      if "a \<in> D" "b \<in> D" "overlap search a (A[i := w] ! a) b (A[i := w] ! b)"
    proof -
      have "b \<in> fst ` set (soft_neighbors search ! a)" "a \<in> fst ` set (soft_neighbors search ! b)"
        using nb(1,2) by force+
      then show ?thesis
        using that over [of a] over [of b] nb(5) overlap_commute by (auto simp: nth split: if_splits)
    qed
    then show "entry_cost search D (A[i := w]) entry \<le> entry_cost search D A entry"
      by (auto simp: entry_cost_def ab)
  qed
  have fin: "finite D" using less by (meson finite_nat_set_iff_bounded)
  have "A[i := w] ! j + sz j \<le> A ! j + sz j" if "j \<in> D" for j
    using nov [OF that] pool_fits_no_overflow [OF fits] lt
    by (auto simp: nth [OF that] word_le_nat_alt word_less_nat_alt unat_plus_no_overflow)
  then show "pool_top search base D (A[i := w]) \<le> pool_top search base D A"
    unfolding pool_top_def using fin
    by (intro Max.boundedI) (auto intro: order_trans [OF _ Max_ge])
qed

text \<open>A vector with least sum of offsets below a legal one is supported everywhere.\<close>

lemma supported_below:
  assumes D: "one_pool search pool D" and "legal p search D A"
  shows "\<exists>B. legal p search D B \<and> (\<forall>i\<in>D. supported p search D B i) \<and>
    soft_cost search D B \<le> soft_cost search D A \<and> pool_top search base D B \<le> pool_top search base D A"
  using assms(2)
proof (induction "\<Sum>i\<in>D. unat (A ! i)" arbitrary: A rule: less_induct)
  case less
  show ?case
  proof (cases "\<forall>i\<in>D. supported p search D A i")
    case False
    then obtain i where i: "i \<in> D" "\<not> supported p search D A i" by blast
    define w where "w = Max (supports D A i)"
    note low = lowered [OF D less.prems i, folded w_def]
    have fin: "finite D" using D by (auto simp: one_pool_def intro: finite_subset [of D "{..<N}"])
    have len: "length A = N" using less.prems by (simp add: legal_def)
    have iN: "i < length A" using D i(1) len by (auto simp: one_pool_def)
    have "(\<Sum>j\<in>D. unat (A[i := w] ! j)) < (\<Sum>j\<in>D. unat (A ! j))"
    proof (rule sum_strict_mono_ex1 [OF fin])
      show "\<forall>j\<in>D. unat (A[i := w] ! j) \<le> unat (A ! j)"
        using low(4) iN by (auto simp: nth_list_update word_less_nat_alt)
      show "\<exists>j\<in>D. unat (A[i := w] ! j) < unat (A ! j)"
        using i(1) iN low(4) by (intro bexI [of _ i]) (simp_all add: word_less_nat_alt)
    qed
    from less.hyps [OF this low(1)] show ?thesis
      using low(2) low(3) [of base] by (meson order_trans)
  qed (use less.prems in blast)
qed

end

end
