(* ===== verification/Canonical_Exact.thy ===== *)
theory Canonical_Exact
  imports Canonical_Spec
begin

text \<open>
  The canonical search of one pool is exact: unless it hits its limit it has seen, up to its bound,
  every supported extension of the nodes placed so far. The statement for one call is
  \<open>search_correct\<close>; its proof is an induction on the nodes left, with an inner induction over the
  branches. \<open>run_pool_search\<close> then proves infeasibility or finds a vector of least score.
\<close>

section \<open>The contract of one call\<close>

definition pool_set :: "ReusePenaltySearchSpace \<Rightarrow> PoolId \<Rightarrow> nat set" where
  "pool_set search pool = {i. i < node_count search \<and> node_pool (node_at search i) = pool}"

definition best_ok :: "DsaProblem \<Rightarrow> ReusePenaltySearchSpace \<Rightarrow> PoolId \<Rightarrow> CanonicalState \<Rightarrow> bool" where
  "best_ok p search pool st \<longleftrightarrow>
     (cs_found st \<longrightarrow> legal p search (pool_set search pool) (cs_best_offsets st) \<and>
        cs_best_score st = vector_score p search pool (pool_set search pool) (cs_best_offsets st))"

definition open_state :: "ReusePenaltySearchSpace \<Rightarrow> nat set \<Rightarrow> u64 list \<Rightarrow> CanonicalState \<Rightarrow> bool" where
  "open_state search D A st \<longleftrightarrow>
     cs_placed st = mark (node_count search) D \<and> length (cs_offsets st) = node_count search \<and>
     (\<forall>i\<in>D. cs_offsets st ! i = A ! i)"

definition extends ::
  "DsaProblem \<Rightarrow> ReusePenaltySearchSpace \<Rightarrow> PoolId \<Rightarrow> nat set \<Rightarrow> u64 list \<Rightarrow> (u64 \<times> BufferId) option \<Rightarrow> u64 list \<Rightarrow> bool" where
  "extends p search pool D A prev B \<longleftrightarrow>
     legal p search (pool_set search pool) B \<and>
     (\<forall>i\<in>pool_set search pool. supported p search (pool_set search pool) B i) \<and>
     (\<forall>i\<in>D. B ! i = A ! i) \<and>
     (\<forall>i\<in>pool_set search pool - D. after_last prev (B ! i) (node_representative (node_at search i)) \<and>
        (\<forall>j\<in>D. offset_key search B j < offset_key search B i))"

definition improves :: "CanonicalState \<Rightarrow> CanonicalState \<Rightarrow> bool" where
  "improves st st' \<longleftrightarrow> (cs_found st \<longrightarrow> cs_found st' \<and> cs_best_score st' \<le> cs_best_score st)"

definition covers ::
  "CanonicalExactSearchOptions \<Rightarrow> DsaProblem \<Rightarrow> ReusePenaltySearchSpace \<Rightarrow> PoolId \<Rightarrow> CanonicalState \<Rightarrow> u64 list \<Rightarrow> bool" where
  "covers options p search pool st B \<longleftrightarrow>
     cs_limit_hit st \<or>
     (cs_found st \<and> (stop_after_first options \<or>
        cs_best_score st \<le> vector_score p search pool (pool_set search pool) B))"

definition search_correct ::
  "CanonicalExactSearchOptions \<Rightarrow> DsaProblem \<Rightarrow> ReusePenaltySearchSpace \<Rightarrow> PoolId \<Rightarrow> nat set \<Rightarrow> u64 list \<Rightarrow>
   (u64 \<times> BufferId) option \<Rightarrow> CanonicalState \<Rightarrow> CanonicalState \<Rightarrow> bool" where
  "search_correct options p search pool D A prev st st' \<longleftrightarrow>
     open_state search D A st' \<and> best_ok p search pool st' \<and> improves st st' \<and>
     (\<forall>B. extends p search pool D A prev B \<longrightarrow> covers options p search pool st' B)"

lemma improves_refl [simp]: "improves st st"
  by (simp add: improves_def)

lemma improves_trans: "improves a b \<Longrightarrow> improves b c \<Longrightarrow> improves a c"
  by (auto simp: improves_def)

lemma covers_improves:
  "covers options p search pool st B \<Longrightarrow> improves st st' \<Longrightarrow> cs_limit_hit st \<longrightarrow> cs_limit_hit st' \<Longrightarrow>
   covers options p search pool st' B"
  by (auto simp: covers_def improves_def)

lemma pool_set_one_pool: "D \<subseteq> pool_set search pool \<Longrightarrow> one_pool search pool D"
  by (auto simp: pool_set_def one_pool_def)

lemma pool_set_finite [simp]: "finite (pool_set search pool)"
  by (simp add: pool_set_def)

lemma set_pool_nodes: "set (pool_nodes search pool) = pool_set search pool"
  by (auto simp: pool_nodes_def pool_set_def set_sort_by)

lemma length_pool_nodes: "length (pool_nodes search pool) = card (pool_set search pool)"
proof -
  have "distinct (pool_nodes search pool)" by (simp add: pool_nodes_def distinct_sort_by)
  then show ?thesis using distinct_card set_pool_nodes by metis
qed

section \<open>What depends on the placed nodes only\<close>

context search_space
begin

lemma legal_cong:
  assumes "legal p search D A" "\<forall>i\<in>D. i < N" "length B = N" "\<forall>i\<in>D. B ! i = A ! i"
  shows "legal p search D B"
  using legalD [OF assms(1)] assms(2-4) by (intro legalI) auto

lemma legal_subset:
  assumes "legal p search D A" "E \<subseteq> D" "\<forall>i\<in>D. i < N"
  shows "legal p search E A"
  using legalD [OF assms(1)] assms(2,3) assms(1) by (intro legalI) (auto simp: legal_def subset_iff)

lemma soft_cost_cong:
  assumes "\<forall>i\<in>D. B ! i = A ! i"
  shows "soft_cost search D B = soft_cost search D A"
  using assms by (auto simp: soft_cost_def entry_cost_def intro!: arg_cong [of _ _ sum_list] split: prod.splits)

lemma pool_top_cong:
  assumes "\<forall>i\<in>D. B ! i = A ! i"
  shows "pool_top search base D B = pool_top search base D A"
  using assms by (simp add: pool_top_def cong: image_cong)

lemma soft_cost_subset: "D \<subseteq> E \<Longrightarrow> soft_cost search D A \<le> soft_cost search E A"
  unfolding soft_cost_def by (rule sum_list_mono) (auto simp: entry_cost_def)

lemma pool_top_subset: "D \<subseteq> E \<Longrightarrow> finite E \<Longrightarrow> pool_top search base D A \<le> pool_top search base E A"
  unfolding pool_top_def by (rule Max_mono) auto

lemma bound_below_extension:
  assumes "extends p search pool D A prev B" "D \<subseteq> pool_set search pool"
  shows "PoolScore p (saturated (soft_cost search D A)) (pool_top search (ReservedPeak p pool) D A)
    \<le> vector_score p search pool (pool_set search pool) B"
proof -
  have agree: "\<forall>i\<in>D. A ! i = B ! i" using assms(1) by (auto simp: extends_def)
  show ?thesis
    unfolding vector_score_def soft_cost_cong [OF agree] pool_top_cong [OF agree]
    by (intro PoolScore_mono saturated_mono soft_cost_subset pool_top_subset assms(2) pool_set_finite)
qed

section \<open>Appending a node\<close>

lemma sum_list_concat_map: "(\<Sum>e\<leftarrow>es. \<Sum>x\<leftarrow>f e. g x) = (\<Sum>x\<leftarrow>concat (map f es). g x)" for g :: "'a \<Rightarrow> nat"
  by (induction es) simp_all

lemma legal_insert:
  assumes D: "insert v D \<subseteq> pool_set search pool" "v \<notin> D" and legal: "legal p search D A"
    and w: "aligned_to (al v) w" "FitsReuseNodeAt p search (mark N D) A v w"
  shows "legal p search (insert v D) (A[v := w])"
proof -
  have less: "\<forall>i\<in>insert v D. i < N" and same: "\<forall>i\<in>D. node_pool (node_at search i) = node_pool (node_at search v)"
    using D by (auto simp: pool_set_def)
  have len: "length A = N" using legal by (simp add: legal_def)
  have nth: "A[v := w] ! j = (if j = v then w else A ! j)" if "j \<in> insert v D" for j
    using that less len by (auto simp: nth_list_update)
  have vN: "v < N" using less by blast
  have fits: "pool_fits p search v w"
    "\<forall>j\<in>set (hard_neighbors search ! v). j \<in> D \<longrightarrow> \<not> overlap search v w j (A ! j)"
    using w(2) same unfolding fits_iff [OF vN] by blast+
  show ?thesis
  proof (rule legalI)
    fix i
    assume "i \<in> insert v D"
    then show "aligned_to (al i) (A[v := w] ! i) \<and> pool_fits p search i (A[v := w] ! i)"
      using legalD(1,2) [OF legal, of i] less fits(1) w(1) by (auto simp: nth)
  next
    fix i j
    assume ij: "i \<in> insert v D" "j \<in> insert v D" "j \<in> set (hard_neighbors search ! i)"
      "node_pool (node_at search j) = node_pool (node_at search i)"
    have "i < N" "j \<noteq> i" "i \<in> set (hard_neighbors search ! j)"
      using ij(1,3) less hard_less hard_sym by blast+
    then show "\<not> overlap search i (A[v := w] ! i) j (A[v := w] ! j)"
      using ij fits(2) legalD(3) [OF legal, of i j] overlap_commute by (auto simp: nth)
  qed (use less len in auto)
qed

lemma incremental_cost:
  assumes D: "insert v D \<subseteq> pool_set search pool" "v \<notin> D" and len: "length A = N"
    and offs: "length offs = N" "\<forall>i\<in>D. offs ! i = A ! i"
  shows "SaturatingAdd (saturated (soft_cost search D A)) (IncrementalReuseCost search (mark N D) offs v w) =
    saturated (soft_cost search (insert v D) (A[v := w]))"
proof -
  have vN: "v < N" and less: "\<forall>i\<in>D. i < N" using D(1) by (auto simp: pool_set_def)
  define pay where "pay = (\<lambda>(j, weight :: u64). if j \<in> D \<and> overlap search v w j (A ! j) then unat weight else 0)"
  define add where "add = (\<lambda>cost (other, weight).
          if mark N D ! other \<and> AddressRangesOverlap w (sz v) (offs ! other) (sz other)
          then SaturatingAdd cost weight else cost)"
  have one: "add (saturated c) x = saturated (c + pay x)" if "fst x < N" for c x
    using that offs(2) by (cases x; cases "fst x \<in> D") (auto simp: add_def pay_def overlap_def saturated_word)
  have step: "foldl add (saturated c) xs = saturated (c + (\<Sum>x\<leftarrow>xs. pay x))" if "\<forall>x\<in>set xs. fst x < N" for c xs
    using that
  proof (induction xs arbitrary: c)
    case (Cons x xs)
    then show ?case using one by (simp add: add.assoc)
  qed simp
  have "\<forall>x\<in>set (soft_neighbors search ! v). fst x < N" using soft_neighbor_less [OF vN] by auto
  then have inc: "IncrementalReuseCost search (mark N D) offs v w = saturated (\<Sum>x\<leftarrow>soft_neighbors search ! v. pay x)"
    using step [of "soft_neighbors search ! v" 0] by (simp add: IncrementalReuseCost_def Let_def add_def)
  have "entry_cost search (insert v D) (A[v := w]) entry =
      entry_cost search D A entry + (\<Sum>x\<leftarrow>soft_links v entry. pay x)"
    if e: "entry \<in> set (soft_weights search)" for entry
  proof -
    obtain a b u where ab: "entry = ((a, b), u)" by (metis prod.exhaust)
    have ne: "a \<noteq> b" "a < N" "b < N" using soft_neighborE [OF e [unfolded ab]] by blast+
    show ?thesis
      using D(2) ne len overlap_commute [of search v w a "A ! a"] vN
      by (auto simp: ab entry_cost_def soft_links_def pay_def nth_list_update)
  qed
  then have "soft_cost search (insert v D) (A[v := w]) =
      soft_cost search D A + (\<Sum>entry\<leftarrow>soft_weights search. \<Sum>x\<leftarrow>soft_links v entry. pay x)"
    by (simp add: soft_cost_def sum_list_addf [symmetric] cong: map_cong)
  also have "(\<Sum>entry\<leftarrow>soft_weights search. \<Sum>x\<leftarrow>soft_links v entry. pay x) =
      (\<Sum>x\<leftarrow>soft_neighbors search ! v. pay x)"
    unfolding soft_neighbor [OF vN] by (rule sum_list_concat_map)
  finally show ?thesis unfolding inc by (simp add: saturated_add)
qed

lemma pool_top_insert:
  assumes D: "insert v D \<subseteq> pool_set search pool" "v \<notin> D" and len: "length A = N"
  shows "max (pool_top search base D A) (w + sz v) = pool_top search base (insert v D) (A[v := w])"
proof -
  have fin: "finite D" by (rule finite_subset [OF _ pool_set_finite [of search pool]]) (use D(1) in simp)
  have keep: "\<forall>i\<in>D. A[v := w] ! i = A ! i" by (rule ballI, rule nth_list_update_neq) (use D(2) in blast)
  have "v < N" using D(1) by (auto simp: pool_set_def)
  then have "(\<lambda>i. A[v := w] ! i + sz i) ` insert v D = insert (w + sz v) ((\<lambda>i. A ! i + sz i) ` D)"
    using keep len by (simp cong: image_cong_simp)
  then have "pool_top search base (insert v D) (A[v := w]) = Max (insert (w + sz v) (insert base ((\<lambda>i. A ! i + sz i) ` D)))"
    unfolding pool_top_def by (simp only: insert_commute)
  also have "\<dots> = max (w + sz v) (pool_top search base D A)"
    unfolding pool_top_def using fin by (intro Max_insert) simp_all
  finally show ?thesis by (simp only: max.commute)
qed

section \<open>The branches of a call\<close>

definition good_branch :: "nat set \<Rightarrow> PoolId \<Rightarrow> u64 list \<Rightarrow> (u64 \<times> BufferId) option \<Rightarrow> Branch \<Rightarrow> bool" where
  "good_branch D pool offs prev b \<longleftrightarrow>
     br_node b \<in> pool_set search pool - D \<and>
     aligned_to (al (br_node b)) (br_offset b) \<and>
     FitsReuseNodeAt p search (mark N D) offs (br_node b) (br_offset b) \<and>
     br_cost b = IncrementalReuseCost search (mark N D) offs (br_node b) (br_offset b) \<and>
     br_representative b = node_representative (node_at search (br_node b))"

lemma set_canonical_offsets:
  "w \<in> set (CanonicalOffsetsForNode p search placed offs v True) \<longleftrightarrow>
   (\<exists>c\<in>set (canonical_candidates p search placed offs v True). AlignUp c (al v) = Some w)"
  by (force simp: CanonicalOffsetsForNode_def List.map_filter_def)

lemma branch_iff:
  assumes "cs_placed st = mark N D"
  shows "b \<in> set (sorted_branches p search (pool_nodes search pool) st prev) \<longleftrightarrow>
    br_node b \<in> pool_set search pool - D \<and>
    br_offset b \<in> set (CanonicalOffsetsForNode p search (mark N D) (cs_offsets st) (br_node b) True) \<and>
    after_last prev (br_offset b) (node_representative (node_at search (br_node b))) \<and>
    FitsReuseNodeAt p search (mark N D) (cs_offsets st) (br_node b) (br_offset b) \<and>
    b = \<lparr>br_cost = IncrementalReuseCost search (mark N D) (cs_offsets st) (br_node b) (br_offset b),
         br_offset = br_offset b,
         br_representative = node_representative (node_at search (br_node b)), br_node = br_node b\<rparr>"
proof -
  have "mark N D ! v \<longleftrightarrow> v \<in> D" if "v \<in> pool_set search pool" for v
    using that by (simp add: pool_set_def)
  then show ?thesis
    by (cases b) (auto simp: sorted_branches_def branches_of_def set_pool_nodes assms)
qed

lemma branches_good:
  assumes "cs_placed st = mark N D" "b \<in> set (sorted_branches p search (pool_nodes search pool) st prev)"
  shows "good_branch D pool (cs_offsets st) prev b"
proof -
  note b = assms(2) [unfolded branch_iff [OF assms(1)]]
  have "br_node b < N" using b by (auto simp: pool_set_def)
  then have "aligned_to (al (br_node b)) (br_offset b)"
    using b AlignUp_Some(1) [OF node_alignment_pos] unfolding set_canonical_offsets by blast
  then show ?thesis using b unfolding good_branch_def by (metis Branch.select_convs(1,3))
qed

text \<open>The next node of a supported extension, and its branch.\<close>

definition next_node :: "PoolId \<Rightarrow> nat set \<Rightarrow> u64 list \<Rightarrow> nat" where
  "next_node pool D B = arg_min_on (offset_key search B) (pool_set search pool - D)"

lemma offset_key_inj:
  assumes "i < N" "j < N" "offset_key search B i = offset_key search B j"
  shows "i = j"
  using assms nth_eq_iff_index_eq [OF representatives, of i j] by (simp add: offset_key_def)

lemma next_node:
  assumes "pool_set search pool - D \<noteq> {}"
  shows "next_node pool D B \<in> pool_set search pool - D"
    "i \<in> pool_set search pool - D \<Longrightarrow> i \<noteq> next_node pool D B \<Longrightarrow>
      offset_key search B (next_node pool D B) < offset_key search B i"
proof -
  have fin: "finite (pool_set search pool - D)" by simp
  show mem: "next_node pool D B \<in> pool_set search pool - D"
    unfolding next_node_def by (rule arg_min_if_finite(1) [OF fin assms])
  show "offset_key search B (next_node pool D B) < offset_key search B i"
    if i: "i \<in> pool_set search pool - D" "i \<noteq> next_node pool D B"
  proof -
    have "\<not> offset_key search B i < offset_key search B (next_node pool D B)"
      using arg_min_if_finite(2) [OF fin assms, of "offset_key search B"] i(1) unfolding next_node_def by blast
    moreover have "offset_key search B i \<noteq> offset_key search B (next_node pool D B)"
      using offset_key_inj [of i "next_node pool D B" B] i mem by (auto simp: pool_set_def)
    ultimately show ?thesis by (metis linorder_neqE)
  qed
qed

lemma candidates_cong:
  assumes "i < N" "\<forall>j\<in>D. A ! j = B ! j"
  shows "set (canonical_candidates p search (mark N D) A i True) = set (canonical_candidates p search (mark N D) B i True)"
proof -
  have "j \<in> D \<and> \<not> AddOverflows (A ! j) (sz j) \<and> c = A ! j + sz j \<longleftrightarrow>
      j \<in> D \<and> \<not> AddOverflows (B ! j) (sz j) \<and> c = B ! j + sz j" for j c
    using assms(2) by auto
  then show ?thesis unfolding set_eq_iff set_candidates [OF assms(1)] by simp
qed

lemma extension_branch:
  assumes ext: "extends p search pool D A prev B" and D: "D \<subseteq> pool_set search pool"
    and left: "pool_set search pool - D \<noteq> {}" and open': "open_state search D A st"
  defines "v \<equiv> next_node pool D B"
  shows "\<exists>b\<in>set (sorted_branches p search (pool_nodes search pool) st prev). br_node b = v \<and> br_offset b = B ! v"
proof -
  note v = next_node [OF left, where B = B, folded v_def]
  have vN: "v < N" using v(1) by (auto simp: pool_set_def)
  have agree: "\<forall>i\<in>D. cs_offsets st ! i = B ! i" using ext open' by (auto simp: extends_def open_state_def)
  have "earlier search (pool_set search pool) B v = D"
  proof
    show "earlier search (pool_set search pool) B v \<subseteq> D"
      using v(2) by (force simp: earlier_def)
    show "D \<subseteq> earlier search (pool_set search pool) B v"
      using ext v(1) D by (auto simp: earlier_def extends_def)
  qed
  then obtain c where c: "c \<in> set (canonical_candidates p search (mark N D) B v True)" "AlignUp c (al v) = Some (B ! v)"
    using ext v(1) by (auto simp: extends_def supported_def)
  then have offset: "B ! v \<in> set (CanonicalOffsetsForNode p search (mark N D) (cs_offsets st) v True)"
    using candidates_cong [OF vN agree] unfolding set_canonical_offsets by blast
  have legal: "legal p search (pool_set search pool) B" using ext by (simp add: extends_def)
  have "FitsReuseNodeAt p search (mark N D) (cs_offsets st) v (B ! v)"
    unfolding fits_iff [OF vN] using legalD(2,3) [OF legal _ vN] v(1) D agree by auto
  moreover have "after_last prev (B ! v) (node_representative (node_at search v))"
    using ext v(1) by (auto simp: extends_def)
  moreover have "cs_placed st = mark N D" using open' by (simp add: open_state_def)
  ultimately show ?thesis
    using offset v(1)
    by (intro bexI [of _ "\<lparr>br_cost = IncrementalReuseCost search (mark N D) (cs_offsets st) v (B ! v),
         br_offset = B ! v, br_representative = node_representative (node_at search v), br_node = v\<rparr>"])
      (simp_all add: branch_iff)
qed

lemma extension_step:
  assumes ext: "extends p search pool D A prev B" and D: "D \<subseteq> pool_set search pool"
    and left: "pool_set search pool - D \<noteq> {}" and len: "length A = N"
  defines "v \<equiv> next_node pool D B"
  shows "extends p search pool (insert v D) (A[v := B ! v]) (Some (B ! v, node_representative (node_at search v))) B"
proof -
  note v = next_node [OF left, where B = B, folded v_def]
  have vN: "v < length A" using v(1) len by (auto simp: pool_set_def)
  have "after_last (Some (B ! v, node_representative (node_at search v))) (B ! i) (node_representative (node_at search i))"
    if "i \<in> pool_set search pool - insert v D" for i
    using v(2) [of i] that by (auto simp: after_last_def offset_key_def)
  then show ?thesis
    using ext v vN unfolding extends_def by (auto simp: nth_list_update)
qed

section \<open>The branch loop\<close>

text \<open>What the recursive call promises for every node it may append.\<close>

definition recursion_correct ::
  "CanonicalExactSearchOptions \<Rightarrow> PoolId \<Rightarrow> nat set \<Rightarrow> u64 list \<Rightarrow>
   (u64 \<Rightarrow> u64 \<Rightarrow> (u64 \<times> BufferId) option \<Rightarrow> CanonicalState \<Rightarrow> CanonicalState) \<Rightarrow> bool" where
  "recursion_correct options pool D A rec \<longleftrightarrow>
     (\<forall>v w prev st. v \<in> pool_set search pool - D \<longrightarrow> legal p search (insert v D) (A[v := w]) \<longrightarrow>
        open_state search (insert v D) (A[v := w]) st \<longrightarrow> best_ok p search pool st \<longrightarrow>
        search_correct options p search pool (insert v D) (A[v := w]) prev st
          (rec (saturated (soft_cost search (insert v D) (A[v := w])))
             (pool_top search (ReservedPeak p pool) (insert v D) (A[v := w])) prev st))"

definition loop_correct ::
  "CanonicalExactSearchOptions \<Rightarrow> PoolId \<Rightarrow> nat set \<Rightarrow> u64 list \<Rightarrow> (u64 \<times> BufferId) option \<Rightarrow> Branch list \<Rightarrow>
   CanonicalState \<Rightarrow> CanonicalState \<Rightarrow> bool" where
  "loop_correct options pool D A prev bs st st' \<longleftrightarrow>
     open_state search D A st' \<and> best_ok p search pool st' \<and> improves st st' \<and>
     (\<forall>B. extends p search pool D A prev B \<longrightarrow>
        (\<exists>b\<in>set bs. br_node b = next_node pool D B \<and> br_offset b = B ! next_node pool D B) \<longrightarrow>
        covers options p search pool st' B)"

lemma good_branch_cong:
  assumes "good_branch D pool offs prev b" "D \<subseteq> pool_set search pool" "\<forall>i\<in>D. offs ! i = A ! i"
  shows "FitsReuseNodeAt p search (mark N D) A (br_node b) (br_offset b)"
    "br_cost b = IncrementalReuseCost search (mark N D) A (br_node b) (br_offset b)"
proof -
  have v: "br_node b < N" using assms(1) by (auto simp: good_branch_def pool_set_def)
  show "FitsReuseNodeAt p search (mark N D) A (br_node b) (br_offset b)"
    using assms(1,3) unfolding good_branch_def fits_iff [OF v] by auto
  have "(mark N D ! fst x \<and> AddressRangesOverlap w s (offs ! fst x) t) = (mark N D ! fst x \<and> AddressRangesOverlap w s (A ! fst x) t)"
    if "x \<in> set (soft_neighbors search ! br_node b)" for x :: "nat \<times> u64" and w s t
    using soft_neighbor_less [OF v, of "fst x" "snd x"] that assms(3) by auto
  then have "IncrementalReuseCost search (mark N D) offs (br_node b) (br_offset b) =
      IncrementalReuseCost search (mark N D) A (br_node b) (br_offset b)"
    unfolding IncrementalReuseCost_def Let_def by (intro foldl_cong) (auto simp: split_beta)
  then show "br_cost b = IncrementalReuseCost search (mark N D) A (br_node b) (br_offset b)"
    using assms(1) by (simp add: good_branch_def)
qed

lemma canonical_branches_correct:
  assumes rec: "recursion_correct options pool D A rec" and D: "D \<subseteq> pool_set search pool"
    and left: "pool_set search pool - D \<noteq> {}" and legal: "legal p search D A"
    and good: "\<forall>b\<in>set bs. good_branch D pool offs prev b" "\<forall>i\<in>D. offs ! i = A ! i"
    and st: "open_state search D A st" "best_ok p search pool st"
  shows "loop_correct options pool D A prev bs st
    (canonical_branches rec options search (saturated (soft_cost search D A))
       (pool_top search (ReservedPeak p pool) D A) bs st)"
  using good(1) st
proof (induction bs arbitrary: st)
  case Nil
  then show ?case by (simp add: loop_correct_def)
next
  case (Cons b bs)
  define v w where "v = br_node b" and "w = br_offset b"
  have gb: "good_branch D pool offs prev b" using Cons.prems(1) by simp
  have v: "v \<in> pool_set search pool" "v \<notin> D" and vN: "v < N"
    using gb by (auto simp: good_branch_def v_def pool_set_def)
  note fit = good_branch_cong [OF gb D good(2), folded v_def w_def]
  have len: "length A = N" using legal by (simp add: legal_def)
  have ins: "insert v D \<subseteq> pool_set search pool" using v(1) D by blast
  have al_w: "aligned_to (al v) w" using gb by (simp add: good_branch_def v_def w_def)
  have legal': "legal p search (insert v D) (A[v := w])"
    by (rule legal_insert [OF ins v(2) legal al_w fit(1)])
  define st1 where "st1 = st\<lparr>cs_candidate_branches := cs_candidate_branches st + 1,
      cs_placed := (cs_placed st)[v := True], cs_offsets := (cs_offsets st)[v := w]\<rparr>"
  have open1: "open_state search (insert v D) (A[v := w]) st1"
    using Cons.prems(2) vN len v(2) by (auto simp: open_state_def st1_def mark_update nth_list_update)
  have best1: "best_ok p search pool st1" using Cons.prems(3) by (simp add: best_ok_def st1_def)
  define st2 where "st2 = rec (SaturatingAdd (saturated (soft_cost search D A)) (br_cost b))
      (max (pool_top search (ReservedPeak p pool) D A) (w + sz v)) (Some (w, br_representative b)) st1"
  have costs: "SaturatingAdd (saturated (soft_cost search D A)) (br_cost b) =
      saturated (soft_cost search (insert v D) (A[v := w]))"
    unfolding fit(2) by (rule incremental_cost [OF ins v(2) len len]) simp
  have st2: "st2 = rec (saturated (soft_cost search (insert v D) (A[v := w])))
      (pool_top search (ReservedPeak p pool) (insert v D) (A[v := w])) (Some (w, br_representative b)) st1"
    unfolding st2_def costs pool_top_insert [OF ins v(2) len] ..
  have sc: "search_correct options p search pool (insert v D) (A[v := w]) (Some (w, br_representative b)) st1 st2"
    using rec v legal' open1 best1 unfolding recursion_correct_def st2 by blast
  define st3 where "st3 = st2\<lparr>cs_placed := (cs_placed st2)[v := False]\<rparr>"
  have open3: "open_state search D A st3"
    using sc vN v(2) len
    by (auto simp: search_correct_def open_state_def st3_def mark_update nth_list_update split: if_splits)
  have best3: "best_ok p search pool st3"
    using sc by (simp add: search_correct_def best_ok_def st3_def)
  have imp3: "improves st st3" using sc by (auto simp: search_correct_def improves_def st3_def st1_def)
  have cov3: "covers options p search pool st3 B"
    if "extends p search pool D A prev B" "v = next_node pool D B" "w = B ! next_node pool D B" for B
  proof -
    have "extends p search pool (insert v D) (A[v := w]) (Some (w, br_representative b)) B"
      using extension_step [OF that(1) D left len] that(2,3) gb by (simp add: good_branch_def v_def)
    then show ?thesis using sc by (auto simp: search_correct_def covers_def st3_def)
  qed
  have unfold: "canonical_branches rec options search (saturated (soft_cost search D A))
      (pool_top search (ReservedPeak p pool) D A) (b # bs) st =
    (if search_stopped options st3 then st3
     else canonical_branches rec options search (saturated (soft_cost search D A))
       (pool_top search (ReservedPeak p pool) D A) bs st3)"
    by (simp add: st3_def st2_def st1_def v_def w_def Let_def)
  show ?case
  proof (cases "search_stopped options st3")
    case True
    then have "covers options p search pool st3 B" for B
      by (auto simp: search_stopped_def covers_def)
    then show ?thesis using open3 best3 imp3 True unfold by (simp add: loop_correct_def)
  next
    case False
    define st' where "st' = canonical_branches rec options search (saturated (soft_cost search D A))
       (pool_top search (ReservedPeak p pool) D A) bs st3"
    have IH: "loop_correct options pool D A prev bs st3 st'"
      unfolding st'_def by (rule Cons.IH) (use Cons.prems(1) open3 best3 in auto)
    have "covers options p search pool st' B"
      if ext: "extends p search pool D A prev B" and ex: "\<exists>b\<in>set (b # bs). br_node b = next_node pool D B \<and> br_offset b = B ! next_node pool D B" for B
    proof (cases "v = next_node pool D B \<and> w = B ! next_node pool D B")
      case True
      then have "covers options p search pool st3 B" using cov3 ext by blast
      moreover have "\<not> cs_limit_hit st3" using False by (simp add: search_stopped_def)
      ultimately show ?thesis using covers_improves IH by (auto simp: loop_correct_def)
    next
      case False
      then have "\<exists>b\<in>set bs. br_node b = next_node pool D B \<and> br_offset b = B ! next_node pool D B"
        using ex by (auto simp: v_def w_def)
      then show ?thesis using IH ext by (simp add: loop_correct_def)
    qed
    then show ?thesis
      using IH imp3 improves_trans False unfold unfolding loop_correct_def st'_def by auto
  qed
qed

section \<open>The recursion\<close>

lemma search_entry_cases:
  assumes "D \<subseteq> pool_set search pool"
    and st: "open_state search D A st" "best_ok p search pool st"
  defines "cost \<equiv> saturated (soft_cost search D A)" and "peak \<equiv> pool_top search (ReservedPeak p pool) D A"
  shows "case search_entry options p cost peak st of
      Inl st' \<Rightarrow> search_correct options p search pool D A prev st st'
    | Inr st' \<Rightarrow> open_state search D A st' \<and> best_ok p search pool st' \<and>
        cs_found st' = cs_found st \<and> cs_best_score st' = cs_best_score st \<and>
        (cs_found st' \<longrightarrow> PoolScore p cost peak < cs_best_score st')"
proof -
  have bound: "cs_best_score st \<le> vector_score p search pool (pool_set search pool) B"
    if "cs_found st" "\<not> PoolScore p cost peak < cs_best_score st" "extends p search pool D A prev B" for B
    using bound_below_extension [OF that(3) assms(1)] that(2) unfolding cost_def peak_def by simp
  show ?thesis
    using st bound
    by (auto simp: search_entry_def search_correct_def open_state_def best_ok_def improves_def covers_def
        search_stopped_def Let_def)
qed

lemma canonical_search_correct:
  assumes "D \<subseteq> pool_set search pool" "card (pool_set search pool - D) = left" "legal p search D A"
    "open_state search D A st" "best_ok p search pool st"
  shows "search_correct options p search pool D A prev st
    (canonical_search p search options (pool_nodes search pool) left (saturated (soft_cost search D A))
       (pool_top search (ReservedPeak p pool) D A) prev st)"
  using assms
proof (induction left arbitrary: D A prev st)
  case 0
  then have D: "D = pool_set search pool" by auto
  let ?e = "search_entry options p (saturated (soft_cost search D A)) (pool_top search (ReservedPeak p pool) D A) st"
  note entry = search_entry_cases [OF 0(1,4,5), where options = options and prev = prev]
  show ?case
  proof (cases ?e)
    case (Inr st')
    then have st': "open_state search D A st'" "cs_found st' = cs_found st" "cs_best_score st' = cs_best_score st"
      "cs_found st' \<longrightarrow> PoolScore p (saturated (soft_cost search D A)) (pool_top search (ReservedPeak p pool) D A) < cs_best_score st'"
      using entry unfolding Inr sum.case by blast+
    have agree: "\<forall>i\<in>D. cs_offsets st' ! i = A ! i" "length (cs_offsets st') = N"
      using st'(1) by (auto simp: open_state_def)
    have "legal p search D (cs_offsets st')"
      by (rule legal_cong [OF 0(3) _ agree(2,1)]) (auto simp: D pool_set_def)
    moreover have score: "vector_score p search pool D (cs_offsets st') =
        PoolScore p (saturated (soft_cost search D A)) (pool_top search (ReservedPeak p pool) D A)"
      by (simp add: vector_score_def soft_cost_cong [OF agree(1)] pool_top_cong [OF agree(1)])
    moreover have "vector_score p search pool D B = vector_score p search pool D A"
      if "extends p search pool D A prev B" for B
    proof -
      have same: "\<forall>i\<in>D. B ! i = A ! i" using that by (simp add: extends_def)
      show ?thesis unfolding vector_score_def soft_cost_cong [OF same] pool_top_cong [OF same] ..
    qed
    ultimately show ?thesis
      using st' by (auto simp: Inr search_correct_def open_state_def best_ok_def improves_def covers_def D [symmetric]
          vector_score_def)
  qed (use entry in simp)
next
  case (Suc left)
  let ?cost = "saturated (soft_cost search D A)" and ?peak = "pool_top search (ReservedPeak p pool) D A"
  let ?rec = "canonical_search p search options (pool_nodes search pool) left"
  note entry = search_entry_cases [OF Suc.prems(1,4,5), where options = options and prev = prev]
  have ne: "pool_set search pool - D \<noteq> {}" using Suc.prems(2) by force
  show ?case
  proof (cases "search_entry options p ?cost ?peak st")
    case (Inr st')
    then have st': "open_state search D A st'" "best_ok p search pool st'" "cs_found st' = cs_found st"
      "cs_best_score st' = cs_best_score st"
      using entry by simp_all
    have rec: "recursion_correct options pool D A ?rec"
      unfolding recursion_correct_def
    proof (intro allI impI)
      fix v w prev st
      assume v: "v \<in> pool_set search pool - D" and h: "legal p search (insert v D) (A[v := w])"
        "open_state search (insert v D) (A[v := w]) st" "best_ok p search pool st"
      have "card (pool_set search pool - insert v D) = left"
        using Suc.prems(2) v by (simp add: card_Diff_insert)
      then show "search_correct options p search pool (insert v D) (A[v := w]) prev st
          (?rec (saturated (soft_cost search (insert v D) (A[v := w])))
             (pool_top search (ReservedPeak p pool) (insert v D) (A[v := w])) prev st)"
        using v Suc.prems(1) h by (intro Suc.IH) auto
    qed
    let ?bs = "sorted_branches p search (pool_nodes search pool) st' prev"
    have placed: "cs_placed st' = mark N D" and agree: "\<forall>i\<in>D. cs_offsets st' ! i = A ! i"
      using st'(1) by (auto simp: open_state_def)
    have loop: "loop_correct options pool D A prev ?bs st' (canonical_branches ?rec options search ?cost ?peak ?bs st')"
      by (rule canonical_branches_correct [OF rec Suc.prems(1) ne Suc.prems(3) _ agree st'(1,2)])
        (use branches_good [OF placed] in blast)
    have branch: "\<exists>b\<in>set ?bs. br_node b = next_node pool D B \<and> br_offset b = B ! next_node pool D B"
      if "extends p search pool D A prev B" for B
      by (rule extension_branch [OF that Suc.prems(1) ne st'(1)])
    have "improves st st'" using st'(3,4) by (simp add: improves_def)
    then show ?thesis
      using loop branch improves_trans by (auto simp: Inr loop_correct_def search_correct_def)
  qed (use entry in simp)
qed

section \<open>One pool\<close>

lemma legal_Nil: "length A = N \<Longrightarrow> legal p search {} A"
  by (simp add: legal_def)

lemma PoolReuseCost_eq:
  assumes "length A = N"
  shows "PoolReuseCost search pool A = saturated (soft_cost search (pool_set search pool) A)"
proof -
  define add where "add = (\<lambda>cost ((i, j), weight).
         if node_pool (node_at search i) = pool \<and> AddressRangesOverlap (A ! i) (sz i) (A ! j) (sz j)
         then SaturatingAdd cost weight else cost)"
  have one: "add (saturated c) entry = saturated (c + entry_cost search (pool_set search pool) A entry)"
    if "entry \<in> set (soft_weights search)" for c entry
  proof -
    obtain i j w where e: "entry = ((i, j), w)" by (metis prod.exhaust)
    have "i < N" "j < N" "node_pool (node_at search i) = node_pool (node_at search j)"
      using soft_pair [of i j w] that e by auto
    then show ?thesis by (auto simp: e add_def entry_cost_def pool_set_def overlap_def saturated_word)
  qed
  have "foldl add (saturated c) es = saturated (c + (\<Sum>entry\<leftarrow>es. entry_cost search (pool_set search pool) A entry))"
    if "set es \<subseteq> set (soft_weights search)" for c es
    using that by (induction es arbitrary: c) (simp_all add: one add.assoc)
  from this [of "soft_weights search" 0] show ?thesis
    by (simp add: PoolReuseCost_def soft_cost_def add_def)
qed

lemma incumbent_legal:
  assumes "incumbent_fits p search A (mark N E) ns" "set ns \<inter> E = {}" "distinct ns"
    and "set ns \<union> E \<subseteq> pool_set search pool" "legal p search E A"
    and "\<forall>i\<in>set ns. aligned_to (al i) (A ! i)"
  shows "legal p search (set ns \<union> E) A"
  using assms
proof (induction ns arbitrary: E)
  case (Cons v ns)
  have v: "v \<in> pool_set search pool" "v \<notin> E" and vN: "v < N"
    using Cons.prems(2,4) by (auto simp: pool_set_def)
  have fit: "FitsReuseNodeAt p search (mark N E) A v (A ! v)"
    and rest: "incumbent_fits p search A (mark N (insert v E)) ns"
    using Cons.prems(1) by (auto simp: mark_update [OF vN] split: if_splits)
  have "legal p search (insert v E) (A[v := A ! v])"
    by (rule legal_insert [OF _ v(2) Cons.prems(5) _ fit]) (use Cons.prems(4,6) in auto)
  then have "legal p search (insert v E) A" by simp
  then have "legal p search (set ns \<union> insert v E) A"
    using Cons.prems rest by (intro Cons.IH) auto
  then show ?case by simp
qed simp

definition aligned_incumbent :: "PoolId \<Rightarrow> CanonicalExactSearchOptions \<Rightarrow> bool" where
  "aligned_incumbent pool options \<longleftrightarrow>
     (\<forall>A. incumbent_offsets options = Some A \<longrightarrow>
        (\<forall>i\<in>pool_set search pool. aligned_to (al i) (A ! i)))"

lemma foldl_max_top:
  assumes "finite D" "set is = D"
  shows "foldl (\<lambda>peak i. max peak (A ! i + sz i)) base is = pool_top search base D A"
proof -
  have "foldl (\<lambda>peak i. max peak (f i)) b xs = Max (insert b (f ` set xs))" for f :: "nat \<Rightarrow> u64" and b xs
  proof (induction xs arbitrary: b)
    case (Cons x xs)
    have "Max (insert b (insert (f x) (f ` set xs))) = Max (insert (max b (f x)) (f ` set xs))"
    proof (cases "xs = []")
      case False
      then show ?thesis by (simp add: max.assoc)
    qed simp
    then show ?case by (simp add: Cons.IH)
  qed simp
  from this [of "\<lambda>i. A ! i + sz i" base "is"] show ?thesis by (simp add: pool_top_def assms(2))
qed

lemma initial_search_ok:
  assumes "aligned_incumbent pool options"
  shows "open_state search {} (replicate N 0) (initial_search p search pool options)"
    "best_ok p search pool (initial_search p search pool options)"
    "\<not> cs_limit_hit (initial_search p search pool options)"
proof -
  have m: "replicate N False = mark N {}" by (rule nth_equalityI) simp_all
  show "open_state search {} (replicate N 0) (initial_search p search pool options)"
    "\<not> cs_limit_hit (initial_search p search pool options)"
    by (auto simp: initial_search_def open_state_def Let_def m split: option.splits)
  show "best_ok p search pool (initial_search p search pool options)"
  proof (cases "usable_incumbent p search pool options")
    case (Some A)
    then have A: "incumbent_offsets options = Some A" "length A = N"
      "incumbent_fits p search A (mark N {}) (pool_nodes search pool)"
      by (auto simp: usable_incumbent_def m split: if_splits option.splits)
    have "distinct (pool_nodes search pool)" by (simp add: pool_nodes_def distinct_sort_by)
    moreover have "\<forall>i\<in>set (pool_nodes search pool). aligned_to (al i) (A ! i)"
      using assms A(1) by (simp add: set_pool_nodes aligned_incumbent_def)
    moreover have "set (pool_nodes search pool) \<inter> {} = {}"
      "set (pool_nodes search pool) \<union> {} \<subseteq> pool_set search pool" by (simp_all add: set_pool_nodes)
    ultimately have "legal p search (set (pool_nodes search pool) \<union> {}) A"
      by (intro incumbent_legal [OF A(3)] legal_Nil A(2))
    then have "legal p search (pool_set search pool) A" by (simp add: set_pool_nodes)
    then show ?thesis
      using foldl_max_top [OF pool_set_finite set_pool_nodes, where A = A and base = "ReservedPeak p pool"
          and search1 = search and pool1 = pool]
      by (simp add: best_ok_def initial_search_def Some Let_def vector_score_def PoolReuseCost_eq [OF A(2)])
  qed (simp add: best_ok_def initial_search_def Let_def)
qed

lemma run_pool_search_correct:
  assumes "aligned_incumbent pool options"
  defines "r \<equiv> run_pool_search p search pool options" and "P \<equiv> pool_set search pool"
  shows "psr_status r = kInfeasibleProven \<Longrightarrow> \<not> legal p search P A"
    "psr_status r = kFeasible \<Longrightarrow> legal p search P (psr_offsets r)"
    "psr_status r = kFeasible \<Longrightarrow> \<not> stop_after_first options \<Longrightarrow> legal p search P A \<Longrightarrow>
      vector_score p search pool P (psr_offsets r) \<le> vector_score p search pool P A"
    "psr_status r = kTimeout \<Longrightarrow> psr_offsets r \<noteq> [] \<Longrightarrow> legal p search P (psr_offsets r)"
    "psr_status r \<in> {kInfeasibleProven, kFeasible, kTimeout}"
proof -
  define st where "st = canonical_search p search options (pool_nodes search pool) (length (pool_nodes search pool))
      0 (ReservedPeak p pool) None (initial_search p search pool options)"
  have soft0: "saturated (soft_cost search {} (replicate N 0)) = 0"
    by (simp add: soft_cost_def entry_cost_def split_beta)
  have top0: "pool_top search (ReservedPeak p pool) {} (replicate N 0) = ReservedPeak p pool"
    by (simp add: pool_top_def)
  have sc: "search_correct options p search pool {} (replicate N 0) None (initial_search p search pool options) st"
    using canonical_search_correct [where D = "{}" and pool = pool and left = "length (pool_nodes search pool)"
        and A = "replicate N 0" and st = "initial_search p search pool options" and prev = None and options = options] initial_search_ok [OF assms(1)]
    unfolding st_def soft0 top0 by (simp add: legal_Nil length_pool_nodes)
  have r: "psr_status r = (if cs_limit_hit st then kTimeout else if \<not> cs_found st then kInfeasibleProven else kFeasible)"
    "psr_offsets r = (if cs_found st then cs_best_offsets st else [])"
    by (simp_all add: r_def run_pool_search_def st_def Let_def)
  have cover: "covers options p search pool st A \<or> cs_found st \<and> cs_best_score st \<le> vector_score p search pool P A"
    if A: "legal p search P A" for A
  proof -
    obtain B where B: "legal p search P B" "\<forall>i\<in>P. supported p search P B i" "soft_cost search P B \<le> soft_cost search P A"
      "pool_top search (ReservedPeak p pool) P B \<le> pool_top search (ReservedPeak p pool) P A"
      using supported_below [OF pool_set_one_pool [OF subset_refl] A [unfolded P_def]] unfolding P_def by blast
    have "extends p search pool {} (replicate N 0) None B"
      using B(1,2) by (simp add: extends_def P_def after_last_def)
    then have "covers options p search pool st B" using sc by (simp add: search_correct_def)
    moreover have "vector_score p search pool P B \<le> vector_score p search pool P A"
      unfolding vector_score_def by (intro PoolScore_mono saturated_mono B(3,4))
    ultimately show ?thesis by (auto simp: covers_def P_def)
  qed
  have best: "cs_found st \<Longrightarrow> legal p search P (cs_best_offsets st) \<and>
      cs_best_score st = vector_score p search pool P (cs_best_offsets st)"
    using sc by (simp add: search_correct_def best_ok_def P_def)
  show "psr_status r = kInfeasibleProven \<Longrightarrow> \<not> legal p search P A"
    using cover [of A] by (auto simp: r covers_def split: if_splits)
  show "psr_status r = kFeasible \<Longrightarrow> legal p search P (psr_offsets r)"
    using best by (auto simp: r split: if_splits)
  show "psr_status r = kFeasible \<Longrightarrow> \<not> stop_after_first options \<Longrightarrow> legal p search P A \<Longrightarrow>
      vector_score p search pool P (psr_offsets r) \<le> vector_score p search pool P A"
    using best cover [of A] by (auto simp: r covers_def P_def split: if_splits)
  show "psr_status r = kTimeout \<Longrightarrow> psr_offsets r \<noteq> [] \<Longrightarrow> legal p search P (psr_offsets r)"
    using best by (auto simp: r split: if_splits)
  show "psr_status r \<in> {kInfeasibleProven, kFeasible, kTimeout}" by (simp add: r)
qed

end

end
