(* ===== verification/Canonical_Solution.thy ===== *)
theory Canonical_Solution
  imports Canonical_Exact
begin

text \<open>
  Node offsets and solutions. For a problem without pins whose pools are fixed, the offsets of a
  valid solution are legal in every pool, a vector that is legal in every pool expands to a valid
  solution, and the soft cost of the vector is the reuse cost of the solution.
\<close>

section \<open>From solutions to node offsets\<close>

definition node_offset :: "DsaProblem \<Rightarrow> DsaSolution \<Rightarrow> nat \<Rightarrow> u64" where
  "node_offset p s i = pl_offset (the (Find s (node_representative (node_at (built p) i))))"

definition offsets_of :: "DsaProblem \<Rightarrow> DsaSolution \<Rightarrow> u64 list" where
  "offsets_of p s = map (node_offset p s) [0..<node_count (built p)]"

lemma offsets_of_nth [simp]: "i < node_count (built p) \<Longrightarrow> offsets_of p s ! i = node_offset p s i"
  "length (offsets_of p s) = node_count (built p)"
  by (simp_all add: offsets_of_def)

abbreviation node_class :: "DsaProblem \<Rightarrow> nat \<Rightarrow> Buffer set" where
  "node_class p i \<equiv> class_members p (supers (Prepare p) ! i)"

lemma node_class_facts:
  assumes "i < node_count (built p)"
  shows "node_class p i \<subseteq> set (buffers p)" "node_class p i \<noteq> {}" "finite (node_class p i)"
    "b \<in> node_class p i \<Longrightarrow> b' \<in> set (buffers p) \<Longrightarrow> b' \<in> node_class p i \<longleftrightarrow> same_class p (buf_id b) (buf_id b')"
    "b \<in> node_class p i \<Longrightarrow> node_size (node_at (built p) i) = class_extent p (buf_id b)"
    "unat (node_alignment (node_at (built p) i)) = Lcm ((\<lambda>b. unat (alignment b)) ` node_class p i)"
    "set (node_members (node_at (built p) i)) = buf_id ` node_class p i"
proof -
  note n = built_node [OF assms]
  note wf = searchable_built(1) [OF n(1)]
  note c = is_class_alignment [OF wf n(3)]
  show "node_class p i \<subseteq> set (buffers p)" "node_class p i \<noteq> {}" "finite (node_class p i)" by (rule c)+
  show "b \<in> node_class p i \<Longrightarrow> b' \<in> set (buffers p) \<Longrightarrow> b' \<in> node_class p i \<longleftrightarrow> same_class p (buf_id b) (buf_id b')"
    by (rule is_class_closed [OF wf n(3)])
  show "b \<in> node_class p i \<Longrightarrow> node_size (node_at (built p) i) = class_extent p (buf_id b)"
    unfolding n(5) by (rule is_class_extent [OF n(3)])
  show "unat (node_alignment (node_at (built p) i)) = Lcm ((\<lambda>b. unat (alignment b)) ` node_class p i)"
    unfolding n(6) using n(3) by (simp add: is_class_def)
  show "set (node_members (node_at (built p) i)) = buf_id ` node_class p i"
    unfolding n(8) by (rule member_ids_class)
qed

lemma node_representative_member:
  assumes "i < node_count (built p)"
  shows "\<exists>b\<in>node_class p i. buf_id b = node_representative (node_at (built p) i)"
  using class_representative [OF searchable_built(1) [OF built_node(1) [OF assms]] built_node(3) [OF assms]]
    built_node(4) [OF assms] by (auto simp: member_ids_class)

lemma node_pool_allowed:
  assumes "i < node_count (built p)" "pinned_allocations p = []"
  shows "b \<in> node_class p i \<Longrightarrow> node_pool (node_at (built p) i) \<in> set (allowed_pools b)"
    "(\<And>b. b \<in> node_class p i \<Longrightarrow> q \<in> set (allowed_pools b)) \<Longrightarrow> q = node_pool (node_at (built p) i)"
proof -
  let ?s = "supers (Prepare p) ! i"
  note n = built_node [OF assms(1)]
  note b = searchable_built(1,2) [OF n(1)]
  have "is_pinned_class p ?s" by (rule prepared_okD(2) [OF b(2) n(2)])
  then have "sb_pinned ?s = None"
    using assms(2) unfolding is_pinned_class_def by (cases "sb_pinned ?s") auto
  then have pool: "node_pool (node_at (built p) i) = hd (sb_allowed_pools ?s)" by (simp add: n(7) super_pool_def)
  have pools: "set (sb_allowed_pools ?s) = (\<Inter>b\<in>node_class p i. set (allowed_pools b))" "sb_allowed_pools ?s \<noteq> []"
    using n(3) by (simp_all add: is_class_def)
  have "\<not> flexible_pools (Prepare p)" using n(1) by (simp add: searchable_def)
  then have "length (sb_allowed_pools ?s) \<le> 1"
    using n(2) unfolding prepared_okD(8) [OF b(2)] by (metis not_le nth_mem)
  then have one: "set (sb_allowed_pools ?s) = {node_pool (node_at (built p) i)}"
    using pools(2) unfolding pool by (cases "sb_allowed_pools ?s") auto
  show "b \<in> node_class p i \<Longrightarrow> node_pool (node_at (built p) i) \<in> set (allowed_pools b)" using one pools(1) by blast
  show "(\<And>b. b \<in> node_class p i \<Longrightarrow> q \<in> set (allowed_pools b)) \<Longrightarrow> q = node_pool (node_at (built p) i)"
    using one pools(1) by blast
qed

lemma node_not_exclusive:
  assumes "i < node_count (built p)" "pinned_allocations p = []"
  shows "\<not> sb_pinned_exclusive (supers (Prepare p) ! i)"
proof -
  note n = built_node [OF assms(1)]
  have "is_pinned_class p (supers (Prepare p) ! i)"
    by (rule prepared_okD(2) [OF searchable_built(2) [OF n(1)] n(2)])
  then show ?thesis using assms(2) unfolding is_pinned_class_def by auto
qed

lemma valid_node_placement:
  assumes "i < node_count (built p)" "pinned_allocations p = []" "valid_solution p s" "b \<in> node_class p i"
  shows "Find s (buf_id b) = Some \<lparr>pl_pool = node_pool (node_at (built p) i), pl_offset = node_offset p s i\<rparr>"
    "fits_buffer p b \<lparr>pl_pool = node_pool (node_at (built p) i), pl_offset = node_offset p s i\<rparr>"
proof -
  note f = node_class_facts [OF assms(1)]
  obtain r where r: "r \<in> node_class p i" "buf_id r = node_representative (node_at (built p) i)"
    using node_representative_member [OF assms(1)] by blast
  have fit: "\<exists>pl. Find s (buf_id c) = Some pl \<and> fits_buffer p c pl" if "c \<in> node_class p i" for c
    using assms(3) f(1) that unfolding valid_solution_def by blast
  have same: "Find s (buf_id c) = Find s (buf_id r)" if "c \<in> node_class p i" for c
    using valid_same_class [OF assms(3)] f(4) [OF that] f(1) r(1) by blast
  obtain pl where pl: "Find s (buf_id r) = Some pl" using fit [OF r(1)] by blast
  have "pl_pool pl \<in> set (allowed_pools c)" if "c \<in> node_class p i" for c
    using fit [OF that] same [OF that] pl by (auto simp: fits_buffer_def)
  then have "pl_pool pl = node_pool (node_at (built p) i)" by (rule node_pool_allowed(2) [OF assms(1,2)])
  moreover have "pl_offset pl = node_offset p s i" using pl r(2) by (simp add: node_offset_def)
  ultimately have "pl = \<lparr>pl_pool = node_pool (node_at (built p) i), pl_offset = node_offset p s i\<rparr>"
    by (cases pl) simp
  then show find: "Find s (buf_id b) = Some \<lparr>pl_pool = node_pool (node_at (built p) i), pl_offset = node_offset p s i\<rparr>"
    "fits_buffer p b \<lparr>pl_pool = node_pool (node_at (built p) i), pl_offset = node_offset p s i\<rparr>"
    using fit [OF assms(4)] same [OF assms(4)] pl by auto
qed

lemma largest_member:
  assumes "i < node_count (built p)"
  obtains b where "b \<in> node_class p i" "buf_size b = node_size (node_at (built p) i)"
proof -
  note f = node_class_facts [OF assms]
  obtain c where c: "c \<in> node_class p i" using f(2) by blast
  have "{b \<in> set (buffers p). same_class p (buf_id c) (buf_id b)} = node_class p i"
    using f(1) f(4) [OF c] by blast
  then have "class_extent p (buf_id c) \<in> buf_size ` node_class p i"
    unfolding class_extent_def using f(2,3) by (simp add: Max_in)
  then show thesis using that f(5) [OF c] by (metis imageE)
qed

lemma linked_apart:
  assumes ij: "i < node_count (built p)" "j < node_count (built p)" and pins: "pinned_allocations p = []"
    and v: "valid_solution p s" and l: "linked p (Prepare p) i j"
  shows "\<exists>b\<in>node_class p i. \<exists>b'\<in>node_class p j. placed_apart p s (buf_id b) (buf_id b')"
proof -
  note ni = built_node [OF ij(1)] and nj = built_node [OF ij(2)]
  note b = searchable_built(1,2) [OF ni(1)]
  have ne: "i \<noteq> j" using l by (simp add: linked_def)
  have "SuperBuffersConflict p (supers (Prepare p) ! i) (supers (Prepare p) ! j) \<or> Separated (Prepare p) i j"
    using l node_not_exclusive [OF ij(1) pins] node_not_exclusive [OF ij(2) pins]
    by (auto simp: linked_def blocks_def)
  then show ?thesis
  proof
    assume "SuperBuffersConflict p (supers (Prepare p) ! i) (supers (Prepare p) ! j)"
    then obtain c c' where c: "c \<in> node_class p i" "c' \<in> node_class p j" "HaveTemporalConflict p c c'"
      by (auto simp: SuperBuffersConflict_iff)
    have mem: "c \<in> set (buffers p)" "c' \<in> set (buffers p)"
      using c node_class_facts(1) ij by blast+
    have "\<not> same_class p (buf_id c) (buf_id c')"
      using same_class_same_super [OF b mem ni(2) c(1) nj(2) c(2)] ne by blast
    then have "placed_apart p s (buf_id c) (buf_id c')"
      using v mem c(3) by (auto simp: valid_solution_def must_not_share_def)
    then show ?thesis using c by blast
  next
    assume "Separated (Prepare p) i j"
    then obtain c u w where c: "c \<in> set (separations p)" "id_to_super (Prepare p) (sep_first c) = Some u"
      "id_to_super (Prepare p) (sep_second c) = Some w" "{u, w} = {i, j}"
      unfolding prepared_okD(6) [OF b(2)] by blast
    have apart: "placed_apart p s (sep_first c) (sep_second c)" "placed_apart p s (sep_second c) (sep_first c)"
      using v c(1) placed_apart_commute by (auto simp: valid_solution_def)
    obtain b1 b2 where bb: "b1 \<in> node_class p u" "buf_id b1 = sep_first c" "b2 \<in> node_class p w" "buf_id b2 = sep_second c"
      using c(2,3) unfolding prepared_okD(5) [OF b(2)] member_ids_class by (metis imageE)
    consider "u = i" "w = j" | "u = j" "w = i" using c(4) by (metis doubleton_eq_iff)
    then show ?thesis
    proof cases
      case 1
      then show ?thesis using bb apart(1) by (intro bexI [of _ b1] bexI [of _ b2]) simp_all
    next
      case 2
      then show ?thesis using bb apart(2) by (intro bexI [of _ b2] bexI [of _ b1]) simp_all
    qed
  qed
qed

lemma valid_legal:
  assumes pins: "pinned_allocations p = []" and v: "valid_solution p s"
  shows "legal p (built p) (pool_set (built p) pool) (offsets_of p s)"
proof (rule built.legalI)
  let ?sr = "built p"
  fix i
  assume "i \<in> pool_set ?sr pool"
  then have i: "i < node_count ?sr" by (simp add: pool_set_def)
  note n = built_node [OF i] and f = node_class_facts [OF i]
  note wf = searchable_built(1) [OF n(1)]
  let ?q = "node_pool (node_at ?sr i)" and ?o = "node_offset p s i" and ?z = "node_size (node_at ?sr i)"
  note place = valid_node_placement [OF i pins v]
  have "unat (alignment b) dvd unat ?o" if "b \<in> node_class p i" for b
    using place(2) [OF that] by (simp add: fits_buffer_def)
  then have "unat (node_alignment (node_at ?sr i)) dvd unat ?o" unfolding f(6) by (auto intro: Lcm_least)
  moreover have "pool_fits p ?sr i ?o"
  proof -
    obtain b where b: "b \<in> node_class p i" "buf_size b = ?z" using largest_member [OF i] .
    have bb: "b \<in> set (buffers p)" using b(1) f(1) by blast
    note fit = place(2) [OF b(1), unfolded fits_buffer_def, simplified]
    have "?q \<in> pool_id ` set (pools p)"
      using fit well_formedD(4) [OF wf bb] by (auto simp: wf_buffer_def)
    then obtain pool where pool: "FindPool p ?q = Some pool" by (metis FindPool_None_iff option.exhaust)
    then have wfp: "wf_pool pool" using FindPool_SomeD well_formedD(3) [OF wf] by blast
    have nov: "\<not> AddOverflows ?o ?z" using fit b(2) by (simp add: AddOverflows_less)
    have "\<not> AddressRangesOverlap ?o ?z (range_begin r) (range_end r - range_begin r)"
      if r: "r \<in> set (reserved_ranges pool)" for r
      using fit pool r b(2) wfp by (subst reserved_overlap) (auto simp: wf_pool_def nov less_imp_le)
    then show ?thesis
      using pool nov fit b(2)
      by (auto simp: pool_fits_def word_less_nat_alt unat_plus_no_overflow not_less)
  qed
  ultimately show "aligned_to (node_alignment (node_at ?sr i)) (offsets_of p s ! i) \<and> pool_fits p ?sr i (offsets_of p s ! i)"
    using i by (simp add: aligned_to_def)
next
  let ?sr = "built p"
  fix i j
  assume "i \<in> pool_set ?sr pool" "j \<in> pool_set ?sr pool" and h: "j \<in> set (hard_neighbors ?sr ! i)"
  then have ij: "i < node_count ?sr" "j < node_count ?sr" "node_pool (node_at ?sr i) = pool" "node_pool (node_at ?sr j) = pool"
    by (auto simp: pool_set_def)
  have "linked p (Prepare p) i j" using h built_hard [OF ij(1)] by simp
  then obtain b b' where b: "b \<in> node_class p i" "b' \<in> node_class p j" "placed_apart p s (buf_id b) (buf_id b')"
    using linked_apart [OF ij(1,2) pins v] by blast
  have "apart (node_offset p s i) (node_size (node_at ?sr i)) (node_offset p s j) (node_size (node_at ?sr j))"
    using b(3) valid_node_placement(1) [OF ij(1) pins v b(1)] valid_node_placement(1) [OF ij(2) pins v b(2)]
      node_class_facts(5) [OF ij(1) b(1)] node_class_facts(5) [OF ij(2) b(2)] ij(3,4)
    by (simp add: placed_apart_def)
  then show "\<not> overlap ?sr i (offsets_of p s ! i) j (offsets_of p s ! j)"
    using ij not_overlap_apart built.node_size_pos by (simp add: overlap_def)
qed (auto simp: pool_set_def)

section \<open>From node offsets to solutions\<close>

lemma foldl_om_emplace:
  "map_of (foldl (\<lambda>m (k, v). om_emplace k v m) m kvs) = map_of kvs ++ map_of m"
proof (induction kvs arbitrary: m)
  case (Cons kv kvs)
  obtain k v where "kv = (k, v)" by fastforce
  then show ?case
    unfolding foldl.simps Cons.IH
    by (auto simp: map_of_om_emplace map_add_def fun_eq_iff dom_def split: option.splits)
qed simp

lemma om_ok_foldl_emplace: "om_ok m \<Longrightarrow> om_ok (foldl (\<lambda>m (k, v). om_emplace k v m) m kvs)"
  by (induction kvs arbitrary: m) (auto simp: split_beta)

definition node_placements :: "ReusePenaltySearchSpace \<Rightarrow> u64 list \<Rightarrow> (BufferId \<times> Placement) list" where
  "node_placements search A = concat (map (\<lambda>(i, n). map (\<lambda>m. (m, \<lparr>pl_pool = node_pool n, pl_offset = A ! i\<rparr>)) (node_members n))
     (zip [0..<node_count search] (search_nodes search)))"

lemma expand_node_placements:
  "placements (ExpandReuseNodeSolution search A) = foldl (\<lambda>m (k, v). om_emplace k v m) [] (node_placements search A)"
proof -
  have "foldl (\<lambda>m (index, node). foldl (\<lambda>m member. om_emplace member \<lparr>pl_pool = node_pool node, pl_offset = A ! index\<rparr> m)
          m (node_members node)) m ns =
    foldl (\<lambda>m (k, v). om_emplace k v m) m
      (concat (map (\<lambda>(i, n). map (\<lambda>m. (m, \<lparr>pl_pool = node_pool n, pl_offset = A ! i\<rparr>)) (node_members n)) ns))"
    for m and ns :: "(nat \<times> PlacementSearchNode) list"
    by (induction ns arbitrary: m) (auto simp: foldl_map' split_beta)
  then show ?thesis by (simp add: ExpandReuseNodeSolution_def node_placements_def)
qed

lemma set_node_placements:
  "(a, pl) \<in> set (node_placements search A) \<longleftrightarrow>
   (\<exists>i<node_count search. a \<in> set (node_members (node_at search i)) \<and>
      pl = \<lparr>pl_pool = node_pool (node_at search i), pl_offset = A ! i\<rparr>)"
proof -
  have "set (zip [0..<node_count search] (search_nodes search)) = (\<lambda>i. (i, node_at search i)) ` {..<node_count search}"
    by (force simp: set_zip)
  then show ?thesis by (auto simp: node_placements_def)
qed

lemma Find_expand:
  "Find (ExpandReuseNodeSolution (built p) A) a = Some pl \<longleftrightarrow>
   (\<exists>i<node_count (built p). a \<in> buf_id ` node_class p i \<and>
      pl = \<lparr>pl_pool = node_pool (node_at (built p) i), pl_offset = A ! i\<rparr>)"
proof -
  let ?ns = "search_nodes (built p)" and ?kvs = "node_placements (built p) A"
  have mem: "(a, pl) \<in> set ?kvs \<longleftrightarrow> (\<exists>i<node_count (built p). a \<in> buf_id ` node_class p i \<and>
      pl = \<lparr>pl_pool = node_pool (node_at (built p) i), pl_offset = A ! i\<rparr>)" for a pl
    unfolding set_node_placements using node_class_facts(7) by blast
  have one: "pl = pl'" if h: "(a, pl) \<in> set ?kvs" "(a, pl') \<in> set ?kvs" for pl pl'
  proof -
    obtain i j where ij: "i < node_count (built p)" "a \<in> buf_id ` node_class p i"
      "pl = \<lparr>pl_pool = node_pool (node_at (built p) i), pl_offset = A ! i\<rparr>"
      "j < node_count (built p)" "a \<in> buf_id ` node_class p j"
      "pl' = \<lparr>pl_pool = node_pool (node_at (built p) j), pl_offset = A ! j\<rparr>"
      using h unfolding mem by blast
    have "i = j"
    proof (rule ccontr)
      assume "i \<noteq> j"
      then have "member_ids p (supers (Prepare p) ! i) \<inter> member_ids p (supers (Prepare p) ! j) = {}"
        using prepared_okD(3) [OF searchable_built(2) [OF built_node(1) [OF ij(1)]]] built_node(2) ij(1,4) by blast
      then show False using ij(2,5) by (auto simp: member_ids_class)
    qed
    then show ?thesis using ij(3,6) by simp
  qed
  have "Find (ExpandReuseNodeSolution (built p) A) a = map_of ?kvs a"
    unfolding Find_def expand_node_placements foldl_om_emplace by simp
  moreover have "map_of ?kvs a = Some pl \<longleftrightarrow> (a, pl) \<in> set ?kvs"
    using one by (metis map_of_SomeD weak_map_of_SomeI)
  ultimately show ?thesis unfolding mem by simp
qed

lemma Find_expand_node:
  "i < node_count (built p) \<Longrightarrow> b \<in> node_class p i \<Longrightarrow>
   Find (ExpandReuseNodeSolution (built p) A) (buf_id b) =
     Some \<lparr>pl_pool = node_pool (node_at (built p) i), pl_offset = A ! i\<rparr>"
  unfolding Find_expand by blast

lemma buffer_node:
  assumes "searchable p" "b \<in> set (buffers p)"
  obtains i where "i < node_count (built p)" "b \<in> node_class p i"
proof -
  note s = searchable_built(1,2) [OF assms(1)]
  obtain k where "k < length (supers (Prepare p))" "b \<in> node_class p k"
    by (rule member_of_class [OF s(2) assms(2) well_formedD(2) [OF s(1)]])
  then show thesis using that node_count_supers [OF assms(1)] by simp
qed

lemma blocked_nodes_apart:
  assumes legal: "\<And>pool. legal p (built p) (pool_set (built p) pool) A"
    and ij: "i < node_count (built p)" "j < node_count (built p)" "i \<noteq> j" "blocks p (Prepare p) i j"
    and b: "b \<in> node_class p i" "b' \<in> node_class p j"
  shows "placed_apart p (ExpandReuseNodeSolution (built p) A) (buf_id b) (buf_id b')"
proof (cases "node_pool (node_at (built p) i) = node_pool (node_at (built p) j)")
  case True
  let ?sr = "built p" and ?q = "node_pool (node_at (built p) i)"
  have mem: "i \<in> pool_set ?sr ?q" "j \<in> pool_set ?sr ?q" using ij True by (auto simp: pool_set_def)
  have "linked p (Prepare p) i j" using ij(3,4) True built_node(7) ij(1,2) by (simp add: linked_def)
  then have "j \<in> set (hard_neighbors ?sr ! i)" using built_hard [OF ij(1)] ij(2) by simp
  then have "\<not> overlap ?sr i (A ! i) j (A ! j)"
    using built.legalD(3) [OF legal mem(1) ij(1)] mem(2) True by simp
  then have "apart (A ! i) (node_size (node_at ?sr i)) (A ! j) (node_size (node_at ?sr j))"
    using not_overlap_apart built.node_size_pos ij by (simp add: overlap_def)
  then show ?thesis
    using node_class_facts(5) [OF ij(1) b(1)] node_class_facts(5) [OF ij(2) b(2)]
    by (simp add: placed_apart_def Find_expand_node [OF ij(1) b(1)] Find_expand_node [OF ij(2) b(2)])
qed (simp add: placed_apart_def Find_expand_node [OF ij(1) b(1)] Find_expand_node [OF ij(2) b(2)])

lemma legal_fits_buffer:
  assumes legal: "\<And>pool. legal p (built p) (pool_set (built p) pool) A"
    and i: "i < node_count (built p)" "b \<in> node_class p i" and pins: "pinned_allocations p = []"
  shows "fits_buffer p b \<lparr>pl_pool = node_pool (node_at (built p) i), pl_offset = A ! i\<rparr>"
proof -
  let ?sr = "built p" and ?q = "node_pool (node_at (built p) i)" and ?z = "node_size (node_at (built p) i)"
  have mem: "i \<in> pool_set ?sr ?q" using i(1) by (simp add: pool_set_def)
  note leg = built.legalD [OF legal mem i(1)]
  note wf = searchable_built(1) [OF built_node(1) [OF i(1)]]
  note f = node_class_facts [OF i(1)]
  have bb: "b \<in> set (buffers p)" using f(1) i(2) by blast
  have "unat (alignment b) dvd unat (node_alignment (node_at ?sr i))"
    unfolding f(6) by (rule dvd_Lcm) (use i(2) in blast)
  then have align: "unat (alignment b) dvd unat (A ! i)" using leg(1) by (auto simp: aligned_to_def intro: dvd_trans)
  have le: "unat (buf_size b) \<le> unat ?z"
    using class_extent_pos(2) [OF wf bb] f(5) [OF i(2)] by (simp add: word_le_nat_alt)
  obtain pool where pool: "FindPool p ?q = Some pool" "\<not> AddOverflows (A ! i) ?z" "\<not> exceeds (A ! i + ?z) (capacity pool)"
    "\<forall>r\<in>set (reserved_ranges pool). \<not> AddressRangesOverlap (A ! i) ?z (range_begin r) (range_end r - range_begin r)"
    using leg(2) by (auto simp: pool_fits_def)
  have wfp: "wf_pool pool" using pool(1) FindPool_SomeD well_formedD(3) [OF wf] by blast
  have nov: "unat (A ! i) + unat ?z < 18446744073709551616" using pool(2) by (simp add: AddOverflows_less)
  have cap: "unat (A ! i) + unat (buf_size b) \<le> unat c" if "capacity pool = Some c" for c
    using that pool(2,3) le by (auto simp: not_less word_le_nat_alt unat_plus_no_overflow)
  have res: "bytes (A ! i) (buf_size b) \<inter> range_bytes (range_begin r) (range_end r) = {}"
    if r: "r \<in> set (reserved_ranges pool)" for r
  proof -
    have "bytes (A ! i) ?z \<inter> range_bytes (range_begin r) (range_end r) = {}"
      using pool(4) r reserved_overlap [of r "A ! i" ?z] wfp pool(2) by (auto simp: wf_pool_def less_imp_le)
    moreover have "bytes (A ! i) (buf_size b) \<subseteq> bytes (A ! i) ?z" using le by (auto simp: bytes_def)
    ultimately show ?thesis by blast
  qed
  show ?thesis
    using node_pool_allowed(1) [OF i(1) pins i(2)] align nov le cap res pool(1) by (auto simp: fits_buffer_def)
qed

lemma legal_valid:
  assumes s: "searchable p" and pins: "pinned_allocations p = []"
    and legal: "\<And>pool. legal p (built p) (pool_set (built p) pool) A"
  shows "valid_solution p (ExpandReuseNodeSolution (built p) A)"
proof -
  let ?e = "ExpandReuseNodeSolution (built p) A"
  note b = searchable_built(1,2) [OF s]
  have fits: "\<exists>pl. Find ?e (buf_id c) = Some pl \<and> fits_buffer p c pl" if c: "c \<in> set (buffers p)" for c
  proof -
    obtain i where "i < node_count (built p)" "c \<in> node_class p i" by (rule buffer_node [OF s c])
    then show ?thesis using Find_expand_node legal_fits_buffer [OF legal _ _ pins] by blast
  qed
  have entries: "a \<in> buffer_ids p \<and> pl_pool pl \<in> pool_id ` set (pools p)" if "(a, pl) \<in> set (placements ?e)" for a pl
  proof -
    have "om_ok (placements ?e)" unfolding expand_node_placements by (rule om_ok_foldl_emplace) simp
    then have "Find ?e a = Some pl" using that om_ok_in_set by (fastforce simp: Find_def)
    then obtain i c where i: "i < node_count (built p)" "c \<in> node_class p i" "buf_id c = a"
      "pl = \<lparr>pl_pool = node_pool (node_at (built p) i), pl_offset = A ! i\<rparr>" unfolding Find_expand by blast
    have "c \<in> set (buffers p)" using i node_class_facts(1) by blast
    then show ?thesis
      using i node_pool_allowed(1) [OF i(1) pins i(2)] well_formedD(4) [OF b(1), of c]
      by (auto simp: wf_buffer_def buffer_ids_def)
  qed
  have node: "c \<in> set (buffers p) \<Longrightarrow> \<exists>i<node_count (built p). c \<in> node_class p i" for c
    using buffer_node [OF s] by metis
  have cols: "Find ?e (col_first c) = Find ?e (col_second c)" if c: "c \<in> set (colocations p)" for c
  proof -
    obtain x y where xy: "x \<in> set (buffers p)" "buf_id x = col_first c" "y \<in> set (buffers p)" "buf_id y = col_second c"
      using well_formedD(5) [OF b(1) c] by (auto simp: buffer_ids_def)
    obtain i where i: "i < node_count (built p)" "x \<in> node_class p i" using node [OF xy(1)] by blast
    have "y \<in> node_class p i"
      using node_class_facts(4) [OF i xy(3)] same_class_colocation [OF c] xy(2,4) by simp
    then show ?thesis using Find_expand_node [OF i] Find_expand_node [OF i(1), of y] xy(2,4) by metis
  qed
  have share: "placed_apart p ?e (buf_id x) (buf_id y)"
    if xy: "x \<in> set (buffers p)" "y \<in> set (buffers p)" "must_not_share p x y" "\<not> same_class p (buf_id x) (buf_id y)" for x y
  proof -
    obtain i j where ij: "i < node_count (built p)" "x \<in> node_class p i" "j < node_count (built p)" "y \<in> node_class p j"
      using node xy(1,2) by metis
    note sup = built_node(2) [OF ij(1)] ij(2) built_node(2) [OF ij(3)] ij(4)
    have "i \<noteq> j" using same_class_same_super [OF b xy(1,2) sup] xy(4) by blast
    then show ?thesis
      by (rule blocked_nodes_apart [OF legal ij(1,3) _ must_not_share_blocks [OF b(2) xy(3) sup] ij(2,4)])
  qed
  have seps: "placed_apart p ?e (sep_first c) (sep_second c)" if c: "c \<in> set (separations p)" for c
  proof -
    obtain x y where xy: "x \<in> set (buffers p)" "buf_id x = sep_first c" "y \<in> set (buffers p)" "buf_id y = sep_second c"
      using well_formedD(6) [OF b(1) c] by (auto simp: wf_separation_def buffer_ids_def)
    obtain i j where ij: "i < node_count (built p)" "x \<in> node_class p i" "j < node_count (built p)" "y \<in> node_class p j"
      using node xy(1,3) by metis
    have ids: "id_to_super (Prepare p) (sep_first c) = Some i" "id_to_super (Prepare p) (sep_second c) = Some j"
      using prepared_okD(5) [OF b(2)] built_node(2) [OF ij(1)] built_node(2) [OF ij(3)] ij(2,4) xy(2,4)
      by (metis imageI member_ids_class)+
    have "Separated (Prepare p) i j" unfolding prepared_okD(6) [OF b(2)] using c ids by blast
    moreover have "i \<noteq> j" using prepared_okD(7) [OF b(2) c] ids by auto
    ultimately show ?thesis
      using blocked_nodes_apart [OF legal ij(1,3) _ _ ij(2,4)] xy(2,4) by (simp add: blocks_def)
  qed
  show ?thesis
    unfolding valid_solution_def using entries fits cols share seps pins by auto
qed

end
