(* ===== verification/Canonical_Cost.thy ===== *)
theory Canonical_Cost
  imports Canonical_Solution
begin

text \<open>
  The soft cost of the search view is the reuse cost of the objective: for a valid solution the
  penalties it pays, added up in the objective, and the weights of its overlapping node pairs, added
  up by the search, saturate to the same number.
\<close>

section \<open>Adding weights into an ordered map\<close>

definition weight_sum :: "('k \<Rightarrow> bool) \<Rightarrow> ('k, u64) omap \<Rightarrow> nat" where
  "weight_sum paid m = (\<Sum>e\<leftarrow>m. if paid (fst e) then unat (snd e) else 0)"

lemma om_get_absent: "k \<notin> fst ` set m \<Longrightarrow> om_get d m k = d"
  by (simp add: om_get_def map_of_eq_None_iff [THEN iffD2])

lemma weight_sum_put:
  assumes "om_ok m"
  shows "weight_sum paid (om_put k v m) + (if paid k then unat (om_get 0 m k) else 0) =
    weight_sum paid m + (if paid k then unat v else 0)"
  using assms
proof (induction k v m rule: om_put.induct)
  case (2 k v k' v' m)
  have m: "om_ok m" "\<forall>x\<in>fst ` set m. k' < x" using "2.prems" by (auto simp: om_ok_def)
  show ?case
  proof (cases "k < k'")
    case True
    then have "k \<notin> fst ` set ((k', v') # m)" using m(2) by auto
    then have "om_get 0 ((k', v') # m) k = 0" by (rule om_get_absent)
    then show ?thesis using True by (simp add: weight_sum_def)
  next
    case False
    then show ?thesis
      using "2.IH" m(1) by (auto simp: weight_sum_def om_get_def)
  qed
qed (simp_all add: weight_sum_def om_get_def)

lemma saturated_eqI: "min a 18446744073709551615 = min b 18446744073709551615 \<Longrightarrow> saturated a = saturated b"
  by (simp add: saturated_def)

lemma saturated_cong_add: "saturated a = saturated b \<Longrightarrow> saturated (a + c) = saturated (b + c)"
  by (metis saturated_add)

lemma weight_sum_add:
  assumes "om_ok m"
  shows "saturated (weight_sum paid (om_put k (SaturatingAdd (om_get 0 m k) c) m)) =
    saturated (weight_sum paid m + (if paid k then unat c else 0))"
proof (cases "paid k")
  case True
  have "weight_sum paid (om_put k (SaturatingAdd (om_get 0 m k) c) m) + unat (om_get 0 m k) =
      weight_sum paid m + min (unat (om_get 0 m k) + unat c) 18446744073709551615"
    using weight_sum_put [OF assms, of paid k "SaturatingAdd (om_get 0 m k) c"] True by (simp add: unat_SaturatingAdd)
  moreover have "unat (om_get 0 m k) \<le> weight_sum paid m"
    using weight_sum_put [OF assms, of paid k 0] True by simp
  ultimately show ?thesis using True by (intro saturated_eqI) (auto simp: min_def split: if_splits)
next
  case False
  then show ?thesis using weight_sum_put [OF assms, of paid k "SaturatingAdd (om_get 0 m k) c"] by simp
qed

section \<open>The soft weights of a problem\<close>

text \<open>The pair of nodes a penalty counts for, when it counts at all.\<close>

definition penalty_pair :: "DsaProblem \<Rightarrow> ReusePenalty \<Rightarrow> ReuseNodePair option" where
  "penalty_pair p k =
     (case (index_node_members (search_nodes (built p)) (pen_first k),
            index_node_members (search_nodes (built p)) (pen_second k)) of
        (Some i, Some j) \<Rightarrow>
          if i = j \<or> node_pool (node_at (built p) i) \<noteq> node_pool (node_at (built p) j) \<or>
             j \<in> set (hard_neighbors (built p) ! i) then None else Some (CanonicalNodePair i j)
      | _ \<Rightarrow> None)"

definition penalty_paid :: "DsaProblem \<Rightarrow> (ReuseNodePair \<Rightarrow> bool) \<Rightarrow> ReusePenalty \<Rightarrow> nat" where
  "penalty_paid p paid k =
     (case penalty_pair p k of None \<Rightarrow> 0 | Some pair \<Rightarrow> if paid pair then unat (pen_cost k) else 0)"

lemma add_soft_weight_pair:
  "add_soft_weight (search_nodes (built p)) (index_node_members (search_nodes (built p))) (hard_neighbors (built p)) m k =
   (case penalty_pair p k of None \<Rightarrow> m
    | Some pair \<Rightarrow> om_put pair (SaturatingAdd (om_get 0 m pair) (pen_cost k)) m)"
  by (auto simp: add_soft_weight_def penalty_pair_def Let_def split: option.splits)

lemma built_weight_sum:
  assumes "searchable p"
  shows "saturated (weight_sum paid (soft_weights (built p))) =
    saturated (\<Sum>k\<leftarrow>penalties_of p. penalty_paid p paid k)"
proof -
  define add where "add = add_soft_weight (search_nodes (built p)) (index_node_members (search_nodes (built p)))
      (hard_neighbors (built p))"
  have step: "om_ok (add m k) \<and>
      saturated (weight_sum paid (add m k)) = saturated (weight_sum paid m + penalty_paid p paid k)"
    if m: "om_ok m" for m k
  proof (cases "penalty_pair p k")
    case None
    then show ?thesis using m by (simp add: add_def add_soft_weight_pair penalty_paid_def)
  next
    case (Some pair)
    show ?thesis
      using weight_sum_add [OF m, of paid pair "pen_cost k"] om_ok_om_put [OF m]
      by (simp add: add_def add_soft_weight_pair penalty_paid_def Some)
  qed
  have "saturated (weight_sum paid (foldl add m ks)) =
      saturated (weight_sum paid m + (\<Sum>k\<leftarrow>ks. penalty_paid p paid k))"
    if "om_ok m" for m ks
    using that
  proof (induction ks arbitrary: m)
    case (Cons k ks)
    have "saturated (weight_sum paid (foldl add m (k # ks))) =
        saturated (weight_sum paid (add m k) + (\<Sum>k\<leftarrow>ks. penalty_paid p paid k))"
      using Cons.IH [of "add m k"] step [OF Cons.prems] by simp
    also have "\<dots> = saturated (weight_sum paid m + penalty_paid p paid k + (\<Sum>k\<leftarrow>ks. penalty_paid p paid k))"
      using step [OF Cons.prems] by (intro saturated_cong_add) blast
    finally show ?case by (simp add: add.assoc)
  qed simp
  from this [of "[]" "penalties_of p"] show ?thesis
    unfolding searchable_built(5) [OF assms] penalties_of_def add_def [symmetric] by (simp add: weight_sum_def)
qed

section \<open>What a valid solution pays\<close>

definition pair_overlaps :: "DsaProblem \<Rightarrow> u64 list \<Rightarrow> ReuseNodePair \<Rightarrow> bool" where
  "pair_overlaps p A pair = overlap (built p) (fst pair) (A ! fst pair) (snd pair) (A ! snd pair)"

lemma pair_overlaps_canonical:
  "pair_overlaps p A (CanonicalNodePair i j) = overlap (built p) i (A ! i) j (A ! j)"
  by (simp add: pair_overlaps_def CanonicalNodePair_def overlap_commute)

lemma soft_cost_weight_sum:
  "soft_cost (built p) {..<node_count (built p)} A = weight_sum (pair_overlaps p A) (soft_weights (built p))"
  unfolding soft_cost_def weight_sum_def
proof (rule arg_cong [of _ _ sum_list], rule map_cong [OF refl])
  fix e
  assume e: "e \<in> set (soft_weights (built p))"
  obtain i j w where ij: "e = ((i, j), w)" by (metis prod.exhaust)
  have "i < j" "j < node_count (built p)" using built.soft_pair [of i j w p] e ij by auto
  then show "entry_cost (built p) {..<node_count (built p)} A e =
      (if pair_overlaps p A (fst e) then unat (snd e) else 0)"
    by (simp add: entry_cost_def ij pair_overlaps_def)
qed

lemma penalty_paid_pays:
  assumes pins: "pinned_allocations p = []" and v: "valid_solution p s" and sr: "searchable p"
    and k: "k \<in> set (penalties_of p)"
  shows "penalty_paid p (pair_overlaps p (offsets_of p s)) k = (if pays p s k then unat (pen_cost k) else 0)"
proof -
  note wf = searchable_built(1,2) [OF sr]
  have "pen_first k \<in> buffer_ids p" "pen_second k \<in> buffer_ids p"
    using wf(1) k by (cases "cost_model p"; simp add: well_formed_def penalties_of_def)+
  then obtain x y where xy: "x \<in> set (buffers p)" "buf_id x = pen_first k" "y \<in> set (buffers p)" "buf_id y = pen_second k"
    by (auto simp: buffer_ids_def)
  obtain i where i: "i < node_count (built p)" "x \<in> node_class p i" by (rule buffer_node [OF sr xy(1)])
  obtain j where j: "j < node_count (built p)" "y \<in> node_class p j" by (rule buffer_node [OF sr xy(3)])
  have idx: "index_node_members (search_nodes (built p)) (pen_first k) = Some i"
    "index_node_members (search_nodes (built p)) (pen_second k) = Some j"
    unfolding built_member using i j xy by (auto simp: member_ids_class intro: rev_image_eqI)
  note find = FindBuffer_in_set [OF well_formedD(2) [OF wf(1)] xy(1)] FindBuffer_in_set [OF well_formedD(2) [OF wf(1)] xy(3)]
  note place = valid_node_placement(1) [OF i(1) pins v i(2)] valid_node_placement(1) [OF j(1) pins v j(2)]
  have same: "same_class p (pen_first k) (pen_second k) \<longleftrightarrow> i = j"
    using same_class_same_super [OF wf xy(1,3) built_node(2) [OF i(1)] i(2) built_node(2) [OF j(1)] j(2)] xy by simp
  let ?pools = "node_pool (node_at (built p) i) = node_pool (node_at (built p) j)"
  let ?ov = "overlap (built p) i (offsets_of p s ! i) j (offsets_of p s ! j)"
  have ov: "?ov \<longleftrightarrow> AddressRangesOverlap (node_offset p s i) (class_extent p (pen_first k))
      (node_offset p s j) (class_extent p (pen_second k))"
    using node_class_facts(5) [OF i] node_class_facts(5) [OF j] i(1) j(1) xy by (simp add: overlap_def)
  have pays: "pays p s k \<longleftrightarrow> ?pools \<and> i \<noteq> j \<and> \<not> HaveTemporalConflict p x y \<and> ?ov"
    using find place xy same ov by (simp add: pays_def)
  have clear: "\<not> HaveTemporalConflict p x y \<and> j \<notin> set (hard_neighbors (built p) ! i)"
    if h: "?pools" "i \<noteq> j" "?ov"
  proof
    show "\<not> HaveTemporalConflict p x y"
    proof
      assume "HaveTemporalConflict p x y"
      then have "must_not_share p x y" by (simp add: must_not_share_def)
      moreover have "\<not> same_class p (buf_id x) (buf_id y)" using same h(2) xy by simp
      ultimately have "placed_apart p s (buf_id x) (buf_id y)"
        using v xy(1,3) unfolding valid_solution_def by blast
      then have "apart (node_offset p s i) (class_extent p (buf_id x)) (node_offset p s j) (class_extent p (buf_id y))"
        using place h(1) by (simp add: placed_apart_def)
      then show False
        using h(3) ov not_overlap_apart class_extent_pos(1) [OF wf(1)] xy by metis
    qed
    have "i \<in> pool_set (built p) (node_pool (node_at (built p) i))" "j \<in> pool_set (built p) (node_pool (node_at (built p) i))"
      using i(1) j(1) h(1) by (simp_all add: pool_set_def)
    then show "j \<notin> set (hard_neighbors (built p) ! i)"
      using built.legalD(3) [OF valid_legal [OF pins v] _ i(1)] h(1,3) by metis
  qed
  show ?thesis
    using clear pays idx by (auto simp: penalty_paid_def penalty_pair_def pair_overlaps_canonical)
qed

lemma reuse_cost_soft_cost:
  assumes pins: "pinned_allocations p = []" and v: "valid_solution p s" and sr: "searchable p"
  shows "reuse_cost (EvaluateObjective p s) =
    saturated (soft_cost (built p) {..<node_count (built p)} (offsets_of p s))"
proof -
  have "(\<Sum>k\<leftarrow>penalties_of p. penalty_paid p (pair_overlaps p (offsets_of p s)) k) =
      (\<Sum>k\<leftarrow>penalties_of p. if pays p s k then unat (pen_cost k) else 0)"
    by (intro arg_cong [of _ _ sum_list] map_cong refl penalty_paid_pays [OF pins v sr])
  also have "\<dots> = (\<Sum>k\<leftarrow>filter (pays p s) (penalties_of p). unat (pen_cost k))"
    by (induction "penalties_of p") (simp_all add: sum_list_map_filter')
  finally have "saturated (soft_cost (built p) {..<node_count (built p)} (offsets_of p s)) =
      saturated (\<Sum>k\<leftarrow>filter (pays p s) (penalties_of p). unat (pen_cost k))"
    unfolding soft_cost_weight_sum built_weight_sum [OF sr] by simp
  then show ?thesis
    unfolding word_unat_eq_iff reuse_cost_unat [OF searchable_built(1) [OF sr]] by (simp add: unat_saturated)
qed

section \<open>Pools\<close>

lemma soft_cost_pools:
  assumes "distinct qs" "\<forall>i<node_count (built p). node_pool (node_at (built p) i) \<in> set qs"
  shows "soft_cost (built p) {..<node_count (built p)} A = (\<Sum>q\<leftarrow>qs. soft_cost (built p) (pool_set (built p) q) A)"
proof -
  have "entry_cost (built p) {..<node_count (built p)} A e = (\<Sum>q\<leftarrow>qs. entry_cost (built p) (pool_set (built p) q) A e)"
    if e: "e \<in> set (soft_weights (built p))" for e
  proof -
    obtain i j w where ij: "e = ((i, j), w)" by (metis prod.exhaust)
    have l: "i < node_count (built p)" "j < node_count (built p)"
      "node_pool (node_at (built p) i) = node_pool (node_at (built p) j)"
      using built.soft_pair [of i j w p] e ij by auto
    let ?c = "if overlap (built p) i (A ! i) j (A ! j) then unat w else 0"
    have "(\<Sum>q\<leftarrow>qs. entry_cost (built p) (pool_set (built p) q) A e) =
        (\<Sum>q\<leftarrow>qs. if q = node_pool (node_at (built p) i) then ?c else 0)"
      by (intro arg_cong [of _ _ sum_list] map_cong refl) (use l in \<open>auto simp: ij entry_cost_def pool_set_def\<close>)
    also have "\<dots> = ?c"
      using assms l(1) by (simp add: sum_list_distinct_conv_sum_set)
    finally show ?thesis using l by (simp add: ij entry_cost_def)
  qed
  then have "soft_cost (built p) {..<node_count (built p)} A =
      (\<Sum>e\<leftarrow>soft_weights (built p). \<Sum>q\<leftarrow>qs. entry_cost (built p) (pool_set (built p) q) A e)"
    unfolding soft_cost_def by (intro arg_cong [of _ _ sum_list] map_cong refl)
  also have "\<dots> = (\<Sum>q\<leftarrow>qs. soft_cost (built p) (pool_set (built p) q) A)"
    unfolding soft_cost_def by (induction qs) (simp_all add: sum_list_addf)
  finally show ?thesis .
qed

end
