(* ===== verification/Canonical_Pools.thy ===== *)
theory Canonical_Pools
  imports Canonical_Cost
begin

text \<open>
  All pools of the canonical search together: the offsets found pool by pool are legal in every pool
  and best in each, and best in each pool is best for the declared objective of the whole problem as
  long as the reuse cost comes before the peaks and does not saturate.
\<close>

section \<open>The loop over the pools\<close>

abbreviation legal_in :: "DsaProblem \<Rightarrow> PoolId \<Rightarrow> u64 list \<Rightarrow> bool" where
  "legal_in p q A \<equiv> legal p (built p) (pool_set (built p) q) A"

abbreviation score_in :: "DsaProblem \<Rightarrow> PoolId \<Rightarrow> u64 list \<Rightarrow> Score" where
  "score_in p q A \<equiv> vector_score p (built p) q (pool_set (built p) q) A"

lemma legal_in_cong:
  "legal_in p q A \<Longrightarrow> length B = node_count (built p) \<Longrightarrow>
   (\<And>i. i < node_count (built p) \<Longrightarrow> node_pool (node_at (built p) i) = q \<Longrightarrow> B ! i = A ! i) \<Longrightarrow> legal_in p q B"
  by (rule built.legal_cong) (auto simp: pool_set_def)

lemma score_in_cong:
  assumes "\<And>i. i < node_count (built p) \<Longrightarrow> node_pool (node_at (built p) i) = q \<Longrightarrow> B ! i = A ! i"
  shows "score_in p q B = score_in p q A"
proof -
  have agree: "\<forall>i\<in>pool_set (built p) q. B ! i = A ! i" using assms by (simp add: pool_set_def)
  show ?thesis
    unfolding vector_score_def built.soft_cost_cong [OF agree] built.pool_top_cong [OF agree] ..
qed

text \<open>What the loop has found for the pools it is through with.\<close>

definition keeps :: "DsaProblem \<Rightarrow> PoolId set \<Rightarrow> u64 list \<Rightarrow> u64 list \<Rightarrow> bool" where
  "keeps p qs A B \<longleftrightarrow> length B = length A \<and>
     (\<forall>i<node_count (built p). node_pool (node_at (built p) i) \<notin> qs \<longrightarrow> B ! i = A ! i)"

definition best_in :: "DsaProblem \<Rightarrow> PoolId \<Rightarrow> u64 list \<Rightarrow> bool" where
  "best_in p q A \<longleftrightarrow> legal_in p q A \<and> (\<forall>B. legal_in p q B \<longrightarrow> score_in p q A \<le> score_in p q B)"

lemma best_in_cong:
  assumes "length A = node_count (built p)" "length B = node_count (built p)"
    "\<And>i. i < node_count (built p) \<Longrightarrow> node_pool (node_at (built p) i) = q \<Longrightarrow> B ! i = A ! i"
  shows "best_in p q A \<Longrightarrow> best_in p q B"
  unfolding best_in_def using legal_in_cong [OF _ assms(2,3)] score_in_cong [OF assms(3)] by metis

lemma no_nodes_legal:
  assumes "\<not> list_ex (\<lambda>node. node_pool node = q) (search_nodes (built p))"
  shows "pool_set (built p) q = {}"
  using assms by (auto simp: pool_set_def list_ex_iff)

lemma no_nodes_best:
  "pool_set (built p) q = {} \<Longrightarrow> length A = node_count (built p) \<Longrightarrow> best_in p q A"
  by (simp add: best_in_def legal_def vector_score_def soft_cost_def entry_cost_def pool_top_def split_beta)

lemma take_pool_offsets_nth:
  "length (take_pool_offsets search q found A) = length A"
  "i < length A \<Longrightarrow> take_pool_offsets search q found A ! i =
     (if node_pool (node_at search i) = q then found ! i else A ! i)"
  by (simp_all add: take_pool_offsets_def)

definition pools_outcome ::
  "DsaProblem \<Rightarrow> CanonicalExactSearchOptions \<Rightarrow> PoolId set \<Rightarrow> u64 list \<Rightarrow> bool \<Rightarrow> CanonicalExactSearchResult \<Rightarrow> bool" where
  "pools_outcome p options qs A timed_out r \<longleftrightarrow>
     (ces_status r = kInfeasibleProven \<and> ces_offsets r = None \<and> (\<exists>q\<in>qs. \<forall>B. \<not> legal_in p q B)) \<or>
     (ces_status r = kTimeout \<and> ces_offsets r = None) \<or>
     (\<exists>B. ces_offsets r = Some B \<and> keeps p qs A B \<and> (\<forall>q\<in>qs. legal_in p q B) \<and>
        (ces_status r = kTimeout \<or>
         ces_status r = kFeasible \<and> \<not> timed_out \<and> (\<not> stop_after_first options \<longrightarrow> (\<forall>q\<in>qs. best_in p q B))))"

lemma pools_outcome_insert:
  assumes "pools_outcome p options qs A' (timed_out \<or> now) r" "q \<notin> qs"
    "length A = node_count (built p)" "keeps p {q} A A'"
    "legal_in p q A'" "\<not> now \<Longrightarrow> \<not> stop_after_first options \<Longrightarrow> best_in p q A'"
  shows "pools_outcome p options (insert q qs) A timed_out r"
proof -
  consider "ces_status r = kInfeasibleProven \<and> ces_offsets r = None \<and> (\<exists>q\<in>qs. \<forall>B. \<not> legal_in p q B)"
    | "ces_status r = kTimeout \<and> ces_offsets r = None"
    | B where "ces_offsets r = Some B" "keeps p qs A' B" "\<forall>q\<in>qs. legal_in p q B"
      "ces_status r = kTimeout \<or>
         ces_status r = kFeasible \<and> \<not> (timed_out \<or> now) \<and> (\<not> stop_after_first options \<longrightarrow> (\<forall>q\<in>qs. best_in p q B))"
    using assms(1) unfolding pools_outcome_def by blast
  then show ?thesis
  proof cases
    case 3
    have len: "length A' = node_count (built p)" "length B = node_count (built p)"
      using assms(3,4) 3(2) by (simp_all add: keeps_def)
    have agree: "B ! i = A' ! i" if "i < node_count (built p)" "node_pool (node_at (built p) i) = q" for i
      using 3(2) assms(2) that by (simp add: keeps_def)
    have "legal_in p q B" by (rule legal_in_cong [OF assms(5) len(2) agree])
    moreover have "best_in p q B" if "best_in p q A'" by (rule best_in_cong [OF len agree that])
    moreover have "keeps p (insert q qs) A B" using 3(2) assms(4) by (simp add: keeps_def)
    ultimately show ?thesis using 3 assms(6) unfolding pools_outcome_def by blast
  qed (auto simp: pools_outcome_def)
qed

lemma search_pools_outcome:
  assumes aligned: "\<And>pool. built.aligned_incumbent p pool options"
  shows "distinct (map pool_id qs) \<Longrightarrow> length A = node_count (built p) \<Longrightarrow> ces_offsets r0 = None \<Longrightarrow>
    pools_outcome p options (pool_id ` set qs) A timed_out (search_pools p (built p) options qs A timed_out r0)"
proof (induction qs arbitrary: A timed_out r0)
  case Nil
  then show ?case by (simp add: pools_outcome_def keeps_def)
next
  case (Cons pool rest)
  let ?q = "pool_id pool"
  have new: "?q \<notin> pool_id ` set rest" and dist: "distinct (map pool_id rest)" using Cons.prems(1) by auto
  show ?case
  proof (cases "list_ex (\<lambda>node. node_pool node = ?q) (search_nodes (built p))")
    case False
    then have "best_in p ?q A" by (intro no_nodes_best no_nodes_legal Cons.prems(2))
    then have "pools_outcome p options (insert ?q (pool_id ` set rest)) A timed_out
        (search_pools p (built p) options rest A timed_out r0)"
      using Cons.IH [OF dist Cons.prems(2,3), of timed_out] new Cons.prems(2)
      by (intro pools_outcome_insert [where now = False and A' = A]) (auto simp: keeps_def best_in_def)
    with False show ?thesis by simp
  next
    case True
    define r where "r = run_pool_search p (built p) ?q options"
    define A' where "A' = take_pool_offsets (built p) ?q (psr_offsets r) A"
    define now where "now \<longleftrightarrow> psr_status r = kTimeout \<and> psr_offsets r \<noteq> []"
    note found = built.run_pool_search_correct [OF aligned [of ?q], folded r_def]
    have step: "search_pools p (built p) options (pool # rest) A timed_out r0 =
        (if \<not> now \<and> psr_status r \<noteq> kFeasible then (add_counters r r0)\<lparr>ces_status := psr_status r\<rparr>
         else search_pools p (built p) options rest A' (timed_out \<or> now) (add_counters r r0))"
      using True by (simp add: r_def A'_def now_def Let_def)
    have none: "ces_offsets (add_counters r r0) = None" using Cons.prems(3) by (simp add: add_counters_def)
    show ?thesis
    proof (cases "\<not> now \<and> psr_status r \<noteq> kFeasible")
      case True
      then have "psr_status r = kTimeout \<or> psr_status r = kInfeasibleProven" using found(5) by auto
      then show ?thesis
        using step True none found(1) by (auto simp: pools_outcome_def)
    next
      case False
      then have ok: "legal_in p ?q (psr_offsets r)" using found(2,4) now_def by blast
      have A': "length A' = node_count (built p)" "keeps p {?q} A A'"
        by (simp_all add: A'_def take_pool_offsets_nth keeps_def Cons.prems(2))
      have agree: "A' ! i = psr_offsets r ! i"
        if "i < node_count (built p)" "node_pool (node_at (built p) i) = ?q" for i
        using that by (simp add: A'_def take_pool_offsets_nth Cons.prems(2))
      have legal: "legal_in p ?q A'" by (rule legal_in_cong [OF ok A'(1) agree])
      have score: "score_in p ?q A' = score_in p ?q (psr_offsets r)" by (rule score_in_cong [OF agree])
      have best: "best_in p ?q A'" if c: "\<not> now" "\<not> stop_after_first options"
      proof -
        have "psr_status r = kFeasible" using False c(1) by blast
        then show ?thesis using legal found(3) c(2) by (simp add: best_in_def score)
      qed
      have "pools_outcome p options (pool_id ` set rest) A' (timed_out \<or> now)
          (search_pools p (built p) options rest A' (timed_out \<or> now) (add_counters r r0))"
        by (rule Cons.IH [OF dist A'(1) none])
      then have "pools_outcome p options (insert ?q (pool_id ` set rest)) A timed_out
          (search_pools p (built p) options rest A' (timed_out \<or> now) (add_counters r r0))"
        using new Cons.prems(2) A'(2) legal best by (rule pools_outcome_insert)
      then show ?thesis using step False by simp
    qed
  qed
qed

section \<open>Without a limit the search does not time out\<close>

lemma canonical_branches_no_limit:
  assumes "\<And>cost peak prev st. \<not> cs_limit_hit st \<Longrightarrow> \<not> cs_limit_hit (rec cost peak prev st)"
  shows "\<not> cs_limit_hit st \<Longrightarrow> \<not> cs_limit_hit (canonical_branches rec options search cost peak bs st)"
  by (induction bs arbitrary: st) (auto simp: Let_def assms)

lemma search_entry_no_limit:
  assumes "node_limit options = 0" "\<not> cs_limit_hit st"
  shows "\<not> cs_limit_hit (case search_entry options p cost peak st of Inl st' \<Rightarrow> st' | Inr st' \<Rightarrow> st')"
  using assms by (simp add: search_entry_def Let_def)

lemma canonical_search_no_limit:
  assumes "node_limit options = 0"
  shows "\<not> cs_limit_hit st \<Longrightarrow> \<not> cs_limit_hit (canonical_search p search options ns left cost peak prev st)"
proof (induction left arbitrary: cost peak prev st)
  case 0
  then show ?case
    using search_entry_no_limit [OF assms, of st p cost peak] by (simp split: sum.splits)
next
  case (Suc left)
  then show ?case
    using search_entry_no_limit [OF assms, of st p cost peak] canonical_branches_no_limit [OF Suc.IH]
    by (simp split: sum.splits)
qed

lemma run_pool_search_no_limit:
  assumes "node_limit options = 0"
  shows "psr_status (run_pool_search p search q options) \<noteq> kTimeout"
proof -
  have "\<not> cs_limit_hit (initial_search p search q options)"
    by (simp add: initial_search_def Let_def split: option.splits)
  then show ?thesis
    using canonical_search_no_limit [OF assms] by (simp add: run_pool_search_def Let_def)
qed

lemma search_pools_no_limit:
  assumes "node_limit options = 0"
  shows "ces_status (search_pools p search options qs A False r) \<noteq> kTimeout"
proof (induction qs arbitrary: A r)
  case (Cons q qs)
  then show ?case using run_pool_search_no_limit [OF assms, of p search "pool_id q"] by (auto simp: Let_def)
qed simp

section \<open>The objective from the pools\<close>

text \<open>The metrics of a whole placement from the cost and the peak of every pool.\<close>

fun pools_metric :: "(nat \<times> u64) list \<Rightarrow> ObjectiveMetric \<Rightarrow> u64" where
  "pools_metric xs kCapacityOverflow = 0"
| "pools_metric xs kBankCost = 0"
| "pools_metric xs kReuseCost = saturated (\<Sum>x\<leftarrow>xs. fst x)"
| "pools_metric xs kTotalPeak = saturated (\<Sum>x\<leftarrow>xs. unat (snd x))"
| "pools_metric xs kMaxPeak = Max (insert 0 (snd ` set xs))"

text \<open>No peak metric stands before the reuse cost.\<close>

fun reuse_leads :: "ObjectiveMetric list \<Rightarrow> bool" where
  "reuse_leads [] = True"
| "reuse_leads (m # ms) = ((m \<in> {kTotalPeak, kMaxPeak} \<longrightarrow> kReuseCost \<notin> set ms) \<and> reuse_leads ms)"

abbreviation pool_score :: "ObjectiveMetric list \<Rightarrow> nat \<times> u64 \<Rightarrow> Score" where
  "pool_score ms x \<equiv> map (metric_score (saturated (fst x)) (snd x)) ms"

lemma map_le_pointwise: "(\<And>m. m \<in> set ms \<Longrightarrow> f m \<le> (g m :: u64)) \<Longrightarrow> map f ms \<le> map g ms"
  by (induction ms) (auto simp: less_le)

lemma peaks_mono:
  assumes "list_all2 (\<lambda>x y. snd x \<le> snd y) xs ys" "m \<noteq> kReuseCost"
  shows "pools_metric xs m \<le> pools_metric ys m"
proof -
  have sums: "(\<Sum>x\<leftarrow>xs. unat (snd x)) \<le> (\<Sum>x\<leftarrow>ys. unat (snd x))"
    using assms(1) by (induction rule: list_all2_induct) (auto simp: word_le_nat_alt add_mono)
  have "\<exists>y\<in>set ys. snd x \<le> snd y" if "x \<in> set xs" for x
    using list_all2_conv_all_nth [THEN iffD1, OF assms(1)] that by (metis in_set_conv_nth)
  then have "Max (insert 0 (snd ` set xs)) \<le> Max (insert 0 (snd ` set ys))"
    by (intro Max.boundedI) (auto simp: Max_ge_iff)
  then show ?thesis using sums assms(2) by (cases m) (auto intro: saturated_mono)
qed

lemma saturated_le_iff: "saturated a \<le> saturated b \<longleftrightarrow> a \<le> b \<or> 18446744073709551615 \<le> b"
  by (auto simp: word_le_nat_alt unat_saturated min_def)

lemma unsaturated_members:
  "(\<Sum>x\<leftarrow>xs. fst x) < (18446744073709551615 :: nat) \<Longrightarrow> x \<in> set xs \<Longrightarrow> fst x < 18446744073709551615"
  using member_le_sum_list [of "fst x" "map fst xs"] by simp

lemma pools_cost_le:
  assumes "list_all2 (\<lambda>x y. saturated (fst x) \<le> saturated (fst y)) xs ys"
  shows "pools_metric xs kReuseCost \<le> pools_metric ys kReuseCost"
proof (cases "(\<Sum>y\<leftarrow>ys. fst y) < 18446744073709551615")
  case True
  have "list_all2 (\<lambda>x y. fst x \<le> fst y) xs ys"
    by (rule list.rel_mono_strong [OF assms])
       (use unsaturated_members [OF True] in \<open>force simp: saturated_le_iff\<close>)
  then have "(\<Sum>x\<leftarrow>xs. fst x) \<le> (\<Sum>y\<leftarrow>ys. fst y)"
    by (induction rule: list_all2_induct) auto
  then show ?thesis by (simp add: saturated_mono)
qed (simp add: saturated_le_iff)

text \<open>Without saturation equal sums of costs that are ordered pool by pool are equal pool by pool.\<close>

lemma pools_cost_tie:
  assumes "list_all2 (\<lambda>x y. saturated (fst x) \<le> saturated (fst y)) xs ys"
    "(\<Sum>x\<leftarrow>xs. fst x) < 18446744073709551615"
    "pools_metric xs kReuseCost = pools_metric ys kReuseCost"
  shows "list_all2 (\<lambda>x y. saturated (fst x) = saturated (fst y)) xs ys"
proof -
  have sums: "(\<Sum>x\<leftarrow>xs. fst x) = (\<Sum>y\<leftarrow>ys. fst y)"
    using arg_cong [OF assms(3), of unat] assms(2) by (simp add: unat_saturated min_def split: if_splits)
  then have ys: "(\<Sum>y\<leftarrow>ys. fst y) < 18446744073709551615" using assms(2) by simp
  have le: "list_all2 (\<lambda>x y. fst x \<le> fst y) xs ys"
    by (rule list.rel_mono_strong [OF assms(1)])
       (use unsaturated_members [OF ys] in \<open>force simp: saturated_le_iff\<close>)
  then have "(\<Sum>x\<leftarrow>xs. fst x) \<le> (\<Sum>y\<leftarrow>ys. fst y) \<and>
      ((\<Sum>x\<leftarrow>xs. fst x) = (\<Sum>y\<leftarrow>ys. fst y) \<longrightarrow> list_all2 (\<lambda>x y. fst x = fst y) xs ys)"
    by (induction rule: list_all2_induct) auto
  then show ?thesis using sums by (auto elim: list.rel_mono_strong)
qed

lemma pool_score_peak:
  "pool_score ms x \<le> pool_score ms y \<Longrightarrow> kReuseCost \<notin> set ms \<Longrightarrow> m \<in> set ms \<Longrightarrow>
   m \<in> {kTotalPeak, kMaxPeak} \<Longrightarrow> snd x \<le> snd y"
proof (induction ms)
  case (Cons n ms)
  then show ?case by (cases n) (auto simp: less_le)
qed simp

lemma pools_lex_peaks:
  assumes "list_all2 (\<lambda>x y. pool_score ms x \<le> pool_score ms y) xs ys" "kReuseCost \<notin> set ms"
  shows "map (pools_metric xs) ms \<le> map (pools_metric ys) ms"
proof (rule map_le_pointwise)
  fix m
  assume m: "m \<in> set ms"
  show "pools_metric xs m \<le> pools_metric ys m"
  proof (cases "m \<in> {kTotalPeak, kMaxPeak}")
    case True
    have "list_all2 (\<lambda>x y. snd x \<le> snd y) xs ys"
      by (rule list.rel_mono_strong [OF assms(1)]) (rule pool_score_peak [OF _ assms(2) m True])
    then show ?thesis using True by (intro peaks_mono) auto
  next
    case False
    then have "m \<in> {kCapacityOverflow, kBankCost}" using m assms(2) by (cases m) auto
    then show ?thesis by auto
  qed
qed

lemma pools_lex_cost:
  "reuse_leads ms \<Longrightarrow> kReuseCost \<in> set ms \<Longrightarrow> pool_score ms x \<le> pool_score ms y \<Longrightarrow>
   saturated (fst x) \<le> saturated (fst y)"
proof (induction ms)
  case (Cons m ms)
  then show ?case by (cases m) (auto simp: less_le)
qed simp

lemma pools_lex:
  assumes "reuse_leads ms" "distinct ms"
    "list_all2 (\<lambda>x y. pool_score ms x \<le> pool_score ms y) xs ys"
    "kReuseCost \<in> set ms \<Longrightarrow> (\<Sum>x\<leftarrow>xs. fst x) < 18446744073709551615"
  shows "map (pools_metric xs) ms \<le> map (pools_metric ys) ms"
  using assms
proof (induction ms)
  case (Cons m ms)
  consider "kReuseCost \<notin> set (m # ms)" | "m = kReuseCost" | "m \<in> {kCapacityOverflow, kBankCost}" "kReuseCost \<in> set ms"
    using Cons.prems(1) by (cases m) auto
  then show ?case
  proof cases
    case 1
    then show ?thesis by (rule pools_lex_peaks [OF Cons.prems(3)])
  next
    case 2
    have no: "kReuseCost \<notin> set ms" and lt: "(\<Sum>x\<leftarrow>xs. fst x) < 18446744073709551615"
      using Cons.prems(2,4) 2 by auto
    have le: "list_all2 (\<lambda>x y. saturated (fst x) \<le> saturated (fst y)) xs ys"
      using Cons.prems(3) by (rule list.rel_mono_strong) (auto simp: 2 less_le)
    show ?thesis
    proof (cases "pools_metric xs kReuseCost = pools_metric ys kReuseCost")
      case True
      have "list_all2 (\<lambda>x y. saturated (fst x) = saturated (fst y)) xs ys" by (rule pools_cost_tie [OF le lt True])
      then have "list_all2 (\<lambda>x y. pool_score ms x \<le> pool_score ms y) xs ys"
        using Cons.prems(3) by (auto simp: list_all2_conv_all_nth 2)
      then have "map (pools_metric xs) ms \<le> map (pools_metric ys) ms" by (rule pools_lex_peaks [OF _ no])
      then show ?thesis using True by (simp add: 2)
    next
      case False
      then show ?thesis using pools_cost_le [OF le] by (simp add: 2 less_le)
    qed
  next
    case 3
    have "list_all2 (\<lambda>x y. pool_score ms x \<le> pool_score ms y) xs ys"
      using Cons.prems(3) by (rule list.rel_mono_strong) (use 3(1) in auto)
    then have "map (pools_metric xs) ms \<le> map (pools_metric ys) ms"
      using Cons.IH Cons.prems 3(2) by simp
    then show ?thesis using 3(1) by auto
  qed
qed simp

section \<open>The peaks of a valid solution\<close>

lemma reserved_peak_ge:
  "FindPool p q = Some pool \<Longrightarrow> r \<in> set (reserved_ranges pool) \<Longrightarrow> range_end r \<le> ReservedPeak p q"
  by (simp add: ReservedPeak_def foldl_max_eq)

lemma reserved_peak_le:
  assumes "\<And>pool r. FindPool p q = Some pool \<Longrightarrow> r \<in> set (reserved_ranges pool) \<Longrightarrow> range_end r \<le> c"
  shows "ReservedPeak p q \<le> c"
  using assms by (auto simp: ReservedPeak_def foldl_max_eq split: option.splits)

lemma pool_top_ge: "ReservedPeak p q \<le> pool_top search (ReservedPeak p q) (pool_set search q) A"
  "i \<in> pool_set search q \<Longrightarrow>
   A ! i + node_size (node_at search i) \<le> pool_top search (ReservedPeak p q) (pool_set search q) A"
  by (simp_all add: pool_top_def)

lemma pool_peak_top:
  assumes sr: "searchable p" and pins: "pinned_allocations p = []" and v: "valid_solution p s"
  shows "pool_peak p s q = pool_top (built p) (ReservedPeak p q) (pool_set (built p) q) (offsets_of p s)"
proof (rule antisym)
  note wf = searchable_built(1) [OF sr]
  let ?top = "pool_top (built p) (ReservedPeak p q) (pool_set (built p) q) (offsets_of p s)"
  show "pool_peak p s q \<le> ?top"
    unfolding pool_peak_le_iff in_all_tops
  proof (intro allI impI, elim disjE bexE exE conjE)
    fix t q' r
    assume "q' \<in> set (pools p)" "r \<in> set (reserved_ranges q')" "q = pool_id q'" "t = range_end r"
    then show "t \<le> ?top"
      using reserved_peak_ge [OF FindPool_in_set [OF well_formedD(1) [OF wf]]] pool_top_ge(1) order_trans by metis
  next
    fix t b pl
    assume b: "b \<in> set (buffers p)" "Find s (buf_id b) = Some pl" "q = pl_pool pl" "t = pl_offset pl + buf_size b"
    obtain i where i: "i < node_count (built p)" "b \<in> node_class p i" by (rule buffer_node [OF sr b(1)])
    obtain c where c: "c \<in> node_class p i" "buf_size c = node_size (node_at (built p) i)" using largest_member [OF i(1)] .
    have pl: "pl = \<lparr>pl_pool = node_pool (node_at (built p) i), pl_offset = node_offset p s i\<rparr>"
      using valid_node_placement(1) [OF i(1) pins v i(2)] b(2) by simp
    have "unat (node_offset p s i) + unat (buf_size c) < 18446744073709551616"
      using valid_node_placement(2) [OF i(1) pins v c(1)] by (simp add: fits_buffer_def)
    moreover have "buf_size b \<le> buf_size c"
      using class_extent_pos(2) [OF wf b(1)] node_class_facts(5) [OF i] c(2) by simp
    ultimately have "t \<le> node_offset p s i + node_size (node_at (built p) i)"
      using b(4) pl c(2) by (simp add: word_le_nat_alt unat_word_ariths)
    moreover have "i \<in> pool_set (built p) q" using i(1) b(3) pl by (simp add: pool_set_def)
    ultimately show "t \<le> ?top" using pool_top_ge(2) [of i "built p" q "offsets_of p s" p] i(1) by simp
  qed
next
  note wf = searchable_built(1) [OF sr]
  have "ReservedPeak p q \<le> pool_peak p s q"
  proof (rule reserved_peak_le)
    fix pool r
    assume h: "FindPool p q = Some pool" "r \<in> set (reserved_ranges pool)"
    have "(q, range_end r) \<in> set (all_tops p s)" unfolding in_all_tops using FindPool_SomeD [OF h(1)] h(2) by blast
    then show "range_end r \<le> pool_peak p s q" by (rule pool_peak_ge)
  qed
  moreover have "offsets_of p s ! i + node_size (node_at (built p) i) \<le> pool_peak p s q"
    if "i \<in> pool_set (built p) q" for i
  proof -
    have i: "i < node_count (built p)" "node_pool (node_at (built p) i) = q" using that by (auto simp: pool_set_def)
    obtain c where c: "c \<in> node_class p i" "buf_size c = node_size (node_at (built p) i)" using largest_member [OF i(1)] .
    note place = valid_node_placement [OF i(1) pins v c(1)]
    have nov: "\<not> AddOverflows (node_offset p s i) (buf_size c)"
      using place(2) by (simp add: fits_buffer_def AddOverflows_less)
    have "c \<in> set (buffers p)" using c(1) node_class_facts(1) [OF i(1)] by blast
    then have "\<exists>b\<in>set (buffers p). \<exists>pl. Find s (buf_id b) = Some pl \<and> \<not> AddOverflows (pl_offset pl) (buf_size b) \<and>
        q = pl_pool pl \<and> node_offset p s i + buf_size c = pl_offset pl + buf_size b"
      using place(1) nov i(2) by (intro bexI [of _ c] exI [of _ "\<lparr>pl_pool = q, pl_offset = node_offset p s i\<rparr>"]) auto
    then have "(q, node_offset p s i + buf_size c) \<in> set (all_tops p s)" unfolding in_all_tops by blast
    then show ?thesis using pool_peak_ge c(2) i(1) by simp
  qed
  ultimately show "pool_top (built p) (ReservedPeak p q) (pool_set (built p) q) (offsets_of p s) \<le> pool_peak p s q"
    unfolding pool_top_def by (intro Max.boundedI) (auto simp: pool_set_def)
qed

text \<open>The keys of the peak map are pools of the problem; a pool without a key has peak zero.\<close>

lemma peak_keys:
  assumes "valid_solution p s"
  shows "fst ` set (peak_by_pool (EvaluateObjective p s)) \<subseteq> pool_id ` set (pools p)"
proof -
  have "k \<in> pool_id ` set (pools p)" if "(k, t) \<in> set (all_tops p s)" for k t
    using that assms om_ok_in_set unfolding in_all_tops valid_solution_def
    by (auto simp: Find_def dest!: map_of_SomeD)
  then show ?thesis unfolding peak_by_pool_eq fst_raise_peaks by auto
qed

lemma peak_entry:
  "(k, t) \<in> set (peak_by_pool (EvaluateObjective p s)) \<Longrightarrow> t = pool_peak p s k"
  unfolding om_ok_in_set [OF om_ok_peak_by_pool] peak_by_pool_get [symmetric] by (simp add: om_get_def)

lemma peak_no_entry:
  "k \<notin> fst ` set (peak_by_pool (EvaluateObjective p s)) \<Longrightarrow> pool_peak p s k = 0"
  using om_get_absent peak_by_pool_get by metis

lemma total_peak_pools:
  assumes "well_formed p" "valid_solution p s"
  shows "total_peak (EvaluateObjective p s) = saturated (\<Sum>q\<leftarrow>pools p. unat (pool_peak p s (pool_id q)))"
proof -
  let ?m = "peak_by_pool (EvaluateObjective p s)" and ?f = "\<lambda>k. unat (pool_peak p s k)"
  have "(\<Sum>(k, t)\<leftarrow>?m. unat t) = (\<Sum>k\<leftarrow>map fst ?m. ?f k)"
    using peak_entry by (auto simp: split_beta intro!: arg_cong [of _ _ sum_list])
  also have "\<dots> = sum ?f (fst ` set ?m)"
    by (simp only: sum_list_distinct_conv_sum_set [OF om_ok_distinct [OF om_ok_peak_by_pool]] set_map)
  also have "\<dots> = sum ?f (set (map pool_id (pools p)))"
    by (rule sum.mono_neutral_left) (use peak_keys [OF assms(2)] peak_no_entry in auto)
  also have "\<dots> = (\<Sum>k\<leftarrow>map pool_id (pools p). ?f k)"
    using well_formedD(1) [OF assms(1)] by (simp only: sum_list_distinct_conv_sum_set)
  finally show ?thesis by (simp add: word_unat_eq_iff total_peak_unat unat_saturated comp_def)
qed

lemma max_peak_pools:
  assumes "valid_solution p s"
  shows "max_peak (EvaluateObjective p s) = Max (insert 0 ((\<lambda>q. pool_peak p s (pool_id q)) ` set (pools p)))"
proof -
  let ?m = "peak_by_pool (EvaluateObjective p s)"
  have "snd ` set ?m = pool_peak p s ` fst ` set ?m" using peak_entry by force
  moreover have "insert 0 (pool_peak p s ` fst ` set ?m) = insert 0 (pool_peak p s ` pool_id ` set (pools p))"
    using peak_keys [OF assms] peak_no_entry [of _ p s] by blast
  ultimately show ?thesis by (simp add: max_peak_eq image_image)
qed

section \<open>The objective of a valid solution, pool by pool\<close>

definition pool_values :: "DsaProblem \<Rightarrow> DsaSolution \<Rightarrow> (nat \<times> u64) list" where
  "pool_values p s = map (\<lambda>q. (soft_cost (built p) (pool_set (built p) (pool_id q)) (offsets_of p s),
     pool_peak p s (pool_id q))) (pools p)"

lemma node_pool_known:
  assumes "pinned_allocations p = []" "i < node_count (built p)"
  shows "node_pool (node_at (built p) i) \<in> pool_id ` set (pools p)"
proof -
  note wf = searchable_built(1) [OF built_node(1) [OF assms(2)]]
  obtain b where b: "b \<in> node_class p i" using node_class_facts(2) [OF assms(2)] by blast
  then have "wf_buffer (pool_id ` set (pools p)) b"
    using well_formedD(4) [OF wf] node_class_facts(1) [OF assms(2)] by blast
  then show ?thesis using node_pool_allowed(1) [OF assms(2,1) b] by (auto simp: wf_buffer_def)
qed

lemma objective_pools:
  assumes sr: "searchable p" and pins: "pinned_allocations p = []" and v: "valid_solution p s"
  shows "EvaluateObjectiveMetric p (EvaluateObjective p s) m = pools_metric (pool_values p s) m"
proof (cases m)
  note wf = searchable_built(1) [OF sr]
  case kCapacityOverflow
  then show ?thesis using valid_solution_no_overflow [OF wf v] by simp
next
  case kTotalPeak
  then show ?thesis using total_peak_pools [OF searchable_built(1) [OF sr] v] by (simp add: pool_values_def comp_def)
next
  case kMaxPeak
  then show ?thesis using max_peak_pools [OF v] by (simp add: pool_values_def image_image)
next
  case kReuseCost
  have "soft_cost (built p) {..<node_count (built p)} (offsets_of p s) =
      (\<Sum>q\<leftarrow>map pool_id (pools p). soft_cost (built p) (pool_set (built p) q) (offsets_of p s))"
    by (rule soft_cost_pools [OF well_formedD(1) [OF searchable_built(1) [OF sr]]])
       (use node_pool_known [OF pins] in auto)
  then show ?thesis
    using kReuseCost reuse_cost_soft_cost [OF pins v sr] by (simp add: pool_values_def comp_def)
next
  case kBankCost
  then show ?thesis by (simp add: EvaluateObjective_def Let_def)
qed

lemma score_in_values:
  assumes "searchable p" "pinned_allocations p = []" "valid_solution p s"
  shows "score_in p q (offsets_of p s) = pool_score (terms (objective p))
    (soft_cost (built p) (pool_set (built p) q) (offsets_of p s), pool_peak p s q)"
  by (simp add: vector_score_def PoolScore_def pool_peak_top [OF assms])

lemma offsets_of_expand:
  assumes "length B = node_count (built p)"
  shows "offsets_of p (ExpandReuseNodeSolution (built p) B) = B"
proof (rule nth_equalityI)
  fix i
  assume "i < length (offsets_of p (ExpandReuseNodeSolution (built p) B))"
  then have i: "i < node_count (built p)" by simp
  obtain b where b: "b \<in> node_class p i" "buf_id b = node_representative (node_at (built p) i)"
    using node_representative_member [OF i] by blast
  show "offsets_of p (ExpandReuseNodeSolution (built p) B) ! i = B ! i"
    using Find_expand_node [OF i b(1), of B] i b(2) by (simp add: node_offset_def)
qed (simp add: assms)

section \<open>The answer of the search\<close>

lemma every_pool_legal:
  assumes "searchable p" "pinned_allocations p = []" "\<And>q. q \<in> pool_id ` set (pools p) \<Longrightarrow> legal_in p q B"
  shows "legal_in p q B"
proof (cases "q \<in> pool_id ` set (pools p)")
  case False
  then have "pool_set (built p) q = {}" using node_pool_known [OF assms(2)] by (auto simp: pool_set_def)
  moreover have "pool_id (hd (pools p)) \<in> pool_id ` set (pools p)"
    using searchable_built(1) [OF assms(1)] by (simp add: well_formed_def)
  then have "length B = node_count (built p)" using assms(3) by (auto simp: legal_def)
  ultimately show ?thesis by (simp add: legal_def)
qed (rule assms(3))

lemma best_in_every_pool:
  assumes sr: "searchable p" and pins: "pinned_allocations p = []"
    and B: "\<And>q. q \<in> pool_id ` set (pools p) \<Longrightarrow> best_in p q B"
    and leads: "reuse_leads (terms (objective p))"
  defines "s \<equiv> ExpandReuseNodeSolution (built p) B"
  shows "valid_solution p s"
    "kReuseCost \<in> set (terms (objective p)) \<Longrightarrow> valid_solution p s' \<Longrightarrow>
      reuse_cost (EvaluateObjective p s) \<le> reuse_cost (EvaluateObjective p s')"
    "(kReuseCost \<in> set (terms (objective p)) \<Longrightarrow> reuse_cost (EvaluateObjective p s) < UINT64_MAX) \<Longrightarrow>
      valid_solution p s' \<Longrightarrow>
      map (EvaluateObjectiveMetric p (EvaluateObjective p s)) (terms (objective p)) \<le>
      map (EvaluateObjectiveMetric p (EvaluateObjective p s')) (terms (objective p))"
proof -
  note wf = searchable_built(1) [OF sr]
  have legal: "legal_in p q B" for q using every_pool_legal [OF sr pins] B by (simp add: best_in_def)
  then have len: "length B = node_count (built p)" by (simp add: legal_def)
  show v: "valid_solution p s" unfolding s_def by (rule legal_valid [OF sr pins legal])
  have off: "offsets_of p s = B" unfolding s_def by (rule offsets_of_expand [OF len])
  have each: "list_all2 (\<lambda>x y. pool_score (terms (objective p)) x \<le> pool_score (terms (objective p)) y)
      (pool_values p s) (pool_values p s')" if v': "valid_solution p s'" for s'
  proof -
    have "score_in p (pool_id q) (offsets_of p s) \<le> score_in p (pool_id q) (offsets_of p s')"
      if "q \<in> set (pools p)" for q
      using B [of "pool_id q"] that valid_legal [OF pins v'] by (simp add: best_in_def off)
    then show ?thesis
      unfolding pool_values_def score_in_values [OF sr pins v] score_in_values [OF sr pins v']
      by (simp add: list_all2_conv_all_nth)
  qed
  show "reuse_cost (EvaluateObjective p s) \<le> reuse_cost (EvaluateObjective p s')"
    if "kReuseCost \<in> set (terms (objective p))" "valid_solution p s'"
  proof -
    have "pools_metric (pool_values p s) kReuseCost \<le> pools_metric (pool_values p s') kReuseCost"
      by (rule pools_cost_le, rule list.rel_mono_strong [OF each [OF that(2)]])
         (rule pools_lex_cost [OF leads that(1)])
    then show ?thesis
      using objective_pools [OF sr pins v, of kReuseCost] objective_pools [OF sr pins that(2), of kReuseCost] by simp
  qed
  show "map (EvaluateObjectiveMetric p (EvaluateObjective p s)) (terms (objective p)) \<le>
      map (EvaluateObjectiveMetric p (EvaluateObjective p s')) (terms (objective p))"
    if c: "kReuseCost \<in> set (terms (objective p)) \<Longrightarrow> reuse_cost (EvaluateObjective p s) < UINT64_MAX"
      and v': "valid_solution p s'"
  proof -
    have "(\<Sum>x\<leftarrow>pool_values p s. fst x) < 18446744073709551615" if "kReuseCost \<in> set (terms (objective p))"
      using c [OF that] objective_pools [OF sr pins v, of kReuseCost]
      by (auto simp: word_less_nat_alt unat_saturated min_def unat_UINT64_MAX split: if_splits)
    moreover have "distinct (terms (objective p))" using wf by (simp add: well_formed_def)
    ultimately show ?thesis
      unfolding objective_pools [OF sr pins v] objective_pools [OF sr pins v']
      by (intro pools_lex leads each v')
  qed
qed

lemma RunCanonicalExactSearch_outcome:
  assumes "searchable p" "\<And>pool. built.aligned_incumbent p pool options"
  shows "pools_outcome p options (pool_id ` set (pools p)) (replicate (node_count (built p)) 0) False
    (RunCanonicalExactSearch p (built p) options)"
proof -
  have "space_errors (placement (built p)) = [] \<and> \<not> space_flexible_pools (placement (built p))"
    using assms(1) by (simp add: searchable_def BuildReusePenaltySearchSpace_def BuildPlacementSearchSpace_def Let_def)
  then show ?thesis
    unfolding RunCanonicalExactSearch_def
    using search_pools_outcome [OF assms(2) well_formedD(1) [OF searchable_built(1) [OF assms(1)]]]
    by (simp add: CanonicalExactSearchResult_default_def)
qed

lemma RunCanonicalExactSearch_refused:
  assumes "\<not> searchable p"
  shows "ces_status (RunCanonicalExactSearch p (built p) options) \<in> {kInvalidProblem, kUnsupported}"
    "ces_offsets (RunCanonicalExactSearch p (built p) options) = None"
  using assms
  by (auto simp: searchable_def BuildReusePenaltySearchSpace_def BuildPlacementSearchSpace_def Let_def
      RunCanonicalExactSearch_def CanonicalExactSearchResult_default_def)

end
