(* ===== verification/Baseline_Solvers.thy ===== *)
theory Baseline_Solvers
  imports Solvers
begin

text \<open>
  The baseline solvers for reuse penalties (\<^verbatim>\<open>src/dsa/algorithms/reuse_penalty_baseline_solvers.h\<close> and
  \<^verbatim>\<open>.cpp\<close>): canonical greedy, promote and repair, promote all, and uniform random colouring. The random
  engine, \<open>std::shuffle\<close> and \<open>std::uniform_int_distribution\<close> are the parameters \<open>Shuffler\<close> and
  \<open>ColorSource\<close>. The low-rank rounding solver computes with \<open>long double\<close> and is not modelled.
\<close>

section \<open>Shared parts\<close>

record CanonicalGreedyOptions =
  cg_seed :: u64
  random_restarts :: nat

definition CanonicalGreedyOptions_default :: CanonicalGreedyOptions where
  "CanonicalGreedyOptions_default = \<lparr>cg_seed = 0, random_restarts = 4\<rparr>"

text \<open>\<open>shuffle_engine\<close> constructs the engine from its seed, \<open>shuffle_nodes\<close> is \<open>std::shuffle\<close>.\<close>

record 'g Shuffler =
  shuffle_engine :: "u64 \<Rightarrow> 'g"
  shuffle_nodes :: "nat list \<Rightarrow> 'g \<Rightarrow> nat list \<times> 'g"

definition BaselineCapabilities :: SolverCapabilities where
  "BaselineCapabilities = SolverCapabilities_default
     \<lparr>cap_multi_interval := True, cap_reuse_cost := True, cap_colocations := True,
      cap_separations := True, cap_temporal_exclusions := True, cap_reserved_ranges := True,
      cap_multi_pool := True, cap_lexicographic_objective := True, cap_capacity_objective := True,
      cap_peak_objective := False\<rparr>"

definition RejectUnsupported :: "DsaProblem \<Rightarrow> string \<Rightarrow> SolverCapabilities \<Rightarrow> DsaResult" where
  "RejectUnsupported problem name c =
     (let validation = ValidateProblem problem in
      if validation \<noteq> [] then DsaResult_default\<lparr>status := kInvalidProblem, diagnostics := validation\<rparr>
      else let compatibility = CheckSolverCompatibility problem c
           in DsaResult_default\<lparr>status := kUnsupported,
                diagnostics := feature_messages name compatibility @ objective_messages name compatibility\<rparr>)"

definition failed_result :: "SolveStatus \<Rightarrow> string list \<Rightarrow> DsaResult" where
  "failed_result st messages = DsaResult_default\<lparr>status := st, diagnostics := messages\<rparr>"

type_synonym ActiveEdges = "(ReuseNodePair, u64) omap"

text \<open>The keys of an ordered map, in increasing order, are the set of pairs.\<close>

definition ActivePairs :: "ActiveEdges \<Rightarrow> ReuseNodePair list" where
  "ActivePairs active = map fst active"

definition ObjectiveScore :: "DsaProblem \<Rightarrow> ObjectiveValue \<Rightarrow> Score" where
  "ObjectiveScore problem value = map (EvaluateObjectiveMetric problem value) (terms (objective problem))"

fun shuffled_orders ::
  "'g Shuffler \<Rightarrow> nat \<Rightarrow> nat list \<Rightarrow> 'g \<Rightarrow> nat list list" where
  "shuffled_orders R 0 ns g = []"
| "shuffled_orders R (Suc restarts) ns g =
     (let (ns', g') = shuffle_nodes R ns g in ns' # shuffled_orders R restarts ns' g')"

definition CanonicalGreedyOrders ::
  "'g Shuffler \<Rightarrow> DsaProblem \<Rightarrow> ReusePenaltySearchSpace \<Rightarrow> CanonicalGreedyOptions \<Rightarrow> nat list list" where
  "CanonicalGreedyOrders R problem prepared options =
     (let births = birth_order problem prepared;
          weighted = soft_weight_order prepared births
      in foldl AddUnique []
           ([DefaultReuseNodeOrder problem prepared, births, weighted] @
            shuffled_orders R (random_restarts options) weighted (shuffle_engine R (cg_seed options))))"

section \<open>The overflow chain\<close>

text \<open>The node that overflows most; ties go to the higher top, then to the lower representative.\<close>

definition consider_overflow ::
  "DsaProblem \<Rightarrow> PlacementSearchNode list \<Rightarrow> DsaSolution \<Rightarrow> (nat \<times> u64 \<times> u64) option \<Rightarrow> nat \<Rightarrow>
   (nat \<times> u64 \<times> u64) option" where
  "consider_overflow problem ns sol current index =
     (let node = ns ! index in
      case (Find sol (node_representative node), FindPool problem (node_pool node)) of
        (Some p, Some pool) \<Rightarrow>
          (case capacity pool of
             None \<Rightarrow> current
           | Some cap \<Rightarrow>
               if AddOverflows (pl_offset p) (node_size node) then current
               else
                 let top = pl_offset p + node_size node; overflow = top - cap in
                 if top \<le> cap then current
                 else (case current of
                         None \<Rightarrow> Some (index, overflow, top)
                       | Some (best, largest_overflow, largest_top) \<Rightarrow>
                           if overflow > largest_overflow \<or>
                              (overflow = largest_overflow \<and> top > largest_top) \<or>
                              (overflow = largest_overflow \<and> top = largest_top \<and>
                               node_representative node < node_representative (ns ! best))
                           then Some (index, overflow, top) else current))
      | _ \<Rightarrow> current)"

definition consider_support ::
  "PlacementSearchNode list \<Rightarrow> (BufferId \<rightharpoonup> nat) \<Rightarrow> DsaSolution \<Rightarrow> PlacementSearchNode \<Rightarrow> Placement \<Rightarrow>
   (nat \<times> u64) option \<Rightarrow> BufferId \<Rightarrow> (nat \<times> u64) option" where
  "consider_support ns by_rep sol node p support neighbor_id =
     (case by_rep neighbor_id of
        None \<Rightarrow> support
      | Some neighbor \<Rightarrow>
          let neighbor_node = ns ! neighbor in
          (case Find sol (node_representative neighbor_node) of
             None \<Rightarrow> support
           | Some q \<Rightarrow>
               if pl_pool q \<noteq> pl_pool p \<or> AddOverflows (pl_offset q) (node_size neighbor_node) then support
               else
                 let neighbor_top = pl_offset q + node_size neighbor_node in
                 if AlignUp neighbor_top (node_alignment node) \<noteq> Some (pl_offset p) then support
                 else (case support of
                         None \<Rightarrow> Some (neighbor, neighbor_top)
                       | Some (best, best_top) \<Rightarrow>
                           if neighbor_top > best_top \<or>
                              (neighbor_top = best_top \<and>
                               node_representative neighbor_node < node_representative (ns ! best))
                           then Some (neighbor, neighbor_top) else support)))"

text \<open>
  The walk down the supports. \<open>visited\<close> grows in every iteration and holds indices of nodes only, so
  one more unit of fuel than there are nodes is enough (\<open>overflow_chain_enough\<close>).
\<close>

fun overflow_chain ::
  "nat \<Rightarrow> PlacementSearchNode list \<Rightarrow> (BufferId \<rightharpoonup> nat) \<Rightarrow> (BufferId \<rightharpoonup> nat) \<Rightarrow> DsaSolution \<Rightarrow>
   ActiveEdges \<Rightarrow> nat \<Rightarrow> nat set \<Rightarrow> ReuseNodePair list \<Rightarrow> ReuseNodePair list" where
  "overflow_chain 0 ns by_rep prepared_by_buffer sol active current visited soft = soft"
| "overflow_chain (Suc fuel) ns by_rep prepared_by_buffer sol active current visited soft =
     (if current \<in> visited then soft
      else
        let node = ns ! current in
        case Find sol (node_representative node) of
          None \<Rightarrow> soft
        | Some p \<Rightarrow>
            if pl_offset p = 0 then soft
            else
              (case foldl (consider_support ns by_rep sol node p) None (node_conflicts node) of
                 None \<Rightarrow> soft
               | Some (support, _) \<Rightarrow>
                   (case (prepared_by_buffer (node_representative node),
                          prepared_by_buffer (node_representative (ns ! support))) of
                      (Some i, Some j) \<Rightarrow>
                        let pair = CanonicalNodePair i j in
                        overflow_chain fuel ns by_rep prepared_by_buffer sol active support
                          (insert current visited)
                          (if map_of active pair \<noteq> None then soft @ [pair] else soft)
                    | _ \<Rightarrow> soft)))"

definition cheapest_edge :: "ActiveEdges \<Rightarrow> ReuseNodePair list \<Rightarrow> ReuseNodePair option" where
  "cheapest_edge active pairs =
     (case pairs of
        [] \<Rightarrow> None
      | p # ps \<Rightarrow>
          Some (foldl (\<lambda>best q. if (the (map_of active q), q) < (the (map_of active best), best)
                                then q else best) p ps))"

definition CheapestSoftEdgeOnOverflowChain ::
  "DsaProblem \<Rightarrow> ReusePenaltySearchSpace \<Rightarrow> DsaSolution \<Rightarrow> ActiveEdges \<Rightarrow> ReuseNodePair option" where
  "CheapestSoftEdgeOnOverflowChain promoted_problem prepared sol active =
     (let promoted_search = BuildPlacementSearchSpace promoted_problem; ns = nodes promoted_search in
      if space_errors promoted_search \<noteq> [] \<or> length ns \<noteq> length (search_nodes prepared) then None
      else
        let by_rep = index_representatives ns in
        case foldl (consider_overflow promoted_problem ns sol) None [0..<length ns] of
          None \<Rightarrow> None
        | Some (current, _) \<Rightarrow>
            cheapest_edge active
              (overflow_chain (Suc (length ns)) ns by_rep (node_by_buffer prepared) sol active
                 current {} []))"

section \<open>Canonical greedy\<close>

text \<open>The best fitting candidate by incremental cost and then offset, and the number of candidates.\<close>

definition greedy_offset ::
  "DsaProblem \<Rightarrow> ReusePenaltySearchSpace \<Rightarrow> bool list \<Rightarrow> u64 list \<Rightarrow> nat \<Rightarrow> (u64 \<times> u64) option \<Rightarrow> u64 \<Rightarrow>
   (u64 \<times> u64) option" where
  "greedy_offset problem prepared placed offsets current best offset =
     (if \<not> FitsReuseNodeAt problem prepared placed offsets current offset then best
      else let score = (IncrementalReuseCost prepared placed offsets current offset, offset) in
        case best of
          None \<Rightarrow> Some score
        | Some b \<Rightarrow> if score < b then Some score else best)"

fun greedy_place ::
  "DsaProblem \<Rightarrow> ReusePenaltySearchSpace \<Rightarrow> nat list \<Rightarrow> bool list \<Rightarrow> u64 list \<Rightarrow> u64 \<Rightarrow>
   u64 list option \<times> u64" where
  "greedy_place problem prepared [] placed offsets evaluated = (Some offsets, evaluated)"
| "greedy_place problem prepared (current # rest) placed offsets evaluated =
     (let candidates = CanonicalOffsetsForNode problem prepared placed offsets current True;
          evaluated' = evaluated + of_nat (length candidates)
      in case foldl (greedy_offset problem prepared placed offsets current) None candidates of
           None \<Rightarrow> (None, evaluated')
         | Some (_, offset) \<Rightarrow>
             greedy_place problem prepared rest (placed[current := True]) (offsets[current := offset])
               evaluated')"

record GreedyState =
  gs_result :: DsaResult
  gs_score :: Score
  gs_evaluated :: u64
  gs_selected_order :: nat
  gs_first_fit_seed :: bool
  gs_orders :: nat

definition greedy_update :: "DsaProblem \<Rightarrow> nat \<Rightarrow> DsaResult \<Rightarrow> GreedyState \<Rightarrow> GreedyState" where
  "greedy_update problem order_index candidate st =
     (let score = ObjectiveScore problem (res_objective candidate) in
      if solution (gs_result st) = None \<or> score_less score (gs_score st) \<or>
         (gs_first_fit_seed st \<and> score = gs_score st)
      then st\<lparr>gs_result := candidate, gs_score := score, gs_selected_order := order_index,
              gs_first_fit_seed := False\<rparr>
      else st)"

fun greedy_orders ::
  "DsaProblem \<Rightarrow> ReusePenaltySearchSpace \<Rightarrow> nat \<Rightarrow> nat list list \<Rightarrow> GreedyState \<Rightarrow> GreedyState" where
  "greedy_orders problem prepared order_index [] st = st"
| "greedy_orders problem prepared order_index (order # rest) st =
     (let n = length (search_nodes prepared) in
      if length order \<noteq> n then greedy_orders problem prepared (order_index + 1) rest st
      else
        let (found, evaluated) = greedy_place problem prepared order (replicate n False) (replicate n 0)
              (gs_evaluated st);
            st1 = st\<lparr>gs_evaluated := evaluated, gs_orders := gs_orders st + 1\<rparr>
        in case found of
             None \<Rightarrow> greedy_orders problem prepared (order_index + 1) rest st1
           | Some offsets \<Rightarrow>
               let candidate = BuildValidatedReuseResult problem prepared offsets kFeasible in
               if status candidate \<noteq> kFeasible
               then greedy_orders problem prepared (order_index + 1) rest st1
               else
                 let st2 = greedy_update problem order_index candidate st1 in
                 if reuse_cost (res_objective (gs_result st2)) = 0 then st2
                 else greedy_orders problem prepared (order_index + 1) rest st2)"

definition flag :: "bool \<Rightarrow> u64" where
  "flag b = (if b then 1 else 0)"

definition greedy_search ::
  "'g Shuffler \<Rightarrow> CanonicalGreedyOptions \<Rightarrow> DsaProblem \<Rightarrow> ReusePenaltySearchSpace \<Rightarrow> DsaResult" where
  "greedy_search R options problem prepared =
     (let first_fit = FirstFit_Solve problem;
          seeded = (status first_fit = kFeasible \<and> solution first_fit \<noteq> None);
          st = greedy_orders problem prepared 0 (CanonicalGreedyOrders R problem prepared options)
            \<lparr>gs_result = (if seeded then first_fit else DsaResult_default)\<lparr>diagnostics := []\<rparr>,
             gs_score = (if seeded then ObjectiveScore problem (res_objective first_fit) else []),
             gs_evaluated = 0, gs_selected_order = 0, gs_first_fit_seed = seeded, gs_orders = 0\<rparr>;
          result = (if solution (gs_result st) = None
            then add_diagnostics [''canonical_greedy found no capacity-fitting canonical placement'']
                   ((gs_result st)\<lparr>status := kBestEffortNoFit\<rparr>)
            else gs_result st)
      in add_diagnostics
           [''canonical_greedy retains a feasible first_fit incumbent, then uses the hard-or-soft support menu under size, birth, soft-weight, and seeded random orders'']
           (result\<lparr>solver_metrics := map_of
              [(''candidate_offsets_evaluated'', gs_evaluated st),
               (''orders_evaluated'', of_nat (gs_orders st)),
               (''selected_order'', of_nat (gs_selected_order st)),
               (''first_fit_seed_feasible'', flag seeded),
               (''selected_first_fit_seed'', flag (gs_first_fit_seed st)),
               (''random_restarts_requested'', of_nat (random_restarts options)),
               (''seed'', cg_seed options),
               (''soft_edges'', of_nat (length (soft_weights prepared)))]\<rparr>))"

text \<open>The checks canonical greedy and promote-and-repair start with.\<close>

definition baseline_prepared ::
  "string \<Rightarrow> DsaProblem \<Rightarrow> DsaResult + ReusePenaltySearchSpace" where
  "baseline_prepared name problem =
     (if \<not> Compatible (CheckSolverCompatibility problem BaselineCapabilities)
      then Inl (RejectUnsupported problem name BaselineCapabilities)
      else if list_ex (\<lambda>pool. capacity pool = None) (pools problem)
      then Inl (failed_result kUnsupported [name @ '' requires fixed pool capacities''])
      else
        let prepared = BuildReusePenaltySearchSpace problem in
        if space_errors (placement prepared) \<noteq> []
        then Inl (failed_result kInvalidProblem (space_errors (placement prepared)))
        else if space_flexible_pools (placement prepared)
        then Inl (failed_result kUnsupported [''DSA-RP baselines do not support flexible pool assignment''])
        else Inr prepared)"

definition CanonicalGreedy_Solve ::
  "'g Shuffler \<Rightarrow> CanonicalGreedyOptions \<Rightarrow> DsaProblem \<Rightarrow> DsaResult" where
  "CanonicalGreedy_Solve R options problem =
     (case baseline_prepared ''canonical_greedy'' problem of
        Inl result \<Rightarrow> result
      | Inr prepared \<Rightarrow> greedy_search R options problem prepared)"

section \<open>Promote and repair\<close>

lemma foldl_choice: "foldl (\<lambda>best q. if P best q then q else best) p ps \<in> set (p # ps)"
  by (induction ps arbitrary: p) auto

lemma cheapest_edge_mem:
  assumes "cheapest_edge active pairs = Some p"
  shows "p \<in> set pairs"
proof -
  let ?P = "\<lambda>best q. (the (map_of active q), q) < (the (map_of active best), best)"
  show ?thesis
  proof (cases pairs)
    case Nil
    then show ?thesis using assms by (simp add: cheapest_edge_def)
  next
    case (Cons q qs)
    then have "p = foldl (\<lambda>best q. if ?P best q then q else best) q qs"
      using assms unfolding cheapest_edge_def by (simp only: list.case option.inject)
    then show ?thesis unfolding Cons by (simp only: foldl_choice [where P = ?P])
  qed
qed

lemma overflow_chain_active:
  "set soft \<subseteq> dom (map_of active) \<Longrightarrow>
   set (overflow_chain fuel ns by_rep prepared_by_buffer sol active current visited soft) \<subseteq> dom (map_of active)"
proof (induction fuel arbitrary: current visited soft)
  case (Suc fuel)
  have step: "set (if map_of active pair \<noteq> None then soft @ [pair] else soft) \<subseteq> dom (map_of active)" for pair
    using Suc.prems by auto
  show ?case
    using Suc.prems Suc.IH [OF step]
    by (simp add: Let_def split: option.splits prod.splits)
qed simp

lemma CheapestSoftEdge_active:
  assumes "CheapestSoftEdgeOnOverflowChain problem prepared sol active = Some pair"
  shows "pair \<in> fst ` set active"
proof -
  let ?search = "BuildPlacementSearchSpace problem"
  let ?ns = "nodes ?search"
  let ?chain = "\<lambda>current. overflow_chain (Suc (length ?ns)) ?ns (index_representatives ?ns)
      (node_by_buffer prepared) sol active current {} []"
  have "\<exists>current. cheapest_edge active (?chain current) = Some pair"
  proof (cases "space_errors ?search \<noteq> [] \<or> length ?ns \<noteq> length (search_nodes prepared)")
    case False
    show ?thesis
    proof (cases "foldl (consider_overflow problem ?ns sol) None [0..<length ?ns]")
      case (Some found)
      then show ?thesis
        using assms False unfolding CheapestSoftEdgeOnOverflowChain_def Let_def
        by (cases found) (intro exI [of _ "fst found"], simp del: overflow_chain.simps)
    qed (use assms False in \<open>simp add: CheapestSoftEdgeOnOverflowChain_def Let_def\<close>)
  qed (use assms in \<open>auto simp: CheapestSoftEdgeOnOverflowChain_def Let_def\<close>)
  then obtain current where "cheapest_edge active (?chain current) = Some pair" ..
  then have "pair \<in> set (?chain current)" by (rule cheapest_edge_mem)
  moreover have "set (?chain current) \<subseteq> dom (map_of active)" by (rule overflow_chain_active) simp
  ultimately show ?thesis by (auto simp: dom_map_of_conv_image_fst simp del: overflow_chain.simps)
qed

record RepairState =
  rs_last :: DsaResult
  rs_active :: ActiveEdges
  rs_order_index :: nat
  rs_attempts :: u64
  rs_demotions :: u64

definition erase_edge :: "ReuseNodePair \<Rightarrow> ActiveEdges \<Rightarrow> ActiveEdges" where
  "erase_edge pair active = filter (\<lambda>entry. fst entry \<noteq> pair) active"

lemma erase_edge_shorter: "pair \<in> fst ` set active \<Longrightarrow> length (erase_edge pair active) < length active"
  unfolding erase_edge_def by (auto intro: length_filter_less)

definition repair_attempt ::
  "DsaProblem \<Rightarrow> ReusePenaltySearchSpace \<Rightarrow> nat list list \<Rightarrow> ActiveEdges \<Rightarrow> nat \<Rightarrow> DsaProblem \<times> DsaResult" where
  "repair_attempt problem prepared node_orders active order_index =
     (let promoted = WithPromotedReuseEdges problem prepared (ActivePairs active);
          priority = (if order_index < length node_orders
                      then representatives_of prepared (node_orders ! order_index) else [])
      in (promoted, PlaceWithOrder promoted priority kFirstFit))"

definition feasible_result :: "DsaResult \<Rightarrow> bool" where
  "feasible_result r = (status r = kFeasible \<and> solution r \<noteq> None)"

text \<open>
  The \<open>while (true)\<close> loop: it ends because every iteration that does not leave it demotes an active
  edge or moves on to the next order.
\<close>

function promote_loop ::
  "DsaProblem \<Rightarrow> ReusePenaltySearchSpace \<Rightarrow> nat list list \<Rightarrow> ActiveEdges \<Rightarrow> nat \<Rightarrow> u64 \<Rightarrow> u64 \<Rightarrow>
   RepairState" where
  "promote_loop problem prepared node_orders active order_index attempts demotions =
     (let (promoted, last_result) = repair_attempt problem prepared node_orders active order_index;
          st = \<lparr>rs_last = last_result, rs_active = active, rs_order_index = order_index,
                rs_attempts = attempts + 1, rs_demotions = demotions\<rparr>
      in if feasible_result last_result then st
         else if solution last_result = None \<or> active = [] then st
         else (case CheapestSoftEdgeOnOverflowChain promoted prepared (the (solution last_result)) active of
                 None \<Rightarrow>
                   if order_index + 1 < length node_orders
                   then promote_loop problem prepared node_orders active (order_index + 1) (attempts + 1)
                          demotions
                   else st\<lparr>rs_order_index := order_index + 1\<rparr>
               | Some pair \<Rightarrow>
                   promote_loop problem prepared node_orders (erase_edge pair active) order_index
                     (attempts + 1) (demotions + 1)))"
  by pat_completeness auto
termination
  by (relation "measure (\<lambda>(problem, prepared, node_orders, active, order_index, attempts, demotions).
      length active + (length node_orders - order_index))")
    (auto simp: diff_less_mono2 dest!: CheapestSoftEdge_active erase_edge_shorter)

declare promote_loop.simps [simp del]

definition PromoteRepair_Solve :: "'g Shuffler \<Rightarrow> DsaProblem \<Rightarrow> DsaResult" where
  "PromoteRepair_Solve R problem =
     (case baseline_prepared ''promote_repair'' problem of
        Inl result \<Rightarrow> result
      | Inr prepared \<Rightarrow>
          let node_orders = CanonicalGreedyOrders R problem prepared \<lparr>cg_seed = 0, random_restarts = 0\<rparr>;
              st = promote_loop problem prepared node_orders (soft_weights prepared) 0 0 0;
              initial = of_nat (length (soft_weights prepared));
              active_edges = of_nat (length (rs_active st));
              tried = of_nat (min (rs_order_index st + 1) (length node_orders))
          in if feasible_result (rs_last st)
             then add_diagnostics
               [''promote_repair decoded all active soft edges as separations and repaired over-capacity support chains'']
               ((rs_last st)
                 \<lparr>res_objective := EvaluateObjective problem (the (solution (rs_last st))),
                  solver_metrics := map_of
                    [(''initial_soft_edges'', initial), (''active_soft_edges'', active_edges),
                     (''demoted_edges'', rs_demotions st), (''packing_attempts'', rs_attempts st),
                     (''decode_orders_tried'', of_nat (rs_order_index st + 1))]\<rparr>)
             else
               let fallback = CanonicalGreedy_Solve R CanonicalGreedyOptions_default problem in
               if status fallback = kFeasible
               then add_diagnostics
                 [''promote_repair encountered a hard-only support chain and fell back to canonical_greedy'']
                 (fallback\<lparr>solver_metrics := (solver_metrics fallback)
                   (''initial_soft_edges'' \<mapsto> initial, ''demoted_edges'' \<mapsto> rs_demotions st,
                    ''packing_attempts'' \<mapsto> rs_attempts st, ''decode_orders_tried'' \<mapsto> tried,
                    ''fallback_to_canonical_greedy'' \<mapsto> 1)\<rparr>)
               else add_diagnostics
                 [''promote_repair could not repair the decoded placement within capacity'']
                 ((rs_last st)\<lparr>solver_metrics := map_of
                   [(''initial_soft_edges'', initial), (''active_soft_edges'', active_edges),
                    (''demoted_edges'', rs_demotions st), (''packing_attempts'', rs_attempts st),
                    (''decode_orders_tried'', tried), (''fallback_to_canonical_greedy'', 1)]\<rparr>))"

section \<open>Promote all\<close>

definition PromoteAll_Solve :: "u64 \<Rightarrow> DsaProblem \<Rightarrow> DsaResult" where
  "PromoteAll_Solve max_search_nodes problem =
     (if \<not> Compatible (CheckSolverCompatibility problem BaselineCapabilities)
      then RejectUnsupported problem ''promote_all'' BaselineCapabilities
      else
      let prepared = BuildReusePenaltySearchSpace problem in
      if space_errors (placement prepared) \<noteq> []
      then failed_result kInvalidProblem (space_errors (placement prepared))
      else
      let promoted = WithPromotedReuseEdges problem prepared (ActivePairs (soft_weights prepared));
          promoted_search = BuildReusePenaltySearchSpace promoted;
          exact = RunCanonicalExactSearch promoted promoted_search
            \<lparr>node_limit = max_search_nodes, stop_after_first = True, incumbent_offsets = None\<rparr>;
          result = (case ces_offsets exact of
            None \<Rightarrow> DsaResult_default\<lparr>status := ces_status exact\<rparr>
          | Some offsets \<Rightarrow>
              let r = BuildValidatedReuseResult promoted promoted_search offsets (ces_status exact)
              in (case solution r of None \<Rightarrow> r
                  | Some s \<Rightarrow> r\<lparr>res_objective := EvaluateObjective problem s\<rparr>))
      in add_diagnostics
           [if ces_status exact = kInfeasibleProven
            then ''promote_all proved that no zero-penalty placement fits capacity''
            else ''promote_all treats every soft edge as a separation and uses the canonical feasibility oracle'']
           (result\<lparr>solver_metrics := map_of
              [(''promoted_edges'', of_nat (length (soft_weights prepared))),
               (''search_nodes'', ces_search_nodes exact),
               (''zero_penalty_feasibility_proven'',
                flag (ces_status exact = kFeasible \<or> ces_status exact = kInfeasibleProven))]\<rparr>))"

section \<open>Uniform random colouring\<close>

record UnitRandomColoringOptions =
  uc_seed :: u64
  uc_samples :: nat

text \<open>\<open>color_draw k\<close> is \<open>uniform_int_distribution(0, k)\<close> applied to the engine.\<close>

record 'g ColorSource =
  color_engine :: "u64 \<Rightarrow> 'g"
  color_draw :: "u64 \<Rightarrow> 'g \<Rightarrow> u64 \<times> 'g"

definition UnitRandomColoring_Capabilities :: SolverCapabilities where
  "UnitRandomColoring_Capabilities = BaselineCapabilities\<lparr>cap_reserved_ranges := False\<rparr>"

text \<open>The unit and the number of colours of every pool, or the reason why there is none.\<close>

type_synonym PoolShape = "(PoolId, u64 \<times> u64) omap"

definition shape_node ::
  "DsaProblem \<Rightarrow> PlacementSearchNode \<Rightarrow> PoolShape \<Rightarrow> string + PoolShape" where
  "shape_node problem node shape =
     (let (unit_size, colors) = om_get (0, 0) shape (node_pool node);
          pool_capacity = (case FindPool problem (node_pool node) of None \<Rightarrow> None | Some pool \<Rightarrow> capacity pool)
      in if unit_size = 0 \<and> (pool_capacity = None \<or> node_size node = 0)
         then Inl ''unit_random_coloring requires fixed unit capacities''
         else
         let (unit_size', colors') = (if unit_size = 0
                then (node_size node, the pool_capacity div node_size node) else (unit_size, colors))
         in if node_size node \<noteq> unit_size' \<or> unit_size' mod node_alignment node \<noteq> 0 \<or> colors' = 0
            then Inl ''unit_random_coloring requires uniform unit sizes and compatible alignment''
            else Inr (om_put (node_pool node) (unit_size', colors') shape))"

fun draw_offsets ::
  "'g ColorSource \<Rightarrow> PoolShape \<Rightarrow> PlacementSearchNode list \<Rightarrow> 'g \<Rightarrow> u64 list \<times> 'g" where
  "draw_offsets R shape [] g = ([], g)"
| "draw_offsets R shape (node # rest) g =
     (let (unit_size, colors) = the (map_of shape (node_pool node));
          (color, g1) = color_draw R (colors - 1) g;
          (offsets, g2) = draw_offsets R shape rest g1
      in (color * unit_size # offsets, g2))"

fun color_samples ::
  "'g ColorSource \<Rightarrow> DsaProblem \<Rightarrow> ReusePenaltySearchSpace \<Rightarrow> PoolShape \<Rightarrow> nat \<Rightarrow>
   (DsaResult \<times> Score) option \<Rightarrow> 'g \<Rightarrow> DsaResult + (DsaResult \<times> Score) option" where
  "color_samples R problem prepared shape 0 best g = Inr best"
| "color_samples R problem prepared shape (Suc samples) best g =
     (let (offsets, g') = draw_offsets R shape (search_nodes prepared) g;
          candidate = BuildValidatedReuseResult problem prepared offsets kFeasible;
          score = ObjectiveScore problem (res_objective candidate)
      in if status candidate \<noteq> kFeasible then Inl candidate
         else color_samples R problem prepared shape samples
                (case best of
                   None \<Rightarrow> Some (candidate, score)
                 | Some (r, best_score) \<Rightarrow>
                     if score_less score best_score then Some (candidate, score) else best) g')"

definition UnitRandomColoring_Solve ::
  "'g ColorSource \<Rightarrow> UnitRandomColoringOptions \<Rightarrow> DsaProblem \<Rightarrow> DsaResult" where
  "UnitRandomColoring_Solve R options problem =
     (if \<not> Compatible (CheckSolverCompatibility problem UnitRandomColoring_Capabilities)
      then RejectUnsupported problem ''unit_random_coloring'' UnitRandomColoring_Capabilities
      else if uc_samples options = 0
      then failed_result kUnsupported [''unit_random_coloring requires at least one sample'']
      else
      let prepared = BuildReusePenaltySearchSpace problem in
      if space_errors (placement prepared) \<noteq> []
      then failed_result kInvalidProblem (space_errors (placement prepared))
      else if list_ex (\<lambda>neighbors. neighbors \<noteq> []) (hard_neighbors prepared)
      then failed_result kUnsupported [''unit_random_coloring requires a geometry-free hard graph'']
      else if list_ex (\<lambda>pool. capacity pool = None \<or> reserved_ranges pool \<noteq> []) (pools problem)
      then failed_result kUnsupported [''unit_random_coloring requires fixed unreserved capacities'']
      else
      (case try_fold (shape_node problem) (search_nodes prepared) [] of
         Inl message \<Rightarrow> failed_result kUnsupported [message]
       | Inr shape \<Rightarrow>
           (case color_samples R problem prepared shape (uc_samples options) None
                   (color_engine R (uc_seed options)) of
              Inl candidate \<Rightarrow> candidate
            | Inr None \<Rightarrow> failed_result kInvalidProblem [''unit_random_coloring did not evaluate a sample'']
            | Inr (Some (best, best_score)) \<Rightarrow>
                add_diagnostics
                  [if uc_samples options = 1
                   then ''unit_random_coloring samples independent uniform address colors on the geometry-free unit-size slice''
                   else ''unit_random_coloring reports the best objective among independent uniform-color samples'']
                  (best\<lparr>solver_metrics := map_of
                     [(''samples'', of_nat (uc_samples options)), (''seed'', uc_seed options)]\<rparr>))))"

end
