(* ===== verification/Exact_Solvers.thy ===== *)
theory Exact_Solvers
  imports Baseline_Solvers
begin

text \<open>
  The exact solvers for reuse penalties (\<^verbatim>\<open>src/dsa/algorithms/reuse_penalty_exact_solvers.h\<close> and
  \<^verbatim>\<open>.cpp\<close>): canonical branch and bound seeded with heuristic incumbents, and the implicit hitting set
  solver with its exact master, its oracle over promoted edges and the shrinking of cores.
\<close>

section \<open>Shared parts\<close>

text \<open>A \<open>std::set\<close> of edge indices is a strictly sorted list.\<close>

type_synonym EdgeSet = "nat list"

record IndexedSoftEdge =
  ise_pair :: ReuseNodePair
  ise_weight :: u64

definition ExactCapabilities :: SolverCapabilities where
  "ExactCapabilities = SolverCapabilities_default
     \<lparr>cap_multi_interval := True, cap_reuse_cost := True, cap_colocations := True,
      cap_separations := True, cap_temporal_exclusions := True, cap_reserved_ranges := True,
      cap_multi_pool := True, cap_lexicographic_objective := True, cap_capacity_objective := True,
      cap_peak_objective := True\<rparr>"

definition ReuseCostExactCapabilities :: SolverCapabilities where
  "ReuseCostExactCapabilities = ExactCapabilities\<lparr>cap_peak_objective := False\<rparr>"

definition RejectExactProblem :: "DsaProblem \<Rightarrow> string \<Rightarrow> SolverCapabilities \<Rightarrow> DsaResult" where
  "RejectExactProblem problem name c =
     (let validation = ValidateProblem problem in
      if validation \<noteq> [] then failed_result kInvalidProblem validation
      else let compatibility = CheckSolverCompatibility problem c
           in failed_result kUnsupported
                (feature_messages name compatibility @ objective_messages name compatibility))"

text \<open>The last index of the reuse cost and the first index of a peak metric in the objective.\<close>

definition reuse_and_peak_index :: "ObjectiveMetric list \<Rightarrow> nat option \<times> nat option" where
  "reuse_and_peak_index metrics =
     foldl (\<lambda>(reuse_index, first_peak_index) index.
         if metrics ! index = kReuseCost then (Some index, first_peak_index)
         else if (metrics ! index = kTotalPeak \<or> metrics ! index = kMaxPeak) \<and> first_peak_index = None
         then (reuse_index, Some index) else (reuse_index, first_peak_index))
       (None, None) [0..<length metrics]"

definition peak_before_reuse :: "DsaProblem \<Rightarrow> bool" where
  "peak_before_reuse problem =
     (case reuse_and_peak_index (terms (objective problem)) of
        (Some reuse_index, Some first_peak_index) \<Rightarrow> first_peak_index < reuse_index
      | _ \<Rightarrow> False)"

definition PoolDecomposedReuseLimitation :: "DsaProblem \<Rightarrow> string option" where
  "PoolDecomposedReuseLimitation problem =
     (if list_ex (\<lambda>pool. capacity pool = None) (pools problem)
      then Some ''exact DSA-RP solvers require fixed pool capacities''
      else if fst (reuse_and_peak_index (terms (objective problem))) = None
      then Some ''implicit_hitting_set requires reuse_cost in the objective''
      else if peak_before_reuse problem
      then Some ''exact DSA-RP pool decomposition requires reuse_cost before peak metrics''
      else None)"

definition IndexSoftEdges :: "ReusePenaltySearchSpace \<Rightarrow> IndexedSoftEdge list" where
  "IndexSoftEdges search = map (\<lambda>(pair, weight). \<lparr>ise_pair = pair, ise_weight = weight\<rparr>) (soft_weights search)"

definition PromotedPairs :: "IndexedSoftEdge list \<Rightarrow> EdgeSet \<Rightarrow> ReuseNodePair list" where
  "PromotedPairs es promoted = foldl (\<lambda>pairs edge. insort_insert (ise_pair (es ! edge)) pairs) [] promoted"

definition NodeOffsets :: "ReusePenaltySearchSpace \<Rightarrow> DsaSolution \<Rightarrow> u64 list option" where
  "NodeOffsets search sol =
     those (map (\<lambda>node. case Find sol (node_representative node) of
                    None \<Rightarrow> None
                  | Some p \<Rightarrow> if pl_pool p \<noteq> node_pool node then None else Some (pl_offset p))
       (search_nodes search))"

definition IsSubset :: "EdgeSet \<Rightarrow> EdgeSet \<Rightarrow> bool" where
  "IsSubset smaller larger = list_all (List.member larger) smaller"

text \<open>A candidate incumbent counts when it is feasible and valid for the problem.\<close>

type_synonym Incumbent = "(DsaSolution \<times> Score) option"

definition acceptable :: "DsaProblem \<Rightarrow> DsaResult \<Rightarrow> bool" where
  "acceptable problem candidate =
     (case solution candidate of
        None \<Rightarrow> False
      | Some s \<Rightarrow> status candidate = kFeasible \<and> ValidateSolution problem s = [])"

definition consider_incumbent :: "DsaProblem \<Rightarrow> DsaResult \<Rightarrow> Incumbent \<Rightarrow> Incumbent" where
  "consider_incumbent problem candidate incumbent =
     (if \<not> acceptable problem candidate then incumbent
      else
        let s = the (solution candidate);
            score = ObjectiveScore problem (EvaluateObjective problem s)
        in case incumbent of
             None \<Rightarrow> Some (s, score)
           | Some (best, best_score) \<Rightarrow> if score_less score best_score then Some (s, score) else incumbent)"

section \<open>Canonical branch and bound\<close>

definition exact_metrics :: "CanonicalExactSearchResult \<Rightarrow> (string \<times> u64) list" where
  "exact_metrics exact =
     [(''search_nodes'', ces_search_nodes exact), (''candidate_branches'', ces_candidate_branches exact),
      (''bound_prunes'', ces_bound_prunes exact)]"

definition branch_and_bound ::
  "'g Shuffler \<Rightarrow> u64 \<Rightarrow> DsaProblem \<Rightarrow> ReusePenaltySearchSpace \<Rightarrow> DsaResult" where
  "branch_and_bound R max_search_nodes problem search =
     (let seed_problem = problem\<lparr>objective := FitThenMinimizeReuseCostObjective\<rparr>;
          candidates = [FirstFit_Solve problem,
            CanonicalGreedy_Solve R CanonicalGreedyOptions_default seed_problem,
            PromoteRepair_Solve R seed_problem];
          seed = foldl (\<lambda>incumbent candidate. consider_incumbent problem candidate incumbent) None candidates;
          feasible_seeds = of_nat (length (filter (acceptable problem) candidates));
          exact = RunCanonicalExactSearch problem search
            \<lparr>node_limit = max_search_nodes, stop_after_first = False,
             incumbent_offsets = (case seed of None \<Rightarrow> None | Some (s, _) \<Rightarrow> NodeOffsets search s)\<rparr>
      in case ces_offsets exact of
           Some offsets \<Rightarrow>
             add_diagnostics
               [if ces_status exact = kFeasible
                then ''canonical branch-and-bound exhausted the canonical support search and proved the lexicographic optimum''
                else ''canonical branch-and-bound reached its node limit with an incumbent'']
               ((BuildValidatedReuseResult problem search offsets (ces_status exact))
                 \<lparr>solver_metrics := map_of (exact_metrics exact @
                    [(''feasible_incumbent_seeds'', feasible_seeds),
                     (''heuristic_incumbent'', flag (ces_status exact = kTimeout \<and> seed \<noteq> None)),
                     (''optimality_proven'', flag (ces_status exact = kFeasible))])\<rparr>)
         | None \<Rightarrow>
             add_diagnostics
               [if ces_status exact = kInfeasibleProven
                then ''canonical branch-and-bound exhausted the canonical support search and proved infeasibility''
                else ''canonical branch-and-bound reached its node limit before finding a placement'']
               (DsaResult_default\<lparr>status := ces_status exact,
                  solver_metrics := map_of (exact_metrics exact @
                    [(''feasible_incumbent_seeds'', feasible_seeds),
                     (''optimality_proven'', flag (ces_status exact = kInfeasibleProven))])\<rparr>))"

definition CanonicalBranchAndBound_Solve :: "'g Shuffler \<Rightarrow> u64 \<Rightarrow> DsaProblem \<Rightarrow> DsaResult" where
  "CanonicalBranchAndBound_Solve R max_search_nodes problem =
     (if \<not> Compatible (CheckSolverCompatibility problem ExactCapabilities)
      then RejectExactProblem problem ''canonical_branch_and_bound'' ExactCapabilities
      else if list_ex (\<lambda>pool. capacity pool = None) (pools problem)
      then failed_result kUnsupported [''canonical_branch_and_bound requires fixed pool capacities'']
      else if peak_before_reuse problem
      then failed_result kUnsupported
             [''canonical_branch_and_bound pool decomposition requires reuse_cost before peak metrics'']
      else
        let search = BuildReusePenaltySearchSpace problem in
        if space_errors (placement search) \<noteq> []
        then failed_result kInvalidProblem (space_errors (placement search))
        else branch_and_bound R max_search_nodes problem search)"

section \<open>The exact hitting set master\<close>

record MasterState =
  ms_selected :: "bool list"
  ms_best_selected :: EdgeSet
  ms_best_cost :: u64
  ms_search_nodes :: u64
  ms_limit_hit :: bool
  ms_found :: bool

text \<open>The smallest core that no selected edge hits, the first one among equals.\<close>

definition unhit_core :: "bool list \<Rightarrow> EdgeSet list \<Rightarrow> EdgeSet option" where
  "unhit_core selected cores =
     foldl (\<lambda>unhit core.
         if \<not> list_ex (\<lambda>edge. selected ! edge) core \<and>
            (case unhit of None \<Rightarrow> True | Some u \<Rightarrow> length core < length u)
         then Some core else unhit) None cores"

definition selected_edges :: "bool list \<Rightarrow> EdgeSet" where
  "selected_edges selected = filter (\<lambda>edge. selected ! edge) [0..<length selected]"

definition accept_candidate :: "u64 \<Rightarrow> MasterState \<Rightarrow> MasterState" where
  "accept_candidate cost st =
     (let candidate = selected_edges (ms_selected st) in
      if \<not> ms_found st \<or> cost < ms_best_cost st \<or>
         (cost = ms_best_cost st \<and> candidate < ms_best_selected st)
      then st\<lparr>ms_found := True, ms_best_cost := cost, ms_best_selected := candidate\<rparr> else st)"

definition choice_order :: "IndexedSoftEdge list \<Rightarrow> EdgeSet \<Rightarrow> nat list" where
  "choice_order es core = sort_key (\<lambda>edge. (ise_weight (es ! edge), edge)) core"

fun master_choices ::
  "(u64 \<Rightarrow> MasterState \<Rightarrow> MasterState) \<Rightarrow> IndexedSoftEdge list \<Rightarrow> u64 \<Rightarrow> nat list \<Rightarrow> MasterState \<Rightarrow> MasterState" where
  "master_choices rec es cost [] st = st"
| "master_choices rec es cost (edge # rest) st =
     (let st1 = rec (SaturatingAdd cost (ise_weight (es ! edge)))
                  (st\<lparr>ms_selected := (ms_selected st)[edge := True]\<rparr>)
      in master_choices rec es cost rest (st1\<lparr>ms_selected := (ms_selected st1)[edge := False]\<rparr>))"

text \<open>
  \<open>Search\<close>: every level of the recursion selects an edge that was not selected, so as many levels
  as there are edges, and one for the leaf, are enough.
\<close>

fun master_search ::
  "nat \<Rightarrow> IndexedSoftEdge list \<Rightarrow> EdgeSet list \<Rightarrow> u64 \<Rightarrow> u64 \<Rightarrow> MasterState \<Rightarrow> MasterState" where
  "master_search 0 es cores limit cost st = st"
| "master_search (Suc fuel) es cores limit cost st =
     (if limit \<noteq> 0 \<and> ms_search_nodes st \<ge> limit then st\<lparr>ms_limit_hit := True\<rparr>
      else
        let st1 = st\<lparr>ms_search_nodes := ms_search_nodes st + 1\<rparr> in
        if ms_found st1 \<and> cost > ms_best_cost st1 then st1
        else (case unhit_core (ms_selected st1) cores of
                None \<Rightarrow> accept_candidate cost st1
              | Some core \<Rightarrow>
                  master_choices (master_search fuel es cores limit) es cost (choice_order es core) st1))"

definition MasterSolve :: "IndexedSoftEdge list \<Rightarrow> EdgeSet list \<Rightarrow> u64 \<Rightarrow> MasterState" where
  "MasterSolve es cores limit =
     master_search (Suc (length es)) es cores limit 0
       \<lparr>ms_selected = replicate (length es) False, ms_best_selected = [], ms_best_cost = UINT64_MAX,
        ms_search_nodes = 0, ms_limit_hit = False, ms_found = False\<rparr>"

section \<open>The oracle over promoted edges\<close>

record OracleState =
  oc_feasible_cache :: "(EdgeSet \<times> DsaSolution) list"
  oc_infeasible_cores :: "EdgeSet list"
  oc_calls :: u64
  oc_cache_hits :: u64
  oc_search_nodes :: u64

type_synonym OracleResult = "SolveStatus \<times> DsaSolution option"

definition oracle_search ::
  "DsaProblem \<Rightarrow> ReusePenaltySearchSpace \<Rightarrow> IndexedSoftEdge list \<Rightarrow> u64 \<Rightarrow> EdgeSet \<Rightarrow> OracleState \<Rightarrow>
   OracleResult \<times> OracleState" where
  "oracle_search problem base_search es limit promoted st =
     (let promoted_problem = WithPromotedReuseEdges problem base_search (PromotedPairs es promoted);
          promoted_search = BuildReusePenaltySearchSpace promoted_problem;
          found = RunCanonicalExactSearch promoted_problem promoted_search
            \<lparr>node_limit = limit, stop_after_first = True, incumbent_offsets = None\<rparr>;
          st1 = st\<lparr>oc_search_nodes := SaturatingAdd (oc_search_nodes st) (ces_search_nodes found)\<rparr>
      in if ces_status found = kFeasible \<and> ces_offsets found \<noteq> None
         then
           let result = BuildValidatedReuseResult promoted_problem promoted_search
                 (the (ces_offsets found)) kFeasible
           in if status result \<noteq> kFeasible \<or> solution result = None then ((status result, None), st1)
              else ((kFeasible, solution result),
                    st1\<lparr>oc_feasible_cache := oc_feasible_cache st1 @ [(promoted, the (solution result))]\<rparr>)
         else ((ces_status found, None), st1))"

definition OracleSolve ::
  "DsaProblem \<Rightarrow> ReusePenaltySearchSpace \<Rightarrow> IndexedSoftEdge list \<Rightarrow> u64 \<Rightarrow> EdgeSet \<Rightarrow> OracleState \<Rightarrow>
   OracleResult \<times> OracleState" where
  "OracleSolve problem base_search es limit promoted st =
     (let st1 = st\<lparr>oc_calls := oc_calls st + 1\<rparr>; hit = st1\<lparr>oc_cache_hits := oc_cache_hits st1 + 1\<rparr> in
      case find (\<lambda>entry. IsSubset promoted (fst entry)) (oc_feasible_cache st) of
        Some entry \<Rightarrow> ((kFeasible, Some (snd entry)), hit)
      | None \<Rightarrow>
          if list_ex (\<lambda>core. IsSubset core promoted) (oc_infeasible_cores st)
          then ((kInfeasibleProven, None), hit)
          else oracle_search problem base_search es limit promoted st1)"

definition AddInfeasibleCore :: "EdgeSet \<Rightarrow> OracleState \<Rightarrow> OracleState" where
  "AddInfeasibleCore core st = st\<lparr>oc_infeasible_cores := oc_infeasible_cores st @ [core]\<rparr>"

definition Complement :: "EdgeSet \<Rightarrow> nat \<Rightarrow> EdgeSet" where
  "Complement selected edge_count = filter (\<lambda>edge. \<not> List.member selected edge) [0..<edge_count]"

section \<open>Implicit hitting set\<close>

record ImplicitHittingSetOptions =
  max_oracle_nodes :: u64
  max_master_nodes :: u64
  max_iterations :: nat
  shrink_cores :: bool

record HittingState =
  hs_oracle :: OracleState
  hs_cores :: "EdgeSet list"
  hs_master_nodes :: u64
  hs_shrink_calls :: u64
  hs_incumbent :: Incumbent

definition attach_incumbent :: "DsaProblem \<Rightarrow> HittingState \<Rightarrow> DsaResult \<Rightarrow> DsaResult" where
  "attach_incumbent problem st result =
     (case hs_incumbent st of
        None \<Rightarrow> result
      | Some (s, _) \<Rightarrow> result\<lparr>solution := Some s, res_objective := EvaluateObjective problem s\<rparr>)"

definition oracle_metrics :: "HittingState \<Rightarrow> (string \<times> u64) list" where
  "oracle_metrics st =
     [(''oracle_cache_hits'', oc_cache_hits (hs_oracle st)),
      (''oracle_search_nodes'', oc_search_nodes (hs_oracle st)),
      (''core_shrink_calls'', hs_shrink_calls st)]"

definition hitting_metrics :: "nat \<Rightarrow> nat \<Rightarrow> HittingState \<Rightarrow> (string \<times> u64) list" where
  "hitting_metrics iterations verified_cores st =
     [(''iterations'', of_nat iterations), (''verified_cores'', of_nat verified_cores),
      (''master_search_nodes'', hs_master_nodes st), (''oracle_calls'', oc_calls (hs_oracle st))]"

definition note_solution :: "DsaProblem \<Rightarrow> DsaSolution option \<Rightarrow> HittingState \<Rightarrow> HittingState" where
  "note_solution problem sol st =
     st\<lparr>hs_incumbent := consider_incumbent problem (DsaResult_default\<lparr>status := kFeasible, solution := sol\<rparr>)
          (hs_incumbent st)\<rparr>"

text \<open>Shrinking: \<open>Inl\<close> is the timeout of a trial, \<open>Inr\<close> the core that is left.\<close>

fun shrink_core ::
  "DsaProblem \<Rightarrow> ReusePenaltySearchSpace \<Rightarrow> IndexedSoftEdge list \<Rightarrow> u64 \<Rightarrow> nat list \<Rightarrow> EdgeSet \<Rightarrow> HittingState \<Rightarrow>
   HittingState + EdgeSet \<times> HittingState" where
  "shrink_core problem search es limit [] core st = Inr (core, st)"
| "shrink_core problem search es limit (edge # rest) core st =
     (let trial = filter (\<lambda>e. e \<noteq> edge) core;
          ((trial_status, trial_solution), oracle) = OracleSolve problem search es limit trial (hs_oracle st);
          st1 = st\<lparr>hs_oracle := oracle, hs_shrink_calls := hs_shrink_calls st + 1\<rparr>;
          st2 = (if trial_status = kFeasible \<and> trial_solution \<noteq> None
                 then note_solution problem trial_solution st1 else st1)
      in if trial_status = kTimeout then Inl st2
         else shrink_core problem search es limit rest
                (if trial_status = kInfeasibleProven then trial else core) st2)"

fun hitting_loop ::
  "DsaProblem \<Rightarrow> ReusePenaltySearchSpace \<Rightarrow> IndexedSoftEdge list \<Rightarrow> ImplicitHittingSetOptions \<Rightarrow> nat \<Rightarrow> nat \<Rightarrow>
   HittingState \<Rightarrow> DsaResult" where
  "hitting_loop problem search es options 0 iteration st =
     attach_incumbent problem st
       ((failed_result kTimeout [''implicit hitting set reached its iteration limit''])
         \<lparr>solver_metrics := map_of (hitting_metrics (max_iterations options) (length (hs_cores st)) st @
            oracle_metrics st)\<rparr>)"
| "hitting_loop problem search es options (Suc remaining) iteration st =
     (let master = MasterSolve es (hs_cores st) (max_master_nodes options);
          st1 = st\<lparr>hs_master_nodes := SaturatingAdd (hs_master_nodes st) (ms_search_nodes master)\<rparr>;
          metrics = (\<lambda>s. hitting_metrics (iteration + 1) (length (hs_cores st)) s)
      in if ms_limit_hit master
         then attach_incumbent problem st1
                ((failed_result kTimeout [''implicit hitting set master reached its search-node limit''])
                  \<lparr>solver_metrics := map_of (metrics st1)\<rparr>)
         else if \<not> ms_found master
         then failed_result kInvalidProblem [''implicit hitting set master returned no complete hitting set'']
         else
         let promoted = Complement (ms_best_selected master) (length es);
             ((oracle_status, oracle_solution), oracle) =
               OracleSolve problem search es (max_oracle_nodes options) promoted (hs_oracle st1);
             st2 = st1\<lparr>hs_oracle := oracle\<rparr>
         in if oracle_status = kFeasible \<and> oracle_solution \<noteq> None
            then (failed_result kFeasible
                    [''implicit hitting set proved the minimum activated reuse weight; the returned oracle placement is not peak-tie-break optimized''])
                  \<lparr>solution := oracle_solution,
                   res_objective := EvaluateObjective problem (the oracle_solution),
                   solver_metrics := map_of (metrics st2 @ oracle_metrics st2 @ [(''optimal_reuse_cost_proven'', 1)])\<rparr>
            else if oracle_status = kTimeout
            then attach_incumbent problem st2
                   ((failed_result kTimeout [''implicit hitting set oracle reached its canonical-search node limit''])
                     \<lparr>solver_metrics := map_of (metrics st2 @ oracle_metrics st2)\<rparr>)
            else if oracle_status \<noteq> kInfeasibleProven
            then failed_result oracle_status
                   [''implicit hitting set oracle could not classify the promoted subproblem'']
            else
            let st3 = st2\<lparr>hs_oracle := AddInfeasibleCore promoted (hs_oracle st2)\<rparr> in
            case (if shrink_cores options
                  then shrink_core problem search es (max_oracle_nodes options) promoted promoted st3
                  else Inr (promoted, st3)) of
              Inl st4 \<Rightarrow>
                attach_incumbent problem st4
                  (failed_result kTimeout [''implicit hitting set core shrinking reached the oracle node limit''])
            | Inr (core, st4) \<Rightarrow>
                if core = []
                then (failed_result kInfeasibleProven
                        [''the hard DSA problem is infeasible even after every soft edge is demoted''])
                      \<lparr>solver_metrics := map_of (hitting_metrics (iteration + 1) (length (hs_cores st) + 1) st4 @
                         oracle_metrics st4 @ [(''optimal_reuse_cost_proven'', 1)])\<rparr>
                else
                  hitting_loop problem search es options remaining (iteration + 1)
                    (st4\<lparr>hs_oracle := AddInfeasibleCore core (hs_oracle st4),
                         hs_cores := (if List.member (hs_cores st4) core then hs_cores st4
                                      else hs_cores st4 @ [core])\<rparr>))"

definition ImplicitHittingSet_Solve ::
  "'g Shuffler \<Rightarrow> ImplicitHittingSetOptions \<Rightarrow> DsaProblem \<Rightarrow> DsaResult" where
  "ImplicitHittingSet_Solve R options problem =
     (if \<not> Compatible (CheckSolverCompatibility problem ReuseCostExactCapabilities)
      then RejectExactProblem problem ''implicit_hitting_set'' ReuseCostExactCapabilities
      else (case PoolDecomposedReuseLimitation problem of
        Some limitation \<Rightarrow> failed_result kUnsupported [limitation]
      | None \<Rightarrow>
          let search = BuildReusePenaltySearchSpace problem in
          if space_errors (placement search) \<noteq> []
          then failed_result kInvalidProblem (space_errors (placement search))
          else
            hitting_loop problem search (IndexSoftEdges search) options (max_iterations options) 0
              \<lparr>hs_oracle = \<lparr>oc_feasible_cache = [], oc_infeasible_cores = [], oc_calls = 0,
                            oc_cache_hits = 0, oc_search_nodes = 0\<rparr>,
               hs_cores = [], hs_master_nodes = 0, hs_shrink_calls = 0,
               hs_incumbent = foldl (\<lambda>incumbent candidate. consider_incumbent problem candidate incumbent) None
                 [FirstFit_Solve problem, CanonicalGreedy_Solve R CanonicalGreedyOptions_default problem,
                  PromoteRepair_Solve R problem]\<rparr>))"

end
