(* ===== verification/Exact_Spec.thy ===== *)
theory Exact_Spec
  imports Canonical_Pools Exact_Solvers Solver_Spec
begin

text \<open>
  What the exact solvers promise. Canonical branch and bound meets the solver contract; a feasible
  answer is optimal for the declared objective, and without a node limit it decides whether the
  problem has a solution.
\<close>

section \<open>Objectives that put the reuse cost first\<close>

lemma reuse_leads_nth:
  "(\<And>i j. i < j \<Longrightarrow> j < length ms \<Longrightarrow> ms ! j = kReuseCost \<Longrightarrow> ms ! i \<notin> {kTotalPeak, kMaxPeak}) \<Longrightarrow> reuse_leads ms"
proof (induction ms)
  case (Cons m ms)
  have "kReuseCost \<notin> set ms" if "m \<in> {kTotalPeak, kMaxPeak}"
  proof
    assume "kReuseCost \<in> set ms"
    then obtain j where "j < length ms" "ms ! j = kReuseCost" by (auto simp: in_set_conv_nth)
    then show False using Cons.prems [of 0 "Suc j"] that by simp
  qed
  moreover have "reuse_leads ms"
    by (rule Cons.IH) (use Cons.prems in \<open>metis Suc_less_eq length_Cons nth_Cons_Suc\<close>)
  ultimately show ?case by simp
qed simp

lemma reuse_and_peak_index_bounds:
  fixes ms :: "ObjectiveMetric list"
  assumes "n \<le> length ms"
  defines "step \<equiv> \<lambda>(reuse_index, first_peak_index) index.
         if ms ! index = kReuseCost then (Some index, first_peak_index)
         else if (ms ! index = kTotalPeak \<or> ms ! index = kMaxPeak) \<and> first_peak_index = None
         then (reuse_index, Some index) else (reuse_index, first_peak_index)"
  shows "(\<forall>j<n. ms ! j = kReuseCost \<longrightarrow> (\<exists>r. fst (foldl step (None, None) [0..<n]) = Some r \<and> j \<le> r)) \<and>
    (\<forall>i<n. ms ! i \<in> {kTotalPeak, kMaxPeak} \<longrightarrow> (\<exists>f. snd (foldl step (None, None) [0..<n]) = Some f \<and> f \<le> i)) \<and>
    (\<forall>f. snd (foldl step (None, None) [0..<n]) = Some f \<longrightarrow> f < n)"
  using assms(1)
proof (induction n)
  case (Suc n)
  obtain r f where rf: "foldl step (None, None) [0..<n] = (r, f)" by fastforce
  have IH: "\<forall>j<n. ms ! j = kReuseCost \<longrightarrow> (\<exists>r'. r = Some r' \<and> j \<le> r')"
    "\<forall>i<n. ms ! i \<in> {kTotalPeak, kMaxPeak} \<longrightarrow> (\<exists>f'. f = Some f' \<and> f' \<le> i)"
    "\<forall>f'. f = Some f' \<longrightarrow> f' < n"
    using Suc.IH Suc.prems rf by auto
  have last: "foldl step (None, None) [0..<Suc n] = step (r, f) n" using rf by simp
  show ?case
    unfolding last using IH by (auto simp: step_def less_Suc_eq intro: less_imp_le)
qed simp

lemma not_peak_before_reuse:
  assumes "\<not> peak_before_reuse p"
  shows "reuse_leads (terms (objective p))"
proof (rule reuse_leads_nth, rule notI)
  fix i j
  assume h: "i < j" "j < length (terms (objective p))" "terms (objective p) ! j = kReuseCost"
    "terms (objective p) ! i \<in> {kTotalPeak, kMaxPeak}"
  note b = reuse_and_peak_index_bounds [of "length (terms (objective p))" "terms (objective p)", OF order_refl,
      folded reuse_and_peak_index_def]
  obtain r where r: "fst (reuse_and_peak_index (terms (objective p))) = Some r" "j \<le> r" using b h(2,3) by blast
  obtain f where f: "snd (reuse_and_peak_index (terms (objective p))) = Some f" "f \<le> i"
    using b h(1,2,4) less_trans by blast
  have "reuse_and_peak_index (terms (objective p)) = (Some r, Some f)"
    using r(1) f(1) by (metis prod.collapse)
  then show False using assms r(2) f(2) h(1) by (simp add: peak_before_reuse_def)
qed

section \<open>Seeds\<close>

definition valid_incumbent :: "DsaProblem \<Rightarrow> Incumbent \<Rightarrow> bool" where
  "valid_incumbent p incumbent \<longleftrightarrow> (\<forall>s score. incumbent = Some (s, score) \<longrightarrow> ValidateSolution p s = [])"

lemma consider_incumbent_valid:
  "valid_incumbent p incumbent \<Longrightarrow> valid_incumbent p (consider_incumbent p r incumbent)"
  by (auto simp: valid_incumbent_def consider_incumbent_def acceptable_def Let_def split: option.splits)

lemma incumbents_valid:
  "valid_incumbent p incumbent \<Longrightarrow>
   valid_incumbent p (foldl (\<lambda>incumbent candidate. consider_incumbent p candidate incumbent) incumbent rs)"
  by (induction rs arbitrary: incumbent) (simp_all add: consider_incumbent_valid)

lemma those_Some: "those xs = Some ys \<Longrightarrow> xs = map Some ys"
  by (induction xs arbitrary: ys) (auto split: option.splits)

lemma NodeOffsets_offsets_of:
  assumes "NodeOffsets (built p) s = Some A"
  shows "A = offsets_of p s"
proof (rule nth_equalityI)
  let ?f = "\<lambda>node. case Find s (node_representative node) of None \<Rightarrow> None
    | Some q \<Rightarrow> if pl_pool q \<noteq> node_pool node then None else Some (pl_offset q)"
  have all: "map ?f (search_nodes (built p)) = map Some A"
    using assms unfolding NodeOffsets_def by (rule those_Some)
  show len: "length A = length (offsets_of p s)" using arg_cong [OF all, of length] by simp
  fix i
  assume "i < length A"
  then have i: "i < node_count (built p)" using len by simp
  have "?f (node_at (built p) i) = Some (A ! i)"
    using arg_cong [OF all, of "\<lambda>xs. xs ! i"] i len by simp
  then show "A ! i = offsets_of p s ! i" using i by (auto simp: node_offset_def split: option.splits if_splits)
qed

lemma seed_aligned:
  assumes "pinned_allocations p = []"
    "\<And>A. incumbent_offsets options = Some A \<Longrightarrow> \<exists>s. valid_solution p s \<and> NodeOffsets (built p) s = Some A"
  shows "built.aligned_incumbent p pool options"
proof -
  have "aligned_to (node_alignment (node_at (built p) i)) (A ! i)"
    if h: "incumbent_offsets options = Some A" "i \<in> pool_set (built p) pool" for A i
  proof -
    obtain s where s: "valid_solution p s" "A = offsets_of p s" using assms(2) [OF h(1)] NodeOffsets_offsets_of by blast
    show ?thesis using valid_legal [OF assms(1) s(1), of pool] h(2) s(2) by (simp add: legal_def)
  qed
  then show ?thesis by (simp add: built.aligned_incumbent_def)
qed

section \<open>Canonical branch and bound\<close>

lemma exact_problem:
  assumes "Compatible (CheckSolverCompatibility p ExactCapabilities)"
  shows "pinned_allocations p = []"
proof -
  have "StructurallyCompatible (CheckSolverCompatibility p ExactCapabilities)" using assms by (simp add: Compatible_def)
  then show ?thesis
    unfolding structural_compatibility by (simp add: ExactCapabilities_def SolverCapabilities_default_def)
qed

lemma BuildValidated_legal:
  assumes "searchable p" "pinned_allocations p = []" "\<And>q. q \<in> pool_id ` set (pools p) \<Longrightarrow> legal_in p q B"
  shows "BuildValidatedReuseResult p (built p) B st = DsaResult_default\<lparr>status := st,
      solution := Some (ExpandReuseNodeSolution (built p) B),
      res_objective := EvaluateObjective p (ExpandReuseNodeSolution (built p) B)\<rparr>"
    "valid_solution p (ExpandReuseNodeSolution (built p) B)"
proof -
  show v: "valid_solution p (ExpandReuseNodeSolution (built p) B)"
    by (rule legal_valid [OF assms(1,2) every_pool_legal [OF assms]])
  then have "ValidateSolution p (ExpandReuseNodeSolution (built p) B) = []"
    by (simp add: ValidateSolution_Nil searchable_built(1) [OF assms(1)])
  then show "BuildValidatedReuseResult p (built p) B st = DsaResult_default\<lparr>status := st,
      solution := Some (ExpandReuseNodeSolution (built p) B),
      res_objective := EvaluateObjective p (ExpandReuseNodeSolution (built p) B)\<rparr>"
    by (simp add: BuildValidatedReuseResult_def Let_def)
qed

text \<open>The search inside the solver, with the offsets of its seed.\<close>

definition exact_run :: "'g Shuffler \<Rightarrow> u64 \<Rightarrow> DsaProblem \<Rightarrow> CanonicalExactSearchResult" where
  "exact_run R limit p = RunCanonicalExactSearch p (built p)
     \<lparr>node_limit = limit, stop_after_first = False,
      incumbent_offsets =
        (case foldl (\<lambda>incumbent candidate. consider_incumbent p candidate incumbent) None
            [FirstFit_Solve p,
             CanonicalGreedy_Solve R CanonicalGreedyOptions_default (p\<lparr>objective := FitThenMinimizeReuseCostObjective\<rparr>),
             PromoteRepair_Solve R (p\<lparr>objective := FitThenMinimizeReuseCostObjective\<rparr>)] of
           None \<Rightarrow> None | Some (s, _) \<Rightarrow> NodeOffsets (built p) s)\<rparr>"

lemma exact_run_outcome:
  assumes "searchable p" "pinned_allocations p = []"
  shows "\<exists>options. \<not> stop_after_first options \<and> node_limit options = limit \<and>
    exact_run R limit p = RunCanonicalExactSearch p (built p) options \<and>
    pools_outcome p options (pool_id ` set (pools p)) (replicate (node_count (built p)) 0) False (exact_run R limit p)"
proof -
  let ?seed = "foldl (\<lambda>incumbent candidate. consider_incumbent p candidate incumbent) None
      [FirstFit_Solve p,
       CanonicalGreedy_Solve R CanonicalGreedyOptions_default (p\<lparr>objective := FitThenMinimizeReuseCostObjective\<rparr>),
       PromoteRepair_Solve R (p\<lparr>objective := FitThenMinimizeReuseCostObjective\<rparr>)]"
  let ?options = "\<lparr>node_limit = limit, stop_after_first = False,
      incumbent_offsets = (case ?seed of None \<Rightarrow> None | Some (s, _) \<Rightarrow> NodeOffsets (built p) s)\<rparr>"
  have "valid_incumbent p ?seed" by (rule incumbents_valid) (simp add: valid_incumbent_def)
  then have "built.aligned_incumbent p pool ?options" for pool
    by (intro seed_aligned [OF assms(2)])
       (auto simp: valid_incumbent_def ValidateSolution_Nil split: option.splits)
  then show ?thesis
    unfolding exact_run_def using RunCanonicalExactSearch_outcome [OF assms(1), of ?options]
    by (intro exI [of _ ?options]) simp
qed

lemma branch_and_bound_run:
  "same_answer (branch_and_bound R limit p (built p))
    (case ces_offsets (exact_run R limit p) of
       Some B \<Rightarrow> BuildValidatedReuseResult p (built p) B (ces_status (exact_run R limit p))
     | None \<Rightarrow> DsaResult_default\<lparr>status := ces_status (exact_run R limit p)\<rparr>)"
  unfolding branch_and_bound_def exact_run_def Let_def
  by (auto simp: same_answer_def add_diagnostics_def split: option.splits)

text \<open>The solver answers for a problem it cannot search, or it answers with the outcome of the search.\<close>

definition proven_best :: "DsaProblem \<Rightarrow> DsaSolution \<Rightarrow> bool" where
  "proven_best p s \<longleftrightarrow> (\<exists>B. s = ExpandReuseNodeSolution (built p) B \<and> (\<forall>q\<in>pool_id ` set (pools p). best_in p q B))"

lemma branch_and_bound_answer:
  fixes R :: "'g Shuffler" and limit :: u64
  assumes "searchable p" "pinned_allocations p = []"
  defines "r \<equiv> branch_and_bound R limit p (built p)"
  shows "status r \<in> {kFeasible, kInfeasibleProven, kTimeout}"
    "status r = kFeasible \<Longrightarrow> \<exists>s. solution r = Some s \<and> valid_solution p s \<and> proven_best p s \<and>
       res_objective r = EvaluateObjective p s"
    "status r = kInfeasibleProven \<Longrightarrow> \<not> valid_solution p s"
    "status r = kTimeout \<Longrightarrow> solution r = Some s \<Longrightarrow> valid_solution p s"
    "limit = 0 \<Longrightarrow> status r \<noteq> kTimeout"
proof -
  let ?e = "exact_run R limit p"
  obtain options where o: "\<not> stop_after_first options" "node_limit options = limit"
    "?e = RunCanonicalExactSearch p (built p) options"
    "pools_outcome p options (pool_id ` set (pools p)) (replicate (node_count (built p)) 0) False ?e"
    using exact_run_outcome [OF assms(1,2)] by blast
  note same = branch_and_bound_run [of R limit p, folded r_def]
  consider (infeasible) q where "ces_status ?e = kInfeasibleProven" "ces_offsets ?e = None" "\<forall>B. \<not> legal_in p q B"
    | (stopped) "ces_status ?e = kTimeout" "ces_offsets ?e = None"
    | (found) B where "ces_offsets ?e = Some B" "\<forall>q\<in>pool_id ` set (pools p). legal_in p q B"
      "ces_status ?e = kTimeout \<or> ces_status ?e = kFeasible \<and> (\<forall>q\<in>pool_id ` set (pools p). best_in p q B)"
    using o(1) o(4) [unfolded pools_outcome_def] by (elim disjE exE conjE bexE) simp_all
  note split = this
  have "status r \<in> {kFeasible, kInfeasibleProven, kTimeout} \<and>
    (status r = kFeasible \<longrightarrow> (\<exists>s. solution r = Some s \<and> valid_solution p s \<and> proven_best p s \<and>
       res_objective r = EvaluateObjective p s)) \<and>
    (status r = kInfeasibleProven \<longrightarrow> \<not> valid_solution p s) \<and>
    (status r = kTimeout \<longrightarrow> solution r = Some s \<longrightarrow> valid_solution p s)" for s
    using split
  proof cases
    case infeasible
    then have "status r = kInfeasibleProven" using same by (simp add: same_answer_def)
    then show ?thesis using infeasible(3) valid_legal [OF assms(2)] by fastforce
  next
    case stopped
    then have "status r = kTimeout" "solution r = None"
      using same by (simp_all add: same_answer_def DsaResult_default_def)
    then show ?thesis by simp
  next
    case found
    have validated: "BuildValidatedReuseResult p (built p) B (ces_status ?e) = DsaResult_default\<lparr>status := ces_status ?e,
        solution := Some (ExpandReuseNodeSolution (built p) B),
        res_objective := EvaluateObjective p (ExpandReuseNodeSolution (built p) B)\<rparr>"
      and v: "valid_solution p (ExpandReuseNodeSolution (built p) B)"
      using BuildValidated_legal [OF assms(1,2)] found(2) by blast+
    have r: "status r = ces_status ?e" "solution r = Some (ExpandReuseNodeSolution (built p) B)"
      "res_objective r = EvaluateObjective p (ExpandReuseNodeSolution (built p) B)"
      using same found(1) validated by (simp_all add: same_answer_def)
    show ?thesis
      using r v found(3) unfolding proven_best_def by auto
  qed
  note all = this
  show "status r \<in> {kFeasible, kInfeasibleProven, kTimeout}" using all by blast
  show "status r = kFeasible \<Longrightarrow> \<exists>s. solution r = Some s \<and> valid_solution p s \<and> proven_best p s \<and>
       res_objective r = EvaluateObjective p s" using all by blast
  show "status r = kInfeasibleProven \<Longrightarrow> \<not> valid_solution p s" using all by blast
  show "status r = kTimeout \<Longrightarrow> solution r = Some s \<Longrightarrow> valid_solution p s" using all by blast
  show "status r \<noteq> kTimeout" if "limit = 0"
  proof -
    have no: "ces_status ?e \<noteq> kTimeout"
      unfolding o(3) RunCanonicalExactSearch_def
      using search_pools_no_limit that o(2) by (simp add: CanonicalExactSearchResult_default_def)
    show ?thesis
      using split
    proof cases
      case found
      then show ?thesis
        using same no by (simp add: same_answer_def BuildValidatedReuseResult_def Let_def)
    qed (use same no in \<open>simp_all add: same_answer_def\<close>)
  qed
qed

section \<open>The solver\<close>

lemma search_of_built:
  assumes "space_errors (placement (built p)) = []" "\<not> searchable p"
  shows "status (branch_and_bound R limit p (built p)) = kUnsupported"
proof -
  have "ces_status (exact_run R limit p) = kUnsupported \<and> ces_offsets (exact_run R limit p) = None"
    using assms unfolding exact_run_def
    by (auto simp: searchable_def BuildReusePenaltySearchSpace_def BuildPlacementSearchSpace_def Let_def
      RunCanonicalExactSearch_def CanonicalExactSearchResult_default_def)
  then show ?thesis using branch_and_bound_run [of R limit p] by (simp add: same_answer_def)
qed

lemma searchable_errors: "searchable p \<Longrightarrow> space_errors (placement (built p)) = []"
  by (simp add: searchable_def BuildReusePenaltySearchSpace_def BuildPlacementSearchSpace_def Let_def)

lemma CanonicalBranchAndBound_cases:
  fixes R :: "'g Shuffler" and limit :: u64 and p :: DsaProblem
  defines "r \<equiv> CanonicalBranchAndBound_Solve R limit p"
  shows "status r \<in> {kInvalidProblem, kUnsupported} \<or>
    (searchable p \<and> pinned_allocations p = [] \<and> reuse_leads (terms (objective p)) \<and>
     r = branch_and_bound R limit p (built p))"
proof (cases "Compatible (CheckSolverCompatibility p ExactCapabilities) \<and>
    \<not> list_ex (\<lambda>pool. capacity pool = None) (pools p) \<and> \<not> peak_before_reuse p \<and>
    space_errors (placement (built p)) = []")
  case True
  then have r: "r = branch_and_bound R limit p (built p)"
    by (simp add: r_def CanonicalBranchAndBound_Solve_def Let_def)
  show ?thesis
  proof (cases "searchable p")
    case True
    then show ?thesis
      using r \<open>Compatible _ \<and> _\<close> exact_problem not_peak_before_reuse by blast
  next
    case False
    then show ?thesis using r search_of_built \<open>Compatible _ \<and> _\<close> by fastforce
  qed
next
  case False
  then show ?thesis
    by (auto simp: r_def CanonicalBranchAndBound_Solve_def Let_def RejectExactProblem_def failed_result_def)
qed

interpretation branch_and_bound_solver: ds_solver "\<lambda>p. CanonicalBranchAndBound_Solve R limit p" for R limit
proof unfold_locales
  fix p s
  let ?r = "CanonicalBranchAndBound_Solve R limit p"
  show "\<exists>s. solution ?r = Some s \<and> ValidateSolution p s = []" if "status ?r = kFeasible"
    using CanonicalBranchAndBound_cases [of R limit p] that branch_and_bound_answer(2) [of p R limit]
      searchable_built(1) [of p] by (auto simp: ValidateSolution_Nil)
  show "\<not> valid_solution p s" if "status ?r = kInfeasibleProven"
    using CanonicalBranchAndBound_cases [of R limit p] that branch_and_bound_answer(3) [of p R limit] by auto
qed

lemma branch_and_bound_optimal:
  assumes "status (CanonicalBranchAndBound_Solve R limit p) = kFeasible"
  shows "\<exists>s. solution (CanonicalBranchAndBound_Solve R limit p) = Some s \<and> valid_solution p s \<and>
    res_objective (CanonicalBranchAndBound_Solve R limit p) = EvaluateObjective p s \<and>
    (\<forall>s'. valid_solution p s' \<longrightarrow>
      (kReuseCost \<in> set (terms (objective p)) \<longrightarrow>
         reuse_cost (EvaluateObjective p s) \<le> reuse_cost (EvaluateObjective p s')) \<and>
      (reuse_cost (EvaluateObjective p s) < UINT64_MAX \<or> kReuseCost \<notin> set (terms (objective p)) \<longrightarrow>
         ObjectiveScore p (EvaluateObjective p s) \<le> ObjectiveScore p (EvaluateObjective p s')))"
proof -
  have c: "searchable p" "pinned_allocations p = []" "reuse_leads (terms (objective p))"
    "CanonicalBranchAndBound_Solve R limit p = branch_and_bound R limit p (built p)"
    using CanonicalBranchAndBound_cases [of R limit p] assms by auto
  obtain s where s: "solution (branch_and_bound R limit p (built p)) = Some s" "valid_solution p s" "proven_best p s"
    "res_objective (branch_and_bound R limit p (built p)) = EvaluateObjective p s"
    using branch_and_bound_answer(2) [OF c(1,2)] assms c(4) by metis
  obtain B where B: "s = ExpandReuseNodeSolution (built p) B" "\<forall>q\<in>pool_id ` set (pools p). best_in p q B"
    using s(3) unfolding proven_best_def by blast
  note best = best_in_every_pool [OF c(1,2) _ c(3), of B, folded B(1)]
  show ?thesis
    unfolding c(4) ObjectiveScore_def using s(1,2,4) best(2,3) B(2) by (intro exI [of _ s]) auto
qed

end
