(* ===== verification/Hitting_Spec.thy ===== *)
theory Hitting_Spec
  imports Exact_Spec
begin

text \<open>
  The implicit hitting set solver is exact. A core is a set of soft edges that no valid solution can
  keep free of reuse at once; every valid solution therefore activates an edge of every core, so the
  weight of the cheapest hitting set is a lower bound of the reuse cost. The oracle shows that
  promoting the complement of a hitting set is possible, which gives a solution of that cost.
\<close>

section \<open>More separations\<close>

definition with_separations :: "DsaProblem \<Rightarrow> Separation list \<Rightarrow> DsaProblem" where
  "with_separations p seps = p\<lparr>separations := separations p @ seps\<rparr>"

lemma with_separations_simps [simp]:
  "buffers (with_separations p seps) = buffers p" "pools (with_separations p seps) = pools p"
  "colocations (with_separations p seps) = colocations p"
  "pinned_allocations (with_separations p seps) = pinned_allocations p"
  "separations (with_separations p seps) = separations p @ seps"
  by (simp_all add: with_separations_def)

lemma with_separations_classes [simp]:
  "buffer_ids (with_separations p seps) = buffer_ids p"
  "same_class (with_separations p seps) = same_class p"
  "class_extent (with_separations p seps) = class_extent p"
  "HaveTemporalConflict (with_separations p seps) = HaveTemporalConflict p"
  "must_not_share (with_separations p seps) = must_not_share p"
  "placed_apart (with_separations p seps) = placed_apart p"
  "fits_buffer (with_separations p seps) = fits_buffer p"
  by (simp_all add: with_separations_def buffer_ids_def same_class_def coloc_pairs_def class_extent_def
      exclusive_pin_ids_def HaveTemporalConflict_def must_not_share_def placed_apart_def fits_buffer_def
      FindPool_def fun_eq_iff)

lemma valid_with_separations:
  "valid_solution (with_separations p seps) s \<longleftrightarrow>
   valid_solution p s \<and> (\<forall>c\<in>set seps. placed_apart p s (sep_first c) (sep_second c))"
  unfolding valid_solution_def with_separations_simps with_separations_classes by auto

section \<open>Promoted edges\<close>

abbreviation soft_edges :: "DsaProblem \<Rightarrow> IndexedSoftEdge list" where
  "soft_edges p \<equiv> IndexSoftEdges (built p)"

abbreviation edge_ids :: "DsaProblem \<Rightarrow> nat set" where
  "edge_ids p \<equiv> {..<length (soft_edges p)}"

definition promoted_problem :: "DsaProblem \<Rightarrow> EdgeSet \<Rightarrow> DsaProblem" where
  "promoted_problem p F = WithPromotedReuseEdges p (built p) (PromotedPairs (soft_edges p) F)"

text \<open>The soft edges that a solution activates.\<close>

definition activated :: "DsaProblem \<Rightarrow> DsaSolution \<Rightarrow> nat set" where
  "activated p s = {e\<in>edge_ids p. pair_overlaps p (offsets_of p s) (ise_pair (soft_edges p ! e))}"

definition edge_weight :: "DsaProblem \<Rightarrow> nat \<Rightarrow> nat" where
  "edge_weight p e = unat (ise_weight (soft_edges p ! e))"

lemma soft_edge_nth:
  assumes "e < length (soft_edges p)"
  shows "(ise_pair (soft_edges p ! e), ise_weight (soft_edges p ! e)) = soft_weights (built p) ! e"
    "(ise_pair (soft_edges p ! e), ise_weight (soft_edges p ! e)) \<in> set (soft_weights (built p))"
  using assms by (simp_all add: IndexSoftEdges_def split_beta)

lemma soft_weight_nth:
  "e < length (soft_edges p) \<Longrightarrow> fst (soft_weights (built p) ! e) = ise_pair (soft_edges p ! e)"
  "e < length (soft_edges p) \<Longrightarrow> snd (soft_weights (built p) ! e) = ise_weight (soft_edges p ! e)"
  by (simp_all add: soft_edge_nth(1) [symmetric])

lemma length_soft_edges: "length (soft_edges p) = length (soft_weights (built p))"
  by (simp add: IndexSoftEdges_def)

lemma set_PromotedPairs: "set (PromotedPairs es F) = (\<lambda>e. ise_pair (es ! e)) ` set F"
proof -
  have "set (foldl (\<lambda>pairs edge. insort_insert (ise_pair (es ! edge)) pairs) ps F) =
      set ps \<union> (\<lambda>e. ise_pair (es ! e)) ` set F" for ps
    by (induction F arbitrary: ps) (auto simp: set_insort_insert)
  then show ?thesis by (simp add: PromotedPairs_def)
qed

lemma representatives_apart:
  assumes pins: "pinned_allocations p = []" and v: "valid_solution p s"
    and ij: "i < node_count (built p)" "j < node_count (built p)"
      "node_pool (node_at (built p) i) = node_pool (node_at (built p) j)"
  shows "placed_apart p s (node_representative (node_at (built p) i)) (node_representative (node_at (built p) j)) \<longleftrightarrow>
    \<not> overlap (built p) i (offsets_of p s ! i) j (offsets_of p s ! j)"
proof -
  obtain x y where x: "x \<in> node_class p i" "buf_id x = node_representative (node_at (built p) i)"
    and y: "y \<in> node_class p j" "buf_id y = node_representative (node_at (built p) j)"
    using node_representative_member ij by meson
  note place = valid_node_placement(1) [OF ij(1) pins v x(1)] valid_node_placement(1) [OF ij(2) pins v y(1)]
  have "overlap (built p) i (offsets_of p s ! i) j (offsets_of p s ! j) \<longleftrightarrow>
      \<not> apart (node_offset p s i) (node_size (node_at (built p) i)) (node_offset p s j) (node_size (node_at (built p) j))"
    using not_overlap_apart [OF built.node_size_pos [OF ij(1)] built.node_size_pos [OF ij(2)]] ij(1,2)
    by (auto simp: overlap_def)
  then show ?thesis
    using place node_class_facts(5) [OF ij(1) x(1)] node_class_facts(5) [OF ij(2) y(1)] ij(3) x(2) y(2)
    by (simp add: placed_apart_def)
qed

definition promoted_separation :: "ReusePenaltySearchSpace \<Rightarrow> ReuseNodePair \<Rightarrow> Separation" where
  "promoted_separation search = (\<lambda>(i, j). \<lparr>sep_first = node_representative (node_at search i),
      sep_second = node_representative (node_at search j), sep_reasons = [Sep_kGeneric]\<rparr>)"

lemma with_promoted_separations:
  "WithPromotedReuseEdges p search pairs = with_separations p (map (promoted_separation search) pairs)"
  by (simp add: WithPromotedReuseEdges_def with_separations_def promoted_separation_def)

lemma with_promoted_valid:
  assumes pins: "pinned_allocations p = []" and pairs: "set pairs \<subseteq> fst ` set (soft_weights (built p))"
  shows "valid_solution (WithPromotedReuseEdges p (built p) pairs) s \<longleftrightarrow>
    valid_solution p s \<and> (\<forall>pair\<in>set pairs. \<not> pair_overlaps p (offsets_of p s) pair)"
proof -
  have "(let c = promoted_separation (built p) pair in placed_apart p s (sep_first c) (sep_second c)) \<longleftrightarrow>
      \<not> pair_overlaps p (offsets_of p s) pair" if pair: "pair \<in> set pairs" and v: "valid_solution p s" for pair
  proof -
    obtain i j w where ij: "pair = (i, j)" "((i, j), w) \<in> set (soft_weights (built p))" using pair pairs by force
    have "i < j" "j < node_count (built p)" "node_pool (node_at (built p) i) = node_pool (node_at (built p) j)"
      using built.soft_pair [OF ij(2)] by blast+
    then show ?thesis
      using representatives_apart [OF pins v, of i j] by (simp add: ij promoted_separation_def pair_overlaps_def)
  qed
  then show ?thesis
    unfolding with_promoted_separations valid_with_separations by (auto simp: Let_def)
qed

lemma promoted_valid:
  assumes pins: "pinned_allocations p = []" and F: "set F \<subseteq> edge_ids p"
  shows "valid_solution (promoted_problem p F) s \<longleftrightarrow> valid_solution p s \<and> set F \<inter> activated p s = {}"
proof -
  have "(\<lambda>e. ise_pair (soft_edges p ! e)) ` set F \<subseteq> fst ` set (soft_weights (built p))"
    using F soft_edge_nth(2) by (force simp: image_iff)
  then have "valid_solution (promoted_problem p F) s \<longleftrightarrow> valid_solution p s \<and>
      (\<forall>e\<in>set F. \<not> pair_overlaps p (offsets_of p s) (ise_pair (soft_edges p ! e)))"
    unfolding promoted_problem_def by (subst with_promoted_valid [OF pins]) (auto simp: set_PromotedPairs)
  moreover have "e \<in> activated p s \<longleftrightarrow> pair_overlaps p (offsets_of p s) (ise_pair (soft_edges p ! e))" if "e \<in> set F" for e
    using that F by (auto simp: activated_def)
  ultimately show ?thesis by auto
qed

lemma activated_cost:
  assumes "pinned_allocations p = []" "valid_solution p s" "searchable p"
  shows "reuse_cost (EvaluateObjective p s) = saturated (sum (edge_weight p) (activated p s))"
proof -
  let ?paid = "pair_overlaps p (offsets_of p s)" and ?ws = "soft_weights (built p)"
  have "weight_sum ?paid ?ws = (\<Sum>e<length ?ws. if ?paid (fst (?ws ! e)) then unat (snd (?ws ! e)) else 0)"
    by (simp add: weight_sum_def sum_list_sum_nth atLeast0LessThan)
  also have "\<dots> = (\<Sum>e<length ?ws. if e \<in> activated p s then edge_weight p e else 0)"
    using length_soft_edges [of p]
    by (intro sum.cong) (auto simp: activated_def edge_weight_def soft_weight_nth)
  also have "\<dots> = sum (edge_weight p) (activated p s)"
    using length_soft_edges [of p]
    by (subst sum.inter_restrict [symmetric]) (auto simp: activated_def intro: sum.cong)
  finally show ?thesis using reuse_cost_soft_cost [OF assms] soft_cost_weight_sum by simp
qed

section \<open>The master\<close>

definition hits :: "EdgeSet list \<Rightarrow> nat set \<Rightarrow> bool" where
  "hits cores T \<longleftrightarrow> (\<forall>core\<in>set cores. set core \<inter> T \<noteq> {})"

definition weight_of :: "IndexedSoftEdge list \<Rightarrow> nat set \<Rightarrow> nat" where
  "weight_of es T = (\<Sum>e\<in>T. unat (ise_weight (es ! e)))"

definition chosen :: "MasterState \<Rightarrow> nat set" where
  "chosen st = {e. e < length (ms_selected st) \<and> ms_selected st ! e}"

definition master_best_ok :: "IndexedSoftEdge list \<Rightarrow> EdgeSet list \<Rightarrow> MasterState \<Rightarrow> bool" where
  "master_best_ok es cores st \<longleftrightarrow>
     (ms_found st \<longrightarrow> set (ms_best_selected st) \<subseteq> {..<length es} \<and> hits cores (set (ms_best_selected st)) \<and>
        ms_best_cost st = saturated (weight_of es (set (ms_best_selected st))))"

definition beats :: "IndexedSoftEdge list \<Rightarrow> MasterState \<Rightarrow> nat set \<Rightarrow> bool" where
  "beats es st T \<longleftrightarrow> ms_limit_hit st \<or> ms_found st \<and> ms_best_cost st \<le> saturated (weight_of es T)"

definition master_improves :: "MasterState \<Rightarrow> MasterState \<Rightarrow> bool" where
  "master_improves st st' \<longleftrightarrow>
     (ms_limit_hit st \<longrightarrow> ms_limit_hit st') \<and>
     (ms_found st \<longrightarrow> ms_found st' \<and> ms_best_cost st' \<le> ms_best_cost st)"

definition master_correct ::
  "IndexedSoftEdge list \<Rightarrow> EdgeSet list \<Rightarrow> (nat set \<Rightarrow> bool) \<Rightarrow> MasterState \<Rightarrow> MasterState \<Rightarrow> bool" where
  "master_correct es cores allowed st st' \<longleftrightarrow>
     ms_selected st' = ms_selected st \<and> master_best_ok es cores st' \<and> master_improves st st' \<and>
     (\<forall>T\<subseteq>{..<length es}. hits cores T \<and> chosen st \<subseteq> T \<and> allowed T \<longrightarrow> beats es st' T)"

lemma beats_improves: "beats es st T \<Longrightarrow> master_improves st st' \<Longrightarrow> beats es st' T"
  by (auto simp: beats_def master_improves_def)

lemma master_improves_trans: "master_improves a b \<Longrightarrow> master_improves b c \<Longrightarrow> master_improves a c"
  by (auto simp: master_improves_def)

lemma weight_of_mono: "S \<subseteq> T \<Longrightarrow> T \<subseteq> {..<length es} \<Longrightarrow> weight_of es S \<le> weight_of es T"
  unfolding weight_of_def by (rule sum_mono2) (auto dest: finite_subset)

lemma unhit_core_spec:
  "case unhit_core selected cores of
     None \<Rightarrow> \<forall>core\<in>set cores. list_ex (\<lambda>edge. selected ! edge) core
   | Some core \<Rightarrow> core \<in> set cores \<and> \<not> list_ex (\<lambda>edge. selected ! edge) core"
proof -
  define step where "step = (\<lambda>unhit core.
         if \<not> list_ex (\<lambda>edge. selected ! edge) core \<and>
            (case unhit of None \<Rightarrow> True | Some u \<Rightarrow> length core < length (u :: nat list))
         then Some core else unhit)"
  define ok where "ok = (\<lambda>(seen :: EdgeSet set) unhit. case unhit of
       None \<Rightarrow> \<forall>core\<in>seen. list_ex (\<lambda>edge. selected ! edge) core
     | Some core \<Rightarrow> core \<in> seen \<and> \<not> list_ex (\<lambda>edge. selected ! edge) core)"
  have "ok (seen \<union> set xs) (foldl step unhit xs)" if "ok seen unhit" for seen unhit xs
    using that
  proof (induction xs arbitrary: seen unhit)
    case (Cons x xs)
    have "ok (insert x seen) (step unhit x)"
      using Cons.prems by (cases unhit) (auto simp: ok_def step_def)
    from Cons.IH [OF this] show ?case by simp
  qed simp
  from this [of "{}" None cores] show ?thesis
    by (simp add: ok_def unhit_core_def step_def)
qed

lemma selected_edges_chosen: "set (selected_edges (ms_selected st)) = chosen st"
  by (auto simp: selected_edges_def chosen_def)

lemma accept_candidate_correct:
  assumes "master_best_ok es cores st" "hits cores (chosen st)" "chosen st \<subseteq> {..<length es}"
    "cost = saturated (weight_of es (chosen st))"
  shows "master_correct es cores (\<lambda>_. True) st (accept_candidate cost st)"
proof -
  have le: "cost \<le> saturated (weight_of es T)" if "chosen st \<subseteq> T" "T \<subseteq> {..<length es}" for T
    unfolding assms(4) by (intro saturated_mono weight_of_mono that)
  show ?thesis
    unfolding master_correct_def
  proof (intro conjI allI impI)
    show "ms_selected (accept_candidate cost st) = ms_selected st" by (simp add: accept_candidate_def Let_def)
    show "master_best_ok es cores (accept_candidate cost st)"
      using assms by (simp add: accept_candidate_def Let_def master_best_ok_def selected_edges_chosen)
    show "master_improves st (accept_candidate cost st)"
      by (auto simp: accept_candidate_def Let_def master_improves_def)
    fix T
    assume T: "T \<subseteq> {..<length es}" "hits cores T \<and> chosen st \<subseteq> T \<and> True"
    have "ms_found (accept_candidate cost st) \<and> ms_best_cost (accept_candidate cost st) \<le> cost"
      by (auto simp: accept_candidate_def Let_def)
    then show "beats es (accept_candidate cost st) T"
      using le [of T] T by (auto simp: beats_def intro: order_trans)
  qed
qed

text \<open>The loop over the choices of a core, given that the recursive calls are correct.\<close>

lemma master_choices_correct:
  assumes rec: "\<And>cost st. length (ms_selected st) = length es \<Longrightarrow> master_best_ok es cores st \<Longrightarrow>
      card ({..<length es} - chosen st) < fuel \<Longrightarrow> cost = saturated (weight_of es (chosen st)) \<Longrightarrow>
      master_correct es cores (\<lambda>_. True) st (rec cost st)"
    and "set xs \<subseteq> {..<length es} - chosen st" "length (ms_selected st) = length es" "master_best_ok es cores st"
    "card ({..<length es} - chosen st) \<le> fuel" "cost = saturated (weight_of es (chosen st))"
  shows "master_correct es cores (\<lambda>T. set xs \<inter> T \<noteq> {}) st (master_choices rec es cost xs st)"
  using assms(2-)
proof (induction xs arbitrary: st)
  case Nil
  then show ?case by (simp add: master_correct_def master_improves_def)
next
  case (Cons e xs)
  let ?st0 = "st\<lparr>ms_selected := (ms_selected st)[e := True]\<rparr>"
  let ?cost0 = "SaturatingAdd cost (ise_weight (es ! e))"
  define st1 where "st1 = rec ?cost0 ?st0"
  define st2 where "st2 = st1\<lparr>ms_selected := (ms_selected st1)[e := False]\<rparr>"
  have e: "e < length es" "e \<notin> chosen st" "e < length (ms_selected st)" "\<not> ms_selected st ! e"
    using Cons.prems(1,2) by (auto simp: chosen_def)
  have chosen0: "chosen ?st0 = insert e (chosen st)"
    using e(3) by (auto simp: chosen_def nth_list_update)
  have fin: "finite (chosen st)" by (simp add: chosen_def)
  have "weight_of es (chosen ?st0) = weight_of es (chosen st) + unat (ise_weight (es ! e))"
    unfolding chosen0 weight_of_def using e(2) fin by simp
  then have cost0: "?cost0 = saturated (weight_of es (chosen ?st0))"
    using Cons.prems(5) by (simp add: saturated_word)
  have "{..<length es} - chosen ?st0 \<subset> {..<length es} - chosen st" using chosen0 e(1,2) by auto
  then have "card ({..<length es} - chosen ?st0) < fuel"
    using Cons.prems(4) by (meson finite_Diff finite_lessThan less_le_trans psubset_card_mono)
  then have c: "master_correct es cores (\<lambda>_. True) ?st0 st1"
    unfolding st1_def using Cons.prems(2,3) cost0 by (intro rec) (simp_all add: master_best_ok_def)
  have sel: "ms_selected st2 = ms_selected st"
    using c e(3,4) by (simp add: st2_def master_correct_def) (metis list_update_id)
  then have chosen2: "chosen st2 = chosen st" by (simp add: chosen_def)
  have improves: "master_improves st st2"
    using c by (simp add: master_correct_def master_improves_def st2_def)
  have "master_best_ok es cores st2" using c by (simp add: master_correct_def master_best_ok_def st2_def)
  then have rest: "master_correct es cores (\<lambda>T. set xs \<inter> T \<noteq> {}) st2 (master_choices rec es cost xs st2)"
    using Cons.prems sel chosen2 by (intro Cons.IH) auto
  have all: "master_choices rec es cost (e # xs) st = master_choices rec es cost xs st2"
    by (simp add: st1_def st2_def Let_def)
  have here: "beats es st2 T" if "T \<subseteq> {..<length es}" "hits cores T" "chosen st \<subseteq> T" "e \<in> T" for T
  proof -
    have "beats es st1 T" using c that chosen0 by (auto simp: master_correct_def)
    then show ?thesis by (simp add: beats_def st2_def)
  qed
  show ?case
    unfolding master_correct_def all
  proof (intro conjI allI impI)
    fix T
    assume T: "T \<subseteq> {..<length es}" "hits cores T \<and> chosen st \<subseteq> T \<and> set (e # xs) \<inter> T \<noteq> {}"
    show "beats es (master_choices rec es cost xs st2) T"
    proof (cases "e \<in> T")
      case True
      then have "beats es st2 T" using here T by blast
      moreover have "master_improves st2 (master_choices rec es cost xs st2)"
        using rest by (simp add: master_correct_def)
      ultimately show ?thesis by (rule beats_improves)
    next
      case False
      then show ?thesis using rest T chosen2 by (auto simp: master_correct_def)
    qed
  qed (use rest sel master_improves_trans [OF improves] in \<open>simp_all add: master_correct_def\<close>)
qed

lemma master_search_correct:
  assumes cores: "\<forall>core\<in>set cores. set core \<subseteq> {..<length es}"
  shows "length (ms_selected st) = length es \<Longrightarrow> master_best_ok es cores st \<Longrightarrow>
    card ({..<length es} - chosen st) < fuel \<Longrightarrow> cost = saturated (weight_of es (chosen st)) \<Longrightarrow>
    master_correct es cores (\<lambda>_. True) st (master_search fuel es cores limit cost st)"
proof (induction fuel arbitrary: cost st)
  case (Suc fuel)
  define st1 where "st1 = st\<lparr>ms_search_nodes := ms_search_nodes st + 1\<rparr>"
  have same: "chosen st1 = chosen st" "ms_selected st1 = ms_selected st" "master_improves st st1"
    "master_best_ok es cores st1" "ms_found st1 = ms_found st" "ms_best_cost st1 = ms_best_cost st"
    using Suc.prems(2) by (simp_all add: st1_def chosen_def master_improves_def master_best_ok_def)
  have sub: "chosen st \<subseteq> {..<length es}" using Suc.prems(1) by (auto simp: chosen_def)
  have le: "cost \<le> saturated (weight_of es T)" if "chosen st \<subseteq> T" "T \<subseteq> {..<length es}" for T
    unfolding Suc.prems(4) by (intro saturated_mono weight_of_mono that)
  consider (limit) "limit \<noteq> 0 \<and> ms_search_nodes st \<ge> limit"
    | (prune) "\<not> (limit \<noteq> 0 \<and> ms_search_nodes st \<ge> limit)" "ms_found st \<and> cost > ms_best_cost st"
    | (leaf) "\<not> (limit \<noteq> 0 \<and> ms_search_nodes st \<ge> limit)" "\<not> (ms_found st \<and> cost > ms_best_cost st)"
      "unhit_core (ms_selected st1) cores = None"
    | (branch) core where "\<not> (limit \<noteq> 0 \<and> ms_search_nodes st \<ge> limit)" "\<not> (ms_found st \<and> cost > ms_best_cost st)"
      "unhit_core (ms_selected st1) cores = Some core"
    by (cases "unhit_core (ms_selected st1) cores") auto
  then show ?case
  proof cases
    case limit
    then show ?thesis
      using Suc.prems(2) by (simp add: master_correct_def master_best_ok_def master_improves_def beats_def)
  next
    case prune
    then have "master_search (Suc fuel) es cores limit cost st = st1" by (auto simp: st1_def Let_def)
    moreover have "beats es st1 T" if "chosen st \<subseteq> T" "T \<subseteq> {..<length es}" for T
      using le [OF that] prune(2) same by (auto simp: beats_def)
    ultimately show ?thesis using same by (simp add: master_correct_def)
  next
    case leaf
    have "hits cores (chosen st1)"
      using unhit_core_spec [where selected = "ms_selected st1" and cores = cores] leaf(3) cores Suc.prems(1) same(2)
      by (fastforce simp: hits_def chosen_def list_ex_iff)
    then have "master_correct es cores (\<lambda>_. True) st1 (accept_candidate cost st1)"
      using same sub Suc.prems(4) by (intro accept_candidate_correct) auto
    moreover have "master_search (Suc fuel) es cores limit cost st = accept_candidate cost st1"
      using leaf by (auto simp: st1_def Let_def)
    ultimately show ?thesis using same master_improves_trans by (auto simp: master_correct_def)
  next
    case (branch core)
    have core: "core \<in> set cores" "\<not> list_ex (\<lambda>edge. ms_selected st ! edge) core"
      using unhit_core_spec [where selected = "ms_selected st1" and cores = cores] branch(3) same(2) by simp_all
    have xs: "set (choice_order es core) = set core" by (simp add: choice_order_def)
    have "set core \<subseteq> {..<length es} - chosen st" using core cores by (auto simp: chosen_def list_ex_iff)
    then have c: "master_correct es cores (\<lambda>T. set core \<inter> T \<noteq> {}) st1
        (master_choices (master_search fuel es cores limit) es cost (choice_order es core) st1)"
      unfolding xs [symmetric] using Suc.IH Suc.prems same xs
      by (intro master_choices_correct [where fuel = fuel]) (auto simp: less_Suc_eq_le)
    have "master_search (Suc fuel) es cores limit cost st =
        master_choices (master_search fuel es cores limit) es cost (choice_order es core) st1"
      using branch by (auto simp: st1_def Let_def)
    moreover have "hits cores T \<Longrightarrow> set core \<inter> T \<noteq> {}" for T using core(1) by (simp add: hits_def)
    ultimately show ?thesis
      using c same master_improves_trans [OF same(3)] by (auto simp: master_correct_def)
  qed
qed simp

text \<open>The master returns a cheapest hitting set, unless it hits its limit.\<close>

lemma MasterSolve_correct:
  assumes "\<forall>core\<in>set cores. set core \<subseteq> {..<length es} \<and> core \<noteq> []" "\<not> ms_limit_hit (MasterSolve es cores limit)"
  defines "st \<equiv> MasterSolve es cores limit"
  shows "ms_found st" "set (ms_best_selected st) \<subseteq> {..<length es}" "hits cores (set (ms_best_selected st))"
    "\<And>T. T \<subseteq> {..<length es} \<Longrightarrow> hits cores T \<Longrightarrow>
      saturated (weight_of es (set (ms_best_selected st))) \<le> saturated (weight_of es T)"
proof -
  let ?st0 = "\<lparr>ms_selected = replicate (length es) False, ms_best_selected = [], ms_best_cost = UINT64_MAX,
        ms_search_nodes = 0, ms_limit_hit = False, ms_found = False\<rparr>"
  have "chosen ?st0 = {}" by (auto simp: chosen_def)
  then have "master_correct es cores (\<lambda>_. True) ?st0 st"
    unfolding st_def MasterSolve_def
    by (intro master_search_correct) (use assms(1) in \<open>auto simp: master_best_ok_def weight_of_def\<close>)
  then have ok: "master_best_ok es cores st" and all: "\<And>T. T \<subseteq> {..<length es} \<Longrightarrow> hits cores T \<Longrightarrow> beats es st T"
    using \<open>chosen ?st0 = {}\<close> by (auto simp: master_correct_def)
  have "hits cores {..<length es}"
    unfolding hits_def
  proof
    fix core
    assume "core \<in> set cores"
    then have "hd core \<in> set core" "set core \<subseteq> {..<length es}" using assms(1) by auto
    then show "set core \<inter> {..<length es} \<noteq> {}" by blast
  qed
  then have "beats es st {..<length es}" by (rule all [OF subset_refl])
  then show found: "ms_found st" using assms(2) by (simp add: beats_def st_def)
  show "set (ms_best_selected st) \<subseteq> {..<length es}" "hits cores (set (ms_best_selected st))"
    using ok found by (simp_all add: master_best_ok_def)
  show "saturated (weight_of es (set (ms_best_selected st))) \<le> saturated (weight_of es T)"
    if "T \<subseteq> {..<length es}" "hits cores T" for T
    using all [OF that] ok found assms(2) by (simp add: beats_def master_best_ok_def st_def)
qed

section \<open>The oracle\<close>

text \<open>No valid solution keeps all these edges free of reuse; a solution keeps them free.\<close>

definition blocking :: "DsaProblem \<Rightarrow> EdgeSet \<Rightarrow> bool" where
  "blocking p F \<longleftrightarrow> (\<forall>s. valid_solution p s \<longrightarrow> set F \<inter> activated p s \<noteq> {})"

definition avoids :: "DsaProblem \<Rightarrow> EdgeSet \<Rightarrow> DsaSolution \<Rightarrow> bool" where
  "avoids p F s \<longleftrightarrow> searchable p \<and> valid_solution p s \<and> set F \<inter> activated p s = {}"

definition oracle_ok :: "DsaProblem \<Rightarrow> OracleState \<Rightarrow> bool" where
  "oracle_ok p st \<longleftrightarrow> (\<forall>(F, s)\<in>set (oc_feasible_cache st). avoids p F s) \<and>
     (\<forall>C\<in>set (oc_infeasible_cores st). blocking p C)"

definition oracle_answer_ok :: "DsaProblem \<Rightarrow> EdgeSet \<Rightarrow> OracleResult \<Rightarrow> bool" where
  "oracle_answer_ok p F r \<longleftrightarrow>
     (fst r = kInfeasibleProven \<longrightarrow> blocking p F) \<and> (\<forall>s. snd r = Some s \<longrightarrow> avoids p F s) \<and>
     (fst r = kFeasible \<longrightarrow> snd r \<noteq> None)"

lemma promoted_pins: "pinned_allocations (promoted_problem p F) = pinned_allocations p"
  by (simp add: promoted_problem_def WithPromotedReuseEdges_def)

lemma infeasible_search:
  assumes "pinned_allocations p = []" "incumbent_offsets options = None"
    "ces_status (RunCanonicalExactSearch p (built p) options) = kInfeasibleProven"
  shows "\<not> valid_solution p s"
proof (cases "searchable p")
  case True
  have "built.aligned_incumbent p pool options" for pool using assms(2) by (simp add: built.aligned_incumbent_def)
  from RunCanonicalExactSearch_outcome [OF True this] assms(3)
  obtain q where "\<forall>B. \<not> legal_in p q B" by (auto simp: pools_outcome_def)
  then show ?thesis using valid_legal [OF assms(1)] by blast
next
  case False
  then show ?thesis using RunCanonicalExactSearch_refused(1) [OF False, of options] assms(3) by simp
qed

text \<open>A view that cannot be searched has no soft edges, so nothing is promoted.\<close>

lemma promoted_unsearchable:
  assumes "\<not> searchable p" "set F \<subseteq> edge_ids p"
  shows "promoted_problem p F = p"
proof -
  have "F = []" using assms by (simp add: length_soft_edges not_searchable_built)
  then show ?thesis by (simp add: promoted_problem_def WithPromotedReuseEdges_def PromotedPairs_def)
qed

lemma feasible_search_offsets:
  assumes "incumbent_offsets options = None" "ces_status (RunCanonicalExactSearch p (built p) options) = kFeasible"
  shows "ces_offsets (RunCanonicalExactSearch p (built p) options) \<noteq> None"
proof (cases "searchable p")
  case True
  have "built.aligned_incumbent p pool options" for pool using assms(1) by (simp add: built.aligned_incumbent_def)
  from RunCanonicalExactSearch_outcome [OF True this] assms(2) show ?thesis by (auto simp: pools_outcome_def)
next
  case False
  then show ?thesis using RunCanonicalExactSearch_refused(1) [OF False, of options] assms(2) by simp
qed

lemma oracle_search_ok:
  assumes pins: "pinned_allocations p = []" and F: "set F \<subseteq> edge_ids p" and st: "oracle_ok p st"
    and run: "oracle_search p (built p) (soft_edges p) limit F st = (r, st')"
  shows "oracle_answer_ok p F r" "oracle_ok p st'"
proof -
  let ?p = "promoted_problem p F"
  let ?o = "\<lparr>node_limit = limit, stop_after_first = True, incumbent_offsets = None\<rparr>"
  let ?found = "RunCanonicalExactSearch ?p (built ?p) ?o"
  let ?st1 = "st\<lparr>oc_search_nodes := SaturatingAdd (oc_search_nodes st) (ces_search_nodes ?found)\<rparr>"
  let ?built = "BuildValidatedReuseResult ?p (built ?p) (the (ces_offsets ?found)) kFeasible"
  have ok1: "oracle_ok p ?st1" using st by (simp add: oracle_ok_def)
  have run': "oracle_search p (built p) (soft_edges p) limit F st =
     (if ces_status ?found = kFeasible \<and> ces_offsets ?found \<noteq> None
      then if status ?built \<noteq> kFeasible \<or> solution ?built = None then ((status ?built, None), ?st1)
           else ((kFeasible, solution ?built),
                 ?st1\<lparr>oc_feasible_cache := oc_feasible_cache ?st1 @ [(F, the (solution ?built))]\<rparr>)
      else ((ces_status ?found, None), ?st1))"
    unfolding oracle_search_def promoted_problem_def Let_def by (rule refl)
  have sol: "avoids p F s \<and> status ?built = kFeasible"
    if "solution ?built = Some s" "ces_status ?found = kFeasible" for s
  proof -
    have "searchable p"
    proof (rule ccontr)
      assume no: "\<not> searchable p"
      then have "\<not> searchable ?p" using promoted_unsearchable [OF no F] by simp
      from RunCanonicalExactSearch_refused(1) [OF this, of ?o] show False using that(2) by simp
    qed
    moreover
    have "ValidateSolution ?p s = [] \<and> status ?built = kFeasible"
      using that(1) by (auto simp: BuildValidatedReuseResult_def Let_def DsaResult_default_def split: if_splits)
    ultimately show ?thesis using promoted_valid [OF pins F] by (simp add: ValidateSolution_Nil avoids_def)
  qed
  have offsets: "ces_status ?found = kFeasible \<Longrightarrow> ces_offsets ?found \<noteq> None"
    by (rule feasible_search_offsets) simp_all
  have found: "status ?built = kFeasible \<Longrightarrow> solution ?built \<noteq> None"
    by (simp add: BuildValidatedReuseResult_def Let_def split: if_splits)
  have no_status: "status ?built \<noteq> kInfeasibleProven"
    by (simp add: BuildValidatedReuseResult_def Let_def)
  have blocked: "blocking p F" if "ces_status ?found = kInfeasibleProven"
    using infeasible_search [of ?p ?o] that pins promoted_valid [OF pins F] by (auto simp: blocking_def promoted_pins)
  show "oracle_answer_ok p F r"
    using run sol found no_status blocked offsets unfolding run' oracle_answer_ok_def by (auto split: if_splits)
  show "oracle_ok p st'"
    using run sol ok1 unfolding run' by (auto simp: oracle_ok_def split: if_splits)
qed

lemma blocking_mono: "blocking p C \<Longrightarrow> set C \<subseteq> set F \<Longrightarrow> blocking p F"
  unfolding blocking_def by blast

lemma avoids_mono: "avoids p F s \<Longrightarrow> set C \<subseteq> set F \<Longrightarrow> avoids p C s"
  unfolding avoids_def by blast

lemma IsSubset_iff: "IsSubset C F \<longleftrightarrow> set C \<subseteq> set F"
  by (auto simp: IsSubset_def list_all_iff)

lemma OracleSolve_ok:
  assumes pins: "pinned_allocations p = []" and F: "set F \<subseteq> edge_ids p" and st: "oracle_ok p st"
    and run: "OracleSolve p (built p) (soft_edges p) limit F st = (r, st')"
  shows "oracle_answer_ok p F r" "oracle_ok p st'"
proof -
  let ?st1 = "st\<lparr>oc_calls := oc_calls st + 1\<rparr>"
  let ?hit = "?st1\<lparr>oc_cache_hits := oc_cache_hits ?st1 + 1\<rparr>"
  have ok1: "oracle_ok p ?st1" "oracle_ok p ?hit" using st by (simp_all add: oracle_ok_def)
  have "oracle_answer_ok p F r \<and> oracle_ok p st'"
  proof (cases "find (\<lambda>entry. IsSubset F (fst entry)) (oc_feasible_cache st)")
    case (Some entry)
    then have "entry \<in> set (oc_feasible_cache st)" "set F \<subseteq> set (fst entry)"
      by (auto simp: find_Some_iff IsSubset_iff)
    then have "avoids p F (snd entry)" using st avoids_mono by (fastforce simp: oracle_ok_def)
    then show ?thesis
      using run ok1(2) Some by (auto simp: OracleSolve_def Let_def oracle_answer_ok_def)
  next
    case None
    show ?thesis
    proof (cases "list_ex (\<lambda>core. IsSubset core F) (oc_infeasible_cores st)")
      case True
      then have "blocking p F"
        using st blocking_mono by (auto simp: list_ex_iff IsSubset_iff oracle_ok_def)
      then show ?thesis
        using run ok1(2) None True by (auto simp: OracleSolve_def Let_def oracle_answer_ok_def)
    next
      case False
      then have "oracle_search p (built p) (soft_edges p) limit F ?st1 = (r, st')"
        using run None by (simp add: OracleSolve_def Let_def)
      from oracle_search_ok [OF pins F ok1(1) this] show ?thesis by blast
    qed
  qed
  then show "oracle_answer_ok p F r" "oracle_ok p st'" by blast+
qed

section \<open>The loop\<close>

definition hitting_ok :: "DsaProblem \<Rightarrow> HittingState \<Rightarrow> bool" where
  "hitting_ok p st \<longleftrightarrow> oracle_ok p (hs_oracle st) \<and> valid_incumbent p (hs_incumbent st) \<and>
     (\<forall>C\<in>set (hs_cores st). set C \<subseteq> edge_ids p \<and> C \<noteq> [] \<and> blocking p C)"

lemma note_solution_ok: "hitting_ok p st \<Longrightarrow> hitting_ok p (note_solution p sol st)"
  by (simp add: hitting_ok_def note_solution_def consider_incumbent_valid)

lemma AddInfeasibleCore_ok: "oracle_ok p st \<Longrightarrow> blocking p C \<Longrightarrow> oracle_ok p (AddInfeasibleCore C st)"
  by (auto simp: oracle_ok_def AddInfeasibleCore_def)

lemma shrink_core_ok:
  assumes "pinned_allocations p = []" "set core \<subseteq> edge_ids p" "blocking p core" "hitting_ok p st"
  shows "case shrink_core p (built p) (soft_edges p) limit xs core st of
      Inl st' \<Rightarrow> hitting_ok p st'
    | Inr (core', st') \<Rightarrow> set core' \<subseteq> edge_ids p \<and> blocking p core' \<and> hitting_ok p st'"
  using assms(2-)
proof (induction xs arbitrary: core st)
  case (Cons e xs)
  let ?trial = "filter (\<lambda>x. x \<noteq> e) core"
  obtain trial_status trial_solution orc where
    run: "OracleSolve p (built p) (soft_edges p) limit ?trial (hs_oracle st) = ((trial_status, trial_solution), orc)"
    by (metis prod.exhaust)
  have trial: "set ?trial \<subseteq> edge_ids p" using Cons.prems(1) by auto
  have "oracle_ok p (hs_oracle st)" using Cons.prems(3) by (simp add: hitting_ok_def)
  note answer = OracleSolve_ok [OF assms(1) trial this run]
  define st1 where "st1 = st\<lparr>hs_oracle := orc, hs_shrink_calls := hs_shrink_calls st + 1\<rparr>"
  define st2 where "st2 = (if trial_status = kFeasible \<and> trial_solution \<noteq> None
      then note_solution p trial_solution st1 else st1)"
  have "hitting_ok p st1" using Cons.prems(3) answer(2) by (simp add: hitting_ok_def st1_def)
  then have ok: "hitting_ok p st2" by (simp add: st2_def note_solution_ok)
  define next_core where "next_core = (if trial_status = kInfeasibleProven then ?trial else core)"
  have next_ok: "set next_core \<subseteq> edge_ids p \<and> blocking p next_core"
    using Cons.prems(1,2) answer(1) trial by (simp add: next_core_def oracle_answer_ok_def)
  have step: "shrink_core p (built p) (soft_edges p) limit (e # xs) core st =
      (if trial_status = kTimeout then Inl st2
       else shrink_core p (built p) (soft_edges p) limit xs next_core st2)"
    by (cases trial_solution) (simp_all add: run Let_def st2_def st1_def next_core_def)
  show ?case
    unfolding step using ok Cons.IH [of next_core st2] next_ok by simp
qed simp

definition least_cost :: "DsaProblem \<Rightarrow> DsaSolution \<Rightarrow> bool" where
  "least_cost p s \<longleftrightarrow> valid_solution p s \<and>
     (\<forall>s'. valid_solution p s' \<longrightarrow> reuse_cost (EvaluateObjective p s) \<le> reuse_cost (EvaluateObjective p s'))"

definition exact_answer :: "DsaProblem \<Rightarrow> DsaResult \<Rightarrow> bool" where
  "exact_answer p r \<longleftrightarrow>
     (status r = kFeasible \<longrightarrow> (\<exists>s. solution r = Some s \<and> ValidateSolution p s = [] \<and>
        least_cost p s \<and> res_objective r = EvaluateObjective p s)) \<and>
     (status r = kInfeasibleProven \<longrightarrow> (\<nexists>s. valid_solution p s)) \<and>
     (\<forall>s. status r = kTimeout \<and> solution r = Some s \<longrightarrow> valid_solution p s)"

lemma set_Complement: "set (Complement S n) = {..<n} - set S"
  by (auto simp: Complement_def)

lemma attach_incumbent_ok:
  assumes "hitting_ok p st" "status r = kTimeout" "solution r = None"
  shows "exact_answer p (attach_incumbent p st r)"
  using assms
  by (auto simp: exact_answer_def attach_incumbent_def hitting_ok_def valid_incumbent_def ValidateSolution_Nil
      split: option.splits)

text \<open>A solution of the oracle for the complement of a cheapest hitting set has least cost.\<close>

lemma hitting_set_least:
  assumes pins: "pinned_allocations p = []" and st: "hitting_ok p st"
    and S: "set S \<subseteq> edge_ids p"
      "\<And>T. T \<subseteq> edge_ids p \<Longrightarrow> hits (hs_cores st) T \<Longrightarrow>
        saturated (weight_of (soft_edges p) (set S)) \<le> saturated (weight_of (soft_edges p) T)"
    and s: "avoids p (Complement S (length (soft_edges p))) s"
  shows "least_cost p s"
  unfolding least_cost_def
proof (intro conjI allI impI)
  have sr: "searchable p" using s by (simp add: avoids_def)
  show v: "valid_solution p s" using s by (simp add: avoids_def)
  fix s'
  assume v': "valid_solution p s'"
  have weights: "weight_of (soft_edges p) T = sum (edge_weight p) T" for T
    by (simp add: weight_of_def edge_weight_def)
  have "activated p s \<subseteq> set S" using s by (auto simp: avoids_def set_Complement activated_def)
  then have "saturated (sum (edge_weight p) (activated p s)) \<le> saturated (weight_of (soft_edges p) (set S))"
    unfolding weights by (intro saturated_mono sum_mono2) auto
  also have "\<dots> \<le> saturated (weight_of (soft_edges p) (activated p s'))"
    by (rule S(2)) (use st v' in \<open>auto simp: hits_def hitting_ok_def blocking_def activated_def\<close>)
  finally show "reuse_cost (EvaluateObjective p s) \<le> reuse_cost (EvaluateObjective p s')"
    unfolding activated_cost [OF pins v sr] activated_cost [OF pins v' sr] weights .
qed

lemma exact_answer_status:
  "status r \<notin> {kFeasible, kInfeasibleProven, kTimeout} \<Longrightarrow> exact_answer p r"
  by (simp add: exact_answer_def)

lemma failed_fields [simp]: "status (failed_result st ms) = st" "solution (failed_result st ms) = None"
  by (simp_all add: failed_result_def DsaResult_default_def)

lemma hitting_loop_exact:
  assumes pins: "pinned_allocations p = []"
  shows "hitting_ok p st \<Longrightarrow>
    exact_answer p (hitting_loop p (built p) (soft_edges p) options remaining iteration st)"
proof (induction remaining arbitrary: iteration st)
  case 0
  then show ?case by (simp add: attach_incumbent_ok)
next
  case (Suc remaining)
  let ?es = "soft_edges p" and ?n = "length (soft_edges p)"
  define master where "master = MasterSolve ?es (hs_cores st) (max_master_nodes options)"
  define st1 where "st1 = st\<lparr>hs_master_nodes := SaturatingAdd (hs_master_nodes st) (ms_search_nodes master)\<rparr>"
  define promoted where "promoted = Complement (ms_best_selected master) ?n"
  obtain os osol orc where
    run: "OracleSolve p (built p) ?es (max_oracle_nodes options) promoted (hs_oracle st1) = ((os, osol), orc)"
    by (metis prod.exhaust)
  define st2 where "st2 = st1\<lparr>hs_oracle := orc\<rparr>"
  define st3 where "st3 = st1\<lparr>hs_oracle := AddInfeasibleCore promoted orc\<rparr>"
  define shrunk where "shrunk = (if shrink_cores options
      then shrink_core p (built p) ?es (max_oracle_nodes options) promoted promoted st3 else Inr (promoted, st3))"
  note defs = master_def [symmetric] st1_def [symmetric] promoted_def [symmetric] run st2_def [symmetric]
  have ok1: "hitting_ok p st1" using Suc.prems by (simp add: hitting_ok_def st1_def)
  have promoted: "set promoted \<subseteq> edge_ids p" by (auto simp: promoted_def set_Complement)
  have "oracle_ok p (hs_oracle st1)" using ok1 by (simp add: hitting_ok_def)
  note answer = OracleSolve_ok [OF pins promoted this run]
  have ok2: "hitting_ok p st2" using ok1 answer(2) by (simp add: hitting_ok_def st2_def)
  consider (limit) "ms_limit_hit master" | (lost) "\<not> ms_limit_hit master" "\<not> ms_found master"
    | (optimal) s where "\<not> ms_limit_hit master" "ms_found master" "os = kFeasible" "osol = Some s"
    | (timeout) "\<not> ms_limit_hit master" "ms_found master" "os = kTimeout"
    | (other) "\<not> ms_limit_hit master" "ms_found master" "os \<notin> {kFeasible, kTimeout, kInfeasibleProven}"
    | (core) "\<not> ms_limit_hit master" "ms_found master" "os = kInfeasibleProven"
    using answer(1) unfolding oracle_answer_ok_def by fastforce
  then show ?case
  proof cases
    case limit
    then show ?thesis using ok1 by (simp add: Let_def defs attach_incumbent_ok)
  next
    case lost
    then show ?thesis by (simp add: Let_def defs exact_answer_status)
  next
    case optimal
    have cores: "\<forall>core\<in>set (hs_cores st). set core \<subseteq> {..<?n} \<and> core \<noteq> []"
      using Suc.prems by (simp add: hitting_ok_def)
    note best = MasterSolve_correct [OF cores, of "max_master_nodes options", folded master_def]
    have "least_cost p s"
      using answer(1) optimal best
      by (intro hitting_set_least [OF pins Suc.prems, of "ms_best_selected master"])
         (auto simp: oracle_answer_ok_def promoted_def)
    moreover have "avoids p promoted s" using answer(1) optimal by (simp add: oracle_answer_ok_def)
    then have "ValidateSolution p s = []"
      using searchable_built(1) by (simp add: avoids_def ValidateSolution_Nil)
    ultimately show ?thesis using optimal by (simp add: Let_def defs exact_answer_def)
  next
    case timeout
    then show ?thesis using ok2 by (simp add: Let_def defs attach_incumbent_ok)
  next
    case other
    then show ?thesis by (auto simp: Let_def defs exact_answer_status)
  next
    case core
    have blocked: "blocking p promoted" using answer(1) core(3) by (simp add: oracle_answer_ok_def)
    have ok3: "hitting_ok p st3" using ok1 answer(2) blocked AddInfeasibleCore_ok by (simp add: hitting_ok_def st3_def)
    have shrunk: "case shrunk of Inl st' \<Rightarrow> hitting_ok p st'
      | Inr (core', st') \<Rightarrow> set core' \<subseteq> edge_ids p \<and> blocking p core' \<and> hitting_ok p st'"
      using shrink_core_ok [OF pins promoted blocked ok3] promoted blocked ok3 by (simp add: shrunk_def)
    let ?stop = "\<lambda>st4. attach_incumbent p st4
        (failed_result kTimeout [''implicit hitting set core shrinking reached the oracle node limit''])"
    let ?infeasible = "\<lambda>st4. (failed_result kInfeasibleProven
          [''the hard DSA problem is infeasible even after every soft edge is demoted''])
        \<lparr>solver_metrics := map_of (hitting_metrics (iteration + 1) (length (hs_cores st) + 1) st4 @
           oracle_metrics st4 @ [(''optimal_reuse_cost_proven'', 1)])\<rparr>"
    let ?next = "\<lambda>c st4. hitting_loop p (built p) ?es options remaining (iteration + 1)
        (st4\<lparr>hs_oracle := AddInfeasibleCore c (hs_oracle st4),
             hs_cores := (if List.member (hs_cores st4) c then hs_cores st4 else hs_cores st4 @ [c])\<rparr>)"
    have step: "hitting_loop p (built p) ?es options (Suc remaining) iteration st =
        (case shrunk of Inl st4 \<Rightarrow> ?stop st4
         | Inr (c, st4) \<Rightarrow> if c = [] then ?infeasible st4 else ?next c st4)"
      unfolding shrunk_def st3_def using core by (cases "shrink_cores options") (simp_all add: Let_def defs)
    show ?thesis
      unfolding step
    proof (cases shrunk)
      case (Inl st4)
      then show "exact_answer p (case shrunk of Inl st4 \<Rightarrow> ?stop st4
         | Inr (c, st4) \<Rightarrow> if c = [] then ?infeasible st4 else ?next c st4)"
        using shrunk by (simp add: attach_incumbent_ok)
    next
      case (Inr result)
      obtain c st4 where c: "result = (c, st4)" by fastforce
      have ok4: "set c \<subseteq> edge_ids p" "blocking p c" "hitting_ok p st4" using shrunk Inr c by simp_all
      show "exact_answer p (case shrunk of Inl st4 \<Rightarrow> ?stop st4
         | Inr (c, st4) \<Rightarrow> if c = [] then ?infeasible st4 else ?next c st4)"
      proof (cases "c = []")
        case True
        then show ?thesis using Inr c ok4(2) by (simp add: exact_answer_def blocking_def)
      next
        case False
        define st5 where "st5 = st4\<lparr>hs_oracle := AddInfeasibleCore c (hs_oracle st4),
            hs_cores := (if List.member (hs_cores st4) c then hs_cores st4 else hs_cores st4 @ [c])\<rparr>"
        have "hitting_ok p st5"
          using ok4 False AddInfeasibleCore_ok by (auto simp: hitting_ok_def st5_def)
        from Suc.IH [OF this, of "iteration + 1"] False show ?thesis
          using Inr c by (simp add: st5_def)
      qed
    qed
  qed
qed

section \<open>The solver\<close>

lemma reuse_cost_exact_problem:
  assumes "Compatible (CheckSolverCompatibility p ReuseCostExactCapabilities)"
  shows "pinned_allocations p = []"
proof -
  have "StructurallyCompatible (CheckSolverCompatibility p ReuseCostExactCapabilities)"
    using assms by (simp add: Compatible_def)
  then show ?thesis
    unfolding structural_compatibility
    by (simp add: ReuseCostExactCapabilities_def ExactCapabilities_def SolverCapabilities_default_def)
qed

lemma ImplicitHittingSet_exact: "exact_answer p (ImplicitHittingSet_Solve R options p)"
proof (cases "Compatible (CheckSolverCompatibility p ReuseCostExactCapabilities) \<and>
    PoolDecomposedReuseLimitation p = None \<and> space_errors (placement (built p)) = []")
  case True
  have pins: "pinned_allocations p = []" using reuse_cost_exact_problem True by blast
  define seeds where "seeds = foldl (\<lambda>incumbent candidate. consider_incumbent p candidate incumbent) None
      [FirstFit_Solve p, CanonicalGreedy_Solve R CanonicalGreedyOptions_default p, PromoteRepair_Solve R p]"
  have "valid_incumbent p seeds" unfolding seeds_def by (rule incumbents_valid) (simp add: valid_incumbent_def)
  then have "hitting_ok p \<lparr>hs_oracle = \<lparr>oc_feasible_cache = [], oc_infeasible_cores = [], oc_calls = 0,
        oc_cache_hits = 0, oc_search_nodes = 0\<rparr>, hs_cores = [], hs_master_nodes = 0, hs_shrink_calls = 0,
      hs_incumbent = seeds\<rparr>"
    by (simp add: hitting_ok_def oracle_ok_def)
  from hitting_loop_exact [OF pins this] show ?thesis
    using True by (simp add: ImplicitHittingSet_Solve_def Let_def seeds_def)
next
  case False
  then have "status (ImplicitHittingSet_Solve R options p) \<in> {kInvalidProblem, kUnsupported}"
    by (auto simp: ImplicitHittingSet_Solve_def Let_def RejectExactProblem_def split: option.splits)
  then show ?thesis by (intro exact_answer_status) auto
qed

interpretation hitting_set_solver: ds_solver "\<lambda>p. ImplicitHittingSet_Solve R options p" for R options
proof unfold_locales
  fix p s
  let ?r = "ImplicitHittingSet_Solve R options p"
  have exact: "exact_answer p ?r" by (rule ImplicitHittingSet_exact)
  show "\<not> valid_solution p s" if "status ?r = kInfeasibleProven"
    using exact that by (simp add: exact_answer_def)
  show "\<exists>s. solution ?r = Some s \<and> ValidateSolution p s = []" if "status ?r = kFeasible"
    using exact that by (auto simp: exact_answer_def)
qed

text \<open>The two exact solvers agree.\<close>

interpretation exact_solvers: two_solvers "\<lambda>p. CanonicalBranchAndBound_Solve R limit p"
    "\<lambda>p. ImplicitHittingSet_Solve R' options p" for R limit R' options
  by unfold_locales

lemma exact_costs_agree:
  assumes "status (CanonicalBranchAndBound_Solve R limit p) = kFeasible" "kReuseCost \<in> set (terms (objective p))"
    and "status (ImplicitHittingSet_Solve R' options p) = kFeasible"
  shows "reuse_cost (res_objective (CanonicalBranchAndBound_Solve R limit p)) =
    reuse_cost (res_objective (ImplicitHittingSet_Solve R' options p))"
proof -
  obtain s where s: "valid_solution p s" "res_objective (CanonicalBranchAndBound_Solve R limit p) = EvaluateObjective p s"
    "\<forall>s'. valid_solution p s' \<longrightarrow> reuse_cost (EvaluateObjective p s) \<le> reuse_cost (EvaluateObjective p s')"
    using branch_and_bound_optimal [OF assms(1)] assms(2) by blast
  obtain s' where s': "least_cost p s'" "res_objective (ImplicitHittingSet_Solve R' options p) = EvaluateObjective p s'"
    using ImplicitHittingSet_exact [of p R' options] assms(3) by (auto simp: exact_answer_def)
  show ?thesis using s s' by (auto simp: least_cost_def intro: antisym)
qed

end
