(* ===== verification/Exact_Properties.thy ===== *)
theory Exact_Properties
  imports Hitting_Spec
begin

text \<open>
  The properties of the search view and of canonical branch and bound: node offsets and valid
  solutions are the same thing, both count the same reuse cost, and the solver finds the optimum of
  the declared objective and decides solvability when it has no node limit.
\<close>

section \<open>Example\<close>

text \<open>Two buffers that must share eight bytes, a third on its own, and a pool that holds both.\<close>

definition shared_buffer :: "u32 \<Rightarrow> u64 \<Rightarrow> int \<Rightarrow> int \<Rightarrow> Buffer" where
  "shared_buffer i sz lo hi =
     \<lparr>buf_id = i, buf_name = [], buf_size = sz, alignment = 4,
      live_intervals = [\<lparr>lower = lo, upper = hi\<rparr>], allowed_pools = [0]\<rparr>"

definition shared_problem :: DsaProblem where
  "shared_problem =
     \<lparr>buffers = [shared_buffer 1 8 0 3, shared_buffer 2 6 3 5, shared_buffer 4 4 0 5],
      pools = [\<lparr>pool_id = 0, pool_name = ''l1'', capacity = Some 12, reserved_ranges = [], bank_geometry = None\<rparr>],
      colocations = [], separations = [], temporal_exclusions = [], pinned_allocations = [],
      cost_model = Some \<lparr>reuse_penalties =
        [\<lparr>pen_first = 1, pen_second = 2, pen_cost = 5, pen_reason = Pen_kGeneric\<rparr>]\<rparr>,
      pypto_structure = None, objective = FitThenMinimizeReuseCostObjective\<rparr>"

definition shared_solution :: DsaSolution where
  "shared_solution = \<lparr>placements =
     [(1, \<lparr>pl_pool = 0, pl_offset = 4\<rparr>), (2, \<lparr>pl_pool = 0, pl_offset = 4\<rparr>), (4, \<lparr>pl_pool = 0, pl_offset = 0\<rparr>)]\<rparr>"

definition stay_shuffler :: "unit Shuffler" where
  "stay_shuffler = \<lparr>shuffle_engine = (\<lambda>_. ()), shuffle_nodes = (\<lambda>ns g. (ns, g))\<rparr>"

lemma shared_valid: "valid_solution shared_problem shared_solution"
proof -
  have "ValidateSolution shared_problem shared_solution = []" by code_simp
  then show ?thesis by (simp add: ValidateSolution_Nil)
qed

lemma shared_searchable: "searchable shared_problem"
  unfolding searchable_def by code_simp

section \<open>The search view\<close>

definition node_ok :: "ReusePenaltySearchSpace \<Rightarrow> nat \<Rightarrow> bool" where
  "node_ok search i \<longleftrightarrow>
     node_size (node_at search i) \<noteq> 0 \<and> node_alignment (node_at search i) \<noteq> 0 \<and>
     (\<forall>j\<in>set (hard_neighbors search ! i). j < node_count search \<and> j \<noteq> i \<and> i \<in> set (hard_neighbors search ! j)) \<and>
     (\<forall>j w. (j, w) \<in> set (soft_neighbors search ! i) \<longleftrightarrow>
        ((i, j), w) \<in> set (soft_weights search) \<or> ((j, i), w) \<in> set (soft_weights search))"

definition view_ok :: "ReusePenaltySearchSpace \<Rightarrow> bool" where
  "view_ok search \<longleftrightarrow>
     length (hard_neighbors search) = node_count search \<and> length (soft_neighbors search) = node_count search \<and>
     distinct (map node_representative (search_nodes search)) \<and>
     (\<forall>i<node_count search. node_ok search i) \<and>
     distinct (map fst (soft_weights search)) \<and>
     (\<forall>e\<in>set (soft_weights search). soft_pair_ok search (fst e))"

text \<open>
  C28: the search view of every problem is well formed. Nodes have a positive size and alignment and
  different representatives; hard neighbours are other nodes, symmetrically; a soft pair is ordered,
  listed once, lies in one pool and joins no hard neighbours; the soft neighbours of a node are
  exactly the soft pairs it is part of.
\<close>
theorem search_view_well_formed: "view_ok (BuildReusePenaltySearchSpace p)"
proof -
  have nodes: "node_ok (built p) i" if i: "i < node_count (built p)" for i
  proof -
    have "(j, w) \<in> set (soft_links i e) \<longleftrightarrow> e = ((i, j), w) \<or> e = ((j, i), w)"
      if e: "e \<in> set (soft_weights (built p))" for j w e
    proof -
      obtain a b v where abv: "e = ((a, b), v)" by (metis prod.exhaust)
      then have "a < b" using built.soft_pair [of a b v p] e by blast
      then show ?thesis by (cases "a = i") (auto simp: soft_links_def abv)
    qed
    then have "(j, w) \<in> set (soft_neighbors (built p) ! i) \<longleftrightarrow>
        ((i, j), w) \<in> set (soft_weights (built p)) \<or> ((j, i), w) \<in> set (soft_weights (built p))" for j w
      unfolding built.soft_neighbor [OF i] by auto
    then show ?thesis
      unfolding node_ok_def
      using built.node_size_pos built.node_alignment_pos built.hard_less built.hard_sym i by blast
  qed
  show ?thesis
    unfolding view_ok_def
    using built.hard_length built.soft_length built.representatives built_soft_weights nodes om_ok_distinct by blast
qed

text \<open>
  C15: without pins the searches work on valid solutions and nothing else. The node offsets of a
  valid solution are legal in every pool, and node offsets that are legal in every pool expand to a
  valid solution with these offsets.
\<close>
theorem node_offsets_are_solutions:
  assumes "searchable p" "pinned_allocations p = []"
  shows "(valid_solution p s \<longrightarrow> (\<forall>pool. legal p (BuildReusePenaltySearchSpace p)
            (pool_set (BuildReusePenaltySearchSpace p) pool) (offsets_of p s))) \<and>
    ((\<forall>pool. legal p (BuildReusePenaltySearchSpace p) (pool_set (BuildReusePenaltySearchSpace p) pool) A) \<longrightarrow>
       valid_solution p (ExpandReuseNodeSolution (BuildReusePenaltySearchSpace p) A) \<and>
       offsets_of p (ExpandReuseNodeSolution (BuildReusePenaltySearchSpace p) A) = A)"
  using valid_legal [OF assms(2)] legal_valid [OF assms] offsets_of_expand by (auto simp: legal_def)

theorem node_offsets_are_solutions_witness:
  "legal shared_problem (built shared_problem) (pool_set (built shared_problem) 0)
     (offsets_of shared_problem shared_solution)"
proof -
  have "pinned_allocations shared_problem = []" by (simp add: shared_problem_def)
  from node_offsets_are_solutions [OF shared_searchable this, of shared_solution] shared_valid show ?thesis by blast
qed

text \<open>
  C27: the search and the objective count the same reuse cost. For a valid solution of a problem without
  pinned buffers whose classes prepare without errors and with one pool each (\<open>searchable\<close>, the problems
  the reuse searches accept), the penalties the solution pays and the soft weights of its overlapping
  node pairs saturate to the same value. For other problems the search view has no soft weights.
\<close>
theorem search_cost_is_reuse_cost:
  assumes "searchable p" "pinned_allocations p = []" "valid_solution p s"
  shows "unat (reuse_cost (EvaluateObjective p s)) =
    min (\<Sum>((i, j), w)\<leftarrow>soft_weights (BuildReusePenaltySearchSpace p).
      if AddressRangesOverlap (offsets_of p s ! i) (node_size (node_at (BuildReusePenaltySearchSpace p) i))
           (offsets_of p s ! j) (node_size (node_at (BuildReusePenaltySearchSpace p) j))
      then unat w else 0) (2 ^ 64 - 1)"
proof -
  have entry: "entry_cost (built p) {..<node_count (built p)} (offsets_of p s) e =
      (case e of ((i, j), w) \<Rightarrow>
        if AddressRangesOverlap (offsets_of p s ! i) (node_size (node_at (built p) i))
             (offsets_of p s ! j) (node_size (node_at (built p) j)) then unat w else 0)"
    if e: "e \<in> set (soft_weights (built p))" for e
    using built.soft_pair [of "fst (fst e)" "snd (fst e)" "snd e" p] e
    by (auto simp: entry_cost_def overlap_def split: prod.splits)
  have "soft_cost (built p) {..<node_count (built p)} (offsets_of p s) =
    (\<Sum>((i, j), w)\<leftarrow>soft_weights (built p).
      if AddressRangesOverlap (offsets_of p s ! i) (node_size (node_at (built p) i))
           (offsets_of p s ! j) (node_size (node_at (built p) j)) then unat w else 0)"
    unfolding soft_cost_def by (intro arg_cong [of _ _ sum_list] map_cong refl) (simp add: entry split_beta)
  then show ?thesis
    using reuse_cost_soft_cost [OF assms(2,3,1)] by (simp add: unat_saturated)
qed

theorem search_cost_is_reuse_cost_witness:
  "unat (reuse_cost (EvaluateObjective shared_problem shared_solution)) =
    min (\<Sum>((i, j), w)\<leftarrow>soft_weights (built shared_problem).
      if AddressRangesOverlap (offsets_of shared_problem shared_solution ! i) (node_size (node_at (built shared_problem) i))
           (offsets_of shared_problem shared_solution ! j) (node_size (node_at (built shared_problem) j))
      then unat w else 0) (2 ^ 64 - 1)"
  by (rule search_cost_is_reuse_cost [OF shared_searchable _ shared_valid]) (simp add: shared_problem_def)

section \<open>The search of one pool\<close>

text \<open>
  C13: the branch and bound of one pool is exact, whatever incumbent it starts from, as long as the
  offsets of the incumbent are aligned in the pool (they are when it comes from a valid solution, which
  is how the solvers seed it). It answers infeasible, feasible or timeout. When it answers infeasible no
  vector of node offsets is legal in the pool; when it answers feasible its vector is legal and, unless it
  was told to stop at the first one, no legal vector has a lexicographically smaller (cost, peak) score;
  it answers timeout only with a node limit, and nothing is claimed then.
\<close>
theorem pool_search_exact:
  fixes p :: DsaProblem and pool :: PoolId and options :: CanonicalExactSearchOptions
  defines "view \<equiv> BuildReusePenaltySearchSpace p"
  defines "r \<equiv> run_pool_search p view pool options" and "ns \<equiv> pool_set view pool"
  assumes "\<And>seed i. incumbent_offsets options = Some seed \<Longrightarrow> i \<in> ns \<Longrightarrow>
    aligned_to (node_alignment (node_at view i)) (seed ! i)"
  shows "(psr_status r = kInfeasibleProven \<longrightarrow> \<not> legal p view ns A) \<and>
    (psr_status r = kFeasible \<longrightarrow> legal p view ns (psr_offsets r) \<and>
      (\<not> stop_after_first options \<and> legal p view ns A \<longrightarrow>
        vector_score p view pool ns (psr_offsets r) \<le> vector_score p view pool ns A)) \<and>
    (psr_status r = kTimeout \<longrightarrow> node_limit options \<noteq> 0) \<and>
    psr_status r \<in> {kInfeasibleProven, kFeasible, kTimeout}"
proof -
  have "built.aligned_incumbent p pool options"
    using assms(4) by (simp add: built.aligned_incumbent_def view_def ns_def)
  from built.run_pool_search_correct [OF this] run_pool_search_no_limit show ?thesis
    unfolding view_def r_def ns_def by metis
qed

theorem pool_search_exact_witness:
  "vector_score shared_problem (built shared_problem) 0 (pool_set (built shared_problem) 0)
     (psr_offsets (run_pool_search shared_problem (built shared_problem) 0
        \<lparr>node_limit = 0, stop_after_first = False,
         incumbent_offsets = Some (offsets_of shared_problem shared_solution)\<rparr>)) \<le>
   vector_score shared_problem (built shared_problem) 0 (pool_set (built shared_problem) 0)
     (offsets_of shared_problem shared_solution)"
proof -
  let ?seed = "offsets_of shared_problem shared_solution"
  let ?o = "\<lparr>node_limit = 0, stop_after_first = False, incumbent_offsets = Some ?seed\<rparr>"
  let ?r = "run_pool_search shared_problem (built shared_problem) 0 ?o"
  have pins: "pinned_allocations shared_problem = []" by (simp add: shared_problem_def)
  have legal: "legal shared_problem (built shared_problem) (pool_set (built shared_problem) 0) ?seed"
    by (rule valid_legal [OF pins shared_valid])
  have "aligned_to (node_alignment (node_at (built shared_problem) i)) (?seed ! i)"
    if "i \<in> pool_set (built shared_problem) 0" for i
    using legal that unfolding legal_def by blast
  then have seed: "aligned_to (node_alignment (node_at (built shared_problem) i)) (seed ! i)"
    if "incumbent_offsets ?o = Some seed" "i \<in> pool_set (built shared_problem) 0" for seed i
    using that by simp
  note exact = pool_search_exact [where options = ?o and p = shared_problem and pool = 0 and A = ?seed, OF seed]
  have "psr_status ?r = kFeasible" using exact legal by auto
  then show ?thesis using exact legal by simp
qed

section \<open>Canonical branch and bound\<close>

text \<open>
  C2: a feasible answer of canonical branch and bound is proven best. Its solution is valid, no valid
  solution has a smaller reuse cost when the objective asks for it, and no valid solution has a
  lexicographically smaller objective, unless the reuse cost has saturated at the largest 64-bit
  value.
\<close>
theorem branch_and_bound_best:
  assumes "status (CanonicalBranchAndBound_Solve R limit p) = kFeasible"
  shows "\<exists>s. solution (CanonicalBranchAndBound_Solve R limit p) = Some s \<and> valid_solution p s \<and>
    res_objective (CanonicalBranchAndBound_Solve R limit p) = EvaluateObjective p s \<and>
    (\<forall>s'. valid_solution p s' \<longrightarrow>
      (kReuseCost \<in> set (terms (objective p)) \<longrightarrow>
         reuse_cost (EvaluateObjective p s) \<le> reuse_cost (EvaluateObjective p s')) \<and>
      (reuse_cost (EvaluateObjective p s) < UINT64_MAX \<or> kReuseCost \<notin> set (terms (objective p)) \<longrightarrow>
         ObjectiveScore p (EvaluateObjective p s) \<le> ObjectiveScore p (EvaluateObjective p s')))"
  by (rule branch_and_bound_optimal [OF assms])

text \<open>The problems that the solver accepts.\<close>

definition exactly_solvable :: "DsaProblem \<Rightarrow> bool" where
  "exactly_solvable p \<longleftrightarrow>
     Compatible (CheckSolverCompatibility p ExactCapabilities) \<and>
     list_all (\<lambda>pool. capacity pool \<noteq> None) (pools p) \<and> \<not> peak_before_reuse p \<and> searchable p"

lemma exactly_solvable_run:
  assumes "exactly_solvable p"
  shows "CanonicalBranchAndBound_Solve R limit p = branch_and_bound R limit p (built p)" "searchable p"
    "pinned_allocations p = []"
  using assms exact_problem searchable_errors
  by (auto simp: exactly_solvable_def CanonicalBranchAndBound_Solve_def Let_def list_ex_iff list_all_iff)

lemma exactly_solvable_decided:
  assumes "exactly_solvable p"
  shows "status (CanonicalBranchAndBound_Solve R 0 p) = (if \<exists>s. valid_solution p s then kFeasible else kInfeasibleProven)"
  using branch_and_bound_answer [OF exactly_solvable_run(2,3) [OF assms], where limit = 0 and R = R]
  unfolding exactly_solvable_run(1) [OF assms] by (auto split: if_splits)

lemma shared_solvable: "\<exists>s. valid_solution shared_problem s"
  using shared_valid by blast

lemma shared_exact: "exactly_solvable shared_problem"
proof -
  have "Compatible (CheckSolverCompatibility shared_problem ExactCapabilities)" by code_simp
  moreover have "list_all (\<lambda>pool. capacity pool \<noteq> None) (pools shared_problem)" by code_simp
  moreover have "\<not> peak_before_reuse shared_problem" by code_simp
  ultimately show ?thesis using shared_searchable by (simp add: exactly_solvable_def)
qed

theorem branch_and_bound_best_witness:
  "\<exists>s. solution (CanonicalBranchAndBound_Solve stay_shuffler 0 shared_problem) = Some s \<and>
     reuse_cost (EvaluateObjective shared_problem s) \<le> reuse_cost (EvaluateObjective shared_problem shared_solution)"
proof -
  have "status (CanonicalBranchAndBound_Solve stay_shuffler 0 shared_problem) = kFeasible"
    using exactly_solvable_decided [OF shared_exact, of stay_shuffler] shared_solvable by simp
  moreover have "kReuseCost \<in> set (terms (objective shared_problem))" by code_simp
  ultimately show ?thesis using branch_and_bound_best [of stay_shuffler 0 shared_problem] shared_valid by blast
qed

text \<open>
  C14: without a node limit canonical branch and bound decides every problem it accepts: it answers
  feasible when a valid solution exists and infeasible when none does. It never gives up.
\<close>
theorem branch_and_bound_decides:
  assumes "exactly_solvable p"
  shows "status (CanonicalBranchAndBound_Solve R 0 p) =
    (if \<exists>s. valid_solution p s then kFeasible else kInfeasibleProven)"
  by (rule exactly_solvable_decided [OF assms])

theorem branch_and_bound_decides_witness:
  "status (CanonicalBranchAndBound_Solve stay_shuffler 0 shared_problem) = kFeasible"
  using branch_and_bound_decides [OF shared_exact, of stay_shuffler] shared_solvable by simp

section \<open>Implicit hitting sets\<close>

definition hitting_options :: ImplicitHittingSetOptions where
  "hitting_options =
     \<lparr>max_oracle_nodes = 0, max_master_nodes = 0, max_iterations = 4, shrink_cores = True\<rparr>"

text \<open>Whatever the seeds are, the loop answers the example in its second iteration.\<close>

lemma shared_hitting_loop:
  "status (hitting_loop shared_problem (BuildReusePenaltySearchSpace shared_problem)
     (IndexSoftEdges (BuildReusePenaltySearchSpace shared_problem)) hitting_options 4 0
     \<lparr>hs_oracle = \<lparr>oc_feasible_cache = [], oc_infeasible_cores = [], oc_calls = 0,
                   oc_cache_hits = 0, oc_search_nodes = 0\<rparr>,
      hs_cores = [], hs_master_nodes = 0, hs_shrink_calls = 0, hs_incumbent = seeds\<rparr>) = kFeasible"
  by code_simp

lemma shared_hitting_feasible:
  "status (ImplicitHittingSet_Solve stay_shuffler hitting_options shared_problem) = kFeasible"
proof -
  have "Compatible (CheckSolverCompatibility shared_problem ReuseCostExactCapabilities)" by code_simp
  moreover have "PoolDecomposedReuseLimitation shared_problem = None" by code_simp
  moreover have "max_iterations hitting_options = 4" by code_simp
  ultimately show ?thesis
    using searchable_errors [OF shared_searchable] shared_hitting_loop
    by (simp add: ImplicitHittingSet_Solve_def Let_def)
qed

text \<open>
  C3: a feasible answer of the implicit hitting set solver is proven best: its solution passes the
  validator and no valid solution has a smaller reuse cost. The proof covers the exact master, the
  caching oracle over promoted problems and the shrinking of cores.
\<close>
theorem hitting_set_best:
  assumes "status (ImplicitHittingSet_Solve R options p) = kFeasible"
  shows "\<exists>s. solution (ImplicitHittingSet_Solve R options p) = Some s \<and> ValidateSolution p s = [] \<and>
    res_objective (ImplicitHittingSet_Solve R options p) = EvaluateObjective p s \<and>
    (\<forall>s'. valid_solution p s' \<longrightarrow> reuse_cost (EvaluateObjective p s) \<le> reuse_cost (EvaluateObjective p s'))"
  using ImplicitHittingSet_exact [of p R options] assms by (auto simp: exact_answer_def least_cost_def)

theorem hitting_set_best_witness:
  "\<exists>s. solution (ImplicitHittingSet_Solve stay_shuffler hitting_options shared_problem) = Some s \<and>
     reuse_cost (EvaluateObjective shared_problem s) \<le> reuse_cost (EvaluateObjective shared_problem shared_solution)"
  using hitting_set_best [OF shared_hitting_feasible] shared_valid by blast

text \<open>
  C16: the two exact solvers agree. Neither proves infeasible what the other solves, and when both
  answer feasible for an objective with the reuse cost they report the same reuse cost.
\<close>
theorem exact_solvers_agree:
  "\<not> (status (CanonicalBranchAndBound_Solve R limit p) = kFeasible \<and>
      status (ImplicitHittingSet_Solve R' options p) = kInfeasibleProven) \<and>
   \<not> (status (ImplicitHittingSet_Solve R' options p) = kFeasible \<and>
      status (CanonicalBranchAndBound_Solve R limit p) = kInfeasibleProven) \<and>
   (status (CanonicalBranchAndBound_Solve R limit p) = kFeasible \<and>
    status (ImplicitHittingSet_Solve R' options p) = kFeasible \<and> kReuseCost \<in> set (terms (objective p)) \<longrightarrow>
    reuse_cost (res_objective (CanonicalBranchAndBound_Solve R limit p)) =
      reuse_cost (res_objective (ImplicitHittingSet_Solve R' options p)))"
  using exact_solvers.no_contradiction hitting_set_solver.feasible_valid branch_and_bound_solver.infeasible_sound
    exact_costs_agree ValidateSolution_Nil by metis

theorem exact_solvers_agree_witness:
  "reuse_cost (res_objective (CanonicalBranchAndBound_Solve stay_shuffler 0 shared_problem)) =
   reuse_cost (res_objective (ImplicitHittingSet_Solve stay_shuffler hitting_options shared_problem))"
proof -
  have "status (CanonicalBranchAndBound_Solve stay_shuffler 0 shared_problem) = kFeasible"
    using exactly_solvable_decided [OF shared_exact, of stay_shuffler] shared_solvable by simp
  moreover have "kReuseCost \<in> set (terms (objective shared_problem))" by code_simp
  ultimately show ?thesis
    using exact_solvers_agree [of stay_shuffler 0 shared_problem stay_shuffler hitting_options]
      shared_hitting_feasible by blast
qed

end
