(* ===== verification/Cypress_Relaxation.thy ===== *)
theory Cypress_Relaxation
  imports Solver_Spec
begin

text \<open>
  \<^verbatim>\<open>src/dsa/algorithms/cypress_relaxation_solver.cpp\<close>: pack every pool with all of its nodes kept
  apart, and drop auxiliary edges in a fixed order until the packing fits. The search for an offset
  off the reserved ranges is a loop that need not end, so every function that reaches it lives in the
  option monad: \<open>None\<close> is a call that does not return.
\<close>

section \<open>Address arithmetic\<close>

record AuxiliaryEdge =
  aux_first :: nat
  aux_second :: nat

record PoolPackResult =
  pack_offsets :: "u64 list"
  pack_peak :: u64
  within_capacity :: bool

definition Cypress_AlignUp :: "u64 \<Rightarrow> u64 \<Rightarrow> u64 option" where
  "Cypress_AlignUp v align =
     (let remainder = v mod align in
      if remainder = 0 then Some v
      else let increment = align - remainder in
        if AddOverflows v increment then None else Some (v + increment))"

definition RangesOverlap :: "u64 \<Rightarrow> u64 \<Rightarrow> u64 \<Rightarrow> u64 \<Rightarrow> bool" where
  "RangesOverlap first_offset first_size second_offset second_size =
     (if AddOverflows first_offset first_size \<or> AddOverflows second_offset second_size then True
      else first_offset < second_offset + second_size \<and> second_offset < first_offset + first_size)"

definition overlapping_range :: "Pool \<Rightarrow> u64 \<Rightarrow> u64 \<Rightarrow> AddressRange option" where
  "overlapping_range pool offset sz =
     find (\<lambda>r. RangesOverlap offset sz (range_begin r) (range_end r - range_begin r)) (reserved_ranges pool)"

partial_function (option) AvoidReservedRanges :: "Pool \<Rightarrow> u64 \<Rightarrow> u64 \<Rightarrow> u64 \<Rightarrow> u64 option option" where
  "AvoidReservedRanges pool offset sz align =
     (case overlapping_range pool offset sz of
        None \<Rightarrow> Some (Some offset)
      | Some reserved \<Rightarrow>
          (case Cypress_AlignUp (range_end reserved) align of
             None \<Rightarrow> Some None
           | Some next_offset \<Rightarrow> AvoidReservedRanges pool next_offset sz align))"

declare AvoidReservedRanges.simps [code]

text \<open>\<open>value_or(UINT64_MAX)\<close>.\<close>

definition offset_or_max :: "u64 option \<Rightarrow> u64" where
  "offset_or_max offset = (case offset of None \<Rightarrow> UINT64_MAX | Some o' \<Rightarrow> o')"

section \<open>Packing a pool\<close>

type_synonym Interference = "bool list list"

definition interferes :: "Interference \<Rightarrow> nat \<Rightarrow> nat \<Rightarrow> bool" where
  "interferes m i j = m ! i ! j"

definition set_interference :: "nat \<Rightarrow> nat \<Rightarrow> bool \<Rightarrow> Interference \<Rightarrow> Interference" where
  "set_interference i j b m = (let m' = m[i := (m ! i)[j := b]] in m'[j := (m' ! j)[i := b]])"

fun initial_offsets :: "Pool \<Rightarrow> PlacementSearchNode list \<Rightarrow> nat list \<Rightarrow> u64 list \<Rightarrow> u64 list option" where
  "initial_offsets pool ns [] offsets = Some offsets"
| "initial_offsets pool ns (node # rest) offsets =
     do {
       offset \<leftarrow> AvoidReservedRanges pool 0 (node_size (ns ! node)) (node_alignment (ns ! node));
       initial_offsets pool ns rest (offsets[node := offset_or_max offset])
     }"

definition interference_degree :: "nat list \<Rightarrow> Interference \<Rightarrow> nat \<Rightarrow> nat" where
  "interference_degree pool_indices m node =
     length (filter (\<lambda>other. other \<noteq> node \<and> interferes m node other) pool_indices)"

text \<open>The comparison of \<open>std::min_element\<close>, and \<open>min_element\<close> itself: the first least element.\<close>

definition pack_before ::
  "PlacementSearchNode list \<Rightarrow> nat list \<Rightarrow> Interference \<Rightarrow> u64 list \<Rightarrow> bool list \<Rightarrow> nat \<Rightarrow> nat \<Rightarrow> bool" where
  "pack_before ns pool_indices m offsets finalized first second =
     (if finalized ! first \<noteq> finalized ! second then \<not> finalized ! first
      else if finalized ! first then first < second
      else if offsets ! first \<noteq> offsets ! second then offsets ! first < offsets ! second
      else if interference_degree pool_indices m first \<noteq> interference_degree pool_indices m second
      then interference_degree pool_indices m first > interference_degree pool_indices m second
      else if node_size (ns ! first) \<noteq> node_size (ns ! second) then node_size (ns ! first) > node_size (ns ! second)
      else node_representative (ns ! first) < node_representative (ns ! second))"

fun min_element :: "('a \<Rightarrow> 'a \<Rightarrow> bool) \<Rightarrow> 'a list \<Rightarrow> 'a option" where
  "min_element lt [] = None"
| "min_element lt (x # xs) = Some (foldl (\<lambda>least y. if lt y least then y else least) x xs)"

fun shift_others ::
  "Pool \<Rightarrow> PlacementSearchNode list \<Rightarrow> Interference \<Rightarrow> bool list \<Rightarrow> nat \<Rightarrow> nat list \<Rightarrow> u64 list \<Rightarrow> u64 list option" where
  "shift_others pool ns m finalized current [] offsets = Some offsets"
| "shift_others pool ns m finalized current (other # rest) offsets =
     (if finalized ! other \<or> \<not> interferes m current other \<or>
         \<not> RangesOverlap (offsets ! current) (node_size (ns ! current)) (offsets ! other) (node_size (ns ! other))
      then shift_others pool ns m finalized current rest offsets
      else (case Cypress_AlignUp (offsets ! current + node_size (ns ! current)) (node_alignment (ns ! other)) of
              None \<Rightarrow> shift_others pool ns m finalized current rest (offsets[other := UINT64_MAX])
            | Some shifted \<Rightarrow>
                do {
                  legal \<leftarrow> AvoidReservedRanges pool shifted (node_size (ns ! other)) (node_alignment (ns ! other));
                  shift_others pool ns m finalized current rest (offsets[other := offset_or_max legal])
                }))"

text \<open>
  The main loop. \<open>Inl\<close> is the early return for a node that leaves the address space, \<open>Inr\<close> the offsets
  when the loop ends.
\<close>

fun pack_loop ::
  "Pool \<Rightarrow> PlacementSearchNode list \<Rightarrow> nat list \<Rightarrow> Interference \<Rightarrow> nat \<Rightarrow> bool list \<Rightarrow> u64 list \<Rightarrow>
   (u64 list + u64 list) option" where
  "pack_loop pool ns pool_indices m 0 finalized offsets = Some (Inr offsets)"
| "pack_loop pool ns pool_indices m (Suc left) finalized offsets =
     (case min_element (pack_before ns pool_indices m offsets finalized) pool_indices of
        None \<Rightarrow> Some (Inr offsets)
      | Some current \<Rightarrow>
          if finalized ! current then Some (Inr offsets)
          else
            let finalized' = finalized[current := True] in
            if AddOverflows (offsets ! current) (node_size (ns ! current)) then Some (Inl offsets)
            else do {
              offsets' \<leftarrow> shift_others pool ns m finalized' current pool_indices offsets;
              pack_loop pool ns pool_indices m left finalized' offsets'
            })"

fun packed_peak :: "PlacementSearchNode list \<Rightarrow> u64 list \<Rightarrow> nat list \<Rightarrow> u64 \<Rightarrow> u64" where
  "packed_peak ns offsets [] peak = peak"
| "packed_peak ns offsets (node # rest) peak =
     (if AddOverflows (offsets ! node) (node_size (ns ! node)) then UINT64_MAX
      else packed_peak ns offsets rest (max peak (offsets ! node + node_size (ns ! node))))"

definition PackPool :: "Pool \<Rightarrow> nat list \<Rightarrow> PlacementSearchNode list \<Rightarrow> Interference \<Rightarrow> PoolPackResult option" where
  "PackPool pool pool_indices ns m =
     do {
       offsets \<leftarrow> initial_offsets pool ns pool_indices (replicate (length ns) 0);
       packed \<leftarrow> pack_loop pool ns pool_indices m (length pool_indices) (replicate (length ns) False) offsets;
       Some (case packed of
               Inl offsets' \<Rightarrow> \<lparr>pack_offsets = offsets', pack_peak = UINT64_MAX, within_capacity = False\<rparr>
             | Inr offsets' \<Rightarrow>
                 let peak = packed_peak ns offsets' pool_indices 0
                 in \<lparr>pack_offsets = offsets', pack_peak = peak,
                     within_capacity = (case capacity pool of None \<Rightarrow> False | Some cap \<Rightarrow> peak \<le> cap)\<rparr>)
     }"

section \<open>Relaxing the auxiliary edges\<close>

definition mandatory_edges :: "PlacementSearchNode list \<Rightarrow> Interference" where
  "mandatory_edges ns =
     foldl (\<lambda>m index. foldl (\<lambda>m neighbor. case index_representatives ns neighbor of
                None \<Rightarrow> m | Some other \<Rightarrow> set_interference index other True m) m (node_conflicts (ns ! index)))
       (replicate (length ns) (replicate (length ns) False)) [0..<length ns]"

fun later_pairs :: "'a list \<Rightarrow> ('a \<times> 'a) list" where
  "later_pairs [] = []"
| "later_pairs (x # xs) = map (Pair x) xs @ later_pairs xs"

definition auxiliary_edges :: "Interference \<Rightarrow> nat list \<Rightarrow> AuxiliaryEdge list" where
  "auxiliary_edges mandatory pool_indices =
     map (\<lambda>(i, j). \<lparr>aux_first = i, aux_second = j\<rparr>) (filter (\<lambda>(i, j). \<not> interferes mandatory i j) (later_pairs pool_indices))"

definition complete_graph :: "Interference \<Rightarrow> AuxiliaryEdge list \<Rightarrow> Interference" where
  "complete_graph mandatory auxiliary =
     foldl (\<lambda>m edge. set_interference (aux_first edge) (aux_second edge) True m) mandatory auxiliary"

text \<open>The loop over the edges that are left; it returns the packing and the number of edges dropped.\<close>

fun relax_loop ::
  "Pool \<Rightarrow> nat list \<Rightarrow> PlacementSearchNode list \<Rightarrow> AuxiliaryEdge list \<Rightarrow> Interference \<Rightarrow> nat \<Rightarrow> PoolPackResult \<Rightarrow>
   (PoolPackResult \<times> nat) option" where
  "relax_loop pool pool_indices ns [] active relaxed packed = Some (packed, relaxed)"
| "relax_loop pool pool_indices ns (edge # rest) active relaxed packed =
     (if within_capacity packed then Some (packed, relaxed)
      else
        let active' = set_interference (aux_first edge) (aux_second edge) False active in
        do {
          packed' \<leftarrow> PackPool pool pool_indices ns active';
          relax_loop pool pool_indices ns rest active' (Suc relaxed) packed'
        })"

definition cypress_pool_nodes :: "PlacementSearchNode list \<Rightarrow> Pool \<Rightarrow> nat list" where
  "cypress_pool_nodes ns pool =
     sort_by (\<lambda>i j. node_representative (ns ! i) < node_representative (ns ! j))
       (filter (\<lambda>i. node_pool (ns ! i) = pool_id pool) [0..<length ns])"

record CypressState =
  cy_placements :: "(BufferId, Placement) omap"
  cy_auxiliary :: u64
  cy_relaxed :: u64
  cy_aliases :: u64
  cy_attempts :: u64
  cy_all_fit :: bool

definition alias_count :: "PlacementSearchNode list \<Rightarrow> u64 list \<Rightarrow> AuxiliaryEdge list \<Rightarrow> nat" where
  "alias_count ns offsets dropped =
     length (filter (\<lambda>edge. RangesOverlap (offsets ! aux_first edge) (node_size (ns ! aux_first edge))
       (offsets ! aux_second edge) (node_size (ns ! aux_second edge))) dropped)"

definition place_members ::
  "PlacementSearchNode list \<Rightarrow> Pool \<Rightarrow> u64 list \<Rightarrow> nat list \<Rightarrow> (BufferId, Placement) omap \<Rightarrow> (BufferId, Placement) omap" where
  "place_members ns pool offsets pool_indices m =
     foldl (\<lambda>m index. foldl (\<lambda>m member. om_emplace member \<lparr>pl_pool = pool_id pool, pl_offset = offsets ! index\<rparr> m)
              m (node_members (ns ! index))) m pool_indices"

definition relax_pool ::
  "PlacementSearchNode list \<Rightarrow> Interference \<Rightarrow> Pool \<Rightarrow> CypressState \<Rightarrow> CypressState option" where
  "relax_pool ns mandatory pool st =
     (let pool_indices = cypress_pool_nodes ns pool;
          auxiliary = auxiliary_edges mandatory pool_indices;
          active = complete_graph mandatory auxiliary
      in do {
        first \<leftarrow> PackPool pool pool_indices ns active;
        (packed, relaxed) \<leftarrow> relax_loop pool pool_indices ns auxiliary active 0 first;
        Some (st\<lparr>cy_auxiliary := cy_auxiliary st + of_nat (length auxiliary),
                 cy_relaxed := cy_relaxed st + of_nat relaxed,
                 cy_attempts := cy_attempts st + of_nat (Suc relaxed),
                 cy_all_fit := cy_all_fit st \<and> within_capacity packed,
                 cy_aliases := cy_aliases st + of_nat (alias_count ns (pack_offsets packed) (take relaxed auxiliary)),
                 cy_placements := place_members ns pool (pack_offsets packed) pool_indices (cy_placements st)\<rparr>)
      })"

fun relax_pools ::
  "PlacementSearchNode list \<Rightarrow> Interference \<Rightarrow> Pool list \<Rightarrow> CypressState \<Rightarrow> CypressState option" where
  "relax_pools ns mandatory [] st = Some st"
| "relax_pools ns mandatory (pool # rest) st =
     Option.bind (relax_pool ns mandatory pool st) (relax_pools ns mandatory rest)"

section \<open>The solver\<close>

definition Cypress_Capabilities :: SolverCapabilities where
  "Cypress_Capabilities = SolverCapabilities_default
     \<lparr>cap_colocations := True, cap_separations := True, cap_reserved_ranges := True, cap_multi_pool := True,
      cap_lexicographic_objective := True, cap_capacity_objective := True\<rparr>"

definition pool_refusal :: "Pool \<Rightarrow> string option" where
  "pool_refusal pool =
     (if capacity pool = None
      then Some ''cypress_relaxation requires a fixed capacity for every independent pool''
      else if bank_geometry pool \<noteq> None then Some ''cypress_relaxation does not support bank geometry''
      else None)"

definition cypress_messages :: "DsaProblem \<Rightarrow> SolverCompatibility \<Rightarrow> string list" where
  "cypress_messages problem compatibility =
     [''cypress_relaxation independently implements the PLDI 2025 complete-graph relaxation policy with the Knight et al. packing heuristic'',
      ''cypress_relaxation deletion_order=stable_pool_then_buffer_id (the Cypress paper does not specify auxiliary-edge order)''] @
     (if has_reuse_penalties problem
      then [''cypress_relaxation is an unweighted alias-relaxation baseline; input reuse weights do not affect its edge-deletion order'']
      else []) @
     map (\<lambda>f. ''cypress_relaxation provides a structural capacity baseline but does not optimize '' @
            [CHR 0x27] @ f @ [CHR 0x27]) (unsupported_objectives compatibility)"

definition cypress_finish :: "DsaProblem \<Rightarrow> SolverCompatibility \<Rightarrow> CypressState \<Rightarrow> DsaResult" where
  "cypress_finish problem compatibility st =
     (let sol = \<lparr>placements = cy_placements st\<rparr>;
          solution_errors = ValidateSolution (without_capacities problem) sol
      in if solution_errors \<noteq> []
         then DsaResult_default\<lparr>status := kInvalidProblem,
                diagnostics := ''cypress_relaxation internal placement validation failed'' # solution_errors\<rparr>
         else DsaResult_default
                \<lparr>status := (if cy_all_fit st then kFeasible else kBestEffortNoFit),
                 solution := Some sol, res_objective := EvaluateObjective problem sol,
                 diagnostics := cypress_messages problem compatibility,
                 solver_metrics := map_of
                   [(''auxiliary_edges'', cy_auxiliary st), (''relaxed_edges'', cy_relaxed st),
                    (''actual_alias_pairs'', cy_aliases st), (''packing_attempts'', cy_attempts st)]\<rparr>)"

definition CypressRelaxation_Solve :: "DsaProblem \<Rightarrow> DsaResult option" where
  "CypressRelaxation_Solve problem =
     (let validation = ValidateProblem problem;
          compatibility = CheckSolverCompatibility problem Cypress_Capabilities;
          space = BuildPlacementSearchSpace problem
      in if validation \<noteq> [] then Some (DsaResult_default\<lparr>status := kInvalidProblem, diagnostics := validation\<rparr>)
         else if \<not> StructurallyCompatible compatibility
         then Some (DsaResult_default\<lparr>status := kUnsupported,
                diagnostics := feature_messages ''cypress_relaxation'' compatibility\<rparr>)
         else (case List.map_filter pool_refusal (pools problem) of
           message # _ \<Rightarrow> Some (DsaResult_default\<lparr>status := kUnsupported, diagnostics := [message]\<rparr>)
         | [] \<Rightarrow>
             if space_errors space \<noteq> []
             then Some (DsaResult_default\<lparr>status := kInvalidProblem, diagnostics := space_errors space\<rparr>)
             else if space_flexible_pools space
             then Some (DsaResult_default\<lparr>status := kUnsupported,
                    diagnostics := [''cypress_relaxation does not support flexible pool assignment'']\<rparr>)
             else do {
               st \<leftarrow> relax_pools (nodes space) (mandatory_edges (nodes space)) (sort_key pool_id (pools problem))
                       \<lparr>cy_placements = [], cy_auxiliary = 0, cy_relaxed = 0, cy_aliases = 0, cy_attempts = 0,
                        cy_all_fit = True\<rparr>;
               Some (cypress_finish problem compatibility st)
             }))"

end
