(* ===== verification/Cypress_Spec.thy ===== *)
theory Cypress_Spec
  imports Canonical_Solution Cypress_Relaxation
begin

text \<open>
  Cypress relaxation: the loop that moves an offset off the reserved ranges returns the least legal
  offset when no range forces it out of the address space, and need not return at all otherwise; a
  feasible answer of the solver carries a valid solution.
\<close>

section \<open>Avoiding the reserved ranges\<close>

definition clear_of :: "Pool \<Rightarrow> u64 \<Rightarrow> u64 \<Rightarrow> bool" where
  "clear_of pool x sz \<longleftrightarrow>
     \<not> AddOverflows x sz \<and>
     (\<forall>r\<in>set (reserved_ranges pool). bytes x sz \<inter> range_bytes (range_begin r) (range_end r) = {})"

lemma RangesOverlap_AddressRangesOverlap:
  "s1 \<noteq> 0 \<Longrightarrow> s2 \<noteq> 0 \<Longrightarrow> RangesOverlap o1 s1 o2 s2 = AddressRangesOverlap o1 s1 o2 s2"
  by (simp add: RangesOverlap_def AddressRangesOverlap_def)

lemma Cypress_AlignUp_eq:
  assumes "align \<noteq> 0"
  shows "Cypress_AlignUp v align = AlignUp v align"
proof (cases "align \<le> 1")
  case True
  then have "unat align = 1" using assms by (simp add: word_le_nat_alt unat_eq_zero [symmetric])
  then have "v mod align = 0" by (simp add: word_unat_eq_iff unat_mod)
  with True show ?thesis by (simp add: Cypress_AlignUp_def AlignUp_def)
next
  case False
  then show ?thesis by (simp add: Cypress_AlignUp_def AlignUp_def Let_def)
qed

lemma overlapping_range_Some:
  assumes "overlapping_range pool v sz = Some r"
  shows "r \<in> set (reserved_ranges pool)" "RangesOverlap v sz (range_begin r) (range_end r - range_begin r)"
  using assms by (auto simp: overlapping_range_def find_Some_iff)

lemma reserved_bytes_overlap:
  assumes "range_begin r < range_end r" "sz \<noteq> 0" "\<not> AddOverflows v sz"
  shows "RangesOverlap v sz (range_begin r) (range_end r - range_begin r) \<longleftrightarrow>
    bytes v sz \<inter> range_bytes (range_begin r) (range_end r) \<noteq> {}"
proof -
  have "range_end r - range_begin r \<noteq> 0" using assms(1) by auto
  then show ?thesis
    using reserved_overlap [of r v sz] assms by (simp add: RangesOverlap_AddressRangesOverlap less_imp_le)
qed

lemma overlapping_range_None:
  assumes "overlapping_range pool v sz = None" "\<not> AddOverflows v sz" "sz \<noteq> 0"
    "\<forall>r\<in>set (reserved_ranges pool). range_begin r < range_end r"
  shows "clear_of pool v sz"
  unfolding clear_of_def
proof (intro conjI ballI)
  fix r
  assume r: "r \<in> set (reserved_ranges pool)"
  then have "\<not> RangesOverlap v sz (range_begin r) (range_end r - range_begin r)"
    using assms(1) by (simp add: overlapping_range_def find_None_iff)
  then show "bytes v sz \<inter> range_bytes (range_begin r) (range_end r) = {}"
    using reserved_bytes_overlap [of r sz v] assms(2-4) r by simp
qed (rule assms(2))

text \<open>
  When no aligned end of a reserved range leaves the address space, the loop ends with the least
  legal offset, or without one when there is none.
\<close>

definition roomy :: "Pool \<Rightarrow> u64 \<Rightarrow> u64 \<Rightarrow> bool" where
  "roomy pool sz align \<longleftrightarrow>
     (\<forall>r\<in>set (reserved_ranges pool). range_begin r < range_end r \<and>
        (\<forall>a. AlignUp (range_end r) align = Some a \<longrightarrow> \<not> AddOverflows a sz))"

definition least_clear :: "Pool \<Rightarrow> u64 \<Rightarrow> u64 \<Rightarrow> u64 \<Rightarrow> u64 option \<Rightarrow> bool" where
  "least_clear pool v sz align result \<longleftrightarrow>
     (\<forall>x. result = Some x \<longrightarrow> v \<le> x \<and> clear_of pool x sz \<and> (x = v \<or> aligned_to align x)) \<and>
     (\<forall>y. v \<le> y \<and> aligned_to align y \<and> clear_of pool y sz \<longrightarrow> (\<exists>x. result = Some x \<and> x \<le> y))"

lemma AvoidReservedRanges_least:
  assumes "align \<noteq> 0" "sz \<noteq> 0" "roomy pool sz align"
  shows "\<not> AddOverflows v sz \<Longrightarrow> \<exists>result. AvoidReservedRanges pool v sz align = Some result \<and> least_clear pool v sz align result"
proof (induction "2 ^ 64 - unat v" arbitrary: v rule: less_induct)
  case less
  show ?case
  proof (cases "overlapping_range pool v sz")
    case None
    then have "clear_of pool v sz"
      using overlapping_range_None less.prems assms(2,3) by (simp add: roomy_def)
    moreover have "AvoidReservedRanges pool v sz align = Some (Some v)"
      using None by (subst AvoidReservedRanges.simps) simp
    ultimately show ?thesis by (auto simp: least_clear_def)
  next
    case (Some r)
    note r = overlapping_range_Some [OF Some]
    have wf: "range_begin r < range_end r" using r(1) assms(3) by (simp add: roomy_def)
    have "bytes v sz \<inter> range_bytes (range_begin r) (range_end r) \<noteq> {}"
      using r(2) reserved_bytes_overlap [OF wf assms(2) less.prems] by simp
    then have lt: "unat v < unat (range_end r)" "unat (range_begin r) < unat v + unat sz"
      by (auto simp: bytes_def range_bytes_def)
    text \<open>A clear offset from \<open>v\<close> on lies beyond the range.\<close>
    have beyond: "range_end r \<le> y" if y: "v \<le> y" "clear_of pool y sz" for y
    proof (rule ccontr)
      assume "\<not> range_end r \<le> y"
      then have "max (unat y) (unat (range_begin r)) \<in> bytes y sz \<inter> range_bytes (range_begin r) (range_end r)"
        using y(1) lt wf assms(2) by (auto simp: bytes_def range_bytes_def word_le_nat_alt word_less_nat_alt unat_gt_0)
      then show False using y(2) r(1) by (auto simp: clear_of_def)
    qed
    show ?thesis
    proof (cases "AlignUp (range_end r) align")
      case None
      then have "AvoidReservedRanges pool v sz align = Some None"
        using Some assms(1) by (subst AvoidReservedRanges.simps) (simp add: Cypress_AlignUp_eq)
      then show ?thesis
        using beyond AlignUp_None [OF assms(1) None] by (auto simp: least_clear_def)
    next
      case (Some w)
      have w: "aligned_to align w" "range_end r \<le> w"
        "\<And>x. aligned_to align x \<Longrightarrow> range_end r \<le> x \<Longrightarrow> w \<le> x"
        using AlignUp_cases [OF assms(1), of "range_end r"] Some by auto
      have "\<not> AddOverflows w sz" using assms(3) r(1) Some by (simp add: roomy_def)
      moreover have vw: "unat v < unat w" using lt(1) w(2) by (simp add: word_le_nat_alt)
      ultimately have "2 ^ 64 - unat w < 2 ^ 64 - unat v" "\<not> AddOverflows w sz"
        using unat_u64_less [of w] by simp_all
      then obtain result where result: "AvoidReservedRanges pool w sz align = Some result"
        "least_clear pool w sz align result"
        using less.hyps by blast
      have "AvoidReservedRanges pool v sz align = Some result"
        using \<open>overlapping_range pool v sz = Some r\<close> Some result(1) assms(1)
        by (subst AvoidReservedRanges.simps) (simp add: Cypress_AlignUp_eq)
      moreover have "v \<le> w" using vw by (simp add: word_le_nat_alt)
      ultimately show ?thesis
        using result(2) beyond w(1,3) by (fastforce simp: least_clear_def)
    qed
  qed
qed

text \<open>
  Otherwise the loop need not end: an offset whose range leaves the address space overlaps the first
  reserved range by definition and is sent back below it.
\<close>

definition hang_pool :: Pool where
  "hang_pool = \<lparr>pool_id = 0, pool_name = ''l2'', capacity = Some UINT64_MAX,
     reserved_ranges = [\<lparr>range_begin = 0, range_end = 8\<rparr>,
       \<lparr>range_begin = 9223372036854775808, range_end = 9223372036854775816\<rparr>],
     bank_geometry = None\<rparr>"

lemma hang_steps:
  "v \<in> {0, 8, 9223372036854775816} \<Longrightarrow>
   \<exists>r w. overlapping_range hang_pool v 9223372036854775808 = Some r \<and>
     Cypress_AlignUp (range_end r) 8 = Some w \<and> w \<in> {0, 8, 9223372036854775816}"
  by (elim insertE emptyE; hypsubst)
     (simp_all add: overlapping_range_def hang_pool_def RangesOverlap_def AddOverflows_def Cypress_AlignUp_def Let_def)

lemma hang_pool_diverges:
  "v \<in> {0, 8, 9223372036854775816} \<Longrightarrow> AvoidReservedRanges hang_pool v 9223372036854775808 8 = None"
proof -
  have "AvoidReservedRanges pool v sz align = Some r \<Longrightarrow>
      \<not> (pool = hang_pool \<and> sz = 9223372036854775808 \<and> align = 8 \<and> v \<in> {0, 8, 9223372036854775816})"
    for pool v sz align r
  proof (erule AvoidReservedRanges.raw_induct [where P = "\<lambda>pool v sz align r.
      \<not> (pool = hang_pool \<and> sz = 9223372036854775808 \<and> align = 8 \<and> v \<in> {0, 8, 9223372036854775816})", rotated])
    fix rec pool v sz align r
    assume IH: "\<And>pool v sz align r. rec pool v sz align = Some r \<Longrightarrow>
        \<not> (pool = hang_pool \<and> sz = 9223372036854775808 \<and> align = 8 \<and> v \<in> {0, 8, 9223372036854775816})"
      and run: "(case overlapping_range pool v sz of None \<Rightarrow> Some (Some v)
        | Some reserved \<Rightarrow> (case Cypress_AlignUp (range_end reserved) align of None \<Rightarrow> Some None
            | Some next_offset \<Rightarrow> rec pool next_offset sz align)) = Some r"
    show "\<not> (pool = hang_pool \<and> sz = 9223372036854775808 \<and> align = 8 \<and> v \<in> {0, 8, 9223372036854775816})"
    proof
      assume "pool = hang_pool \<and> sz = 9223372036854775808 \<and> align = 8 \<and> v \<in> {0, 8, 9223372036854775816}"
      moreover obtain q w where "overlapping_range hang_pool v 9223372036854775808 = Some q"
        "Cypress_AlignUp (range_end q) 8 = Some w" "w \<in> {0, 8, 9223372036854775816}"
        using hang_steps calculation by meson
      ultimately show False using run IH [of hang_pool w 9223372036854775808 8 r] by simp
    qed
  qed
  then show "v \<in> {0, 8, 9223372036854775816} \<Longrightarrow> AvoidReservedRanges hang_pool v 9223372036854775808 8 = None"
    by (cases "AvoidReservedRanges hang_pool v 9223372036854775808 8") auto
qed

definition hang_problem :: DsaProblem where
  "hang_problem =
     \<lparr>buffers = [\<lparr>buf_id = 1, buf_name = ''a'', buf_size = 9223372036854775808, alignment = 8,
        live_intervals = [\<lparr>lower = 0, upper = 1\<rparr>], allowed_pools = [0]\<rparr>],
      pools = [hang_pool], colocations = [], separations = [], temporal_exclusions = [],
      pinned_allocations = [], cost_model = None, pypto_structure = None, objective = MinimizePeakObjective\<rparr>"

lemma hang_problem_diverges: "CypressRelaxation_Solve hang_problem = None"
proof -
  let ?space = "BuildPlacementSearchSpace hang_problem"
  have space: "?space = \<lparr>nodes = [\<lparr>node_representative = 1, node_name = ''a'', node_members = [1],
      node_size = 9223372036854775808, node_alignment = 8, node_pool = 0, node_pinned = False, node_conflicts = []\<rparr>],
      space_errors = [], space_flexible_pools = False\<rparr>"
    by code_simp
  have valid: "ValidateProblem hang_problem = []" by code_simp
  have compatible: "StructurallyCompatible (CheckSolverCompatibility hang_problem Cypress_Capabilities)" by code_simp
  have refused: "List.map_filter pool_refusal (pools hang_problem) = []" by code_simp
  have sorted: "sort_key pool_id (pools hang_problem) = [hang_pool]" by (simp add: hang_problem_def)
  have "cypress_pool_nodes (nodes ?space) hang_pool = [0]"
    unfolding space by (simp add: cypress_pool_nodes_def hang_pool_def sort_by_def)
  then have "relax_pool (nodes ?space) m hang_pool st = None" for m st
    using hang_pool_diverges [of 0] by (simp add: relax_pool_def PackPool_def space Let_def)
  then show ?thesis
    unfolding CypressRelaxation_Solve_def Let_def
    using valid compatible refused sorted by (simp add: space)
qed

section \<open>A feasible answer is valid\<close>

lemma packed_peak_mono: "peak \<le> packed_peak ns offsets is peak"
proof (induction "is" arbitrary: peak)
  case (Cons j rest)
  have "peak \<le> max peak (offsets ! j + node_size (ns ! j))" by (rule max.cobounded1)
  also have "\<dots> \<le> packed_peak ns offsets rest (max peak (offsets ! j + node_size (ns ! j)))" by (rule Cons)
  finally show ?case by simp
qed simp

lemma packed_peak_ge:
  "i \<in> set is \<Longrightarrow> \<not> AddOverflows (offsets ! i) (node_size (ns ! i)) \<Longrightarrow>
    offsets ! i + node_size (ns ! i) \<le> packed_peak ns offsets is peak"
proof (induction "is" arbitrary: peak)
    case (Cons j rest)
    show ?case
    proof (cases "AddOverflows (offsets ! j) (node_size (ns ! j))")
      case True
      then show ?thesis by simp
    next
      case nov: False
      show ?thesis
      proof (cases "i = j")
        case True
        have "offsets ! j + node_size (ns ! j) \<le> max peak (offsets ! j + node_size (ns ! j))" by (rule max.cobounded2)
        also have "\<dots> \<le> packed_peak ns offsets rest (max peak (offsets ! j + node_size (ns ! j)))" by (rule packed_peak_mono)
        finally show ?thesis using nov True by simp
      next
        case False
        then show ?thesis using nov Cons.IH [OF _ Cons.prems(2)] Cons.prems(1) by simp
      qed
    qed
qed simp

lemma PackPool_within:
  assumes "PackPool pool is ns m = Some packed" "within_capacity packed" "i \<in> set is"
    "\<not> AddOverflows (pack_offsets packed ! i) (node_size (ns ! i))" "capacity pool = Some cap"
  shows "pack_offsets packed ! i + node_size (ns ! i) \<le> cap"
proof -
  obtain offsets where "packed = \<lparr>pack_offsets = offsets, pack_peak = packed_peak ns offsets is 0,
      within_capacity = (packed_peak ns offsets is 0 \<le> cap)\<rparr>"
    using assms(1,2,5) by (auto simp: PackPool_def Let_def split: bind_splits sum.splits)
  then show ?thesis
    using packed_peak_ge [of i "is" offsets ns 0] assms(2-4) by auto
qed

lemma relax_loop_packed:
  "relax_loop pool is ns es active relaxed packed = Some (packed', relaxed') \<Longrightarrow>
   PackPool pool is ns m = Some packed \<Longrightarrow> \<exists>m'. PackPool pool is ns m' = Some packed'"
proof (induction pool "is" ns es active relaxed packed arbitrary: m rule: relax_loop.induct)
  case (2 pool "is" ns edge rest active relaxed packed)
  then show ?case by (auto simp: Let_def split: if_splits bind_splits)
qed auto

text \<open>Every placement is a node's, and it ends inside its pool when everything fits.\<close>

definition cypress_entry :: "DsaProblem \<Rightarrow> PlacementSearchNode list \<Rightarrow> BufferId \<times> Placement \<Rightarrow> bool" where
  "cypress_entry p ns entry \<longleftrightarrow>
     (\<exists>pool\<in>set (pools p). \<exists>i<length ns. fst entry \<in> set (node_members (ns ! i)) \<and>
        pl_pool (snd entry) = pool_id pool \<and>
        (\<not> AddOverflows (pl_offset (snd entry)) (node_size (ns ! i)) \<longrightarrow>
          (\<forall>cap. capacity pool = Some cap \<longrightarrow> pl_offset (snd entry) + node_size (ns ! i) \<le> cap)))"

lemma set_om_put: "set (om_put k v m) \<subseteq> insert (k, v) (set m)"
  by (induction k v m rule: om_put.induct) auto

lemma set_om_emplace: "set (om_emplace k v m) \<subseteq> insert (k, v) (set m)"
proof (cases "map_of m k")
  case None
  then show ?thesis using set_om_put [of k v m] by (simp add: om_emplace_def)
next
  case (Some w)
  then show ?thesis by (auto simp: om_emplace_def)
qed

lemma place_members_entries:
  assumes "\<forall>e\<in>set m. Q e" "\<And>i a. i \<in> set is \<Longrightarrow> a \<in> set (node_members (ns ! i)) \<Longrightarrow>
      Q (a, \<lparr>pl_pool = pool_id pool, pl_offset = offsets ! i\<rparr>)"
  shows "\<forall>e\<in>set (place_members ns pool offsets is m). Q e"
proof -
  have one: "\<forall>e\<in>set (foldl (\<lambda>m a. om_emplace a v m) m as). Q e"
    if "\<forall>e\<in>set m. Q e" "\<And>a. a \<in> set as \<Longrightarrow> Q (a, v)" for m v as
    using that
  proof (induction as arbitrary: m)
    case (Cons a as)
    have "\<forall>e\<in>set (om_emplace a v m). Q e"
    proof
      fix e assume "e \<in> set (om_emplace a v m)"
      then have "e = (a, v) \<or> e \<in> set m" using set_om_emplace [of a v m] by blast
      then show "Q e" using Cons.prems by auto
    qed
    then show ?case using Cons.IH [of "om_emplace a v m"] Cons.prems(2) by simp
  qed simp
  show ?thesis
    using assms
  proof (induction "is" arbitrary: m)
    case Nil
    then show ?case by (simp add: place_members_def)
  next
    case (Cons i "is")
    let ?m = "foldl (\<lambda>m a. om_emplace a \<lparr>pl_pool = pool_id pool, pl_offset = offsets ! i\<rparr> m) m (node_members (ns ! i))"
    have "\<forall>e\<in>set ?m. Q e" by (rule one) (use Cons.prems in auto)
    then have "\<forall>e\<in>set (place_members ns pool offsets is ?m). Q e" by (rule Cons.IH) (use Cons.prems(2) in simp)
    then show ?case by (simp add: place_members_def)
  qed
qed

lemma relax_pool_entries:
  assumes "relax_pool ns mandatory pool st = Some st'" "pool \<in> set (pools p)"
    "cy_all_fit st \<Longrightarrow> \<forall>e\<in>set (cy_placements st). cypress_entry p ns e" "cy_all_fit st'"
  shows "cy_all_fit st \<and> (\<forall>e\<in>set (cy_placements st'). cypress_entry p ns e)"
proof -
  let ?is = "cypress_pool_nodes ns pool"
  obtain active first packed relaxed where run: "PackPool pool ?is ns active = Some first"
    "relax_loop pool ?is ns (auxiliary_edges mandatory ?is) active 0 first = Some (packed, relaxed)"
    and st': "cy_placements st' = place_members ns pool (pack_offsets packed) ?is (cy_placements st)"
      "cy_all_fit st' = (cy_all_fit st \<and> within_capacity packed)"
    using assms(1) by (auto simp: relax_pool_def Let_def split: bind_splits prod.splits)
  obtain m' where packed: "PackPool pool ?is ns m' = Some packed"
    using relax_loop_packed [OF run(2,1)] by blast
  have "\<forall>e\<in>set (place_members ns pool (pack_offsets packed) ?is (cy_placements st)). cypress_entry p ns e"
  proof (rule place_members_entries)
    show "\<forall>e\<in>set (cy_placements st). cypress_entry p ns e" using assms(3,4) st'(2) by simp
    fix i a
    assume i: "i \<in> set ?is" and a: "a \<in> set (node_members (ns ! i))"
    have "i < length ns" using i by (simp add: cypress_pool_nodes_def)
    then show "cypress_entry p ns (a, \<lparr>pl_pool = pool_id pool, pl_offset = pack_offsets packed ! i\<rparr>)"
      using PackPool_within [OF packed _ i] assms(2,4) a st'(2) by (auto simp: cypress_entry_def)
  qed
  then show ?thesis using st' assms(4) by simp
qed

lemma relax_pools_entries:
  "relax_pools ns mandatory qs st = Some st' \<Longrightarrow> set qs \<subseteq> set (pools p) \<Longrightarrow>
   (cy_all_fit st \<Longrightarrow> \<forall>e\<in>set (cy_placements st). cypress_entry p ns e) \<Longrightarrow> cy_all_fit st' \<Longrightarrow>
   cy_all_fit st \<and> (\<forall>e\<in>set (cy_placements st'). cypress_entry p ns e)"
proof (induction qs arbitrary: st)
  case (Cons q qs)
  obtain st1 where st1: "relax_pool ns mandatory q st = Some st1" "relax_pools ns mandatory qs st1 = Some st'"
    using Cons.prems(1) by (auto split: bind_splits)
  have q: "q \<in> set (pools p)" using Cons.prems(2) by simp
  have "cy_all_fit st1 \<and> (\<forall>e\<in>set (cy_placements st'). cypress_entry p ns e)"
    using Cons.IH [OF st1(2)] Cons.prems(2,4) relax_pool_entries [OF st1(1) q Cons.prems(3)] by simp
  then show ?case using relax_pool_entries [OF st1(1) q Cons.prems(3)] by blast
qed auto

lemma cypress_entries_valid:
  assumes wf: "well_formed p" and sr: "searchable p"
    and valid: "valid_solution (without_capacities p) s"
    and fits: "\<forall>e\<in>set (placements s). cypress_entry p (search_nodes (built p)) e"
  shows "valid_solution p s"
proof (rule valid_solution_capacities [OF wf valid])
  fix q c
  assume q: "q \<in> set (pools p)" "capacity q = Some c"
  show "pool_peak p s (pool_id q) \<le> c"
    unfolding pool_peak_le_iff in_all_tops
  proof (intro allI impI, elim disjE bexE exE conjE)
    fix t q' r
    assume r: "q' \<in> set (pools p)" "r \<in> set (reserved_ranges q')" "pool_id q = pool_id q'" "t = range_end r"
    then have "q = q'" using FindPool_in_set [OF well_formedD(1) [OF wf]] q(1) by (metis option.inject)
    then show "t \<le> c" using well_formedD(3) [OF wf q(1)] q(2) r by (simp add: wf_pool_def)
  next
    fix t b pl
    assume b: "b \<in> set (buffers p)" "Find s (buf_id b) = Some pl" "pool_id q = pl_pool pl"
      "t = pl_offset pl + buf_size b"
    have entry: "(buf_id b, pl) \<in> set (placements s)" using b(2) by (auto simp: Find_def dest: map_of_SomeD)
    obtain pool i where i: "pool \<in> set (pools p)" "i < node_count (built p)"
      "buf_id b \<in> set (node_members (node_at (built p) i))" "pl_pool pl = pool_id pool"
      "\<not> AddOverflows (pl_offset pl) (node_size (node_at (built p) i)) \<longrightarrow>
        (\<forall>cap. capacity pool = Some cap \<longrightarrow> pl_offset pl + node_size (node_at (built p) i) \<le> cap)"
      using bspec [OF fits entry] unfolding cypress_entry_def by auto
    have "pool_id pool = pool_id q" using i(4) b(3) by simp
    then have pool: "pool = q"
      using FindPool_in_set [OF well_formedD(1) [OF wf] q(1)] FindPool_in_set [OF well_formedD(1) [OF wf] i(1)] by simp
    have "buf_id b \<in> buf_id ` node_class p i" using i(3) node_class_facts(7) [OF i(2)] by simp
    then obtain b' where b': "b' \<in> node_class p i" "buf_id b' = buf_id b" by force
    have "b' \<in> set (buffers p)" using b'(1) node_class_facts(1) [OF i(2)] by blast
    then have "b' = b" using FindBuffer_in_set [OF well_formedD(2) [OF wf]] b(1) b'(2) by (metis option.inject)
    then have mem: "b \<in> node_class p i" using b'(1) by simp
    obtain c' where c': "c' \<in> node_class p i" "buf_size c' = node_size (node_at (built p) i)"
      using largest_member [OF i(2)] .
    have "c' \<in> set (buffers p)" using c'(1) node_class_facts(1) [OF i(2)] by blast
    then have "same_class p (buf_id b) (buf_id c')" using node_class_facts(4) [OF i(2) mem] c'(1) by blast
    then have "Find s (buf_id c') = Some pl"
      using valid_same_class [OF valid, of "buf_id b" "buf_id c'"] b(2) by simp
    then have "fits_buffer (without_capacities p) c' pl"
      using valid \<open>c' \<in> set (buffers p)\<close> by (fastforce simp: valid_solution_def)
    then have nov: "\<not> AddOverflows (pl_offset pl) (node_size (node_at (built p) i))"
      using c'(2) by (simp add: fits_buffer_def AddOverflows_less)
    have "buf_size b \<le> node_size (node_at (built p) i)"
      using class_extent_pos(2) [OF wf b(1)] node_class_facts(5) [OF i(2) mem] by simp
    then have "t \<le> pl_offset pl + node_size (node_at (built p) i)"
      using nov b(4) by (simp add: AddOverflows_less word_le_nat_alt unat_word_ariths)
    then show "t \<le> c" using i(5) nov pool q(2) by auto
  qed
qed

lemma search_nodes_space: "searchable p \<Longrightarrow> search_nodes (built p) = nodes (BuildPlacementSearchSpace p)"
  by (simp add: searchable_def BuildReusePenaltySearchSpace_def BuildPlacementSearchSpace_def Let_def)

lemma searchable_space:
  "space_errors (BuildPlacementSearchSpace p) = [] \<Longrightarrow> \<not> space_flexible_pools (BuildPlacementSearchSpace p) \<Longrightarrow>
   searchable p"
  by (auto simp: searchable_def BuildPlacementSearchSpace_def Let_def split: if_splits)

text \<open>
  What a call that returns has established: it refused the problem, or it packed every pool of a
  searchable problem.
\<close>

lemma CypressRelaxation_Solve_cases:
  assumes "CypressRelaxation_Solve p = Some r"
  obtains "status r \<in> {kInvalidProblem, kUnsupported}"
    | st where "well_formed p" "searchable p" "r = cypress_finish p (CheckSolverCompatibility p Cypress_Capabilities) st"
      "cy_all_fit st \<Longrightarrow> \<forall>e\<in>set (cy_placements st). cypress_entry p (search_nodes (built p)) e"
proof (cases "ValidateProblem p \<noteq> [] \<or> \<not> StructurallyCompatible (CheckSolverCompatibility p Cypress_Capabilities) \<or>
    List.map_filter pool_refusal (pools p) \<noteq> [] \<or> space_errors (BuildPlacementSearchSpace p) \<noteq> [] \<or>
    space_flexible_pools (BuildPlacementSearchSpace p)")
  case True
  then have "status r \<in> {kInvalidProblem, kUnsupported}"
    using assms by (auto simp: CypressRelaxation_Solve_def Let_def split: if_splits list.splits)
  then show thesis by (rule that(1))
next
  case False
  let ?start = "\<lparr>cy_placements = [], cy_auxiliary = 0, cy_relaxed = 0, cy_aliases = 0, cy_attempts = 0, cy_all_fit = True\<rparr>"
  have sr: "searchable p" using False searchable_space by blast
  have "Option.bind (relax_pools (nodes (BuildPlacementSearchSpace p)) (mandatory_edges (nodes (BuildPlacementSearchSpace p)))
      (sort_key pool_id (pools p)) ?start)
      (\<lambda>st. Some (cypress_finish p (CheckSolverCompatibility p Cypress_Capabilities) st)) = Some r"
    using assms False unfolding CypressRelaxation_Solve_def Let_def by simp
  then obtain st where st: "relax_pools (nodes (BuildPlacementSearchSpace p))
      (mandatory_edges (nodes (BuildPlacementSearchSpace p))) (sort_key pool_id (pools p)) ?start = Some st"
    "r = cypress_finish p (CheckSolverCompatibility p Cypress_Capabilities) st"
    by (auto split: bind_splits)
  show thesis
  proof (rule that(2) [OF _ sr st(2)])
    show "well_formed p" using False ValidateProblem_Nil by blast
    assume "cy_all_fit st"
    then show "\<forall>e\<in>set (cy_placements st). cypress_entry p (search_nodes (built p)) e"
      using relax_pools_entries [OF st(1), of p] by (simp add: search_nodes_space [OF sr])
  qed
qed

lemma cypress_finish_cases:
  "status (cypress_finish p c st) = kInvalidProblem \<or>
   ValidateSolution (without_capacities p) \<lparr>placements = cy_placements st\<rparr> = [] \<and>
   solution (cypress_finish p c st) = Some \<lparr>placements = cy_placements st\<rparr> \<and>
   status (cypress_finish p c st) = (if cy_all_fit st then kFeasible else kBestEffortNoFit)"
  by (simp add: cypress_finish_def Let_def)

lemma CypressRelaxation_feasible:
  assumes run: "CypressRelaxation_Solve p = Some r" and feasible: "status r = kFeasible"
  shows "\<exists>s. solution r = Some s \<and> ValidateSolution p s = []"
  using run
proof (cases rule: CypressRelaxation_Solve_cases)
  case 1
  then show ?thesis using feasible by simp
next
  case (2 st)
  let ?s = "\<lparr>placements = cy_placements st\<rparr>"
  have ok: "ValidateSolution (without_capacities p) ?s = []" "solution r = Some ?s" "cy_all_fit st"
    using cypress_finish_cases [of p "CheckSolverCompatibility p Cypress_Capabilities" st] feasible
    unfolding 2(3) [symmetric] by (simp_all split: if_splits)
  have "valid_solution p ?s"
    using cypress_entries_valid [OF 2(1,2)] ok(1,3) 2(4) by (simp add: ValidateSolution_Nil)
  then show ?thesis using ok(2) 2(1) by (simp add: ValidateSolution_Nil)
qed

lemma CypressRelaxation_not_infeasible: "CypressRelaxation_Solve p = Some r \<Longrightarrow> status r \<noteq> kInfeasibleProven"
proof (erule CypressRelaxation_Solve_cases)
  fix st
  assume "r = cypress_finish p (CheckSolverCompatibility p Cypress_Capabilities) st"
  then show "status r \<noteq> kInfeasibleProven"
    using cypress_finish_cases [of p "CheckSolverCompatibility p Cypress_Capabilities" st] by (cases "cy_all_fit st") auto
qed auto

interpretation cypress_solver: ds_solver "\<lambda>p. returned (CypressRelaxation_Solve p)"
  by unfold_locales
    (use CypressRelaxation_feasible CypressRelaxation_not_infeasible in
      \<open>auto simp: returned_def DsaResult_default_def split: option.splits\<close>)

end
