(* ===== verification/Tvm_Hill_Climb.thy ===== *)
theory Tvm_Hill_Climb
  imports Solver_Spec
begin

text \<open>
  \<^verbatim>\<open>src/dsa/algorithms/tvm_hill_climb_solver.cpp\<close>: hill climbing over placement orders that swaps
  earlier conflict neighbours of a node at the high-water mark. The random engine is a parameter, and
  so is the one comparison that is made in \<open>long double\<close>, whose precision the language leaves to the
  platform. Whatever they answer, the result is the engine's for a permutation of the first order and
  scores no worse than that order.
\<close>

section \<open>Options and parameters\<close>

record TvmHillClimbOptions =
  th_seed :: u64
  th_max_attempts :: nat
  worse_move_scale_percent :: u32
  target_total_peak :: "u64 option"

text \<open>
  \<open>next_word\<close> is one call of \<open>std::mt19937_64\<close>, \<open>seed_engine\<close> its construction. \<open>percent_exceeds d
  scale candidate current attempt\<close> is the \<open>long double\<close> comparison
  \<open>d < scale * (candidate - current) / candidate / (attempt + 1)\<close>.
\<close>

record 'g TvmSource =
  next_word :: "'g \<Rightarrow> u64 \<times> 'g"
  seed_engine :: "u64 \<Rightarrow> 'g"
  percent_exceeds :: "u64 \<Rightarrow> u32 \<Rightarrow> u64 \<Rightarrow> u64 \<Rightarrow> nat \<Rightarrow> bool"

definition Tvm_ResultScore :: "DsaProblem \<Rightarrow> DsaResult \<Rightarrow> Score" where
  "Tvm_ResultScore problem r =
     (if solution r = None \<or> (status r \<noteq> kFeasible \<and> status r \<noteq> kBestEffortNoFit)
      then replicate (length (terms (objective problem))) UINT64_MAX
      else map (EvaluateObjectiveMetric problem (res_objective r)) (terms (objective problem)))"

section \<open>Orders and indices\<close>

text \<open>\<open>emplace\<close> keeps the first entry of a key.\<close>

definition node_of :: "PlacementSearchSpace \<Rightarrow> BufferId \<Rightarrow> PlacementSearchNode option" where
  "node_of space i = find (\<lambda>node. node_representative node = i) (nodes space)"

fun position_from :: "nat \<Rightarrow> BufferId list \<Rightarrow> BufferId \<Rightarrow> nat option" where
  "position_from index [] i = None"
| "position_from index (x # xs) i = (if x = i then Some index else position_from (Suc index) xs i)"

definition position_of :: "BufferId list \<Rightarrow> BufferId \<Rightarrow> nat option" where
  "position_of order i = position_from 0 order i"

text \<open>\<open>std::string\<close> compares its bytes as unsigned characters.\<close>

definition string_greater :: "string \<Rightarrow> string \<Rightarrow> bool" where
  "string_greater a b \<longleftrightarrow> (map of_char b :: nat list) < map of_char a"

definition tvm_before :: "PlacementSearchNode \<Rightarrow> PlacementSearchNode \<Rightarrow> bool" where
  "tvm_before first second =
     (if node_pinned first \<noteq> node_pinned second then node_pinned first
      else if node_size first \<noteq> node_size second then node_size first > node_size second
      else if length (node_conflicts first) \<noteq> length (node_conflicts second)
      then length (node_conflicts first) > length (node_conflicts second)
      else if node_name first \<noteq> node_name second then string_greater (node_name first) (node_name second)
      else node_representative first > node_representative second)"

definition InitialOrder :: "PlacementSearchSpace \<Rightarrow> BufferId list" where
  "InitialOrder space = map node_representative (sort_by tvm_before (nodes space))"

definition RandomIndex :: "'g TvmSource \<Rightarrow> nat \<Rightarrow> 'g \<Rightarrow> nat \<times> 'g" where
  "RandomIndex R bound g = (let (w, g') = next_word R g in (unat w mod bound, g'))"

definition IsMovable :: "PlacementSearchSpace \<Rightarrow> BufferId \<Rightarrow> bool" where
  "IsMovable space i = (case node_of space i of None \<Rightarrow> False | Some node \<Rightarrow> \<not> node_pinned node)"

text \<open>Every identifier that is sorted has a position, so \<open>at\<close> does not throw.\<close>

definition SortByPosition :: "BufferId list \<Rightarrow> BufferId list \<Rightarrow> BufferId list" where
  "SortByPosition order ids = sort_key (\<lambda>i. the (position_of order i)) ids"

section \<open>Proposing a swap\<close>

fun distinct_attempts ::
  "'g TvmSource \<Rightarrow> nat \<Rightarrow> BufferId \<Rightarrow> BufferId list \<Rightarrow> BufferId list \<Rightarrow> 'g \<Rightarrow> BufferId option \<times> 'g" where
  "distinct_attempts R 0 first first_level second_level g = (None, g)"
| "distinct_attempts R (Suc attempts) first first_level second_level g =
     (let (choose_second, g1) =
            (if second_level = [] then (False, g)
             else let (w, g') = next_word R g in (w mod 100 > 25, g'));
          choices = (if choose_second then second_level else first_level)
      in if choices = [] then distinct_attempts R attempts first first_level second_level g1
         else
           let (index, g2) = RandomIndex R (length choices) g1;
               second = choices ! index
           in if second \<noteq> first then (Some second, g2)
              else distinct_attempts R attempts first first_level second_level g2)"

definition ChooseDistinctSecond ::
  "'g TvmSource \<Rightarrow> BufferId \<Rightarrow> BufferId list \<Rightarrow> BufferId list \<Rightarrow> 'g \<Rightarrow> BufferId option \<times> 'g" where
  "ChooseDistinctSecond R first first_level second_level g =
     (case distinct_attempts R (2 * (length first_level + length second_level)) first first_level second_level g of
        (Some second, g') \<Rightarrow> (Some second, g')
      | (None, g') \<Rightarrow>
          (case find (\<lambda>candidate. candidate \<noteq> first) second_level of
             Some candidate \<Rightarrow> (Some candidate, g')
           | None \<Rightarrow> (find (\<lambda>candidate. candidate \<noteq> first) first_level, g')))"

definition at_high_water :: "DsaResult \<Rightarrow> DsaSolution \<Rightarrow> PlacementSearchSpace \<Rightarrow> BufferId \<Rightarrow> bool" where
  "at_high_water current sol space i =
     (case node_of space i of
        None \<Rightarrow> False
      | Some node \<Rightarrow>
          if node_pinned node then False
          else (case Find sol i of
                  None \<Rightarrow> False
                | Some pl \<Rightarrow>
                    (case map_of (peak_by_pool (res_objective current)) (pl_pool pl) of
                       None \<Rightarrow> False
                     | Some peak \<Rightarrow>
                         pl_offset pl \<le> UINT64_MAX - node_size node \<and>
                         pl_offset pl + node_size node = peak)))"

definition earlier_movable :: "PlacementSearchSpace \<Rightarrow> BufferId list \<Rightarrow> nat \<Rightarrow> BufferId \<Rightarrow> bool" where
  "earlier_movable space order bound i =
     (case position_of order i of None \<Rightarrow> False | Some position \<Rightarrow> position < bound \<and> IsMovable space i)"

definition first_neighbors :: "PlacementSearchSpace \<Rightarrow> BufferId list \<Rightarrow> BufferId \<Rightarrow> BufferId list" where
  "first_neighbors space order boundary =
     filter (earlier_movable space order (the (position_of order boundary)))
       (node_conflicts (the (node_of space boundary)))"

definition second_neighbors :: "PlacementSearchSpace \<Rightarrow> BufferId list \<Rightarrow> BufferId list \<Rightarrow> BufferId list" where
  "second_neighbors space order first_level =
     concat (map (\<lambda>neighbor. filter (earlier_movable space order (the (position_of order neighbor)))
       (node_conflicts (the (node_of space neighbor)))) first_level)"

definition ProposeGraphGuidedSwap ::
  "'g TvmSource \<Rightarrow> DsaResult \<Rightarrow> PlacementSearchSpace \<Rightarrow> BufferId list \<Rightarrow> 'g \<Rightarrow> BufferId list option \<times> 'g" where
  "ProposeGraphGuidedSwap R current space order g =
     (case solution current of
        None \<Rightarrow> (None, g)
      | Some sol \<Rightarrow>
          let high_water_nodes = filter (at_high_water current sol space) order
          in if high_water_nodes = [] then (None, g)
             else
               let (boundary_index, g1) = RandomIndex R (length high_water_nodes) g;
                   boundary = high_water_nodes ! boundary_index;
                   reached = first_neighbors space order boundary
               in if reached = [] then (None, g1)
                  else
                    let first_level = SortByPosition order reached;
                        second_level = SortByPosition order (second_neighbors space order reached);
                        (first_index, g2) = RandomIndex R (length first_level) g1;
                        first = first_level ! first_index
                    in (case ChooseDistinctSecond R first first_level second_level g2 of
                          (None, g3) \<Rightarrow> (None, g3)
                        | (Some second, g3) \<Rightarrow>
                            (Some (move_swap (the (position_of order first)) (the (position_of order second)) order), g3)))"

definition AcceptWorsePeakMove ::
  "'g TvmSource \<Rightarrow> DsaResult \<Rightarrow> DsaResult \<Rightarrow> nat \<Rightarrow> u32 \<Rightarrow> 'g \<Rightarrow> bool \<times> 'g" where
  "AcceptWorsePeakMove R current candidate attempt scale_percent g =
     (if scale_percent = 0 \<or> total_peak (res_objective candidate) \<le> total_peak (res_objective current)
      then (False, g)
      else
        let (w, g') = next_word R g
        in (percent_exceeds R (w mod 100) (min 100 scale_percent) (total_peak (res_objective candidate))
              (total_peak (res_objective current)) attempt, g'))"

section \<open>The climb\<close>

record 'g TvmState =
  tv_current :: Scored
  tv_best :: "DsaResult \<times> Score"
  tv_evaluated :: nat
  tv_proposed :: nat
  tv_accepted_better :: nat
  tv_accepted_worse :: nat
  tv_stalled :: nat
  tv_random :: 'g

definition target_reached :: "TvmHillClimbOptions \<Rightarrow> DsaResult \<Rightarrow> bool" where
  "target_reached options best =
     (case target_total_peak options of
        None \<Rightarrow> False
      | Some target \<Rightarrow> status best = kFeasible \<and> total_peak (res_objective best) \<le> target)"

definition tvm_evaluate :: "DsaProblem \<Rightarrow> BufferId list \<Rightarrow> Scored" where
  "tvm_evaluate problem order =
     (let r = PlaceWithOrder problem order kFirstFit in (r, order, Tvm_ResultScore problem r))"

definition tvm_attempt ::
  "'g TvmSource \<Rightarrow> DsaProblem \<Rightarrow> PlacementSearchSpace \<Rightarrow> TvmHillClimbOptions \<Rightarrow> nat \<Rightarrow> 'g TvmState \<Rightarrow> 'g TvmState" where
  "tvm_attempt R problem space options attempt st =
     (case ProposeGraphGuidedSwap R (fst (tv_current st)) space (scored_order (tv_current st)) (tv_random st) of
        (None, g) \<Rightarrow> st\<lparr>tv_stalled := tv_stalled st + 1, tv_random := g\<rparr>
      | (Some candidate_order, g) \<Rightarrow>
          let candidate = tvm_evaluate problem candidate_order;
              better = score_less (scored_score candidate) (scored_score (tv_current st));
              (accept_worse, g') =
                (if better then (False, g)
                 else AcceptWorsePeakMove R (fst (tv_current st)) (fst candidate) attempt
                        (worse_move_scale_percent options) g);
              st1 = st\<lparr>tv_proposed := tv_proposed st + 1, tv_evaluated := tv_evaluated st + 1, tv_random := g'\<rparr>
          in if \<not> better \<and> \<not> accept_worse then st1
             else st1\<lparr>tv_accepted_better := tv_accepted_better st1 + (if better then 1 else 0),
                      tv_accepted_worse := tv_accepted_worse st1 + (if better then 0 else 1),
                      tv_current := candidate,
                      tv_best := (if score_less (scored_score candidate) (snd (tv_best st))
                                  then (fst candidate, scored_score candidate) else tv_best st)\<rparr>)"

text \<open>The attempt loop; the second argument counts the attempts that remain.\<close>

fun tvm_loop ::
  "'g TvmSource \<Rightarrow> DsaProblem \<Rightarrow> PlacementSearchSpace \<Rightarrow> TvmHillClimbOptions \<Rightarrow> nat \<Rightarrow> nat \<Rightarrow> 'g TvmState \<Rightarrow> 'g TvmState" where
  "tvm_loop R problem space options 0 attempt st = st"
| "tvm_loop R problem space options (Suc remaining) attempt st =
     (if target_reached options (fst (tv_best st)) then st
      else tvm_loop R problem space options remaining (Suc attempt)
             (tvm_attempt R problem space options attempt st))"

definition TvmHillClimb_Capabilities :: SolverCapabilities where
  "TvmHillClimb_Capabilities = SolverCapabilities_default
     \<lparr>cap_multi_interval := True, cap_reuse_cost := True, cap_colocations := True, cap_separations := True,
      cap_temporal_exclusions := True, cap_pinned_allocations := True, cap_reserved_ranges := True,
      cap_multi_pool := True, cap_lexicographic_objective := True, cap_capacity_objective := True,
      cap_peak_objective := True\<rparr>"

definition tvm_message :: "TvmHillClimbOptions \<Rightarrow> 'g TvmState \<Rightarrow> string" where
  "tvm_message options st =
     ''TVM-style hill climb evaluated '' @ nat_digits (tv_evaluated st) @ '' placement orders with seed '' @
     to_string (th_seed options) @ ''; proposed '' @ nat_digits (tv_proposed st) @ '', accepted '' @
     nat_digits (tv_accepted_better st) @ '' improving/'' @ nat_digits (tv_accepted_worse st) @
     '' worse, stalled '' @ nat_digits (tv_stalled st)"

definition TvmHillClimb_Solve :: "'g TvmSource \<Rightarrow> TvmHillClimbOptions \<Rightarrow> DsaProblem \<Rightarrow> DsaResult" where
  "TvmHillClimb_Solve R options problem =
     (let compatibility = CheckSolverCompatibility problem TvmHillClimb_Capabilities in
      if \<not> Compatible compatibility
      then incompatible_result ''tvm_hill_climb'' problem
             (feature_messages ''tvm_hill_climb'' compatibility @ objective_messages ''tvm_hill_climb'' compatibility)
      else
        let space = BuildPlacementSearchSpace problem in
        if space_errors space \<noteq> []
        then DsaResult_default\<lparr>status := kInvalidProblem, diagnostics := space_errors space\<rparr>
        else if space_flexible_pools space
        then DsaResult_default\<lparr>status := kUnsupported,
               diagnostics := [''tvm_hill_climb does not support flexible pool assignment'']\<rparr>
        else
          let current = tvm_evaluate problem (InitialOrder space) in
          if solution (fst current) = None \<or> length (InitialOrder space) < 2 \<or> th_max_attempts options = 0
          then fst current
          else
            let st = tvm_loop R problem space options (th_max_attempts options) 0
                  \<lparr>tv_current = current, tv_best = (fst current, scored_score current), tv_evaluated = 1,
                   tv_proposed = 0, tv_accepted_better = 0, tv_accepted_worse = 0, tv_stalled = 0,
                   tv_random = seed_engine R (th_seed options)\<rparr>
            in add_diagnostics [tvm_message options st] (fst (tv_best st)))"

section \<open>Orders stay permutations\<close>

lemma position_from_SomeD:
  "position_from k order i = Some j \<Longrightarrow> k \<le> j \<and> j - k < length order \<and> order ! (j - k) = i"
proof (induction k order i rule: position_from.induct)
  case (2 k x xs i)
  then show ?case by (cases "x = i") (auto simp: nth_Cons' Suc_diff_le)
qed simp

lemma position_of_less: "position_of order i = Some j \<Longrightarrow> j < length order"
  using position_from_SomeD [of 0 order i j] by (simp add: position_of_def)

lemma RandomIndex_less: "0 < n \<Longrightarrow> fst (RandomIndex R n g) < n"
  by (simp add: RandomIndex_def split_beta)

lemma distinct_attempts_in:
  "fst (distinct_attempts R n first xs ys g) = Some second \<Longrightarrow> second \<in> set xs \<union> set ys"
proof (induction n arbitrary: g)
  case (Suc n)
  let ?c = "if ys = [] then (False, g) else let (w, g') = next_word R g in (w mod 100 > 25, g')"
  let ?choices = "if fst ?c then ys else xs"
  have "set ?choices \<subseteq> set xs \<union> set ys" by auto
  moreover have "?choices \<noteq> [] \<Longrightarrow> ?choices ! fst (RandomIndex R (length ?choices) (snd ?c)) \<in> set ?choices"
    by (intro nth_mem RandomIndex_less) simp
  ultimately show ?case
    using Suc by (auto simp: Let_def split_beta split: if_splits)
qed simp

lemma ChooseDistinctSecond_in:
  assumes "fst (ChooseDistinctSecond R first xs ys g) = Some second"
  shows "second \<in> set xs \<union> set ys"
proof (cases "fst (distinct_attempts R (2 * (length xs + length ys)) first xs ys g)")
  case None
  then obtain g' where "distinct_attempts R (2 * (length xs + length ys)) first xs ys g = (None, g')"
    by (metis prod.collapse)
  then show ?thesis
    using assms by (auto simp: ChooseDistinctSecond_def find_Some_iff split: option.splits)
next
  case (Some x)
  then obtain g' where "distinct_attempts R (2 * (length xs + length ys)) first xs ys g = (Some x, g')"
    by (metis prod.collapse)
  then show ?thesis
    using assms distinct_attempts_in [OF Some] by (auto simp: ChooseDistinctSecond_def)
qed

lemma neighbors_positions:
  "i \<in> set (first_neighbors space order boundary) \<Longrightarrow> \<exists>j. position_of order i = Some j"
  "i \<in> set (second_neighbors space order ns) \<Longrightarrow> \<exists>j. position_of order i = Some j"
  by (auto simp: first_neighbors_def second_neighbors_def earlier_movable_def split: option.splits)

lemma ProposeGraphGuidedSwap_perm:
  assumes "ProposeGraphGuidedSwap R current space order g = (Some order', g')"
  shows "mset order' = mset order"
proof -
  obtain sol where sol: "solution current = Some sol"
    using assms by (auto simp: ProposeGraphGuidedSwap_def split: option.splits)
  let ?high = "filter (at_high_water current sol space) order"
  obtain bi g1 where b: "RandomIndex R (length ?high) g = (bi, g1)" by fastforce
  let ?reached = "first_neighbors space order (?high ! bi)"
  let ?xs = "SortByPosition order ?reached" and ?ys = "SortByPosition order (second_neighbors space order ?reached)"
  obtain fi g2 where f: "RandomIndex R (length ?xs) g1 = (fi, g2)" by fastforce
  have ne: "?high \<noteq> []" "?reached \<noteq> []"
    using assms b by (auto simp: ProposeGraphGuidedSwap_def sol Let_def split: if_splits)
  obtain second where s: "ChooseDistinctSecond R (?xs ! fi) ?xs ?ys g2 = (Some second, g')"
    and o': "order' = move_swap (the (position_of order (?xs ! fi))) (the (position_of order second)) order"
    using assms ne b f by (auto simp: ProposeGraphGuidedSwap_def sol Let_def split: option.splits prod.splits)
  have sets: "set ?xs = set ?reached" "set ?ys = set (second_neighbors space order ?reached)"
    by (simp_all add: SortByPosition_def)
  have "fi < length ?xs" using RandomIndex_less [of "length ?xs" R g1] f ne(2) by (simp add: SortByPosition_def)
  then have "?xs ! fi \<in> set ?reached" using sets(1) nth_mem by blast
  then obtain i where "position_of order (?xs ! fi) = Some i" using neighbors_positions(1) by blast
  moreover have "second \<in> set ?xs \<union> set ?ys" using ChooseDistinctSecond_in [of R "?xs ! fi" ?xs ?ys g2] s by simp
  then have "\<exists>j. position_of order second = Some j"
    unfolding sets using neighbors_positions by (elim UnE) blast+
  then obtain j where "position_of order second = Some j" ..
  ultimately have "mset (move_swap (the (position_of order (?xs ! fi))) (the (position_of order second)) order) = mset order"
    using position_of_less by (simp add: mset_move_swap)
  then show ?thesis unfolding o' .
qed

section \<open>The result\<close>

text \<open>A scored order: the engine's result for a permutation of the first order, with its score.\<close>

definition tvm_scored :: "DsaProblem \<Rightarrow> BufferId list \<Rightarrow> Scored \<Rightarrow> bool" where
  "tvm_scored p initial s \<longleftrightarrow> mset (scored_order s) = mset initial \<and> s = tvm_evaluate p (scored_order s)"

definition tvm_kept :: "DsaProblem \<Rightarrow> BufferId list \<Rightarrow> DsaResult \<times> Score \<Rightarrow> bool" where
  "tvm_kept p initial best \<longleftrightarrow> (\<exists>s. tvm_scored p initial s \<and> best = (fst s, scored_score s))"

lemma tvm_keptI: "tvm_scored p initial s \<Longrightarrow> tvm_kept p initial (fst s, scored_score s)"
  unfolding tvm_kept_def by blast

definition tvm_invariant :: "DsaProblem \<Rightarrow> BufferId list \<Rightarrow> 'g TvmState \<Rightarrow> bool" where
  "tvm_invariant p initial st \<longleftrightarrow> tvm_scored p initial (tv_current st) \<and>
     tvm_kept p initial (tv_best st) \<and>
     snd (tv_best st) \<le> Tvm_ResultScore p (PlaceWithOrder p initial kFirstFit) \<and>
     snd (tv_best st) \<le> scored_score (tv_current st)"

lemma scored_evaluate [simp]:
  "scored_order (tvm_evaluate p order) = order" "fst (tvm_evaluate p order) = PlaceWithOrder p order kFirstFit"
  "scored_score (tvm_evaluate p order) = Tvm_ResultScore p (PlaceWithOrder p order kFirstFit)"
  by (simp_all add: tvm_evaluate_def scored_order_def scored_score_def Let_def)

lemma tvm_attempt_invariant:
  assumes "tvm_invariant p initial st"
  shows "tvm_invariant p initial (tvm_attempt R p space options attempt st)"
proof (cases "fst (ProposeGraphGuidedSwap R (fst (tv_current st)) space (scored_order (tv_current st)) (tv_random st))")
  case None
  then obtain g where "ProposeGraphGuidedSwap R (fst (tv_current st)) space (scored_order (tv_current st)) (tv_random st) = (None, g)"
    by (metis prod.collapse)
  then show ?thesis using assms by (simp add: tvm_attempt_def tvm_invariant_def)
next
  case (Some order)
  then obtain g where swap:
    "ProposeGraphGuidedSwap R (fst (tv_current st)) space (scored_order (tv_current st)) (tv_random st) = (Some order, g)"
    by (metis prod.collapse)
  have "mset order = mset initial"
    using ProposeGraphGuidedSwap_perm [OF swap] assms by (simp add: tvm_invariant_def tvm_scored_def)
  then have new: "tvm_scored p initial (tvm_evaluate p order)" by (simp add: tvm_scored_def)
  let ?better = "Tvm_ResultScore p (PlaceWithOrder p order kFirstFit) < scored_score (tv_current st)"
  obtain accept g' where accept: "(if ?better then (False, g)
      else AcceptWorsePeakMove R (fst (tv_current st)) (PlaceWithOrder p order kFirstFit) attempt
        (worse_move_scale_percent options) g) = (accept, g')" by fastforce
  show ?thesis
  proof (cases "\<not> ?better \<and> \<not> accept")
    case True
    then show ?thesis
      using assms accept by (simp add: tvm_attempt_def swap Let_def tvm_invariant_def)
  next
    case False
    have step: "tv_current (tvm_attempt R p space options attempt st) = tvm_evaluate p order"
      "tv_best (tvm_attempt R p space options attempt st) =
        (if scored_score (tvm_evaluate p order) < snd (tv_best st)
         then (fst (tvm_evaluate p order), scored_score (tvm_evaluate p order)) else tv_best st)"
      using False accept by (cases ?better; simp add: tvm_attempt_def swap Let_def)+
    note kept = tvm_keptI [OF new]
    moreover have "scored_score (tvm_evaluate p order) \<le> Tvm_ResultScore p (PlaceWithOrder p initial kFirstFit)"
      if "scored_score (tvm_evaluate p order) < snd (tv_best st)"
      using that assms by (auto simp: tvm_invariant_def)
    ultimately show ?thesis
      using assms new unfolding tvm_invariant_def step
      by (cases "scored_score (tvm_evaluate p order) < snd (tv_best st)") (simp_all add: not_less)
  qed
qed

lemma tvm_loop_invariant:
  "tvm_invariant p initial st \<Longrightarrow> tvm_invariant p initial (tvm_loop R p space options n attempt st)"
  by (induction n arbitrary: attempt st) (simp_all add: tvm_attempt_invariant)

lemma TvmHillClimb_cases:
  obtains (refused) "status (TvmHillClimb_Solve R options p) \<in> {kInvalidProblem, kUnsupported}"
    | (placed) order ms where "mset order = mset (InitialOrder (BuildPlacementSearchSpace p))"
      "TvmHillClimb_Solve R options p = add_diagnostics ms (PlaceWithOrder p order kFirstFit)"
      "Tvm_ResultScore p (PlaceWithOrder p order kFirstFit) \<le>
        Tvm_ResultScore p (PlaceWithOrder p (InitialOrder (BuildPlacementSearchSpace p)) kFirstFit)"
proof -
  let ?space = "BuildPlacementSearchSpace p"
  let ?initial = "InitialOrder ?space"
  let ?current = "tvm_evaluate p ?initial"
  let ?st = "tvm_loop R p ?space options (th_max_attempts options) 0
      \<lparr>tv_current = ?current, tv_best = (fst ?current, scored_score ?current), tv_evaluated = 1,
       tv_proposed = 0, tv_accepted_better = 0, tv_accepted_worse = 0, tv_stalled = 0,
       tv_random = seed_engine R (th_seed options)\<rparr>"
  let ?no = "\<not> Compatible (CheckSolverCompatibility p TvmHillClimb_Capabilities) \<or>
      space_errors ?space \<noteq> [] \<or> space_flexible_pools ?space"
  let ?one = "solution (fst ?current) = None \<or> length ?initial < 2 \<or> th_max_attempts options = 0"
  have one: "TvmHillClimb_Solve R options p = PlaceWithOrder p ?initial kFirstFit" if "\<not> ?no" "?one"
    using that by (auto simp: TvmHillClimb_Solve_def Let_def)
  have many: "TvmHillClimb_Solve R options p = add_diagnostics [tvm_message options ?st] (fst (tv_best ?st))"
    if "\<not> ?no" "\<not> ?one"
    using that by (auto simp: TvmHillClimb_Solve_def Let_def)
  have "?no \<or> TvmHillClimb_Solve R options p = PlaceWithOrder p ?initial kFirstFit \<or>
      TvmHillClimb_Solve R options p = add_diagnostics [tvm_message options ?st] (fst (tv_best ?st))"
    using one many by (cases ?no; cases ?one) simp_all
  then consider (no) ?no
    | (first) "TvmHillClimb_Solve R options p = PlaceWithOrder p ?initial kFirstFit"
    | (climb) "TvmHillClimb_Solve R options p = add_diagnostics [tvm_message options ?st] (fst (tv_best ?st))"
    by (elim disjE) simp_all
  then show thesis
  proof cases
    case no
    then have "status (TvmHillClimb_Solve R options p) \<in> {kInvalidProblem, kUnsupported}"
      using incompatible_status by (auto simp: TvmHillClimb_Solve_def Let_def)
    then show thesis by (rule refused)
  next
    case first
    then have "TvmHillClimb_Solve R options p = add_diagnostics [] (PlaceWithOrder p ?initial kFirstFit)"
      by (simp add: add_diagnostics_def)
    then show thesis by (intro placed [of ?initial "[]"]) simp_all
  next
    case climb
    have "tvm_invariant p ?initial ?st"
      using tvm_keptI [of p ?initial ?current]
      by (intro tvm_loop_invariant) (simp add: tvm_invariant_def tvm_scored_def)
    then obtain s where s: "mset (scored_order s) = mset ?initial" "s = tvm_evaluate p (scored_order s)"
      "tv_best ?st = (fst s, scored_score s)"
      "scored_score s \<le> Tvm_ResultScore p (PlaceWithOrder p ?initial kFirstFit)"
      by (auto simp: tvm_invariant_def tvm_scored_def tvm_kept_def simp del: split_paired_Ex)
    then have "fst s = PlaceWithOrder p (scored_order s) kFirstFit"
      "scored_score s = Tvm_ResultScore p (PlaceWithOrder p (scored_order s) kFirstFit)"
      by (metis scored_evaluate(2,3))+
    then show thesis using placed [of "scored_order s"] climb s by simp
  qed
qed

lemma TvmHillClimb_engine: "engine_answer p (TvmHillClimb_Solve R options p)"
proof (cases rule: TvmHillClimb_cases [of R options p])
  case refused
  then show ?thesis by (simp add: engine_answer_def)
next
  case (placed order ms)
  then show ?thesis by (simp add: engine_answer_intros)
qed

interpretation tvm_solver: ds_solver "\<lambda>p. TvmHillClimb_Solve R options p" for R options
  by unfold_locales (use engine_answer_sound [OF TvmHillClimb_engine] in blast)+

end
