(* ===== verification/Best_Fit_Spec.thy ===== *)
theory Best_Fit_Spec
  imports Fit
begin

text \<open>
  What best fit returns (\<^verbatim>\<open>FindBestFit\<close> of \<^verbatim>\<open>placement_engine.cpp\<close>). The scan is split
  into the list of bounded gaps it meets and the choice among them; the gaps are then the lowest fits
  below a blocked range, so the answer is the tightest bounded gap, or the lowest fit above all
  blocked ranges when no bounded gap fits.
\<close>

section \<open>The gaps below a blocked range\<close>

text \<open>The first blocked range at or above an offset ends the gap the offset lies in.\<close>

definition next_begin :: "AddressRange list \<Rightarrow> u64 \<Rightarrow> u64 option" where
  "next_begin blocked x =
     (let begins = filter (\<lambda>b. x \<le> b) (map range_begin blocked)
      in if begins = [] then None else Some (Min (set begins)))"


definition begins_sorted :: "AddressRange list \<Rightarrow> bool" where
  "begins_sorted = sorted_wrt (\<lambda>r r'. range_begin r \<le> range_begin r')"

lemma begins_sorted_simps [simp]:
  "begins_sorted []"
  "begins_sorted (r # rs) \<longleftrightarrow> (\<forall>r'\<in>set rs. range_begin r \<le> range_begin r') \<and> begins_sorted rs"
  by (simp_all add: begins_sorted_def)


lemma next_begin_Nil [simp]: "next_begin [] x = None"
  by (simp add: next_begin_def)



section \<open>The scan as a choice among gaps\<close>


definition scan_tail :: "u64 \<Rightarrow> AddressRange list \<Rightarrow> u64" where
  "scan_tail free_begin rs = fold (\<lambda>r m. max m (range_end r)) rs free_begin"




lemma scan_tail_simps [simp]:
  "scan_tail fb [] = fb" "scan_tail fb (r # rs) = scan_tail (max fb (range_end r)) rs"
  by (simp_all add: scan_tail_def)




section \<open>The gaps of the scan are the lowest fits below a blocked range\<close>





section \<open>The tail\<close>






section \<open>Best fit is exact\<close>






end
