(* ===== verification/Heuristic_Properties.thy ===== *)
theory Heuristic_Properties
  imports Cypress_Spec Tvm_Hill_Climb Best_Fit_Spec
begin

text \<open>
  The properties of the two literature heuristics, Cypress relaxation and TVM hill climbing, and of
  the best-fit scan.
\<close>

section \<open>A concrete problem\<close>

text \<open>Three buffers in a pool with a reserved head; the first two are live together.\<close>

definition reserved_problem :: DsaProblem where
  "reserved_problem =
     \<lparr>buffers =
        [\<lparr>buf_id = 1, buf_name = ''a'', buf_size = 8, alignment = 8,
           live_intervals = [\<lparr>lower = 0, upper = 4\<rparr>], allowed_pools = [0]\<rparr>,
         \<lparr>buf_id = 2, buf_name = ''b'', buf_size = 12, alignment = 4,
           live_intervals = [\<lparr>lower = 2, upper = 6\<rparr>], allowed_pools = [0]\<rparr>,
         \<lparr>buf_id = 3, buf_name = ''c'', buf_size = 4, alignment = 4,
           live_intervals = [\<lparr>lower = 5, upper = 8\<rparr>], allowed_pools = [0]\<rparr>],
      pools = [\<lparr>pool_id = 0, pool_name = ''l1'', capacity = Some 32,
         reserved_ranges = [\<lparr>range_begin = 0, range_end = 8\<rparr>], bank_geometry = None\<rparr>],
      colocations = [], separations = [], temporal_exclusions = [],
      pinned_allocations = [], cost_model = None, pypto_structure = None, objective = MinimizePeakObjective\<rparr>"

definition step_source :: "nat TvmSource" where
  "step_source = \<lparr>next_word = (\<lambda>g. (of_nat g, Suc g)), seed_engine = unat, percent_exceeds = (\<lambda>_ _ _ _ _. False)\<rparr>"

section \<open>Cypress relaxation\<close>

text \<open>
  C34: the loop of \<open>AvoidReservedRanges\<close> returns whenever the aligned end of every reserved range
  leaves room for the buffer in the address space, and then its answer is the least clear offset at or
  above the start (the start itself, or an aligned one); it answers nothing only when there is no
  aligned clear offset above the start.
\<close>
theorem cypress_avoids_reserved:
  assumes "align \<noteq> 0" "sz \<noteq> 0" "\<not> AddOverflows v sz"
    and "\<forall>r\<in>set (reserved_ranges pool). range_begin r < range_end r \<and>
           (\<forall>a. AlignUp (range_end r) align = Some a \<longrightarrow> \<not> AddOverflows a sz)"
  shows "\<exists>result. AvoidReservedRanges pool v sz align = Some result \<and>
    (\<forall>x. result = Some x \<longrightarrow> v \<le> x \<and> clear_of pool x sz \<and> (x = v \<or> aligned_to align x)) \<and>
    (\<forall>y. v \<le> y \<and> aligned_to align y \<and> clear_of pool y sz \<longrightarrow> (\<exists>x. result = Some x \<and> x \<le> y))"
proof -
  have "roomy pool sz align" using assms(4) by (simp add: roomy_def)
  from AvoidReservedRanges_least [OF assms(1,2) this assms(3)] show ?thesis
    unfolding least_clear_def .
qed

theorem cypress_avoids_reserved_witness:
  "\<exists>result. AvoidReservedRanges (hd (pools reserved_problem)) 0 12 4 = Some result \<and>
    (\<forall>x. result = Some x \<longrightarrow>
      0 \<le> x \<and> clear_of (hd (pools reserved_problem)) x 12 \<and> (x = 0 \<or> aligned_to 4 x)) \<and>
    (\<forall>y. 0 \<le> y \<and> aligned_to 4 y \<and> clear_of (hd (pools reserved_problem)) y 12 \<longrightarrow>
      (\<exists>x. result = Some x \<and> x \<le> y))"
  by (rule cypress_avoids_reserved)
    (simp_all add: reserved_problem_def AddOverflows_def AlignUp_def Let_def)

text \<open>
  C35: on a problem that the validator accepts Cypress relaxation need not return: a buffer of half the
  address space is sent from one reserved range to the next and back, since a range that leaves the
  address space counts as overlapping every other.
\<close>
theorem cypress_can_hang:
  "ValidateProblem hang_problem = [] \<and> CypressRelaxation_Solve hang_problem = None"
proof
  show "ValidateProblem hang_problem = []" by code_simp
qed (rule hang_problem_diverges)

text \<open>
  C32: when Cypress relaxation returns a feasible answer, the answer carries a valid solution, the
  capacities of the pools included, although the solver validates it only without the capacities; and
  it never claims that a problem is infeasible.
\<close>
theorem cypress_feasible_valid:
  assumes "CypressRelaxation_Solve p = Some r"
  shows "status r \<noteq> kInfeasibleProven \<and>
    (status r = kFeasible \<longrightarrow> (\<exists>s. solution r = Some s \<and> ValidateSolution p s = []))"
  using CypressRelaxation_feasible [OF assms] CypressRelaxation_not_infeasible [OF assms] by blast

theorem cypress_feasible_valid_witness:
  "\<exists>r s. CypressRelaxation_Solve reserved_problem = Some r \<and> status r = kFeasible \<and>
     solution r = Some s \<and> ValidateSolution reserved_problem s = []"
proof -
  have "map_option status (CypressRelaxation_Solve reserved_problem) = Some kFeasible" by code_simp
  then obtain r where r: "CypressRelaxation_Solve reserved_problem = Some r" "status r = kFeasible" by auto
  then show ?thesis using cypress_feasible_valid [OF r(1)] by blast
qed

section \<open>TVM hill climbing\<close>

text \<open>
  Whatever the random engine and the floating-point comparison answer, the hill climb gives an
  accepted problem the engine's result for a permutation of the first order, and no term of the
  objective order makes it worse than the first order.
\<close>
theorem tvm_keeps_baseline:
  assumes "status (TvmHillClimb_Solve R options p) \<notin> {kInvalidProblem, kUnsupported}"
  shows "\<exists>order ms. mset order = mset (InitialOrder (BuildPlacementSearchSpace p)) \<and>
    TvmHillClimb_Solve R options p = add_diagnostics ms (PlaceWithOrder p order kFirstFit) \<and>
    Tvm_ResultScore p (PlaceWithOrder p order kFirstFit) \<le>
      Tvm_ResultScore p (PlaceWithOrder p (InitialOrder (BuildPlacementSearchSpace p)) kFirstFit)"
proof (cases rule: TvmHillClimb_cases [of R options p])
  case refused
  then show ?thesis using assms by simp
next
  case (placed order ms)
  then show ?thesis by blast
qed

section \<open>Best fit\<close>

text \<open>
  Without room to round up best fit is not complete. When rounding up past a later blocked range leaves the address space
  it answers nothing, although an earlier gap fits and first fit returns it.
\<close>
theorem FindBestFit_misses_a_gap:
  "FindFirstFit \<lparr>fit_size = 4, fit_alignment = 4\<rparr>
      [\<lparr>range_begin = 8, range_end = 18446744073709551613\<rparr>,
       \<lparr>range_begin = 18446744073709551614, range_end = 18446744073709551615\<rparr>] = Some 0 \<and>
   FindBestFit \<lparr>fit_size = 4, fit_alignment = 4\<rparr>
      [\<lparr>range_begin = 8, range_end = 18446744073709551613\<rparr>,
       \<lparr>range_begin = 18446744073709551614, range_end = 18446744073709551615\<rparr>] = None"
  by (intro conjI; code_simp)

end
