(* ===== verification/Treewidth.thy ===== *)
theory Treewidth
  imports Solvers
begin

text \<open>
  \<^verbatim>\<open>src/dsa/algorithms/reuse_penalty_treewidth_solver.cpp\<close>: exact minimum reuse cost of a pool of
  equal-sized nodes by eliminating its nodes in min-fill order. Addresses are colours; since colours
  can be renamed, a table has an entry for each partition of its scope and not for each colouring.
  Labels are naturals: \<open>SolvePool\<close> refuses a pool with more colours than a \<open>uint32_t\<close> holds. A set of
  indices is a strictly sorted list.
\<close>

record TableValue =
  tv_cost :: u64
  tv_feasible :: bool

record Factor =
  factor_scope :: "nat list"
  factor_values :: "(nat list, TableValue) omap"

record Trace =
  trace_variable :: nat
  remaining_scope :: "nat list"
  trace_class :: "(nat list, nat) omap"

record PairPotential =
  pot_hard :: bool
  pot_weight :: u64

record EliminationOrder =
  eo_variables :: "nat list"
  eo_width :: nat

record PoolDpResult =
  pd_status :: SolveStatus
  pd_diagnostic :: string
  pd_offsets :: "u64 list"
  pd_width :: nat
  pd_states :: u64
  pd_transitions :: u64
  pd_reuse_cost :: u64

record TreewidthPartitionDpOptions =
  max_treewidth :: nat
  max_table_entries :: u64

definition TreewidthCapabilities :: SolverCapabilities where
  "TreewidthCapabilities = SolverCapabilities_default
     \<lparr>cap_multi_interval := True, cap_reuse_cost := True, cap_colocations := True, cap_separations := True,
      cap_temporal_exclusions := True, cap_multi_pool := True, cap_lexicographic_objective := True,
      cap_capacity_objective := True, cap_peak_objective := False\<rparr>"

text \<open>The last index of the reuse cost and the first index of a peak metric.\<close>

fun objective_indices ::
  "nat \<Rightarrow> ObjectiveMetric list \<Rightarrow> nat option \<Rightarrow> nat option \<Rightarrow> nat option \<times> nat option" where
  "objective_indices index [] reuse peak = (reuse, peak)"
| "objective_indices index (metric # rest) reuse peak =
     (if metric = kReuseCost then objective_indices (Suc index) rest (Some index) peak
      else if (metric = kTotalPeak \<or> metric = kMaxPeak) \<and> peak = None
      then objective_indices (Suc index) rest reuse (Some index)
      else objective_indices (Suc index) rest reuse peak)"

definition ObjectiveLimitation :: "DsaProblem \<Rightarrow> string option" where
  "ObjectiveLimitation problem =
     (case objective_indices 0 (terms (objective problem)) None None of
        (None, _) \<Rightarrow> Some ''treewidth_partition_dp requires reuse_cost in the objective''
      | (Some reuse, Some peak) \<Rightarrow>
          if peak < reuse then Some ''treewidth_partition_dp requires reuse_cost before peak metrics'' else None
      | (Some reuse, None) \<Rightarrow> None)"

section \<open>Potentials and the elimination order\<close>

definition PoolNodes :: "ReusePenaltySearchSpace \<Rightarrow> PoolId \<Rightarrow> nat list" where
  "PoolNodes search pool =
     filter (\<lambda>node. node_pool (search_nodes search ! node) = pool) [0..<length (search_nodes search)]"

text \<open>\<open>operator[]\<close> makes a potential that is neither hard nor soft.\<close>

definition no_potential :: PairPotential where
  "no_potential = \<lparr>pot_hard = False, pot_weight = 0\<rparr>"

definition hard_potentials ::
  "ReusePenaltySearchSpace \<Rightarrow> nat list \<Rightarrow> (ReuseNodePair, PairPotential) omap" where
  "hard_potentials search ns =
     foldl (\<lambda>m node. foldl (\<lambda>m neighbor.
         if node < neighbor \<and> neighbor \<in> set ns
         then om_put (node, neighbor) ((om_get no_potential m (node, neighbor))\<lparr>pot_hard := True\<rparr>) m
         else m) m (hard_neighbors search ! node)) [] ns"

definition BuildPotentials ::
  "ReusePenaltySearchSpace \<Rightarrow> nat list \<Rightarrow> (ReuseNodePair, PairPotential) omap" where
  "BuildPotentials search ns =
     foldl (\<lambda>m (pair, weight).
         if fst pair \<in> set ns \<and> snd pair \<in> set ns
         then om_put pair ((om_get no_potential m pair)\<lparr>pot_weight := weight\<rparr>) m else m)
       (hard_potentials search ns) (soft_weights search)"

type_synonym Adjacency = "nat list list"

definition adj_insert :: "nat \<Rightarrow> nat \<Rightarrow> Adjacency \<Rightarrow> Adjacency" where
  "adj_insert i j adjacency = adjacency[i := insort_insert j (adjacency ! i)]"

definition pair_adjacency :: "nat \<Rightarrow> (ReuseNodePair, PairPotential) omap \<Rightarrow> Adjacency" where
  "pair_adjacency n potentials =
     foldl (\<lambda>adjacency (pair, potential). adj_insert (snd pair) (fst pair) (adj_insert (fst pair) (snd pair) adjacency))
       (replicate n []) potentials"

definition active_neighbors :: "Adjacency \<Rightarrow> nat list \<Rightarrow> nat \<Rightarrow> nat list" where
  "active_neighbors adjacency active node = filter (\<lambda>neighbor. neighbor \<in> set active) (adjacency ! node)"

fun fill_count :: "Adjacency \<Rightarrow> nat list \<Rightarrow> nat" where
  "fill_count adjacency [] = 0"
| "fill_count adjacency (first # rest) =
     length (filter (\<lambda>second. second \<notin> set (adjacency ! first)) rest) + fill_count adjacency rest"

definition min_fill_key ::
  "ReusePenaltySearchSpace \<Rightarrow> Adjacency \<Rightarrow> nat list \<Rightarrow> nat \<Rightarrow> nat \<times> nat \<times> BufferId \<times> nat" where
  "min_fill_key search adjacency active node =
     (let neighbors = active_neighbors adjacency active node
      in (fill_count adjacency neighbors, length neighbors, node_representative (search_nodes search ! node), node))"

definition best_key ::
  "ReusePenaltySearchSpace \<Rightarrow> Adjacency \<Rightarrow> nat list \<Rightarrow> (nat \<times> nat \<times> BufferId \<times> nat) option" where
  "best_key search adjacency active =
     foldl (\<lambda>best node.
         let key = min_fill_key search adjacency active node
         in (case best of None \<Rightarrow> Some key | Some least \<Rightarrow> if key < least then Some key else best))
       None active"

fun fill_neighbors :: "nat \<Rightarrow> nat list \<Rightarrow> Adjacency \<Rightarrow> Adjacency" where
  "fill_neighbors selected [] adjacency = adjacency"
| "fill_neighbors selected (first # rest) adjacency =
     (let adjacency' = foldl (\<lambda>a second. adj_insert second first (adj_insert first second a)) adjacency rest
      in fill_neighbors selected rest
           (adjacency'[first := filter (\<lambda>v. v \<noteq> selected) (adjacency' ! first)]))"

text \<open>Every round takes one node from \<open>active\<close>; the first argument counts the rounds left.\<close>

fun min_fill_loop ::
  "nat \<Rightarrow> ReusePenaltySearchSpace \<Rightarrow> Adjacency \<Rightarrow> nat list \<Rightarrow> EliminationOrder \<Rightarrow> EliminationOrder" where
  "min_fill_loop 0 search adjacency active order = order"
| "min_fill_loop (Suc left) search adjacency active order =
     (case best_key search adjacency active of
        None \<Rightarrow> order
      | Some (_, _, _, selected) \<Rightarrow>
          let neighbors = active_neighbors adjacency active selected
          in min_fill_loop left search (fill_neighbors selected neighbors adjacency)
               (filter (\<lambda>v. v \<noteq> selected) active)
               \<lparr>eo_variables = eo_variables order @ [selected], eo_width = max (eo_width order) (length neighbors)\<rparr>)"

definition MinFillOrder ::
  "ReusePenaltySearchSpace \<Rightarrow> nat list \<Rightarrow> (ReuseNodePair, PairPotential) omap \<Rightarrow> EliminationOrder" where
  "MinFillOrder search ns potentials =
     min_fill_loop (length ns) search (pair_adjacency (length (search_nodes search)) potentials) ns
       \<lparr>eo_variables = [], eo_width = 0\<rparr>"

section \<open>Partitions\<close>

fun canonical_labels :: "(nat, nat) omap \<Rightarrow> nat list \<Rightarrow> nat list" where
  "canonical_labels m [] = []"
| "canonical_labels m (label # rest) =
     (let m' = om_emplace label (length m) m
      in (case map_of m' label of None \<Rightarrow> [] | Some v \<Rightarrow> v # canonical_labels m' rest))"

definition CanonicalPartition :: "nat list \<Rightarrow> nat list" where
  "CanonicalPartition labels = canonical_labels [] labels"

fun visit_partitions :: "nat \<Rightarrow> nat \<Rightarrow> nat \<Rightarrow> nat list \<Rightarrow> nat list list" where
  "visit_partitions 0 max_classes class_count current = [current]"
| "visit_partitions (Suc left) max_classes class_count current =
     concat (map (\<lambda>v. visit_partitions left max_classes (max class_count (v + 1)) (current @ [v]))
       [0..<min (class_count + 1) max_classes])"

definition EnumeratePartitions :: "nat \<Rightarrow> nat \<Rightarrow> nat list list" where
  "EnumeratePartitions n max_classes =
     (if n = 0 then [[]] else visit_partitions (n - 1) max_classes 1 [0])"

definition RestrictedPartition :: "nat list \<Rightarrow> nat list \<Rightarrow> nat list" where
  "RestrictedPartition scope labels_by_node = CanonicalPartition (map (\<lambda>v. labels_by_node ! v) scope)"

section \<open>Tables\<close>

fun sum_bucket :: "Factor list \<Rightarrow> nat list \<Rightarrow> u64 \<Rightarrow> TableValue" where
  "sum_bucket [] labels_by_node cost = \<lparr>tv_cost = cost, tv_feasible = True\<rparr>"
| "sum_bucket (factor # rest) labels_by_node cost =
     (case map_of (factor_values factor) (RestrictedPartition (factor_scope factor) labels_by_node) of
        None \<Rightarrow> \<lparr>tv_cost = 0, tv_feasible = False\<rparr>
      | Some v \<Rightarrow>
          if \<not> tv_feasible v then \<lparr>tv_cost = 0, tv_feasible = False\<rparr>
          else sum_bucket rest labels_by_node (SaturatingAdd cost (tv_cost v)))"

definition SumBucket :: "Factor list \<Rightarrow> nat list \<Rightarrow> TableValue" where
  "SumBucket bucket labels_by_node = sum_bucket bucket labels_by_node 0"

definition PairFactor :: "nat \<Rightarrow> nat \<Rightarrow> PairPotential \<Rightarrow> Factor" where
  "PairFactor first second potential =
     \<lparr>factor_scope = [first, second],
      factor_values =
        om_put [0, 1] \<lparr>tv_cost = 0, tv_feasible = True\<rparr>
          (om_put [0, 0] \<lparr>tv_cost = pot_weight potential, tv_feasible = \<not> pot_hard potential\<rparr> [])\<rparr>"

definition set_labels :: "nat list \<Rightarrow> nat list \<Rightarrow> nat list \<Rightarrow> nat list" where
  "set_labels scope assignment labels = foldl (\<lambda>l (v, a). l[v := a]) labels (zip scope assignment)"

definition class_total :: "nat list \<Rightarrow> nat" where
  "class_total assignment = foldl (\<lambda>classes a. max classes (a + 1)) 0 assignment"

text \<open>The loop over the classes of the eliminated variable: best value, best class and labels.\<close>

fun choose_class ::
  "Factor list \<Rightarrow> nat \<Rightarrow> nat list \<Rightarrow> TableValue \<times> nat \<Rightarrow> nat list \<Rightarrow> (TableValue \<times> nat) \<times> nat list" where
  "choose_class bucket variable [] best labels = (best, labels)"
| "choose_class bucket variable (class_id # rest) best labels =
     (let labels' = labels[variable := class_id];
          candidate = SumBucket bucket labels'
      in choose_class bucket variable rest
           (if tv_feasible candidate \<and> (\<not> tv_feasible (fst best) \<or> tv_cost candidate < tv_cost (fst best))
            then (candidate, class_id) else best) labels')"

record DpState =
  dp_factors :: "Factor list"
  dp_traces :: "Trace list"
  dp_labels :: "nat list"
  dp_states :: u64
  dp_transitions :: u64

text \<open>One row of the table of an eliminated variable.\<close>

definition table_row ::
  "nat \<Rightarrow> Factor list \<Rightarrow> nat \<Rightarrow> nat list \<Rightarrow> nat list \<Rightarrow> Factor \<times> Trace \<times> DpState \<Rightarrow> Factor \<times> Trace \<times> DpState" where
  "table_row colors bucket variable scope assignment state =
     (case state of (factor, trace, st) \<Rightarrow>
        let labels = set_labels scope assignment (dp_labels st);
            choices = min (class_total assignment + 1) colors;
            ((best, best_class), labels') =
              choose_class bucket variable [0..<choices] (\<lparr>tv_cost = 0, tv_feasible = False\<rparr>, 0) labels
        in (factor\<lparr>factor_values := om_put assignment best (factor_values factor)\<rparr>,
            trace\<lparr>trace_class := om_put assignment best_class (trace_class trace)\<rparr>,
            st\<lparr>dp_labels := labels', dp_transitions := dp_transitions st + of_nat choices,
               dp_states := dp_states st + 1\<rparr>))"

definition bucket_scope :: "nat \<Rightarrow> Factor list \<Rightarrow> nat list" where
  "bucket_scope variable bucket =
     foldl (\<lambda>s member. if member \<noteq> variable then insort_insert member s else s) []
       (concat (map factor_scope bucket))"

definition eliminate ::
  "TreewidthPartitionDpOptions \<Rightarrow> nat \<Rightarrow> nat \<Rightarrow> DpState \<Rightarrow> string + DpState" where
  "eliminate options colors variable st =
     (let bucket = filter (\<lambda>factor. variable \<in> set (factor_scope factor)) (dp_factors st);
          remaining = filter (\<lambda>factor. variable \<notin> set (factor_scope factor)) (dp_factors st);
          scope = bucket_scope variable bucket;
          assignments = EnumeratePartitions (length scope) colors
      in if max_table_entries options \<noteq> 0 \<and> length assignments > unat (max_table_entries options)
         then Inl ''treewidth_partition_dp elimination table exceeds max_table_entries''
         else
           let (factor, trace, st') =
                 foldl (\<lambda>state assignment. table_row colors bucket variable scope assignment state)
                   (\<lparr>factor_scope = scope, factor_values = []\<rparr>,
                    \<lparr>trace_variable = variable, remaining_scope = scope, trace_class = []\<rparr>, st) assignments
           in Inr (st'\<lparr>dp_factors := remaining @ [factor], dp_traces := dp_traces st' @ [trace]\<rparr>))"

fun eliminate_all ::
  "TreewidthPartitionDpOptions \<Rightarrow> nat \<Rightarrow> nat list \<Rightarrow> DpState \<Rightarrow> string + DpState" where
  "eliminate_all options colors [] st = Inr st"
| "eliminate_all options colors (variable # rest) st =
     (case eliminate options colors variable st of
        Inl message \<Rightarrow> Inl message
      | Inr st' \<Rightarrow> eliminate_all options colors rest st')"

text \<open>
  The constant factors that remain: \<open>None\<close> for one that is not constant, \<open>Some None\<close> for an
  infeasible one, else the optimum.
\<close>

fun terminal_cost :: "Factor list \<Rightarrow> u64 \<Rightarrow> u64 option option" where
  "terminal_cost [] cost = Some (Some cost)"
| "terminal_cost (factor # rest) cost =
     (if factor_scope factor \<noteq> [] then None
      else case factor_values factor of
        [(_, v)] \<Rightarrow> if \<not> tv_feasible v then Some None else terminal_cost rest (SaturatingAdd cost (tv_cost v))
      | _ \<Rightarrow> None)"

section \<open>Reconstruction\<close>

text \<open>\<open>std::find\<close>, and the first colour that is not used.\<close>

fun class_index :: "nat \<Rightarrow> nat list \<Rightarrow> nat option" where
  "class_index class_id [] = None"
| "class_index class_id (a # rest) =
     (if a = class_id then Some 0 else map_option Suc (class_index class_id rest))"

fun first_unused :: "nat \<Rightarrow> nat list \<Rightarrow> nat \<Rightarrow> nat" where
  "first_unused 0 used color = color"
| "first_unused (Suc left) used color =
     (if color \<in> set used then first_unused left used (color + 1) else color)"

fun reconstruct :: "nat \<Rightarrow> Trace list \<Rightarrow> nat list \<Rightarrow> string + nat list" where
  "reconstruct colors [] colors_by_node = Inr colors_by_node"
| "reconstruct colors (trace # rest) colors_by_node =
     (let scope_colors = map (\<lambda>v. colors_by_node ! v) (remaining_scope trace);
          assignment = CanonicalPartition scope_colors
      in (case map_of (trace_class trace) assignment of
            None \<Rightarrow> Inl ''treewidth_partition_dp lost a reconstruction state''
          | Some class_id \<Rightarrow>
              (case class_index class_id assignment of
                 Some index \<Rightarrow>
                   reconstruct colors rest (colors_by_node[trace_variable trace := scope_colors ! index])
               | None \<Rightarrow>
                   let color = first_unused (length scope_colors) scope_colors 0
                   in if color \<ge> colors
                      then Inl ''treewidth_partition_dp reconstruction exceeded the color capacity''
                      else reconstruct colors rest (colors_by_node[trace_variable trace := color]))))"

section \<open>A pool\<close>

definition pool_dp_failed :: "SolveStatus \<Rightarrow> string \<Rightarrow> u64 list \<Rightarrow> PoolDpResult" where
  "pool_dp_failed st message offsets =
     \<lparr>pd_status = st, pd_diagnostic = message, pd_offsets = offsets, pd_width = 0, pd_states = 0,
      pd_transitions = 0, pd_reuse_cost = 0\<rparr>"

text \<open>The dynamic program over the potentials of a pool.\<close>

definition run_pool_dp ::
  "TreewidthPartitionDpOptions \<Rightarrow> nat \<Rightarrow> nat \<Rightarrow> nat list \<Rightarrow> (ReuseNodePair, PairPotential) omap \<Rightarrow> string + DpState" where
  "run_pool_dp options n colors variables potentials =
     (if potentials \<noteq> [] \<and> max_table_entries options \<noteq> 0 \<and> 2 > max_table_entries options
      then Inl ''treewidth_partition_dp pair table exceeds max_table_entries''
      else eliminate_all options colors variables
             \<lparr>dp_factors = map (\<lambda>(pair, potential). PairFactor (fst pair) (snd pair) potential) potentials,
              dp_traces = [], dp_labels = replicate n 0, dp_states = 0, dp_transitions = 0\<rparr>)"

definition uniform_unit :: "ReusePenaltySearchSpace \<Rightarrow> nat list \<Rightarrow> u64 \<Rightarrow> bool" where
  "uniform_unit search ns unit \<longleftrightarrow>
     list_all (\<lambda>node. node_size (search_nodes search ! node) = unit \<and>
       unit mod node_alignment (search_nodes search ! node) = 0) ns"

definition finish_pool ::
  "ReusePenaltySearchSpace \<Rightarrow> nat list \<Rightarrow> u64 \<Rightarrow> nat \<Rightarrow> nat \<Rightarrow> DpState \<Rightarrow> PoolDpResult" where
  "finish_pool search ns unit colors width st =
     (let n = length (search_nodes search);
          failed = (\<lambda>status message. (pool_dp_failed status message (replicate n 0))
             \<lparr>pd_width := width, pd_states := dp_states st, pd_transitions := dp_transitions st\<rparr>)
      in (case terminal_cost (dp_factors st) 0 of
            None \<Rightarrow> failed kUnsupported ''treewidth_partition_dp left a nonconstant terminal factor''
          | Some None \<Rightarrow> failed kInfeasibleProven []
          | Some (Some optimum) \<Rightarrow>
              (case reconstruct colors (rev (dp_traces st)) (replicate n 0) of
                 Inl message \<Rightarrow> failed kUnsupported message
               | Inr colors_by_node \<Rightarrow>
                   (failed kFeasible [])
                     \<lparr>pd_offsets := foldl (\<lambda>offsets node. offsets[node := of_nat (colors_by_node ! node) * unit])
                        (replicate n 0) ns,
                      pd_reuse_cost := optimum\<rparr>)))"

text \<open>
  From the potentials on, for a pool with \<open>colors\<close> addresses. The counters of a pool that the program
  gives up on are never read and stay 0 here.
\<close>

definition solve_colours ::
  "ReusePenaltySearchSpace \<Rightarrow> nat list \<Rightarrow> u64 \<Rightarrow> u64 \<Rightarrow> TreewidthPartitionDpOptions \<Rightarrow> PoolDpResult" where
  "solve_colours search ns unit colors options =
     (let n = length (search_nodes search);
          potentials = BuildPotentials search ns;
          order = MinFillOrder search ns potentials;
          failed = (\<lambda>message. (pool_dp_failed kUnsupported message (replicate n 0))\<lparr>pd_width := eo_width order\<rparr>)
      in if eo_width order > max_treewidth options
         then failed ''treewidth_partition_dp min-fill width exceeds max_treewidth''
         else (case run_pool_dp options n (unat colors) (eo_variables order) potentials of
           Inl message \<Rightarrow> failed message
         | Inr st \<Rightarrow> finish_pool search ns unit (unat colors) (eo_width order) st))"

definition SolvePool ::
  "ReusePenaltySearchSpace \<Rightarrow> Pool \<Rightarrow> TreewidthPartitionDpOptions \<Rightarrow> PoolDpResult" where
  "SolvePool search pool options =
     (let failed = (\<lambda>status message. pool_dp_failed status message (replicate (length (search_nodes search)) 0));
          ns = PoolNodes search (pool_id pool)
      in (case capacity pool of
            None \<Rightarrow> failed kUnsupported ''treewidth_partition_dp requires fixed pool capacities''
          | Some cap \<Rightarrow>
              if reserved_ranges pool \<noteq> []
              then failed kUnsupported ''treewidth_partition_dp does not support reserved ranges''
              else (case ns of
                [] \<Rightarrow> failed kFeasible []
              | front # _ \<Rightarrow>
                  let unit = node_size (search_nodes search ! front);
                      colors = min (cap div unit) (of_nat (length ns))
                  in if \<not> uniform_unit search ns unit
                     then failed kUnsupported
                            ''treewidth_partition_dp requires uniform unit sizes and compatible alignment''
                     else if unit = 0 \<or> cap mod unit \<noteq> 0
                     then failed kUnsupported
                            ''treewidth_partition_dp requires capacity to be a multiple of the unit size''
                     else if colors = 0 \<or> colors > 4294967295
                     then failed kInfeasibleProven ''treewidth_partition_dp has no representable address colors''
                     else solve_colours search ns unit colors options)))"

section \<open>The solver\<close>

record TreewidthState =
  ts_offsets :: "u64 list"
  ts_width :: nat
  ts_states :: u64
  ts_transitions :: u64
  ts_cost :: u64

definition take_dp_offsets ::
  "ReusePenaltySearchSpace \<Rightarrow> PoolId \<Rightarrow> u64 list \<Rightarrow> u64 list \<Rightarrow> u64 list" where
  "take_dp_offsets search pool from offsets =
     map (\<lambda>node. if node_pool (search_nodes search ! node) = pool then from ! node else offsets ! node)
       [0..<length offsets]"

text \<open>The loop over the pools; \<open>Inl\<close> is the result of the first pool that is not feasible.\<close>

fun solve_pools ::
  "ReusePenaltySearchSpace \<Rightarrow> TreewidthPartitionDpOptions \<Rightarrow> Pool list \<Rightarrow> TreewidthState \<Rightarrow>
   PoolDpResult + TreewidthState" where
  "solve_pools search options [] st = Inr st"
| "solve_pools search options (pool # rest) st =
     (let r = SolvePool search pool options in
      if pd_status r \<noteq> kFeasible then Inl r
      else solve_pools search options rest
             \<lparr>ts_offsets = take_dp_offsets search (pool_id pool) (pd_offsets r) (ts_offsets st),
              ts_width = max (ts_width st) (pd_width r),
              ts_states = SaturatingAdd (ts_states st) (pd_states r),
              ts_transitions = SaturatingAdd (ts_transitions st) (pd_transitions r),
              ts_cost = SaturatingAdd (ts_cost st) (pd_reuse_cost r)\<rparr>)"

definition finish_treewidth ::
  "DsaProblem \<Rightarrow> ReusePenaltySearchSpace \<Rightarrow> TreewidthState \<Rightarrow> DsaResult" where
  "finish_treewidth problem search st =
     (let r = BuildValidatedReuseResult problem search (ts_offsets st) kFeasible in
      if status r = kFeasible \<and> reuse_cost (res_objective r) \<noteq> ts_cost st
      then add_diagnostics
             [''treewidth_partition_dp objective reconstruction disagrees with the dynamic program'']
             (r\<lparr>status := kInvalidProblem, solution := None\<rparr>)
      else add_diagnostics
             [''treewidth_partition_dp proved minimum reuse cost by exact min-sum variable elimination over color-symmetry partition states; peak tie-breaking is not optimized'']
             (r\<lparr>solver_metrics := map_of
                [(''min_fill_width'', of_nat (ts_width st)), (''dp_states'', ts_states st),
                 (''dp_transitions'', ts_transitions st), (''partition_state_dp'', 1),
                 (''optimal_reuse_cost_proven'', 1)]\<rparr>))"

definition TreewidthPartitionDp_Solve :: "TreewidthPartitionDpOptions \<Rightarrow> DsaProblem \<Rightarrow> DsaResult" where
  "TreewidthPartitionDp_Solve options problem =
     (let compatibility = CheckSolverCompatibility problem TreewidthCapabilities in
      if \<not> Compatible compatibility
      then incompatible_result ''treewidth_partition_dp'' problem
             (feature_messages ''treewidth_partition_dp'' compatibility @
              objective_messages ''treewidth_partition_dp'' compatibility)
      else (case ObjectiveLimitation problem of
        Some message \<Rightarrow> DsaResult_default\<lparr>status := kUnsupported, diagnostics := [message]\<rparr>
      | None \<Rightarrow>
          let search = BuildReusePenaltySearchSpace problem in
          if space_errors (placement search) \<noteq> []
          then DsaResult_default\<lparr>status := kInvalidProblem, diagnostics := space_errors (placement search)\<rparr>
          else (case solve_pools search options (pools problem)
                  \<lparr>ts_offsets = replicate (length (search_nodes search)) 0, ts_width = 0, ts_states = 0,
                   ts_transitions = 0, ts_cost = 0\<rparr> of
            Inl r \<Rightarrow> DsaResult_default\<lparr>status := pd_status r,
                       diagnostics := (if pd_diagnostic r \<noteq> [] then [pd_diagnostic r] else [])\<rparr>
          | Inr st \<Rightarrow> finish_treewidth problem search st)))"

end
