(* ===== verification/Treewidth_Partition.thy ===== *)
theory Treewidth_Partition
  imports Treewidth
begin

text \<open>
  Canonical partitions: renaming the labels of a list does not change its canonical partition, the
  labels of a canonical partition are an initial segment of the naturals, and
  \<open>EnumeratePartitions\<close> lists every canonical partition with at most the given number of classes.
\<close>

section \<open>Canonical labels\<close>

lemma length_om_put_new: "k \<notin> dom (map_of m) \<Longrightarrow> length (om_put k v m) = Suc (length m)"
  by (induction k v m rule: om_put.induct) (auto simp: dom_def split: if_splits)

lemma length_om_emplace:
  "length (om_emplace k v m) = (if k \<in> dom (map_of m) then length m else Suc (length m))"
  by (auto simp: om_emplace_def length_om_put_new dom_def)

text \<open>The labels given so far are the numbers below the size of the map.\<close>

definition labels_ok :: "(nat, nat) omap \<Rightarrow> bool" where
  "labels_ok m \<longleftrightarrow> inj_on (map_of m) (dom (map_of m)) \<and> ran (map_of m) = {..<length m} \<and>
     card (dom (map_of m)) = length m"

lemma labels_ok_Nil: "labels_ok []"
  by (simp add: labels_ok_def)

lemma labels_ok_emplace:
  assumes "labels_ok m"
  shows "labels_ok (om_emplace k (length m) m)"
proof (cases "k \<in> dom (map_of m)")
  case True
  then show ?thesis using assms by (auto simp: om_emplace_def)
next
  case False
  let ?f = "(map_of m)(k \<mapsto> length m)"
  have m: "map_of (om_emplace k (length m) m) = ?f" using False by (simp add: map_of_om_emplace)
  have dom: "dom ?f = insert k (dom (map_of m))" by auto
  have "ran (map_of m) = {..<length m}" using assms by (simp add: labels_ok_def)
  then have below: "map_of m x = Some v \<Longrightarrow> v < length m" for x v by (auto simp: ran_def)
  have "inj_on ?f (dom ?f)"
    unfolding dom inj_on_insert
  proof
    have "inj_on (map_of m) (dom (map_of m))" using assms by (simp add: labels_ok_def)
    moreover have "?f x = map_of m x" if "x \<in> dom (map_of m)" for x using that False by auto
    ultimately show "inj_on ?f (dom (map_of m))" by (simp add: inj_on_def)
    show "?f k \<notin> ?f ` (dom (map_of m) - {k})"
    proof
      assume "?f k \<in> ?f ` (dom (map_of m) - {k})"
      then obtain x where x: "x \<noteq> k" "?f k = ?f x" by blast
      then have "map_of m x = Some (length m)" by simp
      then show False using below by blast
    qed
  qed
  moreover have "ran ?f = insert (length m) (ran (map_of m))" using False by (simp add: ran_map_upd domIff)
  then have "ran ?f = {..<Suc (length m)}" using assms by (simp add: labels_ok_def lessThan_Suc)
  moreover have "card (dom ?f) = Suc (length m)"
    using assms False unfolding dom labels_ok_def by (simp add: finite_dom_map_of)
  ultimately show ?thesis
    using False unfolding labels_ok_def m length_om_emplace by simp
qed

lemma om_emplace_lookup:
  obtains v where "map_of (om_emplace k w m) k = Some v"
  by (cases "map_of m k") (auto simp: om_emplace_def)

lemma om_emplace_extends: "map_of m x = Some v \<Longrightarrow> map_of (om_emplace k w m) x = Some v"
  by (auto simp: om_emplace_def)

lemma dom_om_emplace: "dom (map_of (om_emplace k w m)) = insert k (dom (map_of m))"
  by (auto simp: om_emplace_def dom_def)

lemma canonical_labels_map:
  assumes "labels_ok m"
  shows "\<exists>f. canonical_labels m ls = map f ls \<and> (\<forall>k v. map_of m k = Some v \<longrightarrow> f k = v) \<and>
    inj_on f (dom (map_of m) \<union> set ls) \<and>
    f ` (dom (map_of m) \<union> set ls) = {..<card (dom (map_of m) \<union> set ls)}"
  using assms
proof (induction ls arbitrary: m)
  case Nil
  let ?f = "\<lambda>k. the (map_of m k)"
  have "inj_on ?f (dom (map_of m))"
    using Nil by (auto simp: labels_ok_def inj_on_def dom_def)
  moreover have "?f ` dom (map_of m) = ran (map_of m)" by (force simp: ran_def dom_def)
  ultimately show ?case
    using Nil by (intro exI [of _ ?f]) (simp add: labels_ok_def)
next
  case (Cons l ls)
  let ?m = "om_emplace l (length m) m"
  obtain f where f: "canonical_labels ?m ls = map f ls" "\<And>k v. map_of ?m k = Some v \<Longrightarrow> f k = v"
    "inj_on f (dom (map_of ?m) \<union> set ls)"
    "f ` (dom (map_of ?m) \<union> set ls) = {..<card (dom (map_of ?m) \<union> set ls)}"
    using Cons.IH [OF labels_ok_emplace [OF Cons.prems]] by blast
  obtain v where v: "map_of ?m l = Some v" by (rule om_emplace_lookup)
  have dom: "dom (map_of ?m) \<union> set ls = dom (map_of m) \<union> set (l # ls)" by (auto simp: dom_om_emplace)
  have "canonical_labels m (l # ls) = map f (l # ls)" using v f(1) f(2) [OF v] by (simp add: Let_def)
  moreover have "map_of m k = Some w \<Longrightarrow> f k = w" for k w by (rule f(2) [OF om_emplace_extends])
  ultimately show ?case using f(3,4) unfolding dom by blast
qed

lemma CanonicalPartition_map:
  obtains f where "CanonicalPartition ls = map f ls" "inj_on f (set ls)" "f ` set ls = {..<card (set ls)}"
  using canonical_labels_map [OF labels_ok_Nil, of ls] by (auto simp: CanonicalPartition_def)

lemma length_CanonicalPartition [simp]: "length (CanonicalPartition ls) = length ls"
  by (metis CanonicalPartition_map length_map)

lemma set_CanonicalPartition: "set (CanonicalPartition ls) = {..<card (set ls)}"
  by (metis CanonicalPartition_map list.set_map)

text \<open>Renaming.\<close>

lemma canonical_labels_rename:
  assumes "inj_on h K" "set ls \<subseteq> K" "length m' = length m" "\<And>k. k \<in> K \<Longrightarrow> map_of m' (h k) = map_of m k"
  shows "canonical_labels m' (map h ls) = canonical_labels m ls"
  using assms(2-4)
proof (induction ls arbitrary: m m')
  case (Cons l ls)
  let ?m = "om_emplace l (length m) m" and ?m' = "om_emplace (h l) (length m') m'"
  have l: "l \<in> K" using Cons.prems(1) by simp
  have same: "h l \<in> dom (map_of m') \<longleftrightarrow> l \<in> dom (map_of m)" using Cons.prems(3) [OF l] by (simp add: dom_def)
  have look: "map_of ?m' (h k) = map_of ?m k" if k: "k \<in> K" for k
  proof -
    have "h k = h l \<longleftrightarrow> k = l" using inj_onD [OF assms(1)] k l by blast
    then show ?thesis
      using Cons.prems(2) Cons.prems(3) [OF k] Cons.prems(3) [OF l] same
      by (auto simp: map_of_om_emplace)
  qed
  have "length ?m' = length ?m" using same Cons.prems(2) by (simp add: length_om_emplace)
  then have "canonical_labels ?m' (map h ls) = canonical_labels ?m ls"
    using Cons.IH look Cons.prems(1) by simp
  then show ?case using look [OF l] by (simp add: Let_def split: option.splits)
qed simp

lemma CanonicalPartition_rename: "inj_on h (set ls) \<Longrightarrow> CanonicalPartition (map h ls) = CanonicalPartition ls"
  unfolding CanonicalPartition_def by (rule canonical_labels_rename) auto

section \<open>Enumeration\<close>

text \<open>Restricted growth: every label is at most the number of classes before it.\<close>

fun growth :: "nat \<Rightarrow> nat list \<Rightarrow> bool" where
  "growth c [] = True"
| "growth c (y # ys) = (y \<le> c \<and> growth (max c (y + 1)) ys)"

lemma canonical_labels_growth:
  "labels_ok m \<Longrightarrow> growth (length m) (canonical_labels m ls)"
proof (induction ls arbitrary: m)
  case (Cons l ls)
  let ?m = "om_emplace l (length m) m"
  obtain v where v: "map_of ?m l = Some v" by (rule om_emplace_lookup)
  note ok = labels_ok_emplace [OF Cons.prems, of l]
  have "max (length m) (v + 1) = length ?m \<and> v \<le> length m"
  proof (cases "l \<in> dom (map_of m)")
    case True
    then have "v \<in> ran (map_of m)" using v by (auto simp: om_emplace_def ran_def)
    then have "v < length m" using Cons.prems by (simp add: labels_ok_def)
    then show ?thesis using True by (simp add: length_om_emplace)
  next
    case False
    then have "v = length m" using v by (simp add: map_of_om_emplace)
    then show ?thesis using False by (simp add: length_om_emplace)
  qed
  then show ?case using Cons.IH [OF ok] v by (simp add: Let_def)
qed simp

lemma set_visit_partitions:
  "set (visit_partitions left max_classes c cur) =
     (\<lambda>ys. cur @ ys) ` {ys. length ys = left \<and> growth c ys \<and> (\<forall>y\<in>set ys. y < max_classes)}"
proof (induction left max_classes c cur rule: visit_partitions.induct)
  case (2 left max_classes c cur)
  let ?tails = "\<lambda>v. {ys. length ys = left \<and> growth (max c (v + 1)) ys \<and> (\<forall>y\<in>set ys. y < max_classes)}"
  have "set (visit_partitions (Suc left) max_classes c cur) =
      (\<Union>v\<in>{0..<min (c + 1) max_classes}. (\<lambda>ys. (cur @ [v]) @ ys) ` ?tails v)"
    using 2 by simp
  also have "\<dots> = (\<lambda>ys. cur @ ys) ` {ys. length ys = Suc left \<and> growth c ys \<and> (\<forall>y\<in>set ys. y < max_classes)}"
  proof (intro equalityI subsetI)
    fix zs
    assume "zs \<in> (\<Union>v\<in>{0..<min (c + 1) max_classes}. (\<lambda>ys. (cur @ [v]) @ ys) ` ?tails v)"
    then obtain v ys where v: "v < min (c + 1) max_classes" "ys \<in> ?tails v" "zs = cur @ (v # ys)" by auto
    then have "v # ys \<in> {ys. length ys = Suc left \<and> growth c ys \<and> (\<forall>y\<in>set ys. y < max_classes)}" by simp
    with v(3) show "zs \<in> (\<lambda>ys. cur @ ys) ` {ys. length ys = Suc left \<and> growth c ys \<and> (\<forall>y\<in>set ys. y < max_classes)}"
      by (rule image_eqI)
  next
    fix zs
    assume "zs \<in> (\<lambda>ys. cur @ ys) ` {ys. length ys = Suc left \<and> growth c ys \<and> (\<forall>y\<in>set ys. y < max_classes)}"
    then obtain us where us: "zs = cur @ us" "length us = Suc left" "growth c us" "\<forall>y\<in>set us. y < max_classes" by blast
    obtain v ys where vys: "us = v # ys" using us(2) by (cases us) simp_all
    have "v \<in> {0..<min (c + 1) max_classes}" "ys \<in> ?tails v" using us(2-4) vys by simp_all
    moreover have "zs = (cur @ [v]) @ ys" using us(1) vys by simp
    ultimately show "zs \<in> (\<Union>v\<in>{0..<min (c + 1) max_classes}. (\<lambda>ys. (cur @ [v]) @ ys) ` ?tails v)" by blast
  qed
  finally show ?case .
qed auto

lemma set_EnumeratePartitions:
  assumes "0 < max_classes"
  shows "set (EnumeratePartitions n max_classes) =
    {ys. length ys = n \<and> growth 0 ys \<and> (\<forall>y\<in>set ys. y < max_classes)}"
proof (cases n)
  case (Suc k)
  have "ys \<in> set (EnumeratePartitions (Suc k) max_classes) \<longleftrightarrow>
      length ys = Suc k \<and> growth 0 ys \<and> (\<forall>y\<in>set ys. y < max_classes)" for ys
  proof (cases ys)
    case (Cons y zs)
    have "ys \<in> set (EnumeratePartitions (Suc k) max_classes) \<longleftrightarrow>
        y = 0 \<and> length zs = k \<and> growth 1 zs \<and> (\<forall>y\<in>set zs. y < max_classes)"
      unfolding Cons EnumeratePartitions_def by (simp add: set_visit_partitions image_iff)
    then show ?thesis using assms Cons by simp blast
  qed (simp add: EnumeratePartitions_def set_visit_partitions image_iff)
  then show ?thesis unfolding Suc by blast
qed (auto simp: EnumeratePartitions_def)

lemma CanonicalPartition_enumerated:
  assumes "card (set ls) \<le> max_classes" "0 < max_classes"
  shows "CanonicalPartition ls \<in> set (EnumeratePartitions (length ls) max_classes)"
  unfolding set_EnumeratePartitions [OF assms(2)] mem_Collect_eq
proof (intro conjI ballI)
  show "growth 0 (CanonicalPartition ls)"
    using canonical_labels_growth [OF labels_ok_Nil, of ls] by (simp add: CanonicalPartition_def)
  fix y
  assume "y \<in> set (CanonicalPartition ls)"
  then show "y < max_classes" using assms(1) unfolding set_CanonicalPartition by simp
qed simp

lemma length_enumerated:
  "0 < max_classes \<Longrightarrow> a \<in> set (EnumeratePartitions n max_classes) \<Longrightarrow> length a = n"
  by (simp add: set_EnumeratePartitions)

section \<open>Number of classes\<close>

lemma class_total_Max: "foldl (\<lambda>classes a. max classes (a + 1)) c xs = Max (insert c (Suc ` set xs))"
proof (induction xs arbitrary: c)
  case (Cons x xs)
  have "Max (insert (max c (x + 1)) (Suc ` set xs)) = Max (insert c (Suc ` set (x # xs)))"
    by (cases "xs = []") (simp_all add: max.assoc)
  then show ?case using Cons by simp
qed simp

lemma class_total_CanonicalPartition: "class_total (CanonicalPartition ls) = card (set ls)"
proof -
  have "Max (insert 0 (Suc ` {..<k})) = k" for k :: nat
    by (cases k) (auto intro: Max_eqI)
  then show ?thesis unfolding class_total_def class_total_Max set_CanonicalPartition .
qed

end
