(* ===== verification/Treewidth_Tables.thy ===== *)
theory Treewidth_Tables
  imports Treewidth_Partition
begin

text \<open>
  Exactness of the elimination: the factors before and after eliminating a variable have the same
  least value over the colours of that variable, because a table row stands for all colourings with
  its partition; the trace of the elimination finds a colour that attains it.
\<close>

section \<open>Costs\<close>

text \<open>\<open>None\<close> is an infeasible colouring.\<close>

type_synonym cost = "u64 option"

definition cost_add :: "cost \<Rightarrow> cost \<Rightarrow> cost" where
  "cost_add a b = (case (a, b) of (Some x, Some y) \<Rightarrow> Some (SaturatingAdd x y) | _ \<Rightarrow> None)"

definition cost_le :: "cost \<Rightarrow> cost \<Rightarrow> bool" where
  "cost_le a b \<longleftrightarrow> (case b of None \<Rightarrow> True | Some y \<Rightarrow> (case a of None \<Rightarrow> False | Some x \<Rightarrow> x \<le> y))"

lemma cost_add_simps [simp]:
  "cost_add (Some x) (Some y) = Some (SaturatingAdd x y)" "cost_add None a = None" "cost_add a None = None"
  "cost_add (Some 0) a = a" "cost_add a (Some 0) = a"
  by (auto simp: cost_add_def split: option.splits)

lemma cost_add_commute: "cost_add a b = cost_add b a"
  by (cases a; cases b) (simp_all add: SaturatingAdd_commute)

lemma cost_add_assoc: "cost_add (cost_add a b) c = cost_add a (cost_add b c)"
  by (cases a; cases b; cases c) (simp_all add: SaturatingAdd_assoc)

lemma cost_add_left_commute: "cost_add a (cost_add b c) = cost_add b (cost_add a c)"
  by (metis cost_add_assoc cost_add_commute)

lemma cost_le_refl [simp]: "cost_le a a"
  by (auto simp: cost_le_def split: option.splits)

lemma cost_le_trans: "cost_le a b \<Longrightarrow> cost_le b c \<Longrightarrow> cost_le a c"
  by (auto simp: cost_le_def split: option.splits)

lemma cost_le_None [simp]: "cost_le a None" "cost_le None (Some y) = False"
  by (simp_all add: cost_le_def)

lemma cost_le_Some [simp]: "cost_le (Some x) (Some y) \<longleftrightarrow> x \<le> y"
  by (simp add: cost_le_def)

lemma cost_add_mono: "cost_le b b' \<Longrightarrow> cost_le (cost_add a b) (cost_add a b')"
  by (cases a; cases b; cases b') (simp_all add: SaturatingAdd_mono)

section \<open>The value of factors under a colouring\<close>

definition table_cost :: "TableValue \<Rightarrow> cost" where
  "table_cost v = (if tv_feasible v then Some (tv_cost v) else None)"

definition factor_cost :: "Factor \<Rightarrow> (nat \<Rightarrow> nat) \<Rightarrow> cost" where
  "factor_cost F c =
     (case map_of (factor_values F) (CanonicalPartition (map c (factor_scope F))) of
        None \<Rightarrow> None | Some v \<Rightarrow> table_cost v)"

definition factors_cost :: "Factor list \<Rightarrow> (nat \<Rightarrow> nat) \<Rightarrow> cost" where
  "factors_cost Fs c = foldr (\<lambda>F s. cost_add (factor_cost F c) s) Fs (Some 0)"

lemma factors_cost_simps [simp]:
  "factors_cost [] c = Some 0" "factors_cost (F # Fs) c = cost_add (factor_cost F c) (factors_cost Fs c)"
  by (simp_all add: factors_cost_def)

lemma factors_cost_append: "factors_cost (Fs @ Gs) c = cost_add (factors_cost Fs c) (factors_cost Gs c)"
  by (induction Fs) (simp_all add: cost_add_assoc)

lemma factors_cost_split:
  "factors_cost Fs c = cost_add (factors_cost (filter P Fs) c) (factors_cost (filter (\<lambda>F. \<not> P F) Fs) c)"
  by (induction Fs) (simp_all add: cost_add_assoc cost_add_left_commute)

text \<open>Only the colours of the scope matter, and only up to renaming.\<close>

lemma factor_cost_rename:
  assumes "set (factor_scope F) \<subseteq> S" "inj_on g (c ` S)" "\<And>v. v \<in> S \<Longrightarrow> c' v = g (c v)"
  shows "factor_cost F c' = factor_cost F c"
proof -
  have "map c' (factor_scope F) = map g (map c (factor_scope F))" using assms(1,3) by auto
  moreover have "inj_on g (set (map c (factor_scope F)))"
    by (rule inj_on_subset [OF assms(2)]) (use assms(1) in auto)
  ultimately show ?thesis by (simp only: factor_cost_def CanonicalPartition_rename)
qed

lemma factors_cost_rename:
  assumes "\<forall>F\<in>set Fs. set (factor_scope F) \<subseteq> S" "inj_on g (c ` S)" "\<And>v. v \<in> S \<Longrightarrow> c' v = g (c v)"
  shows "factors_cost Fs c' = factors_cost Fs c"
  using assms(1)
proof (induction Fs)
  case (Cons F Fs)
  have "factor_cost F c' = factor_cost F c"
    by (rule factor_cost_rename [OF _ assms(2,3)]) (use Cons.prems in auto)
  then show ?case using Cons by simp
qed simp

lemma factors_cost_cong:
  assumes "\<forall>F\<in>set Fs. set (factor_scope F) \<subseteq> S" "\<And>v. v \<in> S \<Longrightarrow> c' v = c v"
  shows "factors_cost Fs c' = factors_cost Fs c"
  by (rule factors_cost_rename [OF assms(1), of id]) (use assms(2) in auto)

text \<open>The loop over a bucket computes this sum.\<close>

lemma sum_bucket_cost:
  "table_cost (sum_bucket b L cost) = cost_add (Some cost) (factors_cost b (\<lambda>v. L ! v))"
proof (induction b L cost rule: sum_bucket.induct)
  case (2 F rest L cost)
  show ?case
  proof (cases "map_of (factor_values F) (RestrictedPartition (factor_scope F) L)")
    case None
    then show ?thesis by (simp add: factor_cost_def RestrictedPartition_def table_cost_def)
  next
    case (Some v)
    then have F: "factor_cost F (\<lambda>v. L ! v) = table_cost v" by (simp add: factor_cost_def RestrictedPartition_def)
    show ?thesis
    proof (cases "tv_feasible v")
      case True
      have "table_cost (sum_bucket rest L (SaturatingAdd cost (tv_cost v))) =
          cost_add (cost_add (Some cost) (table_cost v)) (factors_cost rest (\<lambda>v. L ! v))"
        using 2 [OF Some] True by (simp add: table_cost_def)
      then show ?thesis using Some True F by (simp only: sum_bucket.simps option.case if_False not_True_eq_False
            factors_cost_simps cost_add_assoc)
    next
      case False
      then show ?thesis using Some F by (simp add: table_cost_def)
    qed
  qed
qed (simp add: table_cost_def)

lemma SumBucket_cost: "table_cost (SumBucket b L) = factors_cost b (\<lambda>v. L ! v)"
  by (simp add: SumBucket_def sum_bucket_cost)

section \<open>Choosing the class of the eliminated variable\<close>

lemma factors_cost_update:
  assumes "\<forall>F\<in>set b. set (factor_scope F) \<subseteq> {..<length L}" "x < length L"
  shows "factors_cost b (\<lambda>v. L[x := k] ! v) = factors_cost b ((\<lambda>v. L ! v)(x := k))"
  by (rule factors_cost_cong [OF assms(1)]) (use assms(2) in \<open>auto simp: nth_list_update\<close>)

lemma choose_class_least:
  assumes "\<forall>F\<in>set b. set (factor_scope F) \<subseteq> {..<length L}" "x < length L"
    "choose_class b x ks (best, best_class) L = ((best', best_class'), L')"
  defines "V \<equiv> \<lambda>k. factors_cost b ((\<lambda>v. L ! v)(x := k))"
  shows "(best' = best \<and> best_class' = best_class \<or> best_class' \<in> set ks \<and> table_cost best' = V best_class') \<and>
    cost_le (table_cost best') (table_cost best) \<and> (\<forall>k\<in>set ks. cost_le (table_cost best') (V k)) \<and>
    length L' = length L \<and> (\<forall>v. v \<noteq> x \<longrightarrow> L' ! v = L ! v)"
  using assms(1-3) unfolding V_def
proof (induction ks arbitrary: best best_class L)
  case (Cons k ks)
  let ?L = "L[x := k]"
  let ?candidate = "SumBucket b ?L"
  let ?take = "tv_feasible ?candidate \<and> (\<not> tv_feasible best \<or> tv_cost ?candidate < tv_cost best)"
  let ?next = "if ?take then (?candidate, k) else (best, best_class)"
  let ?V = "\<lambda>L k. factors_cost b ((\<lambda>v. L ! v)(x := k))"
  have same: "?V ?L j = ?V L j" for j
    by (rule factors_cost_cong [where S = UNIV]) (use Cons.prems(2) in \<open>auto simp: nth_list_update\<close>)
  have candidate: "table_cost ?candidate = ?V L k"
    unfolding SumBucket_cost by (rule factors_cost_update [OF Cons.prems(1,2)])
  obtain nb nc where nx: "?next = (nb, nc)" by fastforce
  have run: "choose_class b x ks (nb, nc) ?L = ((best', best_class'), L')"
    using Cons.prems(3) nx by (simp add: Let_def)
  have pre: "\<forall>F\<in>set b. set (factor_scope F) \<subseteq> {..<length ?L}" "x < length ?L" using Cons.prems(1,2) by simp_all
  have 1: "(best' = nb \<and> best_class' = nc \<or> best_class' \<in> set ks \<and> table_cost best' = ?V L best_class') \<and>
      cost_le (table_cost best') (table_cost nb) \<and> (\<forall>j\<in>set ks. cost_le (table_cost best') (?V L j)) \<and>
      length L' = length ?L \<and> (\<forall>v. v \<noteq> x \<longrightarrow> L' ! v = ?L ! v)"
    using Cons.IH [OF pre run] unfolding same .
  have least: "cost_le (table_cost nb) (table_cost best)" "cost_le (table_cost nb) (?V L k)"
    unfolding candidate [symmetric] using nx by (auto simp: table_cost_def split: if_splits)
  have origin: "nb = best \<and> nc = best_class \<or> nc = k \<and> table_cost nb = ?V L k"
    unfolding candidate [symmetric] using nx by (auto split: if_splits)
  show ?case
  proof (intro conjI ballI allI impI)
    show "best' = best \<and> best_class' = best_class \<or>
        best_class' \<in> set (k # ks) \<and> table_cost best' = ?V L best_class'"
      using 1 origin by auto
    show "cost_le (table_cost best') (table_cost best)" using 1 least(1) cost_le_trans by blast
    show "cost_le (table_cost best') (?V L j)" if "j \<in> set (k # ks)" for j
      using 1 least(2) cost_le_trans that by (cases "j = k") auto
    show "length L' = length L" using 1 by simp
    show "L' ! v = L ! v" if "v \<noteq> x" for v using 1 that by simp
  qed
qed simp

section \<open>A row of a table\<close>

text \<open>
  For a colouring of the scope, every colour of the eliminated variable has a class with the same
  value, and every class has a colour: the colour of its members, or any unused colour for a new
  class.
\<close>

definition labelled :: "nat list \<Rightarrow> nat list \<Rightarrow> (nat \<Rightarrow> nat) \<Rightarrow> bool" where
  "labelled scope a lab \<longleftrightarrow> (\<forall>i<length scope. lab (scope ! i) = a ! i)"

lemma scope_partition:
  obtains f where "CanonicalPartition (map c scope) = map f (map c scope)" "inj_on f (c ` set scope)"
    "f ` c ` set scope = {..<card (c ` set scope)}"
  by (rule CanonicalPartition_map [of "map c scope", unfolded set_map])

lemma same_class_cost:
  assumes scopes: "\<forall>F\<in>set b. set (factor_scope F) \<subseteq> insert x (set scope)" "x \<notin> set scope"
    and lab: "labelled scope (CanonicalPartition (map c scope)) lab"
    and f: "CanonicalPartition (map c scope) = map f (map c scope)" "inj_on f (c ` set scope)"
      "f ` c ` set scope = {..<card (c ` set scope)}"
    and k: "k = (if col \<in> c ` set scope then f col else card (c ` set scope))"
  shows "factors_cost b (lab(x := k)) = factors_cost b (c(x := col))"
proof (rule factors_cost_rename [OF scopes(1), of "f(col := k)"])
  have same: "lab v = f (c v)" if "v \<in> set scope" for v
    using lab that f(1) by (auto simp: labelled_def in_set_conv_nth)
  have image: "(c(x := col)) ` insert x (set scope) = insert col (c ` set scope)" using scopes(2) by auto
  show "inj_on (f(col := k)) ((c(x := col)) ` insert x (set scope))"
  proof (cases "col \<in> c ` set scope")
    case True
    then have "f(col := k) = f" using k by simp
    then show ?thesis using f(2) True unfolding image by (simp add: insert_absorb)
  next
    case False
    have "inj_on (f(col := k)) (c ` set scope)" using f(2) False by (auto simp: inj_on_def)
    moreover have "(f(col := k)) ` (c ` set scope - {col}) = f ` c ` set scope" using False by force
    then have "k \<notin> (f(col := k)) ` (c ` set scope - {col})" using False k f(3) by simp
    ultimately show ?thesis unfolding image by (simp add: inj_on_insert)
  qed
  show "(lab(x := k)) v = (f(col := k)) ((c(x := col)) v)" if "v \<in> insert x (set scope)" for v
    using that same [of v] k by (cases "v = x") auto
qed

lemma class_of_colour:
  assumes "\<forall>F\<in>set b. set (factor_scope F) \<subseteq> insert x (set scope)" "x \<notin> set scope"
    "labelled scope (CanonicalPartition (map c scope)) lab" "\<forall>v\<in>set scope. c v < colors" "col < colors"
  shows "\<exists>k<min (card (c ` set scope) + 1) colors.
    factors_cost b (lab(x := k)) = factors_cost b (c(x := col))"
proof -
  obtain f where f: "CanonicalPartition (map c scope) = map f (map c scope)" "inj_on f (c ` set scope)"
    "f ` c ` set scope = {..<card (c ` set scope)}" by (rule scope_partition)
  let ?k = "if col \<in> c ` set scope then f col else card (c ` set scope)"
  have sub: "insert col (c ` set scope) \<subseteq> {..<colors}" using assms(4,5) by auto
  have "card (insert col (c ` set scope)) \<le> colors" using card_mono [OF _ sub] by simp
  moreover have "f col < card (c ` set scope)" if "col \<in> c ` set scope" using that f(3) by blast
  ultimately have "?k < min (card (c ` set scope) + 1) colors"
    by (cases "col \<in> c ` set scope") (simp_all add: insert_absorb)
  then show ?thesis using same_class_cost [OF assms(1-3) f refl] by blast
qed

lemma colour_of_class:
  assumes "\<forall>F\<in>set b. set (factor_scope F) \<subseteq> insert x (set scope)" "x \<notin> set scope"
    "labelled scope (CanonicalPartition (map c scope)) lab"
    "(\<exists>i<length scope. k = CanonicalPartition (map c scope) ! i \<and> col = c (scope ! i)) \<or>
     col \<notin> c ` set scope \<and> k = card (c ` set scope)"
  shows "factors_cost b (c(x := col)) = factors_cost b (lab(x := k))"
proof -
  obtain f where f: "CanonicalPartition (map c scope) = map f (map c scope)" "inj_on f (c ` set scope)"
    "f ` c ` set scope = {..<card (c ` set scope)}" by (rule scope_partition)
  have "k = (if col \<in> c ` set scope then f col else card (c ` set scope))"
    using assms(4) f(1) by auto
  from same_class_cost [OF assms(1-3) f this] show ?thesis by simp
qed

text \<open>What a row says: its class is least among the classes of its partition.\<close>

definition row_ok :: "nat \<Rightarrow> Factor list \<Rightarrow> nat \<Rightarrow> nat list \<Rightarrow> nat list \<Rightarrow> TableValue \<Rightarrow> nat \<Rightarrow> bool" where
  "row_ok colors b x scope a best k \<longleftrightarrow>
     k < min (class_total a + 1) colors \<and>
     (\<forall>lab. labelled scope a lab \<longrightarrow>
        table_cost best = factors_cost b (lab(x := k)) \<and>
        (\<forall>j<min (class_total a + 1) colors. cost_le (table_cost best) (factors_cost b (lab(x := j)))))"

lemma set_labels_labelled:
  assumes "distinct scope" "length a = length scope" "set scope \<subseteq> {..<length L}"
  shows "labelled scope a (\<lambda>v. set_labels scope a L ! v)" "length (set_labels scope a L) = length L"
proof -
  have "length (set_labels scope a L) = length L \<and> labelled scope a (\<lambda>v. set_labels scope a L ! v) \<and>
      (\<forall>v. v \<notin> set scope \<longrightarrow> set_labels scope a L ! v = L ! v)"
    using assms
  proof (induction scope arbitrary: a L)
    case (Cons v scope)
    obtain k rest where a: "a = k # rest" using Cons.prems(2) by (cases a) simp_all
    have step: "set_labels (v # scope) (k # rest) L = set_labels scope rest (L[v := k])"
      by (simp add: set_labels_def)
    have ih: "length (set_labels scope rest (L[v := k])) = length (L[v := k]) \<and>
        labelled scope rest (\<lambda>w. set_labels scope rest (L[v := k]) ! w) \<and>
        (\<forall>w. w \<notin> set scope \<longrightarrow> set_labels scope rest (L[v := k]) ! w = L[v := k] ! w)"
      by (rule Cons.IH) (use Cons.prems a in auto)
    moreover have "set_labels scope rest (L[v := k]) ! v = k" using ih Cons.prems by simp
    ultimately show ?case
      unfolding a step labelled_def by (auto simp: nth_Cons split: nat.splits)
  qed (simp add: set_labels_def labelled_def)
  then show "labelled scope a (\<lambda>v. set_labels scope a L ! v)" "length (set_labels scope a L) = length L" by auto
qed

lemma labelled_cost_cong:
  assumes "\<forall>F\<in>set b. set (factor_scope F) \<subseteq> insert x (set scope)"
    "labelled scope a lab" "labelled scope a lab'"
  shows "factors_cost b (lab(x := k)) = factors_cost b (lab'(x := k))"
  by (rule factors_cost_cong [OF assms(1)]) (use assms(2,3) in \<open>auto simp: labelled_def in_set_conv_nth\<close>)

lemma choose_class_row:
  assumes b: "\<forall>F\<in>set b. set (factor_scope F) \<subseteq> insert x (set scope)" and x: "x \<notin> set scope"
    and n: "insert x (set scope) \<subseteq> {..<length L}" and colors: "0 < colors"
    and L: "labelled scope a (\<lambda>v. L ! v)"
    and run: "choose_class b x [0..<min (class_total a + 1) colors] (\<lparr>tv_cost = 0, tv_feasible = False\<rparr>, 0) L =
      ((best, k), L')"
  shows "row_ok colors b x scope a best k \<and> length L' = length L"
proof -
  let ?ks = "[0..<min (class_total a + 1) colors]"
  let ?V = "\<lambda>j. factors_cost b ((\<lambda>v. L ! v)(x := j))"
  have sub: "\<forall>F\<in>set b. set (factor_scope F) \<subseteq> {..<length L}" using b n by blast
  have xn: "x < length L" using n by simp
  note least = choose_class_least [OF sub xn run]
  have zero: "0 \<in> set ?ks" using colors by simp
  have "table_cost best = None" if "best = \<lparr>tv_cost = 0, tv_feasible = False\<rparr>"
    using that by (simp add: table_cost_def)
  moreover have "cost_le (table_cost best) (?V 0)" using least zero by blast
  ultimately have "k \<in> set ?ks \<and> table_cost best = ?V k"
    using least zero by (cases "?V 0") auto
  then have k: "k < min (class_total a + 1) colors" "table_cost best = ?V k" by simp_all
  have all: "cost_le (table_cost best) (?V j)" if "j < min (class_total a + 1) colors" for j
    using least that by auto
  show ?thesis
    unfolding row_ok_def
  proof (intro conjI allI impI)
    fix lab
    assume lab: "labelled scope a lab"
    show "table_cost best = factors_cost b (lab(x := k))"
      using k(2) labelled_cost_cong [OF b L lab] by (rule trans)
    show "cost_le (table_cost best) (factors_cost b (lab(x := j)))" if "j < min (class_total a + 1) colors" for j
      using all [OF that] unfolding labelled_cost_cong [OF b L lab] .
  next
    show "length L' = length L" using least by blast
  qed (rule k(1))
qed

section \<open>The table of a variable\<close>

definition rows_ok ::
  "nat \<Rightarrow> Factor list \<Rightarrow> nat \<Rightarrow> nat list \<Rightarrow> nat list set \<Rightarrow> (nat list, TableValue) omap \<Rightarrow> (nat list, nat) omap \<Rightarrow> bool" where
  "rows_ok colors b x scope A values classes \<longleftrightarrow>
     (\<forall>a\<in>A. \<exists>best k. map_of values a = Some best \<and> map_of classes a = Some k \<and> row_ok colors b x scope a best k)"

lemma rows_ok_put:
  "rows_ok colors b x scope A values classes \<Longrightarrow> row_ok colors b x scope a best k \<Longrightarrow>
   rows_ok colors b x scope (insert a A) (om_put a best values) (om_put a k classes)"
  by (auto simp: rows_ok_def)

lemma table_rows:
  assumes b: "\<forall>F\<in>set b. set (factor_scope F) \<subseteq> insert x (set scope)" and x: "x \<notin> set scope"
    and n: "insert x (set scope) \<subseteq> {..<n}" and scope: "distinct scope" and colors: "0 < colors"
    and as: "\<forall>a\<in>set as. length a = length scope"
    and run: "foldl (\<lambda>state a. table_row colors b x scope a state) (F, T, st) as = (F', T', st')"
    and st: "length (dp_labels st) = n" and rows: "rows_ok colors b x scope A (factor_values F) (trace_class T)"
  shows "rows_ok colors b x scope (A \<union> set as) (factor_values F') (trace_class T') \<and>
    factor_scope F' = factor_scope F \<and> trace_variable T' = trace_variable T \<and>
    remaining_scope T' = remaining_scope T \<and> length (dp_labels st') = n \<and>
    dp_factors st' = dp_factors st \<and> dp_traces st' = dp_traces st"
  using as run st rows
proof (induction as arbitrary: F T st A)
  case (Cons a as)
  let ?L = "set_labels scope a (dp_labels st)"
  let ?choices = "min (class_total a + 1) colors"
  have a: "length a = length scope" using Cons.prems(1) by simp
  have sub: "set scope \<subseteq> {..<length (dp_labels st)}" using n Cons.prems(3) by simp
  note L = set_labels_labelled [OF scope a sub]
  obtain best k L' where choose: "choose_class b x [0..<?choices] (\<lparr>tv_cost = 0, tv_feasible = False\<rparr>, 0) ?L =
      ((best, k), L')" by (metis prod.collapse)
  have nL: "insert x (set scope) \<subseteq> {..<length ?L}" using n L(2) Cons.prems(3) by simp
  note row = choose_class_row [OF b x nL colors L(1) choose]
  let ?F = "F\<lparr>factor_values := om_put a best (factor_values F)\<rparr>"
  let ?T = "T\<lparr>trace_class := om_put a k (trace_class T)\<rparr>"
  let ?st = "st\<lparr>dp_labels := L', dp_transitions := dp_transitions st + of_nat ?choices, dp_states := dp_states st + 1\<rparr>"
  have "table_row colors b x scope a (F, T, st) = (?F, ?T, ?st)"
    using choose by (simp add: table_row_def Let_def)
  then have run': "foldl (\<lambda>state a. table_row colors b x scope a state) (?F, ?T, ?st) as = (F', T', st')"
    using Cons.prems(2) by simp
  have 1: "rows_ok colors b x scope (insert a A) (factor_values ?F) (trace_class ?T)"
    using rows_ok_put [OF Cons.prems(4)] row by simp
  have 2: "length (dp_labels ?st) = n" using row L(2) Cons.prems(3) by simp
  have 3: "\<forall>a\<in>set as. length a = length scope" using Cons.prems(1) by simp
  show ?case using Cons.IH [OF 3 run' 2 1] by simp
qed simp

section \<open>Eliminating a variable\<close>

definition colouring :: "nat \<Rightarrow> nat \<Rightarrow> (nat \<Rightarrow> nat) \<Rightarrow> bool" where
  "colouring n colors c \<longleftrightarrow> (\<forall>v<n. c v < colors)"

text \<open>The factors speak about the nodes that remain, and a factor without scope is a constant.\<close>

definition factors_ok :: "nat set \<Rightarrow> Factor list \<Rightarrow> bool" where
  "factors_ok active Fs \<longleftrightarrow>
     (\<forall>F\<in>set Fs. set (factor_scope F) \<subseteq> active \<and> (factor_scope F = [] \<longrightarrow> (\<exists>v. factor_values F = [([], v)])))"

text \<open>A trace knows, for every colouring, a class of the variable that attains the value of the table.\<close>

definition trace_ok :: "nat \<Rightarrow> nat \<Rightarrow> Factor list \<Rightarrow> Factor list \<Rightarrow> nat \<Rightarrow> Trace \<Rightarrow> bool" where
  "trace_ok n colors Fs Fs' x T \<longleftrightarrow>
     trace_variable T = x \<and> x \<notin> set (remaining_scope T) \<and> insert x (set (remaining_scope T)) \<subseteq> {..<n} \<and>
     (\<forall>c. colouring n colors c \<longrightarrow>
        (\<exists>k. map_of (trace_class T) (CanonicalPartition (map c (remaining_scope T))) = Some k \<and>
           k < min (card (c ` set (remaining_scope T)) + 1) colors \<and>
           (\<forall>col. (\<exists>i<length (remaining_scope T).
                     k = CanonicalPartition (map c (remaining_scope T)) ! i \<and> col = c (remaining_scope T ! i)) \<or>
                  col \<notin> c ` set (remaining_scope T) \<and> k = card (c ` set (remaining_scope T)) \<longrightarrow>
              factors_cost Fs (c(x := col)) = factors_cost Fs' c)))"

lemma bucket_scope:
  "set (bucket_scope x b) = (\<Union>F\<in>set b. set (factor_scope F)) - {x}" "distinct (bucket_scope x b)"
proof -
  have "set (foldl (\<lambda>s member. if member \<noteq> x then insort_insert member s else s) s ms) = set s \<union> (set ms - {x}) \<and>
      (sorted s \<and> distinct s \<longrightarrow>
        sorted (foldl (\<lambda>s member. if member \<noteq> x then insort_insert member s else s) s ms) \<and>
        distinct (foldl (\<lambda>s member. if member \<noteq> x then insort_insert member s else s) s ms))" for s ms
    by (induction ms arbitrary: s) (auto simp: set_insort_insert distinct_insort_insert sorted_insort_insert)
  from this [of "[]" "concat (map factor_scope b)"] show "set (bucket_scope x b) = (\<Union>F\<in>set b. set (factor_scope F)) - {x}"
    "distinct (bucket_scope x b)" by (auto simp: bucket_scope_def)
qed

lemma labelled_exists: "\<exists>lab. labelled scope (CanonicalPartition (map c scope)) lab"
proof -
  obtain f where "CanonicalPartition (map c scope) = map f (map c scope)" by (rule scope_partition)
  then have "labelled scope (CanonicalPartition (map c scope)) (\<lambda>v. f (c v))" by (simp add: labelled_def)
  then show ?thesis by blast
qed

lemma class_total_scope: "class_total (CanonicalPartition (map c scope)) = card (c ` set scope)"
  by (simp add: class_total_CanonicalPartition)

lemma eliminate_exact:
  assumes run: "eliminate options colors x st = Inr st'" and ok: "factors_ok active (dp_factors st)"
    and n: "active \<subseteq> {..<n}" "x \<in> active" and labels: "length (dp_labels st) = n" and colors: "0 < colors"
  shows "factors_ok (active - {x}) (dp_factors st') \<and> length (dp_labels st') = n \<and>
    (\<forall>c. colouring n colors c \<longrightarrow> cost_le (factors_cost (dp_factors st') c) (factors_cost (dp_factors st) c)) \<and>
    (\<exists>T. dp_traces st' = dp_traces st @ [T] \<and> trace_ok n colors (dp_factors st) (dp_factors st') x T)"
proof -
  let ?bucket = "filter (\<lambda>F. x \<in> set (factor_scope F)) (dp_factors st)"
  let ?rest = "filter (\<lambda>F. x \<notin> set (factor_scope F)) (dp_factors st)"
  let ?scope = "bucket_scope x ?bucket"
  let ?as = "EnumeratePartitions (length ?scope) colors"
  let ?F = "\<lparr>factor_scope = ?scope, factor_values = []\<rparr>"
  let ?T = "\<lparr>trace_variable = x, remaining_scope = ?scope, trace_class = []\<rparr>"
  obtain F T st1 where fold: "foldl (\<lambda>state a. table_row colors ?bucket x ?scope a state) (?F, ?T, st) ?as = (F, T, st1)"
    by (metis prod.collapse)
  have st': "st' = st1\<lparr>dp_factors := ?rest @ [F], dp_traces := dp_traces st1 @ [T]\<rparr>"
    using run fold unfolding eliminate_def by (simp add: Let_def split: if_splits)
  have sub: "set ?scope \<subseteq> active - {x}" using ok unfolding bucket_scope factors_ok_def by auto
  then have x: "x \<notin> set ?scope" and in_n: "insert x (set ?scope) \<subseteq> {..<n}" using n by auto
  have b: "\<forall>F\<in>set ?bucket. set (factor_scope F) \<subseteq> insert x (set ?scope)" unfolding bucket_scope by auto
  have "rows_ok colors ?bucket x ?scope {} (factor_values ?F) (trace_class ?T)" by (simp add: rows_ok_def)
  note start = this
  have lens: "\<forall>a\<in>set ?as. length a = length ?scope" using length_enumerated [OF colors] by blast
  note t = table_rows [OF b x in_n bucket_scope(2) colors lens fold labels start]
  have rows: "rows_ok colors ?bucket x ?scope (set ?as) (factor_values F) (trace_class T)"
    by (rule conjunct1 [OF t, unfolded Un_empty_left])
  have kept: "factor_scope F = ?scope" "trace_variable T = x" "remaining_scope T = ?scope" "length (dp_labels st1) = n"
      "dp_factors st1 = dp_factors st" "dp_traces st1 = dp_traces st"
    by (use conjunct2 [OF t] in \<open>simp only: Factor.select_convs Trace.select_convs simp_thms\<close>)+
  text \<open>The row of a colouring.\<close>
  have row: "\<exists>best k. map_of (factor_values F) (CanonicalPartition (map c ?scope)) = Some best \<and>
      map_of (trace_class T) (CanonicalPartition (map c ?scope)) = Some k \<and>
      row_ok colors ?bucket x ?scope (CanonicalPartition (map c ?scope)) best k"
    if c: "colouring n colors c" for c
  proof -
    have "c v < colors" if "v \<in> set ?scope" for v
    proof -
      have "v < n" using that in_n by blast
      then show ?thesis using c by (simp add: colouring_def)
    qed
    then have "set (map c ?scope) \<subseteq> {..<colors}" by (simp add: image_subset_iff)
    from card_mono [OF finite_lessThan this] have "card (set (map c ?scope)) \<le> colors" by (simp only: card_lessThan)
    from CanonicalPartition_enumerated [OF this colors] have "CanonicalPartition (map c ?scope) \<in> set ?as"
      by (simp only: length_map)
    then show ?thesis using rows unfolding rows_ok_def by blast
  qed
  have new: "factors_cost (dp_factors st') c = cost_add (factors_cost ?rest c) (factor_cost F c)" for c
    unfolding st' by (simp add: factors_cost_append)
  have old: "factors_cost (dp_factors st) c = cost_add (factors_cost ?rest c) (factors_cost ?bucket c)" for c
    using factors_cost_split [of "dp_factors st" c "\<lambda>F. x \<notin> set (factor_scope F)"] by simp
  have rest: "factors_cost ?rest (c(x := col)) = factors_cost ?rest c" for c col
    by (rule factors_cost_cong [where S = "- {x}"]) auto
  have value_F: "factor_cost F c = table_cost best"
    if "map_of (factor_values F) (CanonicalPartition (map c ?scope)) = Some best" for c best
    using that kept(1) by (simp add: factor_cost_def)
  have "cost_le (factors_cost (dp_factors st') c) (factors_cost (dp_factors st) c)" if c: "colouring n colors c" for c
  proof -
    obtain best k where r: "map_of (factor_values F) (CanonicalPartition (map c ?scope)) = Some best"
      "row_ok colors ?bucket x ?scope (CanonicalPartition (map c ?scope)) best k" using row [OF c] by blast
    obtain lab where lab: "labelled ?scope (CanonicalPartition (map c ?scope)) lab" using labelled_exists by blast
    have "\<forall>v\<in>set ?scope. c v < colors" "c x < colors" using c in_n by (auto simp: colouring_def)
    from class_of_colour [OF b x lab this] obtain j where j: "j < min (card (c ` set ?scope) + 1) colors"
      "factors_cost ?bucket (lab(x := j)) = factors_cost ?bucket (c(x := c x))" by blast
    then have "cost_le (table_cost best) (factors_cost ?bucket (c(x := c x)))"
      using r(2) lab unfolding row_ok_def class_total_scope by metis
    then show ?thesis unfolding new old value_F [OF r(1)] fun_upd_triv by (rule cost_add_mono)
  qed
  moreover have "trace_ok n colors (dp_factors st) (dp_factors st') x T"
    unfolding trace_ok_def kept
  proof (intro conjI allI impI)
    fix c
    assume c: "colouring n colors c"
    obtain best k where r: "map_of (factor_values F) (CanonicalPartition (map c ?scope)) = Some best"
      "map_of (trace_class T) (CanonicalPartition (map c ?scope)) = Some k"
      "row_ok colors ?bucket x ?scope (CanonicalPartition (map c ?scope)) best k" using row [OF c] by blast
    obtain lab where lab: "labelled ?scope (CanonicalPartition (map c ?scope)) lab" using labelled_exists by blast
    have "factors_cost (dp_factors st) (c(x := col)) = factors_cost (dp_factors st') c"
      if "(\<exists>i<length ?scope. k = CanonicalPartition (map c ?scope) ! i \<and> col = c (?scope ! i)) \<or>
        col \<notin> c ` set ?scope \<and> k = card (c ` set ?scope)" for col
    proof -
      have "factors_cost ?bucket (c(x := col)) = table_cost best"
        using colour_of_class [OF b x lab that] r(3) lab unfolding row_ok_def by metis
      then show ?thesis unfolding new old rest value_F [OF r(1)] by simp
    qed
    then show "\<exists>k. map_of (trace_class T) (CanonicalPartition (map c ?scope)) = Some k \<and>
        k < min (card (c ` set ?scope) + 1) colors \<and>
        (\<forall>col. (\<exists>i<length ?scope. k = CanonicalPartition (map c ?scope) ! i \<and> col = c (?scope ! i)) \<or>
           col \<notin> c ` set ?scope \<and> k = card (c ` set ?scope) \<longrightarrow>
           factors_cost (dp_factors st) (c(x := col)) = factors_cost (dp_factors st') c)"
      using r(2,3) unfolding row_ok_def class_total_scope by blast
  qed (use x in_n in auto)
  moreover have "\<exists>v. factor_values F = [([], v)]" if "?scope = []"
    using fold unfolding that by (auto simp: EnumeratePartitions_def table_row_def Let_def split: prod.splits)
  then have "factors_ok (active - {x}) (dp_factors st')"
    using ok sub kept(1) unfolding st' factors_ok_def by auto
  ultimately show ?thesis using st' kept by auto
qed

end
