(* ===== verification/Treewidth_Dp.thy ===== *)
theory Treewidth_Dp
  imports Treewidth_Tables
begin

text \<open>
  The whole dynamic program of a pool: eliminating every variable leaves the least value of the
  potentials over all colourings, and the reconstruction from the traces returns a colouring that
  attains it.
\<close>

section \<open>Reconstruction of one variable\<close>

lemma class_index_Some: "class_index k a = Some i \<Longrightarrow> i < length a \<and> a ! i = k"
  by (induction k a arbitrary: i rule: class_index.induct) (auto split: if_splits)

lemma class_index_None: "class_index k a = None \<longleftrightarrow> k \<notin> set a"
  by (induction k a rule: class_index.induct) auto

lemma first_unused_below:
  "color \<le> j \<Longrightarrow> j < first_unused left used color \<Longrightarrow> j \<in> set used"
proof (induction left used color rule: first_unused.induct)
  case (2 left used color)
  show ?case
  proof (cases "color \<in> set used")
    case True
    then show ?thesis using 2 by (cases "j = color") simp_all
  next
    case False
    then show ?thesis using 2 by simp
  qed
qed simp

lemma first_unused_end:
  "first_unused left used color \<notin> set used \<or> first_unused left used color = color + left"
proof (induction left used color rule: first_unused.induct)
  case (2 left used color)
  then show ?case by (cases "color \<in> set used") simp_all
qed simp

lemma first_unused:
  "first_unused (length used) used 0 \<notin> set used" "first_unused (length used) used 0 \<le> card (set used)"
proof -
  let ?r = "first_unused (length used) used 0"
  have sub: "{..<?r} \<subseteq> set used" using first_unused_below [of 0 _ "length used" used] by auto
  show le: "?r \<le> card (set used)" using card_mono [OF _ sub] by simp
  show "?r \<notin> set used"
  proof
    assume r: "?r \<in> set used"
    then have "?r = length used" using first_unused_end [of "length used" used 0] by simp
    moreover have "{..<Suc ?r} \<subseteq> set used" using r sub by (simp add: lessThan_Suc)
    from card_mono [OF _ this] have "Suc ?r \<le> card (set used)" by simp
    moreover have "card (set used) \<le> length used" by (rule card_length)
    ultimately show False by simp
  qed
qed

lemma nth_update_fun: "x < length cs \<Longrightarrow> (\<lambda>v. cs[x := k] ! v) = (\<lambda>v. cs ! v)(x := k)"
  by (auto simp: fun_eq_iff nth_list_update)

lemma reconstruct_step:
  assumes T: "trace_ok n colors Fs Fs' x T" and cs: "length cs = n" "colouring n colors (\<lambda>v. cs ! v)"
  shows "\<exists>col<colors. reconstruct colors (T # rest) cs = reconstruct colors rest (cs[x := col]) \<and>
    factors_cost Fs (\<lambda>v. cs[x := col] ! v) = factors_cost Fs' (\<lambda>v. cs ! v)"
proof -
  let ?c = "\<lambda>v. cs ! v" and ?scope = "remaining_scope T"
  let ?a = "CanonicalPartition (map ?c ?scope)"
  have x: "trace_variable T = x" "x < length cs" and scope: "set ?scope \<subseteq> {..<n}"
    using T cs(1) by (auto simp: trace_ok_def)
  obtain k where k: "map_of (trace_class T) ?a = Some k" "k < min (card (?c ` set ?scope) + 1) colors"
    "\<And>col. (\<exists>i<length ?scope. k = ?a ! i \<and> col = ?c (?scope ! i)) \<or>
        col \<notin> ?c ` set ?scope \<and> k = card (?c ` set ?scope) \<Longrightarrow>
      factors_cost Fs (?c(x := col)) = factors_cost Fs' ?c"
    using T cs(2) unfolding trace_ok_def by blast
  show ?thesis
  proof (cases "class_index k ?a")
    case (Some i)
    then have i: "i < length ?scope" "k = ?a ! i" using class_index_Some [OF Some] by auto
    let ?col = "?c (?scope ! i)"
    have "?scope ! i < n" using i(1) scope nth_mem by blast
    then have "?col < colors" using cs(2) by (simp add: colouring_def)
    moreover have "reconstruct colors (T # rest) cs = reconstruct colors rest (cs[x := ?col])"
      using k(1) Some i(1) x(1) by (simp add: Let_def)
    ultimately show ?thesis using k(3) [of ?col] i nth_update_fun [OF x(2), of ?col] by metis
  next
    case None
    let ?used = "map ?c ?scope"
    let ?col = "first_unused (length ?used) ?used 0"
    have "k \<notin> set ?a" using None by (simp add: class_index_None)
    then have new: "k = card (?c ` set ?scope)" "card (?c ` set ?scope) < colors"
      using k(2) by (simp_all add: set_CanonicalPartition)
    have col: "?col \<notin> ?c ` set ?scope" using first_unused(1) [of ?used] by (simp only: set_map) simp
    have "?col \<le> card (?c ` set ?scope)" using first_unused(2) [of ?used] by (simp only: set_map)
    then have "?col < colors" using new(2) by (rule le_less_trans)
    note col = col this
    have "reconstruct colors (T # rest) cs = reconstruct colors rest (cs[x := ?col])"
      using k(1) None x(1) col(2) by (simp add: Let_def)
    then show ?thesis using k(3) [of ?col] col new(1) nth_update_fun [OF x(2), of ?col] by metis
  qed
qed

section \<open>Eliminating every variable\<close>

lemma eliminate_all_exact:
  assumes "eliminate_all options colors vars st = Inr st'" "factors_ok active (dp_factors st)"
    "active \<subseteq> {..<n}" "set vars \<subseteq> active" "distinct vars" "length (dp_labels st) = n" "0 < colors"
  shows "factors_ok (active - set vars) (dp_factors st') \<and>
    (\<forall>c. colouring n colors c \<longrightarrow> cost_le (factors_cost (dp_factors st') c) (factors_cost (dp_factors st) c)) \<and>
    (\<exists>Ts. dp_traces st' = dp_traces st @ Ts \<and>
      (\<forall>cs rest. length cs = n \<and> colouring n colors (\<lambda>v. cs ! v) \<longrightarrow>
         (\<exists>cs'. length cs' = n \<and> colouring n colors (\<lambda>v. cs' ! v) \<and>
            reconstruct colors (rev Ts @ rest) cs = reconstruct colors rest cs' \<and>
            factors_cost (dp_factors st) (\<lambda>v. cs' ! v) = factors_cost (dp_factors st') (\<lambda>v. cs ! v))))"
  using assms
proof (induction vars arbitrary: st active)
  case Nil
  then show ?case by auto
next
  case (Cons x vars)
  obtain st1 where st1: "eliminate options colors x st = Inr st1" "eliminate_all options colors vars st1 = Inr st'"
    using Cons.prems(1) by (auto split: sum.splits)
  have x: "x \<in> active" using Cons.prems(4) by simp
  note step = eliminate_exact [OF st1(1) Cons.prems(2,3) x Cons.prems(6,7)]
  then obtain T where T: "dp_traces st1 = dp_traces st @ [T]"
    "trace_ok n colors (dp_factors st) (dp_factors st1) x T" by blast
  have "factors_ok (active - {x}) (dp_factors st1)" "active - {x} \<subseteq> {..<n}" "set vars \<subseteq> active - {x}"
    "distinct vars" "length (dp_labels st1) = n"
    using step Cons.prems(3-5) by auto
  note ih = Cons.IH [OF st1(2) this Cons.prems(7)]
  then obtain Ts where Ts: "dp_traces st' = dp_traces st1 @ Ts"
    "\<And>cs rest. length cs = n \<Longrightarrow> colouring n colors (\<lambda>v. cs ! v) \<Longrightarrow>
       \<exists>cs'. length cs' = n \<and> colouring n colors (\<lambda>v. cs' ! v) \<and>
         reconstruct colors (rev Ts @ rest) cs = reconstruct colors rest cs' \<and>
         factors_cost (dp_factors st1) (\<lambda>v. cs' ! v) = factors_cost (dp_factors st') (\<lambda>v. cs ! v)"
    by blast
  show ?case
  proof (intro conjI allI impI exI [of _ "T # Ts"])
    have "active - set (x # vars) = active - {x} - set vars" by auto
    then show "factors_ok (active - set (x # vars)) (dp_factors st')" using ih by simp
    show "cost_le (factors_cost (dp_factors st') c) (factors_cost (dp_factors st) c)" if "colouring n colors c" for c
      using step ih that cost_le_trans by blast
    show "dp_traces st' = dp_traces st @ T # Ts" using T(1) Ts(1) by simp
    fix cs rest
    assume cs: "length cs = n \<and> colouring n colors (\<lambda>v. cs ! v)"
    obtain cs1 where cs1: "length cs1 = n" "colouring n colors (\<lambda>v. cs1 ! v)"
      "reconstruct colors (rev Ts @ (T # rest)) cs = reconstruct colors (T # rest) cs1"
      "factors_cost (dp_factors st1) (\<lambda>v. cs1 ! v) = factors_cost (dp_factors st') (\<lambda>v. cs ! v)"
      using Ts(2) cs by blast
    obtain col where col: "col < colors" "reconstruct colors (T # rest) cs1 = reconstruct colors rest (cs1[x := col])"
      "factors_cost (dp_factors st) (\<lambda>v. cs1[x := col] ! v) = factors_cost (dp_factors st1) (\<lambda>v. cs1 ! v)"
      using reconstruct_step [OF T(2) cs1(1,2)] by blast
    have "colouring n colors (\<lambda>v. cs1[x := col] ! v)"
      using cs1(1,2) col(1) x Cons.prems(3) by (auto simp: colouring_def nth_list_update)
    then show "\<exists>cs'. length cs' = n \<and> colouring n colors (\<lambda>v. cs' ! v) \<and>
        reconstruct colors (rev (T # Ts) @ rest) cs = reconstruct colors rest cs' \<and>
        factors_cost (dp_factors st) (\<lambda>v. cs' ! v) = factors_cost (dp_factors st') (\<lambda>v. cs ! v)"
      using cs1 col by (intro exI [of _ "cs1[x := col]"]) simp
  qed
qed

lemma terminal_cost_constant:
  "factors_ok {} Fs \<Longrightarrow> terminal_cost Fs w = Some (cost_add (Some w) (factors_cost Fs c))"
proof (induction Fs arbitrary: w)
  case (Cons F Fs)
  obtain v where F: "factor_scope F = []" "factor_values F = [([], v)]"
    using Cons.prems by (auto simp: factors_ok_def)
  have "factor_cost F c = table_cost v" by (simp add: factor_cost_def F CanonicalPartition_def)
  moreover have "factors_ok {} Fs" using Cons.prems by (simp add: factors_ok_def)
  ultimately show ?case
    using Cons.IH [of "SaturatingAdd w (tv_cost v)"] F
    by (cases "tv_feasible v") (simp_all add: table_cost_def flip: cost_add_simps(1) add: cost_add_assoc)
qed simp

section \<open>Potentials\<close>

definition pair_cost :: "(nat \<Rightarrow> nat) \<Rightarrow> ReuseNodePair \<Rightarrow> PairPotential \<Rightarrow> cost" where
  "pair_cost c pair potential =
     (if c (fst pair) \<noteq> c (snd pair) then Some 0
      else if pot_hard potential then None else Some (pot_weight potential))"

definition potentials_cost :: "(ReuseNodePair \<times> PairPotential) list \<Rightarrow> (nat \<Rightarrow> nat) \<Rightarrow> cost" where
  "potentials_cost ps c = foldr (\<lambda>(pair, potential) s. cost_add (pair_cost c pair potential) s) ps (Some 0)"

lemma PairFactor_cost: "factor_cost (PairFactor i j potential) c = pair_cost c (i, j) potential"
proof -
  have "CanonicalPartition [c i, c j] = (if c i = c j then [0, 0] else [0, 1])"
    by (simp add: CanonicalPartition_def om_emplace_def)
  then show ?thesis
    by (simp add: factor_cost_def PairFactor_def pair_cost_def table_cost_def)
qed

lemma pair_factors_cost:
  "factors_cost (map (\<lambda>(pair, potential). PairFactor (fst pair) (snd pair) potential) ps) c = potentials_cost ps c"
  by (induction ps) (auto simp: potentials_cost_def PairFactor_cost)

text \<open>The program is exact: it refuses, proves that no colouring is feasible, or finds a cheapest one.\<close>

lemma run_pool_dp_exact:
  assumes run: "run_pool_dp options n colors vars ps = Inr st" and vars: "distinct vars" "set vars \<subseteq> {..<n}"
    and ps: "\<forall>(pair, potential)\<in>set ps. fst pair \<in> set vars \<and> snd pair \<in> set vars" and colors: "0 < colors"
  obtains (infeasible) "terminal_cost (dp_factors st) 0 = Some None"
      "\<And>c. colouring n colors c \<Longrightarrow> potentials_cost ps c = None"
    | (optimal) w cs where "terminal_cost (dp_factors st) 0 = Some (Some w)"
      "reconstruct colors (rev (dp_traces st)) (replicate n 0) = Inr cs" "length cs = n"
      "colouring n colors (\<lambda>v. cs ! v)" "potentials_cost ps (\<lambda>v. cs ! v) = Some w"
      "\<And>c. colouring n colors c \<Longrightarrow> cost_le (Some w) (potentials_cost ps c)"
proof -
  let ?Fs = "map (\<lambda>(pair, potential). PairFactor (fst pair) (snd pair) potential) ps"
  let ?st = "\<lparr>dp_factors = ?Fs, dp_traces = [], dp_labels = replicate n 0, dp_states = 0, dp_transitions = 0\<rparr>"
  have all: "eliminate_all options colors vars ?st = Inr st"
    using run by (auto simp: run_pool_dp_def split: if_splits)
  have "factors_ok (set vars) (dp_factors ?st)"
    using ps by (auto simp: factors_ok_def PairFactor_def)
  note ok = this
  have "length (dp_labels ?st) = n" by simp
  note exact = eliminate_all_exact [OF all ok vars(2) subset_refl vars(1) this colors]
  then have empty: "factors_ok {} (dp_factors st)" by simp
  have zero: "colouring n colors (\<lambda>v. replicate n 0 ! v)" using colors by (simp add: colouring_def)
  let ?opt = "factors_cost (dp_factors st) (\<lambda>v. replicate n 0 ! v)"
  have terminal: "terminal_cost (dp_factors st) 0 = Some ?opt"
    using terminal_cost_constant [OF empty, of 0 "\<lambda>v. replicate n 0 ! v"] by simp
  have const: "factors_cost (dp_factors st) c = ?opt" for c
    using terminal_cost_constant [OF empty, of 0 c] terminal by simp
  have potentials: "factors_cost (dp_factors ?st) c = potentials_cost ps c" for c
    by (simp add: pair_factors_cost)
  have least: "cost_le ?opt (potentials_cost ps c)" if "colouring n colors c" for c
  proof -
    have "cost_le (factors_cost (dp_factors st) c) (factors_cost (dp_factors ?st) c)" using exact that by blast
    then show ?thesis unfolding const [of c] potentials .
  qed
  obtain Ts where Ts: "dp_traces st = dp_traces ?st @ Ts"
    "\<And>cs rest. length cs = n \<and> colouring n colors (\<lambda>v. cs ! v) \<Longrightarrow>
       \<exists>cs'. length cs' = n \<and> colouring n colors (\<lambda>v. cs' ! v) \<and>
         reconstruct colors (rev Ts @ rest) cs = reconstruct colors rest cs' \<and>
         factors_cost (dp_factors ?st) (\<lambda>v. cs' ! v) = factors_cost (dp_factors st) (\<lambda>v. cs ! v)"
    using exact by blast
  from Ts(2) [of "replicate n 0" "[]"] zero obtain cs where cs: "length cs = n" "colouring n colors (\<lambda>v. cs ! v)"
    "reconstruct colors (rev Ts @ []) (replicate n 0) = reconstruct colors [] cs"
    "factors_cost (dp_factors ?st) (\<lambda>v. cs ! v) = ?opt" by auto
  have run_back: "reconstruct colors (rev (dp_traces st)) (replicate n 0) = Inr cs" using cs(3) Ts(1) by simp
  have cost_cs: "potentials_cost ps (\<lambda>v. cs ! v) = ?opt" using cs(4) unfolding potentials .
  show thesis
  proof (cases ?opt)
    case None
    have "potentials_cost ps c = None" if "colouring n colors c" for c
      using least [OF that] None by (cases "potentials_cost ps c") simp_all
    then show thesis using infeasible terminal None by simp
  next
    case (Some w)
    show thesis
      by (rule optimal [OF _ run_back cs(1,2)]) (use terminal cost_cs least Some in simp_all)
  qed
qed

end
