(* ===== verification/Treewidth_Potentials.thy ===== *)
theory Treewidth_Potentials
  imports Canonical_Pools Treewidth_Dp
begin

text \<open>
  What the treewidth solver feeds into its dynamic program: the elimination order lists every node of
  the pool once, and the potentials of the pool price a colouring by the hard pairs and the soft
  weights of the search view that get one colour.
\<close>

section \<open>The elimination order\<close>

lemma best_key_active:
  "best_key search adjacency active = None \<longleftrightarrow> active = []"
  "best_key search adjacency active = Some (a, b, c, node) \<Longrightarrow> node \<in> set active"
proof -
  let ?step = "\<lambda>best node.
         let key = min_fill_key search adjacency active node
         in (case best of None \<Rightarrow> Some key | Some least \<Rightarrow> if key < least then Some key else best)"
  have from_list: "(foldl ?step best ns = None \<longleftrightarrow> best = None \<and> ns = []) \<and>
      (foldl ?step best ns = Some (a, b, c, node) \<longrightarrow> best = Some (a, b, c, node) \<or> node \<in> set ns)" for best ns a b c node
    by (induction ns arbitrary: best) (auto simp: Let_def min_fill_key_def split: option.splits if_splits)
  show "best_key search adjacency active = None \<longleftrightarrow> active = []"
    "best_key search adjacency active = Some (a, b, c, node) \<Longrightarrow> node \<in> set active"
    unfolding best_key_def using from_list [of None active] by simp_all
qed

lemma min_fill_loop_variables:
  "distinct active \<Longrightarrow> length active \<le> left \<Longrightarrow>
   \<exists>vs. eo_variables (min_fill_loop left search adjacency active order) = eo_variables order @ vs \<and>
     distinct vs \<and> set vs = set active"
proof (induction left arbitrary: adjacency active order)
  case (Suc left)
  show ?case
  proof (cases "best_key search adjacency active")
    case None
    then have "active = []" by (simp add: best_key_active(1))
    then show ?thesis using None by simp
  next
    case (Some key)
    then obtain a b c node where key: "best_key search adjacency active = Some (a, b, c, node)"
      by (cases key) auto
    have node: "node \<in> set active" by (rule best_key_active(2) [OF key])
    let ?rest = "filter (\<lambda>v. v \<noteq> node) active"
    have "length ?rest < length active" using node by (auto intro: length_filter_less)
    then have rest: "length ?rest \<le> left" "distinct ?rest" using Suc.prems by simp_all
    let ?neighbors = "active_neighbors adjacency active node"
    from Suc.IH [OF rest(2,1), of "fill_neighbors node ?neighbors adjacency"
        "\<lparr>eo_variables = eo_variables order @ [node], eo_width = max (eo_width order) (length ?neighbors)\<rparr>"]
    obtain vs where "eo_variables (min_fill_loop (Suc left) search adjacency active order) = eo_variables order @ node # vs"
      "distinct vs" "set vs = set ?rest"
      using key by (auto simp: Let_def)
    then show ?thesis using node by (intro exI [of _ "node # vs"]) auto
  qed
qed simp

lemma MinFillOrder_variables:
  assumes "distinct ns"
  shows "distinct (eo_variables (MinFillOrder search ns potentials))"
    "set (eo_variables (MinFillOrder search ns potentials)) = set ns"
proof -
  obtain vs where "eo_variables (MinFillOrder search ns potentials) = [] @ vs" "distinct vs" "set vs = set ns"
    unfolding MinFillOrder_def using min_fill_loop_variables [OF assms order_refl, of search
      "pair_adjacency (node_count search) potentials" "\<lparr>eo_variables = [], eo_width = 0\<rparr>"] by auto
  then show "distinct (eo_variables (MinFillOrder search ns potentials))"
    "set (eo_variables (MinFillOrder search ns potentials)) = set ns" by simp_all
qed

section \<open>The potentials of a pool\<close>

lemma set_PoolNodes: "set (PoolNodes search q) = pool_set search q" "distinct (PoolNodes search q)"
  by (auto simp: PoolNodes_def pool_set_def)

text \<open>The hard pairs of a map of potentials, and its weights.\<close>

definition hard_pairs :: "(ReuseNodePair, PairPotential) omap \<Rightarrow> ReuseNodePair set" where
  "hard_pairs m = {k. \<exists>v. map_of m k = Some v \<and> pot_hard v}"

definition pot_weights :: "(ReuseNodePair, PairPotential) omap \<Rightarrow> (ReuseNodePair, u64) omap" where
  "pot_weights m = map (\<lambda>(k, v). (k, pot_weight v)) m"

lemma om_ok_pot_weights [simp]: "om_ok (pot_weights m) = om_ok m"
  by (simp add: om_ok_def pot_weights_def comp_def split_beta)

lemma pot_weights_put: "pot_weights (om_put k v m) = om_put k (pot_weight v) (pot_weights m)"
  by (induction k v m rule: om_put.induct) (auto simp: pot_weights_def)

lemma pot_weights_get: "om_get 0 (pot_weights m) k = pot_weight (om_get no_potential m k)"
  by (induction m) (auto simp: pot_weights_def om_get_def no_potential_def)

lemma hard_pairs_put:
  "hard_pairs (om_put k v m) = (if pot_hard v then insert k (hard_pairs m) else hard_pairs m - {k})"
  by (auto simp: hard_pairs_def split: if_splits)

lemma hard_pairs_get: "pot_hard (om_get no_potential m k) \<longleftrightarrow> k \<in> hard_pairs m"
  by (simp add: hard_pairs_def om_get_def no_potential_def split: option.splits)

lemma potentials_cost_saturated:
  assumes "om_ok m"
  shows "potentials_cost m c =
    (if \<exists>k\<in>hard_pairs m. c (fst k) = c (snd k) then None
     else Some (saturated (weight_sum (\<lambda>k. c (fst k) = c (snd k)) (pot_weights m))))"
proof -
  let ?hard = "\<lambda>m. \<exists>(k, v)\<in>set m. pot_hard v \<and> c (fst k) = c (snd k)"
  have "potentials_cost ps c = (if ?hard ps then None
      else Some (saturated (weight_sum (\<lambda>k. c (fst k) = c (snd k)) (pot_weights ps))))" for ps
  proof (induction ps)
    case (Cons kv ps)
    obtain k v where kv: "kv = (k, v)" by fastforce
    have "potentials_cost (kv # ps) c = cost_add (pair_cost c k v) (potentials_cost ps c)"
      by (simp add: potentials_cost_def kv)
    then show ?case
      unfolding Cons.IH
      by (auto simp: kv pair_cost_def pot_weights_def weight_sum_def saturated_word SaturatingAdd_commute
          [of "pot_weight v"] add.commute)
  qed (simp add: potentials_cost_def pot_weights_def weight_sum_def)
  moreover have "?hard m \<longleftrightarrow> (\<exists>k\<in>hard_pairs m. c (fst k) = c (snd k))"
    using om_ok_in_set [OF assms] by (fastforce simp: hard_pairs_def)
  ultimately show ?thesis by simp
qed


definition set_hard ::
  "ReuseNodePair \<Rightarrow> (ReuseNodePair, PairPotential) omap \<Rightarrow> (ReuseNodePair, PairPotential) omap" where
  "set_hard k m = om_put k ((om_get no_potential m k)\<lparr>pot_hard := True\<rparr>) m"

definition set_weight ::
  "ReuseNodePair \<times> u64 \<Rightarrow> (ReuseNodePair, PairPotential) omap \<Rightarrow> (ReuseNodePair, PairPotential) omap" where
  "set_weight entry m = om_put (fst entry) ((om_get no_potential m (fst entry))\<lparr>pot_weight := snd entry\<rparr>) m"

lemma hard_pairs_set:
  "hard_pairs (set_hard k m) = insert k (hard_pairs m)" "hard_pairs (set_weight e m) = hard_pairs m"
  by (auto simp: set_hard_def set_weight_def hard_pairs_put hard_pairs_get)

lemma pot_weights_set:
  "om_get 0 (pot_weights (set_hard k m)) k' = om_get 0 (pot_weights m) k'"
  "om_get 0 (pot_weights (set_weight e m)) k' = (if k' = fst e then snd e else om_get 0 (pot_weights m) k')"
  unfolding pot_weights_get set_hard_def set_weight_def by (auto simp: om_get_def)

lemma keys_set:
  "fst ` set (set_hard k m) = insert k (fst ` set m)" "fst ` set (set_weight e m) = insert (fst e) (fst ` set m)"
  by (simp_all add: set_hard_def set_weight_def fst_om_put)

lemma foldl_set_hard:
  "om_ok m \<Longrightarrow> om_ok (foldl (\<lambda>m k. set_hard k m) m ks) \<and>
   hard_pairs (foldl (\<lambda>m k. set_hard k m) m ks) = set ks \<union> hard_pairs m \<and>
   om_get 0 (pot_weights (foldl (\<lambda>m k. set_hard k m) m ks)) k = om_get 0 (pot_weights m) k \<and>
   fst ` set (foldl (\<lambda>m k. set_hard k m) m ks) = set ks \<union> fst ` set m"
proof (induction ks arbitrary: m)
  case (Cons k' ks)
  have "om_ok (set_hard k' m)" using Cons.prems by (simp add: set_hard_def)
  from Cons.IH [OF this] show ?case
    by (simp add: hard_pairs_set pot_weights_set keys_set)
qed simp

lemma foldl_set_weight:
  assumes "om_ok m" "distinct (map fst ws)" "\<forall>k\<in>fst ` set ws. om_get 0 (pot_weights m) k = 0"
  shows "om_ok (foldl (\<lambda>m e. set_weight e m) m ws)" "hard_pairs (foldl (\<lambda>m e. set_weight e m) m ws) = hard_pairs m"
    "weight_sum paid (pot_weights (foldl (\<lambda>m e. set_weight e m) m ws)) = weight_sum paid (pot_weights m) + weight_sum paid ws"
    "fst ` set (foldl (\<lambda>m e. set_weight e m) m ws) = fst ` set ws \<union> fst ` set m"
proof -
  have "om_ok (foldl (\<lambda>m e. set_weight e m) m ws) \<and> hard_pairs (foldl (\<lambda>m e. set_weight e m) m ws) = hard_pairs m \<and>
    weight_sum paid (pot_weights (foldl (\<lambda>m e. set_weight e m) m ws)) = weight_sum paid (pot_weights m) + weight_sum paid ws \<and>
    fst ` set (foldl (\<lambda>m e. set_weight e m) m ws) = fst ` set ws \<union> fst ` set m"
    using assms
  proof (induction ws arbitrary: m)
    case (Cons e ws)
    have ok: "om_ok (set_weight e m)" using Cons.prems(1) by (simp add: set_weight_def)
    have d: "distinct (map fst ws)" using Cons.prems(2) by simp
    have "\<forall>k\<in>fst ` set ws. om_get 0 (pot_weights (set_weight e m)) k = 0"
    proof
      fix k
      assume k: "k \<in> fst ` set ws"
      moreover have "fst e \<notin> fst ` set ws" using Cons.prems(2) by simp
      ultimately have "k \<noteq> fst e" by blast
      moreover have "om_get 0 (pot_weights m) k = 0" using Cons.prems(3) k by auto
      ultimately show "om_get 0 (pot_weights (set_weight e m)) k = 0"
        by (simp add: pot_weights_set)
    qed
    note IH = Cons.IH [OF ok d this]
    have z: "om_get 0 (pot_weights m) (fst e) = 0" using Cons.prems(3) by simp
    have "weight_sum paid (pot_weights (set_weight e m)) =
        weight_sum paid (pot_weights m) + (if paid (fst e) then unat (snd e) else 0)"
      using weight_sum_put [of "pot_weights m" paid "fst e" "snd e"] Cons.prems(1)
      unfolding z by (cases "paid (fst e)") (simp_all add: set_weight_def pot_weights_put)
    then show ?case
      using IH by (simp add: hard_pairs_set weight_sum_def keys_set)
  qed (simp add: weight_sum_def)
  then show "om_ok (foldl (\<lambda>m e. set_weight e m) m ws)" "hard_pairs (foldl (\<lambda>m e. set_weight e m) m ws) = hard_pairs m"
    "weight_sum paid (pot_weights (foldl (\<lambda>m e. set_weight e m) m ws)) = weight_sum paid (pot_weights m) + weight_sum paid ws"
    "fst ` set (foldl (\<lambda>m e. set_weight e m) m ws) = fst ` set ws \<union> fst ` set m" by blast+
qed

lemma foldl_concat: "foldl (\<lambda>m x. foldl f m (g x)) m xs = foldl f m (concat (map g xs))"
  by (induction xs arbitrary: m) simp_all

lemma foldl_filter: "foldl (\<lambda>m x. if P x then f m x else m) m xs = foldl f m (filter P xs)"
  by (induction xs arbitrary: m) simp_all

lemma hard_potentials_list:
  "hard_potentials search ns = foldl (\<lambda>m k. set_hard k m) []
     (concat (map (\<lambda>node. map (Pair node) (filter (\<lambda>neighbor. node < neighbor \<and> neighbor \<in> set ns)
        (hard_neighbors search ! node))) ns))"
proof -
  have "foldl (\<lambda>m neighbor. if node < neighbor \<and> neighbor \<in> set ns then set_hard (node, neighbor) m else m) m xs =
      foldl (\<lambda>m k. set_hard k m) m (map (Pair node) (filter (\<lambda>neighbor. node < neighbor \<and> neighbor \<in> set ns) xs))"
    for node m xs by (simp add: foldl_filter foldl_map)
  then show ?thesis
    unfolding hard_potentials_def set_hard_def [symmetric] by (simp add: foldl_concat)
qed

lemma BuildPotentials_list:
  "BuildPotentials search ns = foldl (\<lambda>m e. set_weight e m) (hard_potentials search ns)
     (filter (\<lambda>e. fst (fst e) \<in> set ns \<and> snd (fst e) \<in> set ns) (soft_weights search))"
  unfolding BuildPotentials_def split_beta foldl_filter by (simp add: set_weight_def)

text \<open>The price of a colouring of a pool of the built view.\<close>

definition same_colour :: "(nat \<Rightarrow> nat) \<Rightarrow> ReuseNodePair \<Rightarrow> bool" where
  "same_colour c k \<longleftrightarrow> c (fst k) = c (snd k)"

definition pool_hard_pairs :: "DsaProblem \<Rightarrow> PoolId \<Rightarrow> ReuseNodePair set" where
  "pool_hard_pairs p q = {(i, j). i \<in> pool_set (built p) q \<and> j \<in> pool_set (built p) q \<and> i < j \<and>
     j \<in> set (hard_neighbors (built p) ! i)}"

lemma pool_potentials:
  fixes p q
  defines "ns \<equiv> PoolNodes (built p) q"
  defines "m \<equiv> BuildPotentials (built p) ns"
  shows "\<forall>(k, v)\<in>set m. fst k \<in> set ns \<and> snd k \<in> set ns"
    "potentials_cost m c = (if \<exists>k\<in>pool_hard_pairs p q. same_colour c k then None
       else Some (saturated (\<Sum>e\<leftarrow>soft_weights (built p).
         if fst (fst e) \<in> set ns \<and> snd (fst e) \<in> set ns \<and> same_colour c (fst e) then unat (snd e) else 0)))"
proof -
  let ?ks = "concat (map (\<lambda>node. map (Pair node) (filter (\<lambda>neighbor. node < neighbor \<and> neighbor \<in> set ns)
        (hard_neighbors (built p) ! node))) ns)"
  let ?ws = "filter (\<lambda>e. fst (fst e) \<in> set ns \<and> snd (fst e) \<in> set ns) (soft_weights (built p))"
  let ?h = "hard_potentials (built p) ns"
  have ks: "set ?ks = pool_hard_pairs p q" by (auto simp: pool_hard_pairs_def ns_def set_PoolNodes)
  note hard = foldl_set_hard [of "[]" ?ks, folded hard_potentials_list]
  have h: "om_ok ?h" "hard_pairs ?h = pool_hard_pairs p q" "fst ` set ?h = pool_hard_pairs p q"
    "\<And>k. om_get 0 (pot_weights ?h) k = 0"
    using hard ks by (simp_all add: om_ok_def hard_pairs_def pot_weights_def om_get_def)
  have "distinct (map fst (soft_weights (built p)))" using built_soft_weights om_ok_distinct by blast
  then have d: "distinct (map fst ?ws)" by (rule distinct_map_filter)
  note soft = foldl_set_weight [OF h(1) d, folded BuildPotentials_list m_def]
  have zero: "\<forall>k\<in>fst ` set ?ws. om_get 0 (pot_weights ?h) k = 0" using h(4) by blast
  have "pool_hard_pairs p q \<subseteq> set ns \<times> set ns" by (auto simp: pool_hard_pairs_def ns_def set_PoolNodes)
  then have "fst ` set m \<subseteq> set ns \<times> set ns" using soft(4) [OF zero] h(3) by auto
  then show "\<forall>(k, v)\<in>set m. fst k \<in> set ns \<and> snd k \<in> set ns" by fastforce
  have "weight_sum (same_colour c) (pot_weights ?h) = 0"
  proof -
    have "v = 0" if "(k, v) \<in> set (pot_weights ?h)" for k v
      using h(4) [of k] om_ok_in_set [of "pot_weights ?h"] h(1) that by (simp add: om_get_def)
    then have "\<forall>e\<in>set (pot_weights ?h). (if same_colour c (fst e) then unat (snd e) else 0) = 0" by force
    then show ?thesis by (simp only: weight_sum_def sum_list_eq_0_iff set_map ball_simps)
  qed
  moreover have "weight_sum (same_colour c) (filter (\<lambda>e. fst (fst e) \<in> set ns \<and> snd (fst e) \<in> set ns) ws) =
      (\<Sum>e\<leftarrow>ws. if fst (fst e) \<in> set ns \<and> snd (fst e) \<in> set ns \<and> same_colour c (fst e) then unat (snd e) else 0)" for ws
    unfolding weight_sum_def by (induction ws) auto
  ultimately have "weight_sum (same_colour c) (pot_weights m) = (\<Sum>e\<leftarrow>soft_weights (built p).
         if fst (fst e) \<in> set ns \<and> snd (fst e) \<in> set ns \<and> same_colour c (fst e) then unat (snd e) else 0)"
    unfolding soft(3) [OF zero] by simp
  then show "potentials_cost m c = (if \<exists>k\<in>pool_hard_pairs p q. same_colour c k then None
       else Some (saturated (\<Sum>e\<leftarrow>soft_weights (built p).
         if fst (fst e) \<in> set ns \<and> snd (fst e) \<in> set ns \<and> same_colour c (fst e) then unat (snd e) else 0)))"
    using potentials_cost_saturated [OF soft(1) [OF zero], of c] soft(2) [OF zero] h(2)
    by (simp add: same_colour_def [abs_def])
qed

end
