(* ===== verification/Treewidth_Spec.thy ===== *)
theory Treewidth_Spec
  imports Treewidth_Potentials
begin

text \<open>
  Colours and addresses. In a pool of nodes of one size, legal offsets give a colouring that respects
  the hard pairs and costs no more, and such a colouring gives legal offsets of the same cost; so the
  dynamic program over colourings finds the least reuse cost of the pool, and the solver the least
  reuse cost of the problem.
\<close>

section \<open>Pools of one size\<close>

definition unit_pool :: "DsaProblem \<Rightarrow> Pool \<Rightarrow> u64 \<Rightarrow> u64 \<Rightarrow> bool" where
  "unit_pool p pool cap unit \<longleftrightarrow>
     FindPool p (pool_id pool) = Some pool \<and> capacity pool = Some cap \<and> reserved_ranges pool = [] \<and>
     unit \<noteq> 0 \<and>
     (\<forall>i\<in>pool_set (built p) (pool_id pool).
        node_size (node_at (built p) i) = unit \<and> unit mod node_alignment (node_at (built p) i) = 0)"

lemma unit_poolD:
  assumes "unit_pool p pool cap unit"
  shows "FindPool p (pool_id pool) = Some pool" "capacity pool = Some cap" "reserved_ranges pool = []"
    "0 < unat unit" "unat cap div unat unit * unat unit \<le> unat cap"
    "i \<in> pool_set (built p) (pool_id pool) \<Longrightarrow> node_size (node_at (built p) i) = unit"
    "i \<in> pool_set (built p) (pool_id pool) \<Longrightarrow> unat (node_alignment (node_at (built p) i)) dvd unat unit"
proof -
  show "FindPool p (pool_id pool) = Some pool" "capacity pool = Some cap" "reserved_ranges pool = []"
    "i \<in> pool_set (built p) (pool_id pool) \<Longrightarrow> node_size (node_at (built p) i) = unit"
    using assms by (simp_all add: unit_pool_def)
  show "0 < unat unit" using assms by (simp add: unit_pool_def unat_gt_0)
  show "unat cap div unat unit * unat unit \<le> unat cap" by (rule div_times_less_eq_dividend)
  assume "i \<in> pool_set (built p) (pool_id pool)"
  then have "unit mod node_alignment (node_at (built p) i) = 0" using assms by (simp add: unit_pool_def)
  then have "unat unit mod unat (node_alignment (node_at (built p) i)) = 0" by (metis unat_mod unat_0)
  then show "unat (node_alignment (node_at (built p) i)) dvd unat unit" by (rule mod_0_imp_dvd)
qed

lemma unit_pool_fits:
  assumes "unit_pool p pool cap unit" "i \<in> pool_set (built p) (pool_id pool)"
  shows "pool_fits p (built p) i w \<longleftrightarrow> unat w + unat unit \<le> unat cap"
proof -
  note u = unit_poolD [OF assms(1)]
  have q: "node_pool (node_at (built p) i) = pool_id pool" using assms(2) by (simp add: pool_set_def)
  show ?thesis
  proof (cases "AddOverflows w unit")
    case True
    then show ?thesis
      using unat_u64_less [of cap] u(6) [OF assms(2)] by (simp add: pool_fits_def AddOverflows_unat)
  next
    case False
    then show ?thesis
      using u(1-3) u(6) [OF assms(2)] q
      by (auto simp: pool_fits_def exceeds_def word_less_nat_alt unat_plus_no_overflow)
  qed
qed

lemma div_less_fit:
  assumes "0 < u" "w + u \<le> (K :: nat)"
  shows "w div u < K div u"
proof -
  have "(w + u) div u \<le> K div u" by (rule div_le_mono [OF assms(2)])
  moreover have "(w + u) div u = Suc (w div u)" using assms(1) by (simp add: div_add_self2)
  ultimately show ?thesis by simp
qed

lemma same_div_near:
  fixes u :: nat
  assumes "0 < u" "w div u = w' div u"
  shows "w < w' + u"
proof -
  have "w = w' div u * u + w mod u" using div_mult_mod_eq [of w u] assms(2) by simp
  moreover have "w' div u * u \<le> w'" by (rule div_times_less_eq_dividend)
  moreover have "w mod u < u" using assms(1) by simp
  ultimately show ?thesis by linarith
qed

lemma unit_pool_overlap:
  assumes "unit_pool p pool cap unit" "i \<in> pool_set (built p) (pool_id pool)" "j \<in> pool_set (built p) (pool_id pool)"
    "unat w + unat unit \<le> unat cap" "unat w' + unat unit \<le> unat cap"
  shows "overlap (built p) i w j w' \<longleftrightarrow> unat w < unat w' + unat unit \<and> unat w' < unat w + unat unit"
proof -
  note u = unit_poolD [OF assms(1)]
  have "i < node_count (built p)" "j < node_count (built p)" using assms(2,3) by (simp_all add: pool_set_def)
  moreover have "\<not> AddOverflows w unit" "\<not> AddOverflows w' unit"
    using assms(4,5) unat_u64_less [of cap] by (simp_all add: AddOverflows_unat)
  ultimately show ?thesis using built.overlap_unat [of i p j w w'] u(6) assms(2,3) by simp
qed

section \<open>Colours of offsets\<close>

definition offset_colour :: "DsaProblem \<Rightarrow> PoolId \<Rightarrow> u64 \<Rightarrow> u64 list \<Rightarrow> nat \<Rightarrow> nat" where
  "offset_colour p q unit A v = (if v \<in> pool_set (built p) q then unat (A ! v) div unat unit else 0)"

abbreviation colour_cost :: "DsaProblem \<Rightarrow> PoolId \<Rightarrow> (nat \<Rightarrow> nat) \<Rightarrow> cost" where
  "colour_cost p q c \<equiv> potentials_cost (BuildPotentials (built p) (PoolNodes (built p) q)) c"

lemma colour_cost_soft:
  assumes "\<And>k. k \<in> pool_hard_pairs p q \<Longrightarrow> \<not> same_colour c k"
    "\<And>i j. i \<in> pool_set (built p) q \<Longrightarrow> j \<in> pool_set (built p) q \<Longrightarrow>
      same_colour c (i, j) \<Longrightarrow> overlap (built p) i (A ! i) j (A ! j)"
  shows "\<exists>w. colour_cost p q c = Some w \<and> w \<le> saturated (soft_cost (built p) (pool_set (built p) q) A)"
proof -
  let ?D = "pool_set (built p) q"
  have "(\<Sum>e\<leftarrow>soft_weights (built p). if fst (fst e) \<in> ?D \<and> snd (fst e) \<in> ?D \<and> same_colour c (fst e) then unat (snd e) else 0)
      \<le> soft_cost (built p) ?D A"
    unfolding soft_cost_def by (rule sum_list_mono) (use assms(2) in \<open>auto simp: entry_cost_def split: prod.splits\<close>)
  then show ?thesis
    using assms(1) saturated_mono by (auto simp: pool_potentials(2) set_PoolNodes)
qed

lemma colour_cost_exact:
  assumes "\<And>k. k \<in> pool_hard_pairs p q \<Longrightarrow> \<not> same_colour c k"
    "\<And>i j. i \<in> pool_set (built p) q \<Longrightarrow> j \<in> pool_set (built p) q \<Longrightarrow>
      same_colour c (i, j) \<longleftrightarrow> overlap (built p) i (A ! i) j (A ! j)"
  shows "colour_cost p q c = Some (saturated (soft_cost (built p) (pool_set (built p) q) A))"
proof -
  let ?D = "pool_set (built p) q"
  have "(\<Sum>e\<leftarrow>soft_weights (built p). if fst (fst e) \<in> ?D \<and> snd (fst e) \<in> ?D \<and> same_colour c (fst e) then unat (snd e) else 0)
      = soft_cost (built p) ?D A"
    unfolding soft_cost_def by (intro arg_cong [of _ _ sum_list] map_cong refl)
      (use assms(2) in \<open>auto simp: entry_cost_def split: prod.splits\<close>)
  then show ?thesis using assms(1) by (simp add: pool_potentials(2) set_PoolNodes) 
qed

lemma legal_colours:
  assumes u: "unit_pool p pool cap unit" and legal: "legal_in p (pool_id pool) A"
  defines "q \<equiv> pool_id pool"
  defines "c \<equiv> offset_colour p q unit A"
  shows "v \<in> pool_set (built p) q \<Longrightarrow> c v < unat cap div unat unit"
    "k \<in> pool_hard_pairs p q \<Longrightarrow> \<not> same_colour c k"
    "\<exists>w. colour_cost p q c = Some w \<and> w \<le> saturated (soft_cost (built p) (pool_set (built p) q) A)"
proof -
  note f = unit_poolD [OF u]
  have fits: "unat (A ! i) + unat unit \<le> unat cap" if i: "i \<in> pool_set (built p) q" for i
  proof -
    have "i < node_count (built p)" using i by (simp add: pool_set_def)
    from built.legalD(2) [OF legal i [unfolded q_def] this] show ?thesis
      using unit_pool_fits [OF u] i by (simp add: q_def)
  qed
  then show "c v < unat cap div unat unit" if "v \<in> pool_set (built p) q"
    using div_less_fit [OF f(4) fits] that
    by (simp add: c_def offset_colour_def)
  have over: "overlap (built p) i (A ! i) j (A ! j)"
    if ij: "i \<in> pool_set (built p) q" "j \<in> pool_set (built p) q" "same_colour c (i, j)" for i j
  proof -
    have "unat (A ! i) div unat unit = unat (A ! j) div unat unit"
      using ij by (simp add: same_colour_def c_def offset_colour_def)
    from same_div_near [OF f(4) this] same_div_near [OF f(4) this [symmetric]] show ?thesis
      using unit_pool_overlap [OF u ij(1,2) [unfolded q_def]] fits ij(1,2) by blast
  qed
  show hard: "\<not> same_colour c k" if k: "k \<in> pool_hard_pairs p q" for k
  proof
    obtain i j where ij: "k = (i, j)" "i \<in> pool_set (built p) q" "j \<in> pool_set (built p) q"
      "j \<in> set (hard_neighbors (built p) ! i)" using k by (auto simp: pool_hard_pairs_def)
    assume "same_colour c k"
    then have "overlap (built p) i (A ! i) j (A ! j)" using over ij by blast
    moreover have "i < node_count (built p)" "node_pool (node_at (built p) i) = node_pool (node_at (built p) j)"
      using ij(2,3) by (simp_all add: pool_set_def)
    ultimately show False
      using built.legalD(3) [OF legal ij(2) [unfolded q_def] _ ij(4) ij(3) [unfolded q_def]] by simp
  qed
  show "\<exists>w. colour_cost p q c = Some w \<and> w \<le> saturated (soft_cost (built p) (pool_set (built p) q) A)"
    by (rule colour_cost_soft) (use hard over in blast)+
qed

text \<open>The colours that are used can be numbered from zero.\<close>

lemma rename_colours:
  assumes "finite D" "D \<noteq> {}" "\<And>v. v \<in> D \<Longrightarrow> c v < (K :: nat)"
  shows "\<exists>c'. colouring n (min K (card D)) c' \<and> (\<forall>i\<in>D. \<forall>j\<in>D. same_colour c' (i, j) \<longleftrightarrow> same_colour c (i, j))"
proof -
  have fin: "finite (c ` D)" using assms(1) by simp
  from ex_bij_betw_finite_nat [OF fin] obtain h where h: "bij_betw h (c ` D) {0..<card (c ` D)}" by blast
  have "card (c ` D) \<le> card {..<K}" by (rule card_mono) (use assms(3) in auto)
  moreover have "card (c ` D) \<le> card D" by (rule card_image_le [OF assms(1)])
  ultimately have bound: "card (c ` D) \<le> min K (card D)" by simp
  have pos: "0 < card (c ` D)" using assms(1,2) by (simp add: card_gt_0_iff)
  let ?c = "\<lambda>v. if v \<in> D then h (c v) else 0"
  have "?c v < card (c ` D)" for v
    using pos bij_betw_imp_surj_on [OF h] by (cases "v \<in> D") (simp, metis atLeastLessThan_iff imageI, simp)
  then have "colouring n (min K (card D)) ?c"
    unfolding colouring_def using bound order.strict_trans2 by blast
  moreover have "same_colour ?c (i, j) \<longleftrightarrow> same_colour c (i, j)" if "i \<in> D" "j \<in> D" for i j
    using inj_on_eq_iff [OF bij_betw_imp_inj_on [OF h], of "c i" "c j"] that by (simp add: same_colour_def)
  ultimately show ?thesis by blast
qed


section \<open>Offsets of a colouring\<close>

definition colour_offsets :: "nat \<Rightarrow> nat list \<Rightarrow> u64 \<Rightarrow> nat list \<Rightarrow> u64 list" where
  "colour_offsets n ns unit cs = foldl (\<lambda>offsets node. offsets[node := of_nat (cs ! node) * unit]) (replicate n 0) ns"

lemma colour_offsets_nth:
  "length (colour_offsets n ns unit cs) = n"
  "v < n \<Longrightarrow> colour_offsets n ns unit cs ! v = (if v \<in> set ns then of_nat (cs ! v) * unit else 0)"
proof -
  have "length (foldl (\<lambda>offsets node. offsets[node := f node]) A ns) = length A \<and>
      (v < length A \<longrightarrow> foldl (\<lambda>offsets node. offsets[node := f node]) A ns ! v = (if v \<in> set ns then f v else A ! v))"
    for f :: "nat \<Rightarrow> u64" and A v
    by (induction ns arbitrary: A) (auto simp: nth_list_update)
  from this [of "\<lambda>node. of_nat (cs ! node) * unit" "replicate n 0" v]
  show "length (colour_offsets n ns unit cs) = n"
    "v < n \<Longrightarrow> colour_offsets n ns unit cs ! v = (if v \<in> set ns then of_nat (cs ! v) * unit else 0)"
    by (simp_all add: colour_offsets_def)
qed

lemma colours_legal:
  assumes u: "unit_pool p pool cap unit"
    and cs: "\<And>v. v \<in> pool_set (built p) (pool_id pool) \<Longrightarrow> cs ! v < unat cap div unat unit"
    and hard: "\<And>k. k \<in> pool_hard_pairs p (pool_id pool) \<Longrightarrow> \<not> same_colour (\<lambda>v. cs ! v) k"
  defines "q \<equiv> pool_id pool"
  defines "B \<equiv> colour_offsets (node_count (built p)) (PoolNodes (built p) q) unit cs"
  shows "legal_in p q B"
    "colour_cost p q (\<lambda>v. cs ! v) = Some (saturated (soft_cost (built p) (pool_set (built p) q) B))"
proof -
  note f = unit_poolD [OF u]
  have less: "v < node_count (built p)" if "v \<in> pool_set (built p) q" for v using that by (simp add: pool_set_def)
  have room: "cs ! v * unat unit + unat unit \<le> unat cap" if v: "v \<in> pool_set (built p) q" for v
  proof -
    have "Suc (cs ! v) \<le> unat cap div unat unit" using cs v by (simp add: q_def Suc_le_eq)
    then have "Suc (cs ! v) * unat unit \<le> unat cap div unat unit * unat unit" by (rule mult_le_mono1)
    then have "cs ! v * unat unit + unat unit \<le> unat cap div unat unit * unat unit" by simp
    then show ?thesis using f(5) by (rule order_trans)
  qed
  have at: "unat (B ! v) = cs ! v * unat unit" if v: "v \<in> pool_set (built p) q" for v
  proof -
    have "cs ! v * unat unit < 18446744073709551616" using room [OF v] unat_u64_less [of cap] by linarith
    moreover have "cs ! v \<le> cs ! v * unat unit" using f(4) by simp
    ultimately have "cs ! v < 18446744073709551616" by linarith
    then have small: "unat (of_nat (cs ! v) :: u64) = cs ! v" by (simp add: unat_of_nat)
    have "unat (of_nat (cs ! v) * unit) = cs ! v * unat unit"
      using \<open>cs ! v * unat unit < _\<close> by (simp add: unat_word_ariths small)
    then show ?thesis using v less [OF v] by (simp add: B_def colour_offsets_nth set_PoolNodes)
  qed
  have fits: "unat (B ! v) + unat unit \<le> unat cap" if "v \<in> pool_set (built p) q" for v
    using at [OF that] room [OF that] by simp
  have over: "overlap (built p) i (B ! i) j (B ! j) \<longleftrightarrow> cs ! i = cs ! j"
    if ij: "i \<in> pool_set (built p) q" "j \<in> pool_set (built p) q" for i j
  proof -
    have near: "a * unat unit < b * unat unit + unat unit \<longleftrightarrow> a \<le> b" for a b
      using f(4) mult_less_cancel2 [of a "unat unit" "Suc b"] by (simp add: add.commute less_Suc_eq_le)
    show ?thesis
      unfolding unit_pool_overlap [OF u ij [unfolded q_def] fits [OF ij(1)] fits [OF ij(2)]] at [OF ij(1)] at [OF ij(2)] near
      by auto
  qed
  show "legal_in p q B"
  proof (rule built.legalI)
    show "length B = node_count (built p)" by (simp add: B_def colour_offsets_nth)
    show "\<forall>i\<in>pool_set (built p) q. i < node_count (built p)" using less by blast
    show "aligned_to (node_alignment (node_at (built p) i)) (B ! i) \<and> pool_fits p (built p) i (B ! i)"
      if "i \<in> pool_set (built p) q" for i
      using f(7) unit_pool_fits [OF u] at fits that by (simp add: aligned_to_def q_def)
    fix i j
    assume ij: "i \<in> pool_set (built p) q" "j \<in> pool_set (built p) q" "j \<in> set (hard_neighbors (built p) ! i)"
    have "i \<in> set (hard_neighbors (built p) ! j)" "i \<noteq> j"
      using built.hard_sym [OF less [OF ij(1)] ij(3)] built.hard_less [OF less [OF ij(1)] ij(3)] by auto
    then have "(i, j) \<in> pool_hard_pairs p q \<or> (j, i) \<in> pool_hard_pairs p q"
      using ij by (auto simp: pool_hard_pairs_def)
    then have "cs ! i \<noteq> cs ! j" using hard by (fastforce simp: q_def same_colour_def)
    then show "\<not> overlap (built p) i (B ! i) j (B ! j)" using over ij by blast
  qed
  show "colour_cost p q (\<lambda>v. cs ! v) = Some (saturated (soft_cost (built p) (pool_set (built p) q) B))"
    by (rule colour_cost_exact) (use hard over in \<open>auto simp: q_def same_colour_def\<close>)
qed


section \<open>Solving a pool\<close>

lemma node_count_buffers: "node_count (built p) \<le> length (buffers p)"
proof -
  have "node_representative n \<in> buf_id ` set (buffers p)" if n: "n \<in> set (search_nodes (built p))" for n
  proof -
    obtain i where i: "i < node_count (built p)" "n = node_at (built p) i" using n unfolding in_set_conv_nth by blast
    obtain b where "b \<in> node_class p i" "buf_id b = node_representative n"
      using node_representative_member [OF i(1)] i(2) by blast
    then show ?thesis using node_class_facts(1) [OF i(1)] by (metis imageI subsetD)
  qed
  then have "set (map node_representative (search_nodes (built p))) \<subseteq> buf_id ` set (buffers p)" by auto
  from card_mono [OF _ this] have "node_count (built p) \<le> card (buf_id ` set (buffers p))"
    using distinct_card [OF built_representatives [of p]] by simp
  also have "\<dots> \<le> length (buffers p)" by (metis card_length length_map set_map)
  finally show ?thesis .
qed

lemma node_count_small: "node_count (built p) \<le> 4294967296"
proof -
  have "card (set (map node_representative (search_nodes (built p)))) \<le> card (UNIV :: u32 set)"
    by (rule card_mono) simp_all
  then show ?thesis using distinct_card [OF built_representatives [of p]] by (simp add: card_word)
qed

abbreviation pool_colours :: "DsaProblem \<Rightarrow> Pool \<Rightarrow> u64 \<Rightarrow> u64 \<Rightarrow> u64" where
  "pool_colours p pool cap unit \<equiv> min (cap div unit) (of_nat (length (PoolNodes (built p) (pool_id pool))))"

lemma pool_colours_unat:
  "unat (pool_colours p pool cap unit) =
   min (unat cap div unat unit) (card (pool_set (built p) (pool_id pool)))"
proof -
  let ?ns = "PoolNodes (built p) (pool_id pool)"
  have "length ?ns \<le> node_count (built p)" by (simp add: PoolNodes_def) (metis length_filter_le length_upt diff_zero)
  then have "length ?ns < 18446744073709551616" using node_count_small [of p] by linarith
  then have "unat (of_nat (length ?ns) :: u64) = length ?ns" by (simp add: unat_of_nat)
  moreover have "length ?ns = card (pool_set (built p) (pool_id pool))"
    using distinct_card [OF set_PoolNodes(2)] by (simp add: set_PoolNodes(1))
  ultimately show ?thesis
    by (simp add: min_def word_le_nat_alt unat_div)
qed

lemma SolvePool_refused:
  assumes ns: "PoolNodes search (pool_id pool) = ns"
  obtains (unsupported) "pd_status (SolvePool search pool options) = kUnsupported"
    | (empty) "ns = []" "SolvePool search pool options = pool_dp_failed kFeasible [] (replicate (node_count search) 0)"
    | (uniform) cap unit colors where "capacity pool = Some cap" "reserved_ranges pool = []" "ns \<noteq> []"
        "uniform_unit search ns unit" "unit \<noteq> 0" "cap mod unit = 0" "colors = min (cap div unit) (of_nat (length ns))"
        "SolvePool search pool options =
          (if colors = 0 \<or> 4294967295 < colors
           then pool_dp_failed kInfeasibleProven ''treewidth_partition_dp has no representable address colors''
                  (replicate (node_count search) 0)
           else solve_colours search ns unit colors options)"
proof (cases "capacity pool = None \<or> reserved_ranges pool \<noteq> [] \<or> ns = []")
  case True
  then have "pd_status (SolvePool search pool options) = kUnsupported \<or> ns = [] \<and>
      SolvePool search pool options = pool_dp_failed kFeasible [] (replicate (node_count search) 0)"
    unfolding SolvePool_def ns pool_dp_failed_def by (auto split: option.splits)
  then show thesis using unsupported empty by blast
next
  case False
  then obtain cap where cap: "capacity pool = Some cap" by auto
  have free: "reserved_ranges pool = []" "ns \<noteq> []" "(case ns of [] \<Rightarrow> x | front # _ \<Rightarrow> f front) = f (hd ns)" for x f
    using False by (simp_all split: list.splits)
  let ?unit = "node_size (node_at search (hd ns))"
  show thesis
  proof (cases "uniform_unit search ns ?unit \<and> ?unit \<noteq> 0 \<and> cap mod ?unit = 0")
    case True
    then have "SolvePool search pool options =
        (let colors = min (cap div ?unit) (of_nat (length ns)) in
         if colors = 0 \<or> 4294967295 < colors
         then pool_dp_failed kInfeasibleProven ''treewidth_partition_dp has no representable address colors''
                (replicate (node_count search) 0)
         else solve_colours search ns ?unit colors options)"
      unfolding SolvePool_def ns cap Let_def option.case free by simp
    from uniform [OF cap free(1,2) _ _ _ refl this [unfolded Let_def]] True show thesis by blast
  next
    case False
    then have "pd_status (SolvePool search pool options) = kUnsupported"
      unfolding SolvePool_def ns cap Let_def option.case free pool_dp_failed_def by auto
    then show thesis by (rule unsupported)
  qed
qed

text \<open>A pool is refused, has nothing to place, has no colours, or is decided by the dynamic program.\<close>

lemma SolvePool_cases:
  fixes options :: TreewidthPartitionDpOptions
  assumes find: "FindPool p (pool_id pool) = Some pool"
  defines "ns \<equiv> PoolNodes (built p) (pool_id pool)" and "r \<equiv> SolvePool (built p) pool options"
  obtains (unsupported) "pd_status r = kUnsupported"
    | (empty) "ns = []" "r = pool_dp_failed kFeasible [] (replicate (node_count (built p)) 0)"
    | (colourless) cap unit where "unit_pool p pool cap unit" "ns \<noteq> []" "pd_status r = kInfeasibleProven"
        "pool_colours p pool cap unit = 0 \<or> 4294967295 < pool_colours p pool cap unit"
    | (run) cap unit where "unit_pool p pool cap unit" "ns \<noteq> []" "0 < unat (pool_colours p pool cap unit)"
        "r = solve_colours (built p) ns unit (pool_colours p pool cap unit) options"
proof (cases rule: SolvePool_refused [of "built p" pool ns options, OF ns_def [symmetric, THEN meta_eq_to_obj_eq]])
  case 1
  then show thesis using unsupported by (simp add: r_def)
next
  case 2
  then show thesis using empty by (simp add: r_def)
next
  case (3 cap unit colors)
  have u: "unit_pool p pool cap unit"
    using find 3(1-6) by (auto simp: unit_pool_def uniform_unit_def list_all_iff ns_def set_PoolNodes)
  have colors: "colors = pool_colours p pool cap unit" using 3(7) by (simp add: ns_def)
  show thesis
  proof (cases "colors = 0 \<or> 4294967295 < colors")
    case True
    then have "r = pool_dp_failed kInfeasibleProven ''treewidth_partition_dp has no representable address colors''
        (replicate (node_count (built p)) 0)"
      using 3(8) unfolding r_def by (simp only: if_True)
    then have "pd_status r = kInfeasibleProven" by (simp add: pool_dp_failed_def)
    then show thesis using colourless [OF u 3(3)] True unfolding colors by simp
  next
    case False
    then have "r = solve_colours (built p) ns unit colors options" using 3(8) unfolding r_def by (simp only: if_False)
    moreover have "colors \<noteq> 0" using False by blast
    then have "0 < unat colors" using unat_gt_0 by blast
    ultimately show thesis using run [OF u 3(3)] unfolding colors by simp
  qed
qed


text \<open>What the dynamic program answers for a pool.\<close>

definition pool_solved :: "DsaProblem \<Rightarrow> PoolId \<Rightarrow> PoolDpResult \<Rightarrow> bool" where
  "pool_solved p q r \<longleftrightarrow>
     legal_in p q (pd_offsets r) \<and>
     pd_reuse_cost r = saturated (soft_cost (built p) (pool_set (built p) q) (pd_offsets r)) \<and>
     (\<forall>A. legal_in p q A \<longrightarrow> pd_reuse_cost r \<le> saturated (soft_cost (built p) (pool_set (built p) q) A))"

lemma legal_colouring:
  assumes u: "unit_pool p pool cap unit" and legal: "legal_in p (pool_id pool) A"
    and ne: "pool_set (built p) (pool_id pool) \<noteq> {}"
  shows "\<exists>c w. colouring n (unat (pool_colours p pool cap unit)) c \<and> colour_cost p (pool_id pool) c = Some w \<and>
    w \<le> saturated (soft_cost (built p) (pool_set (built p) (pool_id pool)) A)"
proof -
  let ?D = "pool_set (built p) (pool_id pool)"
  let ?c = "offset_colour p (pool_id pool) unit A"
  have "finite ?D" using set_PoolNodes(1) [of "built p" "pool_id pool"] by (metis List.finite_set)
  note fin = this
  have "?c v < unat cap div unat unit" if "v \<in> ?D" for v by (rule legal_colours(1) [OF u legal that])
  from rename_colours [of ?D ?c, OF fin ne this, where n = n] obtain c where
    c: "colouring n (unat (pool_colours p pool cap unit)) c"
      "\<forall>i\<in>?D. \<forall>j\<in>?D. same_colour c (i, j) \<longleftrightarrow> same_colour ?c (i, j)"
    unfolding pool_colours_unat by blast
  have pair: "same_colour c k \<longleftrightarrow> same_colour ?c k" if "fst k \<in> ?D" "snd k \<in> ?D" for k
    using c(2) that by (cases k) simp
  then have hard: "(\<exists>k\<in>pool_hard_pairs p (pool_id pool). same_colour c k) \<longleftrightarrow>
      (\<exists>k\<in>pool_hard_pairs p (pool_id pool). same_colour ?c k)"
    by (intro bex_cong refl) (auto simp: pool_hard_pairs_def)
  have "colour_cost p (pool_id pool) c = colour_cost p (pool_id pool) ?c"
    unfolding pool_potentials(2) hard set_PoolNodes
    by (rule if_cong [OF refl refl], intro arg_cong [of _ _ "\<lambda>w. Some (saturated w)"] arg_cong [of _ _ sum_list] map_cong refl
          if_cong conj_cong) (use pair in blast)
  then show ?thesis using c(1) legal_colours(3) [OF u legal] by auto
qed

lemma solve_colours_exact:
  fixes options :: TreewidthPartitionDpOptions
  assumes u: "unit_pool p pool cap unit" and ne: "pool_set (built p) (pool_id pool) \<noteq> {}"
    and pos: "0 < unat (pool_colours p pool cap unit)"
  defines "r \<equiv> solve_colours (built p) (PoolNodes (built p) (pool_id pool)) unit (pool_colours p pool cap unit) options"
  shows "pd_status r = kFeasible \<Longrightarrow> pool_solved p (pool_id pool) r"
    "pd_status r = kInfeasibleProven \<Longrightarrow> \<not> legal_in p (pool_id pool) A"
    "pd_status r \<in> {kFeasible, kInfeasibleProven, kUnsupported}"
proof -
  let ?q = "pool_id pool" and ?ns = "PoolNodes (built p) (pool_id pool)" and ?n = "node_count (built p)"
  let ?m = "BuildPotentials (built p) ?ns" and ?colors = "unat (pool_colours p pool cap unit)"
  let ?order = "MinFillOrder (built p) ?ns ?m"
  have "pd_status r = kUnsupported \<or> (pd_status r = kFeasible \<longrightarrow> pool_solved p ?q r) \<and>
      (pd_status r = kInfeasibleProven \<longrightarrow> \<not> legal_in p ?q A) \<and> pd_status r \<in> {kFeasible, kInfeasibleProven}"
  proof (cases "run_pool_dp options ?n ?colors (eo_variables ?order) ?m")
    case (Inl message)
    then show ?thesis by (simp add: r_def solve_colours_def pool_dp_failed_def Let_def)
  next
    case (Inr st)
    note order = MinFillOrder_variables [OF set_PoolNodes(2) [of "built p" ?q], of "built p" ?m]
    have vars: "set (eo_variables ?order) \<subseteq> {..<?n}" unfolding order(2) set_PoolNodes by (auto simp: pool_set_def)
    have ps: "\<forall>(k, v)\<in>set ?m. fst k \<in> set (eo_variables ?order) \<and> snd k \<in> set (eo_variables ?order)"
      using pool_potentials(1) [of p ?q] order(2) by simp
    have r: "pd_status r = kUnsupported \<or> r = finish_pool (built p) ?ns unit ?colors (eo_width ?order) st"
      using Inr by (auto simp: r_def solve_colours_def pool_dp_failed_def Let_def)
    show ?thesis
    proof (cases rule: run_pool_dp_exact [OF Inr order(1) vars ps pos])
      case 1
      have "\<not> legal_in p ?q A" using legal_colouring [OF u _ ne, of A ?n] 1(2) by fastforce
      moreover have "pd_status (finish_pool (built p) ?ns unit ?colors (eo_width ?order) st) = kInfeasibleProven"
        by (simp add: finish_pool_def 1(1) pool_dp_failed_def)
      ultimately show ?thesis using r by auto
    next
      case (2 w cs)
      let ?B = "colour_offsets ?n ?ns unit cs"
      have fin: "pd_status (finish_pool (built p) ?ns unit ?colors (eo_width ?order) st) = kFeasible"
        "pd_offsets (finish_pool (built p) ?ns unit ?colors (eo_width ?order) st) = ?B"
        "pd_reuse_cost (finish_pool (built p) ?ns unit ?colors (eo_width ?order) st) = w"
        by (simp_all add: finish_pool_def 2(1,2) pool_dp_failed_def colour_offsets_def)
      have cs: "cs ! v < unat cap div unat unit" if "v \<in> pool_set (built p) ?q" for v
        using 2(4) that pool_colours_unat [of cap unit p pool] by (simp add: colouring_def pool_set_def)
      have hard: "\<not> same_colour (\<lambda>v. cs ! v) k" if "k \<in> pool_hard_pairs p ?q" for k
        using 2(5) that unfolding pool_potentials(2) by (auto split: if_splits)
      note B = colours_legal [OF u cs hard]
      have w: "w = saturated (soft_cost (built p) (pool_set (built p) ?q) ?B)" using B(2) 2(5) by simp
      have least: "w \<le> saturated (soft_cost (built p) (pool_set (built p) ?q) A)" if A: "legal_in p ?q A" for A
      proof -
        obtain c w' where c: "colouring ?n ?colors c" "colour_cost p ?q c = Some w'"
          "w' \<le> saturated (soft_cost (built p) (pool_set (built p) ?q) A)"
          using legal_colouring [OF u A ne] by blast
        have "w \<le> w'" using 2(6) [OF c(1)] c(2) by simp
        then show ?thesis using c(3) by (rule order_trans)
      qed
      show ?thesis
        using r fin B(1) w least by (auto simp: pool_solved_def)
    qed
  qed
  then show "pd_status r = kFeasible \<Longrightarrow> pool_solved p ?q r" "pd_status r = kInfeasibleProven \<Longrightarrow> \<not> legal_in p ?q A"
    "pd_status r \<in> {kFeasible, kInfeasibleProven, kUnsupported}" by auto
qed

end
