(* ===== verification/Treewidth_Solver_Spec.thy ===== *)
theory Treewidth_Solver_Spec
  imports Treewidth_Spec Exact_Spec
begin

text \<open>
  The treewidth solver over the pools of a problem: the pools are solved one after the other, so the
  offsets it returns are a valid solution of least reuse cost, and a proof of infeasibility is one.
\<close>

section \<open>One pool\<close>

lemma SolvePool_exact:
  assumes find: "FindPool p (pool_id pool) = Some pool"
  shows "pd_status (SolvePool (built p) pool options) = kFeasible \<Longrightarrow>
      pool_solved p (pool_id pool) (SolvePool (built p) pool options)"
    "pd_status (SolvePool (built p) pool options) = kInfeasibleProven \<Longrightarrow> length (buffers p) < 4294967296 \<Longrightarrow>
      \<not> legal_in p (pool_id pool) A"
    "pd_status (SolvePool (built p) pool options) \<in> {kFeasible, kInfeasibleProven, kUnsupported}"
proof -
  let ?r = "SolvePool (built p) pool options" and ?q = "pool_id pool" and ?ns = "PoolNodes (built p) (pool_id pool)"
  have ne: "?ns \<noteq> [] \<Longrightarrow> pool_set (built p) ?q \<noteq> {}" using set_PoolNodes(1) by (metis set_empty)
  have "(pd_status ?r = kFeasible \<longrightarrow> pool_solved p ?q ?r) \<and>
      (pd_status ?r = kInfeasibleProven \<longrightarrow> length (buffers p) < 4294967296 \<longrightarrow> \<not> legal_in p ?q A) \<and>
      pd_status ?r \<in> {kFeasible, kInfeasibleProven, kUnsupported}"
  proof (cases rule: SolvePool_cases [OF find, of options])
    case 2
    have D: "pool_set (built p) ?q = {}" using 2(1) set_PoolNodes(1) by (metis set_empty)
    have zero: "soft_cost (built p) {} B = 0" for B by (simp add: soft_cost_def entry_cost_def split_beta)
    have "legal_in p ?q (replicate (node_count (built p)) 0)"
      using no_nodes_best [OF D] by (simp add: best_in_def)
    then show ?thesis using D by (simp add: 2(2) pool_solved_def pool_dp_failed_def zero)
  next
    case (3 cap unit)
    have "\<not> legal_in p ?q A" if small: "length (buffers p) < 4294967296"
    proof
      assume legal: "legal_in p ?q A"
      have fin: "finite (pool_set (built p) ?q)" using set_PoolNodes(1) by (metis List.finite_set)
      note D = fin ne [OF 3(2)]
      have "card (pool_set (built p) ?q) \<le> card {..<node_count (built p)}"
        by (rule card_mono) (auto simp: pool_set_def)
      then have card: "card (pool_set (built p) ?q) < 4294967296" using node_count_buffers [of p] small by simp
      define k where "k = pool_colours p pool cap unit"
      have k: "unat k = min (unat cap div unat unit) (card (pool_set (built p) ?q))"
        unfolding k_def by (rule pool_colours_unat)
      then have "\<not> 4294967295 < k" using card by (simp add: word_less_nat_alt)
      then have "k = 0" using 3(4) unfolding k_def by blast
      then have "min (unat cap div unat unit) (card (pool_set (built p) ?q)) = 0" using k by simp
      moreover have "0 < card (pool_set (built p) ?q)" using D by (simp add: card_gt_0_iff)
      ultimately have "unat cap div unat unit = 0" by simp
      then show False using legal_colours(1) [OF 3(1) legal] D(2) by fastforce
    qed
    then show ?thesis using 3(3) by simp
  next
    case (4 cap unit)
    note exact = solve_colours_exact [OF 4(1) ne [OF 4(2)] 4(3), where options = options]
    show ?thesis unfolding 4(4) using exact by blast
  qed simp
  then show "pd_status ?r = kFeasible \<Longrightarrow> pool_solved p ?q ?r"
    "pd_status ?r = kInfeasibleProven \<Longrightarrow> length (buffers p) < 4294967296 \<Longrightarrow> \<not> legal_in p ?q A"
    "pd_status ?r \<in> {kFeasible, kInfeasibleProven, kUnsupported}" by blast+
qed

section \<open>The loop over the pools\<close>

lemma take_dp_offsets_pool_offsets: "take_dp_offsets = take_pool_offsets"
  by (intro ext) (simp add: take_dp_offsets_def take_pool_offsets_def)

definition cheapest_in :: "DsaProblem \<Rightarrow> PoolId \<Rightarrow> u64 list \<Rightarrow> bool" where
  "cheapest_in p q B \<longleftrightarrow> legal_in p q B \<and>
     (\<forall>A. legal_in p q A \<longrightarrow>
        saturated (soft_cost (built p) (pool_set (built p) q) B) \<le> saturated (soft_cost (built p) (pool_set (built p) q) A))"

lemma soft_cost_cong_pool:
  assumes "\<And>i. i < node_count (built p) \<Longrightarrow> node_pool (node_at (built p) i) = q \<Longrightarrow> B ! i = A ! i"
  shows "soft_cost (built p) (pool_set (built p) q) B = soft_cost (built p) (pool_set (built p) q) A"
  by (rule built.soft_cost_cong) (use assms in \<open>simp add: pool_set_def\<close>)

lemma cheapest_in_cong:
  assumes "length A = node_count (built p)" "length B = node_count (built p)"
    "\<And>i. i < node_count (built p) \<Longrightarrow> node_pool (node_at (built p) i) = q \<Longrightarrow> B ! i = A ! i"
  shows "cheapest_in p q A \<Longrightarrow> cheapest_in p q B"
  unfolding cheapest_in_def using legal_in_cong [OF _ assms(2,3)] soft_cost_cong_pool [OF assms(3)] by metis

lemma solve_pools_outcome:
  assumes "distinct (map pool_id qs)" "\<forall>pool\<in>set qs. FindPool p (pool_id pool) = Some pool"
    "length (ts_offsets st) = node_count (built p)"
  shows "(\<forall>r. solve_pools (built p) options qs st = Inl r \<longrightarrow> pd_status r \<in> {kInfeasibleProven, kUnsupported} \<and>
      (pd_status r = kInfeasibleProven \<longrightarrow> length (buffers p) < 4294967296 \<longrightarrow> (\<exists>pool\<in>set qs. \<forall>A. \<not> legal_in p (pool_id pool) A))) \<and>
    (\<forall>st'. solve_pools (built p) options qs st = Inr st' \<longrightarrow>
      keeps p (pool_id ` set qs) (ts_offsets st) (ts_offsets st') \<and>
      (\<forall>q\<in>pool_id ` set qs. cheapest_in p q (ts_offsets st')) \<and>
      ts_cost st' = SaturatingAdd (ts_cost st)
        (saturated (\<Sum>pool\<leftarrow>qs. soft_cost (built p) (pool_set (built p) (pool_id pool)) (ts_offsets st'))))"
  using assms
proof (induction qs arbitrary: st)
  case Nil
  then show ?case by (simp add: keeps_def)
next
  case (Cons pool qs)
  let ?r = "SolvePool (built p) pool options" and ?q = "pool_id pool"
  have find: "FindPool p ?q = Some pool" using Cons.prems(2) by simp
  note one = SolvePool_exact [OF find, of options]
  show ?case
  proof (cases "pd_status ?r = kFeasible")
    case False
    then have "solve_pools (built p) options (pool # qs) st = Inl ?r" by simp
    then show ?thesis using one(2,3) False by auto
  next
    case True
    let ?st = "\<lparr>ts_offsets = take_dp_offsets (built p) ?q (pd_offsets ?r) (ts_offsets st),
        ts_width = max (ts_width st) (pd_width ?r), ts_states = SaturatingAdd (ts_states st) (pd_states ?r),
        ts_transitions = SaturatingAdd (ts_transitions st) (pd_transitions ?r),
        ts_cost = SaturatingAdd (ts_cost st) (pd_reuse_cost ?r)\<rparr>"
    have step: "solve_pools (built p) options (pool # qs) st = solve_pools (built p) options qs ?st"
      using True by (simp add: Let_def)
    have solved: "pool_solved p ?q ?r" by (rule one(1) [OF True])
    have len: "length (pd_offsets ?r) = node_count (built p)" using solved by (simp add: pool_solved_def legal_def)
    have take: "length (ts_offsets ?st) = node_count (built p)"
      "\<And>i. i < node_count (built p) \<Longrightarrow> ts_offsets ?st ! i =
        (if node_pool (node_at (built p) i) = ?q then pd_offsets ?r ! i else ts_offsets st ! i)"
      using Cons.prems(3) by (simp_all add: take_dp_offsets_pool_offsets take_pool_offsets_nth)
    have new: "?q \<notin> pool_id ` set qs" "distinct (map pool_id qs)" "\<forall>pool\<in>set qs. FindPool p (pool_id pool) = Some pool"
      using Cons.prems(1,2) by simp_all
    note IH = Cons.IH [OF new(2,3) take(1)]
    have rest: "keeps p (pool_id ` set (pool # qs)) (ts_offsets st) (ts_offsets st') \<and>
        (\<forall>q\<in>pool_id ` set (pool # qs). cheapest_in p q (ts_offsets st')) \<and>
        ts_cost st' = SaturatingAdd (ts_cost st)
          (saturated (\<Sum>pool\<leftarrow>pool # qs. soft_cost (built p) (pool_set (built p) (pool_id pool)) (ts_offsets st')))"
      if st': "solve_pools (built p) options qs ?st = Inr st'" for st'
    proof -
      have k: "keeps p (pool_id ` set qs) (ts_offsets ?st) (ts_offsets st')"
        and c: "\<forall>q\<in>pool_id ` set qs. cheapest_in p q (ts_offsets st')"
        and w: "ts_cost st' = SaturatingAdd (ts_cost ?st)
          (saturated (\<Sum>pool\<leftarrow>qs. soft_cost (built p) (pool_set (built p) (pool_id pool)) (ts_offsets st')))"
        using IH st' by blast+
      have here: "ts_offsets st' ! i = pd_offsets ?r ! i"
        if "i < node_count (built p)" "node_pool (node_at (built p) i) = ?q" for i
        using k new(1) that take(2) by (simp add: keeps_def)
      have "cheapest_in p ?q (pd_offsets ?r)" 
        using solved unfolding pool_solved_def cheapest_in_def by metis
      then have "cheapest_in p ?q (ts_offsets st')"
        using cheapest_in_cong [OF len _ here] k take(1) by (simp add: keeps_def)
      moreover have same: "soft_cost (built p) (pool_set (built p) ?q) (ts_offsets st') =
          soft_cost (built p) (pool_set (built p) ?q) (pd_offsets ?r)" by (rule soft_cost_cong_pool [OF here])
      have "pd_reuse_cost ?r = saturated (soft_cost (built p) (pool_set (built p) ?q) (ts_offsets st'))"
        using same solved unfolding pool_solved_def by metis
      moreover have "keeps p (pool_id ` set (pool # qs)) (ts_offsets st) (ts_offsets st')"
        using k take Cons.prems(3) by (simp add: keeps_def)
      ultimately show ?thesis using c w by (simp add: SaturatingAdd_assoc saturated_add)
    qed
    show ?thesis
      unfolding step
    proof (intro conjI allI impI)
      fix r
      assume "solve_pools (built p) options qs ?st = Inl r"
      note r = conjunct1 [OF IH, rule_format, OF this]
      then show "pd_status r \<in> {kInfeasibleProven, kUnsupported}" by blast
      assume "pd_status r = kInfeasibleProven" "length (buffers p) < 4294967296"
      then show "\<exists>pool\<in>set (pool # qs). \<forall>A. \<not> legal_in p (pool_id pool) A" using r by auto
    qed (use rest in blast)+
  qed
qed


section \<open>The solver\<close>

lemma length_set_intersection: "length (set_intersection xs ys) \<le> length xs"
  by (induction xs ys rule: set_intersection.induct) auto

lemma length_IntersectPools: "length (IntersectPools xs ys) \<le> length xs"
  unfolding IntersectPools_def using length_set_intersection [of "sort xs" "sort ys"] by simp

lemma single_pools_rigid:
  assumes "\<forall>b\<in>set (buffers p). length (allowed_pools b) \<le> 1"
  shows "\<not> flexible_pools (Prepare p)"
proof -
  have supers: "(\<forall>s\<in>set ss. length (sb_allowed_pools s) \<le> 1) \<Longrightarrow> (\<forall>i\<in>set is. i < length (buffers p)) \<Longrightarrow>
      (\<forall>s\<in>set (fst (prepare_supers p is sets r2s ss errors)). length (sb_allowed_pools s) \<le> 1)" for "is" sets r2s ss errors
  proof (induction "is" arbitrary: sets r2s ss errors)
    case (Cons i rest)
    let ?root = "fst (ds_find sets i)" and ?b = "buffers p ! i"
    let ?new = "r2s ?root = None" and ?r2s = "um_emplace r2s ?root (length ss)"
    let ?ss = "if ?new then ss @ [new_super ?root ?b] else ss"
    let ?k = "the (?r2s ?root)"
    let ?absorbed = "absorb_member i ?b ?new (?ss ! ?k)"
    have "length (allowed_pools ?b) \<le> 1" using assms Cons.prems(2) by simp
    then have ss: "\<forall>s\<in>set ?ss. length (sb_allowed_pools s) \<le> 1" using Cons.prems(1) by (auto simp: new_super_def)
    have "length (sb_allowed_pools (fst ?absorbed)) \<le> length (sb_allowed_pools (?ss ! ?k))"
      using length_IntersectPools by (simp add: absorb_member_def Let_def)
    then have "?k < length ?ss \<Longrightarrow> length (sb_allowed_pools (fst ?absorbed)) \<le> 1"
      using ss nth_mem order_trans by blast
    then have "\<forall>s\<in>set (?ss[?k := fst ?absorbed]). length (sb_allowed_pools s) \<le> 1"
      using ss set_update_subset_insert [of ?ss ?k "fst ?absorbed"]
      by (cases "?k < length ?ss") (blast, metis list_update_beyond not_less)
    from Cons.IH [OF this] Cons.prems(2) show ?case by (simp add: Let_def split_beta)
  qed simp
  have "\<not> super_pools_flexible (fst (prepare_supers p [0..<length (buffers p)] sets Map.empty [] []))" for sets
    using supers [of "[]" "[0..<length (buffers p)]" sets Map.empty "[]"] by (auto simp: super_pools_flexible_def list_ex_iff)
  then show ?thesis
    unfolding Prepare_def Let_def split_beta by (simp split: if_splits)
qed


lemma treewidth_problem:
  assumes "Compatible (CheckSolverCompatibility p TreewidthCapabilities)"
  shows "pinned_allocations p = []" "\<forall>b\<in>set (buffers p). length (allowed_pools b) \<le> 1"
proof -
  have "StructurallyCompatible (CheckSolverCompatibility p TreewidthCapabilities)" using assms by (simp add: Compatible_def)
  then show "pinned_allocations p = []" "\<forall>b\<in>set (buffers p). length (allowed_pools b) \<le> 1"
    unfolding structural_compatibility by (auto simp: TreewidthCapabilities_def SolverCapabilities_default_def not_less)
qed

lemma objective_indices_None: "fst (objective_indices i ms r k) = None \<longleftrightarrow> r = None \<and> kReuseCost \<notin> set ms"
  by (induction i ms r k rule: objective_indices.induct) auto

lemma ObjectiveLimitation_reuse: "ObjectiveLimitation p = None \<Longrightarrow> kReuseCost \<in> set (terms (objective p))"
  using objective_indices_None [of 0 "terms (objective p)" None None]
  by (auto simp: ObjectiveLimitation_def split: prod.splits option.splits)

lemma rigid_errors: "space_errors (placement (built p)) = [] \<Longrightarrow> \<not> flexible_pools (Prepare p) \<Longrightarrow> searchable p"
  by (auto simp: searchable_def BuildReusePenaltySearchSpace_def BuildPlacementSearchSpace_def Let_def split: if_splits)

abbreviation treewidth_start :: "DsaProblem \<Rightarrow> TreewidthState" where
  "treewidth_start p \<equiv> \<lparr>ts_offsets = replicate (node_count (built p)) 0, ts_width = 0, ts_states = 0,
     ts_transitions = 0, ts_cost = 0\<rparr>"

text \<open>The solver refuses the problem, or it runs the loop over the pools of a searchable problem.\<close>

lemma TreewidthPartitionDp_cases:
  obtains (refused) "status (TreewidthPartitionDp_Solve options p) \<in> {kInvalidProblem, kUnsupported}"
    | (stopped) r where "searchable p" "pinned_allocations p = []"
        "solve_pools (built p) options (pools p) (treewidth_start p) = Inl r"
        "status (TreewidthPartitionDp_Solve options p) = pd_status r"
        "solution (TreewidthPartitionDp_Solve options p) = None"
    | (solved) st where "searchable p" "pinned_allocations p = []" "kReuseCost \<in> set (terms (objective p))"
        "solve_pools (built p) options (pools p) (treewidth_start p) = Inr st"
        "TreewidthPartitionDp_Solve options p = finish_treewidth p (built p) st"
proof (cases "Compatible (CheckSolverCompatibility p TreewidthCapabilities) \<and> ObjectiveLimitation p = None \<and>
    space_errors (placement (built p)) = []")
  case False
  then have "status (TreewidthPartitionDp_Solve options p) \<in> {kInvalidProblem, kUnsupported}"
    by (auto simp: TreewidthPartitionDp_Solve_def Let_def incompatible_result_def split: option.splits)
  then show thesis by (rule refused)
next
  case True
  then have pins: "pinned_allocations p = []" and sr: "searchable p"
    using treewidth_problem single_pools_rigid rigid_errors by blast+
  show thesis
  proof (cases "solve_pools (built p) options (pools p) (treewidth_start p)")
    case (Inl r)
    then show thesis using stopped [OF sr pins Inl] True
      by (simp add: TreewidthPartitionDp_Solve_def Let_def DsaResult_default_def)
  next
    case (Inr st)
    have "kReuseCost \<in> set (terms (objective p))" using True ObjectiveLimitation_reuse by blast
    then show thesis using solved [OF sr pins _ Inr] True Inr by (simp add: TreewidthPartitionDp_Solve_def Let_def)
  qed
qed

text \<open>After the loop the offsets are valid, cheapest, and the cost agrees with the objective.\<close>

lemma solved_answer:
  assumes sr: "searchable p" and pins: "pinned_allocations p = []"
    and run: "solve_pools (built p) options (pools p) (treewidth_start p) = Inr st"
  defines "s \<equiv> ExpandReuseNodeSolution (built p) (ts_offsets st)"
  shows "valid_solution p s" "reuse_cost (EvaluateObjective p s) = ts_cost st"
    "valid_solution p s' \<Longrightarrow> reuse_cost (EvaluateObjective p s) \<le> reuse_cost (EvaluateObjective p s')"
    "status (finish_treewidth p (built p) st) = kFeasible" "solution (finish_treewidth p (built p) st) = Some s"
    "res_objective (finish_treewidth p (built p) st) = EvaluateObjective p s"
proof -
  note wf = searchable_built(1) [OF sr]
  let ?B = "ts_offsets st"
  have find: "\<forall>pool\<in>set (pools p). FindPool p (pool_id pool) = Some pool"
    using FindPool_in_set [OF well_formedD(1) [OF wf]] by blast
  have "length (ts_offsets (treewidth_start p)) = node_count (built p)" by simp
  note loop = conjunct2 [OF solve_pools_outcome [OF well_formedD(1) [OF wf] find this], rule_format, OF run]
  have legal: "legal_in p q ?B" if "q \<in> pool_id ` set (pools p)" for q using loop that by (auto simp: cheapest_in_def)
  have len: "length ?B = node_count (built p)" using loop by (simp add: keeps_def)
  note built = BuildValidated_legal [OF sr pins, of ?B, folded s_def]
  show v: "valid_solution p s" by (rule built(2)) (use legal in blast)
  have offs: "offsets_of p s = ?B" unfolding s_def by (rule offsets_of_expand [OF len])
  have ids: "distinct (map pool_id (pools p))" "\<forall>i<node_count (built p). node_pool (node_at (built p) i) \<in> set (map pool_id (pools p))"
    using well_formedD(1) [OF wf] node_pool_known [OF pins] by simp_all
  have cost: "reuse_cost (EvaluateObjective p t) =
      saturated (\<Sum>pool\<leftarrow>pools p. soft_cost (built p) (pool_set (built p) (pool_id pool)) (offsets_of p t))"
    if "valid_solution p t" for t
    using reuse_cost_soft_cost [OF pins that sr] soft_cost_pools [OF ids, of "offsets_of p t"] by (simp add: comp_def)
  show agree: "reuse_cost (EvaluateObjective p s) = ts_cost st" using cost [OF v] loop by (simp add: offs)
  show "reuse_cost (EvaluateObjective p s) \<le> reuse_cost (EvaluateObjective p s')" if v': "valid_solution p s'"
  proof -
    have "saturated (soft_cost (built p) (pool_set (built p) (pool_id pool)) ?B)
        \<le> saturated (soft_cost (built p) (pool_set (built p) (pool_id pool)) (offsets_of p s'))"
      if "pool \<in> set (pools p)" for pool
      using loop that valid_legal [OF pins v', of "pool_id pool"] by (auto simp: cheapest_in_def)
    then have "list_all2 (\<lambda>x y. saturated (fst x) \<le> saturated (fst y)) (pool_values p s) (pool_values p s')"
      by (simp add: pool_values_def offs list_all2_conv_all_nth)
    from pools_cost_le [OF this] show ?thesis
      unfolding cost [OF v] cost [OF v'] by (simp add: pool_values_def comp_def)
  qed
  show "status (finish_treewidth p (built p) st) = kFeasible" "solution (finish_treewidth p (built p) st) = Some s"
    "res_objective (finish_treewidth p (built p) st) = EvaluateObjective p s"
    using built(1) legal agree by (simp_all add: finish_treewidth_def Let_def add_diagnostics_def)
qed


lemma treewidth_answer:
  "status (TreewidthPartitionDp_Solve options p) = kFeasible \<Longrightarrow>
   \<exists>s. solution (TreewidthPartitionDp_Solve options p) = Some s \<and> well_formed p \<and> kReuseCost \<in> set (terms (objective p)) \<and> valid_solution p s \<and>
     res_objective (TreewidthPartitionDp_Solve options p) = EvaluateObjective p s \<and>
     (\<forall>s'. valid_solution p s' \<longrightarrow> reuse_cost (EvaluateObjective p s) \<le> reuse_cost (EvaluateObjective p s'))"
  "status (TreewidthPartitionDp_Solve options p) = kInfeasibleProven \<Longrightarrow> length (buffers p) < 4294967296 \<Longrightarrow>
   \<not> valid_solution p s"
  "status (TreewidthPartitionDp_Solve options p) \<noteq> kTimeout"
proof -
  let ?r = "TreewidthPartitionDp_Solve options p"
  have loop: "pd_status r \<in> {kInfeasibleProven, kUnsupported} \<and>
      (pd_status r = kInfeasibleProven \<longrightarrow> length (buffers p) < 4294967296 \<longrightarrow> \<not> valid_solution p s)"
    if sr: "searchable p" and pins: "pinned_allocations p = []"
      and run: "solve_pools (built p) options (pools p) (treewidth_start p) = Inl r" for r
  proof -
    note wf = searchable_built(1) [OF sr]
    have find: "\<forall>pool\<in>set (pools p). FindPool p (pool_id pool) = Some pool"
      using FindPool_in_set [OF well_formedD(1) [OF wf]] by blast
    have "length (ts_offsets (treewidth_start p)) = node_count (built p)" by simp
    note out = conjunct1 [OF solve_pools_outcome [OF well_formedD(1) [OF wf] find this], rule_format, OF run]
    then show ?thesis using valid_legal [OF pins] by blast
  qed
  have "(status ?r = kFeasible \<longrightarrow> (\<exists>s. solution ?r = Some s \<and> well_formed p \<and> kReuseCost \<in> set (terms (objective p)) \<and> valid_solution p s \<and>
       res_objective ?r = EvaluateObjective p s \<and>
       (\<forall>s'. valid_solution p s' \<longrightarrow> reuse_cost (EvaluateObjective p s) \<le> reuse_cost (EvaluateObjective p s')))) \<and>
    (status ?r = kInfeasibleProven \<longrightarrow> length (buffers p) < 4294967296 \<longrightarrow> \<not> valid_solution p s) \<and> status ?r \<noteq> kTimeout"
  proof (cases rule: TreewidthPartitionDp_cases [of options p])
    case refused
    then show ?thesis by auto
  next
    case (stopped r)
    from loop [OF stopped(1-3)] show ?thesis unfolding stopped(4) by auto
  next
    case (solved st)
    note answer = solved_answer [OF solved(1,2,4)]
    have "status ?r = kFeasible" unfolding solved(5) by (rule answer(4))
    moreover have "\<exists>s. solution ?r = Some s \<and> well_formed p \<and> kReuseCost \<in> set (terms (objective p)) \<and> valid_solution p s \<and>
       res_objective ?r = EvaluateObjective p s \<and>
       (\<forall>s'. valid_solution p s' \<longrightarrow> reuse_cost (EvaluateObjective p s) \<le> reuse_cost (EvaluateObjective p s'))"
      unfolding solved(5) using answer(1,3,5,6) solved(3) searchable_built(1) [OF solved(1)] by blast
    ultimately show ?thesis by simp
  qed
  then show "status ?r = kFeasible \<Longrightarrow> \<exists>s. solution ?r = Some s \<and> well_formed p \<and> kReuseCost \<in> set (terms (objective p)) \<and> valid_solution p s \<and>
       res_objective ?r = EvaluateObjective p s \<and>
       (\<forall>s'. valid_solution p s' \<longrightarrow> reuse_cost (EvaluateObjective p s) \<le> reuse_cost (EvaluateObjective p s'))"
    "status ?r = kInfeasibleProven \<Longrightarrow> length (buffers p) < 4294967296 \<Longrightarrow> \<not> valid_solution p s"
    "status ?r \<noteq> kTimeout" by blast+
qed

interpretation treewidth_solver: placing_solver "TreewidthPartitionDp_Solve options" for options
proof unfold_locales
  fix p
  assume "status (TreewidthPartitionDp_Solve options p) = kFeasible"
  from treewidth_answer(1) [OF this]
  show "\<exists>s. solution (TreewidthPartitionDp_Solve options p) = Some s \<and> ValidateSolution p s = []"
    by (auto simp: ValidateSolution_Nil)
qed

end
