(* ===== verification/Pypto_Search.thy ===== *)
theory Pypto_Search
  imports Local_Search Search_Space
begin

text \<open>
  \<^verbatim>\<open>src/dsa/algorithms/pypto_structured_search_solver.cpp\<close>: the order search with moves that know the
  PyPTO structure of a problem: pipeline blocks move together, alias buffers and the endpoints of
  reuse penalties move on their own. The loop is the one of \<^theory_text>\<open>Order_Search\<close>.
\<close>

section \<open>Moves\<close>

fun index_from :: "nat \<Rightarrow> 'a \<Rightarrow> 'a list \<Rightarrow> nat option" where
  "index_from i x [] = None"
| "index_from i x (y # ys) = (if y = x then Some i else index_from (Suc i) x ys)"

definition insert_at :: "nat \<Rightarrow> 'a \<Rightarrow> 'a list \<Rightarrow> 'a list" where
  "insert_at i x xs = take i xs @ x # drop i xs"

text \<open>The new order, and whether the buffer moved.\<close>

definition MoveTo :: "BufferId list \<Rightarrow> BufferId \<Rightarrow> nat \<Rightarrow> BufferId list \<times> bool" where
  "MoveTo order buffer destination =
     (case index_from 0 buffer order of
        None \<Rightarrow> (order, False)
      | Some source \<Rightarrow>
          let rest = take source order @ drop (Suc source) order;
              destination1 = (if source < destination then destination - 1 else destination);
              destination2 = min destination1 (length rest)
          in (insert_at destination2 buffer rest, source \<noteq> destination2))"

definition generic_move :: "nat \<Rightarrow> nat \<Rightarrow> nat \<Rightarrow> BufferId list \<Rightarrow> BufferId list" where
  "generic_move kind first second order =
     (if kind = 0 then move_swap first second order
      else if kind = 1 then fst (MoveTo order (order ! second) first)
      else move_reverse first second order)"

definition ApplyGenericMove :: "'g RandomSource \<Rightarrow> 'g OrderMove" where
  "ApplyGenericMove R order g =
     (if length order < 2 then Some (order, g)
      else do {
        let (first, g1) = draw_index R (length order) g;
        let (second, g2) = draw_index R (length order) g1;
        (second, g3) \<leftarrow> redraw R (length order) first second g2;
        let (i, j) = ordered_pair first second;
        let (w, g4) = draw_word R g3;
        Some (generic_move (unat w mod 3) i j order, g4)
      })"

fun distinct_members :: "PyptoPipelineMember list \<Rightarrow> BufferId list \<Rightarrow> BufferId list" where
  "distinct_members [] block = block"
| "distinct_members (member # rest) block =
     distinct_members rest (if member_buffer member \<in> set block then block else block @ [member_buffer member])"

definition pipeline_block :: "PyptoPipelineGroup \<Rightarrow> BufferId list" where
  "pipeline_block g =
     distinct_members
       (sort_key (\<lambda>m. (member_stage m, member_residue m, member_buffer m)) (group_members g)) []"

definition PipelineBlocks :: "DsaProblem \<Rightarrow> BufferId list list" where
  "PipelineBlocks problem =
     (case pypto_structure problem of
        None \<Rightarrow> []
      | Some info \<Rightarrow> filter (\<lambda>block. 1 < length block) (map pipeline_block (pipeline_groups info)))"

definition ApplyPipelineMove :: "'g RandomSource \<Rightarrow> BufferId list list \<Rightarrow> 'g OrderMove" where
  "ApplyPipelineMove R bls order g =
     (if bls = [] then ApplyGenericMove R order g
      else
        let (w, g1) = draw_word R g;
            requested = bls ! (unat w mod length bls);
            block = filter (\<lambda>buffer. buffer \<in> set order) requested
        in if length block < 2 then ApplyGenericMove R order g1
           else
             let rest = filter (\<lambda>buffer. buffer \<notin> set block) order;
                 (position, g2) = draw_index R (length rest + 1) g1
             in Some (take position rest @ block @ drop position rest, g2))"

text \<open>The fallback of the moves that can leave the order as it was.\<close>

definition moved_or_generic ::
  "'g RandomSource \<Rightarrow> BufferId list \<times> bool \<Rightarrow> 'g \<Rightarrow> (BufferId list \<times> 'g) option" where
  "moved_or_generic R result g =
     (if snd result then Some (fst result, g) else ApplyGenericMove R (fst result) g)"

definition ApplyPenaltyMove :: "'g RandomSource \<Rightarrow> DsaProblem \<Rightarrow> 'g OrderMove" where
  "ApplyPenaltyMove R problem order g =
     (case cost_model problem of
        None \<Rightarrow> ApplyGenericMove R order g
      | Some model \<Rightarrow>
          if reuse_penalties model = [] then ApplyGenericMove R order g
          else
            let (w1, g1) = draw_word R g;
                penalty = reuse_penalties model ! (unat w1 mod length (reuse_penalties model));
                (w2, g2) = draw_word R g1;
                endpoint = (if even (unat w2) then pen_first penalty else pen_second penalty);
                (w3, g3) = draw_word R g2;
                destination = (if even (unat w3) then 0 else length order)
            in moved_or_generic R (MoveTo order endpoint destination) g3)"

definition AliasBuffers :: "DsaProblem \<Rightarrow> BufferId list" where
  "AliasBuffers problem =
     (case pypto_structure problem of
        None \<Rightarrow> []
      | Some info \<Rightarrow>
          map alias_buffer (filter (\<lambda>c. 1 < length (alias_members c)) (alias_classes info)))"

definition ApplyAliasMove :: "'g RandomSource \<Rightarrow> BufferId list \<Rightarrow> 'g OrderMove" where
  "ApplyAliasMove R aliases order g =
     (if aliases = [] then ApplyGenericMove R order g
      else
        let (w, g1) = draw_word R g;
            buffer = aliases ! (unat w mod length aliases);
            (position, g2) = draw_index R (length order + 1) g1
        in moved_or_generic R (MoveTo order buffer position) g2)"

definition ApplyStructuredMove ::
  "'g RandomSource \<Rightarrow> DsaProblem \<Rightarrow> BufferId list list \<Rightarrow> BufferId list \<Rightarrow> 'g OrderMove" where
  "ApplyStructuredMove R problem bls aliases order g =
     (let (w, g1) = draw_word R g; kind = unat w mod 6
      in if kind < 3 then ApplyGenericMove R order g1
         else if kind = 3 then ApplyPipelineMove R bls order g1
         else if kind = 4 then ApplyPenaltyMove R problem order g1
         else ApplyAliasMove R aliases order g1)"

section \<open>The solver\<close>

text \<open>The options have the fields of the generic search.\<close>

type_synonym PyptoStructuredSearchOptions = LocalSearchOptions

definition PyptoStructuredSearch_Capabilities :: SolverCapabilities where
  "PyptoStructuredSearch_Capabilities = SolverCapabilities_default
     \<lparr>cap_multi_interval := True, cap_reuse_cost := True, cap_colocations := True, cap_separations := True,
      cap_temporal_exclusions := True, cap_pinned_allocations := True, cap_reserved_ranges := True,
      cap_multi_pool := True, cap_lexicographic_objective := True, cap_capacity_objective := True,
      cap_peak_objective := True\<rparr>"

definition pypto_message ::
  "nat \<Rightarrow> BufferId list list \<Rightarrow> BufferId list \<Rightarrow> PyptoStructuredSearchOptions \<Rightarrow> string" where
  "pypto_message evaluated bls aliases options =
     ''PyPTO structured search evaluated '' @ nat_digits evaluated @ '' placement orders with '' @
     nat_digits (length bls) @ '' pipeline block(s) and '' @ nat_digits (length aliases) @
     '' multi-member alias identity/identities, seed '' @ to_string (ls_seed options)"

definition PyptoStructuredSearch_Solve ::
  "'g RandomSource \<Rightarrow> PyptoStructuredSearchOptions \<Rightarrow> DsaProblem \<Rightarrow> DsaResult option" where
  "PyptoStructuredSearch_Solve R options problem =
     (let validation = ValidateProblem problem;
          compatibility = CheckSolverCompatibility problem PyptoStructuredSearch_Capabilities
      in if validation \<noteq> [] then Some (DsaResult_default\<lparr>status := kInvalidProblem, diagnostics := validation\<rparr>)
         else if pypto_structure problem = None
         then Some (DsaResult_default\<lparr>status := kUnsupported,
                diagnostics := [''pypto_structured_search requires PyPTO structure'']\<rparr>)
         else if \<not> Compatible compatibility
         then Some (DsaResult_default\<lparr>status := kUnsupported,
                diagnostics := feature_messages ''pypto_structured_search'' compatibility @
                  objective_messages ''pypto_structured_search'' compatibility\<rparr>)
         else
           let bls = PipelineBlocks problem;
               aliases = AliasBuffers problem;
               seed_order = DefaultPlacementOrder problem;
               best = evaluate_order problem seed_order
           in if status (fst best) \<in> {kInvalidProblem, kUnsupported, kInfeasibleProven} then Some (fst best)
              else if length seed_order < 2 \<or> ls_max_iterations options \<le> 1 \<or> ls_restarts options = 0
              then Some (add_diagnostics [''PyPTO structured search evaluated 1 placement order''] (fst best))
              else do {
                st \<leftarrow> restart_loop (ApplyStructuredMove R problem bls aliases) problem options (ls_restarts options)
                        \<lparr>lo_best = best, lo_current = best, lo_evaluated = 1, lo_stagnation = 0,
                         lo_random = seed_random R (ls_seed options)\<rparr>;
                Some (add_diagnostics [pypto_message (lo_evaluated st) bls aliases options] (fst (lo_best st)))
              })"

section \<open>The moves permute the order\<close>

lemma index_from_Some:
  "index_from i x xs = Some k \<Longrightarrow> i \<le> k \<and> k < i + length xs \<and> xs ! (k - i) = x"
proof (induction i x xs rule: index_from.induct)
  case (2 i x y ys)
  then show ?case by (cases "y = x") (auto simp: nth_Cons' Suc_diff_Suc)
qed simp

lemma mset_insert_at [simp]: "mset (insert_at i x xs) = add_mset x (mset xs)"
proof -
  have "mset (take i xs) + mset (drop i xs) = mset xs" by (metis append_take_drop_id mset_append)
  then show ?thesis by (simp add: insert_at_def)
qed

lemma mset_MoveTo [simp]: "mset (fst (MoveTo order buffer destination)) = mset order"
proof (cases "index_from 0 buffer order")
  case (Some source)
  then have "source < length order" "order ! source = buffer" using index_from_Some [OF Some] by simp_all
  then have "mset order = add_mset buffer (mset (take source order @ drop (Suc source) order))"
    by (metis id_take_nth_drop mset.simps(2) mset_append union_mset_add_mset_right)
  with Some show ?thesis by (simp add: MoveTo_def Let_def)
qed (simp add: MoveTo_def)

lemma mset_generic_move: "i < j \<Longrightarrow> j < length xs \<Longrightarrow> mset (generic_move kind i j xs) = mset xs"
  by (simp add: generic_move_def mset_move_swap mset_move_reverse)

lemma ApplyGenericMove_perm:
  assumes "ApplyGenericMove R order g = Some (order', g')" "in_range_source R"
  shows "mset order' = mset order"
proof (cases "length order < 2")
  case True
  then show ?thesis using assms(1) by (simp add: ApplyGenericMove_def)
next
  case False
  let ?n = "length order"
  obtain first g1 where d1: "draw_index R ?n g = (first, g1)" by fastforce
  obtain sec g2 where d2: "draw_index R ?n g1 = (sec, g2)" by fastforce
  obtain s g3 where r: "redraw R ?n first sec g2 = Some (s, g3)"
    and o': "order' = generic_move (unat (fst (draw_word R g3)) mod 3) (min first s) (max first s) order"
    using assms(1) False
    by (auto simp: ApplyGenericMove_def d1 d2 Let_def ordered_pair_def split: bind_splits prod.splits)
  have "first < ?n" "sec < ?n"
    using assms(2) False d1 d2 unfolding in_range_source_def
    by (metis fst_conv length_greater_0_conv list.size(3) zero_less_numeral)+
  then have "s \<noteq> first" "s < ?n" using redraw_different [OF r] assms(2) False by auto
  then have "min first s < max first s" "max first s < ?n" using \<open>first < ?n\<close> by auto
  then show ?thesis
    unfolding o' by (rule mset_generic_move)
qed

lemma ApplyGenericMove_total:
  assumes "fair_source R"
  shows "ApplyGenericMove R order g \<noteq> None"
proof (cases "length order < 2")
  case False
  let ?n = "length order"
  obtain first g1 where d1: "draw_index R ?n g = (first, g1)" by fastforce
  obtain sec g2 where d2: "draw_index R ?n g1 = (sec, g2)" by fastforce
  obtain s g3 where "redraw R ?n first sec g2 = Some (s, g3)" using redraw_total [OF assms] False by fastforce
  then show ?thesis using False by (simp add: ApplyGenericMove_def d1 d2 Let_def split_beta)
qed (simp add: ApplyGenericMove_def)

lemma moved_or_generic_perm:
  "moved_or_generic R (MoveTo order x d) g = Some (order', g') \<Longrightarrow> in_range_source R \<Longrightarrow> mset order' = mset order"
  using ApplyGenericMove_perm by (fastforce simp: moved_or_generic_def split: if_splits)

lemma moved_or_generic_total: "fair_source R \<Longrightarrow> moved_or_generic R m g \<noteq> None"
  using ApplyGenericMove_total by (auto simp: moved_or_generic_def)

lemma distinct_distinct_members: "distinct block \<Longrightarrow> distinct (distinct_members ms block)"
  by (induction ms block rule: distinct_members.induct) auto

lemma PipelineBlocks_distinct: "block \<in> set (PipelineBlocks p) \<Longrightarrow> distinct block"
  by (auto simp: PipelineBlocks_def pipeline_block_def distinct_distinct_members split: option.splits)

text \<open>A block move keeps the buffers of an order without duplicates.\<close>

lemma mset_block_move:
  assumes "distinct order" "distinct requested"
  defines "block \<equiv> filter (\<lambda>buffer. buffer \<in> set order) requested"
  defines "rest \<equiv> filter (\<lambda>buffer. buffer \<notin> set block) order"
  shows "mset (take i rest @ block @ drop i rest) = mset order"
proof -
  have "mset (take i rest @ block @ drop i rest) = mset (rest @ block)"
    by (metis append_take_drop_id mset_append union_commute union_assoc)
  also have "\<dots> = mset order"
    by (rule iffD1 [OF set_eq_iff_mset_eq_distinct]) (use assms in auto)
  finally show ?thesis .
qed

lemma ApplyPipelineMove_perm:
  assumes "ApplyPipelineMove R bls order g = Some (order', g')" "in_range_source R" "distinct order"
    "\<forall>block\<in>set bls. distinct block"
  shows "mset order' = mset order"
proof (cases "bls = []")
  case True
  then have "ApplyGenericMove R order g = Some (order', g')" using assms(1) by (simp add: ApplyPipelineMove_def)
  then show ?thesis by (rule ApplyGenericMove_perm [OF _ assms(2)])
next
  case False
  obtain w g1 where w: "draw_word R g = (w, g1)" by fastforce
  let ?requested = "bls ! (unat w mod length bls)"
  let ?block = "filter (\<lambda>buffer. buffer \<in> set order) ?requested"
  let ?rest = "filter (\<lambda>buffer. buffer \<notin> set ?block) order"
  have "?requested \<in> set bls" using False by simp
  then have requested: "distinct ?requested" using assms(4) by blast
  show ?thesis
  proof (cases "length ?block < 2")
    case True
    then have "ApplyGenericMove R order g1 = Some (order', g')"
      using assms(1) False w by (simp add: ApplyPipelineMove_def Let_def)
    then show ?thesis by (rule ApplyGenericMove_perm [OF _ assms(2)])
  next
    case long: False
    obtain position g2 where "draw_index R (length ?rest + 1) g1 = (position, g2)" by fastforce
    then have "order' = take position ?rest @ ?block @ drop position ?rest"
      using assms(1) False long w by (simp add: ApplyPipelineMove_def Let_def)
    then show ?thesis using mset_block_move [OF assms(3) requested] by simp
  qed
qed

lemma ApplyPipelineMove_total: "fair_source R \<Longrightarrow> ApplyPipelineMove R bls order g \<noteq> None"
  using ApplyGenericMove_total by (auto simp: ApplyPipelineMove_def Let_def split: prod.splits)

lemma ApplyPenaltyMove_cases:
  obtains g' where "ApplyPenaltyMove R p order g = ApplyGenericMove R order g'"
    | x d g' where "ApplyPenaltyMove R p order g = moved_or_generic R (MoveTo order x d) g'"
proof (cases "cost_model p")
  case None
  then show ?thesis using that(1) by (simp add: ApplyPenaltyMove_def)
next
  case (Some model)
  show ?thesis
  proof (cases "reuse_penalties model = []")
    case True
    then show ?thesis using that(1) Some by (simp add: ApplyPenaltyMove_def)
  next
    case False
    then show ?thesis using that(2) Some by (simp add: ApplyPenaltyMove_def Let_def split_beta)
  qed
qed

lemma ApplyPenaltyMove_perm:
  assumes "ApplyPenaltyMove R p order g = Some (order', g')" "in_range_source R"
  shows "mset order' = mset order"
  by (cases rule: ApplyPenaltyMove_cases [of R p order g])
    (use assms ApplyGenericMove_perm moved_or_generic_perm in metis)+

lemma ApplyPenaltyMove_total: "fair_source R \<Longrightarrow> ApplyPenaltyMove R p order g \<noteq> None"
  by (cases rule: ApplyPenaltyMove_cases [of R p order g])
    (simp_all only: ApplyGenericMove_total moved_or_generic_total not_False_eq_True)

lemma ApplyAliasMove_cases:
  obtains g' where "ApplyAliasMove R aliases order g = ApplyGenericMove R order g'"
    | x d g' where "ApplyAliasMove R aliases order g = moved_or_generic R (MoveTo order x d) g'"
  using that by (cases "aliases = []") (simp_all add: ApplyAliasMove_def Let_def split_beta)

lemma ApplyAliasMove_perm:
  assumes "ApplyAliasMove R aliases order g = Some (order', g')" "in_range_source R"
  shows "mset order' = mset order"
  by (cases rule: ApplyAliasMove_cases [of R aliases order g])
    (use assms ApplyGenericMove_perm moved_or_generic_perm in metis)+

lemma ApplyAliasMove_total: "fair_source R \<Longrightarrow> ApplyAliasMove R aliases order g \<noteq> None"
  by (cases rule: ApplyAliasMove_cases [of R aliases order g])
    (simp_all only: ApplyGenericMove_total moved_or_generic_total not_False_eq_True)

lemma ApplyStructuredMove_cases:
  obtains g' where "ApplyStructuredMove R p bls aliases order g = ApplyGenericMove R order g'"
    | g' where "ApplyStructuredMove R p bls aliases order g = ApplyPipelineMove R bls order g'"
    | g' where "ApplyStructuredMove R p bls aliases order g = ApplyPenaltyMove R p order g'"
    | g' where "ApplyStructuredMove R p bls aliases order g = ApplyAliasMove R aliases order g'"
proof -
  obtain w g' where "draw_word R g = (w, g')" by fastforce
  then show thesis
    using that by (cases "unat w mod 6 < 3"; cases "unat w mod 6 = 3"; cases "unat w mod 6 = 4")
      (simp_all add: ApplyStructuredMove_def Let_def)
qed

lemma ApplyStructuredMove_keeps:
  assumes "in_range_source R" "distinct seed" "\<forall>block\<in>set bls. distinct block"
  shows "keeps_order (ApplyStructuredMove R p bls aliases) seed"
  unfolding keeps_order_def
proof (intro allI impI)
  fix order g order' g'
  assume perm: "mset order = mset seed" and mv: "ApplyStructuredMove R p bls aliases order g = Some (order', g')"
  have "distinct order" using perm assms(2) mset_eq_imp_distinct_iff by blast
  note moves = ApplyGenericMove_perm [OF _ assms(1)] ApplyPipelineMove_perm [OF _ assms(1) this assms(3)]
    ApplyPenaltyMove_perm [OF _ assms(1)] ApplyAliasMove_perm [OF _ assms(1)]
  have "mset order' = mset order"
    by (cases rule: ApplyStructuredMove_cases [of R p bls aliases order g]) (use mv moves in metis)+
  then show "mset order' = mset seed" using perm by simp
qed

lemma ApplyStructuredMove_total:
  assumes "fair_source R"
  shows "total_move (ApplyStructuredMove R p bls aliases)"
proof -
  have "ApplyStructuredMove R p bls aliases order g \<noteq> None" for order g
    by (cases rule: ApplyStructuredMove_cases [of R p bls aliases order g])
      (simp_all only: ApplyGenericMove_total [OF assms] ApplyPipelineMove_total [OF assms]
        ApplyPenaltyMove_total [OF assms] ApplyAliasMove_total [OF assms] not_False_eq_True)
  then show ?thesis unfolding total_move_def by blast
qed

section \<open>The solver\<close>

lemma DefaultPlacementOrder_distinct: "distinct (DefaultPlacementOrder p)"
proof (cases "searchable p")
  case True
  let ?reps = "map node_representative (search_nodes (built p))"
  have "?reps = map (\<lambda>k. sb_representative (supers (Prepare p) ! k)) [0..<length (supers (Prepare p))]"
    by (rule nth_equalityI) (simp_all add: node_count_supers [OF True] built_node(4))
  then have "mset (DefaultPlacementOrder p) = mset ?reps"
    using True unfolding searchable_def by (simp add: DefaultPlacementOrder_def SortedSuperOrder_def Let_def)
  then show ?thesis using built_representatives mset_eq_imp_distinct_iff by blast
next
  case False
  then show ?thesis by (auto simp: searchable_def DefaultPlacementOrder_def Let_def)
qed

lemma PyptoStructuredSearch_total:
  assumes "fair_source R"
  shows "\<exists>r. PyptoStructuredSearch_Solve R options p = Some r"
proof -
  let ?best = "evaluate_order p (DefaultPlacementOrder p)"
  obtain st where "restart_loop (ApplyStructuredMove R p (PipelineBlocks p) (AliasBuffers p)) p options (ls_restarts options)
      \<lparr>lo_best = ?best, lo_current = ?best, lo_evaluated = 1, lo_stagnation = 0,
       lo_random = seed_random R (ls_seed options)\<rparr> = Some st"
    using restart_loop_total [OF ApplyStructuredMove_total [OF assms]] by blast
  then show ?thesis by (auto simp: PyptoStructuredSearch_Solve_def Let_def)
qed

lemma PyptoStructuredSearch_cases:
  assumes run: "PyptoStructuredSearch_Solve R options p = Some r" and R: "in_range_source R"
  obtains (refused) "status r \<in> {kInvalidProblem, kUnsupported}"
      "ValidateProblem p \<noteq> [] \<or> pypto_structure p = None \<or>
       \<not> Compatible (CheckSolverCompatibility p PyptoStructuredSearch_Capabilities)"
  | (placed) order ms where "mset order = mset (DefaultPlacementOrder p)"
    "r = add_diagnostics ms (PlaceWithOrder p order kFirstFit)"
    "LocalSearch_ResultScore p (PlaceWithOrder p order kFirstFit)
       \<le> LocalSearch_ResultScore p (PlaceWithOrder p (DefaultPlacementOrder p) kFirstFit)"
proof -
  let ?seed = "DefaultPlacementOrder p"
  let ?best = "evaluate_order p ?seed"
  let ?no = "ValidateProblem p \<noteq> [] \<or> pypto_structure p = None \<or>
    \<not> Compatible (CheckSolverCompatibility p PyptoStructuredSearch_Capabilities)"
  let ?early = "status (fst ?best) \<in> {kInvalidProblem, kUnsupported, kInfeasibleProven}"
  let ?short = "length ?seed < 2 \<or> ls_max_iterations options \<le> 1 \<or> ls_restarts options = 0"
  have keep: thesis if "r = add_diagnostics ms (fst ?best)" for ms
    using placed [of ?seed ms] that by simp
  have nil: "add_diagnostics [] x = x" for x by (simp add: add_diagnostics_def)
  consider ?no | "\<not> ?no" ?early | "\<not> ?no" "\<not> ?early" ?short | "\<not> ?no" "\<not> ?early" "\<not> ?short"
    by (cases ?no; cases ?early; cases ?short) simp_all
  then show thesis
  proof cases
    case 1
    then have "status r \<in> {kInvalidProblem, kUnsupported}"
      using run by (auto simp: PyptoStructuredSearch_Solve_def Let_def split: if_splits)
    then show thesis using 1 by (rule refused)
  next
    case 2
    then have "r = add_diagnostics [] (fst ?best)"
      using run by (auto simp: PyptoStructuredSearch_Solve_def Let_def nil)
    then show thesis by (rule keep)
  next
    case 3
    then have "r = add_diagnostics [''PyPTO structured search evaluated 1 placement order''] (fst ?best)"
      using run by (auto simp: PyptoStructuredSearch_Solve_def Let_def)
    then show thesis by (rule keep)
  next
    case 4
    let ?mv = "ApplyStructuredMove R p (PipelineBlocks p) (AliasBuffers p)"
    obtain st where s: "restart_loop ?mv p options (ls_restarts options)
        \<lparr>lo_best = ?best, lo_current = ?best, lo_evaluated = 1, lo_stagnation = 0,
         lo_random = seed_random R (ls_seed options)\<rparr> = Some st"
      and r: "r = add_diagnostics [pypto_message (lo_evaluated st) (PipelineBlocks p) (AliasBuffers p) options]
        (fst (lo_best st))"
      using run 4 by (auto simp: PyptoStructuredSearch_Solve_def Let_def split: bind_splits)
    have "keeps_order ?mv ?seed"
      by (rule ApplyStructuredMove_keeps [OF R DefaultPlacementOrder_distinct]) (simp add: PipelineBlocks_distinct)
    from restart_loop_result [OF s this] obtain order where "mset order = mset ?seed"
      "lo_best st = evaluate_order p order"
      "LocalSearch_ResultScore p (PlaceWithOrder p order kFirstFit)
         \<le> LocalSearch_ResultScore p (PlaceWithOrder p ?seed kFirstFit)" .
    then show thesis using placed [of order] r by auto
  qed
qed

end
