(* ===== verification/Search_Properties.thy ===== *)
theory Search_Properties
  imports Exact_Properties Treewidth_Solver_Spec Pypto_Search
begin

text \<open>
  The properties of the treewidth solver and of the PyPTO structured search: the dynamic program finds
  the least cost over all colourings, its answers are proven, and the structured search never answers
  worse than its first order.
\<close>

section \<open>Examples\<close>

text \<open>Three buffers of one size; the third conflicts with both others, which pay for sharing.\<close>

definition unit_buffer :: "u32 \<Rightarrow> int \<Rightarrow> int \<Rightarrow> Buffer" where
  "unit_buffer i lo hi =
     \<lparr>buf_id = i, buf_name = [], buf_size = 8, alignment = 4,
      live_intervals = [\<lparr>lower = lo, upper = hi\<rparr>], allowed_pools = [0]\<rparr>"

definition unit_problem :: "u64 \<Rightarrow> DsaProblem" where
  "unit_problem cap =
     \<lparr>buffers = [unit_buffer 1 0 3, unit_buffer 2 3 5, unit_buffer 4 0 5],
      pools = [\<lparr>pool_id = 0, pool_name = ''l1'', capacity = Some cap, reserved_ranges = [], bank_geometry = None\<rparr>],
      colocations = [], separations = [], temporal_exclusions = [], pinned_allocations = [],
      cost_model = Some \<lparr>reuse_penalties =
        [\<lparr>pen_first = 1, pen_second = 2, pen_cost = 5, pen_reason = Pen_kGeneric\<rparr>]\<rparr>,
      pypto_structure = None, objective = FitThenMinimizeReuseCostObjective\<rparr>"

abbreviation unit_options :: TreewidthPartitionDpOptions where
  "unit_options \<equiv> \<lparr>max_treewidth = 12, max_table_entries = 0\<rparr>"

text \<open>A random source that counts, and a problem with a pipeline.\<close>

definition step_index_source :: "nat RandomSource" where
  "step_index_source = \<lparr>draw_index = (\<lambda>n g. (g mod n, g + 1)), draw_word = (\<lambda>g. (of_nat g, g + 1)),
                         seed_random = unat\<rparr>"

lemma step_index_fair: "fair_source step_index_source"
  unfolding fair_source_def
proof (intro allI impI)
  fix n i g :: nat
  assume "2 \<le> n"
  then have "g mod n \<noteq> Suc g mod n"
    by (metis mod_Suc n_not_Suc_n Suc_1 not_less_eq_eq le0 One_nat_def zero_neq_one Suc_n_not_le_n nat.inject)
  then show "\<exists>k. fst (draw_index step_index_source n (((\<lambda>g. snd (draw_index step_index_source n g)) ^^ k) g)) \<noteq> i"
    by (cases "g mod n = i") (auto simp: step_index_source_def intro: exI [of _ 0] exI [of _ 1])
qed

definition pypto_options :: PyptoStructuredSearchOptions where
  "pypto_options = \<lparr>ls_seed = 1, ls_max_iterations = 6, ls_restarts = 2, ls_stagnation_limit = 5\<rparr>"

definition pypto_problem :: DsaProblem where
  "pypto_problem = (unit_problem 24)\<lparr>pypto_structure := Some
     \<lparr>alias_classes = [],
      pipeline_groups = [\<lparr>group_id = 0, group_pool = 0, slot_size = 8, depth = 2, effective_depth = 2,
        group_members = [\<lparr>member_buffer = 1, member_stage = 0, member_residue = 0\<rparr>,
                         \<lparr>member_buffer = 2, member_stage = 1, member_residue = 1\<rparr>]\<rparr>]\<rparr>\<rparr>"

section \<open>The dynamic program\<close>

text \<open>
  C6: variable elimination over partition states is exact. For every elimination order that lists the
  variables once, the constant factor that remains is the least cost over all colourings of the nodes,
  infeasible when every colouring breaks a hard pair, and following the traces back gives a colouring
  that attains it.
\<close>
theorem elimination_is_exact:
  assumes "run_pool_dp options n colors variables potentials = Inr st"
    and "distinct variables" "set variables \<subseteq> {..<n}" "0 < colors"
    and "\<forall>(pair, potential)\<in>set potentials. fst pair \<in> set variables \<and> snd pair \<in> set variables"
  shows "(terminal_cost (dp_factors st) 0 = Some None \<and>
      (\<forall>c. colouring n colors c \<longrightarrow> potentials_cost potentials c = None)) \<or>
    (\<exists>w labels. terminal_cost (dp_factors st) 0 = Some (Some w) \<and>
      reconstruct colors (rev (dp_traces st)) (replicate n 0) = Inr labels \<and>
      colouring n colors (\<lambda>v. labels ! v) \<and> potentials_cost potentials (\<lambda>v. labels ! v) = Some w \<and>
      (\<forall>c. colouring n colors c \<longrightarrow> cost_le (Some w) (potentials_cost potentials c)))"
  by (cases rule: run_pool_dp_exact [OF assms(1-3,5,4)]) blast+

text \<open>A triangle with one hard edge and two soft ones, in two colours.\<close>

definition triangle :: "(ReuseNodePair, PairPotential) omap" where
  "triangle = [((0, 1), \<lparr>pot_hard = True, pot_weight = 0\<rparr>), ((0, 2), \<lparr>pot_hard = False, pot_weight = 3\<rparr>),
     ((1, 2), \<lparr>pot_hard = False, pot_weight = 2\<rparr>)]"

theorem elimination_is_exact_witness:
  "\<exists>st labels. run_pool_dp unit_options 3 2 [0, 1, 2] triangle = Inr st \<and>
     terminal_cost (dp_factors st) 0 = Some (Some 2) \<and>
     reconstruct 2 (rev (dp_traces st)) (replicate 3 0) = Inr labels \<and>
     potentials_cost triangle (\<lambda>v. labels ! v) = Some 2 \<and>
     (\<forall>c. colouring 3 2 c \<longrightarrow> cost_le (Some 2) (potentials_cost triangle c))"
proof -
  have cost: "(case run_pool_dp unit_options 3 2 [0, 1, 2] triangle of Inl _ \<Rightarrow> None
      | Inr st \<Rightarrow> terminal_cost (dp_factors st) 0) = Some (Some 2)" by code_simp
  then obtain st where st: "run_pool_dp unit_options 3 2 [0, 1, 2] triangle = Inr st" by (auto split: sum.splits)
  have "terminal_cost (dp_factors st) 0 = Some (Some 2)" using cost st by simp
  moreover have "\<forall>(pair, potential)\<in>set triangle. fst pair \<in> set [0, 1, 2 :: nat] \<and> snd pair \<in> set [0, 1, 2]"
    by (simp add: triangle_def)
  moreover have "set [0, 1, 2 :: nat] \<subseteq> {..<3}" "distinct [0, 1, 2 :: nat]" "0 < (2 :: nat)" by simp_all
  ultimately show ?thesis using elimination_is_exact [OF st] st by fastforce
qed

section \<open>The treewidth solver\<close>

text \<open>
  C4: a feasible answer of the treewidth solver is proven best: its solution passes the validator, the
  reported objective is the one of that solution, and no valid solution has a smaller reuse cost.
\<close>
theorem treewidth_best:
  assumes "status (TreewidthPartitionDp_Solve options p) = kFeasible"
  shows "\<exists>s. solution (TreewidthPartitionDp_Solve options p) = Some s \<and> ValidateSolution p s = [] \<and>
    res_objective (TreewidthPartitionDp_Solve options p) = EvaluateObjective p s \<and>
    (\<forall>s'. valid_solution p s' \<longrightarrow> reuse_cost (EvaluateObjective p s) \<le> reuse_cost (EvaluateObjective p s'))"
  using treewidth_answer(1) [OF assms] by (auto simp: ValidateSolution_Nil)

theorem treewidth_best_witness:
  "\<exists>s. solution (TreewidthPartitionDp_Solve unit_options (unit_problem 16)) = Some s \<and>
     (\<forall>s'. valid_solution (unit_problem 16) s' \<longrightarrow>
        reuse_cost (EvaluateObjective (unit_problem 16) s) \<le> reuse_cost (EvaluateObjective (unit_problem 16) s'))"
proof -
  have "status (TreewidthPartitionDp_Solve unit_options (unit_problem 16)) = kFeasible" by code_simp
  from treewidth_best [OF this] show ?thesis by blast
qed

text \<open>
  C18: when the treewidth solver proves infeasibility the problem has no valid solution, provided there
  are fewer than \<open>2 ^ 32\<close> buffers; it never answers with a timeout.
\<close>
theorem treewidth_infeasible_proven:
  assumes "length (buffers p) < 2 ^ 32"
  shows "status (TreewidthPartitionDp_Solve options p) \<noteq> kTimeout \<and>
    (status (TreewidthPartitionDp_Solve options p) = kInfeasibleProven \<longrightarrow> \<not> valid_solution p s)"
  using treewidth_answer(2) [of options p s] treewidth_answer(3) [of options p] assms by simp

theorem treewidth_infeasible_proven_witness:
  "status (TreewidthPartitionDp_Solve unit_options (unit_problem 8)) = kInfeasibleProven \<and>
   (\<forall>s. \<not> valid_solution (unit_problem 8) s)"
proof -
  have "status (TreewidthPartitionDp_Solve unit_options (unit_problem 8)) = kInfeasibleProven" by code_simp
  moreover have "length (buffers (unit_problem 8)) < 2 ^ 32" by (simp add: unit_problem_def)
  ultimately show ?thesis using treewidth_infeasible_proven [where p = "unit_problem 8" and options = unit_options] by blast
qed

text \<open>
  C17: dynamic programming and branch and bound never contradict each other. When the dynamic program is
  feasible, branch and bound does not prove infeasibility, and if it is feasible too both report the same
  reuse cost; when the dynamic program proves infeasibility (below \<open>2 ^ 32\<close> buffers), branch and bound is
  not feasible.
\<close>
theorem treewidth_agrees_with_search:
  "(status (TreewidthPartitionDp_Solve options p) = kFeasible \<longrightarrow>
      status (CanonicalBranchAndBound_Solve R limit p) \<noteq> kInfeasibleProven \<and>
      (status (CanonicalBranchAndBound_Solve R limit p) = kFeasible \<longrightarrow>
         reuse_cost (res_objective (CanonicalBranchAndBound_Solve R limit p)) =
         reuse_cost (res_objective (TreewidthPartitionDp_Solve options p)))) \<and>
   (status (TreewidthPartitionDp_Solve options p) = kInfeasibleProven \<longrightarrow> length (buffers p) < 2 ^ 32 \<longrightarrow>
      status (CanonicalBranchAndBound_Solve R limit p) \<noteq> kFeasible)"
proof (intro conjI impI)
  assume t: "status (TreewidthPartitionDp_Solve options p) = kFeasible"
  obtain s where s: "kReuseCost \<in> set (terms (objective p))" "valid_solution p s"
    "res_objective (TreewidthPartitionDp_Solve options p) = EvaluateObjective p s"
    "\<forall>s'. valid_solution p s' \<longrightarrow> reuse_cost (EvaluateObjective p s) \<le> reuse_cost (EvaluateObjective p s')"
    using treewidth_answer(1) [OF t] by blast
  show "status (CanonicalBranchAndBound_Solve R limit p) \<noteq> kInfeasibleProven"
    using branch_and_bound_solver.not_infeasible [OF s(2)] .
  show "reuse_cost (res_objective (CanonicalBranchAndBound_Solve R limit p)) =
      reuse_cost (res_objective (TreewidthPartitionDp_Solve options p))"
    if "status (CanonicalBranchAndBound_Solve R limit p) = kFeasible"
    using branch_and_bound_optimal [OF that] s(1,2,4) unfolding s(3) by (metis order.antisym)
next
  assume t: "status (TreewidthPartitionDp_Solve options p) = kInfeasibleProven" "length (buffers p) < 2 ^ 32"
  show "status (CanonicalBranchAndBound_Solve R limit p) \<noteq> kFeasible"
  proof
    assume "status (CanonicalBranchAndBound_Solve R limit p) = kFeasible"
    then obtain s where "valid_solution p s" using branch_and_bound_optimal by blast
    then show False using treewidth_answer(2) [OF t(1)] t(2) by simp
  qed
qed

theorem treewidth_agrees_with_search_witness:
  "reuse_cost (res_objective (CanonicalBranchAndBound_Solve stay_shuffler 0 (unit_problem 16))) =
   reuse_cost (res_objective (TreewidthPartitionDp_Solve unit_options (unit_problem 16)))"
proof -
  have "status (TreewidthPartitionDp_Solve unit_options (unit_problem 16)) = kFeasible" by code_simp
  moreover from treewidth_answer(1) [OF this] have "\<exists>s. valid_solution (unit_problem 16) s" by blast
  moreover have "exactly_solvable (unit_problem 16)" unfolding exactly_solvable_def searchable_def by (intro conjI; code_simp)
  ultimately have "status (CanonicalBranchAndBound_Solve stay_shuffler 0 (unit_problem 16)) = kFeasible"
    using exactly_solvable_decided [of "unit_problem 16" stay_shuffler] by simp
  then show ?thesis using \<open>status (TreewidthPartitionDp_Solve _ _) = kFeasible\<close> treewidth_agrees_with_search [where p = "unit_problem 16" and options = unit_options] by blast
qed

section \<open>PyPTO structured search\<close>

text \<open>
  C33: whatever the random source draws, and whichever pipeline groups, penalties and alias classes guide
  its moves, the structured search gives an accepted problem the engine's result for a permutation of
  the default order, and its score is not above the score of that order.
\<close>
theorem pypto_keeps_baseline:
  assumes "PyptoStructuredSearch_Solve R options p = Some r" "in_range_source R"
    and "ValidateProblem p = []" "pypto_structure p \<noteq> None"
    and "Compatible (CheckSolverCompatibility p PyptoStructuredSearch_Capabilities)"
  shows "\<exists>order ms. mset order = mset (DefaultPlacementOrder p) \<and>
    r = add_diagnostics ms (PlaceWithOrder p order kFirstFit) \<and>
    LocalSearch_ResultScore p (PlaceWithOrder p order kFirstFit) \<le>
      LocalSearch_ResultScore p (PlaceWithOrder p (DefaultPlacementOrder p) kFirstFit)"
proof (cases rule: PyptoStructuredSearch_cases [OF assms(1,2)])
  case 1
  then show ?thesis using assms(3-5) by simp
next
  case (2 order ms)
  then show ?thesis by blast
qed

theorem pypto_keeps_baseline_witness:
  "\<exists>r order ms. PyptoStructuredSearch_Solve step_index_source pypto_options pypto_problem = Some r \<and>
    mset order = mset (DefaultPlacementOrder pypto_problem) \<and>
    r = add_diagnostics ms (PlaceWithOrder pypto_problem order kFirstFit)"
proof -
  obtain r where r: "PyptoStructuredSearch_Solve step_index_source pypto_options pypto_problem = Some r"
    using PyptoStructuredSearch_total [OF step_index_fair] by blast
  have "in_range_source step_index_source" by (simp add: in_range_source_def step_index_source_def)
  moreover have "ValidateProblem pypto_problem = []" "pypto_structure pypto_problem \<noteq> None"
    "Compatible (CheckSolverCompatibility pypto_problem PyptoStructuredSearch_Capabilities)" by code_simp+
  ultimately show ?thesis using pypto_keeps_baseline [OF r] r by blast
qed

end
