(* ===== verification/Baseline_Spec.thy ===== *)
theory Baseline_Spec
  imports Hitting_Spec
begin

text \<open>
  What the baseline solvers promise: canonical greedy, promote and repair and uniform colouring meet the
  solver contract, promote all decides whether a solution exists that reuses no soft pair, and the walk
  down an overflow chain has enough fuel.
\<close>

section \<open>Promoted problems\<close>

lemma with_promoted_weaker:
  "valid_solution (WithPromotedReuseEdges p search pairs) s \<Longrightarrow> valid_solution p s"
  by (simp add: with_promoted_separations valid_with_separations)

lemma with_separations_find:
  "FindBuffer (with_separations p seps) = FindBuffer p" "FindPool (with_separations p seps) = FindPool p"
  by (simp_all add: FindBuffer_def FindPool_def fun_eq_iff)

lemma with_separations_wf:
  "wf_separation (with_separations p seps) = wf_separation p" "wf_pinned (with_separations p seps) = wf_pinned p"
  "wf_pypto (with_separations p seps) = wf_pypto p"
  by (simp_all add: wf_separation_def wf_pinned_def wf_pypto_def wf_group_def with_separations_find fun_eq_iff)

lemma with_separations_rest:
  "temporal_exclusions (with_separations p seps) = temporal_exclusions p" "cost_model (with_separations p seps) = cost_model p"
  "pypto_structure (with_separations p seps) = pypto_structure p" "objective (with_separations p seps) = objective p"
  by (simp_all add: with_separations_def)

lemma well_formed_with_separations: "well_formed (with_separations p seps) \<Longrightarrow> well_formed p"
  unfolding well_formed_def with_separations_wf with_separations_simps with_separations_classes with_separations_rest
  by auto

lemma with_promoted_ValidateSolution:
  "ValidateSolution (WithPromotedReuseEdges p search pairs) s = [] \<Longrightarrow> ValidateSolution p s = []"
  unfolding ValidateSolution_Nil with_promoted_separations
  using well_formed_with_separations by (auto simp: valid_with_separations)

lemma with_promoted_fields [simp]:
  "pinned_allocations (WithPromotedReuseEdges p search pairs) = pinned_allocations p"
  "pools (WithPromotedReuseEdges p search pairs) = pools p"
  "buffers (WithPromotedReuseEdges p search pairs) = buffers p"
  by (simp_all add: WithPromotedReuseEdges_def)

section \<open>More separations leave the problem searchable\<close>

text \<open>Preparation reads the separations last, and only to compare classes.\<close>

lemma prepare_supers_cong:
  "buffers p' = buffers p \<Longrightarrow> prepare_supers p' is sets r2s ss errors = prepare_supers p is sets r2s ss errors"
  by (induction "is" arbitrary: sets r2s ss errors) (simp_all add: Let_def split_beta)

lemma index_supers_cong: "buffers p' = buffers p \<Longrightarrow> index_supers p' ss = index_supers p ss"
proof -
  assume b: "buffers p' = buffers p"
  have "index_members p' = index_members p" by (intro ext) (simp add: index_members_def b split_beta)
  then show ?thesis by (simp add: index_supers_def)
qed

lemma prepare_separations_append:
  "prepare_separations ids (xs @ ys) seps errors =
   prepare_separations ids ys (fst (prepare_separations ids xs seps errors)) (snd (prepare_separations ids xs seps errors))"
  by (induction ids xs seps errors rule: prepare_separations.induct) (simp_all add: Let_def)

lemma prepare_separations_apart:
  "\<forall>c\<in>set cs. the (ids (sep_first c)) \<noteq> the (ids (sep_second c)) \<Longrightarrow>
   snd (prepare_separations ids cs seps errors) = errors"
  by (induction ids cs seps errors rule: prepare_separations.induct) (simp_all add: Let_def)

lemma searchable_with_separations:
  assumes "searchable p" "well_formed (with_separations p cs)"
    "\<forall>c\<in>set cs. the (id_to_super (Prepare p) (sep_first c)) \<noteq> the (id_to_super (Prepare p) (sep_second c))"
  shows "searchable (with_separations p cs)"
proof -
  let ?p = "with_separations p cs"
  have wf: "well_formed p" using assms(2) by (rule well_formed_with_separations)
  have v: "ValidateProblem p = []" "ValidateProblem ?p = []" using wf assms(2) by (simp_all add: ValidateProblem_Nil)
  let ?sets = "foldl (\<lambda>parent c. ds_union parent (the (BufferIndices p (col_first c)))
      (the (BufferIndices p (col_second c)))) (ds_init (length (buffers p))) (colocations p)"
  have ids: "BufferIndices ?p = BufferIndices p" by (simp add: BufferIndices_def)
  obtain ss e1 where s: "prepare_supers p [0..<length (buffers p)] ?sets Map.empty [] [] = (ss, e1)" by fastforce
  obtain ss' e2 where s': "prepare_pins (index_supers p ss) (pinned_allocations p) ss (e1 @ super_pool_errors ss) = (ss', e2)"
    by fastforce
  obtain seps e3 where sp: "prepare_separations (index_supers p ss) (separations p) {} e2 = (seps, e3)" by fastforce
  obtain seps' e4 where sp': "prepare_separations (index_supers p ss) cs seps e3 = (seps', e4)" by fastforce
  have P: "Prepare p = \<lparr>supers = ss', id_to_super = index_supers p ss, super_separations = seps,
      prepare_errors = e3, flexible_pools = super_pools_flexible ss\<rparr>"
    by (simp add: Prepare_def Let_def v s s' sp)
  have "Prepare ?p = \<lparr>supers = ss', id_to_super = index_supers p ss, super_separations = seps',
      prepare_errors = e4, flexible_pools = super_pools_flexible ss\<rparr>"
    by (simp add: Prepare_def Let_def v ids prepare_supers_cong [of ?p p] index_supers_cong [of ?p p] s s'
        prepare_separations_append sp sp')
  moreover have "e4 = e3"
    using prepare_separations_apart [of cs "index_supers p ss" seps e3] assms(3) sp' by (simp add: P)
  ultimately show ?thesis using assms(1) by (simp add: searchable_def P)
qed

lemma with_promoted_searchable:
  assumes sr: "searchable p" and pairs: "set pairs \<subseteq> fst ` set (soft_weights (built p))"
  shows "searchable (WithPromotedReuseEdges p (built p) pairs)"
  unfolding with_promoted_separations
proof (rule searchable_with_separations [OF sr])
  note wf = searchable_built(1) [OF sr] and ok = searchable_built(2) [OF sr]
  have apart: "sep_first c \<in> buffer_ids p \<and> sep_second c \<in> buffer_ids p \<and> distinct (sep_reasons c) \<and>
      (\<exists>i j. i \<noteq> j \<and> id_to_super (Prepare p) (sep_first c) = Some i \<and> id_to_super (Prepare p) (sep_second c) = Some j)"
    if c: "c \<in> set (map (promoted_separation (built p)) pairs)" for c
  proof -
    obtain i j w where ij: "c = promoted_separation (built p) (i, j)" "((i, j), w) \<in> set (soft_weights (built p))"
      using c pairs by force
    then have less: "i < node_count (built p)" "j < node_count (built p)" "i \<noteq> j" using built.soft_pair [OF ij(2)] by auto
    have rep: "node_representative (node_at (built p) k) \<in> member_ids p (supers (Prepare p) ! k)"
      "id_to_super (Prepare p) (node_representative (node_at (built p) k)) = Some k"
      if k: "k < node_count (built p)" for k
    proof -
      show m: "node_representative (node_at (built p) k) \<in> member_ids p (supers (Prepare p) ! k)"
        using class_representative [OF wf built_node(3) [OF k]] built_node(4) [OF k] by simp
      then show "id_to_super (Prepare p) (node_representative (node_at (built p) k)) = Some k"
        using prepared_okD(5) [OF ok] built_node(2) [OF k] by blast
    qed
    have "member_ids p (supers (Prepare p) ! k) \<subseteq> buffer_ids p" if "k < node_count (built p)" for k
      using is_class_alignment(3) [OF wf built_node(3) [OF that]] by (auto simp: member_ids_class buffer_ids_def)
    then show ?thesis using rep less by (auto simp: ij(1) promoted_separation_def)
  qed
  show "\<forall>c\<in>set (map (promoted_separation (built p)) pairs).
      the (id_to_super (Prepare p) (sep_first c)) \<noteq> the (id_to_super (Prepare p) (sep_second c))"
    using apart by fastforce
  have "wf_separation p c" if c: "c \<in> set (map (promoted_separation (built p)) pairs)" for c
  proof -
    obtain i j where ij: "i \<noteq> j" "id_to_super (Prepare p) (sep_first c) = Some i" "id_to_super (Prepare p) (sep_second c) = Some j"
      using apart [OF c] by blast
    then have "i < length (supers (Prepare p))" "sep_first c \<in> member_ids p (supers (Prepare p) ! i)"
      "j < length (supers (Prepare p))" "sep_second c \<in> member_ids p (supers (Prepare p) ! j)"
      using prepared_okD(5) [OF ok] by blast+
    note sup = this
    have "{col_first k, col_second k} \<noteq> {sep_first c, sep_second c}" if k: "k \<in> set (colocations p)" for k
    proof
      assume "{col_first k, col_second k} = {sep_first c, sep_second c}"
      then have "same_class p (sep_first c) (sep_second c)"
        using same_class_colocation [OF k] same_class_sym by (metis doubleton_eq_iff)
      moreover obtain x where "x \<in> class_members p (supers (Prepare p) ! i)" "buf_id x = sep_first c"
        using sup(2) unfolding member_ids_class by (metis imageE)
      moreover obtain y where y: "y \<in> class_members p (supers (Prepare p) ! j)" "buf_id y = sep_second c"
        using sup(4) unfolding member_ids_class by (metis imageE)
      moreover from y have "y \<in> set (buffers p)"
        using is_class_alignment(3) [OF wf prepared_okD(1) [OF ok sup(3)]] by blast
      ultimately have "y \<in> class_members p (supers (Prepare p) ! i)"
        using is_class_closed [OF wf prepared_okD(1) [OF ok sup(1)]] by metis
      then have "sep_second c \<in> member_ids p (supers (Prepare p) ! i)"
        using y(2) unfolding member_ids_class by (metis imageI)
      then show False using prepared_okD(3) [OF ok sup(1,3) ij(1)] sup(4) by blast
    qed
    moreover have "sep_first c \<noteq> sep_second c" using ij by auto
    ultimately show ?thesis using apart [OF c] by (simp add: wf_separation_def)
  qed
  then show "well_formed (with_separations p (map (promoted_separation (built p)) pairs))"
    using wf unfolding well_formed_def with_separations_wf with_separations_simps with_separations_classes
      with_separations_rest by auto
qed

text \<open>Validity does not depend on the objective.\<close>

lemma valid_solution_objective: "valid_solution (p\<lparr>objective := ob\<rparr>) s = valid_solution p s"
  by (simp add: valid_solution_def buffer_ids_def same_class_def coloc_pairs_def class_extent_def
      exclusive_pin_ids_def HaveTemporalConflict_def must_not_share_def placed_apart_def fits_buffer_def
      FindPool_def)

section \<open>Validated results\<close>

definition placed_ok :: "DsaProblem \<Rightarrow> DsaResult \<Rightarrow> bool" where
  "placed_ok p r \<longleftrightarrow> (\<exists>s. solution r = Some s \<and> ValidateSolution p s = [] \<and> res_objective r = EvaluateObjective p s)"

lemma placed_ok_simps [simp]:
  "placed_ok p (add_diagnostics ms r) = placed_ok p r" "placed_ok p (r\<lparr>solver_metrics := m\<rparr>) = placed_ok p r"
  "placed_ok p (r\<lparr>diagnostics := ms\<rparr>) = placed_ok p r" "placed_ok p (r\<lparr>status := st\<rparr>) = placed_ok p r"
  by (simp_all add: placed_ok_def add_diagnostics_def)

lemma BuildValidated_placed: "status (BuildValidatedReuseResult p search offsets kFeasible) = kFeasible \<Longrightarrow>
    placed_ok p (BuildValidatedReuseResult p search offsets kFeasible)"
  by (auto simp: BuildValidatedReuseResult_def Let_def placed_ok_def split: if_splits)

lemma PlaceWithOrder_placed: "status (PlaceWithOrder p order strategy) = kFeasible \<Longrightarrow> placed_ok p (PlaceWithOrder p order strategy)"
  unfolding placed_ok_def by (rule PlaceWithOrder_feasible)

lemma FirstFit_placed:
  assumes "status (FirstFit_Solve p) = kFeasible"
  shows "placed_ok p (FirstFit_Solve p)"
proof -
  obtain order strategy where "same_answer (FirstFit_Solve p) (PlaceWithOrder p order strategy)"
    using FirstFit_engine [of p] assms by (auto simp: engine_answer_def)
  then show ?thesis
    using PlaceWithOrder_placed [of p order strategy] assms by (simp add: same_answer_def placed_ok_def)
qed

section \<open>Canonical greedy\<close>

definition greedy_ok :: "DsaProblem \<Rightarrow> DsaResult \<Rightarrow> bool" where
  "greedy_ok p r \<longleftrightarrow> (solution r \<noteq> None \<longrightarrow> status r = kFeasible \<and> placed_ok p r)"

lemma greedy_orders_ok:
  "greedy_ok p (gs_result st) \<Longrightarrow> greedy_ok p (gs_result (greedy_orders p prepared k orders st))"
proof (induction p prepared k orders st rule: greedy_orders.induct)
  case (2 p prepared k order rest st)
  have new: "greedy_ok p (gs_result (greedy_update p k (BuildValidatedReuseResult p prepared offsets kFeasible) st'))"
    if "greedy_ok p (gs_result st')" "status (BuildValidatedReuseResult p prepared offsets kFeasible) = kFeasible" for offsets st'
    using that BuildValidated_placed by (simp add: greedy_update_def greedy_ok_def Let_def)
  obtain found evaluated where run: "greedy_place p prepared order (replicate (length (search_nodes prepared)) False)
      (replicate (length (search_nodes prepared)) 0) (gs_evaluated st) = (found, evaluated)" by fastforce
  show ?case
    using 2 new by (cases found) (auto simp: Let_def run)
qed simp

lemma greedy_ok_finish:
  assumes "greedy_ok p r"
    and "answer = add_diagnostics ms ((if solution r = None then add_diagnostics ms' (r\<lparr>status := kBestEffortNoFit\<rparr>) else r)\<lparr>solver_metrics := m\<rparr>)"
  shows "status answer \<in> {kFeasible, kBestEffortNoFit}" "status answer = kFeasible \<Longrightarrow> placed_ok p answer"
  using assms by (auto simp: greedy_ok_def add_diagnostics_def placed_ok_def)

lemma greedy_search_answer:
  "status (greedy_search R options p prepared) \<in> {kFeasible, kBestEffortNoFit}"
  "status (greedy_search R options p prepared) = kFeasible \<Longrightarrow> placed_ok p (greedy_search R options p prepared)"
proof -
  define seeded where "seeded \<longleftrightarrow> status (FirstFit_Solve p) = kFeasible \<and> solution (FirstFit_Solve p) \<noteq> None"
  define st0 where "st0 = \<lparr>gs_result = (if seeded then FirstFit_Solve p else DsaResult_default)\<lparr>diagnostics := []\<rparr>,
             gs_score = (if seeded then ObjectiveScore p (res_objective (FirstFit_Solve p)) else []),
             gs_evaluated = 0, gs_selected_order = 0, gs_first_fit_seed = seeded, gs_orders = 0\<rparr>"
  define st where "st = greedy_orders p prepared 0 (CanonicalGreedyOrders R p prepared options) st0"
  have "greedy_ok p (gs_result st0)"
    using FirstFit_placed [of p] by (auto simp: st0_def seeded_def greedy_ok_def DsaResult_default_def)
  then have ok: "greedy_ok p (gs_result st)" unfolding st_def by (rule greedy_orders_ok)
  note answer = greedy_search_def [of R options p prepared, folded seeded_def, unfolded Let_def, folded seeded_def, folded st0_def, folded st_def]
  show "status (greedy_search R options p prepared) \<in> {kFeasible, kBestEffortNoFit}"
    "status (greedy_search R options p prepared) = kFeasible \<Longrightarrow> placed_ok p (greedy_search R options p prepared)"
    by (rule greedy_ok_finish [OF ok answer], rule greedy_ok_finish [OF ok answer], assumption)
qed

lemma RejectUnsupported_status: "status (RejectUnsupported p name c) \<in> {kInvalidProblem, kUnsupported}"
  by (simp add: RejectUnsupported_def Let_def)

lemma baseline_prepared_cases:
  "(\<exists>r. baseline_prepared name p = Inl r \<and> status r \<in> {kInvalidProblem, kUnsupported}) \<or>
   baseline_prepared name p = Inr (built p) \<and> searchable p \<and> pinned_allocations p = []"
proof (cases "Compatible (CheckSolverCompatibility p BaselineCapabilities)")
  case True
  then have "StructurallyCompatible (CheckSolverCompatibility p BaselineCapabilities)" by (simp add: Compatible_def)
  then have pins: "pinned_allocations p = []"
    unfolding structural_compatibility by (simp add: BaselineCapabilities_def SolverCapabilities_default_def)
  have "searchable p" if "space_errors (placement (built p)) = []" "\<not> space_flexible_pools (placement (built p))"
    using that by (auto simp: searchable_def BuildReusePenaltySearchSpace_def BuildPlacementSearchSpace_def Let_def
        split: if_splits)
  then show ?thesis using True pins by (auto simp: baseline_prepared_def Let_def failed_result_def)
next
  case False
  then show ?thesis using RejectUnsupported_status by (simp add: baseline_prepared_def)
qed

lemma CanonicalGreedy_answer:
  "status (CanonicalGreedy_Solve R options p) \<in> {kInvalidProblem, kUnsupported, kFeasible, kBestEffortNoFit}"
  "status (CanonicalGreedy_Solve R options p) = kFeasible \<Longrightarrow> placed_ok p (CanonicalGreedy_Solve R options p)"
  using baseline_prepared_cases [of "''canonical_greedy''" p] greedy_search_answer [of R options p "built p"]
  by (auto simp: CanonicalGreedy_Solve_def)

interpretation canonical_greedy_solver: ds_solver "CanonicalGreedy_Solve R options" for R options
proof unfold_locales
  show "\<exists>s. solution (CanonicalGreedy_Solve R options p) = Some s \<and> ValidateSolution p s = []"
    if "status (CanonicalGreedy_Solve R options p) = kFeasible" for p
    using CanonicalGreedy_answer(2) [OF that] unfolding placed_ok_def by blast
  show "\<not> valid_solution p s" if "status (CanonicalGreedy_Solve R options p) = kInfeasibleProven" for p s
    using CanonicalGreedy_answer(1) [of R options p] that by simp
qed

section \<open>Promote and repair\<close>

lemma promote_loop_placed:
  "\<exists>pairs order. rs_last (promote_loop p prepared orders active k attempts demotions) =
     PlaceWithOrder (WithPromotedReuseEdges p prepared pairs) order kFirstFit"
proof (induction p prepared orders active k attempts demotions rule: promote_loop.induct)
  case (1 p prepared orders active k attempts demotions)
  obtain promoted r where attempt: "repair_attempt p prepared orders active k = (promoted, r)" by fastforce
  then have r: "\<exists>pairs order. r = PlaceWithOrder (WithPromotedReuseEdges p prepared pairs) order kFirstFit"
    by (auto simp: repair_attempt_def Let_def)
  show ?case
    using r 1 [OF attempt [symmetric] refl refl]
    by (subst promote_loop.simps) (simp add: attempt Let_def split: option.splits)
qed

lemma PlaceWithOrder_promoted:
  assumes "status (PlaceWithOrder (WithPromotedReuseEdges p search pairs) order strategy) = kFeasible"
  shows "\<exists>s. solution (PlaceWithOrder (WithPromotedReuseEdges p search pairs) order strategy) = Some s \<and>
    ValidateSolution p s = []"
  using PlaceWithOrder_feasible [OF assms] with_promoted_ValidateSolution by blast

lemma PromoteRepair_cases:
  assumes "baseline_prepared ''promote_repair'' p = Inr prepared"
  obtains (repaired) r pairs order where
      "r = PlaceWithOrder (WithPromotedReuseEdges p prepared pairs) order kFirstFit" "feasible_result r"
      "same_answer (PromoteRepair_Solve R p) (r\<lparr>res_objective := EvaluateObjective p (the (solution r))\<rparr>)"
    | (fallback) "status (CanonicalGreedy_Solve R CanonicalGreedyOptions_default p) = kFeasible"
      "same_answer (PromoteRepair_Solve R p) (CanonicalGreedy_Solve R CanonicalGreedyOptions_default p)"
    | (failed) r pairs order where
      "r = PlaceWithOrder (WithPromotedReuseEdges p prepared pairs) order kFirstFit" "\<not> feasible_result r"
      "same_answer (PromoteRepair_Solve R p) r"
proof -
  define st where "st = promote_loop p prepared
      (CanonicalGreedyOrders R p prepared \<lparr>cg_seed = 0, random_restarts = 0\<rparr>) (soft_weights prepared) 0 0 0"
  obtain pairs order where last: "rs_last st = PlaceWithOrder (WithPromotedReuseEdges p prepared pairs) order kFirstFit"
    unfolding st_def using promote_loop_placed by blast
  note solve = PromoteRepair_Solve_def [of R p, unfolded assms sum.case Let_def, folded st_def]
  show thesis
  proof (cases "feasible_result (rs_last st)")
    case True
    show thesis
      by (rule repaired [OF last True]) (simp add: solve True same_answer_def add_diagnostics_def)
  next
    case False
    show thesis
    proof (cases "status (CanonicalGreedy_Solve R CanonicalGreedyOptions_default p) = kFeasible")
      case True
      then show thesis
        using fallback False by (simp add: solve same_answer_def add_diagnostics_def)
    next
      case no: False
      show thesis
        by (rule failed [OF last False]) (simp add: solve False no same_answer_def add_diagnostics_def)
    qed
  qed
qed

lemma same_answer_placed: "same_answer r r' \<Longrightarrow> placed_ok p r = placed_ok p r'"
  by (simp add: same_answer_def placed_ok_def)

lemma PromoteRepair_answer:
  "status (PromoteRepair_Solve R p) = kFeasible \<Longrightarrow> placed_ok p (PromoteRepair_Solve R p)"
  "status (PromoteRepair_Solve R p) \<noteq> kInfeasibleProven"
proof -
  have "(status (PromoteRepair_Solve R p) = kFeasible \<longrightarrow> placed_ok p (PromoteRepair_Solve R p)) \<and>
    status (PromoteRepair_Solve R p) \<noteq> kInfeasibleProven"
  proof (cases "baseline_prepared ''promote_repair'' p")
    case (Inl r)
    then show ?thesis
      using baseline_prepared_cases [of "''promote_repair''" p] by (auto simp: PromoteRepair_Solve_def)
  next
    case (Inr prepared)
    then have pins: "pinned_allocations p = []" using baseline_prepared_cases [of "''promote_repair''" p] by auto
    show ?thesis
    proof (cases rule: PromoteRepair_cases [OF Inr, of R])
      case (1 r pairs order)
      from 1(2) have "status r = kFeasible" by (simp add: feasible_result_def)
      then obtain s where s: "solution r = Some s" "ValidateSolution p s = []"
        using PlaceWithOrder_promoted 1(1) by blast
      then show ?thesis
        using 1(3) \<open>status r = kFeasible\<close> by (simp add: same_answer_def placed_ok_def)
    next
      case 2
      then show ?thesis
        using same_answer_placed [OF 2(2), of p] CanonicalGreedy_answer(2) [OF 2(1)] by (simp add: same_answer_def)
    next
      case (3 r pairs order)
      have "status r \<noteq> kInfeasibleProven" unfolding 3(1) by (rule PlaceWithOrder_unpinned) (simp add: pins)
      moreover have "status r \<noteq> kFeasible"
        using 3(1,2) PlaceWithOrder_promoted [of p prepared pairs order kFirstFit] by (auto simp: feasible_result_def)
      ultimately show ?thesis using 3(3) by (simp add: same_answer_def)
    qed
  qed
  then show "status (PromoteRepair_Solve R p) = kFeasible \<Longrightarrow> placed_ok p (PromoteRepair_Solve R p)"
    "status (PromoteRepair_Solve R p) \<noteq> kInfeasibleProven" by blast+
qed

interpretation promote_repair_solver: ds_solver "PromoteRepair_Solve R" for R
proof unfold_locales
  show "\<exists>s. solution (PromoteRepair_Solve R p) = Some s \<and> ValidateSolution p s = []"
    if "status (PromoteRepair_Solve R p) = kFeasible" for p
    using PromoteRepair_answer(1) [OF that] unfolding placed_ok_def by blast
  show "\<not> valid_solution p s" if "status (PromoteRepair_Solve R p) = kInfeasibleProven" for p s
    using PromoteRepair_answer(2) [of R p] that by simp
qed

section \<open>Promote all\<close>

definition reuses_no_soft_pair :: "DsaProblem \<Rightarrow> DsaSolution \<Rightarrow> bool" where
  "reuses_no_soft_pair p s \<longleftrightarrow>
     (\<forall>pair\<in>fst ` set (soft_weights (built p)). \<not> pair_overlaps p (offsets_of p s) pair)"

definition all_promoted :: "DsaProblem \<Rightarrow> DsaProblem" where
  "all_promoted p = WithPromotedReuseEdges p (built p) (ActivePairs (soft_weights (built p)))"

lemma all_promoted_valid:
  assumes "pinned_allocations p = []"
  shows "valid_solution (all_promoted p) s \<longleftrightarrow> valid_solution p s \<and> reuses_no_soft_pair p s"
  unfolding all_promoted_def by (subst with_promoted_valid [OF assms]) (simp_all add: ActivePairs_def reuses_no_soft_pair_def)

lemma RejectUnsupported_answer: "status (RejectUnsupported p name c) \<notin> {kFeasible, kInfeasibleProven}"
  using RejectUnsupported_status [of p name c] by auto

lemma PromoteAll_cases:
  obtains (refused) "status (PromoteAll_Solve limit p) \<notin> {kFeasible, kInfeasibleProven}"
    | (run) options exact where "pinned_allocations p = []" "incumbent_offsets options = None"
      "exact = RunCanonicalExactSearch (all_promoted p) (built (all_promoted p)) options"
      "status (PromoteAll_Solve limit p) = ces_status exact \<or> status (PromoteAll_Solve limit p) \<notin> {kFeasible, kInfeasibleProven}"
      "status (PromoteAll_Solve limit p) = kFeasible \<Longrightarrow> \<exists>s. solution (PromoteAll_Solve limit p) = Some s \<and>
         ValidateSolution (all_promoted p) s = [] \<and> res_objective (PromoteAll_Solve limit p) = EvaluateObjective p s"
proof -
  let ?options = "\<lparr>node_limit = limit, stop_after_first = True, incumbent_offsets = None\<rparr>"
  define exact where "exact = RunCanonicalExactSearch (all_promoted p) (built (all_promoted p)) ?options"
  consider "\<not> Compatible (CheckSolverCompatibility p BaselineCapabilities)" | "space_errors (placement (built p)) \<noteq> []"
    | (go) "Compatible (CheckSolverCompatibility p BaselineCapabilities)" "space_errors (placement (built p)) = []" by blast
  then show thesis
  proof cases
    case go
    then have "StructurallyCompatible (CheckSolverCompatibility p BaselineCapabilities)" by (simp add: Compatible_def)
    then have pins: "pinned_allocations p = []"
      unfolding structural_compatibility by (simp add: BaselineCapabilities_def SolverCapabilities_default_def)
    note solve = PromoteAll_Solve_def [of limit p, unfolded Let_def, folded all_promoted_def, folded exact_def]
    have "ces_offsets exact \<noteq> None" if "ces_status exact = kFeasible"
      using feasible_search_offsets [of ?options "all_promoted p"] that by (simp add: exact_def)
    note found = this
    show thesis
      by (rule run [OF pins _ exact_def])
         (use go found in \<open>auto simp: solve DsaResult_default_def add_diagnostics_def BuildValidatedReuseResult_def Let_def
            split: option.splits if_splits\<close>)
  qed (use refused RejectUnsupported_answer in \<open>auto simp: PromoteAll_Solve_def failed_result_def Let_def\<close>)
qed

lemma PromoteAll_feasible:
  assumes "status (PromoteAll_Solve limit p) = kFeasible"
  shows "\<exists>s. solution (PromoteAll_Solve limit p) = Some s \<and> ValidateSolution p s = [] \<and> reuses_no_soft_pair p s \<and>
    res_objective (PromoteAll_Solve limit p) = EvaluateObjective p s"
proof (cases limit p rule: PromoteAll_cases)
  case (run options exact)
  from run(5) [OF assms] obtain s where s: "solution (PromoteAll_Solve limit p) = Some s"
    "ValidateSolution (all_promoted p) s = []" "res_objective (PromoteAll_Solve limit p) = EvaluateObjective p s" by blast
  moreover have "reuses_no_soft_pair p s" using s(2) all_promoted_valid [OF run(1)] by (simp add: ValidateSolution_Nil)
  moreover have "ValidateSolution p s = []" using with_promoted_ValidateSolution s(2) unfolding all_promoted_def by blast
  ultimately show ?thesis by blast
qed (use assms in simp)

lemma PromoteAll_infeasible:
  assumes "status (PromoteAll_Solve limit p) = kInfeasibleProven" "valid_solution p s"
  shows "\<not> reuses_no_soft_pair p s"
proof (cases limit p rule: PromoteAll_cases)
  case (run options exact)
  have "ces_status exact = kInfeasibleProven" using run(4) assms(1) by auto
  then have "\<not> valid_solution (all_promoted p) s"
    using infeasible_search [OF _ run(2), of "all_promoted p"] run(1,3) by (simp add: all_promoted_def)
  then show ?thesis using all_promoted_valid [OF run(1)] assms(2) by simp
qed (use assms in simp)

text \<open>On a problem it accepts, and without a node limit, promote all decides.\<close>

lemma PromoteAll_decides:
  assumes "Compatible (CheckSolverCompatibility p BaselineCapabilities)" "searchable p"
  shows "status (PromoteAll_Solve limit p) \<in> {kFeasible, kInfeasibleProven, kTimeout}"
    "status (PromoteAll_Solve 0 p) =
      (if \<exists>s. valid_solution p s \<and> reuses_no_soft_pair p s then kFeasible else kInfeasibleProven)"
proof -
  have "StructurallyCompatible (CheckSolverCompatibility p BaselineCapabilities)" using assms(1) by (simp add: Compatible_def)
  then have pins: "pinned_allocations p = []"
    unfolding structural_compatibility by (simp add: BaselineCapabilities_def SolverCapabilities_default_def)
  let ?q = "all_promoted p"
  have sr: "searchable ?q"
    unfolding all_promoted_def by (rule with_promoted_searchable [OF assms(2)]) (simp add: ActivePairs_def)
  have pins': "pinned_allocations ?q = []" using pins by (simp add: all_promoted_def)
  let ?options = "\<lambda>limit. \<lparr>node_limit = limit, stop_after_first = True, incumbent_offsets = None\<rparr>"
  let ?exact = "\<lambda>limit. RunCanonicalExactSearch ?q (built ?q) (?options limit)"
  have out: "pools_outcome ?q (?options limit) (pool_id ` set (pools ?q)) (replicate (node_count (built ?q)) 0) False (?exact limit)"
    for limit by (rule RunCanonicalExactSearch_outcome [OF sr]) (simp add: built.aligned_incumbent_def)
  have err: "space_errors (placement (built p)) = []" by (rule searchable_errors [OF assms(2)])
  have st: "status (PromoteAll_Solve limit p) = ces_status (?exact limit)" for limit
  proof (cases "ces_offsets (?exact limit)")
    case None
    then show ?thesis
      using assms(1) err by (simp add: PromoteAll_Solve_def Let_def all_promoted_def add_diagnostics_def)
  next
    case (Some B)
    then have "legal_in ?q q B" if "q \<in> pool_id ` set (pools ?q)" for q
      using out [of limit] that by (auto simp: pools_outcome_def)
    from BuildValidated_legal(1) [OF sr pins' this] show ?thesis
      using assms(1) err Some by (simp add: PromoteAll_Solve_def Let_def all_promoted_def add_diagnostics_def)
  qed
  have three: "ces_status (?exact limit) \<in> {kFeasible, kInfeasibleProven, kTimeout}" for limit
    using out [of limit] unfolding pools_outcome_def by auto
  then show "status (PromoteAll_Solve limit p) \<in> {kFeasible, kInfeasibleProven, kTimeout}" by (simp add: st)
  have "ces_status (?exact 0) \<noteq> kTimeout"
    unfolding RunCanonicalExactSearch_def
    using search_pools_no_limit by (simp add: CanonicalExactSearchResult_default_def)
  then have two: "status (PromoteAll_Solve 0 p) \<in> {kFeasible, kInfeasibleProven}" using three [of 0] by (simp add: st)
  show "status (PromoteAll_Solve 0 p) =
      (if \<exists>s. valid_solution p s \<and> reuses_no_soft_pair p s then kFeasible else kInfeasibleProven)"
  proof (cases "status (PromoteAll_Solve 0 p) = kFeasible")
    case True
    from PromoteAll_feasible [OF this] obtain s where "ValidateSolution p s = []" "reuses_no_soft_pair p s" by blast
    then have "\<exists>s. valid_solution p s \<and> reuses_no_soft_pair p s" by (auto simp: ValidateSolution_Nil)
    then show ?thesis using True by simp
  next
    case False
    then have "status (PromoteAll_Solve 0 p) = kInfeasibleProven" using two by simp
    moreover from PromoteAll_infeasible [OF this]
    have "\<not> (\<exists>s. valid_solution p s \<and> reuses_no_soft_pair p s)" by blast
    ultimately show ?thesis by simp
  qed
qed

interpretation promote_all_solver: placing_solver "PromoteAll_Solve limit" for limit
  by unfold_locales (use PromoteAll_feasible in blast)

section \<open>The walk down an overflow chain\<close>

lemma consider_support_bound:
  assumes "\<And>r i. by_rep r = Some i \<Longrightarrow> i < length ns" "\<And>i t. support = Some (i, t) \<Longrightarrow> i < length ns"
    "consider_support ns by_rep sol node q support r = Some (i, t)"
  shows "i < length ns"
  using assms unfolding consider_support_def by (auto simp: Let_def split: option.splits if_splits prod.splits)

lemma supports_bound:
  assumes "\<And>r i. by_rep r = Some i \<Longrightarrow> i < length ns"
  shows "(\<And>i t. support = Some (i, t) \<Longrightarrow> i < length ns) \<Longrightarrow>
    foldl (consider_support ns by_rep sol node q) support rs = Some (i, t) \<Longrightarrow> i < length ns"
proof (induction rs arbitrary: support)
  case (Cons r rs)
  have step: "j < length ns" if "consider_support ns by_rep sol node q support r = Some (j, u)" for j u
    using consider_support_bound [OF assms Cons.prems(1) that] .
  show ?case by (rule Cons.IH [OF step]) (use Cons.prems(2) in simp_all)
qed simp

text \<open>Any two amounts of fuel above the number of nodes not yet visited give the same chain.\<close>

lemma overflow_chain_enough:
  assumes "\<And>r i. by_rep r = Some i \<Longrightarrow> i < length ns"
  shows "current < length ns \<Longrightarrow> visited \<subseteq> {..<length ns} \<Longrightarrow>
    length ns - card visited < fuel \<Longrightarrow> length ns - card visited < fuel' \<Longrightarrow>
    overflow_chain fuel ns by_rep by_buffer sol active current visited soft =
    overflow_chain fuel' ns by_rep by_buffer sol active current visited soft"
proof (induction fuel arbitrary: fuel' current visited soft)
  case (Suc fuel)
  obtain k where k: "fuel' = Suc k" using Suc.prems(4) by (cases fuel') simp_all
  have step: "overflow_chain fuel ns by_rep by_buffer sol active i (insert current visited) soft' =
      overflow_chain k ns by_rep by_buffer sol active i (insert current visited) soft'"
    if "current \<notin> visited" "i < length ns" for i soft'
  proof -
    have "finite visited" using Suc.prems(2) finite_subset by blast
    moreover from this have "card visited < length ns"
      using psubset_card_mono [of "{..<length ns}" visited] Suc.prems(1,2) that(1) by fastforce
    ultimately show ?thesis using Suc.prems that by (intro Suc.IH) (auto simp: k)
  qed
  show ?case
  proof (cases "current \<in> visited")
    case False
    have "i < length ns" if "foldl (consider_support ns by_rep sol node q) None rs = Some (i, t)" for node q rs i t
      by (rule supports_bound [OF assms _ that]) simp_all
    then show ?thesis
      unfolding k overflow_chain.simps Let_def
      by (intro if_cong option.case_cong prod.case_cong refl step [OF False]) simp_all
  qed (simp add: k)
qed simp

section \<open>Uniform random colouring\<close>

lemma color_samples_placed:
  assumes "\<And>r score. best = Some (r, score) \<Longrightarrow> status r = kFeasible \<and> placed_ok p r"
  shows "(\<forall>r. color_samples R p prepared shape k best g = Inl r \<longrightarrow> status r = kInvalidProblem) \<and>
    (\<forall>r score. color_samples R p prepared shape k best g = Inr (Some (r, score)) \<longrightarrow> status r = kFeasible \<and> placed_ok p r)"
  using assms
proof (induction k arbitrary: best g)
  case (Suc k)
  obtain offsets g' where draw: "draw_offsets R shape (search_nodes prepared) g = (offsets, g')" by fastforce
  define r where "r = BuildValidatedReuseResult p prepared offsets kFeasible"
  have "status r \<in> {kFeasible, kInvalidProblem}" by (simp add: r_def BuildValidatedReuseResult_def Let_def)
  then show ?case
  proof
    assume "status r \<in> {kInvalidProblem}"
    then show ?thesis by (simp add: draw r_def [symmetric] Let_def)
  next
    assume ok: "status r = kFeasible"
    have placed: "placed_ok p r" using BuildValidated_placed ok unfolding r_def by blast
    define best' where "best' = (case best of None \<Rightarrow> Some (r, ObjectiveScore p (res_objective r))
      | Some (r', best_score) \<Rightarrow> if score_less (ObjectiveScore p (res_objective r)) best_score
          then Some (r, ObjectiveScore p (res_objective r)) else best)"
    have step: "color_samples R p prepared shape (Suc k) best g = color_samples R p prepared shape k best' g'"
      using ok unfolding r_def best'_def by (simp add: draw Let_def)
    have "status r' = kFeasible \<and> placed_ok p r'" if "best' = Some (r', score)" for r' score
      using that ok placed Suc.prems unfolding best'_def by (auto split: option.splits prod.splits if_splits)
    then show ?thesis unfolding step by (rule Suc.IH)
  qed
qed simp

lemma UnitRandomColoring_answer:
  "status (UnitRandomColoring_Solve R options p) \<in> {kInvalidProblem, kUnsupported, kFeasible}"
  "status (UnitRandomColoring_Solve R options p) = kFeasible \<Longrightarrow> placed_ok p (UnitRandomColoring_Solve R options p)"
proof -
  define prepared where "prepared = built p"
  have samples: "(\<forall>r. color_samples R p prepared shape k None g = Inl r \<longrightarrow> status r = kInvalidProblem) \<and>
    (\<forall>r score. color_samples R p prepared shape k None g = Inr (Some (r, score)) \<longrightarrow> status r = kFeasible \<and> placed_ok p r)"
    for shape k g by (rule color_samples_placed) simp
  note solve = UnitRandomColoring_Solve_def [of R options p, unfolded Let_def, folded prepared_def]
  have "status (UnitRandomColoring_Solve R options p) \<in> {kInvalidProblem, kUnsupported} \<or>
    status (UnitRandomColoring_Solve R options p) = kFeasible \<and> placed_ok p (UnitRandomColoring_Solve R options p)"
  proof (cases "Compatible (CheckSolverCompatibility p UnitRandomColoring_Capabilities)")
    case False
    then show ?thesis
      using RejectUnsupported_status [of p "''unit_random_coloring''" UnitRandomColoring_Capabilities]
      unfolding solve by simp
  next
    case compatible: True
    show ?thesis
    proof (cases "try_fold (shape_node p) (search_nodes prepared) []")
      case (Inl message)
      then show ?thesis unfolding solve by (simp add: failed_result_def compatible)
    next
      case (Inr shape)
      show ?thesis
      proof (cases "color_samples R p prepared shape (uc_samples options) None (color_engine R (uc_seed options))")
        case (Inl r)
        then show ?thesis
          using samples unfolding solve by (simp add: failed_result_def Inr compatible)
      next
        case r: (Inr best)
        show ?thesis
        proof (cases best)
          case None
          then show ?thesis unfolding solve by (simp add: failed_result_def Inr r compatible)
        next
          case (Some found)
          obtain b score where found: "found = (b, score)" by fastforce
          have "status b = kFeasible" "placed_ok p b" using samples r Some found by blast+
          then show ?thesis unfolding solve
            by (simp add: failed_result_def Inr r Some found compatible add_diagnostics_def placed_ok_def)
        qed
      qed
    qed
  qed
  then show "status (UnitRandomColoring_Solve R options p) \<in> {kInvalidProblem, kUnsupported, kFeasible}"
    "status (UnitRandomColoring_Solve R options p) = kFeasible \<Longrightarrow> placed_ok p (UnitRandomColoring_Solve R options p)"
    by auto
qed

end
