(* ===== verification/Reuse_Local_Search.thy ===== *)
theory Reuse_Local_Search
  imports Baseline_Spec Pypto_Search
begin

text \<open>
  \<^verbatim>\<open>src/dsa/algorithms/reuse_penalty_local_search_solver.cpp\<close>: the local search over a decode order and
  a set of soft edges that are promoted to separations. The random engine and its distributions are the
  parameter \<open>ReuseSource\<close>; floating point enters only through two of its fields, the weighted pick of an
  activated pair and the sample that accepts a proposal which is not better.
\<close>

section \<open>Options, random source and candidates\<close>

text \<open>\<open>rl_accepts_worse\<close> says that the initial probability of accepting is positive.\<close>

record ReusePenaltyLocalSearchOptions =
  rl_seed :: u64
  rl_max_evaluations :: nat
  rl_restarts :: nat
  rl_stagnation_limit :: nat
  rl_soft_moves :: nat
  rl_order_moves :: nat
  rl_accepts_worse :: bool

text \<open>
  \<open>shuffle_order\<close> is \<open>std::shuffle\<close>, \<open>weighted_pick ws\<close> is a \<open>discrete_distribution\<close> with weights \<open>ws\<close>,
  \<open>sample_accepts e\<close> says whether the uniform sample is below the probability after \<open>e\<close> evaluations.
\<close>

record 'g ReuseSource =
  rs_draws :: "'g RandomSource"
  shuffle_order :: "BufferId list \<Rightarrow> 'g \<Rightarrow> BufferId list \<times> 'g"
  weighted_pick :: "u64 list \<Rightarrow> 'g \<Rightarrow> nat \<times> 'g"
  sample_accepts :: "nat \<Rightarrow> 'g \<Rightarrow> bool \<times> 'g"

record Candidate =
  ca_order :: "BufferId list"
  ca_promoted :: "ReuseNodePair list"
  ca_result :: DsaResult
  ca_score :: Score

definition LocalSearchCapabilities :: SolverCapabilities where
  "LocalSearchCapabilities = SolverCapabilities_default
     \<lparr>cap_multi_interval := True, cap_reuse_cost := True, cap_colocations := True, cap_separations := True,
      cap_temporal_exclusions := True, cap_pinned_allocations := True, cap_reserved_ranges := True,
      cap_multi_pool := True, cap_lexicographic_objective := True, cap_capacity_objective := True,
      cap_peak_objective := True\<rparr>"

text \<open>Fitting comes before every term of the objective.\<close>

definition ResultScore :: "DsaProblem \<Rightarrow> DsaResult \<Rightarrow> Score" where
  "ResultScore problem r =
     (if solution r = None \<or> (status r \<noteq> kFeasible \<and> status r \<noteq> kBestEffortNoFit)
      then replicate (length (terms (objective problem)) + 2) UINT64_MAX
      else (if status r = kFeasible then 0 else 1) #
           EvaluateObjectiveMetric problem (res_objective r) kCapacityOverflow #
           map (EvaluateObjectiveMetric problem (res_objective r)) (terms (objective problem)))"

definition Evaluate ::
  "DsaProblem \<Rightarrow> ReusePenaltySearchSpace \<Rightarrow> BufferId list \<Rightarrow> ReuseNodePair list \<Rightarrow> Candidate" where
  "Evaluate problem search order promoted =
     (let promoted_problem = WithPromotedReuseEdges problem search promoted;
          placed = PlaceWithOrder promoted_problem order kFirstFit;
          r = (case solution placed of
                 None \<Rightarrow> placed
               | Some s \<Rightarrow> placed\<lparr>res_objective := EvaluateObjective problem s\<rparr>)
      in \<lparr>ca_order = order, ca_promoted = promoted, ca_result = r, ca_score = ResultScore problem r\<rparr>)"

definition EverySoftPair :: "ReusePenaltySearchSpace \<Rightarrow> ReuseNodePair list" where
  "EverySoftPair search = map fst (soft_weights search)"

definition NodeOrder :: "DsaProblem \<Rightarrow> ReusePenaltySearchSpace \<Rightarrow> BufferId list" where
  "NodeOrder problem search =
     map (\<lambda>i. node_representative (search_nodes search ! i)) (DefaultReuseNodeOrder problem search)"

definition pair_activated :: "ReusePenaltySearchSpace \<Rightarrow> DsaSolution \<Rightarrow> ReuseNodePair \<Rightarrow> bool" where
  "pair_activated search sol pair =
     (let first = search_nodes search ! fst pair; second = search_nodes search ! snd pair in
      case (Find sol (node_representative first), Find sol (node_representative second)) of
        (Some p, Some q) \<Rightarrow>
          pl_pool p = pl_pool q \<and>
          AddressRangesOverlap (pl_offset p) (node_size first) (pl_offset q) (node_size second)
      | _ \<Rightarrow> False)"

definition ActivatedPairs :: "ReusePenaltySearchSpace \<Rightarrow> DsaSolution \<Rightarrow> ReuseNodePair list" where
  "ActivatedPairs search sol = filter (pair_activated search sol) (map fst (soft_weights search))"

section \<open>Moves\<close>

definition soft_class :: "ReuseNodePair list \<Rightarrow> ReuseNodePair list \<Rightarrow> ReuseNodePair \<Rightarrow> nat" where
  "soft_class promoted active pair =
     (if pair \<notin> set promoted \<and> pair \<in> set active then 0 else if pair \<in> set promoted then 1 else 2)"

definition soft_weight :: "ReusePenaltySearchSpace \<Rightarrow> ReuseNodePair \<Rightarrow> u64" where
  "soft_weight search pair = the (map_of (soft_weights search) pair)"

text \<open>
  Activated pairs first, then promoted ones, then the rest; the cheapest promoted pair comes first, and
  the most expensive one in the other classes.
\<close>

definition soft_move_less ::
  "ReusePenaltySearchSpace \<Rightarrow> ReuseNodePair list \<Rightarrow> ReuseNodePair list \<Rightarrow> ReuseNodePair \<Rightarrow> ReuseNodePair \<Rightarrow> bool" where
  "soft_move_less search promoted active first second =
     (let first_class = soft_class promoted active first;
          second_class = soft_class promoted active second;
          first_weight = soft_weight search first; second_weight = soft_weight search second
      in if first_class \<noteq> second_class then first_class < second_class
         else if first_class = 1 \<and> first_weight \<noteq> second_weight then first_weight < second_weight
         else if first_class \<noteq> 1 \<and> first_weight \<noteq> second_weight then first_weight > second_weight
         else first < second)"

definition OrderedSoftMoves :: "ReusePenaltySearchSpace \<Rightarrow> Candidate \<Rightarrow> ReuseNodePair list" where
  "OrderedSoftMoves search current =
     (let active = (case solution (ca_result current) of None \<Rightarrow> [] | Some s \<Rightarrow> ActivatedPairs search s)
      in sort_by (soft_move_less search (ca_promoted current) active) (map fst (soft_weights search)))"

definition move_before :: "nat \<Rightarrow> nat \<Rightarrow> 'a list \<Rightarrow> 'a list" where
  "move_before first second order =
     (let rest = take first order @ drop (Suc first) order
      in insert_at (if first < second then second - 1 else second) (order ! first) rest)"

definition swap_or_move :: "u64 \<Rightarrow> nat \<Rightarrow> nat \<Rightarrow> 'a list \<Rightarrow> 'a list" where
  "swap_or_move w first second order =
     (if even (unat w) then move_swap first second order else move_before first second order)"

definition ApplyOrderMove :: "'g RandomSource \<Rightarrow> 'g OrderMove" where
  "ApplyOrderMove R order g =
     (if length order < 2 then Some (order, g)
      else do {
        let (first, g1) = draw_index R (length order) g;
        let (second, g2) = draw_index R (length order) g1;
        (second, g3) \<leftarrow> redraw R (length order) first second g2;
        let (w, g4) = draw_word R g3;
        Some (swap_or_move w first second order, g4)
      })"

definition CombinedNeighbors :: "ReusePenaltySearchSpace \<Rightarrow> nat \<Rightarrow> nat list" where
  "CombinedNeighbors search node =
     foldl (\<lambda>ns (pair, w). if fst pair = node then insort_insert (snd pair) ns
                           else if snd pair = node then insort_insert (fst pair) ns else ns)
       (hard_neighbors search ! node) (soft_weights search)"

text \<open>The node that overflows its pool most, then the one with the higher top, then the later one.\<close>

definition consider_highest ::
  "DsaProblem \<Rightarrow> ReusePenaltySearchSpace \<Rightarrow> DsaSolution \<Rightarrow> (u64 \<times> u64 \<times> nat) option \<Rightarrow> nat \<Rightarrow> (u64 \<times> u64 \<times> nat) option" where
  "consider_highest problem search sol highest node =
     (let n = search_nodes search ! node in
      case Find sol (node_representative n) of
        None \<Rightarrow> highest
      | Some p \<Rightarrow>
          if AddOverflows (pl_offset p) (node_size n) then highest
          else let top = pl_offset p + node_size n in
            (case FindPool problem (node_pool n) of
               None \<Rightarrow> highest
             | Some pool \<Rightarrow>
                 (case capacity pool of
                    None \<Rightarrow> highest
                  | Some cap \<Rightarrow>
                      if top \<le> cap then highest
                      else (case highest of
                              None \<Rightarrow> Some (top - cap, top, node)
                            | Some h \<Rightarrow> if h < (top - cap, top, node) then Some (top - cap, top, node) else highest))))"

definition highest_overflow ::
  "DsaProblem \<Rightarrow> ReusePenaltySearchSpace \<Rightarrow> Candidate \<Rightarrow> (u64 \<times> u64 \<times> nat) option" where
  "highest_overflow problem search current =
     (case solution (ca_result current) of
        None \<Rightarrow> None
      | Some s \<Rightarrow>
          if EvaluateObjectiveMetric problem (res_objective (ca_result current)) kCapacityOverflow \<noteq> 0
          then foldl (consider_highest problem search s) None [0..<length (search_nodes search)]
          else None)"

definition TargetNode ::
  "'g ReuseSource \<Rightarrow> DsaProblem \<Rightarrow> ReusePenaltySearchSpace \<Rightarrow> Candidate \<Rightarrow> 'g \<Rightarrow> nat option \<times> 'g" where
  "TargetNode R problem search current g =
     (let active = (case solution (ca_result current) of None \<Rightarrow> [] | Some s \<Rightarrow> ActivatedPairs search s) in
      case highest_overflow problem search current of
        Some (_, _, node) \<Rightarrow> (Some node, g)
      | None \<Rightarrow>
          if active \<noteq> []
          then let (k, g1) = weighted_pick R (map (soft_weight search) active) g;
                   pair = active ! k;
                   (w, g2) = draw_word (rs_draws R) g1
               in (Some (if even (unat w) then fst pair else snd pair), g2)
          else if search_nodes search = [] then (None, g)
          else let (w, g1) = draw_word (rs_draws R) g
               in (Some (unat w mod length (search_nodes search)), g1))"

text \<open>The moved order, if there was a target to move.\<close>

definition two_levels :: "ReusePenaltySearchSpace \<Rightarrow> nat \<Rightarrow> nat list" where
  "two_levels search target =
     (let first_level = CombinedNeighbors search target
      in filter (\<lambda>n. n \<noteq> target)
           (foldl (\<lambda>ns neighbor. foldl (\<lambda>ns n. insort_insert n ns) ns (CombinedNeighbors search neighbor))
              first_level first_level))"

definition ApplyTargetedOrderMove ::
  "'g ReuseSource \<Rightarrow> DsaProblem \<Rightarrow> ReusePenaltySearchSpace \<Rightarrow> Candidate \<Rightarrow> BufferId list \<Rightarrow> 'g \<Rightarrow>
   BufferId list option \<times> 'g" where
  "ApplyTargetedOrderMove R problem search current order g =
     (case TargetNode R problem search current g of
        (None, g1) \<Rightarrow> (None, g1)
      | (Some target, g1) \<Rightarrow>
          let neighborhood = two_levels search target in
          if neighborhood = [] then (None, g1)
          else
            let (w, g2) = draw_word (rs_draws R) g1;
                neighbor = neighborhood ! (unat w mod length neighborhood);
                first = node_representative (search_nodes search ! target);
                second = node_representative (search_nodes search ! neighbor)
            in (case (index_from 0 first order, index_from 0 second order) of
                  (Some i, Some j) \<Rightarrow>
                    let (w, g3) = draw_word (rs_draws R) g2 in (Some (swap_or_move w i j order), g3)
                | _ \<Rightarrow> (None, g2)))"

definition Better :: "Candidate \<Rightarrow> Candidate \<Rightarrow> bool" where
  "Better first second =
     (if ca_score first \<noteq> ca_score second then score_less (ca_score first) (ca_score second)
      else if length (ca_promoted first) \<noteq> length (ca_promoted second)
      then length (ca_promoted first) > length (ca_promoted second)
      else ca_order first < ca_order second)"

definition Toggle :: "ReuseNodePair \<Rightarrow> ReuseNodePair list \<Rightarrow> ReuseNodePair list" where
  "Toggle pair promoted =
     (if pair \<in> set promoted then filter (\<lambda>q. q \<noteq> pair) promoted else insort_insert pair promoted)"

definition AcceptNonImproving ::
  "'g ReuseSource \<Rightarrow> ReusePenaltyLocalSearchOptions \<Rightarrow> nat \<Rightarrow> 'g \<Rightarrow> bool \<times> 'g" where
  "AcceptNonImproving R options evaluations g =
     (if \<not> rl_accepts_worse options \<or> rl_max_evaluations options = 0 then (False, g)
      else sample_accepts R evaluations g)"

section \<open>Constructive seeds\<close>

fun ranked_nodes ::
  "DsaSolution \<Rightarrow> PlacementSearchNode list \<Rightarrow> ((PoolId \<times> u64) \<times> BufferId) list option" where
  "ranked_nodes sol [] = Some []"
| "ranked_nodes sol (node # rest) =
     (case Find sol (node_representative node) of
        None \<Rightarrow> None
      | Some p \<Rightarrow> map_option (\<lambda>ranked. ((pl_pool p, pl_offset p), node_representative node) # ranked) (ranked_nodes sol rest))"

definition ConstructiveSeed ::
  "DsaProblem \<Rightarrow> ReusePenaltySearchSpace \<Rightarrow> DsaResult \<Rightarrow> bool \<Rightarrow> Candidate option" where
  "ConstructiveSeed problem search r promote_separated_pairs =
     (if status r \<noteq> kFeasible then None
      else case solution r of
        None \<Rightarrow> None
      | Some s \<Rightarrow>
          (case ranked_nodes s (search_nodes search) of
             None \<Rightarrow> None
           | Some ranked \<Rightarrow>
               let order = map snd (sort ranked);
                   active = ActivatedPairs search s;
                   promoted = (if promote_separated_pairs
                     then filter (\<lambda>pair. pair \<notin> set active) (map fst (soft_weights search)) else [])
               in Some (Evaluate problem search order promoted)))"

record SeedState =
  sd_evaluations :: nat
  sd_best :: Candidate
  sd_incumbent :: "(DsaResult \<times> Score) option"
  sd_constructive :: nat

definition retain_constructive_incumbent ::
  "DsaProblem \<Rightarrow> DsaResult \<Rightarrow> (DsaResult \<times> Score) option \<Rightarrow> (DsaResult \<times> Score) option" where
  "retain_constructive_incumbent problem candidate incumbent =
     (if status candidate \<noteq> kFeasible \<or> solution candidate = None then incumbent
      else let score = ResultScore problem candidate in
        case incumbent of
          None \<Rightarrow> Some (candidate, score)
        | Some (_, constructive_score) \<Rightarrow>
            if score_less score constructive_score then Some (candidate, score) else incumbent)"

definition keep_better :: "Candidate \<Rightarrow> Candidate \<Rightarrow> Candidate" where
  "keep_better candidate best = (if Better candidate best then candidate else best)"

definition try_strict ::
  "DsaProblem \<Rightarrow> ReusePenaltySearchSpace \<Rightarrow> ReusePenaltyLocalSearchOptions \<Rightarrow> BufferId list \<Rightarrow> SeedState \<Rightarrow> SeedState" where
  "try_strict problem search options seed_order st =
     (if sd_evaluations st < rl_max_evaluations options
      then st\<lparr>sd_evaluations := sd_evaluations st + 1,
              sd_best := keep_better (Evaluate problem search seed_order (EverySoftPair search)) (sd_best st)\<rparr>
      else st)"

definition try_constructive ::
  "DsaProblem \<Rightarrow> ReusePenaltySearchSpace \<Rightarrow> ReusePenaltyLocalSearchOptions \<Rightarrow> (DsaProblem \<Rightarrow> DsaResult) \<Rightarrow> bool \<Rightarrow>
   SeedState \<Rightarrow> SeedState" where
  "try_constructive problem search options solve promote_separated_pairs st =
     (if sd_evaluations st < rl_max_evaluations options
      then
        let r = solve (problem\<lparr>objective := FitThenMinimizeReuseCostObjective\<rparr>);
            st1 = st\<lparr>sd_incumbent := retain_constructive_incumbent problem r (sd_incumbent st)\<rparr>
        in (case ConstructiveSeed problem search r promote_separated_pairs of
              None \<Rightarrow> st1
            | Some seed \<Rightarrow>
                st1\<lparr>sd_evaluations := sd_evaluations st1 + 1, sd_constructive := sd_constructive st1 + 1,
                    sd_best := keep_better seed (sd_best st1)\<rparr>)
      else st)"

definition seed_state ::
  "'h Shuffler \<Rightarrow> DsaProblem \<Rightarrow> ReusePenaltySearchSpace \<Rightarrow> ReusePenaltyLocalSearchOptions \<Rightarrow> SeedState" where
  "seed_state S problem search options =
     (let seed_order = NodeOrder problem search;
          st0 = \<lparr>sd_evaluations = 1, sd_best = Evaluate problem search seed_order [], sd_incumbent = None,
                 sd_constructive = 0\<rparr>
      in try_constructive problem search options (PromoteRepair_Solve S) True
           (try_constructive problem search options (CanonicalGreedy_Solve S CanonicalGreedyOptions_default) False
              (try_strict problem search options seed_order st0)))"

section \<open>The search\<close>

record 'g RlsState =
  rl_evaluations :: nat
  rl_best :: Candidate
  rl_current :: Candidate
  rl_stagnation :: nat
  rl_random :: 'g
  rl_accepted :: nat
  rl_accepted_worse :: nat
  rl_softs :: nat
  rl_orders :: nat
  rl_targeted :: nat

text \<open>One iteration collects the best proposal, and the best one that is accepted without being better.\<close>

record Proposals =
  pr_next :: Candidate
  pr_escape :: "Candidate option"
  pr_improved :: bool

definition propose ::
  "'g ReuseSource \<Rightarrow> ReusePenaltyLocalSearchOptions \<Rightarrow> Candidate \<Rightarrow> 'g RlsState \<times> Proposals \<Rightarrow> 'g RlsState \<times> Proposals" where
  "propose R options candidate stp =
     (let (st, pr) = stp in
      if Better candidate (pr_next pr) then (st, pr\<lparr>pr_next := candidate, pr_improved := True\<rparr>)
      else if Better candidate (rl_current st) then (st, pr)
      else
        let (accept, g) = AcceptNonImproving R options (rl_evaluations st) (rl_random st);
            st1 = st\<lparr>rl_random := g\<rparr>
        in if accept \<and> (case pr_escape pr of None \<Rightarrow> True | Some e \<Rightarrow> Better candidate e)
           then (st1, pr\<lparr>pr_escape := Some candidate\<rparr>) else (st1, pr))"

fun soft_scan ::
  "'g ReuseSource \<Rightarrow> DsaProblem \<Rightarrow> ReusePenaltySearchSpace \<Rightarrow> ReusePenaltyLocalSearchOptions \<Rightarrow> ReuseNodePair list \<Rightarrow>
   'g RlsState \<times> Proposals \<Rightarrow> 'g RlsState \<times> Proposals" where
  "soft_scan R problem search options [] stp = stp"
| "soft_scan R problem search options (pair # rest) stp =
     (let (st, pr) = stp in
      if rl_evaluations st < rl_max_evaluations options
      then
        let candidate = Evaluate problem search (ca_order (rl_current st)) (Toggle pair (ca_promoted (rl_current st)));
            st1 = st\<lparr>rl_evaluations := rl_evaluations st + 1, rl_softs := rl_softs st + 1\<rparr>
        in soft_scan R problem search options rest (propose R options candidate (st1, pr))
      else stp)"

text \<open>The order of a proposal and whether the move was targeted.\<close>

definition order_move ::
  "'g ReuseSource \<Rightarrow> DsaProblem \<Rightarrow> ReusePenaltySearchSpace \<Rightarrow> Candidate \<Rightarrow> 'g \<Rightarrow> (BufferId list \<times> bool \<times> 'g) option" where
  "order_move R problem search current g =
     (case ApplyTargetedOrderMove R problem search current (ca_order current) g of
        (Some order, g1) \<Rightarrow> Some (order, True, g1)
      | (None, g1) \<Rightarrow>
          do {
            (order, g2) \<leftarrow> ApplyOrderMove (rs_draws R) (ca_order current) g1;
            Some (order, False, g2)
          })"

fun order_scan ::
  "'g ReuseSource \<Rightarrow> DsaProblem \<Rightarrow> ReusePenaltySearchSpace \<Rightarrow> ReusePenaltyLocalSearchOptions \<Rightarrow> nat \<Rightarrow>
   'g RlsState \<times> Proposals \<Rightarrow> ('g RlsState \<times> Proposals) option" where
  "order_scan R problem search options 0 stp = Some stp"
| "order_scan R problem search options (Suc moves) stp =
     (let (st, pr) = stp in
      if rl_evaluations st < rl_max_evaluations options
      then do {
        (order, targeted, g) \<leftarrow> order_move R problem search (rl_current st) (rl_random st);
        let candidate = Evaluate problem search order (ca_promoted (rl_current st));
        let st1 = st\<lparr>rl_evaluations := rl_evaluations st + 1, rl_random := g, rl_orders := rl_orders st + 1,
                     rl_targeted := rl_targeted st + (if targeted then 1 else 0)\<rparr>;
        order_scan R problem search options moves (propose R options candidate (st1, pr))
      }
      else Some stp)"

definition kick ::
  "'g ReuseSource \<Rightarrow> DsaProblem \<Rightarrow> ReusePenaltySearchSpace \<Rightarrow> ReuseNodePair list \<Rightarrow> 'g RlsState \<Rightarrow> 'g RlsState option" where
  "kick R problem search soft_candidates st =
     do {
       (order, g) \<leftarrow> ApplyOrderMove (rs_draws R) (ca_order (rl_current st)) (rl_random st);
       let (promoted, g1) = (if soft_candidates = [] then (ca_promoted (rl_current st), g)
         else let (w, g1) = draw_word (rs_draws R) g
              in (Toggle (soft_candidates ! (unat w mod length soft_candidates)) (ca_promoted (rl_current st)), g1));
       let candidate = Evaluate problem search order promoted;
       Some (st\<lparr>rl_current := candidate, rl_best := keep_better candidate (rl_best st),
                rl_evaluations := rl_evaluations st + 1, rl_random := g1\<rparr>)
     }"

definition settle ::
  "'g ReuseSource \<Rightarrow> DsaProblem \<Rightarrow> ReusePenaltySearchSpace \<Rightarrow> ReusePenaltyLocalSearchOptions \<Rightarrow> ReuseNodePair list \<Rightarrow>
   'g RlsState \<times> Proposals \<Rightarrow> 'g RlsState option" where
  "settle R problem search options soft_candidates stp =
     (let (st, pr) = stp in
      if pr_improved pr \<and> Better (pr_next pr) (rl_current st)
      then Some (st\<lparr>rl_current := pr_next pr, rl_accepted := rl_accepted st + 1, rl_stagnation := 0,
                    rl_best := keep_better (pr_next pr) (rl_best st)\<rparr>)
      else case pr_escape pr of
        Some escape \<Rightarrow>
          Some (st\<lparr>rl_current := escape, rl_accepted := rl_accepted st + 1,
                   rl_accepted_worse := rl_accepted_worse st + 1, rl_stagnation := rl_stagnation st + 1\<rparr>)
      | None \<Rightarrow>
          let st1 = st\<lparr>rl_stagnation := rl_stagnation st + 1\<rparr> in
          if rl_stagnation st1 = rl_stagnation_limit options div 2 \<and> rl_evaluations st1 < rl_max_evaluations options
          then kick R problem search soft_candidates st1 else Some st1)"

definition iteration ::
  "'g ReuseSource \<Rightarrow> DsaProblem \<Rightarrow> ReusePenaltySearchSpace \<Rightarrow> ReusePenaltyLocalSearchOptions \<Rightarrow> 'g RlsState \<Rightarrow>
   'g RlsState option" where
  "iteration R problem search options st =
     (let soft_candidates = OrderedSoftMoves search (rl_current st);
          pr = \<lparr>pr_next = rl_current st, pr_escape = None, pr_improved = False\<rparr>;
          scanned = soft_scan R problem search options (take (rl_soft_moves options) soft_candidates) (st, pr)
      in do {
        stp \<leftarrow> order_scan R problem search options (rl_order_moves options) scanned;
        settle R problem search options soft_candidates stp
      })"

partial_function (option) stagnate ::
  "'g ReuseSource \<Rightarrow> DsaProblem \<Rightarrow> ReusePenaltySearchSpace \<Rightarrow> ReusePenaltyLocalSearchOptions \<Rightarrow> 'g RlsState \<Rightarrow>
   'g RlsState option" where
  "stagnate R problem search options st =
     (if rl_evaluations st < rl_max_evaluations options \<and> rl_stagnation st < rl_stagnation_limit options
      then Option.bind (iteration R problem search options st) (stagnate R problem search options)
      else Some st)"

declare stagnate.simps [code]

text \<open>A restart shuffles the order of the best candidate and toggles each soft edge with a random bit.\<close>

fun toggle_all ::
  "'g RandomSource \<Rightarrow> ReuseNodePair list \<Rightarrow> ReuseNodePair list \<Rightarrow> 'g \<Rightarrow> ReuseNodePair list \<times> 'g" where
  "toggle_all R [] promoted g = (promoted, g)"
| "toggle_all R (pair # rest) promoted g =
     (let (w, g1) = draw_word R g
      in toggle_all R rest (if odd (unat w) then Toggle pair promoted else promoted) g1)"

definition restart_candidate ::
  "'g ReuseSource \<Rightarrow> DsaProblem \<Rightarrow> ReusePenaltySearchSpace \<Rightarrow> 'g RlsState \<Rightarrow> 'g RlsState" where
  "restart_candidate R problem search st =
     (let (order, g1) = shuffle_order R (ca_order (rl_best st)) (rl_random st);
          (promoted, g2) = toggle_all (rs_draws R) (map fst (soft_weights search)) (ca_promoted (rl_best st)) g1;
          candidate = Evaluate problem search order promoted
      in st\<lparr>rl_current := candidate, rl_best := keep_better candidate (rl_best st),
            rl_evaluations := rl_evaluations st + 1, rl_random := g2\<rparr>)"

text \<open>The argument counts the restarts that remain.\<close>

fun rls_restarts ::
  "'g ReuseSource \<Rightarrow> DsaProblem \<Rightarrow> ReusePenaltySearchSpace \<Rightarrow> ReusePenaltyLocalSearchOptions \<Rightarrow> nat \<Rightarrow> 'g RlsState \<Rightarrow>
   'g RlsState option" where
  "rls_restarts R problem search options 0 st = Some st"
| "rls_restarts R problem search options (Suc remaining) st =
     (if rl_evaluations st < rl_max_evaluations options
      then
        let st1 = (if Suc remaining = rl_restarts options then st\<lparr>rl_current := rl_best st\<rparr>
                   else restart_candidate R problem search st)
        in do {
          st2 \<leftarrow> stagnate R problem search options (st1\<lparr>rl_stagnation := 0\<rparr>);
          rls_restarts R problem search options remaining st2
        }
      else Some st)"

section \<open>The solver\<close>

text \<open>The constructive incumbent replaces the best candidate when its score is smaller.\<close>

definition from_constructive :: "(DsaResult \<times> Score) option \<Rightarrow> Candidate \<Rightarrow> bool" where
  "from_constructive incumbent best =
     (case incumbent of None \<Rightarrow> False | Some (_, constructive_score) \<Rightarrow> score_less constructive_score (ca_score best))"

definition final_result :: "(DsaResult \<times> Score) option \<Rightarrow> Candidate \<Rightarrow> DsaResult" where
  "final_result incumbent best =
     (if from_constructive incumbent best then fst (the incumbent) else ca_result best)"

definition short_metrics :: "SeedState \<Rightarrow> (string \<rightharpoonup> u64)" where
  "short_metrics sd = map_of
     [(''evaluations'', of_nat (sd_evaluations sd)), (''accepted_moves'', 0),
      (''promoted_edges'', of_nat (length (ca_promoted (sd_best sd)))),
      (''constructive_seeds'', of_nat (sd_constructive sd)),
      (''output_from_constructive'', flag (from_constructive (sd_incumbent sd) (sd_best sd)))]"

definition search_metrics :: "ReusePenaltySearchSpace \<Rightarrow> SeedState \<Rightarrow> 'g RlsState \<Rightarrow> (string \<rightharpoonup> u64)" where
  "search_metrics search sd st = map_of
     [(''evaluations'', of_nat (rl_evaluations st)), (''accepted_moves'', of_nat (rl_accepted st)),
      (''accepted_non_improving_moves'', of_nat (rl_accepted_worse st)), (''soft_moves'', of_nat (rl_softs st)),
      (''order_moves'', of_nat (rl_orders st)), (''targeted_order_moves'', of_nat (rl_targeted st)),
      (''promoted_edges'', of_nat (length (ca_promoted (rl_best st)))),
      (''soft_edges'', of_nat (length (soft_weights search))),
      (''constructive_seeds'', of_nat (sd_constructive sd)),
      (''output_from_constructive'', flag (from_constructive (sd_incumbent sd) (rl_best st)))]"

definition rls_search ::
  "'g ReuseSource \<Rightarrow> 'h Shuffler \<Rightarrow> ReusePenaltyLocalSearchOptions \<Rightarrow> DsaProblem \<Rightarrow> ReusePenaltySearchSpace \<Rightarrow>
   DsaResult option" where
  "rls_search R S options problem search =
     (let sd = seed_state S problem search options in
      if rl_max_evaluations options \<le> sd_evaluations sd \<or> rl_restarts options = 0 \<or>
         (length (NodeOrder problem search) < 2 \<and> soft_weights search = [])
      then Some ((final_result (sd_incumbent sd) (sd_best sd))\<lparr>solver_metrics := short_metrics sd\<rparr>)
      else do {
        st \<leftarrow> rls_restarts R problem search options (rl_restarts options)
                \<lparr>rl_evaluations = sd_evaluations sd, rl_best = sd_best sd, rl_current = sd_best sd, rl_stagnation = 0,
                 rl_random = seed_random (rs_draws R) (rl_seed options), rl_accepted = 0, rl_accepted_worse = 0,
                 rl_softs = 0, rl_orders = 0, rl_targeted = 0\<rparr>;
        Some (add_diagnostics
          [''reuse_penalty_local_search searched both the placement order and the promoted soft-edge set using targeted two-level neighborhoods, decaying non-improving acceptance, and full deterministic re-decodes'']
          ((final_result (sd_incumbent sd) (rl_best st))\<lparr>solver_metrics := search_metrics search sd st\<rparr>))
      })"

definition ReusePenaltyLocalSearch_Solve ::
  "'g ReuseSource \<Rightarrow> 'h Shuffler \<Rightarrow> ReusePenaltyLocalSearchOptions \<Rightarrow> DsaProblem \<Rightarrow> DsaResult option" where
  "ReusePenaltyLocalSearch_Solve R S options problem =
     (let validation = ValidateProblem problem;
          compatibility = CheckSolverCompatibility problem LocalSearchCapabilities;
          search = BuildReusePenaltySearchSpace problem
      in if validation \<noteq> [] then Some (failed_result kInvalidProblem validation)
         else if \<not> Compatible compatibility
         then Some (failed_result kUnsupported
                (feature_messages ''reuse_penalty_local_search'' compatibility @
                 objective_messages ''reuse_penalty_local_search'' compatibility))
         else if list_ex (\<lambda>pool. capacity pool = None) (pools problem)
         then Some (failed_result kUnsupported [''reuse_penalty_local_search requires fixed pool capacities''])
         else if space_errors (placement search) \<noteq> []
         then Some (failed_result kInvalidProblem (space_errors (placement search)))
         else if space_flexible_pools (placement search)
         then Some (failed_result kUnsupported [''reuse_penalty_local_search does not support flexible pools''])
         else rls_search R S options problem search)"

end
