(* ===== verification/Reuse_Local_Spec.thy ===== *)
theory Reuse_Local_Spec
  imports Reuse_Local_Search
begin

text \<open>
  What the reuse-penalty local search promises. Every candidate is a decode of its order under its promoted
  pairs, so a feasible answer is valid for the problem itself; the answer never scores worse than the first
  decode; the evaluation budget is kept; and the search returns when the random source is fair.
\<close>

section \<open>Candidates\<close>

definition evaluated :: "DsaProblem \<Rightarrow> ReusePenaltySearchSpace \<Rightarrow> Candidate \<Rightarrow> bool" where
  "evaluated p search c \<longleftrightarrow> c = Evaluate p search (ca_order c) (ca_promoted c)"

lemma Evaluate_simps [simp]:
  "ca_order (Evaluate p search order promoted) = order" "ca_promoted (Evaluate p search order promoted) = promoted"
  "evaluated p search (Evaluate p search order promoted)"
  by (simp_all add: evaluated_def Evaluate_def Let_def)

lemma Evaluate_result:
  "status (ca_result (Evaluate p search order promoted)) =
     status (PlaceWithOrder (WithPromotedReuseEdges p search promoted) order kFirstFit)"
  "solution (ca_result (Evaluate p search order promoted)) =
     solution (PlaceWithOrder (WithPromotedReuseEdges p search promoted) order kFirstFit)"
  by (simp_all add: Evaluate_def Let_def split: option.split)

lemma evaluated_score: "evaluated p search c \<Longrightarrow> ca_score c = ResultScore p (ca_result c)"
  unfolding evaluated_def Evaluate_def by (cases c) (auto simp: Let_def)

lemma evaluated_placed:
  assumes "evaluated p search c" "status (ca_result c) = kFeasible"
  shows "placed_ok p (ca_result c)"
proof -
  let ?r = "PlaceWithOrder (WithPromotedReuseEdges p search (ca_promoted c)) (ca_order c) kFirstFit"
  have c: "ca_result c = ca_result (Evaluate p search (ca_order c) (ca_promoted c))"
    using assms(1) unfolding evaluated_def by (rule arg_cong)
  then have "status ?r = kFeasible" using assms(2) Evaluate_result(1) by simp
  then obtain s where "solution ?r = Some s" "ValidateSolution p s = []" using PlaceWithOrder_promoted by blast
  then show ?thesis unfolding c by (simp add: Evaluate_def Let_def placed_ok_def)
qed

lemma evaluated_unpinned:
  assumes "evaluated p search c" "pinned_allocations p = []"
  shows "status (ca_result c) \<noteq> kInfeasibleProven"
  by (subst assms(1) [unfolded evaluated_def]) (simp add: Evaluate_result PlaceWithOrder_unpinned assms(2))

lemma with_promoted_Nil [simp]: "WithPromotedReuseEdges p search [] = p"
  by (simp add: WithPromotedReuseEdges_def)

lemma Better_score: "Better c d \<Longrightarrow> ca_score c \<le> ca_score d"
  by (auto simp: Better_def split: if_splits)

lemma keep_better_evaluated [simp]:
  "evaluated p search c \<Longrightarrow> evaluated p search d \<Longrightarrow> evaluated p search (keep_better c d)"
  by (simp add: keep_better_def)

lemma keep_better_score: "ca_score (keep_better c d) \<le> ca_score d"
  by (simp add: keep_better_def Better_score)

lemma keep_better_bound [intro]: "ca_score d \<le> b \<Longrightarrow> ca_score (keep_better c d) \<le> b"
  using keep_better_score order_trans by blast

section \<open>The seeds\<close>

definition good_incumbent :: "DsaProblem \<Rightarrow> (DsaResult \<times> Score) option \<Rightarrow> bool" where
  "good_incumbent p incumbent \<longleftrightarrow>
     (\<forall>r score. incumbent = Some (r, score) \<longrightarrow> status r = kFeasible \<and> placed_ok p r \<and> score = ResultScore p r)"

definition seed_good ::
  "DsaProblem \<Rightarrow> ReusePenaltySearchSpace \<Rightarrow> ReusePenaltyLocalSearchOptions \<Rightarrow> SeedState \<Rightarrow> bool" where
  "seed_good p search options st \<longleftrightarrow>
     evaluated p search (sd_best st) \<and>
     ca_score (sd_best st) \<le> ca_score (Evaluate p search (NodeOrder p search) []) \<and>
     good_incumbent p (sd_incumbent st) \<and> sd_evaluations st \<le> max 1 (rl_max_evaluations options)"

lemma FindBuffer_objective: "FindBuffer (p\<lparr>objective := ob\<rparr>) = FindBuffer p"
  by (simp add: FindBuffer_def fun_eq_iff)

lemma penalties_cost_objective:
  "penalties_cost (p\<lparr>objective := ob\<rparr>) sol indices extents parent cost ks =
   penalties_cost p sol indices extents parent cost ks"
proof -
  have "penalty_active (p\<lparr>objective := ob\<rparr>) = penalty_active p"
    by (simp add: penalty_active_def fun_eq_iff FindBuffer_objective HaveTemporalConflict_def split: option.splits)
  then show ?thesis by (induction ks arbitrary: parent cost) (simp_all add: Let_def split_beta split: option.split)
qed

lemma EvaluateObjective_objective: "EvaluateObjective (p\<lparr>objective := ob\<rparr>) s = EvaluateObjective p s"
  by (simp add: EvaluateObjective_def BufferIndices_def AllocationClassExtents_def penalties_cost_objective Let_def
      cong: option.case_cong)

lemma placed_ok_objective:
  assumes "placed_ok (p\<lparr>objective := ob\<rparr>) r" "well_formed p"
  shows "placed_ok p r"
proof -
  obtain s where s: "solution r = Some s" "ValidateSolution (p\<lparr>objective := ob\<rparr>) s = []"
    "res_objective r = EvaluateObjective (p\<lparr>objective := ob\<rparr>) s"
    using assms(1) by (auto simp: placed_ok_def)
  have "EvaluateObjective (p\<lparr>objective := ob\<rparr>) s = EvaluateObjective p s" by (rule EvaluateObjective_objective)
  then show ?thesis using s assms(2) by (simp add: placed_ok_def ValidateSolution_Nil valid_solution_objective)
qed

lemma retain_good:
  assumes "good_incumbent p incumbent" "status r = kFeasible \<Longrightarrow> placed_ok p r"
  shows "good_incumbent p (retain_constructive_incumbent p r incumbent)"
  using assms by (cases incumbent) (auto simp: retain_constructive_incumbent_def good_incumbent_def Let_def split: if_splits)

lemma ConstructiveSeed_evaluated: "ConstructiveSeed p search r b = Some c \<Longrightarrow> evaluated p search c"
  by (auto simp: ConstructiveSeed_def Let_def split: if_splits option.splits)

lemma try_strict_good: "seed_good p search options st \<Longrightarrow> seed_good p search options (try_strict p search options order st)"
  by (auto simp: try_strict_def seed_good_def)

lemma try_constructive_good:
  assumes "seed_good p search options st" "well_formed p"
    and "\<And>q. status (solve q) = kFeasible \<Longrightarrow> placed_ok q (solve q)"
  shows "seed_good p search options (try_constructive p search options solve b st)"
proof (cases "sd_evaluations st < rl_max_evaluations options")
  case True
  define r where "r = solve (p\<lparr>objective := FitThenMinimizeReuseCostObjective\<rparr>)"
  have "status r = kFeasible \<Longrightarrow> placed_ok p r"
    unfolding r_def using assms(3) placed_ok_objective [OF _ assms(2)] by blast
  then have "good_incumbent p (retain_constructive_incumbent p r (sd_incumbent st))"
    using assms(1) by (intro retain_good) (simp_all add: seed_good_def)
  then show ?thesis
    using assms(1) True ConstructiveSeed_evaluated
    by (cases "ConstructiveSeed p search r b")
      (auto simp: try_constructive_def seed_good_def r_def [symmetric] Let_def)
qed (use assms(1) in \<open>simp add: try_constructive_def\<close>)

lemma seed_state_good:
  assumes "well_formed p"
  shows "seed_good p search options (seed_state S p search options)"
proof -
  have "seed_good p search options \<lparr>sd_evaluations = 1, sd_best = Evaluate p search (NodeOrder p search) [],
      sd_incumbent = None, sd_constructive = 0\<rparr>"
    by (simp add: seed_good_def good_incumbent_def)
  then show ?thesis
    unfolding seed_state_def Let_def
    by (intro try_constructive_good [OF _ assms] try_strict_good PromoteRepair_answer(1) CanonicalGreedy_answer(2))
qed

section \<open>Random draws\<close>

lemma ApplyOrderMove_total:
  assumes "fair_source R"
  shows "\<exists>order' g'. ApplyOrderMove R order g = Some (order', g')"
proof (cases "length order < 2")
  case False
  then have two: "2 \<le> length order" by simp
  obtain first g1 where d1: "draw_index R (length order) g = (first, g1)" by fastforce
  obtain sec g2 where d2: "draw_index R (length order) g1 = (sec, g2)" by fastforce
  obtain s g3 where "redraw R (length order) first sec g2 = Some (s, g3)" using redraw_total [OF assms two] by fastforce
  then show ?thesis using False by (simp add: ApplyOrderMove_def d1 d2 split_beta)
qed (simp add: ApplyOrderMove_def)

lemma order_move_total:
  assumes "fair_source (rs_draws R)"
  shows "\<exists>order targeted g'. order_move R p search current g = Some (order, targeted, g')"
proof -
  obtain moved g1 where "ApplyTargetedOrderMove R p search current (ca_order current) g = (moved, g1)" by fastforce
  moreover obtain order' g' where "ApplyOrderMove (rs_draws R) (ca_order current) g1 = Some (order', g')"
    using ApplyOrderMove_total [OF assms] by blast
  ultimately show ?thesis by (cases moved) (auto simp: order_move_def)
qed

section \<open>One iteration\<close>

definition rls_good ::
  "DsaProblem \<Rightarrow> ReusePenaltySearchSpace \<Rightarrow> ReusePenaltyLocalSearchOptions \<Rightarrow> 'g RlsState \<Rightarrow> bool" where
  "rls_good p search options st \<longleftrightarrow>
     evaluated p search (rl_best st) \<and> evaluated p search (rl_current st) \<and>
     ca_score (rl_best st) \<le> ca_score (Evaluate p search (NodeOrder p search) []) \<and>
     rl_evaluations st \<le> max 1 (rl_max_evaluations options)"

text \<open>
  While proposals are collected from a state \<open>st0\<close>, only counters and the random engine change, every
  proposal is a decode, and a proposal that improves has cost an evaluation.
\<close>

definition scanned ::
  "DsaProblem \<Rightarrow> ReusePenaltySearchSpace \<Rightarrow> ReusePenaltyLocalSearchOptions \<Rightarrow> 'g RlsState \<Rightarrow> 'g RlsState \<times> Proposals \<Rightarrow> bool" where
  "scanned p search options st0 stp \<longleftrightarrow> (let (st, pr) = stp in
     rl_best st = rl_best st0 \<and> rl_current st = rl_current st0 \<and> rl_stagnation st = rl_stagnation st0 \<and>
     rl_evaluations st0 \<le> rl_evaluations st \<and> rl_evaluations st \<le> max 1 (rl_max_evaluations options) \<and>
     evaluated p search (pr_next pr) \<and> (\<forall>e. pr_escape pr = Some e \<longrightarrow> evaluated p search e) \<and>
     (pr_improved pr \<longrightarrow> rl_evaluations st0 < rl_evaluations st))"

lemma propose_scanned:
  assumes "scanned p search options st0 (st, pr)" "evaluated p search c" "rl_evaluations st0 < rl_evaluations st"
  shows "scanned p search options st0 (propose R options c (st, pr))"
  using assms by (auto simp: propose_def scanned_def Let_def split_beta split: option.splits)

lemma soft_scan_scanned:
  "scanned p search options st0 stp \<Longrightarrow> scanned p search options st0 (soft_scan R p search options pairs stp)"
proof (induction pairs arbitrary: stp)
  case (Cons pair rest)
  obtain st pr where stp: "stp = (st, pr)" by fastforce
  show ?case
  proof (cases "rl_evaluations st < rl_max_evaluations options")
    case True
    let ?st = "st\<lparr>rl_evaluations := rl_evaluations st + 1, rl_softs := rl_softs st + 1\<rparr>"
    let ?c = "Evaluate p search (ca_order (rl_current st)) (Toggle pair (ca_promoted (rl_current st)))"
    have "scanned p search options st0 (propose R options ?c (?st, pr))"
      by (rule propose_scanned) (use Cons.prems True in \<open>auto simp: stp scanned_def\<close>)
    from Cons.IH [OF this] show ?thesis using True by (simp add: stp Let_def)
  next
    case False
    then show ?thesis using Cons.prems by (simp add: stp)
  qed
qed simp

lemma order_scan_scanned:
  "scanned p search options st0 stp \<Longrightarrow> order_scan R p search options k stp = Some stp' \<Longrightarrow>
   scanned p search options st0 stp'"
proof (induction k arbitrary: stp)
  case (Suc k)
  obtain st pr where stp: "stp = (st, pr)" by fastforce
  show ?case
  proof (cases "rl_evaluations st < rl_max_evaluations options")
    case True
    obtain order targeted g where mv: "order_move R p search (rl_current st) (rl_random st) = Some (order, targeted, g)"
      using Suc.prems(2) True by (auto simp: stp split: bind_splits)
    define st1 where "st1 = st\<lparr>rl_evaluations := rl_evaluations st + 1, rl_random := g, rl_orders := rl_orders st + 1,
        rl_targeted := rl_targeted st + (if targeted then 1 else 0)\<rparr>"
    let ?c = "Evaluate p search order (ca_promoted (rl_current st))"
    have "scanned p search options st0 (propose R options ?c (st1, pr))"
      by (rule propose_scanned) (use Suc.prems(1) True in \<open>auto simp: stp scanned_def st1_def\<close>)
    moreover have "order_scan R p search options k (propose R options ?c (st1, pr)) = Some stp'"
      using Suc.prems(2) True mv by (simp add: stp st1_def Let_def)
    ultimately show ?thesis by (rule Suc.IH)
  next
    case False
    then show ?thesis using Suc.prems by (simp add: stp)
  qed
qed simp

lemma order_scan_total:
  assumes "fair_source (rs_draws R)"
  shows "\<exists>stp'. order_scan R p search options k stp = Some stp'"
proof (induction k arbitrary: stp)
  case (Suc k)
  obtain st pr where stp: "stp = (st, pr)" by fastforce
  obtain order targeted g where "order_move R p search (rl_current st) (rl_random st) = Some (order, targeted, g)"
    using order_move_total [OF assms] by blast
  then show ?case using Suc by (simp add: stp Let_def)
qed simp

lemma kick_total:
  assumes "fair_source (rs_draws R)"
  shows "\<exists>st'. kick R p search pairs st = Some st'"
proof -
  obtain order g where "ApplyOrderMove (rs_draws R) (ca_order (rl_current st)) (rl_random st) = Some (order, g)"
    using ApplyOrderMove_total [OF assms] by blast
  then show ?thesis by (simp add: kick_def split_beta Let_def)
qed

lemma kick_good:
  assumes "kick R p search pairs st = Some st'" "rls_good p search options st"
    "rl_evaluations st < rl_max_evaluations options"
  shows "rls_good p search options st'" "rl_evaluations st' = rl_evaluations st + 1"
  using assms by (auto simp: kick_def rls_good_def Let_def split_beta split: bind_splits)

text \<open>Every iteration spends an evaluation or counts as stagnation.\<close>

definition rls_progress :: "ReusePenaltyLocalSearchOptions \<Rightarrow> 'g RlsState \<Rightarrow> 'g RlsState \<Rightarrow> bool" where
  "rls_progress options st st' \<longleftrightarrow> rl_evaluations st < rl_evaluations st' \<or>
     rl_evaluations st = rl_evaluations st' \<and> rl_stagnation st' = rl_stagnation st + 1"

lemma settle_good:
  assumes sc: "scanned p search options st0 (st, pr)" and good: "rls_good p search options st0"
    and run: "settle R p search options pairs (st, pr) = Some st'"
  shows "rls_good p search options st' \<and> rls_progress options st0 st'"
proof -
  have st: "rls_good p search options (st\<lparr>rl_stagnation := k\<rparr>)" for k
    using sc good by (auto simp: scanned_def rls_good_def)
  consider (better) "pr_improved pr" "Better (pr_next pr) (rl_current st)"
    | (escape) e where "\<not> (pr_improved pr \<and> Better (pr_next pr) (rl_current st))" "pr_escape pr = Some e"
    | (stuck) "\<not> (pr_improved pr \<and> Better (pr_next pr) (rl_current st))" "pr_escape pr = None" by blast
  then show ?thesis
  proof cases
    case better
    then show ?thesis using run sc good by (auto simp: settle_def rls_good_def rls_progress_def scanned_def)
  next
    case escape
    then have "st' = st\<lparr>rl_current := e, rl_accepted := rl_accepted st + 1,
        rl_accepted_worse := rl_accepted_worse st + 1, rl_stagnation := rl_stagnation st + 1\<rparr>"
      using run by (auto simp: settle_def)
    then show ?thesis using escape(2) sc good by (auto simp: rls_good_def rls_progress_def scanned_def)
  next
    case stuck
    let ?st1 = "st\<lparr>rl_stagnation := rl_stagnation st + 1\<rparr>"
    have 1: "rls_progress options st0 ?st1" using sc by (auto simp: rls_progress_def scanned_def)
    show ?thesis
    proof (cases "rl_stagnation ?st1 = rl_stagnation_limit options div 2 \<and> rl_evaluations ?st1 < rl_max_evaluations options")
      case True
      then have k: "kick R p search pairs ?st1 = Some st'" using run stuck by (simp add: settle_def)
      have "rl_evaluations st0 \<le> rl_evaluations st" using sc by (simp add: scanned_def)
      then show ?thesis using kick_good [OF k st] True by (auto simp: rls_progress_def)
    next
      case False
      then have "st' = ?st1" using run stuck by (auto simp: settle_def Let_def split: if_splits)
      then show ?thesis using 1 st by simp
    qed
  qed
qed

lemma settle_total:
  assumes "fair_source (rs_draws R)"
  shows "\<exists>st'. settle R p search options pairs stp = Some st'"
  using kick_total [OF assms] by (auto simp: settle_def Let_def split_beta split: option.split)

lemma iteration_good:
  assumes "iteration R p search options st = Some st'" "rls_good p search options st"
  shows "rls_good p search options st' \<and> rls_progress options st st'"
proof -
  let ?pairs = "OrderedSoftMoves search (rl_current st)"
  let ?pr = "\<lparr>pr_next = rl_current st, pr_escape = None, pr_improved = False\<rparr>"
  obtain stp where o: "order_scan R p search options (rl_order_moves options)
      (soft_scan R p search options (take (rl_soft_moves options) ?pairs) (st, ?pr)) = Some stp"
    and s: "settle R p search options ?pairs stp = Some st'"
    using assms(1) by (auto simp: iteration_def Let_def split: bind_splits)
  obtain st1 pr1 where stp: "stp = (st1, pr1)" by fastforce
  have "scanned p search options st (st, ?pr)" using assms(2) by (simp add: scanned_def rls_good_def)
  then have "scanned p search options st (st1, pr1)"
    using order_scan_scanned [OF soft_scan_scanned o] by (simp add: stp)
  then show ?thesis using settle_good assms(2) s by (simp add: stp)
qed

lemma iteration_total:
  assumes "fair_source (rs_draws R)"
  shows "\<exists>st'. iteration R p search options st = Some st'"
proof -
  let ?pairs = "OrderedSoftMoves search (rl_current st)"
  obtain stp where "order_scan R p search options (rl_order_moves options)
      (soft_scan R p search options (take (rl_soft_moves options) ?pairs)
        (st, \<lparr>pr_next = rl_current st, pr_escape = None, pr_improved = False\<rparr>)) = Some stp"
    using order_scan_total [OF assms] by blast
  then show ?thesis using settle_total [OF assms] by (simp add: iteration_def)
qed

section \<open>The loops\<close>

text \<open>The measure of the inner loop: evaluations that are left, then stagnation that is left.\<close>

definition rls_left :: "ReusePenaltyLocalSearchOptions \<Rightarrow> 'g RlsState \<Rightarrow> nat \<times> nat" where
  "rls_left options st =
     (rl_max_evaluations options - rl_evaluations st, rl_stagnation_limit options - rl_stagnation st)"

lemma progress_left:
  assumes "rls_progress options st st'" "rl_evaluations st < rl_max_evaluations options"
    "rl_stagnation st < rl_stagnation_limit options"
  shows "(rls_left options st', rls_left options st) \<in> less_than <*lex*> less_than"
  using assms by (auto simp: rls_progress_def rls_left_def)

lemma stagnate_run:
  assumes "rls_good p search options st"
  shows "(\<forall>st'. stagnate R p search options st = Some st' \<longrightarrow> rls_good p search options st') \<and>
    (fair_source (rs_draws R) \<longrightarrow> (\<exists>st'. stagnate R p search options st = Some st'))"
  using assms
proof (induction "rls_left options st" arbitrary: st rule: wf_induct_rule [OF wf_lex_prod [OF wf_less_than wf_less_than]])
  case 1
  show ?case
  proof (cases "rl_evaluations st < rl_max_evaluations options \<and> rl_stagnation st < rl_stagnation_limit options")
    case True
    then have unfold: "stagnate R p search options st =
        Option.bind (iteration R p search options st) (stagnate R p search options)"
      by (subst stagnate.simps) simp
    show ?thesis
    proof (cases "iteration R p search options st")
      case None
      then show ?thesis using iteration_total [of R p search options st] unfold by auto
    next
      case (Some st1)
      have good: "rls_good p search options st1" "rls_progress options st st1"
        using iteration_good [OF Some \<open>rls_good p search options st\<close>] by simp_all
      have "(rls_left options st1, rls_left options st) \<in> less_than <*lex*> less_than"
        using progress_left [OF good(2)] True by blast
      from "1.hyps" [OF this good(1)] show ?thesis unfolding unfold Some by simp
    qed
  next
    case False
    then have "stagnate R p search options st = Some st" by (subst stagnate.simps) auto
    then show ?thesis using \<open>rls_good p search options st\<close> by simp
  qed
qed

lemma restart_candidate_good:
  assumes "rls_good p search options st" "rl_evaluations st < rl_max_evaluations options"
  shows "rls_good p search options (restart_candidate R p search st)"
  using assms by (auto simp: restart_candidate_def rls_good_def Let_def split_beta)

lemma rls_restarts_run:
  assumes "rls_good p search options st"
  shows "(\<forall>st'. rls_restarts R p search options k st = Some st' \<longrightarrow> rls_good p search options st') \<and>
    (fair_source (rs_draws R) \<longrightarrow> (\<exists>st'. rls_restarts R p search options k st = Some st'))"
  using assms
proof (induction k arbitrary: st)
  case (Suc k)
  show ?case
  proof (cases "rl_evaluations st < rl_max_evaluations options")
    case True
    define st1 where "st1 = (if Suc k = rl_restarts options then st\<lparr>rl_current := rl_best st\<rparr>
        else restart_candidate R p search st)\<lparr>rl_stagnation := 0\<rparr>"
    have step: "rls_restarts R p search options (Suc k) st =
        Option.bind (stagnate R p search options st1) (rls_restarts R p search options k)"
      using True by (simp add: st1_def Let_def)
    have "rls_good p search options st1"
      using Suc.prems restart_candidate_good [OF Suc.prems True, of R] unfolding st1_def by (simp add: rls_good_def)
    note run = stagnate_run [OF this, of R]
    show ?thesis
    proof (cases "stagnate R p search options st1")
      case None
      then show ?thesis using run unfolding step by auto
    next
      case (Some st2)
      then have "rls_good p search options st2" using run by blast
      from Suc.IH [OF this] show ?thesis unfolding step Some by simp
    qed
  qed (use Suc.prems in simp)
qed simp

section \<open>The solver\<close>

text \<open>The first decode: the default order, with nothing promoted.\<close>

definition first_decode :: "DsaProblem \<Rightarrow> DsaResult" where
  "first_decode p = PlaceWithOrder p (NodeOrder p (built p)) kFirstFit"

lemma PlaceWithOrder_solution:
  assumes "solution (PlaceWithOrder p order strategy) = Some s"
  shows "status (PlaceWithOrder p order strategy) \<in> {kFeasible, kBestEffortNoFit, kInfeasibleProven}"
    "res_objective (PlaceWithOrder p order strategy) = EvaluateObjective p s"
proof -
  obtain t where "PlaceWithOrder p order strategy = finish_placement p t"
    by (cases p order strategy rule: PlaceWithOrder_cases) (use assms in simp_all)
  then show "status (PlaceWithOrder p order strategy) \<in> {kFeasible, kBestEffortNoFit, kInfeasibleProven}"
    "res_objective (PlaceWithOrder p order strategy) = EvaluateObjective p s"
    using assms by (auto simp: finish_placement_def DsaResult_default_def Let_def split: if_splits)
qed

lemma first_decode_result:
  "ca_score (Evaluate p (built p) (NodeOrder p (built p)) []) = ResultScore p (first_decode p)"
proof -
  have "(first_decode p)\<lparr>res_objective := EvaluateObjective p s\<rparr> = first_decode p" if "solution (first_decode p) = Some s" for s
    using PlaceWithOrder_solution(2) [OF that [unfolded first_decode_def]] that
    by (intro DsaResult.equality) (simp_all add: first_decode_def)
  then show ?thesis by (simp add: Evaluate_def first_decode_def Let_def split: option.split)
qed

text \<open>What the solver returns when it does not refuse the problem.\<close>

definition rls_outcome :: "DsaProblem \<Rightarrow> DsaResult \<Rightarrow> bool" where
  "rls_outcome p r \<longleftrightarrow> (\<exists>incumbent best. good_incumbent p incumbent \<and> evaluated p (built p) best \<and>
     ca_score best \<le> ResultScore p (first_decode p) \<and> same_answer r (final_result incumbent best))"

lemma rls_outcome_feasible:
  assumes "rls_outcome p r" "status r = kFeasible"
  shows "placed_ok p r"
proof -
  obtain incumbent best where o: "good_incumbent p incumbent" "evaluated p (built p) best"
    "same_answer r (final_result incumbent best)" using assms(1) unfolding rls_outcome_def by blast
  have "placed_ok p (final_result incumbent best)"
    using o assms(2) evaluated_placed [OF o(2)]
    by (auto simp: final_result_def from_constructive_def good_incumbent_def same_answer_def split: option.splits if_splits)
  then show ?thesis using same_answer_placed [OF o(3)] by blast
qed

lemma ResultScore_same: "same_answer r r' \<Longrightarrow> ResultScore p r = ResultScore p r'"
  by (simp add: same_answer_def ResultScore_def)

lemma rls_outcome_score:
  assumes "rls_outcome p r"
  shows "ResultScore p r \<le> ResultScore p (first_decode p)"
proof -
  obtain incumbent best where o: "good_incumbent p incumbent" "evaluated p (built p) best"
    "ca_score best \<le> ResultScore p (first_decode p)" "same_answer r (final_result incumbent best)"
    using assms unfolding rls_outcome_def by blast
  have "ResultScore p (final_result incumbent best) \<le> ca_score best"
    using o(1) evaluated_score [OF o(2)]
    by (auto simp: final_result_def from_constructive_def good_incumbent_def split: option.splits)
  then show ?thesis using o(3) ResultScore_same [OF o(4)] by simp
qed

lemma rls_search_outcome:
  assumes "well_formed p" "rls_search R S options p (built p) = Some r"
  shows "rls_outcome p r"
proof -
  define sd where "sd = seed_state S p (built p) options"
  have sd: "seed_good p (built p) options sd" unfolding sd_def by (rule seed_state_good [OF assms(1)])
  note run = assms(2) [unfolded rls_search_def Let_def, folded sd_def]
  show ?thesis
  proof (cases "rl_max_evaluations options \<le> sd_evaluations sd \<or> rl_restarts options = 0 \<or>
      (length (NodeOrder p (built p)) < 2 \<and> soft_weights (built p) = [])")
    case True
    then have "same_answer r (final_result (sd_incumbent sd) (sd_best sd))" using run by (auto simp: same_answer_def)
    then show ?thesis using sd first_decode_result unfolding rls_outcome_def seed_good_def by metis
  next
    case False
    define st0 where "st0 = \<lparr>rl_evaluations = sd_evaluations sd, rl_best = sd_best sd, rl_current = sd_best sd,
        rl_stagnation = 0, rl_random = seed_random (rs_draws R) (rl_seed options), rl_accepted = 0,
        rl_accepted_worse = 0, rl_softs = 0, rl_orders = 0, rl_targeted = 0\<rparr>"
    obtain st where st: "rls_restarts R p (built p) options (rl_restarts options) st0 = Some st"
      and r: "same_answer r (final_result (sd_incumbent sd) (rl_best st))"
      using run False by (auto simp: st0_def same_answer_def add_diagnostics_def split: bind_splits)
    have "rls_good p (built p) options st0" using sd by (simp add: st0_def rls_good_def seed_good_def)
    then have "rls_good p (built p) options st" using rls_restarts_run st by blast
    then show ?thesis using sd r first_decode_result unfolding rls_outcome_def rls_good_def seed_good_def by metis
  qed
qed

lemma rls_search_budget:
  assumes "well_formed p" "rls_search R S options p (built p) = Some r"
  shows "\<exists>n. solver_metrics r ''evaluations'' = Some (of_nat n) \<and> n \<le> max 1 (rl_max_evaluations options)"
proof -
  define sd where "sd = seed_state S p (built p) options"
  have sd: "seed_good p (built p) options sd" unfolding sd_def by (rule seed_state_good [OF assms(1)])
  note run = assms(2) [unfolded rls_search_def Let_def, folded sd_def]
  define st0 where "st0 = \<lparr>rl_evaluations = sd_evaluations sd, rl_best = sd_best sd, rl_current = sd_best sd,
      rl_stagnation = 0, rl_random = seed_random (rs_draws R) (rl_seed options), rl_accepted = 0,
      rl_accepted_worse = 0, rl_softs = 0, rl_orders = 0, rl_targeted = 0\<rparr>"
  have good: "rls_good p (built p) options st0" using sd by (simp add: st0_def rls_good_def seed_good_def)
  consider "solver_metrics r = short_metrics sd"
    | st where "rls_restarts R p (built p) options (rl_restarts options) st0 = Some st"
      "solver_metrics r = search_metrics (built p) sd st"
    using run unfolding st0_def [symmetric] by (auto simp: add_diagnostics_def split: if_splits bind_splits)
  then show ?thesis
  proof cases
    case 1
    then show ?thesis using sd by (auto simp: short_metrics_def seed_good_def)
  next
    case (2 st)
    then have "rls_good p (built p) options st" using rls_restarts_run [OF good] by blast
    then show ?thesis using 2(2) by (auto simp: search_metrics_def rls_good_def)
  qed
qed

text \<open>The problems that the solver searches.\<close>

definition rls_accepts :: "DsaProblem \<Rightarrow> bool" where
  "rls_accepts p \<longleftrightarrow> ValidateProblem p = [] \<and> Compatible (CheckSolverCompatibility p LocalSearchCapabilities) \<and>
     list_all (\<lambda>pool. capacity pool \<noteq> None) (pools p) \<and> space_errors (placement (built p)) = [] \<and>
     \<not> space_flexible_pools (placement (built p))"

lemma rls_accepted:
  "rls_accepts p \<Longrightarrow> ReusePenaltyLocalSearch_Solve R S options p = rls_search R S options p (built p) \<and> well_formed p"
  by (auto simp: rls_accepts_def ReusePenaltyLocalSearch_Solve_def ValidateProblem_Nil list_all_iff list_ex_iff Let_def)

lemma ReusePenaltyLocalSearch_cases:
  assumes "ReusePenaltyLocalSearch_Solve R S options p = Some r"
  obtains (refused) "status r \<in> {kInvalidProblem, kUnsupported}" "solution r = None"
    | (searched) "searchable p" "rls_outcome p r"
proof (cases "rls_search R S options p (built p) = Some r \<and> well_formed p \<and> space_errors (placement (built p)) = [] \<and>
    \<not> space_flexible_pools (placement (built p))")
  case True
  then have "searchable p"
    by (auto simp: searchable_def BuildReusePenaltySearchSpace_def BuildPlacementSearchSpace_def Let_def split: if_splits)
  then show thesis using searched rls_search_outcome True by blast
next
  case False
  then have "status r \<in> {kInvalidProblem, kUnsupported} \<and> solution r = None"
    using assms unfolding ReusePenaltyLocalSearch_Solve_def Let_def
    by (auto simp: failed_result_def DsaResult_default_def ValidateProblem_Nil split: if_splits)
  then show thesis using refused by blast
qed

lemma ReusePenaltyLocalSearch_feasible:
  assumes "ReusePenaltyLocalSearch_Solve R S options p = Some r" "status r = kFeasible"
  shows "placed_ok p r"
  using ReusePenaltyLocalSearch_cases [OF assms(1)] rls_outcome_feasible assms(2) by fastforce

lemma ReusePenaltyLocalSearch_returns:
  assumes "fair_source (rs_draws R)"
  shows "\<exists>r. ReusePenaltyLocalSearch_Solve R S options p = Some r"
proof -
  have "\<exists>r. rls_search R S options p (built p) = Some r" if wf: "well_formed p"
  proof -
    define sd where "sd = seed_state S p (built p) options"
    have sd: "seed_good p (built p) options sd" unfolding sd_def by (rule seed_state_good [OF wf])
    define st0 where "st0 = \<lparr>rl_evaluations = sd_evaluations sd, rl_best = sd_best sd, rl_current = sd_best sd,
        rl_stagnation = 0, rl_random = seed_random (rs_draws R) (rl_seed options), rl_accepted = 0,
        rl_accepted_worse = 0, rl_softs = 0, rl_orders = 0, rl_targeted = 0\<rparr>"
    have "rls_good p (built p) options st0" using sd by (simp add: st0_def rls_good_def seed_good_def)
    then obtain st where "rls_restarts R p (built p) options (rl_restarts options) st0 = Some st"
      using rls_restarts_run assms by blast
    then show ?thesis unfolding rls_search_def Let_def sd_def [symmetric] by (simp add: st0_def [symmetric])
  qed
  then show ?thesis
    unfolding ReusePenaltyLocalSearch_Solve_def Let_def by (auto simp: ValidateProblem_Nil)
qed

text \<open>
  A decode that finds no placement at all gives every candidate the same, largest score. As soon as the
  first decode places the buffers, an answer of infeasibility is the engine's own.
\<close>

lemma ReusePenaltyLocalSearch_infeasible:
  assumes run: "ReusePenaltyLocalSearch_Solve R S options p = Some r" "status r = kInfeasibleProven"
    and placed: "solution (first_decode p) \<noteq> None"
  shows "\<not> valid_solution p s"
  using run(1)
proof (cases rule: ReusePenaltyLocalSearch_cases)
  case searched
  have status: "status (first_decode p) \<in> {kFeasible, kBestEffortNoFit, kInfeasibleProven}"
    using placed PlaceWithOrder_solution(1) unfolding first_decode_def by blast
  have "ResultScore p r = replicate (length (terms (objective p)) + 2) UINT64_MAX"
    using run(2) by (simp add: ResultScore_def)
  then have "UINT64_MAX # replicate (length (terms (objective p)) + 1) UINT64_MAX \<le> ResultScore p (first_decode p)"
    using rls_outcome_score [OF searched(2)] by simp
  moreover have "\<not> UINT64_MAX \<le> (1 :: u64)" "\<not> UINT64_MAX \<le> (0 :: u64)" by (simp_all add: word_le_nat_alt unat_UINT64_MAX)
  ultimately have "status (first_decode p) = kInfeasibleProven"
    using status placed by (auto simp: ResultScore_def split: if_splits)
  then show ?thesis using PlaceWithOrder_infeasible unfolding first_decode_def by blast
qed (use run(2) in auto)

lemma ReusePenaltyLocalSearch_unpinned:
  assumes "ReusePenaltyLocalSearch_Solve R S options p = Some r" "pinned_allocations p = []"
  shows "status r \<noteq> kInfeasibleProven"
  using assms(1)
proof (cases rule: ReusePenaltyLocalSearch_cases)
  case searched
  then show ?thesis
    using evaluated_unpinned assms(2)
    by (fastforce simp: rls_outcome_def final_result_def from_constructive_def good_incumbent_def same_answer_def
        split: option.splits if_splits)
qed auto

interpretation reuse_local_solver: placing_solver "\<lambda>p. returned (ReusePenaltyLocalSearch_Solve R S options p)"
  for R S options
proof unfold_locales
  fix p
  let ?r = "returned (ReusePenaltyLocalSearch_Solve R S options p)"
  assume feasible: "status ?r = kFeasible"
  then obtain r where r: "ReusePenaltyLocalSearch_Solve R S options p = Some r" "?r = r"
    by (auto simp: returned_def DsaResult_default_def split: option.splits)
  then have "placed_ok p r" using ReusePenaltyLocalSearch_feasible feasible by simp
  then show "\<exists>s. solution ?r = Some s \<and> ValidateSolution p s = []" unfolding r(2) placed_ok_def by blast
qed

end
