(* ===== verification/Local_Properties.thy ===== *)
theory Local_Properties
  imports Search_Properties Reuse_Local_Spec
begin

text \<open>
  The properties of the reuse-penalty local search and of the zero-penalty oracle: what a feasible answer
  carries, that the search returns, keeps its budget and never loses its first decode, and where an
  answer of infeasibility is not proven.
\<close>

section \<open>Examples\<close>

definition local_source :: "nat ReuseSource" where
  "local_source = \<lparr>rs_draws = step_index_source, shuffle_order = (\<lambda>xs g. (rev xs, g)),
     weighted_pick = (\<lambda>ws g. (0, g)), sample_accepts = (\<lambda>e g. (odd g, g + 1))\<rparr>"

definition local_options :: "nat \<Rightarrow> ReusePenaltyLocalSearchOptions" where
  "local_options n = \<lparr>rl_seed = 0, rl_max_evaluations = n, rl_restarts = 8, rl_stagnation_limit = 250,
     rl_soft_moves = 64, rl_order_moves = 16, rl_accepts_worse = True\<rparr>"

text \<open>
  Four buffers that fill a chain, two levels high when the ends of the chain are kept apart and three
  levels high, past the end of the address space, when they share; and two pinned buffers that share.
\<close>

definition chain_buffer :: "u32 \<Rightarrow> u64 \<Rightarrow> int \<Rightarrow> int \<Rightarrow> Buffer" where
  "chain_buffer i sz lo hi =
     \<lparr>buf_id = i, buf_name = [], buf_size = sz, alignment = 1,
      live_intervals = [\<lparr>lower = lo, upper = hi\<rparr>], allowed_pools = [0]\<rparr>"

definition chain_problem :: DsaProblem where
  "chain_problem =
     \<lparr>buffers = [chain_buffer 1 6917529027641081857 0 2, chain_buffer 2 6917529027641081857 5 7,
        chain_buffer 3 6917529027641081856 1 4, chain_buffer 4 6917529027641081856 3 6,
        chain_buffer 5 1 10 11, chain_buffer 6 1 12 13],
      pools = [\<lparr>pool_id = 0, pool_name = ''l2'', capacity = Some UINT64_MAX, reserved_ranges = [],
        bank_geometry = None\<rparr>],
      colocations = [], separations = [], temporal_exclusions = [],
      pinned_allocations = [\<lparr>pin_buffer = 5, pin_pool = 0, pin_offset = 0, exclusive_for_all_time = False\<rparr>,
        \<lparr>pin_buffer = 6, pin_pool = 0, pin_offset = 0, exclusive_for_all_time = False\<rparr>],
      cost_model = Some \<lparr>reuse_penalties =
        [\<lparr>pen_first = 1, pen_second = 2, pen_cost = 1, pen_reason = Pen_kGeneric\<rparr>,
         \<lparr>pen_first = 5, pen_second = 6, pen_cost = 1, pen_reason = Pen_kGeneric\<rparr>]\<rparr>,
      pypto_structure = None, objective = FitThenMinimizeReuseCostObjective\<rparr>"

definition chain_solution :: DsaSolution where
  "chain_solution = \<lparr>placements = map (\<lambda>(i, offset). (i, \<lparr>pl_pool = 0, pl_offset = offset\<rparr>))
     [(1, 0), (2, 6917529027641081857), (3, 6917529027641081857), (4, 0), (5, 0), (6, 0)]\<rparr>"

lemma local_source_returns: "\<exists>r. ReusePenaltyLocalSearch_Solve local_source S options p = Some r"
  by (rule ReusePenaltyLocalSearch_returns) (simp add: local_source_def step_index_fair)

section \<open>The zero-penalty oracle\<close>

text \<open>
  C21: promote all decides whether the problem can be solved without reusing a soft pair. For a problem it
  accepts (its features and objective are supported and the classes prepare without errors and with one
  pool each) and without a node limit it answers feasible exactly when some valid solution overlaps no
  soft pair, and infeasible otherwise; with any limit the only other answer is timeout, a feasible answer
  carries such a solution, and when it proves infeasibility there is none.
\<close>
theorem promote_all_exact:
  assumes "Compatible (CheckSolverCompatibility p BaselineCapabilities)" "searchable p"
  shows "status (PromoteAll_Solve 0 p) =
      (if \<exists>s. valid_solution p s \<and> reuses_no_soft_pair p s then kFeasible else kInfeasibleProven) \<and>
    status (PromoteAll_Solve limit p) \<in> {kFeasible, kInfeasibleProven, kTimeout} \<and>
    (status (PromoteAll_Solve limit p) = kFeasible \<longrightarrow>
      (\<exists>s. solution (PromoteAll_Solve limit p) = Some s \<and> valid_solution p s \<and> reuses_no_soft_pair p s)) \<and>
    (status (PromoteAll_Solve limit p) = kInfeasibleProven \<longrightarrow>
      (\<forall>s. valid_solution p s \<longrightarrow> \<not> reuses_no_soft_pair p s))"
  using PromoteAll_decides [OF assms] PromoteAll_feasible [of limit p] PromoteAll_infeasible [of limit p]
  by (auto simp: ValidateSolution_Nil)

theorem promote_all_exact_witness:
  "\<not> (\<exists>s. valid_solution (unit_problem 16) s \<and> reuses_no_soft_pair (unit_problem 16) s)"
proof -
  have compatible: "Compatible (CheckSolverCompatibility (unit_problem 16) BaselineCapabilities)" by code_simp
  have "searchable (unit_problem 16)" unfolding searchable_def by (intro conjI; code_simp)
  note exact = promote_all_exact [OF compatible this]
  have "status (PromoteAll_Solve 0 (unit_problem 16)) = kInfeasibleProven" by code_simp
  then show ?thesis using exact by (auto split: if_splits)
qed

section \<open>The reuse-penalty local search\<close>

text \<open>
  C20: an answer of the reuse-penalty local search that claims to be feasible carries a solution that the
  validator accepts for the problem as given, whatever edges were promoted and whatever the random source
  drew, and reports the objective of that solution.
\<close>
theorem reuse_local_feasible:
  assumes "ReusePenaltyLocalSearch_Solve R S options p = Some r" "status r = kFeasible"
  shows "\<exists>s. solution r = Some s \<and> ValidateSolution p s = [] \<and> res_objective r = EvaluateObjective p s"
  using ReusePenaltyLocalSearch_feasible [OF assms] unfolding placed_ok_def .

theorem reuse_local_feasible_witness:
  "\<exists>r s. ReusePenaltyLocalSearch_Solve local_source stay_shuffler (local_options 1) (unit_problem 16) = Some r \<and>
     solution r = Some s \<and> ValidateSolution (unit_problem 16) s = []"
proof -
  obtain r where r: "ReusePenaltyLocalSearch_Solve local_source stay_shuffler (local_options 1) (unit_problem 16) = Some r"
    using local_source_returns by blast
  have "map_option status (ReusePenaltyLocalSearch_Solve local_source stay_shuffler (local_options 1) (unit_problem 16)) =
      Some kFeasible" by code_simp
  then have "status r = kFeasible" using r by simp
  from reuse_local_feasible [OF r this] show ?thesis using r by blast
qed

text \<open>
  C24: the reuse-penalty local search never answers worse than its first decode, where fitting the pools
  comes before every term of the objective, and it reports at most the requested number of decodes
  (at least one).
\<close>
theorem reuse_local_keeps_first:
  assumes "rls_accepts p" "ReusePenaltyLocalSearch_Solve R S options p = Some r"
  shows "ResultScore p r \<le> ResultScore p (first_decode p) \<and>
    (\<exists>n. solver_metrics r ''evaluations'' = Some (of_nat n) \<and> n \<le> max 1 (rl_max_evaluations options))"
  using assms rls_accepted [OF assms(1)] rls_outcome_score [OF rls_search_outcome] rls_search_budget by metis

theorem reuse_local_keeps_first_witness:
  "\<exists>r. ReusePenaltyLocalSearch_Solve local_source stay_shuffler (local_options 20) (unit_problem 16) = Some r \<and>
     ResultScore (unit_problem 16) r \<le> ResultScore (unit_problem 16) (first_decode (unit_problem 16))"
proof -
  have "rls_accepts (unit_problem 16)" by code_simp
  moreover obtain r where
    "ReusePenaltyLocalSearch_Solve local_source stay_shuffler (local_options 20) (unit_problem 16) = Some r"
    using local_source_returns by blast
  ultimately show ?thesis using reuse_local_keeps_first by blast
qed

text \<open>
  C25: the reuse-penalty local search returns for every problem and every choice of options, as soon as the
  random source does not draw one index forever.
\<close>
theorem reuse_local_returns:
  assumes "fair_source (rs_draws R)"
  shows "\<exists>r. ReusePenaltyLocalSearch_Solve R S options p = Some r"
  by (rule ReusePenaltyLocalSearch_returns [OF assms])

theorem reuse_local_returns_witness:
  "\<exists>r. ReusePenaltyLocalSearch_Solve local_source stay_shuffler (local_options 20000) chain_problem = Some r"
  by (rule reuse_local_returns) (simp add: local_source_def step_index_fair)

text \<open>
  C23: an answer of proven infeasibility is sound when no buffer is pinned (it is never given) and when the
  first decode places all buffers.
\<close>
theorem reuse_local_infeasible:
  assumes "ReusePenaltyLocalSearch_Solve R S options p = Some r" "status r = kInfeasibleProven"
  shows "pinned_allocations p \<noteq> [] \<and> (solution (first_decode p) \<noteq> None \<longrightarrow> \<not> valid_solution p s)"
  using ReusePenaltyLocalSearch_unpinned [OF assms(1)] ReusePenaltyLocalSearch_infeasible [OF assms] assms(2) by blast

text \<open>Two pins that collide make the first decode infeasible.\<close>

theorem reuse_local_infeasible_witness:
  "\<forall>s. \<not> valid_solution (chain_problem\<lparr>separations := [\<lparr>sep_first = 5, sep_second = 6, sep_reasons = []\<rparr>],
     buffers := [chain_buffer 5 1 10 11, chain_buffer 6 1 12 13], cost_model := None\<rparr>) s"
proof -
  let ?p = "chain_problem\<lparr>separations := [\<lparr>sep_first = 5, sep_second = 6, sep_reasons = []\<rparr>],
     buffers := [chain_buffer 5 1 10 11, chain_buffer 6 1 12 13], cost_model := None\<rparr>"
  obtain r where r: "ReusePenaltyLocalSearch_Solve local_source stay_shuffler (local_options 1) ?p = Some r"
    using local_source_returns by blast
  have "map_option status (ReusePenaltyLocalSearch_Solve local_source stay_shuffler (local_options 1) ?p) =
      Some kInfeasibleProven" by code_simp
  then have "status r = kInfeasibleProven" using r by simp
  moreover have "solution (first_decode ?p) \<noteq> None" by code_simp
  ultimately show ?thesis using reuse_local_infeasible [OF r] by blast
qed

text \<open>
  Without the first decode the answer is not sound: here the first decode runs past the address space,
  the decode with every soft edge promoted separates two pinned buffers that may share, and the search
  answers with proven infeasibility for a problem that has a valid solution.
\<close>
lemma reuse_local_infeasible_unsound:
  "valid_solution chain_problem chain_solution \<and>
   map_option status (ReusePenaltyLocalSearch_Solve local_source stay_shuffler (local_options 2) chain_problem) =
     Some kInfeasibleProven"
proof
  have "ValidateSolution chain_problem chain_solution = []" by code_simp
  then show "valid_solution chain_problem chain_solution" by (simp add: ValidateSolution_Nil)
qed code_simp

end
