(* ===== verification/Scale.thy ===== *)
theory Scale
  imports Treewidth
begin

text \<open>
  \<^verbatim>\<open>src/dsa/algorithms/reuse_penalty_scale_solver.cpp\<close>: the bicriteria solver for scale-separated problems.
  Buffers that are at least as large as the smallest end of a soft edge are placed by a dynamic program
  over a coarse grid of offsets in a band of height \<open>C + C / e\<close>; the others go into harmonic tracks
  above it. The counters of a pool that fails are not observable: only its status and its message are.
\<close>

section \<open>Options and helpers\<close>

record ScaleSeparatedGridDpOptions =
  sc_large_denominator :: u64
  sc_epsilon_denominator :: u64
  sc_soft_span :: nat
  sc_dp_states :: u64
  sc_dp_transitions :: u64
  sc_grid_offsets :: nat

record TimedNode =
  tn_node :: nat
  tn_birth :: int
  tn_death :: int
  tn_size :: u64

record DpEntry =
  de_key :: "u32 list"
  de_cost :: u64
  de_predecessor :: nat
  de_offset :: u32

type_synonym failure = "SolveStatus \<times> string"

definition ScaleCapabilities :: SolverCapabilities where
  "ScaleCapabilities = SolverCapabilities_default
     \<lparr>cap_multi_interval := True, cap_reuse_cost := True, cap_colocations := True, cap_separations := True,
      cap_temporal_exclusions := True, cap_multi_pool := True, cap_lexicographic_objective := True,
      cap_capacity_objective := True, cap_peak_objective := False\<rparr>"

definition Scale_ObjectiveLimitation :: "DsaProblem \<Rightarrow> string option" where
  "Scale_ObjectiveLimitation problem =
     (case objective_indices 0 (terms (objective problem)) None None of
        (None, _) \<Rightarrow> Some ''scale_separated_grid_dp requires reuse_cost in the objective''
      | (Some reuse, Some peak) \<Rightarrow>
          if peak < reuse then Some ''scale_separated_grid_dp requires reuse_cost before peak metrics'' else None
      | (Some reuse, None) \<Rightarrow> None)"

definition Scale_LeastCommonMultiple :: "u64 \<Rightarrow> u64 \<Rightarrow> u64 option" where
  "Scale_LeastCommonMultiple first second =
     (let divisor = of_nat (gcd (unat first) (unat second));
          reduced = first div divisor
      in if second \<noteq> 0 \<and> reduced > UINT64_MAX div second then None else Some (reduced * second))"

definition CeilDivide :: "u64 \<Rightarrow> u64 \<Rightarrow> u64" where
  "CeilDivide numerator denominator =
     numerator div denominator + (if numerator mod denominator \<noteq> 0 then 1 else 0)"

text \<open>The hull of the lifetimes of the members; the initial values are the extreme 64-bit integers.\<close>

definition hull_member :: "DsaProblem \<Rightarrow> (int \<times> int) option \<Rightarrow> BufferId \<Rightarrow> (int \<times> int) option" where
  "hull_member problem hull member =
     (case hull of
        None \<Rightarrow> None
      | Some h \<Rightarrow>
          (case FindBuffer problem member of
             None \<Rightarrow> None
           | Some buffer \<Rightarrow>
               Some (foldl (\<lambda>(birth, death) i. (min birth (lower i), max death (upper i))) h (live_intervals buffer))))"

definition Scale_LifetimeHull :: "DsaProblem \<Rightarrow> PlacementSearchNode \<Rightarrow> (int \<times> int) option" where
  "Scale_LifetimeHull problem node =
     (case foldl (hull_member problem) (Some (9223372036854775807, - 9223372036854775808)) (node_members node) of
        None \<Rightarrow> None
      | Some (birth, death) \<Rightarrow> if birth \<ge> death then None else Some (birth, death))"

definition MinimumSoftEndpointSize :: "ReusePenaltySearchSpace \<Rightarrow> PoolId \<Rightarrow> u64 option" where
  "MinimumSoftEndpointSize search pool =
     foldl (\<lambda>minimum (pair, w).
        if node_pool (search_nodes search ! fst pair) \<noteq> pool then minimum
        else let pair_minimum = min (node_size (search_nodes search ! fst pair)) (node_size (search_nodes search ! snd pair))
             in Some (case minimum of None \<Rightarrow> pair_minimum | Some m \<Rightarrow> min m pair_minimum))
       None (soft_weights search)"

definition interval_neighbor :: "DsaProblem \<Rightarrow> ReusePenaltySearchSpace \<Rightarrow> nat list \<Rightarrow> nat \<Rightarrow> Buffer \<Rightarrow> nat \<Rightarrow> bool" where
  "interval_neighbor problem search small node buffer neighbor =
     (node \<ge> neighbor \<or> neighbor \<notin> set small \<or>
      (case FindBuffer problem (hd (node_members (search_nodes search ! neighbor))) of
         None \<Rightarrow> False
       | Some other \<Rightarrow> HaveTemporalConflict problem buffer other))"

definition interval_node :: "DsaProblem \<Rightarrow> ReusePenaltySearchSpace \<Rightarrow> nat list \<Rightarrow> nat \<Rightarrow> bool" where
  "interval_node problem search small node =
     (let value = search_nodes search ! node in
      length (node_members value) = 1 \<and>
      (case FindBuffer problem (hd (node_members value)) of
         None \<Rightarrow> False
       | Some buffer \<Rightarrow>
           length (live_intervals buffer) = 1 \<and>
           list_all (interval_neighbor problem search small node buffer) (hard_neighbors search ! node)))"

definition small_exclusion :: "ReusePenaltySearchSpace \<Rightarrow> nat list \<Rightarrow> TemporalExclusion \<Rightarrow> bool" where
  "small_exclusion search small exclusion =
     (case (node_by_buffer search (ex_first exclusion), node_by_buffer search (ex_second exclusion)) of
        (Some first, Some second) \<Rightarrow> first \<in> set small \<and> second \<in> set small
      | _ \<Rightarrow> False)"

definition IsIntervalSmallBand :: "DsaProblem \<Rightarrow> ReusePenaltySearchSpace \<Rightarrow> nat list \<Rightarrow> bool" where
  "IsIntervalSmallBand problem search small \<longleftrightarrow>
     list_all (interval_node problem search small) small \<and>
     \<not> list_ex (small_exclusion search small) (temporal_exclusions problem)"

section \<open>Windows\<close>

text \<open>\<open>std::upper_bound\<close> over nodes that are sorted by birth.\<close>

definition births_until :: "TimedNode list \<Rightarrow> int \<Rightarrow> nat" where
  "births_until ns value = length (takeWhile (\<lambda>n. tn_birth n \<le> value) ns)"

definition SoftSpan :: "TimedNode list \<Rightarrow> nat \<Rightarrow> nat \<Rightarrow> nat" where
  "SoftSpan ns i j =
     (let (first, second) = (if i > j then (j, i) else (i, j)) in
      if tn_death (ns ! first) > tn_birth (ns ! second) then 0
      else births_until ns (tn_birth (ns ! second)) - births_until ns (tn_death (ns ! first)))"

text \<open>The rank of a node among the large ones; \<open>None\<close> is \<open>kNoIndex\<close>.\<close>

type_synonym ranks = "nat option list"

definition hard_partner :: "ReusePenaltySearchSpace \<Rightarrow> TimedNode list \<Rightarrow> ranks \<Rightarrow> nat \<Rightarrow> nat" where
  "hard_partner search ns rank_by_node rank =
     foldl (\<lambda>partner neighbor. case rank_by_node ! neighbor of
              None \<Rightarrow> partner
            | Some other \<Rightarrow> if rank < other then max partner other else partner)
       rank (hard_neighbors search ! tn_node (ns ! rank))"

definition soft_partner ::
  "TimedNode list \<Rightarrow> ranks \<Rightarrow> ScaleSeparatedGridDpOptions \<Rightarrow> nat \<Rightarrow> nat \<times> u64 \<Rightarrow> nat \<times> nat \<Rightarrow> failure + nat \<times> nat" where
  "soft_partner ns rank_by_node options rank entry partner_span =
     (case rank_by_node ! fst entry of
        None \<Rightarrow> Inr partner_span
      | Some other \<Rightarrow>
          if rank < other
          then let span = SoftSpan ns rank other in
               if span > sc_soft_span options
               then Inl (kUnsupported, ''scale_separated_grid_dp soft-edge span exceeds max_soft_span'')
               else Inr (max (fst partner_span) other, max (snd partner_span) span)
          else Inr partner_span)"

definition last_partner_step ::
  "ReusePenaltySearchSpace \<Rightarrow> TimedNode list \<Rightarrow> ranks \<Rightarrow> ScaleSeparatedGridDpOptions \<Rightarrow> nat \<Rightarrow> nat list \<times> nat \<Rightarrow>
   failure + nat list \<times> nat" where
  "last_partner_step search ns rank_by_node options rank st =
     and_then (try_fold (soft_partner ns rank_by_node options rank)
        (soft_neighbors search ! tn_node (ns ! rank)) (hard_partner search ns rank_by_node rank, snd st))
       (\<lambda>(partner, span). Inr (fst st @ [partner], span))"

definition window_at :: "TimedNode list \<Rightarrow> nat list \<Rightarrow> nat \<Rightarrow> nat list" where
  "window_at ns partners index =
     (if index + 1 < length ns
      then filter (\<lambda>prior. tn_death (ns ! prior) > tn_birth (ns ! (index + 1)) \<or> partners ! prior \<ge> index + 1)
             [0..<index + 1]
      else [])"

definition BuildWindows :: "TimedNode list \<Rightarrow> nat list \<Rightarrow> nat list list" where
  "BuildWindows ns partners = map (window_at ns partners) [0..<length ns]"

definition widest_window :: "nat list list \<Rightarrow> nat" where
  "widest_window windows = foldl (\<lambda>m w. max m (length w)) 0 windows"

section \<open>The grid dynamic program\<close>

text \<open>The key of an entry lists the colours of the window, in order.\<close>

definition OffsetFromState :: "nat list \<Rightarrow> DpEntry \<Rightarrow> nat \<Rightarrow> u32 option" where
  "OffsetFromState window entry rank = map_of (zip window (de_key entry)) rank"

definition grid_overlap :: "TimedNode list \<Rightarrow> u64 \<Rightarrow> nat \<Rightarrow> u32 \<Rightarrow> nat \<Rightarrow> u32 \<Rightarrow> bool" where
  "grid_overlap ns quantum i c j d \<longleftrightarrow>
     AddressRangesOverlap (ucast c * quantum) (tn_size (ns ! i)) (ucast d * quantum) (tn_size (ns ! j))"

definition TransitionFits ::
  "ReusePenaltySearchSpace \<Rightarrow> TimedNode list \<Rightarrow> ranks \<Rightarrow> nat list \<Rightarrow> DpEntry \<Rightarrow> nat \<Rightarrow> u32 \<Rightarrow> u64 \<Rightarrow> bool" where
  "TransitionFits search ns rank_by_node previous_window previous rank color quantum =
     list_all (\<lambda>neighbor. case rank_by_node ! neighbor of
        None \<Rightarrow> True
      | Some r \<Rightarrow> r \<ge> rank \<or>
          (case OffsetFromState previous_window previous r of
             None \<Rightarrow> False
           | Some d \<Rightarrow> \<not> grid_overlap ns quantum rank color r d))
       (hard_neighbors search ! tn_node (ns ! rank))"

definition add_transition_cost ::
  "TimedNode list \<Rightarrow> ranks \<Rightarrow> nat list \<Rightarrow> DpEntry \<Rightarrow> nat \<Rightarrow> u32 \<Rightarrow> u64 \<Rightarrow> u64 option \<Rightarrow> nat \<times> u64 \<Rightarrow> u64 option" where
  "add_transition_cost ns rank_by_node previous_window previous rank color quantum cost entry =
     (case cost of
        None \<Rightarrow> None
      | Some sofar \<Rightarrow>
          (case rank_by_node ! fst entry of
             None \<Rightarrow> Some sofar
           | Some r \<Rightarrow>
               if r \<ge> rank then Some sofar
               else (case OffsetFromState previous_window previous r of
                       None \<Rightarrow> None
                     | Some d \<Rightarrow>
                         Some (if grid_overlap ns quantum rank color r d then SaturatingAdd sofar (snd entry) else sofar))))"

definition TransitionCost ::
  "ReusePenaltySearchSpace \<Rightarrow> TimedNode list \<Rightarrow> ranks \<Rightarrow> nat list \<Rightarrow> DpEntry \<Rightarrow> nat \<Rightarrow> u32 \<Rightarrow> u64 \<Rightarrow> u64 option" where
  "TransitionCost search ns rank_by_node previous_window previous rank color quantum =
     foldl (add_transition_cost ns rank_by_node previous_window previous rank color quantum) (Some 0)
       (soft_neighbors search ! tn_node (ns ! rank))"

fun next_key :: "nat list \<Rightarrow> DpEntry \<Rightarrow> nat \<Rightarrow> u32 \<Rightarrow> nat list \<Rightarrow> u32 list option" where
  "next_key previous_window previous rank color [] = Some []"
| "next_key previous_window previous rank color (kept # rest) =
     (case (if kept = rank then Some color else OffsetFromState previous_window previous kept) of
        None \<Rightarrow> None
      | Some c \<Rightarrow> map_option (\<lambda>key. c # key) (next_key previous_window previous rank color rest))"

text \<open>One layer: its entries, the index of every key, and the counters of the two guards.\<close>

record DpLayer =
  ly_entries :: "DpEntry list"
  ly_index :: "u32 list \<rightharpoonup> nat"
  ly_states :: u64
  ly_transitions :: u64

definition store_entry :: "ScaleSeparatedGridDpOptions \<Rightarrow> DpEntry \<Rightarrow> DpLayer \<Rightarrow> failure + DpLayer" where
  "store_entry options candidate layer =
     (case ly_index layer (de_key candidate) of
        None \<Rightarrow>
          if sc_dp_states options \<noteq> 0 \<and> ly_states layer \<ge> sc_dp_states options
          then Inl (kTimeout, ''scale_separated_grid_dp exhausted max_dp_states'')
          else Inr (layer\<lparr>ly_entries := ly_entries layer @ [candidate],
                          ly_index := (ly_index layer)(de_key candidate \<mapsto> length (ly_entries layer)),
                          ly_states := ly_states layer + 1\<rparr>)
      | Some k \<Rightarrow>
          if de_cost candidate < de_cost (ly_entries layer ! k)
          then Inr (layer\<lparr>ly_entries := (ly_entries layer)[k := candidate]\<rparr>) else Inr layer)"

definition grid_transition ::
  "ReusePenaltySearchSpace \<Rightarrow> TimedNode list \<Rightarrow> ranks \<Rightarrow> u64 \<Rightarrow> ScaleSeparatedGridDpOptions \<Rightarrow> nat list \<Rightarrow> nat list \<Rightarrow>
   DpEntry list \<Rightarrow> nat \<Rightarrow> nat \<times> nat \<Rightarrow> DpLayer \<Rightarrow> failure + DpLayer" where
  "grid_transition search ns rank_by_node quantum options previous_window next_window previous_entries rank choice layer =
     (if sc_dp_transitions options \<noteq> 0 \<and> ly_transitions layer \<ge> sc_dp_transitions options
      then Inl (kTimeout, ''scale_separated_grid_dp exhausted max_dp_transitions'')
      else
        let layer1 = layer\<lparr>ly_transitions := ly_transitions layer + 1\<rparr>;
            previous = previous_entries ! fst choice;
            color = of_nat (snd choice)
        in if \<not> TransitionFits search ns rank_by_node previous_window previous rank color quantum then Inr layer1
           else (case TransitionCost search ns rank_by_node previous_window previous rank color quantum of
             None \<Rightarrow> Inl (kInvalidProblem, ''scale_separated_grid_dp lost a pending soft-edge endpoint'')
           | Some added \<Rightarrow>
               (case next_key previous_window previous rank color next_window of
                  None \<Rightarrow> Inl (kInvalidProblem, ''scale_separated_grid_dp lost a live endpoint'')
                | Some key \<Rightarrow>
                    store_entry options \<lparr>de_key = key, de_cost = SaturatingAdd (de_cost previous) added,
                      de_predecessor = fst choice, de_offset = color\<rparr> layer1)))"

record GridState =
  gd_layers :: "DpEntry list list"
  gd_states :: u64
  gd_transitions :: u64
  gd_offsets :: nat

definition initial_entries :: "DpEntry list" where
  "initial_entries = [\<lparr>de_key = [], de_cost = 0, de_predecessor = 0, de_offset = 0\<rparr>]"

definition grid_layer ::
  "ReusePenaltySearchSpace \<Rightarrow> TimedNode list \<Rightarrow> ranks \<Rightarrow> u64 \<Rightarrow> u64 \<Rightarrow> ScaleSeparatedGridDpOptions \<Rightarrow> nat list list \<Rightarrow>
   nat \<Rightarrow> GridState \<Rightarrow> failure + GridState" where
  "grid_layer search ns rank_by_node quantum large_limit options windows rank st =
     (let previous_window = (if rank = 0 then [] else windows ! (rank - 1));
          previous_entries = (if gd_layers st = [] then initial_entries else List.last (gd_layers st))
      in if tn_size (ns ! rank) > large_limit
         then Inl (kUnsupported, ''scale_separated_grid_dp rounded buffer exceeds augmented band'')
         else
           let color_count = (large_limit - tn_size (ns ! rank)) div quantum + 1 in
           if unat color_count > sc_grid_offsets options \<or> color_count > 4294967295
           then Inl (kUnsupported, ''scale_separated_grid_dp grid-offset count exceeds guard'')
           else and_then
             (try_fold (grid_transition search ns rank_by_node quantum options previous_window (windows ! rank)
                          previous_entries rank)
                (List.product [0..<length previous_entries] [0..<unat color_count])
                \<lparr>ly_entries = [], ly_index = Map.empty, ly_states = gd_states st, ly_transitions = gd_transitions st\<rparr>)
             (\<lambda>layer. if ly_entries layer = []
                then Inl (kInfeasibleProven, ''scale_separated_grid_dp found no large-buffer grid placement'')
                else Inr \<lparr>gd_layers = gd_layers st @ [ly_entries layer], gd_states = ly_states layer,
                          gd_transitions = ly_transitions layer,
                          gd_offsets = max (gd_offsets st) (unat color_count)\<rparr>))"

text \<open>\<open>std::min_element\<close>, and the colours along the predecessors, from the last layer to the first.\<close>

definition cheapest_entry :: "DpEntry list \<Rightarrow> nat" where
  "cheapest_entry entries =
     foldl (\<lambda>best k. if de_cost (entries ! k) < de_cost (entries ! best) then k else best) 0 [1..<length entries]"

fun trace_back :: "DpEntry list list \<Rightarrow> nat \<Rightarrow> u32 list" where
  "trace_back [] state = []"
| "trace_back (layer # rest) state =
     trace_back rest (de_predecessor (layer ! state)) @ [de_offset (layer ! state)]"

record GridResult =
  gr_colors :: "u32 list"
  gr_cost :: u64
  gr_states :: u64
  gr_transitions :: u64
  gr_window :: nat
  gr_span :: nat
  gr_offsets :: nat

definition RunGridDp ::
  "ReusePenaltySearchSpace \<Rightarrow> TimedNode list \<Rightarrow> ranks \<Rightarrow> u64 \<Rightarrow> u64 \<Rightarrow> ScaleSeparatedGridDpOptions \<Rightarrow>
   failure + GridResult" where
  "RunGridDp search ns rank_by_node quantum large_limit options =
     and_then (try_fold (last_partner_step search ns rank_by_node options) [0..<length ns] ([], 0))
       (\<lambda>(partners, span).
          let windows = BuildWindows ns partners in
          and_then (try_fold (grid_layer search ns rank_by_node quantum large_limit options windows) [0..<length ns]
                      \<lparr>gd_layers = [], gd_states = 0, gd_transitions = 0, gd_offsets = 0\<rparr>)
            (\<lambda>st. let best = cheapest_entry (List.last (gd_layers st)) in
              Inr \<lparr>gr_colors = trace_back (rev (gd_layers st)) best,
                   gr_cost = de_cost (List.last (gd_layers st) ! best), gr_states = gd_states st,
                   gr_transitions = gd_transitions st, gr_window = widest_window windows, gr_span = span,
                   gr_offsets = gd_offsets st\<rparr>))"

section \<open>The small band\<close>

function harmonic_units :: "u64 \<Rightarrow> u64 \<Rightarrow> u64" where
  "harmonic_units size_units units =
     (if units > 1
      then let halved = (units + 1) div 2 in
        if halved < size_units \<or> halved = units then units else harmonic_units size_units halved
      else units)"
  by pat_completeness auto
termination
proof (relation "measure (\<lambda>(size_units, units). unat units)")
  fix size_units units halved :: u64
  assume units: "1 < units" and n: "halved = (units + 1) div 2" "\<not> (halved < size_units \<or> halved = units)"
  have "unat halved = unat (units + 1) div 2" by (simp add: n(1) unat_div)
  also have "\<dots> \<le> (unat units + 1) div 2" by (intro div_le_mono) (simp add: unat_word_ariths)
  finally have "unat halved \<le> (unat units + 1) div 2" .
  moreover have "unat halved \<noteq> unat units" using n(2) by (simp add: word_unat_eq_iff)
  moreover have "1 < unat units" using units by (simp add: word_less_nat_alt)
  ultimately have "unat halved < unat units" by linarith
  then show "((size_units, halved), (size_units, units)) \<in> measure (\<lambda>(size_units, units). unat units)" by simp
qed simp

declare harmonic_units.simps [simp del]

definition HarmonicUpper :: "u64 \<Rightarrow> u64 \<Rightarrow> u64 \<Rightarrow> u64" where
  "HarmonicUpper sz threshold address_quantum =
     harmonic_units (sz div address_quantum) (CeilDivide threshold address_quantum) * address_quantum"

text \<open>The nodes by their harmonic class; the loop visits the classes from the largest to the smallest.\<close>

definition harmonic_classes ::
  "ReusePenaltySearchSpace \<Rightarrow> nat list \<Rightarrow> u64 \<Rightarrow> u64 \<Rightarrow> (u64, nat list) omap" where
  "harmonic_classes search small threshold address_quantum =
     foldl (\<lambda>m node. let key = HarmonicUpper (node_size (search_nodes search ! node)) threshold address_quantum
                     in om_put key (om_get [] m key @ [node]) m) [] small"

definition earlier_birth :: "DsaProblem \<Rightarrow> ReusePenaltySearchSpace \<Rightarrow> nat \<Rightarrow> nat \<Rightarrow> bool" where
  "earlier_birth problem search first second =
     (case (Scale_LifetimeHull problem (search_nodes search ! first), Scale_LifetimeHull problem (search_nodes search ! second)) of
        (Some h, Some k) \<Rightarrow>
          (fst h, node_representative (search_nodes search ! first)) < (fst k, node_representative (search_nodes search ! second))
      | _ \<Rightarrow> first < second)"

text \<open>The least colour that is not blocked: as many units of fuel as there are blocked colours are enough.\<close>

fun free_color :: "nat \<Rightarrow> u32 list \<Rightarrow> u32 \<Rightarrow> u32" where
  "free_color 0 blocked color = color"
| "free_color (Suc fuel) blocked color =
     (if color \<in> set blocked then free_color fuel blocked (color + 1) else color)"

record BandState =
  bd_colors :: "nat \<rightharpoonup> u32"
  bd_count :: u32
  bd_offsets :: "u64 list"

definition place_small ::
  "ReusePenaltySearchSpace \<Rightarrow> u64 \<Rightarrow> u64 \<Rightarrow> nat \<Rightarrow> BandState \<Rightarrow> failure + BandState" where
  "place_small search track_size base node st =
     (let blocked = List.map_filter (bd_colors st) (hard_neighbors search ! node);
          color = free_color (length blocked) blocked 0;
          displacement = ucast color * track_size
      in if color \<noteq> 0 \<and> track_size > UINT64_MAX div ucast color
         then Inl (kInvalidProblem, ''scale_separated_grid_dp small-band address overflows'')
         else if AddOverflows base displacement
         then Inl (kInvalidProblem, ''scale_separated_grid_dp small-band address overflows'')
         else Inr \<lparr>bd_colors = (bd_colors st)(node \<mapsto> color), bd_count = max (bd_count st) (color + 1),
                   bd_offsets = (bd_offsets st)[node := base + displacement]\<rparr>)"

record SmallBand =
  sm_offsets :: "u64 list"
  sm_top :: u64
  sm_tracks :: u64

definition place_class ::
  "DsaProblem \<Rightarrow> ReusePenaltySearchSpace \<Rightarrow> u64 \<Rightarrow> u64 \<times> nat list \<Rightarrow> SmallBand \<Rightarrow> failure + SmallBand" where
  "place_class problem search address_quantum entry st =
     (case (AlignUp (fst entry) address_quantum, AlignUp (sm_top st) address_quantum) of
        (Some track_size, Some base) \<Rightarrow>
          and_then (try_fold (place_small search track_size base)
              (sort_by (earlier_birth problem search) (snd entry))
              \<lparr>bd_colors = Map.empty, bd_count = 0, bd_offsets = sm_offsets st\<rparr>)
            (\<lambda>band.
               if bd_count band \<noteq> 0 \<and> track_size > (UINT64_MAX - base) div ucast (bd_count band)
               then Inl (kInvalidProblem, ''scale_separated_grid_dp small-band height overflows'')
               else Inr \<lparr>sm_offsets = bd_offsets band, sm_top = base + ucast (bd_count band) * track_size,
                         sm_tracks = SaturatingAdd (sm_tracks st) (ucast (bd_count band))\<rparr>)
      | _ \<Rightarrow> Inl (kInvalidProblem, ''scale_separated_grid_dp small-band address overflows''))"

definition PlaceSmallBand ::
  "DsaProblem \<Rightarrow> ReusePenaltySearchSpace \<Rightarrow> nat list \<Rightarrow> u64 \<Rightarrow> u64 \<Rightarrow> u64 \<Rightarrow> u64 list \<Rightarrow> failure + SmallBand" where
  "PlaceSmallBand problem search small threshold address_quantum start offsets =
     try_fold (place_class problem search address_quantum)
       (rev (harmonic_classes search small threshold address_quantum))
       \<lparr>sm_offsets = offsets, sm_top = start, sm_tracks = 0\<rparr>"

section \<open>A pool\<close>

record PoolScaleResult =
  sp_offsets :: "u64 list"
  sp_cost :: u64
  sp_quantum :: u64
  sp_large_limit :: u64
  sp_small_height :: u64
  sp_states :: u64
  sp_transitions :: u64
  sp_tracks :: u64
  sp_window :: nat
  sp_span :: nat
  sp_grid_offsets :: nat
  sp_large :: nat
  sp_small :: nat

definition empty_pool_result :: "u64 list \<Rightarrow> PoolScaleResult" where
  "empty_pool_result offsets = \<lparr>sp_offsets = offsets, sp_cost = 0, sp_quantum = 0, sp_large_limit = 0,
     sp_small_height = 0, sp_states = 0, sp_transitions = 0, sp_tracks = 0, sp_window = 0, sp_span = 0,
     sp_grid_offsets = 0, sp_large = 0, sp_small = 0\<rparr>"

definition merge_alignment :: "ReusePenaltySearchSpace \<Rightarrow> string \<Rightarrow> nat \<Rightarrow> u64 \<Rightarrow> failure + u64" where
  "merge_alignment search message node align =
     (case Scale_LeastCommonMultiple align (node_alignment (search_nodes search ! node)) of
        None \<Rightarrow> Inl (kUnsupported, message)
      | Some merged \<Rightarrow> Inr merged)"

definition timed_node ::
  "DsaProblem \<Rightarrow> ReusePenaltySearchSpace \<Rightarrow> u64 \<Rightarrow> nat \<Rightarrow> TimedNode list \<Rightarrow> failure + TimedNode list" where
  "timed_node problem search quantum node timed =
     (case (Scale_LifetimeHull problem (search_nodes search ! node), AlignUp (node_size (search_nodes search ! node)) quantum) of
        (Some (birth, death), Some rounded) \<Rightarrow>
          Inr (timed @ [\<lparr>tn_node = node, tn_birth = birth, tn_death = death, tn_size = rounded\<rparr>])
      | _ \<Rightarrow> Inl (kInvalidProblem, ''scale_separated_grid_dp cannot normalize a large buffer''))"

definition timed_before :: "ReusePenaltySearchSpace \<Rightarrow> TimedNode \<Rightarrow> TimedNode \<Rightarrow> bool" where
  "timed_before search first second \<longleftrightarrow>
     (tn_birth first, tn_death first, node_representative (search_nodes search ! tn_node first)) <
     (tn_birth second, tn_death second, node_representative (search_nodes search ! tn_node second))"

definition rank_nodes :: "nat \<Rightarrow> TimedNode list \<Rightarrow> ranks" where
  "rank_nodes n timed =
     foldl (\<lambda>ranks rank. ranks[tn_node (timed ! rank) := Some rank]) (replicate n None) [0..<length timed]"

text \<open>A pool without soft edges is one small band whose threshold is the capacity.\<close>

definition solve_soft_free ::
  "DsaProblem \<Rightarrow> ReusePenaltySearchSpace \<Rightarrow> nat list \<Rightarrow> u64 \<Rightarrow> u64 \<Rightarrow> u64 list \<Rightarrow> failure + PoolScaleResult" where
  "solve_soft_free problem search in_pool cap pool_alignment offsets =
     (if \<not> IsIntervalSmallBand problem search in_pool
      then Inl (kUnsupported, ''scale_separated_grid_dp soft-free pool requires the interval small-band profile'')
      else and_then (PlaceSmallBand problem search in_pool cap pool_alignment 0 offsets)
        (\<lambda>band. Inr ((empty_pool_result (sm_offsets band))
           \<lparr>sp_small := length in_pool, sp_small_height := sm_top band, sp_tracks := sm_tracks band\<rparr>)))"

definition place_large :: "TimedNode list \<Rightarrow> u32 list \<Rightarrow> u64 \<Rightarrow> u64 list \<Rightarrow> u64 list" where
  "place_large timed colors quantum offsets =
     foldl (\<lambda>os rank. os[tn_node (timed ! rank) := ucast (colors ! rank) * quantum]) offsets [0..<length timed]"

definition large_peak :: "ReusePenaltySearchSpace \<Rightarrow> TimedNode list \<Rightarrow> u64 list \<Rightarrow> u64" where
  "large_peak search timed offsets =
     foldl (\<lambda>peak t. max peak (offsets ! tn_node t + node_size (search_nodes search ! tn_node t))) 0 timed"

text \<open>The two bands, once the grid is known.\<close>

definition solve_bands ::
  "DsaProblem \<Rightarrow> ReusePenaltySearchSpace \<Rightarrow> ScaleSeparatedGridDpOptions \<Rightarrow> nat list \<Rightarrow> nat list \<Rightarrow> u64 \<Rightarrow> u64 \<Rightarrow>
   u64 \<Rightarrow> u64 \<Rightarrow> u64 list \<Rightarrow> failure + PoolScaleResult" where
  "solve_bands problem search options large small minimum_large_size pool_alignment quantum large_limit offsets =
     and_then (try_fold (timed_node problem search quantum) large [])
       (\<lambda>unsorted.
          let timed = sort_by (timed_before search) unsorted;
              rank_by_node = rank_nodes (length (search_nodes search)) timed
          in and_then (RunGridDp search timed rank_by_node quantum large_limit options)
            (\<lambda>grid.
               let offsets1 = place_large timed (gr_colors grid) quantum offsets
               in and_then (PlaceSmallBand problem search small minimum_large_size pool_alignment
                              (large_peak search timed offsets1) offsets1)
                 (\<lambda>band. Inr \<lparr>sp_offsets = sm_offsets band, sp_cost = gr_cost grid, sp_quantum = quantum,
                    sp_large_limit = large_limit,
                    sp_small_height = sm_top band - large_peak search timed offsets1, sp_states = gr_states grid,
                    sp_transitions = gr_transitions grid, sp_tracks = sm_tracks band, sp_window = gr_window grid,
                    sp_span = gr_span grid, sp_grid_offsets = gr_offsets grid, sp_large = length large,
                    sp_small = length small\<rparr>)))"

definition solve_scaled ::
  "DsaProblem \<Rightarrow> ReusePenaltySearchSpace \<Rightarrow> ScaleSeparatedGridDpOptions \<Rightarrow> nat list \<Rightarrow> u64 \<Rightarrow> u64 \<Rightarrow> u64 \<Rightarrow> u64 list \<Rightarrow>
   failure + PoolScaleResult" where
  "solve_scaled problem search options in_pool cap pool_alignment minimum_large_size offsets =
     (if minimum_large_size < CeilDivide cap (sc_large_denominator options)
      then Inl (kUnsupported, ''scale_separated_grid_dp soft endpoints violate the configured scale separation'')
      else
        let large = filter (\<lambda>node. node_size (search_nodes search ! node) \<ge> minimum_large_size) in_pool;
            small = filter (\<lambda>node. \<not> node_size (search_nodes search ! node) \<ge> minimum_large_size) in_pool
        in if \<not> IsIntervalSmallBand problem search small
           then Inl (kUnsupported, ''scale_separated_grid_dp harmonic band requires singleton, single-interval small buffers with only temporal hard conflicts'')
           else and_then (try_fold (merge_alignment search ''scale_separated_grid_dp grid alignment overflows'') large pool_alignment)
             (\<lambda>grid_alignment.
                let raw_quantum = minimum_large_size div sc_epsilon_denominator options;
                    quantum = raw_quantum div grid_alignment * grid_alignment;
                    augmentation = CeilDivide cap (sc_epsilon_denominator options)
                in if quantum = 0
                   then Inl (kUnsupported, ''scale_separated_grid_dp cannot form an alignment-compatible grid quantum'')
                   else if AddOverflows cap augmentation
                   then Inl (kInvalidProblem, ''scale_separated_grid_dp augmented capacity overflows'')
                   else solve_bands problem search options large small minimum_large_size pool_alignment quantum
                          (cap + augmentation) offsets))"

definition Scale_SolvePool ::
  "DsaProblem \<Rightarrow> ReusePenaltySearchSpace \<Rightarrow> Pool \<Rightarrow> ScaleSeparatedGridDpOptions \<Rightarrow> failure + PoolScaleResult" where
  "Scale_SolvePool problem search pool options =
     (let offsets = replicate (length (search_nodes search)) 0; in_pool = PoolNodes search (pool_id pool) in
      case capacity pool of
        None \<Rightarrow> Inl (kUnsupported, ''scale_separated_grid_dp requires fixed pool capacities'')
      | Some cap \<Rightarrow>
          if reserved_ranges pool \<noteq> []
          then Inl (kUnsupported, ''scale_separated_grid_dp does not support reserved ranges'')
          else if in_pool = [] then Inr (empty_pool_result offsets)
          else and_then (try_fold (merge_alignment search ''scale_separated_grid_dp pool alignment overflows'') in_pool 1)
            (\<lambda>pool_alignment.
               if list_ex (\<lambda>node. node_size (search_nodes search ! node) mod pool_alignment \<noteq> 0) in_pool
               then Inl (kUnsupported, ''scale_separated_grid_dp requires sizes on the common alignment grid'')
               else case MinimumSoftEndpointSize search (pool_id pool) of
                 None \<Rightarrow> solve_soft_free problem search in_pool cap pool_alignment offsets
               | Some minimum_large_size \<Rightarrow>
                   solve_scaled problem search options in_pool cap pool_alignment minimum_large_size offsets))"

section \<open>The solver\<close>

definition BuildBicriteriaResult :: "DsaProblem \<Rightarrow> ReusePenaltySearchSpace \<Rightarrow> u64 list \<Rightarrow> DsaResult" where
  "BuildBicriteriaResult problem search offsets =
     (let sol = ExpandReuseNodeSolution search offsets;
          errors = ValidateSolution (without_capacities problem) sol;
          obj = EvaluateObjective problem sol
      in if errors \<noteq> []
         then DsaResult_default\<lparr>status := kInvalidProblem,
           diagnostics := ''scale_separated_grid_dp produced a structurally invalid placement'' # errors\<rparr>
         else DsaResult_default\<lparr>res_objective := obj, solution := Some sol,
           status := (if EvaluateObjectiveMetric problem obj kCapacityOverflow = 0 then kFeasible else kBestEffortNoFit)\<rparr>)"

record ScaleState =
  ss_offsets :: "u64 list"
  ss_cost :: u64
  ss_quantum :: u64
  ss_large_limit :: u64
  ss_small_height :: u64
  ss_states :: u64
  ss_transitions :: u64
  ss_tracks :: u64
  ss_large :: u64
  ss_small :: u64
  ss_window :: u64
  ss_span :: u64
  ss_grid_offsets :: u64
  ss_pools :: u64

definition merge_pool ::
  "DsaProblem \<Rightarrow> ReusePenaltySearchSpace \<Rightarrow> ScaleSeparatedGridDpOptions \<Rightarrow> Pool \<Rightarrow> ScaleState \<Rightarrow> failure + ScaleState" where
  "merge_pool problem search options pool st =
     and_then (Scale_SolvePool problem search pool options)
       (\<lambda>r. Inr \<lparr>ss_offsets = map (\<lambda>node. if node_pool (search_nodes search ! node) = pool_id pool
                    then sp_offsets r ! node else ss_offsets st ! node) [0..<length (ss_offsets st)],
                 ss_cost = SaturatingAdd (ss_cost st) (sp_cost r),
                 ss_quantum = max (ss_quantum st) (sp_quantum r),
                 ss_large_limit = max (ss_large_limit st) (sp_large_limit r),
                 ss_small_height = SaturatingAdd (ss_small_height st) (sp_small_height r),
                 ss_states = SaturatingAdd (ss_states st) (sp_states r),
                 ss_transitions = SaturatingAdd (ss_transitions st) (sp_transitions r),
                 ss_tracks = SaturatingAdd (ss_tracks st) (sp_tracks r),
                 ss_large = SaturatingAdd (ss_large st) (of_nat (sp_large r)),
                 ss_small = SaturatingAdd (ss_small st) (of_nat (sp_small r)),
                 ss_window = max (ss_window st) (of_nat (sp_window r)),
                 ss_span = max (ss_span st) (of_nat (sp_span r)),
                 ss_grid_offsets = max (ss_grid_offsets st) (of_nat (sp_grid_offsets r)),
                 ss_pools = ss_pools st + 1\<rparr>)"

definition scale_metrics :: "ScaleSeparatedGridDpOptions \<Rightarrow> ScaleState \<Rightarrow> (string \<rightharpoonup> u64)" where
  "scale_metrics options st = map_of
     [(''optimized_pools'', ss_pools st), (''large_nodes'', ss_large st), (''small_nodes'', ss_small st),
      (''grid_quantum_max'', ss_quantum st), (''large_band_limit_max'', ss_large_limit st),
      (''small_band_bytes_total'', ss_small_height st), (''dp_states'', ss_states st),
      (''dp_transitions'', ss_transitions st), (''max_window_nodes'', ss_window st),
      (''max_soft_span'', ss_span st), (''max_grid_offsets'', ss_grid_offsets st),
      (''rounded_dp_cost'', ss_cost st), (''epsilon_denominator'', sc_epsilon_denominator options),
      (''scale_denominator_bound'', sc_large_denominator options), (''small_tracks'', ss_tracks st),
      (''bicriteria_height_augmentation'', 1)]"

definition finish_scale ::
  "DsaProblem \<Rightarrow> ReusePenaltySearchSpace \<Rightarrow> ScaleSeparatedGridDpOptions \<Rightarrow> ScaleState \<Rightarrow> DsaResult" where
  "finish_scale problem search options st =
     (let r = BuildBicriteriaResult problem search (ss_offsets st) in
      if solution r \<noteq> None \<and> reuse_cost (res_objective r) > ss_cost st
      then add_diagnostics [''scale_separated_grid_dp true cost exceeds its rounded DP cost'']
             (r\<lparr>status := kInvalidProblem, solution := None\<rparr>)
      else add_diagnostics
        [''scale_separated_grid_dp minimizes rounded large-buffer reuse cost and stacks a soft-edge-free harmonic small-buffer band; BestEffortNoFit denotes resource augmentation, not structural invalidity'']
        (r\<lparr>solver_metrics := scale_metrics options st\<rparr>))"

definition scale_search ::
  "DsaProblem \<Rightarrow> ReusePenaltySearchSpace \<Rightarrow> ScaleSeparatedGridDpOptions \<Rightarrow> DsaResult" where
  "scale_search problem search options =
     (case try_fold (merge_pool problem search options) (pools problem)
             \<lparr>ss_offsets = replicate (length (search_nodes search)) 0, ss_cost = 0, ss_quantum = 0, ss_large_limit = 0,
              ss_small_height = 0, ss_states = 0, ss_transitions = 0, ss_tracks = 0, ss_large = 0, ss_small = 0,
              ss_window = 0, ss_span = 0, ss_grid_offsets = 0, ss_pools = 0\<rparr> of
        Inl (st, message) \<Rightarrow> DsaResult_default\<lparr>status := st, diagnostics := [message]\<rparr>
      | Inr st \<Rightarrow> finish_scale problem search options st)"

definition ScaleSeparatedGridDp_Solve :: "ScaleSeparatedGridDpOptions \<Rightarrow> DsaProblem \<Rightarrow> DsaResult" where
  "ScaleSeparatedGridDp_Solve options problem =
     (let validation = ValidateProblem problem;
          compatibility = CheckSolverCompatibility problem ScaleCapabilities;
          search = BuildReusePenaltySearchSpace problem
      in if validation \<noteq> [] then DsaResult_default\<lparr>status := kInvalidProblem, diagnostics := validation\<rparr>
         else if sc_large_denominator options = 0 \<or> sc_epsilon_denominator options = 0 \<or> sc_grid_offsets options = 0
         then DsaResult_default\<lparr>status := kInvalidProblem,
                diagnostics := [''scale_separated_grid_dp option denominators and grid guard must be nonzero'']\<rparr>
         else if \<not> Compatible compatibility
         then DsaResult_default\<lparr>status := kUnsupported,
                diagnostics := feature_messages ''scale_separated_grid_dp'' compatibility @
                  objective_messages ''scale_separated_grid_dp'' compatibility\<rparr>
         else case Scale_ObjectiveLimitation problem of
           Some message \<Rightarrow> DsaResult_default\<lparr>status := kUnsupported, diagnostics := [message]\<rparr>
         | None \<Rightarrow>
             if space_errors (placement search) \<noteq> []
             then DsaResult_default\<lparr>status := kInvalidProblem, diagnostics := space_errors (placement search)\<rparr>
             else if space_flexible_pools (placement search)
             then DsaResult_default\<lparr>status := kUnsupported,
                    diagnostics := [''scale_separated_grid_dp does not support flexible pool assignment'']\<rparr>
             else if soft_weights search = []
             then DsaResult_default\<lparr>status := kUnsupported,
                    diagnostics := [''scale_separated_grid_dp requires at least one soft reuse edge'']\<rparr>
             else scale_search problem search options)"

end
