(* ===== verification/Scale_Dp.thy ===== *)
theory Scale_Dp
  imports Scale Canonical_Spec
begin

text \<open>
  The grid dynamic program is exact: its result is a colouring of the ranks that fits the grid and breaks no
  hard pair, no such colouring is cheaper, and when it reports infeasibility there is none.
\<close>

section \<open>Colourings of the grid\<close>

text \<open>The ranks number the large nodes, and the hard neighbours are symmetric.\<close>

definition ranks_ok :: "ReusePenaltySearchSpace \<Rightarrow> TimedNode list \<Rightarrow> ranks \<Rightarrow> bool" where
  "ranks_ok search ns ranks \<longleftrightarrow>
     (\<forall>r<length ns. ranks ! tn_node (ns ! r) = Some r) \<and>
     (\<forall>v r. v < length (search_nodes search) \<longrightarrow> ranks ! v = Some r \<longrightarrow> r < length ns \<and> tn_node (ns ! r) = v) \<and>
     (\<forall>r<length ns. tn_node (ns ! r) < length (search_nodes search)) \<and>
     (\<forall>i<length (search_nodes search). \<forall>j\<in>set (hard_neighbors search ! i).
        j < length (search_nodes search) \<and> i \<in> set (hard_neighbors search ! j))"

lemma ranks_okD:
  assumes "ranks_ok search ns ranks"
  shows "r < length ns \<Longrightarrow> ranks ! tn_node (ns ! r) = Some r"
    "v < length (search_nodes search) \<Longrightarrow> ranks ! v = Some r \<Longrightarrow> r < length ns"
    "v < length (search_nodes search) \<Longrightarrow> ranks ! v = Some r \<Longrightarrow> tn_node (ns ! r) = v"
    "r < length ns \<Longrightarrow> tn_node (ns ! r) < length (search_nodes search)"
    "i < length (search_nodes search) \<Longrightarrow> j \<in> set (hard_neighbors search ! i) \<Longrightarrow> j < length (search_nodes search)"
    "i < length (search_nodes search) \<Longrightarrow> j \<in> set (hard_neighbors search ! i) \<Longrightarrow> i \<in> set (hard_neighbors search ! j)"
  using assms unfolding ranks_ok_def by blast+

definition hard_ranks :: "ReusePenaltySearchSpace \<Rightarrow> TimedNode list \<Rightarrow> nat \<Rightarrow> nat \<Rightarrow> bool" where
  "hard_ranks search ns i j \<longleftrightarrow> tn_node (ns ! j) \<in> set (hard_neighbors search ! tn_node (ns ! i))"

definition color_count :: "TimedNode list \<Rightarrow> u64 \<Rightarrow> u64 \<Rightarrow> nat \<Rightarrow> nat" where
  "color_count ns quantum large_limit i = unat ((large_limit - tn_size (ns ! i)) div quantum + 1)"

definition grid_fits ::
  "ReusePenaltySearchSpace \<Rightarrow> TimedNode list \<Rightarrow> u64 \<Rightarrow> u64 \<Rightarrow> nat \<Rightarrow> (nat \<Rightarrow> u32) \<Rightarrow> bool" where
  "grid_fits search ns quantum large_limit k c \<longleftrightarrow>
     (\<forall>i<k. unat (c i) < color_count ns quantum large_limit i \<and>
        (\<forall>j<i. hard_ranks search ns i j \<longrightarrow> \<not> grid_overlap ns quantum i (c i) j (c j)))"

definition row_cost :: "ReusePenaltySearchSpace \<Rightarrow> TimedNode list \<Rightarrow> ranks \<Rightarrow> u64 \<Rightarrow> nat \<Rightarrow> (nat \<Rightarrow> u32) \<Rightarrow> nat" where
  "row_cost search ns ranks quantum i c =
     (\<Sum>(v, w)\<leftarrow>soft_neighbors search ! tn_node (ns ! i).
        case ranks ! v of None \<Rightarrow> 0
        | Some j \<Rightarrow> if j < i \<and> grid_overlap ns quantum i (c i) j (c j) then unat w else 0)"

definition grid_cost :: "ReusePenaltySearchSpace \<Rightarrow> TimedNode list \<Rightarrow> ranks \<Rightarrow> u64 \<Rightarrow> nat \<Rightarrow> (nat \<Rightarrow> u32) \<Rightarrow> nat" where
  "grid_cost search ns ranks quantum k c = (\<Sum>i<k. row_cost search ns ranks quantum i c)"

lemma grid_fits_cong:
  assumes "\<And>i. i < k \<Longrightarrow> c i = d i"
  shows "grid_fits search ns quantum large_limit k c = grid_fits search ns quantum large_limit k d"
  using assms by (auto simp: grid_fits_def)

lemma grid_fits_mono: "grid_fits search ns quantum large_limit n c \<Longrightarrow> k \<le> n \<Longrightarrow> grid_fits search ns quantum large_limit k c"
  unfolding grid_fits_def by (meson order_less_le_trans)

lemma row_cost_cong:
  assumes "\<And>j. j \<le> i \<Longrightarrow> c j = d j"
  shows "row_cost search ns ranks quantum i c = row_cost search ns ranks quantum i d"
  unfolding row_cost_def using assms by (intro arg_cong [of _ _ sum_list] map_cong refl) (auto split: option.splits)

lemma grid_cost_cong:
  assumes "\<And>i. i < k \<Longrightarrow> c i = d i"
  shows "grid_cost search ns ranks quantum k c = grid_cost search ns ranks quantum k d"
  unfolding grid_cost_def using assms by (intro sum.cong row_cost_cong refl) auto

lemma grid_fits_Suc:
  "grid_fits search ns quantum large_limit (Suc k) c \<longleftrightarrow> grid_fits search ns quantum large_limit k c \<and>
     unat (c k) < color_count ns quantum large_limit k \<and>
     (\<forall>j<k. hard_ranks search ns k j \<longrightarrow> \<not> grid_overlap ns quantum k (c k) j (c j))"
  by (auto simp: grid_fits_def less_Suc_eq)

lemma grid_cost_Suc:
  "grid_cost search ns ranks quantum (Suc k) c = grid_cost search ns ranks quantum k c + row_cost search ns ranks quantum k c"
  by (simp add: grid_cost_def)

section \<open>Transitions\<close>

text \<open>An entry stands for a colouring when its key lists the colours of the window.\<close>

lemma offset_from_state:
  assumes "de_key e = map c window"
  shows "OffsetFromState window e r = (if r \<in> set window then Some (c r) else None)"
  unfolding OffsetFromState_def assms by (induction window) auto

lemma next_key_Some:
  assumes "de_key e = map c window" "next_key window e k color kept = Some key"
  shows "key = map (c(k := color)) kept"
  using assms(2)
proof (induction kept arbitrary: key)
  case (Cons r rest)
  then show ?case
    using offset_from_state [OF assms(1)] by (auto split: if_splits option.splits)
qed simp

lemma transition_cost_Some:
  assumes "de_key e = map c window" "TransitionCost search ns ranks window e k color quantum = Some x"
  shows "x = saturated (row_cost search ns ranks quantum k (c(k := color)))"
proof -
  let ?f = "\<lambda>(v, w :: u64). case ranks ! v of None \<Rightarrow> 0
      | Some j \<Rightarrow> if j < k \<and> grid_overlap ns quantum k color j (c j) then unat w else (0 :: nat)"
  have none: "foldl (add_transition_cost ns ranks window e k color quantum) None es = None" for es
    by (induction es) (simp_all add: add_transition_cost_def)
  have "foldl (add_transition_cost ns ranks window e k color quantum) (Some (saturated a)) es = Some y \<Longrightarrow>
      y = saturated (a + sum_list (map ?f es))" for a y es
  proof (induction es arbitrary: a)
    case (Cons entry es)
    let ?step = "add_transition_cost ns ranks window e k color quantum (Some (saturated a)) entry"
    have "?step \<in> {None, Some (saturated (a + ?f entry))}"
      by (auto simp: add_transition_cost_def offset_from_state [OF assms(1)] saturated_word split_beta split: option.splits)
    moreover have "?step \<noteq> None"
    proof
      assume "?step = None"
      then show False using Cons.prems none [of es] by simp
    qed
    ultimately have step: "?step = Some (saturated (a + ?f entry))" by blast
    have "y = saturated (a + ?f entry + sum_list (map ?f es))"
      by (rule Cons.IH) (use Cons.prems step in simp)
    then show ?case by (simp only: list.map sum_list.Cons add.assoc)
  qed simp
  from this [of 0 _ x] assms(2) have "x = saturated (sum_list (map ?f (soft_neighbors search ! tn_node (ns ! k))))"
    by (simp add: TransitionCost_def)
  also have "sum_list (map ?f (soft_neighbors search ! tn_node (ns ! k))) =
      row_cost search ns ranks quantum k (c(k := color))"
    unfolding row_cost_def by (intro arg_cong [of _ _ sum_list] map_cong refl) (auto split: option.splits)
  finally show ?thesis .
qed

lemma transition_fits:
  assumes ok: "ranks_ok search ns ranks" and k: "k < length ns" and key: "de_key e = map c window"
    and window: "\<forall>j<k. hard_ranks search ns k j \<longrightarrow> j \<in> set window"
  shows "TransitionFits search ns ranks window e k color quantum \<longleftrightarrow>
    (\<forall>j<k. hard_ranks search ns k j \<longrightarrow> \<not> grid_overlap ns quantum k color j (c j))"
proof
  assume fits: "TransitionFits search ns ranks window e k color quantum"
  show "\<forall>j<k. hard_ranks search ns k j \<longrightarrow> \<not> grid_overlap ns quantum k color j (c j)"
  proof (intro allI impI)
    fix j
    assume j: "j < k" "hard_ranks search ns k j"
    have "ranks ! tn_node (ns ! j) = Some j" using ranks_okD(1) [OF ok] j(1) k by simp
    moreover have "case ranks ! tn_node (ns ! j) of None \<Rightarrow> True
      | Some r \<Rightarrow> r \<ge> k \<or> (case OffsetFromState window e r of None \<Rightarrow> False
          | Some d \<Rightarrow> \<not> grid_overlap ns quantum k color r d)"
      using fits j(2) unfolding TransitionFits_def hard_ranks_def list_all_iff by (rule bspec)
    ultimately show "\<not> grid_overlap ns quantum k color j (c j)"
      using j(1) window [rule_format, OF j] offset_from_state [OF key] by simp
  qed
next
  assume apart: "\<forall>j<k. hard_ranks search ns k j \<longrightarrow> \<not> grid_overlap ns quantum k color j (c j)"
  have "case ranks ! v of None \<Rightarrow> True
      | Some r \<Rightarrow> r \<ge> k \<or> (case OffsetFromState window e r of None \<Rightarrow> False
          | Some d \<Rightarrow> \<not> grid_overlap ns quantum k color r d)"
    if v: "v \<in> set (hard_neighbors search ! tn_node (ns ! k))" for v
  proof (cases "ranks ! v")
    case (Some r)
    have "tn_node (ns ! r) = v"
      using ranks_okD(3) [OF ok ranks_okD(5) [OF ok ranks_okD(4) [OF ok k] v] Some] .
    then have "hard_ranks search ns k r" using v by (simp add: hard_ranks_def)
    then show ?thesis
      using Some apart window [rule_format, of r] offset_from_state [OF key, of r] by (cases "k \<le> r") simp_all
  qed simp
  then show "TransitionFits search ns ranks window e k color quantum"
    unfolding TransitionFits_def list_all_iff by blast
qed

section \<open>One layer\<close>

text \<open>The index finds every stored key.\<close>

definition layer_ok :: "DpLayer \<Rightarrow> bool" where
  "layer_ok layer \<longleftrightarrow>
     (\<forall>key k. ly_index layer key = Some k \<longrightarrow> k < length (ly_entries layer) \<and> de_key (ly_entries layer ! k) = key)"

definition dp_covers :: "DpEntry list \<Rightarrow> DpEntry \<Rightarrow> bool" where
  "dp_covers entries e \<longleftrightarrow> (\<exists>e'\<in>set entries. de_key e' = de_key e \<and> de_cost e' \<le> de_cost e)"

lemma store_entry_Inr:
  assumes "store_entry options e layer = Inr layer'" "layer_ok layer"
  shows "layer_ok layer' \<and> dp_covers (ly_entries layer') e \<and>
    (\<forall>d. dp_covers (ly_entries layer) d \<longrightarrow> dp_covers (ly_entries layer') d) \<and>
    set (ly_entries layer') \<subseteq> insert e (set (ly_entries layer))"
proof (cases "ly_index layer (de_key e)")
  case None
  then have "layer' = layer\<lparr>ly_entries := ly_entries layer @ [e],
      ly_index := (ly_index layer)(de_key e \<mapsto> length (ly_entries layer)), ly_states := ly_states layer + 1\<rparr>"
    using assms(1) by (simp add: store_entry_def split: if_splits)
  then show ?thesis using assms(2) by (auto simp: layer_ok_def dp_covers_def nth_append less_Suc_eq)
next
  case (Some k)
  then have k: "k < length (ly_entries layer)" "de_key (ly_entries layer ! k) = de_key e"
    using assms(2) by (simp_all add: layer_ok_def)
  show ?thesis
  proof (cases "de_cost e < de_cost (ly_entries layer ! k)")
    case True
    let ?es = "(ly_entries layer)[k := e]"
    have layer': "layer' = layer\<lparr>ly_entries := ?es\<rparr>" using assms(1) Some True by (simp add: store_entry_def)
    have "layer_ok layer'" unfolding layer' layer_ok_def using assms(2) k by (auto simp: layer_ok_def nth_list_update)
    moreover have e: "e \<in> set ?es" using k(1) by (rule set_update_memI)
    moreover have "dp_covers ?es d" if d: "dp_covers (ly_entries layer) d" for d
    proof -
      obtain d' where d': "d' \<in> set (ly_entries layer)" "de_key d' = de_key d" "de_cost d' \<le> de_cost d"
        using d unfolding dp_covers_def by blast
      then obtain i where "i < length (ly_entries layer)" "d' = ly_entries layer ! i" by (auto simp: in_set_conv_nth)
      note i = this(1) d'(2,3) [unfolded this(2)]
      show ?thesis
      proof (cases "i = k")
        case True
        then show ?thesis using e k(2) i(2,3) \<open>de_cost e < de_cost (ly_entries layer ! k)\<close>
          by (auto simp: dp_covers_def intro!: bexI [of _ e])
      next
        case False
        then have "?es ! i = ly_entries layer ! i" by simp
        then show ?thesis using i by (auto simp: dp_covers_def in_set_conv_nth intro!: exI [of _ i])
      qed
    qed
    ultimately show ?thesis using set_update_subset_insert [of "ly_entries layer" k e] layer' by (auto simp: dp_covers_def)
  next
    case False
    then have "layer' = layer" using assms(1) Some by (simp add: store_entry_def)
    then show ?thesis using assms(2) k False by (auto simp: dp_covers_def not_less intro!: bexI [of _ "ly_entries layer ! k"])
  qed
qed

text \<open>A step that gives up does not claim infeasibility.\<close>

definition refused :: "failure \<Rightarrow> bool" where
  "refused f \<longleftrightarrow> fst f \<in> {kUnsupported, kTimeout, kInvalidProblem}"

lemma refused_simps [simp]: "refused (kUnsupported, m)" "refused (kTimeout, m)" "refused (kInvalidProblem, m)"
  by (simp_all add: refused_def)

lemma refused_not_infeasible: "refused f \<Longrightarrow> fst f \<noteq> kInfeasibleProven"
  by (auto simp: refused_def)

lemma store_entry_Inl: "store_entry options e layer = Inl f \<Longrightarrow> refused f"
  by (auto simp: store_entry_def split: option.splits if_splits)

text \<open>What a stored entry says about every colouring that its predecessor stands for.\<close>

definition apart_at :: "ReusePenaltySearchSpace \<Rightarrow> TimedNode list \<Rightarrow> u64 \<Rightarrow> nat \<Rightarrow> (nat \<Rightarrow> u32) \<Rightarrow> bool" where
  "apart_at search ns quantum k c \<longleftrightarrow>
     (\<forall>j<k. hard_ranks search ns k j \<longrightarrow> \<not> grid_overlap ns quantum k (c k) j (c j))"

definition entry_extends ::
  "ReusePenaltySearchSpace \<Rightarrow> TimedNode list \<Rightarrow> ranks \<Rightarrow> u64 \<Rightarrow> nat list \<Rightarrow> nat list \<Rightarrow> DpEntry \<Rightarrow> nat \<Rightarrow> DpEntry \<Rightarrow> bool" where
  "entry_extends search ns ranks quantum window next_window previous k e \<longleftrightarrow>
     (\<forall>c. de_key previous = map c window \<longrightarrow> c k = de_offset e \<longrightarrow>
        apart_at search ns quantum k c \<and> de_key e = map c next_window \<and>
        de_cost e = SaturatingAdd (de_cost previous) (saturated (row_cost search ns ranks quantum k c)))"

lemma grid_transition_Inr:
  assumes ok: "ranks_ok search ns ranks" "k < length ns"
    and window: "\<forall>j<k. hard_ranks search ns k j \<longrightarrow> j \<in> set window"
    and run: "grid_transition search ns ranks quantum options window next_window prev k (i, v) layer = Inr layer'"
    and layer: "layer_ok layer"
  shows "layer_ok layer' \<and> (\<forall>d. dp_covers (ly_entries layer) d \<longrightarrow> dp_covers (ly_entries layer') d) \<and>
    (\<forall>e\<in>set (ly_entries layer'). e \<in> set (ly_entries layer) \<or>
       de_predecessor e = i \<and> de_offset e = of_nat v \<and> entry_extends search ns ranks quantum window next_window (prev ! i) k e) \<and>
    (\<forall>c. de_key (prev ! i) = map c window \<longrightarrow> c k = of_nat v \<longrightarrow> apart_at search ns quantum k c \<longrightarrow>
       dp_covers (ly_entries layer') \<lparr>de_key = map c next_window, de_cost = SaturatingAdd (de_cost (prev ! i))
         (saturated (row_cost search ns ranks quantum k c)), de_predecessor = i, de_offset = of_nat v\<rparr>)"
proof -
  let ?layer1 = "layer\<lparr>ly_transitions := ly_transitions layer + 1\<rparr>"
  let ?color = "of_nat v :: u32"
  have fits: "TransitionFits search ns ranks window (prev ! i) k ?color quantum \<longleftrightarrow> apart_at search ns quantum k c"
    if "de_key (prev ! i) = map c window" "c k = ?color" for c
    using transition_fits [OF ok that(1) window] that(2) by (simp add: apart_at_def)
  have layer1: "layer_ok ?layer1" using layer by (simp add: layer_ok_def)
  show ?thesis
  proof (cases "TransitionFits search ns ranks window (prev ! i) k ?color quantum")
    case False
    then have "layer' = ?layer1" using run by (auto simp: grid_transition_def Let_def split: if_splits)
    then show ?thesis using layer1 fits False by simp
  next
    case True
    then obtain x key where x: "TransitionCost search ns ranks window (prev ! i) k ?color quantum = Some x"
      and key: "next_key window (prev ! i) k ?color next_window = Some key"
      and store: "store_entry options \<lparr>de_key = key, de_cost = SaturatingAdd (de_cost (prev ! i)) x,
        de_predecessor = i, de_offset = ?color\<rparr> ?layer1 = Inr layer'"
      using run by (auto simp: grid_transition_def Let_def split: if_splits option.splits)
    have vals: "key = map c next_window" "x = saturated (row_cost search ns ranks quantum k c)"
      if "de_key (prev ! i) = map c window" "c k = ?color" for c
    proof -
      have "c(k := ?color) = c" using that(2) by auto
      then show "key = map c next_window" "x = saturated (row_cost search ns ranks quantum k c)"
        using next_key_Some [OF that(1) key] transition_cost_Some [OF that(1) x] by simp_all
    qed
    define e where "e = \<lparr>de_key = key, de_cost = SaturatingAdd (de_cost (prev ! i)) x, de_predecessor = i,
        de_offset = ?color\<rparr>"
    have eq: "e = \<lparr>de_key = map c next_window, de_cost = SaturatingAdd (de_cost (prev ! i))
         (saturated (row_cost search ns ranks quantum k c)), de_predecessor = i, de_offset = ?color\<rparr>"
      if "de_key (prev ! i) = map c window" "c k = ?color" for c
      unfolding e_def using vals [OF that] by (simp only:)
    have "entry_extends search ns ranks quantum window next_window (prev ! i) k e"
      unfolding entry_extends_def
    proof (intro allI impI)
      fix c
      assume c: "de_key (prev ! i) = map c window" "c k = de_offset e"
      then have ck: "c k = ?color" by (simp add: e_def)
      show "apart_at search ns quantum k c \<and> de_key e = map c next_window \<and>
        de_cost e = SaturatingAdd (de_cost (prev ! i)) (saturated (row_cost search ns ranks quantum k c))"
        using fits [OF c(1) ck] True by (simp add: eq [OF c(1) ck])
    qed
    moreover have "de_predecessor e = i" "de_offset e = ?color" by (simp_all add: e_def)
    moreover note new = store_entry_Inr [OF store [folded e_def] layer1]
    ultimately have made: "\<forall>d\<in>set (ly_entries layer'). d \<in> set (ly_entries layer) \<or>
       de_predecessor d = i \<and> de_offset d = ?color \<and> entry_extends search ns ranks quantum window next_window (prev ! i) k d"
      by auto
    have covered: "dp_covers (ly_entries layer') \<lparr>de_key = map c next_window, de_cost = SaturatingAdd (de_cost (prev ! i))
         (saturated (row_cost search ns ranks quantum k c)), de_predecessor = i, de_offset = ?color\<rparr>"
      if "de_key (prev ! i) = map c window" "c k = ?color" for c
      using new unfolding eq [OF that, symmetric] by blast
    show ?thesis using new made covered by simp
  qed
qed

lemma grid_transition_Inl:
  "grid_transition search ns ranks quantum options window next_window prev k choice layer = Inl f \<Longrightarrow>
   refused f"
  by (auto simp: grid_transition_def Let_def store_entry_Inl split: if_splits option.splits)

lemma and_then_Inl: "and_then m f = Inl e \<longleftrightarrow> m = Inl e \<or> (\<exists>x. m = Inr x \<and> f x = Inl e)"
  by (cases m) simp_all

lemma try_fold_Inl:
  assumes "try_fold f xs s = Inl e" "\<And>x t e. x \<in> set xs \<Longrightarrow> f x t = Inl e \<Longrightarrow> P e"
  shows "P e"
  using assms
proof (induction xs arbitrary: s)
  case (Cons x xs)
  then show ?case by (cases "f x s") auto
qed simp

lemma grid_transitions:
  assumes ok: "ranks_ok search ns ranks" "k < length ns"
    and window: "\<forall>j<k. hard_ranks search ns k j \<longrightarrow> j \<in> set window"
    and run: "try_fold (grid_transition search ns ranks quantum options window next_window prev k) choices
      \<lparr>ly_entries = [], ly_index = Map.empty, ly_states = a, ly_transitions = b\<rparr> = Inr layer"
  shows "\<forall>e\<in>set (ly_entries layer). \<exists>i v. (i, v) \<in> set choices \<and> de_predecessor e = i \<and> de_offset e = of_nat v \<and>
      entry_extends search ns ranks quantum window next_window (prev ! i) k e"
    "\<And>i v c. (i, v) \<in> set choices \<Longrightarrow> de_key (prev ! i) = map c window \<Longrightarrow> c k = of_nat v \<Longrightarrow>
      apart_at search ns quantum k c \<Longrightarrow>
      dp_covers (ly_entries layer) \<lparr>de_key = map c next_window, de_cost = SaturatingAdd (de_cost (prev ! i))
        (saturated (row_cost search ns ranks quantum k c)), de_predecessor = i, de_offset = of_nat v\<rparr>"
proof -
  let ?made = "\<lambda>ys e. \<exists>i v. (i, v) \<in> set ys \<and> de_predecessor e = i \<and> de_offset e = of_nat v \<and>
      entry_extends search ns ranks quantum window next_window (prev ! i) k e"
  let ?covered = "\<lambda>ys layer. \<forall>i v c. (i, v) \<in> set ys \<longrightarrow> de_key (prev ! i) = map c window \<longrightarrow> c k = of_nat v \<longrightarrow>
      apart_at search ns quantum k c \<longrightarrow>
      dp_covers (ly_entries layer) \<lparr>de_key = map c next_window, de_cost = SaturatingAdd (de_cost (prev ! i))
        (saturated (row_cost search ns ranks quantum k c)), de_predecessor = i, de_offset = of_nat v\<rparr>"
  have "layer_ok layer \<and> (\<forall>e\<in>set (ly_entries layer). ?made choices e) \<and> ?covered choices layer"
    using run
  proof (induction rule: try_fold_induct)
    case start
    then show ?case by (simp add: layer_ok_def)
  next
    case (step ys x t t')
    obtain i v where x: "x = (i, v)" by fastforce
    note new = grid_transition_Inr [OF ok window step(2) [unfolded x]]
    have t: "layer_ok t" "\<forall>e\<in>set (ly_entries t). ?made ys e" "?covered ys t" using step(3) by blast+
    have "\<forall>e\<in>set (ly_entries t'). ?made (ys @ [x]) e"
    proof
      fix e
      assume "e \<in> set (ly_entries t')"
      then consider "e \<in> set (ly_entries t)" | "de_predecessor e = i" "de_offset e = of_nat v"
        "entry_extends search ns ranks quantum window next_window (prev ! i) k e"
        using new [OF t(1)] by blast
      then show "?made (ys @ [x]) e"
      proof cases
        case 1
        then show ?thesis using t(2) by fastforce
      next
        case 2
        then show ?thesis unfolding x by fastforce
      qed
    qed
    moreover have "?covered (ys @ [x]) t'"
      using new [OF t(1)] t(3) unfolding x by (auto simp: set_append)
    ultimately show ?case using new [OF t(1)] by blast
  qed
  then show "\<forall>e\<in>set (ly_entries layer). ?made choices e"
    "\<And>i v c. (i, v) \<in> set choices \<Longrightarrow> de_key (prev ! i) = map c window \<Longrightarrow> c k = of_nat v \<Longrightarrow>
      apart_at search ns quantum k c \<Longrightarrow>
      dp_covers (ly_entries layer) \<lparr>de_key = map c next_window, de_cost = SaturatingAdd (de_cost (prev ! i))
        (saturated (row_cost search ns ranks quantum k c)), de_predecessor = i, de_offset = of_nat v\<rparr>"
    by blast+
qed

section \<open>All layers\<close>

definition last_entries :: "DpEntry list list \<Rightarrow> DpEntry list" where
  "last_entries layers = (if layers = [] then initial_entries else List.last layers)"

text \<open>Every entry of the last layer stands for the colouring along its predecessors, and every colouring that
  fits is covered by an entry that is no dearer.\<close>

definition layers_ok ::
  "ReusePenaltySearchSpace \<Rightarrow> TimedNode list \<Rightarrow> ranks \<Rightarrow> u64 \<Rightarrow> u64 \<Rightarrow> nat list \<Rightarrow> DpEntry list list \<Rightarrow> bool" where
  "layers_ok search ns ranks quantum large_limit window layers \<longleftrightarrow>
     (\<forall>s<length (last_entries layers). let cs = trace_back (rev layers) s in
        length cs = length layers \<and> grid_fits search ns quantum large_limit (length layers) ((!) cs) \<and>
        de_key (last_entries layers ! s) = map ((!) cs) window \<and>
        de_cost (last_entries layers ! s) = saturated (grid_cost search ns ranks quantum (length layers) ((!) cs))) \<and>
     (\<forall>c. grid_fits search ns quantum large_limit (length layers) c \<longrightarrow>
        (\<exists>e\<in>set (last_entries layers). de_key e = map c window \<and>
           de_cost e \<le> saturated (grid_cost search ns ranks quantum (length layers) c)))"

lemma layers_okD:
  assumes "layers_ok search ns ranks quantum large_limit window layers"
  shows "s < length (last_entries layers) \<Longrightarrow> length (trace_back (rev layers) s) = length layers"
    "s < length (last_entries layers) \<Longrightarrow> grid_fits search ns quantum large_limit (length layers) ((!) (trace_back (rev layers) s))"
    "s < length (last_entries layers) \<Longrightarrow> de_key (last_entries layers ! s) = map ((!) (trace_back (rev layers) s)) window"
    "s < length (last_entries layers) \<Longrightarrow> de_cost (last_entries layers ! s) =
       saturated (grid_cost search ns ranks quantum (length layers) ((!) (trace_back (rev layers) s)))"
    "grid_fits search ns quantum large_limit (length layers) c \<Longrightarrow>
       \<exists>e\<in>set (last_entries layers). de_key e = map c window \<and>
         de_cost e \<le> saturated (grid_cost search ns ranks quantum (length layers) c)"
  using assms by (simp_all add: layers_ok_def Let_def)

lemma layers_ok_initial: "layers_ok search ns ranks quantum large_limit [] []"
  by (simp add: layers_ok_def last_entries_def initial_entries_def grid_fits_def grid_cost_def)

text \<open>One more layer.\<close>

lemma layers_ok_append:
  assumes old: "layers_ok search ns ranks quantum large_limit window layers"
    and k: "k = length layers" and sub: "set window \<subseteq> {..<k}"
    and count: "n = color_count ns quantum large_limit k" "n \<le> 4294967295"
    and made: "\<forall>e\<in>set entries. \<exists>i v. (i, v) \<in> set (List.product [0..<length (last_entries layers)] [0..<n]) \<and>
      de_predecessor e = i \<and> de_offset e = of_nat v \<and>
      entry_extends search ns ranks quantum window next_window (last_entries layers ! i) k e"
    and covered: "\<And>i v c. (i, v) \<in> set (List.product [0..<length (last_entries layers)] [0..<n]) \<Longrightarrow>
      de_key (last_entries layers ! i) = map c window \<Longrightarrow> c k = of_nat v \<Longrightarrow> apart_at search ns quantum k c \<Longrightarrow>
      dp_covers entries \<lparr>de_key = map c next_window, de_cost = SaturatingAdd (de_cost (last_entries layers ! i))
        (saturated (row_cost search ns ranks quantum k c)), de_predecessor = i, de_offset = of_nat v\<rparr>"
  shows "layers_ok search ns ranks quantum large_limit next_window (layers @ [entries])"
proof -
  have sound: "let cs = trace_back (rev layers) (de_predecessor e) @ [de_offset e] in
      length cs = Suc k \<and> grid_fits search ns quantum large_limit (Suc k) ((!) cs) \<and>
      de_key e = map ((!) cs) next_window \<and> de_cost e = saturated (grid_cost search ns ranks quantum (Suc k) ((!) cs))"
    if e: "e \<in> set entries" for e
  proof -
    from made e obtain i v where choice: "(i, v) \<in> set (List.product [0..<length (last_entries layers)] [0..<n])"
      and ev: "de_predecessor e = i" "de_offset e = of_nat v"
      and ext: "entry_extends search ns ranks quantum window next_window (last_entries layers ! i) k e" by blast
    have i: "i < length (last_entries layers)" and v: "v < n" using choice by auto
    define d where "d = trace_back (rev layers) i"
    define cs where "cs = d @ [de_offset e]"
    have d: "length d = k" using layers_okD(1) [OF old i] by (simp add: d_def k)
    have same: "j < k \<Longrightarrow> cs ! j = d ! j" for j by (simp add: cs_def nth_append d)
    have csk: "cs ! k = of_nat v" by (simp add: cs_def nth_append d ev(2))
    have "de_key (last_entries layers ! i) = map ((!) d) window"
      using layers_okD(3) [OF old i] by (simp add: d_def)
    also have "\<dots> = map ((!) cs) window" using sub by (intro map_cong refl) (auto simp: same)
    finally have at: "apart_at search ns quantum k ((!) cs)" "de_key e = map ((!) cs) next_window"
      "de_cost e = SaturatingAdd (de_cost (last_entries layers ! i)) (saturated (row_cost search ns ranks quantum k ((!) cs)))"
      using ext csk ev(2) unfolding entry_extends_def by simp_all
    have "grid_fits search ns quantum large_limit k ((!) cs)"
      using layers_okD(2) [OF old i] grid_fits_cong [of k "(!) cs" "(!) d"] same by (simp add: d_def k)
    moreover have "unat (cs ! k) < n" using v count(2) by (simp add: csk unat_of_nat)
    ultimately have "grid_fits search ns quantum large_limit (Suc k) ((!) cs)"
      using at(1) count(1) by (simp add: grid_fits_Suc apart_at_def)
    moreover have "de_cost e = saturated (grid_cost search ns ranks quantum (Suc k) ((!) cs))"
      using layers_okD(4) [OF old i] grid_cost_cong [of k "(!) cs" "(!) d"] same at(3)
      by (simp add: d_def k saturated_add grid_cost_Suc)
    ultimately show ?thesis using at(2) d ev(1) by (simp add: Let_def cs_def d_def)
  qed
  have complete: "\<exists>e\<in>set entries. de_key e = map c next_window \<and>
      de_cost e \<le> saturated (grid_cost search ns ranks quantum (Suc k) c)"
    if fits: "grid_fits search ns quantum large_limit (Suc k) c" for c
  proof -
    have c: "grid_fits search ns quantum large_limit (length layers) c" "unat (c k) < n" "apart_at search ns quantum k c"
      using fits count(1) by (simp_all add: grid_fits_Suc apart_at_def k)
    from layers_okD(5) [OF old c(1)] obtain i where i: "i < length (last_entries layers)"
      "de_key (last_entries layers ! i) = map c window"
      "de_cost (last_entries layers ! i) \<le> saturated (grid_cost search ns ranks quantum k c)"
      by (auto simp: in_set_conv_nth k)
    have "(i, unat (c k)) \<in> set (List.product [0..<length (last_entries layers)] [0..<n])" using i(1) c(2) by simp
    from covered [OF this i(2) _ c(3)] obtain e where e: "e \<in> set entries" "de_key e = map c next_window"
      "de_cost e \<le> SaturatingAdd (de_cost (last_entries layers ! i)) (saturated (row_cost search ns ranks quantum k c))"
      by (auto simp: dp_covers_def)
    have "SaturatingAdd (de_cost (last_entries layers ! i)) (saturated (row_cost search ns ranks quantum k c)) \<le>
        saturated (grid_cost search ns ranks quantum (Suc k) c)"
      using SaturatingAdd_mono [OF i(3) order_refl, of "saturated (row_cost search ns ranks quantum k c)"]
      by (simp only: saturated_add grid_cost_Suc)
    then show ?thesis using e order_trans by blast
  qed
  show ?thesis
    unfolding layers_ok_def using sound complete by (auto simp: last_entries_def k Let_def)
qed

text \<open>The grids of the first \<open>k\<close> ranks passed the guards.\<close>

definition grid_bounded :: "TimedNode list \<Rightarrow> u64 \<Rightarrow> u64 \<Rightarrow> nat \<Rightarrow> bool" where
  "grid_bounded ns quantum large_limit k \<longleftrightarrow>
     (\<forall>i<k. tn_size (ns ! i) \<le> large_limit \<and> color_count ns quantum large_limit i \<le> 4294967295)"

lemma grid_bounded_Suc: "grid_bounded ns quantum large_limit (Suc k) \<longleftrightarrow> grid_bounded ns quantum large_limit k \<and>
    tn_size (ns ! k) \<le> large_limit \<and> color_count ns quantum large_limit k \<le> 4294967295"
  by (auto simp: grid_bounded_def less_Suc_eq)

lemma grid_guard: "(4294967295 :: u64) < w \<longleftrightarrow> 4294967295 < unat w"
  by (simp add: word_less_nat_alt)

lemma grid_layer_Inr:
  assumes ok: "ranks_ok search ns ranks" "k < length ns" "length (gd_layers st) = k"
    and window: "w = (if k = 0 then [] else windows ! (k - 1))" "set w \<subseteq> {..<k}"
      "\<forall>j<k. hard_ranks search ns k j \<longrightarrow> j \<in> set w"
    and old: "layers_ok search ns ranks quantum large_limit w (gd_layers st)"
    and run: "grid_layer search ns ranks quantum large_limit options windows k st = Inr st'"
  shows "\<exists>entries. entries \<noteq> [] \<and> gd_layers st' = gd_layers st @ [entries] \<and>
    layers_ok search ns ranks quantum large_limit (windows ! k) (gd_layers st')"
    "tn_size (ns ! k) \<le> large_limit \<and> color_count ns quantum large_limit k \<le> 4294967295"
proof -
  let ?n = "color_count ns quantum large_limit k"
  from run obtain layer where
    n: "?n \<le> 4294967295" "tn_size (ns ! k) \<le> large_limit" and
    fold: "try_fold (grid_transition search ns ranks quantum options w (windows ! k) (last_entries (gd_layers st)) k)
        (List.product [0..<length (last_entries (gd_layers st))] [0..<?n])
        \<lparr>ly_entries = [], ly_index = Map.empty, ly_states = gd_states st, ly_transitions = gd_transitions st\<rparr> = Inr layer"
    and out: "ly_entries layer \<noteq> []" "gd_layers st' = gd_layers st @ [ly_entries layer]"
    unfolding grid_layer_def Let_def grid_guard and_then_Inr color_count_def [symmetric] last_entries_def [symmetric] window(1) [symmetric]
    by (auto split: if_splits)
  note new = grid_transitions [OF ok(1,2) window(3) fold]
  have "layers_ok search ns ranks quantum large_limit (windows ! k) (gd_layers st @ [ly_entries layer])"
    by (rule layers_ok_append [OF old ok(3) [symmetric] window(2) refl n(1) new])
  then show "\<exists>entries. entries \<noteq> [] \<and> gd_layers st' = gd_layers st @ [entries] \<and>
    layers_ok search ns ranks quantum large_limit (windows ! k) (gd_layers st')"
    "tn_size (ns ! k) \<le> large_limit \<and> color_count ns quantum large_limit k \<le> 4294967295"
    using out n by simp_all
qed

lemma grid_layer_Inl:
  assumes ok: "ranks_ok search ns ranks" "k < length ns" "length (gd_layers st) = k"
    and window: "w = (if k = 0 then [] else windows ! (k - 1))" "set w \<subseteq> {..<k}"
      "\<forall>j<k. hard_ranks search ns k j \<longrightarrow> j \<in> set w"
    and old: "layers_ok search ns ranks quantum large_limit w (gd_layers st)"
    and run: "grid_layer search ns ranks quantum large_limit options windows k st = Inl f" "fst f = kInfeasibleProven"
  shows "\<not> grid_fits search ns quantum large_limit (Suc k) c"
    "tn_size (ns ! k) \<le> large_limit \<and> color_count ns quantum large_limit k \<le> 4294967295"
proof -
  let ?n = "color_count ns quantum large_limit k"
  have no: "try_fold (grid_transition search ns ranks quantum options w (windows ! k) (last_entries (gd_layers st)) k) cs l \<noteq> Inl f"
    for cs l
    using try_fold_Inl [of _ cs l f refused] grid_transition_Inl refused_not_infeasible run(2) by blast
  from run obtain layer where
    n: "?n \<le> 4294967295" "tn_size (ns ! k) \<le> large_limit" and
    fold: "try_fold (grid_transition search ns ranks quantum options w (windows ! k) (last_entries (gd_layers st)) k)
        (List.product [0..<length (last_entries (gd_layers st))] [0..<?n])
        \<lparr>ly_entries = [], ly_index = Map.empty, ly_states = gd_states st, ly_transitions = gd_transitions st\<rparr> = Inr layer"
    and out: "ly_entries layer = []"
    unfolding grid_layer_def Let_def grid_guard color_count_def [symmetric] last_entries_def [symmetric] window(1) [symmetric]
    by (auto simp: no and_then_Inl split: if_splits)
  note new = grid_transitions [OF ok(1,2) window(3) fold]
  have "layers_ok search ns ranks quantum large_limit (windows ! k) (gd_layers st @ [ly_entries layer])"
    by (rule layers_ok_append [OF old ok(3) [symmetric] window(2) refl n(1) new])
  from layers_okD(5) [OF this, of c] show "\<not> grid_fits search ns quantum large_limit (Suc k) c"
    using out ok(3) by (auto simp: last_entries_def)
  show "tn_size (ns ! k) \<le> large_limit \<and> color_count ns quantum large_limit k \<le> 4294967295" using n by blast
qed

section \<open>The run\<close>

lemma hard_partner_ge:
  assumes "v \<in> set (hard_neighbors search ! tn_node (ns ! r))" "ranks ! v = Some other" "r < other"
  shows "other \<le> hard_partner search ns ranks r"
proof -
  let ?f = "\<lambda>partner neighbor. case ranks ! neighbor of None \<Rightarrow> partner
      | Some other \<Rightarrow> if r < other then max partner other else partner"
  have mono: "a \<le> foldl ?f a vs" for a vs
  proof (induction vs arbitrary: a)
    case (Cons v vs)
    have "a \<le> ?f a v" by (auto split: option.splits)
    also have "\<dots> \<le> foldl ?f (?f a v) vs" by (rule Cons.IH)
    finally show ?case by simp
  qed simp
  have "v \<in> set vs \<Longrightarrow> other \<le> foldl ?f a vs" for a vs
  proof (induction vs arbitrary: a)
    case (Cons u vs)
    show ?case
    proof (cases "u = v")
      case True
      have "other \<le> ?f a v" using assms(2,3) by simp
      also have "\<dots> \<le> foldl ?f (?f a v) vs" by (rule mono)
      finally show ?thesis using True by simp
    next
      case False
      then show ?thesis using Cons by simp
    qed
  qed simp
  from this [OF assms(1)] show ?thesis unfolding hard_partner_def .
qed

lemma soft_partner_ge:
  "try_fold (soft_partner ns ranks options r) es ps = Inr qs \<Longrightarrow> fst ps \<le> fst qs"
proof (induction es arbitrary: ps)
  case (Cons e es)
  then obtain t where t: "soft_partner ns ranks options r e ps = Inr t"
    "try_fold (soft_partner ns ranks options r) es t = Inr qs" by auto
  have "fst ps \<le> fst t" using t(1) by (auto simp: soft_partner_def Let_def split: option.splits if_splits)
  also have "\<dots> \<le> fst qs" by (rule Cons.IH [OF t(2)])
  finally show ?case .
qed simp

lemma soft_partner_Inl:
  "soft_partner ns ranks options r e ps = Inl f \<Longrightarrow> refused f"
  by (auto simp: soft_partner_def Let_def split: option.splits if_splits)

lemma last_partner_step_Inl:
  "last_partner_step search ns ranks options r st = Inl f \<Longrightarrow> refused f"
  by (auto simp: last_partner_step_def and_then_Inl split_beta
    dest: try_fold_Inl [where P = refused] soft_partner_Inl)

lemma partners_ge:
  assumes "try_fold (last_partner_step search ns ranks options) [0..<n] ([], 0) = Inr (partners, span)"
  shows "length partners = n \<and> (\<forall>r<n. hard_partner search ns ranks r \<le> partners ! r)"
proof -
  have "length (fst (partners, span)) = length [0..<n] \<and>
      (\<forall>i<length [0..<n]. hard_partner search ns ranks ([0..<n] ! i) \<le> fst (partners, span) ! i)"
    using assms
  proof (induction rule: try_fold_induct [where P = "\<lambda>rs st. length (fst st) = length rs \<and>
      (\<forall>i<length rs. hard_partner search ns ranks (rs ! i) \<le> fst st ! i)"])
    case (step rs r st st')
    obtain partner span' where p: "try_fold (soft_partner ns ranks options r) (soft_neighbors search ! tn_node (ns ! r))
        (hard_partner search ns ranks r, snd st) = Inr (partner, span')" "st' = (fst st @ [partner], span')"
      using step(3) by (auto simp: last_partner_step_def)
    have "hard_partner search ns ranks r \<le> partner" using soft_partner_ge [OF p(1)] by simp
    then show ?case using step(2) p(2) by (auto simp: nth_append less_Suc_eq)
  qed simp
  then show ?thesis by simp
qed

lemma window_at_sub: "set (window_at ns partners index) \<subseteq> {..<Suc index}"
  by (auto simp: window_at_def)

lemma window_at_hard:
  assumes ok: "ranks_ok search ns ranks" and k: "Suc k < length ns"
    and partners: "\<forall>r<length ns. hard_partner search ns ranks r \<le> partners ! r"
    and j: "j < Suc k" "hard_ranks search ns (Suc k) j"
  shows "j \<in> set (window_at ns partners k)"
proof -
  let ?u = "tn_node (ns ! Suc k)" and ?v = "tn_node (ns ! j)"
  have "?v \<in> set (hard_neighbors search ! ?u)" using j(2) by (simp add: hard_ranks_def)
  then have "?u \<in> set (hard_neighbors search ! ?v)" by (rule ranks_okD(6) [OF ok ranks_okD(4) [OF ok k]])
  then have "Suc k \<le> hard_partner search ns ranks j" using ranks_okD(1) [OF ok k] j(1) by (rule hard_partner_ge)
  also have "\<dots> \<le> partners ! j" using partners j(1) k by simp
  finally show ?thesis using j(1) k by (simp add: window_at_def del: upt_Suc)
qed

lemma cheapest_entry_least:
  assumes "entries \<noteq> []"
  shows "cheapest_entry entries < length entries"
    "e \<in> set entries \<Longrightarrow> de_cost (entries ! cheapest_entry entries) \<le> de_cost e"
proof -
  let ?f = "\<lambda>best k. if de_cost (entries ! k) < de_cost (entries ! best) then k else best"
  have "foldl ?f 0 [1..<Suc m] \<le> m \<and> (\<forall>i\<le>m. de_cost (entries ! foldl ?f 0 [1..<Suc m]) \<le> de_cost (entries ! i))" for m
  proof (induction m)
    case (Suc m)
    let ?b = "foldl ?f 0 [1..<Suc m]"
    have eq: "foldl ?f 0 [1..<Suc (Suc m)] = ?f ?b (Suc m)" by simp
    show ?case
      unfolding eq using Suc by (auto simp del: upt_Suc simp: le_Suc_eq not_less intro: less_imp_le less_le_trans)
  qed simp
  from this [of "length entries - 1"]
  have all: "cheapest_entry entries \<le> length entries - 1"
    "\<forall>i\<le>length entries - 1. de_cost (entries ! cheapest_entry entries) \<le> de_cost (entries ! i)"
    using assms by (simp_all add: cheapest_entry_def)
  then show "cheapest_entry entries < length entries" using assms by (cases entries) auto
  show "de_cost (entries ! cheapest_entry entries) \<le> de_cost e" if "e \<in> set entries"
    using that all(2) by (auto simp: in_set_conv_nth)
qed

text \<open>The state of the program after the first \<open>k\<close> layers.\<close>

definition grid_ok ::
  "ReusePenaltySearchSpace \<Rightarrow> TimedNode list \<Rightarrow> ranks \<Rightarrow> u64 \<Rightarrow> u64 \<Rightarrow> nat list list \<Rightarrow> nat \<Rightarrow> GridState \<Rightarrow> bool" where
  "grid_ok search ns ranks quantum large_limit windows k st \<longleftrightarrow>
     grid_bounded ns quantum large_limit k \<and> length (gd_layers st) = k \<and> (\<forall>entries\<in>set (gd_layers st). entries \<noteq> []) \<and>
     layers_ok search ns ranks quantum large_limit (if k = 0 then [] else windows ! (k - 1)) (gd_layers st)"

lemma windows_ok:
  assumes ok: "ranks_ok search ns ranks" and k: "k < length ns"
    and partners: "\<forall>r<length ns. hard_partner search ns ranks r \<le> partners ! r"
    and w: "w = (if k = 0 then [] else BuildWindows ns partners ! (k - 1))"
  shows "set w \<subseteq> {..<k}" "\<forall>j<k. hard_ranks search ns k j \<longrightarrow> j \<in> set w"
proof -
  have eq: "w = (if k = 0 then [] else window_at ns partners (k - 1))" using w k by (simp add: BuildWindows_def)
  then show "set w \<subseteq> {..<k}" using window_at_sub [of ns partners "k - 1"] by (cases k) (simp_all del: upt_Suc)
  show "\<forall>j<k. hard_ranks search ns k j \<longrightarrow> j \<in> set w"
  proof (cases k)
    case (Suc i)
    then show ?thesis using eq k window_at_hard [OF ok _ partners, of i] by (simp del: upt_Suc)
  qed simp
qed

lemma grid_okD:
  assumes "grid_ok search ns ranks quantum large_limit windows k st"
  shows "length (gd_layers st) = k" "\<forall>entries\<in>set (gd_layers st). entries \<noteq> []"
    "layers_ok search ns ranks quantum large_limit (if k = 0 then [] else windows ! (k - 1)) (gd_layers st)"
    "grid_bounded ns quantum large_limit k"
proof -
  show "grid_bounded ns quantum large_limit k" using assms unfolding grid_ok_def ..
  note st = assms [unfolded grid_ok_def, THEN conjunct2]
  show "length (gd_layers st) = k" using st ..
  show "\<forall>entries\<in>set (gd_layers st). entries \<noteq> []" using st [THEN conjunct2] ..
  show "layers_ok search ns ranks quantum large_limit (if k = 0 then [] else windows ! (k - 1)) (gd_layers st)"
    using st [THEN conjunct2] ..
qed

lemma grid_ok_step:
  assumes ok: "ranks_ok search ns ranks"
    and partners: "\<forall>r<length ns. hard_partner search ns ranks r \<le> partners ! r" and k: "k < length ns"
    and st: "grid_ok search ns ranks quantum large_limit (BuildWindows ns partners) k st"
    and run: "grid_layer search ns ranks quantum large_limit options (BuildWindows ns partners) k st = Inr t"
  shows "grid_ok search ns ranks quantum large_limit (BuildWindows ns partners) (Suc k) t"
proof -
  note st = grid_okD [OF st]
  obtain entries where "entries \<noteq> []" "gd_layers t = gd_layers st @ [entries]"
    "layers_ok search ns ranks quantum large_limit (BuildWindows ns partners ! k) (gd_layers t)"
    using grid_layer_Inr(1) [OF ok k st(1) refl windows_ok [OF ok k partners refl] st(3) run] by blast
  then show ?thesis
    using st(1,2,4) grid_layer_Inr(2) [OF ok k st(1) refl windows_ok [OF ok k partners refl] st(3) run]
    by (simp add: grid_ok_def grid_bounded_Suc)
qed

theorem grid_layers_ok:
  assumes ok: "ranks_ok search ns ranks"
    and partners: "\<forall>r<length ns. hard_partner search ns ranks r \<le> partners ! r"
    and start: "grid_ok search ns ranks quantum large_limit (BuildWindows ns partners) k st" "k + m \<le> length ns"
  shows "try_fold (grid_layer search ns ranks quantum large_limit options (BuildWindows ns partners)) [k..<k + m] st = Inr st' \<Longrightarrow>
      grid_ok search ns ranks quantum large_limit (BuildWindows ns partners) (k + m) st'"
    "try_fold (grid_layer search ns ranks quantum large_limit options (BuildWindows ns partners)) [k..<k + m] st = Inl f \<Longrightarrow>
      fst f = kInfeasibleProven \<Longrightarrow>
      \<exists>j\<le>length ns. grid_bounded ns quantum large_limit j \<and> (\<forall>c. \<not> grid_fits search ns quantum large_limit j c)"
  using start
proof (induction m arbitrary: k st)
  case 0
  {
    case 1
    then show ?case by simp
  next
    case 2
    then show ?case by simp
  }
next
  case (Suc m)
  let ?W = "BuildWindows ns partners"
  have upt: "[k..<k + Suc m] = k # [Suc k..<Suc k + m]" for k by (simp add: upt_conv_Cons)
  {
    case 1
    have k: "k < length ns" using 1(3) by linarith
    from 1(1) have "and_then (grid_layer search ns ranks quantum large_limit options ?W k st)
        (try_fold (grid_layer search ns ranks quantum large_limit options ?W) [Suc k..<Suc k + m]) = Inr st'"
      unfolding upt try_fold.simps .
    then obtain t where t: "grid_layer search ns ranks quantum large_limit options ?W k st = Inr t"
      "try_fold (grid_layer search ns ranks quantum large_limit options ?W) [Suc k..<Suc k + m] t = Inr st'"
      unfolding and_then_Inr by blast
    have "grid_ok search ns ranks quantum large_limit ?W (Suc k) t"
      by (rule grid_ok_step [OF ok partners k 1(2) t(1)])
    from Suc.IH(1) [OF t(2) this] 1(3) show ?case by simp
  next
    case 2
    have k: "k < length ns" using 2(4) by linarith
    note st = grid_okD [OF 2(3)]
    show ?case
    proof (cases "grid_layer search ns ranks quantum large_limit options ?W k st")
      case (Inl e)
      then have e: "e = f" using 2(1) [unfolded upt try_fold.simps] by (simp del: upt_Suc)
      note none = grid_layer_Inl [OF ok k st(1) refl windows_ok [OF ok k partners refl] st(3) Inl [unfolded e] 2(2)]
      show ?thesis using none st(4) k by (intro exI [of _ "Suc k"]) (simp add: grid_bounded_Suc)
    next
      case (Inr t)
      then have "grid_ok search ns ranks quantum large_limit ?W (Suc k) t"
        by (rule grid_ok_step [OF ok partners k 2(3)])
      moreover have "try_fold (grid_layer search ns ranks quantum large_limit options ?W) [Suc k..<Suc k + m] t = Inl f"
        using 2(1) [unfolded upt try_fold.simps] Inr by (simp del: upt_Suc)
      ultimately show ?thesis using Suc.IH(2) [of "Suc k" t] 2(2,4) by simp
    qed
  }
qed

theorem RunGridDp_Inr:
  assumes ok: "ranks_ok search ns ranks" and some: "ns \<noteq> []"
    and run: "RunGridDp search ns ranks quantum large_limit options = Inr r"
  shows "length (gr_colors r) = length ns" "grid_bounded ns quantum large_limit (length ns)"
    "grid_fits search ns quantum large_limit (length ns) ((!) (gr_colors r))"
    "gr_cost r = saturated (grid_cost search ns ranks quantum (length ns) ((!) (gr_colors r)))"
    "grid_fits search ns quantum large_limit (length ns) c \<Longrightarrow>
       gr_cost r \<le> saturated (grid_cost search ns ranks quantum (length ns) c)"
proof -
  from run obtain partners span st where
    partners: "try_fold (last_partner_step search ns ranks options) [0..<length ns] ([], 0) = Inr (partners, span)"
    and fold: "try_fold (grid_layer search ns ranks quantum large_limit options (BuildWindows ns partners)) [0..<length ns]
        \<lparr>gd_layers = [], gd_states = 0, gd_transitions = 0, gd_offsets = 0\<rparr> = Inr st"
    and r: "gr_colors r = trace_back (rev (gd_layers st)) (cheapest_entry (List.last (gd_layers st)))"
      "gr_cost r = de_cost (List.last (gd_layers st) ! cheapest_entry (List.last (gd_layers st)))"
    by (auto simp: RunGridDp_def Let_def)
  have ge: "\<forall>r<length ns. hard_partner search ns ranks r \<le> partners ! r" using partners_ge [OF partners] by blast
  have "grid_ok search ns ranks quantum large_limit (BuildWindows ns partners) 0
      \<lparr>gd_layers = [], gd_states = 0, gd_transitions = 0, gd_offsets = 0\<rparr>"
    by (simp add: grid_ok_def layers_ok_initial grid_bounded_def)
  from grid_layers_ok(1) [OF ok ge this, of "length ns" options st] fold
  have st: "length (gd_layers st) = length ns" "\<forall>e\<in>set (gd_layers st). e \<noteq> []"
    "layers_ok search ns ranks quantum large_limit (BuildWindows ns partners ! (length ns - 1)) (gd_layers st)"
    and bounded: "grid_bounded ns quantum large_limit (length ns)"
    using some by (simp_all add: grid_ok_def)
  have ne: "gd_layers st \<noteq> []" using st(1) some by auto
  then have last: "last_entries (gd_layers st) = List.last (gd_layers st)" "List.last (gd_layers st) \<noteq> []"
    using st(2) by (simp_all add: last_entries_def)
  note best = cheapest_entry_least [OF last(2)]
  note layer = layers_okD [OF st(3), unfolded last(1) st(1)]
  show "grid_bounded ns quantum large_limit (length ns)" by (rule bounded)
  show "length (gr_colors r) = length ns" "grid_fits search ns quantum large_limit (length ns) ((!) (gr_colors r))"
    "gr_cost r = saturated (grid_cost search ns ranks quantum (length ns) ((!) (gr_colors r)))"
    using layer(1,2,4) [OF best(1)] by (simp_all add: r)
  show "gr_cost r \<le> saturated (grid_cost search ns ranks quantum (length ns) c)"
    if "grid_fits search ns quantum large_limit (length ns) c"
    using layer(5) [OF that] best(2) order_trans unfolding r(2) by blast
qed

theorem RunGridDp_infeasible:
  assumes ok: "ranks_ok search ns ranks"
    and run: "RunGridDp search ns ranks quantum large_limit options = Inl f" "fst f = kInfeasibleProven"
  shows "\<exists>j\<le>length ns. grid_bounded ns quantum large_limit j \<and> (\<forall>c. \<not> grid_fits search ns quantum large_limit j c)"
proof -
  have "try_fold (last_partner_step search ns ranks options) [0..<length ns] ([], 0) \<noteq> Inl f"
    using try_fold_Inl [where f = "last_partner_step search ns ranks options" and xs = "[0..<length ns]" and e = f
      and P = refused] last_partner_step_Inl refused_not_infeasible run(2) by blast
  with run(1) obtain partners span where
    partners: "try_fold (last_partner_step search ns ranks options) [0..<length ns] ([], 0) = Inr (partners, span)"
    and fold: "try_fold (grid_layer search ns ranks quantum large_limit options (BuildWindows ns partners)) [0..<length ns]
        \<lparr>gd_layers = [], gd_states = 0, gd_transitions = 0, gd_offsets = 0\<rparr> = Inl f"
    by (auto simp: RunGridDp_def Let_def and_then_Inl)
  have ge: "\<forall>r<length ns. hard_partner search ns ranks r \<le> partners ! r" using partners_ge [OF partners] by blast
  have "grid_ok search ns ranks quantum large_limit (BuildWindows ns partners) 0
      \<lparr>gd_layers = [], gd_states = 0, gd_transitions = 0, gd_offsets = 0\<rparr>"
    by (simp add: grid_ok_def layers_ok_initial grid_bounded_def)
  from grid_layers_ok(2) [OF ok ge this, of "length ns" options f] fold run(2) show ?thesis by simp
qed

text \<open>A run that returns no colouring either refuses or claims infeasibility.\<close>

definition given_up :: "failure \<Rightarrow> bool" where
  "given_up f \<longleftrightarrow> refused f \<or> fst f = kInfeasibleProven"

lemma given_up_refused: "refused f \<Longrightarrow> given_up f"
  by (simp add: given_up_def)

lemma grid_layer_given_up: "grid_layer search ns ranks quantum large_limit options windows k st = Inl f \<Longrightarrow> given_up f"
  by (auto simp: grid_layer_def Let_def and_then_Inl given_up_def split: if_splits
    dest: try_fold_Inl [where P = refused] grid_transition_Inl)

lemma RunGridDp_given_up: "RunGridDp search ns ranks quantum large_limit options = Inl f \<Longrightarrow> given_up f"
  by (auto simp: RunGridDp_def Let_def and_then_Inl
    dest: try_fold_Inl [where P = refused] try_fold_Inl [where P = given_up] last_partner_step_Inl grid_layer_given_up
    intro: given_up_refused)

end
