(* ===== verification/Scale_Spec.thy ===== *)
theory Scale_Spec
  imports Scale_Dp Baseline_Spec
begin

text \<open>
  The scale-separated solver is bicriteria: its placement keeps every constraint but the capacities, and
  it reuses no more soft weight than any solution that does fit the capacities. The argument rounds such a
  solution onto the grid: an offset \<open>o\<close> becomes the colour \<open>o (e + 1) div (e q)\<close>.
\<close>

section \<open>Rounding\<close>

lemma round_top:
  fixes x :: nat
  assumes "e * q \<le> s" "r \<le> s + q" "x = w * (e + 1) div (e * q)"
  shows "e * (x * q + r) \<le> (w + s) * (e + 1)"
proof -
  have "x * (e * q) \<le> w * (e + 1)" unfolding assms(3) by (rule div_times_less_eq_dividend)
  moreover have "e * r \<le> e * s + s"
    using mult_le_mono2 [OF assms(2), of e] assms(1) by (simp add: distrib_left)
  ultimately show ?thesis by (simp add: algebra_simps)
qed

lemma round_below:
  fixes x :: nat
  assumes "e * q \<le> s" "r \<le> s + q" "x = w * (e + 1) div (e * q)" "w + s \<le> c" "c \<le> e * h" "e \<noteq> 0"
  shows "x * q + r \<le> c + h"
proof -
  have "e * (x * q + r) \<le> c * (e + 1)"
    using round_top [OF assms(1-3)] mult_le_mono1 [OF assms(4), of "e + 1"] by linarith
  also have "\<dots> \<le> e * (c + h)" using assms(5) by (simp add: algebra_simps)
  finally show ?thesis using assms(6) by simp
qed

lemma round_order:
  fixes x :: nat
  assumes "0 < e * q" "e * q \<le> s" "r \<le> s + q" "q dvd r" "x = w * (e + 1) div (e * q)"
    "y = w' * (e + 1) div (e * q)" "w + s \<le> w'"
  shows "x * q + r \<le> y * q"
proof -
  obtain k where k: "r = q * k" using assms(4) by (auto simp: dvd_def)
  have "(x + k) * (e * q) = e * (x * q + r)" by (simp add: k algebra_simps)
  also have "\<dots> \<le> w' * (e + 1)"
    using round_top [OF assms(2,3,5)] mult_le_mono1 [OF assms(7), of "e + 1"] by linarith
  finally have "x + k \<le> y" unfolding assms(6) using assms(1) by (simp add: less_eq_div_iff_mult_less_eq)
  then have "(x + k) * q \<le> y * q" by (rule mult_le_mono1)
  then show ?thesis by (simp add: k algebra_simps)
qed

lemma AlignUp_rounded:
  assumes "align \<noteq> 0" "AlignUp v align = Some w"
  shows "unat align dvd unat w" "unat v \<le> unat w" "unat w \<le> unat v + unat align"
proof -
  show "unat align dvd unat w" "unat v \<le> unat w"
    using AlignUp_Some(1,2) [OF assms] by (simp_all add: aligned_to_def word_le_nat_alt)
  have "v mod align < align" using assms(1) by (simp add: word_mod_less_divisor word_gt_0)
  then have "unat (align - v mod align) \<le> unat align"
    by (simp add: word_less_nat_alt unat_sub word_le_nat_alt less_imp_le)
  then show "unat w \<le> unat v + unat align"
    using assms(2) by (auto simp: AlignUp_def Let_def unat_plus_no_overflow split: if_splits)
qed

lemma unat_CeilDivide:
  assumes "e \<noteq> 0"
  shows "unat c \<le> unat e * unat (CeilDivide c e)"
proof (cases "c mod e = 0")
  case True
  then have "unat e dvd unat c" by (simp add: mod_zero_dvd)
  then show ?thesis using True by (simp add: CeilDivide_def unat_div)
next
  case False
  then have "unat c mod unat e \<noteq> 0" by (simp add: word_unat_eq_iff unat_mod)
  moreover have "0 < unat e" using assms by (simp add: unat_gt_0)
  ultimately have "2 \<le> unat e" by (cases "unat e = 1") auto
  then have "unat c div unat e \<le> unat c div 2" by (intro div_le_mono2) simp_all
  then have "unat c div unat e + 1 < 18446744073709551616" using unat_u64_less [of c] by simp
  then have "unat (c div e + 1) = unat c div unat e + 1" by (simp add: unat_word_ariths unat_div)
  moreover have "unat c mod unat e < unat e" using \<open>2 \<le> unat e\<close> by simp
  moreover have "unat c = unat e * (unat c div unat e) + unat c mod unat e" by simp
  ultimately have "unat c \<le> unat e * unat (c div e + 1)" by (simp only: distrib_left mult_1_right)
  then show ?thesis using False by (simp add: CeilDivide_def)
qed

lemma unat_ucast_u32: "unat (ucast (c :: u32) :: u64) = unat c"
proof -
  have "unat c < 4294967296" using unsigned_less [of c, where 'a = nat] by simp
  then show ?thesis by (simp add: unsigned_ucast_eq take_bit_eq_mod)
qed

text \<open>The fuel of the colour search of a track is enough.\<close>

lemma free_color_enough:
  assumes "length blocked < 4294967296"
  shows "free_color (length blocked) blocked 0 \<notin> set blocked"
proof -
  have "free_color fuel blocked (of_nat c) \<notin> set blocked"
    if "\<forall>i<c. of_nat i \<in> set blocked" "c + fuel = length blocked" for fuel c
    using that
  proof (induction fuel arbitrary: c)
    case 0
    have inj: "inj_on (of_nat :: nat \<Rightarrow> u32) {..c}"
    proof (rule inj_onI)
      fix i j :: nat
      assume ij: "i \<in> {..c}" "j \<in> {..c}" "(of_nat i :: u32) = of_nat j"
      have "unat (of_nat i :: u32) = i" "unat (of_nat j :: u32) = j" using 0(2) assms ij(1,2) by (simp_all add: unat_of_nat)
      then show "i = j" using ij(3) by metis
    qed
    show ?case
    proof
      assume "free_color 0 blocked (of_nat c) \<in> set blocked"
      then have "(of_nat :: nat \<Rightarrow> u32) ` {..c} \<subseteq> set blocked" using 0(1) by (auto simp: le_less)
      then have "card {..c} \<le> card (set blocked)" by (metis List.finite_set card_image card_mono inj)
      also have "\<dots> \<le> length blocked" by (rule card_length)
      finally show False using 0(2) by simp
    qed
  next
    case (Suc fuel)
    show ?case
    proof (cases "of_nat c \<in> set blocked")
      case True
      have "free_color fuel blocked (of_nat (Suc c)) \<notin> set blocked"
        by (rule Suc.IH) (use True Suc.prems in \<open>auto simp: less_Suc_eq\<close>)
      then show ?thesis using True by (simp add: add.commute)
    qed simp
  qed
  from this [of 0 "length blocked"] show ?thesis by simp
qed

section \<open>A solution on the grid\<close>

definition scaled_node :: "ReusePenaltySearchSpace \<Rightarrow> PoolId \<Rightarrow> u64 \<Rightarrow> u64 \<Rightarrow> TimedNode \<Rightarrow> bool" where
  "scaled_node search pool e quantum n \<longleftrightarrow>
     tn_node n \<in> pool_set search pool \<and> AlignUp (node_size (node_at search (tn_node n))) quantum = Some (tn_size n) \<and>
     unat e * unat quantum \<le> unat (node_size (node_at search (tn_node n)))"

definition round_color :: "u64 \<Rightarrow> u64 \<Rightarrow> u64 \<Rightarrow> nat" where
  "round_color e quantum w = unat w * (unat e + 1) div (unat e * unat quantum)"

text \<open>The colour of a rank, and what the guards of its layer give.\<close>

definition round_colors :: "TimedNode list \<Rightarrow> u64 \<Rightarrow> u64 \<Rightarrow> u64 list \<Rightarrow> nat \<Rightarrow> u32" where
  "round_colors ns e quantum A i = of_nat (round_color e quantum (A ! tn_node (ns ! i)))"

definition scaled_grid ::
  "ReusePenaltySearchSpace \<Rightarrow> TimedNode list \<Rightarrow> PoolId \<Rightarrow> u64 \<Rightarrow> u64 \<Rightarrow> u64 \<Rightarrow> u64 list \<Rightarrow> bool" where
  "scaled_grid search ns pool e quantum cap A \<longleftrightarrow>
     e \<noteq> 0 \<and> quantum \<noteq> 0 \<and> \<not> AddOverflows cap (CeilDivide cap e) \<and> (\<forall>n\<in>set ns. scaled_node search pool e quantum n) \<and>
     (\<forall>i\<in>pool_set search pool. unat (A ! i) + unat (node_size (node_at search i)) \<le> unat cap)"

lemma round_color_fits:
  assumes grid: "scaled_grid search ns pool e quantum cap A" and i: "i < length ns"
    and guard: "tn_size (ns ! i) \<le> cap + CeilDivide cap e" "color_count ns quantum (cap + CeilDivide cap e) i \<le> 4294967295"
  shows "unat (round_colors ns e quantum A i) = round_color e quantum (A ! tn_node (ns ! i))"
    "unat (round_colors ns e quantum A i) < color_count ns quantum (cap + CeilDivide cap e) i"
    "unat (round_colors ns e quantum A i) * unat quantum + unat (tn_size (ns ! i)) \<le> unat (cap + CeilDivide cap e)"
proof -
  let ?n = "ns ! i" and ?top = "cap + CeilDivide cap e" and ?x = "round_color e quantum (A ! tn_node (ns ! i))"
  have e: "e \<noteq> 0" "quantum \<noteq> 0" "0 < unat quantum" "\<not> AddOverflows cap (CeilDivide cap e)"
    using grid by (auto simp: scaled_grid_def unat_gt_0)
  have n: "scaled_node search pool e quantum ?n" using grid i by (simp add: scaled_grid_def)
  have size: "unat e * unat quantum \<le> unat (node_size (node_at search (tn_node ?n)))" using n by (simp add: scaled_node_def)
  have r: "unat (tn_size ?n) \<le> unat (node_size (node_at search (tn_node ?n))) + unat quantum"
    "unat (node_size (node_at search (tn_node ?n))) \<le> unat (tn_size ?n)"
    using n AlignUp_rounded [OF e(2)] by (auto simp: scaled_node_def)
  have "1 \<le> unat e * unat quantum" using e(1,3) by (simp add: Suc_le_eq unat_gt_0)
  then have pos: "0 < unat (tn_size ?n)" using size r(2) by linarith
  have "unat (A ! tn_node ?n) + unat (node_size (node_at search (tn_node ?n))) \<le> unat cap"
    using grid n by (auto simp: scaled_grid_def scaled_node_def)
  from round_below [OF size r(1) _ this unat_CeilDivide [OF e(1), of cap], of ?x]
  have below: "?x * unat quantum + unat (tn_size ?n) \<le> unat ?top"
    using e(1) by (simp add: round_color_def unat_gt_0 unat_plus_no_overflow [OF e(4)])
  have diff: "unat (?top - tn_size ?n) = unat ?top - unat (tn_size ?n)" using guard(1) by (rule unat_sub)
  then have "unat (?top - tn_size ?n) div unat quantum + 1 < 18446744073709551616"
    using pos unat_u64_less [of ?top] div_le_dividend [of "unat (?top - tn_size ?n)" "unat quantum"] by linarith
  then have count: "color_count ns quantum ?top i = (unat ?top - unat (tn_size ?n)) div unat quantum + 1"
    by (simp add: color_count_def unat_word_ariths unat_div diff)
  have "?x * unat quantum \<le> unat ?top - unat (tn_size ?n)" using below by simp
  then have "?x \<le> (unat ?top - unat (tn_size ?n)) div unat quantum"
    using e(3) by (simp add: less_eq_div_iff_mult_less_eq)
  then have less: "?x < color_count ns quantum ?top i" unfolding count by simp
  then have "?x < 4294967296" using guard(2) by simp
  then show unat: "unat (round_colors ns e quantum A i) = ?x" by (simp add: round_colors_def unat_of_nat)
  show "unat (round_colors ns e quantum A i) < color_count ns quantum ?top i"
    "unat (round_colors ns e quantum A i) * unat quantum + unat (tn_size ?n) \<le> unat ?top"
    unfolding unat by (rule less, rule below)
qed

text \<open>A pair that the solution keeps apart stays apart on the grid.\<close>

lemma round_apart:
  assumes grid: "scaled_grid search ns pool e quantum cap A"
    and ij: "i < length ns" "j < length ns"
    and guard: "grid_bounded ns quantum (cap + CeilDivide cap e) k" "i < k" "j < k"
    and clash: "grid_overlap ns quantum i (round_colors ns e quantum A i) j (round_colors ns e quantum A j)"
    and sz: "\<And>v. v \<in> pool_set search pool \<Longrightarrow> node_size (node_at search v) \<noteq> 0"
  shows "overlap search (tn_node (ns ! i)) (A ! tn_node (ns ! i)) (tn_node (ns ! j)) (A ! tn_node (ns ! j))"
proof (rule ccontr)
  let ?c = "round_colors ns e quantum A" and ?v = "\<lambda>i. tn_node (ns ! i)" and ?s = "\<lambda>i. node_size (node_at search (tn_node (ns ! i)))"
  assume apart: "\<not> overlap search (?v i) (A ! ?v i) (?v j) (A ! ?v j)"
  have e: "0 < unat e * unat quantum" "quantum \<noteq> 0" using grid by (auto simp: scaled_grid_def unat_gt_0)
  have node: "scaled_node search pool e quantum (ns ! l)" if "l \<in> {i, j}" for l
    using that grid ij by (auto simp: scaled_grid_def)
  have cap: "unat (A ! ?v l) + unat (?s l) \<le> unat cap" "?s l \<noteq> 0" if "l \<in> {i, j}" for l
    using that grid node sz by (auto simp: scaled_grid_def scaled_node_def)
  have no: "\<not> AddOverflows (A ! ?v l) (?s l)" if "l \<in> {i, j}" for l
    using cap(1) [OF that] unat_u64_less [of cap] by (simp add: AddOverflows_less)
  have guards: "tn_size (ns ! l) \<le> cap + CeilDivide cap e \<and>
      color_count ns quantum (cap + CeilDivide cap e) l \<le> 4294967295" if "l \<in> {i, j}" for l
    using guard that by (auto simp: grid_bounded_def)
  note fits = round_color_fits [OF grid]
  have mult: "unat (ucast (?c l) * quantum :: u64) = unat (?c l) * unat quantum"
    "unat (ucast (?c l) * quantum :: u64) + unat (tn_size (ns ! l)) < 18446744073709551616"
    if l: "l \<in> {i, j}" for l
  proof -
    have "unat (?c l) * unat quantum + unat (tn_size (ns ! l)) \<le> unat (cap + CeilDivide cap e)"
      using fits(3) [of l] guards [OF l] l ij by blast
    then have "unat (?c l) * unat quantum + unat (tn_size (ns ! l)) < 18446744073709551616"
      using unat_u64_less [of "cap + CeilDivide cap e"] by linarith
    moreover have "unat (ucast (?c l) :: u64) = unat (?c l)" by (rule unat_ucast_u32)
    ultimately show "unat (ucast (?c l) * quantum :: u64) = unat (?c l) * unat quantum"
      "unat (ucast (?c l) * quantum :: u64) + unat (tn_size (ns ! l)) < 18446744073709551616"
      by (simp_all add: unat_word_ariths)
  qed
  have order: "unat (?c l) * unat quantum + unat (tn_size (ns ! l)) \<le> unat (?c m) * unat quantum"
    if l: "l \<in> {i, j}" "m \<in> {i, j}" "unat (A ! ?v l) + unat (?s l) \<le> unat (A ! ?v m)" for l m
  proof -
    have eq: "unat (?c h) = round_color e quantum (A ! ?v h)" if "h \<in> {i, j}" for h
      using fits(1) [of h] guards [OF that] that ij by blast
    note up = AlignUp_rounded [OF e(2), of "?s l" "tn_size (ns ! l)"]
    show ?thesis
      unfolding eq [OF l(1)] eq [OF l(2)]
      by (rule round_order [OF e(1) _ up(3) up(1) _ _ l(3)])
        (use node [OF l(1)] in \<open>simp_all add: scaled_node_def round_color_def\<close>)
  qed
  have "unat (A ! ?v i) + unat (?s i) \<le> unat (A ! ?v j) \<or> unat (A ! ?v j) + unat (?s j) \<le> unat (A ! ?v i)"
    using apart cap(2) no by (auto simp: overlap_def AddressRangesOverlap_def word_less_nat_alt unat_plus_no_overflow not_less)
  then have "unat (?c i) * unat quantum + unat (tn_size (ns ! i)) \<le> unat (?c j) * unat quantum \<or>
      unat (?c j) * unat quantum + unat (tn_size (ns ! j)) \<le> unat (?c i) * unat quantum"
    using order [of i j] order [of j i] by blast
  moreover have no': "\<not> AddOverflows (ucast (?c l) * quantum) (tn_size (ns ! l))" if "l \<in> {i, j}" for l
    using mult(2) [OF that] by (simp add: AddOverflows_less)
  moreover have "\<not> (ucast (?c i) * quantum \<ge> ucast (?c j) * quantum + tn_size (ns ! j)) \<and>
      \<not> (ucast (?c j) * quantum \<ge> ucast (?c i) * quantum + tn_size (ns ! i))"
    using clash no' [of i] no' [of j] by (auto simp: grid_overlap_def AddressRangesOverlap_def split: if_splits)
  ultimately show False
    using mult(1) [of i] mult(1) [of j] by (auto simp: word_le_nat_alt unat_plus_no_overflow)
qed

text \<open>Every soft edge between two ranks is counted once, at the later rank.\<close>

definition rank_pay :: "TimedNode list \<Rightarrow> ranks \<Rightarrow> u64 \<Rightarrow> (nat \<Rightarrow> u32) \<Rightarrow> nat \<Rightarrow> nat \<times> u64 \<Rightarrow> nat" where
  "rank_pay ns ranks quantum c i = (\<lambda>(v, w). case ranks ! v of None \<Rightarrow> 0
     | Some j \<Rightarrow> if j < i \<and> grid_overlap ns quantum i (c i) j (c j) then unat w else 0)"

context search_space
begin

lemma rounded_grid_fits:
  assumes grid: "scaled_grid search ns pool e quantum cap A" and legal: "legal p search (pool_set search pool) A"
    and k: "k \<le> length ns" "grid_bounded ns quantum (cap + CeilDivide cap e) k"
  shows "grid_fits search ns quantum (cap + CeilDivide cap e) k (round_colors ns e quantum A)"
  unfolding grid_fits_def
proof (intro allI impI conjI)
  fix i
  assume i: "i < k"
  then show "unat (round_colors ns e quantum A i) < color_count ns quantum (cap + CeilDivide cap e) i"
    using round_color_fits(2) [OF grid, of i] k by (simp add: grid_bounded_def)
  fix j
  assume j: "j < i" and hard: "hard_ranks search ns i j"
  have ij: "i < length ns" "j < length ns" using i j k(1) by simp_all
  have mem: "tn_node (ns ! i) \<in> pool_set search pool" "tn_node (ns ! j) \<in> pool_set search pool"
    using grid ij by (simp_all add: scaled_grid_def scaled_node_def)
  have "\<not> overlap search (tn_node (ns ! i)) (A ! tn_node (ns ! i)) (tn_node (ns ! j)) (A ! tn_node (ns ! j))"
    by (rule legalD(3) [OF legal mem(1)]) (use mem hard in \<open>simp_all add: pool_set_def hard_ranks_def\<close>)
  moreover have "v \<in> pool_set search pool \<Longrightarrow> node_size (node_at search v) \<noteq> 0" for v
    using node_size_pos by (simp add: pool_set_def)
  ultimately show "\<not> grid_overlap ns quantum i (round_colors ns e quantum A i) j (round_colors ns e quantum A j)"
    using round_apart [OF grid ij k(2) i] i j by auto
qed

lemma rank_pay_entry:
  assumes ok: "ranks_ok search ns ranks" and e: "((a, b), w) \<in> set (soft_weights search)"
    and mem: "\<forall>i<length ns. tn_node (ns ! i) \<in> D"
    and apart: "\<And>i j. i < length ns \<Longrightarrow> j < length ns \<Longrightarrow> grid_overlap ns quantum i (c i) j (c j) \<Longrightarrow>
      overlap search (tn_node (ns ! i)) (A ! tn_node (ns ! i)) (tn_node (ns ! j)) (A ! tn_node (ns ! j))"
  shows "(\<Sum>i<length ns. \<Sum>x\<leftarrow>soft_links (tn_node (ns ! i)) ((a, b), w). rank_pay ns ranks quantum c i x) \<le>
    entry_cost search D A ((a, b), w)"
proof -
  let ?v = "\<lambda>i. tn_node (ns ! i)"
  define t where "t = (\<lambda>i. \<Sum>x\<leftarrow>soft_links (?v i) ((a, b), w). rank_pay ns ranks quantum c i x)"
  have ab: "a < N" "b < N" "a \<noteq> b" using soft_neighborE [OF e] by blast+
  have one: "t i = 0 \<or> t i = unat w \<and> (\<exists>j<i. {?v i, ?v j} = {a, b} \<and> grid_overlap ns quantum i (c i) j (c j))"
    if i: "i < length ns" for i
  proof -
    have pay: "rank_pay ns ranks quantum c i (v, w) = 0 \<or> rank_pay ns ranks quantum c i (v, w) = unat w \<and>
        (\<exists>j<i. ?v j = v \<and> grid_overlap ns quantum i (c i) j (c j))" if v: "v < N" for v
    proof (cases "ranks ! v")
      case (Some j)
      then show ?thesis using ranks_okD(3) [OF ok v Some] by (auto simp: rank_pay_def)
    qed (simp add: rank_pay_def)
    consider "?v i = a" | "?v i = b" "?v i \<noteq> a" | "?v i \<noteq> a" "?v i \<noteq> b" by blast
    then show ?thesis
    proof cases
      case 1
      then have ti: "t i = rank_pay ns ranks quantum c i (b, w)" by (simp add: soft_links_def t_def)
      show ?thesis unfolding ti using pay [OF ab(2)] 1 by blast
    next
      case 2
      then have ti: "t i = rank_pay ns ranks quantum c i (a, w)" by (simp add: soft_links_def t_def)
      show ?thesis unfolding ti using pay [OF ab(1)] 2(1) by (metis insert_commute)
    qed (simp add: soft_links_def t_def)
  qed
  have paid: "t i = unat w \<and> (\<exists>j<i. {?v i, ?v j} = {a, b} \<and> grid_overlap ns quantum i (c i) j (c j))"
    if "i < length ns" "t i \<noteq> 0" for i
    using one [OF that(1)] that(2) by argo
  have "(\<Sum>i<length ns. t i) \<le> entry_cost search D A ((a, b), w)"
  proof (cases "\<exists>i<length ns. t i \<noteq> 0")
    case False
    have "(\<Sum>i<length ns. t i) = 0" by (rule sum.neutral) (use False in blast)
    then show ?thesis by (simp only: le0)
  next
    case True
    then obtain i where i: "i < length ns" "t i \<noteq> 0" by blast
    obtain j where j: "j < i" "{?v i, ?v j} = {a, b}" "grid_overlap ns quantum i (c i) j (c j)" "t i = unat w"
      using paid [OF i] by blast
    have inj: "k = l" if "k < length ns" "l < length ns" "?v k = ?v l" for k l
    proof -
      have "Some k = ranks ! ?v k" by (rule ranks_okD(1) [OF ok that(1), symmetric])
      also have "\<dots> = ranks ! ?v l" by (rule arg_cong [OF that(3)])
      also have "\<dots> = Some l" by (rule ranks_okD(1) [OF ok that(2)])
      finally show ?thesis by simp
    qed
    have zero: "t k = 0" if k: "k < length ns" "k \<noteq> i" for k
    proof (rule ccontr)
      assume "t k \<noteq> 0"
      then obtain l where l: "l < k" "{?v k, ?v l} = {a, b}" using paid [OF k(1)] by blast
      have "?v k \<in> {?v i, ?v j}" "?v l \<in> {?v i, ?v j}" using l(2) j(2) by auto
      then have "k \<in> {i, j}" "l \<in> {i, j}" using inj k(1) i(1) j(1) l(1) by auto
      then show False using k(2) l(1) j(1) by auto
    qed
    have "(\<Sum>k<length ns. t k) = t i + (\<Sum>k\<in>{..<length ns} - {i}. t k)"
      using i(1) by (intro sum.remove) simp_all
    also have "(\<Sum>k\<in>{..<length ns} - {i}. t k) = 0" using zero by (intro sum.neutral) auto
    finally have sum: "(\<Sum>k<length ns. t k) = unat w" using j(4) by simp
    have "overlap search (?v i) (A ! ?v i) (?v j) (A ! ?v j)" using apart i(1) j(1,3) by simp
    then have "overlap search a (A ! a) b (A ! b)"
      using j(2) overlap_commute by (metis doubleton_eq_iff)
    moreover have "a \<in> D" "b \<in> D" using mem i(1) j(1,2) by (metis insertI1 insert_iff order.strict_trans singletonD)+
    ultimately show ?thesis unfolding sum by (simp add: entry_cost_def)
  qed
  then show ?thesis by (simp only: t_def)
qed

lemma sum_sum_list: "(\<Sum>i<n. \<Sum>e\<leftarrow>es. f i e) = (\<Sum>e\<leftarrow>es. \<Sum>i<n. (f i e :: nat))"
  by (induction es) (simp_all add: sum.distrib)

lemma grid_cost_le:
  assumes ok: "ranks_ok search ns ranks" and mem: "\<forall>i<length ns. tn_node (ns ! i) \<in> D"
    and apart: "\<And>i j. i < length ns \<Longrightarrow> j < length ns \<Longrightarrow> grid_overlap ns quantum i (c i) j (c j) \<Longrightarrow>
      overlap search (tn_node (ns ! i)) (A ! tn_node (ns ! i)) (tn_node (ns ! j)) (A ! tn_node (ns ! j))"
  shows "grid_cost search ns ranks quantum (length ns) c \<le> soft_cost search D A"
proof -
  let ?pay = "rank_pay ns ranks quantum c"
  have "row_cost search ns ranks quantum i c =
      (\<Sum>e\<leftarrow>soft_weights search. \<Sum>x\<leftarrow>soft_links (tn_node (ns ! i)) e. ?pay i x)" if i: "i < length ns" for i
    unfolding row_cost_def soft_neighbor [OF ranks_okD(4) [OF ok i]] sum_list_concat_map
    by (simp add: rank_pay_def)
  then have "grid_cost search ns ranks quantum (length ns) c =
      (\<Sum>i<length ns. \<Sum>e\<leftarrow>soft_weights search. \<Sum>x\<leftarrow>soft_links (tn_node (ns ! i)) e. ?pay i x)"
    unfolding grid_cost_def by (intro sum.cong refl) simp
  also have "\<dots> = (\<Sum>e\<leftarrow>soft_weights search. \<Sum>i<length ns. \<Sum>x\<leftarrow>soft_links (tn_node (ns ! i)) e. ?pay i x)"
    by (rule sum_sum_list)
  also have "\<dots> \<le> (\<Sum>e\<leftarrow>soft_weights search. entry_cost search D A e)"
  proof (rule sum_list_mono)
    fix e
    assume e: "e \<in> set (soft_weights search)"
    obtain a b w where abw: "e = ((a, b), w)" by (metis prod.exhaust)
    show "(\<Sum>i<length ns. \<Sum>x\<leftarrow>soft_links (tn_node (ns ! i)) e. ?pay i x) \<le> entry_cost search D A e"
      unfolding abw by (rule rank_pay_entry [OF ok e [unfolded abw] mem apart])
  qed
  finally show ?thesis by (simp add: soft_cost_def)
qed

text \<open>The rounded solution is a colouring of the grid that costs no more than the solution.\<close>

lemma rounded_grid_cost:
  assumes grid: "scaled_grid search ns pool e quantum cap A" and ok: "ranks_ok search ns ranks"
    and bounded: "grid_bounded ns quantum (cap + CeilDivide cap e) (length ns)"
  shows "grid_cost search ns ranks quantum (length ns) (round_colors ns e quantum A) \<le> soft_cost search (pool_set search pool) A"
proof (rule grid_cost_le [OF ok])
  show "\<forall>i<length ns. tn_node (ns ! i) \<in> pool_set search pool"
    using grid by (simp add: scaled_grid_def scaled_node_def)
  have "v \<in> pool_set search pool \<Longrightarrow> node_size (node_at search v) \<noteq> 0" for v
    using node_size_pos by (simp add: pool_set_def)
  then show "\<And>i j. i < length ns \<Longrightarrow> j < length ns \<Longrightarrow>
      grid_overlap ns quantum i (round_colors ns e quantum A i) j (round_colors ns e quantum A j) \<Longrightarrow>
      overlap search (tn_node (ns ! i)) (A ! tn_node (ns ! i)) (tn_node (ns ! j)) (A ! tn_node (ns ! j))"
    using round_apart [OF grid _ _ bounded] by blast
qed

end

section \<open>The ranks of a pool\<close>

lemma timed_nodes:
  assumes "try_fold (timed_node p search quantum) vs [] = Inr ns"
  shows "map tn_node ns = vs \<and>
    (\<forall>n\<in>set ns. AlignUp (node_size (node_at search (tn_node n))) quantum = Some (tn_size n))"
  using assms
proof (induction rule: try_fold_induct [where P = "\<lambda>vs ns. map tn_node ns = vs \<and>
    (\<forall>n\<in>set ns. AlignUp (node_size (node_at search (tn_node n))) quantum = Some (tn_size n))"])
  case (step vs v ns ns')
  then show ?case by (auto simp: timed_node_def split: option.splits prod.splits)
qed simp

lemma rank_nodes_Some:
  assumes "distinct (map tn_node ns)" "\<forall>n\<in>set ns. tn_node n < m" "v < m"
  shows "rank_nodes m ns ! v = Some r \<longleftrightarrow> r < length ns \<and> tn_node (ns ! r) = v"
proof -
  let ?f = "\<lambda>ranks rank. ranks[tn_node (ns ! rank) := Some rank]"
  have "k \<le> length ns \<Longrightarrow> length (foldl ?f (replicate m None) [0..<k]) = m \<and>
      (foldl ?f (replicate m None) [0..<k] ! v = Some r \<longleftrightarrow> r < k \<and> tn_node (ns ! r) = v)" for k
  proof (induction k)
    case (Suc k)
    have less: "tn_node (ns ! k) < m" using assms(2) Suc.prems by simp
    have ne: "tn_node (ns ! r) \<noteq> tn_node (ns ! k)" if "r < k" for r
      using nth_eq_iff_index_eq [OF assms(1), of r k] that Suc.prems by simp
    show ?case using Suc assms(3) less by (auto simp: nth_list_update less_Suc_eq dest: ne)
  qed (use assms(3) in simp)
  from this [of "length ns"] show ?thesis by (simp add: rank_nodes_def)
qed

lemma ranks_ok_rank_nodes:
  assumes "distinct (map tn_node ns)" "\<forall>n\<in>set ns. tn_node n < node_count (built p)"
  shows "ranks_ok (built p) ns (rank_nodes (node_count (built p)) ns)"
  unfolding ranks_ok_def
proof (intro conjI allI impI ballI)
  fix r
  assume r: "r < length ns"
  then show less: "tn_node (ns ! r) < node_count (built p)" using assms(2) by simp
  show "rank_nodes (node_count (built p)) ns ! tn_node (ns ! r) = Some r"
    using rank_nodes_Some [OF assms less] r by simp
next
  fix v r
  assume "v < node_count (built p)" "rank_nodes (node_count (built p)) ns ! v = Some r"
  then show "r < length ns" "tn_node (ns ! r) = v" using rank_nodes_Some [OF assms] by auto
qed (use built.hard_less built.hard_sym in blast)+

lemma minimum_soft_size:
  assumes "MinimumSoftEndpointSize (built p) q = Some m"
  shows "\<exists>v\<in>pool_set (built p) q. node_size (node_at (built p) v) = m"
proof -
  let ?f = "\<lambda>minimum (pair, w :: u64).
        if node_pool (node_at (built p) (fst pair)) \<noteq> q then minimum
        else let pair_minimum = min (node_size (node_at (built p) (fst pair))) (node_size (node_at (built p) (snd pair)))
             in Some (case minimum of None \<Rightarrow> pair_minimum | Some m \<Rightarrow> min m pair_minimum)"
  have step: "\<exists>v\<in>pool_set (built p) q. node_size (node_at (built p) v) = m"
    if e: "e \<in> set (soft_weights (built p))" and old: "\<And>m. mo = Some m \<Longrightarrow> \<exists>v\<in>pool_set (built p) q. node_size (node_at (built p) v) = m"
      and new: "?f mo e = Some m" for e mo m
  proof -
    obtain i j w where ij: "e = ((i, j), w)" by (metis prod.exhaust)
    have l: "i < node_count (built p)" "j < node_count (built p)"
      "node_pool (node_at (built p) i) = node_pool (node_at (built p) j)"
      using built.soft_pair [of i j w p] e ij by auto
    consider "mo = Some m" | "node_pool (node_at (built p) i) = q" "m \<in> {node_size (node_at (built p) i), node_size (node_at (built p) j)}"
      using new by (auto simp: ij Let_def min_def split: if_splits option.splits)
    then show ?thesis
    proof cases
      case 2
      then show ?thesis using l by (auto simp: pool_set_def)
    qed (rule old)
  qed
  have "\<And>m. foldl ?f None es = Some m \<Longrightarrow> \<exists>v\<in>pool_set (built p) q. node_size (node_at (built p) v) = m"
    if "set es \<subseteq> set (soft_weights (built p))" for es
    using that
  proof (induction es rule: rev_induct)
    case (snoc e es)
    then show ?case using step [of e "foldl ?f None es" m] by simp
  qed simp
  then show ?thesis using assms unfolding MinimumSoftEndpointSize_def by blast
qed

section \<open>One pool\<close>

lemma floor_multiple: "unat (x div g * g) \<le> unat (x :: u64)"
proof -
  have "unat (x div g * g) \<le> unat (x div g) * unat g"
    unfolding unat_word_ariths(2) by (rule mod_less_eq_dividend)
  also have "\<dots> \<le> unat x" unfolding unat_div by (rule div_times_less_eq_dividend)
  finally show ?thesis .
qed

lemma pool_capacity:
  assumes "searchable p" "pinned_allocations p = []" "valid_solution p s"
    and "pool \<in> set (pools p)" "capacity pool = Some cap" "i \<in> pool_set (built p) (pool_id pool)"
  shows "unat (offsets_of p s ! i) + unat (node_size (node_at (built p) i)) \<le> unat cap"
proof -
  have i: "i < node_count (built p)" "node_pool (node_at (built p) i) = pool_id pool"
    using assms(6) by (auto simp: pool_set_def)
  have "FindPool p (pool_id pool) = Some pool"
    by (rule FindPool_in_set [OF well_formedD(1) [OF searchable_built(1) [OF assms(1)]] assms(4)])
  then have "pool_fits p (built p) i (offsets_of p s ! i) \<Longrightarrow> ?thesis"
    using assms(5) i by (auto simp: pool_fits_def word_le_nat_alt unat_plus_no_overflow not_less)
  then show ?thesis using built.legalD(2) [OF valid_legal [OF assms(2,3)] assms(6) i(1)] .
qed

text \<open>A step of a pool that fails proves no infeasibility, the grid apart.\<close>

lemma place_small_Inl: "place_small search t b v st = Inl f \<Longrightarrow> refused f"
  by (auto simp: place_small_def Let_def split: if_splits)

lemma place_class_Inl: "place_class p search a entry st = Inl f \<Longrightarrow> refused f"
  by (auto simp: place_class_def and_then_Inl split: option.splits if_splits
    dest: try_fold_Inl [where P = refused] place_small_Inl)

lemma PlaceSmallBand_Inl: "PlaceSmallBand p search small t a start offs = Inl f \<Longrightarrow> refused f"
  unfolding PlaceSmallBand_def
  by (rule try_fold_Inl [where P = refused]) (auto dest: place_class_Inl)

lemma merge_alignment_Inl: "try_fold (merge_alignment search m) vs a = Inl f \<Longrightarrow> refused f"
  by (rule try_fold_Inl [where P = refused])
    (auto simp: merge_alignment_def split: option.splits)

lemma timed_node_Inl: "try_fold (timed_node p search q) vs a = Inl f \<Longrightarrow> refused f"
  by (rule try_fold_Inl [where P = refused])
    (auto simp: timed_node_def split: option.splits)

lemma solve_bands_given_up: "solve_bands p search options large small m a quantum height offs = Inl f \<Longrightarrow> given_up f"
  by (auto simp: solve_bands_def Let_def and_then_Inl dest: timed_node_Inl RunGridDp_given_up PlaceSmallBand_Inl
    intro: given_up_refused)

lemma solve_soft_free_Inl: "solve_soft_free p search vs cap a offs = Inl f \<Longrightarrow> refused f"
  by (auto simp: solve_soft_free_def and_then_Inl split: if_splits dest: PlaceSmallBand_Inl)

lemma solve_scaled_given_up: "solve_scaled p search options vs cap a m offs = Inl f \<Longrightarrow> given_up f"
  by (auto simp: solve_scaled_def Let_def and_then_Inl split: if_splits dest: merge_alignment_Inl solve_bands_given_up
    intro: given_up_refused)

lemma Scale_SolvePool_given_up: "Scale_SolvePool p search pool options = Inl f \<Longrightarrow> given_up f"
  by (auto simp: Scale_SolvePool_def Let_def and_then_Inl split: if_splits option.splits
    dest: merge_alignment_Inl solve_scaled_given_up solve_soft_free_Inl intro: given_up_refused)

text \<open>The two bands of a pool with soft edges.\<close>

lemma solve_bands_bound:
  fixes p s options large small m a quantum cap offs
  defines "A \<equiv> offsets_of p s"
  assumes p: "searchable p" "pinned_allocations p = []" "valid_solution p s"
    and pool: "pool \<in> set (pools p)" "capacity pool = Some cap"
    and large: "distinct large" "large \<noteq> []" "\<forall>v\<in>set large. v \<in> pool_set (built p) (pool_id pool) \<and> m \<le> node_size (node_at (built p) v)"
    and e: "sc_epsilon_denominator options \<noteq> 0" "quantum \<noteq> 0" "unat quantum \<le> unat (m div sc_epsilon_denominator options)"
      "\<not> AddOverflows cap (CeilDivide cap (sc_epsilon_denominator options))"
  defines "run \<equiv> solve_bands p (built p) options large small m a quantum (cap + CeilDivide cap (sc_epsilon_denominator options)) offs"
  shows "run = Inr r \<Longrightarrow> sp_cost r \<le> saturated (soft_cost (built p) (pool_set (built p) (pool_id pool)) A)"
    "run = Inl f \<Longrightarrow> refused f"
proof -
  let ?e = "sc_epsilon_denominator options" and ?search = "built p" and ?q = "pool_id pool"
  let ?top = "cap + CeilDivide cap ?e"
  have grid: "ranks_ok ?search ns (rank_nodes (node_count ?search) ns) \<and> scaled_grid ?search ns ?q ?e quantum cap A \<and> ns \<noteq> []"
    if unsorted: "try_fold (timed_node p ?search quantum) large [] = Inr us" and ns: "ns = sort_by (timed_before ?search) us" for us ns
  proof -
    note t = timed_nodes [OF unsorted]
    have mem: "tn_node n \<in> set large" if "n \<in> set ns" for n
      using that t unfolding ns by (metis imageI set_map set_sort_by)
    have "distinct (map tn_node ns)"
      using t large(1) mset_sort_by [of "timed_before ?search" us] unfolding ns
      by (metis mset_eq_imp_distinct_iff mset_map)
    moreover have "\<forall>n\<in>set ns. tn_node n < node_count ?search" using mem large(3) by (simp add: pool_set_def)
    ultimately have ranks: "ranks_ok ?search ns (rank_nodes (node_count ?search) ns)" by (rule ranks_ok_rank_nodes)
    have "unat ?e * unat quantum \<le> unat ?e * (unat m div unat ?e)" using e(3) by (simp add: unat_div)
    also have "\<dots> \<le> unat m" by simp
    finally have "scaled_node ?search ?q ?e quantum n" if "n \<in> set ns" for n
      using t mem [OF that] that large(3) unfolding ns by (auto simp: scaled_node_def word_le_nat_alt)
    then have "scaled_grid ?search ns ?q ?e quantum cap A"
      using e(1,2,4) pool_capacity [OF p pool] by (simp add: scaled_grid_def A_def)
    moreover have "length ns = length large" using t unfolding ns by (metis length_map length_sort_by)
    ultimately show ?thesis using ranks large(2) by auto
  qed
  have legal: "legal p ?search (pool_set ?search ?q) A" unfolding A_def by (rule valid_legal [OF p(2,3)])
  show "sp_cost r \<le> saturated (soft_cost ?search (pool_set ?search ?q) A)" if "run = Inr r"
  proof -
    from that obtain us gr where us: "try_fold (timed_node p ?search quantum) large [] = Inr us"
      and gr: "RunGridDp ?search (sort_by (timed_before ?search) us)
        (rank_nodes (node_count ?search) (sort_by (timed_before ?search) us)) quantum ?top options = Inr gr"
      and cost: "sp_cost r = gr_cost gr"
      by (auto simp: run_def solve_bands_def Let_def)
    have g: "ranks_ok ?search (sort_by (timed_before ?search) us) (rank_nodes (node_count ?search) (sort_by (timed_before ?search) us))"
      "scaled_grid ?search (sort_by (timed_before ?search) us) ?q ?e quantum cap A" "sort_by (timed_before ?search) us \<noteq> []"
      using grid [OF us refl] by blast+
    note bounded = RunGridDp_Inr(2) [OF g(1,3) gr]
    have "gr_cost gr \<le> saturated (grid_cost ?search (sort_by (timed_before ?search) us)
        (rank_nodes (node_count ?search) (sort_by (timed_before ?search) us)) quantum
        (length (sort_by (timed_before ?search) us)) (round_colors (sort_by (timed_before ?search) us) ?e quantum A))"
      by (rule RunGridDp_Inr(5) [OF g(1,3) gr built.rounded_grid_fits [OF g(2) legal order_refl bounded]])
    also have "\<dots> \<le> saturated (soft_cost ?search (pool_set ?search ?q) A)"
      by (rule saturated_mono, rule built.rounded_grid_cost [OF g(2,1) bounded])
    finally show ?thesis unfolding cost .
  qed
  show "refused f" if fail: "run = Inl f"
  proof (rule ccontr)
    assume no: "\<not> refused f"
    then have f: "fst f = kInfeasibleProven"
      using solve_bands_given_up [OF fail [unfolded run_def]] by (simp add: given_up_def)
    from fail no obtain us where us: "try_fold (timed_node p ?search quantum) large [] = Inr us"
      and gr: "RunGridDp ?search (sort_by (timed_before ?search) us)
        (rank_nodes (node_count ?search) (sort_by (timed_before ?search) us)) quantum ?top options = Inl f"
      by (auto simp: run_def solve_bands_def Let_def and_then_Inl dest: timed_node_Inl PlaceSmallBand_Inl)
    have g: "ranks_ok ?search (sort_by (timed_before ?search) us) (rank_nodes (node_count ?search) (sort_by (timed_before ?search) us))"
      "scaled_grid ?search (sort_by (timed_before ?search) us) ?q ?e quantum cap A"
      using grid [OF us refl] by blast+
    obtain j where j: "j \<le> length (sort_by (timed_before ?search) us)" "grid_bounded (sort_by (timed_before ?search) us) quantum ?top j"
      "\<And>c. \<not> grid_fits ?search (sort_by (timed_before ?search) us) quantum ?top j c"
      using RunGridDp_infeasible [OF g(1) gr f] by blast
    show False using built.rounded_grid_fits [OF g(2) legal j(1,2)] j(3) by blast
  qed
qed

definition pool_answer :: "DsaProblem \<Rightarrow> Pool \<Rightarrow> DsaSolution \<Rightarrow> (failure + PoolScaleResult) \<Rightarrow> bool" where
  "pool_answer p pool s run \<longleftrightarrow>
     (case run of
        Inl f \<Rightarrow> refused f
      | Inr r \<Rightarrow> sp_cost r \<le> saturated (soft_cost (built p) (pool_set (built p) (pool_id pool)) (offsets_of p s)))"

lemma pool_answer_and_then:
  assumes "\<And>f. m = Inl f \<Longrightarrow> refused f" "\<And>x. m = Inr x \<Longrightarrow> pool_answer p pool s (g x)"
  shows "pool_answer p pool s (and_then m g)"
  using assms by (cases m) (auto simp: pool_answer_def)

lemma solve_scaled_answer:
  assumes p: "searchable p" "pinned_allocations p = []" "valid_solution p s"
    and pool: "pool \<in> set (pools p)" "capacity pool = Some cap"
    and m: "MinimumSoftEndpointSize (built p) (pool_id pool) = Some m" and e: "sc_epsilon_denominator options \<noteq> 0"
  shows "pool_answer p pool s (solve_scaled p (built p) options (PoolNodes (built p) (pool_id pool)) cap a m offs)"
proof -
  let ?large = "filter (\<lambda>node. node_size (node_at (built p) node) \<ge> m) (PoolNodes (built p) (pool_id pool))"
  let ?e = "sc_epsilon_denominator options"
  have large: "distinct ?large" by (simp add: PoolNodes_def)
  have some: "?large \<noteq> []"
    using minimum_soft_size [OF m] by (auto simp: PoolNodes_def pool_set_def filter_empty_conv)
  have nodes: "\<forall>v\<in>set ?large. v \<in> pool_set (built p) (pool_id pool) \<and> m \<le> node_size (node_at (built p) v)"
    by (auto simp: PoolNodes_def pool_set_def)
  have bands: "pool_answer p pool s (solve_bands p (built p) options ?large small m a (m div ?e div g * g)
      (cap + CeilDivide cap ?e) offs)"
    if "m div ?e div g * g \<noteq> 0" "\<not> AddOverflows cap (CeilDivide cap ?e)" for small g
    unfolding pool_answer_def
    using solve_bands_bound [OF p pool large some nodes e that(1) floor_multiple that(2)] by (simp split: sum.split)
  show ?thesis
    unfolding solve_scaled_def Let_def
    using bands by (auto simp: pool_answer_def [of _ _ _ "Inl _"] dest: merge_alignment_Inl intro!: pool_answer_and_then)
qed

lemma Scale_SolvePool_answer:
  assumes p: "searchable p" "pinned_allocations p = []" "valid_solution p s"
    and pool: "pool \<in> set (pools p)" and e: "sc_epsilon_denominator options \<noteq> 0"
  shows "pool_answer p pool s (Scale_SolvePool p (built p) pool options)"
proof (cases "capacity pool")
  case (Some cap)
  have free: "pool_answer p pool s (solve_soft_free p (built p) vs cap a offs)" for vs a offs
    by (auto simp: solve_soft_free_def pool_answer_def [of _ _ _ "Inl _"] pool_answer_def [of _ _ _ "Inr _"]
      empty_pool_result_def dest: PlaceSmallBand_Inl intro!: pool_answer_and_then)
  have scaled: "pool_answer p pool s (case MinimumSoftEndpointSize (built p) (pool_id pool) of
       None \<Rightarrow> solve_soft_free p (built p) (PoolNodes (built p) (pool_id pool)) cap a offs
     | Some m \<Rightarrow> solve_scaled p (built p) options (PoolNodes (built p) (pool_id pool)) cap a m offs)" for a offs
    using free solve_scaled_answer [OF p pool Some _ e] by (auto split: option.split)
  show ?thesis
    unfolding Scale_SolvePool_def Let_def
    using Some scaled
    by (auto simp: pool_answer_def [of _ _ _ "Inl _"] pool_answer_def [of _ _ _ "Inr _"] empty_pool_result_def
      dest: merge_alignment_Inl intro!: pool_answer_and_then)
qed (simp add: Scale_SolvePool_def Let_def pool_answer_def)

section \<open>The solver\<close>

lemma SaturatingAdd_saturated: "x \<le> saturated a \<Longrightarrow> y \<le> saturated b \<Longrightarrow> SaturatingAdd x y \<le> saturated (a + b)"
  unfolding word_le_nat_alt unat_SaturatingAdd unat_saturated by linarith

lemma merge_pool_Inr:
  assumes "merge_pool p search options q t = Inr t'"
  obtains r where "Scale_SolvePool p search q options = Inr r" "ss_cost t' = SaturatingAdd (ss_cost t) (sp_cost r)"
proof -
  from assms obtain r where "Scale_SolvePool p search q options = Inr r"
    unfolding merge_pool_def and_then_Inr by blast
  then show thesis using that assms by (auto simp: merge_pool_def)
qed

lemma merge_pools_bound:
  assumes p: "searchable p" "pinned_allocations p = []" "valid_solution p s" and e: "sc_epsilon_denominator options \<noteq> 0"
    and run: "try_fold (merge_pool p (built p) options) qs st = Inr st'" "set qs \<subseteq> set (pools p)" "ss_cost st = 0"
  shows "ss_cost st' \<le> saturated (\<Sum>q\<leftarrow>map pool_id qs. soft_cost (built p) (pool_set (built p) q) (offsets_of p s))"
  using run(1)
proof (induction rule: try_fold_induct [where P = "\<lambda>qs st. ss_cost st \<le>
    saturated (\<Sum>q\<leftarrow>map pool_id qs. soft_cost (built p) (pool_set (built p) q) (offsets_of p s))"])
  case start
  then show ?case using run(3) by simp
next
  case (step seen q t t')
  let ?cost = "\<lambda>q. soft_cost (built p) (pool_set (built p) q) (offsets_of p s)"
  obtain r where r: "Scale_SolvePool p (built p) q options = Inr r" "ss_cost t' = SaturatingAdd (ss_cost t) (sp_cost r)"
    by (rule merge_pool_Inr [OF step(3)])
  have "sp_cost r \<le> saturated (?cost (pool_id q))"
    using Scale_SolvePool_answer [OF p subsetD [OF run(2) step(1)] e] by (simp only: pool_answer_def r(1) sum.case)
  from SaturatingAdd_saturated [OF step(2) this] show ?case unfolding r(2) by simp
qed

lemma merge_pools_Inl:
  assumes p: "searchable p" "pinned_allocations p = []" "valid_solution p s" and e: "sc_epsilon_denominator options \<noteq> 0"
    and run: "try_fold (merge_pool p (built p) options) (pools p) st = Inl f"
  shows "refused f"
proof (rule try_fold_Inl [OF run])
  fix q t f
  assume "q \<in> set (pools p)" "merge_pool p (built p) options q t = Inl f"
  then show "refused f"
    using Scale_SolvePool_answer [OF p _ e, of q] by (auto simp: merge_pool_def and_then_Inl pool_answer_def)
qed

lemma scale_problem:
  assumes "Compatible (CheckSolverCompatibility p ScaleCapabilities)"
  shows "pinned_allocations p = []"
proof -
  have "StructurallyCompatible (CheckSolverCompatibility p ScaleCapabilities)" using assms by (simp add: Compatible_def)
  then show ?thesis
    unfolding structural_compatibility by (simp add: ScaleCapabilities_def SolverCapabilities_default_def)
qed

lemma ScaleSeparatedGridDp_cases:
  fixes options :: ScaleSeparatedGridDpOptions and p :: DsaProblem
  defines "r \<equiv> ScaleSeparatedGridDp_Solve options p"
  shows "status r \<in> {kInvalidProblem, kUnsupported} \<or>
    searchable p \<and> pinned_allocations p = [] \<and> sc_epsilon_denominator options \<noteq> 0 \<and> r = scale_search p (built p) options"
proof (cases "ValidateProblem p \<noteq> [] \<or> sc_large_denominator options = 0 \<or> sc_epsilon_denominator options = 0 \<or>
    sc_grid_offsets options = 0 \<or> \<not> Compatible (CheckSolverCompatibility p ScaleCapabilities) \<or>
    Scale_ObjectiveLimitation p \<noteq> None \<or> space_errors (placement (built p)) \<noteq> [] \<or> space_flexible_pools (placement (built p))")
  case True
  then show ?thesis by (auto simp: r_def ScaleSeparatedGridDp_Solve_def Let_def split: option.split)
next
  case False
  have "searchable p"
    using False by (auto simp: searchable_def BuildReusePenaltySearchSpace_def BuildPlacementSearchSpace_def Let_def split: if_splits)
  then show ?thesis
    using False scale_problem by (auto simp: r_def ScaleSeparatedGridDp_Solve_def Let_def split: option.split)
qed

text \<open>What a returned placement is.\<close>

definition bicriteria :: "DsaProblem \<Rightarrow> DsaResult \<Rightarrow> DsaSolution \<Rightarrow> bool" where
  "bicriteria p r s \<longleftrightarrow>
     solution r = Some s \<and> ValidateSolution (without_capacities p) s = [] \<and> res_objective r = EvaluateObjective p s \<and>
     (status r = kFeasible \<longleftrightarrow> EvaluateObjectiveMetric p (EvaluateObjective p s) kCapacityOverflow = 0) \<and>
     (\<forall>s'. valid_solution p s' \<longrightarrow> reuse_cost (EvaluateObjective p s) \<le> reuse_cost (EvaluateObjective p s'))"

lemma finish_scale_cases:
  fixes p :: DsaProblem and search options st
  defines "s \<equiv> ExpandReuseNodeSolution search (ss_offsets st)"
  shows "status (finish_scale p search options st) = kInvalidProblem \<or>
    ValidateSolution (without_capacities p) s = [] \<and> reuse_cost (EvaluateObjective p s) \<le> ss_cost st \<and>
    solution (finish_scale p search options st) = Some s \<and>
    res_objective (finish_scale p search options st) = EvaluateObjective p s \<and>
    status (finish_scale p search options st) =
      (if EvaluateObjectiveMetric p (EvaluateObjective p s) kCapacityOverflow = 0 then kFeasible else kBestEffortNoFit)"
proof (cases "ValidateSolution (without_capacities p) s = []")
  case True
  then have r: "BuildBicriteriaResult p search (ss_offsets st) =
      DsaResult_default\<lparr>res_objective := EvaluateObjective p s, solution := Some s,
        status := (if EvaluateObjectiveMetric p (EvaluateObjective p s) kCapacityOverflow = 0 then kFeasible else kBestEffortNoFit)\<rparr>"
    unfolding BuildBicriteriaResult_def Let_def s_def [symmetric] by (simp only: not_True_eq_False if_False simp_thms)
  show ?thesis
    using True by (simp add: finish_scale_def Let_def r not_less add_diagnostics_def del: EvaluateObjectiveMetric.simps)
next
  case False
  then have "status (BuildBicriteriaResult p search (ss_offsets st)) = kInvalidProblem"
    by (simp add: BuildBicriteriaResult_def Let_def s_def)
  then show ?thesis by (simp add: finish_scale_def Let_def add_diagnostics_def)
qed

lemma finish_scale_answer:
  assumes "status (finish_scale p search options st) \<in> {kFeasible, kBestEffortNoFit}"
    and cost: "\<And>s'. valid_solution p s' \<Longrightarrow> ss_cost st \<le> reuse_cost (EvaluateObjective p s')"
  shows "bicriteria p (finish_scale p search options st) (ExpandReuseNodeSolution search (ss_offsets st))"
proof -
  let ?s = "ExpandReuseNodeSolution search (ss_offsets st)"
  have ok: "ValidateSolution (without_capacities p) ?s = []" "reuse_cost (EvaluateObjective p ?s) \<le> ss_cost st"
    "solution (finish_scale p search options st) = Some ?s"
    "res_objective (finish_scale p search options st) = EvaluateObjective p ?s"
    "status (finish_scale p search options st) =
      (if EvaluateObjectiveMetric p (EvaluateObjective p ?s) kCapacityOverflow = 0 then kFeasible else kBestEffortNoFit)"
    using finish_scale_cases [of p search options st] assms(1) by (auto simp del: EvaluateObjectiveMetric.simps)
  have "reuse_cost (EvaluateObjective p ?s) \<le> reuse_cost (EvaluateObjective p s')" if "valid_solution p s'" for s'
    using order_trans [OF ok(2) cost [OF that]] .
  then show ?thesis
    unfolding bicriteria_def using ok by (simp del: EvaluateObjectiveMetric.simps)
qed

lemma scale_search_answer:
  assumes "searchable p" "pinned_allocations p = []" "sc_epsilon_denominator options \<noteq> 0"
  shows "status (scale_search p (built p) options) \<in> {kFeasible, kBestEffortNoFit} \<Longrightarrow>
      \<exists>s. bicriteria p (scale_search p (built p) options) s"
    "status (scale_search p (built p) options) = kInfeasibleProven \<Longrightarrow> \<not> valid_solution p s"
proof -
  note wf = well_formedD(1) [OF searchable_built(1) [OF assms(1)]]
  define start where "start = \<lparr>ss_offsets = replicate (node_count (built p)) 0, ss_cost = 0, ss_quantum = 0,
    ss_large_limit = 0, ss_small_height = 0, ss_states = 0, ss_transitions = 0, ss_tracks = 0, ss_large = 0, ss_small = 0,
    ss_window = 0, ss_span = 0, ss_grid_offsets = 0, ss_pools = 0\<rparr>"
  have run: "scale_search p (built p) options =
      (case try_fold (merge_pool p (built p) options) (pools p) start of
         Inl (st, message) \<Rightarrow> DsaResult_default\<lparr>status := st, diagnostics := [message]\<rparr>
       | Inr st \<Rightarrow> finish_scale p (built p) options st)"
    by (simp add: scale_search_def start_def)
  have finish: "status (finish_scale p (built p) options st) \<noteq> kInfeasibleProven" for st
    using finish_scale_cases [of p "built p" options st] by (auto simp del: EvaluateObjectiveMetric.simps split: if_splits)
  show "\<exists>s. bicriteria p (scale_search p (built p) options) s"
    if ok: "status (scale_search p (built p) options) \<in> {kFeasible, kBestEffortNoFit}"
  proof (cases "try_fold (merge_pool p (built p) options) (pools p) start")
    case (Inr st)
    have eq: "scale_search p (built p) options = finish_scale p (built p) options st" by (simp add: run Inr)
    have "ss_cost st \<le> reuse_cost (EvaluateObjective p s')" if v: "valid_solution p s'" for s'
    proof -
      have "ss_cost st \<le> saturated (\<Sum>q\<leftarrow>map pool_id (pools p). soft_cost (built p) (pool_set (built p) q) (offsets_of p s'))"
        by (rule merge_pools_bound [OF assms(1,2) v assms(3) Inr order_refl]) (simp add: start_def)
      also have "(\<Sum>q\<leftarrow>map pool_id (pools p). soft_cost (built p) (pool_set (built p) q) (offsets_of p s')) =
          soft_cost (built p) {..<node_count (built p)} (offsets_of p s')"
        by (rule soft_cost_pools [OF wf, symmetric]) (use node_pool_known [OF assms(2)] in auto)
      finally show ?thesis unfolding reuse_cost_soft_cost [OF assms(2) v assms(1)] .
    qed
    then show ?thesis using finish_scale_answer ok unfolding eq by blast
  next
    case (Inl f)
    have "given_up f"
      by (rule try_fold_Inl [OF Inl]) (auto simp: merge_pool_def and_then_Inl dest: Scale_SolvePool_given_up)
    then show ?thesis using ok by (cases f) (auto simp: run Inl given_up_def refused_def)
  qed
  show "\<not> valid_solution p s" if "status (scale_search p (built p) options) = kInfeasibleProven"
  proof
    assume v: "valid_solution p s"
    show False
    proof (cases "try_fold (merge_pool p (built p) options) (pools p) start")
      case (Inl f)
      then show ?thesis using refused_not_infeasible [OF merge_pools_Inl [OF assms(1,2) v assms(3) Inl]] that by (cases f) (simp add: run)
    qed (use that finish in \<open>simp add: run\<close>)
  qed
qed

theorem ScaleSeparatedGridDp_bicriteria:
  assumes "status (ScaleSeparatedGridDp_Solve options p) \<in> {kFeasible, kBestEffortNoFit}"
  shows "\<exists>s. bicriteria p (ScaleSeparatedGridDp_Solve options p) s"
  using ScaleSeparatedGridDp_cases [of options p] assms scale_search_answer(1) [of p options] by auto

interpretation scale_solver: ds_solver "ScaleSeparatedGridDp_Solve options" for options
proof unfold_locales
  fix p s
  let ?r = "ScaleSeparatedGridDp_Solve options p"
  show "\<exists>s. solution ?r = Some s \<and> ValidateSolution p s = []" if ok: "status ?r = kFeasible"
  proof -
    have "well_formed p" using ScaleSeparatedGridDp_cases [of options p] ok searchable_built(1) by auto
    moreover obtain s where "bicriteria p ?r s" using ScaleSeparatedGridDp_bicriteria [of options p] ok by auto
    ultimately show ?thesis using ok structure_and_peaks [of p s] unfolding bicriteria_def by blast
  qed
  show "\<not> valid_solution p s" if "status ?r = kInfeasibleProven"
    using ScaleSeparatedGridDp_cases [of options p] that scale_search_answer(2) [of p options s] by auto
qed

end
