(* ===== verification/Scale_Properties.thy ===== *)
theory Scale_Properties
  imports Scale_Spec Search_Properties
begin

text \<open>
  The properties of the scale-separated solver: its placements reuse no more soft weight than any solution
  that fits, its answers of feasibility and infeasibility are right, its grid dynamic program is exact, and
  where it rejects a problem that the validator accepts.
\<close>

section \<open>Examples\<close>

definition scale_options :: ScaleSeparatedGridDpOptions where
  "scale_options = \<lparr>sc_large_denominator = 2, sc_epsilon_denominator = 2, sc_soft_span = 8, sc_dp_states = 0,
     sc_dp_transitions = 0, sc_grid_offsets = 64\<rparr>"

text \<open>Two buffers that may share memory at a cost.\<close>

definition pair_problem :: DsaProblem where
  "pair_problem = (unit_problem 8)\<lparr>buffers := [unit_buffer 1 0 3, unit_buffer 2 3 5]\<rparr>"

definition pair_nodes :: "TimedNode list" where
  "pair_nodes = [\<lparr>tn_node = 0, tn_birth = 0, tn_death = 3, tn_size = 8\<rparr>, \<lparr>tn_node = 1, tn_birth = 3, tn_death = 5, tn_size = 8\<rparr>]"

text \<open>A second pool without soft edges, whose two buffers are larger than its capacity.\<close>

definition oversized_problem :: DsaProblem where
  "oversized_problem =
     pair_problem\<lparr>buffers := buffers pair_problem @
        [\<lparr>buf_id = 5, buf_name = [], buf_size = 3, alignment = 1, live_intervals = [\<lparr>lower = 0, upper = 2\<rparr>],
          allowed_pools = [1]\<rparr>,
         \<lparr>buf_id = 6, buf_name = [], buf_size = 3, alignment = 1, live_intervals = [\<lparr>lower = 1, upper = 3\<rparr>],
          allowed_pools = [1]\<rparr>],
      pools := pools pair_problem @
        [\<lparr>pool_id = 1, pool_name = ''l2'', capacity = Some 2, reserved_ranges = [], bank_geometry = None\<rparr>]\<rparr>"

section \<open>The answers\<close>

text \<open>
  C5: a placement that the scale-separated solver returns, feasible or best effort, keeps every constraint but
  the capacities, carries its objective, is called feasible exactly when no pool overflows, and pays no
  more reuse cost than any solution that is valid with the capacities.
\<close>
theorem scale_bicriteria:
  assumes "status (ScaleSeparatedGridDp_Solve options p) \<in> {kFeasible, kBestEffortNoFit}"
  shows "\<exists>s. solution (ScaleSeparatedGridDp_Solve options p) = Some s \<and>
    ValidateSolution (without_capacities p) s = [] \<and>
    res_objective (ScaleSeparatedGridDp_Solve options p) = EvaluateObjective p s \<and>
    (status (ScaleSeparatedGridDp_Solve options p) = kFeasible \<longleftrightarrow>
      EvaluateObjectiveMetric p (EvaluateObjective p s) kCapacityOverflow = 0) \<and>
    (\<forall>s'. valid_solution p s' \<longrightarrow> reuse_cost (EvaluateObjective p s) \<le> reuse_cost (EvaluateObjective p s'))"
  using ScaleSeparatedGridDp_bicriteria [OF assms] unfolding bicriteria_def .

theorem scale_bicriteria_witness:
  "\<exists>s. solution (ScaleSeparatedGridDp_Solve (scale_options\<lparr>sc_epsilon_denominator := 1\<rparr>) pair_problem) = Some s \<and>
    ValidateSolution (without_capacities pair_problem) s = []"
proof -
  have "status (ScaleSeparatedGridDp_Solve (scale_options\<lparr>sc_epsilon_denominator := 1\<rparr>) pair_problem) = kBestEffortNoFit" by code_simp
  then show ?thesis using scale_bicriteria [of "scale_options\<lparr>sc_epsilon_denominator := 1\<rparr>" pair_problem] by auto
qed

text \<open>
  C19: a feasible answer of the scale-separated solver carries a solution that is valid with the capacities, and
  when it proves infeasibility the problem has no valid solution.
\<close>
theorem scale_decides:
  "(status (ScaleSeparatedGridDp_Solve options p) = kFeasible \<longrightarrow>
     (\<exists>s. solution (ScaleSeparatedGridDp_Solve options p) = Some s \<and> ValidateSolution p s = [])) \<and>
   (status (ScaleSeparatedGridDp_Solve options p) = kInfeasibleProven \<longrightarrow> \<not> valid_solution p s)"
  using scale_solver.feasible_valid scale_solver.infeasible_sound by blast

theorem scale_decides_witness: "\<not> (\<exists>s. valid_solution (unit_problem 8) s)"
proof -
  have "status (ScaleSeparatedGridDp_Solve scale_options (unit_problem 8)) = kInfeasibleProven" by code_simp
  then show ?thesis using scale_decides [of scale_options "unit_problem 8"] by blast
qed

section \<open>The grid dynamic program\<close>

text \<open>
  C7: the dynamic program over the grid is exact: its colours fit the grid and keep the hard pairs apart, its
  cost is the saturated cost of its colours, no colouring that fits is cheaper, and when it reports
  infeasibility no colouring fits.
\<close>
theorem grid_dp_exact:
  assumes "ranks_ok search ns ranks" "ns \<noteq> []"
  shows "case RunGridDp search ns ranks quantum large_limit options of
      Inl f \<Rightarrow> fst f = kInfeasibleProven \<longrightarrow> (\<forall>c. \<not> grid_fits search ns quantum large_limit (length ns) c)
    | Inr r \<Rightarrow> length (gr_colors r) = length ns \<and>
        grid_fits search ns quantum large_limit (length ns) ((!) (gr_colors r)) \<and>
        gr_cost r = saturated (grid_cost search ns ranks quantum (length ns) ((!) (gr_colors r))) \<and>
        (\<forall>c. grid_fits search ns quantum large_limit (length ns) c \<longrightarrow>
           gr_cost r \<le> saturated (grid_cost search ns ranks quantum (length ns) c))"
proof (cases "RunGridDp search ns ranks quantum large_limit options")
  case (Inl f)
  have "\<not> grid_fits search ns quantum large_limit (length ns) c" if f: "fst f = kInfeasibleProven" for c
    using RunGridDp_infeasible [OF assms(1) Inl f] grid_fits_mono by blast
  then show ?thesis by (simp add: Inl)
next
  case (Inr r)
  then show ?thesis using RunGridDp_Inr [OF assms Inr] by simp
qed

theorem grid_dp_exact_witness:
  "\<exists>r. RunGridDp (built pair_problem) pair_nodes (rank_nodes 2 pair_nodes) 8 8 scale_options = Inr r \<and>
    gr_cost r = 5 \<and> grid_fits (built pair_problem) pair_nodes 8 8 2 ((!) (gr_colors r))"
proof -
  have ok: "ranks_ok (built pair_problem) pair_nodes (rank_nodes 2 pair_nodes)"
  proof -
    have "node_count (built pair_problem) = 2" by code_simp
    then show ?thesis
      using ranks_ok_rank_nodes [of pair_nodes pair_problem] by (simp add: pair_nodes_def)
  qed
  have len: "pair_nodes \<noteq> []" "length pair_nodes = 2" by (simp_all add: pair_nodes_def)
  have run: "map_sum (\<lambda>f. ()) gr_cost
      (RunGridDp (built pair_problem) pair_nodes (rank_nodes 2 pair_nodes) 8 8 scale_options) = Inr 5"
    by code_simp
  obtain r where r: "RunGridDp (built pair_problem) pair_nodes (rank_nodes 2 pair_nodes) 8 8 scale_options = Inr r"
    "gr_cost r = 5"
    using run by (cases "RunGridDp (built pair_problem) pair_nodes (rank_nodes 2 pair_nodes) 8 8 scale_options") auto
  then show ?thesis
    using grid_dp_exact [OF ok len(1), of 8 8 scale_options] by (simp add: r(1) len(2))
qed

section \<open>Buffers larger than their pool\<close>

text \<open>
  A problem that the validator accepts, with a soft-free pool whose buffers are larger than its capacity, is
  answered as an invalid problem: the harmonic tracks are narrower than the buffers, so the placement
  that the solver builds overlaps.
\<close>
lemma scale_oversized_invalid:
  "ValidateProblem oversized_problem = [] \<and>
   status (ScaleSeparatedGridDp_Solve scale_options oversized_problem) = kInvalidProblem"
proof
  show "ValidateProblem oversized_problem = []" by code_simp
  show "status (ScaleSeparatedGridDp_Solve scale_options oversized_problem) = kInvalidProblem" by code_simp
qed

end
