(* ===== verification/Spec2Isabelle.thy ===== *)
theory Spec2Isabelle
  imports Solver_Spec Penalty_Properties Reuse_Geometry Csv_Spec Exact_Properties Heuristic_Properties Local_Properties Scale_Properties
begin

text \<open>
  Verification library of the dynamic storage allocation solver (\<^verbatim>\<open>src/src/dsa\<close>).

  The program gives every buffer of a problem a pool and an offset, such that buffers that may not share
  memory do not overlap, the pools are not exceeded and an objective is small: peaks, and the cost of
  reusing memory between buffers that are not ordered well enough in time. A problem is validated, its
  colocated buffers are merged into classes, and a solver searches for offsets of the classes; the
  result carries a status, a solution, its objective and diagnostics. All paths below are under
  \<^verbatim>\<open>src/src/dsa\<close>.

  Parts, theories and code.

  \<^item> \<^theory_text>\<open>Prelude\<close>: 32-bit and 64-bit words, overflow tests, saturating addition, \<open>std::map\<close> and \<open>std::set\<close>
    as sorted lists, \<open>std::sort\<close>, decimal printing, and computations that may throw.
  \<^item> \<^theory_text>\<open>Model\<close>: the structs and enums of \<^verbatim>\<open>model/model.h\<close>, one record or datatype each, with the lookups of
    \<^verbatim>\<open>model/model.cpp\<close>.
  \<^item> \<^theory_text>\<open>Union_Find\<close>: \<open>class DisjointSet\<close>; its state is the vector of parents, and \<open>Find\<close> returns the root with
    the compressed vector. The locale \<open>partition\<close> is what its clients use.
  \<^item> \<^theory_text>\<open>Validator\<close>, \<^theory_text>\<open>Validator_Spec\<close>, \<^theory_text>\<open>Objective_Spec\<close>: \<^verbatim>\<open>model/validator.cpp\<close>. \<open>well_formed\<close> and
    \<open>valid_solution\<close> say in terms of fields and byte sets what it means to have no diagnostics.
  \<^item> \<^theory_text>\<open>Fit\<close>, \<^theory_text>\<open>Best_Fit_Spec\<close>, \<^theory_text>\<open>Placement\<close>, \<^theory_text>\<open>Prepare_Spec\<close>, \<^theory_text>\<open>Placement_Spec\<close>: \<^verbatim>\<open>algorithms/placement_engine.cpp\<close>.
    \<open>Prepare\<close> builds the classes, \<open>PlaceWithOrder\<close> places them one by one; the locale \<open>fit_policy\<close> is the
    contract of first fit and best fit, and \<open>best_fit_choice\<close> says which gap best fit takes.
  \<^item> \<^theory_text>\<open>Solvers\<close>, \<^theory_text>\<open>Solver_Spec\<close>, \<^theory_text>\<open>Order_Search\<close>, \<^theory_text>\<open>Local_Search\<close>, \<^theory_text>\<open>Pypto_Search\<close>: \<^verbatim>\<open>algorithms/solver.cpp\<close>,
    the first-fit, XLA heap and local search solvers, and the structured search of PyPTO. The locales
    \<open>placing_solver\<close> and \<open>ds_solver\<close> are the contract of the virtual function \<open>Solve\<close>; every solver of the
    library interprets one of them.
  \<^item> \<^theory_text>\<open>Cypress_Relaxation\<close>, \<^theory_text>\<open>Cypress_Spec\<close>, \<^theory_text>\<open>Tvm_Hill_Climb\<close>: the two literature heuristics.
  \<^item> \<^theory_text>\<open>Reuse_Search\<close>, \<^theory_text>\<open>Search_Space\<close>: \<^verbatim>\<open>algorithms/reuse_penalty_search.cpp\<close>, the view of a problem that
    the reuse-penalty solvers search: nodes, hard neighbours, soft weights. The locale \<open>search_space\<close> is
    what they rely on.
  \<^item> \<^theory_text>\<open>Canonical_Search\<close>, \<^theory_text>\<open>Canonical_Spec\<close>, \<^theory_text>\<open>Canonical_Exact\<close>, \<^theory_text>\<open>Canonical_Solution\<close>, \<^theory_text>\<open>Canonical_Cost\<close>,
    \<^theory_text>\<open>Canonical_Pools\<close>: \<^verbatim>\<open>algorithms/canonical_exact_search.cpp\<close>, the branch and bound of a pool. Its state is
    the record \<open>CanonicalState\<close>: the placed nodes, their offsets and the best vector so far.
  \<^item> \<^theory_text>\<open>Exact_Solvers\<close>, \<^theory_text>\<open>Exact_Spec\<close>, \<^theory_text>\<open>Hitting_Spec\<close>: \<^verbatim>\<open>algorithms/reuse_penalty_exact_solvers.cpp\<close>,
    canonical branch and bound with seeds, and the implicit hitting set solver.
  \<^item> \<^theory_text>\<open>Treewidth\<close>, \<^theory_text>\<open>Treewidth_Partition\<close>, \<^theory_text>\<open>Treewidth_Tables\<close>, \<^theory_text>\<open>Treewidth_Dp\<close>, \<^theory_text>\<open>Treewidth_Potentials\<close>,
    \<^theory_text>\<open>Treewidth_Spec\<close>, \<^theory_text>\<open>Treewidth_Solver_Spec\<close>: \<^verbatim>\<open>algorithms/reuse_penalty_treewidth_solver.cpp\<close>.
  \<^item> \<^theory_text>\<open>Scale\<close>, \<^theory_text>\<open>Scale_Dp\<close>, \<^theory_text>\<open>Scale_Spec\<close>: \<^verbatim>\<open>algorithms/reuse_penalty_scale_solver.cpp\<close>.
  \<^item> \<^theory_text>\<open>Baseline_Solvers\<close>, \<^theory_text>\<open>Baseline_Spec\<close>: \<^verbatim>\<open>algorithms/reuse_penalty_baseline_solvers.cpp\<close> without its
    low-rank solver.
  \<^item> \<^theory_text>\<open>Reuse_Local_Search\<close>, \<^theory_text>\<open>Reuse_Local_Spec\<close>: \<^verbatim>\<open>algorithms/reuse_penalty_local_search_solver.cpp\<close>.
  \<^item> \<^theory_text>\<open>Penalty_Edges\<close>, \<^theory_text>\<open>Happens_Before\<close>, \<^theory_text>\<open>Penalty_Edges_Spec\<close>: \<^verbatim>\<open>analysis/penalty_edge_derivation.cpp\<close>, where
    the reuse penalties come from: vector clocks over a scheduled program.
  \<^item> \<^theory_text>\<open>Reuse_Geometry\<close>: \<^verbatim>\<open>analysis/reuse_geometry.cpp\<close>.
  \<^item> \<^theory_text>\<open>Csv\<close>, \<^theory_text>\<open>Csv_Spec\<close>: \<^verbatim>\<open>io/minimalloc_csv.cpp\<close> on the text of a stream.
  \<^item> The theories whose names end in \<open>Properties\<close>, and this one, hold the properties and their examples.

  How the code is rendered. A struct is a record, an enum a datatype, \<open>std::uint32_t\<close> and
  \<open>std::uint64_t\<close> are words that wrap, \<open>std::int64_t\<close> is an integer (only bounds of intervals, which are
  read and compared), \<open>std::size_t\<close> indices are naturals, \<open>std::optional\<close> is an option and a
  sentinel index is \<open>None\<close>. A member function that changes its object takes the state and returns it. A
  list of diagnostics grows in the order of the source. A thrown exception and an early return with a
  status are the left part of a sum. A loop is a fold or a recursive function.

  What the lemmas show. The validators are sound and complete. The engine and every heuristic return
  valid solutions, and their claims of infeasibility are right. Offsets of nodes that are legal in every
  pool and valid solutions of a problem without pins simulate each other (\<open>offsets_of\<close>,
  \<open>ExpandReuseNodeSolution\<close>) and both sides count the same reuse cost, so each exact solver is proved
  optimal over the search view: by an exchange argument for canonical placements, by weak duality of
  cores and hitting sets, by variable elimination over canonical partitions. The scale-separated solver
  is optimal against every solution that fits the capacities, which it may itself exceed. A derived
  penalty edge means a paid race: accesses that happens-before does not order and whose synchronisation
  costs something (a race whose synchronisation is free gets no edge, so zero reuse cost excludes only the
  paid ones). A CSV document gives back sizes, intervals, offsets and names, nothing else of a problem.
  Where the code does not do what it means to, a lemma or property shows it: a fitting gap that best fit
  misses when an alignment overflows, a search that does not return, an unproven claim of infeasibility, a
  valid problem that is called invalid, documents with newlines in a name that cannot be read back.

  Bounds and fuel. \<open>ds_find\<close> follows at most as many links as the vector is long (\<open>ds_find_unfold\<close>);
  \<open>topological_loop\<close> pops every operation once (\<open>topological_loop_drained\<close>); the canonical search has as
  many levels as the pool has nodes; \<open>master_search\<close> selects a new edge at every level, so the number of
  edges and one for the leaf are enough; the min-fill order takes one step per node; \<open>overflow_chain\<close>
  visits a new node at every step (\<open>overflow_chain_enough\<close>); \<open>free_color\<close> skips at most the blocked
  colours (\<open>free_color_enough\<close>). Loops that need not end are partial functions in the option monad, where
  \<open>None\<close> is a call that does not return: \<open>AvoidReservedRanges\<close>, for which both outcomes are shown, and
  the loops that draw random numbers, which return for every fair source.

  Parameters. \<open>std::mt19937_64\<close>, \<open>std::shuffle\<close> and the distributions, whose values the language leaves to
  the library, are the records \<open>RandomSource\<close>, \<open>Shuffler\<close>, \<open>ColorSource\<close>, \<open>TvmSource\<close> and \<open>ReuseSource\<close>;
  the last two hold also the comparisons made in floating point. The properties hold for every such
  record, and termination for the fair ones.

  Not modelled. The low-rank rounding solver of \<^verbatim>\<open>reuse_penalty_baseline_solvers.cpp\<close> descends a
  gradient in \<open>long double\<close> from normally distributed vectors, whose values are the platform's.
  \<^verbatim>\<open>reuse_penalty_portfolio_solvers.cpp\<close> (capacity two, span one by minimum-cost flow, and the portfolio over the other solvers) is left out.
  \<^verbatim>\<open>model/structured_problem.cpp\<close>, \<^verbatim>\<open>model/structured_json.cpp\<close> and \<^verbatim>\<open>model/architecture.cpp\<close> describe captures
  and machines and rest on a JSON parser; the functions of \<^verbatim>\<open>io/minimalloc_csv.cpp\<close> that open a file by its
  path, and the command-line tools of \<^verbatim>\<open>src/tools\<close>, are input and output around the library.
\<close>

section \<open>Example problem\<close>

definition example_buffer :: "u32 \<Rightarrow> string \<Rightarrow> u64 \<Rightarrow> u64 \<Rightarrow> int \<Rightarrow> int \<Rightarrow> Buffer" where
  "example_buffer i n sz al lo hi =
     \<lparr>buf_id = i, buf_name = n, buf_size = sz, alignment = al,
      live_intervals = [\<lparr>lower = lo, upper = hi\<rparr>], allowed_pools = [0]\<rparr>"

definition example_problem :: DsaProblem where
  "example_problem =
     \<lparr>buffers = [example_buffer 1 ''a'' 16 8 0 4, example_buffer 2 ''b'' 8 4 2 6,
                 example_buffer 3 ''c'' 12 4 5 9, example_buffer 4 ''d'' 24 8 7 9],
      pools = [\<lparr>pool_id = 0, pool_name = ''ub'', capacity = Some 64,
                reserved_ranges = [\<lparr>range_begin = 0, range_end = 8\<rparr>], bank_geometry = None\<rparr>],
      colocations = [\<lparr>col_first = 1, col_second = 3\<rparr>],
      separations = [], temporal_exclusions = [], pinned_allocations = [],
      cost_model = Some \<lparr>reuse_penalties =
        [\<lparr>pen_first = 2, pen_second = 4, pen_cost = 5, pen_reason = Pen_kGeneric\<rparr>]\<rparr>,
      pypto_structure = None, objective = MinimizePeakObjective\<rparr>"

definition example_solution :: DsaSolution where
  "example_solution = \<lparr>placements =
     [(1, \<lparr>pl_pool = 0, pl_offset = 8\<rparr>), (2, \<lparr>pl_pool = 0, pl_offset = 24\<rparr>),
      (3, \<lparr>pl_pool = 0, pl_offset = 8\<rparr>), (4, \<lparr>pl_pool = 0, pl_offset = 24\<rparr>)]\<rparr>"

lemma example_accepted: "ValidateSolution example_problem example_solution = []"
  by code_simp

lemma example_wf: "well_formed example_problem"
  and example_valid: "valid_solution example_problem example_solution"
  using example_accepted by (simp_all add: ValidateSolution_Nil)

section \<open>Validation\<close>

text \<open>
  C38: \<open>ValidateProblem\<close> returns no diagnostic exactly for the well-formed problems: it is a sound
  and complete decision procedure for the declarative meaning of the model's rules.
\<close>
theorem ValidateProblem_decides: "ValidateProblem p = [] \<longleftrightarrow> well_formed p"
  by (rule ValidateProblem_Nil)

text \<open>
  C1: \<open>ValidateSolution\<close> returns no diagnostic exactly when the problem is well-formed and the
  solution is valid: every buffer placed in an allowed pool, aligned, inside the capacity and off
  the reserved bytes, colocated buffers together, conflicting classes on disjoint bytes, pins kept.
\<close>
theorem ValidateSolution_decides: "ValidateSolution p s = [] \<longleftrightarrow> well_formed p \<and> valid_solution p s"
  by (rule ValidateSolution_Nil)

text \<open>
  C26: the union-find vector that the validator and the placement engine share answers every query by
  the closure of the unions: after any list of unions two indices have the same root exactly when a
  chain of them connects the two. Path compression in \<open>Find\<close> is part of the computation.
\<close>
theorem DisjointSet_closure:
  assumes "set ps \<subseteq> {0..<n} \<times> {0..<n}" "i < n" "j < n"
  shows "fst (ds_find (foldl (\<lambda>parent (a, b). ds_union parent a b) (ds_init n) ps) i) =
      fst (ds_find (foldl (\<lambda>parent (a, b). ds_union parent a b) (ds_init n) ps) j) \<longleftrightarrow>
    (i, j) \<in> (set ps \<union> (set ps)\<inverse>)\<^sup>*"
proof -
  let ?u = "ds.union_all (ds_init n) ps"
  have "ds_ok ?u \<and> length ?u = n" by (rule ds.union_all_invar [OF ds.invar_init assms(1)])
  then have "fst (ds_find ?u k) = ds_rep ?u k" if "k < n" for k using ds.find_rep that by blast
  then show ?thesis
    using ds.union_all_closure [OF assms] assms(2,3) by (simp add: ds.union_all_def)
qed

theorem DisjointSet_closure_witness:
  "fst (ds_find (foldl (\<lambda>parent (a, b). ds_union parent a b) (ds_init 4) [(0, 1), (3, 1)]) 0) =
     fst (ds_find (foldl (\<lambda>parent (a, b). ds_union parent a b) (ds_init 4) [(0, 1), (3, 1)]) 3) \<longleftrightarrow>
   (0, 3) \<in> (set [(0 :: nat, 1 :: nat), (3, 1)] \<union> (set [(0, 1), (3, 1)])\<inverse>)\<^sup>*"
  by (rule DisjointSet_closure) auto

text \<open>
  On a well-formed problem \<open>AllocationClassExtents\<close> returns, for every buffer, the maximum size
  over the buffers that a chain of colocations connects to it: a colocation class is one allocation.
\<close>
theorem AllocationClassExtents_max:
  assumes "well_formed p" "i < length (buffers p)"
  shows "fst (AllocationClassExtents p (BufferIndices p) (ds_init (length (buffers p)))) ! i =
    Max (buf_size ` {b \<in> set (buffers p). same_class p (buf_id (buffers p ! i)) (buf_id b)})"
  using AllocationClassExtents_spec [OF assms(1)] assms(2) by (auto simp: class_extent_def)

theorem AllocationClassExtents_max_witness:
  "fst (AllocationClassExtents example_problem (BufferIndices example_problem)
     (ds_init (length (buffers example_problem)))) ! 2 =
   Max (buf_size ` {b \<in> set (buffers example_problem).
     same_class example_problem (buf_id (buffers example_problem ! 2)) (buf_id b)})"
  by (rule AllocationClassExtents_max [OF example_wf]) code_simp

text \<open>
  The overlap test on offsets and sizes is the intersection of the two byte sets whenever both
  ranges end inside the 64-bit address space.
\<close>
theorem AddressRangesOverlap_exact:
  assumes "unat o1 + unat s1 < 2 ^ 64" "unat o2 + unat s2 < 2 ^ 64"
  shows "AddressRangesOverlap o1 s1 o2 s2 \<longleftrightarrow>
    {unat o1 ..< unat o1 + unat s1} \<inter> {unat o2 ..< unat o2 + unat s2} \<noteq> {}"
  using AddressRangesOverlap_bytes [of o1 s1 o2 s2] assms by (simp add: AddOverflows_less bytes_def)

theorem AddressRangesOverlap_exact_witness:
  "AddressRangesOverlap 8 16 20 4 \<longleftrightarrow>
    {unat (8 :: u64) ..< unat (8 :: u64) + unat (16 :: u64)} \<inter>
    {unat (20 :: u64) ..< unat (20 :: u64) + unat (4 :: u64)} \<noteq> {}"
  by (rule AddressRangesOverlap_exact) simp_all

section \<open>Objective\<close>

text \<open>
  C36: The peak recorded for a pool is the largest end of a reserved range of the pool or of a placed
  buffer in it, and zero when there is none; buffers whose range leaves the address space are skipped.
\<close>
theorem EvaluateObjective_peak:
  "om_get 0 (peak_by_pool (EvaluateObjective p s)) k =
   Max (insert 0
     ({range_end r | q r. q \<in> set (pools p) \<and> r \<in> set (reserved_ranges q) \<and> pool_id q = k} \<union>
      {pl_offset pl + buf_size b | b pl. b \<in> set (buffers p) \<and> Find s (buf_id b) = Some pl \<and>
         pl_pool pl = k \<and> unat (pl_offset pl) + unat (buf_size b) < 2 ^ 64}))"
proof -
  have "{t. (k, t) \<in> set (all_tops p s)} =
     {range_end r | q r. q \<in> set (pools p) \<and> r \<in> set (reserved_ranges q) \<and> pool_id q = k} \<union>
      {pl_offset pl + buf_size b | b pl. b \<in> set (buffers p) \<and> Find s (buf_id b) = Some pl \<and>
         pl_pool pl = k \<and> unat (pl_offset pl) + unat (buf_size b) < 2 ^ 64}"
    unfolding in_all_tops by (auto simp: AddOverflows_less)
  then show ?thesis by (simp add: peak_by_pool_get pool_peak_def)
qed

text \<open>
  C22: The reuse cost of a placement of a well-formed problem is the sum of the costs of the penalties
  that are paid, saturated at the largest 64-bit value. A penalty is paid when its buffers lie in
  different colocation classes of one pool, do not conflict in time, and the extents of their
  classes share a byte.
\<close>
theorem EvaluateObjective_reuse_cost:
  assumes "well_formed p"
  shows "unat (reuse_cost (EvaluateObjective p s)) =
    min (\<Sum>k\<leftarrow>filter (pays p s) (penalties_of p). unat (pen_cost k)) (2 ^ 64 - 1)"
  by (simp add: reuse_cost_unat [OF assms])

theorem EvaluateObjective_reuse_cost_witness:
  "unat (reuse_cost (EvaluateObjective example_problem example_solution)) =
    min (\<Sum>k\<leftarrow>filter (pays example_problem example_solution) (penalties_of example_problem). unat (pen_cost k)) (2 ^ 64 - 1)"
  by (rule EvaluateObjective_reuse_cost [OF example_wf])

text \<open>
  Validity with capacities splits into validity without them and the comparison of the recomputed
  peaks, which is how the placement engine checks its own output.
\<close>
theorem validity_is_structure_and_peaks:
  assumes "well_formed p"
  shows "ValidateSolution p s = [] \<longleftrightarrow>
    ValidateSolution (without_capacities p) s = [] \<and>
    EvaluateObjectiveMetric p (EvaluateObjective p s) kCapacityOverflow = 0"
proof
  assume "ValidateSolution p s = []"
  then have "valid_solution p s" by (simp add: ValidateSolution_Nil)
  then show "ValidateSolution (without_capacities p) s = [] \<and>
      EvaluateObjectiveMetric p (EvaluateObjective p s) kCapacityOverflow = 0"
    using assms by (simp only: ValidateSolution_Nil well_formed_without_capacities
        valid_solution_without_capacities valid_solution_no_overflow simp_thms)
next
  assume "ValidateSolution (without_capacities p) s = [] \<and>
      EvaluateObjectiveMetric p (EvaluateObjective p s) kCapacityOverflow = 0"
  then have "valid_solution (without_capacities p) s"
    and "\<forall>q\<in>set (pools p). \<forall>c. capacity q = Some c \<longrightarrow> pool_peak p s (pool_id q) \<le> c"
    unfolding ValidateSolution_Nil capacity_overflow_0_iff by blast+
  then show "ValidateSolution p s = []"
    using assms valid_solution_capacities [OF assms] by (simp add: ValidateSolution_Nil)
qed

theorem validity_is_structure_and_peaks_witness:
  "ValidateSolution example_problem example_solution = [] \<longleftrightarrow>
    ValidateSolution (without_capacities example_problem) example_solution = [] \<and>
    EvaluateObjectiveMetric example_problem (EvaluateObjective example_problem example_solution)
      kCapacityOverflow = 0"
  by (rule validity_is_structure_and_peaks [OF example_wf])

section \<open>Choosing an offset\<close>

text \<open>
  \<open>AlignUp\<close> returns the least aligned offset that is not below the given one, and nothing exactly
  when there is no such 64-bit offset.
\<close>
theorem AlignUp_least:
  assumes "align \<noteq> 0"
  shows "AlignUp v align =
    (if \<exists>x. v \<le> x \<and> unat align dvd unat x
     then Some (LEAST x. v \<le> x \<and> unat align dvd unat x) else None)"
proof -
  have least: "(LEAST x. v \<le> x \<and> unat align dvd unat x) = w"
    if "unat align dvd unat w" "v \<le> w" "\<And>x. unat align dvd unat x \<Longrightarrow> v \<le> x \<Longrightarrow> w \<le> x" for w
    by (rule Least_equality) (use that in auto)
  show ?thesis
    using AlignUp_cases [OF assms, of v] least unfolding aligned_to_def by (auto split: if_splits)
qed

text \<open>
  C10: first fit is exact. Between non-empty blocked ranges it returns the lowest offset that is
  aligned, stays in the address space and touches no blocked byte, and nothing when none exists.
\<close>
theorem FindFirstFit_exact:
  assumes "fit_alignment request \<noteq> 0" "fit_size request \<noteq> 0"
    and "\<forall>r\<in>set blocked. range_begin r < range_end r"
  shows "FindFirstFit request blocked =
    (if \<exists>x. fits request blocked x then Some (LEAST x. fits request blocked x) else None)"
proof (cases "FindFirstFit request blocked")
  case None
  then show ?thesis using FindFirstFit_least [OF assms] by fastforce
next
  case (Some o')
  then have "fits request blocked o'" by (rule FindFirstFit_sound [OF assms(1)])
  moreover have "(LEAST x. fits request blocked x) = o'"
    by (rule Least_equality) (use calculation Some FindFirstFit_least [OF assms] in auto)
  ultimately show ?thesis using Some by auto
qed

theorem FindFirstFit_exact_witness:
  "FindFirstFit \<lparr>fit_size = 8, fit_alignment = 4\<rparr> [\<lparr>range_begin = 4, range_end = 10\<rparr>] =
   (if \<exists>x. fits \<lparr>fit_size = 8, fit_alignment = 4\<rparr> [\<lparr>range_begin = 4, range_end = 10\<rparr>] x
    then Some (LEAST x. fits \<lparr>fit_size = 8, fit_alignment = 4\<rparr> [\<lparr>range_begin = 4, range_end = 10\<rparr>] x)
    else None)"
  by (rule FindFirstFit_exact) simp_all

text \<open>
  An offset returned by best fit is aligned, stays in the address space and touches no blocked
  byte.
\<close>
theorem FindBestFit_fits:
  assumes "fit_alignment request \<noteq> 0" "FindBestFit request blocked = Some o'"
  shows "fits request blocked o'"
  using assms by (rule best_fit.fit_sound)

theorem FindBestFit_fits_witness:
  "fits \<lparr>fit_size = 4, fit_alignment = 4\<rparr>
     [\<lparr>range_begin = 8, range_end = 20\<rparr>, \<lparr>range_begin = 24, range_end = 30\<rparr>] 20"
  by (rule FindBestFit_fits) code_simp+

section \<open>The placement engine\<close>

definition example_pinned :: DsaProblem where
  "example_pinned = example_problem\<lparr>pinned_allocations :=
     [\<lparr>pin_buffer = 1, pin_pool = 0, pin_offset = 16, exclusive_for_all_time = False\<rparr>,
      \<lparr>pin_buffer = 2, pin_pool = 0, pin_offset = 24, exclusive_for_all_time = False\<rparr>]\<rparr>"

text \<open>
  C37: when \<open>Prepare\<close> reports no error its super buffers are exactly the colocation classes of a
  well-formed problem: they partition the buffers, carry the maximum size, the least common multiple
  of the alignments, the common pools, the lifetimes and the agreed pin of their members, and the
  separations of the buffers relate the classes.
\<close>
theorem Prepare_classes:
  assumes "prepare_errors (Prepare p) = []"
  shows "well_formed p \<and> prepared_ok p (Prepare p)"
  by (rule Prepare_ok [OF assms])

theorem Prepare_classes_witness: "well_formed example_pinned \<and> prepared_ok example_pinned (Prepare example_pinned)"
  by (rule Prepare_classes) code_simp

text \<open>
  C11: a feasible result of \<open>PlaceWithOrder\<close> carries a valid solution of the problem as given,
  capacities included, with its own objective, for every priority order and both strategies.
\<close>
theorem PlaceWithOrder_feasible_valid:
  assumes "status (PlaceWithOrder p priority strategy) = kFeasible"
  shows "\<exists>s. solution (PlaceWithOrder p priority strategy) = Some s \<and> valid_solution p s \<and>
    res_objective (PlaceWithOrder p priority strategy) = EvaluateObjective p s"
  using PlaceWithOrder_feasible [OF assms] by (auto simp: ValidateSolution_Nil)

theorem PlaceWithOrder_feasible_valid_witness:
  "\<exists>s. solution (PlaceWithOrder example_problem [4, 2] kXlaSpatialBestFit) = Some s \<and>
    valid_solution example_problem s \<and>
    res_objective (PlaceWithOrder example_problem [4, 2] kXlaSpatialBestFit) = EvaluateObjective example_problem s"
  by (rule PlaceWithOrder_feasible_valid) code_simp

text \<open>
  C31: when \<open>PlaceWithOrder\<close> reports proven infeasibility no valid solution exists. The engine only
  places greedily, but everything it places itself is structurally valid, so a structural error means
  that the pins contradict the constraints.
\<close>
theorem PlaceWithOrder_infeasible_proven:
  assumes "status (PlaceWithOrder p priority strategy) = kInfeasibleProven"
  shows "\<nexists>s. valid_solution p s"
  using PlaceWithOrder_infeasible [OF assms] by blast

theorem PlaceWithOrder_infeasible_proven_witness: "\<nexists>s. valid_solution example_pinned s"
  by (rule PlaceWithOrder_infeasible_proven [of example_pinned "[]" kFirstFit]) code_simp

text \<open>
  Without pins the engine's placement always satisfies the structural constraints, so it never
  reports proven infeasibility.
\<close>
theorem PlaceWithOrder_unpinned_never_infeasible:
  assumes "pinned_allocations p = []"
  shows "status (PlaceWithOrder p priority strategy) \<noteq> kInfeasibleProven"
  by (rule PlaceWithOrder_unpinned [OF assms])

theorem PlaceWithOrder_unpinned_never_infeasible_witness:
  "status (PlaceWithOrder example_problem [3] kFirstFit) \<noteq> kInfeasibleProven"
  by (rule PlaceWithOrder_unpinned_never_infeasible) code_simp

section \<open>Solvers\<close>

text \<open>
  A solver is structurally compatible with a problem exactly when it supports every structural
  feature the problem uses.
\<close>
theorem CheckSolverCompatibility_structure:
  "StructurallyCompatible (CheckSolverCompatibility p c) =
    list_all (\<lambda>(used, supported). \<not> (used \<and> \<not> supported))
     [(list_ex (\<lambda>b. 1 < length (live_intervals b)) (buffers p), cap_multi_interval c),
      (colocations p \<noteq> [], cap_colocations c), (separations p \<noteq> [], cap_separations c),
      (temporal_exclusions p \<noteq> [], cap_temporal_exclusions c),
      (pinned_allocations p \<noteq> [], cap_pinned_allocations c),
      (list_ex (\<lambda>q. reserved_ranges q \<noteq> []) (pools p), cap_reserved_ranges c),
      (1 < length (pools p), cap_multi_pool c),
      (list_ex (\<lambda>b. 1 < length (allowed_pools b)) (buffers p), cap_flexible_pool_assignment c)]"
  unfolding structural_compatibility by (simp add: list_ex_iff)

text \<open>
  The first-fit solver meets the solver contract: a feasible answer carries a valid solution, an
  infeasible answer means that none exists.
\<close>
theorem FirstFit_contract:
  "(case (status (FirstFit_Solve p), solution (FirstFit_Solve p)) of
      (kFeasible, Some s) \<Rightarrow> valid_solution p s
    | (kFeasible, None) \<Rightarrow> False
    | (kInfeasibleProven, _) \<Rightarrow> (\<nexists>s. valid_solution p s)
    | _ \<Rightarrow> True)"
  using first_fit_solver.feasible_valid [of p] first_fit_solver.infeasible_sound [of p]
  by (auto simp: ValidateSolution_Nil split: SolveStatus.splits option.splits)

definition counting_source :: "nat RandomSource" where
  "counting_source = \<lparr>draw_index = (\<lambda>n g. (g mod n, g + 1)), draw_word = (\<lambda>g. (of_nat g, g + 1)),
                      seed_random = unat\<rparr>"

lemma counting_source_in_range: "in_range_source counting_source"
  by (simp add: in_range_source_def counting_source_def)

lemma counting_source_fair: "fair_source counting_source"
  unfolding fair_source_def
proof (intro allI impI)
  fix n i g :: nat
  assume "2 \<le> n"
  then have "g mod n \<noteq> Suc g mod n" by (metis Suc_1 Suc_n_not_le_n mod_Suc n_not_Suc_n nat.inject not_less_eq_eq le0 One_nat_def zero_neq_one)
  then show "\<exists>k. fst (draw_index counting_source n (((\<lambda>g. snd (draw_index counting_source n g)) ^^ k) g)) \<noteq> i"
    by (cases "g mod n = i") (auto simp: counting_source_def intro: exI [of _ 0] exI [of _ 1])
qed

text \<open>
  The local search always returns when its random source does not repeat one index forever: the
  rejection loop, the climbs and the restarts all end.
\<close>
theorem LocalSearch_returns:
  assumes "fair_source R"
  shows "\<exists>r. LocalSearch_Solve R options p = Some r"
  by (rule LocalSearch_Solve_total [OF assms])

theorem LocalSearch_returns_witness:
  "\<exists>r. LocalSearch_Solve counting_source
     \<lparr>ls_seed = 1, ls_max_iterations = 100, ls_restarts = 3, ls_stagnation_limit = 5\<rparr> example_problem = Some r"
  by (rule LocalSearch_returns [OF counting_source_fair])

text \<open>
  Whatever the random source draws, a compatible problem gets the engine's result for a
  permutation of the default placement order, and its score is not above the score of that order: the
  search never loses its first-fit baseline.
\<close>
theorem LocalSearch_keeps_baseline:
  assumes "LocalSearch_Solve R options p = Some r" "in_range_source R"
    and "Compatible (CheckSolverCompatibility p LocalSearch_Capabilities)"
  shows "\<exists>order ms. mset order = mset (DefaultPlacementOrder p) \<and>
    r = add_diagnostics ms (PlaceWithOrder p order kFirstFit) \<and>
    LocalSearch_ResultScore p r \<le>
      LocalSearch_ResultScore p (PlaceWithOrder p (DefaultPlacementOrder p) kFirstFit)"
  using assms(1,2)
proof (cases rule: LocalSearch_Solve_cases)
  case (placed order ms)
  moreover have "LocalSearch_ResultScore p (add_diagnostics ms x) = LocalSearch_ResultScore p x" for x
    by (simp add: LocalSearch_ResultScore_def add_diagnostics_def)
  ultimately show ?thesis by metis
qed (use assms(3) in simp)

end
